(* ===== verification/OMPI_Prelude.thy ===== *)
theory OMPI_Prelude
  imports
    Main
    "HOL-Library.Word"
    "HOL-Library.Signed_Division"
    "HOL-Library.Monad_Syntax"
begin

text \<open>
  What every component of the development shares: the return codes of
  \<^verbatim>\<open>opal/include/opal/constants.h\<close> and \<^verbatim>\<open>ompi/include/mpi.h\<close>, C arrays, and C loops.

  A C function is modelled by a HOL function into \<^typ>\<open>'a option\<close>.
  The value \<^const>\<open>None\<close> is undefined behaviour: a dereference of a null pointer, an index
  outside an array, a division by zero, a failed \<^verbatim>\<open>assert\<close>. Every result the C function
  returns, an error code included, is a \<^const>\<open>Some\<close>. A theorem that an operation is
  \<^const>\<open>Some\<close> on well-formed inputs therefore is a memory-safety theorem.

  An array is a list; its length is the size of the allocation. An index is an \<^typ>\<open>int\<close>.
  Memory that \<^verbatim>\<open>realloc\<close> hands out without clearing it holds an arbitrary value, which is an
  argument of the operation that allocates (\<^const>\<open>None\<close>: the allocation failed).
  The C type \<^verbatim>\<open>int\<close> is \<^typ>\<open>int\<close>; unsigned types whose wrap-around the code relies on are
  words. C division and remainder truncate towards zero (\<open>sdiv\<close>, \<open>smod\<close>).
\<close>

named_theorems rc_defs \<open>the return codes\<close>
named_theorems array_simps \<open>reading and writing arrays inside their bounds\<close>

unbundle bit_operations_syntax

section \<open>Return codes\<close>

definition OPAL_SUCCESS :: int where [rc_defs]: "OPAL_SUCCESS = 0"
definition OPAL_ERROR :: int where [rc_defs]: "OPAL_ERROR = - 1"
definition OPAL_ERR_OUT_OF_RESOURCE :: int where [rc_defs]: "OPAL_ERR_OUT_OF_RESOURCE = - 2"
definition OPAL_ERR_TEMP_OUT_OF_RESOURCE :: int where
  [rc_defs]: "OPAL_ERR_TEMP_OUT_OF_RESOURCE = - 3"
definition OPAL_ERR_BAD_PARAM :: int where [rc_defs]: "OPAL_ERR_BAD_PARAM = - 5"
definition OPAL_ERR_NOT_FOUND :: int where [rc_defs]: "OPAL_ERR_NOT_FOUND = - 13"

text \<open>Constants of \<^verbatim>\<open>mpi.h\<close>.\<close>

definition MPI_SUCCESS :: int where [rc_defs]: "MPI_SUCCESS = 0"
definition MPI_ERR_GROUP :: int where [rc_defs]: "MPI_ERR_GROUP = 9"
definition MPI_ERR_DIMS :: int where [rc_defs]: "MPI_ERR_DIMS = 12"
definition MPI_ERR_ARG :: int where [rc_defs]: "MPI_ERR_ARG = 13"
definition MPI_ERR_INTERN :: int where [rc_defs]: "MPI_ERR_INTERN = 17"
definition MPI_ERR_NO_MEM :: int where [rc_defs]: "MPI_ERR_NO_MEM = 39"
definition MPI_PROC_NULL :: int where [rc_defs]: "MPI_PROC_NULL = - 2"
definition MPI_UNDEFINED :: int where [rc_defs]: "MPI_UNDEFINED = - 32766"

definition INT_MAX :: int where "INT_MAX = 2147483647"

section \<open>Arrays\<close>

definition aget :: "'a list \<Rightarrow> int \<Rightarrow> 'a option" where
  "aget xs i = (if 0 \<le> i \<and> i < int (length xs) then Some (xs ! nat i) else None)"

definition aset :: "'a list \<Rightarrow> int \<Rightarrow> 'a \<Rightarrow> 'a list option" where
  "aset xs i v = (if 0 \<le> i \<and> i < int (length xs) then Some (xs[nat i := v]) else None)"

text \<open>\<open>amemset xs off v n\<close>: \<^verbatim>\<open>n\<close> cells from \<^verbatim>\<open>off\<close> on are set to \<^verbatim>\<open>v\<close>.\<close>

definition amemset :: "'a list \<Rightarrow> int \<Rightarrow> 'a \<Rightarrow> int \<Rightarrow> 'a list option" where
  "amemset xs off v n =
     (if 0 \<le> off \<and> 0 \<le> n \<and> off + n \<le> int (length xs)
      then Some (take (nat off) xs @ replicate (nat n) v @ drop (nat (off + n)) xs)
      else None)"

text \<open>\<open>arealloc junk xs n\<close>: the first \<^verbatim>\<open>n\<close> cells survive, fresh ones hold \<open>junk\<close>.\<close>

definition arealloc :: "'a \<Rightarrow> 'a list \<Rightarrow> int \<Rightarrow> 'a list" where
  "arealloc junk xs n = take (nat n) xs @ replicate (nat n - length xs) junk"

text \<open>\<open>asub xs off n\<close>: \<^verbatim>\<open>n\<close> cells from \<^verbatim>\<open>off\<close> on are read, none when \<^verbatim>\<open>n\<close> is not positive.\<close>

definition asub :: "'a list \<Rightarrow> int \<Rightarrow> int \<Rightarrow> 'a list option" where
  "asub xs off n =
     (if n \<le> 0 then Some []
      else if 0 \<le> off \<and> off + n \<le> int (length xs) then Some (take (nat n) (drop (nat off) xs))
      else None)"

lemma aget_Some [array_simps]: "0 \<le> i \<Longrightarrow> i < int (length xs) \<Longrightarrow> aget xs i = Some (xs ! nat i)"
  by (simp add: aget_def)

lemma aget_int [simp]: "i < length xs \<Longrightarrow> aget xs (int i) = Some (xs ! i)"
  by (simp add: aget_def)

lemma aget_eq_None: "aget xs i = None \<longleftrightarrow> i < 0 \<or> int (length xs) \<le> i"
  by (auto simp: aget_def)

lemma aget_SomeD: "aget xs i = Some x \<Longrightarrow> 0 \<le> i \<and> i < int (length xs) \<and> x = xs ! nat i"
  by (auto simp: aget_def split: if_splits)

lemma aset_Some [array_simps]:
  "0 \<le> i \<Longrightarrow> i < int (length xs) \<Longrightarrow> aset xs i v = Some (xs[nat i := v])"
  by (simp add: aset_def)

lemma aset_eq_None: "aset xs i v = None \<longleftrightarrow> i < 0 \<or> int (length xs) \<le> i"
  by (auto simp: aset_def)

lemma aset_int [simp]: "i < length xs \<Longrightarrow> aset xs (int i) v = Some (xs[i := v])"
  by (simp add: aset_def)

lemma aset_length: "aset xs i v = Some ys \<Longrightarrow> length ys = length xs"
  by (auto simp: aset_def split: if_splits)

lemma amemset_all [array_simps]: "n = int (length xs) \<Longrightarrow> amemset xs 0 v n = Some (replicate (length xs) v)"
  by (simp add: amemset_def)

lemma length_arealloc [simp]: "length (arealloc junk xs n) = nat n"
  by (simp add: arealloc_def)

text \<open>Growing an array and clearing the fresh part: nothing of the junk is left.\<close>

lemma amemset_arealloc [array_simps]:
  assumes "int (length xs) \<le> n"
  shows "amemset (arealloc junk xs n) (int (length xs)) v (n - int (length xs))
           = Some (xs @ replicate (nat n - length xs) v)"
  using assms by (simp add: amemset_def arealloc_def nat_diff_distrib)

text \<open>One step of a loop that fills an array from its start.\<close>

lemma aset_fill:
  "length xs < n \<Longrightarrow> i = int (length xs) \<Longrightarrow>
     aset (xs @ replicate (n - length xs) y) i v = Some (xs @ v # replicate (n - Suc (length xs)) y)"
  by (cases "n - length xs") (auto simp: list_update_append)

section \<open>Loops\<close>

text \<open>A \<^verbatim>\<open>for\<close> loop whose body may fault.\<close>

fun ofold :: "('i \<Rightarrow> 's \<Rightarrow> 's option) \<Rightarrow> 'i list \<Rightarrow> 's \<Rightarrow> 's option" where
  "ofold f [] s = Some s"
| "ofold f (x # xs) s = (case f x s of None \<Rightarrow> None | Some s' \<Rightarrow> ofold f xs s')"

text \<open>A \<^verbatim>\<open>for\<close> loop that looks for the first index with a property and then breaks.\<close>

fun ofind :: "('i \<Rightarrow> bool option) \<Rightarrow> 'i list \<Rightarrow> 'i option option" where
  "ofind p [] = Some None"
| "ofind p (x # xs) =
     (case p x of None \<Rightarrow> None
      | Some b \<Rightarrow> if b then Some (Some x) else ofind p xs)"

lemma ofold_append:
  "ofold f (xs @ ys) s = (case ofold f xs s of None \<Rightarrow> None | Some s' \<Rightarrow> ofold f ys s')"
  by (induction xs arbitrary: s) (auto split: option.splits)

text \<open>Total correctness of a counting loop, by an invariant indexed by the counter.\<close>

lemma ofold_upt_inv:
  assumes "P 0 s"
    and "\<And>i s. i < n \<Longrightarrow> P i s \<Longrightarrow> \<exists>s'. f i s = Some s' \<and> P (Suc i) s'"
  shows "\<exists>s'. ofold f [0..<n] s = Some s' \<and> P n s'"
proof -
  have "m \<le> n \<Longrightarrow> \<exists>s'. ofold f [0..<m] s = Some s' \<and> P m s'" for m
  proof (induction m)
    case 0
    with assms(1) show ?case by simp
  next
    case (Suc m)
    then obtain s' where s': "ofold f [0..<m] s = Some s'" "P m s'" by auto
    moreover from assms(2) [OF _ s'(2)] Suc.prems obtain s'' where
      "f m s' = Some s''" "P (Suc m) s''" by auto
    ultimately show ?case by (simp add: ofold_append)
  qed
  then show ?thesis by blast
qed

text \<open>An invariant of the body holds after the loop, if the loop does not fault.\<close>

lemma ofold_keeps:
  assumes "ofold f xs s = Some s'" "P s"
    and "\<And>x s s'. x \<in> set xs \<Longrightarrow> P s \<Longrightarrow> f x s = Some s' \<Longrightarrow> P s'"
  shows "P s'"
  using assms
proof (induction xs arbitrary: s)
  case (Cons x xs)
  from Cons.prems(1) obtain s1 where "f x s = Some s1" "ofold f xs s1 = Some s'"
    by (auto split: option.splits)
  then show ?case using Cons.IH [of s1] Cons.prems(2,3) by (metis list.set_intros)
qed simp

lemma ofold_map: "ofold f (map g xs) s = ofold (\<lambda>x. f (g x)) xs s"
  by (induction xs arbitrary: s) (auto split: option.splits)

lemma ofold_cong:
  "(\<And>x s. x \<in> set xs \<Longrightarrow> f x s = g x s) \<Longrightarrow> ofold f xs s = ofold g xs s"
  by (induction xs arbitrary: s) (auto split: option.splits)

lemma ofold_total:
  "(\<And>x s. x \<in> set xs \<Longrightarrow> f x s = Some (g x s)) \<Longrightarrow> ofold f xs s = Some (fold g xs s)"
  by (induction xs arbitrary: s) auto

lemma ofind_total:
  "(\<And>x. x \<in> set xs \<Longrightarrow> p x = Some (q x)) \<Longrightarrow> ofind p xs = Some (find q xs)"
  by (induction xs) auto

lemma find_upt_None: "find p [m..<n] = None \<longleftrightarrow> (\<forall>i. m \<le> i \<and> i < n \<longrightarrow> \<not> p i)"
  by (auto simp: find_None_iff)

lemma find_upt_Some:
  "find p [m..<n] = Some k \<longleftrightarrow> m \<le> k \<and> k < n \<and> p k \<and> (\<forall>i. m \<le> i \<and> i < k \<longrightarrow> \<not> p i)"
proof -
  have "(\<exists>i < length [m..<n]. p ([m..<n] ! i) \<and> k = [m..<n] ! i \<and> (\<forall>j<i. \<not> p ([m..<n] ! j)))
      \<longleftrightarrow> m \<le> k \<and> k < n \<and> p k \<and> (\<forall>i. m \<le> i \<and> i < k \<longrightarrow> \<not> p i)" (is "?L \<longleftrightarrow> ?R")
  proof
    assume ?L
    then obtain i where i: "i < n - m" "p (m + i)" "k = m + i" "\<forall>j<i. \<not> p (m + j)" by auto
    have "\<not> p j" if "m \<le> j" "j < k" for j
      using i(3,4) that by (metis le_add_diff_inverse nat_add_left_cancel_less)
    with i show ?R by simp
  next
    assume ?R
    then show ?L by (intro exI [of _ "k - m"]) auto
  qed
  then show ?thesis by (simp only: find_Some_iff)
qed

text \<open>
  Code that may end the process: \<^const>\<open>Inl\<close> is the status passed to \<^verbatim>\<open>exit\<close>. \<open>ebind\<close> is the
  sequence of two statements, \<open>efold\<close> a \<^verbatim>\<open>for\<close> loop.
\<close>

fun ebind :: "('e + 'a) option \<Rightarrow> ('a \<Rightarrow> ('e + 'b) option) \<Rightarrow> ('e + 'b) option" where
  "ebind None f = None"
| "ebind (Some (Inl e)) f = Some (Inl e)"
| "ebind (Some (Inr x)) f = f x"

fun efold :: "('i \<Rightarrow> 's \<Rightarrow> ('e + 's) option) \<Rightarrow> 'i list \<Rightarrow> 's \<Rightarrow> ('e + 's) option" where
  "efold f [] s = Some (Inr s)"
| "efold f (x # xs) s = ebind (f x s) (efold f xs)"

lemma efold_append: "efold f (xs @ ys) s = ebind (efold f xs s) (efold f ys)"
proof (induction xs arbitrary: s)
  case (Cons x xs)
  then show ?case by (cases "f x s" rule: ebind.cases [of "(_, _)", simplified]) (auto split: option.splits sum.splits)
qed simp

lemma efold_upt_inv:
  assumes "P 0 s"
    and "\<And>i s. i < n \<Longrightarrow> P i s \<Longrightarrow> \<exists>s'. f i s = Some (Inr s') \<and> P (Suc i) s'"
  shows "\<exists>s'. efold f [0..<n] s = Some (Inr s') \<and> P n s'"
proof -
  have "m \<le> n \<Longrightarrow> \<exists>s'. efold f [0..<m] s = Some (Inr s') \<and> P m s'" for m
  proof (induction m)
    case 0
    with assms(1) show ?case by simp
  next
    case (Suc m)
    then obtain s' where s': "efold f [0..<m] s = Some (Inr s')" "P m s'" by auto
    moreover from assms(2) [OF _ s'(2)] Suc.prems obtain s'' where
      "f m s' = Some (Inr s'')" "P (Suc m) s''" by auto
    ultimately show ?case by (simp add: efold_append)
  qed
  then show ?thesis by blast
qed

text \<open>An invariant of a loop that has run to its end.\<close>

lemma efold_upt_keeps:
  assumes "efold f [0..<n] s = Some (Inr s')" "P 0 s"
    and "\<And>i s s'. i < n \<Longrightarrow> P i s \<Longrightarrow> f i s = Some (Inr s') \<Longrightarrow> P (Suc i) s'"
  shows "P n s'"
proof -
  have "m \<le> n \<Longrightarrow> efold f [0..<m] s = Some (Inr t) \<Longrightarrow> P m t" for m t
  proof (induction m arbitrary: t)
    case (Suc m)
    then obtain u where "efold f [0..<m] s = Some (Inr u)" "f m u = Some (Inr t)"
      by (cases "efold f [0..<m] s" rule: ebind.cases [of "(_, _)", simplified])
        (auto simp: efold_append elim: ebind.elims)
    with Suc.IH [of u] Suc.prems assms(3) [of m u t] show ?case by simp
  qed (use assms(2) in simp)
  with assms(1) show ?thesis by blast
qed

text \<open>The same for a body that may end the process, with status \<open>e\<close> and only if \<open>Q\<close>.\<close>

lemma efold_upt_inv_exit:
  assumes "P 0 s"
    and "\<And>i s. i < n \<Longrightarrow> P i s \<Longrightarrow> f i s = Some (Inl e) \<and> Q \<or> (\<exists>s'. f i s = Some (Inr s') \<and> P (Suc i) s')"
  shows "efold f [0..<n] s = Some (Inl e) \<and> Q \<or> (\<exists>s'. efold f [0..<n] s = Some (Inr s') \<and> P n s')"
proof -
  have "m \<le> n \<Longrightarrow> efold f [0..<m] s = Some (Inl e) \<and> Q \<or> (\<exists>s'. efold f [0..<m] s = Some (Inr s') \<and> P m s')" for m
  proof (induction m)
    case 0
    with assms(1) show ?case by simp
  next
    case (Suc m)
    then consider "efold f [0..<m] s = Some (Inl e)" Q | s' where "efold f [0..<m] s = Some (Inr s')" "P m s'" by auto
    then show ?case
    proof cases
      case 2
      with assms(2) [OF _ 2(2)] Suc.prems show ?thesis by (auto simp: efold_append)
    qed (simp add: efold_append)
  qed
  then show ?thesis by blast
qed

section \<open>C division\<close>

lemma sdiv_nonneg: "0 \<le> a \<Longrightarrow> 0 \<le> b \<Longrightarrow> a sdiv b = a div b" for a b :: int
  by (cases "a = 0"; cases "b = 0") (simp_all add: signed_divide_int_def)

lemma smod_nonneg: "0 \<le> a \<Longrightarrow> 0 \<le> b \<Longrightarrow> a smod b = a mod b" for a b :: int
  by (rule smod_mod_positive)

lemma int_sdiv_int [simp]: "int a sdiv int b = int (a div b)"
  by (simp add: sdiv_nonneg zdiv_int)

lemma int_smod_int [simp]: "int a smod int b = int (a mod b)"
  by (simp add: smod_nonneg zmod_int)

section \<open>Words\<close>

text \<open>The C expression \<^verbatim>\<open>1 << n\<close> is \<open>push_bit n 1\<close>, which the simplifier writes \<open>2 ^ n\<close>.\<close>

lemma bit_set_bit_or:
  fixes w :: "'a::len word"
  shows "n < LENGTH('a) \<Longrightarrow> bit (w OR 2 ^ n) k \<longleftrightarrow> bit w k \<or> k = n"
  by (auto simp: bit_simps dest: bit_imp_le_length)

lemma bit_clear_bit_and:
  fixes w :: "'a::len word"
  shows "bit (w AND NOT (2 ^ n)) k \<longleftrightarrow> bit w k \<and> k \<noteq> n"
  by (auto simp: bit_simps dest: bit_imp_le_length)

lemma and_2_power_eq_0:
  fixes w :: "'a::len word"
  shows "w AND 2 ^ n = 0 \<longleftrightarrow> \<not> bit w n"
proof
  assume "w AND 2 ^ n = 0"
  then have "\<not> bit (w AND 2 ^ n) n" by simp
  then show "\<not> bit w n" by (auto simp: bit_simps dest: bit_imp_le_length)
next
  assume "\<not> bit w n"
  then show "w AND 2 ^ n = 0" by (intro bit_word_eqI) (auto simp: bit_simps)
qed

text \<open>Adding one to an odd word is adding one to its upper half.\<close>

lemma odd_word_plus_1:
  fixes w :: "'a::len word"
  assumes "bit w 0"
  shows "w + 1 = push_bit 1 (drop_bit 1 w + 1)"
proof -
  have "odd (unat w)" using assms by (simp add: bit_0 [symmetric] bit_unsigned_iff)
  then have "unat w + 1 = 2 * (unat w div 2 + 1)" by presburger
  then have "word_of_nat (unat w + 1) = (2 * (word_of_nat (unat w div 2) + 1) :: 'a word)"
    by (simp only: of_nat_mult of_nat_add of_nat_numeral of_nat_1)
  moreover have "unat (drop_bit 1 w) = unat w div 2"
    by (subst unat_drop_bit_eq) (simp add: drop_bit_eq_div)
  then have "word_of_nat (unat w div 2) = drop_bit 1 w"
    by (metis of_nat_unat ucast_id)
  ultimately show ?thesis by (simp add: push_bit_eq_mult mult.commute of_nat_unat)
qed

lemma bit_odd_word_plus_1:
  fixes w :: "'a::len word"
  assumes "bit w 0" "Suc m < LENGTH('a)"
  shows "bit (w + 1) (Suc m) = bit (drop_bit 1 w + 1) m"
  unfolding odd_word_plus_1 [OF assms(1)] using assms(2)
  by (simp only: bit_push_bit_iff) (simp add: bit_simps)

lemma byte_ff: "(0xff :: 8 word) = - 1"
  by simp

end
