(* ===== verification/Id_Allocator.thy ===== *)
theory Id_Allocator
  imports OMPI_Prelude
begin

text \<open>
  Several containers of OPAL hand out small integers that stand for something else: the bitmap
  (\<^verbatim>\<open>opal_bitmap_find_and_set_first_unset_bit\<close>), the pointer array (\<^verbatim>\<open>opal_pointer_array_add\<close>),
  the hotel (\<^verbatim>\<open>opal_hotel_checkin\<close>). The contract they share is stated once, as a locale over
  the set of the numbers in use; the theories of the three containers interpret it.
\<close>

text \<open>\<open>n\<close> allocations in a row; \<^const>\<open>None\<close> as soon as one of them fails.\<close>

fun alloc_n :: "('s \<Rightarrow> (nat \<times> 's) option) \<Rightarrow> nat \<Rightarrow> 's \<Rightarrow> (nat list \<times> 's) option" where
  "alloc_n alloc 0 s = Some ([], s)"
| "alloc_n alloc (Suc n) s =
     (case alloc s of None \<Rightarrow> None
      | Some (i, s') \<Rightarrow>
          (case alloc_n alloc n s' of None \<Rightarrow> None | Some (is, s'') \<Rightarrow> Some (i # is, s'')))"

fun_cases alloc_n_SucE: "alloc_n alloc (Suc n) s = Some r"

locale id_allocator =
  fixes invar :: "'s \<Rightarrow> bool"
    and used :: "'s \<Rightarrow> nat set"
    and alloc :: "'s \<Rightarrow> (nat \<times> 's) option"
  assumes alloc_invar: "invar s \<Longrightarrow> alloc s = Some (i, s') \<Longrightarrow> invar s'"
    and alloc_fresh: "invar s \<Longrightarrow> alloc s = Some (i, s') \<Longrightarrow> i \<notin> used s"
    and alloc_used: "invar s \<Longrightarrow> alloc s = Some (i, s') \<Longrightarrow> used s' = insert i (used s)"
begin

lemma alloc_n_distinct:
  "invar s \<Longrightarrow> alloc_n alloc n s = Some (is, s') \<Longrightarrow>
     invar s' \<and> length is = n \<and> distinct is \<and> set is \<inter> used s = {} \<and> used s' = used s \<union> set is"
proof (induction n arbitrary: s "is")
  case 0
  then show ?case by simp
next
  case (Suc n)
  then obtain i s1 js where s1: "alloc s = Some (i, s1)" "alloc_n alloc n s1 = Some (js, s')"
    and "is": "is = i # js" by (auto split: option.splits prod.splits)
  from Suc.prems(1) s1(1) have inv1: "invar s1" by (rule alloc_invar)
  with Suc.IH [OF inv1 s1(2)] alloc_fresh [OF Suc.prems(1) s1(1)] alloc_used [OF Suc.prems(1) s1(1)]
  show ?case by (auto simp: "is")
qed

end

locale lowest_id_allocator = id_allocator invar used alloc
  for invar :: "'s \<Rightarrow> bool" and used :: "'s \<Rightarrow> nat set" and alloc :: "'s \<Rightarrow> (nat \<times> 's) option" +
  assumes alloc_least: "invar s \<Longrightarrow> alloc s = Some (i, s') \<Longrightarrow> i = (LEAST k. k \<notin> used s)"
begin

lemma alloc_n_upt:
  "invar s \<Longrightarrow> used s = {..<m} \<Longrightarrow> alloc_n alloc n s = Some (is, s') \<Longrightarrow> is = [m..<m + n]"
proof (induction n arbitrary: s "is" m)
  case 0
  then show ?case by simp
next
  case (Suc n)
  then obtain i s1 js where s1: "alloc s = Some (i, s1)" "alloc_n alloc n s1 = Some (js, s')"
    and "is": "is = i # js" by (auto split: option.splits prod.splits)
  have "(LEAST k. k \<notin> {..<m}) = m" by (rule Least_equality) auto
  with alloc_least [OF Suc.prems(1) s1(1)] Suc.prems(2) have i: "i = m" by simp
  with alloc_used [OF Suc.prems(1) s1(1)] Suc.prems(2) have "used s1 = {..<Suc m}"
    by (simp add: lessThan_Suc)
  from Suc.IH [OF alloc_invar [OF Suc.prems(1) s1(1)] this s1(2)] i show ?case
    by (simp add: "is" upt_conv_Cons)
qed

end

locale capped_id_allocator = lowest_id_allocator invar used alloc
  for invar :: "'s \<Rightarrow> bool" and used :: "'s \<Rightarrow> nat set" and alloc :: "'s \<Rightarrow> (nat \<times> 's) option" +
  fixes cap :: "'s \<Rightarrow> nat"
  assumes alloc_total: "invar s \<Longrightarrow> (LEAST k. k \<notin> used s) < cap s \<Longrightarrow> \<exists>i s'. alloc s = Some (i, s')"
    and alloc_cap: "invar s \<Longrightarrow> alloc s = Some (i, s') \<Longrightarrow> cap s' = cap s"
begin

lemma alloc_n_succeeds:
  "invar s \<Longrightarrow> used s = {..<m} \<Longrightarrow> m + n \<le> cap s \<Longrightarrow> \<exists>s'. alloc_n alloc n s = Some ([m..<m + n], s')"
proof (induction n arbitrary: s m)
  case 0
  then show ?case by simp
next
  case (Suc n)
  have least: "(LEAST k. k \<notin> {..<m}) = m" by (rule Least_equality) auto
  with Suc.prems obtain i s1 where s1: "alloc s = Some (i, s1)"
    using alloc_total [OF Suc.prems(1)] by auto
  with least alloc_least [OF Suc.prems(1) s1] Suc.prems(2) have i: "i = m" by simp
  with alloc_used [OF Suc.prems(1) s1] Suc.prems(2) have "used s1 = {..<Suc m}"
    by (simp add: lessThan_Suc)
  from Suc.IH [OF alloc_invar [OF Suc.prems(1) s1] this] alloc_cap [OF Suc.prems(1) s1] Suc.prems(3)
  obtain s' where "alloc_n alloc n s1 = Some ([Suc m..<Suc m + n], s')" by auto
  with s1 i show ?case by (simp add: upt_conv_Cons)
qed

end

end
