(* ===== verification/Opal_Bitmap.thy ===== *)
theory Opal_Bitmap
  imports Id_Allocator
begin

text \<open>
  The growable bitmap of \<^verbatim>\<open>opal/class/opal_bitmap.c\<close>: one definition per function, on the
  record of the C struct. A pointer argument that the code tests against \<^verbatim>\<open>NULL\<close> is an
  option. The abstraction of a bitmap is the set of its set bits (\<open>bm_bits\<close>); the lemmas
  show what each operation does to that set and that none of them leaves the allocation.
\<close>

section \<open>The struct and its operations\<close>

record opal_bitmap_t =
  bm_bitmap :: "8 word list option"
  bm_array_size :: int
  bm_max_size :: int

definition SIZE_OF_CHAR :: int where "SIZE_OF_CHAR = 8"

definition opal_bitmap_construct :: opal_bitmap_t where
  "opal_bitmap_construct = \<lparr>bm_bitmap = None, bm_array_size = 0, bm_max_size = INT_MAX\<rparr>"

definition opal_bitmap_destruct :: "opal_bitmap_t \<Rightarrow> opal_bitmap_t" where
  "opal_bitmap_destruct bm =
     (if bm_bitmap bm \<noteq> None then bm\<lparr>bm_bitmap := None\<rparr> else bm)"

definition opal_bitmap_set_max_size ::
    "opal_bitmap_t option \<Rightarrow> int \<Rightarrow> int \<times> opal_bitmap_t option" where
  "opal_bitmap_set_max_size bmp max_size =
     (case bmp of None \<Rightarrow> (OPAL_ERR_BAD_PARAM, None)
      | Some bm \<Rightarrow>
          let actual_size = max_size sdiv SIZE_OF_CHAR
                + (if max_size smod SIZE_OF_CHAR = 0 then 0 else 1)
          in (OPAL_SUCCESS, Some (bm\<lparr>bm_max_size := actual_size\<rparr>)))"

definition opal_bitmap_clear_all_bits ::
    "opal_bitmap_t option \<Rightarrow> (int \<times> opal_bitmap_t option) option" where
  "opal_bitmap_clear_all_bits bmp =
     (case bmp of None \<Rightarrow> Some (OPAL_ERR_BAD_PARAM, None)
      | Some bm \<Rightarrow> do {
          bs \<leftarrow> bm_bitmap bm;
          bs' \<leftarrow> amemset bs 0 0 (bm_array_size bm);
          Some (OPAL_SUCCESS, Some (bm\<lparr>bm_bitmap := Some bs'\<rparr>)) })"

definition opal_bitmap_set_all_bits ::
    "opal_bitmap_t option \<Rightarrow> (int \<times> opal_bitmap_t option) option" where
  "opal_bitmap_set_all_bits bmp =
     (case bmp of None \<Rightarrow> Some (OPAL_ERR_BAD_PARAM, None)
      | Some bm \<Rightarrow> do {
          bs \<leftarrow> bm_bitmap bm;
          bs' \<leftarrow> amemset bs 0 0xff (bm_array_size bm);
          Some (OPAL_SUCCESS, Some (bm\<lparr>bm_bitmap := Some bs'\<rparr>)) })"

text \<open>The first argument is what \<^verbatim>\<open>malloc\<close> answers: \<^const>\<open>None\<close>, or memory full of some byte.\<close>

definition opal_bitmap_init ::
    "8 word option \<Rightarrow> opal_bitmap_t option \<Rightarrow> int \<Rightarrow> (int \<times> opal_bitmap_t option) option" where
  "opal_bitmap_init mem bmp nbits =
     (case bmp of None \<Rightarrow> Some (OPAL_ERR_BAD_PARAM, None)
      | Some bm \<Rightarrow>
          if nbits \<le> 0 \<or> bm_max_size bm < nbits then Some (OPAL_ERR_BAD_PARAM, Some bm)
          else
            let actual_size = nbits sdiv SIZE_OF_CHAR
                  + (if nbits smod SIZE_OF_CHAR = 0 then 0 else 1);
                bm1 = bm\<lparr>bm_array_size := actual_size\<rparr>
            in (case mem of
                 None \<Rightarrow> Some (OPAL_ERR_OUT_OF_RESOURCE, Some (bm1\<lparr>bm_bitmap := None\<rparr>))
               | Some junk \<Rightarrow> do {
                   (_, bm2) \<leftarrow> opal_bitmap_clear_all_bits
                     (Some (bm1\<lparr>bm_bitmap := Some (arealloc junk [] actual_size)\<rparr>));
                   Some (OPAL_SUCCESS, bm2) }))"

definition opal_bitmap_set_bit ::
    "8 word option \<Rightarrow> opal_bitmap_t option \<Rightarrow> int \<Rightarrow> (int \<times> opal_bitmap_t option) option" where
  "opal_bitmap_set_bit mem bmp bitno =
     (case bmp of None \<Rightarrow> Some (OPAL_ERR_BAD_PARAM, None)
      | Some bm \<Rightarrow>
          if bitno < 0 \<or> bm_max_size bm < bitno then Some (OPAL_ERR_BAD_PARAM, Some bm)
          else
            let index = bitno sdiv SIZE_OF_CHAR; offset = bitno smod SIZE_OF_CHAR;
                or_in = (\<lambda>b. do {
                  bs \<leftarrow> bm_bitmap b;
                  byte \<leftarrow> aget bs index;
                  bs' \<leftarrow> aset bs index (byte OR push_bit (nat offset) 1);
                  Some (OPAL_SUCCESS, Some (b\<lparr>bm_bitmap := Some bs'\<rparr>)) })
            in if bm_array_size bm \<le> index then
                 (if bm_array_size bm = 0 then None
                  else
                    let new_size = (index sdiv bm_array_size bm + 1) * bm_array_size bm
                    in (case mem of
                         None \<Rightarrow> Some (OPAL_ERR_OUT_OF_RESOURCE, Some (bm\<lparr>bm_bitmap := None\<rparr>))
                       | Some junk \<Rightarrow> do {
                           let old = (case bm_bitmap bm of None \<Rightarrow> [] | Some bs \<Rightarrow> bs);
                           bs' \<leftarrow> amemset (arealloc junk old new_size) (bm_array_size bm) 0
                                     (new_size - bm_array_size bm);
                           or_in (bm\<lparr>bm_bitmap := Some bs', bm_array_size := new_size\<rparr>) }))
               else or_in bm)"

definition opal_bitmap_clear_bit ::
    "opal_bitmap_t option \<Rightarrow> int \<Rightarrow> (int \<times> opal_bitmap_t option) option" where
  "opal_bitmap_clear_bit bmp bitno =
     (case bmp of None \<Rightarrow> Some (OPAL_ERR_BAD_PARAM, None)
      | Some bm \<Rightarrow>
          if bitno < 0 \<or> bm_array_size bm * SIZE_OF_CHAR \<le> bitno
          then Some (OPAL_ERR_BAD_PARAM, Some bm)
          else
            let index = bitno sdiv SIZE_OF_CHAR; offset = bitno smod SIZE_OF_CHAR
            in if bm_array_size bm \<le> index then Some (OPAL_ERR_BAD_PARAM, Some bm)
               else do {
                 bs \<leftarrow> bm_bitmap bm;
                 byte \<leftarrow> aget bs index;
                 bs' \<leftarrow> aset bs index (byte AND NOT (push_bit (nat offset) 1));
                 Some (OPAL_SUCCESS, Some (bm\<lparr>bm_bitmap := Some bs'\<rparr>)) })"

definition opal_bitmap_is_set_bit :: "opal_bitmap_t option \<Rightarrow> int \<Rightarrow> bool option" where
  "opal_bitmap_is_set_bit bmp bitno =
     (case bmp of None \<Rightarrow> Some False
      | Some bm \<Rightarrow>
          if bitno < 0 \<or> bm_array_size bm * SIZE_OF_CHAR \<le> bitno then Some False
          else
            let index = bitno sdiv SIZE_OF_CHAR; offset = bitno smod SIZE_OF_CHAR
            in if bm_array_size bm \<le> index then Some False
               else do {
                 bs \<leftarrow> bm_bitmap bm;
                 byte \<leftarrow> aget bs index;
                 Some (byte AND push_bit (nat offset) 1 \<noteq> 0) })"

text \<open>The loop \<^verbatim>\<open>while (temp & 0x1) { ++(*position); temp >>= 1; }\<close>.\<close>

function count_low_ones :: "8 word \<Rightarrow> int \<Rightarrow> int" where
  "count_low_ones temp position =
     (if temp AND 1 \<noteq> 0 then count_low_ones (drop_bit 1 temp) (position + 1) else position)"
  by pat_completeness auto
termination
proof (relation "measure (\<lambda>(temp, _). unat temp)")
  fix temp :: "8 word" and position :: int
  assume "temp AND 1 \<noteq> 0"
  then have "0 < unat temp" by (metis and_zero_eq bot_nat_0.not_eq_extremum unat_eq_zero zero_and_eq)
  then show "((drop_bit 1 temp, position + 1), temp, position) \<in> measure (\<lambda>(temp, _). unat temp)"
    by (simp add: drop_bit_eq_div unat_div)
qed simp

declare count_low_ones.simps [simp del]

text \<open>The result carries \<^verbatim>\<open>*position\<close> beside the return code.\<close>

definition opal_bitmap_find_and_set_first_unset_bit ::
    "8 word option \<Rightarrow> opal_bitmap_t option \<Rightarrow> (int \<times> int \<times> opal_bitmap_t option) option" where
  "opal_bitmap_find_and_set_first_unset_bit mem bmp =
     (case bmp of None \<Rightarrow> Some (OPAL_ERR_BAD_PARAM, 0, None)
      | Some bm \<Rightarrow> do {
          found \<leftarrow> ofind (\<lambda>i. do { bs \<leftarrow> bm_bitmap bm; byte \<leftarrow> aget bs (int i); Some (byte \<noteq> 0xff) })
                      [0..<nat (bm_array_size bm)];
          case found of
            None \<Rightarrow> do {
              let position = bm_array_size bm * SIZE_OF_CHAR;
              (rc, bm') \<leftarrow> opal_bitmap_set_bit mem (Some bm) position;
              Some (rc, position, bm') }
          | Some i \<Rightarrow> do {
              bs \<leftarrow> bm_bitmap bm;
              byte \<leftarrow> aget bs (int i);
              bs' \<leftarrow> aset bs (int i) (byte OR (byte + 1));
              Some (OPAL_SUCCESS, count_low_ones byte 0 + int i * SIZE_OF_CHAR,
                    Some (bm\<lparr>bm_bitmap := Some bs'\<rparr>)) } })"

text \<open>The three in-place combinations share one loop.\<close>

definition bitwise_inplace ::
    "(8 word \<Rightarrow> 8 word \<Rightarrow> 8 word) \<Rightarrow> opal_bitmap_t option \<Rightarrow> opal_bitmap_t option
       \<Rightarrow> (int \<times> opal_bitmap_t option) option" where
  "bitwise_inplace f destp rightp =
     (case (destp, rightp) of
        (Some dest, Some right) \<Rightarrow>
          if bm_array_size dest \<noteq> bm_array_size right then Some (OPAL_ERR_BAD_PARAM, destp)
          else do {
            dest' \<leftarrow> ofold (\<lambda>i d. do {
                ls \<leftarrow> bm_bitmap d;
                rs \<leftarrow> bm_bitmap right;
                l \<leftarrow> aget ls (int i);
                r \<leftarrow> aget rs (int i);
                ls' \<leftarrow> aset ls (int i) (f l r);
                Some (d\<lparr>bm_bitmap := Some ls'\<rparr>) }) [0..<nat (bm_array_size dest)] dest;
            Some (OPAL_SUCCESS, Some dest') }
      | _ \<Rightarrow> Some (OPAL_ERR_BAD_PARAM, destp))"

definition opal_bitmap_bitwise_and_inplace ::
    "opal_bitmap_t option \<Rightarrow> opal_bitmap_t option \<Rightarrow> (int \<times> opal_bitmap_t option) option" where
  "opal_bitmap_bitwise_and_inplace = bitwise_inplace (AND)"

definition opal_bitmap_bitwise_or_inplace ::
    "opal_bitmap_t option \<Rightarrow> opal_bitmap_t option \<Rightarrow> (int \<times> opal_bitmap_t option) option" where
  "opal_bitmap_bitwise_or_inplace = bitwise_inplace (OR)"

definition opal_bitmap_bitwise_xor_inplace ::
    "opal_bitmap_t option \<Rightarrow> opal_bitmap_t option \<Rightarrow> (int \<times> opal_bitmap_t option) option" where
  "opal_bitmap_bitwise_xor_inplace = bitwise_inplace (XOR)"

definition opal_bitmap_size :: "opal_bitmap_t option \<Rightarrow> int" where
  "opal_bitmap_size bmp = (case bmp of None \<Rightarrow> 0 | Some bm \<Rightarrow> bm_array_size bm * SIZE_OF_CHAR)"

text \<open>\<^verbatim>\<open>return OPAL_ERR_BAD_PARAM\<close> in a function of type \<^verbatim>\<open>bool\<close> is \<^verbatim>\<open>true\<close>.\<close>

definition opal_bitmap_are_different ::
    "opal_bitmap_t option \<Rightarrow> opal_bitmap_t option \<Rightarrow> bool option" where
  "opal_bitmap_are_different leftp rightp =
     (case (leftp, rightp) of
        (Some left, Some right) \<Rightarrow>
          if opal_bitmap_size leftp \<noteq> opal_bitmap_size rightp then Some True
          else do {
            found \<leftarrow> ofind (\<lambda>i. do {
                ls \<leftarrow> bm_bitmap left;
                rs \<leftarrow> bm_bitmap right;
                l \<leftarrow> aget ls (int i);
                r \<leftarrow> aget rs (int i);
                Some (l \<noteq> r) }) [0..<nat (bm_array_size left)];
            Some (found \<noteq> None) }
      | _ \<Rightarrow> Some True)"

text \<open>The string is \<^verbatim>\<open>NULL\<close> (\<^const>\<open>None\<close> inside) when the bitmap has no bits.\<close>

definition opal_bitmap_get_string :: "opal_bitmap_t option \<Rightarrow> string option option" where
  "opal_bitmap_get_string bmp =
     (case bmp of None \<Rightarrow> Some None
      | Some bm \<Rightarrow>
          ofold (\<lambda>i bitmap_str. do {
              b \<leftarrow> opal_bitmap_is_set_bit bmp (int i);
              let cur_char = (if b then CHR ''X'' else CHR ''_'');
              Some (case bitmap_str of None \<Rightarrow> Some [cur_char] | Some s \<Rightarrow> Some (s @ [cur_char])) })
            [0..<nat (bm_array_size bm * SIZE_OF_CHAR)] None)"

definition opal_bitmap_num_set_bits :: "opal_bitmap_t \<Rightarrow> int \<Rightarrow> int option" where
  "opal_bitmap_num_set_bits bm len =
     ofold (\<lambda>i cnt. do {
         bs \<leftarrow> bm_bitmap bm;
         byte \<leftarrow> aget bs (int i sdiv SIZE_OF_CHAR);
         Some (if byte AND push_bit (nat (int i smod SIZE_OF_CHAR)) 1 \<noteq> 0 then cnt + 1 else cnt) })
       [0..<nat len] 0"

definition opal_bitmap_num_unset_bits :: "opal_bitmap_t \<Rightarrow> int \<Rightarrow> int option" where
  "opal_bitmap_num_unset_bits bm len = do {
     n \<leftarrow> opal_bitmap_num_set_bits bm len;
     Some (len - n) }"

definition opal_bitmap_is_clear :: "opal_bitmap_t \<Rightarrow> bool option" where
  "opal_bitmap_is_clear bm = do {
     found \<leftarrow> ofind (\<lambda>i. do {
         bs \<leftarrow> bm_bitmap bm;
         byte \<leftarrow> aget bs (int i sdiv SIZE_OF_CHAR);
         Some (byte AND push_bit (nat (int i smod SIZE_OF_CHAR)) 1 \<noteq> 0) })
       [0..<nat (bm_array_size bm * SIZE_OF_CHAR)];
     Some (found = None) }"

section \<open>Well-formed bitmaps and the set they stand for\<close>

definition bm_wf :: "opal_bitmap_t \<Rightarrow> bool" where
  "bm_wf bm \<longleftrightarrow> (case bm_bitmap bm of None \<Rightarrow> False
     | Some bs \<Rightarrow> bs \<noteq> [] \<and> bm_array_size bm = int (length bs))"

definition bm_bits :: "opal_bitmap_t \<Rightarrow> nat set" where
  "bm_bits bm = (case bm_bitmap bm of None \<Rightarrow> {}
     | Some bs \<Rightarrow> {i. i div 8 < length bs \<and> bit (bs ! (i div 8)) (i mod 8)})"

lemma bm_wfE:
  assumes "bm_wf bm"
  obtains bs where "bm_bitmap bm = Some bs" "bs \<noteq> []" "bm_array_size bm = int (length bs)"
  using assms by (auto simp: bm_wf_def split: option.splits)

lemma bm_bits_Some:
  "bm_bitmap bm = Some bs \<Longrightarrow>
     bm_bits bm = {i. i div 8 < length bs \<and> bit (bs ! (i div 8)) (i mod 8)}"
  by (simp add: bm_bits_def)

lemma bm_bits_array_size [simp]: "bm_bits (bm_array_size_update f bm) = bm_bits bm"
  by (simp add: bm_bits_def)

lemma bm_bits_bound: "bm_wf bm \<Longrightarrow> i \<in> bm_bits bm \<Longrightarrow> int i < bm_array_size bm * 8"
  by (auto elim!: bm_wfE simp: bm_bits_Some)

lemma div_mod_8_eq: "i div 8 = k div 8 \<and> i mod 8 = k mod 8 \<longleftrightarrow> i = (k::nat)"
  by (metis div_mult_mod_eq)

text \<open>Writing one byte changes the bits of that byte only.\<close>

lemma bm_bits_byte_update:
  assumes "bm_bitmap bm = Some bs" "j < length bs"
  shows "bm_bits (bm\<lparr>bm_bitmap := Some (bs[j := w])\<rparr>)
           = {i \<in> bm_bits bm. i div 8 \<noteq> j} \<union> {i. i div 8 = j \<and> bit w (i mod 8)}"
  using assms by (auto simp: bm_bits_def nth_list_update split: if_splits)

lemma bm_bits_or_bit:
  assumes "bm_bitmap bm = Some bs" "k div 8 < length bs"
  shows "bm_bits (bm\<lparr>bm_bitmap := Some (bs[k div 8 := bs ! (k div 8) OR push_bit (k mod 8) 1])\<rparr>)
           = insert k (bm_bits bm)" (is "?L = ?R")
proof (rule set_eqI)
  fix i
  have "i div 8 = k div 8 \<Longrightarrow> i mod 8 = k mod 8 \<longleftrightarrow> i = k"
    using div_mod_8_eq [of i k] by blast
  with assms show "i \<in> ?L \<longleftrightarrow> i \<in> ?R"
    by (cases "i div 8 = k div 8") (auto simp: bm_bits_byte_update bm_bits_Some bit_set_bit_or)
qed

lemma bm_bits_clear_bit:
  assumes "bm_bitmap bm = Some bs" "k div 8 < length bs"
  shows "bm_bits (bm\<lparr>bm_bitmap := Some (bs[k div 8 := bs ! (k div 8) AND NOT (push_bit (k mod 8) 1)])\<rparr>)
           = bm_bits bm - {k}" (is "?L = ?R")
proof (rule set_eqI)
  fix i
  have "i div 8 = k div 8 \<Longrightarrow> i mod 8 = k mod 8 \<longleftrightarrow> i = k"
    using div_mod_8_eq [of i k] by blast
  with assms show "i \<in> ?L \<longleftrightarrow> i \<in> ?R"
    by (cases "i div 8 = k div 8") (auto simp: bm_bits_byte_update bm_bits_Some bit_clear_bit_and)
qed

text \<open>Appending cleared bytes changes no bit.\<close>

lemma bm_bits_grow:
  assumes "bm_bitmap bm = Some bs"
  shows "bm_bits (bm\<lparr>bm_bitmap := Some (bs @ replicate n 0)\<rparr>) = bm_bits bm"
    (is "?L = ?R")
proof (rule set_eqI)
  fix i
  show "i \<in> ?L \<longleftrightarrow> i \<in> ?R"
    using assms by (cases "i div 8 < length bs") (auto simp: bm_bits_def nth_append)
qed

lemma sdiv_8 [simp]: "int k sdiv 8 = int (k div 8)"
  using int_sdiv_int [of k 8] by simp

lemma smod_8 [simp]: "int k smod 8 = int (k mod 8)"
  using int_smod_int [of k 8] by simp

lemma int_le_mult_8: "int n * 8 \<le> int k \<longleftrightarrow> n \<le> k div 8"
  by linarith

section \<open>Setting, clearing and testing a bit\<close>

lemma set_bit_inside:
  assumes "bm_bitmap bm = Some bs" "bm_array_size bm = int (length bs)"
    and "int k \<le> bm_max_size bm" "k div 8 < length bs"
  shows "opal_bitmap_set_bit mem (Some bm) (int k) = Some (OPAL_SUCCESS,
           Some (bm\<lparr>bm_bitmap := Some (bs[k div 8 := bs ! (k div 8) OR push_bit (k mod 8) 1])\<rparr>))"
  using assms by (simp add: opal_bitmap_set_bit_def SIZE_OF_CHAR_def)

lemma set_bit_grows:
  assumes "bm_bitmap bm = Some bs" "bs \<noteq> []" "bm_array_size bm = int (length bs)"
    and "int k \<le> bm_max_size bm" "length bs \<le> k div 8"
  defines "n \<equiv> (k div 8 div length bs + 1) * length bs"
  defines "bs' \<equiv> bs @ replicate (n - length bs) 0"
  shows "opal_bitmap_set_bit (Some junk) (Some bm) (int k) = Some (OPAL_SUCCESS,
           Some (bm\<lparr>bm_bitmap := Some (bs'[k div 8 := bs' ! (k div 8) OR push_bit (k mod 8) 1]),
                    bm_array_size := int n\<rparr>))"
    and "k div 8 < n" and "length bs \<le> n" and "n \<le> k div 8 + length bs"
proof -
  have pos: "0 < length bs" using assms(2) by simp
  show n1: "k div 8 < n"
    using pos unfolding n_def by (simp add: dividend_less_div_times add.commute)
  show n2: "length bs \<le> n" unfolding n_def by simp
  show "n \<le> k div 8 + length bs" unfolding n_def by simp
  have n: "(int (k div 8) sdiv int (length bs) + 1) * int (length bs) = int n"
    by (simp add: n_def algebra_simps)
  have ms: "amemset (arealloc junk bs (int n)) (int (length bs)) 0 (int n - int (length bs)) = Some bs'"
    using n2 by (subst amemset_arealloc) (simp_all add: bs'_def)
  have len: "length bs' = n" using n2 by (simp add: bs'_def)
  show "opal_bitmap_set_bit (Some junk) (Some bm) (int k) = Some (OPAL_SUCCESS,
           Some (bm\<lparr>bm_bitmap := Some (bs'[k div 8 := bs' ! (k div 8) OR push_bit (k mod 8) 1]),
                    bm_array_size := int n\<rparr>))"
    using assms(1-5) n1 len pos
    by (simp add: opal_bitmap_set_bit_def SIZE_OF_CHAR_def n ms Let_def del: int_sdiv_int of_nat_mult)
qed

lemma set_bit_correct:
  assumes "bm_wf bm" "int k \<le> bm_max_size bm"
  shows "\<exists>bm'. opal_bitmap_set_bit (Some junk) (Some bm) (int k) = Some (OPAL_SUCCESS, Some bm')
           \<and> bm_wf bm' \<and> bm_bits bm' = insert k (bm_bits bm) \<and> bm_max_size bm' = bm_max_size bm
           \<and> bm_array_size bm' \<le> max (bm_array_size bm) (int k div 8 + bm_array_size bm)"
proof -
  obtain bs where bs: "bm_bitmap bm = Some bs" "bs \<noteq> []" "bm_array_size bm = int (length bs)"
    using assms(1) by (rule bm_wfE)
  show ?thesis
  proof (cases "k div 8 < length bs")
    case True
    with bs assms(2) show ?thesis
      by (simp add: set_bit_inside bm_wf_def bm_bits_or_bit [simplified])
  next
    case False
    then have le: "length bs \<le> k div 8" by simp
    define n where "n = (k div 8 div length bs + 1) * length bs"
    define bs' where "bs' = bs @ replicate (n - length bs) 0"
    let ?bm1 = "bm\<lparr>bm_bitmap := Some bs'\<rparr>"
    note g = set_bit_grows [OF bs assms(2) le, folded n_def bs'_def]
    have len: "length bs' = n" using g(3) by (simp add: bs'_def)
    have "bm_bits (?bm1\<lparr>bm_bitmap := Some (bs'[k div 8 := bs' ! (k div 8) OR push_bit (k mod 8) 1])\<rparr>)
            = insert k (bm_bits ?bm1)"
      using g(2) len by (intro bm_bits_or_bit) simp_all
    moreover have "bm_bits ?bm1 = bm_bits bm"
      using bs(1) by (simp add: bs'_def bm_bits_grow)
    ultimately show ?thesis
      using g(1) [of junk] g(2,4) len bs(2,3) zdiv_int [of k 8]
      by (auto simp: bm_wf_def)
  qed
qed

lemma clear_bit_correct:
  assumes "bm_wf bm" "int k < bm_array_size bm * 8"
  shows "\<exists>bm'. opal_bitmap_clear_bit (Some bm) (int k) = Some (OPAL_SUCCESS, Some bm')
           \<and> bm_wf bm' \<and> bm_bits bm' = bm_bits bm - {k} \<and> bm_max_size bm' = bm_max_size bm"
proof -
  obtain bs where bs: "bm_bitmap bm = Some bs" "bs \<noteq> []" "bm_array_size bm = int (length bs)"
    using assms(1) by (rule bm_wfE)
  moreover have "k div 8 < length bs" using assms(2) bs(3) by linarith
  ultimately show ?thesis
    using assms(2)
    by (simp add: opal_bitmap_clear_bit_def SIZE_OF_CHAR_def bm_wf_def bm_bits_clear_bit [simplified])
qed

lemma is_set_bit_correct:
  assumes "bm_wf bm"
  shows "opal_bitmap_is_set_bit (Some bm) (int k) = Some (k \<in> bm_bits bm)"
proof -
  obtain bs where bs: "bm_bitmap bm = Some bs" "bs \<noteq> []" "bm_array_size bm = int (length bs)"
    using assms by (rule bm_wfE)
  then show ?thesis
    by (auto simp: opal_bitmap_is_set_bit_def SIZE_OF_CHAR_def bm_bits_Some and_2_power_eq_0)
qed

lemma bitmap_init_correct:
  assumes "0 < n" "n \<le> bm_max_size bm"
  shows "\<exists>bm'. opal_bitmap_init (Some junk) (Some bm) n = Some (OPAL_SUCCESS, Some bm')
           \<and> bm_wf bm' \<and> bm_bits bm' = {} \<and> n \<le> bm_array_size bm' * 8
           \<and> bm_max_size bm' = bm_max_size bm"
proof -
  obtain k where k: "n = int k" "0 < k" using assms(1) by (metis zero_less_imp_eq_int)
  define a where "a = k div 8 + (if k mod 8 = 0 then 0 else 1)"
  have a: "0 < a" "k \<le> a * 8" using k(2) by (auto simp: a_def split: if_splits)
  have ai: "n sdiv 8 + (if n smod 8 = 0 then 0 else 1) = int a" by (simp add: a_def k(1))
  note if_split [split del]
  have "amemset (arealloc junk [] (int a)) 0 0 (int a) = Some (replicate a (0 :: 8 word))"
    by (subst amemset_all) simp_all
  moreover from a(2) k(1) have "n \<le> int a * 8" by simp
  ultimately show ?thesis
    using assms a(1)
    by (simp add: opal_bitmap_init_def opal_bitmap_clear_all_bits_def SIZE_OF_CHAR_def ai Let_def
        bm_wf_def bm_bits_def del: sdiv_8 smod_8)
qed

section \<open>The lowest unset bit\<close>

lemma count_low_ones_correct:
  "temp \<noteq> - 1 \<Longrightarrow> \<exists>p<8. count_low_ones temp pos = pos + int p \<and> \<not> bit temp p
     \<and> (\<forall>q<p. bit temp q) \<and> temp OR (temp + 1) = temp OR 2 ^ p"
proof (induction temp pos rule: count_low_ones.induct)
  case (1 temp pos)
  show ?case
  proof (cases "bit temp 0")
    case False
    then have "temp AND 1 = 0" using and_2_power_eq_0 [of temp 0] by simp
    moreover have "temp OR (temp + 1) = temp OR 2 ^ 0"
    proof -
      have "temp + 1 = temp OR 1" using False by (simp add: or_one_eq bit_0)
      then show ?thesis by (simp add: or.assoc [symmetric] del: or_one_eq)
    qed
    ultimately show ?thesis
      using False by (intro exI [of _ 0]) (simp add: count_low_ones.simps [of temp])
  next
    case True
    let ?d = "drop_bit 1 temp"
    from True have odd: "temp AND 1 \<noteq> 0" using and_2_power_eq_0 [of temp 0] by simp
    have "\<not> bit ?d 7" by (auto simp: bit_simps dest: bit_imp_le_length)
    moreover have "bit (- 1 :: 8 word) 7" by (simp add: bit_simps)
    ultimately have "?d \<noteq> - 1" by metis
    from "1.IH" [OF odd this] obtain p where p: "p < 8" "count_low_ones ?d (pos + 1) = pos + 1 + int p"
      "\<not> bit ?d p" "\<forall>q<p. bit ?d q" "?d OR (?d + 1) = ?d OR 2 ^ p" by blast
    have all: "bit temp q" if "q < Suc p" for q
      using that True p(4) by (cases q) (auto simp: bit_simps)
    have "p \<noteq> 7"
    proof
      assume "p = 7"
      then have "bit temp q" if "q < 8" for q using all that by simp
      then have "temp = - 1" by (intro bit_word_eqI) (simp add: bit_simps)
      with "1.prems" show False by simp
    qed
    with p(1) have "Suc p < 8" by simp
    moreover have "count_low_ones temp pos = pos + int (Suc p)"
      using odd p(2) by (simp add: count_low_ones.simps [of temp])
    moreover have "\<not> bit temp (Suc p)" using p(3) by (simp add: bit_simps)
    moreover have "temp OR (temp + 1) = temp OR 2 ^ Suc p"
    proof (rule bit_word_eqI)
      fix n
      assume n: "n < LENGTH(8)"
      show "bit (temp OR (temp + 1)) n = bit (temp OR 2 ^ Suc p) n"
      proof (cases n)
        case 0
        with True show ?thesis by (simp add: bit_or_iff)
      next
        case (Suc m)
        have "bit (?d OR (?d + 1)) m = bit (?d OR 2 ^ p) m" using p(5) by simp
        with Suc n \<open>Suc p < 8\<close> bit_odd_word_plus_1 [OF True, of m] show ?thesis
          by (simp add: bit_simps)
      qed
    qed
    ultimately show ?thesis using all by blast
  qed
qed

lemma Least_bit_position:
  assumes "bm_bitmap bm = Some bs" "i < length bs" "p < 8"
    and "\<forall>j<i. bs ! j = 0xff" "\<forall>q<p. bit (bs ! i) q" "\<not> bit (bs ! i) p"
  shows "(LEAST k. k \<notin> bm_bits bm) = p + i * 8"
proof (rule Least_equality)
  show "p + i * 8 \<notin> bm_bits bm" using assms by (simp add: bm_bits_Some)
next
  fix k
  assume k: "k \<notin> bm_bits bm"
  show "p + i * 8 \<le> k"
  proof (rule ccontr)
    assume "\<not> p + i * 8 \<le> k"
    then have "k div 8 \<le> i" "k div 8 = i \<longrightarrow> k mod 8 < p"
      using assms(3) div_mult_mod_eq [of k 8] by linarith+
    then consider "k div 8 < i" | "k div 8 = i" "k mod 8 < p" by linarith
    then have "bit (bs ! (k div 8)) (k mod 8)"
    proof cases
      case 1
      with assms(4) have "bs ! (k div 8) = 0xff" by blast
      moreover have "bit (0xff :: 8 word) n" if "n < 8" for n
        using that unfolding byte_ff by (simp add: bit_simps)
      ultimately show ?thesis by simp
    next
      case 2
      with assms(5) show ?thesis by simp
    qed
    moreover have "k div 8 < length bs" using \<open>\<not> p + i * 8 \<le> k\<close> assms(2,3) by linarith
    ultimately show False using k assms(1) by (simp add: bm_bits_Some)
  qed
qed

lemma find_unset_byte:
  assumes "bm_bitmap bm = Some bs"
  shows "ofind (\<lambda>i. do { bs \<leftarrow> bm_bitmap bm; byte \<leftarrow> aget bs (int i); Some (byte \<noteq> 0xff) })
      [0..<length bs] = Some (find (\<lambda>i. bs ! i \<noteq> 0xff) [0..<length bs])"
  by (rule ofind_total) (simp add: assms)

text \<open>Some byte has an unset bit: the limit of the bitmap does not matter.\<close>

lemma find_and_set_unset_byte:
  assumes "bm_bitmap bm = Some bs" "bm_array_size bm = int (length bs)"
    and "find (\<lambda>i. bs ! i \<noteq> 0xff) [0..<length bs] = Some i"
  shows "\<exists>bm'. opal_bitmap_find_and_set_first_unset_bit mem (Some bm)
             = Some (OPAL_SUCCESS, int (LEAST k. k \<notin> bm_bits bm), Some bm')
           \<and> bm_wf bm' \<and> bm_bits bm' = insert (LEAST k. k \<notin> bm_bits bm) (bm_bits bm)
           \<and> bm_max_size bm' = bm_max_size bm"
proof -
  have i: "i < length bs" "bs ! i \<noteq> 0xff" "\<forall>j<i. bs ! j = 0xff"
    using assms(3) by (auto simp: find_upt_Some)
  then have "bs ! i \<noteq> - 1" unfolding byte_ff by blast
  from count_low_ones_correct [OF this, of 0] obtain p where p: "p < 8"
    "count_low_ones (bs ! i) 0 = int p" "\<not> bit (bs ! i) p" "\<forall>q<p. bit (bs ! i) q"
    "bs ! i OR (bs ! i + 1) = bs ! i OR 2 ^ p" by auto
  have least: "(LEAST k. k \<notin> bm_bits bm) = p + i * 8"
    using Least_bit_position [OF assms(1) i(1) p(1) i(3)] p(3,4) by blast
  have upd: "bm_bits (bm\<lparr>bm_bitmap := Some (bs[i := bs ! i OR 2 ^ p])\<rparr>) = insert (p + i * 8) (bm_bits bm)"
    using bm_bits_or_bit [OF assms(1), of "p + i * 8"] p(1) i(1) by simp
  show ?thesis
    using assms find_unset_byte [OF assms(1)] i p(2,5) least upd
    by (auto simp: opal_bitmap_find_and_set_first_unset_bit_def SIZE_OF_CHAR_def bm_wf_def)
qed

text \<open>Every byte is full: the position is the first one behind the array.\<close>

lemma find_and_set_all_set:
  assumes "bm_bitmap bm = Some bs" "bm_array_size bm = int (length bs)"
    and "find (\<lambda>i. bs ! i \<noteq> 0xff) [0..<length bs] = None"
  shows "(LEAST k. k \<notin> bm_bits bm) = length bs * 8"
    and "opal_bitmap_find_and_set_first_unset_bit mem (Some bm) = do {
           (rc, bm') \<leftarrow> opal_bitmap_set_bit mem (Some bm) (int (length bs * 8));
           Some (rc, int (length bs * 8), bm') }"
proof -
  have full: "\<forall>i<length bs. bs ! i = - 1" using assms(3) by (simp add: find_upt_None)
  show "(LEAST k. k \<notin> bm_bits bm) = length bs * 8"
  proof (rule Least_equality)
    show "length bs * 8 \<notin> bm_bits bm" using assms by (simp add: bm_bits_Some)
    show "length bs * 8 \<le> k" if "k \<notin> bm_bits bm" for k
    proof (rule ccontr)
      assume "\<not> length bs * 8 \<le> k"
      then have "k div 8 < length bs" by linarith
      with that assms(1) full show False by (simp add: bm_bits_Some)
    qed
  qed
  show "opal_bitmap_find_and_set_first_unset_bit mem (Some bm) = do {
           (rc, bm') \<leftarrow> opal_bitmap_set_bit mem (Some bm) (int (length bs * 8));
           Some (rc, int (length bs * 8), bm') }"
    using assms find_unset_byte [OF assms(1)]
    by (simp add: opal_bitmap_find_and_set_first_unset_bit_def SIZE_OF_CHAR_def Let_def)
qed

section \<open>Whole-bitmap operations\<close>

lemma bitwise_inplace_correct:
  assumes "bm_wf d" "bm_wf r" "bm_array_size d = bm_array_size r"
    and f: "\<And>x y n. bit (f x y) n \<longleftrightarrow> n < 8 \<and> g (bit x n) (bit y n)"
    and g: "\<not> g False False"
  shows "\<exists>d'. bitwise_inplace f (Some d) (Some r) = Some (OPAL_SUCCESS, Some d') \<and> bm_wf d'
           \<and> bm_bits d' = {i. g (i \<in> bm_bits d) (i \<in> bm_bits r)}"
proof -
  obtain ls where ls: "bm_bitmap d = Some ls" "ls \<noteq> []" "bm_array_size d = int (length ls)"
    using assms(1) by (rule bm_wfE)
  obtain rs where rs: "bm_bitmap r = Some rs" "bm_array_size r = int (length rs)"
    using assms(2) by (elim bm_wfE)
  have len: "length rs = length ls" using assms(3) ls rs by simp
  let ?body = "\<lambda>i b. do { ls \<leftarrow> bm_bitmap b; rs \<leftarrow> bm_bitmap r; l \<leftarrow> aget ls (int i);
      x \<leftarrow> aget rs (int i); ls' \<leftarrow> aset ls (int i) (f l x); Some (b\<lparr>bm_bitmap := Some ls'\<rparr>) }"
  let ?P = "\<lambda>m s. s = d\<lparr>bm_bitmap := Some (map2 f (take m ls) rs @ drop m ls)\<rparr>"
  have "\<exists>s'. ofold ?body [0..<length ls] d = Some s' \<and> ?P (length ls) s'"
  proof (rule ofold_upt_inv [where P = ?P])
    show "?P 0 d" using ls(1) by simp
  next
    fix i s
    assume i: "i < length ls" and s: "?P i s"
    let ?xs = "map2 f (take i ls) rs @ drop i ls"
    have "?xs ! i = ls ! i" and "length ?xs = length ls"
      using i len by (simp_all add: nth_append)
    moreover have "?xs[i := f (ls ! i) (rs ! i)] = map2 f (take (Suc i) ls) rs @ drop (Suc i) ls"
      using i len by (intro nth_equalityI) (auto simp: nth_append nth_list_update less_Suc_eq)
    ultimately show "\<exists>s'. ?body i s = Some s' \<and> ?P (Suc i) s'"
      using i len s rs(1) by (simp add: aget_def aset_def)
  qed
  then have run: "bitwise_inplace f (Some d) (Some r)
      = Some (OPAL_SUCCESS, Some (d\<lparr>bm_bitmap := Some (map2 f ls rs)\<rparr>))"
    using ls rs len by (simp add: bitwise_inplace_def)
  have "bm_bits (d\<lparr>bm_bitmap := Some (map2 f ls rs)\<rparr>) = {i. g (i \<in> bm_bits d) (i \<in> bm_bits r)}"
    (is "?L = ?R")
  proof (rule set_eqI)
    fix i
    show "i \<in> ?L \<longleftrightarrow> i \<in> ?R"
      using ls rs len g by (cases "i div 8 < length ls") (simp_all add: bm_bits_Some f)
  qed
  moreover have "map2 f ls rs \<noteq> []" using ls(2) len by auto
  ultimately show ?thesis using run ls len by (simp add: bm_wf_def)
qed

lemma num_set_bits_correct:
  assumes "bm_wf bm" "int len \<le> bm_array_size bm * 8"
  shows "opal_bitmap_num_set_bits bm (int len) = Some (int (card {i \<in> bm_bits bm. i < len}))"
proof -
  obtain bs where bs: "bm_bitmap bm = Some bs" "bm_array_size bm = int (length bs)"
    using assms(1) by (elim bm_wfE)
  let ?body = "\<lambda>i cnt. do { bs \<leftarrow> bm_bitmap bm; byte \<leftarrow> aget bs (int i sdiv SIZE_OF_CHAR);
      Some (if byte AND push_bit (nat (int i smod SIZE_OF_CHAR)) 1 \<noteq> 0 then cnt + 1 else cnt) }"
  let ?P = "\<lambda>m s. s = int (card {i \<in> bm_bits bm. i < m})"
  have "\<exists>s'. ofold ?body [0..<len] 0 = Some s' \<and> ?P len s'"
  proof (rule ofold_upt_inv [where P = ?P])
    fix i and s :: int
    assume i: "i < len" and s: "?P i s"
    from i assms(2) bs(2) have "i div 8 < length bs" by linarith
    moreover have "{j \<in> bm_bits bm. j < Suc i}
        = (if i \<in> bm_bits bm then insert i {j \<in> bm_bits bm. j < i} else {j \<in> bm_bits bm. j < i})"
      by (auto simp: less_Suc_eq)
    ultimately show "\<exists>s'. ?body i s = Some s' \<and> ?P (Suc i) s'"
      using bs s by (auto simp: SIZE_OF_CHAR_def bm_bits_Some and_2_power_eq_0)
  qed simp
  then show ?thesis by (auto simp: opal_bitmap_num_set_bits_def)
qed

lemma is_clear_correct:
  assumes "bm_wf bm"
  shows "opal_bitmap_is_clear bm = Some (bm_bits bm = {})"
proof -
  obtain bs where bs: "bm_bitmap bm = Some bs" "bm_array_size bm = int (length bs)"
    using assms by (elim bm_wfE)
  have "ofind (\<lambda>i. do { bs \<leftarrow> bm_bitmap bm; byte \<leftarrow> aget bs (int i sdiv SIZE_OF_CHAR);
      Some (byte AND push_bit (nat (int i smod SIZE_OF_CHAR)) 1 \<noteq> 0) }) [0..<length bs * 8]
    = Some (find (\<lambda>i. i \<in> bm_bits bm) [0..<length bs * 8])"
    by (rule ofind_total)
      (use bs in \<open>auto simp: SIZE_OF_CHAR_def bm_bits_Some and_2_power_eq_0\<close>)
  moreover have "find (\<lambda>i. i \<in> bm_bits bm) [0..<length bs * 8] = None \<longleftrightarrow> bm_bits bm = {}"
    using bs by (auto simp: find_upt_None bm_bits_Some)
  ultimately show ?thesis
    using bs by (simp add: opal_bitmap_is_clear_def SIZE_OF_CHAR_def nat_mult_distrib)
qed

section \<open>The bitmap as an allocator of numbers\<close>

text \<open>One allocation: the position, when the call succeeds.\<close>

definition bm_alloc :: "8 word \<Rightarrow> opal_bitmap_t \<Rightarrow> (nat \<times> opal_bitmap_t) option" where
  "bm_alloc junk bm =
     (case opal_bitmap_find_and_set_first_unset_bit (Some junk) (Some bm) of
        Some (rc, position, Some bm') \<Rightarrow> if rc = OPAL_SUCCESS then Some (nat position, bm') else None
      | _ \<Rightarrow> None)"

lemma bm_alloc_cases:
  assumes "bm_wf bm"
  shows "(\<exists>bm'. bm_alloc junk bm = Some (LEAST k. k \<notin> bm_bits bm, bm') \<and> bm_wf bm'
           \<and> bm_bits bm' = insert (LEAST k. k \<notin> bm_bits bm) (bm_bits bm)
           \<and> bm_max_size bm' = bm_max_size bm)
       \<or> bm_alloc junk bm = None \<and> bm_max_size bm < int (LEAST k. k \<notin> bm_bits bm)"
proof -
  obtain bs where bs: "bm_bitmap bm = Some bs" "bm_array_size bm = int (length bs)"
    using assms by (elim bm_wfE)
  show ?thesis
  proof (cases "find (\<lambda>i. bs ! i \<noteq> 0xff) [0..<length bs]")
    case None
    note full = find_and_set_all_set [OF bs None]
    show ?thesis
    proof (cases "int (length bs * 8) \<le> bm_max_size bm")
      case True
      from set_bit_correct [OF assms this, of junk] full show ?thesis
        by (auto simp: bm_alloc_def)
    next
      case False
      then have "opal_bitmap_set_bit (Some junk) (Some bm) (int (length bs * 8))
          = Some (OPAL_ERR_BAD_PARAM, Some bm)"
        by (simp add: opal_bitmap_set_bit_def)
      with False full show ?thesis by (simp add: bm_alloc_def rc_defs)
    qed
  next
    case (Some i)
    from find_and_set_unset_byte [OF bs this, of "Some junk"] show ?thesis
      by (auto simp: bm_alloc_def)
  qed
qed

lemma bm_alloc_correct:
  assumes "bm_wf bm" "bm_alloc junk bm = Some (i, bm')"
  shows "bm_wf bm' \<and> i = (LEAST k. k \<notin> bm_bits bm) \<and> bm_bits bm' = insert i (bm_bits bm)
    \<and> bm_max_size bm' = bm_max_size bm"
  using bm_alloc_cases [OF assms(1), of junk] assms(2) by auto

lemma finite_bm_bits: "finite (bm_bits bm)"
proof (cases "bm_bitmap bm")
  case (Some bs)
  have "bm_bits bm \<subseteq> {..<8 * length bs}" using Some by (auto simp: bm_bits_Some)
  then show ?thesis by (rule finite_subset) simp
qed (simp add: bm_bits_def)

lemma least_unset_fresh: "(LEAST k. k \<notin> bm_bits bm) \<notin> bm_bits bm"
proof -
  obtain k where "k \<notin> bm_bits bm" using ex_new_if_finite [OF infinite_UNIV_nat finite_bm_bits] by blast
  then show ?thesis by (rule LeastI)
qed

lemma bm_alloc_total:
  assumes "bm_wf bm" "(LEAST k. k \<notin> bm_bits bm) < nat (bm_max_size bm + 1)"
  shows "\<exists>i bm'. bm_alloc junk bm = Some (i, bm')"
  using bm_alloc_cases [OF assms(1), of junk] assms(2) by (cases "0 \<le> bm_max_size bm") auto

interpretation bm_ids: capped_id_allocator bm_wf bm_bits "bm_alloc junk"
    "\<lambda>bm. nat (bm_max_size bm + 1)" for junk
proof unfold_locales
  fix bm i bm'
  assume *: "bm_wf bm" "bm_alloc junk bm = Some (i, bm')"
  note c = bm_alloc_correct [OF *]
  show "bm_wf bm'" and "bm_bits bm' = insert i (bm_bits bm)"
    and "i = (LEAST k. k \<notin> bm_bits bm)" using c by blast+
  show "i \<notin> bm_bits bm" using c least_unset_fresh by blast
  show "nat (bm_max_size bm' + 1) = nat (bm_max_size bm + 1)" using c by simp
qed (rule bm_alloc_total)

section \<open>Properties\<close>

text \<open>Setting a bit inside the limit always succeeds without leaving the allocation, whatever
  the bitmap's current size and whatever bytes \<^verbatim>\<open>realloc\<close> hands out; afterwards exactly that bit
  and the bits that were set before test as set, and the array grew by at most the bytes needed.\<close>

lemma bitmap_set_bit_then_test:
  assumes "bm_wf bm" "int k \<le> bm_max_size bm"
  shows "\<exists>bm'. opal_bitmap_set_bit (Some junk) (Some bm) (int k) = Some (OPAL_SUCCESS, Some bm')
    \<and> bm_wf bm'
    \<and> (\<forall>j. opal_bitmap_is_set_bit (Some bm') (int j)
           = Some (j = k \<or> opal_bitmap_is_set_bit (Some bm) (int j) = Some True))
    \<and> bm_array_size bm' \<le> int k div 8 + bm_array_size bm"
proof -
  obtain bm' where bm': "opal_bitmap_set_bit (Some junk) (Some bm) (int k) = Some (OPAL_SUCCESS, Some bm')"
      "bm_wf bm'" "bm_bits bm' = insert k (bm_bits bm)"
      "bm_array_size bm' \<le> max (bm_array_size bm) (int k div 8 + bm_array_size bm)"
    using set_bit_correct [OF assms, of junk] by blast
  then show ?thesis using assms(1) by (auto simp: is_set_bit_correct)
qed

text \<open>A freshly initialised bitmap used as an allocator hands out \<open>0, 1, 2, \<dots>\<close> in order: each
  call of \<^verbatim>\<open>opal_bitmap_find_and_set_first_unset_bit\<close> succeeds while the limit is not reached,
  returns the lowest bit that was not set, and never returns a number twice.\<close>

lemma bitmap_hands_out_ids_in_order:
  assumes "0 < sz" "sz \<le> INT_MAX" "n \<le> nat (INT_MAX + 1)"
  shows "\<exists>bm s'. opal_bitmap_init (Some junk) (Some opal_bitmap_construct) sz = Some (OPAL_SUCCESS, Some bm)
    \<and> alloc_n (bm_alloc junk) n bm = Some ([0..<n], s') \<and> bm_wf s' \<and> bm_bits s' = {..<n}"
proof -
  obtain bm where bm: "opal_bitmap_init (Some junk) (Some opal_bitmap_construct) sz = Some (OPAL_SUCCESS, Some bm)"
      "bm_wf bm" "bm_bits bm = {}" "bm_max_size bm = INT_MAX"
    using bitmap_init_correct [OF assms(1), of opal_bitmap_construct junk] assms(2)
    by (auto simp: opal_bitmap_construct_def [THEN arg_cong, of bm_max_size])
  obtain s' where "alloc_n (bm_alloc junk) n bm = Some ([0..<n], s')"
    using bm_ids.alloc_n_succeeds [OF bm(2), of 0 n junk] bm(3,4) assms(3) by auto
  with bm_ids.alloc_n_distinct [OF bm(2) this] bm show ?thesis by (auto simp: lessThan_atLeast0)
qed

text \<open>\<^verbatim>\<open>opal_bitmap_set_max_size\<close> takes a number of bits but stores a number of bytes, against
  which \<^verbatim>\<open>opal_bitmap_set_bit\<close> compares bit numbers: every bit between an eighth of the requested
  maximum and the maximum itself is refused although the caller asked for it.\<close>

lemma bitmap_max_size_counts_bytes:
  assumes "0 \<le> m" "(m + 7) div 8 < k" "k < m"
  shows "\<exists>bm'. opal_bitmap_set_max_size (Some bm) m = (OPAL_SUCCESS, Some bm')
    \<and> opal_bitmap_set_bit mem (Some bm') k = Some (OPAL_ERR_BAD_PARAM, Some bm')"
proof -
  have "m div 8 + (if m mod 8 = 0 then 0 else 1) = (m + 7) div 8"
  proof -
    define q r where "q = m div 8" and "r = m mod 8"
    have m: "m = r + q * 8" and r: "0 \<le> r" "r < 8" by (simp_all add: q_def r_def)
    have "(m + 7) div 8 = q + (r + 7) div 8"
      unfolding m by (subst add.commute [of "r + q * 8"], subst add.assoc [symmetric],
        subst div_mult_self1) (simp_all add: add.commute)
    moreover have "(r + 7) div 8 = (if r = 0 then 0 else 1)"
      using r div_pos_pos_trivial [of "r - 1" 8] div_add_self1 [of 8 "r - 1"] by (auto simp: add.commute)
    ultimately show ?thesis by (simp only: q_def [symmetric] r_def [symmetric])
  qed
  then have "m sdiv 8 + (if m smod 8 = 0 then 0 else 1) = (m + 7) div 8"
    using assms(1) by (simp only: sdiv_nonneg smod_nonneg zero_le_numeral)
  with assms show ?thesis
    by (simp add: opal_bitmap_set_max_size_def opal_bitmap_set_bit_def SIZE_OF_CHAR_def Let_def)
qed

text \<open>on two bitmaps of the same size the three in-place combinations never fault and compute
  the intersection, the union and the symmetric difference of the sets of set bits.\<close>

lemma bitmap_bitwise_is_set_algebra:
  assumes "bm_wf d" "bm_wf r" "bm_array_size d = bm_array_size r"
  shows "\<exists>a b c. opal_bitmap_bitwise_and_inplace (Some d) (Some r) = Some (OPAL_SUCCESS, Some a)
    \<and> opal_bitmap_bitwise_or_inplace (Some d) (Some r) = Some (OPAL_SUCCESS, Some b)
    \<and> opal_bitmap_bitwise_xor_inplace (Some d) (Some r) = Some (OPAL_SUCCESS, Some c)
    \<and> bm_bits a = bm_bits d \<inter> bm_bits r \<and> bm_bits b = bm_bits d \<union> bm_bits r
    \<and> bm_bits c = (bm_bits d - bm_bits r) \<union> (bm_bits r - bm_bits d)"
proof -
  note bw = bitwise_inplace_correct [OF assms]
  have lt: "bit (x :: 8 word) n \<Longrightarrow> n < 8" for x n using bit_imp_le_length [of x n] by simp
  obtain a where "opal_bitmap_bitwise_and_inplace (Some d) (Some r) = Some (OPAL_SUCCESS, Some a)"
      "bm_bits a = bm_bits d \<inter> bm_bits r"
    using bw [of "(AND)" "(\<and>)"] by (auto simp: opal_bitmap_bitwise_and_inplace_def bit_and_iff dest: lt)
  moreover obtain b where "opal_bitmap_bitwise_or_inplace (Some d) (Some r) = Some (OPAL_SUCCESS, Some b)"
      "bm_bits b = bm_bits d \<union> bm_bits r"
    using bw [of "(OR)" "(\<or>)"] by (auto simp: opal_bitmap_bitwise_or_inplace_def bit_or_iff dest: lt)
  moreover obtain c where "opal_bitmap_bitwise_xor_inplace (Some d) (Some r) = Some (OPAL_SUCCESS, Some c)"
      "bm_bits c = (bm_bits d - bm_bits r) \<union> (bm_bits r - bm_bits d)"
    using bw [of "(XOR)" "(\<noteq>)"] by (auto simp: opal_bitmap_bitwise_xor_inplace_def bit_xor_iff dest: lt)
  ultimately show ?thesis by blast
qed

end
