(* ===== verification/Opal_Pointer_Array.thy ===== *)
theory Opal_Pointer_Array
  imports Id_Allocator
begin

text \<open>
  The growing table of pointers of \<^verbatim>\<open>opal/class/opal_pointer_array.c\<close> and \<^verbatim>\<open>.h\<close>, which turns
  communicators, groups, datatypes, requests and files into the integer handles of the Fortran
  binding. A cell that holds the null pointer (\<^const>\<open>None\<close>) is free. The table caches the number of
  free cells and the index of the lowest one; the invariant \<open>pa_wf\<close> says that both caches are exact.
  The lock is not modelled: each operation is one atomic step.

  The answer of the allocator is an argument: \<^const>\<open>None\<close> when it fails, \<^term>\<open>Some junk\<close> when it
  succeeds with cells that hold \<open>junk\<close>.
\<close>

record 'a opal_pointer_array_t =
  pa_lowest_free :: int
  pa_number_free :: int
  pa_size :: int
  pa_max_size :: int
  pa_block_size :: int
  pa_addr :: "'a option list option"

definition TABLE_INIT :: int where "TABLE_INIT = 1"
definition TABLE_GROW :: int where "TABLE_GROW = 2"
definition OMPI_FORTRAN_HANDLE_MAX :: int where "OMPI_FORTRAN_HANDLE_MAX = INT_MAX"

section \<open>Operations\<close>

definition opal_pointer_array_construct :: "'a opal_pointer_array_t" where
  "opal_pointer_array_construct =
     \<lparr>pa_lowest_free = 0, pa_number_free = 0, pa_size = 0, pa_max_size = INT_MAX,
      pa_block_size = 0, pa_addr = None\<rparr>"

definition opal_pointer_array_destruct :: "'a opal_pointer_array_t \<Rightarrow> 'a opal_pointer_array_t" where
  "opal_pointer_array_destruct t = t\<lparr>pa_addr := None, pa_size := 0\<rparr>"

text \<open>A negative number of cells is a request beyond \<open>2 ^ 63\<close> bytes, which \<^verbatim>\<open>calloc\<close> refuses.\<close>

definition opal_pointer_array_init ::
  "bool \<Rightarrow> 'a opal_pointer_array_t option \<Rightarrow> int \<Rightarrow> int \<Rightarrow> int \<Rightarrow> int \<times> 'a opal_pointer_array_t option" where
  "opal_pointer_array_init mem array initial_allocation max_size block_size =
     (case array of None \<Rightarrow> (OPAL_ERR_BAD_PARAM, None)
      | Some t \<Rightarrow>
          if max_size < block_size then (OPAL_ERR_BAD_PARAM, Some t)
          else
            let n = (if 0 < initial_allocation then initial_allocation else block_size);
                t = t\<lparr>pa_max_size := max_size, pa_block_size := block_size,
                      pa_number_free := n, pa_size := n\<rparr>
            in if mem \<and> 0 \<le> n
               then (OPAL_SUCCESS, Some (t\<lparr>pa_addr := Some (replicate (nat n) None)\<rparr>))
               else (OPAL_ERR_OUT_OF_RESOURCE, Some (t\<lparr>pa_addr := None\<rparr>)))"

definition grow_table ::
  "'a option option \<Rightarrow> 'a opal_pointer_array_t \<Rightarrow> int \<Rightarrow> int \<Rightarrow> (bool \<times> 'a opal_pointer_array_t) option" where
  "grow_table mem t soft hard =
     (if soft > pa_max_size t \<and> hard > pa_max_size t then Some (False, t)
      else
        let new_size = (if soft > pa_max_size t then hard else soft)
        in if new_size \<ge> pa_max_size t then Some (False, t)
           else
             (case mem of None \<Rightarrow> Some (False, t)
              | Some junk \<Rightarrow>
                  let p = arealloc junk (case pa_addr t of None \<Rightarrow> [] | Some a \<Rightarrow> a) new_size
                  in do {
                    p \<leftarrow> ofold (\<lambda>i a. aset a (int i) None) [nat (pa_size t)..<nat new_size] p;
                    Some (True, t\<lparr>pa_number_free := pa_number_free t + (new_size - pa_size t),
                                  pa_addr := Some p, pa_size := new_size\<rparr>)
                  }))"

text \<open>The loops that look for the next free cell in \<^verbatim>\<open>addr[from], ..., addr[to - 1]\<close>.\<close>

definition next_free :: "'a option list \<Rightarrow> int \<Rightarrow> int \<Rightarrow> nat option option" where
  "next_free a from to = ofind (\<lambda>i. map_option (\<lambda>c. c = None) (aget a (int i))) [nat from..<nat to]"

definition opal_pointer_array_add ::
  "'a option option \<Rightarrow> 'a opal_pointer_array_t \<Rightarrow> 'a option \<Rightarrow> (int \<times> 'a opal_pointer_array_t) option" where
  "opal_pointer_array_add mem t ptr = do {
     (grown, t) \<leftarrow>
       (if pa_number_free t = 0 then
          if pa_addr t \<noteq> None \<and> pa_size t * TABLE_GROW > INT_MAX then None
          else grow_table mem t (if pa_addr t = None then TABLE_INIT else pa_size t * TABLE_GROW)
                 OMPI_FORTRAN_HANDLE_MAX
        else Some (True, t));
     if \<not> grown then Some (OPAL_ERR_OUT_OF_RESOURCE, t)
     else do {
       a \<leftarrow> pa_addr t;
       if \<not> (pa_size t > 0 \<and> pa_lowest_free t \<ge> 0 \<and> pa_lowest_free t < pa_size t
              \<and> pa_number_free t > 0 \<and> pa_number_free t \<le> pa_size t) then None
       else do {
         let index = pa_lowest_free t;
         old \<leftarrow> aget a index;
         if old \<noteq> None then None
         else do {
           a \<leftarrow> aset a index ptr;
           let t = t\<lparr>pa_addr := Some a, pa_number_free := pa_number_free t - 1\<rparr>;
           t \<leftarrow> (if pa_number_free t > 0 then do {
                    r \<leftarrow> next_free a (pa_lowest_free t + 1) (pa_size t);
                    Some (case r of None \<Rightarrow> t | Some i \<Rightarrow> t\<lparr>pa_lowest_free := int i\<rparr>)
                  }
                  else Some (t\<lparr>pa_lowest_free := pa_size t\<rparr>));
           Some (index, t)
         }
       }
     }
   }"

text \<open>\<^verbatim>\<open>(index / TABLE_GROW + 1) * TABLE_GROW\<close>, undefined when it overflows an \<^verbatim>\<open>int\<close>.\<close>

definition grow_for_index ::
  "'a option option \<Rightarrow> 'a opal_pointer_array_t \<Rightarrow> int \<Rightarrow> (bool \<times> 'a opal_pointer_array_t) option" where
  "grow_for_index mem t index =
     (if pa_size t \<le> index then
        if (index sdiv TABLE_GROW + 1) * TABLE_GROW > INT_MAX then None
        else grow_table mem t ((index sdiv TABLE_GROW + 1) * TABLE_GROW) index
      else Some (True, t))"

definition opal_pointer_array_set_item ::
  "'a option option \<Rightarrow> 'a opal_pointer_array_t \<Rightarrow> int \<Rightarrow> 'a option \<Rightarrow> (int \<times> 'a opal_pointer_array_t) option" where
  "opal_pointer_array_set_item mem t index val = do {
     (grown, t) \<leftarrow> grow_for_index mem t index;
     if \<not> grown then Some (OPAL_ERROR, t)
     else do {
       a \<leftarrow> pa_addr t;
       old \<leftarrow> aget a index;
       t \<leftarrow>
         (if val = None then
            Some (t\<lparr>pa_lowest_free := (if index < pa_lowest_free t then index else pa_lowest_free t),
                    pa_number_free := pa_number_free t + (if old \<noteq> None then 1 else 0)\<rparr>)
          else do {
            let t = t\<lparr>pa_number_free := pa_number_free t - (if old = None then 1 else 0)\<rparr>;
            if index = pa_lowest_free t then do {
              r \<leftarrow> next_free a (index + 1) (pa_size t);
              Some (t\<lparr>pa_lowest_free := (case r of None \<Rightarrow> pa_size t | Some i \<Rightarrow> int i)\<rparr>)
            }
            else Some t
          });
       a \<leftarrow> aset a index val;
       Some (OPAL_SUCCESS, t\<lparr>pa_addr := Some a\<rparr>)
     }
   }"

definition opal_pointer_array_test_and_set_item ::
  "'a option option \<Rightarrow> 'a opal_pointer_array_t \<Rightarrow> int \<Rightarrow> 'a option \<Rightarrow> (bool \<times> 'a opal_pointer_array_t) option" where
  "opal_pointer_array_test_and_set_item mem t index val =
     (if index < 0 then None
      else do {
        in_use \<leftarrow> (if index < pa_size t then do {a \<leftarrow> pa_addr t; c \<leftarrow> aget a index; Some (c \<noteq> None)}
                   else Some False);
        if in_use then Some (False, t)
        else do {
          (grown, t) \<leftarrow> grow_for_index mem t index;
          if \<not> grown then Some (False, t)
          else do {
            a \<leftarrow> pa_addr t;
            a \<leftarrow> aset a index val;
            let t = t\<lparr>pa_addr := Some a, pa_number_free := pa_number_free t - 1\<rparr>;
            if index = pa_lowest_free t then do {
              r \<leftarrow> next_free a index (pa_size t);
              Some (True, t\<lparr>pa_lowest_free := (case r of None \<Rightarrow> pa_size t | Some i \<Rightarrow> int i)\<rparr>)
            }
            else Some (True, t)
          }
        }
      })"

definition opal_pointer_array_set_size ::
  "'a option option \<Rightarrow> 'a opal_pointer_array_t \<Rightarrow> int \<Rightarrow> (int \<times> 'a opal_pointer_array_t) option" where
  "opal_pointer_array_set_size mem t new_size =
     (if new_size > pa_size t then do {
        (grown, t) \<leftarrow> grow_table mem t new_size new_size;
        Some (if grown then OPAL_SUCCESS else OPAL_ERROR, t)
      }
      else Some (OPAL_SUCCESS, t))"

definition opal_pointer_array_get_item :: "'a opal_pointer_array_t \<Rightarrow> int \<Rightarrow> 'a option option" where
  "opal_pointer_array_get_item t element_index =
     (if pa_size t \<le> element_index then Some None
      else do {a \<leftarrow> pa_addr t; aget a element_index})"

definition opal_pointer_array_get_size :: "'a opal_pointer_array_t \<Rightarrow> int" where
  "opal_pointer_array_get_size t = pa_size t"

definition opal_pointer_array_remove_all :: "'a opal_pointer_array_t \<Rightarrow> 'a opal_pointer_array_t option" where
  "opal_pointer_array_remove_all t =
     (if pa_number_free t = pa_size t then Some t
      else do {
        a \<leftarrow> pa_addr t;
        a \<leftarrow> ofold (\<lambda>i a. aset a (int i) None) [0..<nat (pa_size t)] a;
        Some (t\<lparr>pa_lowest_free := 0, pa_number_free := pa_size t, pa_addr := Some a\<rparr>)
      })"

section \<open>The invariant and the abstract table\<close>

definition pa_cells :: "'a opal_pointer_array_t \<Rightarrow> 'a option list" where
  "pa_cells t = (case pa_addr t of None \<Rightarrow> [] | Some a \<Rightarrow> a)"

definition first_free :: "'a option list \<Rightarrow> nat" where
  "first_free xs = length (takeWhile (\<lambda>c. c \<noteq> None) xs)"

definition pa_wf :: "'a opal_pointer_array_t \<Rightarrow> bool" where
  "pa_wf t \<longleftrightarrow>
     pa_addr t \<noteq> Some []
     \<and> pa_size t = int (length (pa_cells t))
     \<and> pa_number_free t = int (length (filter (\<lambda>c. c = None) (pa_cells t)))
     \<and> pa_lowest_free t = int (first_free (pa_cells t))
     \<and> pa_max_size t \<le> INT_MAX"

text \<open>The table as the partial map it implements.\<close>

definition pa_map :: "'a opal_pointer_array_t \<Rightarrow> nat \<Rightarrow> 'a option" where
  "pa_map t i = (if i < length (pa_cells t) then pa_cells t ! i else None)"

subsection \<open>Lists of cells\<close>

lemma count_None_update:
  "i < length xs \<Longrightarrow>
     int (length (filter (\<lambda>c. c = None) (xs[i := v])))
       = int (length (filter (\<lambda>c. c = None) xs)) - (if xs ! i = None then 1 else 0) + (if v = None then 1 else 0)"
  by (subst (2) id_take_nth_drop [of i xs], simp, subst upd_conv_take_nth_drop) simp_all

lemma first_free_eq:
  "first_free xs = n \<longleftrightarrow>
     n \<le> length xs \<and> (\<forall>i < n. xs ! i \<noteq> None) \<and> (n < length xs \<longrightarrow> xs ! n = None)"
proof
  assume "first_free xs = n"
  then have n: "length (takeWhile (\<lambda>c. c \<noteq> None) xs) = n" by (simp add: first_free_def)
  have "xs ! i \<noteq> None" if "i < n" for i
    using that nth_mem [of i "takeWhile (\<lambda>c. c \<noteq> None) xs"] takeWhile_nth [of i "\<lambda>c. c \<noteq> None" xs] n
      set_takeWhileD [of "xs ! i" "\<lambda>c. c \<noteq> None" xs] by (simp del: not_None_eq)
  then show "n \<le> length xs \<and> (\<forall>i < n. xs ! i \<noteq> None) \<and> (n < length xs \<longrightarrow> xs ! n = None)"
    using n length_takeWhile_le [of "\<lambda>c. c \<noteq> None" xs] nth_length_takeWhile [of "\<lambda>c. c \<noteq> None" xs]
    by simp
next
  assume *: "n \<le> length xs \<and> (\<forall>i < n. xs ! i \<noteq> None) \<and> (n < length xs \<longrightarrow> xs ! n = None)"
  then have "takeWhile (\<lambda>c. c \<noteq> None) xs = take n xs"
    by (cases "n = length xs") (auto intro!: takeWhile_eq_take_P_nth simp: takeWhile_eq_all_conv in_set_conv_nth)
  with * show "first_free xs = n" by (simp add: first_free_def)
qed

lemma no_None_count: "length (filter (\<lambda>c. c = None) xs) = 0 \<longleftrightarrow> (\<forall>i < length xs. xs ! i \<noteq> None)"
  by (auto simp: filter_empty_conv all_set_conv_all_nth)

lemma ofold_aset_fill:
  "length xs \<le> n \<Longrightarrow> length ys = n \<Longrightarrow> take (length xs) ys = xs \<Longrightarrow>
     ofold (\<lambda>i a. aset a (int i) v) [length xs..<n] ys = Some (xs @ replicate (n - length xs) v)"
proof (induction "n - length xs" arbitrary: xs ys)
  case 0
  then show ?case by simp
next
  case (Suc k)
  then have lt: "length xs < n" by simp
  with Suc.prems have "take (length (xs @ [v])) (ys[length xs := v]) = xs @ [v]"
    by (simp add: take_Suc_conv_app_nth)
  from Suc.hyps(1) [OF _ _ _ this] Suc.hyps(2) Suc.prems lt
  have "ofold (\<lambda>i a. aset a (int i) v) [Suc (length xs)..<n] (ys[length xs := v])
      = Some ((xs @ [v]) @ replicate (n - Suc (length xs)) v)" by simp
  moreover have "v # replicate (n - Suc (length xs)) v = replicate (n - length xs) v"
    using lt by (simp add: replicate_Suc [symmetric] Suc_diff_Suc del: replicate_Suc)
  ultimately show ?case using lt Suc.prems by (simp add: upt_conv_Cons)
qed

lemma next_free_total:
  "to \<le> int (length a) \<Longrightarrow> next_free a from to = Some (find (\<lambda>i. a ! i = None) [nat from..<nat to])"
  unfolding next_free_def by (rule ofind_total) (auto simp: aget_def)


lemma first_free_le: "first_free xs \<le> length xs"
  using first_free_eq [of xs "first_free xs"] by simp

lemma first_free_clear: "i < length xs \<Longrightarrow> first_free (xs[i := None]) = min i (first_free xs)"
  using first_free_eq [of xs "first_free xs"] by (auto simp: first_free_eq nth_list_update min_def)

lemma first_free_skip:
  "i < length xs \<Longrightarrow> i \<noteq> first_free xs \<Longrightarrow> first_free (xs[i := Some v]) = first_free xs"
  using first_free_eq [of xs "first_free xs"] by (auto simp: first_free_eq nth_list_update)

lemma first_free_fill:
  assumes "i < length xs" "i = first_free xs"
  shows "first_free (xs[i := Some v])
    = (case find (\<lambda>j. xs ! j = None) [Suc i..<length xs] of None \<Rightarrow> length xs | Some j \<Rightarrow> j)"
proof (cases "find (\<lambda>j. xs ! j = None) [Suc i..<length xs]")
  case None
  then have "xs ! j \<noteq> None" if "i < j" "j < length xs" for j
    using that by (simp add: find_upt_None Suc_le_eq)
  with assms first_free_eq [of xs i] None show ?thesis
    by (auto simp: first_free_eq nth_list_update) (metis linorder_neqE_nat not_None_eq)
next
  case (Some k)
  then have k: "i < k" "k < length xs" "xs ! k = None" "\<And>j. i < j \<Longrightarrow> j < k \<Longrightarrow> xs ! j \<noteq> None"
    by (simp_all add: find_upt_Some Suc_le_eq)
  with assms first_free_eq [of xs i] Some show ?thesis
    by (auto simp: first_free_eq nth_list_update) (metis linorder_neqE_nat not_None_eq)
qed

lemma first_free_Least:
  "first_free xs = (LEAST i. (if i < length xs then xs ! i else None) = None)"
proof (rule Least_equality [symmetric])
  note ff = first_free_eq [of xs "first_free xs"]
  show "(if first_free xs < length xs then xs ! first_free xs else None) = None" using ff by simp
  show "first_free xs \<le> y" if "(if y < length xs then xs ! y else None) = None" for y
    using that ff by (metis leI order_less_le_trans)
qed

subsection \<open>Growing\<close>

definition grow_to :: "'a opal_pointer_array_t \<Rightarrow> int \<Rightarrow> 'a opal_pointer_array_t" where
  "grow_to t n = t\<lparr>pa_number_free := pa_number_free t + (n - pa_size t),
     pa_addr := Some (pa_cells t @ replicate (nat n - length (pa_cells t)) None), pa_size := n\<rparr>"

lemma grow_table_eq:
  assumes "pa_wf t" "new_size = (if soft > pa_max_size t then hard else soft)" "pa_size t \<le> new_size"
  shows "grow_table mem t soft hard =
    (if soft > pa_max_size t \<and> hard > pa_max_size t \<or> new_size \<ge> pa_max_size t \<or> mem = None
     then Some (False, t) else Some (True, grow_to t new_size))"
proof -
  have len: "nat (pa_size t) = length (pa_cells t)" "length (pa_cells t) \<le> nat new_size"
    using assms(1,3) by (auto simp: pa_wf_def)
  have "ofold (\<lambda>i a. aset a (int i) None) [nat (pa_size t)..<nat new_size]
      (arealloc junk (pa_cells t) new_size)
    = Some (pa_cells t @ replicate (nat new_size - length (pa_cells t)) None)" for junk
    unfolding len(1) by (rule ofold_aset_fill) (use len(2) in \<open>simp_all add: arealloc_def\<close>)
  then show ?thesis
    by (cases mem) (auto simp: grow_table_def grow_to_def assms(2) [symmetric] pa_cells_def [symmetric] Let_def)
qed

lemma grow_to_correct:
  assumes "pa_wf t" "pa_size t \<le> n" "0 < n"
  shows "pa_wf (grow_to t n)" "pa_map (grow_to t n) = pa_map t" "pa_size (grow_to t n) = n"
    "pa_max_size (grow_to t n) = pa_max_size t"
proof -
  let ?xs = "pa_cells t" let ?ys = "?xs @ replicate (nat n - length ?xs) None"
  have len: "length ?xs \<le> nat n" "length ?ys = nat n" using assms by (auto simp: pa_wf_def)
  have cells: "pa_cells (grow_to t n) = ?ys" by (simp add: grow_to_def pa_cells_def)
  have "first_free ?ys = first_free ?xs"
    using first_free_eq [of ?xs "first_free ?xs"] len
    by (auto simp: first_free_eq nth_append)
  then show "pa_wf (grow_to t n)"
    using assms len unfolding pa_wf_def cells by (auto simp: grow_to_def)
  show "pa_map (grow_to t n) = pa_map t"
    using len by (auto simp: pa_map_def cells nth_append fun_eq_iff)
qed (simp_all add: grow_to_def)

subsection \<open>Setting a cell\<close>

lemma pa_update_map:
  "pa_addr t' = Some ((pa_cells t)[i := v]) \<Longrightarrow> i < length (pa_cells t) \<Longrightarrow> pa_map t' = (pa_map t)(i := v)"
  by (auto simp: pa_map_def pa_cells_def fun_eq_iff)

lemma set_item_inrange:
  assumes wf: "pa_wf t" and i: "int i < pa_size t"
  shows "\<exists>t'. opal_pointer_array_set_item mem t (int i) v = Some (OPAL_SUCCESS, t')
    \<and> pa_wf t' \<and> pa_map t' = (pa_map t)(i := v) \<and> pa_size t' = pa_size t \<and> pa_max_size t' = pa_max_size t"
proof -
  let ?xs = "pa_cells t"
  have size: "pa_size t = int (length ?xs)" "i < length ?xs" using assms by (auto simp: pa_wf_def)
  then have addr: "pa_addr t = Some ?xs" by (auto simp: pa_cells_def split: option.splits)
  define lf where "lf = first_free (?xs[i := v])"
  let ?t' = "t\<lparr>pa_lowest_free := int lf, pa_number_free := int (length (filter (\<lambda>c. c = None) (?xs[i := v]))),
      pa_addr := Some (?xs[i := v])\<rparr>"
  have "opal_pointer_array_set_item mem t (int i) v = Some (OPAL_SUCCESS, ?t')"
  proof (cases v)
    case None
    with size wf show ?thesis
      by (simp add: opal_pointer_array_set_item_def grow_for_index_def addr count_None_update lf_def
          first_free_clear min_def pa_wf_def)
  next
    case (Some w)
    have "next_free ?xs (int i + 1) (int (length ?xs))
        = Some (find (\<lambda>j. ?xs ! j = None) [Suc i..<length ?xs])"
      by (subst next_free_total) (simp_all add: nat_add_distrib)
    moreover have "int lf = (if first_free ?xs = i then
        (case find (\<lambda>j. ?xs ! j = None) [Suc i..<length ?xs] of None \<Rightarrow> int (length ?xs) | Some j \<Rightarrow> int j)
        else int (first_free ?xs))"
      using size Some by (auto simp: lf_def first_free_fill first_free_skip split: option.splits)
    ultimately show ?thesis using Some size wf
      by (auto simp: opal_pointer_array_set_item_def grow_for_index_def addr count_None_update
          pa_wf_def Let_def split: option.splits)
  qed
  moreover have "pa_wf ?t'" using wf size by (auto simp: pa_wf_def pa_cells_def lf_def)
  moreover have "pa_map ?t' = (pa_map t)(i := v)" by (rule pa_update_map) (simp_all add: size)
  ultimately show ?thesis by (intro exI [of _ ?t']) simp
qed

text \<open>The set operations grow the table to an even number of cells, or to \<open>index\<close> cells when that even
  number exceeds the limit; the second case does not make room for the cell \<open>index\<close>.\<close>

definition pa_room :: "'a opal_pointer_array_t \<Rightarrow> nat \<Rightarrow> bool" where
  "pa_room t i \<longleftrightarrow> int i < pa_size t \<or> (int i div 2 + 1) * 2 < pa_max_size t"

definition pa_no_room :: "'a opal_pointer_array_t \<Rightarrow> nat \<Rightarrow> bool" where
  "pa_no_room t i \<longleftrightarrow> pa_size t \<le> int i \<and> (pa_max_size t \<le> int i \<or> (int i div 2 + 1) * 2 = pa_max_size t)"

definition pa_off_by_one :: "'a opal_pointer_array_t \<Rightarrow> nat \<Rightarrow> bool" where
  "pa_off_by_one t i \<longleftrightarrow> pa_size t \<le> int i \<and> even i \<and> pa_max_size t = int i + 1"

lemma half_double: "(int i div 2 + 1) * 2 = (if even i then int i + 2 else int i + 1)"
  by (auto elim!: evenE oddE)

lemma pa_room_cases: "pa_room t i \<or> pa_no_room t i \<or> pa_off_by_one t i"
  unfolding pa_room_def pa_no_room_def pa_off_by_one_def half_double by (cases "even i") auto

lemma grow_for_index_room:
  assumes "pa_wf t" "pa_room t i"
  shows "\<exists>t1. grow_for_index (Some junk) t (int i) = Some (True, t1) \<and> pa_wf t1 \<and> int i < pa_size t1
    \<and> pa_map t1 = pa_map t \<and> pa_max_size t1 = pa_max_size t \<and> pa_size t \<le> pa_size t1"
proof (cases "int i < pa_size t")
  case True
  with assms(1) show ?thesis by (simp add: grow_for_index_def)
next
  case False
  let ?n = "(int i div 2 + 1) * 2"
  have n: "int i < ?n" "?n < pa_max_size t" "?n \<le> INT_MAX"
    using assms False by (auto simp: half_double pa_room_def pa_wf_def)
  have "grow_table (Some junk) t ?n (int i) = Some (True, grow_to t ?n)"
    using False n by (subst grow_table_eq [OF assms(1) refl]) auto
  moreover have "pa_wf (grow_to t ?n) \<and> pa_map (grow_to t ?n) = pa_map t \<and> pa_size (grow_to t ?n) = ?n
      \<and> pa_max_size (grow_to t ?n) = pa_max_size t"
    using grow_to_correct [OF assms(1), of ?n] False n by simp
  ultimately show ?thesis
    using False n by (simp add: grow_for_index_def TABLE_GROW_def sdiv_nonneg)
qed

lemma grow_for_index_no_room:
  assumes "pa_wf t" "pa_no_room t i" "(int i div 2 + 1) * 2 \<le> INT_MAX"
  shows "grow_for_index mem t (int i) = Some (False, t)"
  using assms by (auto simp: grow_for_index_def TABLE_GROW_def sdiv_nonneg pa_no_room_def grow_table_def)

lemma grow_for_index_off_by_one:
  assumes "pa_wf t" "pa_off_by_one t i" "int i + 2 \<le> INT_MAX"
  shows "grow_for_index (Some junk) t (int i) = Some (True, grow_to t (int i))"
proof -
  have "grow_table (Some junk) t (int i + 2) (int i) = Some (True, grow_to t (int i))"
    using assms(2) by (subst grow_table_eq [OF assms(1) refl]) (auto simp: pa_off_by_one_def)
  with assms(2,3) show ?thesis
    by (auto simp: grow_for_index_def TABLE_GROW_def sdiv_nonneg half_double pa_off_by_one_def)
qed

lemma set_item_after_grow:
  "grow_for_index mem t i = Some (True, t1) \<Longrightarrow> i < pa_size t1 \<Longrightarrow>
     opal_pointer_array_set_item mem t i v = opal_pointer_array_set_item mem t1 i v"
  by (simp add: opal_pointer_array_set_item_def grow_for_index_def [of mem t1])

lemma set_item_correct:
  assumes "pa_wf t" "pa_room t i"
  shows "\<exists>t'. opal_pointer_array_set_item (Some junk) t (int i) v = Some (OPAL_SUCCESS, t')
    \<and> pa_wf t' \<and> pa_map t' = (pa_map t)(i := v) \<and> pa_max_size t' = pa_max_size t \<and> pa_size t \<le> pa_size t'"
proof -
  obtain t1 where t1: "grow_for_index (Some junk) t (int i) = Some (True, t1)" "pa_wf t1" "int i < pa_size t1"
      "pa_map t1 = pa_map t" "pa_max_size t1 = pa_max_size t" "pa_size t \<le> pa_size t1"
    using grow_for_index_room [OF assms] by blast
  from set_item_inrange [OF t1(2,3)] set_item_after_grow [OF t1(1,3)] t1(4-6)
  show ?thesis by metis
qed

lemma set_item_no_room:
  "pa_wf t \<Longrightarrow> pa_no_room t i \<Longrightarrow> (int i div 2 + 1) * 2 \<le> INT_MAX \<Longrightarrow>
     opal_pointer_array_set_item mem t (int i) v = Some (OPAL_ERROR, t)"
  by (simp add: opal_pointer_array_set_item_def grow_for_index_no_room)

lemma set_item_off_by_one:
  assumes "pa_wf t" "pa_off_by_one t i" "int i + 2 \<le> INT_MAX"
  shows "opal_pointer_array_set_item (Some junk) t (int i) v = None"
proof -
  have "length (pa_cells t) \<le> i" using assms(1,2) by (simp add: pa_wf_def pa_off_by_one_def)
  then have "aget (pa_cells t @ replicate (i - length (pa_cells t)) None) (int i) = None"
    by (simp add: aget_def)
  then show ?thesis
    by (simp add: opal_pointer_array_set_item_def grow_for_index_off_by_one [OF assms] grow_to_def)
qed

lemma test_and_set_in_use:
  assumes "pa_wf t" "pa_map t i \<noteq> None"
  shows "opal_pointer_array_test_and_set_item mem t (int i) v = Some (False, t)"
  using assms
  by (auto simp: opal_pointer_array_test_and_set_item_def pa_map_def pa_wf_def pa_cells_def
      split: option.splits if_splits)

text \<open>On a free cell inside the table, reserving it for a pointer is setting it.\<close>

lemma test_and_set_inrange:
  assumes wf: "pa_wf t" and i: "int i < pa_size t" and free: "pa_map t i = None"
  shows "opal_pointer_array_test_and_set_item mem t (int i) (Some w)
    = map_option (\<lambda>(rc, t'). (True, t')) (opal_pointer_array_set_item mem t (int i) (Some w))"
proof -
  let ?xs = "pa_cells t"
  have size: "pa_size t = int (length ?xs)" "i < length ?xs" using assms by (auto simp: pa_wf_def)
  then have addr: "pa_addr t = Some ?xs" by (auto simp: pa_cells_def split: option.splits)
  from free size have nth: "?xs ! i = None" by (simp add: pa_map_def)
  have "find (\<lambda>j. ?xs[i := Some w] ! j = None) [i..<length ?xs] = find (\<lambda>j. ?xs ! j = None) [Suc i..<length ?xs]"
    using size(2) by (simp add: upt_conv_Cons) (rule find_cong, auto)
  then have "next_free (?xs[i := Some w]) (int i) (pa_size t) = next_free ?xs (int i + 1) (pa_size t)"
    using size by (simp add: next_free_total nat_add_distrib)
  with size nth show ?thesis
    by (cases "pa_lowest_free t = int i"; cases "next_free ?xs (int i + 1) (pa_size t)")
      (simp_all add: opal_pointer_array_test_and_set_item_def opal_pointer_array_set_item_def
        grow_for_index_def addr Let_def split: option.splits)
qed

lemma test_and_set_correct:
  assumes "pa_wf t" "pa_room t i" "pa_map t i = None"
  shows "\<exists>t'. opal_pointer_array_test_and_set_item (Some junk) t (int i) (Some w) = Some (True, t')
    \<and> pa_wf t' \<and> pa_map t' = (pa_map t)(i \<mapsto> w) \<and> pa_max_size t' = pa_max_size t"
proof -
  obtain t1 where t1: "grow_for_index (Some junk) t (int i) = Some (True, t1)" "pa_wf t1" "int i < pa_size t1"
      "pa_map t1 = pa_map t" "pa_max_size t1 = pa_max_size t"
    using grow_for_index_room [OF assms(1,2)] by blast
  have "opal_pointer_array_test_and_set_item (Some junk) t (int i) (Some w)
      = opal_pointer_array_test_and_set_item (Some junk) t1 (int i) (Some w)"
  proof (cases "int i < pa_size t")
    case True
    with t1(1) show ?thesis by (simp add: grow_for_index_def)
  next
    case False
    from t1(4) assms(3) have "pa_map t1 i = None" by simp
    with t1(2,3) have "pa_addr t1 \<bind> (\<lambda>a. aget a (int i)) = Some None"
      by (auto simp: pa_map_def pa_wf_def pa_cells_def split: option.splits)
    with False t1 show ?thesis
      by (auto simp: opal_pointer_array_test_and_set_item_def grow_for_index_def [of _ t1] bind_eq_Some_conv)
  qed
  with set_item_inrange [OF t1(2,3)] test_and_set_inrange [OF t1(2,3)] t1(4,5) assms(3)
  show ?thesis by fastforce
qed

subsection \<open>Adding a pointer\<close>

lemma free_cell_iff: "pa_wf t \<Longrightarrow> 0 < pa_number_free t \<longleftrightarrow> first_free (pa_cells t) < length (pa_cells t)"
  using no_None_count [of "pa_cells t"] first_free_eq [of "pa_cells t" "first_free (pa_cells t)"]
    first_free_le [of "pa_cells t"]
  by (auto simp: pa_wf_def) (metis le_neq_implies_less not_None_eq)

lemma add_with_free_cell:
  assumes wf: "pa_wf t" and free: "0 < pa_number_free t" and i: "i = first_free (pa_cells t)"
  shows "opal_pointer_array_add mem t (Some p)
    = map_option (\<lambda>(rc, t'). (int i, t')) (opal_pointer_array_set_item mem t (int i) (Some p))"
proof -
  let ?xs = "pa_cells t"
  have lt: "i < length ?xs" using free_cell_iff [OF wf] free i by simp
  have size: "pa_size t = int (length ?xs)" using wf by (simp add: pa_wf_def)
  have addr: "pa_addr t = Some ?xs" using lt by (auto simp: pa_cells_def split: option.splits)
  have nth: "?xs ! i = None" using first_free_eq [of ?xs i] i lt by simp
  have nf: "next_free (?xs[i := Some p]) (int i + 1) (pa_size t) = next_free ?xs (int i + 1) (pa_size t)"
    using size lt by (simp add: next_free_total nat_add_distrib) (rule find_cong, auto)
  have next_None: "pa_number_free t = 1 \<Longrightarrow> next_free ?xs (int i + 1) (pa_size t) = Some None"
    and next_Some: "1 < pa_number_free t \<Longrightarrow> \<exists>k. next_free ?xs (int i + 1) (pa_size t) = Some (Some k)"
  proof -
    have count: "int (length (filter (\<lambda>c. c = None) (?xs[i := Some p]))) = pa_number_free t - 1"
      using wf lt nth by (simp add: count_None_update pa_wf_def)
    have "?xs[i := Some p] ! j \<noteq> None \<longleftrightarrow> (Suc i \<le> j \<longrightarrow> ?xs ! j \<noteq> None)" if "j < length ?xs" for j
      using first_free_eq [of ?xs i] i that by (cases j i rule: linorder_cases) simp_all
    then have "find (\<lambda>j. ?xs ! j = None) [Suc i..<length ?xs] = None
        \<longleftrightarrow> (\<forall>j < length ?xs. ?xs[i := Some p] ! j \<noteq> None)"
      unfolding find_upt_None by blast
    also have "\<dots> \<longleftrightarrow> pa_number_free t = 1"
      using no_None_count [of "?xs[i := Some p]"] count by auto
    finally have "find (\<lambda>j. ?xs ! j = None) [Suc i..<length ?xs] = None \<longleftrightarrow> pa_number_free t = 1" .
    then show "pa_number_free t = 1 \<Longrightarrow> next_free ?xs (int i + 1) (pa_size t) = Some None"
      "1 < pa_number_free t \<Longrightarrow> \<exists>k. next_free ?xs (int i + 1) (pa_size t) = Some (Some k)"
      using size by (auto simp: next_free_total nat_add_distrib)
  qed
  have bounds: "pa_lowest_free t = int i" "pa_number_free t \<le> pa_size t"
    using wf i by (auto simp: pa_wf_def)
  show ?thesis
  proof (cases "pa_number_free t = 1")
    case True
    with next_None lt size addr nth nf bounds free show ?thesis
      by (simp add: opal_pointer_array_add_def opal_pointer_array_set_item_def grow_for_index_def Let_def)
  next
    case False
    with free next_Some obtain k where "next_free ?xs (int i + 1) (pa_size t) = Some (Some k)" by auto
    with False lt size addr nth nf bounds free show ?thesis
      by (simp add: opal_pointer_array_add_def opal_pointer_array_set_item_def grow_for_index_def Let_def)
  qed
qed

text \<open>The number of cells that a full table asks for.\<close>

definition pa_add_request :: "'a opal_pointer_array_t \<Rightarrow> int" where
  "pa_add_request t = (if pa_addr t = None then 1 else pa_size t * 2)"

lemma add_correct_free:
  assumes "pa_wf t" "0 < pa_number_free t" "i = first_free (pa_cells t)"
  shows "\<exists>t'. opal_pointer_array_add mem t (Some p) = Some (int i, t') \<and> pa_wf t'
    \<and> pa_map t' = (pa_map t)(i \<mapsto> p) \<and> pa_max_size t' = pa_max_size t"
proof -
  have "int i < pa_size t" using free_cell_iff [OF assms(1)] assms by (simp add: pa_wf_def)
  with set_item_inrange [OF assms(1) this] add_with_free_cell [OF assms] show ?thesis by fastforce
qed

lemma add_full_grow:
  assumes wf: "pa_wf t" and full: "pa_number_free t = 0" and "pa_add_request t < pa_max_size t"
  shows "opal_pointer_array_add (Some junk) t (Some p)
      = opal_pointer_array_add (Some junk) (grow_to t (pa_add_request t)) (Some p)"
    "pa_wf (grow_to t (pa_add_request t))" "0 < pa_number_free (grow_to t (pa_add_request t))"
    "pa_map (grow_to t (pa_add_request t)) = pa_map t"
    "pa_max_size (grow_to t (pa_add_request t)) = pa_max_size t"
    "first_free (pa_cells (grow_to t (pa_add_request t))) = length (pa_cells t)"
proof -
  let ?n = "pa_add_request t"
  have n: "pa_size t < ?n" "0 < ?n" "?n < pa_max_size t" "?n \<le> INT_MAX"
    using assms by (auto simp: pa_add_request_def pa_wf_def pa_cells_def split: option.splits)
  note gt = grow_to_correct [OF wf _ n(2)]
  show wf': "pa_wf (grow_to t ?n)" and "pa_map (grow_to t ?n) = pa_map t"
    and "pa_max_size (grow_to t ?n) = pa_max_size t" using gt n by auto
  show nf: "0 < pa_number_free (grow_to t ?n)" using n full by (simp add: grow_to_def)
  have "first_free (pa_cells t) = length (pa_cells t)"
    using free_cell_iff [OF wf] full first_free_le [of "pa_cells t"] by simp
  then show "first_free (pa_cells (grow_to t ?n)) = length (pa_cells t)"
    using wf wf' by (simp add: pa_wf_def grow_to_def)
  have "grow_table (Some junk) t ?n INT_MAX = Some (True, grow_to t ?n)"
    using n by (subst grow_table_eq [OF wf refl]) auto
  with n nf full show "opal_pointer_array_add (Some junk) t (Some p)
      = opal_pointer_array_add (Some junk) (grow_to t ?n) (Some p)"
    by (auto simp: opal_pointer_array_add_def OMPI_FORTRAN_HANDLE_MAX_def TABLE_INIT_def TABLE_GROW_def
        pa_add_request_def split: if_splits)
qed

lemma add_correct:
  assumes wf: "pa_wf t" and room: "0 < pa_number_free t \<or> pa_add_request t < pa_max_size t"
    and i: "i = first_free (pa_cells t)"
  shows "\<exists>t'. opal_pointer_array_add (Some junk) t (Some p) = Some (int i, t') \<and> pa_wf t'
    \<and> pa_map t' = (pa_map t)(i \<mapsto> p) \<and> pa_max_size t' = pa_max_size t"
proof (cases "0 < pa_number_free t")
  case True
  from add_correct_free [OF wf this i] show ?thesis .
next
  case False
  then have full: "pa_number_free t = 0" using wf by (simp add: pa_wf_def)
  with i free_cell_iff [OF wf] first_free_le [of "pa_cells t"] have "i = length (pa_cells t)" by simp
  with add_full_grow [OF wf full] room full
    add_correct_free [of "grow_to t (pa_add_request t)" i "Some junk" p]
  show ?thesis by simp
qed

lemma add_full:
  assumes "pa_wf t" "pa_number_free t = 0" "pa_max_size t \<le> pa_add_request t" "pa_add_request t \<le> INT_MAX"
  shows "opal_pointer_array_add mem t p = Some (OPAL_ERR_OUT_OF_RESOURCE, t)"
  using assms by (auto simp: opal_pointer_array_add_def grow_table_def pa_add_request_def TABLE_INIT_def
      TABLE_GROW_def OMPI_FORTRAN_HANDLE_MAX_def Let_def)

lemma add_overflow:
  assumes "pa_number_free t = 0" "INT_MAX < pa_add_request t"
  shows "opal_pointer_array_add mem t p = None"
proof -
  from assms(2) have "pa_addr t \<noteq> None" "INT_MAX < pa_size t * TABLE_GROW"
    by (auto simp: pa_add_request_def TABLE_GROW_def INT_MAX_def split: if_splits)
  with assms(1) show ?thesis by (simp add: opal_pointer_array_add_def)
qed

text \<open>The table as an allocator of handles: \<^const>\<open>opal_pointer_array_add\<close> of a pointer \<open>p\<close>.\<close>

definition pa_alloc :: "'a option \<Rightarrow> 'a \<Rightarrow> 'a opal_pointer_array_t \<Rightarrow> (nat \<times> 'a opal_pointer_array_t) option" where
  "pa_alloc junk p t =
     (case opal_pointer_array_add (Some junk) t (Some p) of None \<Rightarrow> None
      | Some (rc, t') \<Rightarrow> if rc < 0 then None else Some (nat rc, t'))"

definition pa_used :: "'a opal_pointer_array_t \<Rightarrow> nat set" where
  "pa_used t = {i. pa_map t i \<noteq> None}"

lemma pa_alloc_cases:
  assumes "pa_wf t" "pa_alloc junk p t = Some (i, t')"
  shows "i = first_free (pa_cells t) \<and> pa_wf t' \<and> pa_map t' = (pa_map t)(i \<mapsto> p)"
proof (cases "0 < pa_number_free t \<or> pa_add_request t < pa_max_size t")
  case True
  from add_correct [OF assms(1) this refl, of junk p] assms(2) show ?thesis by (auto simp: pa_alloc_def)
next
  case False
  then have full: "pa_number_free t = 0" "pa_max_size t \<le> pa_add_request t" using assms(1) by (auto simp: pa_wf_def)
  show ?thesis
  proof (cases "pa_add_request t \<le> INT_MAX")
    case True
    from add_full [OF assms(1) full True] assms(2) show ?thesis by (simp add: pa_alloc_def rc_defs)
  next
    case False
    with add_overflow [OF full(1)] assms(2) show ?thesis by (simp add: pa_alloc_def)
  qed
qed

lemma first_free_unused: "first_free (pa_cells t) = (LEAST i. i \<notin> pa_used t)"
  unfolding first_free_Least pa_used_def pa_map_def by simp

interpretation pa_ids: lowest_id_allocator pa_wf pa_used "pa_alloc junk p" for junk p
proof unfold_locales
  fix t t' :: "'a opal_pointer_array_t" and i
  assume *: "pa_wf t" "pa_alloc junk p t = Some (i, t')"
  note c = pa_alloc_cases [OF *]
  then show "pa_wf t'" "pa_used t' = insert i (pa_used t)" "i = (LEAST k. k \<notin> pa_used t)"
    by (auto simp: pa_used_def first_free_unused)
  show "i \<notin> pa_used t"
    using c first_free_eq [of "pa_cells t" i] by (auto simp: pa_used_def pa_map_def)
qed

section \<open>Reading, emptying and reachable tables\<close>

lemma get_item_correct: "pa_wf t \<Longrightarrow> opal_pointer_array_get_item t (int i) = Some (pa_map t i)"
  by (auto simp: opal_pointer_array_get_item_def pa_wf_def pa_map_def pa_cells_def split: option.splits)

lemma pa_remove_all_correct:
  assumes "pa_wf t"
  shows "\<exists>t'. opal_pointer_array_remove_all t = Some t' \<and> pa_wf t' \<and> pa_map t' = (\<lambda>i. None)
    \<and> pa_size t' = pa_size t"
proof (cases "pa_number_free t = pa_size t")
  case True
  then have "\<forall>c \<in> set (pa_cells t). c = None"
    using assms length_filter_less [of _ "pa_cells t" "\<lambda>c. c = None"] by (force simp: pa_wf_def)
  then have "pa_map t = (\<lambda>i. None)" by (auto simp: pa_map_def)
  with True assms show ?thesis by (simp add: opal_pointer_array_remove_all_def)
next
  case False
  then obtain a where a: "pa_addr t = Some a" "pa_size t = int (length a)" "0 < length a" "pa_max_size t \<le> INT_MAX"
    using assms by (auto simp: pa_wf_def pa_cells_def split: option.splits)
  have "ofold (\<lambda>i a. aset a (int i) None) [0..<length a] a = Some (replicate (length a) None)"
    using ofold_aset_fill [of "[]" "length a" a None] by simp
  with False a show ?thesis
    by (auto simp: opal_pointer_array_remove_all_def pa_wf_def pa_cells_def pa_map_def first_free_eq)
qed

lemma set_size_correct:
  assumes "pa_wf t" "opal_pointer_array_set_size mem t n = Some (rc, t')"
  shows "pa_wf t' \<and> pa_map t' = pa_map t \<and> (rc = OPAL_SUCCESS \<longrightarrow> n \<le> pa_size t')"
proof (cases "pa_size t < n")
  case True
  then have "0 < n" using assms(1) by (simp add: pa_wf_def)
  with True grow_table_eq [OF assms(1), of n n n mem] assms grow_to_correct [OF assms(1), of n]
  show ?thesis by (auto simp: opal_pointer_array_set_size_def rc_defs split: if_splits)
next
  case False
  with assms show ?thesis by (auto simp: opal_pointer_array_set_size_def)
qed

lemma init_wf:
  assumes "opal_pointer_array_init mem (Some opal_pointer_array_construct) ia ms bs = (OPAL_SUCCESS, Some t)"
    "0 < ia \<or> 0 < bs" "ms \<le> INT_MAX"
  shows "pa_wf t \<and> pa_map t = (\<lambda>i. None) \<and> pa_max_size t = ms"
  using assms
  by (auto simp: opal_pointer_array_init_def opal_pointer_array_construct_def pa_wf_def pa_cells_def
      first_free_eq pa_map_def fun_eq_iff Let_def rc_defs split: if_splits)

lemma set_item_wf:
  assumes "pa_wf t" "opal_pointer_array_set_item mem t index v = Some (rc, t')"
  shows "pa_wf t'"
proof (cases "index < 0")
  case True
  with assms show ?thesis
    by (auto simp: opal_pointer_array_set_item_def grow_for_index_def aget_def pa_wf_def bind_eq_Some_conv)
next
  case False
  then obtain i where i: "index = int i" using nonneg_int_cases [of index] by auto
  consider "int i < pa_size t" | "pa_size t \<le> int i" "INT_MAX < (int i div 2 + 1) * 2"
    | "pa_size t \<le> int i" "(int i div 2 + 1) * 2 \<le> INT_MAX" "mem = None"
    | junk where "pa_size t \<le> int i" "(int i div 2 + 1) * 2 \<le> INT_MAX" "mem = Some junk" by fastforce
  then show ?thesis
  proof cases
    case 1
    from set_item_inrange [OF assms(1) this, of mem v] assms(2) i show ?thesis by auto
  next
    case 2
    with assms(2) i show ?thesis
      by (simp add: opal_pointer_array_set_item_def grow_for_index_def TABLE_GROW_def sdiv_nonneg)
  next
    case 3
    then have "grow_for_index mem t index = Some (False, t)"
      by (simp add: i grow_for_index_def TABLE_GROW_def sdiv_nonneg grow_table_def Let_def)
    with assms show ?thesis by (simp add: opal_pointer_array_set_item_def)
  next
    case (4 junk)
    then have over: "pa_off_by_one t i \<Longrightarrow> int i + 2 \<le> INT_MAX" by (auto simp: half_double pa_off_by_one_def)
    from pa_room_cases [of t i] set_item_correct [OF assms(1), of i junk v] set_item_no_room [OF assms(1), of i mem v]
      set_item_off_by_one [OF assms(1), of i junk v] over 4 assms i
    show ?thesis by fastforce
  qed
qed

text \<open>
  Tables that a client can reach: operations that succeed or fail, with and without memory, on any
  index. Only pointers that are not null are added and reserved; \<open>test_and_set_null\<close> below shows
  why. An operation that faults leads nowhere.
\<close>

inductive pa_reachable :: "'a opal_pointer_array_t \<Rightarrow> bool" where
  init: "opal_pointer_array_init mem (Some opal_pointer_array_construct) ia ms bs = (OPAL_SUCCESS, Some t)
           \<Longrightarrow> 0 < ia \<or> 0 < bs \<Longrightarrow> ms \<le> INT_MAX \<Longrightarrow> pa_reachable t"
| add: "pa_reachable t \<Longrightarrow> opal_pointer_array_add mem t (Some p) = Some (rc, t') \<Longrightarrow> pa_reachable t'"
| set: "pa_reachable t \<Longrightarrow> opal_pointer_array_set_item mem t i v = Some (rc, t') \<Longrightarrow> pa_reachable t'"
| reserve: "pa_reachable t \<Longrightarrow> opal_pointer_array_test_and_set_item mem t i (Some p) = Some (b, t') \<Longrightarrow> pa_reachable t'"
| resize: "pa_reachable t \<Longrightarrow> opal_pointer_array_set_size mem t n = Some (rc, t') \<Longrightarrow> pa_reachable t'"
| clear: "pa_reachable t \<Longrightarrow> opal_pointer_array_remove_all t = Some t' \<Longrightarrow> pa_reachable t'"

lemma add_wf_mem:
  assumes "pa_wf t" "opal_pointer_array_add (Some junk) t (Some p) = Some (rc, t')"
  shows "pa_wf t'"
proof (cases "0 < pa_number_free t \<or> pa_add_request t < pa_max_size t")
  case True
  from add_correct [OF assms(1) this refl, of junk p] assms(2) show ?thesis by auto
next
  case False
  then have full: "pa_number_free t = 0" "pa_max_size t \<le> pa_add_request t" using assms(1) by (auto simp: pa_wf_def)
  moreover have "pa_add_request t \<le> INT_MAX"
    using add_overflow [OF full(1)] assms(2) by fastforce
  ultimately show ?thesis using add_full [OF assms(1)] assms by fastforce
qed

lemma add_wf:
  assumes "pa_wf t" "opal_pointer_array_add mem t (Some p) = Some (rc, t')"
  shows "pa_wf t'"
proof (cases mem)
  case None
  show ?thesis
  proof (cases "pa_number_free t = 0")
    case True
    with None assms show ?thesis by (auto simp: opal_pointer_array_add_def grow_table_def Let_def split: if_splits)
  next
    case False
    then have "opal_pointer_array_add mem t (Some p) = opal_pointer_array_add (Some None) t (Some p)"
      by (simp add: opal_pointer_array_add_def)
    with assms show ?thesis using add_wf_mem [OF assms(1), of None p] by simp
  qed
next
  case (Some junk)
  with assms show ?thesis using add_wf_mem [OF assms(1), of junk p] by simp
qed

lemma test_and_set_wf:
  assumes "pa_wf t" "opal_pointer_array_test_and_set_item mem t index (Some p) = Some (b, t')"
  shows "pa_wf t'"
proof -
  have "0 \<le> index" using assms(2) by (auto simp: opal_pointer_array_test_and_set_item_def split: if_splits)
  then obtain i where i: "index = int i" using nonneg_int_cases by auto
  show ?thesis
  proof (cases "pa_map t i = None")
    case False
    then show ?thesis using test_and_set_in_use [OF assms(1), of i mem "Some p"] assms i by simp
  next
    case free: True
    consider "int i < pa_size t" | "pa_size t \<le> int i" "INT_MAX < (int i div 2 + 1) * 2"
      | "pa_size t \<le> int i" "(int i div 2 + 1) * 2 \<le> INT_MAX" "mem = None"
      | junk where "pa_size t \<le> int i" "(int i div 2 + 1) * 2 \<le> INT_MAX" "mem = Some junk" by fastforce
    then show ?thesis
    proof cases
      case 1
      then obtain r where "opal_pointer_array_set_item mem t (int i) (Some p) = Some r" "pa_wf (snd r)"
        using set_item_inrange [OF assms(1) 1, of mem "Some p"] by auto
      then show ?thesis using test_and_set_inrange [OF assms(1) 1 free, of mem p] assms(2) i by (cases r) simp
    next
      case 2
      with assms(2) i show ?thesis
        by (simp add: opal_pointer_array_test_and_set_item_def grow_for_index_def TABLE_GROW_def sdiv_nonneg)
    next
      case 3
      then have "grow_for_index mem t index = Some (False, t)"
        by (simp add: i grow_for_index_def TABLE_GROW_def sdiv_nonneg grow_table_def Let_def)
      with assms 3 i show ?thesis by (simp add: opal_pointer_array_test_and_set_item_def)
    next
      case (4 junk)
      consider "pa_room t i" | "pa_no_room t i" | "pa_off_by_one t i" using pa_room_cases by blast
      then show ?thesis
      proof cases
        case 1
        then show ?thesis using test_and_set_correct [OF assms(1) 1 free, of junk p] assms(2) i 4 by auto
      next
        case 2
        then show ?thesis using grow_for_index_no_room [OF assms(1) 2 4(2), of mem] assms i 4
          by (simp add: opal_pointer_array_test_and_set_item_def)
      next
        case 3
        then have "int i + 2 \<le> INT_MAX" using 4(2) by (auto simp: half_double pa_off_by_one_def)
        note grow = grow_for_index_off_by_one [OF assms(1) 3 this, of junk]
        have "length (pa_cells t) \<le> i" using assms(1) 3 by (simp add: pa_wf_def pa_off_by_one_def)
        then have "aset (pa_cells t @ replicate (i - length (pa_cells t)) None) (int i) (Some p) = None"
          by (simp add: aset_def)
        then show ?thesis using grow assms(2) i 4
          by (simp add: opal_pointer_array_test_and_set_item_def grow_to_def)
      qed
    qed
  qed
qed

text \<open>Reserving a free cell with the null pointer counts a cell as used that is free.\<close>

lemma test_and_set_null:
  assumes "pa_wf t" "int i < pa_size t" "pa_map t i = None"
  shows "\<exists>t'. opal_pointer_array_test_and_set_item mem t (int i) None = Some (True, t') \<and> \<not> pa_wf t'"
proof -
  have size: "pa_size t = int (length (pa_cells t))" "i < length (pa_cells t)" using assms by (auto simp: pa_wf_def)
  then have addr: "pa_addr t = Some (pa_cells t)" by (auto simp: pa_cells_def split: option.splits)
  have cell: "pa_cells t ! i = None" using assms(3) size by (simp add: pa_map_def)
  then have upd: "(pa_cells t)[i := None] = pa_cells t" by (metis list_update_id)
  have nf: "pa_number_free t = int (length (filter (\<lambda>c. c = None) (pa_cells t)))" using assms(1) by (simp add: pa_wf_def)
  have "\<exists>t'. opal_pointer_array_test_and_set_item mem t (int i) None = Some (True, t')
      \<and> pa_addr t' = Some (pa_cells t) \<and> pa_number_free t' = pa_number_free t - 1"
    using size cell by (auto simp: opal_pointer_array_test_and_set_item_def grow_for_index_def addr upd Let_def next_free_total)
  then show ?thesis using nf by (auto simp: pa_wf_def pa_cells_def)
qed

section \<open>Properties\<close>

text \<open>C23: in every table that \<^verbatim>\<open>opal_pointer_array_init\<close> and any sequence of operations produce, successful
  or not, with any indices and whatever memory \<^verbatim>\<open>realloc\<close> finds, as long as no null pointer is added or
  reserved (a null pointer may be set, which frees the cell): the
  cached number of free cells and the cached index of the lowest free cell are exact and the
  recorded size is the size of the allocation.\<close>

theorem pointer_array_caches_exact:
  assumes "pa_reachable t"
  shows "pa_wf t"
  using assms
proof (induction rule: pa_reachable.induct)
  case init
  from init_wf [OF init] show ?case by simp
next
  case add
  from add_wf [OF add.IH add.hyps(2)] show ?case .
next
  case set
  from set_item_wf [OF set.IH set.hyps(2)] show ?case .
next
  case reserve
  from test_and_set_wf [OF reserve.IH reserve.hyps(2)] show ?case .
next
  case resize
  from set_size_correct [OF resize.IH resize.hyps(2)] show ?case by simp
next
  case (clear t t')
  then show ?case using pa_remove_all_correct [of t] by auto
qed

text \<open>Two pointers are added to a table of two cells, which is then full; index 4 is reserved, for which the
  table grows to six cells, and the first pointer is removed.\<close>

theorem pointer_array_caches_exact_witness:
  "pa_wf \<lparr>pa_lowest_free = 0, pa_number_free = 4, pa_size = 6, pa_max_size = 8, pa_block_size = 2,
          pa_addr = Some [None, Some 11, None, None, Some 12, None :: nat option]\<rparr>"
proof (rule pointer_array_caches_exact)
  let ?t = "\<lambda>l f n cells. \<lparr>pa_lowest_free = l, pa_number_free = f, pa_size = n, pa_max_size = 8, pa_block_size = 2, pa_addr = Some cells\<rparr>"
  note ops = opal_pointer_array_add_def opal_pointer_array_test_and_set_item_def opal_pointer_array_set_item_def
    grow_for_index_def grow_table_def next_free_def aget_def aset_def arealloc_def TABLE_GROW_def INT_MAX_def sdiv_nonneg upt_conv_Cons rc_defs
  have "pa_reachable (?t 0 2 2 [None, None :: nat option])"
    by (rule pa_reachable.init [of True 2 8 2])
      (simp_all add: opal_pointer_array_init_def opal_pointer_array_construct_def INT_MAX_def rc_defs numeral_2_eq_2)
  then have "pa_reachable (?t 1 1 2 [Some 10, None :: nat option])"
    by (rule pa_reachable.add [where mem = None and p = 10]) (simp add: ops)
  then have "pa_reachable (?t 2 0 2 [Some 10, Some (11 :: nat)])"
    by (rule pa_reachable.add [where mem = None and p = 11]) (simp add: ops)
  then have "pa_reachable (?t 2 3 6 [Some 10, Some 11, None, None, Some 12, None :: nat option])"
    by (rule pa_reachable.reserve [where mem = "Some (Some 99)" and i = 4 and p = 12 and b = True]) (simp add: ops eval_nat_numeral)
  then show "pa_reachable (?t 0 4 6 [None, Some 11, None, None, Some 12, None :: nat option])"
    by (rule pa_reachable.set [where mem = None and i = 0 and v = None]) (simp add: ops)
qed

text \<open>Adding a pointer to a table that has a free cell, or may still double, returns the lowest
  handle not in use, stores the pointer there and changes no other handle; a full table at its
  limit answers \<^verbatim>\<open>OPAL_ERR_OUT_OF_RESOURCE\<close> and is left as it was.\<close>

lemma pointer_array_add_lowest_handle:
  assumes "pa_wf t"
  shows "(0 < pa_number_free t \<or> pa_add_request t < pa_max_size t \<longrightarrow>
      (\<exists>i t'. opal_pointer_array_add (Some junk) t (Some p) = Some (int i, t')
        \<and> i = (LEAST k. opal_pointer_array_get_item t (int k) = Some None) \<and> pa_wf t'
        \<and> (\<forall>k. opal_pointer_array_get_item t' (int k)
              = (if k = i then Some (Some p) else opal_pointer_array_get_item t (int k)))))
    \<and> (pa_number_free t = 0 \<and> pa_max_size t \<le> pa_add_request t \<and> pa_add_request t \<le> INT_MAX \<longrightarrow>
        opal_pointer_array_add (Some junk) t (Some p) = Some (OPAL_ERR_OUT_OF_RESOURCE, t))"
proof (intro conjI impI)
  assume "0 < pa_number_free t \<or> pa_add_request t < pa_max_size t"
  from add_correct [OF assms this refl, of junk p] obtain t' where
    "opal_pointer_array_add (Some junk) t (Some p) = Some (int (first_free (pa_cells t)), t')" "pa_wf t'"
    "pa_map t' = (pa_map t)(first_free (pa_cells t) \<mapsto> p)" by blast
  with assms show "\<exists>i t'. opal_pointer_array_add (Some junk) t (Some p) = Some (int i, t')
        \<and> i = (LEAST k. opal_pointer_array_get_item t (int k) = Some None) \<and> pa_wf t'
        \<and> (\<forall>k. opal_pointer_array_get_item t' (int k)
              = (if k = i then Some (Some p) else opal_pointer_array_get_item t (int k)))"
    by (intro exI [of _ "first_free (pa_cells t)"] exI [of _ t'])
      (simp add: get_item_correct first_free_unused pa_used_def)
qed (use add_full [OF assms] in blast)

text \<open>The handles of any number of consecutive additions are distinct, and none of them was in use.\<close>

lemma pointer_array_handles_distinct:
  assumes "pa_wf t" "alloc_n (pa_alloc junk p) n t = Some (is, t')"
  shows "distinct is \<and> length is = n \<and> (\<forall>i \<in> set is. opal_pointer_array_get_item t (int i) = Some None
      \<and> opal_pointer_array_get_item t' (int i) \<noteq> Some None)"
proof -
  note d = pa_ids.alloc_n_distinct [OF assms]
  then show ?thesis
    using get_item_correct [OF assms(1)] get_item_correct [of t'] by (auto simp: pa_used_def)
qed

text \<open>\<^verbatim>\<open>opal_pointer_array_set_item\<close> on an index inside the table, or one for which the table can
  grow to the next even size, succeeds; reading that index returns the stored pointer and every
  other index reads as before.\<close>

lemma pointer_array_set_then_get:
  assumes "pa_wf t" "pa_room t i"
  shows "\<exists>t'. opal_pointer_array_set_item (Some junk) t (int i) v = Some (OPAL_SUCCESS, t') \<and> pa_wf t'
    \<and> opal_pointer_array_get_item t' (int i) = Some v
    \<and> (\<forall>k. k \<noteq> i \<longrightarrow> opal_pointer_array_get_item t' (int k) = opal_pointer_array_get_item t (int k))"
  using set_item_correct [OF assms, of junk v] get_item_correct [OF assms(1)] by (fastforce simp: get_item_correct)

text \<open>With an odd limit, setting its last index grows the table to exactly that many cells and
  then writes one cell past the end.\<close>

lemma pointer_array_set_item_overflow:
  assumes "pa_wf t" "even i" "pa_size t \<le> int i" "pa_max_size t = int i + 1" "int i + 2 \<le> INT_MAX"
  shows "opal_pointer_array_set_item (Some junk) t (int i) v = None"
  using set_item_off_by_one [OF assms(1)] assms by (simp add: pa_off_by_one_def)

end
