(* ===== verification/Opal_Ring_Buffer.thy ===== *)
theory Opal_Ring_Buffer
  imports OMPI_Prelude
begin

text \<open>
  The ring of pointers of \<^verbatim>\<open>opal/class/opal_ring_buffer.c\<close>, with which the runtime keeps the last
  results of a sensor. A cell is free when it holds the null pointer (\<^const>\<open>None\<close>), \<^verbatim>\<open>head\<close> is the
  cell the next push writes and \<^verbatim>\<open>tail\<close> the oldest entry, \<open>- 1\<close> when there is none. A push on a full
  ring overwrites the oldest entry and returns it. The contract is the locale \<open>lossy_queue\<close>: a queue
  of bounded length that forgets its oldest entry; the ring refines it through the relation
  \<open>ring_rel\<close>. The lock and the condition variable are not modelled: each operation is atomic.
\<close>

record 'a opal_ring_buffer_t =
  rb_head :: int
  rb_tail :: int
  rb_size :: int
  rb_addr :: "'a option list option"

section \<open>Operations\<close>

definition opal_ring_buffer_construct :: "'a opal_ring_buffer_t" where
  "opal_ring_buffer_construct = \<lparr>rb_head = 0, rb_tail = - 1, rb_size = 0, rb_addr = None\<rparr>"

definition opal_ring_buffer_destruct :: "'a opal_ring_buffer_t \<Rightarrow> 'a opal_ring_buffer_t" where
  "opal_ring_buffer_destruct r = r\<lparr>rb_addr := None, rb_size := 0\<rparr>"

text \<open>\<open>mem\<close> says whether \<^verbatim>\<open>calloc\<close> succeeds; a negative size is a request it always refuses.\<close>

definition opal_ring_buffer_init ::
  "bool \<Rightarrow> 'a opal_ring_buffer_t option \<Rightarrow> int \<Rightarrow> int \<times> 'a opal_ring_buffer_t option" where
  "opal_ring_buffer_init mem ring n =
     (case ring of None \<Rightarrow> (OPAL_ERR_BAD_PARAM, None)
      | Some r \<Rightarrow>
          if mem \<and> 0 \<le> n
          then (OPAL_SUCCESS, Some (r\<lparr>rb_addr := Some (replicate (nat n) None), rb_size := n\<rparr>))
          else (OPAL_ERR_OUT_OF_RESOURCE, Some (r\<lparr>rb_addr := None\<rparr>)))"

definition opal_ring_buffer_push ::
  "'a opal_ring_buffer_t \<Rightarrow> 'a option \<Rightarrow> ('a option \<times> 'a opal_ring_buffer_t) option" where
  "opal_ring_buffer_push r ptr = do {
     a \<leftarrow> rb_addr r;
     old \<leftarrow> aget a (rb_head r);
     let r = (if old \<noteq> None then
                r\<lparr>rb_tail := (if rb_tail r = rb_size r - 1 then 0 else rb_head r + 1)\<rparr>
              else r);
     a \<leftarrow> aset a (rb_head r) ptr;
     let r = r\<lparr>rb_addr := Some a\<rparr>;
     let r = (if rb_tail r < 0 then r\<lparr>rb_tail := rb_head r\<rparr> else r);
     let r = r\<lparr>rb_head := (if rb_head r = rb_size r - 1 then 0 else rb_head r + 1)\<rparr>;
     Some (old, r)
   }"

definition opal_ring_buffer_pop ::
  "'a opal_ring_buffer_t \<Rightarrow> ('a option \<times> 'a opal_ring_buffer_t) option" where
  "opal_ring_buffer_pop r =
     (if rb_tail r = - 1 then Some (None, r)
      else do {
        a \<leftarrow> rb_addr r;
        p \<leftarrow> aget a (rb_tail r);
        a \<leftarrow> aset a (rb_tail r) None;
        let tail = (if rb_tail r = rb_size r - 1 then 0 else rb_tail r + 1);
        let tail = (if tail = rb_head r then - 1 else tail);
        Some (p, r\<lparr>rb_addr := Some a, rb_tail := tail\<rparr>)
      })"

definition opal_ring_buffer_poke :: "'a opal_ring_buffer_t \<Rightarrow> int \<Rightarrow> 'a option option" where
  "opal_ring_buffer_poke r i =
     (if rb_size r \<le> i \<or> rb_tail r = - 1 then Some None
      else do {
        a \<leftarrow> rb_addr r;
        if i < 0 then aget a (if rb_head r = 0 then rb_size r - 1 else rb_head r - 1)
        else
          let offset = rb_tail r + i
          in aget a (if rb_size r \<le> offset then offset - rb_size r else offset)
      })"

section \<open>The contract: a bounded queue that forgets its oldest entry\<close>

datatype 'a ring_op = Ring_Push 'a | Ring_Pop

text \<open>Any sequence of the operations on an implementation, with the pointers they return.\<close>

fun ops_run ::
  "('s \<Rightarrow> 'a \<Rightarrow> ('a option \<times> 's) option) \<Rightarrow> ('s \<Rightarrow> ('a option \<times> 's) option) \<Rightarrow> 'a ring_op list \<Rightarrow> 's
     \<Rightarrow> ('a option list \<times> 's) option" where
  "ops_run push pop [] s = Some ([], s)"
| "ops_run push pop (c # cs) s = do {
     (a, s') \<leftarrow> (case c of Ring_Push x \<Rightarrow> push s x | Ring_Pop \<Rightarrow> pop s);
     (as, s'') \<leftarrow> ops_run push pop cs s';
     Some (a # as, s'')
   }"

definition keep_last :: "nat \<Rightarrow> 'a list \<Rightarrow> 'a list" where
  "keep_last n q = drop (length q - n) q"

lemma keep_last_append: "keep_last n (keep_last n p @ xs) = keep_last n (p @ xs)"
proof (cases "length p \<le> n")
  case False
  have "p = take (length p - n) p @ drop (length p - n) p" by simp
  moreover have "length (drop (length p - n) p) = n" using False by simp
  ultimately obtain u v where "p = u @ v" "length v = n" by blast
  then show ?thesis by (simp add: keep_last_def)
qed (simp add: keep_last_def)

text \<open>The queue: a push returns the entry it drops, a pop the oldest entry.\<close>

fun queue_answer :: "nat \<Rightarrow> 'a ring_op \<Rightarrow> 'a list \<Rightarrow> 'a option" where
  "queue_answer n (Ring_Push x) q = (if length q < n then None else Some (hd q))"
| "queue_answer n Ring_Pop q = (case q of [] \<Rightarrow> None | x # _ \<Rightarrow> Some x)"

fun queue_after :: "nat \<Rightarrow> 'a ring_op \<Rightarrow> 'a list \<Rightarrow> 'a list" where
  "queue_after n (Ring_Push x) q = keep_last n (q @ [x])"
| "queue_after n Ring_Pop q = tl q"

fun queue_run :: "nat \<Rightarrow> 'a ring_op list \<Rightarrow> 'a list \<Rightarrow> 'a option list \<times> 'a list" where
  "queue_run n [] q = ([], q)"
| "queue_run n (c # cs) q = (case queue_run n cs (queue_after n c q) of (as, q') \<Rightarrow> (queue_answer n c q # as, q'))"

locale lossy_queue =
  fixes rel :: "nat \<Rightarrow> 's \<Rightarrow> 'a list \<Rightarrow> bool"
    and push :: "'s \<Rightarrow> 'a \<Rightarrow> ('a option \<times> 's) option"
    and pop :: "'s \<Rightarrow> ('a option \<times> 's) option"
  assumes rel_bound: "rel n s q \<Longrightarrow> 0 < n \<and> length q \<le> n"
    and push_rel: "rel n s q \<Longrightarrow>
      \<exists>s'. push s x = Some (if length q < n then None else Some (hd q), s') \<and> rel n s' (keep_last n (q @ [x]))"
    and pop_rel: "rel n s q \<Longrightarrow>
      \<exists>s'. pop s = Some (case q of [] \<Rightarrow> None | x # _ \<Rightarrow> Some x, s') \<and> rel n s' (tl q)"
begin

lemma op_rel:
  "rel n s q \<Longrightarrow> \<exists>s'. (case c of Ring_Push x \<Rightarrow> push s x | Ring_Pop \<Rightarrow> pop s) = Some (queue_answer n c q, s')
     \<and> rel n s' (queue_after n c q)"
  using push_rel [of n s q] pop_rel [of n s q] by (cases c) auto

lemma run_rel:
  "rel n s q \<Longrightarrow> \<exists>s'. ops_run push pop cs s = Some (fst (queue_run n cs q), s') \<and> rel n s' (snd (queue_run n cs q))"
proof (induction cs arbitrary: s q)
  case (Cons c cs)
  from op_rel [OF Cons.prems, of c] obtain s1 where s1:
    "(case c of Ring_Push x \<Rightarrow> push s x | Ring_Pop \<Rightarrow> pop s) = Some (queue_answer n c q, s1)" "rel n s1 (queue_after n c q)" by blast
  from Cons.IH [OF s1(2)] s1(1) show ?case by (auto simp: case_prod_beta)
qed simp

end

section \<open>The ring refines the queue\<close>

definition ring_rel :: "nat \<Rightarrow> 'a opal_ring_buffer_t \<Rightarrow> 'a list \<Rightarrow> bool" where
  "ring_rel n r q \<longleftrightarrow> (\<exists>a t. rb_addr r = Some a \<and> length a = n \<and> rb_size r = int n \<and> t < n \<and> length q \<le> n
     \<and> rb_head r = int ((t + length q) mod n) \<and> rb_tail r = (if q = [] then - 1 else int t)
     \<and> (\<forall>j < n. a ! ((t + j) mod n) = (if j < length q then Some (q ! j) else None)))"

lemma ring_relI:
  assumes "rb_addr r = Some a" "length a = n" "rb_size r = int n" "t < n" "length q \<le> n"
    "rb_head r = int ((t + length q) mod n)" "rb_tail r = (if q = [] then - 1 else int t)"
    "\<And>j. j < n \<Longrightarrow> a ! ((t + j) mod n) = (if j < length q then Some (q ! j) else None)"
  shows "ring_rel n r q"
  unfolding ring_rel_def using assms by blast

text \<open>The successor on the ring, as the code writes it.\<close>

lemma ring_succ: "i < n \<Longrightarrow> (if int i = int n - 1 then 0 else int i + 1) = int (Suc i mod n)"
  by (auto simp: mod_Suc)

lemma ring_index_le:
  assumes "i \<le> j" "j < n" "(t + i) mod n = (t + j) mod n"
  shows "i = (j :: nat)"
proof -
  have "n dvd (t + j) - (t + i)" using assms(1) mod_eq_dvd_iff_nat [of "t + i" "t + j" n] assms(3) by simp
  then have "n dvd j - i" by simp
  with assms(1,2) show ?thesis by (auto dest: dvd_imp_le)
qed

lemma ring_index_inj:
  "i < n \<Longrightarrow> j < n \<Longrightarrow> (t + i) mod n = (t + j) mod n \<longleftrightarrow> i = (j :: nat)"
  using ring_index_le [of i j n t] ring_index_le [of j i n t] by (metis nle_le)

lemma push_not_full:
  assumes "ring_rel n r q" "length q < n"
  shows "\<exists>r'. opal_ring_buffer_push r (Some x) = Some (None, r') \<and> ring_rel n r' (q @ [x])"
proof -
  from assms(1) obtain a t where r: "rb_addr r = Some a" "length a = n" "rb_size r = int n" "t < n"
      "rb_head r = int ((t + length q) mod n)" "rb_tail r = (if q = [] then - 1 else int t)"
      "\<And>j. j < n \<Longrightarrow> a ! ((t + j) mod n) = (if j < length q then Some (q ! j) else None)"
    unfolding ring_rel_def by blast
  define h where "h = (t + length q) mod n"
  have h: "h < n" "a ! h = None" "rb_head r = int h" using r assms(2) by (auto simp: h_def)
  let ?r' = "r\<lparr>rb_addr := Some (a[h := Some x]), rb_tail := int t, rb_head := int (Suc h mod n)\<rparr>"
  have "opal_ring_buffer_push r (Some x) = Some (None, ?r')"
  proof (cases "q = []")
    case True
    then have "h = t" using r(4) by (simp add: h_def)
    with True h r(1-4,6) ring_succ [OF h(1)] show ?thesis
      by (simp add: opal_ring_buffer_push_def Let_def split: if_splits)
  next
    case False
    with h r(1-4,6) ring_succ [OF h(1)] show ?thesis
      by (cases r) (simp add: opal_ring_buffer_push_def Let_def split: if_splits)
  qed
  moreover have "ring_rel n ?r' (q @ [x])"
  proof (rule ring_relI [where t = t])
    show "rb_head ?r' = int ((t + length (q @ [x])) mod n)" by (simp add: h_def mod_Suc_eq)
    show "a[h := Some x] ! ((t + j) mod n) = (if j < length (q @ [x]) then Some ((q @ [x]) ! j) else None)"
      if "j < n" for j
    proof (cases "j = length q")
      case True
      with h r(2) show ?thesis by (simp add: h_def)
    next
      case False
      then have "(t + j) mod n \<noteq> h" using ring_index_inj [OF that assms(2)] by (simp add: h_def)
      with False r(7) [OF that] show ?thesis by (auto simp: nth_append)
    qed
  qed (use r assms(2) in simp_all)
  ultimately show ?thesis by blast
qed

lemma push_full:
  assumes "ring_rel n r q" "length q = n"
  shows "\<exists>r'. opal_ring_buffer_push r (Some x) = Some (Some (hd q), r') \<and> ring_rel n r' (tl q @ [x])"
proof -
  from assms obtain a t where r: "rb_addr r = Some a" "length a = n" "rb_size r = int n" "t < n"
      "rb_head r = int t" "rb_tail r = (if q = [] then - 1 else int t)"
      "\<And>j. j < n \<Longrightarrow> a ! ((t + j) mod n) = Some (q ! j)"
    unfolding ring_rel_def by auto
  from r(4) assms(2) have q: "q \<noteq> []" by auto
  have at: "a ! t = Some (hd q)" using r(7) [of 0] r(4) q by (simp add: hd_conv_nth)
  let ?s = "Suc t mod n"
  let ?r' = "r\<lparr>rb_addr := Some (a[t := Some x]), rb_tail := int ?s, rb_head := int ?s\<rparr>"
  have "opal_ring_buffer_push r (Some x) = Some (Some (hd q), ?r')"
    using r(1-6) at q ring_succ [OF r(4)] by (auto simp: opal_ring_buffer_push_def)
  moreover have "ring_rel n ?r' (tl q @ [x])"
  proof (rule ring_relI [where t = ?s])
    show "rb_head ?r' = int ((?s + length (tl q @ [x])) mod n)" using q assms(2) r(4) by simp
    show "a[t := Some x] ! ((?s + j) mod n) = (if j < length (tl q @ [x]) then Some ((tl q @ [x]) ! j) else None)"
      if j: "j < n" for j
    proof (cases "Suc j < n")
      case True
      have idx: "(?s + j) mod n = (t + Suc j) mod n" by (simp add: mod_add_left_eq)
      moreover have "(t + Suc j) mod n \<noteq> t" using ring_index_inj [OF True, of 0 t] r(4) by simp
      moreover have "(tl q @ [x]) ! j = q ! Suc j" using True q assms(2) by (cases q) (auto simp: nth_append)
      ultimately show ?thesis using r(7) [OF True] True assms(2) q by simp
    next
      case False
      then have n: "Suc j = n" using j by simp
      have "(?s + j) mod n = (t + Suc j) mod n" by (simp add: mod_add_left_eq)
      then have "(?s + j) mod n = t" using r(4) by (simp only: n mod_add_self2 mod_less)
      with n show ?thesis using r(2,4) assms(2) q by (auto simp: nth_append)
    qed
  qed (use r q assms(2) in simp_all)
  ultimately show ?thesis by blast
qed

lemma pop_correct:
  assumes "ring_rel n r q"
  shows "\<exists>r'. opal_ring_buffer_pop r = Some (case q of [] \<Rightarrow> None | x # _ \<Rightarrow> Some x, r') \<and> ring_rel n r' (tl q)"
proof (cases q)
  case Nil
  moreover from this assms have "rb_tail r = - 1" unfolding ring_rel_def by auto
  ultimately show ?thesis using assms by (simp add: opal_ring_buffer_pop_def)
next
  case (Cons x xs)
  from assms Cons obtain a t where r: "rb_addr r = Some a" "length a = n" "rb_size r = int n" "t < n" "length q \<le> n"
      "rb_head r = int ((t + length q) mod n)" "rb_tail r = int t"
      "\<And>j. j < n \<Longrightarrow> a ! ((t + j) mod n) = (if j < length q then Some (q ! j) else None)"
    unfolding ring_rel_def by auto
  let ?s = "Suc t mod n"
  have at: "a ! t = Some x" using r(8) [of 0] r(4) Cons by simp
  have head: "rb_head r = int ((?s + length xs) mod n)" using r(6) Cons by (simp add: mod_add_left_eq)
  have empty: "?s = (?s + length xs) mod n \<longleftrightarrow> xs = []"
    using ring_index_inj [of 0 n "length xs" ?s] r(4,5) Cons by auto
  let ?r' = "r\<lparr>rb_addr := Some (a[t := None]), rb_tail := (if xs = [] then - 1 else int ?s)\<rparr>"
  have "opal_ring_buffer_pop r = Some (Some x, ?r')"
    using r(1-5,7) at ring_succ [OF r(4)] empty head by (auto simp: opal_ring_buffer_pop_def Let_def)
  moreover have "ring_rel n ?r' xs"
  proof (rule ring_relI [where t = ?s])
    show "rb_head ?r' = int ((?s + length xs) mod n)" using head by simp
    show "a[t := None] ! ((?s + j) mod n) = (if j < length xs then Some (xs ! j) else None)" if j: "j < n" for j
    proof (cases "Suc j < n")
      case True
      have "(?s + j) mod n = (t + Suc j) mod n" by (simp add: mod_add_left_eq)
      moreover have "(t + Suc j) mod n \<noteq> t" using ring_index_inj [OF True, of 0 t] r(4) by simp
      ultimately show ?thesis using r(8) [OF True] Cons by simp
    next
      case False
      then have n: "Suc j = n" using j by simp
      have "(?s + j) mod n = (t + Suc j) mod n" by (simp add: mod_add_left_eq)
      then have "(?s + j) mod n = t" using r(4) by (simp only: n mod_add_self2 mod_less)
      with n show ?thesis using r(2,4,5) Cons by simp
    qed
  qed (use r Cons in simp_all)
  ultimately show ?thesis using Cons by auto
qed

interpretation ring: lossy_queue ring_rel "\<lambda>r x. opal_ring_buffer_push r (Some x)" opal_ring_buffer_pop
proof unfold_locales
  fix n and r :: "'a opal_ring_buffer_t" and q x
  assume rel: "ring_rel n r q"
  then show bound: "0 < n \<and> length q \<le> n" unfolding ring_rel_def by auto
  show "\<exists>r'. opal_ring_buffer_push r (Some x) = Some (if length q < n then None else Some (hd q), r')
      \<and> ring_rel n r' (keep_last n (q @ [x]))"
  proof (cases "length q < n")
    case True
    with push_not_full [OF rel True, of x] show ?thesis by (simp add: keep_last_def)
  next
    case False
    with bound have full: "length q = n" "q \<noteq> []" by auto
    then have "keep_last n (q @ [x]) = tl q @ [x]" by (cases q) (simp_all add: keep_last_def)
    with push_full [OF rel full(1), of x] full(1) show ?thesis by simp
  qed
  show "\<exists>r'. opal_ring_buffer_pop r = Some (case q of [] \<Rightarrow> None | x # _ \<Rightarrow> Some x, r') \<and> ring_rel n r' (tl q)"
    by (rule pop_correct [OF rel])
qed

lemma ring_init_rel:
  "0 < n \<Longrightarrow> \<exists>r. opal_ring_buffer_init True (Some opal_ring_buffer_construct) (int n) = (OPAL_SUCCESS, Some r)
     \<and> ring_rel n r []"
  by (auto simp: opal_ring_buffer_init_def opal_ring_buffer_construct_def intro!: ring_relI [where t = 0])

lemma poke_correct:
  assumes "ring_rel n r q"
  shows "opal_ring_buffer_poke r i =
    Some (if i < 0 then (if q = [] then None else Some (last q))
          else if nat i < length q then Some (q ! nat i) else None)"
proof -
  from assms obtain a t where r: "rb_addr r = Some a" "length a = n" "rb_size r = int n" "t < n" "length q \<le> n"
      "rb_head r = int ((t + length q) mod n)" "rb_tail r = (if q = [] then - 1 else int t)"
      "\<And>j. j < n \<Longrightarrow> a ! ((t + j) mod n) = (if j < length q then Some (q ! j) else None)"
    unfolding ring_rel_def by blast
  consider "q = []" | "q \<noteq> []" "int n \<le> i" | "q \<noteq> []" "i < 0" | "q \<noteq> []" "0 \<le> i" "i < int n" by linarith
  then show ?thesis
  proof cases
    case 1
    with r show ?thesis by (simp add: opal_ring_buffer_poke_def)
  next
    case 2
    with r(3,5) show ?thesis by (auto simp: opal_ring_buffer_poke_def)
  next
    case 3
    define k where "k = (t + (length q - 1)) mod n"
    from 3 have lq: "length q - 1 < n" "Suc (length q - 1) = length q" using r(4,5) by (auto simp: Suc_le_eq)
    then have "(t + length q) mod n = Suc k mod n" by (metis add_Suc_right k_def mod_Suc_eq)
    then have "(if rb_head r = 0 then rb_size r - 1 else rb_head r - 1) = int k"
      using r(3,4,6) mod_less_divisor [of n "t + (length q - 1)"] by (auto simp: k_def mod_Suc)
    moreover have "k < n" "a ! k = Some (last q)" using r(4,8) lq 3 by (auto simp: k_def last_conv_nth)
    ultimately show ?thesis using 3 r(1-3,7) by (simp add: opal_ring_buffer_poke_def)
  next
    case 4
    then obtain j where j: "i = int j" "j < n" using zero_le_imp_eq_int by fastforce
    have "(if int n \<le> int t + int j then int t + int j - int n else int t + int j) = int ((t + j) mod n)"
      using r(4) j(2) by (auto simp: mod_if)
    then have "aget a (if int n \<le> int t + int j then int t + int j - int n else int t + int j)
        = Some (if j < length q then Some (q ! j) else None)"
      using r(2,4) r(8) [OF j(2)] by simp
    with 4 j r(1-4,7) show ?thesis by (simp add: opal_ring_buffer_poke_def Let_def split: if_splits)
  qed
qed

section \<open>Properties\<close>

text \<open>C22: a ring of \<open>n > 0\<close> cells is a queue that keeps its last \<open>n\<close> entries. After its initialisation,
  whatever pushes of pointers (not null) and pops follow in whatever order, none of them faults and every one returns what
  the queue returns: a push the null pointer while there is a free cell, and otherwise the oldest entry,
  which it overwrites; a pop the oldest entry, or the null pointer when the queue is empty. Afterwards
  \<^verbatim>\<open>poke\<close> reads the entries of the queue, counted from the oldest, and the newest one for \<open>- 1\<close>. A full
  ring reports no error, although the comment in \<^verbatim>\<open>opal_ring_buffer.h\<close> on \<^verbatim>\<open>opal_ring_buffer_push\<close>
  announces one: the function returns a pointer.\<close>

theorem ring_buffer_keeps_last_fifo:
  fixes cs :: "'a ring_op list"
  assumes "0 < n"
  shows "\<exists>r r'. opal_ring_buffer_init True (Some opal_ring_buffer_construct) (int n) = (OPAL_SUCCESS, Some r)
    \<and> ops_run (\<lambda>r x. opal_ring_buffer_push r (Some x)) opal_ring_buffer_pop cs r = Some (fst (queue_run n cs []), r')
    \<and> (\<forall>i. opal_ring_buffer_poke r' (int i)
          = Some (if i < length (snd (queue_run n cs [])) then Some (snd (queue_run n cs []) ! i) else None))
    \<and> opal_ring_buffer_poke r' (- 1)
        = Some (if snd (queue_run n cs []) = [] then None else Some (last (snd (queue_run n cs []))))"
proof -
  obtain r :: "'a opal_ring_buffer_t" where r: "opal_ring_buffer_init True (Some opal_ring_buffer_construct) (int n) = (OPAL_SUCCESS, Some r)" "ring_rel n r []"
    using ring_init_rel [OF assms] by blast
  obtain r' where r': "ops_run (\<lambda>r x. opal_ring_buffer_push r (Some x)) opal_ring_buffer_pop cs r = Some (fst (queue_run n cs []), r')"
    "ring_rel n r' (snd (queue_run n cs []))" using ring.run_rel [OF r(2), of cs] by blast
  show ?thesis using r(1) r'(1) poke_correct [OF r'(2)] by (intro exI [of _ r] exI [of _ r']) simp
qed

theorem ring_buffer_keeps_last_fifo_witness:
  "\<exists>r r'. opal_ring_buffer_init True (Some opal_ring_buffer_construct) (int 2) = (OPAL_SUCCESS, Some r)
    \<and> ops_run (\<lambda>r x. opal_ring_buffer_push r (Some x)) opal_ring_buffer_pop
        [Ring_Push (1 :: nat), Ring_Pop, Ring_Pop, Ring_Push 2, Ring_Push 3, Ring_Push 4, Ring_Pop] r
        = Some ([None, Some 1, None, None, None, Some 2, Some 3], r')
    \<and> opal_ring_buffer_poke r' 0 = Some (Some 4)"
proof -
  let ?cs = "[Ring_Push (1 :: nat), Ring_Pop, Ring_Pop, Ring_Push 2, Ring_Push 3, Ring_Push 4, Ring_Pop]"
  have "queue_run 2 ?cs [] = ([None, Some 1, None, None, None, Some 2, Some 3], [4])"
    by (simp add: keep_last_def)
  then show ?thesis using ring_buffer_keeps_last_fifo [of 2 ?cs] by (auto dest: spec [of _ 0])
qed

text \<open>In a ring that represents the queue \<open>q\<close>, a push returns the null pointer while a cell is
  free and otherwise the oldest entry, which it drops; \<^verbatim>\<open>poke\<close> reads the \<open>i\<close>-th oldest entry, or the
  newest one for a negative index, without changing anything.\<close>

lemma ring_buffer_push_then_poke:
  assumes "ring_rel n r q"
  shows "\<exists>r'. opal_ring_buffer_push r (Some x) = Some (if length q < n then None else Some (hd q), r')
    \<and> ring_rel n r' (keep_last n (q @ [x]))
    \<and> opal_ring_buffer_poke r' (- 1) = Some (Some x)
    \<and> (\<forall>j < length (keep_last n (q @ [x])). opal_ring_buffer_poke r' (int j) = Some (Some (keep_last n (q @ [x]) ! j)))"
proof -
  from ring.push_rel [OF assms, of x] obtain r' where
    r': "opal_ring_buffer_push r (Some x) = Some (if length q < n then None else Some (hd q), r')"
      "ring_rel n r' (keep_last n (q @ [x]))" by blast
  have "0 < n" using ring.rel_bound [OF assms] by simp
  then have "keep_last n (q @ [x]) \<noteq> [] \<and> last (keep_last n (q @ [x])) = x"
    by (simp add: keep_last_def)
  with r' poke_correct [OF r'(2)] show ?thesis by auto
qed

end
