(* ===== verification/Opal_Hotel.thy ===== *)
theory Opal_Hotel
  imports Id_Allocator
begin

text \<open>
  The hotel of \<^verbatim>\<open>opal/class/opal_hotel.c\<close> and \<^verbatim>\<open>.h\<close>: a fixed number of rooms; an occupant that is
  checked in gets a free room and a timer, and is evicted with a call of the client's callback when
  the timer fires before it checks out. The free rooms are the first \<^verbatim>\<open>last_unoccupied_room + 1\<close>
  entries of the stack \<^verbatim>\<open>unoccupied_rooms\<close>.

  A timer event of the event library is modelled by the two things the hotel relies on: whether it is
  pending (\<^verbatim>\<open>opal_event_add\<close> makes it so, \<^verbatim>\<open>opal_event_del\<close> and firing end it) and the argument it
  was set up with. When the library fires the pending event of a room it calls
  \<^verbatim>\<open>local_eviction_callback\<close>; the model of that function returns the arguments of the call it makes of
  the client's callback.
\<close>

record 'a opal_hotel_room_t =
  rm_occupant :: "'a option"
  rm_pending :: bool
  rm_event_arg :: int

record 'a opal_hotel_t =
  ho_num_rooms :: int
  ho_tv_sec :: int
  ho_tv_usec :: int
  ho_has_callback :: bool
  ho_rooms :: "'a opal_hotel_room_t list option"
  ho_eviction_args :: "int list option"
  ho_unoccupied_rooms :: "int list option"
  ho_last_unoccupied_room :: int

section \<open>Operations\<close>

definition hotel_constructor :: "'a opal_hotel_t" where
  "hotel_constructor =
     \<lparr>ho_num_rooms = 0, ho_tv_sec = 0, ho_tv_usec = 0, ho_has_callback = False, ho_rooms = None,
      ho_eviction_args = None, ho_unoccupied_rooms = None, ho_last_unoccupied_room = - 1\<rparr>"

text \<open>The body of the loop of \<^verbatim>\<open>opal_hotel_init\<close>: \<^verbatim>\<open>opal_event_set\<close> leaves the event not pending.\<close>

definition hotel_init_room ::
  "nat \<Rightarrow> 'a opal_hotel_room_t list \<times> int list \<times> int list
     \<Rightarrow> ('a opal_hotel_room_t list \<times> int list \<times> int list) option" where
  "hotel_init_room i = (\<lambda>(rooms, unoccupied, args). do {
     rooms \<leftarrow> aset rooms (int i) \<lparr>rm_occupant = None, rm_pending = False, rm_event_arg = int i\<rparr>;
     unoccupied \<leftarrow> aset unoccupied (int i) (int i);
     args \<leftarrow> aset args (int i) (int i);
     Some (rooms, unoccupied, args)
   })"

text \<open>\<open>mem\<close> holds what the three blocks of \<^verbatim>\<open>malloc\<close> contain; when an allocation fails (\<^const>\<open>None\<close>) the
  loop writes through a null pointer.\<close>

definition opal_hotel_init ::
  "('a opal_hotel_room_t \<times> int \<times> int) option \<Rightarrow> 'a opal_hotel_t \<Rightarrow> int \<Rightarrow> 32 word \<Rightarrow> bool
     \<Rightarrow> (int \<times> 'a opal_hotel_t) option" where
  "opal_hotel_init mem h num_rooms eviction_timeout evict_callback_fn =
     (if num_rooms \<le> 0 \<or> \<not> evict_callback_fn then Some (OPAL_ERR_BAD_PARAM, h)
      else do {
        (room0, unocc0, arg0) \<leftarrow> mem;
        (rooms, unoccupied, args) \<leftarrow>
          ofold hotel_init_room [0..<nat num_rooms]
            (replicate (nat num_rooms) room0, replicate (nat num_rooms) unocc0, replicate (nat num_rooms) arg0);
        Some (OPAL_SUCCESS,
          \<lparr>ho_num_rooms = num_rooms, ho_tv_sec = uint eviction_timeout div 1000000,
           ho_tv_usec = uint eviction_timeout mod 1000000, ho_has_callback = True, ho_rooms = Some rooms,
           ho_eviction_args = Some args, ho_unoccupied_rooms = Some unoccupied,
           ho_last_unoccupied_room = num_rooms - 1\<rparr>)
      })"

text \<open>The part that both check-in functions share once a room is taken from the stack.\<close>

definition hotel_enter ::
  "'a opal_hotel_t \<Rightarrow> 'a option \<Rightarrow> int \<Rightarrow> 'a opal_hotel_t option" where
  "hotel_enter h occupant room_num = do {
     rooms \<leftarrow> ho_rooms h;
     room \<leftarrow> aget rooms room_num;
     rooms \<leftarrow> aset rooms room_num (room\<lparr>rm_occupant := occupant, rm_pending := True\<rparr>);
     Some (h\<lparr>ho_rooms := Some rooms\<rparr>)
   }"

definition opal_hotel_checkin ::
  "'a opal_hotel_t \<Rightarrow> 'a option \<Rightarrow> (int \<times> int option \<times> 'a opal_hotel_t) option" where
  "opal_hotel_checkin h occupant =
     (if ho_last_unoccupied_room h < 0 then Some (OPAL_ERR_TEMP_OUT_OF_RESOURCE, None, h)
      else do {
        unoccupied \<leftarrow> ho_unoccupied_rooms h;
        room_num \<leftarrow> aget unoccupied (ho_last_unoccupied_room h);
        h \<leftarrow> hotel_enter (h\<lparr>ho_last_unoccupied_room := ho_last_unoccupied_room h - 1\<rparr>) occupant room_num;
        Some (OPAL_SUCCESS, Some room_num, h)
      })"

definition opal_hotel_checkin_with_res ::
  "'a opal_hotel_t \<Rightarrow> 'a option \<Rightarrow> (int \<times> 'a opal_hotel_t) option" where
  "opal_hotel_checkin_with_res h occupant = do {
     unoccupied \<leftarrow> ho_unoccupied_rooms h;
     room_num \<leftarrow> aget unoccupied (ho_last_unoccupied_room h);
     rooms \<leftarrow> ho_rooms h;
     room \<leftarrow> aget rooms room_num;
     if rm_occupant room \<noteq> None then None
     else do {
       h \<leftarrow> hotel_enter (h\<lparr>ho_last_unoccupied_room := ho_last_unoccupied_room h - 1\<rparr>) occupant room_num;
       Some (room_num, h)
     }
   }"

definition opal_hotel_checkout :: "'a opal_hotel_t \<Rightarrow> int \<Rightarrow> 'a opal_hotel_t option" where
  "opal_hotel_checkout h room_num =
     (if \<not> room_num < ho_num_rooms h then None
      else do {
        rooms \<leftarrow> ho_rooms h;
        room \<leftarrow> aget rooms room_num;
        if rm_occupant room \<noteq> None then do {
          rooms \<leftarrow> aset rooms room_num (room\<lparr>rm_occupant := None, rm_pending := False\<rparr>);
          let lst = ho_last_unoccupied_room h + 1;
          if \<not> lst < ho_num_rooms h then None
          else do {
            unoccupied \<leftarrow> ho_unoccupied_rooms h;
            unoccupied \<leftarrow> aset unoccupied lst room_num;
            Some (h\<lparr>ho_rooms := Some rooms, ho_last_unoccupied_room := lst,
                    ho_unoccupied_rooms := Some unoccupied\<rparr>)
          }
        }
        else Some h
      })"

definition local_eviction_callback ::
  "'a opal_hotel_t \<Rightarrow> int \<Rightarrow> ((int \<times> 'a option) \<times> 'a opal_hotel_t) option" where
  "local_eviction_callback h room_num = do {
     rooms \<leftarrow> ho_rooms h;
     room \<leftarrow> aget rooms room_num;
     h' \<leftarrow> opal_hotel_checkout h room_num;
     Some ((room_num, rm_occupant room), h')
   }"

text \<open>The event of room \<open>i\<close> fires: it is no longer pending, and its argument selects the entry of
  \<^verbatim>\<open>eviction_args\<close> that the callback reads.\<close>

definition hotel_timer_fires ::
  "'a opal_hotel_t \<Rightarrow> int \<Rightarrow> ((int \<times> 'a option) \<times> 'a opal_hotel_t) option" where
  "hotel_timer_fires h i = do {
     rooms \<leftarrow> ho_rooms h;
     room \<leftarrow> aget rooms i;
     if \<not> rm_pending room then None
     else do {
       rooms \<leftarrow> aset rooms i (room\<lparr>rm_pending := False\<rparr>);
       args \<leftarrow> ho_eviction_args h;
       room_num \<leftarrow> aget args (rm_event_arg room);
       local_eviction_callback (h\<lparr>ho_rooms := Some rooms\<rparr>) room_num
     }
   }"

text \<open>The destructor deletes the events of the occupied rooms before it frees the arrays; the result is
  the rooms as they are at that moment.\<close>

definition hotel_destructor :: "'a opal_hotel_t \<Rightarrow> 'a opal_hotel_room_t list option" where
  "hotel_destructor h =
     ofold (\<lambda>i rooms. do {
         room \<leftarrow> aget rooms (int i);
         if rm_occupant room \<noteq> None then aset rooms (int i) (room\<lparr>rm_pending := False\<rparr>)
         else Some rooms
       }) [0..<nat (ho_num_rooms h)] (case ho_rooms h of None \<Rightarrow> [] | Some r \<Rightarrow> r)"

section \<open>The invariant and the guest list\<close>

text \<open>Room \<open>i\<close> is occupied exactly when it is not among the free rooms of the stack, a timer runs exactly
  for the occupied rooms, and every event carries its own room number.\<close>

definition hotel_free :: "'a opal_hotel_t \<Rightarrow> int list" where
  "hotel_free h = (case ho_unoccupied_rooms h of None \<Rightarrow> [] | Some u \<Rightarrow> take (nat (ho_last_unoccupied_room h + 1)) u)"

definition hotel_guest :: "'a opal_hotel_t \<Rightarrow> nat \<Rightarrow> 'a option" where
  "hotel_guest h i =
     (case ho_rooms h of None \<Rightarrow> None | Some r \<Rightarrow> if i < length r then rm_occupant (r ! i) else None)"

definition hotel_pending :: "'a opal_hotel_t \<Rightarrow> nat \<Rightarrow> bool" where
  "hotel_pending h i =
     (case ho_rooms h of None \<Rightarrow> False | Some r \<Rightarrow> i < length r \<and> rm_pending (r ! i))"

definition hotel_wf :: "'a opal_hotel_t \<Rightarrow> bool" where
  "hotel_wf h \<longleftrightarrow> (\<exists>n rooms unocc. ho_num_rooms h = int n
     \<and> ho_rooms h = Some rooms \<and> length rooms = n \<and> ho_unoccupied_rooms h = Some unocc \<and> length unocc = n
     \<and> ho_eviction_args h = Some (map int [0..<n])
     \<and> - 1 \<le> ho_last_unoccupied_room h \<and> ho_last_unoccupied_room h < int n
     \<and> distinct (hotel_free h)
     \<and> set (hotel_free h) = int ` {i. i < n \<and> rm_occupant (rooms ! i) = None}
     \<and> (\<forall>i < n. rm_event_arg (rooms ! i) = int i \<and> (rm_pending (rooms ! i) \<longleftrightarrow> rm_occupant (rooms ! i) \<noteq> None)))"

definition hotel_guests :: "'a opal_hotel_t \<Rightarrow> nat set" where
  "hotel_guests h = {i. hotel_guest h i \<noteq> None}"

lemma hotel_init_loop:
  "\<exists>s. ofold hotel_init_room [0..<n] (replicate n r, replicate n u, replicate n a) = Some s
     \<and> s = (map (\<lambda>i. \<lparr>rm_occupant = None, rm_pending = False, rm_event_arg = int i\<rparr>) [0..<n],
            map int [0..<n], map int [0..<n])"
proof -
  let ?P = "\<lambda>m (rooms, us, as). rooms = map (\<lambda>i. \<lparr>rm_occupant = None, rm_pending = False, rm_event_arg = int i\<rparr>) [0..<m]
        @ replicate (n - m) r \<and> us = map int [0..<m] @ replicate (n - m) u \<and> as = map int [0..<m] @ replicate (n - m) a"
  have "\<exists>s. ofold hotel_init_room [0..<n] (replicate n r, replicate n u, replicate n a) = Some s \<and> ?P n s"
  proof (rule ofold_upt_inv [where P = ?P])
    fix i and s :: "'a opal_hotel_room_t list \<times> int list \<times> int list"
    assume "i < n" "?P i s"
    then show "\<exists>s'. hotel_init_room i s = Some s' \<and> ?P (Suc i) s'"
      using aset_fill [of "map (\<lambda>i. \<lparr>rm_occupant = None, rm_pending = False, rm_event_arg = int i\<rparr>) [0..<i]" n "int i" r]
        aset_fill [of "map int [0..<i]" n "int i" u "int i"] aset_fill [of "map int [0..<i]" n "int i" a "int i"]
      by (auto simp: hotel_init_room_def split: prod.splits)
  qed simp
  then show ?thesis by auto
qed

lemma hotel_wfE:
  assumes "hotel_wf h"
  obtains n rooms unocc where "ho_num_rooms h = int n" "ho_rooms h = Some rooms" "length rooms = n"
    "ho_unoccupied_rooms h = Some unocc" "length unocc = n" "ho_eviction_args h = Some (map int [0..<n])"
    "- 1 \<le> ho_last_unoccupied_room h" "ho_last_unoccupied_room h < int n"
    "distinct (take (nat (ho_last_unoccupied_room h + 1)) unocc)"
    "set (take (nat (ho_last_unoccupied_room h + 1)) unocc) = int ` {i. i < n \<and> rm_occupant (rooms ! i) = None}"
    "\<And>i. i < n \<Longrightarrow> rm_event_arg (rooms ! i) = int i \<and> (rm_pending (rooms ! i) \<longleftrightarrow> rm_occupant (rooms ! i) \<noteq> None)"
  using assms unfolding hotel_wf_def hotel_free_def by auto

lemma hotel_wfI:
  assumes "ho_num_rooms h = int n" "ho_rooms h = Some rooms" "length rooms = n"
    "ho_unoccupied_rooms h = Some unocc" "length unocc = n" "ho_eviction_args h = Some (map int [0..<n])"
    "- 1 \<le> ho_last_unoccupied_room h" "ho_last_unoccupied_room h < int n"
    "distinct (take (nat (ho_last_unoccupied_room h + 1)) unocc)"
    "set (take (nat (ho_last_unoccupied_room h + 1)) unocc) = int ` {i. i < n \<and> rm_occupant (rooms ! i) = None}"
    "\<And>i. i < n \<Longrightarrow> rm_event_arg (rooms ! i) = int i \<and> (rm_pending (rooms ! i) \<longleftrightarrow> rm_occupant (rooms ! i) \<noteq> None)"
  shows "hotel_wf h"
  using assms unfolding hotel_wf_def hotel_free_def by auto

lemma hotel_guest_rooms: "ho_rooms h = Some r \<Longrightarrow> hotel_guest h i = (if i < length r then rm_occupant (r ! i) else None)"
  by (simp add: hotel_guest_def)

lemma hotel_pending_guest: "hotel_wf h \<Longrightarrow> hotel_pending h i \<longleftrightarrow> hotel_guest h i \<noteq> None"
  by (erule hotel_wfE) (auto simp: hotel_pending_def hotel_guest_def)

lemma hotel_init_correct:
  assumes "0 < n"
  shows "\<exists>h'. opal_hotel_init (Some mem) h (int n) timeout True = Some (OPAL_SUCCESS, h') \<and> hotel_wf h'
    \<and> hotel_guest h' = (\<lambda>i. None) \<and> ho_num_rooms h' = int n"
proof -
  obtain r u a where mem: "mem = (r, u, a)" by (cases mem) auto
  let ?rooms = "map (\<lambda>i. \<lparr>rm_occupant = None, rm_pending = False, rm_event_arg = int i\<rparr>) [0..<n]"
  let ?h = "\<lparr>ho_num_rooms = int n, ho_tv_sec = uint timeout div 1000000, ho_tv_usec = uint timeout mod 1000000,
    ho_has_callback = True, ho_rooms = Some ?rooms, ho_eviction_args = Some (map int [0..<n]),
    ho_unoccupied_rooms = Some (map int [0..<n]), ho_last_unoccupied_room = int n - 1\<rparr>"
  have "opal_hotel_init (Some mem) h (int n) timeout True = Some (OPAL_SUCCESS, ?h)"
    using assms hotel_init_loop [of n r u a] by (auto simp: opal_hotel_init_def mem)
  moreover have "hotel_wf ?h"
    by (rule hotel_wfI [where n = n and rooms = ?rooms and unocc = "map int [0..<n]"])
      (auto simp: distinct_map)
  moreover have "hotel_guest ?h = (\<lambda>i. None)" by (auto simp: hotel_guest_def)
  ultimately show ?thesis by auto
qed

lemma checkin_correct:
  assumes wf: "hotel_wf h" and room: "0 \<le> ho_last_unoccupied_room h"
  shows "\<exists>i h'. opal_hotel_checkin h (Some x) = Some (OPAL_SUCCESS, Some (int i), h')
    \<and> opal_hotel_checkin_with_res h (Some x) = Some (int i, h') \<and> hotel_wf h'
    \<and> int i < ho_num_rooms h \<and> ho_num_rooms h' = ho_num_rooms h
    \<and> hotel_guest h i = None \<and> hotel_guest h' = (hotel_guest h)(i \<mapsto> x)"
  using wf
proof (rule hotel_wfE)
  fix n rooms unocc
  assume h: "ho_num_rooms h = int n" "ho_rooms h = Some rooms" "length rooms = n"
    "ho_unoccupied_rooms h = Some unocc" "length unocc = n" "ho_eviction_args h = Some (map int [0..<n])"
    "- 1 \<le> ho_last_unoccupied_room h" "ho_last_unoccupied_room h < int n"
    "distinct (take (nat (ho_last_unoccupied_room h + 1)) unocc)"
    "set (take (nat (ho_last_unoccupied_room h + 1)) unocc) = int ` {i. i < n \<and> rm_occupant (rooms ! i) = None}"
    "\<And>i. i < n \<Longrightarrow> rm_event_arg (rooms ! i) = int i \<and> (rm_pending (rooms ! i) \<longleftrightarrow> rm_occupant (rooms ! i) \<noteq> None)"
  from room obtain k where k: "ho_last_unoccupied_room h = int k" using nonneg_int_cases by blast
  with h(5,8) have lt: "k < n" "k < length unocc" by auto
  have split: "take (nat (ho_last_unoccupied_room h + 1)) unocc = take k unocc @ [unocc ! k]"
    using lt(2) by (simp add: k nat_add_distrib take_Suc_conv_app_nth)
  with h(10) obtain i where i: "unocc ! k = int i" "i < n" "rm_occupant (rooms ! i) = None"
    by (auto simp: set_eq_iff)
  let ?rooms = "rooms[i := (rooms ! i)\<lparr>rm_occupant := Some x, rm_pending := True\<rparr>]"
  let ?h = "h\<lparr>ho_last_unoccupied_room := int k - 1, ho_rooms := Some ?rooms\<rparr>"
  have "opal_hotel_checkin h (Some x) = Some (OPAL_SUCCESS, Some (int i), ?h)"
    "opal_hotel_checkin_with_res h (Some x) = Some (int i, ?h)"
    using h lt i k by (simp_all add: opal_hotel_checkin_def opal_hotel_checkin_with_res_def hotel_enter_def)
  moreover have "hotel_wf ?h"
  proof (rule hotel_wfI [where n = n and rooms = ?rooms and unocc = unocc])
    have "int ` {j. j < n \<and> rm_occupant (?rooms ! j) = None} = set (take (nat (ho_last_unoccupied_room h + 1)) unocc) - {int i}"
      unfolding h(10) using h(3) i by (auto simp: nth_list_update)
    also have "\<dots> = set (take k unocc)" using h(9) i(1) unfolding split by auto
    finally show "set (take (nat (ho_last_unoccupied_room ?h + 1)) unocc)
        = int ` {j. j < n \<and> rm_occupant (?rooms ! j) = None}" by simp
    show "distinct (take (nat (ho_last_unoccupied_room ?h + 1)) unocc)" using h(9) unfolding split by simp
    show "rm_event_arg (?rooms ! j) = int j \<and> rm_pending (?rooms ! j) = (rm_occupant (?rooms ! j) \<noteq> None)" if "j < n" for j
      using that h(3,11) i by (auto simp: nth_list_update)
  qed (use h lt in simp_all)
  moreover have "hotel_guest h i = None" using h i by (simp add: hotel_guest_def)
  moreover have "hotel_guest ?h = (hotel_guest h)(i \<mapsto> x)" using h(2,3) i(2) by (auto simp: hotel_guest_def fun_eq_iff)
  ultimately show ?thesis using i(2) h(1) by (intro exI [of _ i] exI [of _ ?h]) simp
qed

lemma checkin_full:
  assumes "hotel_wf h" "ho_last_unoccupied_room h < 0"
  shows "opal_hotel_checkin h x = Some (OPAL_ERR_TEMP_OUT_OF_RESOURCE, None, h)"
    "int i < ho_num_rooms h \<Longrightarrow> hotel_guest h i \<noteq> None"
  using assms by (auto simp: opal_hotel_checkin_def hotel_guest_def elim!: hotel_wfE)

lemma checkout_correct:
  assumes wf: "hotel_wf h" and i: "int i < ho_num_rooms h"
  shows "\<exists>h'. opal_hotel_checkout h (int i) = Some h' \<and> hotel_wf h' \<and> ho_num_rooms h' = ho_num_rooms h
    \<and> hotel_guest h' = (hotel_guest h)(i := None)"
  using wf
proof (rule hotel_wfE)
  fix n rooms unocc
  assume h: "ho_num_rooms h = int n" "ho_rooms h = Some rooms" "length rooms = n"
    "ho_unoccupied_rooms h = Some unocc" "length unocc = n" "ho_eviction_args h = Some (map int [0..<n])"
    "- 1 \<le> ho_last_unoccupied_room h" "ho_last_unoccupied_room h < int n"
    "distinct (take (nat (ho_last_unoccupied_room h + 1)) unocc)"
    "set (take (nat (ho_last_unoccupied_room h + 1)) unocc) = int ` {i. i < n \<and> rm_occupant (rooms ! i) = None}"
    "\<And>i. i < n \<Longrightarrow> rm_event_arg (rooms ! i) = int i \<and> (rm_pending (rooms ! i) \<longleftrightarrow> rm_occupant (rooms ! i) \<noteq> None)"
  have lt: "i < n" using i h(1) by simp
  show ?thesis
  proof (cases "rm_occupant (rooms ! i)")
    case None
    then have "opal_hotel_checkout h (int i) = Some h" "hotel_guest h = (hotel_guest h)(i := None)"
      using h lt by (auto simp: opal_hotel_checkout_def hotel_guest_def fun_eq_iff)
    with wf show ?thesis by auto
  next
    case (Some y)
    define k where "k = nat (ho_last_unoccupied_room h + 1)"
    have k: "ho_last_unoccupied_room h = int k - 1" "k \<le> n" using h(7,8) by (auto simp: k_def)
    have notin: "int i \<notin> set (take k unocc)" unfolding k_def h(10) using Some by auto
    have "k \<noteq> n"
    proof
      assume "k = n"
      then have "set (take k unocc) \<subseteq> int ` {..<n} - {int i}" using h(10) notin by (auto simp: k_def)
      moreover have "card (set (take k unocc)) = n" using h(5,9) \<open>k = n\<close> by (simp add: distinct_card k_def)
      ultimately have "n \<le> card (int ` {..<n} - {int i})" by (metis card_mono finite_Diff finite_imageI finite_lessThan)
      also have "\<dots> = n - 1" using lt by (simp add: card_image)
      finally show False using lt by simp
    qed
    with k(2) have kn: "k < n" by simp
    let ?rooms = "rooms[i := (rooms ! i)\<lparr>rm_occupant := None, rm_pending := False\<rparr>]"
    let ?h = "h\<lparr>ho_rooms := Some ?rooms, ho_last_unoccupied_room := int k, ho_unoccupied_rooms := Some (unocc[k := int i])\<rparr>"
    have "opal_hotel_checkout h (int i) = Some ?h"
      using h(1-5) lt kn k(1) Some by (simp add: opal_hotel_checkout_def)
    moreover have "hotel_wf ?h"
    proof (rule hotel_wfI [where n = n and rooms = ?rooms and unocc = "unocc[k := int i]"])
      have tk: "take (nat (ho_last_unoccupied_room ?h + 1)) (unocc[k := int i]) = take k unocc @ [int i]"
        using kn h(5) by (simp add: nat_add_distrib take_Suc_conv_app_nth)
      show "distinct (take (nat (ho_last_unoccupied_room ?h + 1)) (unocc[k := int i]))"
        unfolding tk using h(9) notin by (simp add: k_def)
      have "set (take k unocc) = int ` {j. j < n \<and> rm_occupant (rooms ! j) = None}" using h(10) by (simp add: k_def)
      then show "set (take (nat (ho_last_unoccupied_room ?h + 1)) (unocc[k := int i]))
          = int ` {j. j < n \<and> rm_occupant (?rooms ! j) = None}"
        unfolding tk using lt h(3) by (auto simp: nth_list_update)
      show "rm_event_arg (?rooms ! j) = int j \<and> rm_pending (?rooms ! j) = (rm_occupant (?rooms ! j) \<noteq> None)" if "j < n" for j
        using that h(3,11) lt by (auto simp: nth_list_update)
    qed (use h kn in simp_all)
    moreover have "hotel_guest ?h = (hotel_guest h)(i := None)" using h(2,3) lt by (auto simp: hotel_guest_def fun_eq_iff)
    ultimately show ?thesis by (intro exI [of _ ?h]) simp
  qed
qed

lemma timer_fires_checkout:
  assumes "hotel_wf h" "hotel_guest h i = Some x"
  shows "hotel_timer_fires h (int i) = map_option (\<lambda>h'. ((int i, Some x), h')) (opal_hotel_checkout h (int i))"
  using assms(1)
proof (rule hotel_wfE)
  fix n rooms unocc
  assume h: "ho_num_rooms h = int n" "ho_rooms h = Some rooms" "length rooms = n"
    "ho_eviction_args h = Some (map int [0..<n])"
    "\<And>i. i < n \<Longrightarrow> rm_event_arg (rooms ! i) = int i \<and> (rm_pending (rooms ! i) \<longleftrightarrow> rm_occupant (rooms ! i) \<noteq> None)"
  from assms(2) h(2,3) have i: "i < n" "rm_occupant (rooms ! i) = Some x" by (auto simp: hotel_guest_def split: if_splits)
  let ?rooms = "rooms[i := (rooms ! i)\<lparr>rm_pending := False\<rparr>]"
  have "opal_hotel_checkout (h\<lparr>ho_rooms := Some ?rooms\<rparr>) (int i) = opal_hotel_checkout h (int i)"
    using h i by (simp add: opal_hotel_checkout_def Let_def)
  with h i show ?thesis
    by (cases "opal_hotel_checkout h (int i)")
      (simp_all add: hotel_timer_fires_def local_eviction_callback_def)
qed

lemma timer_fires_pending:
  "hotel_wf h \<Longrightarrow> hotel_timer_fires h j = Some r \<Longrightarrow> \<exists>i x. j = int i \<and> hotel_guest h i = Some x \<and> int i < ho_num_rooms h"
  by (erule hotel_wfE)
    (auto simp: hotel_timer_fires_def hotel_guest_def aget_def bind_eq_Some_conv split: if_splits
      intro!: exI [of _ "nat j"])

section \<open>Runs\<close>

text \<open>
  What the client and the event library do. The client may check out any room of the hotel; the library
  fires a timer that is pending. Nothing is said here about what the calls do.
\<close>

datatype 'a hotel_request = Checkin 'a | Checkout nat | Timer nat

datatype 'a hotel_answer = Room int "int option" | Done | Evicted int "'a option"

fun hotel_call :: "'a hotel_request \<Rightarrow> 'a opal_hotel_t \<Rightarrow> ('a hotel_answer \<times> 'a opal_hotel_t) option" where
  "hotel_call (Checkin x) h = map_option (\<lambda>(rc, room, h'). (Room rc room, h')) (opal_hotel_checkin h (Some x))"
| "hotel_call (Checkout i) h = map_option (\<lambda>h'. (Done, h')) (opal_hotel_checkout h (int i))"
| "hotel_call (Timer i) h = map_option (\<lambda>((room, x), h'). (Evicted room x, h')) (hotel_timer_fires h (int i))"

fun call_allowed :: "'a hotel_request \<Rightarrow> 'a opal_hotel_t \<Rightarrow> bool" where
  "call_allowed (Checkin x) h \<longleftrightarrow> True"
| "call_allowed (Checkout i) h \<longleftrightarrow> int i < ho_num_rooms h"
| "call_allowed (Timer i) h \<longleftrightarrow> hotel_pending h i"

fun hotel_calls :: "'a hotel_request list \<Rightarrow> 'a opal_hotel_t \<Rightarrow> ('a hotel_answer list \<times> 'a opal_hotel_t) option" where
  "hotel_calls [] h = Some ([], h)"
| "hotel_calls (c # cs) h = do {
     (a, h') \<leftarrow> hotel_call c h;
     (as, h'') \<leftarrow> hotel_calls cs h';
     Some (a # as, h'')
   }"

text \<open>Every call is allowed when it is made. A call that faults is not excluded.\<close>

fun calls_allowed :: "'a hotel_request list \<Rightarrow> 'a opal_hotel_t \<Rightarrow> bool" where
  "calls_allowed [] h \<longleftrightarrow> True"
| "calls_allowed (c # cs) h \<longleftrightarrow> call_allowed c h
     \<and> (case hotel_call c h of None \<Rightarrow> True | Some (a, h') \<Rightarrow> calls_allowed cs h')"

text \<open>
  The abstract hotel with \<open>n\<close> rooms is its guest list. A check-in gets some free room when there is one;
  the callback of a timer is called with the room of the timer and the guest in it.
\<close>

inductive guest_step :: "nat \<Rightarrow> 'a hotel_request \<Rightarrow> 'a hotel_answer \<Rightarrow> (nat \<Rightarrow> 'a option) \<Rightarrow> (nat \<Rightarrow> 'a option) \<Rightarrow> bool" for n where
  enters: "i < n \<Longrightarrow> g i = None \<Longrightarrow> guest_step n (Checkin x) (Room OPAL_SUCCESS (Some (int i))) g (g(i \<mapsto> x))"
| full: "\<forall>i < n. g i \<noteq> None \<Longrightarrow> guest_step n (Checkin x) (Room OPAL_ERR_TEMP_OUT_OF_RESOURCE None) g g"
| leaves: "guest_step n (Checkout i) Done g (g(i := None))"
| evicted: "g i = Some x \<Longrightarrow> guest_step n (Timer i) (Evicted (int i) (Some x)) g (g(i := None))"

inductive guest_run :: "nat \<Rightarrow> 'a hotel_request list \<Rightarrow> 'a hotel_answer list \<Rightarrow> (nat \<Rightarrow> 'a option) \<Rightarrow> (nat \<Rightarrow> 'a option) \<Rightarrow> bool" for n where
  none: "guest_run n [] [] g g"
| more: "guest_step n c a g g' \<Longrightarrow> guest_run n cs as g' g'' \<Longrightarrow> guest_run n (c # cs) (a # as) g g''"

inductive_simps guest_run_simps [simp]: "guest_run n [] as g g'" "guest_run n (c # cs) as g g'"
inductive_simps guest_step_simps: "guest_step n (Checkin x) a g g'" "guest_step n (Checkout i) a g g'" "guest_step n (Timer i) a g g'"

text \<open>An allowed call does not fault, and is a step of the abstract hotel.\<close>

lemma hotel_call_refines:
  assumes wf: "hotel_wf h" and n: "ho_num_rooms h = int n" and ok: "call_allowed c h"
  shows "\<exists>a h'. hotel_call c h = Some (a, h') \<and> hotel_wf h' \<and> ho_num_rooms h' = int n
    \<and> guest_step n c a (hotel_guest h) (hotel_guest h')"
proof (cases c)
  case (Checkin x)
  show ?thesis
  proof (cases "0 \<le> ho_last_unoccupied_room h")
    case True
    from checkin_correct [OF wf this, of x] show ?thesis using Checkin n by (auto simp: guest_step.enters)
  next
    case False
    then show ?thesis using checkin_full [OF wf] wf Checkin n by (auto intro: guest_step.full)
  qed
next
  case (Checkout i)
  from checkout_correct [OF wf, of i] show ?thesis using Checkout ok n by (auto simp: guest_step.leaves)
next
  case (Timer i)
  then obtain x where x: "hotel_guest h i = Some x" using ok hotel_pending_guest [OF wf] by auto
  then have "int i < ho_num_rooms h" using wf by (auto simp: hotel_guest_def elim!: hotel_wfE split: if_splits)
  from checkout_correct [OF wf this] show ?thesis
    using Timer n x timer_fires_checkout [OF wf x] by (auto intro: guest_step.evicted)
qed

lemma hotel_calls_refine:
  "hotel_wf h \<Longrightarrow> ho_num_rooms h = int n \<Longrightarrow> calls_allowed cs h \<Longrightarrow>
     \<exists>as h'. hotel_calls cs h = Some (as, h') \<and> hotel_wf h' \<and> ho_num_rooms h' = int n
       \<and> guest_run n cs as (hotel_guest h) (hotel_guest h')"
proof (induction cs arbitrary: h)
  case (Cons c cs)
  from hotel_call_refines [OF Cons.prems(1,2), of c] Cons.prems(3) obtain a h1 where
    h1: "hotel_call c h = Some (a, h1)" "hotel_wf h1" "ho_num_rooms h1 = int n" "guest_step n c a (hotel_guest h) (hotel_guest h1)" by auto
  from Cons.IH [OF h1(2,3)] Cons.prems(3) h1(1) obtain as h2 where
    "hotel_calls cs h1 = Some (as, h2)" "hotel_wf h2" "ho_num_rooms h2 = int n" "guest_run n cs as (hotel_guest h1) (hotel_guest h2)" by auto
  with h1(1,4) show ?case by auto
qed simp

text \<open>The hotel as an allocator of room numbers.\<close>

definition hotel_alloc :: "'a \<Rightarrow> 'a opal_hotel_t \<Rightarrow> (nat \<times> 'a opal_hotel_t) option" where
  "hotel_alloc x h =
     (case opal_hotel_checkin h (Some x) of Some (rc, Some i, h') \<Rightarrow> Some (nat i, h') | _ \<Rightarrow> None)"

interpretation hotel_ids: id_allocator hotel_wf hotel_guests "hotel_alloc x" for x
proof unfold_locales
  fix h h' :: "'a opal_hotel_t" and i
  assume *: "hotel_wf h" "hotel_alloc x h = Some (i, h')"
  then have "0 \<le> ho_last_unoccupied_room h"
    by (auto simp: hotel_alloc_def opal_hotel_checkin_def split: if_splits)
  with checkin_correct [OF *(1) this, of x] *(2)
  have "hotel_wf h' \<and> hotel_guest h i = None \<and> hotel_guest h' = (hotel_guest h)(i \<mapsto> x)"
    by (auto simp: hotel_alloc_def)
  then show "hotel_wf h'" "i \<notin> hotel_guests h" "hotel_guests h' = insert i (hotel_guests h)"
    by (auto simp: hotel_guests_def)
qed

section \<open>Properties\<close>

text \<open>C21: whatever check-ins, check-outs of rooms of the hotel and firings of pending timers follow
  \<^verbatim>\<open>opal_hotel_init\<close>, in whatever order and whatever the memory held before: none of them faults, and their
  answers are those of a guest list. A check-in is refused exactly when all rooms are taken and
  otherwise gets a free room; when the timer of a room fires, the client's callback is called with that room and the
  guest in it, who is gone. At the end the rooms hold the guests on the list, the stack of free rooms lists
  exactly the rooms without a guest, without repetition, and a timer is pending exactly for the others.\<close>

theorem hotel_stack_and_timers_exact:
  assumes "0 < n" "opal_hotel_init (Some mem) h0 (int n) timeout True = Some (OPAL_SUCCESS, h)" "calls_allowed cs h"
  shows "\<exists>as h'. hotel_calls cs h = Some (as, h')
    \<and> guest_run n cs as (\<lambda>i. None) (hotel_guest h')
    \<and> distinct (hotel_free h')
    \<and> set (hotel_free h') = {int i | i. i < n \<and> hotel_guest h' i = None}
    \<and> (\<forall>i. hotel_pending h' i \<longleftrightarrow> hotel_guest h' i \<noteq> None)"
proof -
  from hotel_init_correct [OF assms(1), of mem h0 timeout] assms(2)
  have h: "hotel_wf h" "hotel_guest h = (\<lambda>i. None)" "ho_num_rooms h = int n" by auto
  from hotel_calls_refine [OF h(1,3) assms(3)] h(2) obtain as h' where
    h': "hotel_calls cs h = Some (as, h')" "hotel_wf h'" "ho_num_rooms h' = int n" "guest_run n cs as (\<lambda>i. None) (hotel_guest h')" by auto
  moreover from h'(2,3) have "distinct (hotel_free h') \<and> set (hotel_free h') = {int i | i. i < n \<and> hotel_guest h' i = None}"
    unfolding hotel_wf_def by (auto simp: hotel_guest_def)
  ultimately show ?thesis using hotel_pending_guest [OF h'(2)] by auto
qed

text \<open>Two rooms: two guests, a third is refused, the timer of room 1 fires, room 0 checks out.\<close>

theorem hotel_stack_and_timers_exact_witness:
  "\<exists>(h :: nat opal_hotel_t) h'. opal_hotel_init (Some (\<lparr>rm_occupant = Some 3, rm_pending = True, rm_event_arg = 9\<rparr>, 4, 5))
      hotel_constructor (int 2) 1500000 True = Some (OPAL_SUCCESS, h)
    \<and> hotel_calls [Checkin 7, Checkin 8, Checkin 9, Timer 1, Checkout 0] h
       = Some ([Room OPAL_SUCCESS (Some 1), Room OPAL_SUCCESS (Some 0), Room OPAL_ERR_TEMP_OUT_OF_RESOURCE None, Evicted 1 (Some 7), Done], h')
    \<and> set (hotel_free h') = {int i | i. i < 2 \<and> hotel_guest h' i = None}"
proof -
  let ?mem = "(\<lparr>rm_occupant = Some 3, rm_pending = True, rm_event_arg = 9\<rparr>, 4, 5)"
  let ?cs = "[Checkin 7, Checkin 8, Checkin 9, Timer 1, Checkout 0] :: nat hotel_request list"
  let ?as = "[Room OPAL_SUCCESS (Some 1), Room OPAL_SUCCESS (Some 0), Room OPAL_ERR_TEMP_OUT_OF_RESOURCE None, Evicted 1 (Some 7), Done]"
  note ops = opal_hotel_init_def hotel_init_room_def opal_hotel_checkin_def hotel_enter_def opal_hotel_checkout_def
    hotel_timer_fires_def local_eviction_callback_def hotel_pending_def aget_def aset_def numeral_2_eq_2 upt_conv_Cons rc_defs
  obtain h :: "nat opal_hotel_t" where h: "opal_hotel_init (Some ?mem) hotel_constructor (int 2) 1500000 True = Some (OPAL_SUCCESS, h)"
    and ok: "calls_allowed ?cs h" and as: "map_option fst (hotel_calls ?cs h) = Some ?as"
    by (simp add: ops)
  from hotel_stack_and_timers_exact [OF _ h ok] as h show ?thesis by auto
qed

text \<open>a check-in succeeds exactly when some room is free; it then returns a room that had no occupant,
  starts its timer and leaves the other rooms alone. When every room is taken it answers
  \<^verbatim>\<open>OPAL_ERR_TEMP_OUT_OF_RESOURCE\<close>, writes no room number and changes nothing.\<close>

lemma hotel_checkin_free_room:
  assumes "hotel_wf h"
  shows "if \<exists>i. int i < ho_num_rooms h \<and> hotel_guest h i = None
    then \<exists>i h'. opal_hotel_checkin h (Some x) = Some (OPAL_SUCCESS, Some (int i), h')
      \<and> int i < ho_num_rooms h \<and> hotel_guest h i = None \<and> hotel_pending h' i
      \<and> hotel_guest h' = (hotel_guest h)(i \<mapsto> x)
    else opal_hotel_checkin h (Some x) = Some (OPAL_ERR_TEMP_OUT_OF_RESOURCE, None, h)"
proof (cases "0 \<le> ho_last_unoccupied_room h")
  case True
  from checkin_correct [OF assms True, of x] show ?thesis
    by (fastforce simp: hotel_pending_guest)
next
  case False
  with checkin_full [OF assms] show ?thesis by auto
qed

text \<open>When the timer of an occupied room fires, the client's callback is called with that room number
  and the occupant that was checked in there, after the room was made free again; after a check-out
  the timer of the room can no longer fire.\<close>

lemma hotel_eviction_exact:
  assumes "hotel_wf h" "int i < ho_num_rooms h"
  shows "(case hotel_guest h i of
      Some x \<Rightarrow> \<exists>h'. hotel_timer_fires h (int i) = Some ((int i, Some x), h') \<and> hotel_wf h'
          \<and> hotel_guest h' = (hotel_guest h)(i := None)
    | None \<Rightarrow> hotel_timer_fires h (int i) = None)
    \<and> (\<exists>h'. opal_hotel_checkout h (int i) = Some h' \<and> hotel_timer_fires h' (int i) = None)"
proof -
  have none: "hotel_timer_fires g (int i) = None" if "hotel_wf g" "hotel_guest g i = None" for g :: "'a opal_hotel_t"
    using timer_fires_pending [OF that(1), of "int i"] that(2) by (cases "hotel_timer_fires g (int i)") auto
  from checkout_correct [OF assms] obtain h' where
    "opal_hotel_checkout h (int i) = Some h'" "hotel_wf h'" "hotel_guest h' = (hotel_guest h)(i := None)" by auto
  with none [OF assms(1)] none [of h'] timer_fires_checkout [OF assms(1)] show ?thesis
    by (auto split: option.split)
qed

end
