(* ===== verification/Ompi_Seq_Tracker.thy ===== *)
theory Ompi_Seq_Tracker
  imports OMPI_Prelude
begin

text \<open>
  The tracker of sequence numbers of \<^verbatim>\<open>ompi/class/ompi_seq_tracker.c\<close>, with which a messaging layer
  recognises fragments it has already received. The numbers seen so far are kept as a doubly linked
  list of ranges, and a search starts at the range the previous call ended with and walks in one
  direction. The list is a HOL list, an item is an index into it, and the sentinel of the
  \<^verbatim>\<open>opal_list_t\<close> is \<^const>\<open>None\<close>. Sequence numbers are 32-bit words, as in the code, so that the
  additions of one wrap.

  The walk is compared with a plain sorted insertion (\<open>ins_range\<close>) that starts at the front.
\<close>

record ompi_seq_tracker_range_t =
  seq_id_high :: "32 word"
  seq_id_low :: "32 word"

record ompi_seq_tracker_t =
  seq_ids :: "ompi_seq_tracker_range_t list"
  seq_ids_current :: "nat option"

definition seq_range :: "32 word \<Rightarrow> 32 word \<Rightarrow> ompi_seq_tracker_range_t" where
  "seq_range low high = \<lparr>seq_id_high = high, seq_id_low = low\<rparr>"

definition opal_list_get_next :: "'a list \<Rightarrow> nat \<Rightarrow> nat option" where
  "opal_list_get_next xs i = (if Suc i < length xs then Some (Suc i) else None)"

definition opal_list_get_prev :: "'a list \<Rightarrow> nat \<Rightarrow> nat option" where
  "opal_list_get_prev xs i = (case i of 0 \<Rightarrow> None | Suc j \<Rightarrow> Some j)"

definition opal_list_insert_pos :: "'a list \<Rightarrow> nat \<Rightarrow> 'a \<Rightarrow> 'a list" where
  "opal_list_insert_pos xs i x = take i xs @ x # drop i xs"

definition opal_list_remove_item :: "'a list \<Rightarrow> nat \<Rightarrow> 'a list" where
  "opal_list_remove_item xs i = take i xs @ drop (Suc i) xs"

lemmas opal_list_defs = opal_list_get_next_def opal_list_get_prev_def opal_list_insert_pos_def
  opal_list_remove_item_def

section \<open>Operations\<close>

definition ompi_seq_tracker_construct :: ompi_seq_tracker_t where
  "ompi_seq_tracker_construct = \<lparr>seq_ids = [], seq_ids_current = None\<rparr>"

text \<open>How far a walk in a direction can still go; without a direction it may go either way.\<close>

fun walk_left :: "'a list \<Rightarrow> int \<Rightarrow> nat option \<Rightarrow> nat" where
  "walk_left xs d None = 0"
| "walk_left xs d (Some i) = (if d = 1 then length xs - i else if d = - 1 then Suc i else Suc (Suc (length xs + i)))"

text \<open>The loop of \<^verbatim>\<open>ompi_seq_tracker_check_duplicate\<close>: the answer, and the range the search ended in.\<close>

function dup_walk ::
  "ompi_seq_tracker_range_t list \<Rightarrow> 32 word \<Rightarrow> int \<Rightarrow> nat option \<Rightarrow> (bool \<times> nat option) option" where
  "dup_walk ids seq_id direction None = Some (False, None)"
| "dup_walk ids seq_id direction (Some i) =
     (if \<not> i < length ids then None
      else if seq_id_high (ids ! i) \<ge> seq_id \<and> seq_id_low (ids ! i) \<le> seq_id then Some (True, Some i)
      else if seq_id > seq_id_high (ids ! i) \<and> direction \<noteq> - 1
      then dup_walk ids seq_id 1 (opal_list_get_next ids i)
      else if seq_id < seq_id_low (ids ! i) \<and> direction \<noteq> 1
      then dup_walk ids seq_id (- 1) (opal_list_get_prev ids i)
      else Some (False, None))"
  by pat_completeness auto
termination
  by (relation "measure (\<lambda>(ids, s, d, item). walk_left ids d item)")
    (auto simp: opal_list_get_next_def opal_list_get_prev_def split: nat.splits)

definition ompi_seq_tracker_check_duplicate ::
  "ompi_seq_tracker_t \<Rightarrow> 32 word \<Rightarrow> (bool \<times> ompi_seq_tracker_t) option" where
  "ompi_seq_tracker_check_duplicate t seq_id = do {
     (dup, cur) \<leftarrow> dup_walk (seq_ids t) seq_id 0 (seq_ids_current t);
     Some (dup, if dup then t\<lparr>seq_ids_current := cur\<rparr> else t)
   }"

text \<open>The two branches of \<^verbatim>\<open>ompi_seq_tracker_insert\<close> that extend a range by one and try to join it with
  its neighbour: the new list and the index of the range in it.\<close>

definition extend_high ::
  "ompi_seq_tracker_range_t list \<Rightarrow> 32 word \<Rightarrow> nat \<Rightarrow> ompi_seq_tracker_range_t list \<times> nat option" where
  "extend_high ids seq_id i =
     (case opal_list_get_next ids i of
        None \<Rightarrow> (ids[i := (ids ! i)\<lparr>seq_id_high := seq_id\<rparr>], Some i)
      | Some n \<Rightarrow>
          if seq_id_low (ids ! n) = seq_id + 1
          then (opal_list_remove_item (ids[i := (ids ! i)\<lparr>seq_id_high := seq_id_high (ids ! n)\<rparr>]) n, Some i)
          else (ids[i := (ids ! i)\<lparr>seq_id_high := seq_id\<rparr>], Some i))"

definition extend_low ::
  "ompi_seq_tracker_range_t list \<Rightarrow> 32 word \<Rightarrow> nat \<Rightarrow> ompi_seq_tracker_range_t list \<times> nat option" where
  "extend_low ids seq_id i =
     (case opal_list_get_prev ids i of
        None \<Rightarrow> (ids[i := (ids ! i)\<lparr>seq_id_low := seq_id\<rparr>], Some i)
      | Some p \<Rightarrow>
          if seq_id_high (ids ! p) = seq_id - 1
          then (opal_list_remove_item (ids[i := (ids ! i)\<lparr>seq_id_low := seq_id_low (ids ! p)\<rparr>]) p, Some (i - 1))
          else (ids[i := (ids ! i)\<lparr>seq_id_low := seq_id\<rparr>], Some i))"

function insert_walk ::
  "ompi_seq_tracker_range_t list \<Rightarrow> 32 word \<Rightarrow> int \<Rightarrow> nat option
     \<Rightarrow> (ompi_seq_tracker_range_t list \<times> nat option) option" where
  "insert_walk ids seq_id direction None =
     Some (if direction = - 1 then (seq_range seq_id seq_id # ids, Some 0)
           else (ids @ [seq_range seq_id seq_id], Some (length ids)))"
| "insert_walk ids seq_id direction (Some i) =
     (if \<not> i < length ids then None
      else if seq_id_high (ids ! i) \<ge> seq_id \<and> seq_id_low (ids ! i) \<le> seq_id then Some (ids, Some i)
      else if seq_id_high (ids ! i) + 1 = seq_id then Some (extend_high ids seq_id i)
      else if seq_id_low (ids ! i) - 1 = seq_id then Some (extend_low ids seq_id i)
      else if seq_id > seq_id_high (ids ! i) then
        if direction = - 1
        then Some (opal_list_insert_pos ids (Suc i) (seq_range seq_id seq_id), Some (Suc i))
        else insert_walk ids seq_id 1 (opal_list_get_next ids i)
      else if seq_id < seq_id_low (ids ! i) then
        if direction = 1
        then Some (opal_list_insert_pos ids i (seq_range seq_id seq_id), Some i)
        else insert_walk ids seq_id (- 1) (opal_list_get_prev ids i)
      else Some (ids, None))"
  by pat_completeness auto
termination
  by (relation "measure (\<lambda>(ids, s, d, item). walk_left ids d item)")
    (auto simp: opal_list_get_next_def opal_list_get_prev_def split: nat.splits)

text \<open>The last branch of the loop returns without moving the current range.\<close>

definition ompi_seq_tracker_insert :: "ompi_seq_tracker_t \<Rightarrow> 32 word \<Rightarrow> ompi_seq_tracker_t option" where
  "ompi_seq_tracker_insert t seq_id = do {
     (ids, cur) \<leftarrow> insert_walk (seq_ids t) seq_id 0 (seq_ids_current t);
     Some (case cur of None \<Rightarrow> t\<lparr>seq_ids := ids\<rparr> | Some i \<Rightarrow> \<lparr>seq_ids = ids, seq_ids_current = Some i\<rparr>)
   }"

definition ompi_seq_tracker_copy :: "ompi_seq_tracker_t \<Rightarrow> ompi_seq_tracker_t \<Rightarrow> ompi_seq_tracker_t" where
  "ompi_seq_tracker_copy dst src =
     fold (\<lambda>i dst. dst\<lparr>seq_ids := seq_ids dst @ [seq_range (seq_id_low (seq_ids src ! i)) (seq_id_high (seq_ids src ! i))],
               seq_ids_current := (if seq_ids_current src = Some i then Some (length (seq_ids dst)) else seq_ids_current dst)\<rparr>)
       [0..<length (seq_ids src)] dst"

section \<open>The invariant and the set of numbers\<close>

definition range_ok :: "ompi_seq_tracker_range_t \<Rightarrow> bool" where
  "range_ok r \<longleftrightarrow> unat (seq_id_low r) \<le> unat (seq_id_high r)"

definition ranges_wf :: "ompi_seq_tracker_range_t list \<Rightarrow> bool" where
  "ranges_wf ids \<longleftrightarrow> (\<forall>r \<in> set ids. range_ok r)
     \<and> sorted_wrt (\<lambda>r r'. unat (seq_id_high r) + 1 < unat (seq_id_low r')) ids"

definition range_set :: "ompi_seq_tracker_range_t \<Rightarrow> 32 word set" where
  "range_set r = {s. unat (seq_id_low r) \<le> unat s \<and> unat s \<le> unat (seq_id_high r)}"

definition ranges_set :: "ompi_seq_tracker_range_t list \<Rightarrow> 32 word set" where
  "ranges_set ids = (\<Union>r \<in> set ids. range_set r)"

definition st_wf :: "ompi_seq_tracker_t \<Rightarrow> bool" where
  "st_wf t \<longleftrightarrow> ranges_wf (seq_ids t)
     \<and> (case seq_ids_current t of None \<Rightarrow> seq_ids t = [] | Some i \<Rightarrow> i < length (seq_ids t))"

abbreviation st_set :: "ompi_seq_tracker_t \<Rightarrow> 32 word set" where
  "st_set t \<equiv> ranges_set (seq_ids t)"

text \<open>The number \<open>s\<close> is not next to a range across the wrap from \<open>2 ^ 32 - 1\<close> to \<open>0\<close>.\<close>

definition no_wrap :: "32 word \<Rightarrow> ompi_seq_tracker_range_t list \<Rightarrow> bool" where
  "no_wrap s ids \<longleftrightarrow> \<not> (s = 0 \<and> - 1 \<in> ranges_set ids) \<and> \<not> (s = - 1 \<and> 0 \<in> ranges_set ids)"

text \<open>The reference: insertion into a sorted list of ranges, from the front.\<close>

fun ins_range :: "32 word \<Rightarrow> ompi_seq_tracker_range_t list \<Rightarrow> ompi_seq_tracker_range_t list" where
  "ins_range s [] = [seq_range s s]"
| "ins_range s (r # rs) =
     (if unat s + 1 < unat (seq_id_low r) then seq_range s s # r # rs
      else if unat s + 1 = unat (seq_id_low r) then r\<lparr>seq_id_low := s\<rparr> # rs
      else if unat s \<le> unat (seq_id_high r) then r # rs
      else if unat s = unat (seq_id_high r) + 1 then
        (case rs of [] \<Rightarrow> [r\<lparr>seq_id_high := s\<rparr>]
         | r' # rs' \<Rightarrow>
             if unat (seq_id_low r') = unat s + 1 then r\<lparr>seq_id_high := seq_id_high r'\<rparr> # rs'
             else r\<lparr>seq_id_high := s\<rparr> # rs)
      else r # ins_range s rs)"

lemma range_seq_range [simp]:
  "seq_id_low (seq_range l h) = l" "seq_id_high (seq_range l h) = h"
  by (simp_all add: seq_range_def)

lemma ranges_set_simps [simp]:
  "ranges_set [] = {}" "ranges_set (r # rs) = range_set r \<union> ranges_set rs"
  "ranges_set (xs @ ys) = ranges_set xs \<union> ranges_set ys"
  by (auto simp: ranges_set_def)

lemma ranges_wf_Cons [simp]:
  "ranges_wf (r # rs) \<longleftrightarrow> range_ok r \<and> (\<forall>r' \<in> set rs. unat (seq_id_high r) + 1 < unat (seq_id_low r')) \<and> ranges_wf rs"
  by (auto simp: ranges_wf_def)

lemma ranges_wf_append:
  "ranges_wf (xs @ ys) \<longleftrightarrow> ranges_wf xs \<and> ranges_wf ys
     \<and> (\<forall>r \<in> set xs. \<forall>r' \<in> set ys. unat (seq_id_high r) + 1 < unat (seq_id_low r'))"
  by (auto simp: ranges_wf_def sorted_wrt_append)

lemma ins_range_low:
  "r' \<in> set (ins_range s rs) \<Longrightarrow> ranges_wf rs \<Longrightarrow>
     unat (seq_id_low r') = unat s \<or> (\<exists>r \<in> set rs. unat (seq_id_low r') = unat (seq_id_low r))"
  by (induction s rs rule: ins_range.induct) (auto split: if_splits list.splits)

lemma ins_range_wf: "ranges_wf rs \<Longrightarrow> ranges_wf (ins_range s rs)"
proof (induction s rs rule: ins_range.induct)
  case (1 s)
  then show ?case by (simp add: ranges_wf_def range_ok_def)
next
  case (2 s r rs)
  show ?case
  proof (cases "unat (seq_id_high r) + 1 < unat s")
    case True
    with "2.prems" have "ins_range s (r # rs) = r # ins_range s rs" by (auto simp: range_ok_def)
    moreover have "ranges_wf (ins_range s rs)" using 2 True by (auto simp: range_ok_def)
    moreover have "unat (seq_id_high r) + 1 < unat (seq_id_low r')" if "r' \<in> set (ins_range s rs)" for r'
      using ins_range_low [OF that] "2.prems" True by auto
    ultimately show ?thesis using "2.prems" by simp
  next
    case False
    with "2.prems" show ?thesis
      by (auto simp: range_ok_def split: list.splits) fastforce+
  qed
qed

lemma range_set_simps:
  "range_set (seq_range s s) = {s}"
  by (auto simp: range_set_def word_unat_eq_iff)

lemma ins_range_set: "ranges_wf rs \<Longrightarrow> ranges_set (ins_range s rs) = insert s (ranges_set rs)"
proof (induction s rs rule: ins_range.induct)
  case (1 s)
  then show ?case by (simp add: range_set_simps)
next
  case (2 s r rs)
  have eqs: "x = s" if "unat x = unat s" for x using that by (simp add: word_unat_eq_iff)
  have ext: "unat s + 1 = unat (seq_id_low r) \<Longrightarrow> range_set (r\<lparr>seq_id_low := s\<rparr>) = insert s (range_set r)"
    "unat s = unat (seq_id_high r) + 1 \<Longrightarrow> range_set (r\<lparr>seq_id_high := s\<rparr>) = insert s (range_set r)"
    using "2.prems" by (auto simp: range_set_def range_ok_def intro: eqs)
  have join: "range_set (r\<lparr>seq_id_high := seq_id_high r'\<rparr>) = insert s (range_set r \<union> range_set r')"
    if "unat s = unat (seq_id_high r) + 1" "unat (seq_id_low r') = unat s + 1" "range_ok r'" for r'
    using that "2.prems" by (auto simp: range_set_def range_ok_def intro: eqs)
  show ?case using 2 ext join
    by (auto simp: range_set_simps split: list.splits) (auto simp: range_set_def range_ok_def)
qed

section \<open>The walk computes the sorted insertion\<close>

lemma ins_range_skip:
  "\<forall>r \<in> set xs. range_ok r \<and> unat (seq_id_high r) + 1 < unat s \<Longrightarrow> ins_range s (xs @ rs) = xs @ ins_range s rs"
  by (induction xs) (auto simp: range_ok_def)

lemma ins_range_front:
  "\<forall>r \<in> set rs. unat s + 1 < unat (seq_id_low r) \<Longrightarrow> ins_range s rs = seq_range s s # rs"
  by (cases rs) simp_all

lemma word_succ_eq:
  fixes v w :: "'a::len word"
  assumes "\<not> (w = - 1 \<and> v = 0)"
  shows "w + 1 = v \<longleftrightarrow> unat w + 1 = unat v"
proof (cases "w = - 1")
  case True
  with assms have "v \<noteq> 0" by simp
  moreover have "unat v \<le> unat (- 1 :: 'a word)" by (simp add: word_order.extremum flip: word_le_nat_alt)
  ultimately show ?thesis using True by auto
next
  case False
  then have "1 + w \<noteq> 0" by (metis add.commute add_eq_0_iff)
  then have "unat (w + 1) = Suc (unat w)" using unatSuc [of w] by (simp add: add.commute)
  then show ?thesis by (simp add: word_unat_eq_iff)
qed

lemma no_wrap_high:
  assumes "no_wrap s ids" "r \<in> set ids" "range_ok r"
  shows "seq_id_high r + 1 = s \<longleftrightarrow> unat (seq_id_high r) + 1 = unat s"
proof (rule word_succ_eq)
  have "seq_id_high r \<in> ranges_set ids" using assms(2,3) by (auto simp: ranges_set_def range_set_def range_ok_def)
  with assms(1) show "\<not> (seq_id_high r = - 1 \<and> s = 0)" by (auto simp: no_wrap_def)
qed

lemma no_wrap_low:
  assumes "no_wrap s ids" "r \<in> set ids" "range_ok r"
  shows "seq_id_low r - 1 = s \<longleftrightarrow> unat s + 1 = unat (seq_id_low r)"
proof -
  have "seq_id_low r \<in> ranges_set ids" using assms(2,3) by (auto simp: ranges_set_def range_set_def range_ok_def)
  with assms(1) have "\<not> (s = - 1 \<and> seq_id_low r = 0)" by (auto simp: no_wrap_def)
  then show ?thesis using word_succ_eq [of s "seq_id_low r"] by (metis diff_add_cancel add_diff_cancel)
qed

lemma ranges_wf_around:
  assumes "ranges_wf (xs @ r # rs)"
  shows "range_ok r" "q \<in> set xs \<Longrightarrow> range_ok q \<and> unat (seq_id_high q) + 1 < unat (seq_id_low r)"
    "q \<in> set rs \<Longrightarrow> range_ok q \<and> unat (seq_id_high r) + 1 < unat (seq_id_low q)"
  using assms by (auto simp: ranges_wf_def sorted_wrt_append)

lemma extend_high_ins:
  assumes "ranges_wf (xs @ r # rs)" "unat (seq_id_high r) + 1 = unat s"
  shows "extend_high (xs @ r # rs) s (length xs) = (ins_range s (xs @ r # rs), Some (length xs))
    \<and> length xs < length (ins_range s (xs @ r # rs))"
proof -
  have "ins_range s (r # rs) \<noteq> []" by (simp split: list.split)
  moreover have "ins_range s (xs @ r # rs) = xs @ ins_range s (r # rs)"
  proof (rule ins_range_skip, rule ballI)
    fix q
    assume "q \<in> set xs"
    with ranges_wf_around(1,2) [OF assms(1)] assms(2) show "range_ok q \<and> unat (seq_id_high q) + 1 < unat s"
      by (fastforce simp: range_ok_def)
  qed
  moreover have "seq_id_low r' = s + 1 \<longleftrightarrow> unat (seq_id_low r') = unat s + 1" if "rs = r' # rs'" for r' rs'
  proof -
    have "seq_id_low r' \<noteq> 0" using ranges_wf_around(3) [OF assms(1), of r'] that by auto
    then have "s + 1 = seq_id_low r' \<longleftrightarrow> unat s + 1 = unat (seq_id_low r')"
      using word_succ_eq [of s "seq_id_low r'"] by simp
    then show ?thesis by (metis (no_types))
  qed
  ultimately show ?thesis using assms
    by (auto simp: extend_high_def opal_list_defs nth_append ranges_wf_append range_ok_def split: list.split)
qed

lemma extend_low_ins:
  assumes "ranges_wf (xs @ r # rs)" "unat s + 1 = unat (seq_id_low r)"
  shows "\<exists>k. extend_low (xs @ r # rs) s (length xs) = (ins_range s (xs @ r # rs), Some k)
    \<and> k < length (ins_range s (xs @ r # rs))"
proof (cases xs rule: rev_cases)
  case Nil
  with assms show ?thesis by (auto simp: extend_low_def opal_list_defs)
next
  case (snoc ys p)
  then have skip: "ins_range s (ys @ p # r # rs) = ys @ ins_range s (p # r # rs)"
  proof (intro ins_range_skip ballI)
    fix q
    assume "q \<in> set ys"
    with ranges_wf_around(2) [OF assms(1), of p] ranges_wf_around(2) [of ys p "r # rs" q] assms snoc
    show "range_ok q \<and> unat (seq_id_high q) + 1 < unat s" by (simp add: range_ok_def)
  qed
  have p: "range_ok p" "unat (seq_id_high p) + 1 < unat (seq_id_low r)" using assms snoc by (auto simp: ranges_wf_append)
  have eq: "seq_id_high p = s - 1 \<longleftrightarrow> unat s = unat (seq_id_high p) + 1"
  proof -
    have "s \<noteq> 0" using p(2) assms(2) by auto
    then have "seq_id_high p + 1 = s \<longleftrightarrow> unat (seq_id_high p) + 1 = unat s" using word_succ_eq [of "seq_id_high p" s] by simp
    then show ?thesis by (auto simp: eq_diff_eq)
  qed
  show ?thesis using snoc p assms(2) eq skip
    by (auto simp: extend_low_def opal_list_defs nth_append list_update_append range_ok_def)
qed

text \<open>What a walk in a direction has left behind: ranges that end before \<open>s\<close>, or start after it.\<close>

definition walk_inv :: "ompi_seq_tracker_range_t list \<Rightarrow> 32 word \<Rightarrow> int \<Rightarrow> nat option \<Rightarrow> bool" where
  "walk_inv ids s d item \<longleftrightarrow>
     (case item of
        None \<Rightarrow> (if d = - 1 then \<forall>r \<in> set ids. unat s + 1 < unat (seq_id_low r)
                else \<forall>r \<in> set ids. unat (seq_id_high r) + 1 < unat s)
      | Some i \<Rightarrow> i < length ids
          \<and> (d = 1 \<longrightarrow> (\<forall>r \<in> set (take i ids). unat (seq_id_high r) + 1 < unat s))
          \<and> (d = - 1 \<longrightarrow> (\<forall>r \<in> set (drop (Suc i) ids). unat s + 1 < unat (seq_id_low r))))"

lemma walk_inv_next:
  assumes "ranges_wf ids" "i < length ids" "unat (seq_id_high (ids ! i)) + 1 < unat s"
  shows "walk_inv ids s 1 (opal_list_get_next ids i)" "\<forall>r \<in> set (take (Suc i) ids). unat (seq_id_high r) + 1 < unat s"
proof -
  have ids: "ids = take i ids @ ids ! i # drop (Suc i) ids" by (rule id_take_nth_drop [OF assms(2)])
  note around = ranges_wf_around [of "take i ids" "ids ! i" "drop (Suc i) ids", folded ids, OF assms(1)]
  show before: "\<forall>r \<in> set (take (Suc i) ids). unat (seq_id_high r) + 1 < unat s"
  proof
    fix q
    assume "q \<in> set (take (Suc i) ids)"
    then consider "q = ids ! i" | "q \<in> set (take i ids)" using assms(2) by (auto simp: take_Suc_conv_app_nth)
    then show "unat (seq_id_high q) + 1 < unat s"
      by cases (use assms(3) around(1) around(2) [of q] in \<open>auto simp: range_ok_def\<close>)
  qed
  then show "walk_inv ids s 1 (opal_list_get_next ids i)"
    using assms(2) by (auto simp: walk_inv_def opal_list_get_next_def Suc_lessI)
qed

lemma walk_inv_prev:
  assumes "ranges_wf ids" "i < length ids" "unat s + 1 < unat (seq_id_low (ids ! i))"
  shows "walk_inv ids s (- 1) (opal_list_get_prev ids i)" "\<forall>r \<in> set (drop i ids). unat s + 1 < unat (seq_id_low r)"
proof -
  have ids: "ids = take i ids @ ids ! i # drop (Suc i) ids" by (rule id_take_nth_drop [OF assms(2)])
  note around = ranges_wf_around [of "take i ids" "ids ! i" "drop (Suc i) ids", folded ids, OF assms(1)]
  have "drop i ids = ids ! i # drop (Suc i) ids" using assms(2) by (simp add: Cons_nth_drop_Suc)
  then show after: "\<forall>r \<in> set (drop i ids). unat s + 1 < unat (seq_id_low r)"
    using assms(3) around(1,3) by (fastforce simp: range_ok_def)
  then show "walk_inv ids s (- 1) (opal_list_get_prev ids i)"
    using assms(2) by (auto simp: walk_inv_def opal_list_get_prev_def split: nat.split)
qed

lemma insert_walk_ins:
  "ranges_wf ids \<Longrightarrow> no_wrap s ids \<Longrightarrow> walk_inv ids s d item \<Longrightarrow>
     \<exists>k. insert_walk ids s d item = Some (ins_range s ids, Some k) \<and> k < length (ins_range s ids)"
proof (induction ids s d item rule: insert_walk.induct)
  case (1 ids s d)
  have "range_ok r" if "r \<in> set ids" for r using "1.prems"(1) that by (simp add: ranges_wf_def)
  with 1 show ?case
    using ins_range_front [of ids s] ins_range_skip [of ids s "[]"] by (auto simp: walk_inv_def)
next
  case (2 ids s d i)
  let ?r = "ids ! i"
  from "2.prems"(3) have i: "i < length ids" by (simp add: walk_inv_def)
  have ids: "ids = take i ids @ ?r # drop (Suc i) ids" by (rule id_take_nth_drop [OF i])
  note around = ranges_wf_around [of "take i ids" ?r "drop (Suc i) ids", folded ids, OF "2.prems"(1)]
  have succ: "seq_id_high ?r + 1 = s \<longleftrightarrow> unat (seq_id_high ?r) + 1 = unat s"
    "seq_id_low ?r - 1 = s \<longleftrightarrow> unat s + 1 = unat (seq_id_low ?r)"
    using no_wrap_high [OF "2.prems"(2) _ around(1)] no_wrap_low [OF "2.prems"(2) _ around(1)] i by auto
  have skip: "ins_range s ids = take j ids @ ins_range s (drop j ids)"
    if "\<forall>r \<in> set (take j ids). unat (seq_id_high r) + 1 < unat s" for j
    using ins_range_skip [of "take j ids" s "drop j ids"] that "2.prems"(1) set_take_subset [of j ids]
    by (auto simp: ranges_wf_def)
  consider (inside) "unat (seq_id_low ?r) \<le> unat s" "unat s \<le> unat (seq_id_high ?r)"
    | (after) "unat (seq_id_high ?r) + 1 = unat s" | (before) "unat s + 1 = unat (seq_id_low ?r)"
    | (right) "unat (seq_id_high ?r) + 1 < unat s" | (left) "unat s + 1 < unat (seq_id_low ?r)" by linarith
  then show ?case
  proof cases
    case inside
    then have "\<forall>r \<in> set (take i ids). unat (seq_id_high r) + 1 < unat s" using around(2) by fastforce
    then have "ins_range s ids = take i ids @ ins_range s (?r # drop (Suc i) ids)"
      using skip [of i] i by (simp add: Cons_nth_drop_Suc)
    also have "\<dots> = ids" using inside ids by simp
    finally show ?thesis using inside i by (simp add: word_le_nat_alt)
  next
    case after
    have "extend_high ids s i = (ins_range s ids, Some i) \<and> i < length (ins_range s ids)"
      using extend_high_ins [of "take i ids" ?r "drop (Suc i) ids" s, folded ids, OF "2.prems"(1) after] i by simp
    then show ?thesis using after i succ around(1) by (simp add: word_le_nat_alt range_ok_def)
  next
    case before
    then show ?thesis
      using extend_low_ins [of "take i ids" ?r "drop (Suc i) ids" s, folded ids, OF "2.prems"(1) before] i succ around(1)
      by (simp add: word_le_nat_alt range_ok_def)
  next
    case right
    note inv = walk_inv_next [OF "2.prems"(1) i right]
    have c: "\<not> (s \<le> seq_id_high ?r \<and> seq_id_low ?r \<le> s)" "seq_id_high ?r + 1 \<noteq> s" "seq_id_low ?r - 1 \<noteq> s" "seq_id_high ?r < s"
      using right succ around(1) by (auto simp: word_le_nat_alt word_less_nat_alt range_ok_def)
    show ?thesis
    proof (cases "d = - 1")
      case True
      then have "ins_range s (drop (Suc i) ids) = seq_range s s # drop (Suc i) ids"
        using "2.prems"(3) by (intro ins_range_front) (simp add: walk_inv_def)
      then show ?thesis using True c i skip [OF inv(2)] by (auto simp: opal_list_insert_pos_def)
    next
      case False
      with "2.IH"(1) [OF _ c(1-4) False "2.prems"(1,2) inv(1)] c i show ?thesis by auto
    qed
  next
    case left
    note inv = walk_inv_prev [OF "2.prems"(1) i left]
    have c: "\<not> (s \<le> seq_id_high ?r \<and> seq_id_low ?r \<le> s)" "seq_id_high ?r + 1 \<noteq> s" "seq_id_low ?r - 1 \<noteq> s"
      "\<not> seq_id_high ?r < s" "s < seq_id_low ?r"
      using left succ around(1) by (auto simp: word_le_nat_alt word_less_nat_alt range_ok_def)
    show ?thesis
    proof (cases "d = 1")
      case True
      then have "ins_range s ids = take i ids @ seq_range s s # drop i ids"
        using "2.prems"(3) skip [of i] ins_range_front [OF inv(2)] by (simp add: walk_inv_def)
      then show ?thesis using True c i by (simp add: opal_list_insert_pos_def)
    next
      case False
      with "2.IH"(2) [OF _ c(1-5) False "2.prems"(1,2) inv(1)] c i show ?thesis by auto
    qed
  qed
qed

lemma dup_walk_correct:
  "ranges_wf ids \<Longrightarrow> (case item of None \<Rightarrow> s \<notin> ranges_set ids | Some i \<Rightarrow> i < length ids
      \<and> (d = 1 \<longrightarrow> s \<notin> ranges_set (take i ids)) \<and> (d = - 1 \<longrightarrow> s \<notin> ranges_set (drop (Suc i) ids))) \<Longrightarrow>
     \<exists>k. dup_walk ids s d item = Some (s \<in> ranges_set ids, k)
       \<and> (s \<in> ranges_set ids \<longrightarrow> (\<exists>j. k = Some j \<and> j < length ids \<and> s \<in> range_set (ids ! j)))"
proof (induction ids s d item rule: dup_walk.induct)
  case (1 ids s d)
  then show ?case by simp
next
  case (2 ids s d i)
  let ?r = "ids ! i"
  from "2.prems"(2) have i: "i < length ids" by simp
  have ids: "ids = take i ids @ ?r # drop (Suc i) ids" by (rule id_take_nth_drop [OF i])
  note around = ranges_wf_around [of "take i ids" ?r "drop (Suc i) ids", folded ids, OF "2.prems"(1)]
  have set_ids: "ranges_set ids = ranges_set (take i ids) \<union> range_set ?r \<union> ranges_set (drop (Suc i) ids)"
    using arg_cong [OF ids, of ranges_set] by auto
  have di: "drop i ids = ?r # drop (Suc i) ids" using i by (simp add: Cons_nth_drop_Suc)
  have right_out: "s \<notin> ranges_set (take i ids)" if "unat (seq_id_low ?r) \<le> unat s"
    using around(2) that by (fastforce simp: ranges_set_def range_set_def)
  have left_out: "s \<notin> ranges_set (drop (Suc i) ids)" if "unat s \<le> unat (seq_id_high ?r)"
    using around(3) that by (fastforce simp: ranges_set_def range_set_def range_ok_def)
  consider (inside) "seq_id_low ?r \<le> s" "s \<le> seq_id_high ?r"
    | (right) "seq_id_high ?r < s" "seq_id_low ?r \<le> s" | (left) "s < seq_id_low ?r" "s \<le> seq_id_high ?r"
    using around(1) by (fastforce simp: range_ok_def word_le_nat_alt word_less_nat_alt)
  then show ?case
  proof cases
    case inside
    then have "s \<in> range_set ?r" by (simp add: range_set_def word_le_nat_alt)
    with inside i set_ids show ?thesis by auto
  next
    case right
    then have out: "s \<notin> range_set ?r" "s \<notin> ranges_set (take (Suc i) ids)"
      using right_out i
      by (auto simp: range_set_def word_le_nat_alt word_less_nat_alt take_Suc_conv_app_nth)
    show ?thesis
    proof (cases "d = - 1")
      case True
      with right out right_out "2.prems"(2) have "s \<notin> ranges_set ids" by (simp add: set_ids word_le_nat_alt)
      moreover have "dup_walk ids s d (Some i) = Some (False, None)" using True right i by (auto simp: not_le)
      ultimately show ?thesis by simp
    next
      case False
      have "case opal_list_get_next ids i of None \<Rightarrow> s \<notin> ranges_set ids
          | Some i \<Rightarrow> i < length ids \<and> (1 = (1 :: int) \<longrightarrow> s \<notin> ranges_set (take i ids))
              \<and> (1 = (- 1 :: int) \<longrightarrow> s \<notin> ranges_set (drop (Suc i) ids))"
        using out i by (auto simp: opal_list_get_next_def dest: Suc_lessI)
      moreover from right have "\<not> s \<le> seq_id_high ?r" by (simp add: not_le)
      ultimately show ?thesis using "2.IH"(1) right False i "2.prems"(1) by simp
    qed
  next
    case left
    then have out: "s \<notin> range_set ?r" "s \<notin> ranges_set (drop i ids)"
      using left_out by (auto simp: di range_set_def word_le_nat_alt word_less_nat_alt)
    show ?thesis
    proof (cases "d = 1")
      case True
      with left out left_out "2.prems"(2) have "s \<notin> ranges_set ids" by (simp add: set_ids word_le_nat_alt)
      moreover have "dup_walk ids s d (Some i) = Some (False, None)" using True left i by (auto simp: not_le)
      ultimately show ?thesis by simp
    next
      case False
      have "case opal_list_get_prev ids i of None \<Rightarrow> s \<notin> ranges_set ids
          | Some i \<Rightarrow> i < length ids \<and> (- 1 = (1 :: int) \<longrightarrow> s \<notin> ranges_set (take i ids))
              \<and> (- 1 = (- 1 :: int) \<longrightarrow> s \<notin> ranges_set (drop (Suc i) ids))"
        using out i by (auto simp: opal_list_get_prev_def split: nat.split)
      moreover from left have "\<not> seq_id_low ?r \<le> s" "\<not> seq_id_high ?r < s" by (simp_all add: not_le not_less)
      ultimately show ?thesis using "2.IH"(2) left False i "2.prems"(1) by simp
    qed
  qed
qed

section \<open>The operations on trackers\<close>

lemma check_duplicate_correct:
  assumes "st_wf t"
  shows "\<exists>t'. ompi_seq_tracker_check_duplicate t s = Some (s \<in> st_set t, t') \<and> st_wf t' \<and> seq_ids t' = seq_ids t"
proof -
  have "case seq_ids_current t of None \<Rightarrow> s \<notin> st_set t | Some i \<Rightarrow> i < length (seq_ids t)"
    using assms by (auto simp: st_wf_def split: option.splits)
  then obtain k where k: "dup_walk (seq_ids t) s 0 (seq_ids_current t) = Some (s \<in> st_set t, k)"
      "s \<in> st_set t \<longrightarrow> (\<exists>j. k = Some j \<and> j < length (seq_ids t))"
    using dup_walk_correct [where ids = "seq_ids t" and item = "seq_ids_current t" and s = s and d = 0] assms
    by (auto simp: st_wf_def split: option.splits)
  then show ?thesis using assms by (auto simp: ompi_seq_tracker_check_duplicate_def st_wf_def)
qed

lemma insert_correct:
  assumes "st_wf t" "no_wrap s (seq_ids t)"
  shows "\<exists>t'. ompi_seq_tracker_insert t s = Some t' \<and> st_wf t' \<and> seq_ids t' = ins_range s (seq_ids t)"
proof -
  have wf: "ranges_wf (seq_ids t)" and "walk_inv (seq_ids t) s 0 (seq_ids_current t)"
    using assms by (auto simp: st_wf_def walk_inv_def split: option.splits)
  from insert_walk_ins [OF this(1) assms(2) this(2)] obtain k where
    "insert_walk (seq_ids t) s 0 (seq_ids_current t) = Some (ins_range s (seq_ids t), Some k)"
    "k < length (ins_range s (seq_ids t))" by blast
  with ins_range_wf [OF wf, of s] show ?thesis by (auto simp: ompi_seq_tracker_insert_def st_wf_def)
qed

lemma copy_correct:
  "ompi_seq_tracker_copy \<lparr>seq_ids = [], seq_ids_current = c\<rparr> src
     = \<lparr>seq_ids = seq_ids src,
        seq_ids_current = (case seq_ids_current src of Some i \<Rightarrow> if i < length (seq_ids src) then Some i else c | None \<Rightarrow> c)\<rparr>"
proof -
  let ?f = "\<lambda>i dst. dst\<lparr>seq_ids := seq_ids dst @ [seq_range (seq_id_low (seq_ids src ! i)) (seq_id_high (seq_ids src ! i))],
               seq_ids_current := (if seq_ids_current src = Some i then Some (length (seq_ids dst)) else seq_ids_current dst)\<rparr>"
  have range: "seq_range (seq_id_low r) (seq_id_high r) = r" for r by (cases r) (simp add: seq_range_def)
  have "n \<le> length (seq_ids src) \<Longrightarrow> fold ?f [0..<n] \<lparr>seq_ids = [], seq_ids_current = c\<rparr>
      = \<lparr>seq_ids = take n (seq_ids src),
         seq_ids_current = (case seq_ids_current src of Some i \<Rightarrow> if i < n then Some i else c | None \<Rightarrow> c)\<rparr>" for n
    by (induction n) (auto simp: range take_Suc_conv_app_nth split: option.splits)
  from this [of "length (seq_ids src)"] show ?thesis by (simp add: ompi_seq_tracker_copy_def)
qed

section \<open>Properties\<close>

text \<open>C20: recording a sequence number next to which the numbers do not wrap around (it is not \<open>0\<close> while
  \<open>2 ^ 32 - 1\<close> is on record, nor \<open>2 ^ 32 - 1\<close> while \<open>0\<close> is on record), from whatever range the previous call
  ended in, never faults, keeps the ranges sorted, disjoint and maximal, and leaves exactly the list that a plain
  sorted insertion from the front produces; the numbers on record are the old ones and the new one. At
  the wrap-around this fails, see \<open>seq_tracker_wrap_forgets\<close>.\<close>

theorem seq_tracker_insert_exact:
  assumes "st_wf t" "no_wrap s (seq_ids t)"
  shows "\<exists>t'. ompi_seq_tracker_insert t s = Some t' \<and> st_wf t'
    \<and> seq_ids t' = ins_range s (seq_ids t) \<and> st_set t' = insert s (st_set t)"
  using insert_correct [OF assms] ins_range_set [of "seq_ids t" s] assms(1) by (auto simp: st_wf_def)

theorem seq_tracker_insert_exact_witness:
  "\<exists>t'. ompi_seq_tracker_insert \<lparr>seq_ids = [seq_range 1 3, seq_range 5 9], seq_ids_current = Some 1\<rparr> 4 = Some t'
    \<and> seq_ids t' = [seq_range 1 9]"
proof -
  let ?t = "\<lparr>seq_ids = [seq_range 1 3, seq_range 5 9], seq_ids_current = Some 1\<rparr>"
  have "st_wf ?t" by (simp add: st_wf_def ranges_wf_def range_ok_def)
  moreover have "no_wrap 4 (seq_ids ?t)" by (simp add: no_wrap_def)
  moreover have "ins_range 4 (seq_ids ?t) = [seq_range 1 9]" by (simp add: seq_range_def)
  ultimately show ?thesis using seq_tracker_insert_exact [of ?t 4] by auto
qed

text \<open>A duplicate is reported exactly when the number is on record, wherever the search starts; the
  record is not changed.\<close>

lemma seq_tracker_duplicate_iff:
  assumes "st_wf t"
  shows "\<exists>t'. ompi_seq_tracker_check_duplicate t s = Some (s \<in> st_set t, t') \<and> st_wf t' \<and> seq_ids t' = seq_ids t"
  by (rule check_duplicate_correct [OF assms])

text \<open>The comparison \<^verbatim>\<open>seq_id_high + 1 == seq_id\<close> is made in 32 bits: when the range that ends at
  \<open>2 ^ 32 - 1\<close> is the current one, recording \<open>0\<close> is taken for an extension of it, the range becomes
  empty and every number it recorded is forgotten.\<close>

lemma seq_tracker_wrap_forgets:
  assumes "0 < l" "s \<noteq> 0"
  shows "ompi_seq_tracker_insert \<lparr>seq_ids = [seq_range l (- 1)], seq_ids_current = Some 0\<rparr> 0
      = Some \<lparr>seq_ids = [seq_range l 0], seq_ids_current = Some 0\<rparr>
    \<and> (\<exists>t'. ompi_seq_tracker_check_duplicate \<lparr>seq_ids = [seq_range l 0], seq_ids_current = Some 0\<rparr> s = Some (False, t'))"
proof
  have nz: "\<not> l \<le> 0" "l \<noteq> 0" using assms(1) by auto
  show "ompi_seq_tracker_insert \<lparr>seq_ids = [seq_range l (- 1)], seq_ids_current = Some 0\<rparr> 0
      = Some \<lparr>seq_ids = [seq_range l 0], seq_ids_current = Some 0\<rparr>"
    using nz by (simp add: ompi_seq_tracker_insert_def extend_high_def opal_list_defs seq_range_def)
  have "\<not> s \<le> 0" using assms(2) by simp
  then show "\<exists>t'. ompi_seq_tracker_check_duplicate \<lparr>seq_ids = [seq_range l 0], seq_ids_current = Some 0\<rparr> s = Some (False, t')"
    by (simp add: ompi_seq_tracker_check_duplicate_def opal_list_defs)
qed

end
