(* ===== verification/Opal_Bit_Ops.thy ===== *)
theory Opal_Bit_Ops
  imports OMPI_Prelude
begin

text \<open>
  The bit operations of \<^verbatim>\<open>opal/util/bit_ops.h\<close>, in both variants of the source: the loops, and the
  version for compilers with \<^verbatim>\<open>__builtin_clz\<close>. \<^const>\<open>None\<close> is a result, or a value on the way,
  that does not fit an \<^verbatim>\<open>int\<close>, or a shift by a negative number of bits.
\<close>

section \<open>The loops\<close>

function hibit_loop :: "int \<Rightarrow> int \<Rightarrow> int \<Rightarrow> int" where
  "hibit_loop value start msk =
     (if start \<ge> 0 then
        if value AND msk \<noteq> 0 then start else hibit_loop value (start - 1) (drop_bit 1 msk)
      else start)"
  by pat_completeness auto
termination
  by (relation "measure (\<lambda>(value, start, msk). nat (start + 1))") auto

function cube_dim_loop :: "int \<Rightarrow> int \<Rightarrow> int \<Rightarrow> int option" where
  "cube_dim_loop value dim sz =
     (if sz < value then if sz \<le> 0 \<or> sz \<ge> 2 ^ 30 then None else cube_dim_loop value (dim + 1) (push_bit 1 sz) else Some dim)"
  by pat_completeness auto
termination
  by (relation "measure (\<lambda>(value, dim, sz). nat (value - sz))") (auto simp: push_bit_eq_mult)

function next_power_loop :: "int \<Rightarrow> int \<Rightarrow> int option" where
  "next_power_loop value p2 =
     (if value > 0 then if p2 \<ge> 2 ^ 30 then None else next_power_loop (drop_bit 1 value) (push_bit 1 p2) else Some p2)"
  by pat_completeness auto
termination
  by (relation "measure (\<lambda>(value, p2). nat value)") (auto simp: drop_bit_eq_div)

function inclusive_loop :: "int \<Rightarrow> int \<Rightarrow> int option" where
  "inclusive_loop value p2 =
     (if p2 < value then if p2 \<le> 0 \<or> p2 \<ge> 2 ^ 30 then None else inclusive_loop value (push_bit 1 p2) else Some p2)"
  by pat_completeness auto
termination
  by (relation "measure (\<lambda>(value, p2). nat (value - p2))") (auto simp: push_bit_eq_mult)

declare hibit_loop.simps [simp del] cube_dim_loop.simps [simp del] next_power_loop.simps [simp del] inclusive_loop.simps [simp del]

definition opal_hibit :: "int \<Rightarrow> int \<Rightarrow> int option" where
  "opal_hibit value start =
     (if start - 1 < 0 \<or> start - 1 > 30 then None else Some (hibit_loop value (start - 1) (push_bit (nat (start - 1)) 1)))"

definition opal_cube_dim :: "int \<Rightarrow> int option" where
  "opal_cube_dim value = cube_dim_loop value 0 1"

definition opal_next_poweroftwo :: "int \<Rightarrow> int option" where
  "opal_next_poweroftwo value = next_power_loop value 1"

definition opal_next_poweroftwo_inclusive :: "int \<Rightarrow> int option" where
  "opal_next_poweroftwo_inclusive value = inclusive_loop value 1"

section \<open>Binary digits\<close>

fun bl :: "nat \<Rightarrow> nat" where
  "bl s = (if s = 0 then 0 else Suc (bl (s div 2)))"

declare bl.simps [simp del]

lemma bl_bounds: "s < 2 ^ bl s \<and> (0 < s \<longrightarrow> 0 < bl s \<and> 2 ^ (bl s - 1) \<le> s)"
proof (induction s rule: less_induct)
  case (less s)
  show ?case
  proof (cases "s = 0")
    case False
    define m where "m = s div 2"
    have s: "2 * m \<le> s" "s < 2 * m + 2" and b: "bl s = Suc (bl m)" using False by (auto simp: m_def bl.simps [of s])
    have m: "m < 2 ^ bl m" "0 < m \<Longrightarrow> 0 < bl m \<and> 2 ^ (bl m - 1) \<le> m" using less.IH [of m] False by (auto simp: m_def)
    have "s < 2 ^ bl s" using s m(1) b by simp
    moreover have "2 ^ bl m \<le> s"
    proof (cases "m = 0")
      case True
      then show ?thesis using False by (simp add: bl.simps)
    next
      case False
      then obtain k where "bl m = Suc k" using m(2) by (cases "bl m") auto
      then show ?thesis using m(2) False s by simp
    qed
    ultimately show ?thesis using b by simp
  qed (simp add: bl.simps)
qed

lemma bl_unique:
  assumes "2 ^ k \<le> c" "c < 2 ^ Suc k"
  shows "bl c = Suc k"
proof -
  have "0 < c" using assms(1) by (metis gr0I not_less_zero le_zero_eq power_not_zero zero_neq_numeral)
  then have b: "c < 2 ^ bl c" "2 ^ (bl c - 1) \<le> c" "0 < bl c" using bl_bounds by auto
  have "k < bl c" using le_less_trans [OF assms(1) b(1)] by simp
  moreover have "bl c - 1 < Suc k" using le_less_trans [OF b(2) assms(2)] by (simp only: power_strict_increasing_iff one_less_numeral_iff semiring_norm)
  ultimately show ?thesis using b(3) by simp
qed

lemma bl_mono_power: "s < 2 ^ i \<Longrightarrow> bl s \<le> i"
proof (cases "s = 0")
  case False
  assume "s < 2 ^ i"
  then have "2 ^ (bl s - 1) < (2 :: nat) ^ i" using bl_bounds [of s] False by (auto dest: le_less_trans)
  then show ?thesis by simp
qed (simp add: bl.simps)

section \<open>The versions with \<^verbatim>\<open>__builtin_clz\<close>\<close>

text \<open>The number of leading zeros of a positive 32-bit number.\<close>

definition builtin_clz :: "int \<Rightarrow> int" where
  "builtin_clz v = 32 - int (bl (nat v))"

definition opal_hibit_clz :: "int \<Rightarrow> int \<Rightarrow> int option" where
  "opal_hibit_clz value start =
     (if start < 0 \<or> start > 30 then None
      else let msk = value AND (push_bit (nat start) 1 - 1) in
        if msk = 0 then Some (- 1) else Some (32 - 1 - builtin_clz msk))"

definition opal_cube_dim_clz :: "int \<Rightarrow> int option" where
  "opal_cube_dim_clz value = (if 1 \<ge> value then Some 0 else Some (32 - builtin_clz (value - 1)))"

definition shifted_one :: "int \<Rightarrow> int option" where
  "shifted_one k = (if k < 0 \<or> k > 30 then None else Some (push_bit (nat k) 1))"

definition opal_next_poweroftwo_clz :: "int \<Rightarrow> int option" where
  "opal_next_poweroftwo_clz value = (if value = 0 then Some 1 else shifted_one (32 - builtin_clz value))"

definition opal_next_poweroftwo_inclusive_clz :: "int \<Rightarrow> int option" where
  "opal_next_poweroftwo_inclusive_clz value = (if 1 \<ge> value then Some 1 else shifted_one (32 - builtin_clz (value - 1)))"

section \<open>What the operations compute\<close>

lemma power_30: "1073741824 \<le> (2 :: int) ^ i \<longleftrightarrow> 30 \<le> i"
  using power_increasing_iff [of "2 :: int" 30 i] by simp

lemma power_below: "int s < 2 ^ i \<longleftrightarrow> bl s \<le> i"
proof -
  have "s < 2 ^ i" if "bl s \<le> i"
    using bl_bounds [of s] power_increasing [OF that, of "2 :: nat"] by linarith
  then have "s < 2 ^ i \<longleftrightarrow> bl s \<le> i" using bl_mono_power [of s i] by blast
  moreover have "int s < 2 ^ i \<longleftrightarrow> int s < int (2 ^ i)" by simp
  ultimately show ?thesis by (simp only: of_nat_less_iff)
qed

lemma hibit_loop_eq: "hibit_loop value (int k) (2 ^ k) = int (bl (nat (take_bit (Suc k) value))) - 1"
proof (induction k)
  case 0
  have "hibit_loop value (- 1) 0 = - 1" by (simp add: hibit_loop.simps)
  then show ?case by (subst hibit_loop.simps) (auto simp: and_one_eq take_bit_Suc bl.simps drop_bit_eq_div odd_iff_mod_2_eq_one)
next
  case (Suc k)
  have t: "take_bit (Suc (Suc k)) value = 2 ^ Suc k * of_bool (bit value (Suc k)) + take_bit (Suc k) value" by (rule take_bit_Suc_from_most)
  show ?case
  proof (cases "bit value (Suc k)")
    case True
    have "take_bit (Suc k) value < 2 ^ Suc k" "0 \<le> take_bit (Suc k) value" by (simp_all del: power_Suc)
    then have "nat (take_bit (Suc (Suc k)) value) = 2 ^ Suc k + nat (take_bit (Suc k) value)" "nat (take_bit (Suc k) value) < 2 ^ Suc k"
      using True unfolding t by (simp_all add: nat_add_distrib nat_power_eq nat_less_iff del: power_Suc)
    then have "bl (nat (take_bit (Suc (Suc k)) value)) = Suc (Suc k)" by (intro bl_unique) simp_all
    moreover have "value AND 2 ^ Suc k \<noteq> 0" using True by (simp add: and_exp_eq_0_iff_not_bit del: power_Suc)
    ultimately show ?thesis by (subst hibit_loop.simps) simp
  next
    case False
    then have "value AND 2 ^ Suc k = 0" by (simp add: and_exp_eq_0_iff_not_bit del: power_Suc)
    moreover have "drop_bit 1 (2 ^ Suc k) = (2 :: int) ^ k" by (simp add: drop_bit_eq_div)
    moreover have "take_bit (Suc (Suc k)) value = take_bit (Suc k) value" using False t by simp
    ultimately show ?thesis using Suc by (subst hibit_loop.simps) simp
  qed
qed

lemma hibit_eq: "0 < k \<Longrightarrow> k \<le> 31 \<Longrightarrow> opal_hibit value (int k) = Some (int (bl (nat (take_bit k value))) - 1)"
  using hibit_loop_eq [of "value" "k - 1"] by (simp add: opal_hibit_def push_bit_eq_mult nat_diff_distrib of_nat_diff)

lemma cube_dim_loop_eq: "i \<le> bl s \<Longrightarrow> bl s \<le> 30 \<Longrightarrow> cube_dim_loop (int s + 1) (int i) (2 ^ i) = Some (int (bl s))"
proof (induction "bl s - i" arbitrary: i)
  case 0
  then show ?case using power_below [of s i] by (subst cube_dim_loop.simps) simp
next
  case (Suc d)
  have "push_bit 1 (2 ^ i) = (2 :: int) ^ Suc i" "int i + 1 = int (Suc i)" by (simp_all add: push_bit_eq_mult)
  moreover have "2 ^ i < 1 + int s" using Suc.hyps(2) power_below [of s i] by linarith
  moreover have "\<not> (2 :: int) ^ i \<ge> 2 ^ 30" using Suc.hyps(2) Suc.prems power_30 [of i] by simp
  ultimately show ?case using Suc.hyps(1) [of "Suc i"] Suc.hyps(2) Suc.prems by (subst cube_dim_loop.simps) (simp add: ac_simps)
qed

lemma inclusive_loop_eq: "i \<le> bl s \<Longrightarrow> bl s \<le> 30 \<Longrightarrow> inclusive_loop (int s + 1) (2 ^ i) = Some (2 ^ bl s)"
proof (induction "bl s - i" arbitrary: i)
  case 0
  then show ?case using power_below [of s i] by (subst inclusive_loop.simps) simp
next
  case (Suc d)
  have "push_bit 1 (2 ^ i) = (2 :: int) ^ Suc i" by (simp add: push_bit_eq_mult)
  moreover have "2 ^ i < 1 + int s" using Suc.hyps(2) power_below [of s i] by linarith
  moreover have "\<not> (2 :: int) ^ i \<ge> 2 ^ 30" using Suc.hyps(2) Suc.prems power_30 [of i] by simp
  ultimately show ?case using Suc.hyps(1) [of "Suc i"] Suc.hyps(2) Suc.prems by (subst inclusive_loop.simps) (simp add: ac_simps)
qed

lemma next_power_loop_eq: "i + bl s \<le> 30 \<Longrightarrow> next_power_loop (int s) (2 ^ i) = Some (2 ^ (i + bl s))"
proof (induction s arbitrary: i rule: less_induct)
  case (less s)
  show ?case
  proof (cases "s = 0")
    case False
    have "drop_bit 1 (int s) = int (s div 2)" by (simp add: drop_bit_eq_div zdiv_int)
    moreover have b: "bl s = Suc (bl (s div 2))" using False by (simp add: bl.simps [of s])
    moreover have "\<not> (2 :: int) ^ i \<ge> 2 ^ 30" using less.prems b power_30 [of i] by simp
    moreover have "push_bit 1 (2 ^ i) = (2 :: int) ^ Suc i" by (simp add: push_bit_eq_mult)
    ultimately show ?thesis using less.IH [of "s div 2" "Suc i"] less.prems False by (subst next_power_loop.simps) (simp add: ac_simps)
  qed (simp add: next_power_loop.simps bl.simps)
qed

lemma next_poweroftwo_eq: "s < 2 ^ 30 \<Longrightarrow> opal_next_poweroftwo (int s) = Some (2 ^ bl s)"
  using next_power_loop_eq [of 0 s] bl_mono_power [of s 30] by (simp add: opal_next_poweroftwo_def)

lemma cube_dim_eq: "s < 2 ^ 30 \<Longrightarrow> opal_cube_dim (int s + 1) = Some (int (bl s))"
  using cube_dim_loop_eq [of 0 s] bl_mono_power [of s 30] by (simp add: opal_cube_dim_def)

lemma inclusive_eq: "s < 2 ^ 30 \<Longrightarrow> opal_next_poweroftwo_inclusive (int s + 1) = Some (2 ^ bl s)"
  using inclusive_loop_eq [of 0 s] bl_mono_power [of s 30] by (simp add: opal_next_poweroftwo_inclusive_def)

lemma hibit_clz_eq:
  assumes "0 < k" "k \<le> 30"
  shows "opal_hibit_clz value (int k) = Some (int (bl (nat (take_bit k value))) - 1)"
proof -
  have "value AND (push_bit k 1 - 1) = take_bit k value" by (simp add: take_bit_eq_mask mask_eq_exp_minus_1 push_bit_eq_mult)
  then show ?thesis using assms by (simp add: opal_hibit_clz_def builtin_clz_def bl.simps [of 0] Let_def)
qed

text \<open>The two variants of the bit operations, the loops and the one with the count of leading zeros, compute the same: the highest set bit below a position, the dimension of the smallest cube, the next power of two and the next power of two from the value on.\<close>

lemma bit_ops_variants_agree:
  assumes "0 < start" "start \<le> 30" "0 \<le> v" "v < 2 ^ 30"
  shows "opal_hibit x start = opal_hibit_clz x start \<and> opal_cube_dim v = opal_cube_dim_clz v
    \<and> opal_next_poweroftwo v = opal_next_poweroftwo_clz v \<and> opal_next_poweroftwo_inclusive v = opal_next_poweroftwo_inclusive_clz v"
proof -
  obtain k s where k: "start = int k" "0 < k" "k \<le> 30" and s: "v = int s" "s < 2 ^ 30"
    using assms zero_le_imp_eq_int [of start] zero_le_imp_eq_int [of v] by auto
  have "opal_hibit x start = opal_hibit_clz x start" using hibit_eq [of k x] hibit_clz_eq [of k x] k by simp
  moreover have "opal_next_poweroftwo v = opal_next_poweroftwo_clz v"
    using next_poweroftwo_eq [OF s(2)] bl_mono_power [of s 30] s
    by (simp add: opal_next_poweroftwo_clz_def shifted_one_def builtin_clz_def push_bit_eq_mult bl.simps [of 0])
  moreover have "opal_cube_dim v = opal_cube_dim_clz v \<and> opal_next_poweroftwo_inclusive v = opal_next_poweroftwo_inclusive_clz v"
  proof (cases s)
    case 0
    then show ?thesis unfolding s(1)
      by (simp add: opal_cube_dim_def opal_cube_dim_clz_def opal_next_poweroftwo_inclusive_def opal_next_poweroftwo_inclusive_clz_def cube_dim_loop.simps inclusive_loop.simps)
  next
    case (Suc u)
    then have v: "v = int u + 1" "u < 2 ^ 30" using s by simp_all
    show ?thesis using cube_dim_eq [OF v(2)] inclusive_eq [OF v(2)] bl_mono_power [of u 30] v
      by (cases "u = 0") (simp_all add: opal_cube_dim_clz_def opal_next_poweroftwo_inclusive_clz_def shifted_one_def builtin_clz_def push_bit_eq_mult bl.simps [of 0])
  qed
  ultimately show ?thesis by simp
qed

end
