(* ===== verification/Opal_Hash_Table.thy ===== *)
theory Opal_Hash_Table
  imports Opal_Bit_Ops
begin

text \<open>
  The chained hash table of \<^verbatim>\<open>opal/class/opal_hash_table.c\<close>, in its three versions: keys of 32 bits, keys
  of 64 bits, and keys that are strings of bytes which the table copies. A table is an array of
  lists of nodes whose length is a power of two, and a list of spare nodes (\<^verbatim>\<open>ht_nodes\<close>).

  The functions of the three versions differ only in the way a key selects a list and in the
  treatment of a byte-string key, so each operation is written once over a function \<open>hash\<close> from the
  mask and the key to an index, and the C functions are its instances. What the operations need of
  the hash is the locale \<open>hash_function\<close>, interpreted three times.

  A node that a caller holds during an iteration is the pair of its list and its place in the list.
\<close>

record ('k, 'v) hash_node_t =
  hn_key :: 'k
  hn_value :: 'v

record ('k, 'v) opal_hash_table_t =
  ht_nodes :: "('k, 'v) hash_node_t list"
  ht_table :: "('k, 'v) hash_node_t list list option"
  ht_table_size :: nat
  ht_size :: int
  ht_mask :: "64 word"

section \<open>Operations\<close>

definition opal_hash_table_construct :: "('k, 'v) opal_hash_table_t" where
  "opal_hash_table_construct =
     \<lparr>ht_nodes = [], ht_table = None, ht_table_size = 0, ht_size = 0, ht_mask = 0\<rparr>"

text \<open>Only the lists from the old table size on are constructed; below it they hold what \<^verbatim>\<open>malloc\<close>
  returned (\<open>junk\<close>).\<close>

definition opal_hash_table_init ::
  "('k, 'v) hash_node_t list option \<Rightarrow> ('k, 'v) opal_hash_table_t \<Rightarrow> nat
     \<Rightarrow> (int \<times> ('k, 'v) opal_hash_table_t) option" where
  "opal_hash_table_init mem ht table_size = do {
     pow2 \<leftarrow> map_option nat (opal_next_poweroftwo (int table_size));
     let ht = ht\<lparr>ht_mask := of_nat pow2 - 1\<rparr>;
     case mem of None \<Rightarrow> Some (OPAL_ERR_OUT_OF_RESOURCE, ht\<lparr>ht_table := None\<rparr>)
     | Some junk \<Rightarrow> do {
         t \<leftarrow> ofold (\<lambda>i t. aset t (int i) []) [ht_table_size ht..<pow2] (replicate pow2 junk);
         Some (OPAL_SUCCESS, ht\<lparr>ht_table := Some t, ht_table_size := pow2\<rparr>)
       }
   }"

definition opal_hash_table_remove_all ::
  "('k, 'v) opal_hash_table_t \<Rightarrow> (int \<times> ('k, 'v) opal_hash_table_t) option" where
  "opal_hash_table_remove_all ht = do {
     t \<leftarrow> ofold (\<lambda>i t. aset t (int i) []) [0..<ht_table_size ht] (case ht_table ht of None \<Rightarrow> [] | Some t \<Rightarrow> t);
     Some (OPAL_SUCCESS,
       ht\<lparr>ht_table := (case ht_table ht of None \<Rightarrow> None | Some _ \<Rightarrow> Some t), ht_nodes := [], ht_size := 0\<rparr>)
   }"

definition opal_hash_table_destruct ::
  "('k, 'v) opal_hash_table_t \<Rightarrow> ('k, 'v) opal_hash_table_t option" where
  "opal_hash_table_destruct ht = do {
     (_, ht) \<leftarrow> opal_hash_table_remove_all ht;
     Some (ht\<lparr>ht_table := None\<rparr>)
   }"

text \<open>The loop over a list that all operations contain: the place of the node with the key.\<close>

fun find_node :: "'k \<Rightarrow> ('k, 'v) hash_node_t list \<Rightarrow> nat option" where
  "find_node key [] = None"
| "find_node key (n # ns) = (if hn_key n = key then Some 0 else map_option Suc (find_node key ns))"

definition get_value ::
  "(64 word \<Rightarrow> 'k \<Rightarrow> nat) \<Rightarrow> ('k, 'v) opal_hash_table_t \<Rightarrow> 'k \<Rightarrow> (int \<times> 'v option) option" where
  "get_value hash ht key = do {
     t \<leftarrow> ht_table ht;
     list \<leftarrow> aget t (int (hash (ht_mask ht) key));
     Some (case find_node key list of
         Some j \<Rightarrow> (OPAL_SUCCESS, Some (hn_value (list ! j)))
       | None \<Rightarrow> (OPAL_ERR_NOT_FOUND, None))
   }"

text \<open>\<open>mem\<close>: whether a fresh node can be allocated when there is no spare one.\<close>

definition set_value ::
  "(64 word \<Rightarrow> 'k \<Rightarrow> nat) \<Rightarrow> bool \<Rightarrow> ('k, 'v) opal_hash_table_t \<Rightarrow> 'k \<Rightarrow> 'v
     \<Rightarrow> (int \<times> ('k, 'v) opal_hash_table_t) option" where
  "set_value hash mem ht key val = do {
     t \<leftarrow> ht_table ht;
     let i = int (hash (ht_mask ht) key);
     list \<leftarrow> aget t i;
     case find_node key list of
       Some j \<Rightarrow> do {
         t \<leftarrow> aset t i (list[j := (list ! j)\<lparr>hn_value := val\<rparr>]);
         Some (OPAL_SUCCESS, ht\<lparr>ht_table := Some t\<rparr>)
       }
     | None \<Rightarrow>
         if ht_nodes ht = [] \<and> \<not> mem then Some (OPAL_ERR_OUT_OF_RESOURCE, ht)
         else do {
           t \<leftarrow> aset t i (list @ [\<lparr>hn_key = key, hn_value = val\<rparr>]);
           Some (OPAL_SUCCESS, ht\<lparr>ht_nodes := tl (ht_nodes ht), ht_table := Some t, ht_size := ht_size ht + 1\<rparr>)
         }
   }"

definition remove_value ::
  "(64 word \<Rightarrow> 'k \<Rightarrow> nat) \<Rightarrow> ('k, 'v) opal_hash_table_t \<Rightarrow> 'k
     \<Rightarrow> (int \<times> ('k, 'v) opal_hash_table_t) option" where
  "remove_value hash ht key = do {
     t \<leftarrow> ht_table ht;
     let i = int (hash (ht_mask ht) key);
     list \<leftarrow> aget t i;
     case find_node key list of
       Some j \<Rightarrow> do {
         t \<leftarrow> aset t i (take j list @ drop (Suc j) list);
         Some (OPAL_SUCCESS, ht\<lparr>ht_nodes := ht_nodes ht @ [list ! j], ht_table := Some t, ht_size := ht_size ht - 1\<rparr>)
       }
     | None \<Rightarrow> Some (OPAL_ERR_NOT_FOUND, ht)
   }"

text \<open>The first node of the first list that is not empty, from the list \<open>i\<close> on.\<close>

definition first_from ::
  "('k, 'v) opal_hash_table_t \<Rightarrow> nat \<Rightarrow> (nat \<times> nat) option option" where
  "first_from ht i = do {
     r \<leftarrow> ofind (\<lambda>k. map_option (\<lambda>l. l \<noteq> []) (ht_table ht \<bind> (\<lambda>t. aget t (int k)))) [i..<ht_table_size ht];
     Some (map_option (\<lambda>k. (k, 0)) r)
   }"

definition node_at ::
  "('k, 'v) opal_hash_table_t \<Rightarrow> nat \<times> nat \<Rightarrow> ('k, 'v) hash_node_t option" where
  "node_at ht = (\<lambda>(i, j). do {
     t \<leftarrow> ht_table ht;
     list \<leftarrow> aget t (int i);
     aget list (int j)
   })"

text \<open>The result of an iteration step: \<^const>\<open>None\<close> for \<^verbatim>\<open>OPAL_ERROR\<close> (no further entry), otherwise the key, the
  value and the node.\<close>

definition found ::
  "('k, 'v) opal_hash_table_t \<Rightarrow> (nat \<times> nat) option \<Rightarrow> ('k \<times> 'v \<times> (nat \<times> nat)) option option" where
  "found ht item =
     (case item of None \<Rightarrow> Some None
      | Some ij \<Rightarrow> do {n \<leftarrow> node_at ht ij; Some (Some (hn_key n, hn_value n, ij))})"

definition get_first_key ::
  "('k, 'v) opal_hash_table_t \<Rightarrow> ('k \<times> 'v \<times> (nat \<times> nat)) option option" where
  "get_first_key ht = do {item \<leftarrow> first_from ht 0; found ht item}"

definition get_next_key ::
  "(64 word \<Rightarrow> 'k \<Rightarrow> nat) \<Rightarrow> ('k, 'v) opal_hash_table_t \<Rightarrow> nat \<times> nat
     \<Rightarrow> ('k \<times> 'v \<times> (nat \<times> nat)) option option" where
  "get_next_key hash ht = (\<lambda>(i, j). do {
     n \<leftarrow> node_at ht (i, j);
     t \<leftarrow> ht_table ht;
     let list = hash (ht_mask ht) (hn_key n);
     own \<leftarrow> aget t (int i);
     item \<leftarrow> (if Suc j < length own then Some (Some (i, Suc j))
             else if list = i then first_from ht (i + 1)
             else None);
     found ht item
   })"

subsection \<open>The three versions\<close>

definition hash_uint32 :: "64 word \<Rightarrow> 32 word \<Rightarrow> nat" where
  "hash_uint32 msk key = unat (ucast key AND msk)"

definition opal_hash_table_get_value_uint32 ::
  "(32 word, 'v) opal_hash_table_t \<Rightarrow> 32 word \<Rightarrow> (int \<times> 'v option) option" where
  "opal_hash_table_get_value_uint32 = get_value hash_uint32"

definition opal_hash_table_set_value_uint32 ::
  "bool \<Rightarrow> (32 word, 'v) opal_hash_table_t \<Rightarrow> 32 word \<Rightarrow> 'v \<Rightarrow> (int \<times> (32 word, 'v) opal_hash_table_t) option" where
  "opal_hash_table_set_value_uint32 = set_value hash_uint32"

definition opal_hash_table_remove_value_uint32 ::
  "(32 word, 'v) opal_hash_table_t \<Rightarrow> 32 word \<Rightarrow> (int \<times> (32 word, 'v) opal_hash_table_t) option" where
  "opal_hash_table_remove_value_uint32 = remove_value hash_uint32"

definition opal_hash_table_get_first_key_uint32 ::
  "(32 word, 'v) opal_hash_table_t \<Rightarrow> (32 word \<times> 'v \<times> (nat \<times> nat)) option option" where
  "opal_hash_table_get_first_key_uint32 = get_first_key"

definition opal_hash_table_get_next_key_uint32 ::
  "(32 word, 'v) opal_hash_table_t \<Rightarrow> nat \<times> nat \<Rightarrow> (32 word \<times> 'v \<times> (nat \<times> nat)) option option" where
  "opal_hash_table_get_next_key_uint32 = get_next_key hash_uint32"

definition hash_uint64 :: "64 word \<Rightarrow> 64 word \<Rightarrow> nat" where
  "hash_uint64 msk key = unat (key AND msk)"

definition opal_hash_table_get_value_uint64 ::
  "(64 word, 'v) opal_hash_table_t \<Rightarrow> 64 word \<Rightarrow> (int \<times> 'v option) option" where
  "opal_hash_table_get_value_uint64 = get_value hash_uint64"

definition opal_hash_table_set_value_uint64 ::
  "bool \<Rightarrow> (64 word, 'v) opal_hash_table_t \<Rightarrow> 64 word \<Rightarrow> 'v \<Rightarrow> (int \<times> (64 word, 'v) opal_hash_table_t) option" where
  "opal_hash_table_set_value_uint64 = set_value hash_uint64"

definition opal_hash_table_remove_value_uint64 ::
  "(64 word, 'v) opal_hash_table_t \<Rightarrow> 64 word \<Rightarrow> (int \<times> (64 word, 'v) opal_hash_table_t) option" where
  "opal_hash_table_remove_value_uint64 = remove_value hash_uint64"

definition opal_hash_table_get_first_key_uint64 ::
  "(64 word, 'v) opal_hash_table_t \<Rightarrow> (64 word \<times> 'v \<times> (nat \<times> nat)) option option" where
  "opal_hash_table_get_first_key_uint64 = get_first_key"

definition opal_hash_table_get_next_key_uint64 ::
  "(64 word, 'v) opal_hash_table_t \<Rightarrow> nat \<times> nat \<Rightarrow> (64 word \<times> 'v \<times> (nat \<times> nat)) option option" where
  "opal_hash_table_get_next_key_uint64 = get_next_key hash_uint64"

text \<open>A byte-string key is the list of its \<^verbatim>\<open>key_size\<close> bytes.\<close>

definition HASH_MULTIPLIER :: "64 word" where "HASH_MULTIPLIER = 31"

definition opal_hash_value :: "64 word \<Rightarrow> 8 word list \<Rightarrow> 32 word" where
  "opal_hash_value msk key = ucast (fold (\<lambda>c h. HASH_MULTIPLIER * h + ucast c) key 0 AND msk)"

definition hash_ptr :: "64 word \<Rightarrow> 8 word list \<Rightarrow> nat" where
  "hash_ptr msk key = unat (opal_hash_value msk key)"

definition opal_hash_table_get_value_ptr ::
  "(8 word list, 'v) opal_hash_table_t \<Rightarrow> 8 word list \<Rightarrow> (int \<times> 'v option) option" where
  "opal_hash_table_get_value_ptr = get_value hash_ptr"

text \<open>The copy of a new key is allocated without a test; \<open>keymem\<close> says whether that succeeds. (The key
  is copied only when no node with the key is found.)\<close>

definition opal_hash_table_set_value_ptr ::
  "bool \<Rightarrow> bool \<Rightarrow> (8 word list, 'v) opal_hash_table_t \<Rightarrow> 8 word list \<Rightarrow> 'v
     \<Rightarrow> (int \<times> (8 word list, 'v) opal_hash_table_t) option" where
  "opal_hash_table_set_value_ptr mem keymem ht key val = do {
     (rc, ht') \<leftarrow> set_value hash_ptr mem ht key val;
     if ht_size ht' \<noteq> ht_size ht \<and> \<not> keymem \<and> key \<noteq> [] then None else Some (rc, ht')
   }"

definition opal_hash_table_remove_value_ptr ::
  "(8 word list, 'v) opal_hash_table_t \<Rightarrow> 8 word list \<Rightarrow> (int \<times> (8 word list, 'v) opal_hash_table_t) option" where
  "opal_hash_table_remove_value_ptr ht key = do {
     (rc, ht') \<leftarrow> remove_value hash_ptr ht key;
     Some (rc, if rc = OPAL_SUCCESS
               then ht'\<lparr>ht_nodes := butlast (ht_nodes ht') @ [(last (ht_nodes ht'))\<lparr>hn_key := []\<rparr>]\<rparr>
               else ht')
   }"

section \<open>The invariant and the abstract map\<close>

definition ht_wf :: "(64 word \<Rightarrow> 'k \<Rightarrow> nat) \<Rightarrow> ('k, 'v) opal_hash_table_t \<Rightarrow> bool" where
  "ht_wf hash ht \<longleftrightarrow> (\<exists>n t. n \<le> 30 \<and> ht_table ht = Some t \<and> length t = 2 ^ n \<and> ht_table_size ht = 2 ^ n
     \<and> ht_mask ht = 2 ^ n - 1 \<and> ht_size ht = int (length (concat t))
     \<and> (\<forall>i < 2 ^ n. distinct (map hn_key (t ! i)) \<and> (\<forall>nd \<in> set (t ! i). hash (ht_mask ht) (hn_key nd) = i)))"

definition node_pair :: "('k, 'v) hash_node_t \<Rightarrow> 'k \<times> 'v" where
  "node_pair nd = (hn_key nd, hn_value nd)"

definition bucket :: "(64 word \<Rightarrow> 'k \<Rightarrow> nat) \<Rightarrow> ('k, 'v) opal_hash_table_t \<Rightarrow> 'k \<Rightarrow> ('k, 'v) hash_node_t list" where
  "bucket hash ht k =
     (case ht_table ht of None \<Rightarrow> [] | Some t \<Rightarrow> if hash (ht_mask ht) k < length t then t ! hash (ht_mask ht) k else [])"

definition ht_map :: "(64 word \<Rightarrow> 'k \<Rightarrow> nat) \<Rightarrow> ('k, 'v) opal_hash_table_t \<Rightarrow> 'k \<Rightarrow> 'v option" where
  "ht_map hash ht k = map_of (map node_pair (bucket hash ht k)) k"

lemma node_pair_sel [simp]: "fst (node_pair nd) = hn_key nd" "snd (node_pair nd) = hn_value nd"
  by (simp_all add: node_pair_def)

lemma find_node_None: "find_node k ns = None \<longleftrightarrow> k \<notin> hn_key ` set ns"
  by (induction ns) auto

lemma find_node_Some:
  "find_node k ns = Some j \<Longrightarrow> j < length ns \<and> hn_key (ns ! j) = k \<and> (\<forall>i < j. hn_key (ns ! i) \<noteq> k)"
proof (induction ns arbitrary: j)
  case (Cons n ns)
  show ?case
  proof (cases "hn_key n = k")
    case False
    with Cons.prems obtain i where "j = Suc i" "find_node k ns = Some i" by auto
    with Cons.IH False show ?thesis by (metis less_Suc_eq_0_disj nth_Cons_0 nth_Cons_Suc length_Cons Suc_mono)
  qed (use Cons.prems in simp)
qed simp

lemma find_node_map_of:
  "map_of (map node_pair ns) k = map_option (\<lambda>j. hn_value (ns ! j)) (find_node k ns)"
  by (induction ns) (auto simp: option.map_comp comp_def)

lemma map_of_node_snoc:
  "k \<notin> hn_key ` set ns \<Longrightarrow>
     map_of (map node_pair (ns @ [\<lparr>hn_key = k, hn_value = v\<rparr>])) = (map_of (map node_pair ns))(k \<mapsto> v)"
  by (induction ns) (auto simp: fun_eq_iff)

lemma map_of_node_update:
  "find_node k ns = Some j \<Longrightarrow>
     map_of (map node_pair (ns[j := (ns ! j)\<lparr>hn_value := v\<rparr>])) = (map_of (map node_pair ns))(k \<mapsto> v)"
  by (induction ns arbitrary: j) (auto simp: fun_eq_iff split: if_splits)

lemma map_of_node_remove:
  "find_node k ns = Some j \<Longrightarrow> distinct (map hn_key ns) \<Longrightarrow>
     map_of (map node_pair (take j ns @ drop (Suc j) ns)) = (map_of (map node_pair ns))(k := None)"
proof (induction ns arbitrary: j)
  case (Cons n ns)
  show ?case
  proof (cases "hn_key n = k")
    case True
    with Cons.prems have "j = 0" "map_of (map node_pair ns) k = None"
      by (auto simp: find_node_map_of find_node_None)
    with True show ?thesis by (auto simp: fun_eq_iff)
  next
    case False
    with Cons.prems obtain i where "j = Suc i" "find_node k ns = Some i" by auto
    with False Cons show ?thesis by (auto simp: fun_eq_iff)
  qed
qed simp

lemma map_hn_key_update [simp]: "map hn_key (ns[j := (ns ! j)\<lparr>hn_value := v\<rparr>]) = map hn_key ns"
  by (cases "j < length ns") (auto simp: map_update list_update_same_conv list_update_beyond)

text \<open>The capacity is the next power of two strictly above the requested size.\<close>

lemma next_poweroftwo_correct:
  assumes "v < 2 ^ 30"
  shows "\<exists>n. opal_next_poweroftwo (int v) = Some (2 ^ n) \<and> v < 2 ^ n \<and> n \<le> 30"
  using next_poweroftwo_eq [OF assms] bl_bounds [of v] bl_mono_power [OF assms] by blast

section \<open>Correctness of the operations, for any hash into the table\<close>

lemma length_concat_update:
  "i < length t \<Longrightarrow> int (length (concat (t[i := l]))) = int (length (concat t)) - int (length (t ! i)) + int (length l)"
  by (subst (2) id_take_nth_drop [of i t], simp, subst upd_conv_take_nth_drop) simp_all

text \<open>Updates in a row, as a caller makes them; \<^const>\<open>None\<close> when one faults or is refused.\<close>

datatype ('k, 'v) ht_op = SetValue 'k 'v | RemoveValue 'k

fun ht_run ::
  "('s \<Rightarrow> 'k \<Rightarrow> 'v \<Rightarrow> (int \<times> 's) option) \<Rightarrow> ('s \<Rightarrow> 'k \<Rightarrow> (int \<times> 's) option) \<Rightarrow> ('k, 'v) ht_op list \<Rightarrow> 's \<Rightarrow> 's option" where
  "ht_run put rem [] s = Some s"
| "ht_run put rem (SetValue k v # ops) s =
     (case put s k v of Some (rc, s') \<Rightarrow> if rc = OPAL_SUCCESS then ht_run put rem ops s' else None | None \<Rightarrow> None)"
| "ht_run put rem (RemoveValue k # ops) s =
     (case rem s k of Some (rc, s') \<Rightarrow> ht_run put rem ops s' | None \<Rightarrow> None)"

fun map_run :: "('k, 'v) ht_op list \<Rightarrow> ('k \<Rightarrow> 'v option) \<Rightarrow> ('k \<Rightarrow> 'v option)" where
  "map_run [] m = m"
| "map_run (SetValue k v # ops) m = map_run ops (m(k \<mapsto> v))"
| "map_run (RemoveValue k # ops) m = map_run ops (m(k := None))"

lemma ofold_aset_const:
  "length ys = n \<Longrightarrow> ofold (\<lambda>i a. aset a (int i) v) [0..<n] ys = Some (replicate n v)"
proof -
  assume len: "length ys = n"
  have "\<exists>a. ofold (\<lambda>i a. aset a (int i) v) [0..<n] ys = Some a \<and> length a = n \<and> (\<forall>k < n. a ! k = v)"
    by (rule ofold_upt_inv [where P = "\<lambda>m a. length a = n \<and> (\<forall>k < m. a ! k = v)"])
      (use len in \<open>auto simp: nth_list_update less_Suc_eq\<close>)
  then obtain a where a: "ofold (\<lambda>i a. aset a (int i) v) [0..<n] ys = Some a" "length a = n" "\<forall>k < n. a ! k = v" by blast
  from a(2,3) have "a = replicate n v" by (intro nth_equalityI) simp_all
  with a(1) show ?thesis by simp
qed

lemma unat_and_mask_less: "unat (w AND (2 ^ n - 1)) < 2 ^ n" for w :: "'a::len word"
  by (simp flip: mask_eq_exp_minus_1 take_bit_eq_mask add: unsigned_take_bit_eq)

text \<open>The loop of a caller that visits all entries; it gives up when the fuel runs out.\<close>

fun visit :: "(nat \<times> nat \<Rightarrow> ('k \<times> 'v \<times> (nat \<times> nat)) option option) \<Rightarrow> nat
    \<Rightarrow> ('k \<times> 'v \<times> (nat \<times> nat)) option option \<Rightarrow> ('k \<times> 'v) list option" where
  "visit next 0 r = None"
| "visit next (Suc fuel) r =
     (case r of None \<Rightarrow> None | Some None \<Rightarrow> Some []
      | Some (Some (k, v, nd)) \<Rightarrow> map_option (\<lambda>es. (k, v) # es) (visit next fuel (next nd)))"

lemma concat_drop_skip:
  "i \<le> m \<Longrightarrow> m \<le> length t \<Longrightarrow> \<forall>k. i \<le> k \<and> k < m \<longrightarrow> t ! k = [] \<Longrightarrow> concat (drop i t) = concat (drop m t)"
proof (induction "m - i" arbitrary: i)
  case (Suc d)
  then have "concat (drop (Suc i) t) = concat (drop m t)" by simp
  moreover have "i < length t" "t ! i = []" using Suc.prems Suc.hyps(2) by simp_all
  ultimately show ?case by (simp add: Cons_nth_drop_Suc [symmetric])
qed simp

lemma distinct_concat_buckets:
  "\<forall>i < length t. distinct (map hn_key (t ! i)) \<and> (\<forall>nd \<in> set (t ! i). h (hn_key nd) = off + i) \<Longrightarrow>
     distinct (map hn_key (concat t)) \<and> (\<forall>nd \<in> set (concat t). off \<le> h (hn_key nd))"
proof (induction t arbitrary: off)
  case (Cons l t)
  have "\<forall>i < length t. distinct (map hn_key (t ! i)) \<and> (\<forall>nd \<in> set (t ! i). h (hn_key nd) = Suc off + i)"
    using Cons.prems by auto
  from Cons.IH [OF this] have t: "distinct (map hn_key (concat t))" "\<forall>nd \<in> set (concat t). Suc off \<le> h (hn_key nd)" by auto
  have l: "distinct (map hn_key l)" "\<forall>nd \<in> set l. h (hn_key nd) = off" using Cons.prems by auto
  have "hn_key x \<noteq> hn_key y" if "x \<in> set l" "y \<in> set (concat t)" for x y
    using that l(2) t(2) by (metis Suc_n_not_le_n)
  then have "hn_key ` set l \<inter> hn_key ` set (concat t) = {}" by blast
  with t l show ?case by (auto simp: Suc_le_eq less_imp_le simp del: set_concat)
qed simp

locale hash_function =
  fixes hash :: "64 word \<Rightarrow> 'k \<Rightarrow> nat"
  assumes hash_range: "n \<le> 30 \<Longrightarrow> hash (2 ^ n - 1) k < 2 ^ n"
begin

lemma ht_wfE:
  assumes "ht_wf hash ht"
  obtains t where "ht_table ht = Some t" "ht_table_size ht = length t" "\<And>k. hash (ht_mask ht) k < length t"
    "\<And>k. bucket hash ht k = t ! hash (ht_mask ht) k" "ht_size ht = int (length (concat t))"
    "\<And>i. i < length t \<Longrightarrow> distinct (map hn_key (t ! i))"
    "\<And>i nd. i < length t \<Longrightarrow> nd \<in> set (t ! i) \<Longrightarrow> hash (ht_mask ht) (hn_key nd) = i"
proof -
  from assms obtain n t where "n \<le> 30" "ht_table ht = Some t" "length t = 2 ^ n" "ht_table_size ht = 2 ^ n"
      "ht_mask ht = 2 ^ n - 1" "ht_size ht = int (length (concat t))"
      "\<forall>i < 2 ^ n. distinct (map hn_key (t ! i)) \<and> (\<forall>nd \<in> set (t ! i). hash (ht_mask ht) (hn_key nd) = i)"
    unfolding ht_wf_def by blast
  with hash_range [of n] that [of t] show ?thesis by (simp add: bucket_def)
qed

text \<open>Replacing one list of the table.\<close>

lemma update_bucket:
  fixes ht ht' :: "('k, 'v) opal_hash_table_t"
  assumes "ht_wf hash ht" "ht_table ht = Some t" "i = hash (ht_mask ht) k"
    "ht_table ht' = Some (t[i := l])" "ht_table_size ht' = ht_table_size ht" "ht_mask ht' = ht_mask ht"
    "ht_size ht' = ht_size ht - int (length (t ! i)) + int (length l)"
    "distinct (map hn_key l)" "\<And>nd. nd \<in> set l \<Longrightarrow> hash (ht_mask ht) (hn_key nd) = i"
    "map_of (map node_pair l) = (map_of (map node_pair (t ! i)))(k := w)"
  shows "ht_wf hash ht' \<and> ht_map hash ht' = (ht_map hash ht)(k := w)"
proof
  from assms(1) obtain n where n: "n \<le> 30" "length t = 2 ^ n" "ht_table_size ht = 2 ^ n" "ht_mask ht = 2 ^ n - 1"
      "ht_size ht = int (length (concat t))"
      "\<forall>i < 2 ^ n. distinct (map hn_key (t ! i)) \<and> (\<forall>nd \<in> set (t ! i). hash (ht_mask ht) (hn_key nd) = i)"
    unfolding ht_wf_def assms(2) by auto
  have lt: "hash (ht_mask ht) k' < length t" for k' using hash_range [OF n(1)] n(2,4) by simp
  have size: "ht_size ht' = int (length (concat (t[i := l])))"
    using length_concat_update [of i t l] lt [of k] assms(3,7) n(5) by simp
  have lists: "distinct (map hn_key (t[i := l] ! j)) \<and> (\<forall>nd \<in> set (t[i := l] ! j). hash (ht_mask ht) (hn_key nd) = j)"
    if "j < 2 ^ n" for j
    using that n(2,6) assms(8,9) by (cases "j = i") auto
  show "ht_wf hash ht'"
    unfolding ht_wf_def using n(1-4) assms(4-6) size lists
    by (intro exI [of _ n] exI [of _ "t[i := l]"]) simp
  show "ht_map hash ht' = (ht_map hash ht)(k := w)"
  proof
    fix k'
    have "bucket hash ht' k' = (if hash (ht_mask ht) k' = i then l else t ! hash (ht_mask ht) k')"
      using lt [of k'] assms(4,6) by (auto simp: bucket_def)
    moreover have "bucket hash ht k' = t ! hash (ht_mask ht) k'" using lt [of k'] assms(2) by (simp add: bucket_def)
    ultimately show "ht_map hash ht' k' = ((ht_map hash ht)(k := w)) k'"
      using assms(3,10) by (auto simp: ht_map_def)
  qed
qed

lemma get_value_correct:
  assumes "ht_wf hash ht"
  shows "get_value hash ht k = Some (case ht_map hash ht k of
      Some v \<Rightarrow> (OPAL_SUCCESS, Some v) | None \<Rightarrow> (OPAL_ERR_NOT_FOUND, None))"
  using assms
proof (rule ht_wfE)
  fix t
  assume "ht_table ht = Some t" "\<And>k. hash (ht_mask ht) k < length t" "\<And>k. bucket hash ht k = t ! hash (ht_mask ht) k"
  then show ?thesis
    by (simp add: get_value_def ht_map_def find_node_map_of split: option.split)
qed

lemma set_value_correct:
  assumes wf: "ht_wf hash ht" and mem: "mem \<or> ht_nodes ht \<noteq> [] \<or> ht_map hash ht k \<noteq> None"
  shows "\<exists>ht'. set_value hash mem ht k v = Some (OPAL_SUCCESS, ht') \<and> ht_wf hash ht'
    \<and> ht_map hash ht' = (ht_map hash ht)(k \<mapsto> v)
    \<and> ht_size ht' = ht_size ht + (if ht_map hash ht k = None then 1 else 0)"
  using wf
proof (rule ht_wfE)
  fix t
  assume t: "ht_table ht = Some t" "\<And>k. hash (ht_mask ht) k < length t" "\<And>k. bucket hash ht k = t ! hash (ht_mask ht) k"
    "\<And>i. i < length t \<Longrightarrow> distinct (map hn_key (t ! i))"
    "\<And>i nd. i < length t \<Longrightarrow> nd \<in> set (t ! i) \<Longrightarrow> hash (ht_mask ht) (hn_key nd) = i"
  define i where "i = hash (ht_mask ht) k"
  have i: "i < length t" using t(2) by (simp add: i_def)
  have k_map: "ht_map hash ht k = map_option (\<lambda>j. hn_value (t ! i ! j)) (find_node k (t ! i))"
    by (simp add: ht_map_def t(3) i_def find_node_map_of)
  show ?thesis
  proof (cases "find_node k (t ! i)")
    case None
    let ?l = "t ! i @ [\<lparr>hn_key = k, hn_value = v\<rparr>]"
    let ?ht = "ht\<lparr>ht_nodes := tl (ht_nodes ht), ht_table := Some (t[i := ?l]), ht_size := ht_size ht + 1\<rparr>"
    have "k \<notin> hn_key ` set (t ! i)" using None by (simp add: find_node_None)
    then have "distinct (map hn_key ?l)" "map_of (map node_pair ?l) = (map_of (map node_pair (t ! i)))(k \<mapsto> v)"
      using t(4) [OF i] map_of_node_snoc [of k "t ! i" v] by auto
    then have "ht_wf hash ?ht \<and> ht_map hash ?ht = (ht_map hash ht)(k \<mapsto> v)"
      by (intro update_bucket [OF wf t(1) i_def, where l = ?l]) (use t(5) [OF i] i_def in auto)
    moreover have "set_value hash mem ht k v = Some (OPAL_SUCCESS, ?ht)"
      using None mem k_map t(1) i by (auto simp: set_value_def i_def [symmetric])
    ultimately show ?thesis using None k_map by simp
  next
    case (Some j)
    let ?l = "(t ! i)[j := (t ! i ! j)\<lparr>hn_value := v\<rparr>]"
    let ?ht = "ht\<lparr>ht_table := Some (t[i := ?l])\<rparr>"
    have "hn_key ` set ?l = hn_key ` set (t ! i)" by (metis list.set_map map_hn_key_update)
    then have "hash (ht_mask ht) (hn_key nd) = i" if "nd \<in> set ?l" for nd
      using that t(5) [OF i] by (metis (no_types, lifting) imageE imageI)
    then have "ht_wf hash ?ht \<and> ht_map hash ?ht = (ht_map hash ht)(k \<mapsto> v)"
      by (intro update_bucket [OF wf t(1) i_def, where l = ?l])
        (use t(4) [OF i] map_of_node_update [OF Some, of v] in auto)
    moreover have "set_value hash mem ht k v = Some (OPAL_SUCCESS, ?ht)"
      using Some t(1) i by (simp add: set_value_def i_def [symmetric])
    ultimately show ?thesis using Some k_map by simp
  qed
qed

lemma set_value_no_memory:
  assumes "ht_wf hash ht" "ht_nodes ht = []" "ht_map hash ht k = None"
  shows "set_value hash False ht k v = Some (OPAL_ERR_OUT_OF_RESOURCE, ht)"
  using assms(1)
proof (rule ht_wfE)
  fix t
  assume "ht_table ht = Some t" "\<And>k. hash (ht_mask ht) k < length t" "\<And>k. bucket hash ht k = t ! hash (ht_mask ht) k"
  with assms(2,3) show ?thesis by (simp add: set_value_def ht_map_def find_node_map_of)
qed

lemma remove_value_correct:
  assumes wf: "ht_wf hash ht"
  shows "\<exists>ht'. remove_value hash ht k
      = Some (if ht_map hash ht k = None then OPAL_ERR_NOT_FOUND else OPAL_SUCCESS, ht')
    \<and> ht_wf hash ht' \<and> ht_map hash ht' = (ht_map hash ht)(k := None)
    \<and> ht_size ht' = ht_size ht - (if ht_map hash ht k = None then 0 else 1)
    \<and> (ht_map hash ht k \<noteq> None \<longrightarrow> ht_nodes ht' \<noteq> [])"
  using wf
proof (rule ht_wfE)
  fix t
  assume t: "ht_table ht = Some t" "\<And>k. hash (ht_mask ht) k < length t" "\<And>k. bucket hash ht k = t ! hash (ht_mask ht) k"
    "\<And>i. i < length t \<Longrightarrow> distinct (map hn_key (t ! i))"
    "\<And>i nd. i < length t \<Longrightarrow> nd \<in> set (t ! i) \<Longrightarrow> hash (ht_mask ht) (hn_key nd) = i"
  define i where "i = hash (ht_mask ht) k"
  have i: "i < length t" using t(2) by (simp add: i_def)
  have k_map: "ht_map hash ht k = map_option (\<lambda>j. hn_value (t ! i ! j)) (find_node k (t ! i))"
    by (simp add: ht_map_def t(3) i_def find_node_map_of)
  show ?thesis
  proof (cases "find_node k (t ! i)")
    case None
    then have "remove_value hash ht k = Some (OPAL_ERR_NOT_FOUND, ht)"
      using t(1) i by (simp add: remove_value_def i_def [symmetric])
    moreover have none: "ht_map hash ht k = None" using k_map None by simp
    moreover have "(ht_map hash ht)(k := None) = ht_map hash ht" by (rule fun_upd_idem [of "ht_map hash ht" k, OF none])
    ultimately show ?thesis using wf by simp
  next
    case (Some j)
    let ?l = "take j (t ! i) @ drop (Suc j) (t ! i)"
    let ?ht = "ht\<lparr>ht_nodes := ht_nodes ht @ [t ! i ! j], ht_table := Some (t[i := ?l]), ht_size := ht_size ht - 1\<rparr>"
    have j: "j < length (t ! i)" using find_node_Some [OF Some] by simp
    have dist: "distinct (map hn_key ?l)"
      using t(4) [OF i] by (subst (asm) id_take_nth_drop [OF j]) auto
    have keys: "hash (ht_mask ht) (hn_key nd) = i" if "nd \<in> set ?l" for nd
      using that t(5) [OF i] by (auto dest: in_set_takeD in_set_dropD)
    have size: "ht_size ?ht = ht_size ht - int (length (t ! i)) + int (length ?l)" using j by simp
    have "ht_wf hash ?ht \<and> ht_map hash ?ht = (ht_map hash ht)(k := None)"
      by (rule update_bucket [OF wf t(1) i_def _ _ _ size dist keys map_of_node_remove [OF Some t(4) [OF i]]])
        simp_all
    moreover have "remove_value hash ht k = Some (OPAL_SUCCESS, ?ht)"
      using Some t(1) i by (simp add: remove_value_def i_def [symmetric])
    ultimately show ?thesis using Some k_map by simp
  qed
qed

lemma first_from_eq:
  "ht_table ht = Some t \<Longrightarrow> ht_table_size ht = length t \<Longrightarrow>
     first_from ht i = Some (map_option (\<lambda>k. (k, 0)) (find (\<lambda>k. t ! k \<noteq> []) [i..<length t]))"
  unfolding first_from_def
  by (subst ofind_total [where q = "\<lambda>k. t ! k \<noteq> []"]) (auto simp: aget_def)

lemma visit_correct:
  assumes t: "ht_table ht = Some t" "ht_table_size ht = length t"
    "\<And>i nd. i < length t \<Longrightarrow> nd \<in> set (t ! i) \<Longrightarrow> hash (ht_mask ht) (hn_key nd) = i"
  shows "(i < length t \<longrightarrow> j < length (t ! i) \<longrightarrow> length (drop j (t ! i) @ concat (drop (Suc i) t)) < fuel \<longrightarrow>
      visit (get_next_key hash ht) fuel (found ht (Some (i, j)))
        = Some (map node_pair (drop j (t ! i) @ concat (drop (Suc i) t))))
    \<and> (length (concat (drop i t)) < fuel \<longrightarrow>
      visit (get_next_key hash ht) fuel (first_from ht i \<bind> found ht) = Some (map node_pair (concat (drop i t))))"
proof (induction fuel arbitrary: i j)
  case 0
  then show ?case by simp
next
  case (Suc fuel)
  have node: "visit (get_next_key hash ht) (Suc fuel) (found ht (Some (i, j)))
      = Some (map node_pair (drop j (t ! i) @ concat (drop (Suc i) t)))"
    if i: "i < length t" "j < length (t ! i)" "length (drop j (t ! i) @ concat (drop (Suc i) t)) < Suc fuel" for i j
  proof -
    have nd: "node_at ht (i, j) = Some (t ! i ! j)" using t(1) i by (simp add: node_at_def)
    have dj: "drop j (t ! i) = t ! i ! j # drop (Suc j) (t ! i)" using i(2) by (simp add: Cons_nth_drop_Suc)
    have "visit (get_next_key hash ht) fuel (get_next_key hash ht (i, j))
        = Some (map node_pair (drop (Suc j) (t ! i) @ concat (drop (Suc i) t)))"
    proof (cases "Suc j < length (t ! i)")
      case True
      then have "get_next_key hash ht (i, j) = found ht (Some (i, Suc j))"
        using nd t(1) i(1) by (simp add: get_next_key_def)
      with Suc.IH [of i "Suc j"] True i dj show ?thesis by simp
    next
      case False
      then have "get_next_key hash ht (i, j) = (first_from ht (Suc i) \<bind> found ht)"
        using nd t(1,3) i by (simp add: get_next_key_def)
      with Suc.IH [of "Suc i" 0] False i dj show ?thesis by simp
    qed
    with nd dj show ?thesis by (simp add: found_def node_pair_def)
  qed
  have first: "visit (get_next_key hash ht) (Suc fuel) (first_from ht i \<bind> found ht) = Some (map node_pair (concat (drop i t)))"
    if len: "length (concat (drop i t)) < Suc fuel" for i
  proof (cases "find (\<lambda>k. t ! k \<noteq> []) [i..<length t]")
    case None
    then have "concat (drop i t) = []"
      by (cases "i < length t") (use concat_drop_skip [of i "length t" t] in \<open>auto simp: find_upt_None\<close>)
    with None show ?thesis by (simp add: first_from_eq [OF t(1,2)] found_def)
  next
    case (Some k)
    then have k: "i \<le> k" "k < length t" "t ! k \<noteq> []" "\<forall>l. i \<le> l \<and> l < k \<longrightarrow> t ! l = []"
      by (auto simp: find_upt_Some)
    have "concat (drop i t) = t ! k @ concat (drop (Suc k) t)"
      using concat_drop_skip [of i k t] k by (simp add: Cons_nth_drop_Suc [symmetric])
    with node [of k 0] k Some len show ?thesis by (simp add: first_from_eq [OF t(1,2)])
  qed
  from node [of i j] first [of i] show ?case by blast
qed

lemma iterate_correct:
  assumes "ht_wf hash ht"
  shows "\<exists>es. visit (get_next_key hash ht) (Suc (nat (ht_size ht))) (get_first_key ht) = Some es
    \<and> distinct (map fst es) \<and> map_of es = ht_map hash ht"
  using assms
proof (rule ht_wfE)
  fix t
  assume t: "ht_table ht = Some t" "ht_table_size ht = length t" "\<And>k. hash (ht_mask ht) k < length t"
    "\<And>k. bucket hash ht k = t ! hash (ht_mask ht) k" "ht_size ht = int (length (concat t))"
    "\<And>i. i < length t \<Longrightarrow> distinct (map hn_key (t ! i))"
    "\<And>i nd. i < length t \<Longrightarrow> nd \<in> set (t ! i) \<Longrightarrow> hash (ht_mask ht) (hn_key nd) = i"
  have "visit (get_next_key hash ht) (Suc (nat (ht_size ht))) (get_first_key ht) = Some (map node_pair (concat t))"
    using visit_correct [OF t(1,2,7), where i = 0 and fuel = "Suc (nat (ht_size ht))"] t(5)
    by (simp add: get_first_key_def)
  moreover have dist: "distinct (map fst (map node_pair (concat t)))"
    using distinct_concat_buckets [of t "hash (ht_mask ht)" 0] t(6,7) by (simp add: comp_def)
  moreover have "map_of (map node_pair (concat t)) = ht_map hash ht"
  proof
    fix k
    let ?h = "hash (ht_mask ht) k"
    have "nd \<in> set (concat t) \<longleftrightarrow> nd \<in> set (t ! ?h)" if "hn_key nd = k" for nd
    proof
      assume "nd \<in> set (concat t)"
      then obtain l where "l \<in> set t" "nd \<in> set l" by auto
      then obtain i where i: "i < length t" "nd \<in> set (t ! i)" by (auto simp: in_set_conv_nth [of _ t])
      from t(7) [OF this] i that show "nd \<in> set (t ! ?h)" by simp
    next
      assume "nd \<in> set (t ! ?h)"
      with nth_mem [OF t(3) [of k]] show "nd \<in> set (concat t)" by auto
    qed
    then have "(k, v) \<in> set (map node_pair (concat t)) \<longleftrightarrow> (k, v) \<in> set (map node_pair (t ! ?h))" for v
      unfolding set_map image_iff node_pair_def by (metis prod.inject)
    moreover have "distinct (map fst (map node_pair (t ! ?h)))" using t(6) [OF t(3)] by (simp add: comp_def)
    ultimately have "map_of (map node_pair (concat t)) k = Some v \<longleftrightarrow> map_of (map node_pair (t ! ?h)) k = Some v" for v
      using dist by (metis map_of_eq_Some_iff)
    then have "map_of (map node_pair (concat t)) k = map_of (map node_pair (t ! ?h)) k"
      by (metis not_None_eq)
    then show "map_of (map node_pair (concat t)) k = ht_map hash ht k" by (simp add: ht_map_def t(4))
  qed
  ultimately show ?thesis by blast
qed

lemma init_correct:
  assumes "sz < 2 ^ 30"
  shows "\<exists>ht. opal_hash_table_init (Some junk) opal_hash_table_construct sz = Some (OPAL_SUCCESS, ht)
    \<and> ht_wf hash ht \<and> ht_map hash ht = (\<lambda>k. None) \<and> sz < ht_table_size ht"
proof -
  obtain n where n: "opal_next_poweroftwo (int sz) = Some (2 ^ n)" "sz < 2 ^ n" "n \<le> 30"
    using next_poweroftwo_correct [OF assms] by blast
  let ?ht = "\<lparr>ht_nodes = [], ht_table = Some (replicate (2 ^ n) []), ht_table_size = 2 ^ n, ht_size = 0, ht_mask = 2 ^ n - 1\<rparr>"
  have "opal_hash_table_init (Some junk) opal_hash_table_construct sz = Some (OPAL_SUCCESS, ?ht)"
    using n(1) by (simp add: opal_hash_table_init_def opal_hash_table_construct_def ofold_aset_const nat_power_eq)
  moreover have "ht_wf hash ?ht"
    unfolding ht_wf_def using n(3) by (intro exI [of _ n] exI [of _ "replicate (2 ^ n) []"]) simp
  moreover have "ht_map hash ?ht = (\<lambda>k. None)" by (auto simp: ht_map_def bucket_def)
  ultimately show ?thesis using n(2) by (intro exI [of _ ?ht]) simp
qed

lemma remove_all_correct:
  assumes "ht_wf hash ht"
  shows "\<exists>ht'. opal_hash_table_remove_all ht = Some (OPAL_SUCCESS, ht') \<and> ht_wf hash ht' \<and> ht_map hash ht' = (\<lambda>k. None)"
proof -
  from assms obtain n t where n: "n \<le> 30" "ht_table ht = Some t" "length t = 2 ^ n" "ht_table_size ht = 2 ^ n" "ht_mask ht = 2 ^ n - 1"
    unfolding ht_wf_def by blast
  let ?ht = "ht\<lparr>ht_table := Some (replicate (2 ^ n) []), ht_nodes := [], ht_size := 0\<rparr>"
  have "opal_hash_table_remove_all ht = Some (OPAL_SUCCESS, ?ht)"
    using n by (simp add: opal_hash_table_remove_all_def ofold_aset_const)
  moreover have "ht_wf hash ?ht"
    unfolding ht_wf_def using n by (intro exI [of _ n] exI [of _ "replicate (2 ^ n) []"]) simp
  moreover have "ht_map hash ?ht = (\<lambda>k. None)" by (auto simp: ht_map_def bucket_def)
  ultimately show ?thesis by (intro exI [of _ ?ht]) simp
qed

lemma run_correct:
  "ht_wf hash ht \<Longrightarrow> \<exists>ht'. ht_run (set_value hash True) (remove_value hash) ops ht = Some ht' \<and> ht_wf hash ht'
     \<and> ht_map hash ht' = map_run ops (ht_map hash ht)"
proof (induction ops arbitrary: ht)
  case (Cons op ops)
  show ?case
  proof (cases op)
    case (SetValue k v)
    from set_value_correct [OF Cons.prems, of True k v] obtain ht1 where
      "set_value hash True ht k v = Some (OPAL_SUCCESS, ht1)" "ht_wf hash ht1" "ht_map hash ht1 = (ht_map hash ht)(k \<mapsto> v)" by auto
    note ht1 = this
    from Cons.IH [OF ht1(2)] obtain ht' where
      "ht_run (set_value hash True) (remove_value hash) ops ht1 = Some ht'" "ht_wf hash ht'"
      "ht_map hash ht' = map_run ops (ht_map hash ht1)" by blast
    moreover from this(3) have "ht_map hash ht' = map_run (op # ops) (ht_map hash ht)"
      by (simp only: SetValue map_run.simps ht1(3))
    ultimately show ?thesis using ht1(1) by (intro exI [of _ ht'] conjI) (simp_all only: SetValue ht_run.simps option.case prod.case simp_thms if_True)
  next
    case (RemoveValue k)
    from remove_value_correct [OF Cons.prems, of k] obtain rc ht1 where
      "remove_value hash ht k = Some (rc, ht1)" "ht_wf hash ht1" "ht_map hash ht1 = (ht_map hash ht)(k := None)" by auto
    note ht1 = this
    from Cons.IH [OF ht1(2)] obtain ht' where
      "ht_run (set_value hash True) (remove_value hash) ops ht1 = Some ht'" "ht_wf hash ht'"
      "ht_map hash ht' = map_run ops (ht_map hash ht1)" by blast
    moreover from this(3) have "ht_map hash ht' = map_run (op # ops) (ht_map hash ht)"
      by (simp only: RemoveValue map_run.simps ht1(3))
    ultimately show ?thesis using ht1(1) by (intro exI [of _ ht'] conjI) (simp_all only: RemoveValue ht_run.simps option.case prod.case simp_thms if_True)
  qed
qed simp

end

section \<open>The three hashes\<close>

interpretation u32: hash_function hash_uint32
  by unfold_locales (simp add: hash_uint32_def unat_and_mask_less)

interpretation u64: hash_function hash_uint64
  by unfold_locales (simp add: hash_uint64_def unat_and_mask_less)

interpretation bytes: hash_function hash_ptr
proof unfold_locales
  fix n k
  have "unat (ucast w :: 32 word) \<le> unat w" for w :: "64 word"
    by (simp add: unsigned_ucast_eq)
  then show "hash_ptr (2 ^ n - 1) k < 2 ^ n"
    unfolding hash_ptr_def opal_hash_value_def using unat_and_mask_less order_le_less_trans by blast
qed

lemma set_value_ptr_eq:
  assumes "keymem \<or> key = []"
  shows "opal_hash_table_set_value_ptr mem keymem ht key v = set_value hash_ptr mem ht key v"
  using assms by (cases "set_value hash_ptr mem ht key v") (auto simp: opal_hash_table_set_value_ptr_def)

lemma remove_value_ptr_correct:
  assumes "ht_wf hash_ptr ht"
  shows "\<exists>ht'. opal_hash_table_remove_value_ptr ht k
      = Some (if ht_map hash_ptr ht k = None then OPAL_ERR_NOT_FOUND else OPAL_SUCCESS, ht')
    \<and> ht_wf hash_ptr ht' \<and> ht_map hash_ptr ht' = (ht_map hash_ptr ht)(k := None)"
proof -
  obtain rc ht1 where ht1: "remove_value hash_ptr ht k = Some (rc, ht1)"
      "rc = (if ht_map hash_ptr ht k = None then OPAL_ERR_NOT_FOUND else OPAL_SUCCESS)"
      "ht_wf hash_ptr ht1" "ht_map hash_ptr ht1 = (ht_map hash_ptr ht)(k := None)"
    using bytes.remove_value_correct [OF assms, of k] by auto
  have spare: "ht_wf hash_ptr (ht1\<lparr>ht_nodes := ns\<rparr>)" "ht_map hash_ptr (ht1\<lparr>ht_nodes := ns\<rparr>) = ht_map hash_ptr ht1" for ns
    using ht1(3) by (auto simp: ht_wf_def ht_map_def bucket_def fun_eq_iff)
  with ht1 show ?thesis by (simp add: opal_hash_table_remove_value_ptr_def)
qed

section \<open>Properties\<close>

text \<open>C15: a new table with 32-bit keys behaves as a finite map: after any sequence of insertions,
  overwritings and removals, none of which faults, a lookup returns exactly the value last set for
  the key, or \<^verbatim>\<open>OPAL_ERR_NOT_FOUND\<close>.\<close>

theorem hash_table_uint32_is_map:
  assumes "sz < 2 ^ 30"
  shows "\<exists>ht ht'. opal_hash_table_init (Some junk) opal_hash_table_construct sz = Some (OPAL_SUCCESS, ht)
    \<and> ht_run (opal_hash_table_set_value_uint32 True) opal_hash_table_remove_value_uint32 ops ht = Some ht'
    \<and> (\<forall>k. opal_hash_table_get_value_uint32 ht' k = Some (case map_run ops (\<lambda>k. None) k of
          Some v \<Rightarrow> (OPAL_SUCCESS, Some v) | None \<Rightarrow> (OPAL_ERR_NOT_FOUND, None)))"
proof -
  obtain ht where ht: "opal_hash_table_init (Some junk) opal_hash_table_construct sz = Some (OPAL_SUCCESS, ht)"
      "ht_wf hash_uint32 ht" "ht_map hash_uint32 ht = (\<lambda>k. None)" using u32.init_correct [OF assms] by blast
  from u32.run_correct [OF ht(2), of ops] obtain ht' where
    "ht_run (set_value hash_uint32 True) (remove_value hash_uint32) ops ht = Some ht'" "ht_wf hash_uint32 ht'"
    "ht_map hash_uint32 ht' = map_run ops (\<lambda>k. None)" using ht(3) by auto
  with ht(1) u32.get_value_correct [of ht'] show ?thesis
    by (simp add: opal_hash_table_set_value_uint32_def opal_hash_table_remove_value_uint32_def
        opal_hash_table_get_value_uint32_def)
qed

theorem hash_table_uint32_is_map_witness:
  "\<exists>ht ht'. opal_hash_table_init (Some []) opal_hash_table_construct 5 = Some (OPAL_SUCCESS, ht)
    \<and> ht_run (opal_hash_table_set_value_uint32 True) opal_hash_table_remove_value_uint32
        [SetValue 3 ''a'', SetValue 11 ''b'', RemoveValue 3] ht = Some ht'
    \<and> opal_hash_table_get_value_uint32 ht' 11 = Some (OPAL_SUCCESS, Some ''b'')
    \<and> opal_hash_table_get_value_uint32 ht' 3 = Some (OPAL_ERR_NOT_FOUND, None)"
  using hash_table_uint32_is_map [of 5 "[]" "[SetValue 3 ''a'', SetValue 11 ''b'', RemoveValue 3]"] by fastforce

text \<open>C31: visiting a table with 64-bit keys through \<^verbatim>\<open>get_first_key\<close> and \<^verbatim>\<open>get_next_key\<close> ends after as many
  steps as there are entries, meets every key once and returns with it the value a lookup returns.\<close>

theorem hash_table_uint64_iteration:
  assumes "ht_wf hash_uint64 ht"
  shows "\<exists>es. visit (opal_hash_table_get_next_key_uint64 ht) (Suc (nat (ht_size ht))) (opal_hash_table_get_first_key_uint64 ht)
      = Some es \<and> distinct (map fst es)
    \<and> (\<forall>k v. (k, v) \<in> set es \<longleftrightarrow> opal_hash_table_get_value_uint64 ht k = Some (OPAL_SUCCESS, Some v))"
proof -
  obtain es where es: "visit (get_next_key hash_uint64 ht) (Suc (nat (ht_size ht))) (get_first_key ht) = Some es"
      "distinct (map fst es)" "map_of es = ht_map hash_uint64 ht" using u64.iterate_correct [OF assms] by blast
  have "(k, v) \<in> set es \<longleftrightarrow> opal_hash_table_get_value_uint64 ht k = Some (OPAL_SUCCESS, Some v)" for k v
    using map_of_eq_Some_iff [OF es(2), of k v] u64.get_value_correct [OF assms, of k] es(3)
    by (auto simp: opal_hash_table_get_value_uint64_def rc_defs split: option.splits)
  with es show ?thesis
    by (simp add: opal_hash_table_get_next_key_uint64_def opal_hash_table_get_first_key_uint64_def)
qed

theorem hash_table_uint64_iteration_witness:
  "\<exists>es. visit (opal_hash_table_get_next_key_uint64 \<lparr>ht_nodes = [], ht_table = Some [[\<lparr>hn_key = 4, hn_value = ''x''\<rparr>],
        [\<lparr>hn_key = 7, hn_value = ''y''\<rparr>]], ht_table_size = 2, ht_size = 2, ht_mask = 1\<rparr>) 3
      (opal_hash_table_get_first_key_uint64 \<lparr>ht_nodes = [], ht_table = Some [[\<lparr>hn_key = 4, hn_value = ''x''\<rparr>],
        [\<lparr>hn_key = 7, hn_value = ''y''\<rparr>]], ht_table_size = 2, ht_size = 2, ht_mask = 1\<rparr>) = Some es \<and> distinct (map fst es)"
proof -
  let ?t = "[[\<lparr>hn_key = 4, hn_value = ''x''\<rparr>], [\<lparr>hn_key = 7 :: 64 word, hn_value = ''y''\<rparr>]]"
  let ?ht = "\<lparr>ht_nodes = [], ht_table = Some ?t, ht_table_size = 2, ht_size = 2, ht_mask = 1 :: 64 word\<rparr>"
  have "ht_wf hash_uint64 ?ht"
    unfolding ht_wf_def
    by (intro exI [of _ 1] exI [of _ ?t]) (auto simp: less_2_cases_iff hash_uint64_def)
  from hash_table_uint64_iteration [OF this] show ?thesis by auto
qed

text \<open>With byte-string keys, setting a value and reading it back returns it, other keys keep theirs,
  and a removed key is no longer found; keys that share a hash value do not disturb each other.\<close>

lemma hash_table_bytes_set_get_remove:
  assumes "ht_wf hash_ptr ht"
  shows "\<exists>ht1 ht2. opal_hash_table_set_value_ptr True True ht k v = Some (OPAL_SUCCESS, ht1)
    \<and> opal_hash_table_get_value_ptr ht1 k = Some (OPAL_SUCCESS, Some v)
    \<and> (\<forall>k'. k' \<noteq> k \<longrightarrow> opal_hash_table_get_value_ptr ht1 k' = opal_hash_table_get_value_ptr ht k')
    \<and> opal_hash_table_remove_value_ptr ht1 k = Some (OPAL_SUCCESS, ht2)
    \<and> opal_hash_table_get_value_ptr ht2 k = Some (OPAL_ERR_NOT_FOUND, None)
    \<and> (\<forall>k'. k' \<noteq> k \<longrightarrow> opal_hash_table_get_value_ptr ht2 k' = opal_hash_table_get_value_ptr ht k')
    \<and> ht_wf hash_ptr ht2"
proof -
  obtain ht1 where ht1: "opal_hash_table_set_value_ptr True True ht k v = Some (OPAL_SUCCESS, ht1)" "ht_wf hash_ptr ht1"
      "ht_map hash_ptr ht1 = (ht_map hash_ptr ht)(k \<mapsto> v)"
    using bytes.set_value_correct [OF assms, of True k v] by (auto simp: set_value_ptr_eq)
  obtain ht2 where ht2: "opal_hash_table_remove_value_ptr ht1 k = Some (OPAL_SUCCESS, ht2)" "ht_wf hash_ptr ht2"
      "ht_map hash_ptr ht2 = (ht_map hash_ptr ht1)(k := None)"
    using remove_value_ptr_correct [OF ht1(2), of k] ht1(3) by auto
  show ?thesis
    using ht1 ht2 bytes.get_value_correct [OF assms] bytes.get_value_correct [OF ht1(2)] bytes.get_value_correct [OF ht2(2)]
    by (simp add: opal_hash_table_get_value_ptr_def)
qed

end
