(* ===== verification/Topo_Cart.thy ===== *)
theory Topo_Cart
  imports OMPI_Prelude
begin

text \<open>
  Cartesian process topologies, \<^verbatim>\<open>ompi/mca/topo/base/topo_base_cart_*.c\<close>: the functions behind
  \<^verbatim>\<open>MPI_Cart_coords\<close>, \<^verbatim>\<open>MPI_Cart_rank\<close>, \<^verbatim>\<open>MPI_Cart_shift\<close>, \<^verbatim>\<open>MPI_Cart_sub\<close>, \<^verbatim>\<open>MPI_Cart_map\<close>, \<^verbatim>\<open>MPI_Cart_get\<close>
  and \<^verbatim>\<open>MPI_Cart_create\<close>. A rank is the row-major number of a point of the grid. The reference is the
  mixed-radix representation \<open>rank_of\<close>, \<open>coords_of\<close>; the loops of the code are shown to compute it.

  A communicator is reduced to its size, the rank of the calling process in it, the processes of its
  local group and its topology. What the communicator layer answers (\<^verbatim>\<open>ompi_comm_split\<close>,
  \<^verbatim>\<open>ompi_comm_allocate\<close>, \<^verbatim>\<open>ompi_comm_enable\<close>) is an argument of the operations that call it.
\<close>

record mca_topo_base_comm_cart_t =
  cart_ndims :: int
  cart_dims :: "int list"
  cart_periods :: "int list"
  cart_coords :: "int list"

record 'p cart_communicator_t =
  cc_size :: int
  cc_rank :: int
  cc_procs :: "'p list"
  cc_cart :: mca_topo_base_comm_cart_t

section \<open>Operations\<close>

text \<open>The loop that splits a rank into coordinates, over the dimensions it visits; \<open>remprocs\<close> is the
  number of processes in a slice.\<close>

fun coords_loop :: "int list \<Rightarrow> int \<Rightarrow> int \<Rightarrow> int list option" where
  "coords_loop [] remprocs rank = Some []"
| "coords_loop (d # ds) remprocs rank =
     (if d = 0 \<or> remprocs sdiv d = 0 then None
      else map_option (\<lambda>cs. rank sdiv (remprocs sdiv d) # cs)
             (coords_loop ds (remprocs sdiv d) (rank smod (remprocs sdiv d))))"

text \<open>The result is what is written to the caller's array \<^verbatim>\<open>coords\<close>.\<close>

definition mca_topo_base_cart_coords :: "'p cart_communicator_t \<Rightarrow> int \<Rightarrow> int \<Rightarrow> int list option" where
  "mca_topo_base_cart_coords comm rank maxdims =
     coords_loop (take (nat (min (cart_ndims (cc_cart comm)) maxdims)) (cart_dims (cc_cart comm))) (cc_size comm) rank"

text \<open>The body of the loop of \<^verbatim>\<open>mca_topo_base_cart_rank\<close>, which runs from the last dimension to the first.\<close>

definition rank_step :: "int list \<Rightarrow> int list \<Rightarrow> nat \<Rightarrow> int \<times> int \<Rightarrow> (int \<times> int) option" where
  "rank_step dims coords i = (\<lambda>(prank, factor). do {
     dim \<leftarrow> aget dims (int i);
     ord \<leftarrow> aget coords (int i);
     ord \<leftarrow> (if ord < 0 \<or> ord \<ge> dim then
              if dim = 0 then None
              else let r = ord smod dim in Some (if r < 0 then r + dim else r)
            else Some ord);
     Some (prank + factor * ord, factor * dim)
   })"

definition mca_topo_base_cart_rank :: "'p cart_communicator_t \<Rightarrow> int list \<Rightarrow> int option" where
  "mca_topo_base_cart_rank comm coords =
     map_option fst
       (ofold (rank_step (cart_dims (cc_cart comm)) coords) (rev [0..<nat (cart_ndims (cc_cart comm))]) (0, 1))"

text \<open>The body of the loop of \<^verbatim>\<open>mca_topo_base_cart_shift\<close>: extent, period, ordinate, factor.\<close>

definition shift_step ::
  "int list \<Rightarrow> int list \<Rightarrow> nat \<Rightarrow> int \<times> int \<times> int \<times> int \<Rightarrow> (int \<times> int \<times> int \<times> int) option" where
  "shift_step dims periods i = (\<lambda>(thisdirection, thisperiod, ord, factor). do {
     thisdirection \<leftarrow> aget dims (int i);
     thisperiod \<leftarrow> aget periods (int i);
     if factor = 0 \<or> thisdirection = 0 then None
     else Some (thisdirection, thisperiod, ord smod factor, factor sdiv thisdirection)
   })"

text \<open>The rank at the ordinate \<open>neword\<close>, or \<^verbatim>\<open>MPI_PROC_NULL\<close> outside a dimension that is not periodic.\<close>

definition shifted_rank :: "int \<Rightarrow> int \<Rightarrow> int \<Rightarrow> int \<Rightarrow> int \<Rightarrow> int \<Rightarrow> int option" where
  "shifted_rank rank thisdirection thisperiod ord factor neword =
     (if (neword < 0 \<or> neword \<ge> thisdirection) \<and> thisperiod = 0 then Some MPI_PROC_NULL
      else if thisdirection = 0 then None
      else
        let r = neword smod thisdirection;
            r = (if r < 0 then r + thisdirection else r)
        in Some (rank + (r - ord) * factor))"

text \<open>The pair \<^verbatim>\<open>(rank_source, rank_dest)\<close>.\<close>

definition mca_topo_base_cart_shift :: "'p cart_communicator_t \<Rightarrow> int \<Rightarrow> int \<Rightarrow> (int \<times> int) option" where
  "mca_topo_base_cart_shift comm direction disp =
     (if disp = 0 then Some (cc_rank comm, cc_rank comm)
      else do {
        (thisdirection, thisperiod, ord, factor) \<leftarrow>
          ofold (shift_step (cart_dims (cc_cart comm)) (cart_periods (cc_cart comm)))
            [0..<nat (min (cart_ndims (cc_cart comm)) (direction + 1))] (0, 0, cc_rank comm, cc_size comm);
        if factor = 0 then None
        else do {
          let ord = ord sdiv factor;
          dest \<leftarrow> shifted_rank (cc_rank comm) thisdirection thisperiod ord factor (ord + disp);
          source \<leftarrow> shifted_rank (cc_rank comm) thisdirection thisperiod ord factor (ord - disp);
          Some (source, dest)
        }
      })"

text \<open>The colour and key of \<^verbatim>\<open>mca_topo_base_cart_sub\<close>: colour, key, colfactor, keyfactor, ndim.\<close>

definition sub_step ::
  "int list \<Rightarrow> int list \<Rightarrow> int list \<Rightarrow> nat \<Rightarrow> int \<times> int \<times> int \<times> int \<times> int \<Rightarrow> (int \<times> int \<times> int \<times> int \<times> int) option" where
  "sub_step dims coords remain_dims i = (\<lambda>(colour, key, colfactor, keyfactor, ndim). do {
     dim \<leftarrow> aget dims (int i);
     c \<leftarrow> aget coords (int i);
     r \<leftarrow> aget remain_dims (int i);
     Some (if r = 0 then (colour + colfactor * c, key, colfactor * dim, keyfactor, ndim)
           else (colour, key + keyfactor * c, colfactor, keyfactor * dim, ndim + 1))
   })"

definition cart_sub_colour_key ::
  "'p cart_communicator_t \<Rightarrow> int list \<Rightarrow> (int \<times> int \<times> int) option" where
  "cart_sub_colour_key comm remain_dims = do {
     (colour, key, _, _, ndim) \<leftarrow>
       ofold (sub_step (cart_dims (cc_cart comm)) (cart_coords (cc_cart comm)) remain_dims)
         (rev [0..<nat (cart_ndims (cc_cart comm))]) (0, 0, 1, 1, 0);
     Some (if ndim = 0 then cc_rank comm else colour, key, ndim)
   }"

text \<open>The whole function. \<open>split\<close> stands for \<^verbatim>\<open>ompi_comm_split\<close>: an error code, or the size of the new
  communicator, the caller's rank in it and its processes. \<open>select_ok\<close> says whether
  \<^verbatim>\<open>mca_topo_base_comm_select\<close> succeeds, \<open>mem\<close> whether the two tested allocations do.\<close>

definition mca_topo_base_cart_sub ::
  "(int \<Rightarrow> int \<Rightarrow> int + int \<times> int \<times> 'p list) \<Rightarrow> bool \<Rightarrow> bool \<Rightarrow> 'p cart_communicator_t \<Rightarrow> int list
     \<Rightarrow> (int + 'p cart_communicator_t) option" where
  "mca_topo_base_cart_sub split select_ok mem comm remain_dims = do {
     (colour, key, ndim) \<leftarrow> cart_sub_colour_key comm remain_dims;
     case split colour key of
       Inl errcode \<Rightarrow> Some (Inl errcode)
     | Inr (nprocs, rank, procs) \<Rightarrow>
         if \<not> select_ok \<or> \<not> mem then Some (Inl OPAL_ERR_OUT_OF_RESOURCE)
         else do {
           let kept = filter (\<lambda>i. remain_dims ! i \<noteq> 0) [0..<nat (cart_ndims (cc_cart comm))];
           let dims = map (\<lambda>i. cart_dims (cc_cart comm) ! i) kept;
           let periods = map (\<lambda>i. cart_periods (cc_cart comm) ! i) kept;
           coords \<leftarrow> coords_loop dims nprocs rank;
           Some (Inr \<lparr>cc_size = nprocs, cc_rank = rank, cc_procs = procs,
             cc_cart = \<lparr>cart_ndims = ndim, cart_dims = dims, cart_periods = periods, cart_coords = coords\<rparr>\<rparr>)
         }
   }"

text \<open>The product of the dimensions, as \<^verbatim>\<open>mca_topo_base_cart_map\<close> and \<^verbatim>\<open>mca_topo_base_cart_create\<close> compute it:
  \<^term>\<open>Inl ()\<close> at a dimension that is not positive; \<^const>\<open>None\<close> when the product overflows an \<^verbatim>\<open>int\<close>.\<close>

fun grid_size :: "int list \<Rightarrow> int \<Rightarrow> (unit + int) option" where
  "grid_size [] nprocs = Some (Inr nprocs)"
| "grid_size (p # ps) nprocs =
     (if p \<le> 0 then Some (Inl ())
      else if nprocs * p > INT_MAX then None
      else grid_size ps (nprocs * p))"

text \<open>The return code and \<^verbatim>\<open>newrank\<close>, when it is written.\<close>

definition mca_topo_base_cart_map ::
  "'p cart_communicator_t \<Rightarrow> int \<Rightarrow> int list \<Rightarrow> (int \<times> int option) option" where
  "mca_topo_base_cart_map comm ndims dims =
     (case grid_size (take (nat ndims) dims) 1 of
        None \<Rightarrow> None
      | Some (Inl ()) \<Rightarrow> Some (MPI_ERR_DIMS, None)
      | Some (Inr nprocs) \<Rightarrow>
          if nprocs > cc_size comm then Some (MPI_ERR_DIMS, None)
          else Some (MPI_SUCCESS,
            Some (if cc_rank comm < 0 \<or> cc_rank comm \<ge> nprocs then MPI_UNDEFINED else cc_rank comm)))"

text \<open>What is copied to the caller's three arrays.\<close>

definition mca_topo_base_cart_get ::
  "'p cart_communicator_t \<Rightarrow> int \<Rightarrow> int list \<times> int list \<times> int list" where
  "mca_topo_base_cart_get comm maxdims =
     (let m = nat (if maxdims \<le> cart_ndims (cc_cart comm) then maxdims else cart_ndims (cc_cart comm))
      in (take m (cart_dims (cc_cart comm)), take m (cart_periods (cc_cart comm)), take m (cart_coords (cc_cart comm))))"

text \<open>Creation. \<open>mem\<close> has the answers of the four allocations (topology, dimensions, periods,
  coordinates), \<open>allocated\<close> and \<open>enable\<close> those of \<^verbatim>\<open>ompi_comm_allocate\<close> and \<^verbatim>\<open>ompi_comm_enable\<close>. When the first
  allocation fails the code frees a communicator variable that was never set.
  The result \<^term>\<open>Inr None\<close> is \<^verbatim>\<open>MPI_COMM_NULL\<close>.\<close>

definition mca_topo_base_cart_create ::
  "bool \<times> bool \<times> bool \<times> bool \<Rightarrow> bool \<Rightarrow> int \<Rightarrow> 'p list \<Rightarrow> int \<Rightarrow> int list \<Rightarrow> int list
     \<Rightarrow> (int + 'p cart_communicator_t option) option" where
  "mca_topo_base_cart_create = (\<lambda>(mem_cart, mem_dims, mem_periods, mem_coords) allocated enable procs my_rank dims periods.
     (case grid_size dims 1 of
        None \<Rightarrow> None
      | Some (Inl ()) \<Rightarrow> Some (Inl OPAL_ERROR)
      | Some (Inr nprocs) \<Rightarrow>
          if int (length procs) < nprocs then Some (Inl MPI_ERR_DIMS)
          else
            let out = (my_rank > nprocs - 1);
                num_procs = (if out then 0 else min nprocs (int (length procs)));
                dims = (if out then [] else dims);
                periods = (if out then [] else take (length dims) periods);
                new_rank = (if out then MPI_UNDEFINED else my_rank)
            in if \<not> mem_cart then None
               else if dims \<noteq> [] \<and> \<not> mem_dims then Some (Inl OPAL_ERROR)
               else if dims \<noteq> [] \<and> (\<not> mem_periods \<or> \<not> mem_coords) then Some (Inl OPAL_ERR_OUT_OF_RESOURCE)
               else do {
                 coords \<leftarrow> coords_loop dims num_procs new_rank;
                 if \<not> allocated then Some (Inl MPI_ERR_INTERN)
                 else if enable \<noteq> OPAL_SUCCESS then Some (Inl enable)
                 else if new_rank = MPI_UNDEFINED then Some (Inr None)
                 else Some (Inr (Some \<lparr>cc_size = num_procs, cc_rank = new_rank, cc_procs = take (nat num_procs) procs,
                   cc_cart = \<lparr>cart_ndims = int (length dims), cart_dims = dims, cart_periods = periods, cart_coords = coords\<rparr>\<rparr>))
               }))"

section \<open>Mixed-radix numbers\<close>

fun rank_of :: "int list \<Rightarrow> int list \<Rightarrow> int" where
  "rank_of (d # ds) (c # cs) = c * prod_list ds + rank_of ds cs"
| "rank_of _ _ = 0"

fun coords_of :: "int list \<Rightarrow> int \<Rightarrow> int list" where
  "coords_of [] r = []"
| "coords_of (d # ds) r = (r div prod_list ds) # coords_of ds (r mod prod_list ds)"

definition in_grid :: "int list \<Rightarrow> int list \<Rightarrow> bool" where
  "in_grid dims cs \<longleftrightarrow> list_all2 (\<lambda>d c. 0 \<le> c \<and> c < d) dims cs"

definition pos_dims :: "int list \<Rightarrow> bool" where
  "pos_dims dims \<longleftrightarrow> (\<forall>d \<in> set dims. 0 < d)"

lemma in_grid_simps [simp]:
  "in_grid [] cs \<longleftrightarrow> cs = []" "in_grid ds [] \<longleftrightarrow> ds = []"
  "in_grid (d # ds) (c # cs) \<longleftrightarrow> 0 \<le> c \<and> c < d \<and> in_grid ds cs"
  by (auto simp: in_grid_def)

lemma pos_dims_simps [simp]: "pos_dims []" "pos_dims (d # ds) \<longleftrightarrow> 0 < d \<and> pos_dims ds"
  by (auto simp: pos_dims_def)

lemma in_grid_length: "in_grid dims cs \<Longrightarrow> length cs = length dims"
  by (auto simp: in_grid_def dest: list_all2_lengthD)

lemma prod_dims_pos: "pos_dims ds \<Longrightarrow> 0 < prod_list ds"
  by (induction ds) auto

lemma rank_of_bounds: "in_grid ds cs \<Longrightarrow> 0 \<le> rank_of ds cs \<and> rank_of ds cs < prod_list ds"
proof (induction ds cs rule: rank_of.induct)
  case (1 d ds c cs)
  then have IH: "0 \<le> rank_of ds cs" "rank_of ds cs < prod_list ds" by auto
  have "c * prod_list ds + rank_of ds cs < (c + 1) * prod_list ds" using IH by (simp add: algebra_simps)
  also have "\<dots> \<le> d * prod_list ds" using 1 IH by (intro mult_right_mono) auto
  finally show ?case using 1 IH by simp
qed auto

lemma coords_of_rank_of: "in_grid ds cs \<Longrightarrow> coords_of ds (rank_of ds cs) = cs"
proof (induction ds cs rule: rank_of.induct)
  case (1 d ds c cs)
  then have "0 \<le> rank_of ds cs" "rank_of ds cs < prod_list ds" using rank_of_bounds [of ds cs] by auto
  with 1 show ?case by simp
qed auto

lemma coords_of_in_grid:
  "pos_dims ds \<Longrightarrow> 0 \<le> r \<Longrightarrow> r < prod_list ds \<Longrightarrow> in_grid ds (coords_of ds r) \<and> rank_of ds (coords_of ds r) = r"
proof (induction ds arbitrary: r)
  case (Cons d ds)
  let ?p = "prod_list ds"
  have p: "0 < ?p" using Cons.prems by (simp add: prod_dims_pos)
  have "r div ?p < d"
  proof (rule ccontr)
    assume "\<not> r div ?p < d"
    then have "d * ?p \<le> r div ?p * ?p" using p by (intro mult_right_mono) auto
    also have "\<dots> \<le> r" using p by (simp add: minus_mod_eq_div_mult [symmetric])
    finally show False using Cons.prems by simp
  qed
  moreover have "0 \<le> r div ?p" using Cons.prems p by (simp add: pos_imp_zdiv_nonneg_iff)
  moreover have "in_grid ds (coords_of ds (r mod ?p)) \<and> rank_of ds (coords_of ds (r mod ?p)) = r mod ?p"
    using Cons p by simp
  ultimately show ?case by simp
qed simp

lemma rank_of_inj: "in_grid ds a \<Longrightarrow> in_grid ds b \<Longrightarrow> rank_of ds a = rank_of ds b \<Longrightarrow> a = b"
  using coords_of_rank_of by metis

text \<open>One coordinate of a rank, and the rank after one coordinate was replaced.\<close>

lemma coords_of_length [simp]: "length (coords_of ds r) = length ds"
  by (induction ds arbitrary: r) auto

lemma prod_list_drop_dvd: "j \<le> i \<Longrightarrow> prod_list (drop i ds) dvd prod_list (drop j ds)" for ds :: "int list"
proof -
  assume "j \<le> i"
  then have "drop j ds = take (i - j) (drop j ds) @ drop i ds" by (metis append_take_drop_id drop_drop le_add_diff_inverse2)
  then show ?thesis by (metis dvd_triv_right prod_list.append)
qed

lemma coords_of_nth:
  "pos_dims ds \<Longrightarrow> 0 \<le> r \<Longrightarrow> r < prod_list ds \<Longrightarrow> k < length ds \<Longrightarrow>
     coords_of ds r ! k = (r mod prod_list (drop k ds)) div prod_list (drop (Suc k) ds)"
proof (induction ds arbitrary: r k)
  case (Cons d ds)
  show ?case
  proof (cases k)
    case 0
    with Cons.prems show ?thesis by simp
  next
    case (Suc j)
    have "0 < prod_list ds" using Cons.prems by (simp add: prod_dims_pos)
    with Cons.IH [of "r mod prod_list ds" j] Cons.prems Suc
    have "coords_of ds (r mod prod_list ds) ! j = (r mod prod_list ds mod prod_list (drop j ds)) div prod_list (drop (Suc j) ds)"
      by simp
    moreover have "r mod prod_list ds mod prod_list (drop j ds) = r mod prod_list (drop j ds)"
      using prod_list_drop_dvd [of 0 j ds] by (simp add: mod_mod_cancel)
    ultimately show ?thesis using Suc by simp
  qed
qed simp

lemma rank_of_update:
  "length cs = length ds \<Longrightarrow> k < length ds \<Longrightarrow>
     rank_of ds (cs[k := c]) = rank_of ds cs + (c - cs ! k) * prod_list (drop (Suc k) ds)"
proof (induction ds cs arbitrary: k rule: rank_of.induct)
  case (1 d ds c' cs)
  then show ?case by (cases k) (auto simp: algebra_simps)
qed auto

lemma in_grid_update: "in_grid ds cs \<Longrightarrow> k < length ds \<Longrightarrow> 0 \<le> c \<Longrightarrow> c < ds ! k \<Longrightarrow> in_grid ds (cs[k := c])"
  by (auto simp: in_grid_def list_all2_conv_all_nth nth_list_update)

lemma in_grid_nth: "in_grid ds cs \<Longrightarrow> k < length ds \<Longrightarrow> 0 \<le> cs ! k \<and> cs ! k < ds ! k"
  by (simp add: in_grid_def list_all2_conv_all_nth)

section \<open>The loops compute mixed-radix numbers\<close>

text \<open>A communicator whose topology describes exactly its processes.\<close>

definition cart_wf :: "'p cart_communicator_t \<Rightarrow> bool" where
  "cart_wf comm \<longleftrightarrow> (let cart = cc_cart comm in
     cart_ndims cart = int (length (cart_dims cart)) \<and> length (cart_periods cart) = length (cart_dims cart)
     \<and> pos_dims (cart_dims cart) \<and> cc_size comm = prod_list (cart_dims cart)
     \<and> 0 \<le> cc_rank comm \<and> cc_rank comm < cc_size comm
     \<and> cart_coords cart = coords_of (cart_dims cart) (cc_rank comm))"

lemma coords_loop_take:
  "pos_dims ds \<Longrightarrow> 0 \<le> r \<Longrightarrow> m \<le> length ds \<Longrightarrow>
     coords_loop (take m ds) (prod_list ds) r = Some (take m (coords_of ds r))"
proof (induction ds arbitrary: m r)
  case (Cons d ds)
  show ?case
  proof (cases m)
    case (Suc j)
    have p: "0 < prod_list ds" "0 < d" using Cons.prems by (auto simp: prod_dims_pos)
    then have q: "(d * prod_list ds) sdiv d = prod_list ds" by (simp add: sdiv_nonneg)
    have "coords_loop (take j ds) (prod_list ds) (r mod prod_list ds) = Some (take j (coords_of ds (r mod prod_list ds)))"
      using Cons p Suc by simp
    with p q Suc Cons.prems show ?thesis by (simp add: sdiv_nonneg smod_nonneg)
  qed simp
qed simp

lemma coords_loop_all: "pos_dims ds \<Longrightarrow> 0 \<le> r \<Longrightarrow> coords_loop ds (prod_list ds) r = Some (coords_of ds r)"
  using coords_loop_take [of ds r "length ds"] by simp

lemma cart_coords_correct:
  assumes "cart_wf comm" "0 \<le> r" "maxdims \<ge> 0"
  shows "mca_topo_base_cart_coords comm r maxdims = Some (take (nat maxdims) (coords_of (cart_dims (cc_cart comm)) r))"
proof -
  let ?ds = "cart_dims (cc_cart comm)"
  have "nat (min (cart_ndims (cc_cart comm)) maxdims) = min (nat maxdims) (length ?ds)"
    using assms by (auto simp: cart_wf_def Let_def min_def)
  moreover have "coords_loop (take (min (nat maxdims) (length ?ds)) ?ds) (prod_list ?ds) r
      = Some (take (min (nat maxdims) (length ?ds)) (coords_of ?ds r))"
    using assms by (intro coords_loop_take) (auto simp: cart_wf_def Let_def)
  moreover have "take (min (nat maxdims) (length ?ds)) (coords_of ?ds r) = take (nat maxdims) (coords_of ?ds r)"
    by (auto simp: min_def)
  ultimately show ?thesis using assms(1) by (simp add: mca_topo_base_cart_coords_def cart_wf_def Let_def)
qed

text \<open>The normalisation of a coordinate is the remainder in the mathematical sense.\<close>

lemma smod_normalise:
  fixes x d :: int
  assumes "0 < d"
  shows "(if x smod d < 0 then x smod d + d else x smod d) = x mod d"
proof (cases "0 \<le> x")
  case True
  with assms have "x smod d = x mod d" by (simp add: smod_nonneg)
  moreover have "0 \<le> x mod d" using assms by simp
  ultimately show ?thesis by simp
next
  case False
  then have s: "x smod d = - ((- x) mod d)"
    using assms by (simp add: signed_modulo_int_def signed_divide_int_def minus_mult_div_eq_mod [symmetric] algebra_simps)
  show ?thesis
  proof (cases "(- x) mod d = 0")
    case True
    with s show ?thesis by (simp add: mod_eq_0_iff_dvd)
  next
    case nz: False
    then have "0 < (- x) mod d" using assms by (simp add: order_less_le)
    moreover have "x mod d = d - (- x) mod d" using zmod_zminus1_eq_if [of "- x" d] nz by simp
    ultimately show ?thesis using s by simp
  qed
qed

lemma rank_loop:
  assumes "pos_dims ds" "length cs = length ds" "m \<le> length ds"
  shows "ofold (rank_step ds cs) (rev [m..<length ds]) (0, 1)
    = Some (rank_of (drop m ds) (map2 (mod) (drop m cs) (drop m ds)), prod_list (drop m ds))"
  using assms(3)
proof (induction "length ds - m" arbitrary: m)
  case 0
  then show ?case using assms by simp
next
  case (Suc k)
  then have m: "m < length ds" by simp
  then have "ofold (rank_step ds cs) (rev [Suc m..<length ds]) (0, 1)
      = Some (rank_of (drop (Suc m) ds) (map2 (mod) (drop (Suc m) cs) (drop (Suc m) ds)), prod_list (drop (Suc m) ds))"
    using Suc by simp
  moreover have d: "0 < ds ! m" using assms(1) m by (simp add: pos_dims_def)
  moreover have "(if cs ! m < 0 \<or> ds ! m \<le> cs ! m then
        if ds ! m = 0 then None
        else let r = cs ! m smod ds ! m in Some (if r < 0 then r + ds ! m else r) else Some (cs ! m)) = Some (cs ! m mod ds ! m)"
    using d smod_normalise [OF d, of "cs ! m"] by (auto simp: Let_def)
  ultimately show ?case using m assms(2)
    by (simp add: upt_conv_Cons ofold_append rank_step_def Cons_nth_drop_Suc [symmetric] algebra_simps del: upt_Suc)
qed

lemma cart_rank_correct:
  assumes "cart_wf comm" "length cs = length (cart_dims (cc_cart comm))"
  shows "mca_topo_base_cart_rank comm cs
    = Some (rank_of (cart_dims (cc_cart comm)) (map2 (mod) cs (cart_dims (cc_cart comm))))"
  using rank_loop [of "cart_dims (cc_cart comm)" cs 0] assms
  by (simp add: mca_topo_base_cart_rank_def cart_wf_def Let_def)

lemma mod_in_grid: "pos_dims ds \<Longrightarrow> length cs = length ds \<Longrightarrow> in_grid ds (map2 (mod) cs ds)"
  by (auto simp: in_grid_def list_all2_conv_all_nth pos_dims_def)

lemma mod_id_in_grid: "in_grid ds cs \<Longrightarrow> map2 (mod) cs ds = cs"
  by (auto simp: in_grid_def list_all2_conv_all_nth intro!: nth_equalityI)

section \<open>Shifting along a dimension\<close>

lemma prod_list_drop: "k < length ds \<Longrightarrow> prod_list (drop k ds) = ds ! k * prod_list (drop (Suc k) ds)" for ds :: "int list"
  by (simp add: Cons_nth_drop_Suc [symmetric])

lemma pos_dims_drop: "pos_dims ds \<Longrightarrow> pos_dims (drop k ds)"
  by (auto simp: pos_dims_def dest: in_set_dropD)

lemma shift_loop:
  assumes ds: "pos_dims ds" "length ps = length ds" "0 \<le> r" "r < prod_list ds" and m: "m < length ds"
  shows "ofold (shift_step ds ps) [0..<Suc m] (0, 0, r, prod_list ds)
    = Some (ds ! m, ps ! m, r mod prod_list (drop m ds), prod_list (drop (Suc m) ds))"
proof -
  let ?P = "\<lambda>i (a, b, x, f). f = prod_list (drop i ds) \<and> 0 \<le> x \<and> x mod prod_list (drop i ds) = r mod prod_list (drop i ds)
    \<and> (0 < i \<longrightarrow> a = ds ! (i - 1) \<and> b = ps ! (i - 1) \<and> x = r mod prod_list (drop (i - 1) ds))"
  have pos: "0 < prod_list (drop i ds)" for i using ds(1) by (intro prod_dims_pos pos_dims_drop)
  have "\<exists>s. ofold (shift_step ds ps) [0..<Suc m] (0, 0, r, prod_list ds) = Some s \<and> ?P (Suc m) s"
  proof (rule ofold_upt_inv [where P = ?P])
    show "?P 0 (0, 0, r, prod_list ds)" using ds(3) by simp
    fix i and s :: "int \<times> int \<times> int \<times> int"
    assume i: "i < Suc m" and "?P i s"
    then obtain a b x f where s: "s = (a, b, x, f)" "f = prod_list (drop i ds)" "0 \<le> x"
      "x mod prod_list (drop i ds) = r mod prod_list (drop i ds)" by (cases s) auto
    have lt: "i < length ds" using i m by simp
    have d: "0 < ds ! i" using ds(1) lt by (simp add: pos_dims_def)
    have q: "prod_list (drop i ds) sdiv ds ! i = prod_list (drop (Suc i) ds)"
      using pos [of i] d prod_list_drop [OF lt] by (simp add: sdiv_nonneg)
    have "x smod prod_list (drop i ds) = r mod prod_list (drop i ds)" using s(3,4) pos [of i] by (simp add: smod_nonneg)
    then have "shift_step ds ps i s = Some (ds ! i, ps ! i, r mod prod_list (drop i ds), prod_list (drop (Suc i) ds))"
      using s lt ds(2) d pos [of i] q by (simp add: shift_step_def)
    moreover have "r mod prod_list (drop i ds) mod prod_list (drop (Suc i) ds) = r mod prod_list (drop (Suc i) ds)"
      using prod_list_drop_dvd [of i "Suc i" ds] by (simp add: mod_mod_cancel)
    ultimately show "\<exists>s'. shift_step ds ps i s = Some s' \<and> ?P (Suc i) s'" using pos [of i] by simp
  qed
  then show ?thesis by auto
qed

text \<open>The rank one reaches from rank \<open>r\<close> by a displacement along dimension \<open>k\<close>.\<close>

definition shift_target :: "int list \<Rightarrow> int list \<Rightarrow> int \<Rightarrow> nat \<Rightarrow> int \<Rightarrow> int" where
  "shift_target dims periods r k disp =
     (let c = coords_of dims r ! k + disp
      in if periods ! k = 0 \<and> (c < 0 \<or> dims ! k \<le> c) then MPI_PROC_NULL
         else rank_of dims ((coords_of dims r)[k := c mod dims ! k]))"

lemma shifted_rank_correct:
  assumes "pos_dims ds" "0 \<le> r" "r < prod_list ds" "k < length ds"
  shows "shifted_rank r (ds ! k) (ps ! k) (coords_of ds r ! k) (prod_list (drop (Suc k) ds)) (coords_of ds r ! k + disp)
    = Some (shift_target ds ps r k disp)"
proof -
  have d: "0 < ds ! k" using assms(1,4) by (simp add: pos_dims_def)
  have "rank_of ds ((coords_of ds r)[k := c]) = r + (c - coords_of ds r ! k) * prod_list (drop (Suc k) ds)" for c
    using coords_of_in_grid [OF assms(1-3)] assms(4) by (simp add: rank_of_update)
  with d smod_normalise [OF d] show ?thesis
    by (auto simp: shifted_rank_def shift_target_def Let_def)
qed

lemma cart_shift_correct:
  assumes "cart_wf comm" "k < length (cart_dims (cc_cart comm))" "disp \<noteq> 0"
  shows "mca_topo_base_cart_shift comm (int k) disp
    = Some (shift_target (cart_dims (cc_cart comm)) (cart_periods (cc_cart comm)) (cc_rank comm) k (- disp),
            shift_target (cart_dims (cc_cart comm)) (cart_periods (cc_cart comm)) (cc_rank comm) k disp)"
proof -
  let ?ds = "cart_dims (cc_cart comm)" and ?ps = "cart_periods (cc_cart comm)" and ?r = "cc_rank comm"
  have ds: "pos_dims ?ds" "length ?ps = length ?ds" "0 \<le> ?r" "?r < prod_list ?ds" "cc_size comm = prod_list ?ds"
      "cart_ndims (cc_cart comm) = int (length ?ds)"
    using assms(1) by (auto simp: cart_wf_def Let_def)
  have n: "nat (min (cart_ndims (cc_cart comm)) (int k + 1)) = Suc k" using assms(2) ds(6) by (simp add: min_def nat_add_distrib)
  have pos: "0 < prod_list (drop (Suc k) ?ds)" using ds(1) by (intro prod_dims_pos pos_dims_drop)
  have "0 \<le> ?r mod prod_list (drop k ?ds)"
    using prod_dims_pos [OF pos_dims_drop [OF ds(1), of k]] by simp
  then have ord: "(?r mod prod_list (drop k ?ds)) sdiv prod_list (drop (Suc k) ?ds) = coords_of ?ds ?r ! k"
    using coords_of_nth [OF ds(1,3,4) assms(2)] pos by (simp add: sdiv_nonneg)
  note sh = shifted_rank_correct [OF ds(1,3,4) assms(2), where ps = ?ps]
  show ?thesis
    using shift_loop [OF ds(1-4) assms(2)] pos ord sh [of disp] sh [of "- disp"] assms(3)
    by (simp add: mca_topo_base_cart_shift_def n ds(5) del: upt_Suc)
qed

lemma shift_target_inverse:
  assumes "pos_dims ds" "0 \<le> r" "r < prod_list ds" "k < length ds" "shift_target ds ps r k disp = t" "t \<noteq> MPI_PROC_NULL"
  shows "0 \<le> t" "t < prod_list ds" "shift_target ds ps t k (- disp) = r"
proof -
  let ?c = "coords_of ds r ! k"
  have d: "0 < ds ! k" using assms(1,4) by (simp add: pos_dims_def)
  have grid: "in_grid ds (coords_of ds r)" "rank_of ds (coords_of ds r) = r" using coords_of_in_grid [OF assms(1-3)] by auto
  then have c: "0 \<le> ?c" "?c < ds ! k" using in_grid_nth assms(4) by blast+
  have ok: "\<not> (ps ! k = 0 \<and> (?c + disp < 0 \<or> ds ! k \<le> ?c + disp))"
    and t: "t = rank_of ds ((coords_of ds r)[k := (?c + disp) mod ds ! k])"
    using assms(5,6) by (auto simp: shift_target_def Let_def split: if_splits)
  have grid': "in_grid ds ((coords_of ds r)[k := (?c + disp) mod ds ! k])"
    using grid(1) assms(4) d by (intro in_grid_update) auto
  then show "0 \<le> t" "t < prod_list ds" using rank_of_bounds t by auto
  have ct: "coords_of ds t = (coords_of ds r)[k := (?c + disp) mod ds ! k]" using coords_of_rank_of [OF grid'] t by simp
  have undo: "((?c + disp) mod ds ! k - disp) mod ds ! k = ?c" using c by (simp add: mod_diff_left_eq)
  have "(coords_of ds t)[k := ((?c + disp) mod ds ! k - disp) mod ds ! k] = coords_of ds r"
    unfolding undo by (simp add: ct)
  moreover have "coords_of ds t ! k = (?c + disp) mod ds ! k" using ct assms(4) by simp
  moreover have "ps ! k = 0 \<Longrightarrow> (?c + disp) mod ds ! k = ?c + disp" using ok by simp
  ultimately show "shift_target ds ps t k (- disp) = r"
    using c grid(2) by (auto simp: shift_target_def Let_def)
qed

section \<open>Sub-grids\<close>

text \<open>The entries of a list whose flag satisfies a predicate.\<close>

fun pick :: "(int \<Rightarrow> bool) \<Rightarrow> int list \<Rightarrow> 'a list \<Rightarrow> 'a list" where
  "pick p (r # rs) (x # xs) = (if p r then x # pick p rs xs else pick p rs xs)"
| "pick p _ _ = []"

abbreviation kept :: "int list \<Rightarrow> 'a list \<Rightarrow> 'a list" where
  "kept \<equiv> pick (\<lambda>r. r \<noteq> 0)"

abbreviation dropped :: "int list \<Rightarrow> 'a list \<Rightarrow> 'a list" where
  "dropped \<equiv> pick (\<lambda>r. r = 0)"

lemma pick_drop:
  "m < length rs \<Longrightarrow> m < length xs \<Longrightarrow>
     pick p (drop m rs) (drop m xs) = (if p (rs ! m) then [xs ! m] else []) @ pick p (drop (Suc m) rs) (drop (Suc m) xs)"
  by (simp add: Cons_nth_drop_Suc [symmetric])

lemma pick_filter:
  "length rs = length xs \<Longrightarrow> pick p rs xs = map (\<lambda>i. xs ! i) (filter (\<lambda>i. p (rs ! i)) [0..<length xs])"
proof (induction p rs xs rule: pick.induct)
  case (1 p r rs x xs)
  have "[0..<length (x # xs)] = 0 # map Suc [0..<length xs]" by (simp add: map_Suc_upt upt_conv_Cons del: upt_Suc)
  with 1 show ?case by (simp add: filter_map comp_def)
qed auto

lemma pick_in_grid: "in_grid ds cs \<Longrightarrow> in_grid (pick p rs ds) (pick p rs cs)"
proof (induction p rs ds arbitrary: cs rule: pick.induct)
  case (1 p r rs d ds)
  then show ?case by (cases cs) auto
qed (auto split: list.split)

lemma pick_pos_dims: "pos_dims ds \<Longrightarrow> pos_dims (pick p rs ds)"
  by (induction p rs ds rule: pick.induct) auto

lemma prod_kept_dropped:
  "length rs = length ds \<Longrightarrow> prod_list ds = prod_list (dropped rs ds) * prod_list (kept rs ds)" for ds :: "int list"
  by (induction "\<lambda>r::int. r = 0" rs ds rule: pick.induct) (auto simp: algebra_simps)

lemma pick_inject:
  "length xs = length rs \<Longrightarrow> length ys = length rs \<Longrightarrow> kept rs xs = kept rs ys \<Longrightarrow> dropped rs xs = dropped rs ys \<Longrightarrow> xs = ys"
proof (induction rs arbitrary: xs ys)
  case (Cons r rs)
  then obtain x xs' y ys' where "xs = x # xs'" "ys = y # ys'" by (cases xs; cases ys) auto
  with Cons show ?case by (auto split: if_splits)
qed simp

lemma sub_loop:
  assumes "length cs = length ds" "length rs = length ds" "m \<le> length ds"
  shows "ofold (sub_step ds cs rs) (rev [m..<length ds]) (0, 0, 1, 1, 0)
    = Some (rank_of (dropped (drop m rs) (drop m ds)) (dropped (drop m rs) (drop m cs)),
            rank_of (kept (drop m rs) (drop m ds)) (kept (drop m rs) (drop m cs)),
            prod_list (dropped (drop m rs) (drop m ds)), prod_list (kept (drop m rs) (drop m ds)),
            int (length (kept (drop m rs) (drop m ds))))"
  using assms(3)
proof (induction "length ds - m" arbitrary: m)
  case 0
  then show ?case using assms by simp
next
  case (Suc k)
  then have m: "m < length ds" by simp
  with Suc have "ofold (sub_step ds cs rs) (rev [Suc m..<length ds]) (0, 0, 1, 1, 0)
    = Some (rank_of (dropped (drop (Suc m) rs) (drop (Suc m) ds)) (dropped (drop (Suc m) rs) (drop (Suc m) cs)),
            rank_of (kept (drop (Suc m) rs) (drop (Suc m) ds)) (kept (drop (Suc m) rs) (drop (Suc m) cs)),
            prod_list (dropped (drop (Suc m) rs) (drop (Suc m) ds)), prod_list (kept (drop (Suc m) rs) (drop (Suc m) ds)),
            int (length (kept (drop (Suc m) rs) (drop (Suc m) ds))))" by simp
  with m assms(1,2) show ?case
    by (simp add: upt_conv_Cons ofold_append sub_step_def pick_drop algebra_simps del: upt_Suc)
qed

definition sub_colour :: "int list \<Rightarrow> int list \<Rightarrow> int \<Rightarrow> int" where
  "sub_colour ds rs r = (if kept rs ds = [] then r else rank_of (dropped rs ds) (dropped rs (coords_of ds r)))"

definition sub_key :: "int list \<Rightarrow> int list \<Rightarrow> int \<Rightarrow> int" where
  "sub_key ds rs r = rank_of (kept rs ds) (kept rs (coords_of ds r))"

lemma sub_colour_key_correct:
  assumes "cart_wf comm" "length rs = length (cart_dims (cc_cart comm))"
  shows "cart_sub_colour_key comm rs = Some (sub_colour (cart_dims (cc_cart comm)) rs (cc_rank comm),
    sub_key (cart_dims (cc_cart comm)) rs (cc_rank comm), int (length (kept rs (cart_dims (cc_cart comm)))))"
  using sub_loop [of "cart_coords (cc_cart comm)" "cart_dims (cc_cart comm)" rs 0] assms
  by (auto simp: cart_sub_colour_key_def cart_wf_def Let_def sub_colour_def sub_key_def)

text \<open>What \<^verbatim>\<open>MPI_Comm_split\<close> promises the process of rank \<open>r\<close> among \<open>n\<close>: the new communicator has the processes of
  its colour, ordered by key and then by old rank.\<close>

definition split_size :: "(int \<Rightarrow> int) \<Rightarrow> int \<Rightarrow> int \<Rightarrow> int" where
  "split_size colour n r = int (card {s \<in> {0..<n}. colour s = colour r})"

definition split_rank :: "(int \<Rightarrow> int) \<Rightarrow> (int \<Rightarrow> int) \<Rightarrow> int \<Rightarrow> int \<Rightarrow> int" where
  "split_rank colour key n r =
     int (card {s \<in> {0..<n}. colour s = colour r \<and> (key s < key r \<or> key s = key r \<and> s < r)})"

text \<open>Colour and key number the grid as a pair of sub-grids.\<close>

lemma colour_key_bij:
  assumes ds: "pos_dims ds" "length rs = length ds"
  shows "bij_betw (\<lambda>r. (rank_of (dropped rs ds) (dropped rs (coords_of ds r)), sub_key ds rs r))
    {0..<prod_list ds} ({0..<prod_list (dropped rs ds)} \<times> {0..<prod_list (kept rs ds)})" (is "bij_betw ?f ?A ?B")
proof -
  have grid: "in_grid ds (coords_of ds r)" "rank_of ds (coords_of ds r) = r" if "r \<in> ?A" for r
    using coords_of_in_grid [OF ds(1)] that by auto
  have inj: "inj_on ?f ?A"
  proof (rule inj_onI)
    fix r s
    assume rs: "r \<in> ?A" "s \<in> ?A" "?f r = ?f s"
    have "coords_of ds r = coords_of ds s"
    proof (rule pick_inject [of _ rs])
      show "kept rs (coords_of ds r) = kept rs (coords_of ds s)"
        by (rule rank_of_inj [OF pick_in_grid [OF grid(1) [OF rs(1)]] pick_in_grid [OF grid(1) [OF rs(2)]]])
          (use rs(3) in \<open>simp add: sub_key_def\<close>)
      show "dropped rs (coords_of ds r) = dropped rs (coords_of ds s)"
        by (rule rank_of_inj [OF pick_in_grid [OF grid(1) [OF rs(1)]] pick_in_grid [OF grid(1) [OF rs(2)]]])
          (use rs(3) in simp)
    qed (use ds in simp_all)
    then show "r = s" using grid(2) rs(1,2) by metis
  qed
  have into: "?f ` ?A \<subseteq> ?B"
    using rank_of_bounds [OF pick_in_grid [OF grid(1)]] by (auto simp: sub_key_def)
  have "prod_list (dropped rs ds) > 0" "prod_list (kept rs ds) > 0" using ds(1) by (auto intro: prod_dims_pos pick_pos_dims)
  then have "card ?B = card ?A" using prod_kept_dropped [OF ds(2)] by (simp add: card_cartesian_product nat_mult_distrib)
  then have "?f ` ?A = ?B" using into inj by (intro card_subset_eq) (auto simp: card_image)
  with inj show ?thesis by (simp add: bij_betw_def)
qed

lemma key_bij_class:
  assumes ds: "pos_dims ds" "length rs = length ds" and r: "0 \<le> r" "r < prod_list ds"
  shows "bij_betw (sub_key ds rs) {s \<in> {0..<prod_list ds}. sub_colour ds rs s = sub_colour ds rs r} {0..<prod_list (kept rs ds)}"
proof (cases "kept rs ds = []")
  case True
  then have single: "{s \<in> {0..<prod_list ds}. sub_colour ds rs s = sub_colour ds rs r} = {r}" using r by (auto simp: sub_colour_def)
  have "sub_key ds rs r = 0" using True by (simp add: sub_key_def)
  then show ?thesis unfolding single True by (auto simp: bij_betw_def)
next
  case False
  let ?c = "\<lambda>r. rank_of (dropped rs ds) (dropped rs (coords_of ds r))"
  let ?S = "{s \<in> {0..<prod_list ds}. ?c s = ?c r}"
  note bij = colour_key_bij [OF ds]
  have "inj_on (sub_key ds rs) ?S"
    using bij unfolding bij_betw_def inj_on_def by auto
  moreover have "sub_key ds rs ` ?S = {0..<prod_list (kept rs ds)}"
  proof (intro equalityI subsetI)
    fix k
    assume "k \<in> sub_key ds rs ` ?S"
    then show "k \<in> {0..<prod_list (kept rs ds)}" using bij by (fastforce simp: bij_betw_def)
  next
    fix k
    assume k: "k \<in> {0..<prod_list (kept rs ds)}"
    have "?c r \<in> {0..<prod_list (dropped rs ds)}" using bij r by (fastforce simp: bij_betw_def)
    with k have "(?c r, k) \<in> (\<lambda>r. (?c r, sub_key ds rs r)) ` {0..<prod_list ds}" using bij by (simp add: bij_betw_def)
    then show "k \<in> sub_key ds rs ` ?S" by force
  qed
  ultimately show ?thesis using False by (simp add: bij_betw_def sub_colour_def)
qed

lemma split_sub_grid:
  assumes ds: "pos_dims ds" "length rs = length ds" and r: "0 \<le> r" "r < prod_list ds"
  shows "split_size (sub_colour ds rs) (prod_list ds) r = prod_list (kept rs ds)"
    "split_rank (sub_colour ds rs) (sub_key ds rs) (prod_list ds) r = sub_key ds rs r"
    "0 \<le> sub_key ds rs r" "sub_key ds rs r < prod_list (kept rs ds)"
proof -
  let ?S = "{s \<in> {0..<prod_list ds}. sub_colour ds rs s = sub_colour ds rs r}"
  note bij = key_bij_class [OF ds r]
  have pos: "prod_list (kept rs ds) > 0" using ds(1) by (auto intro: prod_dims_pos pick_pos_dims)
  show "split_size (sub_colour ds rs) (prod_list ds) r = prod_list (kept rs ds)"
    using bij_betw_same_card [OF bij] pos by (simp add: split_size_def)
  have "r \<in> ?S" using r by simp
  with bij have "sub_key ds rs r \<in> {0..<prod_list (kept rs ds)}" by (meson bij_betwE)
  then show bounds: "0 \<le> sub_key ds rs r" "sub_key ds rs r < prod_list (kept rs ds)" by auto
  let ?L = "{s \<in> {0..<prod_list ds}. sub_colour ds rs s = sub_colour ds rs r
      \<and> (sub_key ds rs s < sub_key ds rs r \<or> sub_key ds rs s = sub_key ds rs r \<and> s < r)}"
  have inj: "inj_on (sub_key ds rs) ?S" and img: "sub_key ds rs ` ?S = {0..<prod_list (kept rs ds)}"
    using bij by (auto simp: bij_betw_def)
  have "sub_key ds rs ` ?L = {0..<sub_key ds rs r}"
  proof (intro equalityI subsetI)
    fix k
    assume "k \<in> sub_key ds rs ` ?L"
    then obtain s where s: "s \<in> ?L" "k = sub_key ds rs s" by blast
    then have "s \<in> ?S" by simp
    then have "0 \<le> k" using img s(2) by auto
    moreover have "k < sub_key ds rs r" using s \<open>s \<in> ?S\<close> \<open>r \<in> ?S\<close> inj_onD [OF inj] by auto
    ultimately show "k \<in> {0..<sub_key ds rs r}" by simp
  next
    fix k
    assume k: "k \<in> {0..<sub_key ds rs r}"
    then have "k \<in> sub_key ds rs ` ?S" using img bounds by simp
    then show "k \<in> sub_key ds rs ` ?L" using k by force
  qed
  moreover have "inj_on (sub_key ds rs) ?L" using inj by (rule inj_on_subset) blast
  ultimately have "card ?L = nat (sub_key ds rs r)" using card_image [of "sub_key ds rs" ?L] by simp
  then show "split_rank (sub_colour ds rs) (sub_key ds rs) (prod_list ds) r = sub_key ds rs r"
    using bounds by (simp add: split_rank_def)
qed

section \<open>Creating a grid\<close>

lemma grid_size_correct:
  "pos_dims ds \<Longrightarrow> 0 < acc \<Longrightarrow> acc * prod_list ds \<le> INT_MAX \<Longrightarrow> grid_size ds acc = Some (Inr (acc * prod_list ds))"
proof (induction ds arbitrary: acc)
  case (Cons d ds)
  have "acc * d * 1 \<le> acc * d * prod_list ds"
    using Cons.prems prod_dims_pos [of ds] by (intro mult_left_mono) auto
  also have "\<dots> \<le> INT_MAX" using Cons.prems by (simp add: mult.assoc)
  finally have "acc * d \<le> INT_MAX" by simp
  with Cons show ?case by (simp add: mult.assoc)
qed simp

section \<open>Properties\<close>

text \<open>On a Cartesian communicator the conversions between ranks and coordinates are inverse to each
  other: every rank has coordinates inside the grid whose rank it is, and every point of the grid
  has a rank whose coordinates it is. No division by zero and no access outside the arrays happens.\<close>

lemma cart_rank_coords_inverse:
  assumes "cart_wf comm" "0 \<le> r" "r < cc_size comm" "in_grid (cart_dims (cc_cart comm)) cs"
  shows "(\<exists>cs'. mca_topo_base_cart_coords comm r (cart_ndims (cc_cart comm)) = Some cs'
      \<and> in_grid (cart_dims (cc_cart comm)) cs' \<and> mca_topo_base_cart_rank comm cs' = Some r)
    \<and> (\<exists>r'. mca_topo_base_cart_rank comm cs = Some r' \<and> 0 \<le> r' \<and> r' < cc_size comm
      \<and> mca_topo_base_cart_coords comm r' (cart_ndims (cc_cart comm)) = Some cs)"
proof
  let ?ds = "cart_dims (cc_cart comm)"
  have wf: "pos_dims ?ds" "cc_size comm = prod_list ?ds" "cart_ndims (cc_cart comm) = int (length ?ds)"
    using assms(1) by (auto simp: cart_wf_def Let_def)
  have grid: "in_grid ?ds (coords_of ?ds r)" "rank_of ?ds (coords_of ?ds r) = r"
    using coords_of_in_grid [OF wf(1) assms(2)] assms(3) wf(2) by auto
  show "\<exists>cs'. mca_topo_base_cart_coords comm r (cart_ndims (cc_cart comm)) = Some cs'
      \<and> in_grid ?ds cs' \<and> mca_topo_base_cart_rank comm cs' = Some r"
    using cart_coords_correct [OF assms(1,2), of "cart_ndims (cc_cart comm)"] cart_rank_correct [OF assms(1), of "coords_of ?ds r"]
      grid mod_id_in_grid [OF grid(1)] wf(3) by simp
  have "0 \<le> rank_of ?ds cs" "rank_of ?ds cs < prod_list ?ds" using rank_of_bounds [OF assms(4)] by auto
  then show "\<exists>r'. mca_topo_base_cart_rank comm cs = Some r' \<and> 0 \<le> r' \<and> r' < cc_size comm
      \<and> mca_topo_base_cart_coords comm r' (cart_ndims (cc_cart comm)) = Some cs"
    using cart_coords_correct [OF assms(1), of "rank_of ?ds cs" "cart_ndims (cc_cart comm)"]
      cart_rank_correct [OF assms(1) in_grid_length [OF assms(4)]] coords_of_rank_of [OF assms(4)]
      mod_id_in_grid [OF assms(4)] in_grid_length [OF assms(4)] wf by simp
qed

text \<open>\<^verbatim>\<open>MPI_Cart_shift\<close> along a dimension returns the neighbours at the given distance in the grid:
  the rank whose coordinates differ only there, wrapped around when the dimension is periodic, and
  \<^verbatim>\<open>MPI_PROC_NULL\<close> past the border otherwise. Source and destination match: the process that is the
  destination of this one has this one as its source for the same shift.\<close>

lemma cart_shift_neighbours:
  assumes "cart_wf comm" "k < length (cart_dims (cc_cart comm))" "disp \<noteq> 0"
    and peer: "cart_wf peer" "cart_dims (cc_cart peer) = cart_dims (cc_cart comm)"
      "cart_periods (cc_cart peer) = cart_periods (cc_cart comm)"
  shows "\<exists>src dst. mca_topo_base_cart_shift comm (int k) disp = Some (src, dst)
    \<and> dst = shift_target (cart_dims (cc_cart comm)) (cart_periods (cc_cart comm)) (cc_rank comm) k disp
    \<and> (dst \<noteq> MPI_PROC_NULL \<longrightarrow> 0 \<le> dst \<and> dst < cc_size comm)
    \<and> (cc_rank peer = dst \<longrightarrow> (\<exists>dst'. mca_topo_base_cart_shift peer (int k) disp = Some (cc_rank comm, dst')))"
proof -
  let ?ds = "cart_dims (cc_cart comm)" and ?ps = "cart_periods (cc_cart comm)" and ?r = "cc_rank comm"
  have ds: "pos_dims ?ds" "0 \<le> ?r" "?r < prod_list ?ds" "cc_size comm = prod_list ?ds"
    using assms(1) by (auto simp: cart_wf_def Let_def)
  note inv = shift_target_inverse [OF ds(1-3) assms(2) refl, of ?ps disp]
  have "cc_rank peer \<noteq> MPI_PROC_NULL" using peer(1) by (auto simp: cart_wf_def Let_def rc_defs)
  moreover have "mca_topo_base_cart_shift peer (int k) disp
      = Some (shift_target ?ds ?ps (cc_rank peer) k (- disp), shift_target ?ds ?ps (cc_rank peer) k disp)"
    using cart_shift_correct [OF peer(1) _ assms(3), of k] peer(2,3) assms(2) by simp
  ultimately show ?thesis using cart_shift_correct [OF assms(1-3)] inv ds(4) by auto
qed

text \<open>\<^verbatim>\<open>mca_topo_base_cart_rank\<close> reduces every coordinate modulo its extent, whether or not the dimension
  is periodic; the comment in the loop calls an outside coordinate of a dimension that is not
  periodic an error.\<close>

lemma cart_rank_always_wraps:
  assumes "cart_wf comm" "length cs = length (cart_dims (cc_cart comm))"
  shows "mca_topo_base_cart_rank comm cs = mca_topo_base_cart_rank comm (map2 (mod) cs (cart_dims (cc_cart comm)))
    \<and> (\<exists>r. mca_topo_base_cart_rank comm cs = Some r \<and> 0 \<le> r \<and> r < cc_size comm)"
proof -
  let ?ds = "cart_dims (cc_cart comm)"
  have "pos_dims ?ds" "cc_size comm = prod_list ?ds" using assms(1) by (auto simp: cart_wf_def Let_def)
  with mod_in_grid [OF _ assms(2)] have g: "in_grid ?ds (map2 (mod) cs ?ds)" by simp
  with cart_rank_correct [OF assms] cart_rank_correct [OF assms(1) in_grid_length [OF g]] mod_id_in_grid [OF g]
    rank_of_bounds [OF g] \<open>cc_size comm = _\<close>
  show ?thesis by simp
qed

text \<open>\<^verbatim>\<open>MPI_Cart_sub\<close> gives each process its place in the sub-grid: when \<^verbatim>\<open>ompi_comm_split\<close> orders the
  processes of a colour by key, the new communicator is Cartesian over the kept dimensions and the
  coordinates of the process in it are its old coordinates in those dimensions.\<close>

lemma cart_sub_projects:
  assumes wf: "cart_wf comm" and rs: "length rs = length (cart_dims (cc_cart comm))"
    and split: "split (sub_colour (cart_dims (cc_cart comm)) rs (cc_rank comm)) (sub_key (cart_dims (cc_cart comm)) rs (cc_rank comm))
      = Inr (split_size (sub_colour (cart_dims (cc_cart comm)) rs) (cc_size comm) (cc_rank comm),
             split_rank (sub_colour (cart_dims (cc_cart comm)) rs) (sub_key (cart_dims (cc_cart comm)) rs) (cc_size comm) (cc_rank comm),
             procs)"
  shows "\<exists>sub. mca_topo_base_cart_sub split True True comm rs = Some (Inr sub) \<and> cart_wf sub
    \<and> cart_dims (cc_cart sub) = kept rs (cart_dims (cc_cart comm))
    \<and> cart_periods (cc_cart sub) = kept rs (cart_periods (cc_cart comm))
    \<and> cart_coords (cc_cart sub) = kept rs (cart_coords (cc_cart comm))"
proof -
  let ?ds = "cart_dims (cc_cart comm)" and ?r = "cc_rank comm" and ?k = "kept rs (cart_dims (cc_cart comm))"
  have ds: "pos_dims ?ds" "0 \<le> ?r" "?r < prod_list ?ds" "cc_size comm = prod_list ?ds"
      "cart_ndims (cc_cart comm) = int (length ?ds)" "length (cart_periods (cc_cart comm)) = length ?ds"
      "cart_coords (cc_cart comm) = coords_of ?ds ?r"
    using wf by (auto simp: cart_wf_def Let_def)
  note sg = split_sub_grid [OF ds(1) rs ds(2,3)]
  have kp: "pos_dims ?k" using ds(1) by (rule pick_pos_dims)
  have grid: "in_grid ?k (kept rs (coords_of ?ds ?r))"
    using coords_of_in_grid [OF ds(1-3)] by (intro pick_in_grid) simp
  have coords: "coords_of ?k (sub_key ?ds rs ?r) = kept rs (coords_of ?ds ?r)"
    using coords_of_rank_of [OF grid] by (simp add: sub_key_def)
  have picks: "map (\<lambda>i. ?ds ! i) (filter (\<lambda>i. rs ! i \<noteq> 0) [0..<length ?ds]) = ?k"
    "map (\<lambda>i. cart_periods (cc_cart comm) ! i) (filter (\<lambda>i. rs ! i \<noteq> 0) [0..<length ?ds]) = kept rs (cart_periods (cc_cart comm))"
    using pick_filter [of rs ?ds "\<lambda>r. r \<noteq> 0"] pick_filter [of rs "cart_periods (cc_cart comm)" "\<lambda>r. r \<noteq> 0"] rs ds(6) by auto
  have len: "length (kept rs (cart_periods (cc_cart comm))) = length ?k" unfolding picks [symmetric] by simp
  show ?thesis
    using coords_loop_all [OF kp sg(3)] split sg picks kp coords len
    by (simp add: mca_topo_base_cart_sub_def sub_colour_key_correct [OF wf rs] ds(4,5) ds(7) cart_wf_def Let_def)
qed

text \<open>Creating a grid over the first processes of a communicator: with positive extents whose product
  does not exceed the number of processes, the processes inside the grid get a Cartesian
  communicator of exactly that many processes with their own coordinates in it, and the others get
  \<^verbatim>\<open>MPI_COMM_NULL\<close>; a larger grid is refused with \<^verbatim>\<open>MPI_ERR_DIMS\<close>.\<close>

lemma cart_create_grid:
  assumes "pos_dims ds" "prod_list ds \<le> INT_MAX" "length ps = length ds" "0 \<le> r" "r < int (length procs)"
  shows "if int (length procs) < prod_list ds
    then mca_topo_base_cart_create (True, True, True, True) True OPAL_SUCCESS procs r ds ps = Some (Inl MPI_ERR_DIMS)
    else if prod_list ds \<le> r
    then mca_topo_base_cart_create (True, True, True, True) True OPAL_SUCCESS procs r ds ps = Some (Inr None)
    else \<exists>comm. mca_topo_base_cart_create (True, True, True, True) True OPAL_SUCCESS procs r ds ps = Some (Inr (Some comm))
      \<and> cart_wf comm \<and> cart_dims (cc_cart comm) = ds \<and> cart_periods (cc_cart comm) = ps \<and> cc_rank comm = r
      \<and> cc_procs comm = take (nat (prod_list ds)) procs"
proof -
  have size: "grid_size ds 1 = Some (Inr (prod_list ds))" using grid_size_correct [OF assms(1), of 1] assms(2) by simp
  have coords: "coords_loop ds (prod_list ds) r = Some (coords_of ds r)" by (rule coords_loop_all [OF assms(1,4)])
  have "r \<noteq> MPI_UNDEFINED" using assms(4) by (simp add: rc_defs)
  with size coords assms show ?thesis
    by (auto simp: mca_topo_base_cart_create_def cart_wf_def Let_def)
qed

end
