(* ===== verification/Topo_Graph.thy ===== *)
theory Topo_Graph
  imports OMPI_Prelude
begin

text \<open>
  Graph topologies, \<^verbatim>\<open>ompi/mca/topo/base/topo_base_graph_*.c\<close>: creation and the queries behind
  \<^verbatim>\<open>MPI_Graph_get\<close>, \<^verbatim>\<open>MPI_Graphdims_get\<close>, \<^verbatim>\<open>MPI_Graph_neighbors\<close>, \<^verbatim>\<open>MPI_Graph_neighbors_count\<close> and \<^verbatim>\<open>MPI_Graph_map\<close>.
  A graph is stored as MPI hands it over: \<^verbatim>\<open>index[i]\<close> is the total number of neighbours of the nodes up to \<^verbatim>\<open>i\<close>, and
  \<^verbatim>\<open>edges\<close> the concatenation of all neighbour lists. The reference is the list of neighbour lists itself.
  As in \<open>Topo_Cart\<close>, a communicator is reduced to what these functions use, and the answers of the communicator
  layer and of the allocator are arguments.
\<close>

record mca_topo_base_comm_graph_t =
  graph_nnodes :: int
  graph_index :: "int list"
  graph_edges :: "int list"

record 'p graph_communicator_t =
  gc_size :: int
  gc_rank :: int
  gc_procs :: "'p list"
  gc_reorder :: bool
  gc_graph :: mca_topo_base_comm_graph_t

section \<open>Operations\<close>

text \<open>The parts of \<^verbatim>\<open>index\<close> and \<^verbatim>\<open>edges\<close> that are copied to the caller's arrays.\<close>

definition mca_topo_base_graph_get ::
  "'p graph_communicator_t \<Rightarrow> int \<Rightarrow> int \<Rightarrow> (int list \<times> int list) option" where
  "mca_topo_base_graph_get comm maxindex maxedges = do {
     index \<leftarrow> asub (graph_index (gc_graph comm)) 0 (min (gc_size comm) maxindex);
     nedges \<leftarrow> aget (graph_index (gc_graph comm)) (gc_size comm - 1);
     edges \<leftarrow> asub (graph_edges (gc_graph comm)) 0 (min nedges maxedges);
     Some (index, edges)
   }"

definition mca_topo_base_graph_map :: "'p graph_communicator_t \<Rightarrow> int \<Rightarrow> int \<times> int" where
  "mca_topo_base_graph_map comm nnodes =
     (OPAL_SUCCESS, if 0 > gc_rank comm \<or> gc_rank comm \<ge> nnodes then MPI_UNDEFINED else gc_rank comm)"

definition mca_topo_base_graph_neighbors ::
  "'p graph_communicator_t \<Rightarrow> int \<Rightarrow> int \<Rightarrow> int list option" where
  "mca_topo_base_graph_neighbors comm rank maxneighbors = do {
     nnbrs \<leftarrow> aget (graph_index (gc_graph comm)) rank;
     i \<leftarrow> (if rank > 0 then aget (graph_index (gc_graph comm)) (rank - 1) else Some 0);
     asub (graph_edges (gc_graph comm)) i (min maxneighbors (nnbrs - i))
   }"

definition mca_topo_base_graph_neighbors_count :: "'p graph_communicator_t \<Rightarrow> int \<Rightarrow> int option" where
  "mca_topo_base_graph_neighbors_count comm rank = do {
     nneighbors \<leftarrow> aget (graph_index (gc_graph comm)) rank;
     if rank > 0 then do {
       i \<leftarrow> aget (graph_index (gc_graph comm)) (rank - 1);
       Some (nneighbors - i)
     } else Some nneighbors
   }"

definition mca_topo_base_graphdims_get :: "'p graph_communicator_t \<Rightarrow> (int \<times> int) option" where
  "mca_topo_base_graphdims_get comm = do {
     nedges \<leftarrow> aget (graph_index (gc_graph comm)) (gc_size comm - 1);
     Some (gc_size comm, nedges)
   }"

text \<open>Creation. \<open>mem\<close> has the answers of the allocations of the topology, of its two arrays and of the list of
  processes; the last one is not tested before it is written to. \<open>allocated\<close> and \<open>enable\<close> are the answers of
  \<^verbatim>\<open>ompi_comm_allocate\<close> and \<^verbatim>\<open>ompi_comm_enable\<close>. The result \<^term>\<open>Inr None\<close> is \<^verbatim>\<open>MPI_COMM_NULL\<close>.\<close>

definition mca_topo_base_graph_create ::
  "bool \<times> bool \<times> bool \<times> bool \<Rightarrow> bool \<Rightarrow> int \<Rightarrow> 'p list \<Rightarrow> int \<Rightarrow> int \<Rightarrow> int list \<Rightarrow> int list \<Rightarrow> bool
     \<Rightarrow> (int + 'p graph_communicator_t option) option" where
  "mca_topo_base_graph_create = (\<lambda>(mem_graph, mem_index, mem_edges, mem_procs) allocated enable procs my_rank nnodes index edges reorder.
     (if int (length procs) < nnodes then Some (Inl MPI_ERR_DIMS)
      else
        let out = (my_rank > nnodes - 1);
            num_procs = (if out then 0 else min nnodes (int (length procs)));
            new_rank = (if out then MPI_UNDEFINED else my_rank);
            nnodes = (if out then 0 else nnodes)
        in if \<not> mem_graph then Some (Inl OPAL_ERR_OUT_OF_RESOURCE)
           else if new_rank = MPI_UNDEFINED then
             (if \<not> allocated then Some (Inl OPAL_ERR_OUT_OF_RESOURCE)
              else if enable \<noteq> OPAL_SUCCESS then Some (Inl enable)
              else Some (Inr None))
           else if \<not> mem_index then Some (Inl OPAL_ERR_OUT_OF_RESOURCE)
           else do {
             new_index \<leftarrow> asub index 0 nnodes;
             nedges \<leftarrow> aget index (nnodes - 1);
             if \<not> mem_edges then Some (Inl OPAL_ERR_OUT_OF_RESOURCE)
             else do {
               new_edges \<leftarrow> asub edges 0 nedges;
               if \<not> mem_procs then None
               else if \<not> allocated then Some (Inl OPAL_ERR_OUT_OF_RESOURCE)
               else if enable \<noteq> OPAL_SUCCESS then Some (Inl enable)
               else Some (Inr (Some \<lparr>gc_size = nnodes, gc_rank = new_rank, gc_procs = take (nat num_procs) procs, gc_reorder = reorder,
                 gc_graph = \<lparr>graph_nnodes = nnodes, graph_index = new_index, graph_edges = new_edges\<rparr>\<rparr>))
             }
           }))"

section \<open>Compressed neighbour lists\<close>

definition csr_offset :: "'a list list \<Rightarrow> nat \<Rightarrow> nat" where
  "csr_offset adj i = length (concat (take i adj))"

definition csr_index :: "'a list list \<Rightarrow> int list" where
  "csr_index adj = map (\<lambda>i. int (csr_offset adj (Suc i))) [0..<length adj]"

lemma length_csr_index [simp]: "length (csr_index adj) = length adj"
  by (simp add: csr_index_def)

lemma csr_index_nth [simp]: "i < length adj \<Longrightarrow> csr_index adj ! i = int (csr_offset adj (Suc i))"
  by (simp add: csr_index_def)

lemma csr_offset_Suc: "i < length adj \<Longrightarrow> csr_offset adj (Suc i) = csr_offset adj i + length (adj ! i)"
  by (simp add: csr_offset_def take_Suc_conv_app_nth)

lemma csr_offset_all: "csr_offset adj (length adj) = length (concat adj)"
  by (simp add: csr_offset_def)

lemma csr_offset_mono: "i \<le> j \<Longrightarrow> csr_offset adj i \<le> csr_offset adj j"
proof -
  assume "i \<le> j"
  then have "take j adj = take i adj @ take (j - i) (drop i adj)" by (metis le_add_diff_inverse take_add)
  then show ?thesis by (simp add: csr_offset_def)
qed

lemma csr_segment:
  "i < length adj \<Longrightarrow> n \<le> length (adj ! i) \<Longrightarrow> take n (drop (csr_offset adj i) (concat adj)) = take n (adj ! i)"
proof -
  assume i: "i < length adj" and n: "n \<le> length (adj ! i)"
  have "concat adj = concat (take i adj) @ adj ! i @ concat (drop (Suc i) adj)"
    using i by (metis concat.simps(2) concat_append id_take_nth_drop)
  with n show ?thesis by (simp add: csr_offset_def)
qed

lemma csr_offset_0 [simp]: "csr_offset adj 0 = 0"
  by (simp add: csr_offset_def)

lemma csr_index_pred: "0 < r \<Longrightarrow> r \<le> length adj \<Longrightarrow> aget (csr_index adj) (int r - 1) = Some (int (csr_offset adj r))"
  by (cases r) auto

text \<open>The last entry of \<^verbatim>\<open>index\<close> is the number of edges.\<close>

lemma csr_last: "adj \<noteq> [] \<Longrightarrow> aget (csr_index adj) (int (length adj) - 1) = Some (int (length (concat adj)))"
  using csr_index_pred [of "length adj" adj] csr_offset_all [of adj] by simp

lemma asub_all: "asub xs 0 (int (length xs)) = Some xs"
  by (simp add: asub_def)

lemma asub_csr:
  assumes "i < length adj"
  shows "asub (concat adj) (int (csr_offset adj i)) (min m (int (length (adj ! i)))) = Some (take (nat m) (adj ! i))"
proof -
  have "csr_offset adj i + length (adj ! i) \<le> length (concat adj)"
    using csr_offset_Suc [OF assms] csr_offset_mono [of "Suc i" "length adj" adj] assms csr_offset_all [of adj] by simp
  moreover have "take (nat (min m (int (length (adj ! i))))) (drop (csr_offset adj i) (concat adj))
      = take (nat (min m (int (length (adj ! i))))) (adj ! i)"
    using assms by (intro csr_segment) auto
  moreover have "take (nat (min m (int (length (adj ! i))))) (adj ! i) = take (nat m) (adj ! i)"
    by (auto simp: min_def)
  ultimately show ?thesis by (auto simp: asub_def)
qed

definition csr_comm :: "'p graph_communicator_t \<Rightarrow> int list list \<Rightarrow> bool" where
  "csr_comm comm adj \<longleftrightarrow> adj \<noteq> [] \<and> gc_size comm = int (length adj)
     \<and> graph_index (gc_graph comm) = csr_index adj \<and> graph_edges (gc_graph comm) = concat adj"

lemma csr_neighbors:
  assumes "csr_comm comm adj" "r < length adj"
  shows "mca_topo_base_graph_neighbors_count comm (int r) = Some (int (length (adj ! r)))"
    "mca_topo_base_graph_neighbors comm (int r) m = Some (take (nat m) (adj ! r))"
proof -
  have prev: "(if int r > 0 then aget (csr_index adj) (int r - 1) else Some 0) = Some (int (csr_offset adj r))"
    using csr_index_pred [of r adj] assms(2) by (cases "r = 0") auto
  have cur: "aget (csr_index adj) (int r) = Some (int (csr_offset adj r) + int (length (adj ! r)))"
    using assms(2) csr_offset_Suc [OF assms(2)] by simp
  have comm: "graph_index (gc_graph comm) = csr_index adj" "graph_edges (gc_graph comm) = concat adj"
    using assms(1) by (auto simp: csr_comm_def)
  show "mca_topo_base_graph_neighbors_count comm (int r) = Some (int (length (adj ! r)))"
    using prev cur unfolding mca_topo_base_graph_neighbors_count_def comm by (simp split: if_splits)
  show "mca_topo_base_graph_neighbors comm (int r) m = Some (take (nat m) (adj ! r))"
    unfolding mca_topo_base_graph_neighbors_def comm prev cur by (simp add: asub_csr [OF assms(2)])
qed

lemma csr_get:
  assumes "csr_comm comm adj"
  shows "mca_topo_base_graphdims_get comm = Some (int (length adj), int (length (concat adj)))"
    "mca_topo_base_graph_get comm (int (length adj)) (int (length (concat adj))) = Some (csr_index adj, concat adj)"
  using assms csr_last [of adj] asub_all [of "csr_index adj"] asub_all [of "concat adj"]
  by (simp_all add: mca_topo_base_graphdims_get_def mca_topo_base_graph_get_def csr_comm_def)

section \<open>Properties\<close>

text \<open>A graph communicator built from the neighbour lists \<open>adj\<close>, in the compressed form MPI asks for, answers every
  query with them: the numbers of nodes and edges, for each node the number of its neighbours and its neighbours (as many
  as fit the caller's array), and the two arrays as they were given. Processes that are not nodes get no communicator.\<close>

lemma graph_create_neighbours:
  assumes "adj \<noteq> []" "length adj \<le> length procs" "0 \<le> my_rank"
  shows "if int (length adj) \<le> my_rank
    then mca_topo_base_graph_create (True, True, True, True) True OPAL_SUCCESS procs my_rank (int (length adj)) (csr_index adj) (concat adj) reorder = Some (Inr None)
    else \<exists>comm. mca_topo_base_graph_create (True, True, True, True) True OPAL_SUCCESS procs my_rank (int (length adj)) (csr_index adj) (concat adj) reorder = Some (Inr (Some comm))
      \<and> gc_rank comm = my_rank \<and> gc_procs comm = take (length adj) procs
      \<and> mca_topo_base_graphdims_get comm = Some (int (length adj), int (length (concat adj)))
      \<and> mca_topo_base_graph_get comm (int (length adj)) (int (length (concat adj))) = Some (csr_index adj, concat adj)
      \<and> (\<forall>r < length adj. mca_topo_base_graph_neighbors_count comm (int r) = Some (int (length (adj ! r)))
            \<and> (\<forall>m. mca_topo_base_graph_neighbors comm (int r) m = Some (take (nat m) (adj ! r))))"
proof (cases "int (length adj) \<le> my_rank")
  case True
  with assms(2) show ?thesis by (simp add: mca_topo_base_graph_create_def Let_def)
next
  case False
  define comm where "comm = \<lparr>gc_size = int (length adj), gc_rank = my_rank, gc_procs = take (length adj) procs, gc_reorder = reorder,
    gc_graph = \<lparr>graph_nnodes = int (length adj), graph_index = csr_index adj, graph_edges = concat adj\<rparr>\<rparr>"
  have "csr_comm comm adj" using assms(1) by (simp add: csr_comm_def comm_def)
  moreover have "mca_topo_base_graph_create (True, True, True, True) True OPAL_SUCCESS procs my_rank (int (length adj)) (csr_index adj) (concat adj) reorder
      = Some (Inr (Some comm))"
    using assms False csr_last [OF assms(1)] asub_all [of "csr_index adj"] asub_all [of "concat adj"]
    by (simp add: mca_topo_base_graph_create_def Let_def comm_def MPI_UNDEFINED_def)
  moreover have "gc_rank comm = my_rank" "gc_procs comm = take (length adj) procs" by (simp_all add: comm_def)
  ultimately show ?thesis using False csr_neighbors [of comm adj] csr_get [of comm adj] by simp
qed

end
