(* ===== verification/Topo_Dist_Graph.thy ===== *)
theory Topo_Dist_Graph
  imports Topo_Graph "HOL-Library.Multiset"
begin

text \<open>
  Distributed graph topologies, \<^verbatim>\<open>ompi/mca/topo/base/topo_base_dist_graph_*.c\<close>. In
  \<^verbatim>\<open>MPI_Dist_graph_create\<close> every process hands over any part of the edges; the processes then tell each other
  which edges enter and leave them. The model follows one process through
  \<^verbatim>\<open>mca_topo_base_dist_graph_distribute\<close>: it counts the edges per peer, computes where the part of each peer
  starts, packs the edges into two arrays, sends each peer its part, and unpacks what it receives. What other
  processes contribute is an argument: the answer of the reduction, and the messages in the order in which they arrive.
  The property at the end puts all processes together.

  The struct array \<^verbatim>\<open>cnt[i].in\<close>, \<^verbatim>\<open>cnt[i].out\<close> is two arrays, and so are \<^verbatim>\<open>pos\<close> and \<^verbatim>\<open>idx\<close>. The two halves of
  the allocation behind \<^verbatim>\<open>rin\<close> and \<^verbatim>\<open>rout\<close> are two arrays: a write past the end of the first counts as a fault.
  The products and sums of edge counts, an \<^verbatim>\<open>int\<close> in the code, are not bounded here; the largest, twice the edges that
  enter and leave, stays within it for fewer than \<open>2 ^ 29\<close> edges of a process.
\<close>

record mca_topo_base_comm_dist_graph_t =
  dg_in :: "int list option"
  dg_inw :: "int list option"
  dg_out :: "int list option"
  dg_outw :: "int list option"
  dg_indegree :: int
  dg_outdegree :: int
  dg_weighted :: bool

text \<open>The arguments of one process: the arrays \<^verbatim>\<open>nodes\<close> and \<^verbatim>\<open>degrees\<close> of \<^verbatim>\<open>n\<close> cells, \<^verbatim>\<open>targets\<close>, and \<^verbatim>\<open>weights\<close>
  (\<^const>\<open>None\<close>: \<^verbatim>\<open>MPI_UNWEIGHTED\<close>).\<close>

record dist_graph_args =
  da_nodes :: "int list"
  da_degrees :: "int list"
  da_targets :: "int list"
  da_weights :: "int list option"

section \<open>Operations\<close>

subsection \<open>Adjacent creation and queries\<close>

text \<open>An array of \<open>n\<close> cells copied from the caller: \<^verbatim>\<open>NULL\<close> for no cells, an error when the allocation fails.\<close>

definition copy_ints :: "bool \<Rightarrow> int list \<Rightarrow> int \<Rightarrow> (unit + int list option) option" where
  "copy_ints mem xs n =
     (if n \<le> 0 then Some (Inr None)
      else if \<not> mem then Some (Inl ())
      else map_option (\<lambda>ys. Inr (Some ys)) (asub xs 0 n))"

definition copy_weights :: "bool \<Rightarrow> int list option \<Rightarrow> int \<Rightarrow> (unit + int list option) option" where
  "copy_weights mem ws n = (case ws of None \<Rightarrow> Some (Inr None) | Some xs \<Rightarrow> copy_ints mem xs n)"

text \<open>\<open>create\<close> is the answer of \<^verbatim>\<open>ompi_comm_create\<close>; \<open>mem\<close> those of the five allocations. When the first one fails,
  the clean-up code reads through the null pointer it got.\<close>

definition mca_topo_base_dist_graph_create_adjacent ::
  "(nat \<Rightarrow> bool) \<Rightarrow> int \<Rightarrow> int \<Rightarrow> int list \<Rightarrow> int list option \<Rightarrow> int \<Rightarrow> int list \<Rightarrow> int list option
     \<Rightarrow> (int + mca_topo_base_comm_dist_graph_t) option" where
  "mca_topo_base_dist_graph_create_adjacent mem create indegree sources sourceweights outdegree destinations destweights =
     (if create \<noteq> OPAL_SUCCESS then Some (Inl create)
      else if \<not> mem 0 then None
      else do {
        rin \<leftarrow> copy_ints (mem 1) sources indegree;
        case rin of Inl _ \<Rightarrow> Some (Inl OPAL_ERR_OUT_OF_RESOURCE) | Inr ins \<Rightarrow> do {
        rinw \<leftarrow> copy_weights (mem 2) sourceweights indegree;
        case rinw of Inl _ \<Rightarrow> Some (Inl OPAL_ERR_OUT_OF_RESOURCE) | Inr inw \<Rightarrow> do {
        rout \<leftarrow> copy_ints (mem 3) destinations outdegree;
        case rout of Inl _ \<Rightarrow> Some (Inl OPAL_ERR_OUT_OF_RESOURCE) | Inr out \<Rightarrow> do {
        routw \<leftarrow> copy_weights (mem 4) destweights outdegree;
        case routw of Inl _ \<Rightarrow> Some (Inl OPAL_ERR_OUT_OF_RESOURCE) | Inr outw \<Rightarrow>
          Some (Inr \<lparr>dg_in = ins, dg_inw = inw, dg_out = out, dg_outw = outw, dg_indegree = indegree, dg_outdegree = outdegree,
            dg_weighted = (\<not> (sourceweights = None \<and> destweights = None))\<rparr>)
        }}}})"

text \<open>The topology of a communicator, \<^const>\<open>None\<close> when it is a grid or a graph of the older kind.\<close>

definition mca_topo_base_dist_graph_neighbors_count ::
  "mca_topo_base_comm_dist_graph_t option \<Rightarrow> int + int \<times> int \<times> bool" where
  "mca_topo_base_dist_graph_neighbors_count comm =
     (case comm of
        None \<Rightarrow> Inl OPAL_ERR_NOT_FOUND
      | Some dg \<Rightarrow> Inr (dg_indegree dg, dg_outdegree dg, dg_weighted dg))"

text \<open>The first cells of an array that is null when it has none.\<close>

definition read_ints :: "int list option \<Rightarrow> int \<Rightarrow> int list option" where
  "read_ints arr n = (if n \<le> 0 then Some [] else case arr of None \<Rightarrow> None | Some xs \<Rightarrow> asub xs 0 n)"

definition read_weights :: "int list option \<Rightarrow> int \<Rightarrow> int list option option" where
  "read_weights arr n = (case arr of None \<Rightarrow> Some None | Some xs \<Rightarrow> map_option Some (asub xs 0 n))"

definition mca_topo_base_dist_graph_neighbors ::
  "mca_topo_base_comm_dist_graph_t option \<Rightarrow> int \<Rightarrow> int
     \<Rightarrow> (int + (int list \<times> int list option) \<times> (int list \<times> int list option)) option" where
  "mca_topo_base_dist_graph_neighbors comm maxindegree maxoutdegree =
     (case comm of
        None \<Rightarrow> Some (Inl OPAL_ERR_NOT_FOUND)
      | Some dg \<Rightarrow>
          if maxindegree > dg_indegree dg \<or> maxoutdegree > dg_outdegree dg then Some (Inl OPAL_ERR_BAD_PARAM)
          else do {
            sources \<leftarrow> read_ints (dg_in dg) (min (dg_indegree dg) maxindegree);
            sourceweights \<leftarrow> read_weights (dg_inw dg) (min (dg_indegree dg) maxindegree);
            destinations \<leftarrow> read_ints (dg_out dg) (min (dg_outdegree dg) maxoutdegree);
            destweights \<leftarrow> read_weights (dg_outw dg) (min (dg_outdegree dg) maxoutdegree);
            Some (Inr ((sources, sourceweights), (destinations, destweights)))
          })"

subsection \<open>Counting, packing and sending\<close>

definition bump :: "int list \<Rightarrow> int \<Rightarrow> int \<Rightarrow> int list option" where
  "bump arr i d = do { v \<leftarrow> aget arr i; aset arr i (v + d) }"

text \<open>The two nested loops over all nodes and all their edges, which the function runs twice; \<open>index\<close> numbers the
  edges. \<open>node\<close> is done once for a node and its degree, \<open>edge\<close> once for a node and an index.\<close>

fun edge_loop ::
  "(int \<Rightarrow> int \<Rightarrow> 's \<Rightarrow> 's option) \<Rightarrow> (int \<Rightarrow> int \<Rightarrow> 's \<Rightarrow> 's option) \<Rightarrow> int list \<Rightarrow> int list \<Rightarrow> int \<Rightarrow> 's \<Rightarrow> 's option" where
  "edge_loop node edge (v # vs) (d # ds) index s = do {
     s \<leftarrow> node v d s;
     s \<leftarrow> ofold (\<lambda>j. edge v (index + int j)) [0..<nat d] s;
     edge_loop node edge vs ds (index + int (nat d)) s
   }"
| "edge_loop node edge [] [] index s = Some s"
| "edge_loop node edge _ _ index s = None"

definition count_node :: "int \<Rightarrow> int \<Rightarrow> int list \<times> int list \<Rightarrow> (int list \<times> int list) option" where
  "count_node v d = (\<lambda>(cnt_in, cnt_out). map_option (Pair cnt_in) (bump cnt_out v d))"

definition count_edge :: "int list \<Rightarrow> int \<Rightarrow> int \<Rightarrow> int list \<times> int list \<Rightarrow> (int list \<times> int list) option" where
  "count_edge targets v index = (\<lambda>(cnt_in, cnt_out). do {
     t \<leftarrow> aget targets index;
     cnt_in \<leftarrow> bump cnt_in t 1;
     Some (cnt_in, cnt_out)
   })"

text \<open>The start of each peer's part: running sums.\<close>

fun positions :: "int \<Rightarrow> int list \<Rightarrow> int list" where
  "positions p [] = []"
| "positions p (c # cs) = p # positions (p + c) cs"

definition put_slot :: "int list \<Rightarrow> int \<Rightarrow> int \<Rightarrow> int option \<Rightarrow> int list option" where
  "put_slot r position v w =
     (case w of
        None \<Rightarrow> aset r position v
      | Some wt \<Rightarrow> do {
          r \<leftarrow> aset r (2 * position + 1) wt;
          aset r (2 * position) v
        })"

text \<open>A slot of the part of peer \<open>k\<close> is filled and its counter advanced.\<close>

definition pack_one :: "int list \<Rightarrow> int \<Rightarrow> int \<Rightarrow> int option \<Rightarrow> int list \<times> int list \<Rightarrow> (int list \<times> int list) option" where
  "pack_one pos k v w = (\<lambda>(idx, r). do {
     p \<leftarrow> aget pos k;
     i \<leftarrow> aget idx k;
     r \<leftarrow> put_slot r (p + i) v w;
     idx \<leftarrow> bump idx k 1;
     Some (idx, r)
   })"

definition weight_at :: "int list option \<Rightarrow> int \<Rightarrow> int option option" where
  "weight_at weights index = (case weights of None \<Rightarrow> Some None | Some ws \<Rightarrow> map_option Some (aget ws index))"

type_synonym pack_state = "(int list \<times> int list) \<times> (int list \<times> int list)"

definition pack_edge ::
  "int list \<Rightarrow> int list \<Rightarrow> int list \<Rightarrow> int list option \<Rightarrow> int \<Rightarrow> int \<Rightarrow> pack_state \<Rightarrow> pack_state option" where
  "pack_edge pos_in pos_out targets weights v index = (\<lambda>(ins, outs). do {
     t \<leftarrow> aget targets index;
     w \<leftarrow> weight_at weights index;
     outs \<leftarrow> pack_one pos_out v t w outs;
     ins \<leftarrow> pack_one pos_in t v w ins;
     Some (ins, outs)
   })"

record dist_packed =
  dp_cnt_in :: "int list"
  dp_cnt_out :: "int list"
  dp_idx_in :: "int list"
  dp_idx_out :: "int list"
  dp_rin :: "int list"
  dp_rout :: "int list"

definition dist_count :: "nat \<Rightarrow> dist_graph_args \<Rightarrow> (int list \<times> int list) option" where
  "dist_count csize args =
     edge_loop count_node (count_edge (da_targets args)) (da_nodes args) (da_degrees args) 0 (replicate csize 0, replicate csize 0)"

text \<open>The number of cells of an array: two for every edge, weighted or not.\<close>

definition cells_for :: "int list \<Rightarrow> nat" where
  "cells_for cnt = nat (2 * (last (positions 0 cnt) + last cnt))"

definition dist_pack :: "nat \<Rightarrow> dist_graph_args \<Rightarrow> int list \<times> int list \<Rightarrow> dist_packed option" where
  "dist_pack csize args = (\<lambda>(cnt_in, cnt_out). do {
     ((idx_in, rin), (idx_out, rout)) \<leftarrow>
       edge_loop (\<lambda>v d s. Some s)
         (pack_edge (positions 0 cnt_in) (positions 0 cnt_out) (da_targets args) (da_weights args))
         (da_nodes args) (da_degrees args) 0
         ((replicate csize 0, replicate (cells_for cnt_in) 0), (replicate csize 0, replicate (cells_for cnt_out) 0));
     Some \<lparr>dp_cnt_in = cnt_in, dp_cnt_out = cnt_out, dp_idx_in = idx_in, dp_idx_out = idx_out, dp_rin = rin, dp_rout = rout\<rparr>
   })"

text \<open>For each peer the message it is sent with one of the two tags, if any; \<open>width\<close> is 2 with weights, else 1.\<close>

fun dist_messages :: "int \<Rightarrow> int list \<Rightarrow> int list \<Rightarrow> int list \<Rightarrow> int list option list option" where
  "dist_messages width r (p # ps) (c # cs) = do {
     m \<leftarrow> (if c \<noteq> 0 then map_option Some (asub r (width * p) (width * c)) else Some None);
     ms \<leftarrow> dist_messages width r ps cs;
     Some (m # ms)
   }"
| "dist_messages width r [] [] = Some []"
| "dist_messages width r _ _ = None"

definition slot_width :: "dist_graph_args \<Rightarrow> int" where
  "slot_width args = (if da_weights args = None then 1 else 2)"

definition sends_in :: "dist_graph_args \<Rightarrow> dist_packed \<Rightarrow> int list option list option" where
  "sends_in args p = dist_messages (slot_width args) (dp_rin p) (positions 0 (dp_cnt_in p)) (dp_cnt_in p)"

definition sends_out :: "dist_graph_args \<Rightarrow> dist_packed \<Rightarrow> int list option list option" where
  "sends_out args p = dist_messages (slot_width args) (dp_rout p) (positions 0 (dp_cnt_out p)) (dp_cnt_out p)"

subsection \<open>Receiving\<close>

fun pairs :: "int list \<Rightarrow> (int \<times> int) list" where
  "pairs (x # y # r) = (x, y) # pairs r"
| "pairs _ = []"

text \<open>The receive loop; the messages come in the order of their arrival. \<^const>\<open>None\<close>: a message that does not fit the rest
  of the buffer, or a wait for a message nobody sends. The array is filled from its start, so what is received is appended.\<close>

fun recv_edges :: "bool \<Rightarrow> int \<Rightarrow> int list list \<Rightarrow> int list \<times> int list \<Rightarrow> (int list \<times> int list) option" where
  "recv_edges weighted left_over [] (vs, ws) = (if left_over > 0 then None else Some (vs, ws))"
| "recv_edges weighted left_over (m # ms) (vs, ws) =
     (if left_over \<le> 0 then Some (vs, ws)
      else if int (length m) > left_over then None
      else recv_edges weighted (left_over - int (length m)) ms
        (if weighted then (vs @ map fst (pairs m), ws @ map snd (pairs m)) else (vs @ m, ws)))"

text \<open>The arrays of one direction after the loop: null when the degree is 0, and without weights the second one too.\<close>

definition recv_direction ::
  "bool \<Rightarrow> int \<Rightarrow> int list list \<Rightarrow> (int list option \<times> int list option) option" where
  "recv_direction weighted degree msgs = do {
     (vs, ws) \<leftarrow> recv_edges weighted (if weighted then 2 * degree else degree) msgs ([], []);
     Some (if degree > 0 then (Some vs, if weighted then Some ws else None) else (None, None))
   }"

text \<open>The whole function. \<open>mem\<close> answers the allocations in the order of the code: \<^verbatim>\<open>cnt\<close>, \<^verbatim>\<open>rin\<close>, \<^verbatim>\<open>topo\<close>, \<^verbatim>\<open>in\<close>, \<^verbatim>\<open>inw\<close>,
  \<^verbatim>\<open>out\<close>, \<^verbatim>\<open>outw\<close>, \<^verbatim>\<open>reqs\<close> (not tested), and the two temporary arrays; \<open>reduced\<close> is what the process gets from
  \<^verbatim>\<open>reduce_scatter_block\<close>, whose return code is ignored; \<open>wait\<close> is the answer of \<^verbatim>\<open>ompi_request_wait_all\<close>, which is
  returned. The topology is stored whatever that answer is.\<close>

definition mca_topo_base_dist_graph_distribute ::
  "(nat \<Rightarrow> bool) \<Rightarrow> nat \<Rightarrow> dist_graph_args \<Rightarrow> int \<times> int \<Rightarrow> int list list \<Rightarrow> int list list \<Rightarrow> int
     \<Rightarrow> (int \<times> mca_topo_base_comm_dist_graph_t option) option" where
  "mca_topo_base_dist_graph_distribute mem csize args = (\<lambda>(indegree, outdegree) msgs_in msgs_out wait.
     let fail = Some (OPAL_ERR_OUT_OF_RESOURCE, None);
         weighted = (da_weights args \<noteq> None)
     in if \<not> mem 0 then fail
        else do {
          cnt \<leftarrow> dist_count csize args;
          if \<not> mem 1 then fail
          else do {
            packed \<leftarrow> dist_pack csize args cnt;
            if \<not> mem 2 \<or> (indegree > 0 \<and> (\<not> mem 3 \<or> weighted \<and> \<not> mem 4)) \<or> (outdegree > 0 \<and> (\<not> mem 5 \<or> weighted \<and> \<not> mem 6)) then fail
            else if \<not> mem 7 then None
            else do {
              _ \<leftarrow> sends_in args packed;
              _ \<leftarrow> sends_out args packed;
              if weighted \<and> indegree > 0 \<and> \<not> mem 8 then fail
              else do {
                (ins, inw) \<leftarrow> recv_direction weighted indegree msgs_in;
                if weighted \<and> outdegree > 0 \<and> \<not> mem 9 then fail
                else do {
                  (outs, outw) \<leftarrow> recv_direction weighted outdegree msgs_out;
                  Some (wait, Some \<lparr>dg_in = ins, dg_inw = inw, dg_out = outs, dg_outw = outw,
                    dg_indegree = indegree, dg_outdegree = outdegree, dg_weighted = weighted\<rparr>)
                }
              }
            }
          }
        })"

text \<open>The caller: \<open>create\<close> is the answer of \<^verbatim>\<open>ompi_comm_create\<close>; the communicator is freed unless all went well.\<close>

definition mca_topo_base_dist_graph_create ::
  "(nat \<Rightarrow> bool) \<Rightarrow> int \<Rightarrow> nat \<Rightarrow> dist_graph_args \<Rightarrow> int \<times> int \<Rightarrow> int list list \<Rightarrow> int list list \<Rightarrow> int
     \<Rightarrow> (int \<times> mca_topo_base_comm_dist_graph_t option) option" where
  "mca_topo_base_dist_graph_create mem create csize args reduced msgs_in msgs_out wait =
     (if create \<noteq> OPAL_SUCCESS then Some (create, None)
      else do {
        (err, topo) \<leftarrow> mca_topo_base_dist_graph_distribute mem csize args reduced msgs_in msgs_out wait;
        Some (err, if err \<noteq> OPAL_SUCCESS then None else topo)
      })"

section \<open>The edges of one process\<close>

definition edge_sources :: "int list \<Rightarrow> int list \<Rightarrow> int list" where
  "edge_sources vs ds = concat (map2 (\<lambda>v d. replicate (nat d) v) vs ds)"

definition edge_weights :: "dist_graph_args \<Rightarrow> int option list" where
  "edge_weights args = (case da_weights args of None \<Rightarrow> replicate (length (da_targets args)) None | Some ws \<Rightarrow> map Some ws)"

text \<open>All edges in order, as source, target and weight.\<close>

definition edges_of :: "dist_graph_args \<Rightarrow> (int \<times> int \<times> int option) list" where
  "edges_of args = zip (edge_sources (da_nodes args) (da_degrees args)) (zip (da_targets args) (edge_weights args))"

definition ranks_below :: "nat \<Rightarrow> int list \<Rightarrow> bool" where
  "ranks_below csize vs \<longleftrightarrow> (\<forall>v \<in> set vs. 0 \<le> v \<and> v < int csize)"

definition args_ok :: "nat \<Rightarrow> bool \<Rightarrow> dist_graph_args \<Rightarrow> bool" where
  "args_ok csize weighted args \<longleftrightarrow> length (da_degrees args) = length (da_nodes args)
     \<and> ranks_below csize (da_nodes args) \<and> ranks_below csize (da_targets args) \<and> (\<forall>d \<in> set (da_degrees args). 0 \<le> d)
     \<and> sum_list (da_degrees args) = int (length (da_targets args))
     \<and> (case da_weights args of None \<Rightarrow> \<not> weighted | Some ws \<Rightarrow> weighted \<and> length ws = length (da_targets args))"

lemma edge_sources_Cons [simp]: "edge_sources (v # vs) (d # ds) = replicate (nat d) v @ edge_sources vs ds"
  by (simp add: edge_sources_def)

lemma edge_sources_Nil [simp]: "edge_sources [] ds = []" "edge_sources vs [] = []"
  by (simp_all add: edge_sources_def)

lemma length_edge_sources:
  "length ds = length vs \<Longrightarrow> \<forall>d \<in> set ds. 0 \<le> d \<Longrightarrow> int (length (edge_sources vs ds)) = sum_list ds"
  by (induction vs ds rule: list_induct2') auto

text \<open>Without work per node, the nested loops are one loop over the numbered sources.\<close>

lemma edge_loop_flat:
  "length ds = length vs \<Longrightarrow> edge_loop (\<lambda>v d s. Some s) edge vs ds (int m) s
     = ofold (\<lambda>(k, v). edge v (int k)) (enumerate m (edge_sources vs ds)) s"
proof (induction vs ds arbitrary: m s rule: list_induct2')
  case (4 v vs d ds)
  have "enumerate m (replicate n v) = map (\<lambda>j. (m + j, v)) [0..<n]" for n
    by (auto simp: enumerate_eq_zip list_eq_iff_nth_eq)
  then have inner: "ofold (\<lambda>j. edge v (int m + int j)) [0..<nat d] s = ofold (\<lambda>(k, v). edge v (int k)) (enumerate m (replicate (nat d) v)) s"
    by (simp add: ofold_map)
  have "length ds = length vs" using 4 by simp
  then have IH: "edge_loop (\<lambda>v d s. Some s) edge vs ds (int m + int (nat d)) s'
      = ofold (\<lambda>(k, v). edge v (int k)) (enumerate (m + nat d) (edge_sources vs ds)) s'" for s'
    using 4(1) [of "m + nat d" s'] by (simp only: of_nat_add)
  have "edge_loop (\<lambda>v d s. Some s) edge (v # vs) (d # ds) (int m) s
      = Option.bind (ofold (\<lambda>(k, v). edge v (int k)) (enumerate m (replicate (nat d) v)) s)
          (\<lambda>s'. ofold (\<lambda>(k, v). edge v (int k)) (enumerate (m + nat d) (edge_sources vs ds)) s')"
    unfolding edge_loop.simps Option.bind.simps inner IH ..
  then show ?case
    by (cases "ofold (\<lambda>(k, v). edge v (int k)) (enumerate m (replicate (nat d) v)) s")
       (simp_all add: enumerate_append_eq ofold_append del: edge_loop.simps)
qed auto

section \<open>Counting\<close>

definition tally :: "nat \<Rightarrow> int list \<Rightarrow> int list" where
  "tally csize xs = map (\<lambda>k. int (count_list xs (int k))) [0..<csize]"

lemma length_tally [simp]: "length (tally csize xs) = csize"
  by (simp add: tally_def)

lemma tally_Nil: "tally csize [] = replicate csize 0"
  by (simp add: tally_def list_eq_iff_nth_eq)

lemma count_list_replicate: "count_list (replicate n v) x = (if x = v then n else 0)"
  by (induction n) auto

lemma bump_tally: "0 \<le> v \<Longrightarrow> v < int csize \<Longrightarrow> bump (tally csize xs) v (int n) = Some (tally csize (xs @ replicate n v))"
  by (auto simp: bump_def tally_def aget_def aset_def count_list_append list_eq_iff_nth_eq nth_list_update count_list_replicate)

lemma count_inner:
  "ranks_below csize (take n (drop m targets)) \<Longrightarrow> m + n \<le> length targets \<Longrightarrow>
   ofold (\<lambda>j. count_edge targets v (int m + int j)) [0..<n] (tally csize xs, out)
     = Some (tally csize (xs @ take n (drop m targets)), out)"
proof (induction n)
  case (Suc n)
  have t: "take (Suc n) (drop m targets) = take n (drop m targets) @ [targets ! (m + n)]"
    using Suc.prems(2) by (simp add: take_Suc_conv_app_nth)
  with Suc.prems have ok: "ranks_below csize (take n (drop m targets))" "0 \<le> targets ! (m + n)" "targets ! (m + n) < int csize"
    by (auto simp: ranks_below_def)
  have "aget targets (int m + int n) = Some (targets ! (m + n))"
    using Suc.prems(2) by (simp add: aget_def nat_add_distrib)
  with Suc ok t bump_tally [OF ok(2,3), of "xs @ take n (drop m targets)" 1] show ?case
    by (simp add: ofold_append count_edge_def)
qed simp

lemma count_loop:
  "length ds = length vs \<Longrightarrow> \<forall>d \<in> set ds. 0 \<le> d \<Longrightarrow> ranks_below csize vs \<Longrightarrow> ranks_below csize targets \<Longrightarrow>
   int m + sum_list ds = int (length targets) \<Longrightarrow>
   edge_loop count_node (count_edge targets) vs ds (int m) (tally csize xs, tally csize ys)
     = Some (tally csize (xs @ drop m targets), tally csize (ys @ edge_sources vs ds))"
proof (induction vs ds arbitrary: m xs ys rule: list_induct2')
  case (4 v vs d ds)
  have sum: "0 \<le> sum_list ds" using 4(3) by (auto intro: sum_list_nonneg)
  have ok: "0 \<le> v" "v < int csize" "ranks_below csize vs" "0 \<le> d" using 4(3,4) by (auto simp: ranks_below_def)
  have fits: "m + nat d \<le> length targets" using 4(6) sum ok(4) by auto
  have "ranks_below csize (take (nat d) (drop m targets))" using 4(5) by (auto simp: ranks_below_def dest!: in_set_takeD in_set_dropD)
  note inner = count_inner [OF this fits, of v xs]
  have node: "count_node v d (tally csize xs, tally csize ys) = Some (tally csize xs, tally csize (ys @ replicate (nat d) v))"
    using bump_tally [OF ok(1,2), of ys "nat d"] ok(4) by (simp add: count_node_def)
  have "drop m targets = take (nat d) (drop m targets) @ drop (m + nat d) targets"
    by (metis append_take_drop_id drop_drop add.commute)
  moreover have "edge_loop count_node (count_edge targets) vs ds (int (m + nat d))
      (tally csize (xs @ take (nat d) (drop m targets)), tally csize (ys @ replicate (nat d) v))
    = Some (tally csize ((xs @ take (nat d) (drop m targets)) @ drop (m + nat d) targets), tally csize ((ys @ replicate (nat d) v) @ edge_sources vs ds))"
    using 4(2,3,5,6) ok by (intro 4(1)) auto
  ultimately show ?case using inner node ok(4) by simp
qed auto

lemma dist_count_correct:
  assumes "args_ok csize weighted args"
  shows "dist_count csize args = Some (tally csize (da_targets args), tally csize (edge_sources (da_nodes args) (da_degrees args)))"
  using assms count_loop [of "da_degrees args" "da_nodes args" csize "da_targets args" 0 "[]" "[]"]
  by (simp add: dist_count_def args_ok_def tally_Nil)

section \<open>Packing\<close>

text \<open>The cells of an edge in a message.\<close>

definition slot :: "int \<times> int option \<Rightarrow> int list" where
  "slot = (\<lambda>(v, w). v # (case w of None \<Rightarrow> [] | Some x \<Rightarrow> [x]))"

definition bucket :: "int \<Rightarrow> (int \<times> int \<times> int option) list \<Rightarrow> (int \<times> int option) list" where
  "bucket k xs = map snd (filter (\<lambda>x. fst x = k) xs)"

text \<open>The part of peer \<open>k\<close> while the items \<open>xs\<close> of \<open>all\<close> have been packed: their slots, then zeros.\<close>

definition segment ::
  "nat \<Rightarrow> (int \<times> int \<times> int option) list \<Rightarrow> (int \<times> int \<times> int option) list \<Rightarrow> nat \<Rightarrow> int list" where
  "segment W all xs k = concat (map slot (bucket (int k) xs))
     @ replicate (W * (length (bucket (int k) all) - length (bucket (int k) xs))) 0"

definition packed_inv ::
  "nat \<Rightarrow> nat \<Rightarrow> (int \<times> int \<times> int option) list \<Rightarrow> (int \<times> int \<times> int option) list \<Rightarrow> int list \<times> int list \<Rightarrow> bool" where
  "packed_inv W csize all xs = (\<lambda>(idx, r). idx = tally csize (map fst xs)
     \<and> (\<exists>tail. r = concat (map (segment W all xs) [0..<csize]) @ tail))"

definition slots_ok :: "nat \<Rightarrow> (int \<times> int \<times> int option) list \<Rightarrow> bool" where
  "slots_ok W xs \<longleftrightarrow> (\<forall>x \<in> set xs. length (slot (snd x)) = W)"

lemma length_bucket: "length (bucket k xs) = count_list (map fst xs) k"
  by (induction xs) (auto simp: bucket_def)

lemma bucket_single: "bucket k [(l, x)] = (if l = k then [x] else [])"
  by (simp add: bucket_def)

lemma bucket_append: "bucket k (xs @ ys) = bucket k xs @ bucket k ys"
  by (simp add: bucket_def)

lemma length_concat_slots: "slots_ok W xs \<Longrightarrow> length (concat (map slot (bucket k xs))) = W * length (bucket k xs)"
  by (induction xs) (auto simp: bucket_def slots_ok_def)

lemma length_segment:
  "slots_ok W all \<Longrightarrow> all = xs @ ys \<Longrightarrow> length (segment W all xs k) = W * length (bucket (int k) all)"
  by (simp add: segment_def length_concat_slots slots_ok_def bucket_append algebra_simps)

lemma positions_nth: "k < length cs \<Longrightarrow> positions p cs ! k = p + sum_list (take k cs)"
  by (induction cs arbitrary: p k) (auto simp: nth_Cons split: nat.splits)

lemma length_positions [simp]: "length (positions p cs) = length cs"
  by (induction cs arbitrary: p) auto

lemma take_tally: "k \<le> csize \<Longrightarrow> take k (tally csize xs) = tally k xs"
  by (simp add: tally_def take_map)

text \<open>The start of a part, in cells, is the width of a slot times its position.\<close>

lemma segment_offset:
  assumes "slots_ok W all" "all = xs @ ys" "k \<le> csize"
  shows "int (csr_offset (map (segment W all xs) [0..<csize]) k) = int W * sum_list (tally k (map fst all))"
proof -
  have "csr_offset (map (segment W all xs) [0..<csize]) k = sum_list (map (\<lambda>k. W * length (bucket (int k) all)) [0..<k])"
    using length_segment [OF assms(1,2)] assms(3) by (simp add: csr_offset_def take_map length_concat comp_def)
  also have "int \<dots> = int W * sum_list (tally k (map fst all))"
    by (induction k) (simp_all add: tally_def length_bucket algebra_simps)
  finally show ?thesis .
qed

lemma concat_update:
  "i < length segs \<Longrightarrow> concat (segs[i := x]) = concat (take i segs) @ x @ concat (drop (Suc i) segs)"
  by (simp add: upd_conv_take_nth_drop)

lemma put_slot_segment:
  assumes i: "i < length segs" "segs ! i = a @ replicate m 0" and m: "length (slot (v, w)) \<le> m"
    and p: "int (length (slot (v, w))) * p = int (csr_offset segs i + length a)"
  shows "put_slot (concat segs @ tail) p v w
    = Some (concat (segs[i := a @ slot (v, w) @ replicate (m - length (slot (v, w))) 0]) @ tail)"
proof -
  define L where "L = concat (take i segs) @ a"
  define R where "R = concat (drop (Suc i) segs) @ tail"
  have "concat segs @ tail = L @ replicate m 0 @ R"
    using concat_update [OF i(1), of "segs ! i"] unfolding list_update_id by (simp add: L_def R_def i(2))
  moreover have "concat (segs[i := a @ slot (v, w) @ replicate n 0]) @ tail = L @ slot (v, w) @ replicate n 0 @ R" for n
    using concat_update [OF i(1)] by (simp add: L_def R_def)
  moreover have "int (length (slot (v, w))) * p = int (length L)" using p by (simp add: csr_offset_def L_def)
  moreover have "put_slot (L @ replicate m 0 @ R) p v w = Some (L @ slot (v, w) @ replicate (m - length (slot (v, w))) 0 @ R)"
  proof (cases w)
    case None
    then obtain n where n: "m = Suc n" using m by (cases m) (auto simp: slot_def)
    have "p = int (length L)" using \<open>_ * p = int (length L)\<close> None by (simp add: slot_def)
    with n None show ?thesis by (simp add: put_slot_def slot_def aset_def)
  next
    case (Some x)
    then obtain n where n: "m = Suc (Suc n)" using m by (cases m; cases "m - 1") (auto simp: slot_def)
    have "2 * p = int (length L)" using \<open>_ * p = int (length L)\<close> Some by (simp add: slot_def)
    moreover have "nat (int (length L) + 1) = Suc (length L)" by simp
    ultimately show ?thesis using n Some
      by (simp add: put_slot_def slot_def aset_def list_update_append nat_add_distrib)
  qed
  ultimately show ?thesis by simp
qed

lemma pack_one_step:
  assumes ok: "slots_ok W all" "ranks_below csize (map fst all)" and all: "all = xs @ (k, v, w) # ys"
    and inv: "packed_inv W csize all xs s"
  shows "\<exists>s'. pack_one (positions 0 (tally csize (map fst all))) k v w s = Some s' \<and> packed_inv W csize all (xs @ [(k, v, w)]) s'"
proof -
  obtain n where n: "k = int n" "n < csize" using ok(2) all by (auto simp: ranks_below_def dest: zero_le_imp_eq_int)
  obtain tail where s: "s = (tally csize (map fst xs), concat (map (segment W all xs) [0..<csize]) @ tail)"
    using inv by (cases s) (auto simp: packed_inv_def)
  let ?segs = "map (segment W all xs) [0..<csize]"
  let ?a = "concat (map slot (bucket k xs))"
  let ?m = "W * (length (bucket k all) - length (bucket k xs))"
  have W: "length (slot (v, w)) = W" using ok(1) all by (simp add: slots_ok_def)
  have len: "length (bucket k all) = length (bucket k xs) + Suc (length (bucket k ys))" using all by (simp add: bucket_def)
  define p where "p = sum_list (tally n (map fst all))"
  have pos: "aget (positions 0 (tally csize (map fst all))) k = Some p"
    using n by (simp add: p_def positions_nth take_tally)
  have idx: "aget (tally csize (map fst xs)) k = Some (int (length (bucket k xs)))"
    using n by (simp add: tally_def length_bucket)
  have slots: "slots_ok W xs" using ok(1) all by (simp add: slots_ok_def)
  have "put_slot (concat ?segs @ tail) (p + int (length (bucket k xs))) v w
      = Some (concat (?segs[n := ?a @ slot (v, w) @ replicate (?m - length (slot (v, w))) 0]) @ tail)"
  proof (rule put_slot_segment)
    show "n < length ?segs" "?segs ! n = ?a @ replicate ?m 0" using n by (simp_all add: segment_def)
    show "length (slot (v, w)) \<le> ?m" using W len by simp
    show "int (length (slot (v, w))) * (p + int (length (bucket k xs))) = int (csr_offset ?segs n + length ?a)"
      using segment_offset [OF ok(1) all, of n csize] n length_concat_slots [OF slots, of k] W by (simp add: p_def algebra_simps)
  qed
  moreover have "?segs[n := ?a @ slot (v, w) @ replicate (?m - length (slot (v, w))) 0] = map (segment W all (xs @ [(k, v, w)])) [0..<csize]"
  proof (rule nth_equalityI)
    fix i
    assume "i < length (?segs[n := ?a @ slot (v, w) @ replicate (?m - length (slot (v, w))) 0])"
    then have "i < csize" by simp
    then show "?segs[n := ?a @ slot (v, w) @ replicate (?m - length (slot (v, w))) 0] ! i = map (segment W all (xs @ [(k, v, w)])) [0..<csize] ! i"
      using n W len by (auto simp: nth_list_update segment_def bucket_append bucket_single algebra_simps)
  qed simp
  moreover have "bump (tally csize (map fst xs)) k 1 = Some (tally csize (map fst (xs @ [(k, v, w)])))"
    using bump_tally [of k csize "map fst xs" 1] n by simp
  ultimately show ?thesis using pos idx s by (auto simp: pack_one_def packed_inv_def)
qed

lemma concat_replicates: "concat (map (\<lambda>k. replicate (f k) x) ks) = replicate (sum_list (map f ks)) x"
  by (induction ks) (auto simp: replicate_add)

lemma last_positions: "cs \<noteq> [] \<Longrightarrow> last (positions p cs) + last cs = p + sum_list cs"
  by (induction cs arbitrary: p) (auto simp: neq_Nil_conv)

lemma int_sum_list_map: "int (sum_list (map f ks)) = (\<Sum>k\<leftarrow>ks. int (f k))"
  by (induction ks) simp_all

lemma packed_inv_init:
  assumes "slots_ok W all" "W \<le> 2" "0 < csize"
  shows "packed_inv W csize all [] (replicate csize 0, replicate (cells_for (tally csize (map fst all))) 0)"
proof -
  let ?n = "sum_list (map (\<lambda>k. length (bucket (int k) all)) [0..<csize])"
  have "tally csize (map fst all) \<noteq> []" using assms(3) by (metis length_tally list.size(3) less_irrefl)
  then have "last (positions 0 (tally csize (map fst all))) + last (tally csize (map fst all)) = int ?n"
    using last_positions [of "tally csize (map fst all)" 0] by (simp add: tally_def length_bucket int_sum_list_map)
  then have "cells_for (tally csize (map fst all)) = W * ?n + (2 - W) * ?n"
    using assms(2) by (simp add: cells_for_def add_mult_distrib [symmetric])
  moreover have "concat (map (segment W all []) [0..<csize]) = replicate (W * ?n) 0"
    by (simp add: segment_def [abs_def] bucket_def [of _ "[]"] concat_replicates sum_list_const_mult)
  ultimately show ?thesis by (auto simp: packed_inv_def tally_Nil replicate_add)
qed

text \<open>The items of the two directions: incoming edges are keyed by their target, outgoing ones by their source.\<close>

definition items_in :: "(int \<times> int \<times> int option) list \<Rightarrow> (int \<times> int \<times> int option) list" where
  "items_in es = map (\<lambda>(s, t, w). (t, s, w)) es"

definition width :: "bool \<Rightarrow> nat" where
  "width weighted = (if weighted then 2 else 1)"

lemma args_ok_lengths:
  assumes "args_ok csize weighted args"
  shows "length (edge_sources (da_nodes args) (da_degrees args)) = length (da_targets args)"
    "length (edge_weights args) = length (da_targets args)" "length (edges_of args) = length (da_targets args)"
proof -
  show *: "length (edge_sources (da_nodes args) (da_degrees args)) = length (da_targets args)"
    using length_edge_sources [of "da_degrees args" "da_nodes args"] assms by (simp add: args_ok_def)
  show **: "length (edge_weights args) = length (da_targets args)"
    using assms by (auto simp: args_ok_def edge_weights_def split: option.splits)
  from * ** show "length (edges_of args) = length (da_targets args)" by (simp add: edges_of_def)
qed

lemma edges_of_keys:
  assumes "args_ok csize weighted args"
  shows "map fst (edges_of args) = edge_sources (da_nodes args) (da_degrees args)"
    "map fst (items_in (edges_of args)) = da_targets args"
  using args_ok_lengths [OF assms] by (auto simp: edges_of_def items_in_def list_eq_iff_nth_eq split: prod.splits)

lemma set_edge_sources: "set (edge_sources vs ds) \<subseteq> set vs"
  by (induction vs ds rule: list_induct2') auto

lemma edges_of_ranks:
  assumes "args_ok csize weighted args"
  shows "ranks_below csize (map fst (edges_of args))" "ranks_below csize (map fst (items_in (edges_of args)))"
  using assms set_edge_sources [of "da_nodes args" "da_degrees args"]
  by (auto simp: edges_of_keys [OF assms] args_ok_def ranks_below_def)

lemma edges_of_slots:
  assumes "args_ok csize weighted args"
  shows "slots_ok (width weighted) (edges_of args)" "slots_ok (width weighted) (items_in (edges_of args))"
proof -
  have "w = None \<longleftrightarrow> \<not> weighted" if "(s, t, w) \<in> set (edges_of args)" for s t w
    using that assms by (auto simp: edges_of_def edge_weights_def args_ok_def dest!: set_zip_rightD split: option.splits)
  then show "slots_ok (width weighted) (edges_of args)" "slots_ok (width weighted) (items_in (edges_of args))"
    by (fastforce simp: slots_ok_def items_in_def slot_def width_def split: option.splits)+
qed

lemma edges_of_nth:
  assumes "args_ok csize weighted args" "k < length (da_targets args)"
  shows "edges_of args ! k = (edge_sources (da_nodes args) (da_degrees args) ! k, da_targets args ! k, edge_weights args ! k)"
    "weight_at (da_weights args) (int k) = Some (edge_weights args ! k)"
  using assms args_ok_lengths [OF assms(1)]
  by (auto simp: edges_of_def weight_at_def edge_weights_def args_ok_def split: option.splits)

lemma items_in_take: "items_in (take n es) = take n (items_in es)"
  by (simp add: items_in_def take_map)

lemma take_split: "n < length xs \<Longrightarrow> xs = take n xs @ xs ! n # drop (Suc n) xs"
  by (rule id_take_nth_drop)

lemma enumerate_map: "enumerate 0 xs = map (\<lambda>k. (k, xs ! k)) [0..<length xs]"
  by (rule nth_equalityI) (simp_all add: enumerate_eq_zip)

lemma pack_loop:
  assumes ok: "args_ok csize weighted args" and "0 < csize"
  defines "es \<equiv> edges_of args"
  shows "\<exists>ins outs. edge_loop (\<lambda>v d s. Some s)
         (pack_edge (positions 0 (tally csize (map fst (items_in es)))) (positions 0 (tally csize (map fst es))) (da_targets args) (da_weights args))
         (da_nodes args) (da_degrees args) 0
         ((replicate csize 0, replicate (cells_for (tally csize (map fst (items_in es)))) 0),
          (replicate csize 0, replicate (cells_for (tally csize (map fst es))) 0)) = Some (ins, outs)
     \<and> packed_inv (width weighted) csize (items_in es) (items_in es) ins \<and> packed_inv (width weighted) csize es es outs"
proof -
  let ?W = "width weighted"
  let ?srcs = "edge_sources (da_nodes args) (da_degrees args)"
  let ?E = "pack_edge (positions 0 (tally csize (map fst (items_in es)))) (positions 0 (tally csize (map fst es))) (da_targets args) (da_weights args)"
  have len: "length ?srcs = length es" "length (da_targets args) = length es" using args_ok_lengths [OF ok] by (simp_all add: es_def)
  have lds: "length (da_degrees args) = length (da_nodes args)" using ok by (simp add: args_ok_def)
  have "enumerate 0 ?srcs = map (\<lambda>k. (k, ?srcs ! k)) [0..<length es]"
    using enumerate_map [of ?srcs] len by simp
  then have flat: "edge_loop (\<lambda>v d s. Some s) ?E (da_nodes args) (da_degrees args) 0 s
      = ofold (\<lambda>k. ?E (?srcs ! k) (int k)) [0..<length es] s" for s
    using edge_loop_flat [OF lds, of ?E 0 s] by (simp add: ofold_map)
  let ?P = "\<lambda>n (ins, outs). packed_inv ?W csize (items_in es) (items_in (take n es)) ins \<and> packed_inv ?W csize es (take n es) outs"
  have "\<exists>s'. ofold (\<lambda>k. ?E (?srcs ! k) (int k)) [0..<length es]
      ((replicate csize 0, replicate (cells_for (tally csize (map fst (items_in es)))) 0),
       (replicate csize 0, replicate (cells_for (tally csize (map fst es))) 0)) = Some s' \<and> ?P (length es) s'"
  proof (rule ofold_upt_inv [where P = ?P])
    show "?P 0 ((replicate csize 0, replicate (cells_for (tally csize (map fst (items_in es)))) 0),
       (replicate csize 0, replicate (cells_for (tally csize (map fst es))) 0))"
      using packed_inv_init edges_of_slots [OF ok] assms(2) by (simp add: es_def items_in_def [of "[]"] width_def)
  next
    fix k s
    assume k: "k < length es" and P: "?P k s"
    obtain ins outs where s: "s = (ins, outs)" by (cases s)
    obtain v t w where e: "es ! k = (v, t, w)" "?srcs ! k = v" "da_targets args ! k = t" "weight_at (da_weights args) (int k) = Some w"
      using edges_of_nth [OF ok, of k] k len by (simp add: es_def)
    have es: "es = take k es @ (v, t, w) # drop (Suc k) es" using take_split [OF k] e(1) by simp
    then have "items_in es = items_in (take k es @ (v, t, w) # drop (Suc k) es)" by (rule arg_cong)
    then have its: "items_in es = items_in (take k es) @ (t, v, w) # items_in (drop (Suc k) es)"
      by (simp only: items_in_def map_append list.map prod.case)
    have nxt: "take (Suc k) es = take k es @ [(v, t, w)]" using k e(1) by (simp add: take_Suc_conv_app_nth)
    obtain outs' where outs': "pack_one (positions 0 (tally csize (map fst es))) v t w outs = Some outs'"
        "packed_inv ?W csize es (take k es @ [(v, t, w)]) outs'"
      using pack_one_step [OF edges_of_slots(1) [OF ok] edges_of_ranks(1) [OF ok], folded es_def, OF es, of outs] P s by auto
    obtain ins' where ins': "pack_one (positions 0 (tally csize (map fst (items_in es)))) t v w ins = Some ins'"
        "packed_inv ?W csize (items_in es) (items_in (take k es) @ [(t, v, w)]) ins'"
      using pack_one_step [OF edges_of_slots(2) [OF ok] edges_of_ranks(2) [OF ok], folded es_def, OF its, of ins] P s by auto
    have "aget (da_targets args) (int k) = Some t" using k len e(3) by simp
    then have "?E (?srcs ! k) (int k) s = Some (ins', outs')"
      using outs'(1) ins'(1) e(2,4) s by (simp add: pack_edge_def)
    moreover have "?P (Suc k) (ins', outs')" using outs'(2) ins'(2) nxt by (simp add: items_in_def)
    ultimately show "\<exists>s'. ?E (?srcs ! k) (int k) s = Some s' \<and> ?P (Suc k) s'" by blast
  qed
  then show ?thesis unfolding flat by auto
qed

section \<open>Messages\<close>

lemma dist_messages_map:
  "length ps = length cs \<Longrightarrow> (\<And>k. k < length cs \<Longrightarrow> cs ! k \<noteq> 0 \<Longrightarrow> asub r (W * ps ! k) (W * cs ! k) = Some (f k)) \<Longrightarrow>
     dist_messages W r ps cs = Some (map (\<lambda>k. if cs ! k \<noteq> 0 then Some (f k) else None) [0..<length cs])"
proof (induction ps cs arbitrary: f rule: list_induct2)
  case (Cons p ps c cs)
  have "dist_messages W r ps cs = Some (map (\<lambda>k. if cs ! k \<noteq> 0 then Some (f (Suc k)) else None) [0..<length cs])"
    using Cons.prems [of "Suc _"] by (intro Cons.IH) simp
  moreover have "c \<noteq> 0 \<Longrightarrow> asub r (W * p) (W * c) = Some (f 0)" using Cons.prems [of 0] by simp
  ultimately show ?case by (simp add: map_upt_Suc del: upt_Suc)
qed simp

lemma asub_middle: "asub (A @ xs @ B) (int (length A)) (int (length xs)) = Some xs"
  by (simp add: asub_def)

lemma packed_message:
  assumes "packed_inv W csize all all (idx, r)" "slots_ok W all" "k < csize"
  shows "asub r (int W * positions 0 (tally csize (map fst all)) ! k) (int W * tally csize (map fst all) ! k)
    = Some (concat (map slot (bucket (int k) all)))"
proof -
  let ?segs = "map (segment W all all) [0..<csize]"
  obtain tail where r: "r = concat ?segs @ tail" using assms(1) by (auto simp: packed_inv_def)
  have seg: "?segs ! k = concat (map slot (bucket (int k) all))" using assms(3) by (simp add: segment_def)
  have "length (?segs ! k) = W * length (bucket (int k) all)"
    using assms(3) length_segment [OF assms(2), of all "[]" k] by simp
  moreover have "tally csize (map fst all) ! k = int (length (bucket (int k) all))" using assms(3) by (simp add: tally_def length_bucket)
  ultimately have n: "int W * tally csize (map fst all) ! k = int (length (?segs ! k))" by simp
  have off: "int W * positions 0 (tally csize (map fst all)) ! k = int (length (concat (take k ?segs)))"
    using assms(3) segment_offset [OF assms(2), of all "[]" k csize] by (simp add: positions_nth take_tally csr_offset_def)
  have "r = concat (take k ?segs) @ ?segs ! k @ (concat (drop (Suc k) ?segs) @ tail)"
    using concat_update [of k ?segs "?segs ! k"] assms(3) unfolding list_update_id r by simp
  then show ?thesis using asub_middle [of "concat (take k ?segs)" "?segs ! k"] unfolding n off seg by metis
qed

text \<open>What one process sends to the process \<open>r\<close>, and what it adds to the sums that \<open>r\<close> gets from the reduction.\<close>

definition packed_of :: "nat \<Rightarrow> dist_graph_args \<Rightarrow> dist_packed option" where
  "packed_of csize args = Option.bind (dist_count csize args) (dist_pack csize args)"

definition message_to :: "nat \<Rightarrow> int list option list option \<Rightarrow> int list list" where
  "message_to r sends = (case sends of None \<Rightarrow> [] | Some ms \<Rightarrow> (case ms ! r of None \<Rightarrow> [] | Some m \<Rightarrow> [m]))"

definition posted_in :: "nat \<Rightarrow> nat \<Rightarrow> dist_graph_args \<Rightarrow> int list list" where
  "posted_in csize r args = message_to r (Option.bind (packed_of csize args) (sends_in args))"

definition posted_out :: "nat \<Rightarrow> nat \<Rightarrow> dist_graph_args \<Rightarrow> int list list" where
  "posted_out csize r args = message_to r (Option.bind (packed_of csize args) (sends_out args))"

definition counted_in :: "nat \<Rightarrow> nat \<Rightarrow> dist_graph_args \<Rightarrow> int" where
  "counted_in csize r args = (case packed_of csize args of None \<Rightarrow> 0 | Some p \<Rightarrow> dp_idx_in p ! r)"

definition counted_out :: "nat \<Rightarrow> nat \<Rightarrow> dist_graph_args \<Rightarrow> int" where
  "counted_out csize r args = (case packed_of csize args of None \<Rightarrow> 0 | Some p \<Rightarrow> dp_idx_out p ! r)"

definition message_of :: "(int \<times> int option) list \<Rightarrow> int list list" where
  "message_of b = (if b = [] then [] else [concat (map slot b)])"

lemma dist_messages_packed:
  assumes "packed_inv W csize all all (idx, r)" "slots_ok W all"
  shows "dist_messages (int W) r (positions 0 (tally csize (map fst all))) (tally csize (map fst all))
    = Some (map (\<lambda>k. if bucket (int k) all \<noteq> [] then Some (concat (map slot (bucket (int k) all))) else None) [0..<csize])"
proof -
  have nz: "tally csize (map fst all) ! k \<noteq> 0 \<longleftrightarrow> bucket (int k) all \<noteq> []" if "k < csize" for k
    using that length_0_conv [of "bucket (int k) all"] by (simp add: tally_def length_bucket)
  have "dist_messages (int W) r (positions 0 (tally csize (map fst all))) (tally csize (map fst all))
    = Some (map (\<lambda>k. if tally csize (map fst all) ! k \<noteq> 0 then Some (concat (map slot (bucket (int k) all))) else None) [0..<length (tally csize (map fst all))])"
    using packed_message [OF assms] by (intro dist_messages_map) simp_all
  then show ?thesis using nz by simp
qed

lemma packed_of_correct:
  assumes ok: "args_ok csize weighted args" and "0 < csize"
  shows "\<exists>p. packed_of csize args = Some p
    \<and> dp_idx_in p = tally csize (map fst (items_in (edges_of args))) \<and> dp_idx_out p = tally csize (map fst (edges_of args))
    \<and> sends_in args p = Some (map (\<lambda>k. if bucket (int k) (items_in (edges_of args)) \<noteq> [] then Some (concat (map slot (bucket (int k) (items_in (edges_of args))))) else None) [0..<csize])
    \<and> sends_out args p = Some (map (\<lambda>k. if bucket (int k) (edges_of args) \<noteq> [] then Some (concat (map slot (bucket (int k) (edges_of args)))) else None) [0..<csize])"
proof -
  let ?es = "edges_of args"
  have cnt: "dist_count csize args = Some (tally csize (map fst (items_in ?es)), tally csize (map fst ?es))"
    using dist_count_correct [OF ok] edges_of_keys [OF ok] by simp
  obtain idx_in rin idx_out rout where pack: "dist_pack csize args (tally csize (map fst (items_in ?es)), tally csize (map fst ?es))
      = Some \<lparr>dp_cnt_in = tally csize (map fst (items_in ?es)), dp_cnt_out = tally csize (map fst ?es),
          dp_idx_in = idx_in, dp_idx_out = idx_out, dp_rin = rin, dp_rout = rout\<rparr>"
      "packed_inv (width weighted) csize (items_in ?es) (items_in ?es) (idx_in, rin)" "packed_inv (width weighted) csize ?es ?es (idx_out, rout)"
    using pack_loop [OF ok assms(2)] by (fastforce simp: dist_pack_def)
  have W: "slot_width args = int (width weighted)"
    using ok by (auto simp: slot_width_def width_def args_ok_def split: option.splits)
  have "idx_in = tally csize (map fst (items_in ?es))" "idx_out = tally csize (map fst ?es)"
    using pack(2,3) by (simp_all add: packed_inv_def)
  then show ?thesis
    using cnt pack(1) W dist_messages_packed [OF pack(2) edges_of_slots(2) [OF ok]] dist_messages_packed [OF pack(3) edges_of_slots(1) [OF ok]]
    by (simp add: packed_of_def sends_in_def sends_out_def)
qed

lemma posted_correct:
  assumes "args_ok csize weighted args" "r < csize"
  shows "posted_in csize r args = message_of (bucket (int r) (items_in (edges_of args)))"
    "posted_out csize r args = message_of (bucket (int r) (edges_of args))"
    "counted_in csize r args = int (length (bucket (int r) (items_in (edges_of args))))"
    "counted_out csize r args = int (length (bucket (int r) (edges_of args)))"
proof -
  have "0 < csize" using assms(2) by simp
  from packed_of_correct [OF assms(1) this] assms(2)
  show "posted_in csize r args = message_of (bucket (int r) (items_in (edges_of args)))"
    "posted_out csize r args = message_of (bucket (int r) (edges_of args))"
    "counted_in csize r args = int (length (bucket (int r) (items_in (edges_of args))))"
    "counted_out csize r args = int (length (bucket (int r) (edges_of args)))"
    by (auto simp: posted_in_def posted_out_def counted_in_def counted_out_def message_to_def message_of_def tally_def length_bucket)
qed

section \<open>Receiving\<close>

text \<open>The edges a message or a pair of arrays stands for.\<close>

definition decode :: "bool \<Rightarrow> int list \<Rightarrow> (int \<times> int option) list" where
  "decode weighted m = (if weighted then map (\<lambda>(v, w). (v, Some w)) (pairs m) else map (\<lambda>v. (v, None)) m)"

definition edge_list :: "int list option \<Rightarrow> int list option \<Rightarrow> (int \<times> int option) list" where
  "edge_list vs ws = (case vs of None \<Rightarrow> [] | Some v \<Rightarrow>
     (case ws of None \<Rightarrow> map (\<lambda>x. (x, None)) v | Some w \<Rightarrow> zip v (map Some w)))"

lemma recv_edges_correct:
  "\<forall>m \<in> set ms. m \<noteq> [] \<Longrightarrow> left_over = int (length (concat ms)) \<Longrightarrow>
     recv_edges weighted left_over ms (vs, ws)
       = Some (vs @ map fst (concat (map (decode weighted) ms)),
               ws @ (if weighted then map (the \<circ> snd) (concat (map (decode weighted) ms)) else []))"
proof (induction ms arbitrary: left_over vs ws)
  case (Cons m ms)
  have "0 < length m" using Cons.prems(1) by simp
  moreover have "map fst (decode weighted m) = (if weighted then map fst (pairs m) else m)"
    "weighted \<Longrightarrow> map (the \<circ> snd) (decode weighted m) = map snd (pairs m)"
    by (auto simp: decode_def comp_def)
  moreover have "\<not> int (length m) + int (length (concat ms)) \<le> 0" using \<open>0 < length m\<close> by linarith
  ultimately show ?case using Cons by (cases weighted) simp_all
qed simp

lemma zip_fst_snd: "\<forall>x \<in> set xs. snd x \<noteq> None \<Longrightarrow> zip (map fst xs) (map (Some \<circ> (the \<circ> snd)) xs) = xs"
  by (induction xs) auto

lemma recv_direction_correct:
  assumes "\<forall>m \<in> set ms. m \<noteq> []" "int (width weighted) * degree = int (length (concat ms))"
    "length (concat (map (decode weighted) ms)) = nat degree"
  shows "\<exists>vs ws. recv_direction weighted degree ms = Some (vs, ws) \<and> edge_list vs ws = concat (map (decode weighted) ms)"
proof -
  let ?d = "concat (map (decode weighted) ms)"
  have "recv_edges weighted (if weighted then 2 * degree else degree) ms ([], [])
      = Some (map fst ?d, if weighted then map (the \<circ> snd) ?d else [])"
    using recv_edges_correct [OF assms(1), of "if weighted then 2 * degree else degree" weighted "[]" "[]"] assms(2)
    by (simp add: width_def split: if_splits)
  moreover have "edge_list (Some (map fst ?d)) (if weighted then Some (map (the \<circ> snd) ?d) else None) = ?d"
  proof (cases weighted)
    case True
    then have "\<forall>x \<in> set ?d. snd x \<noteq> None" by (auto simp: decode_def)
    from zip_fst_snd [OF this] True show ?thesis by (simp add: edge_list_def del: map_map add: map_map [symmetric])
  next
    case False
    then have "\<forall>x \<in> set ?d. x = (fst x, None)" by (auto simp: decode_def)
    then have "map (\<lambda>x. (fst x, None)) ?d = ?d" by (intro map_idI) auto
    with False show ?thesis by (simp add: edge_list_def comp_def del: map_concat)
  qed
  moreover have "degree \<le> 0 \<Longrightarrow> ?d = []" using assms(3) by (metis length_0_conv nat_le_0)
  ultimately show ?thesis by (auto simp: recv_direction_def edge_list_def [of None])
qed

lemma decode_slots: "\<forall>x \<in> set b. length (slot x) = width weighted \<Longrightarrow> decode weighted (concat (map slot b)) = b"
  by (induction b) (auto simp: decode_def slot_def width_def split: option.splits if_splits)

lemma mset_concat_map_perm: "mset ms = mset ns \<Longrightarrow> mset (concat (map f ms)) = mset (concat (map f ns))"
  by (metis mset_concat mset_map map_map sum_mset_sum_list)

lemma length_concat_perm: "mset ms = mset ns \<Longrightarrow> length (concat ms) = length (concat ns)"
  by (metis mset_concat_map_perm map_ident size_mset)

lemma recv_direction_perm:
  assumes slots: "\<forall>b \<in> set bs. \<forall>x \<in> set b. length (slot x) = width weighted"
    and perm: "mset ms = mset (concat (map message_of bs))" and degree: "degree = (\<Sum>b\<leftarrow>bs. int (length b))"
  shows "\<exists>vs ws. recv_direction weighted degree ms = Some (vs, ws) \<and> mset (edge_list vs ws) = mset (concat bs)"
proof -
  have nonempty: "\<forall>m \<in> set ms. m \<noteq> []"
  proof
    fix m
    assume "m \<in> set ms"
    then have "m \<in> set (concat (map message_of bs))" using perm by (metis set_mset_mset)
    then show "m \<noteq> []" by (auto simp: message_of_def slot_def neq_Nil_conv split: if_splits)
  qed
  have deg: "degree = int (length (concat bs))" using degree by (simp add: length_concat int_sum_list_map)
  have "concat (map (decode weighted) (concat (map message_of bs))) = concat bs"
    using slots by (induction bs) (auto simp: message_of_def decode_slots)
  then have dec: "mset (concat (map (decode weighted) ms)) = mset (concat bs)" using mset_concat_map_perm [OF perm] by metis
  have "length (concat (map slot b)) = width weighted * length b" if "\<forall>x \<in> set b. length (slot x) = width weighted" for b
    using that by (induction b) auto
  then have "length (concat (concat (map message_of bs))) = width weighted * length (concat bs)"
    using slots by (induction bs) (auto simp: message_of_def algebra_simps)
  then have "int (width weighted) * degree = int (length (concat ms))" using length_concat_perm [OF perm] deg by simp
  moreover have "length (concat (map (decode weighted) ms)) = nat degree" using dec deg by (metis nat_int size_mset)
  ultimately show ?thesis using recv_direction_correct [OF nonempty] dec by metis
qed

section \<open>Properties\<close>

text \<open>The edges a process handed over that enter or leave the process \<open>r\<close>, with their weights.\<close>

definition incoming :: "nat \<Rightarrow> dist_graph_args \<Rightarrow> (int \<times> int option) list" where
  "incoming r args = map (\<lambda>(s, t, w). (s, w)) (filter (\<lambda>(s, t, w). t = int r) (edges_of args))"

definition outgoing :: "nat \<Rightarrow> dist_graph_args \<Rightarrow> (int \<times> int option) list" where
  "outgoing r args = map (\<lambda>(s, t, w). (t, w)) (filter (\<lambda>(s, t, w). s = int r) (edges_of args))"

lemma bucket_incoming: "bucket (int r) (items_in (edges_of args)) = incoming r args"
proof -
  have "map snd (filter (\<lambda>x. fst x = int r) (map (\<lambda>(s, t, w). (t, s, w)) es))
      = map (\<lambda>(s, t, w). (s, w)) (filter (\<lambda>(s, t, w). t = int r) es)" for es :: "(int \<times> int \<times> int option) list"
    by (induction es) auto
  then show ?thesis by (simp add: incoming_def bucket_def items_in_def)
qed

lemma bucket_outgoing: "bucket (int r) (edges_of args) = outgoing r args"
proof -
  have "map snd (filter (\<lambda>x. fst x = int r) es) = map (\<lambda>(s, t, w). (t, w)) (filter (\<lambda>(s, t, w). s = int r) es)"
    for es :: "(int \<times> int \<times> int option) list" by (induction es) auto
  then show ?thesis by (simp add: outgoing_def bucket_def)
qed

lemma bucket_slots: "slots_ok W xs \<Longrightarrow> \<forall>x \<in> set (bucket k xs). length (slot x) = W"
  by (auto simp: slots_ok_def bucket_def)

text \<open>C5: every process hands over any edges of the graph, all weighted or all unweighted. Whatever the order in which the
  messages of the others arrive at the process \<open>r\<close>, \<^verbatim>\<open>MPI_Dist_graph_create\<close> returns success there, and the topology it stores has
  exactly the edges, with their weights and multiplicities, that enter and leave \<open>r\<close> in the whole graph. \<open>reduced\<close> is the sum
  of the counts of all processes, as \<^verbatim>\<open>MPI_Reduce_scatter_block\<close> computes it.\<close>

theorem dist_graph_create_exact:
  assumes "\<forall>args \<in> set inputs. args_ok csize weighted args" "r < csize" "args \<in> set inputs"
    "reduced = (\<Sum>a\<leftarrow>inputs. counted_in csize r a, \<Sum>a\<leftarrow>inputs. counted_out csize r a)"
    "mset msgs_in = mset (concat (map (posted_in csize r) inputs))"
    "mset msgs_out = mset (concat (map (posted_out csize r) inputs))"
  shows "\<exists>topo. mca_topo_base_dist_graph_create (\<lambda>_. True) OPAL_SUCCESS csize args reduced msgs_in msgs_out OPAL_SUCCESS
      = Some (OPAL_SUCCESS, Some topo)
    \<and> dg_indegree topo = int (length (concat (map (incoming r) inputs))) \<and> dg_outdegree topo = int (length (concat (map (outgoing r) inputs)))
    \<and> mset (edge_list (dg_in topo) (dg_inw topo)) = mset (concat (map (incoming r) inputs))
    \<and> mset (edge_list (dg_out topo) (dg_outw topo)) = mset (concat (map (outgoing r) inputs))
    \<and> dg_weighted topo = weighted"
proof -
  have slots: "\<forall>b \<in> set (map (incoming r) inputs). \<forall>x \<in> set b. length (slot x) = width weighted"
    "\<forall>b \<in> set (map (outgoing r) inputs). \<forall>x \<in> set b. length (slot x) = width weighted"
    using assms(1) by (simp_all flip: bucket_incoming bucket_outgoing) (metis edges_of_slots bucket_slots)+
  have post: "map (posted_in csize r) inputs = map message_of (map (incoming r) inputs)"
      "map (posted_out csize r) inputs = map message_of (map (outgoing r) inputs)"
      "map (counted_in csize r) inputs = map (\<lambda>b. int (length b)) (map (incoming r) inputs)"
      "map (counted_out csize r) inputs = map (\<lambda>b. int (length b)) (map (outgoing r) inputs)"
    using assms(1,2) by (auto simp: posted_correct bucket_incoming bucket_outgoing)
  obtain ins inw where ins: "recv_direction weighted (fst reduced) msgs_in = Some (ins, inw)"
      "mset (edge_list ins inw) = mset (concat (map (incoming r) inputs))"
    using recv_direction_perm [OF slots(1)] assms(4,5) post(1,3) by fastforce
  obtain outs outw where outs: "recv_direction weighted (snd reduced) msgs_out = Some (outs, outw)"
      "mset (edge_list outs outw) = mset (concat (map (outgoing r) inputs))"
    using recv_direction_perm [OF slots(2)] assms(4,6) post(2,4) by fastforce
  have ok: "args_ok csize weighted args" "0 < csize" using assms(1-3) by auto
  then have w: "(da_weights args \<noteq> None) = weighted" by (auto simp: args_ok_def split: option.splits)
  obtain p where "packed_of csize args = Some p" "sends_in args p \<noteq> None" "sends_out args p \<noteq> None"
    using packed_of_correct [OF ok] by auto
  then obtain cnt where "dist_count csize args = Some cnt" "dist_pack csize args cnt = Some p"
      "\<exists>x. sends_in args p = Some x" "\<exists>x. sends_out args p = Some x"
    by (auto simp: packed_of_def bind_eq_Some_conv)
  moreover have "fst reduced = int (length (concat (map (incoming r) inputs)))" "snd reduced = int (length (concat (map (outgoing r) inputs)))"
    using assms(4) post(3,4) by (simp_all add: length_concat int_sum_list_map comp_def)
  ultimately show ?thesis using ins outs w
    by (auto simp: mca_topo_base_dist_graph_create_def mca_topo_base_dist_graph_distribute_def case_prod_beta Let_def)
qed

theorem dist_graph_create_exact_witness:
  "\<exists>topo. mca_topo_base_dist_graph_create (\<lambda>_. True) OPAL_SUCCESS 2
      \<lparr>da_nodes = [1], da_degrees = [1], da_targets = [1], da_weights = Some [9]\<rparr> (2, 1) [[1, 9], [0, 7]] [[1, 9]] OPAL_SUCCESS
      = Some (OPAL_SUCCESS, Some topo)
    \<and> mset (edge_list (dg_in topo) (dg_inw topo)) = mset [(0, Some 7), (1, Some 9)]
    \<and> mset (edge_list (dg_out topo) (dg_outw topo)) = mset [(1, Some 9)]"
proof -
  define a0 where "a0 = \<lparr>da_nodes = [0], da_degrees = [2], da_targets = [1, 0], da_weights = Some [7, 8]\<rparr>"
  define a1 where "a1 = \<lparr>da_nodes = [1], da_degrees = [1], da_targets = [1], da_weights = Some [9]\<rparr>"
  have "args_ok 2 True a0" "args_ok 2 True a1" by (simp_all add: args_ok_def ranks_below_def a0_def a1_def)
  moreover have "posted_in 2 1 a0 = [[0, 7]]" "posted_in 2 1 a1 = [[1, 9]]" "posted_out 2 1 a0 = []" "posted_out 2 1 a1 = [[1, 9]]"
    "counted_in 2 1 a0 = 1" "counted_in 2 1 a1 = 1" "counted_out 2 1 a0 = 0" "counted_out 2 1 a1 = 1"
    unfolding a0_def a1_def by code_simp+
  moreover have "incoming 1 a0 = [(0, Some 7)]" "incoming 1 a1 = [(1, Some 9)]" "outgoing 1 a0 = []" "outgoing 1 a1 = [(1, Some 9)]"
    unfolding a0_def a1_def by code_simp+
  ultimately show ?thesis
    using dist_graph_create_exact [of "[a0, a1]" 2 True 1 a1 "(2, 1)" "[[1, 9], [0, 7]]" "[[1, 9]]"]
    by (auto simp: a1_def [symmetric])
qed

lemma read_copy:
  "copy_ints True xs (int (length xs)) = Some (Inr (if xs = [] then None else Some xs))"
  "read_ints (if xs = [] then None else Some xs) n = asub xs 0 n"
  by (auto simp: copy_ints_def read_ints_def asub_def)

text \<open>what a process passes to \<^verbatim>\<open>MPI_Dist_graph_create_adjacent\<close> is what \<^verbatim>\<open>MPI_Dist_graph_neighbors_count\<close> and
  \<^verbatim>\<open>MPI_Dist_graph_neighbors\<close> report: the degrees, the sources and the destinations; asking for more neighbours than there are is
  refused, asking for fewer gives the first ones.\<close>

lemma dist_graph_adjacent_roundtrip:
  "\<exists>topo. mca_topo_base_dist_graph_create_adjacent (\<lambda>_. True) OPAL_SUCCESS (int (length sources)) sources None
        (int (length destinations)) destinations None = Some (Inr topo)
    \<and> mca_topo_base_dist_graph_neighbors_count (Some topo) = Inr (int (length sources), int (length destinations), False)
    \<and> (\<forall>m n. mca_topo_base_dist_graph_neighbors (Some topo) m n =
          (if m > int (length sources) \<or> n > int (length destinations) then Some (Inl OPAL_ERR_BAD_PARAM)
           else Some (Inr ((take (nat m) sources, None), (take (nat n) destinations, None)))))"
proof -
  define topo where "topo = \<lparr>dg_in = if sources = [] then None else Some sources, dg_inw = None,
    dg_out = if destinations = [] then None else Some destinations, dg_outw = None,
    dg_indegree = int (length sources), dg_outdegree = int (length destinations), dg_weighted = False\<rparr>"
  have sub: "n \<le> int (length xs) \<Longrightarrow> asub xs 0 (min (int (length xs)) n) = Some (take (nat n) xs)" for xs :: "int list" and n
    by (auto simp: asub_def)
  have "mca_topo_base_dist_graph_create_adjacent (\<lambda>_. True) OPAL_SUCCESS (int (length sources)) sources None
        (int (length destinations)) destinations None = Some (Inr topo)"
    by (simp add: mca_topo_base_dist_graph_create_adjacent_def read_copy copy_weights_def topo_def)
  moreover have "mca_topo_base_dist_graph_neighbors_count (Some topo) = Inr (int (length sources), int (length destinations), False)"
    by (simp add: mca_topo_base_dist_graph_neighbors_count_def topo_def)
  moreover have "mca_topo_base_dist_graph_neighbors (Some topo) m n =
          (if m > int (length sources) \<or> n > int (length destinations) then Some (Inl OPAL_ERR_BAD_PARAM)
           else Some (Inr ((take (nat m) sources, None), (take (nat n) destinations, None))))" for m n
    unfolding mca_topo_base_dist_graph_neighbors_def topo_def
    using sub [of m sources] sub [of n destinations] by (auto simp: read_copy(2) read_weights_def)
  ultimately show ?thesis by blast
qed

end
