(* ===== verification/Dims_Create.thy ===== *)
theory Dims_Create
  imports OMPI_Prelude "HOL-Library.Multiset"
begin

text \<open>
  \<^verbatim>\<open>MPI_Dims_create\<close> of \<^verbatim>\<open>ompi/mpi/c/dims_create.c\<close> with its three helpers: the list of primes, the
  factorisation, and the greedy distribution of the factors over the free dimensions. The function
  is modelled with parameter checking switched on, as it is by default; behind the checks all numbers
  are non-negative, so the helpers work on natural numbers. The answers of the allocator are
  arguments. The loop of \<^verbatim>\<open>getfactors\<close> that divides by a prime as often as possible does not end when the
  number is \<open>0\<close>; it is a partial function whose value is then \<^const>\<open>None\<close>.
\<close>

section \<open>Operations\<close>

text \<open>One candidate \<open>n\<close> of \<^verbatim>\<open>getprimes\<close>: the inner loop skips the prime 2, candidates are odd.
  \<^const>\<open>None\<close>: the array of \<open>sz\<close> cells is full.\<close>

definition prime_step :: "nat \<Rightarrow> nat \<Rightarrow> nat list \<Rightarrow> nat list option" where
  "prime_step sz n primes =
     (if \<exists>j \<in> set [1..<length primes]. n mod (primes ! j) = 0 then Some primes
      else if length primes \<ge> sz then None
      else Some (primes @ [n]))"

text \<open>The counter \<^verbatim>\<open>n\<close> overflows when it has to pass \<^verbatim>\<open>INT_MAX\<close>.\<close>

definition getprimes :: "bool \<Rightarrow> nat \<Rightarrow> (int \<times> nat list) option" where
  "getprimes mem num =
     (let sz = num div 2 + 1
      in if \<not> mem then Some (MPI_ERR_NO_MEM, [])
         else if int num \<ge> INT_MAX then None
         else
           (case ofold (\<lambda>k. prime_step sz (2 * k + 3)) [0..<(num - 1) div 2] [2] of
              None \<Rightarrow> Some (MPI_ERR_DIMS, [])
            | Some primes \<Rightarrow> Some (MPI_SUCCESS, primes)))"

text \<open>The \<^verbatim>\<open>while\<close> loop of \<^verbatim>\<open>getfactors\<close> for one prime: the count and the cofactor.\<close>

partial_function (option) divide_out :: "nat \<Rightarrow> nat \<Rightarrow> nat \<Rightarrow> (nat \<times> nat) option" where
  "divide_out p c num = (if num mod p = 0 then divide_out p (c + 1) (num div p) else Some (c, num))"

declare divide_out.simps [code]

text \<open>The outer loop, from the last prime to the first; the counts are collected in the order of the
  primes.\<close>

definition factor_step :: "nat \<Rightarrow> nat list \<times> nat \<Rightarrow> (nat list \<times> nat) option" where
  "factor_step p = (\<lambda>(counts, num). do {
     (c, num) \<leftarrow> divide_out p 0 num;
     Some (c # counts, num)
   })"

definition getfactors :: "bool \<Rightarrow> nat \<Rightarrow> nat list \<Rightarrow> (int \<times> nat list) option" where
  "getfactors mem num primes =
     (if primes = [] then Some (MPI_ERR_INTERN, [])
      else if \<not> mem then Some (MPI_ERR_NO_MEM, [])
      else do {
        (counts, num) \<leftarrow> ofold factor_step (rev primes) ([], num);
        Some (if num \<noteq> 1 then MPI_ERR_INTERN else MPI_SUCCESS, counts)
      })"

text \<open>The index of the first smallest bin.\<close>

definition min_bin :: "nat list \<Rightarrow> nat" where
  "min_bin bins = fold (\<lambda>i m. if bins ! i < bins ! m then i else m) [1..<length bins] 0"

definition put_factor :: "nat \<Rightarrow> nat list \<Rightarrow> nat list" where
  "put_factor f bins = bins[min_bin bins := bins ! min_bin bins * f]"

text \<open>The exchange sort into decreasing order.\<close>

definition swap_if_greater :: "nat \<Rightarrow> nat \<Rightarrow> nat list \<Rightarrow> nat list" where
  "swap_if_greater i j bins = (if bins ! j > bins ! i then bins[i := bins ! j, j := bins ! i] else bins)"

definition sort_bins :: "nat list \<Rightarrow> nat list" where
  "sort_bins bins =
     fold (\<lambda>i bins. fold (\<lambda>j. swap_if_greater i j) [Suc i..<length bins] bins) [0..<length bins - 1] bins"

definition assignnodes :: "bool \<Rightarrow> nat \<Rightarrow> nat list \<Rightarrow> nat list \<Rightarrow> int \<times> nat list" where
  "assignnodes mem ndim pfacts counts =
     (if ndim = 0 then (MPI_ERR_DIMS, [])
      else if \<not> mem then (MPI_ERR_NO_MEM, [])
      else (MPI_SUCCESS,
        sort_bins (fold (\<lambda>(f, n) bins. (put_factor f ^^ n) bins) (rev (zip pfacts counts)) (replicate ndim 1))))"

text \<open>The first loop: free processes and free dimensions; \<^term>\<open>Inl ()\<close> for a dimension that is refused.\<close>

fun count_free :: "int \<Rightarrow> int list \<Rightarrow> int \<Rightarrow> nat \<Rightarrow> unit + int \<times> nat" where
  "count_free nnodes [] freeprocs freedims = Inr (freeprocs, freedims)"
| "count_free nnodes (p # ps) freeprocs freedims =
     (if p = 0 then count_free nnodes ps freeprocs (freedims + 1)
      else if p < 0 \<or> nnodes smod p \<noteq> 0 then Inl ()
      else count_free nnodes ps (freeprocs sdiv p) freedims)"

text \<open>The last loop: the free dimensions take the computed extents in order.\<close>

fun fill_dims :: "int list \<Rightarrow> nat list \<Rightarrow> int list option" where
  "fill_dims [] procs = Some []"
| "fill_dims (d # ds) procs =
     (if d \<noteq> 0 then map_option (\<lambda>r. d # r) (fill_dims ds procs)
      else (case procs of [] \<Rightarrow> None | p # ps \<Rightarrow> map_option (\<lambda>r. int p # r) (fill_dims ds ps)))"

text \<open>\<open>dims\<close> is the caller's array of \<^verbatim>\<open>ndims\<close> cells, or the null pointer; the result is the
  return code and the array.\<close>

definition MPI_Dims_create :: "bool \<times> bool \<times> bool \<Rightarrow> int \<Rightarrow> int list option \<Rightarrow> (int \<times> int list option) option" where
  "MPI_Dims_create = (\<lambda>(mem1, mem2, mem3) nnodes dims.
     (case dims of
        None \<Rightarrow> Some (MPI_ERR_ARG, None)
      | Some ds \<Rightarrow>
          if ds = [] then Some (MPI_ERR_DIMS, dims)
          else if 1 > nnodes then Some (MPI_ERR_DIMS, dims)
          else
            (case count_free nnodes ds nnodes 0 of
               Inl () \<Rightarrow> Some (MPI_ERR_DIMS, dims)
             | Inr (freeprocs, freedims) \<Rightarrow>
                 if freedims = 0 then Some (if freeprocs = 1 then MPI_SUCCESS else MPI_ERR_DIMS, dims)
                 else if freeprocs = 1 then Some (MPI_SUCCESS, Some (map (\<lambda>d. if d = 0 then 1 else d) ds))
                 else do {
                   (err, primes) \<leftarrow> getprimes mem1 (nat freeprocs);
                   if err \<noteq> MPI_SUCCESS then Some (err, dims)
                   else do {
                     (err, factors) \<leftarrow> getfactors mem2 (nat freeprocs) primes;
                     if err \<noteq> MPI_SUCCESS then Some (err, dims)
                     else
                       (case assignnodes mem3 freedims primes factors of (err, procs) \<Rightarrow>
                          if err \<noteq> MPI_SUCCESS then Some (err, dims)
                          else do {
                            ds \<leftarrow> fill_dims ds procs;
                            Some (MPI_SUCCESS, Some ds)
                          })
                   }
                 })))"

section \<open>Primes\<close>

definition is_prime :: "nat \<Rightarrow> bool" where
  "is_prime n \<longleftrightarrow> 1 < n \<and> (\<forall>d. d dvd n \<longrightarrow> d = 1 \<or> d = n)"

lemma prime_divisor: "1 < n \<Longrightarrow> \<exists>p. is_prime p \<and> p dvd n"
proof (induction n rule: less_induct)
  case (less n)
  show ?case
  proof (cases "is_prime n")
    case False
    then obtain d where d: "d dvd n" "d \<noteq> 1" "d \<noteq> n" using less.prems by (auto simp: is_prime_def)
    then have "1 < d" "d < n" using less.prems by (auto intro: dvd_imp_le Nat.gr0I simp: nat_neq_iff dest: dvd_imp_le)
    then show ?thesis using less.IH [of d] d(1) by (meson dvd_trans)
  qed auto
qed

text \<open>The primes below \<open>2 * k + 3\<close>, the candidates the loop has seen after \<open>k\<close> rounds.\<close>

definition primes_below :: "nat \<Rightarrow> nat list" where
  "primes_below m = filter is_prime [0..<m]"

lemma primes_below_Suc: "primes_below (Suc m) = primes_below m @ (if is_prime m then [m] else [])"
  by (simp add: primes_below_def)

lemma even_not_prime: "even n \<Longrightarrow> n \<noteq> 2 \<Longrightarrow> \<not> is_prime n"
  by (auto simp: is_prime_def)

lemma is_prime_2: "is_prime 2"
proof -
  have "d = 1 \<or> d = 2" if "d dvd 2" for d :: nat
    using that dvd_imp_le [OF that] by (cases "d = 0") auto
  then show ?thesis by (simp add: is_prime_def)
qed

lemma primes_below_3: "primes_below 3 = [2]"
proof -
  have "[0..<3] = [0, 1, 2 :: nat]" by (simp add: upt_rec)
  moreover have "\<not> is_prime 0" "\<not> is_prime 1" by (simp_all add: is_prime_def)
  ultimately show ?thesis using is_prime_2 by (simp add: primes_below_def)
qed

text \<open>An odd candidate is prime exactly when no odd prime below it divides it.\<close>

lemma odd_prime_iff:
  assumes "odd n" "3 \<le> n"
  shows "is_prime n \<longleftrightarrow> (\<forall>p. is_prime p \<and> p < n \<and> p \<noteq> 2 \<longrightarrow> n mod p \<noteq> 0)"
proof
  assume "is_prime n"
  then show "\<forall>p. is_prime p \<and> p < n \<and> p \<noteq> 2 \<longrightarrow> n mod p \<noteq> 0"
    by (auto simp: is_prime_def mod_eq_0_iff_dvd)
next
  assume *: "\<forall>p. is_prime p \<and> p < n \<and> p \<noteq> 2 \<longrightarrow> n mod p \<noteq> 0"
  obtain p where p: "is_prime p" "p dvd n" using prime_divisor [of n] assms(2) by auto
  then have "p \<le> n" using assms(2) by (auto intro: dvd_imp_le)
  moreover have "p \<noteq> 2" using p(2) assms(1) by auto
  ultimately have "p = n" using * p by (auto simp: mod_eq_0_iff_dvd)
  with p show "is_prime n" by simp
qed

lemma tl_primes: "3 \<le> m \<Longrightarrow> \<exists>ps. primes_below m = 2 # ps \<and> set ps = {p. is_prime p \<and> p < m \<and> p \<noteq> 2}"
proof (induction m rule: dec_induct)
  case base
  have "{p. is_prime p \<and> p < 3 \<and> p \<noteq> 2} = {}" by (auto simp: is_prime_def)
  then show ?case by (auto simp: primes_below_3)
next
  case (step m)
  then show ?case by (auto simp: primes_below_Suc less_Suc_eq)
qed

lemma prime_step_correct:
  assumes "length (primes_below (2 * k + 3)) \<le> k + 1" "k + 1 < sz"
  shows "prime_step sz (2 * k + 3) (primes_below (2 * k + 3)) = Some (primes_below (2 * Suc k + 3))
    \<and> length (primes_below (2 * Suc k + 3)) \<le> Suc k + 1"
proof -
  let ?n = "2 * k + 3"
  obtain ps where ps: "primes_below ?n = 2 # ps" "set ps = {p. is_prime p \<and> p < ?n \<and> p \<noteq> 2}"
    using tl_primes [of ?n] by auto
  have "(\<exists>j \<in> set [1..<length (2 # ps)]. ?n mod ((2 # ps) ! j) = 0) \<longleftrightarrow> (\<exists>p \<in> set ps. ?n mod p = 0)"
  proof -
    have "set [1..<length (2 # ps)] = Suc ` {..<length ps}"
      by (simp add: lessThan_atLeast0 image_Suc_atLeastLessThan del: upt_Suc)
    then show ?thesis by (auto simp: in_set_conv_nth Bex_def)
  qed
  also have "\<dots> \<longleftrightarrow> \<not> is_prime ?n" using odd_prime_iff [of ?n] ps(2) by auto
  finally have test: "(\<exists>j \<in> set [1..<length (primes_below ?n)]. ?n mod (primes_below ?n ! j) = 0) \<longleftrightarrow> \<not> is_prime ?n"
    unfolding ps(1) .
  have "\<not> is_prime (2 * k + 4)" "\<not> is_prime (4 + 2 * k)" by (rule even_not_prime; auto)+
  moreover have "2 * Suc k + 3 = Suc (Suc ?n)" "Suc ?n = 2 * k + 4" by simp_all
  ultimately have "primes_below (2 * Suc k + 3) = primes_below ?n @ (if is_prime ?n then [?n] else [])"
    using primes_below_Suc [of ?n] primes_below_Suc [of "Suc ?n"] by simp
  with test assms show ?thesis by (simp add: prime_step_def del: set_upt)
qed

lemma getprimes_correct:
  assumes "2 \<le> num" "int num < INT_MAX"
  shows "\<exists>ps. getprimes True num = Some (MPI_SUCCESS, ps) \<and> (\<forall>p \<in> set ps. is_prime p)
    \<and> (\<forall>p. is_prime p \<and> p \<le> num \<longrightarrow> p \<in> set ps) \<and> ps \<noteq> []"
proof -
  let ?m = "(num - 1) div 2"
  have "\<exists>ps. ofold (\<lambda>k. prime_step (num div 2 + 1) (2 * k + 3)) [0..<?m] [2] = Some ps
      \<and> ps = primes_below (2 * ?m + 3) \<and> length ps \<le> ?m + 1"
  proof (rule ofold_upt_inv [where P = "\<lambda>k ps. ps = primes_below (2 * k + 3) \<and> length ps \<le> k + 1"])
    show "[2] = primes_below (2 * 0 + 3) \<and> length [2] \<le> 0 + (1::nat)" by (simp add: primes_below_3)
  next
    fix k ps
    assume "k < ?m" "ps = primes_below (2 * k + 3) \<and> length ps \<le> k + 1"
    then show "\<exists>ps'. prime_step (num div 2 + 1) (2 * k + 3) ps = Some ps' \<and> ps' = primes_below (2 * Suc k + 3) \<and> length ps' \<le> Suc k + 1"
      using prime_step_correct [of k "num div 2 + 1"] div_le_mono [of "num - 1" num 2] by auto
  qed
  then have get: "getprimes True num = Some (MPI_SUCCESS, primes_below (2 * ?m + 3))"
    using assms(2) by (auto simp: getprimes_def)
  have "p < 2 * ?m + 3" if "p \<le> num" for p using that by linarith
  then have all: "\<forall>p. is_prime p \<and> p \<le> num \<longrightarrow> p \<in> set (primes_below (2 * ?m + 3))" by (auto simp: primes_below_def)
  have "primes_below (2 * ?m + 3) \<noteq> []" using tl_primes [of "2 * ?m + 3", OF le_add2] by (metis list.distinct(1))
  moreover have "\<forall>p \<in> set (primes_below (2 * ?m + 3)). is_prime p" by (simp add: primes_below_def)
  ultimately show ?thesis using get all by (intro exI [of _ "primes_below (2 * ?m + 3)"]) blast
qed

section \<open>Factorisation\<close>

lemma divide_out_correct:
  assumes "1 < p"
  shows "0 < num \<Longrightarrow> \<exists>k r. divide_out p c num = Some (c + k, r) \<and> num = p ^ k * r \<and> \<not> p dvd r \<and> 0 < r"
proof (induction num arbitrary: c rule: less_induct)
  case (less num)
  show ?case
  proof (cases "num mod p = 0")
    case True
    then have eq: "num = p * (num div p)" by auto
    then have "num div p < num" "0 < num div p" using less.prems assms by (auto intro!: Nat.gr0I)
    from less.IH [OF this, of "c + 1"] obtain k r where
      "divide_out p (c + 1) (num div p) = Some (c + 1 + k, r)" "num div p = p ^ k * r" "\<not> p dvd r" "0 < r" by blast
    moreover from this(2) eq have "num = p ^ Suc k * r" by simp
    moreover have "divide_out p c num = divide_out p (c + 1) (num div p)" using True by (subst divide_out.simps) simp
    ultimately show ?thesis by (intro exI [of _ "Suc k"] exI [of _ r]) simp
  next
    case False
    then have "divide_out p c num = Some (c + 0, num)" by (subst divide_out.simps) simp
    with False less.prems show ?thesis by (intro exI [of _ 0] exI [of _ num]) (simp add: mod_eq_0_iff_dvd)
  qed
qed

text \<open>The loop on the number \<open>0\<close> never ends.\<close>

lemma divide_out_zero: "divide_out p c 0 = None"
proof -
  have "n \<noteq> 0" if out: "divide_out p c n = Some r" for n r
  proof (rule divide_out.raw_induct [where P = "\<lambda>_ _ n _. n \<noteq> 0"])
    show "divide_out p c n = Some r" by (rule out)
  next
    fix f and p c num :: nat and r :: "nat \<times> nat"
    assume IH: "\<And>p c num r. f p c num = Some r \<Longrightarrow> num \<noteq> 0"
      and eq: "(if num mod p = 0 then f p (c + 1) (num div p) else Some (c, num)) = Some r"
    show "num \<noteq> 0"
    proof
      assume "num = 0"
      with eq have "f p (c + 1) 0 = Some r" by simp
      from IH [OF this] show False by simp
    qed
  qed
  then show ?thesis by (cases "divide_out p c 0") auto
qed

definition factor_prod :: "nat list \<Rightarrow> nat list \<Rightarrow> nat" where
  "factor_prod ps cs = prod_list (map2 (^) ps cs)"

lemma factor_loop:
  assumes "\<forall>p \<in> set ps. is_prime p" "0 < num"
  shows "\<exists>cs r. ofold factor_step (rev ps) (counts, num) = Some (cs @ counts, r) \<and> length cs = length ps
    \<and> num = factor_prod ps cs * r \<and> 0 < r \<and> (\<forall>p \<in> set ps. \<not> p dvd r)"
  using assms
proof (induction ps arbitrary: counts num)
  case Nil
  then show ?case by (simp add: factor_prod_def)
next
  case (Cons p ps)
  from Cons.IH [of num counts] Cons.prems obtain cs r where cs:
    "ofold factor_step (rev ps) (counts, num) = Some (cs @ counts, r)" "length cs = length ps"
    "num = factor_prod ps cs * r" "0 < r" "\<forall>q \<in> set ps. \<not> q dvd r" by auto
  have "1 < p" using Cons.prems by (simp add: is_prime_def)
  from divide_out_correct [OF this cs(4), of 0] obtain k s where s:
    "divide_out p 0 r = Some (k, s)" "r = p ^ k * s" "\<not> p dvd s" "0 < s" by auto
  have "\<forall>q \<in> set ps. \<not> q dvd s" using cs(5) s(2) by (meson dvd_mult)
  moreover have "num = factor_prod (p # ps) (k # cs) * s" using cs(3) s(2) by (simp add: factor_prod_def algebra_simps)
  moreover have "ofold factor_step (rev (p # ps)) (counts, num) = Some ((k # cs) @ counts, s)"
    using cs(1) s(1) by (simp add: ofold_append factor_step_def)
  ultimately show ?case using s(3,4) cs(2) by (intro exI [of _ "k # cs"] exI [of _ s]) simp
qed

lemma getfactors_correct:
  assumes "\<forall>p \<in> set ps. is_prime p" "\<forall>p. is_prime p \<and> p \<le> num \<longrightarrow> p \<in> set ps" "ps \<noteq> []" "0 < num"
  shows "\<exists>cs. getfactors True num ps = Some (MPI_SUCCESS, cs) \<and> length cs = length ps \<and> factor_prod ps cs = num"
proof -
  obtain cs r where cs: "ofold factor_step (rev ps) ([], num) = Some (cs, r)" "length cs = length ps"
      "num = factor_prod ps cs * r" "0 < r" "\<forall>p \<in> set ps. \<not> p dvd r"
    using factor_loop [OF assms(1,4), of "[]"] by auto
  have "r = 1"
  proof (rule ccontr)
    assume "r \<noteq> 1"
    then obtain p where p: "is_prime p" "p dvd r" using prime_divisor [of r] cs(4) by auto
    have "r dvd num" using cs(3) by simp
    then have "r \<le> num" using assms(4) by (auto intro: dvd_imp_le)
    moreover have "p \<le> r" using p(2) cs(4) by (auto intro: dvd_imp_le)
    ultimately have "p \<in> set ps" using assms(2) p(1) by auto
    with cs(5) p(2) show False by blast
  qed
  with cs assms(3) show ?thesis by (auto simp: getfactors_def)
qed

section \<open>Distributing the factors\<close>

lemma min_bin_less: "bins \<noteq> [] \<Longrightarrow> min_bin bins < length bins"
proof -
  assume "bins \<noteq> []"
  then have "m < length bins \<Longrightarrow> set is \<subseteq> {..<length bins} \<Longrightarrow>
      fold (\<lambda>i m. if bins ! i < bins ! m then i else m) is m < length bins" for m "is"
    by (induction "is" arbitrary: m) auto
  moreover have "set [1..<length bins] \<subseteq> {..<length bins}" by auto
  ultimately show ?thesis using \<open>bins \<noteq> []\<close> unfolding min_bin_def by blast
qed

lemma prod_list_update: "i < length xs \<Longrightarrow> prod_list (xs[i := xs ! i * f]) = prod_list xs * f" for xs :: "nat list"
  by (induction xs arbitrary: i) (auto split: nat.splits simp: algebra_simps)

lemma put_factor_correct:
  "bins \<noteq> [] \<Longrightarrow> prod_list (put_factor f bins) = prod_list bins * f \<and> length (put_factor f bins) = length bins"
  by (simp add: put_factor_def prod_list_update min_bin_less)

lemma put_factors_correct:
  "bins \<noteq> [] \<Longrightarrow> prod_list ((put_factor f ^^ n) bins) = prod_list bins * f ^ n
     \<and> length ((put_factor f ^^ n) bins) = length bins"
proof (induction n)
  case (Suc n)
  then have "(put_factor f ^^ n) bins \<noteq> []" by (metis length_0_conv)
  with Suc put_factor_correct [OF this, of f] show ?case by (simp add: algebra_simps)
qed simp

lemma put_all_correct:
  "bins \<noteq> [] \<Longrightarrow> prod_list (fold (\<lambda>(f, n) bins. (put_factor f ^^ n) bins) fs bins) = prod_list bins * prod_list (map (\<lambda>(f, n). f ^ n) fs)
     \<and> length (fold (\<lambda>(f, n) bins. (put_factor f ^^ n) bins) fs bins) = length bins"
proof (induction fs arbitrary: bins)
  case (Cons a fs)
  obtain f n where a: "a = (f, n)" by (cases a)
  note pf = put_factors_correct [OF Cons.prems, where f = f and n = n]
  then have "(put_factor f ^^ n) bins \<noteq> []" using Cons.prems by (metis length_0_conv)
  from Cons.IH [OF this] pf a show ?case by (simp add: algebra_simps)
qed simp

lemma swap_mset: "i < length b \<Longrightarrow> j < length b \<Longrightarrow> mset (swap_if_greater i j b) = mset b \<and> length (swap_if_greater i j b) = length b"
  by (auto simp: swap_if_greater_def mset_swap)

lemma inner_sort:
  assumes "i < length b" "m \<le> length b" "Suc i \<le> m"
  shows "let b' = fold (swap_if_greater i) [Suc i..<m] b in mset b' = mset b \<and> length b' = length b
    \<and> (\<forall>k < i. b' ! k = b ! k) \<and> (\<forall>k. m \<le> k \<longrightarrow> b' ! k = b ! k)
    \<and> (\<forall>k. i < k \<and> k < m \<longrightarrow> b' ! k \<le> b' ! i) \<and> b ! i \<le> b' ! i"
  using assms(2,3)
proof (induction "m - Suc i" arbitrary: m)
  case 0
  then have "m = Suc i" by simp
  then show ?case by auto
next
  case (Suc d)
  then obtain n where n: "m = Suc n" "Suc i \<le> n" by (cases m) auto
  define c where "c = fold (swap_if_greater i) [Suc i..<n] b"
  have IH: "mset c = mset b" "length c = length b" "\<forall>k < i. c ! k = b ! k" "\<forall>k. n \<le> k \<longrightarrow> c ! k = b ! k"
      "\<forall>k. i < k \<and> k < n \<longrightarrow> c ! k \<le> c ! i" "b ! i \<le> c ! i"
    using Suc.hyps(1) [of n] Suc.hyps(2) Suc.prems n by (auto simp: Let_def c_def)
  have "fold (swap_if_greater i) [Suc i..<m] b = swap_if_greater i n c" using n by (simp add: c_def)
  moreover have "mset (swap_if_greater i n c) = mset b \<and> length (swap_if_greater i n c) = length b"
    using swap_mset [of i c n] IH(1,2) assms(1) n Suc.prems by simp
  ultimately show ?case using IH n Suc.prems assms(1)
    by (auto simp: Let_def swap_if_greater_def nth_list_update less_Suc_eq)
qed

lemma sort_bins_correct:
  "mset (sort_bins b) = mset b \<and> sorted_wrt (\<ge>) (sort_bins b) \<and> length (sort_bins b) = length b"
proof -
  let ?f = "\<lambda>i bins. fold (\<lambda>j. swap_if_greater i j) [Suc i..<length bins] bins"
  have "m \<le> length b - 1 \<Longrightarrow> mset (fold ?f [0..<m] b) = mset b
      \<and> (\<forall>i j. i < m \<and> i < j \<and> j < length b \<longrightarrow> fold ?f [0..<m] b ! j \<le> fold ?f [0..<m] b ! i)" for m
  proof (induction m)
    case (Suc m)
    define c where "c = fold ?f [0..<m] b"
    have IH: "mset c = mset b" "\<forall>i j. i < m \<and> i < j \<and> j < length b \<longrightarrow> c ! j \<le> c ! i" using Suc by (auto simp: c_def)
    then have len: "length c = length b" by (metis size_mset)
    define c' where "c' = fold (swap_if_greater m) [Suc m..<length c] c"
    have inner: "mset c' = mset c" "length c' = length c" "\<forall>k < m. c' ! k = c ! k"
        "\<forall>k. m < k \<and> k < length c \<longrightarrow> c' ! k \<le> c' ! m"
      using inner_sort [of m c "length c"] Suc.prems len by (auto simp: Let_def c'_def)
    have below: "c' ! j \<le> c ! i" if "i < m" "i < j" "j < length b" for i j
    proof (cases "j < m")
      case True
      then show ?thesis using inner(3) IH(2) that by simp
    next
      case False
      have "mset (drop m c') = mset (drop m c)"
      proof -
        have "take m c' = take m c" using inner(2,3) by (intro nth_equalityI) auto
        then show ?thesis using inner(1) by (metis add_left_cancel append_take_drop_id mset_append)
      qed
      then have "set (drop m c') = set (drop m c)" by (metis set_mset_mset)
      moreover have "drop m c' ! (j - m) = c' ! j" "j - m < length (drop m c')" using False that inner(2) len by auto
      ultimately have "c' ! j \<in> set (drop m c)" by (metis nth_mem)
      then obtain l where "l < length (drop m c)" "c' ! j = drop m c ! l" by (auto simp: in_set_conv_nth)
      then have "m + l < length c" "c' ! j = c ! (m + l)" by auto
      then show ?thesis using IH(2) that len by auto
    qed
    have "fold ?f [0..<Suc m] b = c'" by (simp add: c_def c'_def)
    moreover have "c' ! j \<le> c' ! i" if "i < Suc m" "i < j" "j < length b" for i j
      using that inner(3,4) below len by (cases "i = m") auto
    ultimately show ?case using inner(1) IH(1) by auto
  qed simp
  from this [of "length b - 1"] have *: "mset (sort_bins b) = mset b"
      "\<forall>i j. i < length b - 1 \<and> i < j \<and> j < length b \<longrightarrow> sort_bins b ! j \<le> sort_bins b ! i"
    by (auto simp: sort_bins_def)
  moreover from *(1) have "length (sort_bins b) = length b" by (metis size_mset)
  ultimately show ?thesis by (auto simp: sorted_wrt_iff_nth_less)
qed

lemma prod_list_mset_eq: "mset xs = mset ys \<Longrightarrow> prod_list xs = prod_list ys" for xs :: "nat list"
  by (metis prod_mset_prod_list)

lemma prod_list_rev_nat: "prod_list (rev xs) = prod_list xs" for xs :: "nat list"
  by (induction xs) simp_all

lemma prod_list_replicate_1: "prod_list (replicate n (1::nat)) = 1"
  by (induction n) simp_all

lemma assignnodes_correct:
  assumes "0 < ndim"
  shows "\<exists>procs. assignnodes True ndim ps cs = (MPI_SUCCESS, procs) \<and> length procs = ndim
    \<and> prod_list procs = factor_prod ps cs \<and> sorted_wrt (\<ge>) procs"
proof -
  define b where "b = fold (\<lambda>(f, n) bins. (put_factor f ^^ n) bins) (rev (zip ps cs)) (replicate ndim 1)"
  have "prod_list b = factor_prod ps cs" "length b = ndim"
    using put_all_correct [of "replicate ndim 1" "rev (zip ps cs)"] assms
    by (auto simp: b_def factor_prod_def prod_list_replicate_1 rev_map [symmetric] prod_list_rev_nat)
  with sort_bins_correct [of b] prod_list_mset_eq [of "sort_bins b" b] show ?thesis
    using assms by (auto simp: assignnodes_def b_def)
qed

section \<open>The two passes over the array\<close>

text \<open>The product of the dimensions the caller has fixed, and the number of those left open.\<close>

definition fixed_prod :: "int list \<Rightarrow> int" where
  "fixed_prod ds = prod_list (filter (\<lambda>d. d \<noteq> 0) ds)"

definition n_free :: "int list \<Rightarrow> nat" where
  "n_free ds = length (filter (\<lambda>d. d = 0) ds)"

text \<open>The values a result \<open>es\<close> has in the free dimensions of \<open>ds\<close>, in order.\<close>

definition free_values :: "int list \<Rightarrow> int list \<Rightarrow> int list" where
  "free_values ds es = map snd (filter (\<lambda>(d, e). d = 0) (zip ds es))"

lemma fixed_prod_pos: "\<forall>d \<in> set ds. 0 \<le> d \<Longrightarrow> 0 < fixed_prod ds"
  by (induction ds) (auto simp: fixed_prod_def)

lemma count_free_correct:
  "\<forall>d \<in> set ds. 0 \<le> d \<and> (d \<noteq> 0 \<longrightarrow> d dvd nnodes) \<Longrightarrow> 0 < nnodes \<Longrightarrow> 0 \<le> fp \<Longrightarrow>
     count_free nnodes ds fp fd = Inr (fp div fixed_prod ds, fd + n_free ds)"
proof (induction ds arbitrary: fp fd)
  case (Cons d ds)
  show ?case
  proof (cases "d = 0")
    case False
    then have d: "0 < d" "d dvd nnodes" using Cons.prems(1) by auto
    then have "nnodes smod d = 0" "fp sdiv d = fp div d" using Cons.prems by (simp_all add: smod_nonneg sdiv_nonneg)
    moreover have "fp div d div fixed_prod ds = fp div (d * fixed_prod ds)"
      using fixed_prod_pos [of ds] Cons.prems(1) by (simp add: zdiv_zmult2_eq)
    ultimately show ?thesis using Cons d by (simp add: fixed_prod_def n_free_def pos_imp_zdiv_nonneg_iff)
  qed (use Cons in \<open>auto simp: fixed_prod_def n_free_def\<close>)
qed (simp add: fixed_prod_def n_free_def)

lemma fill_dims_correct:
  "length procs = n_free ds \<Longrightarrow> \<exists>es. fill_dims ds procs = Some es \<and> length es = length ds
     \<and> prod_list es = fixed_prod ds * int (prod_list procs) \<and> free_values ds es = map int procs
     \<and> (\<forall>i < length ds. ds ! i \<noteq> 0 \<longrightarrow> es ! i = ds ! i)"
proof (induction ds arbitrary: procs)
  case (Cons d ds)
  show ?case
  proof (cases "d = 0")
    case True
    with Cons.prems obtain p ps where ps: "procs = p # ps" "length ps = n_free ds"
      by (cases procs) (auto simp: n_free_def)
    from Cons.IH [OF ps(2)] ps(1) True show ?thesis
      by (auto simp: fixed_prod_def free_values_def nth_Cons split: nat.splits)
  next
    case False
    then have "length procs = n_free ds" using Cons.prems by (simp add: n_free_def)
    from Cons.IH [OF this] False show ?thesis
      by (auto simp: fixed_prod_def free_values_def nth_Cons split: nat.splits)
  qed
qed (simp add: fixed_prod_def n_free_def free_values_def)

lemma fill_dims_ones: "fill_dims ds (replicate (n_free ds) 1) = Some (map (\<lambda>d. if d = 0 then 1 else d) ds)"
  by (induction ds) (auto simp: n_free_def)

text \<open>The computed part for at least one free process: factors of the quotient, in decreasing order.\<close>

lemma dims_create_quotient:
  assumes "\<forall>d \<in> set ds. 0 \<le> d \<and> (d \<noteq> 0 \<longrightarrow> d dvd nnodes)" "0 \<in> set ds" "0 < nnodes" "nnodes < INT_MAX"
    "0 < nnodes div fixed_prod ds"
  shows "\<exists>es. MPI_Dims_create (True, True, True) nnodes (Some ds) = Some (MPI_SUCCESS, Some es) \<and> length es = length ds
    \<and> prod_list es = fixed_prod ds * (nnodes div fixed_prod ds) \<and> sorted_wrt (\<ge>) (free_values ds es)
    \<and> (\<forall>i < length ds. ds ! i \<noteq> 0 \<longrightarrow> es ! i = ds ! i)"
proof -
  define q where "q = nnodes div fixed_prod ds"
  have free: "0 < n_free ds" using assms(2) by (auto simp: n_free_def filter_empty_conv)
  have cf: "count_free nnodes ds nnodes 0 = Inr (q, n_free ds)" using count_free_correct [OF assms(1,3), of nnodes 0] assms(3) by (simp add: q_def)
  have "ds \<noteq> []" using assms(2) by auto
  note start = cf free this assms(3)
  show ?thesis
  proof (cases "q = 1")
    case True
    obtain es where es: "fill_dims ds (replicate (n_free ds) 1) = Some es" "length es = length ds" "prod_list es = fixed_prod ds"
        "free_values ds es = replicate (n_free ds) 1" "\<forall>i < length ds. ds ! i \<noteq> 0 \<longrightarrow> es ! i = ds ! i"
      using fill_dims_correct [of "replicate (n_free ds) 1" ds] by (auto simp: prod_list_replicate_1)
    then have "MPI_Dims_create (True, True, True) nnodes (Some ds) = Some (MPI_SUCCESS, Some es)"
      using start True fill_dims_ones [of ds] by (simp add: MPI_Dims_create_def)
    moreover have "sorted_wrt (\<ge>) (free_values ds es)" using es(4) by (simp add: sorted_wrt_iff_nth_less)
    ultimately show ?thesis using es True by (simp add: q_def)
  next
    case False
    have q: "2 \<le> q" "0 < q" "2 \<le> nat q" using False assms(5) by (simp_all add: q_def)
    have "q \<le> nnodes"
      unfolding q_def using assms(1,3) fixed_prod_pos [of ds] zdiv_mono2 [of nnodes 1 "fixed_prod ds"] by auto
    then obtain ps where ps: "getprimes True (nat q) = Some (MPI_SUCCESS, ps)" "\<forall>p \<in> set ps. is_prime p"
        "\<forall>p. is_prime p \<and> p \<le> nat q \<longrightarrow> p \<in> set ps" "ps \<noteq> []"
      using getprimes_correct [of "nat q"] q assms(4) by auto
    obtain cs where cs: "getfactors True (nat q) ps = Some (MPI_SUCCESS, cs)" "factor_prod ps cs = nat q"
      using getfactors_correct [OF ps(2-4)] q by auto
    obtain procs where procs: "assignnodes True (n_free ds) ps cs = (MPI_SUCCESS, procs)" "length procs = n_free ds"
        "prod_list procs = nat q" "sorted_wrt (\<ge>) procs"
      using assignnodes_correct [OF free, of ps cs] cs(2) by auto
    obtain es where es: "fill_dims ds procs = Some es" "length es = length ds" "prod_list es = fixed_prod ds * int (prod_list procs)"
        "free_values ds es = map int procs" "\<forall>i < length ds. ds ! i \<noteq> 0 \<longrightarrow> es ! i = ds ! i"
      using fill_dims_correct [OF procs(2)] by auto
    have "MPI_Dims_create (True, True, True) nnodes (Some ds) = Some (MPI_SUCCESS, Some es)"
      using start False ps(1) cs(1) procs(1) es(1) by (simp add: MPI_Dims_create_def)
    moreover have "sorted_wrt (\<ge>) (free_values ds es)" using es(4) procs(4) by (simp add: sorted_wrt_map)
    moreover have "prod_list es = fixed_prod ds * q" using es(3) procs(3) q by simp
    ultimately show ?thesis using es by (simp add: q_def)
  qed
qed

text \<open>C19: when the product of the dimensions the caller has fixed divides the number of nodes and at least one
  dimension is free, \<^verbatim>\<open>MPI_Dims_create\<close> returns success: the dimensions multiply to exactly the number of nodes,
  the fixed ones keep their value, and the free ones are in non-increasing order.\<close>

theorem dims_create_grid:
  assumes "\<forall>d \<in> set ds. 0 \<le> d" "0 \<in> set ds" "0 < nnodes" "nnodes < INT_MAX" "fixed_prod ds dvd nnodes"
  shows "\<exists>es. MPI_Dims_create (True, True, True) nnodes (Some ds) = Some (MPI_SUCCESS, Some es)
    \<and> length es = length ds \<and> prod_list es = nnodes \<and> sorted_wrt (\<ge>) (free_values ds es)
    \<and> (\<forall>i < length ds. ds ! i \<noteq> 0 \<longrightarrow> es ! i = ds ! i)"
proof -
  have "d dvd fixed_prod ds" if "d \<in> set ds" "d \<noteq> 0" for d
    using that by (induction ds) (auto simp: fixed_prod_def)
  then have "\<forall>d \<in> set ds. 0 \<le> d \<and> (d \<noteq> 0 \<longrightarrow> d dvd nnodes)" using assms(1,5) by (meson dvd_trans)
  moreover have "0 < nnodes div fixed_prod ds"
    using assms(3,5) fixed_prod_pos [OF assms(1)] by (auto simp: pos_imp_zdiv_pos_iff zdvd_imp_le)
  ultimately show ?thesis using dims_create_quotient [of ds nnodes] assms by auto
qed

theorem dims_create_grid_witness:
  "\<exists>es. MPI_Dims_create (True, True, True) 60 (Some [0, 5, 0]) = Some (MPI_SUCCESS, Some es)
    \<and> length es = 3 \<and> prod_list es = 60 \<and> sorted_wrt (\<ge>) (free_values [0, 5, 0] es) \<and> es ! 1 = 5"
proof -
  have "fixed_prod [0, 5, 0] = 5" by (simp add: fixed_prod_def)
  then show ?thesis using dims_create_grid [of "[0, 5, 0]" 60] by (auto simp: INT_MAX_def)
qed

text \<open>The check compares each fixed dimension with the number of nodes and never their product. When each fixed
  dimension divides the number of nodes but their product does not, the call either reports success for a grid
  whose size is not the number of nodes, or, when the product is greater than the number of nodes, does not return.\<close>

lemma dims_create_unchecked_product:
  assumes "\<forall>d \<in> set ds. 0 \<le> d \<and> (d \<noteq> 0 \<longrightarrow> d dvd nnodes)" "0 \<in> set ds" "0 < nnodes" "nnodes < INT_MAX"
    "\<not> fixed_prod ds dvd nnodes"
  shows "if nnodes < fixed_prod ds then MPI_Dims_create (True, True, True) nnodes (Some ds) = None
    else \<exists>es. MPI_Dims_create (True, True, True) nnodes (Some ds) = Some (MPI_SUCCESS, Some es) \<and> prod_list es \<noteq> nnodes"
proof (cases "nnodes < fixed_prod ds")
  case True
  then have "nnodes div fixed_prod ds = 0" using assms(3) by simp
  then have "count_free nnodes ds nnodes 0 = Inr (0, n_free ds)"
    using count_free_correct [OF assms(1,3), of nnodes 0] assms(3) by simp
  moreover have "0 < n_free ds" "ds \<noteq> []" using assms(2) by (auto simp: n_free_def filter_empty_conv)
  moreover have "getfactors True 0 [2] = None" by (simp add: getfactors_def factor_step_def divide_out_zero)
  moreover have "getprimes True 0 = Some (MPI_SUCCESS, [2])" by (simp add: getprimes_def INT_MAX_def)
  ultimately show ?thesis using True assms(3) by (simp add: MPI_Dims_create_def)
next
  case False
  have "0 < fixed_prod ds" using assms(1) by (auto intro: fixed_prod_pos)
  with False assms(3) have "0 < nnodes div fixed_prod ds" by (simp add: pos_imp_zdiv_pos_iff)
  from dims_create_quotient [OF assms(1-4) this] obtain es where
    es: "MPI_Dims_create (True, True, True) nnodes (Some ds) = Some (MPI_SUCCESS, Some es)"
      "prod_list es = fixed_prod ds * (nnodes div fixed_prod ds)" by auto
  have "prod_list es \<noteq> nnodes" using es(2) assms(5) by (metis dvd_triv_left)
  with es(1) False show ?thesis by auto
qed

end
