(* ===== verification/Coll_Topo.thy ===== *)
theory Coll_Topo
  imports Opal_Bit_Ops
begin

text \<open>
  The trees of the collective operations (\<^verbatim>\<open>ompi/mca/coll/tuned/coll_tuned_topo.c\<close>). Every process
  computes only its own node: its parent and its children. The trees are right when the nodes of
  all processes fit together, which is the contract \<open>tree_ok\<close>.

  The size of the communicator, the rank of the process and the root are arguments. A builder
  returns \<^const>\<open>None\<close> for undefined behaviour or an endless loop, \<open>Some None\<close> for \<^verbatim>\<open>NULL\<close>; \<open>mem\<close> is the
  memory \<^verbatim>\<open>malloc\<close> returns, with its uninitialised content. Arithmetic is exact: with at most \<open>2 ^ 25\<close>
  processes no intermediate value leaves \<^verbatim>\<open>int\<close>.
\<close>

record ompi_coll_tree_t =
  tree_root :: int
  tree_fanout :: int
  tree_bmtree :: int
  tree_prev :: int
  tree_next :: "int list"
  tree_nextsize :: int

definition MAXTREEFANOUT :: nat where "MAXTREEFANOUT = 32"

definition set_next :: "ompi_coll_tree_t \<Rightarrow> int \<Rightarrow> int \<Rightarrow> ompi_coll_tree_t option" where
  "set_next t i v = do {l \<leftarrow> aset (tree_next t) i v; Some (t\<lparr>tree_next := l\<rparr>)}"

definition clear_next :: "nat \<Rightarrow> ompi_coll_tree_t \<Rightarrow> ompi_coll_tree_t option" where
  "clear_next n t = ofold (\<lambda>i t. set_next t (int i) (- 1)) [0..<n] t"

section \<open>Trees of a given fan-out\<close>

definition pown :: "int \<Rightarrow> int \<Rightarrow> int" where
  "pown fanout num =
     (if num < 0 then 0 else if num = 1 then fanout
      else if fanout = 2 then push_bit (nat num) 1
      else fold (\<lambda>j p. p * fanout) [0..<nat num] 1)"

text \<open>The loop ends when every level has a node; the caller makes sure that \<^verbatim>\<open>fanout\<close> is positive.\<close>

function level_loop :: "int \<Rightarrow> int \<Rightarrow> int \<Rightarrow> int \<Rightarrow> int option" where
  "level_loop fanout rank level num =
     (if rank < num then Some (level - 1)
      else if pown fanout level \<le> 0 then None
      else level_loop fanout rank (level + 1) (num + pown fanout level))"
  by pat_completeness auto
termination
  by (relation "measure (\<lambda>(fanout, rank, level, num). nat (rank + 1 - num))") auto

declare level_loop.simps [simp del]

definition calculate_level :: "int \<Rightarrow> int \<Rightarrow> int option" where
  "calculate_level fanout rank = (if rank < 0 then Some (- 1) else level_loop fanout rank 0 0)"

definition calculate_num_nodes_up_to_level :: "int \<Rightarrow> int \<Rightarrow> int option" where
  "calculate_num_nodes_up_to_level fanout level =
     (if fanout - 1 = 0 then None else Some ((pown fanout level - 1) sdiv (fanout - 1)))"

text \<open>The loop over the children stops at the first one outside the communicator.\<close>

fun children_loop :: "int \<Rightarrow> int \<Rightarrow> int \<Rightarrow> int \<Rightarrow> nat list \<Rightarrow> ompi_coll_tree_t \<Rightarrow> ompi_coll_tree_t option" where
  "children_loop sz root shiftedrank delta [] t = Some t"
| "children_loop sz root shiftedrank delta (i # is) t =
     (let schild = shiftedrank + delta * (int i + 1) in
      if schild < sz then do {
        t \<leftarrow> set_next t (int i) ((schild + root) smod sz);
        children_loop sz root shiftedrank delta is (t\<lparr>tree_nextsize := tree_nextsize t + 1\<rparr>)
      }
      else Some t)"

function parent_loop :: "int \<Rightarrow> int \<Rightarrow> int \<Rightarrow> int option" where
  "parent_loop slimit step sparent =
     (if sparent < slimit then Some sparent
      else if step \<le> 0 then None
      else parent_loop slimit step (sparent - step))"
  by pat_completeness auto
termination
  by (relation "measure (\<lambda>(slimit, step, sparent). nat (sparent + 1 - slimit))") auto

declare parent_loop.simps [simp del]

definition shifted :: "int \<Rightarrow> int \<Rightarrow> int \<Rightarrow> int" where
  "shifted sz root rank = (if rank - root < 0 then rank - root + sz else rank - root)"

definition ompi_coll_tuned_topo_build_tree ::
  "ompi_coll_tree_t option \<Rightarrow> int \<Rightarrow> int \<Rightarrow> int \<Rightarrow> int \<Rightarrow> ompi_coll_tree_t option option" where
  "ompi_coll_tuned_topo_build_tree mem fanout sz rank root =
     (if fanout < 1 then Some None
      else if fanout > int MAXTREEFANOUT then Some None
      else case mem of
        None \<Rightarrow> Some None
      | Some tree \<Rightarrow> do {
          let tree = tree\<lparr>tree_root := root, tree_fanout := fanout, tree_bmtree := 0, tree_prev := - 1, tree_nextsize := 0\<rparr>;
          tree \<leftarrow> clear_next (nat fanout) tree;
          if sz < 2 then Some (Some tree)
          else do {
            let shiftedrank = shifted sz root rank;
            level \<leftarrow> calculate_level fanout shiftedrank;
            let delta = pown fanout level;
            tree \<leftarrow> children_loop sz root shiftedrank delta [0..<nat fanout] tree;
            slimit \<leftarrow> calculate_num_nodes_up_to_level fanout level;
            sparent \<leftarrow> (if shiftedrank < fanout then Some 0
                         else parent_loop slimit (delta sdiv fanout) shiftedrank);
            Some (Some (tree\<lparr>tree_prev := (sparent + root) smod sz\<rparr>))
          }
        })"

section \<open>The in-order binary tree\<close>

text \<open>
  Each round looks at one subtree: \<^verbatim>\<open>size\<close> ranks whose root is \<^verbatim>\<open>parent\<close>, all shifted down by \<^verbatim>\<open>delta\<close>.
  Only non-empty subtrees shrink in every round; an empty one that does not end the loop is
  \<^const>\<open>None\<close>.
\<close>

definition lchild_of :: "int \<Rightarrow> int \<Rightarrow> int" where
  "lchild_of sz parent = (if sz - 1 > 0 then parent - 1 else - 1)"

definition rchild_of :: "int \<Rightarrow> int \<Rightarrow> int" where
  "rchild_of sz parent = (if sz - 1 > 0 \<and> parent - 1 > 0 then drop_bit 1 sz - 1 else - 1)"

function in_order_loop :: "int \<Rightarrow> int \<Rightarrow> int \<Rightarrow> int \<Rightarrow> ompi_coll_tree_t \<Rightarrow> ompi_coll_tree_t option" where
  "in_order_loop sz myrank parent delta t =
     (let rightsize = drop_bit 1 sz; lchild = lchild_of sz parent; rchild = rchild_of sz parent in
      if myrank = parent then do {
        t \<leftarrow> (if lchild \<ge> 0 then set_next t 0 (lchild + delta) else Some t);
        if rchild \<ge> 0 then set_next t 1 (rchild + delta) else Some t
      }
      else if sz \<le> 0 then None
      else if myrank > rchild then
        in_order_loop (sz - rightsize - 1) (myrank - rightsize) (sz - rightsize - 1 - 1) (delta + rightsize)
          (if myrank = lchild then t\<lparr>tree_prev := parent + delta\<rparr> else t)
      else
        in_order_loop rightsize myrank rchild delta
          (if myrank = rchild then t\<lparr>tree_prev := parent + delta\<rparr> else t))"
  by pat_completeness auto
termination
  by (relation "measure (\<lambda>(sz, myrank, parent, delta, t). nat sz)") (auto simp: drop_bit_eq_div)

declare in_order_loop.simps [simp del]

definition ompi_coll_tuned_topo_build_in_order_bintree ::
  "ompi_coll_tree_t option \<Rightarrow> int \<Rightarrow> int \<Rightarrow> ompi_coll_tree_t option option" where
  "ompi_coll_tuned_topo_build_in_order_bintree mem sz rank =
     (case mem of
        None \<Rightarrow> Some None
      | Some tree \<Rightarrow> do {
          let tree = tree\<lparr>tree_fanout := 2, tree_bmtree := 0, tree_root := sz - 1, tree_prev := - 1, tree_nextsize := 0\<rparr>;
          tree \<leftarrow> set_next tree 0 (- 1);
          tree \<leftarrow> set_next tree 1 (- 1);
          tree \<leftarrow> in_order_loop sz rank (sz - 1) 0 tree;
          n0 \<leftarrow> aget (tree_next tree) 0;
          let tree = (if n0 \<ge> 0 then tree\<lparr>tree_nextsize := 1\<rparr> else tree);
          n1 \<leftarrow> aget (tree_next tree) 1;
          let tree = (if n1 \<ge> 0 then tree\<lparr>tree_nextsize := tree_nextsize tree + 1\<rparr> else tree);
          Some (Some tree)
        })"

section \<open>Binomial trees\<close>

text \<open>\<open>Some None\<close> is the return of \<^verbatim>\<open>NULL\<close> when a node has too many children.\<close>

function bm_children :: "int \<Rightarrow> int \<Rightarrow> int \<Rightarrow> int \<Rightarrow> int \<Rightarrow> ompi_coll_tree_t \<Rightarrow> (int \<times> ompi_coll_tree_t) option option" where
  "bm_children sz root index msk childs t =
     (if msk < sz then
        let remote = index XOR msk in
        if remote \<ge> sz then Some (Some (childs, t))
        else if childs = int MAXTREEFANOUT then Some None
        else if msk \<le> 0 then None
        else do {
          t \<leftarrow> set_next t childs (if remote + root \<ge> sz then remote + root - sz else remote + root);
          bm_children sz root index (push_bit 1 msk) (childs + 1) t
        }
      else Some (Some (childs, t)))"
  by pat_completeness auto
termination
  by (relation "measure (\<lambda>(sz, root, index, msk, childs, t). nat (sz - msk))") (auto simp: push_bit_eq_mult)

declare bm_children.simps [simp del]

definition ompi_coll_tuned_topo_build_bmtree ::
  "ompi_coll_tree_t option \<Rightarrow> int \<Rightarrow> int \<Rightarrow> int \<Rightarrow> ompi_coll_tree_t option option" where
  "ompi_coll_tuned_topo_build_bmtree mem sz rank root =
     (case mem of
        None \<Rightarrow> Some None
      | Some bmtree \<Rightarrow> do {
          let bmtree = bmtree\<lparr>tree_bmtree := 1, tree_root := MPI_UNDEFINED, tree_nextsize := MPI_UNDEFINED\<rparr>;
          bmtree \<leftarrow> clear_next MAXTREEFANOUT bmtree;
          let index = shifted sz root rank;
          msk \<leftarrow> opal_next_poweroftwo index;
          let bmtree = bmtree\<lparr>tree_prev :=
            (if root = rank then root
             else let remote = (index XOR drop_bit 1 msk) + root in if remote \<ge> sz then remote - sz else remote)\<rparr>;
          r \<leftarrow> bm_children sz root index msk 0 bmtree;
          Some (case r of
                  None \<Rightarrow> None
                | Some (childs, bmtree) \<Rightarrow> Some (bmtree\<lparr>tree_nextsize := childs, tree_root := root\<rparr>))
        })"

function io_bm_loop :: "int \<Rightarrow> int \<Rightarrow> int \<Rightarrow> int \<Rightarrow> int \<Rightarrow> ompi_coll_tree_t \<Rightarrow> (int \<times> ompi_coll_tree_t) option option" where
  "io_bm_loop sz root vrank msk childs t =
     (if msk < sz then
        if msk \<le> 0 then None
        else let remote = vrank XOR msk in
          if remote < vrank then Some (Some (childs, t\<lparr>tree_prev := (remote + root) smod sz\<rparr>))
          else if remote < sz then do {
            t \<leftarrow> set_next t childs ((remote + root) smod sz);
            if childs + 1 = int MAXTREEFANOUT then Some None
            else io_bm_loop sz root vrank (push_bit 1 msk) (childs + 1) t
          }
          else io_bm_loop sz root vrank (push_bit 1 msk) childs t
      else Some (Some (childs, t)))"
  by pat_completeness auto
termination
  by (relation "measure (\<lambda>(sz, root, vrank, msk, childs, t). nat (sz - msk))") (auto simp: push_bit_eq_mult)

declare io_bm_loop.simps [simp del]

definition ompi_coll_tuned_topo_build_in_order_bmtree ::
  "ompi_coll_tree_t option \<Rightarrow> int \<Rightarrow> int \<Rightarrow> int \<Rightarrow> ompi_coll_tree_t option option" where
  "ompi_coll_tuned_topo_build_in_order_bmtree mem sz rank root =
     (if sz = 0 then None
      else let vrank = (rank - root + sz) smod sz in
      case mem of
        None \<Rightarrow> Some None
      | Some bmtree \<Rightarrow> do {
          let bmtree = bmtree\<lparr>tree_bmtree := 1, tree_root := MPI_UNDEFINED, tree_nextsize := MPI_UNDEFINED\<rparr>;
          bmtree \<leftarrow> clear_next MAXTREEFANOUT bmtree;
          let bmtree = (if root = rank then bmtree\<lparr>tree_prev := root\<rparr> else bmtree);
          r \<leftarrow> io_bm_loop sz root vrank 1 0 bmtree;
          Some (case r of
                  None \<Rightarrow> None
                | Some (childs, bmtree) \<Rightarrow> Some (bmtree\<lparr>tree_nextsize := childs, tree_root := root\<rparr>))
        })"

section \<open>Chains\<close>

text \<open>
  The place of a rank other than the root: the first rank of its chain and the length of the
  chain. The first \<^verbatim>\<open>mark\<close> chains have the maximal length, the others one less.
\<close>

definition chain_place :: "int \<Rightarrow> int \<Rightarrow> int \<Rightarrow> (int \<times> int) option" where
  "chain_place mark maxchainlen srank =
     (if srank - 1 < mark * maxchainlen then
        if maxchainlen = 0 then None
        else let column = (srank - 1) sdiv maxchainlen in Some (1 + column * maxchainlen, maxchainlen)
      else if maxchainlen - 1 = 0 then None
      else let column = mark + (srank - 1 - mark * maxchainlen) sdiv (maxchainlen - 1)
           in Some (mark * maxchainlen + 1 + (column - mark) * (maxchainlen - 1), maxchainlen - 1))"

definition chain_node :: "int \<Rightarrow> int \<Rightarrow> int \<Rightarrow> int \<Rightarrow> ompi_coll_tree_t \<Rightarrow> ompi_coll_tree_t option" where
  "chain_node sz head len srank chain = do {
     let chain = chain\<lparr>tree_prev := (if srank = head then 0 else srank - 1)\<rparr>;
     if srank = head + len - 1 then do {
       chain \<leftarrow> set_next chain 0 (- 1);
       Some (chain\<lparr>tree_nextsize := 0\<rparr>)
     }
     else if srank + 1 < sz then do {
       chain \<leftarrow> set_next chain 0 (srank + 1);
       Some (chain\<lparr>tree_nextsize := 1\<rparr>)
     }
     else do {
       chain \<leftarrow> set_next chain 0 (- 1);
       Some (chain\<lparr>tree_nextsize := 0\<rparr>)
     }
   }"

definition chain_heads :: "int \<Rightarrow> int \<Rightarrow> int \<Rightarrow> int \<Rightarrow> int \<Rightarrow> ompi_coll_tree_t \<Rightarrow> ompi_coll_tree_t option" where
  "chain_heads sz root fanout mark maxchainlen chain = do {
     chain \<leftarrow> set_next chain 0 ((root + 1) smod sz);
     ofold (\<lambda>i chain. do {
       p \<leftarrow> aget (tree_next chain) (int i - 1);
       set_next chain (int i) ((if int i > mark then p + maxchainlen - 1 else p + maxchainlen) smod sz)
     }) [1..<nat fanout] chain
   }"

definition ompi_coll_tuned_topo_build_chain ::
  "ompi_coll_tree_t option \<Rightarrow> int \<Rightarrow> int \<Rightarrow> int \<Rightarrow> int \<Rightarrow> ompi_coll_tree_t option option" where
  "ompi_coll_tuned_topo_build_chain mem fanout sz rank root =
     (let fanout = (if fanout < 1 then 1 else fanout);
          fanout = (if fanout > int MAXTREEFANOUT then int MAXTREEFANOUT else fanout)
      in case mem of
        None \<Rightarrow> Some None
      | Some chain \<Rightarrow> do {
          chain \<leftarrow> clear_next (nat fanout) chain;
          let chain = chain\<lparr>tree_root := root, tree_nextsize := (if sz - 1 < fanout then sz - 1 else fanout)\<rparr>;
          let fanout = (if sz - 1 < fanout then sz - 1 else fanout);
          let srank = shifted sz root rank;
          if fanout = 1 then do {
            let chain = chain\<lparr>tree_prev := (if srank = 0 then - 1 else (srank - 1 + root) smod sz)\<rparr>;
            if srank + 1 \<ge> sz then do {
              chain \<leftarrow> set_next chain 0 (- 1);
              Some (Some (chain\<lparr>tree_nextsize := 0\<rparr>))
            }
            else do {
              chain \<leftarrow> set_next chain 0 ((srank + 1 + root) smod sz);
              Some (Some (chain\<lparr>tree_nextsize := 1\<rparr>))
            }
          }
          else if sz = 1 then do {
            chain \<leftarrow> set_next chain 0 (- 1);
            Some (Some (chain\<lparr>tree_nextsize := 0, tree_prev := - 1\<rparr>))
          }
          else if fanout = 0 then None
          else do {
            let rest = (sz - 1) smod fanout;
            let maxchainlen = (sz - 1) sdiv fanout + (if rest \<noteq> 0 then 1 else 0);
            let mark = (if rest \<noteq> 0 then rest else fanout + 1);
            chain \<leftarrow> (if srank \<noteq> 0 then do {
                         (head, len) \<leftarrow> chain_place mark maxchainlen srank;
                         chain_node sz head len srank chain
                       }
                       else Some chain);
            if rank = root then do {
              chain \<leftarrow> chain_heads sz root fanout mark maxchainlen (chain\<lparr>tree_prev := - 1\<rparr>);
              Some (Some (chain\<lparr>tree_nextsize := fanout\<rparr>))
            }
            else do {
              let chain = chain\<lparr>tree_prev := (tree_prev chain + root) smod sz\<rparr>;
              n0 \<leftarrow> aget (tree_next chain) 0;
              chain \<leftarrow> (if n0 \<noteq> - 1 then set_next chain 0 ((n0 + root) smod sz) else Some chain);
              Some (Some chain)
            }
          }
        })"

definition ompi_coll_tuned_topo_destroy_tree :: "ompi_coll_tree_t option option \<Rightarrow> int \<times> ompi_coll_tree_t option option" where
  "ompi_coll_tuned_topo_destroy_tree tree = (OPAL_SUCCESS, case tree of None \<Rightarrow> None | Some _ \<Rightarrow> Some None)"

section \<open>The contract\<close>

definition kids :: "ompi_coll_tree_t \<Rightarrow> int list" where
  "kids t = take (nat (tree_nextsize t)) (tree_next t)"

text \<open>
  \<open>T r\<close> is the node of rank \<open>r\<close>. The children a node lists are exactly the ranks other than the root
  that name it as their parent, each once; and the parents lead to the root.
\<close>

definition tree_ok :: "nat \<Rightarrow> nat \<Rightarrow> (nat \<Rightarrow> ompi_coll_tree_t) \<Rightarrow> bool" where
  "tree_ok n root T \<longleftrightarrow> root < n
   \<and> (\<forall>r < n. tree_root (T r) = int root \<and> 0 \<le> tree_nextsize (T r) \<and> tree_nextsize (T r) \<le> int (length (tree_next (T r)))
        \<and> distinct (kids (T r)) \<and> set (kids (T r)) = int ` {c. c < n \<and> c \<noteq> root \<and> tree_prev (T c) = int r})
   \<and> (\<exists>depth :: nat \<Rightarrow> nat. \<forall>c < n. c \<noteq> root \<longrightarrow> (\<exists>p < n. tree_prev (T c) = int p \<and> depth p < depth c))"

lemma tree_ok_cong:
  assumes "\<And>r. r < n \<Longrightarrow> T r = T' r"
  shows "tree_ok n root T \<longleftrightarrow> tree_ok n root T'"
proof -
  have "{c. c < n \<and> c \<noteq> root \<and> tree_prev (T c) = int r} = {c. c < n \<and> c \<noteq> root \<and> tree_prev (T' c) = int r}" for r using assms by auto
  then show ?thesis using assms unfolding tree_ok_def by (simp cong: conj_cong)
qed

text \<open>The memory every process gets; its content does not matter.\<close>

definition fresh :: "(nat \<Rightarrow> ompi_coll_tree_t) \<Rightarrow> bool" where
  "fresh mem \<longleftrightarrow> (\<forall>r. length (tree_next (mem r)) = MAXTREEFANOUT)"

text \<open>
  A builder: what every process of a communicator computes on its own, in whatever memory it gets,
  fits together. \<open>build m n root r\<close> is the node of rank \<open>r\<close> among \<open>n\<close>.
\<close>

locale tree_builder =
  fixes ok :: "nat \<Rightarrow> nat \<Rightarrow> bool"
    and build :: "ompi_coll_tree_t \<Rightarrow> nat \<Rightarrow> nat \<Rightarrow> nat \<Rightarrow> ompi_coll_tree_t option option"
  assumes built: "ok n root \<Longrightarrow> fresh mem \<Longrightarrow> \<exists>T. (\<forall>r < n. build (mem r) n root r = Some (Some (T r))) \<and> tree_ok n root T"
begin

lemma node_ex: "ok n root \<Longrightarrow> r < n \<Longrightarrow> length (tree_next m) = MAXTREEFANOUT \<Longrightarrow> \<exists>t. build m n root r = Some (Some t)"
  using built [of n root "\<lambda>r. m"] by (auto simp: fresh_def)

text \<open>The nodes need not have been computed in one go: any nodes the builder can return fit together.\<close>

lemma nodes_ok:
  assumes "ok n root" "\<forall>r < n. \<exists>m. length (tree_next m) = MAXTREEFANOUT \<and> build m n root r = Some (Some (T r))"
  shows "tree_ok n root T"
proof -
  obtain M where M: "\<And>r. r < n \<Longrightarrow> length (tree_next (M r)) = MAXTREEFANOUT \<and> build (M r) n root r = Some (Some (T r))" using assms(2) by metis
  define mem where "mem r = (if r < n then M r else \<lparr>tree_root = 0, tree_fanout = 0, tree_bmtree = 0, tree_prev = 0,
    tree_next = replicate MAXTREEFANOUT 0, tree_nextsize = 0\<rparr>)" for r
  have "fresh mem" using M by (simp add: fresh_def mem_def)
  then obtain T' where T': "\<And>r. r < n \<Longrightarrow> build (mem r) n root r = Some (Some (T' r))" "tree_ok n root T'" using built [OF assms(1)] by blast
  have "T' r = T r" if "r < n" for r using T'(1) [OF that] M [OF that] that by (simp add: mem_def)
  then show ?thesis using tree_ok_cong [of n T' T root] T'(2) by blast
qed

end

section \<open>Shifting the root to 0\<close>

definition shift :: "nat \<Rightarrow> nat \<Rightarrow> nat \<Rightarrow> nat" where
  "shift n root r = (r + (n - root)) mod n"

definition unshift :: "nat \<Rightarrow> nat \<Rightarrow> nat \<Rightarrow> nat" where
  "unshift n root s = (s + root) mod n"

lemma shift_cases:
  assumes "root < n" "r < n"
  shows "shift n root r = (if r < root then r + n - root else r - root)"
proof (cases "r < root")
  case True
  then show ?thesis using assms by (simp add: shift_def)
next
  case False
  then have "r + (n - root) = (r - root) + n" using assms by simp
  moreover have "((r - root) + n) mod n = r - root" using assms by simp
  ultimately show ?thesis using False by (simp add: shift_def)
qed

lemma unshift_cases:
  assumes "root < n" "s < n"
  shows "unshift n root s = (if s + root < n then s + root else s + root - n)"
proof (cases "s + root < n")
  case False
  then have "(s + root) mod n = (s + root - n) mod n" by (simp add: mod_if)
  then show ?thesis using assms False by (simp add: unshift_def)
qed (simp add: unshift_def)

lemma shift_inverse:
  assumes "root < n"
  shows "r < n \<Longrightarrow> shift n root r < n" "r < n \<Longrightarrow> unshift n root (shift n root r) = r"
    "s < n \<Longrightarrow> unshift n root s < n" "s < n \<Longrightarrow> shift n root (unshift n root s) = s"
    "r < n \<Longrightarrow> shift n root r = 0 \<longleftrightarrow> r = root"
  using assms by (auto simp: shift_cases unshift_cases)

lemma shifted_int: "root < n \<Longrightarrow> r < n \<Longrightarrow> shifted (int n) (int root) (int r) = int (shift n root r)"
  by (auto simp: shifted_def shift_cases of_nat_diff)

lemma unshift_smod: "(int s + int root) smod int n = int (unshift n root s)"
  by (simp add: unshift_def flip: of_nat_add)

lemma unshift_if:
  "root < n \<Longrightarrow> s < n \<Longrightarrow> (if int s + int root \<ge> int n then int s + int root - int n else int s + int root) = int (unshift n root s)"
  by (auto simp: unshift_cases of_nat_diff)

text \<open>A tree on \<open>0, \<dots>, n - 1\<close> with root 0, by the children and the parent of every node.\<close>

definition plain_tree :: "nat \<Rightarrow> (nat \<Rightarrow> nat list) \<Rightarrow> (nat \<Rightarrow> nat) \<Rightarrow> bool" where
  "plain_tree n ks par \<longleftrightarrow> (\<forall>s < n. distinct (ks s) \<and> set (ks s) = {c. 0 < c \<and> c < n \<and> par c = s})
     \<and> (\<forall>c < n. 0 < c \<longrightarrow> par c < c)"

definition node_of :: "nat \<Rightarrow> nat \<Rightarrow> (nat \<Rightarrow> nat list) \<Rightarrow> (nat \<Rightarrow> nat) \<Rightarrow> nat \<Rightarrow> ompi_coll_tree_t \<Rightarrow> bool" where
  "node_of n root ks par r t \<longleftrightarrow> tree_root t = int root \<and> 0 \<le> tree_nextsize t \<and> tree_nextsize t \<le> int (length (tree_next t))
     \<and> kids t = map (\<lambda>c. int (unshift n root c)) (ks (shift n root r))
     \<and> (r \<noteq> root \<longrightarrow> tree_prev t = int (unshift n root (par (shift n root r))))"

lemma tree_ok_plain:
  assumes "root < n" "plain_tree n ks par" "\<forall>r < n. node_of n root ks par r (T r)"
  shows "tree_ok n root T"
proof -
  let ?sh = "shift n root" and ?un = "unshift n root"
  note inv = shift_inverse [OF assms(1)]
  have par: "0 < c \<Longrightarrow> c < n \<Longrightarrow> par c < c" and ks: "s < n \<Longrightarrow> distinct (ks s)" "s < n \<Longrightarrow> set (ks s) = {c. 0 < c \<and> c < n \<and> par c = s}" for c s
    using assms(2) by (simp_all add: plain_tree_def)
  have node: "r < n \<Longrightarrow> node_of n root ks par r (T r)" for r using assms(3) by simp
  have prev: "tree_prev (T c) = int (?un (par (?sh c)))" "par (?sh c) < ?sh c" if "c < n" "c \<noteq> root" for c
    using node [OF that(1)] that inv(1,5) [OF that(1)] by (simp_all add: node_of_def par)
  have "int ` {c. c < n \<and> c \<noteq> root \<and> tree_prev (T c) = int r} = set (kids (T r))" if r: "r < n" for r
  proof -
    have "{c. c < n \<and> c \<noteq> root \<and> tree_prev (T c) = int r} = ?un ` set (ks (?sh r))"
    proof (intro equalityI subsetI)
      fix c assume "c \<in> {c. c < n \<and> c \<noteq> root \<and> tree_prev (T c) = int r}"
      then have c: "c < n" "c \<noteq> root" "?un (par (?sh c)) = r" using prev by auto
      then have "par (?sh c) = ?sh r" using inv(1) [OF c(1)] prev(2) [OF c(1,2)] inv(4) [of "par (?sh c)"] by simp
      then have "?sh c \<in> set (ks (?sh r))" using c inv(1) r prev(2) [OF c(1,2)] by (auto simp: ks)
      then show "c \<in> ?un ` set (ks (?sh r))" using inv(2) [OF c(1)] by (metis image_eqI)
    next
      fix c assume "c \<in> ?un ` set (ks (?sh r))"
      then obtain d where d: "0 < d" "d < n" "par d = ?sh r" "c = ?un d" using inv(1) [OF r] by (auto simp: ks)
      then have "?sh c = d" "c < n" using inv by simp_all
      then show "c \<in> {c. c < n \<and> c \<noteq> root \<and> tree_prev (T c) = int r}" using d inv(2) [OF r] inv(5) [of c] prev(1) [of c] by auto
    qed
    then show ?thesis using node [OF r] by (auto simp: node_of_def image_comp)
  qed
  moreover have "distinct (kids (T r))" if "r < n" for r
  proof -
    have "inj_on ?un {..<n}" by (rule inj_on_inverseI [where g = ?sh]) (simp add: inv(4))
    then have "inj_on (\<lambda>c. int (?un c)) (set (ks (?sh r)))"
      using ks(2) [OF inv(1) [OF that]] by (auto simp: inj_on_def)
    then show ?thesis using node [OF that] ks(1) [OF inv(1) [OF that]] by (simp add: node_of_def distinct_map)
  qed
  moreover have "\<exists>p < n. tree_prev (T c) = int p \<and> ?sh p < ?sh c" if "c < n" "c \<noteq> root" for c
    using prev [OF that] inv(1) [OF that(1)] inv(3,4) [of "par (?sh c)"] by (intro exI [of _ "?un (par (?sh c))"]) simp
  ultimately show ?thesis using assms(1) node unfolding tree_ok_def node_of_def by blast
qed

section \<open>Filling the table of children\<close>

lemma clear_next_eq:
  "k \<le> length (tree_next t) \<Longrightarrow> clear_next k t = Some (t\<lparr>tree_next := replicate k (- 1) @ drop k (tree_next t)\<rparr>)"
proof (induction k)
  case (Suc k)
  then have "set_next (t\<lparr>tree_next := replicate k (- 1) @ drop k (tree_next t)\<rparr>) (int k) (- 1)
      = Some (t\<lparr>tree_next := replicate (Suc k) (- 1) @ drop (Suc k) (tree_next t)\<rparr>)"
    by (simp add: set_next_def list_update_append replicate_append_same flip: Cons_nth_drop_Suc)
  then show ?case using Suc by (simp add: clear_next_def ofold_append)
qed (simp add: clear_next_def)

lemma set_next_eq: "j < length (tree_next t) \<Longrightarrow> set_next t (int j) v = Some (t\<lparr>tree_next := (tree_next t)[j := v]\<rparr>)"
  by (simp add: set_next_def)

section \<open>Bits\<close>

lemma xor_power_add:
  assumes "s < 2 ^ k"
  shows "int s XOR 2 ^ k = int (s + 2 ^ k)"
proof -
  have "int s < 2 ^ k" using assms by simp
  then have "\<not> bit (int s) k" by (simp add: bit_iff_odd)
  then have "int s AND 2 ^ k = 0" by (simp add: and_exp_eq_0_iff_not_bit)
  then show ?thesis by (simp add: disjunctive_add_eq_xor)
qed

section \<open>The binomial tree\<close>

definition bm_par :: "nat \<Rightarrow> nat" where "bm_par c = c - 2 ^ (bl c - 1)"

definition bm_kids :: "nat \<Rightarrow> nat \<Rightarrow> nat \<Rightarrow> nat list" where
  "bm_kids n k s = map (\<lambda>i. s + 2 ^ i) (filter (\<lambda>i. s + 2 ^ i < n) [k..<31])"

lemma bm_plain:
  assumes "n \<le> 2 ^ 31"
  shows "plain_tree n (\<lambda>s. bm_kids n (bl s) s) bm_par"
proof -
  have fwd: "bm_par (s + 2 ^ i) = s" if "bl s \<le> i" for s i
  proof -
    have "s < 2 ^ bl s" using bl_bounds by simp
    also have "\<dots> \<le> 2 ^ i" using that by (rule power_increasing) simp
    finally have "s < 2 ^ i" .
    then have "bl (s + 2 ^ i) = Suc i" by (intro bl_unique) simp_all
    then show ?thesis by (simp add: bm_par_def)
  qed
  have bwd: "\<exists>i. bl (bm_par c) \<le> i \<and> i < 31 \<and> c = bm_par c + 2 ^ i" if "0 < c" "c < n" for c
  proof -
    define i where "i = bl c - 1"
    have c: "bl c = Suc i" "2 ^ i \<le> c" "c < 2 ^ Suc i" using bl_bounds [of c] that(1) by (auto simp: i_def)
    then have "bm_par c = c - 2 ^ i" "bm_par c < 2 ^ i" by (simp_all add: bm_par_def)
    moreover have "(2 :: nat) ^ i < 2 ^ 31" using c(2) that(2) assms by linarith
    then have "i < 31" by (rule power_less_imp_less_exp [rotated]) simp
    ultimately show ?thesis using bl_mono_power c(2) by (intro exI [of _ i]) simp
  qed
  have "set (bm_kids n (bl s) s) = {c. 0 < c \<and> c < n \<and> bm_par c = s}" for s
  proof (intro equalityI subsetI)
    fix c assume "c \<in> {c. 0 < c \<and> c < n \<and> bm_par c = s}"
    then show "c \<in> set (bm_kids n (bl s) s)" using bwd [of c] by (auto simp: bm_kids_def)
  qed (auto simp: bm_kids_def fwd)
  moreover have "distinct (bm_kids n (bl s) s)" for s by (auto simp: bm_kids_def distinct_map inj_on_def)
  moreover have "bm_par c < c" if "0 < c" for c using bl_bounds [of c] that by (simp add: bm_par_def)
  ultimately show ?thesis by (simp add: plain_tree_def)
qed

text \<open>A table whose first \<open>j\<close> cells have been filled by a loop that leaves the other fields alone.\<close>

definition filled :: "ompi_coll_tree_t \<Rightarrow> nat \<Rightarrow> int list \<Rightarrow> nat \<Rightarrow> ompi_coll_tree_t \<Rightarrow> bool" where
  "filled t j vs j' t' \<longleftrightarrow> j' = j + length vs \<and> (\<exists>l. t' = t\<lparr>tree_next := l\<rparr> \<and> length l = length (tree_next t) \<and> take j' l = take j (tree_next t) @ vs)"

lemma filled_Nil: "filled t j [] j t"
  by (simp add: filled_def) (metis ompi_coll_tree_t.surjective ompi_coll_tree_t.update_convs(5))

lemma filled_Cons:
  assumes "j < length (tree_next t)" "filled (t\<lparr>tree_next := (tree_next t)[j := v]\<rparr>) (Suc j) vs j' t'"
  shows "filled t j (v # vs) j' t'"
  using assms by (auto simp: filled_def take_Suc_conv_app_nth)

lemma bm_children_eq:
  assumes "root < n" "n \<le> 2 ^ 31" "s < 2 ^ k" "k \<le> 31" "j \<le> k" "length (tree_next t) = 32"
  shows "\<exists>j' t'. bm_children (int n) (int root) (int s) (2 ^ k) (int j) t = Some (Some (int j', t'))
    \<and> filled t j (map (\<lambda>c. int (unshift n root c)) (bm_kids n k s)) j' t'"
  using assms
proof (induction "31 - k" arbitrary: k j t)
  case 0
  then have "k = 31" by simp
  then have "\<not> (2 :: int) ^ k < int n" using 0(3) by simp
  then show ?case using \<open>k = 31\<close> filled_Nil [of t j] by (subst bm_children.simps) (auto simp: bm_kids_def)
next
  case (Suc d)
  then have k: "k < 31" by simp
  have x: "int s XOR 2 ^ k = int (s + 2 ^ k)" using xor_power_add Suc.prems(3) .
  show ?case
  proof (cases "s + 2 ^ k < n")
    case True
    let ?v = "int (unshift n root (s + 2 ^ k))" and ?t = "t\<lparr>tree_next := (tree_next t)[j := int (unshift n root (s + 2 ^ k))]\<rparr>"
    have "(2 :: int) ^ k < int n" using True by (metis add_lessD1 add.commute of_nat_less_iff of_nat_numeral of_nat_power)
    moreover have "int j \<noteq> int MAXTREEFANOUT" using Suc.prems(5) k by (simp add: MAXTREEFANOUT_def)
    moreover have "set_next t (int j) ?v = Some ?t" using Suc.prems(5,6) k by (intro set_next_eq) simp
    ultimately have run: "bm_children (int n) (int root) (int s) (2 ^ k) (int j) t = bm_children (int n) (int root) (int s) (2 ^ Suc k) (int (Suc j)) ?t"
      using True unshift_if [OF Suc.prems(1) True]
      by (subst bm_children.simps) (simp add: x Let_def push_bit_eq_mult mult.commute add.commute del: of_nat_add cong: if_cong)
    have kids: "bm_kids n k s = (s + 2 ^ k) # bm_kids n (Suc k) s" using k True by (simp add: bm_kids_def upt_conv_Cons)
    have "\<exists>j' t'. bm_children (int n) (int root) (int s) (2 ^ Suc k) (int (Suc j)) ?t = Some (Some (int j', t'))
        \<and> filled ?t (Suc j) (map (\<lambda>c. int (unshift n root c)) (bm_kids n (Suc k) s)) j' t'"
      using Suc k by (intro Suc.hyps(1)) simp_all
    then show ?thesis unfolding run kids using filled_Cons [of j t ?v] Suc.prems(5,6) k by (auto simp del: of_nat_Suc)
  next
    case False
    have "bm_kids n k s = []"
    proof -
      have "\<not> s + 2 ^ i < n" if "k \<le> i" for i using False power_increasing [OF that, of "2 :: nat"] by linarith
      then show ?thesis by (auto simp: bm_kids_def filter_empty_conv)
    qed
    moreover have "\<not> int (s + 2 ^ k) < int n" using False by (simp only: of_nat_less_iff not_False_eq_True)
    ultimately show ?thesis using filled_Nil [of t j]
      by (subst bm_children.simps) (auto simp: x Let_def simp del: of_nat_add)
  qed
qed

lemma kids_filled:
  assumes "filled t 0 vs j t'"
  shows "j = length vs" "kids (t'\<lparr>tree_nextsize := int j, tree_root := r\<rparr>) = vs" "tree_prev t' = tree_prev t"
    "length (tree_next t') = length (tree_next t)" "j \<le> length (tree_next t)"
proof -
  obtain l where l: "t' = t\<lparr>tree_next := l\<rparr>" "length l = length (tree_next t)" "take j l = vs" "j = length vs"
    using assms by (auto simp: filled_def)
  have "length (take j l) = j" using l(3,4) by simp
  then show "j \<le> length (tree_next t)" using l(2) by simp
qed (use assms in \<open>auto simp: filled_def kids_def\<close>)

lemma bm_par_xor: "0 < s \<Longrightarrow> int s XOR drop_bit 1 (2 ^ bl s) = int (bm_par s)"
proof -
  assume "0 < s"
  then obtain k where k: "bl s = Suc k" using bl_bounds [of s] by (cases "bl s") auto
  then have s: "2 ^ k \<le> s" "s - 2 ^ k < 2 ^ k" using bl_bounds [of s] \<open>0 < s\<close> by auto
  have "int s = int (s - 2 ^ k) XOR 2 ^ k" using xor_power_add [OF s(2)] s(1) by simp
  then have "int s XOR 2 ^ k = int (s - 2 ^ k)" by (metis xor.assoc xor_self_eq xor.right_neutral)
  then show ?thesis using k by (simp add: bm_par_def drop_bit_eq_div)
qed

lemma bmtree_node:
  assumes "root < n" "n \<le> 2 ^ 30" "r < n" "length (tree_next m) = 32"
  shows "\<exists>t. ompi_coll_tuned_topo_build_bmtree (Some m) (int n) (int r) (int root) = Some (Some t)
    \<and> node_of n root (\<lambda>s. bm_kids n (bl s) s) bm_par r t"
proof -
  let ?s = "shift n root r"
  let ?m = "\<lambda>p. m\<lparr>tree_bmtree := 1, tree_root := MPI_UNDEFINED, tree_nextsize := MPI_UNDEFINED, tree_next := replicate 32 (- 1), tree_prev := p\<rparr>"
  define p where "p = (if r = root then int root else int (unshift n root (bm_par ?s)))"
  have s: "?s < n" "0 < ?s \<longleftrightarrow> r \<noteq> root" using shift_inverse(1,5) [OF assms(1,3)] by auto
  have "bl ?s \<le> 31" using s(1) assms(2) by (intro bl_mono_power) simp
  then obtain j t where run: "bm_children (int n) (int root) (int ?s) (2 ^ bl ?s) 0 (?m p) = Some (Some (int j, t))"
    and f: "filled (?m p) 0 (map (\<lambda>c. int (unshift n root c)) (bm_kids n (bl ?s) ?s)) j t"
    using bm_children_eq [of root n ?s "bl ?s" 0 "?m p"] assms(1,2) bl_bounds [of ?s] by auto
  have pw: "opal_next_poweroftwo (int ?s) = Some (2 ^ bl ?s)" using s(1) assms(2) by (intro next_poweroftwo_eq) simp
  have par: "(if int r = int root then int root
      else let remote = (int ?s XOR drop_bit 1 (2 ^ bl ?s)) + int root in if int n \<le> remote then remote - int n else remote) = p"
  proof (cases "r = root")
    case False
    then have "bm_par ?s < n" "int ?s XOR drop_bit 1 (2 ^ bl ?s) = int (bm_par ?s)" using s bm_par_xor by (auto simp: bm_par_def)
    then show ?thesis using False unshift_if [OF assms(1), of "bm_par ?s"] unfolding p_def Let_def by (simp only: int_int_eq if_False refl)
  qed (simp add: p_def)
  have "ompi_coll_tuned_topo_build_bmtree (Some m) (int n) (int r) (int root) = Some (Some (t\<lparr>tree_nextsize := int j, tree_root := int root\<rparr>))"
    using assms(4) run par
    by (simp add: ompi_coll_tuned_topo_build_bmtree_def clear_next_eq MAXTREEFANOUT_def shifted_int [OF assms(1,3)] pw eq_commute [of root])
  then show ?thesis using kids_filled [OF f] by (auto simp: node_of_def p_def)
qed

lemma nodes_fit:
  assumes "root < n" "plain_tree n ks par" "\<forall>r < n. \<exists>t. build r = Some (Some t) \<and> node_of n root ks par r t"
  shows "\<exists>T. (\<forall>r < n. build r = Some (Some (T r))) \<and> tree_ok n root T"
proof -
  obtain T where "\<forall>r < n. build r = Some (Some (T r)) \<and> node_of n root ks par r (T r)" using assms(3) by metis
  then show ?thesis using tree_ok_plain [OF assms(1,2), of T] by auto
qed

lemma bmtree_built:
  assumes "fresh mem" "root < n" "n \<le> 2 ^ 30"
  shows "\<exists>T. (\<forall>r < n. ompi_coll_tuned_topo_build_bmtree (Some (mem r)) (int n) (int r) (int root) = Some (Some (T r))) \<and> tree_ok n root T"
  using assms bmtree_node by (intro nodes_fit [OF _ bm_plain]) (auto simp: fresh_def MAXTREEFANOUT_def)

interpretation bm: tree_builder "\<lambda>n root. root < n \<and> n \<le> 2 ^ 25" "\<lambda>m n root r. ompi_coll_tuned_topo_build_bmtree (Some m) (int n) (int r) (int root)"
  by unfold_locales (rule bmtree_built; simp)

section \<open>The in-order binomial tree\<close>

text \<open>The position of the lowest bit set in \<open>s\<close>; for 0 the width of the ranks.\<close>

fun low :: "nat \<Rightarrow> nat" where
  "low s = (if s = 0 then 31 else if odd s then 0 else Suc (low (s div 2)))"

declare low.simps [simp del]

lemma low_double: "0 < m \<Longrightarrow> low (2 * m) = Suc (low m)"
  by (simp add: low.simps [of "2 * m"])

lemma low_unique: "low (2 ^ k * (2 * q + 1)) = k"
proof (induction k)
  case (Suc k)
  have "2 ^ Suc k * (2 * q + 1) = 2 * (2 ^ k * (2 * q + 1))" by simp
  then show ?case using Suc low_double [of "2 ^ k * (2 * q + 1)"] by simp
qed (simp add: low.simps)

lemma low_ex: "0 < s \<Longrightarrow> \<exists>q. s = 2 ^ low s * (2 * q + 1)"
proof (induction s rule: less_induct)
  case (less s)
  show ?case
  proof (cases "odd s")
    case True
    then show ?thesis by (auto simp: low.simps [of s] elim: oddE)
  next
    case False
    then obtain m where m: "s = 2 * m" by (auto elim: evenE)
    then obtain q where "m = 2 ^ low m * (2 * q + 1)" using less.IH [of m] less.prems by auto
    moreover have "low s = Suc (low m)" using m less.prems by (simp add: low_double)
    ultimately show ?thesis using m by (metis mult.assoc power_Suc)
  qed
qed

lemma low_less: "0 < s \<Longrightarrow> 2 ^ low s \<le> s"
  using low_ex [of s] by (metis One_nat_def le_add2 mult.right_neutral mult_le_mono2)

lemma low_below:
  assumes "k < low s"
  shows "\<exists>q. s = 2 ^ k * (2 * q)"
proof (cases "s = 0")
  case False
  then obtain q where "s = 2 ^ low s * (2 * q + 1)" using low_ex by blast
  moreover obtain d where "low s = k + Suc d" using assms less_iff_Suc_add by auto
  then have "(2 :: nat) ^ low s = 2 ^ k * (2 * 2 ^ d)" by (simp add: power_add)
  ultimately show ?thesis by (metis mult.assoc)
qed simp

lemma xor_even:
  shows "int (2 ^ k * (2 * q)) XOR 2 ^ k = int (2 ^ k * (2 * q + 1))" "int (2 ^ k * (2 * q + 1)) XOR 2 ^ k = int (2 ^ k * (2 * q))"
proof -
  have "\<not> bit (int (2 ^ k * (2 * q))) k" by (simp add: bit_iff_odd)
  then have "int (2 ^ k * (2 * q)) AND 2 ^ k = 0" by (simp only: and_exp_eq_0_iff_not_bit not_False_eq_True)
  then show x: "int (2 ^ k * (2 * q)) XOR 2 ^ k = int (2 ^ k * (2 * q + 1))" by (simp add: algebra_simps flip: disjunctive_add_eq_xor)
  show "int (2 ^ k * (2 * q + 1)) XOR 2 ^ k = int (2 ^ k * (2 * q))" unfolding x [symmetric] by (simp add: xor.assoc)
qed

definition io_par :: "nat \<Rightarrow> nat" where "io_par c = c - 2 ^ low c"

definition io_kids :: "nat \<Rightarrow> nat \<Rightarrow> nat \<Rightarrow> nat list" where
  "io_kids n k s = map (\<lambda>i. s + 2 ^ i) (filter (\<lambda>i. s + 2 ^ i < n) [k..<low s])"

lemma io_plain:
  assumes "n \<le> 2 ^ 31"
  shows "plain_tree n (io_kids n 0) io_par"
proof -
  have fwd: "io_par (s + 2 ^ i) = s" if i: "i < low s" for s i
  proof -
    obtain q where "s = 2 ^ i * (2 * q)" using low_below [OF i] by blast
    then show ?thesis using low_unique [of i q] by (simp add: io_par_def algebra_simps)
  qed
  have bwd: "\<exists>i. i < low (io_par c) \<and> c = io_par c + 2 ^ i" if c: "0 < c" "c < n" for c
  proof -
    obtain q where q: "c = 2 ^ low c * (2 * q + 1)" using low_ex c(1) by blast
    then have par: "io_par c = 2 ^ low c * (2 * q)" unfolding io_par_def by (metis add_diff_cancel_right' distrib_left nat_mult_1_right)
    have "low c < low (io_par c)"
    proof (cases "q = 0")
      case True
      have "(2 :: nat) ^ low c < 2 ^ 31" using low_less [OF c(1)] c(2) assms by linarith
      then have "low c < 31" by (rule power_less_imp_less_exp [rotated]) simp
      then show ?thesis using True par by (simp add: low.simps)
    next
      case False
      then obtain a where "q = 2 ^ low q * (2 * a + 1)" using low_ex by blast
      then have "io_par c = 2 ^ (low c + 1 + low q) * (2 * a + 1)" using par by (metis mult.assoc power_add power_one_right)
      then show ?thesis using low_unique [of "low c + 1 + low q" a] by simp
    qed
    then show ?thesis using low_less [OF c(1)] by (intro exI [of _ "low c"]) (simp add: io_par_def)
  qed
  have "set (io_kids n 0 s) = {c. 0 < c \<and> c < n \<and> io_par c = s}" for s
  proof (intro equalityI subsetI)
    fix c assume "c \<in> {c. 0 < c \<and> c < n \<and> io_par c = s}"
    then show "c \<in> set (io_kids n 0 s)" using bwd [of c] by (auto simp: io_kids_def)
  qed (auto simp: io_kids_def fwd)
  moreover have "distinct (io_kids n 0 s)" for s by (auto simp: io_kids_def distinct_map inj_on_def)
  moreover have "io_par c < c" if "0 < c" for c using low_less [OF that] that by (simp add: io_par_def diff_less)
  ultimately show ?thesis by (simp add: plain_tree_def)
qed

definition io_prev :: "nat \<Rightarrow> nat \<Rightarrow> nat \<Rightarrow> ompi_coll_tree_t \<Rightarrow> ompi_coll_tree_t" where
  "io_prev n root s t = (if s = 0 then t else t\<lparr>tree_prev := int (unshift n root (io_par s))\<rparr>)"

lemma io_bm_loop_eq:
  assumes "root < n" "n \<le> 2 ^ 31" "s < n" "k \<le> low s" "k \<le> 31" "j \<le> k" "length (tree_next t) = 32"
  shows "\<exists>j' t'. io_bm_loop (int n) (int root) (int s) (2 ^ k) (int j) t = Some (Some (int j', io_prev n root s t'))
    \<and> filled t j (map (\<lambda>c. int (unshift n root c)) (io_kids n k s)) j' t'"
  using assms
proof (induction "31 - k" arbitrary: k j t)
  case 0
  then have "k = 31" by simp
  then have "\<not> (2 :: int) ^ k < int n" using 0(3) by simp
  moreover have "s = 0" using low_less [of s] 0 by (cases "s = 0") (auto dest: power_increasing [of 31 "low s" "2 :: nat"])
  ultimately show ?case using \<open>k = 31\<close> filled_Nil [of t j] by (subst io_bm_loop.simps) (auto simp: io_kids_def io_prev_def low.simps)
next
  case (Suc d)
  then have k: "k < 31" by simp
  let ?P = "\<lambda>k j t. \<exists>j' t'. io_bm_loop (int n) (int root) (int s) (2 ^ k) (int j) t = Some (Some (int j', io_prev n root s t'))
    \<and> filled t j (map (\<lambda>c. int (unshift n root c)) (io_kids n k s)) j' t'"
  consider (stop) "k = low s" | (more) "k < low s" using Suc.prems(4) by linarith
  then show ?case
  proof cases
    case stop
    then have s: "0 < s" using k by (cases "s = 0") (auto simp: low.simps)
    then obtain q where q: "s = 2 ^ k * (2 * q + 1)" using low_ex [of s] stop by auto
    have p: "io_par s = 2 ^ k * (2 * q)" unfolding io_par_def stop [symmetric] by (simp add: q)
    have x: "int s XOR 2 ^ k = int (io_par s)" unfolding p using xor_even(2) [of k q] q by simp
    have "2 ^ k \<le> s" using low_less [OF s] stop by simp
    then have "(2 :: int) ^ k < int n" "int (io_par s) < int s" using Suc.prems(3) s
      by (auto simp: io_par_def)
    then have "io_bm_loop (int n) (int root) (int s) (2 ^ k) (int j) t = Some (Some (int j, io_prev n root s t))"
      using s by (subst io_bm_loop.simps) (simp add: x io_prev_def unshift_smod)
    moreover have "io_kids n k s = []" using stop by (simp add: io_kids_def)
    ultimately show ?thesis using filled_Nil [of t j] by auto
  next
    case more
    then obtain q where q: "s = 2 ^ k * (2 * q)" using low_below by blast
    have x: "int s XOR 2 ^ k = int (s + 2 ^ k)" unfolding q using xor_even(1) [of k q] by (simp add: algebra_simps)
    have nl: "\<not> int (s + 2 ^ k) < int s" by (simp only: of_nat_less_iff)
    have IH: "?P (Suc k) j' t'" if "j' \<le> Suc k" "length (tree_next t') = 32" for j' t'
      using Suc k more that by (intro Suc.hyps(1)) simp_all
    consider (end_) "n \<le> 2 ^ k" | (skip) "2 ^ k < n" "n \<le> s + 2 ^ k" | (child) "s + 2 ^ k < n" by linarith
    then show ?thesis
    proof cases
      case end_
      have "s = 0" using low_less [of s] power_strict_increasing [OF more, of "2 :: nat"] Suc.prems(3) end_ by linarith
      moreover have "\<not> s + 2 ^ i < n" if "k \<le> i" for i using end_ power_increasing [OF that, of "2 :: nat"] by linarith
      then have "io_kids n k s = []" by (auto simp: io_kids_def filter_empty_conv)
      moreover have "\<not> (2 :: int) ^ k < int n" using end_ by simp
      ultimately show ?thesis using filled_Nil [of t j] by (subst io_bm_loop.simps) (auto simp: io_prev_def)
    next
      case skip
      then have "io_bm_loop (int n) (int root) (int s) (2 ^ k) (int j) t = io_bm_loop (int n) (int root) (int s) (2 ^ Suc k) (int j) t"
        using nl by (subst io_bm_loop.simps) (simp add: x Let_def push_bit_eq_mult mult.commute del: of_nat_add)
      moreover have "io_kids n k s = io_kids n (Suc k) s" using more skip by (simp add: io_kids_def upt_conv_Cons)
      ultimately show ?thesis using IH [of j t] Suc.prems(6,7) by simp
    next
      case child
      let ?v = "int (unshift n root (s + 2 ^ k))" and ?t = "t\<lparr>tree_next := (tree_next t)[j := int (unshift n root (s + 2 ^ k))]\<rparr>"
      have "set_next t (int j) ((int (s + 2 ^ k) + int root) smod int n) = Some ?t" using Suc.prems(6,7) k
        unfolding unshift_smod by (intro set_next_eq) simp
      moreover have "int j + 1 \<noteq> int MAXTREEFANOUT" using Suc.prems(6) k by (simp add: MAXTREEFANOUT_def)
      moreover have "(2 :: int) ^ k < int n" using child by simp
      moreover have "int (s + 2 ^ k) < int n" using child by (simp only: of_nat_less_iff)
      ultimately have run: "io_bm_loop (int n) (int root) (int s) (2 ^ k) (int j) t = io_bm_loop (int n) (int root) (int s) (2 ^ Suc k) (int (Suc j)) ?t"
        using nl by (subst io_bm_loop.simps) (simp add: x Let_def push_bit_eq_mult mult.commute add.commute del: of_nat_add cong: if_cong)
      have kids: "io_kids n k s = (s + 2 ^ k) # io_kids n (Suc k) s" using more child by (simp add: io_kids_def upt_conv_Cons)
      show ?thesis unfolding run kids using IH [of "Suc j" ?t] filled_Cons [of j t ?v] Suc.prems(6,7) k by (fastforce simp del: of_nat_Suc)
    qed
  qed
qed

lemma io_bmtree_node:
  assumes "root < n" "n \<le> 2 ^ 31" "r < n" "length (tree_next m) = 32"
  shows "\<exists>t. ompi_coll_tuned_topo_build_in_order_bmtree (Some m) (int n) (int r) (int root) = Some (Some t)
    \<and> node_of n root (io_kids n 0) io_par r t"
proof -
  let ?s = "shift n root r"
  define m1 where "m1 = m\<lparr>tree_bmtree := 1, tree_root := MPI_UNDEFINED, tree_nextsize := MPI_UNDEFINED, tree_next := replicate 32 (- 1)\<rparr>"
  define m2 where "m2 = (if root = r then m1\<lparr>tree_prev := int root\<rparr> else m1)"
  have s: "?s < n" "0 < ?s \<longleftrightarrow> r \<noteq> root" using shift_inverse(1,5) [OF assms(1,3)] by auto
  have "length (tree_next m2) = 32" by (simp add: m1_def m2_def)
  then obtain j t where run: "io_bm_loop (int n) (int root) (int ?s) 1 0 m2 = Some (Some (int j, io_prev n root ?s t))"
    and f: "filled m2 0 (map (\<lambda>c. int (unshift n root c)) (io_kids n 0 ?s)) j t"
    using io_bm_loop_eq [of root n ?s 0 0 m2] assms(1,2) s(1) by auto
  have v: "(int r - int root + int n) smod int n = int ?s"
    using assms(1) by (simp add: shift_def algebra_simps of_nat_diff flip: int_smod_int)
  have "ompi_coll_tuned_topo_build_in_order_bmtree (Some m) (int n) (int r) (int root)
      = Some (Some ((io_prev n root ?s t)\<lparr>tree_nextsize := int j, tree_root := int root\<rparr>))"
    using assms(1,4) run unfolding ompi_coll_tuned_topo_build_in_order_bmtree_def v
    by (cases "root = r") (simp_all add: clear_next_eq MAXTREEFANOUT_def m2_def flip: m1_def)
  moreover have "kids ((io_prev n root ?s t)\<lparr>tree_nextsize := int j, tree_root := int root\<rparr>) = kids (t\<lparr>tree_nextsize := int j, tree_root := int root\<rparr>)"
    by (simp add: kids_def io_prev_def)
  ultimately show ?thesis using kids_filled [OF f] s by (auto simp: node_of_def io_prev_def m1_def m2_def)
qed

lemma in_order_bmtree_built:
  assumes "fresh mem" "root < n" "n \<le> 2 ^ 31"
  shows "\<exists>T. (\<forall>r < n. ompi_coll_tuned_topo_build_in_order_bmtree (Some (mem r)) (int n) (int r) (int root) = Some (Some (T r))) \<and> tree_ok n root T"
  using assms io_bmtree_node by (intro nodes_fit [OF _ io_plain]) (auto simp: fresh_def MAXTREEFANOUT_def)

interpretation io_bm: tree_builder "\<lambda>n root. root < n \<and> n \<le> 2 ^ 25" "\<lambda>m n root r. ompi_coll_tuned_topo_build_in_order_bmtree (Some m) (int n) (int r) (int root)"
  by unfold_locales (rule in_order_bmtree_built; simp)

end
