(* ===== verification/Coll_Kary.thy ===== *)
theory Coll_Kary
  imports Coll_Topo
begin

text \<open>
  The trees of a given fan-out and the chains of \<^verbatim>\<open>coll_tuned_topo.c\<close> fit together: the nodes that
  the processes compute are those of one tree.
\<close>

section \<open>Trees of a given fan-out, level by level\<close>

lemma pown_power: "0 < f \<Longrightarrow> pown (int f) (int l) = int (f ^ l)"
proof -
  have "fold (\<lambda>j p. p * int f) [0..<l] 1 = int f ^ l" by (induction l) simp_all
  then show ?thesis by (auto simp: pown_def push_bit_eq_mult)
qed

fun nodes_above :: "nat \<Rightarrow> nat \<Rightarrow> nat" where
  "nodes_above f 0 = 0"
| "nodes_above f (Suc l) = nodes_above f l + f ^ l"

lemma above_geometric: "0 < f \<Longrightarrow> nodes_above f l * (f - 1) = f ^ l - 1"
proof (induction l)
  case (Suc l)
  have "nodes_above f (Suc l) * (f - 1) = f ^ l - 1 + f ^ l * (f - 1)" using Suc by (simp add: algebra_simps)
  also have "f ^ l * (f - 1) = f ^ Suc l - f ^ l" by (simp add: algebra_simps)
  finally show ?case using Suc.prems by simp
qed simp

lemma num_nodes_above:
  assumes "1 < f"
  shows "calculate_num_nodes_up_to_level (int f) (int l) = Some (int (nodes_above f l))"
proof -
  have "int (f ^ l) - 1 = int (nodes_above f l * (f - 1))" using above_geometric [of f l] assms by (simp add: of_nat_diff del: of_nat_mult)
  moreover have "int f - 1 = int (f - 1)" using assms by simp
  ultimately show ?thesis using assms unfolding calculate_num_nodes_up_to_level_def
    by (simp add: pown_power del: of_nat_power of_nat_mult of_nat_diff)
qed

text \<open>\<open>on_level f l s\<close>: the node \<open>s\<close> is on level \<open>l\<close> of the tree.\<close>

definition on_level :: "nat \<Rightarrow> nat \<Rightarrow> nat \<Rightarrow> bool" where
  "on_level f l s \<longleftrightarrow> nodes_above f l \<le> s \<and> s < nodes_above f (Suc l)"

lemma level_loop_eq: "1 < f \<Longrightarrow> nodes_above f k \<le> s \<Longrightarrow> \<exists>l. level_loop (int f) (int s) (int k) (int (nodes_above f k)) = Some (int l) \<and> on_level f l s"
proof (induction "Suc s - nodes_above f k" arbitrary: k rule: less_induct)
  case less
  have p: "pown (int f) (int k) = int (f ^ k)" using less.prems by (simp add: pown_power)
  have pos: "0 < f ^ k" "\<not> int f ^ k \<le> 0" using less.prems by (simp_all add: not_le)
  show ?case
  proof (cases "s < nodes_above f (Suc k)")
    case True
    then have "level_loop (int f) (int s) (int k + 1) (int (nodes_above f (Suc k))) = Some (int k)" by (subst level_loop.simps) (simp del: nodes_above.simps)
    then have "level_loop (int f) (int s) (int k) (int (nodes_above f k)) = Some (int k)"
      using less.prems(2) pos by (subst level_loop.simps) (simp add: p)
    then show ?thesis using True less.prems by (auto simp: on_level_def)
  next
    case False
    then have "Suc s - nodes_above f (Suc k) < Suc s - nodes_above f k" using pos(1) less.prems(2) unfolding nodes_above.simps by linarith
    then obtain l where "level_loop (int f) (int s) (int (Suc k)) (int (nodes_above f (Suc k))) = Some (int l)" "on_level f l s"
      using less.hyps [of "Suc k"] less.prems False by (auto simp del: nodes_above.simps)
    then show ?thesis using less.prems pos by (subst level_loop.simps) (simp add: p add.commute)
  qed
qed

lemma level_ex: "1 < f \<Longrightarrow> \<exists>l. calculate_level (int f) (int s) = Some (int l) \<and> on_level f l s"
  using level_loop_eq [of f 0 s] by (simp add: calculate_level_def)

lemma above_mono: "k \<le> l \<Longrightarrow> nodes_above f k \<le> nodes_above f l"
  by (induction l) (auto simp: le_Suc_eq)

lemma on_level_unique: "on_level f k s \<Longrightarrow> on_level f l s \<Longrightarrow> k = l"
  using above_mono [of "Suc k" l f] above_mono [of "Suc l" k f] unfolding on_level_def by (metis linorder_neqE_nat not_less not_less_eq order.strict_trans1 Suc_leI)

definition level_of :: "nat \<Rightarrow> nat \<Rightarrow> nat" where
  "level_of f s = nat (the (calculate_level (int f) (int s)))"

lemma level_of: "1 < f \<Longrightarrow> on_level f (level_of f s) s" "1 < f \<Longrightarrow> calculate_level (int f) (int s) = Some (int (level_of f s))"
  using level_ex [of f s] by (auto simp: level_of_def)

lemma level_of_eq: "1 < f \<Longrightarrow> on_level f l s \<Longrightarrow> level_of f s = l"
  using on_level_unique level_of(1) by blast

definition kary_par :: "nat \<Rightarrow> nat \<Rightarrow> nat" where
  "kary_par f c = (let l = level_of f c - 1 in nodes_above f l + (c - nodes_above f l) mod f ^ l)"

definition kary_kids :: "nat \<Rightarrow> nat \<Rightarrow> nat \<Rightarrow> nat \<Rightarrow> nat \<Rightarrow> nat list" where
  "kary_kids f n d k s = map (\<lambda>i. s + d * (i + 1)) (filter (\<lambda>i. s + d * (i + 1) < n) [k..<f])"

lemma kary_plain:
  assumes "1 < f"
  shows "plain_tree n (\<lambda>s. kary_kids f n (f ^ level_of f s) 0 s) (kary_par f)"
proof -
  have fwd: "kary_par f (s + f ^ level_of f s * (i + 1)) = s" if "i < f" for s i
  proof -
    define l where "l = level_of f s"
    have s: "nodes_above f l \<le> s" "s < nodes_above f l + f ^ l" using level_of(1) [OF assms, of s] by (simp_all add: l_def on_level_def)
    have "f ^ l * (i + 1) \<le> f ^ l * f" using that by (intro mult_le_mono2) simp
    then have "on_level f (Suc l) (s + f ^ l * (i + 1))" using s by (auto simp: on_level_def mult.commute)
    then have "level_of f (s + f ^ l * (i + 1)) = Suc l" using level_of_eq assms by blast
    moreover have "(s + f ^ l * (i + 1) - nodes_above f l) mod f ^ l = s - nodes_above f l"
    proof -
      have "s + f ^ l * (i + 1) - nodes_above f l = (s - nodes_above f l) + f ^ l * (i + 1)" using s by simp
      then show ?thesis using s by (simp only: mod_mult_self2 mod_less less_diff_conv2 add.commute)
    qed
    ultimately show ?thesis using s by (simp add: kary_par_def flip: l_def)
  qed
  have bwd: "kary_par f c < c \<and> (\<exists>i < f. c = kary_par f c + f ^ level_of f (kary_par f c) * (i + 1))" if pos: "0 < c" for c
  proof -
    obtain l where l: "level_of f c = Suc l" using level_of(1) [OF assms, of c] pos by (cases "level_of f c") (auto simp: on_level_def)
    define b where "b = c - nodes_above f l"
    have c: "nodes_above f l + f ^ l \<le> c" "c < nodes_above f l + f ^ l + f ^ l * f" using level_of(1) [OF assms, of c] l by (simp_all add: on_level_def mult.commute)
    then have b: "c = nodes_above f l + b" "f ^ l \<le> b" "b < f ^ l * (f + 1)" by (simp_all add: b_def algebra_simps)
    have par: "kary_par f c = nodes_above f l + b mod f ^ l" using l by (simp add: kary_par_def b_def)
    have pos: "0 < f ^ l" using assms by simp
    then have "on_level f l (kary_par f c)" by (simp add: par on_level_def)
    then have lev: "level_of f (kary_par f c) = l" using level_of_eq assms by blast
    define q where "q = b div f ^ l"
    have q: "0 < q" "q < f + 1" "b = b mod f ^ l + f ^ l * q" using b(2,3) pos by (simp_all add: q_def div_greater_zero_iff less_mult_imp_div_less mult.commute)
    then have "c = kary_par f c + f ^ l * (q - 1 + 1)" using b(1) par by simp
    moreover from this have "kary_par f c < c" using mult_pos_pos [OF pos q(1)] q(1) by (metis Suc_pred' add_diff_cancel_right' diff_add_inverse less_add_same_cancel1 Suc_eq_plus1)
    ultimately show ?thesis using q lev by (intro conjI exI [of _ "q - 1"]) auto
  qed
  have "set (kary_kids f n (f ^ level_of f s) 0 s) = {c. 0 < c \<and> c < n \<and> kary_par f c = s}" for s
  proof (intro equalityI subsetI)
    fix c assume "c \<in> {c. 0 < c \<and> c < n \<and> kary_par f c = s}"
    then show "c \<in> set (kary_kids f n (f ^ level_of f s) 0 s)" using bwd [of c] by (force simp: kary_kids_def)
  next
    fix c assume "c \<in> set (kary_kids f n (f ^ level_of f s) 0 s)"
    then obtain i where "i < f" "c < n" "c = s + f ^ level_of f s * (i + 1)" by (auto simp: kary_kids_def)
    then show "c \<in> {c. 0 < c \<and> c < n \<and> kary_par f c = s}" using fwd [of i s] assms by simp
  qed
  moreover have "distinct (kary_kids f n (f ^ level_of f s) 0 s)" for s using assms by (auto simp: kary_kids_def distinct_map inj_on_def)
  ultimately show ?thesis using bwd by (simp add: plain_tree_def)
qed

lemma parent_loop_eq:
  assumes "1 < f" "nodes_above f l \<le> s"
  shows "parent_loop (int (nodes_above f (Suc l))) (int (f ^ l)) (int s) = Some (int (nodes_above f l + (s - nodes_above f l) mod f ^ l))"
  using assms(2)
proof (induction s rule: less_induct)
  case (less s)
  have pos: "0 < f ^ l" using assms(1) by simp
  show ?case
  proof (cases "s < nodes_above f (Suc l)")
    case True
    then show ?thesis using less.prems by (subst parent_loop.simps) (simp del: of_nat_add nodes_above.simps of_nat_power, simp)
  next
    case False
    then have s: "f ^ l \<le> s - nodes_above f l" "nodes_above f l \<le> s - f ^ l" "f ^ l \<le> s" using less.prems by simp_all
    then have "(s - f ^ l - nodes_above f l) mod f ^ l = (s - nodes_above f l) mod f ^ l" by (metis diff_commute le_mod_geq)
    moreover have "int s - int (f ^ l) = int (s - f ^ l)" using s(3) by (rule of_nat_diff [symmetric])
    moreover have "s - f ^ l < s" using pos s(3) by linarith
    ultimately show ?thesis using less.IH [of "s - f ^ l"] s pos False
      by (subst parent_loop.simps) (simp del: of_nat_add nodes_above.simps of_nat_power)
  qed
qed

lemma children_loop_eq:
  assumes "root < n" "0 < d" "f \<le> length (tree_next t)" "k \<le> f"
  shows "\<exists>l. children_loop (int n) (int root) (int s) (int d) [k..<f] t
       = Some (t\<lparr>tree_next := l, tree_nextsize := tree_nextsize t + int (length (kary_kids f n d k s))\<rparr>)
    \<and> length l = length (tree_next t)
    \<and> take (k + length (kary_kids f n d k s)) l = take k (tree_next t) @ map (\<lambda>c. int (unshift n root c)) (kary_kids f n d k s)"
  using assms(3,4)
proof (induction "f - k" arbitrary: k t)
  case 0
  then show ?case by (intro exI [of _ "tree_next t"]) (simp add: kary_kids_def)
next
  case (Suc x)
  then have k: "k < f" and x: "x = f - Suc k" by simp_all
  let ?c = "s + d * (k + 1)"
  have c: "int s + int d * (int k + 1) = int ?c" by (simp add: algebra_simps)
  show ?case
  proof (cases "?c < n")
    case True
    define t1 where "t1 = t\<lparr>tree_next := (tree_next t)[k := int (unshift n root ?c)], tree_nextsize := tree_nextsize t + 1\<rparr>"
    have "set_next t (int k) ((int ?c + int root) smod int n) = Some (t\<lparr>tree_next := (tree_next t)[k := int (unshift n root ?c)]\<rparr>)"
      using k Suc.prems unfolding unshift_smod by (intro set_next_eq) simp
    then have run: "children_loop (int n) (int root) (int s) (int d) [k..<f] t = children_loop (int n) (int root) (int s) (int d) [Suc k..<f] t1"
      using k True unfolding upt_conv_Cons [OF k] by (simp add: c t1_def del: of_nat_add of_nat_mult of_nat_Suc)
    have kids: "kary_kids f n d k s = ?c # kary_kids f n d (Suc k) s" using k True by (simp add: kary_kids_def upt_conv_Cons)
    obtain l where "children_loop (int n) (int root) (int s) (int d) [Suc k..<f] t1
        = Some (t1\<lparr>tree_next := l, tree_nextsize := tree_nextsize t1 + int (length (kary_kids f n d (Suc k) s))\<rparr>)"
      "length l = length (tree_next t1)"
      "take (Suc k + length (kary_kids f n d (Suc k) s)) l = take (Suc k) (tree_next t1) @ map (\<lambda>c. int (unshift n root c)) (kary_kids f n d (Suc k) s)"
      using Suc.hyps(1) [of "Suc k" t1] x Suc.prems k by (auto simp: t1_def)
    then show ?thesis using k Suc.prems(1) unfolding run kids by (intro exI [of _ l]) (simp add: t1_def take_Suc_conv_app_nth)
  next
    case False
    have "\<not> s + d * (i + 1) < n" if "k \<le> i" for i using False mult_le_mono2 [of "k + 1" "i + 1" d] that by linarith
    then have "kary_kids f n d k s = []" by (auto simp: kary_kids_def filter_empty_conv)
    then show ?thesis using False unfolding upt_conv_Cons [OF k]
      by (intro exI [of _ "tree_next t"]) (simp add: c del: of_nat_add of_nat_mult of_nat_Suc)
  qed
qed

lemma kary_node:
  assumes "root < n" "r < n" "1 < f" "f \<le> 32" "length (tree_next m) = 32"
  shows "\<exists>t. ompi_coll_tuned_topo_build_tree (Some m) (int f) (int n) (int r) (int root) = Some (Some t)
    \<and> node_of n root (\<lambda>s. kary_kids f n (f ^ level_of f s) 0 s) (kary_par f) r t"
proof -
  let ?s = "shift n root r" and ?l = "level_of f (shift n root r)"
  define m1 where "m1 = m\<lparr>tree_root := int root, tree_fanout := int f, tree_bmtree := 0, tree_prev := - 1, tree_nextsize := 0,
    tree_next := replicate f (- 1) @ drop f (tree_next m)\<rparr>"
  have s: "?s < n" "0 < ?s \<longleftrightarrow> r \<noteq> root" using shift_inverse(1,5) [OF assms(1,2)] by auto
  obtain l where l: "children_loop (int n) (int root) (int ?s) (int (f ^ ?l)) [0..<f] m1
       = Some (m1\<lparr>tree_next := l, tree_nextsize := int (length (kary_kids f n (f ^ ?l) 0 ?s))\<rparr>)"
    "length l = 32" "take (length (kary_kids f n (f ^ ?l) 0 ?s)) l = map (\<lambda>c. int (unshift n root c)) (kary_kids f n (f ^ ?l) 0 ?s)"
    using children_loop_eq [of root n "f ^ ?l" f m1 0 ?s] assms by (auto simp: m1_def)
  have len: "length (kary_kids f n (f ^ ?l) 0 ?s) \<le> 32" using arg_cong [OF l(3), of length] l(2) by simp
  define p where "p = (if ?s = 0 then 0 else kary_par f ?s)"
  have par: "(if int ?s < int f then Some 0
      else parent_loop (int (nodes_above f ?l)) (int (f ^ ?l) sdiv int f) (int ?s)) = Some (int p)"
  proof (cases "?s < f")
    case True
    have "on_level f 1 ?s" if "0 < ?s" using True that by (simp add: on_level_def)
    then show ?thesis using True level_of_eq [OF assms(3), of 1 ?s] by (auto simp: p_def kary_par_def)
  next
    case False
    obtain l' where l': "?l = Suc l'" using level_of(1) [OF assms(3), of ?s] False assms(3) by (cases ?l) (auto simp: on_level_def)
    then have "nodes_above f l' \<le> ?s" using level_of(1) [OF assms(3), of ?s] by (simp add: on_level_def)
    moreover have "int (f ^ Suc l') sdiv int f = int (f ^ l')" unfolding int_sdiv_int using assms(3) by simp
    ultimately show ?thesis using parent_loop_eq [OF assms(3), of l' ?s] False assms(3) l'
      by (simp add: p_def kary_par_def del: nodes_above.simps of_nat_power power_Suc)
  qed
  define t where "t = m1\<lparr>tree_next := l, tree_nextsize := int (length (kary_kids f n (f ^ ?l) 0 ?s)), tree_prev := int (unshift n root p)\<rparr>"
  show ?thesis
  proof (cases "n < 2")
    case True
    then have "n = 1" "root = 0" "r = 0" using assms(1,2) by simp_all
    then have "ompi_coll_tuned_topo_build_tree (Some m) (int f) (int n) (int r) (int root) = Some (Some m1)"
      using assms by (simp add: ompi_coll_tuned_topo_build_tree_def clear_next_eq MAXTREEFANOUT_def m1_def)
    moreover have "kary_kids f n (f ^ ?l) 0 ?s = []" using \<open>n = 1\<close> assms(3) by (auto simp: kary_kids_def filter_empty_conv)
    ultimately show ?thesis using \<open>r = 0\<close> \<open>root = 0\<close> by (simp add: node_of_def kids_def m1_def)
  next
    case False
    have m1: "clear_next f (m\<lparr>tree_root := int root, tree_fanout := int f, tree_bmtree := 0, tree_prev := - 1, tree_nextsize := 0\<rparr>) = Some m1"
      using assms(4,5) by (simp add: clear_next_eq m1_def)
    have "ompi_coll_tuned_topo_build_tree (Some m) (int f) (int n) (int r) (int root) = Some (Some t)"
      using assms(3,4) False l(1) par unfolding ompi_coll_tuned_topo_build_tree_def shifted_int [OF assms(1,2)] Let_def
      by (cases "?s < f") (simp_all add: m1 MAXTREEFANOUT_def level_of(2) num_nodes_above pown_power unshift_smod t_def unshift_def del: of_nat_power)
    moreover have "r \<noteq> root \<Longrightarrow> p = kary_par f ?s" using s(2) by (simp add: p_def)
    ultimately show ?thesis using l len by (auto simp: node_of_def kids_def t_def m1_def)
  qed
qed

lemma kary_built:
  assumes "fresh mem" "root < n" "1 < f" "f \<le> 32"
  shows "\<exists>T. (\<forall>r < n. ompi_coll_tuned_topo_build_tree (Some (mem r)) (int f) (int n) (int r) (int root) = Some (Some (T r))) \<and> tree_ok n root T"
  using assms kary_node by (intro nodes_fit [OF _ kary_plain]) (auto simp: fresh_def MAXTREEFANOUT_def)

lemma kary_fanout_1: "1 < n \<Longrightarrow> ompi_coll_tuned_topo_build_tree (Some m) 1 (int n) (int r) (int root) = None"
  by (simp add: ompi_coll_tuned_topo_build_tree_def MAXTREEFANOUT_def calculate_num_nodes_up_to_level_def bind_eq_None_conv)

text \<open>Every process computes its node of one tree of the requested fan-out, rooted at any rank: whatever is in the memory for the nodes, parents and children agree, no child is listed twice, and every node lies below the root. The bound on the ranks keeps the powers of the fan-out within the type int.\<close>

lemma kary_tree_fits:
  assumes "root < n" "n \<le> 2 ^ 25" "1 < f" "f \<le> MAXTREEFANOUT" "\<forall>r < n. length (tree_next (M r)) = MAXTREEFANOUT"
  shows "\<exists>T. (\<forall>r < n. ompi_coll_tuned_topo_build_tree (Some (M r)) (int f) (int n) (int r) (int root) = Some (Some (T r))) \<and> tree_ok n root T"
proof -
  have "fresh (\<lambda>r. if r < n then M r else M 0)" using assms(1,5) by (auto simp: fresh_def)
  from kary_built [OF this assms(1,3)] show ?thesis using assms(4) by (simp add: MAXTREEFANOUT_def)
qed

interpretation binary: tree_builder "\<lambda>n root. root < n \<and> n \<le> 2 ^ 25" "\<lambda>m n root r. ompi_coll_tuned_topo_build_tree (Some m) 2 (int n) (int r) (int root)"
  using kary_built [where f = 2] by unfold_locales simp

section \<open>Chains, by their first ranks\<close>

text \<open>\<open>head_of M mark i\<close>: the first rank of chain \<open>i\<close>.\<close>

definition head_of :: "nat \<Rightarrow> nat \<Rightarrow> nat \<Rightarrow> nat" where
  "head_of M mark i = 1 + min i mark * M + (i - mark) * (M - 1)"

lemma head_of_0 [simp]: "head_of M mark 0 = 1"
  by (simp add: head_of_def)

lemma head_of_Suc: "head_of M mark (Suc i) = head_of M mark i + (if i < mark then M else M - 1)"
  by (cases "i < mark") (auto simp: head_of_def Suc_diff_le)

definition chain_par :: "(nat \<Rightarrow> nat) \<Rightarrow> nat \<Rightarrow> nat \<Rightarrow> nat" where
  "chain_par h F c = (if c \<in> h ` {..<F} then 0 else c - 1)"

definition chain_kids :: "nat \<Rightarrow> (nat \<Rightarrow> nat) \<Rightarrow> nat \<Rightarrow> nat \<Rightarrow> nat list" where
  "chain_kids n h F s = (if s = 0 then map h [0..<F] else if s + 1 < n \<and> s + 1 \<notin> h ` {..<F} then [s + 1] else [])"

text \<open>\<open>h\<close> cuts the ranks \<open>1, \<dots>, n - 1\<close> into \<open>F\<close> chains.\<close>

definition cuts :: "nat \<Rightarrow> (nat \<Rightarrow> nat) \<Rightarrow> nat \<Rightarrow> bool" where
  "cuts n h F \<longleftrightarrow> h 0 = 1 \<and> h F = n \<and> (\<forall>i < F. h i < h (Suc i))"

lemma cuts_mono:
  assumes "cuts n h F" "i < j" "j \<le> F"
  shows "h i < h j"
  using assms(2,3)
proof (induction j)
  case (Suc j)
  then show ?case using assms(1) by (cases "i = j") (auto simp: cuts_def intro: less_trans)
qed simp

lemma cuts_bounds: "cuts n h F \<Longrightarrow> i < F \<Longrightarrow> 0 < h i \<and> h i < n"
  using cuts_mono [of n h F 0 i] cuts_mono [of n h F i F] by (cases "i = 0") (auto simp: cuts_def)

lemma chain_plain:
  assumes "cuts n h F"
  shows "plain_tree n (chain_kids n h F) (chain_par h F)"
proof -
  have "h 0 = 1" "h F = n" using assms by (simp_all add: cuts_def)
  then have one: "1 \<in> h ` {..<F}" if "1 < n" using that by (cases F) (auto simp: image_iff intro!: bexI [of _ 0])
  have "inj_on h {..<F}" by (intro linorder_inj_onI) (auto dest: cuts_mono [OF assms])
  then have "distinct (chain_kids n h F s)" for s by (auto simp: chain_kids_def distinct_map atLeast0LessThan)
  moreover have "set (chain_kids n h F s) = {c. 0 < c \<and> c < n \<and> chain_par h F c = s}" for s
  proof (cases "s = 0")
    case True
    then have "chain_par h F c = s \<longleftrightarrow> c \<in> h ` {..<F}" if "0 < c" "c < n" for c
      using one that by (cases "c = 1") (auto simp: chain_par_def)
    then show ?thesis using True cuts_bounds [OF assms] by (auto simp: chain_kids_def)
  next
    case False
    then show ?thesis by (auto simp: chain_kids_def chain_par_def)
  qed
  ultimately show ?thesis by (auto simp: plain_tree_def chain_par_def)
qed

lemma cuts_between:
  assumes "cuts n h F" "h i \<le> s" "s < h (Suc i)" "s < n" "0 < s" "\<forall>i. h i \<le> h (Suc i)"
  shows "i < F" "s \<in> h ` {..<F} \<longleftrightarrow> s = h i" "s + 1 \<in> h ` {..<F} \<longleftrightarrow> s + 1 = h (Suc i) \<and> s + 1 < n"
proof -
  have mono: "k \<le> l \<Longrightarrow> h k \<le> h l" for k l using assms(6) lift_Suc_mono_le [of h k l] by simp
  show "i < F" using mono [of F i] assms(1,2,4) by (force simp: cuts_def not_less)
  have ge: "k \<le> i \<or> h (Suc i) \<le> h k" for k using mono [of "Suc i" k] by linarith
  have le: "Suc i \<le> k \<or> h k \<le> h i" for k using mono [of k i] by linarith
  show "s \<in> h ` {..<F} \<longleftrightarrow> s = h i"
  proof
    assume "s \<in> h ` {..<F}"
    then obtain k where "s = h k" by auto
    then show "s = h i" using ge [of k] le [of k] assms(2,3) by linarith
  qed (use \<open>i < F\<close> in auto)
  show "s + 1 \<in> h ` {..<F} \<longleftrightarrow> s + 1 = h (Suc i) \<and> s + 1 < n"
  proof
    assume "s + 1 \<in> h ` {..<F}"
    then obtain k where k: "k < F" "s + 1 = h k" by auto
    then have "s + 1 < n" using cuts_bounds [OF assms(1), of k] by simp
    moreover have "s + 1 = h (Suc i)" using ge [of k] le [of k] k(2) assms(2,3) by linarith
    ultimately show "s + 1 = h (Suc i) \<and> s + 1 < n" by simp
  next
    assume s: "s + 1 = h (Suc i) \<and> s + 1 < n"
    then have "Suc i \<noteq> F" using assms(1) by (auto simp: cuts_def)
    then show "s + 1 \<in> h ` {..<F}" using s \<open>i < F\<close> by auto
  qed
qed

lemma head_cuts:
  assumes "0 < F" "F < n" "M = (n - 1) div F + (if (n - 1) mod F \<noteq> 0 then 1 else 0)"
    "mark = (if (n - 1) mod F \<noteq> 0 then (n - 1) mod F else F + 1)"
  shows "cuts n (head_of M mark) F" "0 < M" "\<And>s. s < n \<Longrightarrow> s - 1 < mark * M \<or> 1 < M"
proof -
  have q: "0 < (n - 1) div F" using assms(1,2) by (simp add: div_greater_zero_iff)
  then show "0 < M" using assms(3) by simp
  have n: "n = 1 + F * ((n - 1) div F) + (n - 1) mod F" using assms(2) by simp
  show c: "s - 1 < mark * M \<or> 1 < M" if "s < n" for s
    using q assms(3,4) that n by (cases "(n - 1) mod F = 0") auto
  have "head_of M mark F = n"
  proof (cases "(n - 1) mod F = 0")
    case True
    then show ?thesis using n assms(3,4) by (simp add: head_of_def)
  next
    case False
    define r where "r = (n - 1) mod F"
    define k where "k = (n - 1) div F"
    have r: "r < F" "n = 1 + F * k + r" "M = k + 1" "mark = r" using False assms n by (simp_all add: r_def k_def)
    then have "F * k = r * k + (F - r) * k" by (metis add_mult_distrib le_add_diff_inverse less_imp_le)
    then show ?thesis using r by (simp add: head_of_def)
  qed
  moreover have "head_of M mark i < head_of M mark (Suc i)" if "i < F" for i
    using that q assms(3,4) by (cases "(n - 1) mod F = 0") (auto simp: head_of_Suc)
  ultimately show "cuts n (head_of M mark) F" by (simp add: cuts_def)
qed

lemma chain_place_eq:
  assumes "0 < s" "0 < M" "s - 1 < mark * M \<or> 1 < M"
  shows "\<exists>i. chain_place (int mark) (int M) (int s) = Some (int (head_of M mark i), int (head_of M mark (Suc i) - head_of M mark i))
    \<and> head_of M mark i \<le> s \<and> s < head_of M mark (Suc i)"
proof -
  define b where "b = s - 1"
  have s: "s = Suc b" "int s - 1 = int b" using assms(1) by (simp_all add: b_def)
  show ?thesis
  proof (cases "b < mark * M")
    case True
    define i where "i = b div M"
    have i: "i * M \<le> b" "b < Suc i * M" using assms(2) div_times_less_eq_dividend [of b M] dividend_less_div_times [of M b] by (simp_all add: i_def)
    have "i < mark" using True by (simp add: i_def less_mult_imp_div_less)
    then have h: "head_of M mark i = 1 + i * M" "head_of M mark (Suc i) = 1 + i * M + M" by (simp_all add: head_of_def)
    have "int b < int mark * int M" using True by (metis of_nat_less_iff of_nat_mult)
    then have "chain_place (int mark) (int M) (int s) = Some (int (1 + i * M), int M)"
      unfolding chain_place_def s(2) using assms(2) by (simp add: i_def)
    then show ?thesis using i h s(1) by (intro exI [of _ i]) simp
  next
    case False
    define x where "x = b - mark * M"
    define k where "k = M - 1"
    have k: "0 < k" "M = Suc k" using False assms(3) by (auto simp: k_def b_def)
    define i where "i = x div k"
    have i: "i * k \<le> x" "x < Suc i * k" using k div_times_less_eq_dividend [of x k] dividend_less_div_times [of k x] by (simp_all add: i_def)
    have h: "head_of M mark (mark + i) = 1 + mark * M + i * k" "head_of M mark (Suc (mark + i)) = 1 + mark * M + i * k + k"
      by (simp_all add: head_of_def k_def Suc_diff_le)
    have b: "b = mark * M + x" using False by (simp add: x_def)
    then have "int b = int mark * int M + int x" by simp
    then have x: "\<not> int b < int mark * int M" "int b - int mark * int M = int x" "int M - 1 = int k" using k(2) by simp_all
    then have "chain_place (int mark) (int M) (int s) = Some (int (1 + mark * M + i * k), int k)"
      unfolding chain_place_def s(2) x(2,3) using k(1) by (simp add: i_def)
    then show ?thesis using i h s(1) b by (intro exI [of _ "mark + i"]) simp
  qed
qed

lemma chain_heads_eq:
  assumes "root < n" "0 < F" "F \<le> length (tree_next t)" "0 < M" "h = head_of M mark"
  shows "\<exists>l. chain_heads (int n) (int root) (int F) (int mark) (int M) t = Some (t\<lparr>tree_next := l\<rparr>)
    \<and> length l = length (tree_next t) \<and> take F l = map (\<lambda>i. int (unshift n root (h i))) [0..<F]"
proof -
  define P where "P i t' \<longleftrightarrow> (\<exists>l. t' = t\<lparr>tree_next := l\<rparr> \<and> length l = length (tree_next t)
    \<and> take (Suc i) l = map (\<lambda>i. int (unshift n root (h i))) [0..<Suc i])" for i t'
  let ?f = "\<lambda>i chain. do {p \<leftarrow> aget (tree_next chain) (int i - 1);
       set_next chain (int i) ((if int i > int mark then p + int M - 1 else p + int M) smod int n)}"
  have step: "\<exists>t2. ?f (Suc i) t1 = Some t2 \<and> P (Suc i) t2" if i: "i < F - 1" and P: "P i t1" for i t1
  proof -
    obtain l where l: "t1 = t\<lparr>tree_next := l\<rparr>" "length l = length (tree_next t)" "take (Suc i) l = map (\<lambda>i. int (unshift n root (h i))) [0..<Suc i]"
      using P by (auto simp: P_def)
    have "l ! i = take (Suc i) l ! i" by simp
    then have li: "l ! i = int (unshift n root (h i))" by (simp add: l(3) nth_append)
    have len: "i < length l" "Suc i < length l" using i assms(2,3) l(2) by simp_all
    then have get: "aget l (int (Suc i) - 1) = Some (l ! i)" by simp
    have "(if int (Suc i) > int mark then l ! i + int M - 1 else l ! i + int M) = int (unshift n root (h i) + (if i < mark then M else M - 1))"
      using assms(4) by (auto simp: li)
    then have v: "(if int (Suc i) > int mark then l ! i + int M - 1 else l ! i + int M) smod int n = int (unshift n root (h (Suc i)))"
      by (simp only: int_smod_int) (simp add: unshift_def assms(5) head_of_Suc mod_simps ac_simps)
    have "?f (Suc i) t1 = Some (t1\<lparr>tree_next := l[Suc i := int (unshift n root (h (Suc i)))]\<rparr>)"
      using v len l(1) set_next_eq [of "Suc i" t1] get by (simp del: of_nat_Suc)
    moreover have "P (Suc i) (t1\<lparr>tree_next := l[Suc i := int (unshift n root (h (Suc i)))]\<rparr>)"
      unfolding P_def using l len by (intro exI [of _ "l[Suc i := int (unshift n root (h (Suc i)))]"]) (simp add: take_Suc_conv_app_nth)
    ultimately show ?thesis by blast
  qed
  have "(int root + 1) smod int n = int (unshift n root (h 0))" using unshift_smod [of 1 root n] by (simp add: assms(5) add.commute)
  then have "set_next t 0 ((int root + 1) smod int n) = Some (t\<lparr>tree_next := (tree_next t)[0 := int (unshift n root (h 0))]\<rparr>)"
    using set_next_eq [of 0 t] assms(2,3) by fastforce
  moreover have "P 0 (t\<lparr>tree_next := (tree_next t)[0 := int (unshift n root (h 0))]\<rparr>)" using assms(2,3) unfolding P_def
    by (intro exI [of _ "(tree_next t)[0 := int (unshift n root (h 0))]"]) (cases "tree_next t"; simp)
  then have "\<exists>t2. ofold (\<lambda>i. ?f (Suc i)) [0..<F - 1] (t\<lparr>tree_next := (tree_next t)[0 := int (unshift n root (h 0))]\<rparr>) = Some t2 \<and> P (F - 1) t2"
    using step by (intro ofold_upt_inv) blast+
  moreover have "[1..<F] = map Suc [0..<F - 1]" using assms(2) by (simp add: map_Suc_upt)
  ultimately show ?thesis using assms(2) unfolding chain_heads_def by (auto simp: P_def ofold_map simp del: of_nat_Suc)
qed

text \<open>The node of a rank other than the root: the head of its chain has the root as its parent, the last rank no child.\<close>

definition chain_link :: "int \<Rightarrow> int list \<Rightarrow> ompi_coll_tree_t \<Rightarrow> ompi_coll_tree_t \<Rightarrow> bool" where
  "chain_link p ks t t' \<longleftrightarrow> tree_root t' = tree_root t \<and> tree_prev t' = p \<and> tree_nextsize t' = int (length ks) \<and> length ks \<le> 1
     \<and> kids t' = ks \<and> length (tree_next t') = length (tree_next t) \<and> (ks = [] \<longrightarrow> hd (tree_next t') = - 1)"

lemma chain_node_eq:
  assumes "cuts n h F" "h i \<le> s" "s < h (Suc i)" "s < n" "0 < s" "\<forall>i. h i \<le> h (Suc i)" "tree_next t \<noteq> []"
  shows "\<exists>t'. chain_node (int n) (int (h i)) (int (h (Suc i) - h i)) (int s) t = Some t'
    \<and> chain_link (int (chain_par h F s)) (map int (chain_kids n h F s)) t t'"
proof -
  note b = cuts_between [OF assms(1-6)]
  obtain x xs where t: "tree_next t = x # xs" using assms(7) by (cases "tree_next t") auto
  have last: "int s = int (h i) + int (h (Suc i) - h i) - 1 \<longleftrightarrow> s + 1 = h (Suc i)" using assms(2,3) by auto
  have p: "(if int s = int (h i) then 0 else int s - 1) = int (chain_par h F s)" using b(2) assms(5) by (auto simp: chain_par_def)
  have set0: "set_next (t\<lparr>tree_prev := q\<rparr>) 0 v = Some (t\<lparr>tree_prev := q, tree_next := v # xs\<rparr>)" for q v
    using t by (simp add: set_next_def aset_def)
  have "chain_node (int n) (int (h i)) (int (h (Suc i) - h i)) (int s) t
      = Some (if s + 1 = h (Suc i) \<or> n \<le> s + 1 then t\<lparr>tree_prev := int (chain_par h F s), tree_next := - 1 # xs, tree_nextsize := 0\<rparr>
              else t\<lparr>tree_prev := int (chain_par h F s), tree_next := (int s + 1) # xs, tree_nextsize := 1\<rparr>)"
    unfolding chain_node_def p last Let_def set0 by auto
  moreover have "chain_kids n h F s = (if s + 1 = h (Suc i) \<or> n \<le> s + 1 then [] else [s + 1])"
    using b(3) assms(5) by (auto simp: chain_kids_def)
  ultimately show ?thesis using t by (simp add: chain_link_def kids_def)
qed

text \<open>The fan-out after clipping, the length of the longest chain and the number of the chains that have it.\<close>

definition chain_fan :: "int \<Rightarrow> nat" where
  "chain_fan f = nat (min (max f 1) 32)"

definition chain_width :: "int \<Rightarrow> nat \<Rightarrow> nat" where
  "chain_width f n = min (n - 1) (chain_fan f)"

definition chain_head :: "nat \<Rightarrow> nat \<Rightarrow> nat \<Rightarrow> nat" where
  "chain_head n F = head_of ((n - 1) div F + (if (n - 1) mod F \<noteq> 0 then 1 else 0)) (if (n - 1) mod F \<noteq> 0 then (n - 1) mod F else F + 1)"

lemma chain_cuts: "0 < n \<Longrightarrow> cuts n (chain_head n (chain_width f n)) (chain_width f n)"
proof (cases "n = 1")
  case False
  assume "0 < n"
  then have "0 < chain_width f n" "chain_width f n < n" using False by (auto simp: chain_width_def chain_fan_def)
  then show ?thesis unfolding chain_head_def using head_cuts(1) by blast
qed (simp add: cuts_def chain_width_def chain_head_def)

lemma chain_head_mono: "\<forall>i. head_of M mark i \<le> head_of M mark (Suc i)"
  by (simp add: head_of_Suc)

lemma take_first: "0 < k \<Longrightarrow> take (Suc 0) ((replicate k x @ ys)[0 := v]) = [v]"
  by (cases k) simp_all

lemma chain_one:
  assumes "root < n" "r < n" "length (tree_next m) = 32" "chain_width f n = 1"
  shows "\<exists>t. ompi_coll_tuned_topo_build_chain (Some m) f (int n) (int r) (int root) = Some (Some t)
    \<and> node_of n root (chain_kids n (chain_head n 1) 1) (chain_par (chain_head n 1) 1) r t"
proof -
  let ?s = "shift n root r"
  have s: "?s < n" "0 < ?s \<longleftrightarrow> r \<noteq> root" using shift_inverse(1,5) [OF assms(1,2)] by auto
  have n: "1 < n" using assms(4) by (cases "n \<le> 1") (auto simp: chain_width_def)
  define k where "k = chain_fan f"
  have k: "0 < k" "k \<le> 32" by (auto simp: k_def chain_fan_def)
  have F: "min (n - 1) k = 1" using assms(4) by (simp add: chain_width_def k_def)
  have f1: "(if int MAXTREEFANOUT < (if f < 1 then 1 else f) then int MAXTREEFANOUT else if f < 1 then 1 else f) = int k"
    by (auto simp: MAXTREEFANOUT_def k_def chain_fan_def)
  have f2: "(if int n - 1 < int k then int n - 1 else int k) = 1" using F n by (auto simp: min_def split: if_splits)
  have par: "0 < c \<Longrightarrow> chain_par (chain_head n 1) 1 c = c - 1" for c by (auto simp: chain_par_def chain_head_def)
  have kid: "chain_kids n (chain_head n 1) 1 c = (if c + 1 < n then [c + 1] else [])" for c
    using n by (auto simp: chain_kids_def chain_head_def)
  have p: "0 < ?s \<Longrightarrow> (int ?s - 1 + int root) smod int n = int (unshift n root (?s - 1))"
    using unshift_smod [of "?s - 1" root n] by (simp add: of_nat_diff)
  have c: "(int ?s + 1 + int root) smod int n = int (unshift n root (?s + 1))" using unshift_smod [of "?s + 1" root n] by (simp add: ac_simps)
  show ?thesis unfolding ompi_coll_tuned_topo_build_chain_def Let_def f1 f2 shifted_int [OF assms(1,2)]
    using k assms(3) p c s par kid by (auto simp: clear_next_eq set_next_def aset_def node_of_def kids_def take_first)
qed

lemma chain_many:
  assumes "root < n" "r < n" "length (tree_next m) = 32" "1 < F" "chain_width f n = F"
  shows "\<exists>t. ompi_coll_tuned_topo_build_chain (Some m) f (int n) (int r) (int root) = Some (Some t)
    \<and> node_of n root (chain_kids n (chain_head n F) F) (chain_par (chain_head n F) F) r t"
proof -
  let ?s = "shift n root r" and ?h = "chain_head n F"
  have s: "?s < n" "0 < ?s \<longleftrightarrow> r \<noteq> root" using shift_inverse(1,5) [OF assms(1,2)] by auto
  define k where "k = chain_fan f"
  have k: "0 < k" "k \<le> 32" by (auto simp: k_def chain_fan_def)
  have F: "min (n - 1) k = F" using assms(5) by (simp add: chain_width_def k_def)
  then have n: "1 < n" "F < n" "F \<le> 32" using assms(4) k by auto
  have f1: "(if int MAXTREEFANOUT < (if f < 1 then 1 else f) then int MAXTREEFANOUT else if f < 1 then 1 else f) = int k"
    by (auto simp: MAXTREEFANOUT_def k_def chain_fan_def)
  have f2: "(if int n - 1 < int k then int n - 1 else int k) = int F" using F n(1) by (auto simp: min_def split: if_splits)
  define M where "M = (n - 1) div F + (if (n - 1) mod F \<noteq> 0 then 1 else 0)"
  define mark where "mark = (if (n - 1) mod F \<noteq> 0 then (n - 1) mod F else F + 1)"
  have h: "?h = head_of M mark" by (simp add: chain_head_def M_def mark_def)
  note cut = head_cuts [OF _ n(2) M_def mark_def]
  have n1: "int n - 1 = int (n - 1)" using n(1) by simp
  have M: "(int n - 1) sdiv int F + (if (int n - 1) smod int F \<noteq> 0 then 1 else 0) = int M"
    and mk: "(if (int n - 1) smod int F \<noteq> 0 then (int n - 1) smod int F else int F + 1) = int mark"
    unfolding n1 by (simp_all add: M_def mark_def)
  define m1 where "m1 = m\<lparr>tree_next := replicate k (- 1) @ drop k (tree_next m), tree_root := int root, tree_nextsize := int F\<rparr>"
  have m1: "length (tree_next m1) = 32" "tree_root m1 = int root" using assms(3) k by (simp_all add: m1_def)
  have run: "ompi_coll_tuned_topo_build_chain (Some m) f (int n) (int r) (int root) =
     do {chain \<leftarrow> (if int ?s \<noteq> 0 then do {(head, len) \<leftarrow> chain_place (int mark) (int M) (int ?s); chain_node (int n) head len (int ?s) m1}
                 else Some m1);
         if r = root then do {chain \<leftarrow> chain_heads (int n) (int root) (int F) (int mark) (int M) (chain\<lparr>tree_prev := - 1\<rparr>);
                              Some (Some (chain\<lparr>tree_nextsize := int F\<rparr>))}
         else do {let chain = chain\<lparr>tree_prev := (tree_prev chain + int root) smod int n\<rparr>;
                  n0 \<leftarrow> aget (tree_next chain) 0;
                  chain \<leftarrow> (if n0 \<noteq> - 1 then set_next chain 0 ((n0 + int root) smod int n) else Some chain);
                  Some (Some chain)}}"
    unfolding ompi_coll_tuned_topo_build_chain_def Let_def f1 f2 M mk shifted_int [OF assms(1,2)]
    using k(2) assms(3,4) n(1) by (simp add: clear_next_eq flip: m1_def cong: if_cong)
  show ?thesis
  proof (cases "r = root")
    case True
    obtain l where l: "chain_heads (int n) (int root) (int F) (int mark) (int M) (m1\<lparr>tree_prev := - 1\<rparr>) = Some (m1\<lparr>tree_prev := - 1, tree_next := l\<rparr>)"
      "length l = 32" "take F l = map (\<lambda>i. int (unshift n root (?h i))) [0..<F]"
      using chain_heads_eq [of root n F "m1\<lparr>tree_prev := - 1\<rparr>" M ?h mark] cut(2) assms(1,4) n(3) m1 h by auto
    then show ?thesis using True s m1 n(3) unfolding run
      by (simp add: node_of_def kids_def chain_kids_def)
  next
    case False
    then have s0: "0 < ?s" using s(2) by simp
    obtain i where i: "chain_place (int mark) (int M) (int ?s) = Some (int (?h i), int (?h (Suc i) - ?h i))" "?h i \<le> ?s" "?s < ?h (Suc i)"
      using chain_place_eq [of ?s M mark] cut(2,3) s s0 assms(4) h by auto
    obtain t where t: "chain_node (int n) (int (?h i)) (int (?h (Suc i) - ?h i)) (int ?s) m1 = Some t"
      "chain_link (int (chain_par ?h F ?s)) (map int (chain_kids n ?h F ?s)) m1 t"
      using chain_node_eq [of n ?h F i ?s m1] cut(1) assms(4) i(2,3) s(1) s0 m1 h chain_head_mono by fastforce
    obtain x xs where x: "tree_next t = x # xs" using t(2) m1 by (cases "tree_next t") (auto simp: chain_link_def)
    consider (none) "chain_kids n ?h F ?s = []" | (one) c where "chain_kids n ?h F ?s = [c]" using t(2)
      by (cases "chain_kids n ?h F ?s") (auto simp: chain_link_def)
    then show ?thesis
    proof cases
      case none
      then show ?thesis using False s0 t i(1) x unfolding run by (simp add: chain_link_def aget_def unshift_smod node_of_def kids_def m1)
    next
      case one
      then have "x = int c" "tree_nextsize t = 1" using t(2) x by (auto simp: chain_link_def kids_def)
      then show ?thesis using one False s0 t i(1) x unfolding run
        by (simp add: chain_link_def aget_def set_next_def aset_def unshift_smod node_of_def kids_def m1)
    qed
  qed
qed

lemma chain_built:
  assumes "fresh mem" "root < n"
  shows "\<exists>T. (\<forall>r < n. ompi_coll_tuned_topo_build_chain (Some (mem r)) f (int n) (int r) (int root) = Some (Some (T r))) \<and> tree_ok n root T"
proof (intro nodes_fit [OF assms(2) chain_plain [OF chain_cuts [of n f]]] allI impI)
  fix r assume r: "r < n"
  have m: "length (tree_next (mem r)) = 32" using assms(1) by (simp add: fresh_def MAXTREEFANOUT_def)
  consider "n = 1" | "chain_width f n = 1" | "1 < chain_width f n" using r by (force simp: chain_width_def chain_fan_def)
  then show "\<exists>t. ompi_coll_tuned_topo_build_chain (Some (mem r)) f (int n) (int r) (int root) = Some (Some t)
    \<and> node_of n root (chain_kids n (chain_head n (chain_width f n)) (chain_width f n)) (chain_par (chain_head n (chain_width f n)) (chain_width f n)) r t"
  proof cases
    case 1
    then show ?thesis using assms(2) r m
      by (auto simp: ompi_coll_tuned_topo_build_chain_def clear_next_eq set_next_def aset_def MAXTREEFANOUT_def chain_width_def chain_kids_def node_of_def kids_def shifted_def shift_def)
  next
    case 2
    then show ?thesis using chain_one [OF assms(2) r m, of f] by simp
  next
    case 3
    then show ?thesis using chain_many [OF assms(2) r m] by simp
  qed
qed (use assms in simp)

interpretation chain: tree_builder "\<lambda>n root. root < n \<and> n \<le> 2 ^ 25" "\<lambda>m n root r. ompi_coll_tuned_topo_build_chain (Some m) f (int n) (int r) (int root)" for f
  by unfold_locales (rule chain_built; simp)

end
