(* ===== verification/Coll_Bintree.thy ===== *)
theory Coll_Bintree
  imports Coll_Topo
begin

text \<open>
  The in-order binary tree of \<^verbatim>\<open>coll_tuned_topo.c\<close>: the nodes that the processes compute are those of
  one tree, and its subtrees are intervals of ranks, which is what a reduction with a
  non-commutative operation needs.
\<close>

section \<open>The in-order binary tree, subtree by subtree\<close>

text \<open>The subtree of the \<open>k\<close> ranks from \<open>lo\<close> on; its root is the last of them.\<close>

fun bin_par :: "nat \<Rightarrow> nat \<Rightarrow> nat \<Rightarrow> nat" where
  "bin_par lo k c =
     (if k \<le> 2 then lo + 1
      else if c = lo + k - 2 \<or> c = lo + k div 2 - 1 then lo + k - 1
      else if c < lo + k div 2 then bin_par lo (k div 2) c
      else bin_par (lo + k div 2) (k - k div 2 - 1) c)"

fun bin_kids :: "nat \<Rightarrow> nat \<Rightarrow> nat \<Rightarrow> nat list" where
  "bin_kids lo k r =
     (if k \<le> 2 then (if k = 2 \<and> r = lo + 1 then [lo] else [])
      else if r = lo + k - 1 then [lo + k - 2, lo + k div 2 - 1]
      else if r < lo + k div 2 then bin_kids lo (k div 2) r
      else bin_kids (lo + k div 2) (k - k div 2 - 1) r)"

declare bin_par.simps [simp del] bin_kids.simps [simp del]

text \<open>The cases of a subtree with at least three ranks: \<open>a\<close> ranks on the right, \<open>b\<close> on the left.\<close>

lemma bin_split:
  assumes "\<not> k \<le> 2" "a = k div 2" "b = k - a - 1"
  shows "0 < a" "0 < b" "k = a + b + 1"
    "bin_par lo k c = (if c + 2 = lo + k \<or> c + 1 = lo + a then lo + k - 1 else if c < lo + a then bin_par lo a c else bin_par (lo + a) b c)"
    "bin_kids lo k r = (if r + 1 = lo + k then [lo + k - 2, lo + a - 1] else if r < lo + a then bin_kids lo a r else bin_kids (lo + a) b r)"
proof -
  show ab: "0 < a" "0 < b" "k = a + b + 1" using assms by auto
  have eqs: "c = lo + k - 2 \<longleftrightarrow> c + 2 = lo + k" "c = lo + a - 1 \<longleftrightarrow> c + 1 = lo + a" "r = lo + k - 1 \<longleftrightarrow> r + 1 = lo + k" using ab by auto
  show "bin_par lo k c = (if c + 2 = lo + k \<or> c + 1 = lo + a then lo + k - 1 else if c < lo + a then bin_par lo a c else bin_par (lo + a) b c)"
    unfolding bin_par.simps [of lo k c] assms(2) [symmetric] assms(3) [symmetric] eqs using assms(1) by (rule if_not_P)
  show "bin_kids lo k r = (if r + 1 = lo + k then [lo + k - 2, lo + a - 1] else if r < lo + a then bin_kids lo a r else bin_kids (lo + a) b r)"
    unfolding bin_kids.simps [of lo k r] assms(2) [symmetric] assms(3) [symmetric] eqs using assms(1) by (rule if_not_P)
qed

lemma bin_par_range: "lo \<le> c \<Longrightarrow> c + 1 < lo + k \<Longrightarrow> c < bin_par lo k c \<and> bin_par lo k c < lo + k"
proof (induction k arbitrary: lo rule: less_induct)
  case (less k)
  show ?case
  proof (cases "k \<le> 2")
    case False
    define a b where "a = k div 2" and "b = k - a - 1"
    note ab = bin_split [OF False a_def b_def]
    consider "c + 2 = lo + k \<or> c + 1 = lo + a" | "c + 1 < lo + a" | "lo + a \<le> c" "c + 1 < lo + a + b" using less.prems ab(3) by linarith
    then show ?thesis
    proof cases
      case 2
      then show ?thesis using less.IH [of a lo] less.prems ab by auto
    next
      case 3
      then show ?thesis using less.IH [of b "lo + a"] less.prems ab by auto
    qed (use less.prems ab in auto)
  qed (use less.prems in \<open>auto simp: bin_par.simps\<close>)
qed

lemma bin_fit: "lo \<le> r \<Longrightarrow> r < lo + k \<Longrightarrow> distinct (bin_kids lo k r) \<and> set (bin_kids lo k r) = {c. lo \<le> c \<and> c + 1 < lo + k \<and> bin_par lo k c = r}"
proof (induction k arbitrary: lo rule: less_induct)
  case (less k)
  show ?case
  proof (cases "k \<le> 2")
    case True
    then show ?thesis using less.prems by (auto simp: bin_kids.simps bin_par.simps)
  next
    case False
    define a b where "a = k div 2" and "b = k - a - 1"
    note ab = bin_split [OF False a_def b_def]
    have right: "bin_par lo a c < lo + a" if "lo \<le> c" "c + 1 < lo + a" for c using bin_par_range [OF that] by simp
    have left: "lo + a \<le> bin_par (lo + a) b c \<and> bin_par (lo + a) b c < lo + a + b" if "lo + a \<le> c" "c + 1 < lo + a + b" for c
      using bin_par_range [OF that] that by simp
    have par: "bin_par lo k c = r \<longleftrightarrow> (c + 2 = lo + k \<or> c + 1 = lo + a) \<and> r + 1 = lo + k
        \<or> (c + 1 < lo + a \<and> bin_par lo a c = r) \<or> (lo + a \<le> c \<and> c + 1 < lo + a + b \<and> bin_par (lo + a) b c = r)"
      if c: "lo \<le> c" "c + 1 < lo + k" for c
    proof -
      consider (1) "c + 2 = lo + k \<or> c + 1 = lo + a" | (2) "c + 1 < lo + a" "c + 2 \<noteq> lo + k" | (3) "lo + a \<le> c" "c + 1 < lo + a + b" using c ab(3) by linarith
      then show ?thesis
      proof cases
        case 1
        then show ?thesis unfolding ab(4) using ab(1-3) c by (simp add: eq_commute [of _ r]) linarith
      next
        case 2
        then show ?thesis unfolding ab(4) using ab(3) right c by simp
      next
        case 3
        then show ?thesis unfolding ab(4) using ab(3) left c by simp
      qed
    qed
    consider (root) "r + 1 = lo + k" | (r) "r < lo + a" | (l) "lo + a \<le> r" "r < lo + a + b" using less.prems ab(3) by linarith
    then show ?thesis
    proof cases
      case root
      have "lo \<le> c \<and> c + 1 < lo + k \<and> bin_par lo k c = r \<longleftrightarrow> c = lo + k - 2 \<or> c = lo + a - 1" for c
      proof
        assume c: "lo \<le> c \<and> c + 1 < lo + k \<and> bin_par lo k c = r"
        then have "c + 2 = lo + k \<or> c + 1 = lo + a" using par [of c] right [of c] left [of c] root ab(3) by linarith
        then show "c = lo + k - 2 \<or> c = lo + a - 1" by linarith
      next
        assume "c = lo + k - 2 \<or> c = lo + a - 1"
        then have "lo \<le> c" "c + 1 < lo + k" "c + 2 = lo + k \<or> c + 1 = lo + a" using ab(1-3) by linarith+
        then show "lo \<le> c \<and> c + 1 < lo + k \<and> bin_par lo k c = r" using par [of c] root by blast
      qed
      then have "{c. lo \<le> c \<and> c + 1 < lo + k \<and> bin_par lo k c = r} = {lo + k - 2, lo + a - 1}" by auto
      moreover have "lo + k - 2 \<noteq> lo + a - 1" using ab(1-3) by linarith
      ultimately show ?thesis using root unfolding ab(5) by simp
    next
      case r
      have "lo \<le> c \<and> c + 1 < lo + k \<and> bin_par lo k c = r \<longleftrightarrow> lo \<le> c \<and> c + 1 < lo + a \<and> bin_par lo a c = r" for c
      proof
        assume c: "lo \<le> c \<and> c + 1 < lo + k \<and> bin_par lo k c = r"
        then show "lo \<le> c \<and> c + 1 < lo + a \<and> bin_par lo a c = r" using par [of c] left [of c] r ab(3) by linarith
      next
        assume "lo \<le> c \<and> c + 1 < lo + a \<and> bin_par lo a c = r"
        then show "lo \<le> c \<and> c + 1 < lo + k \<and> bin_par lo k c = r" using par [of c] ab(3) by linarith
      qed
      moreover have "bin_kids lo k r = bin_kids lo a r" using r ab(1-3) unfolding ab(5) by simp
      ultimately show ?thesis using less.IH [of a lo] less.prems(1) ab(1-3) r by simp
    next
      case l
      have "lo \<le> c \<and> c + 1 < lo + k \<and> bin_par lo k c = r \<longleftrightarrow> lo + a \<le> c \<and> c + 1 < lo + a + b \<and> bin_par (lo + a) b c = r" for c
      proof
        assume c: "lo \<le> c \<and> c + 1 < lo + k \<and> bin_par lo k c = r"
        then show "lo + a \<le> c \<and> c + 1 < lo + a + b \<and> bin_par (lo + a) b c = r" using par [of c] right [of c] l ab(3) by linarith
      next
        assume "lo + a \<le> c \<and> c + 1 < lo + a + b \<and> bin_par (lo + a) b c = r"
        then show "lo \<le> c \<and> c + 1 < lo + k \<and> bin_par lo k c = r" using par [of c] ab(3) by linarith
      qed
      moreover have "bin_kids lo k r = bin_kids (lo + a) b r" using l ab(1-3) unfolding ab(5) by simp
      ultimately show ?thesis using less.IH [of b "lo + a"] ab(1-3) l by simp
    qed
  qed
qed

lemma in_order_loop_empty: "in_order_loop 0 (- 1) (- 1) d t = Some t"
  by (subst in_order_loop.simps) (simp add: lchild_of_def rchild_of_def)

lemma in_order_loop_eq:
  "lo \<le> r \<Longrightarrow> r < lo + k \<Longrightarrow> 2 \<le> length (tree_next t) \<Longrightarrow>
   in_order_loop (int k) (int r - int lo) (int k - 1) (int lo) t
   = Some (t\<lparr>tree_prev := (if r + 1 = lo + k then tree_prev t else int (bin_par lo k r)),
             tree_next := map int (bin_kids lo k r) @ drop (length (bin_kids lo k r)) (tree_next t)\<rparr>)"
proof (induction k arbitrary: lo t rule: less_induct)
  case (less k)
  obtain x y zs where t: "tree_next t = x # y # zs" using less.prems(3) by (cases "tree_next t"; cases "tl (tree_next t)") auto
  show ?case
  proof (cases "k \<le> 2")
    case True
    then consider "k = 1" "r = lo" | "k = 2" "r = lo" | "k = 2" "r = lo + 1" using less.prems by force
    then show ?thesis
    proof cases
      case 1
      then show ?thesis using t by (subst in_order_loop.simps) (simp add: lchild_of_def rchild_of_def bin_kids.simps)
    next
      case 2
      then show ?thesis by (subst in_order_loop.simps)
          (simp add: lchild_of_def rchild_of_def bin_kids.simps bin_par.simps drop_bit_eq_div in_order_loop_empty Let_def)
    next
      case 3
      then show ?thesis using t by (subst in_order_loop.simps) (simp add: lchild_of_def rchild_of_def bin_kids.simps set_next_def aset_def)
    qed
  next
    case False
    define a b where "a = k div 2" and "b = k - a - 1"
    note ab = bin_split [OF False a_def b_def]
    have ch: "drop_bit 1 (int k) = int a" "lchild_of (int k) (int k - 1) = int k - 2" "rchild_of (int k) (int k - 1) = int a - 1"
      using False by (simp_all add: drop_bit_eq_div lchild_of_def rchild_of_def a_def zdiv_int)
    note step = in_order_loop.simps [of "int k" "int r - int lo" "int k - 1" "int lo" t, unfolded ch Let_def]
    consider (root) "r + 1 = lo + k" | (r) "r < lo + a" | (l) "lo + a \<le> r" "r < lo + a + b" using less.prems ab(3) by linarith
    then show ?thesis
    proof cases
      case root
      then have "bin_kids lo k r = [lo + k - 2, lo + a - 1]" unfolding ab(5) by simp
      then show ?thesis using root t ab(1-3) by (subst step) (simp add: set_next_def aset_def of_nat_diff)
    next
      case r
      let ?t = "if int r - int lo = int a - 1 then t\<lparr>tree_prev := int k - 1 + int lo\<rparr> else t"
      have "in_order_loop (int k) (int r - int lo) (int k - 1) (int lo) t = in_order_loop (int a) (int r - int lo) (int a - 1) (int lo) ?t"
        using r ab(1-3) less.prems by (subst step) simp
      also have "\<dots> = Some (?t\<lparr>tree_prev := (if r + 1 = lo + a then tree_prev ?t else int (bin_par lo a r)),
             tree_next := map int (bin_kids lo a r) @ drop (length (bin_kids lo a r)) (tree_next ?t)\<rparr>)"
        using less.prems r ab(1-3) by (intro less.IH) simp_all
      also have "bin_kids lo a r = bin_kids lo k r" using r ab(1-3) unfolding ab(5) by simp
      finally show ?thesis using r ab(1-3) unfolding ab(4) by (cases "r + 1 = lo + a") (auto simp: of_nat_diff)
    next
      case l
      let ?t = "if int r - int lo = int k - 2 then t\<lparr>tree_prev := int k - 1 + int lo\<rparr> else t"
      have "int k - int a - 1 = int b" using ab(3) by simp
      then have "in_order_loop (int k) (int r - int lo) (int k - 1) (int lo) t = in_order_loop (int b) (int r - int lo - int a) (int b - 1) (int lo + int a) ?t"
        using l ab(1-3) less.prems by (subst step) simp
      also have "int r - int lo - int a = int r - int (lo + a)" by simp
      also have "int lo + int a = int (lo + a)" by simp
      also have "in_order_loop (int b) (int r - int (lo + a)) (int b - 1) (int (lo + a)) ?t
         = Some (?t\<lparr>tree_prev := (if r + 1 = lo + a + b then tree_prev ?t else int (bin_par (lo + a) b r)),
             tree_next := map int (bin_kids (lo + a) b r) @ drop (length (bin_kids (lo + a) b r)) (tree_next ?t)\<rparr>)"
        using less.prems l ab(1-3) by (intro less.IH) simp_all
      also have "bin_kids (lo + a) b r = bin_kids lo k r" using l ab(1-3) unfolding ab(5) by simp
      finally show ?thesis using l ab(1-3) unfolding ab(4) by (cases "r + 2 = lo + k") (auto simp: of_nat_diff)
    qed
  qed
qed

lemma bin_kids_length: "length (bin_kids lo k r) \<le> 2"
  by (induction lo k r rule: bin_kids.induct) (subst bin_kids.simps, simp)

lemma bintree_node:
  assumes "r < n" "length (tree_next m) = 32"
  shows "\<exists>t. ompi_coll_tuned_topo_build_in_order_bintree (Some m) (int n) (int r) = Some (Some t)
    \<and> tree_root t = int (n - 1) \<and> tree_nextsize t = int (length (bin_kids 0 n r)) \<and> length (tree_next t) = 32
    \<and> kids t = map int (bin_kids 0 n r) \<and> (r \<noteq> n - 1 \<longrightarrow> tree_prev t = int (bin_par 0 n r))"
proof -
  obtain x y zs where m: "tree_next m = x # y # zs" using assms(2) by (cases "tree_next m"; cases "tl (tree_next m)") auto
  define m1 where "m1 = m\<lparr>tree_fanout := 2, tree_bmtree := 0, tree_root := int n - 1, tree_prev := - 1, tree_nextsize := 0, tree_next := - 1 # - 1 # zs\<rparr>"
  let ?ks = "bin_kids 0 n r"
  define t where "t = m1\<lparr>tree_prev := (if r + 1 = n then tree_prev m1 else int (bin_par 0 n r)), tree_next := map int ?ks @ drop (length ?ks) (tree_next m1)\<rparr>"
  have "in_order_loop (int n) (int r) (int n - 1) 0 m1 = Some t" using in_order_loop_eq [of 0 r n m1] assms by (simp add: t_def m1_def)
  then have run: "ompi_coll_tuned_topo_build_in_order_bintree (Some m) (int n) (int r) = do {
      n0 \<leftarrow> aget (tree_next t) 0;
      let tree = (if n0 \<ge> 0 then t\<lparr>tree_nextsize := 1\<rparr> else t);
      n1 \<leftarrow> aget (tree_next tree) 1;
      let tree = (if n1 \<ge> 0 then tree\<lparr>tree_nextsize := tree_nextsize tree + 1\<rparr> else tree);
      Some (Some tree)}"
    using m by (simp add: ompi_coll_tuned_topo_build_in_order_bintree_def set_next_def aset_def flip: m1_def)
  have n: "int (n - 1) = int n - 1" "r + 1 = n \<longleftrightarrow> r = n - 1" using assms(1) by auto
  have zs: "length zs = 30" using assms(2) m by simp
  consider "?ks = []" | a where "?ks = [a]" | a b where "?ks = [a, b]" using bin_kids_length [of 0 n r] by (cases ?ks; cases "tl ?ks") auto
  then show ?thesis using zs unfolding run n(1) by cases (auto simp: n(2) t_def m1_def aget_def kids_def)
qed

lemma bintree_built_kids:
  assumes "fresh mem" "root + 1 = n"
  shows "\<exists>T. (\<forall>r < n. ompi_coll_tuned_topo_build_in_order_bintree (Some (mem r)) (int n) (int r) = Some (Some (T r))) \<and> tree_ok n root T
    \<and> (\<forall>r < n. kids (T r) = map int (bin_kids 0 n r))"
proof -
  have "\<forall>r < n. \<exists>t. ompi_coll_tuned_topo_build_in_order_bintree (Some (mem r)) (int n) (int r) = Some (Some t)
    \<and> tree_root t = int (n - 1) \<and> tree_nextsize t = int (length (bin_kids 0 n r)) \<and> length (tree_next t) = 32
    \<and> kids t = map int (bin_kids 0 n r) \<and> (r \<noteq> n - 1 \<longrightarrow> tree_prev t = int (bin_par 0 n r))"
    using bintree_node assms(1) by (simp add: fresh_def MAXTREEFANOUT_def)
  then obtain T where T: "\<And>r. r < n \<Longrightarrow> ompi_coll_tuned_topo_build_in_order_bintree (Some (mem r)) (int n) (int r) = Some (Some (T r))
    \<and> tree_root (T r) = int (n - 1) \<and> tree_nextsize (T r) = int (length (bin_kids 0 n r)) \<and> length (tree_next (T r)) = 32
    \<and> kids (T r) = map int (bin_kids 0 n r) \<and> (r \<noteq> n - 1 \<longrightarrow> tree_prev (T r) = int (bin_par 0 n r))" by metis
  have root: "root = n - 1" "root < n" using assms(2) by simp_all
  have "set (kids (T r)) = int ` {c. c < n \<and> c \<noteq> root \<and> tree_prev (T c) = int r} \<and> distinct (kids (T r))" if "r < n" for r
  proof -
    have "{c. c < n \<and> c \<noteq> root \<and> tree_prev (T c) = int r} = {c. c + 1 < n \<and> bin_par 0 n c = r}" using T root by auto
    then show ?thesis using bin_fit [of 0 r n] T [OF that] that by (simp add: distinct_map)
  qed
  moreover have "tree_nextsize (T r) \<le> int (length (tree_next (T r)))" if "r < n" for r using T [OF that] bin_kids_length [of 0 n r] by simp
  moreover have "\<exists>p < n. tree_prev (T c) = int p \<and> n - p < n - c" if "c < n" "c \<noteq> root" for c
  proof -
    have "c < bin_par 0 n c" "bin_par 0 n c < n" using bin_par_range [of 0 c n] that root by auto
    then show ?thesis using T [OF that(1)] that root by (intro exI [of _ "bin_par 0 n c"]) simp
  qed
  then have "\<exists>depth :: nat \<Rightarrow> nat. \<forall>c < n. c \<noteq> root \<longrightarrow> (\<exists>p < n. tree_prev (T c) = int p \<and> depth p < depth c)"
    by (intro exI [of _ "\<lambda>p. n - p"]) auto
  ultimately have "tree_ok n root T" using T root unfolding tree_ok_def by auto
  then show ?thesis using T by blast
qed

lemma bintree_built:
  assumes "fresh mem" "root + 1 = n"
  shows "\<exists>T. (\<forall>r < n. ompi_coll_tuned_topo_build_in_order_bintree (Some (mem r)) (int n) (int r) = Some (Some (T r))) \<and> tree_ok n root T"
  using bintree_built_kids [OF assms] by blast

interpretation in_order: tree_builder "\<lambda>n root. root + 1 = n \<and> n \<le> 2 ^ 25" "\<lambda>m n root r. ompi_coll_tuned_topo_build_in_order_bintree (Some m) (int n) (int r)"
  by unfold_locales (rule bintree_built; simp)

section \<open>The order of the subtrees\<close>

text \<open>The first rank of the subtree of \<open>r\<close>; its last one is \<open>r\<close>.\<close>

fun bin_lo :: "nat \<Rightarrow> nat \<Rightarrow> nat \<Rightarrow> nat" where
  "bin_lo lo k r =
     (if k \<le> 2 then (if k = 2 \<and> r = lo + 1 then lo else r)
      else if r + 1 = lo + k then lo
      else if r < lo + k div 2 then bin_lo lo (k div 2) r
      else bin_lo (lo + k div 2) (k - k div 2 - 1) r)"

declare bin_lo.simps [simp del]

lemma bin_lo_split:
  assumes "\<not> k \<le> 2" "a = k div 2" "b = k - a - 1"
  shows "bin_lo lo k r = (if r + 1 = lo + k then lo else if r < lo + a then bin_lo lo a r else bin_lo (lo + a) b r)"
  unfolding bin_lo.simps [of lo k r] assms(2) [symmetric] assms(3) [symmetric] using assms(1) by (rule if_not_P)

lemma bin_lo_root: "0 < k \<Longrightarrow> bin_lo lo k (lo + k - 1) = lo"
  by (subst bin_lo.simps) auto

text \<open>The subtree of a node is that of its second child, then that of its first one, then the node.\<close>

definition in_order_node :: "(nat \<Rightarrow> nat) \<Rightarrow> nat \<Rightarrow> int list \<Rightarrow> bool" where
  "in_order_node lo r ks \<longleftrightarrow> (ks = [] \<and> lo r = r) \<or> (ks = [int r - 1] \<and> lo r < r \<and> lo (r - 1) = lo r)
     \<or> (\<exists>m. ks = [int r - 1, int m - 1] \<and> lo r < m \<and> m < r \<and> lo (m - 1) = lo r \<and> lo (r - 1) = m)"

lemma in_order_node_cong:
  assumes "in_order_node f r ks" "\<And>x. f r \<le> x \<Longrightarrow> x \<le> r \<Longrightarrow> g x = f x" "f r \<le> r"
  shows "in_order_node g r ks"
proof -
  have r: "g r = f r" using assms(2,3) by simp
  consider (leaf) "ks = []" "f r = r" | (one) "ks = [int r - 1]" "f r < r" "f (r - 1) = f r"
    | (two) m where "ks = [int r - 1, int m - 1]" "f r < m" "m < r" "f (m - 1) = f r" "f (r - 1) = m"
    using assms(1) unfolding in_order_node_def by blast
  then show ?thesis
  proof cases
    case two
    then have "g (m - 1) = f (m - 1)" "g (r - 1) = f (r - 1)" using assms(2) by simp_all
    then show ?thesis using two r unfolding in_order_node_def by auto
  qed (use r assms(2) in \<open>simp_all add: in_order_node_def\<close>)
qed

lemma bin_in_order:
  "lo \<le> r \<Longrightarrow> r < lo + k \<Longrightarrow> in_order_node (bin_lo lo k) r (map int (bin_kids lo k r)) \<and> lo \<le> bin_lo lo k r \<and> bin_lo lo k r \<le> r"
proof (induction k arbitrary: lo rule: less_induct)
  case (less k)
  show ?case
  proof (cases "k \<le> 2")
    case True
    then consider "k = 1" "r = lo" | "k = 2" "r = lo" | "k = 2" "r = lo + 1" using less.prems by force
    then show ?thesis by cases (simp_all add: bin_kids.simps bin_lo.simps in_order_node_def)
  next
    case False
    define a b where "a = k div 2" and "b = k - a - 1"
    note ab = bin_split [OF False a_def b_def] and lo = bin_lo_split [OF False a_def b_def]
    consider (root) "r + 1 = lo + k" | (r) "r < lo + a" | (l) "lo + a \<le> r" "r < lo + a + b" using less.prems ab(3) by linarith
    then show ?thesis
    proof cases
      case root
      have "bin_lo lo k r = lo" using root unfolding lo by simp
      moreover have "bin_lo lo k (lo + a - 1) = lo" using bin_lo_root [OF ab(1), of lo] ab(1-3) unfolding lo [of lo "lo + a - 1"] by simp
      moreover have q: "r - 1 = lo + a + b - 1" "r - 1 + 1 \<noteq> lo + k" "\<not> r - 1 < lo + a" using root ab(1-3) by linarith+
      then have "bin_lo lo k (r - 1) = bin_lo (lo + a) b (r - 1)" unfolding lo [of lo "r - 1"] by (simp only: if_False)
      then have "bin_lo lo k (r - 1) = lo + a" using bin_lo_root [OF ab(2), of "lo + a"] unfolding q(1) by simp
      moreover have "map int (bin_kids lo k r) = [int r - 1, int (lo + a) - 1]" using root ab(1-3) unfolding ab(5) by (simp add: of_nat_diff)
      moreover have "lo < lo + a" "lo + a < r" using root ab(1-3) by linarith+
      ultimately show ?thesis unfolding in_order_node_def by fastforce
    next
      case r
      have "bin_kids lo k r = bin_kids lo a r" using r ab(1-3) unfolding ab(5) by simp
      moreover have "bin_lo lo k x = bin_lo lo a x" if "x \<le> r" for x using r that ab(1-3) unfolding lo [of lo x] by simp
      ultimately show ?thesis using less.IH [of a lo] less.prems(1) r ab(1-3) in_order_node_cong [of "bin_lo lo a" r _ "bin_lo lo k"] by simp
    next
      case l
      have "bin_kids lo k r = bin_kids (lo + a) b r" using l ab(1-3) unfolding ab(5) by simp
      moreover have "bin_lo lo k x = bin_lo (lo + a) b x" if "lo + a \<le> x" "x \<le> r" for x using l that ab(1-3) unfolding lo [of lo x] by simp
      ultimately show ?thesis using less.IH [of b "lo + a"] l ab(1-3) in_order_node_cong [of "bin_lo (lo + a) b" r _ "bin_lo lo k"] by simp
    qed
  qed
qed

text \<open>C9: every process computes its node of one in-order binary tree on all ranks, rooted at the last one, as the comment on \<^verbatim>\<open>ompi_coll_tuned_topo_build_in_order_bintree\<close> says (the comment in \<^verbatim>\<open>coll_tuned.h\<close> on the cached tree, that its root is rank 0, is wrong for more than one process): whatever is in the memory for the nodes, parents and children agree and every node lies below the root; the subtree of a node consists of consecutive ranks, first those of its second child, then those of its first child, then its own rank.\<close>

theorem in_order_bintree_fits:
  assumes "0 < n" "\<forall>r < n. length (tree_next (M r)) = MAXTREEFANOUT"
  shows "\<exists>T lo. (\<forall>r < n. ompi_coll_tuned_topo_build_in_order_bintree (Some (M r)) (int n) (int r) = Some (Some (T r))) \<and> tree_ok n (n - 1) T
    \<and> lo (n - 1) = 0 \<and> (\<forall>r < n. in_order_node lo r (kids (T r)))"
proof -
  define mem where "mem r = (if r < n then M r else (M 0))" for r
  have "fresh mem" using assms by (auto simp: fresh_def mem_def)
  then obtain T where T: "\<forall>r < n. ompi_coll_tuned_topo_build_in_order_bintree (Some (mem r)) (int n) (int r) = Some (Some (T r))" "tree_ok n (n - 1) T"
    "\<forall>r < n. kids (T r) = map int (bin_kids 0 n r)"
    using bintree_built_kids [of mem "n - 1" n] assms(1) by auto
  moreover have "bin_lo 0 n (n - 1) = 0" using bin_lo_root [of n 0] assms(1) by simp
  ultimately show ?thesis using bin_in_order [of 0 _ n] by (intro exI [of _ T] exI [of _ "bin_lo 0 n"]) (simp add: mem_def)
qed

theorem in_order_bintree_fits_witness:
  "\<exists>T lo. (\<forall>r < 5. ompi_coll_tuned_topo_build_in_order_bintree (Some \<lparr>tree_root = 0, tree_fanout = 0, tree_bmtree = 0, tree_prev = 0,
       tree_next = replicate 32 0, tree_nextsize = 0\<rparr>) 5 (int r) = Some (Some (T r))) \<and> tree_ok 5 4 T
    \<and> lo 4 = (0 :: nat) \<and> (\<forall>r < 5. in_order_node lo r (kids (T r)))"
  using in_order_bintree_fits [of 5 "\<lambda>r. \<lparr>tree_root = 0, tree_fanout = 0, tree_bmtree = 0, tree_prev = 0, tree_next = replicate 32 0, tree_nextsize = 0\<rparr>"]
  by (simp add: MAXTREEFANOUT_def)

end
