(* ===== verification/Coll_Net.thy ===== *)
theory Coll_Net
  imports OMPI_Prelude
begin

text \<open>
  Point-to-point communication as the collective algorithms see it. A collective call on one
  process issues a fixed sequence of calls of the point-to-point layer
  (\<^verbatim>\<open>MCA_PML_CALL(isend)\<close>, \<^verbatim>\<open>MCA_PML_CALL(irecv)\<close>, \<^verbatim>\<open>ompi_request_wait_all\<close>); the
  sequence does not depend on the data. The layer itself is represented by what it documents:
  messages between two processes with the same tag and communicator are matched in the order in
  which the sends and the receives were posted; a receive completes when its message has been
  moved; a standard send completes when its message has been moved or buffered, whichever the
  layer prefers; a synchronous send only when it has been moved. Data leaves the send buffer when
  it is buffered or moved, not when the send is posted.

  Buffers are lists of elements of the datatype of the call, offsets and counts are in elements.
\<close>

section \<open>Operations and states\<close>

datatype send_mode = Standard | Synchronous

text \<open>A request names its peer and its position among the sends to it, or the receives from it.\<close>

datatype req = Send_Req nat nat | Recv_Req nat nat

datatype pml_op = Isend send_mode nat nat nat | Irecv nat nat nat | Wait_all "req list"

text \<open>The posted sends to \<open>c\<close> and the posted receives from \<open>p\<close>, in order.\<close>

fun sends :: "nat \<Rightarrow> pml_op list \<Rightarrow> (send_mode \<times> nat \<times> nat) list" where
  "sends c [] = []"
| "sends c (Isend md d off cnt # h) = (if d = c then (md, off, cnt) # sends c h else sends c h)"
| "sends c (Irecv p off cnt # h) = sends c h"
| "sends c (Wait_all rs # h) = sends c h"

fun recvs :: "nat \<Rightarrow> pml_op list \<Rightarrow> (nat \<times> nat) list" where
  "recvs p [] = []"
| "recvs p (Irecv q off cnt # h) = (if q = p then (off, cnt) # recvs p h else recvs p h)"
| "recvs p (Isend md d off cnt # h) = recvs p h"
| "recvs p (Wait_all rs # h) = recvs p h"

record 'a net =
  pcs :: "nat \<Rightarrow> nat"
  bufs :: "nat \<Rightarrow> 'a list"
  moved :: "nat \<Rightarrow> nat \<Rightarrow> nat"
  buffered :: "nat \<Rightarrow> nat \<Rightarrow> nat \<Rightarrow> 'a list option"

definition net_init :: "(nat \<Rightarrow> 'a list) \<Rightarrow> 'a net" where
  "net_init bs = \<lparr>pcs = \<lambda>r. 0, bufs = bs, moved = \<lambda>p c. 0, buffered = \<lambda>p c k. None\<rparr>"

definition hist :: "(nat \<Rightarrow> pml_op list) \<Rightarrow> 'a net \<Rightarrow> nat \<Rightarrow> pml_op list" where
  "hist prog s r = take (pcs s r) (prog r)"

fun complete :: "'a net \<Rightarrow> nat \<Rightarrow> req \<Rightarrow> bool" where
  "complete s r (Send_Req d k) \<longleftrightarrow> k < moved s r d \<or> buffered s r d k \<noteq> None"
| "complete s r (Recv_Req p k) \<longleftrightarrow> k < moved s p r"

fun op_ready :: "'a net \<Rightarrow> nat \<Rightarrow> pml_op \<Rightarrow> bool" where
  "op_ready s r (Wait_all rs) \<longleftrightarrow> (\<forall>q \<in> set rs. complete s r q)"
| "op_ready s r _ \<longleftrightarrow> True"

definition payload :: "'a list \<Rightarrow> send_mode \<times> nat \<times> nat \<Rightarrow> 'a list" where
  "payload b x = take (snd (snd x)) (drop (fst (snd x)) b)"

text \<open>Writing a message of at most the posted count into the buffer of the receiver.\<close>

definition overwrite :: "'a list \<Rightarrow> nat \<Rightarrow> 'a list \<Rightarrow> 'a list" where
  "overwrite b off d = take off b @ d @ drop (off + length d) b"

inductive net_step :: "nat \<Rightarrow> (nat \<Rightarrow> pml_op list) \<Rightarrow> 'a net \<Rightarrow> 'a net \<Rightarrow> bool" for n prog where
  exec: "r < n \<Longrightarrow> pcs s r < length (prog r) \<Longrightarrow> op_ready s r (prog r ! pcs s r) \<Longrightarrow>
    net_step n prog s (s\<lparr>pcs := (pcs s)(r := Suc (pcs s r))\<rparr>)"
| buffer: "p < n \<Longrightarrow> c < n \<Longrightarrow> k < length (sends c (hist prog s p)) \<Longrightarrow> sends c (hist prog s p) ! k = (Standard, off, cnt) \<Longrightarrow>
    off + cnt \<le> length (bufs s p) \<Longrightarrow> moved s p c \<le> k \<Longrightarrow> buffered s p c k = None \<Longrightarrow>
    net_step n prog s (s\<lparr>buffered := (buffered s)(p := (buffered s p)(c := (buffered s p c)(k := Some (payload (bufs s p) (Standard, off, cnt)))))\<rparr>)"
| move: "p < n \<Longrightarrow> c < n \<Longrightarrow> k = moved s p c \<Longrightarrow> k < length (sends c (hist prog s p)) \<Longrightarrow> k < length (recvs p (hist prog s c)) \<Longrightarrow>
    sends c (hist prog s p) ! k = (md, off, cnt) \<Longrightarrow> recvs p (hist prog s c) ! k = (roff, rcnt) \<Longrightarrow>
    off + cnt \<le> length (bufs s p) \<Longrightarrow> d = (case buffered s p c k of Some d \<Rightarrow> d | None \<Rightarrow> payload (bufs s p) (md, off, cnt)) \<Longrightarrow>
    length d \<le> rcnt \<Longrightarrow> roff + length d \<le> length (bufs s c) \<Longrightarrow>
    net_step n prog s (s\<lparr>bufs := (bufs s)(c := overwrite (bufs s c) roff d), moved := (moved s)(p := (moved s p)(c := Suc k))\<rparr>)"

abbreviation net_steps :: "nat \<Rightarrow> (nat \<Rightarrow> pml_op list) \<Rightarrow> 'a net \<Rightarrow> 'a net \<Rightarrow> bool" where
  "net_steps n prog \<equiv> (net_step n prog)\<^sup>*\<^sup>*"

text \<open>All processes have returned; no process can go on.\<close>

definition all_returned :: "nat \<Rightarrow> (nat \<Rightarrow> pml_op list) \<Rightarrow> 'a net \<Rightarrow> bool" where
  "all_returned n prog s \<longleftrightarrow> (\<forall>r < n. pcs s r = length (prog r))"

definition stuck :: "nat \<Rightarrow> (nat \<Rightarrow> pml_op list) \<Rightarrow> 'a net \<Rightarrow> bool" where
  "stuck n prog s \<longleftrightarrow> \<not> (\<exists>s'. net_step n prog s s')"

text \<open>Every run ends, and where it ends all processes have returned and \<open>post\<close> holds.\<close>

definition run_ok :: "nat \<Rightarrow> (nat \<Rightarrow> pml_op list) \<Rightarrow> (nat \<Rightarrow> 'a list) \<Rightarrow> ('a net \<Rightarrow> bool) \<Rightarrow> bool" where
  "run_ok n prog bs post \<longleftrightarrow> wfP (\<lambda>(s' :: 'a net) s. net_step n prog s s')
     \<and> (\<forall>s. net_steps n prog (net_init bs) s \<and> stuck n prog s \<longrightarrow> all_returned n prog s \<and> post s)"

section \<open>Histories\<close>

lemma sends_append [simp]: "sends c (xs @ ys) = sends c xs @ sends c ys"
  by (induction c xs rule: sends.induct) auto

lemma recvs_append [simp]: "recvs p (xs @ ys) = recvs p xs @ recvs p ys"
  by (induction p xs rule: recvs.induct) auto

lemma sends_take: "\<exists>zs. sends c xs = sends c (take i xs) @ zs" and recvs_take: "\<exists>zs. recvs p xs = recvs p (take i xs) @ zs"
  by (metis append_take_drop_id sends_append, metis append_take_drop_id recvs_append)

lemma take_upd: "pcs s r < length (prog r) \<Longrightarrow>
    hist prog (s\<lparr>pcs := (pcs s)(r := Suc (pcs s r))\<rparr>) q = (if q = r then hist prog s r @ [prog r ! pcs s r] else hist prog s q)"
  by (simp add: hist_def take_Suc_conv_app_nth)

lemma hist_other [simp]:
  "hist prog (s\<lparr>buffered := e\<rparr>) = hist prog s" "hist prog (s\<lparr>bufs := b, moved := m\<rparr>) = hist prog s"
  by (simp_all add: hist_def fun_eq_iff)

text \<open>The \<open>k\<close>-th posted send is an operation of the history.\<close>

lemma send_posted:
  "k < length (sends c h) \<Longrightarrow> \<exists>h1 md off cnt h2. h = h1 @ Isend md c off cnt # h2 \<and> length (sends c h1) = k"
proof (induction h rule: rev_induct)
  case (snoc x h)
  show ?case
  proof (cases "k < length (sends c h)")
    case True
    then obtain h1 md off cnt h2 where "h = h1 @ Isend md c off cnt # h2" "length (sends c h1) = k" using snoc.IH by blast
    then show ?thesis by (intro exI [of _ h1] exI [of _ md] exI [of _ off] exI [of _ cnt] exI [of _ "h2 @ [x]"]) simp
  next
    case False
    then obtain md off cnt where "x = Isend md c off cnt" "k = length (sends c h)" using snoc.prems by (cases x) (auto split: if_splits)
    then show ?thesis by blast
  qed
qed simp

section \<open>What holds in every reachable state\<close>

text \<open>
  No more messages have been moved than were sent and received; every request that has been
  waited for is complete.
\<close>

definition net_inv :: "(nat \<Rightarrow> pml_op list) \<Rightarrow> 'a net \<Rightarrow> bool" where
  "net_inv prog s \<longleftrightarrow> (\<forall>r. pcs s r \<le> length (prog r))
   \<and> (\<forall>p c. moved s p c \<le> length (sends c (hist prog s p)) \<and> moved s p c \<le> length (recvs p (hist prog s c)))
   \<and> (\<forall>r rs. \<forall>q \<in> set rs. Wait_all rs \<in> set (hist prog s r) \<longrightarrow> complete s r q)
   \<and> (\<forall>p c k. buffered s p c k \<noteq> None \<longrightarrow> k < length (sends c (hist prog s p)) \<and> fst (sends c (hist prog s p) ! k) = Standard)
   \<and> (\<forall>p c k d. buffered s p c k = Some d \<longrightarrow> length d = snd (snd (sends c (hist prog s p) ! k)))"

lemma net_inv_init: "net_inv prog (net_init bs)"
  by (simp add: net_inv_def net_init_def hist_def)

lemma complete_mono:
  assumes "net_step n prog s s'" "complete s r q"
  shows "complete s' r q"
  using assms by (cases q) (auto elim!: net_step.cases split: if_splits)

lemma net_inv_step:
  assumes "net_step n prog s s'" "net_inv prog s"
  shows "net_inv prog s'"
proof -
  have c: "\<And>r q. complete s r q \<Longrightarrow> complete s' r q" using assms(1) by (rule complete_mono)
  show ?thesis using assms
  proof cases
    case (exec r)
    have "Wait_all rs = prog r ! pcs s r \<Longrightarrow> q \<in> set rs \<Longrightarrow> complete s r q" for q rs
      using exec(4) by (metis op_ready.simps(1))
    moreover have "\<forall>q. pcs s' q \<le> length (prog q)" using assms(2) exec by (auto simp: net_inv_def)
    moreover have "hist prog s' q = (if q = r then hist prog s r @ [prog r ! pcs s r] else hist prog s q)" for q
      using take_upd [of s r prog] exec by simp
    moreover have "moved s' = moved s" "buffered s' = buffered s" using exec(1) by simp_all
    ultimately show ?thesis using assms(2) c unfolding net_inv_def
      by (auto simp: nth_append intro: le_trans [OF _ le_add1] trans_less_add1)
  next
    case (buffer p c k off cnt)
    moreover have "length (payload (bufs s p) (Standard, off, cnt)) = cnt" using buffer by (simp add: payload_def)
    ultimately show ?thesis using assms(2) c unfolding net_inv_def by auto
  next
    case (move p c k md off cnt roff rcnt d)
    then show ?thesis using assms(2) c unfolding net_inv_def by auto
  qed
qed

lemma net_inv_reachable: "net_steps n prog (net_init bs) s \<Longrightarrow> net_inv prog s"
  by (induction rule: rtranclp_induct) (auto intro: net_inv_init net_inv_step)

lemma net_invD:
  assumes "net_inv prog s"
  shows "pcs s r \<le> length (prog r)" "moved s p c \<le> length (sends c (hist prog s p))" "moved s p c \<le> length (recvs p (hist prog s c))"
    "Wait_all rs \<in> set (hist prog s r) \<Longrightarrow> q \<in> set rs \<Longrightarrow> complete s r q"
    "buffered s p c k \<noteq> None \<Longrightarrow> k < length (sends c (hist prog s p))"
    "buffered s p c k = Some d \<Longrightarrow> length d = snd (snd (sends c (hist prog s p) ! k))"
  using assms unfolding net_inv_def by blast+

text \<open>A receive that has been waited for: its peer has posted the send, with all that came before it.\<close>

lemma heard:
  assumes "net_inv prog s" "Wait_all rs \<in> set (hist prog s r)" "Recv_Req p k \<in> set rs"
  shows "k < length (sends r (hist prog s p))"
  using net_invD(4) [OF assms] net_invD(2) [OF assms(1), of p r] by simp

section \<open>Every run ends\<close>

definition net_left :: "nat \<Rightarrow> (nat \<Rightarrow> pml_op list) \<Rightarrow> 'a net \<Rightarrow> nat" where
  "net_left n prog s = (\<Sum>r < n. length (prog r) - pcs s r)
     + (\<Sum>p < n. \<Sum>c < n. length (sends c (prog p)) - moved s p c)
     + (\<Sum>p < n. \<Sum>c < n. card {k. k < length (sends c (prog p)) \<and> buffered s p c k = None})"

lemma sum_less_at:
  fixes f g :: "nat \<Rightarrow> nat"
  assumes "i < n" "f i < g i" "\<And>j. j < n \<Longrightarrow> f j \<le> g j"
  shows "(\<Sum>j < n. f j) < (\<Sum>j < n. g j)"
  using assms by (intro sum_strict_mono_ex1) auto

lemma hist_le: "length (sends c (hist prog s p)) \<le> length (sends c (prog p))"
proof -
  obtain zs where "sends c (prog p) = sends c (take (pcs s p) (prog p)) @ zs" using sends_take by blast
  then show ?thesis by (simp add: hist_def)
qed

lemma net_left_less:
  assumes "net_step n prog s s'"
  shows "net_left n prog s' < net_left n prog s"
  using assms
proof cases
  case (exec r)
  have "(\<Sum>q < n. length (prog q) - pcs s' q) < (\<Sum>q < n. length (prog q) - pcs s q)"
    using exec by (intro sum_less_at [of r]) auto
  then show ?thesis using exec(1) by (simp add: net_left_def)
next
  case (buffer p c k off cnt)
  have "k < length (sends c (prog p))" using buffer(4) hist_le [of c prog s p] by simp
  then have "{i. i < length (sends c (prog p)) \<and> buffered s' p c i = None} \<subset> {i. i < length (sends c (prog p)) \<and> buffered s p c i = None}"
    using buffer by auto
  then have "card {i. i < length (sends c (prog p)) \<and> buffered s' p c i = None} < card {i. i < length (sends c (prog p)) \<and> buffered s p c i = None}"
    by (intro psubset_card_mono) auto
  moreover have "card {i. i < length (sends d (prog q)) \<and> buffered s' q d i = None} \<le> card {i. i < length (sends d (prog q)) \<and> buffered s q d i = None}" for q d
    using buffer(1) by (intro card_mono) (auto split: if_splits)
  ultimately have "(\<Sum>q < n. \<Sum>d < n. card {i. i < length (sends d (prog q)) \<and> buffered s' q d i = None})
      < (\<Sum>q < n. \<Sum>d < n. card {i. i < length (sends d (prog q)) \<and> buffered s q d i = None})"
    using buffer(2,3) by (intro sum_less_at [of p] sum_less_at [of c] sum_mono) auto
  then show ?thesis using buffer(1) by (simp add: net_left_def)
next
  case (move p c k md off cnt roff rcnt d)
  have "length (sends c (prog p)) - moved s' p c < length (sends c (prog p)) - moved s p c" using move hist_le [of c prog s p] by auto
  then have "(\<Sum>q < n. \<Sum>d < n. length (sends d (prog q)) - moved s' q d) < (\<Sum>q < n. \<Sum>d < n. length (sends d (prog q)) - moved s q d)"
    using move by (intro sum_less_at [of p] sum_less_at [of c] sum_mono) auto
  then show ?thesis using move(1) by (simp add: net_left_def)
qed

lemma runs_end: "wfP (\<lambda>s' s. net_step n prog s s')"
  by (rule wfp_if_convertible_to_nat [of _ "net_left n prog"]) (rule net_left_less)

lemma run_to_stuck: "\<exists>s'. net_steps n prog s s' \<and> stuck n prog s'"
proof (induction s rule: measure_induct_rule [of "net_left n prog"])
  case (less s)
  show ?case
  proof (cases "stuck n prog s")
    case False
    then obtain s1 where s1: "net_step n prog s s1" by (auto simp: stuck_def)
    then show ?thesis using less [OF net_left_less [OF s1]] by (meson converse_rtranclp_into_rtranclp)
  qed auto
qed

section \<open>Where a process can be stuck\<close>

lemma stuck_wait:
  assumes "stuck n prog s" "net_inv prog s" "r < n" "pcs s r \<noteq> length (prog r)"
  shows "\<exists>rs rest q. prog r = hist prog s r @ Wait_all rs # rest \<and> q \<in> set rs \<and> \<not> complete s r q"
proof -
  have pc: "pcs s r < length (prog r)" using assms(4) net_invD(1) [OF assms(2), of r] by simp
  then have split: "prog r = hist prog s r @ prog r ! pcs s r # drop (Suc (pcs s r)) (prog r)" unfolding hist_def by (rule id_take_nth_drop)
  have "\<not> op_ready s r (prog r ! pcs s r)" using assms(1,3) pc exec unfolding stuck_def by blast
  then obtain rs q where "prog r ! pcs s r = Wait_all rs" "q \<in> set rs" "\<not> complete s r q" by (cases "prog r ! pcs s r") auto
  then show ?thesis using split by metis
qed

text \<open>The messages that can be moved have been moved, if the buffers are large enough for them.\<close>

definition fits :: "nat \<Rightarrow> (nat \<Rightarrow> pml_op list) \<Rightarrow> 'a net \<Rightarrow> bool" where
  "fits n prog s \<longleftrightarrow> (\<forall>p c k md off cnt roff rcnt. p < n \<longrightarrow> c < n \<longrightarrow> k = moved s p c \<longrightarrow>
     k < length (sends c (hist prog s p)) \<longrightarrow> k < length (recvs p (hist prog s c)) \<longrightarrow>
     sends c (hist prog s p) ! k = (md, off, cnt) \<longrightarrow> recvs p (hist prog s c) ! k = (roff, rcnt) \<longrightarrow>
        off + cnt \<le> length (bufs s p) \<and> cnt \<le> rcnt \<and> roff + cnt \<le> length (bufs s c)
        \<and> (case buffered s p c k of None \<Rightarrow> True | Some d \<Rightarrow> length d = cnt))"

lemma stuck_moved:
  assumes "stuck n prog s" "fits n prog s" "p < n" "c < n"
  shows "length (sends c (hist prog s p)) \<le> moved s p c \<or> length (recvs p (hist prog s c)) \<le> moved s p c"
proof (rule ccontr)
  assume "\<not> ?thesis"
  then have k: "moved s p c < length (sends c (hist prog s p))" "moved s p c < length (recvs p (hist prog s c))" by simp_all
  obtain md off cnt roff rcnt where op: "sends c (hist prog s p) ! moved s p c = (md, off, cnt)" "recvs p (hist prog s c) ! moved s p c = (roff, rcnt)"
    by (metis prod_cases3 surj_pair)
  have b: "off + cnt \<le> length (bufs s p)" "cnt \<le> rcnt" "roff + cnt \<le> length (bufs s c)"
    "case buffered s p c (moved s p c) of None \<Rightarrow> True | Some d \<Rightarrow> length d = cnt"
    using assms(2-4) k op unfolding fits_def by blast+
  have "length (case buffered s p c (moved s p c) of Some d \<Rightarrow> d | None \<Rightarrow> payload (bufs s p) (md, off, cnt)) = cnt"
    using b(1,4) by (auto simp: payload_def split: option.splits)
  then show False using move [OF assms(3,4) refl k op b(1) refl] b(2,3) assms(1) unfolding stuck_def by auto
qed

section \<open>Programs with a schedule\<close>

text \<open>
  A schedule gives every operation a time, later ones of a process not an earlier time, such that
  the partner of every request that is waited for has been posted before the time of the wait. A
  program with a schedule does not deadlock, whether sends are buffered or not.
\<close>

fun matched :: "nat \<Rightarrow> (nat \<Rightarrow> pml_op list) \<Rightarrow> (nat \<Rightarrow> nat \<Rightarrow> nat) \<Rightarrow> nat \<Rightarrow> nat \<Rightarrow> req \<Rightarrow> bool" where
  "matched n prog t r i (Recv_Req p k) \<longleftrightarrow> p < n \<and> k < length (recvs p (take i (prog r)))
     \<and> (\<exists>j < length (prog p). k < length (sends r (take (Suc j) (prog p))) \<and> t p j < t r i)"
| "matched n prog t r i (Send_Req d k) \<longleftrightarrow> d < n \<and> k < length (sends d (take i (prog r)))
     \<and> (\<exists>j < length (prog d). k < length (recvs r (take (Suc j) (prog d))) \<and> t d j < t r i)"

definition scheduled :: "nat \<Rightarrow> (nat \<Rightarrow> pml_op list) \<Rightarrow> (nat \<Rightarrow> nat \<Rightarrow> nat) \<Rightarrow> bool" where
  "scheduled n prog t \<longleftrightarrow> (\<forall>r < n. \<forall>i j. i \<le> j \<longrightarrow> j < length (prog r) \<longrightarrow> t r i \<le> t r j)
     \<and> (\<forall>r < n. \<forall>i < length (prog r). \<forall>rs. prog r ! i = Wait_all rs \<longrightarrow> (\<forall>q \<in> set rs. matched n prog t r i q))"

lemma sends_take_mono: "i \<le> j \<Longrightarrow> length (sends c (take i xs)) \<le> length (sends c (take j xs))"
  and recvs_take_mono: "i \<le> j \<Longrightarrow> length (recvs c (take i xs)) \<le> length (recvs c (take j xs))"
proof -
  assume "i \<le> j"
  then have t: "take i xs = take i (take j xs)" by (simp add: min_absorb1)
  show "length (sends c (take i xs)) \<le> length (sends c (take j xs))" using sends_take [of c "take j xs" i] t by auto
  show "length (recvs c (take i xs)) \<le> length (recvs c (take j xs))" using recvs_take [of c "take j xs" i] t by auto
qed

lemma scheduled_not_stuck:
  assumes "scheduled n prog t" "net_inv prog s" "stuck n prog s" "fits n prog s"
  shows "all_returned n prog s"
proof (rule ccontr)
  assume "\<not> ?thesis"
  then have "\<exists>r. r < n \<and> pcs s r \<noteq> length (prog r)" by (auto simp: all_returned_def)
  then obtain r where r: "r < n" "pcs s r \<noteq> length (prog r)"
    and least: "\<And>p. p < n \<Longrightarrow> pcs s p \<noteq> length (prog p) \<Longrightarrow> t r (pcs s r) \<le> t p (pcs s p)"
    using ex_has_least_nat [of "\<lambda>r. r < n \<and> pcs s r \<noteq> length (prog r)" _ "\<lambda>r. t r (pcs s r)"] by blast
  obtain rs rest q where q: "prog r = hist prog s r @ Wait_all rs # rest" "q \<in> set rs" "\<not> complete s r q"
    using stuck_wait [OF assms(3,2) r] by blast
  have pc: "pcs s r < length (prog r)" using r net_invD(1) [OF assms(2), of r] by simp
  then have "length (hist prog s r) = pcs s r" by (simp add: hist_def)
  then have "prog r ! pcs s r = Wait_all rs" using q(1) by (metis nth_append_length)
  then have m: "matched n prog t r (pcs s r) q" using assms(1) r(1) pc q(2) by (auto simp: scheduled_def)
  have passed: "j < pcs s p" if "p < n" "j < length (prog p)" "t p j < t r (pcs s r)" for p j
  proof (rule ccontr)
    assume "\<not> j < pcs s p"
    then have "t p (pcs s p) \<le> t p j" "pcs s p \<noteq> length (prog p)" using assms(1) that by (auto simp: scheduled_def)
    then show False using least [OF that(1)] that(3) by linarith
  qed
  show False
  proof (cases q)
    case (Recv_Req p k)
    then obtain j where j: "p < n" "k < length (recvs p (hist prog s r))" "j < length (prog p)" "k < length (sends r (take (Suc j) (prog p)))" "t p j < t r (pcs s r)"
      using m by (auto simp: hist_def)
    have "k < length (sends r (hist prog s p))" using j(4) passed [OF j(1,3,5)] sends_take_mono [of "Suc j" "pcs s p" r "prog p"] by (simp add: hist_def)
    then show False using stuck_moved [OF assms(3,4) j(1) r(1)] j(2) q(3) Recv_Req by auto
  next
    case (Send_Req d k)
    then obtain j where j: "d < n" "k < length (sends d (hist prog s r))" "j < length (prog d)" "k < length (recvs r (take (Suc j) (prog d)))" "t d j < t r (pcs s r)"
      using m by (auto simp: hist_def)
    have "k < length (recvs r (hist prog s d))" using j(4) passed [OF j(1,3,5)] recvs_take_mono [of "Suc j" "pcs s d" r "prog d"] by (simp add: hist_def)
    then show False using stuck_moved [OF assms(3,4) r(1) j(1)] j(2) q(3) Send_Req by auto
  qed
qed

text \<open>Programs that only synchronise: their messages carry no data.\<close>

fun empty_op :: "pml_op \<Rightarrow> bool" where
  "empty_op (Isend md d off cnt) \<longleftrightarrow> off = 0 \<and> cnt = 0"
| "empty_op (Irecv p off cnt) \<longleftrightarrow> off = 0 \<and> cnt = 0"
| "empty_op (Wait_all rs) \<longleftrightarrow> True"

lemma empty_sends: "\<forall>x \<in> set h. empty_op x \<Longrightarrow> (md, off, cnt) \<in> set (sends c h) \<Longrightarrow> off = 0 \<and> cnt = 0"
  and empty_recvs: "\<forall>x \<in> set h. empty_op x \<Longrightarrow> (off, cnt) \<in> set (recvs c h) \<Longrightarrow> off = 0 \<and> cnt = 0"
  by (induction c h rule: sends.induct) (auto split: if_splits)

lemma empty_fits:
  assumes "net_inv prog s" "\<forall>r < n. \<forall>x \<in> set (prog r). empty_op x"
  shows "fits n prog s"
  unfolding fits_def
proof (intro allI impI)
  fix p c k md off cnt roff rcnt
  assume a: "p < n" "c < n" "k = moved s p c" "k < length (sends c (hist prog s p))" "k < length (recvs p (hist prog s c))"
    "sends c (hist prog s p) ! k = (md, off, cnt)" "recvs p (hist prog s c) ! k = (roff, rcnt)"
  have "(md, off, cnt) \<in> set (sends c (hist prog s p))" "(roff, rcnt) \<in> set (recvs p (hist prog s c))" using a(4-7) by (metis nth_mem)+
  moreover have "\<forall>x \<in> set (hist prog s r). empty_op x" if "r < n" for r using assms(2) that by (auto simp: hist_def dest: in_set_takeD)
  ultimately have "off = 0" "cnt = 0" "roff = 0" "rcnt = 0" using empty_sends empty_recvs a(1,2) by blast+
  moreover have "case buffered s p c k of None \<Rightarrow> True | Some d \<Rightarrow> length d = cnt"
    using net_invD(6) [OF assms(1), of p c k] a(6) by (auto split: option.splits)
  ultimately show "off + cnt \<le> length (bufs s p) \<and> cnt \<le> rcnt \<and> roff + cnt \<le> length (bufs s c) \<and> (case buffered s p c k of None \<Rightarrow> True | Some d \<Rightarrow> length d = cnt)"
    by simp
qed

text \<open>
  A wait for a receive that has been passed: the peer has got past the send. If its first \<open>j\<close>
  calls contain at most \<open>k\<close> sends to the process, it has made more than \<open>j\<close> calls.
\<close>

lemma heard_from:
  assumes "net_inv prog s" "i < pcs s r" "i < length (prog r)" "prog r ! i = Wait_all rs" "Recv_Req p k \<in> set rs" "length (sends r (take j (prog p))) \<le> k"
  shows "j < pcs s p"
proof (rule ccontr)
  assume "\<not> ?thesis"
  then have "length (sends r (hist prog s p)) \<le> k" using assms(6) sends_take_mono [of "pcs s p" j r "prog p"] by (simp add: hist_def)
  moreover have "Wait_all rs \<in> set (hist prog s r)" using assms(2-4) by (auto simp: hist_def in_set_conv_nth intro!: exI [of _ i])
  ultimately show False using heard [OF assms(1) _ assms(5)] by fastforce
qed

section \<open>Timed programs\<close>

text \<open>
  A schedule given with the operations, for programs that send at most one message from one process
  to another.
\<close>

definition timed_match :: "nat \<Rightarrow> (nat \<Rightarrow> (pml_op \<times> nat) list) \<Rightarrow> nat \<Rightarrow> nat \<Rightarrow> req \<Rightarrow> bool" where
  "timed_match n tp r tw q \<longleftrightarrow>
     (\<exists>p md t1 t2. q = Recv_Req p 0 \<and> p < n \<and> (Irecv p 0 0, t1) \<in> set (tp r) \<and> t1 < tw \<and> (Isend md r 0 0, t2) \<in> set (tp p) \<and> t2 < tw)
   \<or> (\<exists>p md t1 t2. q = Send_Req p 0 \<and> p < n \<and> (Isend md p 0 0, t1) \<in> set (tp r) \<and> t1 < tw \<and> (Irecv r 0 0, t2) \<in> set (tp p) \<and> t2 < tw)"

definition timed_ok :: "nat \<Rightarrow> (nat \<Rightarrow> (pml_op \<times> nat) list) \<Rightarrow> bool" where
  "timed_ok n tp \<longleftrightarrow> (\<forall>r < n. sorted (map snd (tp r)))
     \<and> (\<forall>r < n. \<forall>rs tw. (Wait_all rs, tw) \<in> set (tp r) \<longrightarrow> (\<forall>q \<in> set rs. timed_match n tp r tw q))"

lemma timed_recv:
    "(Irecv p 0 0, t1) \<in> set (tp r) \<Longrightarrow> (Isend md r 0 0, t2) \<in> set (tp p) \<Longrightarrow> p < n \<Longrightarrow> t1 < tw \<Longrightarrow> t2 < tw \<Longrightarrow> timed_match n tp r tw (Recv_Req p 0)"
  and timed_send:
    "(Isend md p 0 0, t1) \<in> set (tp r) \<Longrightarrow> (Irecv r 0 0, t2) \<in> set (tp p) \<Longrightarrow> p < n \<Longrightarrow> t1 < tw \<Longrightarrow> t2 < tw \<Longrightarrow> timed_match n tp r tw (Send_Req p 0)"
  unfolding timed_match_def by blast+

lemma sends_mem: "Isend md c off cnt \<in> set h \<Longrightarrow> sends c h \<noteq> []"
  and recvs_mem: "Irecv p off cnt \<in> set h \<Longrightarrow> recvs p h \<noteq> []"
  by (induction c h rule: sends.induct; auto)+

lemma sends_Nil: "sends c h = [] \<longleftrightarrow> (\<forall>md off cnt. Isend md c off cnt \<notin> set h)"
  and recvs_Nil: "recvs p h = [] \<longleftrightarrow> (\<forall>off cnt. Irecv p off cnt \<notin> set h)"
proof -
  show "sends c h = [] \<longleftrightarrow> (\<forall>md off cnt. Isend md c off cnt \<notin> set h)" by (induction c h rule: sends.induct) auto
  show "recvs p h = [] \<longleftrightarrow> (\<forall>off cnt. Irecv p off cnt \<notin> set h)" by (induction p h rule: recvs.induct) auto
qed

lemma timed_before:
  assumes "sorted (map snd xs)" "i < length xs" "(x, t1) \<in> set xs" "t1 < snd (xs ! i)"
  shows "x \<in> set (take i (map fst xs))"
proof -
  obtain j where j: "j < length xs" "xs ! j = (x, t1)" using assms(3) by (auto simp: in_set_conv_nth)
  have "j < i"
  proof (rule ccontr)
    assume "\<not> j < i"
    then have "snd (xs ! i) \<le> snd (xs ! j)" using assms(1,2) j(1) sorted_nth_mono [of "map snd xs" i j] by simp
    then show False using assms(4) j(2) by simp
  qed
  then have "j < length (take i (map fst xs))" "take i (map fst xs) ! j = x" using j assms(2) by simp_all
  then show ?thesis by (metis nth_mem)
qed

lemma timed_scheduled:
  assumes "timed_ok n tp"
  shows "scheduled n (\<lambda>r. map fst (tp r)) (\<lambda>r i. snd (tp r ! i))"
proof -
  have sorted: "sorted (map snd (tp r))" if "r < n" for r using assms that by (simp add: timed_ok_def)
  have at: "\<exists>j < length (map fst (tp p)). x \<in> set (take (Suc j) (map fst (tp p))) \<and> snd (tp p ! j) = t2" if x: "(x, t2) \<in> set (tp p)" for x t2 p
  proof -
    obtain j where j: "j < length (tp p)" "tp p ! j = (x, t2)" using x by (auto simp: in_set_conv_nth)
    then show ?thesis by (intro exI [of _ j]) (simp add: take_Suc_conv_app_nth)
  qed
  have "matched n (\<lambda>r. map fst (tp r)) (\<lambda>r i. snd (tp r ! i)) r i q"
    if r: "r < n" and i: "i < length (tp r)" and w: "fst (tp r ! i) = Wait_all rs" and q: "q \<in> set rs" for r i rs q
  proof -
    have mem: "(Wait_all rs, snd (tp r ! i)) \<in> set (tp r)" using i w by (metis nth_mem prod.collapse)
    consider (recv) p md t1 t2 where "q = Recv_Req p 0" "p < n" "(Irecv p 0 0, t1) \<in> set (tp r)" "t1 < snd (tp r ! i)" "(Isend md r 0 0, t2) \<in> set (tp p)" "t2 < snd (tp r ! i)"
      | (send) p md t1 t2 where "q = Send_Req p 0" "p < n" "(Isend md p 0 0, t1) \<in> set (tp r)" "t1 < snd (tp r ! i)" "(Irecv r 0 0, t2) \<in> set (tp p)" "t2 < snd (tp r ! i)"
      using assms r mem q unfolding timed_ok_def timed_match_def by metis
    then show ?thesis
    proof cases
      case recv
      then show ?thesis using timed_before [OF sorted [OF r] i recv(3,4)] at [OF recv(5)] by (fastforce dest: sends_mem recvs_mem)
    next
      case send
      then show ?thesis using timed_before [OF sorted [OF r] i send(3,4)] at [OF send(5)] by (fastforce dest: sends_mem recvs_mem)
    qed
  qed
  then show ?thesis using sorted unfolding scheduled_def by (auto simp: sorted_iff_nth_mono)
qed

text \<open>All operations of a process before a time have been executed.\<close>

definition reached :: "(nat \<Rightarrow> (pml_op \<times> nat) list) \<Rightarrow> 'a net \<Rightarrow> nat \<Rightarrow> nat \<Rightarrow> bool" where
  "reached tp s r \<tau> \<longleftrightarrow> (\<forall>i < length (tp r). snd (tp r ! i) < \<tau> \<longrightarrow> i < pcs s r)"

lemma reached_mono: "reached tp s r \<tau> \<Longrightarrow> \<sigma> \<le> \<tau> \<Longrightarrow> reached tp s r \<sigma>"
  by (auto simp: reached_def)

lemma reached_pos: "reached tp s r \<tau> \<Longrightarrow> (x, t1) \<in> set (tp r) \<Longrightarrow> t1 < \<tau> \<Longrightarrow> 0 < pcs s r"
  by (force simp: reached_def in_set_conv_nth)

lemma reached_returned: "pcs s r = length (map fst (tp r)) \<Longrightarrow> reached tp s r \<tau>"
  by (simp add: reached_def)

lemma reached_heard:
  assumes "net_inv (\<lambda>r. map fst (tp r)) s" "sorted (map snd (tp p))" "reached tp s r \<tau>" "(Wait_all rs, tw) \<in> set (tp r)" "tw < \<tau>" "Recv_Req p 0 \<in> set rs"
    "\<And>md off cnt t2. (Isend md r off cnt, t2) \<in> set (tp p) \<Longrightarrow> \<sigma> \<le> t2"
  shows "reached tp s p \<sigma>"
  unfolding reached_def
proof (intro allI impI)
  fix j assume j: "j < length (tp p)" "snd (tp p ! j) < \<sigma>"
  obtain i where i: "i < length (tp r)" "tp r ! i = (Wait_all rs, tw)" using assms(4) by (auto simp: in_set_conv_nth)
  have pc: "i < pcs s r" using assms(3,5) i by (simp add: reached_def)
  have "Isend md r off cnt \<notin> set (take j (map fst (tp p)))" for md off cnt
  proof
    assume "Isend md r off cnt \<in> set (take j (map fst (tp p)))"
    then obtain k where k: "k < j" "k < length (tp p)" "fst (tp p ! k) = Isend md r off cnt" by (auto simp: in_set_conv_nth)
    then have "\<sigma> \<le> snd (tp p ! k)" using assms(7) by (metis nth_mem prod.collapse)
    moreover have "snd (tp p ! k) \<le> snd (tp p ! j)" using sorted_nth_mono [OF assms(2), of k j] k j(1) by simp
    ultimately show False using j(2) by simp
  qed
  then have "length (sends r (take j (map fst (tp p)))) \<le> 0" by (simp add: sends_Nil)
  then show "j < pcs s p" using heard_from [OF assms(1) pc] i assms(6) by simp
qed

text \<open>In any case the peer has made a call.\<close>

lemma reached_heard_pos:
  assumes "net_inv (\<lambda>r. map fst (tp r)) s" "reached tp s r \<tau>" "(Wait_all rs, tw) \<in> set (tp r)" "tw < \<tau>" "Recv_Req p k \<in> set rs"
  shows "0 < pcs s p"
proof -
  obtain i where i: "i < length (tp r)" "tp r ! i = (Wait_all rs, tw)" using assms(3) by (auto simp: in_set_conv_nth)
  then have "i < pcs s r" using assms(2,4) by (simp add: reached_def)
  then show ?thesis using heard_from [OF assms(1), of i r rs p k 0] i assms(5) by simp
qed

text \<open>Only the programs of the processes that take part matter.\<close>

lemma net_step_cong:
  assumes "net_step n prog s s'" "\<forall>r < n. prog r = prog' r"
  shows "net_step n prog' s s'"
proof -
  have h: "hist prog s r = hist prog' s r" if "r < n" for r using assms(2) that by (simp add: hist_def)
  show ?thesis using assms(1)
  proof cases
    case (exec r)
    then show ?thesis using assms(2) net_step.exec [of r n s prog'] by simp
  next
    case (buffer p c k off cnt)
    then show ?thesis using h net_step.buffer [of p n c k prog' s off cnt] by simp
  next
    case (move p c k md off cnt roff rcnt d)
    then show ?thesis using h net_step.move [of p n c k s prog' md off cnt roff rcnt d] by simp
  qed
qed

lemma run_cong:
  fixes s s' :: "'a net"
  assumes "\<forall>r < n. prog r = prog' r"
  shows "net_step n prog s s' \<longleftrightarrow> net_step n prog' s s'" "net_steps n prog s s' \<longleftrightarrow> net_steps n prog' s s'"
    "stuck n prog s \<longleftrightarrow> stuck n prog' s" "all_returned n prog s \<longleftrightarrow> all_returned n prog' s"
proof -
  have step: "net_step n prog s s' \<longleftrightarrow> net_step n prog' s s'" for s s' :: "'a net" using assms net_step_cong by metis
  then show "net_step n prog s s' \<longleftrightarrow> net_step n prog' s s'" "stuck n prog s \<longleftrightarrow> stuck n prog' s" by (simp_all add: stuck_def)
  have "(net_step n prog :: 'a net \<Rightarrow> _) = net_step n prog'" using step by blast
  then show "net_steps n prog s s' \<longleftrightarrow> net_steps n prog' s s'" by simp
  show "all_returned n prog s \<longleftrightarrow> all_returned n prog' s" using assms by (simp add: all_returned_def)
qed

end
