(* ===== verification/Coll_Bcast.thy ===== *)
theory Coll_Bcast
  imports Coll_Kary Coll_Bintree Coll_Net
begin

text \<open>
  The segmented broadcast along a tree (\<^verbatim>\<open>ompi/mca/coll/tuned/coll_tuned_bcast.c\<close>). What a process
  does is the list of its calls of the point-to-point layer, in the order of the code; \<^const>\<open>None\<close>
  is a failed assertion or a division by zero. A call that the layer refuses ends the collective
  with its error code and is not represented: the calls are those of a run without errors.

  The result is for every tree that fits together: the broadcast never deadlocks, ends, and leaves
  the data of the root in the buffer of every process, however the messages are buffered or delayed.
\<close>

section \<open>The calls of a process\<close>

text \<open>Send one segment to all children and wait for the sends.\<close>

definition send_children :: "ompi_coll_tree_t \<Rightarrow> nat \<Rightarrow> nat \<Rightarrow> nat \<Rightarrow> pml_op list" where
  "send_children tree segindex tmpbuf sendcount =
     map (\<lambda>c. Isend Standard (nat c) tmpbuf sendcount) (kids tree)
     @ [Wait_all (map (\<lambda>c. Send_Req (nat c) segindex) (kids tree))]"

fun bcast_root :: "ompi_coll_tree_t \<Rightarrow> nat \<Rightarrow> nat \<Rightarrow> nat \<Rightarrow> nat \<Rightarrow> nat list \<Rightarrow> pml_op list" where
  "bcast_root tree original_count count_by_segment num_segments tmpbuf [] = []"
| "bcast_root tree original_count count_by_segment num_segments tmpbuf (segindex # is) =
     send_children tree segindex tmpbuf
       (if segindex = num_segments - 1 then original_count - segindex * count_by_segment else count_by_segment)
     @ bcast_root tree original_count count_by_segment num_segments (tmpbuf + count_by_segment) is"

text \<open>A wait on an element of \<^verbatim>\<open>recv_reqs\<close>; \<^const>\<open>None\<close> is \<^verbatim>\<open>MPI_REQUEST_NULL\<close>.\<close>

definition wait_recv :: "ompi_coll_tree_t \<Rightarrow> nat option \<Rightarrow> pml_op" where
  "wait_recv tree q = Wait_all (case q of None \<Rightarrow> [] | Some k \<Rightarrow> [Recv_Req (nat (tree_prev tree)) k])"

fun bcast_inner :: "ompi_coll_tree_t \<Rightarrow> nat \<Rightarrow> nat \<Rightarrow> nat \<Rightarrow> nat \<Rightarrow> nat option list \<Rightarrow> nat \<Rightarrow> nat list \<Rightarrow> pml_op list" where
  "bcast_inner tree original_count count_by_segment num_segments req_index recv_reqs tmpbuf [] =
     wait_recv tree (recv_reqs ! req_index)
     # send_children tree (num_segments - 1) tmpbuf (original_count - (num_segments - 1) * count_by_segment)"
| "bcast_inner tree original_count count_by_segment num_segments req_index recv_reqs tmpbuf (segindex # is) =
     (let req_index = req_index XOR 1; recv_reqs = recv_reqs[req_index := Some segindex] in
      [Irecv (nat (tree_prev tree)) (tmpbuf + count_by_segment) count_by_segment, wait_recv tree (recv_reqs ! (req_index XOR 1))]
      @ send_children tree (segindex - 1) tmpbuf count_by_segment
      @ bcast_inner tree original_count count_by_segment num_segments req_index recv_reqs (tmpbuf + count_by_segment) is)"

fun bcast_leaf :: "ompi_coll_tree_t \<Rightarrow> nat \<Rightarrow> nat \<Rightarrow> nat option list \<Rightarrow> nat \<Rightarrow> nat list \<Rightarrow> pml_op list" where
  "bcast_leaf tree count_by_segment req_index recv_reqs tmpbuf [] = [wait_recv tree (recv_reqs ! req_index)]"
| "bcast_leaf tree count_by_segment req_index recv_reqs tmpbuf (segindex # is) =
     (let req_index = req_index XOR 1; tmpbuf = tmpbuf + count_by_segment; recv_reqs = recv_reqs[req_index := Some segindex] in
      [Irecv (nat (tree_prev tree)) tmpbuf count_by_segment, wait_recv tree (recv_reqs ! (req_index XOR 1))]
      @ bcast_leaf tree count_by_segment req_index recv_reqs tmpbuf is)"

text \<open>\<^verbatim>\<open>count_by_segment\<close> is unsigned, so the number of segments is computed modulo \<open>2 ^ 32\<close>.\<close>

definition ompi_coll_tuned_bcast_intra_generic ::
  "nat \<Rightarrow> nat \<Rightarrow> nat \<Rightarrow> nat \<Rightarrow> nat \<Rightarrow> ompi_coll_tree_t \<Rightarrow> pml_op list option" where
  "ompi_coll_tuned_bcast_intra_generic sz rank original_count root count_by_segment tree =
     (if \<not> sz > 1 then None
      else if count_by_segment = 0 then None
      else let num_segments = ((original_count + count_by_segment - 1) mod 2 ^ 32) div count_by_segment in
      Some (if rank = root then bcast_root tree original_count count_by_segment num_segments 0 [0..<num_segments]
            else Irecv (nat (tree_prev tree)) 0 count_by_segment
              # (if tree_nextsize tree > 0
                 then bcast_inner tree original_count count_by_segment num_segments 0 [Some 0, None] 0 [1..<num_segments]
                 else bcast_leaf tree count_by_segment 0 [Some 0, None] 0 [1..<num_segments])))"

section \<open>The calls, segment by segment\<close>

definition seg_count :: "nat \<Rightarrow> nat \<Rightarrow> nat \<Rightarrow> nat \<Rightarrow> nat" where
  "seg_count orig cbs N k = (if k = N - 1 then orig - k * cbs else cbs)"

definition forward :: "nat list \<Rightarrow> nat \<Rightarrow> nat \<Rightarrow> nat \<Rightarrow> nat \<Rightarrow> pml_op list" where
  "forward ks orig cbs N k = map (\<lambda>c. Isend Standard c (k * cbs) (seg_count orig cbs N k)) ks @ [Wait_all (map (\<lambda>c. Send_Req c k) ks)]"

definition obtain_seg :: "nat \<Rightarrow> nat \<Rightarrow> nat \<Rightarrow> nat \<Rightarrow> pml_op list" where
  "obtain_seg p cbs N k = (if k + 1 < N then [Irecv p ((k + 1) * cbs) cbs] else []) @ [Wait_all [Recv_Req p k]]"

lemma bcast_root_eq:
  "bcast_root t orig cbs N (k * cbs) [k..<N] = concat (map (forward (map nat (kids t)) orig cbs N) [k..<N])"
proof (induction "N - k" arbitrary: k)
  case (Suc d)
  then have "[k..<N] = k # [Suc k..<N]" by (simp add: upt_conv_Cons)
  then show ?case using Suc(1) [of "Suc k"] Suc(2) by (simp add: forward_def send_children_def seg_count_def comp_def add.commute)
qed simp

lemma flip: "k mod 2 XOR 1 = Suc k mod 2" "Suc k mod 2 XOR 1 = k mod 2" for k :: nat
  by (cases "even k"; simp add: even_iff_mod_2_eq_zero odd_iff_mod_2_eq_one mod_Suc)+

lemma bcast_inner_eq:
  assumes "k < N" "length rq = 2" "rq ! (k mod 2) = Some k"
  shows "bcast_inner t orig cbs N (k mod 2) rq (k * cbs) [Suc k..<N]
    = concat (map (\<lambda>k. obtain_seg (nat (tree_prev t)) cbs N k @ forward (map nat (kids t)) orig cbs N k) [k..<N])"
  using assms
proof (induction "N - k" arbitrary: k rq)
  case (Suc d)
  have up: "[k..<N] = k # [Suc k..<N]" using Suc.prems by (simp add: upt_conv_Cons)
  show ?case
  proof (cases "Suc k < N")
    case True
    have "bcast_inner t orig cbs N (Suc k mod 2) (rq[Suc k mod 2 := Some (Suc k)]) (Suc k * cbs) [Suc (Suc k)..<N]
      = concat (map (\<lambda>k. obtain_seg (nat (tree_prev t)) cbs N k @ forward (map nat (kids t)) orig cbs N k) [Suc k..<N])"
      using Suc.prems Suc.hyps(2) True by (intro Suc.hyps(1)) simp_all
    moreover have "rq[Suc k mod 2 := Some (Suc k)] ! (k mod 2) = Some k" using Suc.prems(3) by (simp add: mod_Suc)
    moreover have "bcast_inner t orig cbs N (k mod 2) rq (k * cbs) [Suc k..<N]
      = [Irecv (nat (tree_prev t)) (k * cbs + cbs) cbs, wait_recv t (rq[Suc k mod 2 := Some (Suc k)] ! (k mod 2))] @ send_children t k (k * cbs) cbs
        @ bcast_inner t orig cbs N (Suc k mod 2) (rq[Suc k mod 2 := Some (Suc k)]) (Suc k * cbs) [Suc (Suc k)..<N]"
      unfolding upt_conv_Cons [OF True] bcast_inner.simps Let_def flip by (simp add: add.commute)
    moreover have "seg_count orig cbs N k = cbs" using True by (auto simp: seg_count_def)
    ultimately show ?thesis using True unfolding up
      by (simp add: wait_recv_def send_children_def forward_def [of _ _ _ _ k] obtain_seg_def [of _ _ _ k] comp_def add.commute)
  next
    case False
    then have "N = Suc k" using Suc.prems(1) by simp
    then show ?thesis using Suc.prems(3) by (simp add: wait_recv_def send_children_def forward_def obtain_seg_def seg_count_def comp_def)
  qed
qed simp

lemma bcast_leaf_eq:
  assumes "k < N" "length rq = 2" "rq ! (k mod 2) = Some k"
  shows "bcast_leaf t cbs (k mod 2) rq (k * cbs) [Suc k..<N] = concat (map (obtain_seg (nat (tree_prev t)) cbs N) [k..<N])"
  using assms
proof (induction "N - k" arbitrary: k rq)
  case (Suc d)
  have up: "[k..<N] = k # [Suc k..<N]" using Suc.prems by (simp add: upt_conv_Cons)
  show ?case
  proof (cases "Suc k < N")
    case True
    have "bcast_leaf t cbs (Suc k mod 2) (rq[Suc k mod 2 := Some (Suc k)]) (Suc k * cbs) [Suc (Suc k)..<N]
      = concat (map (obtain_seg (nat (tree_prev t)) cbs N) [Suc k..<N])"
      using Suc.prems Suc.hyps(2) True by (intro Suc.hyps(1)) simp_all
    moreover have "rq[Suc k mod 2 := Some (Suc k)] ! (k mod 2) = Some k" using Suc.prems(3) by (simp add: mod_Suc)
    moreover have "bcast_leaf t cbs (k mod 2) rq (k * cbs) [Suc k..<N]
      = [Irecv (nat (tree_prev t)) (k * cbs + cbs) cbs, wait_recv t (rq[Suc k mod 2 := Some (Suc k)] ! (k mod 2))]
        @ bcast_leaf t cbs (Suc k mod 2) (rq[Suc k mod 2 := Some (Suc k)]) (Suc k * cbs) [Suc (Suc k)..<N]"
      unfolding upt_conv_Cons [OF True] bcast_leaf.simps Let_def flip by (simp add: add.commute)
    ultimately show ?thesis using True unfolding up by (simp add: wait_recv_def obtain_seg_def [of _ _ _ k] add.commute)
  next
    case False
    then have "N = Suc k" using Suc.prems(1) by simp
    then show ?thesis using Suc.prems(3) by (simp add: wait_recv_def obtain_seg_def)
  qed
qed simp

section \<open>A program along a tree\<close>

text \<open>
  The parent and the children of every process, the number of segments, and the programs: a process
  other than the root first obtains a segment, then passes it on.
\<close>

definition bcast_block :: "nat \<Rightarrow> (nat \<Rightarrow> nat) \<Rightarrow> (nat \<Rightarrow> nat list) \<Rightarrow> nat \<Rightarrow> nat \<Rightarrow> nat \<Rightarrow> nat \<Rightarrow> nat \<Rightarrow> pml_op list" where
  "bcast_block root par ch orig cbs N r k = (if r = root then [] else obtain_seg (par r) cbs N k)
     @ (if r \<noteq> root \<and> ch r = [] then [] else forward (ch r) orig cbs N k)"

definition bcast_prog :: "nat \<Rightarrow> (nat \<Rightarrow> nat) \<Rightarrow> (nat \<Rightarrow> nat list) \<Rightarrow> nat \<Rightarrow> nat \<Rightarrow> nat \<Rightarrow> nat \<Rightarrow> pml_op list" where
  "bcast_prog root par ch orig cbs N r = (if r = root then [] else [Irecv (par r) 0 cbs])
     @ concat (map (bcast_block root par ch orig cbs N r) [0..<N])"

definition nat_tree :: "nat \<Rightarrow> nat \<Rightarrow> (nat \<Rightarrow> nat) \<Rightarrow> (nat \<Rightarrow> nat list) \<Rightarrow> (nat \<Rightarrow> nat) \<Rightarrow> bool" where
  "nat_tree n root par ch depth \<longleftrightarrow> root < n \<and> (\<forall>p < n. distinct (ch p) \<and> set (ch p) = {c. c < n \<and> c \<noteq> root \<and> par c = p})
     \<and> (\<forall>c < n. c \<noteq> root \<longrightarrow> par c < n \<and> depth (par c) < depth c)"

lemma nat_tree_of:
  assumes "tree_ok n root T"
  shows "\<exists>depth. nat_tree n root (\<lambda>r. nat (tree_prev (T r))) (\<lambda>r. map nat (kids (T r))) depth"
proof -
  obtain depth where d: "\<And>c. c < n \<Longrightarrow> c \<noteq> root \<Longrightarrow> \<exists>p < n. tree_prev (T c) = int p \<and> depth p < (depth c :: nat)"
    using assms unfolding tree_ok_def by blast
  have k: "distinct (kids (T p))" "set (kids (T p)) = int ` {c. c < n \<and> c \<noteq> root \<and> tree_prev (T c) = int p}" if "p < n" for p
    using assms that unfolding tree_ok_def by blast+
  have "distinct (map nat (kids (T p)))" if "p < n" for p using k [OF that] by (auto simp: distinct_map inj_on_def)
  moreover have "nat ` set (kids (T p)) = {c. c < n \<and> c \<noteq> root \<and> nat (tree_prev (T c)) = p}" if "p < n" for p
    unfolding k(2) [OF that] using d by (force simp: image_image)
  moreover have "nat (tree_prev (T c)) < n \<and> depth (nat (tree_prev (T c))) < depth c" if "c < n" "c \<noteq> root" for c
    using d [OF that] by (metis nat_int)
  moreover have "root < n" using assms by (simp add: tree_ok_def)
  ultimately have "nat_tree n root (\<lambda>r. nat (tree_prev (T r))) (\<lambda>r. map nat (kids (T r))) depth"
    unfolding nat_tree_def by (intro conjI allI impI) simp_all
  then show ?thesis by blast
qed

definition segments :: "nat \<Rightarrow> nat \<Rightarrow> nat" where
  "segments orig cbs = (orig + cbs - 1) div cbs"

lemma segments_bounds:
  assumes "0 < orig" "0 < cbs" "N = segments orig cbs"
  shows "0 < N" "(N - 1) * cbs < orig" "orig \<le> N * cbs"
proof -
  have N: "N = (orig - 1) div cbs + 1"
  proof -
    have "orig + cbs - 1 = (orig - 1) + cbs" using assms(1) by simp
    then have "N = ((orig - 1) + cbs) div cbs" unfolding assms(3) segments_def by (rule arg_cong)
    then show ?thesis using assms(2) div_add_self2 [of cbs "orig - 1"] by simp
  qed
  then show "0 < N" by simp
  have "(orig - 1) div cbs * cbs \<le> orig - 1" by (rule div_times_less_eq_dividend)
  then have "(orig - 1) div cbs * cbs < orig" using assms(1) by linarith
  then show "(N - 1) * cbs < orig" using N by simp
  have "orig - 1 < cbs + (orig - 1) div cbs * cbs" using assms(2) by (rule dividend_less_div_times)
  then show "orig \<le> N * cbs" unfolding N by simp
qed

lemma seg_bounds:
  assumes "0 < orig" "0 < cbs" "N = segments orig cbs" "k < N"
  shows "k * cbs + seg_count orig cbs N k = min (Suc k * cbs) orig" "seg_count orig cbs N k \<le> cbs"
proof -
  note b = segments_bounds [OF assms(1-3)]
  have "k * cbs + seg_count orig cbs N k = min (Suc k * cbs) orig \<and> seg_count orig cbs N k \<le> cbs"
  proof (cases "k = N - 1")
    case True
    then have "N = Suc k" using b(1) by simp
    then show ?thesis using b by (simp add: seg_count_def)
  next
    case False
    then have "Suc k * cbs \<le> (N - 1) * cbs" using assms(4) by (intro mult_le_mono1) simp
    then show ?thesis using False b(2) by (simp add: seg_count_def)
  qed
  then show "k * cbs + seg_count orig cbs N k = min (Suc k * cbs) orig" "seg_count orig cbs N k \<le> cbs" by blast+
qed

lemma bcast_generic_prog:
  assumes "1 < n" "0 < orig" "orig < 2 ^ 31" "0 < cbs" "cbs < 2 ^ 31" "tree_nextsize t \<le> int (length (tree_next t))"
    "N = segments orig cbs" "par r = nat (tree_prev t)" "ch r = map nat (kids t)"
  shows "ompi_coll_tuned_bcast_intra_generic n r orig root cbs t = Some (bcast_prog root par ch orig cbs N r)"
proof -
  have N: "(orig + cbs - 1) mod 2 ^ 32 div cbs = N" using assms(3,5,7) by (simp add: segments_def)
  have pos: "0 < N" using segments_bounds assms by blast
  have ks: "kids t = [] \<longleftrightarrow> \<not> 0 < tree_nextsize t" using assms(6) by (auto simp: kids_def)
  have "bcast_root t orig cbs N 0 [0..<N] = concat (map (forward (ch r) orig cbs N) [0..<N])"
    using bcast_root_eq [of t orig cbs N 0] assms(9) by simp
  moreover have "bcast_inner t orig cbs N 0 [Some 0, None] 0 [1..<N]
    = concat (map (\<lambda>k. obtain_seg (par r) cbs N k @ forward (ch r) orig cbs N k) [0..<N])"
    using bcast_inner_eq [of 0 N "[Some 0, None]" t orig cbs] pos assms(8,9) by simp
  moreover have "bcast_leaf t cbs 0 [Some 0, None] 0 [1..<N] = concat (map (obtain_seg (par r) cbs N) [0..<N])"
    using bcast_leaf_eq [of 0 N "[Some 0, None]" t cbs] pos assms(8) by simp
  ultimately show ?thesis using assms(1,4,8,9) ks unfolding ompi_coll_tuned_bcast_intra_generic_def Let_def N
    by (cases "r = root") (simp_all add: bcast_prog_def bcast_block_def [abs_def])
qed

section \<open>Which calls a process has made\<close>

lemma concat_prefix:
  "concat (map B [0..<N]) = h @ x # t \<Longrightarrow> \<exists>k < N. \<exists>b1 b2. B k = b1 @ x # b2 \<and> h = concat (map B [0..<k]) @ b1"
proof (induction N arbitrary: t)
  case (Suc N)
  then have "concat (map B [0..<N]) @ B N = h @ x # t" by simp
  then consider (here) us where "h = concat (map B [0..<N]) @ us" "B N = us @ x # t"
    | (before) us where "concat (map B [0..<N]) = h @ x # us"
    by (auto simp: append_eq_append_conv2 append_eq_Cons_conv Cons_eq_append_conv)
  then show ?case
  proof cases
    case here
    then show ?thesis by blast
  next
    case before
    then obtain k where "k < N" "\<exists>b1 b2. B k = b1 @ x # b2 \<and> h = concat (map B [0..<k]) @ b1" using Suc.IH by blast
    then show ?thesis by (intro exI [of _ k]) simp
  qed
qed simp

lemma skip_prefix:
  assumes "xs @ ys = b1 @ x # b2" "x \<notin> set xs"
  shows "\<exists>us. b1 = xs @ us \<and> ys = us @ x # b2"
proof -
  obtain us where "xs = b1 @ us \<and> us @ ys = x # b2 \<or> xs @ us = b1 \<and> ys = us @ x # b2"
    using assms(1) append_eq_append_conv2 [of xs ys b1 "x # b2"] by blast
  then show ?thesis using assms(2) by (cases us) auto
qed

lemma sends_forward:
  "distinct ks \<Longrightarrow> sends c (forward ks orig cbs N k) = (if c \<in> set ks then [(Standard, k * cbs, seg_count orig cbs N k)] else [])"
proof -
  have "distinct ks \<Longrightarrow> sends c (map (\<lambda>c. Isend Standard c a b) ks) = (if c \<in> set ks then [(Standard, a, b)] else [])" for a b
    by (induction ks) auto
  then show "distinct ks \<Longrightarrow> ?thesis" by (simp add: forward_def)
qed

lemma recvs_forward [simp]: "recvs p (forward ks orig cbs N k) = []"
proof -
  have "recvs p (map (\<lambda>c. Isend Standard c a b) ks) = []" for a b by (induction ks) auto
  then show ?thesis by (simp add: forward_def)
qed

lemma sends_obtain [simp]: "sends c (obtain_seg p cbs N k) = []"
  and recvs_obtain: "recvs q (obtain_seg p cbs N k) = (if q = p \<and> k + 1 < N then [((k + 1) * cbs, cbs)] else [])"
  by (simp_all add: obtain_seg_def)

lemma sends_block:
  assumes "distinct (ch r)"
  shows "sends c (bcast_block root par ch orig cbs N r k) = (if c \<in> set (ch r) then [(Standard, k * cbs, seg_count orig cbs N k)] else [])"
  using assms by (auto simp: bcast_block_def sends_forward)

lemma sends_blocks:
  assumes "distinct (ch r)"
  shows "sends c (concat (map (bcast_block root par ch orig cbs N r) [0..<m]))
    = (if c \<in> set (ch r) then map (\<lambda>k. (Standard, k * cbs, seg_count orig cbs N k)) [0..<m] else [])"
  by (induction m) (auto simp: sends_block [where ch = ch, OF assms])

lemma recvs_blocks:
  assumes "r \<noteq> root" "m \<le> N"
  shows "recvs q (Irecv (par r) 0 cbs # concat (map (bcast_block root par ch orig cbs N r) [0..<m]))
    = (if q = par r then map (\<lambda>k. (k * cbs, cbs)) [0..<if m < N then Suc m else max 1 N] else [])"
  using assms(2)
proof (induction m)
  case (Suc m)
  have b: "recvs q (bcast_block root par ch orig cbs N r m) = (if q = par r \<and> m + 1 < N then [((m + 1) * cbs, cbs)] else [])"
    using assms(1) by (simp add: bcast_block_def recvs_obtain)
  show ?case
  proof (cases "Suc m < N")
    case True
    then show ?thesis using Suc b by (simp split: if_splits)
  next
    case False
    then have "N = Suc m" using Suc.prems by simp
    then show ?thesis using Suc.IH b by (simp split: if_splits)
  qed
qed simp

lemma recvs_root: "recvs q (bcast_prog root par ch orig cbs N root) = []"
proof -
  have "recvs q (concat (map (bcast_block root par ch orig cbs N root) [0..<m])) = []" for m
    by (induction m) (simp_all add: bcast_block_def)
  then show ?thesis by (simp add: bcast_prog_def)
qed

lemma prog_sends:
  assumes "distinct (ch r)"
  shows "sends c (bcast_prog root par ch orig cbs N r) = (if c \<in> set (ch r) then map (\<lambda>k. (Standard, k * cbs, seg_count orig cbs N k)) [0..<N] else [])"
  using sends_blocks [where ch = ch, OF assms] by (simp add: bcast_prog_def)

lemma prog_recvs:
  assumes "0 < N"
  shows "recvs q (bcast_prog root par ch orig cbs N r) = (if r \<noteq> root \<and> q = par r then map (\<lambda>k. (k * cbs, cbs)) [0..<N] else [])"
proof (cases "r = root")
  case True
  then show ?thesis using recvs_root by simp
next
  case False
  then show ?thesis using recvs_blocks [OF False order_refl, of q par cbs ch orig N] assms by (simp add: bcast_prog_def max_def)
qed

text \<open>Where an operation of the program other than the first receive stands.\<close>

lemma prog_split:
  assumes "bcast_prog root par ch orig cbs N r = h @ x # t" "\<And>p a b. x \<noteq> Irecv p a b"
  obtains k b1 b2 where "k < N" "bcast_block root par ch orig cbs N r k = b1 @ x # b2"
    "h = (if r = root then [] else [Irecv (par r) 0 cbs]) @ concat (map (bcast_block root par ch orig cbs N r) [0..<k]) @ b1"
proof -
  have "x \<notin> set (if r = root then [] else [Irecv (par r) 0 cbs])" using assms(2) by auto
  then obtain us where us: "h = (if r = root then [] else [Irecv (par r) 0 cbs]) @ us"
      "concat (map (bcast_block root par ch orig cbs N r) [0..<N]) = us @ x # t"
    using skip_prefix [OF assms(1) [unfolded bcast_prog_def]] by blast
  then show ?thesis using concat_prefix [OF us(2)] that by blast
qed

text \<open>A segment is passed on only after it has been received.\<close>

lemma send_after_recv:
  assumes "distinct (ch r)" "r \<noteq> root" "bcast_prog root par ch orig cbs N r = h @ Isend md c off cnt # t"
  shows "Wait_all [Recv_Req (par r) (length (sends c h))] \<in> set h"
proof -
  obtain k b1 b2 where k: "k < N" "bcast_block root par ch orig cbs N r k = b1 @ Isend md c off cnt # b2"
    and h: "h = Irecv (par r) 0 cbs # concat (map (bcast_block root par ch orig cbs N r) [0..<k]) @ b1"
    using prog_split [OF assms(3)] assms(2) by auto
  have "Isend md c off cnt \<notin> set (obtain_seg (par r) cbs N k)" by (auto simp: obtain_seg_def)
  moreover have "obtain_seg (par r) cbs N k @ (if ch r = [] then [] else forward (ch r) orig cbs N k) = b1 @ Isend md c off cnt # b2"
    using k(2) assms(2) by (simp add: bcast_block_def)
  ultimately obtain us where us: "b1 = obtain_seg (par r) cbs N k @ us" using skip_prefix by metis
  have "sends c b1 @ (md, off, cnt) # sends c b2 = sends c (bcast_block root par ch orig cbs N r k)" unfolding k(2) by simp
  then have c: "c \<in> set (ch r)" "sends c b1 = []"
    using sends_block [where ch = ch, OF assms(1), of c root par orig cbs N k] by (auto split: if_splits simp: append_eq_Cons_conv)
  then have "length (sends c h) = k" using sends_blocks [where ch = ch, OF assms(1), of c root par orig cbs N k] by (simp add: h)
  then show ?thesis using us by (simp add: h obtain_seg_def)
qed

text \<open>Where a process can wait, and what it has posted by then.\<close>

lemma wait_cases:
  assumes "distinct (ch r)" "bcast_prog root par ch orig cbs N r = h @ Wait_all rs # t"
  obtains (recv) k where "k < N" "r \<noteq> root" "rs = [Recv_Req (par r) k]" "k < length (recvs (par r) h)"
    | (send) k where "k < N" "rs = map (\<lambda>c. Send_Req c k) (ch r)" "\<And>c. c \<in> set (ch r) \<Longrightarrow> k < length (sends c h)"
proof -
  let ?B = "bcast_block root par ch orig cbs N r"
  obtain k b1 b2 where k: "k < N" "?B k = b1 @ Wait_all rs # b2"
    and h: "h = (if r = root then [] else [Irecv (par r) 0 cbs]) @ concat (map ?B [0..<k]) @ b1" using prog_split [OF assms(2)] by auto
  have "Wait_all rs \<in> set (?B k)" using k(2) by simp
  then consider (r) "r \<noteq> root" "rs = [Recv_Req (par r) k]" | (s) "rs = map (\<lambda>c. Send_Req c k) (ch r)" "rs \<noteq> [Recv_Req (par r) k]" "r = root \<or> ch r \<noteq> []"
    by (cases "rs = [Recv_Req (par r) k]") (auto simp: bcast_block_def obtain_seg_def forward_def split: if_splits)
  then show ?thesis
  proof cases
    case r
    have "k < length (recvs (par r) (Irecv (par r) 0 cbs # concat (map ?B [0..<k])))"
      using recvs_blocks [OF r(1), of k N "par r" par cbs ch orig] k(1) by simp
    then have "k < length (recvs (par r) h)" using h r(1) by (simp add: trans_less_add1)
    then show ?thesis using recv r k(1) by blast
  next
    case s
    let ?X = "(if r = root then [] else obtain_seg (par r) cbs N k) @ map (\<lambda>c. Isend Standard c (k * cbs) (seg_count orig cbs N k)) (ch r)"
    have eq: "?X @ [Wait_all (map (\<lambda>c. Send_Req c k) (ch r))] = b1 @ Wait_all rs # b2" using k(2) s(3) by (auto simp: bcast_block_def forward_def)
    have nin: "Wait_all rs \<notin> set ?X" using s(2) by (auto simp: obtain_seg_def split: if_splits)
    obtain us where "b1 = ?X @ us" using skip_prefix [OF eq nin] by (elim exE conjE)
    then have "0 < length (sends c b1)" if "c \<in> set (ch r)" for c
    proof -
      have "sends c (forward (ch r) orig cbs N k) \<noteq> []" using that assms(1) by (simp add: sends_forward)
      then show ?thesis using \<open>b1 = ?X @ us\<close> by (simp add: forward_def)
    qed
    moreover have "length (sends c h) = k + length (sends c b1)" if "c \<in> set (ch r)" for c
      using h sends_blocks [where ch = ch, OF assms(1), of c root par orig cbs N k] that by simp
    ultimately have "k < length (sends c h)" if "c \<in> set (ch r)" for c using that by fastforce
    then show ?thesis using send s(1) k(1) by blast
  qed
qed

section \<open>Every process gets the data\<close>

definition bcast_job :: "nat \<Rightarrow> nat \<Rightarrow> (nat \<Rightarrow> nat) \<Rightarrow> (nat \<Rightarrow> nat list) \<Rightarrow> (nat \<Rightarrow> nat) \<Rightarrow> nat \<Rightarrow> nat \<Rightarrow> nat \<Rightarrow> (nat \<Rightarrow> pml_op list) \<Rightarrow> bool" where
  "bcast_job n root par ch depth orig cbs N prog \<longleftrightarrow> nat_tree n root par ch depth \<and> 0 < orig \<and> 0 < cbs \<and> N = segments orig cbs
     \<and> (\<forall>r < n. prog r = bcast_prog root par ch orig cbs N r)"

lemma bcast_jobD:
  assumes "bcast_job n root par ch depth orig cbs N prog"
  shows "root < n" "p < n \<Longrightarrow> distinct (ch p)" "p < n \<Longrightarrow> c \<in> set (ch p) \<longleftrightarrow> c < n \<and> c \<noteq> root \<and> par c = p"
    "c < n \<Longrightarrow> c \<noteq> root \<Longrightarrow> par c < n" "c < n \<Longrightarrow> c \<noteq> root \<Longrightarrow> depth (par c) < depth c"
    "0 < orig" "0 < cbs" "N = segments orig cbs" "0 < N" "p < n \<Longrightarrow> prog p = bcast_prog root par ch orig cbs N p"
  using assms segments_bounds(1) [of orig cbs N] unfolding bcast_job_def nat_tree_def by auto

lemma hist_sends:
  assumes "bcast_job n root par ch depth orig cbs N prog" "p < n" "k < length (sends c (hist prog s p))"
  shows "c \<in> set (ch p)" "k < N" "sends c (hist prog s p) ! k = (Standard, k * cbs, seg_count orig cbs N k)"
proof -
  note J = bcast_jobD [OF assms(1)]
  obtain zs where z: "sends c (prog p) = sends c (hist prog s p) @ zs" unfolding hist_def using sends_take by blast
  have "sends c (prog p) = (if c \<in> set (ch p) then map (\<lambda>k. (Standard, k * cbs, seg_count orig cbs N k)) [0..<N] else [])"
    using prog_sends [where ch = ch, OF J(2) [OF assms(2)]] J(10) [OF assms(2)] by simp
  moreover have "k < length (sends c (prog p))" "sends c (prog p) ! k = sends c (hist prog s p) ! k" using z assms(3) by (simp_all add: nth_append)
  ultimately show "c \<in> set (ch p)" "k < N" "sends c (hist prog s p) ! k = (Standard, k * cbs, seg_count orig cbs N k)"
    by (auto split: if_splits)
qed

lemma hist_recvs:
  assumes "bcast_job n root par ch depth orig cbs N prog" "c < n" "k < length (recvs p (hist prog s c))"
  shows "c \<noteq> root" "p = par c" "k < N" "recvs p (hist prog s c) ! k = (k * cbs, cbs)"
proof -
  note J = bcast_jobD [OF assms(1)]
  obtain zs where z: "recvs p (prog c) = recvs p (hist prog s c) @ zs" unfolding hist_def using recvs_take by blast
  have "recvs p (prog c) = (if c \<noteq> root \<and> p = par c then map (\<lambda>k. (k * cbs, cbs)) [0..<N] else [])"
    using prog_recvs [OF J(9)] J(10) [OF assms(2)] by simp
  moreover have "k < length (recvs p (prog c))" "recvs p (prog c) ! k = recvs p (hist prog s c) ! k" using z assms(3) by (simp_all add: nth_append)
  ultimately show "c \<noteq> root" "p = par c" "k < N" "recvs p (hist prog s c) ! k = (k * cbs, cbs)"
    by (auto split: if_splits)
qed

lemma received_before_sent:
  assumes "bcast_job n root par ch depth orig cbs N prog" "net_inv prog s" "p < n" "p \<noteq> root" "k < length (sends c (hist prog s p))"
  shows "k < moved s (par p) p"
proof -
  note J = bcast_jobD [OF assms(1)]
  obtain h1 md off cnt h2 where h: "hist prog s p = h1 @ Isend md c off cnt # h2" "length (sends c h1) = k" using send_posted [OF assms(5)] by blast
  have "bcast_prog root par ch orig cbs N p = hist prog s p @ drop (pcs s p) (prog p)" using J(10) [OF assms(3)] by (simp add: hist_def)
  then have "bcast_prog root par ch orig cbs N p = h1 @ Isend md c off cnt # (h2 @ drop (pcs s p) (prog p))" using h(1) by simp
  then have "Wait_all [Recv_Req (par p) k] \<in> set (hist prog s p)"
    using send_after_recv [where ch = ch, OF J(2) [OF assms(3)] assms(4)] h by auto
  then show ?thesis using net_invD(4) [OF assms(2)] by fastforce
qed

definition bcast_inv :: "nat \<Rightarrow> nat \<Rightarrow> (nat \<Rightarrow> nat) \<Rightarrow> nat \<Rightarrow> nat \<Rightarrow> nat \<Rightarrow> 'a list \<Rightarrow> 'a net \<Rightarrow> bool" where
  "bcast_inv n root par orig cbs N D s \<longleftrightarrow> (\<forall>r < n. length (bufs s r) = orig) \<and> bufs s root = D
     \<and> (\<forall>c < n. c \<noteq> root \<longrightarrow> take (min (moved s (par c) c * cbs) orig) (bufs s c) = take (min (moved s (par c) c * cbs) orig) D)
     \<and> (\<forall>p < n. \<forall>c < n. \<forall>k d. buffered s p c k = Some d \<longrightarrow> d = payload D (Standard, k * cbs, seg_count orig cbs N k))"

lemma take_payload:
  assumes "take m b = take m D" "fst (snd x) + snd (snd x) \<le> m"
  shows "payload b x = payload D x"
proof -
  let ?o = "fst (snd x)" and ?c = "snd (snd x)"
  have "take (?o + ?c) b = take (?o + ?c) D" using arg_cong [OF assms(1), of "take (?o + ?c)"] assms(2) by (simp add: min_absorb1)
  then have "drop ?o (take (?o + ?c) b) = drop ?o (take (?o + ?c) D)" by simp
  then show ?thesis by (simp add: payload_def drop_take)
qed

lemma held_payload:
  assumes "bcast_job n root par ch depth orig cbs N prog" "net_inv prog s" "bcast_inv n root par orig cbs N D s" "p < n" "k < length (sends c (hist prog s p))"
  shows "payload (bufs s p) (md, k * cbs, seg_count orig cbs N k) = payload D (md, k * cbs, seg_count orig cbs N k)"
proof (cases "p = root")
  case True
  then show ?thesis using assms(3) by (simp add: bcast_inv_def)
next
  case False
  note J = bcast_jobD [OF assms(1)]
  have "Suc k \<le> moved s (par p) p" using received_before_sent [OF assms(1,2,4) False assms(5)] by simp
  then have "min (Suc k * cbs) orig \<le> min (moved s (par p) p * cbs) orig" by (intro min.mono mult_le_mono1) simp_all
  moreover have "k * cbs + seg_count orig cbs N k = min (Suc k * cbs) orig" using seg_bounds(1) [OF J(6,7,8)] hist_sends(2) [OF assms(1,4,5)] by blast
  moreover have "take (min (moved s (par p) p * cbs) orig) (bufs s p) = take (min (moved s (par p) p * cbs) orig) D"
    using assms(3,4) False by (simp add: bcast_inv_def)
  ultimately show ?thesis by (intro take_payload [where m = "min (moved s (par p) p * cbs) orig"]) auto
qed

lemma take_overwrite:
  assumes "take a b = take a D" "length d = l" "d = take l (drop a D)" "a + l \<le> length b" "length b = length D"
  shows "take (a + l) (overwrite b a d) = take (a + l) D"
  using assms by (simp add: overwrite_def take_add)

lemma bcast_inv_step:
  assumes "bcast_job n root par ch depth orig cbs N prog" "net_inv prog s" "bcast_inv n root par orig cbs N D s" "net_step n prog s s'" "length D = orig"
  shows "bcast_inv n root par orig cbs N D s'"
  using assms(4)
proof cases
  case (exec r)
  then show ?thesis using assms(3) by (simp add: bcast_inv_def)
next
  case (buffer p c k off cnt)
  then have "(Standard, off, cnt) = (Standard, k * cbs, seg_count orig cbs N k)" using hist_sends(3) [OF assms(1)] by metis
  then show ?thesis using assms(3) buffer held_payload [OF assms(1-3) buffer(2,4), of Standard] by (auto simp: bcast_inv_def split: if_splits)
next
  case (move p c k md off cnt roff rcnt d)
  note J = bcast_jobD [OF assms(1)]
  have x: "md = Standard" "off = k * cbs" "cnt = seg_count orig cbs N k" "k < N" "roff = k * cbs" "c \<noteq> root" "p = par c"
    using hist_sends [OF assms(1) move(2,5)] hist_recvs [OF assms(1) move(3,6)] move(7,8) by auto
  have d: "d = payload D (Standard, k * cbs, seg_count orig cbs N k)"
  proof (cases "buffered s p c k")
    case None
    then show ?thesis using move(10) x held_payload [OF assms(1-3) move(2,5)] by simp
  next
    case (Some e)
    then show ?thesis using move(2,3,10) assms(3) by (simp add: bcast_inv_def)
  qed
  have sb: "k * cbs + seg_count orig cbs N k = min (Suc k * cbs) orig" using seg_bounds(1) [OF J(6,7,8) x(4)] .
  have len: "length (bufs s c) = orig" using assms(3) move(3) by (simp add: bcast_inv_def)
  have dl: "length d = seg_count orig cbs N k" "d = take (seg_count orig cbs N k) (drop (k * cbs) D)" using d assms(5) sb by (auto simp: payload_def)
  have "k * cbs \<le> orig" using sb by simp
  moreover have "take (min (moved s (par c) c * cbs) orig) (bufs s c) = take (min (moved s (par c) c * cbs) orig) D"
    using assms(3) move(3) x(6) by (simp add: bcast_inv_def)
  ultimately have "take (k * cbs) (bufs s c) = take (k * cbs) D" using move(4) x(7) by (simp add: min_absorb1)
  then have new: "take (min (Suc k * cbs) orig) (overwrite (bufs s c) (k * cbs) d) = take (min (Suc k * cbs) orig) D"
    using take_overwrite [OF _ dl] sb len assms(5) by simp
  have "length (overwrite (bufs s c) roff d) = orig" using len sb dl(1) x(5) by (simp add: overwrite_def)
  then show ?thesis using assms(3) move(1) new x(5-7) by (auto simp: bcast_inv_def)
qed

lemma bcast_inv_reachable:
  assumes "bcast_job n root par ch depth orig cbs N prog" "\<forall>r < n. length (bs r) = orig" "net_steps n prog (net_init bs) s"
  shows "bcast_inv n root par orig cbs N (bs root) s"
  using assms(3)
proof (induction rule: rtranclp_induct)
  case base
  have "root < n" using bcast_jobD(1) [OF assms(1)] .
  then show ?case using assms(2) by (simp add: bcast_inv_def net_init_def)
next
  case (step s s')
  then show ?case using bcast_inv_step [OF assms(1) net_inv_reachable] assms(2) bcast_jobD(1) [OF assms(1)] by blast
qed

lemma bcast_fits:
  assumes "bcast_job n root par ch depth orig cbs N prog" "bcast_inv n root par orig cbs N D s" "length D = orig"
  shows "fits n prog s"
  unfolding fits_def
proof (intro allI impI)
  fix p c k md off cnt roff rcnt
  assume a: "p < n" "c < n" "k = moved s p c" "k < length (sends c (hist prog s p))" "k < length (recvs p (hist prog s c))"
    "sends c (hist prog s p) ! k = (md, off, cnt)" "recvs p (hist prog s c) ! k = (roff, rcnt)"
  note J = bcast_jobD [OF assms(1)]
  have x: "off = k * cbs" "cnt = seg_count orig cbs N k" "k < N" "roff = k * cbs" "rcnt = cbs"
    using hist_sends [OF assms(1) a(1,4)] hist_recvs [OF assms(1) a(2,5)] a(6,7) by auto
  note sb = seg_bounds [OF J(6,7,8) x(3)]
  have "case buffered s p c k of None \<Rightarrow> True | Some d \<Rightarrow> length d = cnt"
  proof (cases "buffered s p c k")
    case (Some d)
    then have "d = payload D (Standard, k * cbs, seg_count orig cbs N k)" using assms(2) a(1,2) by (simp add: bcast_inv_def)
    then show ?thesis using Some assms(3) sb(1) x(2) by (auto simp: payload_def)
  qed simp
  moreover have "length (bufs s p) = orig" "length (bufs s c) = orig" using assms(2) a(1,2) by (simp_all add: bcast_inv_def)
  ultimately show "off + cnt \<le> length (bufs s p) \<and> cnt \<le> rcnt \<and> roff + cnt \<le> length (bufs s c) \<and> (case buffered s p c k of None \<Rightarrow> True | Some d \<Rightarrow> length d = cnt)"
    using sb x by simp
qed

text \<open>
  A stuck process waits for a send only if a child waits for a send of its own, one level further
  down; and for a receive only if its parent waits too.
\<close>

lemma not_returned_if_behind:
  assumes "bcast_job n root par ch depth orig cbs N prog" "r < n"
  shows "c \<in> set (ch r) \<Longrightarrow> length (sends c (hist prog s r)) < N \<Longrightarrow> pcs s r \<noteq> length (prog r)"
    "r \<noteq> root \<Longrightarrow> length (recvs (par r) (hist prog s r)) < N \<Longrightarrow> pcs s r \<noteq> length (prog r)"
proof -
  note J = bcast_jobD [OF assms(1)]
  have e: "hist prog s r = bcast_prog root par ch orig cbs N r" if "pcs s r = length (prog r)" using that J(10) [OF assms(2)] by (simp add: hist_def)
  show "c \<in> set (ch r) \<Longrightarrow> length (sends c (hist prog s r)) < N \<Longrightarrow> pcs s r \<noteq> length (prog r)"
    using e prog_sends [where ch = ch, OF J(2) [OF assms(2)]] by auto
  show "r \<noteq> root \<Longrightarrow> length (recvs (par r) (hist prog s r)) < N \<Longrightarrow> pcs s r \<noteq> length (prog r)"
    using e prog_recvs [OF J(9)] by auto
qed

definition waits_send :: "(nat \<Rightarrow> pml_op list) \<Rightarrow> 'a net \<Rightarrow> nat \<Rightarrow> nat \<Rightarrow> bool" where
  "waits_send prog s r c \<longleftrightarrow> (\<exists>k. k < length (sends c (hist prog s r)) \<and> moved s r c \<le> k)"

definition waits_recv :: "(nat \<Rightarrow> pml_op list) \<Rightarrow> 'a net \<Rightarrow> nat \<Rightarrow> nat \<Rightarrow> bool" where
  "waits_recv prog s p r \<longleftrightarrow> (\<exists>k. k < length (recvs p (hist prog s r)) \<and> moved s p r \<le> k)"

lemma stuck_cases:
  assumes "bcast_job n root par ch depth orig cbs N prog" "net_inv prog s" "stuck n prog s" "r < n" "pcs s r \<noteq> length (prog r)"
  obtains (send) c where "c \<in> set (ch r)" "waits_send prog s r c" | (recv) "r \<noteq> root" "waits_recv prog s (par r) r"
proof -
  note J = bcast_jobD [OF assms(1)]
  obtain rs rest q where q: "prog r = hist prog s r @ Wait_all rs # rest" "q \<in> set rs" "\<not> complete s r q"
    using stuck_wait [OF assms(3,2,4,5)] by blast
  have w: "bcast_prog root par ch orig cbs N r = hist prog s r @ Wait_all rs # rest" using q(1) J(10) [OF assms(4)] by simp
  show thesis
  proof (cases rule: wait_cases [where ch = ch, OF J(2) [OF assms(4)] w])
    case (1 k)
    then have "waits_recv prog s (par r) r" using q(2,3) unfolding waits_recv_def by (intro exI [of _ k]) simp
    then show thesis using 1 recv by blast
  next
    case (2 k)
    then obtain c where c: "c \<in> set (ch r)" "q = Send_Req c k" using q(2) by auto
    then have "waits_send prog s r c" using 2(3) q(3) unfolding waits_send_def by (intro exI [of _ k]) simp
    then show thesis using c send by blast
  qed
qed

lemma no_waits_send:
  assumes "bcast_job n root par ch depth orig cbs N prog" "net_inv prog s" "stuck n prog s" "fits n prog s" "r < n" "c \<in> set (ch r)"
  shows "\<not> waits_send prog s r c"
  using assms(5,6)
proof (induction "Max (depth ` {..<n}) - depth r" arbitrary: r c rule: less_induct)
  case less
  note J = bcast_jobD [OF assms(1)]
  have c: "c < n" "c \<noteq> root" "par c = r" using J(3) less.prems by auto
  show ?case
  proof
    assume "waits_send prog s r c"
    then obtain k where k: "k < length (sends c (hist prog s r))" "moved s r c \<le> k" by (auto simp: waits_send_def)
    then have m: "length (recvs r (hist prog s c)) \<le> moved s r c" using stuck_moved [OF assms(3,4) less.prems(1) c(1)] by linarith
    have "k < N" using hist_sends(2) [OF assms(1) less.prems(1) k(1)] .
    then have "length (recvs (par c) (hist prog s c)) < N" using m k(2) c(3) by simp
    then have nr: "pcs s c \<noteq> length (prog c)" using not_returned_if_behind(2) [OF assms(1) c(1,2)] by blast
    show False
    proof (cases rule: stuck_cases [OF assms(1-3) c(1) nr])
      case (1 d)
      have "depth c \<le> Max (depth ` {..<n})" using c(1) by (intro Max_ge) auto
      moreover have "depth r < depth c" using J(5) [OF c(1,2)] c(3) by simp
      ultimately have "Max (depth ` {..<n}) - depth c < Max (depth ` {..<n}) - depth r" by simp
      then show False using less.hyps c(1) 1 by blast
    next
      case 2
      then show False using m c(3) by (auto simp: waits_recv_def)
    qed
  qed
qed

lemma bcast_not_stuck:
  assumes "bcast_job n root par ch depth orig cbs N prog" "net_inv prog s" "stuck n prog s" "fits n prog s" "r < n"
  shows "pcs s r = length (prog r)"
  using assms(5)
proof (induction "depth r" arbitrary: r rule: less_induct)
  case less
  note J = bcast_jobD [OF assms(1)]
  show ?case
  proof (rule ccontr)
    assume nr: "pcs s r \<noteq> length (prog r)"
    show False
    proof (cases rule: stuck_cases [OF assms(1-3) less.prems nr])
      case (1 c)
      then show False using no_waits_send [OF assms(1-4) less.prems] by blast
    next
      case 2
      note recv = this
      then obtain k where k: "k < length (recvs (par r) (hist prog s r))" "moved s (par r) r \<le> k" by (auto simp: waits_recv_def)
      have p: "par r < n" "depth (par r) < depth r" using J(4,5) less.prems recv(1) by auto
      have "length (sends r (hist prog s (par r))) \<le> moved s (par r) r" using k stuck_moved [OF assms(3,4) p(1) less.prems] by linarith
      moreover have "k < N" using hist_recvs(3) [OF assms(1) less.prems k(1)] .
      moreover have "r \<in> set (ch (par r))" using J(3) [OF p(1)] less.prems recv(1) by simp
      ultimately have "pcs s (par r) \<noteq> length (prog (par r))" using not_returned_if_behind(1) [OF assms(1) p(1), of r s] k(2) by linarith
      then show False using less.hyps p by blast
    qed
  qed
qed

lemma bcast_correct:
  assumes "bcast_job n root par ch depth orig cbs N prog" "\<forall>r < n. length (bs r) = orig" "net_steps n prog (net_init bs) s" "stuck n prog s"
  shows "all_returned n prog s \<and> (\<forall>r < n. bufs s r = bs root)"
proof -
  note J = bcast_jobD [OF assms(1)]
  have ni: "net_inv prog s" using net_inv_reachable assms(3) .
  have bi: "bcast_inv n root par orig cbs N (bs root) s" using bcast_inv_reachable [OF assms(1-3)] .
  have len: "length (bs root) = orig" using assms(2) J(1) by simp
  have fin: "pcs s r = length (prog r)" if "r < n" for r using bcast_not_stuck [OF assms(1) ni assms(4) bcast_fits [OF assms(1) bi len] that] .
  have "bufs s r = bs root" if r: "r < n" for r
  proof (cases "r = root")
    case True
    then show ?thesis using bi by (simp add: bcast_inv_def)
  next
    case False
    have "hist prog s r = bcast_prog root par ch orig cbs N r" using fin [OF r] J(10) [OF r] by (simp add: hist_def)
    moreover have "Wait_all [Recv_Req (par r) (N - 1)] \<in> set (bcast_prog root par ch orig cbs N r)"
      using False J(9) by (auto simp: bcast_prog_def bcast_block_def obtain_seg_def intro!: bexI [of _ "N - 1"])
    ultimately have "N - 1 < moved s (par r) r" using net_invD(4) [OF ni, of "[Recv_Req (par r) (N - 1)]" r] by simp
    then have "N * cbs \<le> moved s (par r) r * cbs" by (intro mult_le_mono1) simp
    then have "min (moved s (par r) r * cbs) orig = orig" using segments_bounds(3) [OF J(6,7,8)] by linarith
    moreover have "length (bufs s r) = orig" "take (min (moved s (par r) r * cbs) orig) (bufs s r) = take (min (moved s (par r) r * cbs) orig) (bs root)"
      using bi r False by (simp_all add: bcast_inv_def)
    ultimately show ?thesis using len by simp
  qed
  then show ?thesis using fin by (simp add: all_returned_def)
qed

text \<open>Any builder of trees gives a broadcast.\<close>

context tree_builder
begin

lemma bcast:
  assumes "ok n root" "1 < n" "0 < orig" "orig < 2 ^ 31" "0 < cbs" "cbs < 2 ^ 31" "\<forall>r < n. length (bs r) = orig"
    and nodes: "\<forall>r < n. \<exists>m. length (tree_next m) = MAXTREEFANOUT \<and> build m n root r = Some (Some (T r))"
  shows "\<exists>prog. (\<forall>r < n. ompi_coll_tuned_bcast_intra_generic n r orig root cbs (T r) = Some (prog r))
    \<and> run_ok n prog bs (\<lambda>s. \<forall>r < n. bufs s r = bs root)"
proof -
  have T: "tree_ok n root T" using nodes_ok assms(1) nodes .
  define par where "par r = nat (tree_prev (T r))" for r
  define ch where "ch r = map nat (kids (T r))" for r
  define prog where "prog = bcast_prog root par ch orig cbs (segments orig cbs)"
  obtain depth where d: "nat_tree n root par ch depth" using nat_tree_of [OF T] unfolding par_def ch_def by blast
  have "ompi_coll_tuned_bcast_intra_generic n r orig root cbs (T r) = Some (prog r)" if "r < n" for r
    unfolding prog_def using T that by (intro bcast_generic_prog [OF assms(2-6)]) (simp_all add: par_def ch_def tree_ok_def)
  moreover have job: "bcast_job n root par ch depth orig cbs (segments orig cbs) prog" using d assms(3,5) by (simp add: bcast_job_def prog_def)
  have "run_ok n prog bs (\<lambda>s. \<forall>r < n. bufs s r = bs root)" unfolding run_ok_def
    using bcast_correct [OF job assms(7)] by (intro conjI allI impI runs_end) simp_all
  ultimately show ?thesis by blast
qed

end

end
