(* ===== verification/Coll_Tuned.thy ===== *)
theory Coll_Tuned
  imports Coll_Bcast
begin

text \<open>
  The broadcasts of the tuned module as they are called (\<^verbatim>\<open>coll_tuned_bcast.c\<close>, \<^verbatim>\<open>coll_tuned.h\<close>): the
  trees cached with the communicator, the number of elements in a segment, and the calls along the
  binary tree, the pipeline, the chains and the binomial tree.
\<close>

section \<open>Trees cached with the communicator\<close>

record mca_coll_tuned_comm_t =
  cached_bintree :: "ompi_coll_tree_t option"
  cached_bintree_root :: int
  cached_bmtree :: "ompi_coll_tree_t option"
  cached_bmtree_root :: int
  cached_in_order_bmtree :: "ompi_coll_tree_t option"
  cached_in_order_bmtree_root :: int
  cached_chain :: "ompi_coll_tree_t option"
  cached_chain_root :: int
  cached_chain_fanout :: int
  cached_pipeline :: "ompi_coll_tree_t option"
  cached_pipeline_root :: int
  cached_in_order_bintree :: "ompi_coll_tree_t option"

text \<open>
  The macros that bring a cached tree up to date. \<^const>\<open>None\<close> as a cached tree is \<^verbatim>\<open>NULL\<close>. An
  outdated tree is destroyed before the new one is built.
\<close>

definition COLL_TUNED_UPDATE_BINTREE :: "ompi_coll_tree_t option \<Rightarrow> int \<Rightarrow> int \<Rightarrow> int \<Rightarrow> mca_coll_tuned_comm_t \<Rightarrow> mca_coll_tuned_comm_t option" where
  "COLL_TUNED_UPDATE_BINTREE mem sz rank root d =
     (if cached_bintree d \<noteq> None \<and> cached_bintree_root d = root then Some d
      else do {
        let d = d\<lparr>cached_bintree := None\<rparr>;
        t \<leftarrow> ompi_coll_tuned_topo_build_tree mem 2 sz rank root;
        Some (d\<lparr>cached_bintree := t, cached_bintree_root := root\<rparr>)
      })"

definition COLL_TUNED_UPDATE_BMTREE :: "ompi_coll_tree_t option \<Rightarrow> int \<Rightarrow> int \<Rightarrow> int \<Rightarrow> mca_coll_tuned_comm_t \<Rightarrow> mca_coll_tuned_comm_t option" where
  "COLL_TUNED_UPDATE_BMTREE mem sz rank root d =
     (if cached_bmtree d \<noteq> None \<and> cached_bmtree_root d = root then Some d
      else do {
        let d = d\<lparr>cached_bmtree := None\<rparr>;
        t \<leftarrow> ompi_coll_tuned_topo_build_bmtree mem sz rank root;
        Some (d\<lparr>cached_bmtree := t, cached_bmtree_root := root\<rparr>)
      })"

definition COLL_TUNED_UPDATE_IN_ORDER_BMTREE :: "ompi_coll_tree_t option \<Rightarrow> int \<Rightarrow> int \<Rightarrow> int \<Rightarrow> mca_coll_tuned_comm_t \<Rightarrow> mca_coll_tuned_comm_t option" where
  "COLL_TUNED_UPDATE_IN_ORDER_BMTREE mem sz rank root d =
     (if cached_in_order_bmtree d \<noteq> None \<and> cached_in_order_bmtree_root d = root then Some d
      else do {
        let d = d\<lparr>cached_in_order_bmtree := None\<rparr>;
        t \<leftarrow> ompi_coll_tuned_topo_build_in_order_bmtree mem sz rank root;
        Some (d\<lparr>cached_in_order_bmtree := t, cached_in_order_bmtree_root := root\<rparr>)
      })"

definition COLL_TUNED_UPDATE_PIPELINE :: "ompi_coll_tree_t option \<Rightarrow> int \<Rightarrow> int \<Rightarrow> int \<Rightarrow> mca_coll_tuned_comm_t \<Rightarrow> mca_coll_tuned_comm_t option" where
  "COLL_TUNED_UPDATE_PIPELINE mem sz rank root d =
     (if cached_pipeline d \<noteq> None \<and> cached_pipeline_root d = root then Some d
      else do {
        let d = d\<lparr>cached_pipeline := None\<rparr>;
        t \<leftarrow> ompi_coll_tuned_topo_build_chain mem 1 sz rank root;
        Some (d\<lparr>cached_pipeline := t, cached_pipeline_root := root\<rparr>)
      })"

definition COLL_TUNED_UPDATE_CHAIN :: "ompi_coll_tree_t option \<Rightarrow> int \<Rightarrow> int \<Rightarrow> int \<Rightarrow> int \<Rightarrow> mca_coll_tuned_comm_t \<Rightarrow> mca_coll_tuned_comm_t option" where
  "COLL_TUNED_UPDATE_CHAIN mem sz rank root fanout d =
     (if cached_chain d \<noteq> None \<and> cached_chain_root d = root \<and> cached_chain_fanout d = fanout then Some d
      else do {
        let d = d\<lparr>cached_chain := None\<rparr>;
        t \<leftarrow> ompi_coll_tuned_topo_build_chain mem fanout sz rank root;
        Some (d\<lparr>cached_chain := t, cached_chain_root := root, cached_chain_fanout := fanout\<rparr>)
      })"

definition COLL_TUNED_UPDATE_IN_ORDER_BINTREE :: "ompi_coll_tree_t option \<Rightarrow> int \<Rightarrow> int \<Rightarrow> mca_coll_tuned_comm_t \<Rightarrow> mca_coll_tuned_comm_t option" where
  "COLL_TUNED_UPDATE_IN_ORDER_BINTREE mem sz rank d =
     (if cached_in_order_bintree d \<noteq> None then Some d
      else do {
        t \<leftarrow> ompi_coll_tuned_topo_build_in_order_bintree mem sz rank;
        Some (d\<lparr>cached_in_order_bintree := t\<rparr>)
      })"

section \<open>Segments\<close>

definition COLL_TUNED_COMPUTED_SEGCOUNT :: "nat \<Rightarrow> nat \<Rightarrow> nat \<Rightarrow> nat" where
  "COLL_TUNED_COMPUTED_SEGCOUNT segsize typelng segcount =
     (if segsize \<ge> typelng \<and> segsize < typelng * segcount then
        let segcount = segsize div typelng;
            residual = segsize - segcount * typelng
        in if residual > drop_bit 1 typelng then segcount + 1 else segcount
      else segcount)"

section \<open>The calls\<close>

definition ompi_coll_tuned_bcast_intra_bintree ::
  "ompi_coll_tree_t option \<Rightarrow> nat \<Rightarrow> nat \<Rightarrow> nat \<Rightarrow> nat \<Rightarrow> nat \<Rightarrow> nat \<Rightarrow> mca_coll_tuned_comm_t \<Rightarrow> (mca_coll_tuned_comm_t \<times> pml_op list) option" where
  "ompi_coll_tuned_bcast_intra_bintree mem sz rank count typelng root segsize d = do {
     d \<leftarrow> COLL_TUNED_UPDATE_BINTREE mem (int sz) (int rank) (int root) d;
     let segcount = COLL_TUNED_COMPUTED_SEGCOUNT segsize typelng count;
     tree \<leftarrow> cached_bintree d;
     calls \<leftarrow> ompi_coll_tuned_bcast_intra_generic sz rank count root segcount tree;
     Some (d, calls)
   }"

definition ompi_coll_tuned_bcast_intra_pipeline ::
  "ompi_coll_tree_t option \<Rightarrow> nat \<Rightarrow> nat \<Rightarrow> nat \<Rightarrow> nat \<Rightarrow> nat \<Rightarrow> nat \<Rightarrow> mca_coll_tuned_comm_t \<Rightarrow> (mca_coll_tuned_comm_t \<times> pml_op list) option" where
  "ompi_coll_tuned_bcast_intra_pipeline mem sz rank count typelng root segsize d = do {
     d \<leftarrow> COLL_TUNED_UPDATE_PIPELINE mem (int sz) (int rank) (int root) d;
     let segcount = COLL_TUNED_COMPUTED_SEGCOUNT segsize typelng count;
     tree \<leftarrow> cached_pipeline d;
     calls \<leftarrow> ompi_coll_tuned_bcast_intra_generic sz rank count root segcount tree;
     Some (d, calls)
   }"

definition ompi_coll_tuned_bcast_intra_chain ::
  "ompi_coll_tree_t option \<Rightarrow> nat \<Rightarrow> nat \<Rightarrow> nat \<Rightarrow> nat \<Rightarrow> nat \<Rightarrow> nat \<Rightarrow> int \<Rightarrow> mca_coll_tuned_comm_t \<Rightarrow> (mca_coll_tuned_comm_t \<times> pml_op list) option" where
  "ompi_coll_tuned_bcast_intra_chain mem sz rank count typelng root segsize nchains d = do {
     d \<leftarrow> COLL_TUNED_UPDATE_CHAIN mem (int sz) (int rank) (int root) nchains d;
     let segcount = COLL_TUNED_COMPUTED_SEGCOUNT segsize typelng count;
     tree \<leftarrow> cached_chain d;
     calls \<leftarrow> ompi_coll_tuned_bcast_intra_generic sz rank count root segcount tree;
     Some (d, calls)
   }"

definition ompi_coll_tuned_bcast_intra_binomial ::
  "ompi_coll_tree_t option \<Rightarrow> nat \<Rightarrow> nat \<Rightarrow> nat \<Rightarrow> nat \<Rightarrow> nat \<Rightarrow> nat \<Rightarrow> mca_coll_tuned_comm_t \<Rightarrow> (mca_coll_tuned_comm_t \<times> pml_op list) option" where
  "ompi_coll_tuned_bcast_intra_binomial mem sz rank count typelng root segsize d = do {
     d \<leftarrow> COLL_TUNED_UPDATE_BMTREE mem (int sz) (int rank) (int root) d;
     let segcount = COLL_TUNED_COMPUTED_SEGCOUNT segsize typelng count;
     tree \<leftarrow> cached_bmtree d;
     calls \<leftarrow> ompi_coll_tuned_bcast_intra_generic sz rank count root segcount tree;
     Some (d, calls)
   }"

text \<open>
  The linear broadcast: the root sends to every other rank, in the order of the ranks, and waits for
  all its sends; the others receive.
\<close>

definition ompi_coll_tuned_bcast_intra_basic_linear :: "nat \<Rightarrow> nat \<Rightarrow> nat \<Rightarrow> nat \<Rightarrow> pml_op list" where
  "ompi_coll_tuned_bcast_intra_basic_linear sz rank count root =
     (if rank \<noteq> root then [Irecv root 0 count, Wait_all [Recv_Req root 0]]
      else map (\<lambda>i. Isend Standard i 0 count) (filter (\<lambda>i. i \<noteq> rank) [0..<sz])
        @ [Wait_all (map (\<lambda>i. Send_Req i 0) (filter (\<lambda>i. i \<noteq> rank) [0..<sz]))])"

section \<open>The cache\<close>

definition made_by :: "(ompi_coll_tree_t \<Rightarrow> ompi_coll_tree_t option option) \<Rightarrow> ompi_coll_tree_t option \<Rightarrow> bool" where
  "made_by b c \<longleftrightarrow> (\<forall>t. c = Some t \<longrightarrow> (\<exists>m. length (tree_next m) = MAXTREEFANOUT \<and> b m = Some (Some t)))"

definition cache_ok :: "nat \<Rightarrow> nat \<Rightarrow> mca_coll_tuned_comm_t \<Rightarrow> bool" where
  "cache_ok n r d \<longleftrightarrow>
     made_by (\<lambda>m. ompi_coll_tuned_topo_build_tree (Some m) 2 (int n) (int r) (cached_bintree_root d)) (cached_bintree d)
   \<and> made_by (\<lambda>m. ompi_coll_tuned_topo_build_bmtree (Some m) (int n) (int r) (cached_bmtree_root d)) (cached_bmtree d)
   \<and> made_by (\<lambda>m. ompi_coll_tuned_topo_build_in_order_bmtree (Some m) (int n) (int r) (cached_in_order_bmtree_root d)) (cached_in_order_bmtree d)
   \<and> made_by (\<lambda>m. ompi_coll_tuned_topo_build_chain (Some m) (cached_chain_fanout d) (int n) (int r) (cached_chain_root d)) (cached_chain d)
   \<and> made_by (\<lambda>m. ompi_coll_tuned_topo_build_chain (Some m) 1 (int n) (int r) (cached_pipeline_root d)) (cached_pipeline d)
   \<and> made_by (\<lambda>m. ompi_coll_tuned_topo_build_in_order_bintree (Some m) (int n) (int r)) (cached_in_order_bintree d)"

lemma made_by_None [simp]: "made_by b None"
  by (simp add: made_by_def)

lemma made_by_Some: "length (tree_next m) = MAXTREEFANOUT \<Longrightarrow> b m = Some c \<Longrightarrow> made_by b c"
  by (auto simp: made_by_def)

lemma segcount_bounds:
  assumes "0 < count"
  shows "0 < COLL_TUNED_COMPUTED_SEGCOUNT segsize typelng count" "COLL_TUNED_COMPUTED_SEGCOUNT segsize typelng count \<le> count"
proof -
  have "0 < segsize div typelng" "segsize div typelng < count" if "typelng \<le> segsize" "segsize < typelng * count"
    using that by (cases "typelng = 0"; simp add: div_greater_zero_iff less_mult_imp_div_less mult.commute)+
  then show "0 < COLL_TUNED_COMPUTED_SEGCOUNT segsize typelng count" "COLL_TUNED_COMPUTED_SEGCOUNT segsize typelng count \<le> count"
    using assms by (auto simp: COLL_TUNED_COMPUTED_SEGCOUNT_def Let_def)
qed

lemma update_bintree:
  assumes "cache_ok n r d" "root < n" "n \<le> 2 ^ 25" "r < n" "length (tree_next m) = MAXTREEFANOUT"
  shows "\<exists>d' t. COLL_TUNED_UPDATE_BINTREE (Some m) (int n) (int r) (int root) d = Some d' \<and> cached_bintree d' = Some t \<and> cache_ok n r d'
    \<and> made_by (\<lambda>m. ompi_coll_tuned_topo_build_tree (Some m) 2 (int n) (int r) (int root)) (Some t)"
proof (cases "cached_bintree d \<noteq> None \<and> cached_bintree_root d = int root")
  case True
  then show ?thesis using assms(1) by (auto simp: COLL_TUNED_UPDATE_BINTREE_def cache_ok_def)
next
  case False
  obtain t where t: "ompi_coll_tuned_topo_build_tree (Some m) 2 (int n) (int r) (int root) = Some (Some t)"
    using binary.node_ex [of root n r m] assms(2-5) by blast
  then show ?thesis using False assms(1) made_by_Some [OF assms(5), where c = "Some t"]
    by (auto simp: COLL_TUNED_UPDATE_BINTREE_def cache_ok_def)
qed

lemma update_bmtree:
  assumes "cache_ok n r d" "root < n" "n \<le> 2 ^ 25" "r < n" "length (tree_next m) = MAXTREEFANOUT"
  shows "\<exists>d' t. COLL_TUNED_UPDATE_BMTREE (Some m) (int n) (int r) (int root) d = Some d' \<and> cached_bmtree d' = Some t \<and> cache_ok n r d'
    \<and> made_by (\<lambda>m. ompi_coll_tuned_topo_build_bmtree (Some m) (int n) (int r) (int root)) (Some t)"
proof (cases "cached_bmtree d \<noteq> None \<and> cached_bmtree_root d = int root")
  case True
  then show ?thesis using assms(1) by (auto simp: COLL_TUNED_UPDATE_BMTREE_def cache_ok_def)
next
  case False
  obtain t where t: "ompi_coll_tuned_topo_build_bmtree (Some m) (int n) (int r) (int root) = Some (Some t)"
    using bm.node_ex [of root n r m] assms(2-5) by blast
  then show ?thesis using False assms(1) made_by_Some [OF assms(5), where c = "Some t"]
    by (auto simp: COLL_TUNED_UPDATE_BMTREE_def cache_ok_def)
qed

lemma update_pipeline:
  assumes "cache_ok n r d" "root < n" "n \<le> 2 ^ 25" "r < n" "length (tree_next m) = MAXTREEFANOUT"
  shows "\<exists>d' t. COLL_TUNED_UPDATE_PIPELINE (Some m) (int n) (int r) (int root) d = Some d' \<and> cached_pipeline d' = Some t \<and> cache_ok n r d'
    \<and> made_by (\<lambda>m. ompi_coll_tuned_topo_build_chain (Some m) 1 (int n) (int r) (int root)) (Some t)"
proof (cases "cached_pipeline d \<noteq> None \<and> cached_pipeline_root d = int root")
  case True
  then show ?thesis using assms(1) by (auto simp: COLL_TUNED_UPDATE_PIPELINE_def cache_ok_def)
next
  case False
  obtain t where t: "ompi_coll_tuned_topo_build_chain (Some m) 1 (int n) (int r) (int root) = Some (Some t)"
    using chain.node_ex [of root n r m 1] assms(2-5) by blast
  then show ?thesis using False assms(1) made_by_Some [OF assms(5), where c = "Some t"]
    by (auto simp: COLL_TUNED_UPDATE_PIPELINE_def cache_ok_def)
qed

lemma update_chain:
  assumes "cache_ok n r d" "root < n" "n \<le> 2 ^ 25" "r < n" "length (tree_next m) = MAXTREEFANOUT"
  shows "\<exists>d' t. COLL_TUNED_UPDATE_CHAIN (Some m) (int n) (int r) (int root) f d = Some d' \<and> cached_chain d' = Some t \<and> cache_ok n r d'
    \<and> made_by (\<lambda>m. ompi_coll_tuned_topo_build_chain (Some m) f (int n) (int r) (int root)) (Some t)"
proof (cases "cached_chain d \<noteq> None \<and> cached_chain_root d = int root \<and> cached_chain_fanout d = f")
  case True
  then show ?thesis using assms(1) by (auto simp: COLL_TUNED_UPDATE_CHAIN_def cache_ok_def)
next
  case False
  obtain t where t: "ompi_coll_tuned_topo_build_chain (Some m) f (int n) (int r) (int root) = Some (Some t)"
    using chain.node_ex [of root n r m f] assms(2-5) by blast
  then show ?thesis using False assms(1) made_by_Some [OF assms(5), where c = "Some t"]
    by (auto simp: COLL_TUNED_UPDATE_CHAIN_def cache_ok_def)
qed

text \<open>A call of a broadcast on every process: the cache is up to date and the tree comes from the builder.\<close>

context tree_builder
begin

lemma bcast_calls:
  assumes "ok n root" "1 < n" "0 < count" "count < 2 ^ 31" "\<forall>r < n. length (bs r) = count"
    and upd: "\<forall>r < n. \<exists>d' t. upd r = Some d' \<and> cached d' = Some t \<and> cache_ok n r d' \<and> made_by (\<lambda>m. build m n root r) (Some t)"
    and call: "\<And>r. call r = do {d \<leftarrow> upd r; tree \<leftarrow> cached d;
      calls \<leftarrow> ompi_coll_tuned_bcast_intra_generic n r count root (COLL_TUNED_COMPUTED_SEGCOUNT segsize typelng count) tree; Some (d, calls)}"
  shows "\<exists>D' prog. (\<forall>r < n. call r = Some (D' r, prog r) \<and> cache_ok n r (D' r)) \<and> run_ok n prog bs (\<lambda>s. \<forall>r < n. bufs s r = bs root)"
proof -
  obtain D' where D': "\<forall>r < n. \<exists>t. upd r = Some (D' r) \<and> cached (D' r) = Some t \<and> cache_ok n r (D' r) \<and> made_by (\<lambda>m. build m n root r) (Some t)"
    using upd by metis
  then obtain T where T: "\<forall>r < n. upd r = Some (D' r) \<and> cached (D' r) = Some (T r) \<and> cache_ok n r (D' r) \<and> made_by (\<lambda>m. build m n root r) (Some (T r))"
    by metis
  have sc: "0 < COLL_TUNED_COMPUTED_SEGCOUNT segsize typelng count" "COLL_TUNED_COMPUTED_SEGCOUNT segsize typelng count < 2 ^ 31"
    using segcount_bounds [OF assms(3), of segsize typelng] assms(4) by linarith+
  have "\<forall>r < n. \<exists>m. length (tree_next m) = MAXTREEFANOUT \<and> build m n root r = Some (Some (T r))" using T by (simp add: made_by_def)
  then obtain prog where prog: "\<forall>r < n. ompi_coll_tuned_bcast_intra_generic n r count root (COLL_TUNED_COMPUTED_SEGCOUNT segsize typelng count) (T r) = Some (prog r)"
    "run_ok n prog bs (\<lambda>s. \<forall>r < n. bufs s r = bs root)"
    using bcast [OF assms(1-4) sc assms(5)] by blast
  have "\<forall>r < n. call r = Some (D' r, prog r) \<and> cache_ok n r (D' r)" using T prog(1) by (simp add: call)
  then show ?thesis using prog(2) by blast
qed

end

section \<open>The broadcasts deliver\<close>

definition no_trees :: mca_coll_tuned_comm_t where
  "no_trees = \<lparr>cached_bintree = None, cached_bintree_root = 0, cached_bmtree = None, cached_bmtree_root = 0, cached_in_order_bmtree = None,
     cached_in_order_bmtree_root = 0, cached_chain = None, cached_chain_root = 0, cached_chain_fanout = 0, cached_pipeline = None,
     cached_pipeline_root = 0, cached_in_order_bintree = None\<rparr>"

definition zero_tree :: ompi_coll_tree_t where
  "zero_tree = \<lparr>tree_root = 0, tree_fanout = 0, tree_bmtree = 0, tree_prev = 0, tree_next = replicate MAXTREEFANOUT 0, tree_nextsize = 0\<rparr>"

lemma cache_ok_none: "cache_ok n r no_trees"
  by (simp add: cache_ok_def no_trees_def)

text \<open>C2: the broadcast along the binomial tree: on every process the cached tree is the right one, whatever was cached before; every run of the processes ends, and when it ends all of them have returned with the data of the root in their buffer. The layer below may buffer standard sends or not, and may delay any message.\<close>

theorem bcast_binomial_delivers:
  assumes "1 < n" "n \<le> 2 ^ 25" "root < n" "0 < count" "count < 2 ^ 31" "\<forall>r < n. length (bs r) = count"
    and "\<forall>r < n. cache_ok n r (D r)" "\<forall>r < n. length (tree_next (M r)) = MAXTREEFANOUT"
  shows "\<exists>D' prog. (\<forall>r < n. ompi_coll_tuned_bcast_intra_binomial (Some (M r)) n r count typelng root segsize (D r) = Some (D' r, prog r) \<and> cache_ok n r (D' r))
    \<and> run_ok n prog bs (\<lambda>s. \<forall>r < n. bufs s r = bs root)"
  using assms update_bmtree
  by (intro bm.bcast_calls [where cached = cached_bmtree and upd = "\<lambda>r. COLL_TUNED_UPDATE_BMTREE (Some (M r)) (int n) (int r) (int root) (D r)"])
    (simp_all add: ompi_coll_tuned_bcast_intra_binomial_def Let_def)

theorem bcast_binomial_delivers_witness:
  "\<exists>D' prog. (\<forall>r < 3. ompi_coll_tuned_bcast_intra_binomial (Some zero_tree) 3 r 2 4 1 4 (no_trees) = Some (D' r, prog r) \<and> cache_ok 3 r (D' r))
    \<and> run_ok 3 prog (\<lambda>r. [r, 10 * r]) (\<lambda>s. \<forall>r < 3. bufs s r = [1, 10 :: nat])"
  using bcast_binomial_delivers [of 3 1 2 "\<lambda>r. [r, 10 * r]" "\<lambda>r. no_trees" "\<lambda>r. zero_tree" 4 4] cache_ok_none by (simp add: zero_tree_def)

text \<open>The broadcast along the binary tree ends on every process, with the data of the root in every buffer.\<close>

lemma bcast_bintree_delivers:
  assumes "1 < n" "n \<le> 2 ^ 25" "root < n" "0 < count" "count < 2 ^ 31" "\<forall>r < n. length (bs r) = count"
    and "\<forall>r < n. cache_ok n r (D r)" "\<forall>r < n. length (tree_next (M r)) = MAXTREEFANOUT"
  shows "\<exists>D' prog. (\<forall>r < n. ompi_coll_tuned_bcast_intra_bintree (Some (M r)) n r count typelng root segsize (D r) = Some (D' r, prog r) \<and> cache_ok n r (D' r))
    \<and> run_ok n prog bs (\<lambda>s. \<forall>r < n. bufs s r = bs root)"
  using assms update_bintree
  by (intro binary.bcast_calls [where cached = cached_bintree and upd = "\<lambda>r. COLL_TUNED_UPDATE_BINTREE (Some (M r)) (int n) (int r) (int root) (D r)"])
    (simp_all add: ompi_coll_tuned_bcast_intra_bintree_def Let_def)

text \<open>The pipelined broadcast ends on every process, with the data of the root in every buffer.\<close>

lemma bcast_pipeline_delivers:
  assumes "1 < n" "n \<le> 2 ^ 25" "root < n" "0 < count" "count < 2 ^ 31" "\<forall>r < n. length (bs r) = count"
    and "\<forall>r < n. cache_ok n r (D r)" "\<forall>r < n. length (tree_next (M r)) = MAXTREEFANOUT"
  shows "\<exists>D' prog. (\<forall>r < n. ompi_coll_tuned_bcast_intra_pipeline (Some (M r)) n r count typelng root segsize (D r) = Some (D' r, prog r) \<and> cache_ok n r (D' r))
    \<and> run_ok n prog bs (\<lambda>s. \<forall>r < n. bufs s r = bs root)"
  using assms update_pipeline
  by (intro chain.bcast_calls [where f = 1 and cached = cached_pipeline and upd = "\<lambda>r. COLL_TUNED_UPDATE_PIPELINE (Some (M r)) (int n) (int r) (int root) (D r)"])
    (simp_all add: ompi_coll_tuned_bcast_intra_pipeline_def Let_def)

text \<open>The broadcast along chains ends on every process for any requested number of chains, with the data of the root in every buffer.\<close>

lemma bcast_chain_delivers:
  assumes "1 < n" "n \<le> 2 ^ 25" "root < n" "0 < count" "count < 2 ^ 31" "\<forall>r < n. length (bs r) = count"
    and "\<forall>r < n. cache_ok n r (D r)" "\<forall>r < n. length (tree_next (M r)) = MAXTREEFANOUT"
  shows "\<exists>D' prog. (\<forall>r < n. ompi_coll_tuned_bcast_intra_chain (Some (M r)) n r count typelng root segsize nchains (D r) = Some (D' r, prog r) \<and> cache_ok n r (D' r))
    \<and> run_ok n prog bs (\<lambda>s. \<forall>r < n. bufs s r = bs root)"
  using assms update_chain
  by (intro chain.bcast_calls [where f = nchains and cached = cached_chain and upd = "\<lambda>r. COLL_TUNED_UPDATE_CHAIN (Some (M r)) (int n) (int r) (int root) nchains (D r)"])
    (simp_all add: ompi_coll_tuned_bcast_intra_chain_def Let_def)

lemma basic_linear_prog:
  assumes "0 < count"
  shows "ompi_coll_tuned_bcast_intra_basic_linear n r count root
    = bcast_prog root (\<lambda>r. root) (\<lambda>r. if r = root then filter (\<lambda>i. i \<noteq> root) [0..<n] else []) count count 1 r"
  using assms by (simp add: ompi_coll_tuned_bcast_intra_basic_linear_def bcast_prog_def bcast_block_def forward_def obtain_seg_def seg_count_def)

text \<open>The linear broadcast ends on every process, with the data of the root in every buffer.\<close>

lemma bcast_linear_delivers:
  assumes "root < n" "0 < count" "\<forall>r < n. length (bs r) = count"
  shows "run_ok n (\<lambda>r. ompi_coll_tuned_bcast_intra_basic_linear n r count root) bs (\<lambda>s. \<forall>r < n. bufs s r = bs root)"
proof -
  have "segments count count = 1" using assms(2) by (simp add: segments_def div_nat_eqI)
  moreover have "nat_tree n root (\<lambda>r. root) (\<lambda>r. if r = root then filter (\<lambda>i. i \<noteq> root) [0..<n] else []) (\<lambda>r. if r = root then 0 else 1)"
    using assms(1) by (auto simp: nat_tree_def)
  ultimately have job: "bcast_job n root (\<lambda>r. root) (\<lambda>r. if r = root then filter (\<lambda>i. i \<noteq> root) [0..<n] else []) (\<lambda>r. if r = root then 0 else 1)
      count count 1 (\<lambda>r. ompi_coll_tuned_bcast_intra_basic_linear n r count root)"
    using basic_linear_prog [OF assms(2)] assms(2) by (simp add: bcast_job_def)
  show ?thesis unfolding run_ok_def using bcast_correct [OF job assms(3)] by (intro conjI allI impI runs_end) simp_all
qed

end
