(* ===== verification/Coll_Barrier.thy ===== *)
theory Coll_Barrier
  imports Coll_Topo Coll_Net
begin

text \<open>
  Barriers of the tuned module (\<^verbatim>\<open>ompi/mca/coll/tuned/coll_tuned_barrier.c\<close>): recursive doubling, the
  algorithm of Bruck, two processes. No process leaves a barrier before all have entered it, and no
  barrier deadlocks.

  The calls of a process are collected in the order of the code. The number of a request is its
  position among the sends, or the receives, that the process has posted for the peer.
\<close>

section \<open>The calls of a process\<close>

definition ompi_coll_tuned_sendrecv_zero :: "nat \<Rightarrow> nat \<Rightarrow> pml_op list \<Rightarrow> pml_op list" where
  "ompi_coll_tuned_sendrecv_zero dest source h =
     h @ [Irecv source 0 0, Isend Standard dest 0 0, Wait_all [Recv_Req source (length (recvs source h)), Send_Req dest (length (sends dest h))]]"

definition recv_zero :: "nat \<Rightarrow> pml_op list \<Rightarrow> pml_op list" where
  "recv_zero source h = h @ [Irecv source 0 0, Wait_all [Recv_Req source (length (recvs source h))]]"

definition send_zero :: "send_mode \<Rightarrow> nat \<Rightarrow> pml_op list \<Rightarrow> pml_op list" where
  "send_zero md dest h = h @ [Isend md dest 0 0, Wait_all [Send_Req dest (length (sends dest h))]]"

text \<open>
  The return code of \<^verbatim>\<open>ompi_coll_tuned_sendrecv_zero\<close> from those of the calls it makes and the error
  codes in the two statuses.
\<close>

definition MPI_ERR_IN_STATUS :: int where "MPI_ERR_IN_STATUS = 18"

definition sendrecv_error :: "int \<Rightarrow> int list \<Rightarrow> int option" where
  "sendrecv_error err statuses =
     (if MPI_ERR_IN_STATUS = err then do {
        e0 \<leftarrow> aget statuses 0;
        aget statuses (if MPI_SUCCESS = e0 then 0 else 1)
      }
      else Some err)"

definition sendrecv_zero_rc :: "int \<Rightarrow> int \<Rightarrow> int \<Rightarrow> int list \<Rightarrow> int option" where
  "sendrecv_zero_rc irecv_rc isend_rc wait_rc statuses =
     (if irecv_rc \<noteq> MPI_SUCCESS then sendrecv_error irecv_rc statuses
      else if isend_rc \<noteq> MPI_SUCCESS then sendrecv_error isend_rc statuses
      else if wait_rc \<noteq> MPI_SUCCESS then sendrecv_error wait_rc statuses
      else Some MPI_SUCCESS)"

text \<open>Doubling the distance must stay within \<^verbatim>\<open>int\<close>.\<close>

function bruck_loop :: "nat \<Rightarrow> nat \<Rightarrow> nat \<Rightarrow> pml_op list \<Rightarrow> pml_op list option" where
  "bruck_loop rank sz distance h =
     (if distance < sz then
        let from = (rank + sz - distance) mod sz; to = (rank + distance) mod sz
        in if distance = 0 \<or> distance \<ge> 2 ^ 30 then None
           else bruck_loop rank sz (push_bit 1 distance) (ompi_coll_tuned_sendrecv_zero to from h)
      else Some h)"
  by pat_completeness auto
termination
  by (relation "measure (\<lambda>(rank, sz, distance, h). sz - distance)") (auto simp: push_bit_eq_mult)

declare bruck_loop.simps [simp del]

definition ompi_coll_tuned_barrier_intra_bruck :: "nat \<Rightarrow> nat \<Rightarrow> pml_op list option" where
  "ompi_coll_tuned_barrier_intra_bruck sz rank = bruck_loop rank sz 1 []"

function doubling_loop :: "nat \<Rightarrow> nat \<Rightarrow> nat \<Rightarrow> pml_op list \<Rightarrow> pml_op list option" where
  "doubling_loop rank adjsize msk h =
     (if msk < adjsize then
        let remote = rank XOR msk
        in if msk = 0 \<or> msk \<ge> 2 ^ 30 then None
           else doubling_loop rank adjsize (push_bit 1 msk) (if remote \<ge> adjsize then h else ompi_coll_tuned_sendrecv_zero remote remote h)
      else Some h)"
  by pat_completeness auto
termination
  by (relation "measure (\<lambda>(rank, adjsize, msk, h). adjsize - msk)") (auto simp: push_bit_eq_mult)

declare doubling_loop.simps [simp del]

definition ompi_coll_tuned_barrier_intra_recursivedoubling :: "nat \<Rightarrow> nat \<Rightarrow> pml_op list option" where
  "ompi_coll_tuned_barrier_intra_recursivedoubling sz rank = do {
     pow2 \<leftarrow> opal_next_poweroftwo (int sz);
     let adjsize = nat (drop_bit 1 pow2);
     let h = (if adjsize \<noteq> sz then
                if rank \<ge> adjsize then ompi_coll_tuned_sendrecv_zero (rank - adjsize) (rank - adjsize) []
                else if rank < sz - adjsize then recv_zero (rank + adjsize) []
                else []
              else []);
     h \<leftarrow> (if rank < adjsize then doubling_loop rank adjsize 1 h else Some h);
     Some (if adjsize \<noteq> sz \<and> rank < sz - adjsize then send_zero Synchronous (rank + adjsize) h else h)
   }"

definition ompi_coll_tuned_barrier_intra_two_procs :: "nat \<Rightarrow> pml_op list" where
  "ompi_coll_tuned_barrier_intra_two_procs rank =
     (let remote = (rank + 1) AND 1 in ompi_coll_tuned_sendrecv_zero remote remote [])"

text \<open>
  The default choice (\<^verbatim>\<open>coll_tuned_decision_fixed.c\<close>): a loop over the bits of the size tells whether it
  is a power of two.
\<close>

function two_ones_loop :: "nat \<Rightarrow> bool \<Rightarrow> bool" where
  "two_ones_loop sz has_one =
     (if sz > 0 then
        if sz AND 1 \<noteq> 0 then if has_one then True else two_ones_loop (drop_bit 1 sz) True
        else two_ones_loop (drop_bit 1 sz) has_one
      else False)"
  by pat_completeness auto
termination
  by (relation "measure (\<lambda>(sz, has_one). sz)") (auto simp: drop_bit_eq_div)

declare two_ones_loop.simps [simp del]

definition ompi_coll_tuned_barrier_intra_dec_fixed :: "nat \<Rightarrow> nat \<Rightarrow> pml_op list option" where
  "ompi_coll_tuned_barrier_intra_dec_fixed sz rank =
     (if 2 = sz then Some (ompi_coll_tuned_barrier_intra_two_procs rank)
      else if two_ones_loop sz False then ompi_coll_tuned_barrier_intra_bruck sz rank
      else ompi_coll_tuned_barrier_intra_recursivedoubling sz rank)"

section \<open>What a barrier promises\<close>

text \<open>
  Every run ends with all processes returned, and no process returns in a state in which another one
  has not made its first call.
\<close>

definition barrier_ok :: "nat \<Rightarrow> (nat \<Rightarrow> pml_op list) \<Rightarrow> (nat \<Rightarrow> 'a list) \<Rightarrow> bool" where
  "barrier_ok n prog bs \<longleftrightarrow> run_ok n prog bs (\<lambda>s. True)
     \<and> (\<forall>s r q. net_steps n prog (net_init bs) s \<longrightarrow> r < n \<longrightarrow> q < n \<longrightarrow> pcs s r = length (prog r) \<longrightarrow> 0 < pcs s q)"

lemma barrier_cong:
  fixes bs :: "nat \<Rightarrow> 'a list"
  assumes "\<forall>r < n. prog r = prog' r" "barrier_ok n prog bs"
  shows "barrier_ok n prog' bs"
proof -
  have "(net_step n prog :: 'a net \<Rightarrow> _) = net_step n prog'" "(stuck n prog :: 'a net \<Rightarrow> _) = stuck n prog'"
    "(all_returned n prog :: 'a net \<Rightarrow> _) = all_returned n prog'"
    by (simp_all add: fun_eq_iff run_cong(1,3,4) [OF assms(1)])
  then show ?thesis using assms unfolding barrier_ok_def run_ok_def by simp
qed

text \<open>
  An interface for its proof: a program with times, every process of which has heard of every other
  one by the end.
\<close>

locale timed_barrier =
  fixes ok :: "nat \<Rightarrow> bool" and prog :: "nat \<Rightarrow> nat \<Rightarrow> pml_op list option" and tp :: "nat \<Rightarrow> nat \<Rightarrow> (pml_op \<times> nat) list"
  assumes prog: "ok n \<Longrightarrow> r < n \<Longrightarrow> prog n r = Some (map fst (tp n r))"
    and timed: "ok n \<Longrightarrow> timed_ok n (tp n)"
    and empty: "ok n \<Longrightarrow> r < n \<Longrightarrow> x \<in> set (tp n r) \<Longrightarrow> empty_op (fst x)"
    and hears: "ok n \<Longrightarrow> net_inv (\<lambda>r. map fst (tp n r)) (s :: 'a net) \<Longrightarrow> r < n \<Longrightarrow> q < n \<Longrightarrow> pcs s r = length (tp n r) \<Longrightarrow> 0 < pcs s q"
begin

lemma barrier:
  assumes "ok n"
  shows "\<exists>p. (\<forall>r < n. prog n r = Some (p r)) \<and> barrier_ok n p (bs :: nat \<Rightarrow> 'a list)"
proof (intro exI conjI allI impI)
  let ?tp = "\<lambda>r. map fst (tp n r)"
  show "prog n r = Some (?tp r)" if "r < n" for r using prog [OF assms that] .
  have inv: "net_inv ?tp s" if "net_steps n ?tp (net_init bs) s" for s using that net_inv_reachable by blast
  have "all_returned n ?tp s" if "net_steps n ?tp (net_init bs) s" "stuck n ?tp s" for s
  proof -
    have "fits n ?tp s" using inv [OF that(1)] empty [OF assms] by (intro empty_fits) auto
    then show ?thesis using scheduled_not_stuck [OF timed_scheduled [OF timed [OF assms]] inv [OF that(1)]] that(2) by blast
  qed
  moreover have "0 < pcs s q" if "net_steps n ?tp (net_init bs) s" "r < n" "q < n" "pcs s r = length (?tp r)" for s r q
    using hears [OF assms inv [OF that(1)] that(2,3)] that(4) by simp
  ultimately show "barrier_ok n ?tp bs" unfolding barrier_ok_def run_ok_def by (intro conjI allI impI runs_end) auto
qed

end

section \<open>Bruck's barrier\<close>

text \<open>An exchange in round \<open>k\<close>, with its times.\<close>

definition exchange :: "nat \<Rightarrow> nat \<Rightarrow> nat \<Rightarrow> (pml_op \<times> nat) list" where
  "exchange dest source t = [(Irecv source 0 0, t), (Isend Standard dest 0 0, t + 1), (Wait_all [Recv_Req source 0, Send_Req dest 0], t + 2)]"

lemma sendrecv_exchange:
  "recvs source h = [] \<Longrightarrow> sends dest h = [] \<Longrightarrow> ompi_coll_tuned_sendrecv_zero dest source h = h @ map fst (exchange dest source t)"
  by (simp add: ompi_coll_tuned_sendrecv_zero_def exchange_def)

definition rounds :: "nat \<Rightarrow> nat" where "rounds n = bl (n - 1)"

lemma round_less: "0 < n \<Longrightarrow> 2 ^ k < n \<longleftrightarrow> k < rounds n"
proof
  assume "0 < n" "2 ^ k < n"
  then have "(2 :: nat) ^ k < 2 ^ bl (n - 1)" using bl_bounds [of "n - 1"] by linarith
  then have "(2 :: nat) ^ k < 2 ^ rounds n" by (simp add: rounds_def)
  then show "k < rounds n" by (rule power_less_imp_less_exp [rotated]) simp
next
  assume n: "0 < n" and k: "k < rounds n"
  then have "0 < n - 1" by (cases "n - 1 = 0") (auto simp: rounds_def bl.simps)
  then have "2 ^ (bl (n - 1) - 1) \<le> n - 1" using bl_bounds by blast
  moreover have "(2 :: nat) ^ k \<le> 2 ^ (bl (n - 1) - 1)" using k by (intro power_increasing) (auto simp: rounds_def)
  ultimately show "2 ^ k < n" using n by linarith
qed

definition ahead :: "nat \<Rightarrow> nat \<Rightarrow> nat \<Rightarrow> nat" where "ahead n r k = (r + 2 ^ k) mod n"

definition behind :: "nat \<Rightarrow> nat \<Rightarrow> nat \<Rightarrow> nat" where "behind n r k = (r + n - 2 ^ k) mod n"

definition bruck_timed :: "nat \<Rightarrow> nat \<Rightarrow> (pml_op \<times> nat) list" where
  "bruck_timed n r = concat (map (\<lambda>k. exchange (ahead n r k) (behind n r k) (3 * k)) [0..<rounds n])"

lemma mod_add_inj: "r < n \<Longrightarrow> a < n \<Longrightarrow> b < n \<Longrightarrow> (r + a) mod n = (r + b) mod n \<Longrightarrow> a = b" for n :: nat
  using shift_inverse(4) [of r n a] shift_inverse(4) [of r n b] by (simp add: unshift_def add.commute)

lemma ahead_inj: "r < n \<Longrightarrow> i < rounds n \<Longrightarrow> k < rounds n \<Longrightarrow> ahead n r i = ahead n r k \<Longrightarrow> i = k"
  using mod_add_inj [of r n "2 ^ i" "2 ^ k"] round_less [of n i] round_less [of n k] by (simp add: ahead_def)

lemma behind_inj:
  assumes "r < n" "i < rounds n" "k < rounds n" "behind n r i = behind n r k"
  shows "i = k"
proof -
  have l: "2 ^ i < n" "2 ^ k < n" using round_less assms(1-3) by auto
  then have "(r + (n - 2 ^ i)) mod n = (r + (n - 2 ^ k)) mod n" using assms(4) by (simp add: behind_def)
  then have "n - 2 ^ i = n - 2 ^ k" using mod_add_inj [of r n "n - 2 ^ i" "n - 2 ^ k"] assms(1) by simp
  then have "(2 :: nat) ^ i = 2 ^ k" using l by linarith
  then show ?thesis by simp
qed

lemma behind_ahead:
  assumes "r < n" "k < rounds n"
  shows "behind n r k < n" "ahead n r k < n" "ahead n (behind n r k) k = r" "behind n (ahead n r k) k = r"
proof -
  have l: "2 ^ k < n" using round_less assms by auto
  show "behind n r k < n" "ahead n r k < n" using assms(1) by (simp_all add: behind_def ahead_def)
  have "ahead n (behind n r k) k = ((r + n - 2 ^ k) + 2 ^ k) mod n" by (simp add: ahead_def behind_def mod_simps)
  then show "ahead n (behind n r k) k = r" using l assms(1) by simp
  have "behind n (ahead n r k) k = ((r + 2 ^ k) mod n + (n - 2 ^ k)) mod n" using l by (simp add: ahead_def behind_def)
  then have "behind n (ahead n r k) k = (r + 2 ^ k + (n - 2 ^ k)) mod n" by (simp only: mod_add_left_eq)
  then show "behind n (ahead n r k) k = r" using l assms(1) by simp
qed

lemma bruck_timed_mem:
  "x \<in> set (bruck_timed n r) \<longleftrightarrow> (\<exists>k < rounds n. x \<in> set (exchange (ahead n r k) (behind n r k) (3 * k)))"
  by (auto simp: bruck_timed_def)

lemma bruck_prefix:
  assumes "r < n" "n \<le> 2 ^ 30" "k \<le> rounds n"
  shows "bruck_loop r n (2 ^ k) (map fst (concat (map (\<lambda>k. exchange (ahead n r k) (behind n r k) (3 * k)) [0..<k]))) = Some (map fst (bruck_timed n r))"
  using assms(3)
proof (induction "rounds n - k" arbitrary: k)
  case 0
  then have "\<not> 2 ^ k < n" using round_less [of n k] assms(1) by simp
  then show ?case using 0 by (subst bruck_loop.simps) (simp add: bruck_timed_def)
next
  case (Suc d)
  let ?h = "map fst (concat (map (\<lambda>k. exchange (ahead n r k) (behind n r k) (3 * k)) [0..<k]))"
  have k: "k < rounds n" using Suc.hyps(2) by simp
  have ne: "behind n r k \<noteq> behind n r i" "ahead n r k \<noteq> ahead n r i" if "i < k" for i
    using behind_inj [OF assms(1) _ k, of i] ahead_inj [OF assms(1) _ k, of i] that k by (metis less_irrefl order_less_trans)+
  have "recvs (behind n r k) ?h = []" "sends (ahead n r k) ?h = []" unfolding recvs_Nil sends_Nil
    by (auto simp: exchange_def) (use ne in blast)+
  then have "ompi_coll_tuned_sendrecv_zero (ahead n r k) (behind n r k) ?h = map fst (concat (map (\<lambda>k. exchange (ahead n r k) (behind n r k) (3 * k)) [0..<Suc k]))"
    using sendrecv_exchange [where t = "3 * k"] by simp
  then have "bruck_loop r n (2 ^ k) ?h = bruck_loop r n (2 ^ Suc k) (map fst (concat (map (\<lambda>k. exchange (ahead n r k) (behind n r k) (3 * k)) [0..<Suc k])))"
    using round_less [of n k] k assms(1,2) by (subst bruck_loop.simps) (simp add: ahead_def behind_def push_bit_eq_mult mult.commute)
  then show ?case using Suc.hyps(1) [of "Suc k"] Suc.hyps(2) k by simp
qed

lemma sorted_rounds: "sorted (map snd (concat (map (\<lambda>k. exchange (a k) (b k) (3 * k)) [0..<m])))"
  by (induction m) (auto simp: sorted_append exchange_def)

lemma bruck_waits:
  assumes "(Wait_all rs, tw) \<in> set (bruck_timed n r)"
  obtains k where "k < rounds n" "rs = [Recv_Req (behind n r k) 0, Send_Req (ahead n r k) 0]" "tw = 3 * k + 2"
  using assms by (auto simp: bruck_timed_mem exchange_def)

lemma bruck_posts:
  assumes "k < rounds n"
  shows "(Irecv (behind n r k) 0 0, 3 * k) \<in> set (bruck_timed n r)" "(Isend Standard (ahead n r k) 0 0, 3 * k + 1) \<in> set (bruck_timed n r)"
    "(Wait_all [Recv_Req (behind n r k) 0, Send_Req (ahead n r k) 0], 3 * k + 2) \<in> set (bruck_timed n r)"
  using assms by (auto simp: bruck_timed_mem exchange_def)

lemma bruck_timed_ok: "timed_ok n (bruck_timed n)"
  unfolding timed_ok_def
proof (intro conjI allI impI ballI)
  fix r rs tw q
  assume r: "r < n" and w: "(Wait_all rs, tw) \<in> set (bruck_timed n r)" and q: "q \<in> set rs"
  obtain k where k: "k < rounds n" "rs = [Recv_Req (behind n r k) 0, Send_Req (ahead n r k) 0]" "tw = 3 * k + 2" using bruck_waits [OF w] .
  note m = behind_ahead [OF r k(1)]
  have "(Isend Standard r 0 0, 3 * k + 1) \<in> set (bruck_timed n (behind n r k))" "(Irecv r 0 0, 3 * k) \<in> set (bruck_timed n (ahead n r k))"
    using bruck_posts(1) [OF k(1), of "ahead n r k"] bruck_posts(2) [OF k(1), of "behind n r k"] m by simp_all
  then have "timed_match n (bruck_timed n) r tw (Recv_Req (behind n r k) 0)" "timed_match n (bruck_timed n) r tw (Send_Req (ahead n r k) 0)"
    using timed_recv [of "behind n r k" "3 * k" "bruck_timed n" r] timed_send [of _ "ahead n r k" "3 * k + 1" "bruck_timed n" r]
      bruck_posts(1,2) [OF k(1), of r] m(1,2) k(3) by auto
  then show "timed_match n (bruck_timed n) r tw q" using q k(2) by auto
qed (simp add: bruck_timed_def sorted_rounds)

text \<open>After \<open>k\<close> rounds a process has heard of the \<open>2 ^ k\<close> processes behind it.\<close>

lemma bruck_sends_late:
  assumes "r < n" "k < rounds n" "(Isend md r off cnt, t2) \<in> set (bruck_timed n (behind n r k))"
  shows "3 * k + 1 \<le> t2"
proof -
  obtain i where i: "i < rounds n" "(Isend md r off cnt, t2) \<in> set (exchange (ahead n (behind n r k) i) (behind n (behind n r k) i) (3 * i))"
    using assms(3) unfolding bruck_timed_mem by blast
  then have i: "i < rounds n" "ahead n (behind n r k) i = r" "t2 = 3 * i + 1" by (simp_all add: exchange_def)
  then have "i = k" using ahead_inj [OF behind_ahead(1) [OF assms(1,2)] i(1) assms(2)] behind_ahead(3) [OF assms(1,2)] by simp
  then show ?thesis using i(3) by simp
qed

lemma bruck_pos: "reached (bruck_timed n) s r \<tau> \<Longrightarrow> k < rounds n \<Longrightarrow> 3 * k < \<tau> \<Longrightarrow> 0 < pcs s r"
  using reached_pos [of "bruck_timed n" s r \<tau>] bruck_posts(1) by blast

lemma behind_diff:
  assumes "r < n" "k < rounds n" "2 ^ k \<le> d" "d \<le> n"
  shows "(behind n r k + n - (d - 2 ^ k)) mod n = (r + n - d) mod n"
proof -
  have l: "2 ^ k < n" using round_less assms(1,2) by auto
  have "(behind n r k + (n - (d - 2 ^ k))) mod n = (r + n - 2 ^ k + (n - (d - 2 ^ k))) mod n"
    by (simp only: behind_def mod_add_left_eq)
  also have "r + n - 2 ^ k + (n - (d - 2 ^ k)) = (r + n - d) + n" using l assms by linarith
  finally have "(behind n r k + (n - (d - 2 ^ k))) mod n = (r + n - d) mod n" by simp
  moreover have "behind n r k + (n - (d - 2 ^ k)) = behind n r k + n - (d - 2 ^ k)" using assms(4) by linarith
  ultimately show ?thesis by (simp only:)
qed

lemma bruck_hears:
  assumes inv: "net_inv (\<lambda>r. map fst (bruck_timed n r)) s"
  shows "k \<le> rounds n \<Longrightarrow> r < n \<Longrightarrow> reached (bruck_timed n) s r (3 * k) \<Longrightarrow> 0 < pcs s r \<Longrightarrow> d < 2 ^ k \<Longrightarrow> d \<le> n \<Longrightarrow> 0 < pcs s ((r + n - d) mod n)"
proof (induction k arbitrary: r d)
  case (Suc k)
  have k: "k < rounds n" using Suc.prems by simp
  show ?case
  proof (cases "d < 2 ^ k")
    case True
    then show ?thesis using Suc.IH Suc.prems reached_mono [OF Suc.prems(3), of "3 * k"] by simp
  next
    case False
    note m = behind_ahead [OF Suc.prems(2) k]
    have b: "reached (bruck_timed n) s (behind n r k) (3 * k + 1)"
      by (rule reached_heard [OF inv _ Suc.prems(3) bruck_posts(3) [OF k]])
        (use bruck_sends_late [OF Suc.prems(2) k] in \<open>auto simp: bruck_timed_def sorted_rounds\<close>)
    have "reached (bruck_timed n) s (behind n r k) (3 * k)" "0 < pcs s (behind n r k)"
      using bruck_pos [OF b k] reached_mono [OF b, of "3 * k"] by simp_all
    then have "0 < pcs s ((behind n r k + n - (d - 2 ^ k)) mod n)" using Suc.IH [of "behind n r k" "d - 2 ^ k"] k m(1) Suc.prems by simp
    then show ?thesis using behind_diff [OF Suc.prems(2) k, of d] False Suc.prems(6) by simp
  qed
qed simp

lemma ring_back:
  fixes n :: nat
  assumes "r < n" "q < n"
  shows "(r + n - (r + n - q) mod n) mod n = q"
proof (cases "q \<le> r")
  case True
  then have e: "r + n - q = (r - q) + n" "r + n - (r - q) = q + n" "r - q < n" using assms by simp_all
  have "(r + n - q) mod n = r - q" unfolding e(1) mod_add_self2 using e(3) by (rule mod_less)
  then show ?thesis using e(2) assms(2) by simp
next
  case False
  then have e: "r + n - q < n" "r + n - (r + n - q) = q" using assms by simp_all
  then show ?thesis using assms(2) by simp
qed

interpretation bruck: timed_barrier "\<lambda>n. 1 < n \<and> n \<le> 2 ^ 30" ompi_coll_tuned_barrier_intra_bruck bruck_timed
proof
  fix n r :: nat assume "1 < n \<and> n \<le> 2 ^ 30" "r < n"
  then show "ompi_coll_tuned_barrier_intra_bruck n r = Some (map fst (bruck_timed n r))"
    using bruck_prefix [of r n 0] by (simp add: ompi_coll_tuned_barrier_intra_bruck_def)
next
  fix n r q :: nat and s :: "'a net"
  assume n: "1 < n \<and> n \<le> 2 ^ 30" "net_inv (\<lambda>r. map fst (bruck_timed n r)) s" "r < n" "q < n" "pcs s r = length (bruck_timed n r)"
  have k: "0 < rounds n" "\<not> 2 ^ rounds n < n" using round_less [of n 0] round_less [of n "rounds n"] n(1) by auto
  have "reached (bruck_timed n) s r (3 * rounds n)" by (rule reached_returned) (simp add: n(5))
  moreover have "0 < pcs s r" using bruck_pos [OF calculation k(1)] k(1) by simp
  moreover have "(r + n - (r + n - q) mod n) mod n = q" using ring_back [OF n(3,4)] .
  moreover have "(r + n - q) mod n < n" using n(1) by simp
  then have "(r + n - q) mod n < 2 ^ rounds n" "(r + n - q) mod n \<le> n" using k(2) by linarith+
  ultimately show "0 < pcs s q" using bruck_hears [OF n(2), of "rounds n" r "(r + n - q) mod n"] n(3) k(2) by simp
qed (auto simp: bruck_timed_ok bruck_timed_mem exchange_def)

text \<open>For two processes the exchange is the only round.\<close>

lemma two_procs_bruck: "r < 2 \<Longrightarrow> ompi_coll_tuned_barrier_intra_bruck 2 r = Some (ompi_coll_tuned_barrier_intra_two_procs r)"
  by (simp add: less_2_cases_iff ompi_coll_tuned_barrier_intra_two_procs_def ompi_coll_tuned_barrier_intra_bruck_def
      bruck_loop.simps [of _ _ "Suc 0"] bruck_loop.simps [of _ _ 2]) auto

section \<open>Recursive doubling\<close>

definition flip :: "nat \<Rightarrow> nat \<Rightarrow> nat" where "flip r k = r XOR 2 ^ k"

lemma flip_flip [simp]: "flip (flip r k) k = r"
  by (simp add: flip_def xor.assoc)

lemma flip_less: "r < 2 ^ m \<Longrightarrow> k < m \<Longrightarrow> flip r k < 2 ^ m"
proof -
  assume "r < 2 ^ m" "k < m"
  then have "take_bit m r = r" "take_bit m (2 ^ k :: nat) = 2 ^ k" by (simp_all add: take_bit_nat_eq_self)
  then have "take_bit m (flip r k) = flip r k" by (simp add: flip_def)
  then show ?thesis by (metis take_bit_nat_less_exp)
qed

lemma flip_inj: "flip r i = flip r k \<Longrightarrow> i = k"
proof -
  assume "flip r i = flip r k"
  then have "r XOR flip r i = r XOR flip r k" by simp
  then have "(2 :: nat) ^ i = 2 ^ k" by (simp add: flip_def flip: xor.assoc)
  then show ?thesis by simp
qed

lemma flip_block: "q div 2 ^ Suc k = r div 2 ^ Suc k \<Longrightarrow> q div 2 ^ k = r div 2 ^ k \<or> q div 2 ^ k = flip r k div 2 ^ k"
proof -
  have "flip r k div 2 ^ k = drop_bit k r XOR 1" by (simp add: flip_def flip: drop_bit_eq_div) (simp add: drop_bit_eq_div)
  then have f: "flip r k div 2 ^ k = r div 2 ^ k XOR 1" by (simp add: drop_bit_eq_div)
  have "x = y \<or> x = y XOR 1" if "x div 2 = y div 2" for x y :: nat
    using that by (cases "even y"; cases "even x") (auto simp: xor_Suc_0_eq elim!: evenE oddE)
  moreover assume "q div 2 ^ Suc k = r div 2 ^ Suc k"
  then have "q div 2 ^ k div 2 = r div 2 ^ k div 2" by (simp only: power_Suc2 div_mult2_eq)
  ultimately show ?thesis using f by metis
qed

text \<open>
  The \<open>2 ^ K\<close> low ranks exchange in \<open>K\<close> rounds; a high rank tells its low partner that it has entered
  and waits for it to return.
\<close>

definition doubling_rounds :: "nat \<Rightarrow> nat \<Rightarrow> (pml_op \<times> nat) list" where
  "doubling_rounds r m = concat (map (\<lambda>k. exchange (flip r k) (flip r k) (3 * k + 3)) [0..<m])"

definition doubling_timed :: "nat \<Rightarrow> nat \<Rightarrow> nat \<Rightarrow> (pml_op \<times> nat) list" where
  "doubling_timed K n r =
     (if 2 ^ K \<le> r then
        [(Irecv (r - 2 ^ K) 0 0, 0), (Isend Standard (r - 2 ^ K) 0 0, 1), (Wait_all [Recv_Req (r - 2 ^ K) 0, Send_Req (r - 2 ^ K) 0], 3 * K + 6)]
      else (if r + 2 ^ K < n then [(Irecv (r + 2 ^ K) 0 0, 0), (Wait_all [Recv_Req (r + 2 ^ K) 0], 2)] else [])
        @ doubling_rounds r K
        @ (if r + 2 ^ K < n then [(Isend Synchronous (r + 2 ^ K) 0 0, 3 * K + 3), (Wait_all [Send_Req (r + 2 ^ K) 0], 3 * K + 4)] else []))"

lemma doubling_rounds_mem: "x \<in> set (doubling_rounds r m) \<longleftrightarrow> (\<exists>k < m. x \<in> set (exchange (flip r k) (flip r k) (3 * k + 3)))"
  by (auto simp: doubling_rounds_def)

lemma doubling_rounds_bounds: "x \<in> set (doubling_rounds r m) \<Longrightarrow> 3 \<le> snd x \<and> snd x < 3 * m + 3"
  by (auto simp: doubling_rounds_mem exchange_def)

lemma doubling_sorted: "sorted (map snd (doubling_timed K n r))"
proof -
  have "sorted (map snd (doubling_rounds r m))" for m
    by (induction m) (auto simp: doubling_rounds_def sorted_append exchange_def)
  then show ?thesis using doubling_rounds_bounds [of _ r K] by (fastforce simp: doubling_timed_def sorted_append)
qed

lemma doubling_mid:
  assumes "r < 2 ^ K" "k < K"
  shows "(Irecv (flip r k) 0 0, 3 * k + 3) \<in> set (doubling_timed K n r)" "(Isend Standard (flip r k) 0 0, 3 * k + 4) \<in> set (doubling_timed K n r)"
    "(Wait_all [Recv_Req (flip r k) 0, Send_Req (flip r k) 0], 3 * k + 5) \<in> set (doubling_timed K n r)"
proof -
  have "set (exchange (flip r k) (flip r k) (3 * k + 3)) \<subseteq> set (doubling_timed K n r)"
    using assms doubling_rounds_mem [of _ r K] by (auto simp: doubling_timed_def)
  then show "(Irecv (flip r k) 0 0, 3 * k + 3) \<in> set (doubling_timed K n r)" "(Isend Standard (flip r k) 0 0, 3 * k + 4) \<in> set (doubling_timed K n r)"
    "(Wait_all [Recv_Req (flip r k) 0, Send_Req (flip r k) 0], 3 * k + 5) \<in> set (doubling_timed K n r)"
    by (simp_all add: exchange_def add_ac)
qed

lemma doubling_ends:
  assumes "r < 2 ^ K" "r + 2 ^ K < n"
  shows "(Irecv (r + 2 ^ K) 0 0, 0) \<in> set (doubling_timed K n r)" "(Wait_all [Recv_Req (r + 2 ^ K) 0], 2) \<in> set (doubling_timed K n r)"
    "(Isend Synchronous (r + 2 ^ K) 0 0, 3 * K + 3) \<in> set (doubling_timed K n r)" "(Wait_all [Send_Req (r + 2 ^ K) 0], 3 * K + 4) \<in> set (doubling_timed K n r)"
  using assms by (simp_all add: doubling_timed_def)

lemma doubling_high:
  "(Irecv r 0 0, 0) \<in> set (doubling_timed K n (r + 2 ^ K))" "(Isend Standard r 0 0, 1) \<in> set (doubling_timed K n (r + 2 ^ K))"
  "(Wait_all [Recv_Req r 0, Send_Req r 0], 3 * K + 6) \<in> set (doubling_timed K n (r + 2 ^ K))"
  by (simp_all add: doubling_timed_def)

lemma doubling_waits:
  assumes "(Wait_all rs, tw) \<in> set (doubling_timed K n r)"
  obtains (mid) k where "r < 2 ^ K" "k < K" "rs = [Recv_Req (flip r k) 0, Send_Req (flip r k) 0]" "tw = 3 * k + 5"
    | (enter) "r < 2 ^ K" "r + 2 ^ K < n" "rs = [Recv_Req (r + 2 ^ K) 0]" "tw = 2"
    | (leave) "r < 2 ^ K" "r + 2 ^ K < n" "rs = [Send_Req (r + 2 ^ K) 0]" "tw = 3 * K + 4"
    | (high) l where "r = l + 2 ^ K" "rs = [Recv_Req l 0, Send_Req l 0]" "tw = 3 * K + 6"
proof (cases "2 ^ K \<le> r")
  case True
  then show ?thesis using assms high [of "r - 2 ^ K"] by (simp add: doubling_timed_def)
next
  case False
  then consider "(Wait_all rs, tw) \<in> set (doubling_rounds r K)" | "r + 2 ^ K < n" "rs = [Recv_Req (r + 2 ^ K) 0]" "tw = 2"
    | "r + 2 ^ K < n" "rs = [Send_Req (r + 2 ^ K) 0]" "tw = 3 * K + 4"
    using assms by (auto simp: doubling_timed_def split: if_splits)
  then show ?thesis
  proof cases
    case 1
    then obtain k where "k < K" "rs = [Recv_Req (flip r k) 0, Send_Req (flip r k) 0]" "tw = 3 * k + 5" by (auto simp: doubling_rounds_mem exchange_def)
    then show ?thesis using mid [of k] False by simp
  qed (use enter leave False in auto)
qed

lemma doubling_timed_ok:
  assumes "2 ^ K \<le> n" "n < 2 * 2 ^ K"
  shows "timed_ok n (doubling_timed K n)"
  unfolding timed_ok_def
proof (intro conjI allI impI ballI)
  fix r rs tw q
  assume r: "r < n" and w: "(Wait_all rs, tw) \<in> set (doubling_timed K n r)" and q: "q \<in> set rs"
  show "timed_match n (doubling_timed K n) r tw q" using w
  proof (cases rule: doubling_waits)
    case (mid k)
    have f: "flip r k < 2 ^ K" using flip_less mid(1,2) by blast
    have "timed_match n (doubling_timed K n) r tw (Recv_Req (flip r k) 0)" "timed_match n (doubling_timed K n) r tw (Send_Req (flip r k) 0)"
      using timed_recv [of "flip r k" "3 * k + 3" "doubling_timed K n" r Standard "3 * k + 4"] timed_send [of Standard "flip r k" "3 * k + 4" "doubling_timed K n" r "3 * k + 3"]
        doubling_mid(1,2) [OF mid(1,2), of n] doubling_mid(1,2) [OF f mid(2), of n] f assms(1) mid(4) by simp_all
    then show ?thesis using q mid(3) by auto
  next
    case enter
    have "timed_match n (doubling_timed K n) r tw (Recv_Req (r + 2 ^ K) 0)"
      by (rule timed_recv [OF doubling_ends(1) [OF enter(1,2)] doubling_high(2) enter(2)]) (simp_all add: enter(4))
    then show ?thesis using q enter(3) by auto
  next
    case leave
    have "timed_match n (doubling_timed K n) r tw (Send_Req (r + 2 ^ K) 0)"
      by (rule timed_send [OF doubling_ends(3) [OF leave(1,2)] doubling_high(1) leave(2)]) (simp_all add: leave(4))
    then show ?thesis using q leave(3) by auto
  next
    case (high l)
    have l: "l < 2 ^ K" "l + 2 ^ K < n" "l < n" using high(1) r assms by auto
    have "timed_match n (doubling_timed K n) (l + 2 ^ K) tw (Recv_Req l 0)"
      by (rule timed_recv [OF doubling_high(1) doubling_ends(3) [OF l(1,2)] l(3)]) (simp_all add: high(3))
    moreover have "timed_match n (doubling_timed K n) (l + 2 ^ K) tw (Send_Req l 0)"
      by (rule timed_send [OF doubling_high(2) doubling_ends(1) [OF l(1,2)] l(3)]) (simp_all add: high(3))
    ultimately show ?thesis using q high(1,2) by auto
  qed
qed (rule doubling_sorted)

section \<open>Recursive doubling: who has heard of whom\<close>

lemma doubling_send_late:
  assumes "r < 2 ^ K" "k < K" "(Isend md r off cnt, t2) \<in> set (doubling_timed K n (flip r k))"
  shows "3 * k + 4 \<le> t2"
proof -
  have f: "flip r k < 2 ^ K" using flip_less assms(1,2) by blast
  have "(Isend md r off cnt, t2) \<in> set (doubling_rounds (flip r k) K)" using assms(1,3) f by (auto simp: doubling_timed_def split: if_splits)
  then obtain i where i: "(Isend md r off cnt, t2) \<in> set (exchange (flip (flip r k) i) (flip (flip r k) i) (3 * i + 3))" unfolding doubling_rounds_mem by blast
  then have "flip (flip r k) i = flip (flip r k) k" "t2 = 3 * i + 4" by (simp_all add: exchange_def)
  then show ?thesis using flip_inj by fastforce
qed

lemma doubling_enter:
  assumes "net_inv (\<lambda>r. map fst (doubling_timed K n r)) s" "r < 2 ^ K" "r + 2 ^ K < n" "reached (doubling_timed K n) s r 3"
  shows "0 < pcs s (r + 2 ^ K)"
proof -
  have "reached (doubling_timed K n) s (r + 2 ^ K) 1"
    by (rule reached_heard [OF assms(1) doubling_sorted assms(4) doubling_ends(2) [OF assms(2,3)]]) (auto simp: doubling_timed_def)
  then show ?thesis using reached_pos [of "doubling_timed K n" s _ 1] doubling_high(1) by fastforce
qed

lemma doubling_pos: "r < 2 ^ K \<Longrightarrow> k < K \<Longrightarrow> reached (doubling_timed K n) s r (3 * k + 4) \<Longrightarrow> 0 < pcs s r"
  using reached_pos [of "doubling_timed K n" s r "3 * k + 4"] doubling_mid(1) [of r K k n] by simp

text \<open>After \<open>k\<close> rounds a low rank has heard of its block of \<open>2 ^ k\<close> ranks and of their high partners.\<close>

lemma doubling_hears:
  assumes inv: "net_inv (\<lambda>r. map fst (doubling_timed K n r)) s"
  shows "k \<le> K \<Longrightarrow> r < 2 ^ K \<Longrightarrow> reached (doubling_timed K n) s r (3 * k + 3) \<Longrightarrow> 0 < pcs s r \<Longrightarrow> q < 2 ^ K \<Longrightarrow> q div 2 ^ k = r div 2 ^ k
    \<Longrightarrow> 0 < pcs s q \<and> (q + 2 ^ K < n \<longrightarrow> 0 < pcs s (q + 2 ^ K))"
proof (induction k arbitrary: r)
  case 0
  then show ?case using doubling_enter [OF inv, of r] by simp
next
  case (Suc k)
  have k: "k < K" using Suc.prems by simp
  show ?case
  proof (cases "q div 2 ^ k = r div 2 ^ k")
    case True
    then show ?thesis using Suc.IH [of r] Suc.prems reached_mono [OF Suc.prems(3), of "3 * k + 3"] by simp
  next
    case False
    have f: "flip r k < 2 ^ K" using flip_less Suc.prems(2) k by blast
    have b: "reached (doubling_timed K n) s (flip r k) (3 * k + 4)"
      by (rule reached_heard [OF inv doubling_sorted Suc.prems(3) doubling_mid(3) [OF Suc.prems(2) k]])
        (use doubling_send_late [OF Suc.prems(2) k] in auto)
    then have "reached (doubling_timed K n) s (flip r k) (3 * k + 3)" "0 < pcs s (flip r k)"
      using doubling_pos [OF f k b] reached_mono [OF b, of "3 * k + 3"] by simp_all
    then show ?thesis using Suc.IH [of "flip r k"] k f Suc.prems(5) flip_block [OF Suc.prems(6)] False by simp
  qed
qed

lemma doubling_hears_all:
  assumes "2 ^ K \<le> n" "n < 2 * 2 ^ K" "0 < K" "net_inv (\<lambda>r. map fst (doubling_timed K n r)) s" "r < n" "q < n" "pcs s r = length (doubling_timed K n r)"
  shows "0 < pcs s q"
proof -
  have low: "0 < pcs s q" if "l < 2 ^ K" "reached (doubling_timed K n) s l (3 * K + 3)" for l
  proof -
    have "0 < pcs s l" using doubling_pos [OF that(1) assms(3), of n s] reached_mono [OF that(2), of 4] assms(3) by simp
    then have h: "0 < pcs s x \<and> (x + 2 ^ K < n \<longrightarrow> 0 < pcs s (x + 2 ^ K))" if "x < 2 ^ K" for x
      using doubling_hears [OF assms(4) order_refl \<open>l < 2 ^ K\<close> \<open>reached _ s l _\<close>] that \<open>l < 2 ^ K\<close> by simp
    show ?thesis
    proof (cases "q < 2 ^ K")
      case False
      then show ?thesis using h [of "q - 2 ^ K"] assms(2,6) by simp
    qed (use h in simp)
  qed
  have end_r: "reached (doubling_timed K n) s r \<tau>" for \<tau> by (rule reached_returned) (simp add: assms(7))
  show ?thesis
  proof (cases "r < 2 ^ K")
    case False
    then obtain l where r: "r = l + 2 ^ K" using le_Suc_ex by (metis add.commute not_less)
    then have l: "l < 2 ^ K" using assms(2,5) by simp
    have "reached (doubling_timed K n) s l (3 * K + 3)"
    proof (rule reached_heard [OF assms(4) doubling_sorted end_r [unfolded r] doubling_high(3) lessI])
      fix md off cnt t2 assume "(Isend md (l + 2 ^ K) off cnt, t2) \<in> set (doubling_timed K n l)"
      then show "3 * K + 3 \<le> t2" using l flip_less [OF l]
        by (auto simp: doubling_timed_def doubling_rounds_mem exchange_def split: if_splits) (metis not_add_less2)+
    qed simp
    then show ?thesis using low l by blast
  qed (use low end_r in blast)
qed

lemma doubling_prefix:
  assumes "r < 2 ^ K" "K \<le> 30" "\<forall>k < K. recvs (flip r k) h = [] \<and> sends (flip r k) h = []"
  shows "k \<le> K \<Longrightarrow> doubling_loop r (2 ^ K) (2 ^ k) (h @ map fst (doubling_rounds r k)) = Some (h @ map fst (doubling_rounds r K))"
proof (induction "K - k" arbitrary: k)
  case 0
  then show ?case by (subst doubling_loop.simps) simp
next
  case (Suc d)
  let ?h = "h @ map fst (doubling_rounds r k)"
  have k: "k < K" using Suc.hyps(2) by simp
  have "(2 :: nat) ^ k < 2 ^ 30" using k assms(2) by (intro power_strict_increasing) simp_all
  then have pow: "\<not> (2 :: nat) ^ 30 \<le> 2 ^ k" by linarith
  have f: "flip r k < 2 ^ K" "flip r k = r XOR 2 ^ k" using flip_less [OF assms(1) k] by (simp_all add: flip_def)
  have "recvs (flip r k) (map fst (doubling_rounds r k)) = []" "sends (flip r k) (map fst (doubling_rounds r k)) = []"
    unfolding recvs_Nil sends_Nil by (auto simp: doubling_rounds_mem exchange_def dest: flip_inj)
  then have "ompi_coll_tuned_sendrecv_zero (flip r k) (flip r k) ?h = h @ map fst (doubling_rounds r (Suc k))"
    using sendrecv_exchange [where t = "3 * k + 3", of "flip r k" ?h "flip r k"] assms(3) k by (simp add: doubling_rounds_def)
  then have "doubling_loop r (2 ^ K) (2 ^ k) ?h = doubling_loop r (2 ^ K) (2 ^ Suc k) (h @ map fst (doubling_rounds r (Suc k)))"
    using k f pow by (subst doubling_loop.simps) (simp add: push_bit_eq_mult mult.commute)
  then show ?case using Suc.hyps(1) [of "Suc k"] Suc.hyps(2) k by simp
qed

lemma bl_pred:
  assumes "1 < n"
  obtains K where "bl n = Suc K" "0 < K" "2 ^ K \<le> n" "n < 2 * 2 ^ K"
proof -
  obtain K where K: "bl n = Suc K" using bl_bounds [of n] assms by (cases "bl n") auto
  moreover have "0 < K" using bl_bounds [of n] assms K by (cases K) auto
  ultimately show ?thesis using that bl_bounds [of n] assms by auto
qed

lemma doubling_eq:
  assumes "1 < n" "n < 2 ^ 30" "r < n"
  shows "ompi_coll_tuned_barrier_intra_recursivedoubling n r = Some (map fst (doubling_timed (bl n - 1) n r))"
proof -
  obtain K where K: "2 ^ K \<le> n" "n < 2 * 2 ^ K" "bl n = Suc K" using bl_pred [OF assms(1)] .
  have K30: "K \<le> 30" using bl_mono_power [OF assms(2)] K(3) by simp
  have adj: "opal_next_poweroftwo (int n) = Some (2 ^ Suc K)" "nat (drop_bit 1 (2 ^ Suc K)) = 2 ^ K"
    using next_poweroftwo_eq [OF assms(2)] K(3) by (simp_all add: drop_bit_eq_div nat_power_eq)
  let ?h = "if r + 2 ^ K < n then recv_zero (r + 2 ^ K) [] else []"
  have loop: "doubling_loop r (2 ^ K) 1 ?h = Some (?h @ map fst (doubling_rounds r K))" if "r < 2 ^ K"
    using doubling_prefix [OF that K30, of ?h 0] flip_less [OF that] by (fastforce simp: recv_zero_def doubling_rounds_def)
  have low: "r < n - 2 ^ K \<longleftrightarrow> r + 2 ^ K < n" using K(1) by linarith
  show ?thesis
  proof (cases "r < 2 ^ K")
    case True
    then have "sends (r + 2 ^ K) (map fst (doubling_rounds r K)) = []" unfolding sends_Nil
      using flip_less [OF True] by (fastforce simp: doubling_rounds_mem exchange_def)
    then show ?thesis using True loop K(1,2) unfolding ompi_coll_tuned_barrier_intra_recursivedoubling_def adj bind.bind_lunit Let_def
      by (auto simp: low send_zero_def recv_zero_def doubling_timed_def Let_def K(3))
  next
    case False
    then show ?thesis using K(1,2) assms(3) unfolding ompi_coll_tuned_barrier_intra_recursivedoubling_def adj bind.bind_lunit Let_def
      by (auto simp: low ompi_coll_tuned_sendrecv_zero_def doubling_timed_def Let_def K(3))
  qed
qed

interpretation doubling: timed_barrier "\<lambda>n. 1 < n \<and> n < 2 ^ 30" ompi_coll_tuned_barrier_intra_recursivedoubling "\<lambda>n. doubling_timed (bl n - 1) n"
proof
  fix n r :: nat assume "1 < n \<and> n < 2 ^ 30" "r < n"
  then show "ompi_coll_tuned_barrier_intra_recursivedoubling n r = Some (map fst (doubling_timed (bl n - 1) n r))" by (intro doubling_eq) simp_all
next
  fix n :: nat assume "1 < n \<and> n < 2 ^ 30"
  then have K: "2 ^ (bl n - 1) \<le> n" "n < 2 * 2 ^ (bl n - 1)" "0 < bl n - 1" by (metis bl_pred diff_Suc_1)+
  then show "timed_ok n (doubling_timed (bl n - 1) n)" using doubling_timed_ok by blast
  show "0 < pcs s q" if "net_inv (\<lambda>r. map fst (doubling_timed (bl n - 1) n r)) s" "r < n" "q < n" "pcs s r = length (doubling_timed (bl n - 1) n r)"
    for r q and s :: "'a net"
    using doubling_hears_all [OF K that] .
qed (auto simp: doubling_timed_def doubling_rounds_mem exchange_def split: if_splits)

section \<open>The barriers synchronise\<close>

lemma barrier_two_procs: "barrier_ok 2 ompi_coll_tuned_barrier_intra_two_procs bs"
proof -
  obtain p where p: "\<forall>r < 2. ompi_coll_tuned_barrier_intra_bruck 2 r = Some (p r)" "barrier_ok 2 p bs"
    using bruck.barrier [of 2 bs] by auto
  then have "\<forall>r < 2. p r = ompi_coll_tuned_barrier_intra_two_procs r" using two_procs_bruck by simp
  from barrier_cong [OF this p(2)] show ?thesis .
qed

text \<open>Powers of two are recognised, so that they get recursive doubling.\<close>

lemma two_ones_power: "\<not> two_ones_loop (2 ^ k) False"
proof (induction k)
  case 0
  show ?case by (simp add: two_ones_loop.simps drop_bit_eq_div)
next
  case (Suc k)
  then show ?case by (subst two_ones_loop.simps) (simp add: drop_bit_eq_div and_one_eq)
qed

text \<open>C8: the default barrier, Bruck's algorithm unless the number of processes is two or a power of two: every run ends with all processes returned, so it cannot deadlock whatever the layer below buffers or delays, and no process returns before every other one has entered.\<close>

theorem barrier_default_synchronises:
  assumes "1 < n" "n < 2 ^ 30"
  shows "\<exists>p. (\<forall>r < n. ompi_coll_tuned_barrier_intra_dec_fixed n r = Some (p r)) \<and> barrier_ok n p bs"
  using bruck.barrier [of n bs] doubling.barrier [of n bs] barrier_two_procs assms
  by (cases "n = 2"; cases "two_ones_loop n False") (auto simp: ompi_coll_tuned_barrier_intra_dec_fixed_def)

theorem barrier_default_synchronises_witness:
  "\<exists>p. (\<forall>r < 5. ompi_coll_tuned_barrier_intra_dec_fixed 5 r = Some (p r)) \<and> barrier_ok 5 p (\<lambda>r. [] :: nat list)"
  using barrier_default_synchronises [of 5 "\<lambda>r. [] :: nat list"] by simp

text \<open>C4: the recursive doubling barrier, for any number of processes below \<open>2 ^ 30\<close>, with the extra steps for those beyond the largest power of two: every run ends with all processes returned, and no process returns before every other one has entered.\<close>

theorem barrier_doubling_synchronises:
  assumes "1 < n" "n < 2 ^ 30"
  shows "\<exists>p. (\<forall>r < n. ompi_coll_tuned_barrier_intra_recursivedoubling n r = Some (p r)) \<and> barrier_ok n p bs"
  using doubling.barrier [of n bs] assms by blast

theorem barrier_doubling_synchronises_witness:
  "\<exists>p. (\<forall>r < 6. ompi_coll_tuned_barrier_intra_recursivedoubling 6 r = Some (p r)) \<and> barrier_ok 6 p (\<lambda>r. [] :: nat list)"
  using barrier_doubling_synchronises [of 6 "\<lambda>r. [] :: nat list"] by simp

text \<open>The exchange of a barrier loses errors: when exactly one of its two requests has failed, which is when the wait returns \<^verbatim>\<open>MPI_ERR_IN_STATUS\<close>, the search for the code of the error picks the status of the request that has succeeded, and the exchange returns success.\<close>

lemma sendrecv_zero_hides_error:
  assumes "(e0 = MPI_SUCCESS) \<noteq> (e1 = MPI_SUCCESS)"
  shows "sendrecv_zero_rc MPI_SUCCESS MPI_SUCCESS MPI_ERR_IN_STATUS [e0, e1] = Some MPI_SUCCESS"
  using assms by (auto simp: sendrecv_zero_rc_def sendrecv_error_def aget_def MPI_ERR_IN_STATUS_def MPI_SUCCESS_def)

end
