(* ===== verification/Coll_Barrier_Tree.thy ===== *)
theory Coll_Barrier_Tree
  imports Coll_Barrier
begin

text \<open>
  The tree barrier of \<^verbatim>\<open>coll_tuned_barrier.c\<close>: up a binomial tree whose parent clears the lowest bit of
  the rank, and down again.
\<close>

section \<open>The barrier\<close>

definition tree_up :: "nat \<Rightarrow> nat \<Rightarrow> nat \<Rightarrow> pml_op list \<Rightarrow> pml_op list" where
  "tree_up rank sz jump h =
     (let partner = rank XOR jump in
      if partner AND (jump - 1) = 0 \<and> partner < sz then
        if partner > rank then recv_zero partner h
        else if partner < rank then send_zero Standard partner h
        else h
      else h)"

function tree_up_loop :: "nat \<Rightarrow> nat \<Rightarrow> nat \<Rightarrow> nat \<Rightarrow> pml_op list \<Rightarrow> pml_op list option" where
  "tree_up_loop rank sz depth jump h =
     (if jump < depth then
        if jump = 0 \<or> jump \<ge> 2 ^ 30 then None else tree_up_loop rank sz depth (push_bit 1 jump) (tree_up rank sz jump h)
      else Some h)"
  by pat_completeness auto
termination
  by (relation "measure (\<lambda>(rank, sz, depth, jump, h). depth - jump)") (auto simp: push_bit_eq_mult)

definition tree_down :: "nat \<Rightarrow> nat \<Rightarrow> nat \<Rightarrow> pml_op list \<Rightarrow> pml_op list" where
  "tree_down rank sz jump h =
     (let partner = rank XOR jump in
      if partner AND (jump - 1) = 0 \<and> partner < sz then
        if partner > rank then send_zero Standard partner h
        else if partner < rank then recv_zero partner h
        else h
      else h)"

function tree_down_loop :: "nat \<Rightarrow> nat \<Rightarrow> nat \<Rightarrow> pml_op list \<Rightarrow> pml_op list" where
  "tree_down_loop rank sz jump h =
     (if jump > 0 then tree_down_loop rank sz (drop_bit 1 jump) (tree_down rank sz jump h) else h)"
  by pat_completeness auto
termination
  by (relation "measure (\<lambda>(rank, sz, jump, h). jump)") (auto simp: drop_bit_eq_div)

declare tree_up_loop.simps [simp del] tree_down_loop.simps [simp del]

definition ompi_coll_tuned_barrier_intra_tree :: "nat \<Rightarrow> nat \<Rightarrow> pml_op list option" where
  "ompi_coll_tuned_barrier_intra_tree sz rank = do {
     depth \<leftarrow> map_option nat (opal_next_poweroftwo_inclusive (int sz));
     h \<leftarrow> tree_up_loop rank sz depth 1 [];
     Some (tree_down_loop rank sz (drop_bit 1 depth) h)
   }"

section \<open>The calls with their times\<close>

text \<open>
  In round \<open>j\<close> the multiples of \<open>2 ^ j\<close> take part: an even one with the next, an odd one with the
  previous multiple.
\<close>

definition with_child :: "nat \<Rightarrow> nat \<Rightarrow> nat \<Rightarrow> bool" where
  "with_child n r j \<longleftrightarrow> 2 ^ Suc j dvd r \<and> r + 2 ^ j < n"

definition with_parent :: "nat \<Rightarrow> nat \<Rightarrow> bool" where
  "with_parent r j \<longleftrightarrow> 2 ^ j dvd r \<and> odd (r div 2 ^ j)"

definition recv_at :: "nat \<Rightarrow> nat \<Rightarrow> (pml_op \<times> nat) list" where
  "recv_at p t = [(Irecv p 0 0, t), (Wait_all [Recv_Req p 0], t + 1)]"

definition send_at :: "nat \<Rightarrow> nat \<Rightarrow> (pml_op \<times> nat) list" where
  "send_at p t = [(Isend Standard p 0 0, t), (Wait_all [Send_Req p 0], t + 1)]"

definition up_at :: "nat \<Rightarrow> nat \<Rightarrow> nat \<Rightarrow> (pml_op \<times> nat) list" where
  "up_at n r j = (if with_child n r j then recv_at (r + 2 ^ j) (3 * j) else if with_parent r j then send_at (r - 2 ^ j) (3 * j) else [])"

definition down_at :: "nat \<Rightarrow> nat \<Rightarrow> nat \<Rightarrow> nat \<Rightarrow> (pml_op \<times> nat) list" where
  "down_at n r t j = (if with_child n r j then send_at (r + 2 ^ j) t else if with_parent r j then recv_at (r - 2 ^ j) t else [])"

definition ups :: "nat \<Rightarrow> nat \<Rightarrow> nat \<Rightarrow> (pml_op \<times> nat) list" where
  "ups n r m = concat (map (up_at n r) [0..<m])"

definition downs :: "nat \<Rightarrow> nat \<Rightarrow> nat \<Rightarrow> nat \<Rightarrow> (pml_op \<times> nat) list" where
  "downs n r K m = concat (map (\<lambda>i. down_at n r (3 * (K + i)) (K - 1 - i)) [0..<m])"

definition tree_timed :: "nat \<Rightarrow> nat \<Rightarrow> nat \<Rightarrow> (pml_op \<times> nat) list" where
  "tree_timed K n r = ups n r K @ downs n r K K"

lemma with_parent_child:
  "with_parent r j \<Longrightarrow> r < n \<Longrightarrow> 2 ^ j \<le> r \<and> with_child n (r - 2 ^ j) j"
  "with_child n r j \<Longrightarrow> with_parent (r + 2 ^ j) j"
proof -
  assume "with_parent r j" "r < n"
  then obtain q where q: "r = 2 ^ j * q" "odd q" by (auto simp: with_parent_def elim: dvdE)
  then obtain m where "q = 2 * m + 1" by (auto elim: oddE)
  then have r: "r = 2 ^ Suc j * m + 2 ^ j" using q by (simp add: algebra_simps)
  then have "r - 2 ^ j = 2 ^ Suc j * m" by simp
  then show "2 ^ j \<le> r \<and> with_child n (r - 2 ^ j) j" using r \<open>r < n\<close> unfolding with_child_def by simp
next
  assume "with_child n r j"
  then obtain m where "r = 2 ^ Suc j * m" by (auto simp: with_child_def elim: dvdE)
  then have "r + 2 ^ j = 2 ^ j * (2 * m + 1)" by (simp add: algebra_simps)
  then show "with_parent (r + 2 ^ j) j" unfolding with_parent_def by simp
qed

lemma not_both: "with_child n r j \<Longrightarrow> \<not> with_parent r j"
  by (auto simp: with_child_def with_parent_def elim!: dvdE)

lemma dvd_cases: "2 ^ j dvd r \<Longrightarrow> 2 ^ Suc j dvd r \<or> with_parent r j" for r :: nat
  by (auto simp: with_parent_def elim!: dvdE)

lemma flip_partner:
  "2 ^ Suc j dvd r \<Longrightarrow> flip r j = r + 2 ^ j" "with_parent r j \<Longrightarrow> flip r j = r - 2 ^ j"
proof -
  have x: "(2 ^ j * (2 * m)) XOR 2 ^ j = 2 ^ j * (2 * m + 1)" for m :: nat
  proof -
    have "int ((2 ^ j * (2 * m)) XOR 2 ^ j) = int (2 ^ j * (2 * m + 1))"
      using xor_even(1) [of j m] by (simp add: of_nat_xor_eq)
    then show ?thesis by (simp only: of_nat_eq_iff)
  qed
  show "flip r j = r + 2 ^ j" if "2 ^ Suc j dvd r"
  proof -
    obtain m where "r = 2 ^ Suc j * m" using \<open>2 ^ Suc j dvd r\<close> by (rule dvdE)
    then show ?thesis using x [of m] by (simp add: flip_def algebra_simps)
  qed
  show "flip r j = r - 2 ^ j" if "with_parent r j"
  proof -
    obtain q where q: "r = 2 ^ j * q" "odd q" using \<open>with_parent r j\<close> by (auto simp: with_parent_def elim: dvdE)
    then obtain m where "q = 2 * m + 1" by (auto elim: oddE)
    then have "r = flip (2 ^ j * (2 * m)) j" "r - 2 ^ j = 2 ^ j * (2 * m)" using q x [of m] by (simp_all add: flip_def algebra_simps)
    then show ?thesis by (metis flip_flip)
  qed
qed

lemma partner_low: "flip r j AND (2 ^ j - 1) = 0 \<longleftrightarrow> 2 ^ j dvd r"
proof -
  have "flip r j AND (2 ^ j - 1) = take_bit j (flip r j)" by (simp add: take_bit_eq_mask mask_eq_exp_minus_1)
  also have "\<dots> = take_bit j r" by (simp add: flip_def)
  finally show ?thesis by (simp add: take_bit_eq_mod dvd_eq_mod_eq_0)
qed

text \<open>What a round does, by the part the process takes in it.\<close>

lemma tree_round:
  assumes "r < n"
  shows "tree_up r n (2 ^ j) h = (if with_child n r j then recv_zero (r + 2 ^ j) h else if with_parent r j then send_zero Standard (r - 2 ^ j) h else h)"
    "tree_down r n (2 ^ j) h = (if with_child n r j then send_zero Standard (r + 2 ^ j) h else if with_parent r j then recv_zero (r - 2 ^ j) h else h)"
proof -
  consider (even) "2 ^ Suc j dvd r" | (odd) "with_parent r j" "\<not> with_child n r j" | (none) "\<not> 2 ^ j dvd r"
    using dvd_cases [of j r] not_both by (auto simp: with_child_def)
  then have "tree_up r n (2 ^ j) h = (if with_child n r j then recv_zero (r + 2 ^ j) h else if with_parent r j then send_zero Standard (r - 2 ^ j) h else h)
    \<and> tree_down r n (2 ^ j) h = (if with_child n r j then send_zero Standard (r + 2 ^ j) h else if with_parent r j then recv_zero (r - 2 ^ j) h else h)"
  proof cases
    case even
    then have "2 ^ j dvd r" "\<not> with_parent r j" by (auto simp: with_parent_def elim!: dvdE)
    then show ?thesis using even flip_partner(1) [OF even] partner_low [of r j]
      by (auto simp: tree_up_def tree_down_def with_child_def Let_def simp flip: flip_def)
  next
    case odd
    then have "2 ^ j dvd r" "0 < (2 :: nat) ^ j" "2 ^ j \<le> r" using with_parent_child(1) [OF odd(1) assms] by (simp_all add: with_parent_def)
    then show ?thesis using odd flip_partner(2) [OF odd(1)] partner_low [of r j] assms
      by (auto simp: tree_up_def tree_down_def Let_def simp flip: flip_def)
  next
    case none
    then have "\<not> with_child n r j" "\<not> with_parent r j" by (auto simp: with_child_def with_parent_def dest: power_le_dvd [of _ _ _ j])
    then show ?thesis using none partner_low [of r j] by (simp add: tree_up_def tree_down_def Let_def flip: flip_def)
  qed
  then show "tree_up r n (2 ^ j) h = (if with_child n r j then recv_zero (r + 2 ^ j) h else if with_parent r j then send_zero Standard (r - 2 ^ j) h else h)"
    "tree_down r n (2 ^ j) h = (if with_child n r j then send_zero Standard (r + 2 ^ j) h else if with_parent r j then recv_zero (r - 2 ^ j) h else h)"
    by simp_all
qed

lemma zero_timed:
  "recvs p h = [] \<Longrightarrow> recv_zero p h = h @ map fst (recv_at p t)"
  "sends p h = [] \<Longrightarrow> send_zero Standard p h = h @ map fst (send_at p t)"
  by (simp_all add: recv_zero_def send_zero_def recv_at_def send_at_def)

lemma ups_mem: "x \<in> set (ups n r m) \<longleftrightarrow> (\<exists>j < m. x \<in> set (up_at n r j))"
  and downs_mem: "x \<in> set (downs n r K m) \<longleftrightarrow> (\<exists>i < m. x \<in> set (down_at n r (3 * (K + i)) (K - 1 - i)))"
  by (auto simp: ups_def downs_def)

lemma at_mem:
  "(Irecv p off cnt, t) \<in> set (up_at n r j) \<longleftrightarrow> with_child n r j \<and> p = r + 2 ^ j \<and> off = 0 \<and> cnt = 0 \<and> t = 3 * j"
  "(Isend md p off cnt, t) \<in> set (up_at n r j) \<longleftrightarrow> with_parent r j \<and> p = r - 2 ^ j \<and> md = Standard \<and> off = 0 \<and> cnt = 0 \<and> t = 3 * j"
  "(Irecv p off cnt, t) \<in> set (down_at n r u j) \<longleftrightarrow> with_parent r j \<and> p = r - 2 ^ j \<and> off = 0 \<and> cnt = 0 \<and> t = u"
  "(Isend md p off cnt, t) \<in> set (down_at n r u j) \<longleftrightarrow> with_child n r j \<and> p = r + 2 ^ j \<and> md = Standard \<and> off = 0 \<and> cnt = 0 \<and> t = u"
  using not_both by (auto simp: up_at_def down_at_def recv_at_def send_at_def)

lemma parent_inj: "with_parent r i \<Longrightarrow> with_parent r j \<Longrightarrow> r < n \<Longrightarrow> r - 2 ^ i = r - 2 ^ j \<Longrightarrow> i = j"
proof -
  assume "with_parent r i" "with_parent r j" "r < n" "r - 2 ^ i = r - 2 ^ j"
  then have "(2 :: nat) ^ i = 2 ^ j" using with_parent_child(1) [of r i n] with_parent_child(1) [of r j n] by linarith
  then show ?thesis by simp
qed

lemma parent_child_peers: "with_parent r i \<Longrightarrow> r < n \<Longrightarrow> r - 2 ^ i \<noteq> r + 2 ^ j"
  using with_parent_child(1) [of r i n] by (metis add_pos_pos diff_less le_add1 less_le_trans linorder_not_less order_refl zero_less_numeral zero_less_power)

lemma ups_fresh:
  assumes "r < n"
  shows "recvs (r + 2 ^ j) (map fst (ups n r j)) = []" "with_parent r j \<Longrightarrow> sends (r - 2 ^ j) (map fst (ups n r j)) = []"
proof -
  show "recvs (r + 2 ^ j) (map fst (ups n r j)) = []" unfolding recvs_Nil by (auto simp: ups_mem at_mem)
  show "sends (r - 2 ^ j) (map fst (ups n r j)) = []" if p: "with_parent r j" unfolding sends_Nil
  proof (intro allI notI)
    fix md off cnt assume "Isend md (r - 2 ^ j) off cnt \<in> set (map fst (ups n r j))"
    then obtain i where "i < j" "with_parent r i" "r - 2 ^ j = r - 2 ^ i" by (auto simp: ups_mem at_mem)
    then show False using parent_inj [OF p _ assms] by blast
  qed
qed

lemma downs_fresh:
  assumes "r < n" "i < K"
  defines "h \<equiv> map fst (ups n r K @ downs n r K i)"
  shows "sends (r + 2 ^ (K - 1 - i)) h = []" "with_parent r (K - 1 - i) \<Longrightarrow> recvs (r - 2 ^ (K - 1 - i)) h = []"
proof -
  have ne: "K - 1 - x \<noteq> K - 1 - i" if "x < i" for x using that assms(2) by linarith
  show "sends (r + 2 ^ (K - 1 - i)) h = []" unfolding sends_Nil h_def
  proof (intro allI notI)
    fix md off cnt assume "Isend md (r + 2 ^ (K - 1 - i)) off cnt \<in> set (map fst (ups n r K @ downs n r K i))"
    then consider j where "with_parent r j" "r + 2 ^ (K - 1 - i) = r - 2 ^ j" | x where "x < i" "K - 1 - x = K - 1 - i"
      by (auto simp: ups_mem downs_mem at_mem)
    then show False using parent_child_peers [OF _ assms(1)] ne by cases metis+
  qed
  show "recvs (r - 2 ^ (K - 1 - i)) h = []" if p: "with_parent r (K - 1 - i)" unfolding recvs_Nil h_def
  proof (intro allI notI)
    fix off cnt assume "Irecv (r - 2 ^ (K - 1 - i)) off cnt \<in> set (map fst (ups n r K @ downs n r K i))"
    then consider j where "r - 2 ^ (K - 1 - i) = r + 2 ^ j" | x where "x < i" "with_parent r (K - 1 - x)" "r - 2 ^ (K - 1 - i) = r - 2 ^ (K - 1 - x)"
      by (auto simp: ups_mem downs_mem at_mem)
    then show False using parent_child_peers [OF p assms(1)] parent_inj [OF p _ assms(1)] ne by cases metis+
  qed
qed

lemma tree_up_loop_eq:
  assumes "r < n" "K \<le> 30"
  shows "j \<le> K \<Longrightarrow> tree_up_loop r n (2 ^ K) (2 ^ j) (map fst (ups n r j)) = Some (map fst (ups n r K))"
proof (induction "K - j" arbitrary: j)
  case 0
  then show ?case by (subst tree_up_loop.simps) simp
next
  case (Suc d)
  have j: "j < K" using Suc.hyps(2) by simp
  have "(2 :: nat) ^ j < 2 ^ 30" using j assms(2) by (intro power_strict_increasing) simp_all
  then have pow: "\<not> (2 :: nat) ^ 30 \<le> 2 ^ j" by linarith
  have "tree_up r n (2 ^ j) (map fst (ups n r j)) = map fst (ups n r (Suc j))"
    using ups_fresh [OF assms(1), of j] zero_timed [where t = "3 * j"] not_both
    by (auto simp: tree_round(1) [OF assms(1)] ups_def up_at_def)
  then have "tree_up_loop r n (2 ^ K) (2 ^ j) (map fst (ups n r j)) = tree_up_loop r n (2 ^ K) (2 ^ Suc j) (map fst (ups n r (Suc j)))"
    using j pow by (subst tree_up_loop.simps) (simp add: push_bit_eq_mult mult.commute)
  then show ?case using Suc.hyps(1) [of "Suc j"] Suc.hyps(2) j by simp
qed

lemma tree_down_loop_eq:
  assumes "r < n"
  shows "i \<le> K \<Longrightarrow> tree_down_loop r n (2 ^ (K - i) div 2) (map fst (ups n r K @ downs n r K i)) = map fst (tree_timed K n r)"
proof (induction "K - i" arbitrary: i)
  case 0
  then show ?case by (subst tree_down_loop.simps) (simp add: tree_timed_def)
next
  case (Suc d)
  have i: "i < K" "K - i = Suc (K - 1 - i)" "K - Suc i = K - 1 - i" using Suc.hyps(2) by simp_all
  let ?h = "map fst (ups n r K @ downs n r K i)"
  have "tree_down r n (2 ^ (K - 1 - i)) ?h = map fst (ups n r K @ downs n r K (Suc i))"
    using downs_fresh [OF assms i(1)] zero_timed [where t = "3 * (K + i)"] not_both
    by (auto simp: tree_round(2) [OF assms] downs_def down_at_def)
  then have "tree_down_loop r n (2 ^ (K - i) div 2) ?h = tree_down_loop r n (2 ^ (K - Suc i) div 2) (map fst (ups n r K @ downs n r K (Suc i)))"
    unfolding i(2,3) by (subst tree_down_loop.simps) (simp add: drop_bit_eq_div)
  moreover have "d = K - Suc i" "Suc i \<le> K" using Suc.hyps(2) by linarith+
  ultimately show ?case using Suc.hyps(1) [of "Suc i"] by simp
qed

lemma tree_eq:
  assumes "1 < n" "n \<le> 2 ^ 30" "r < n"
  shows "ompi_coll_tuned_barrier_intra_tree n r = Some (map fst (tree_timed (rounds n) n r))"
proof -
  have "n - 1 < 2 ^ 30" "int n = int (n - 1) + 1" using assms by linarith+
  then have "opal_next_poweroftwo_inclusive (int n) = Some (2 ^ rounds n)" "rounds n \<le> 30"
    unfolding rounds_def using inclusive_eq [of "n - 1"] bl_mono_power [of "n - 1" 30] by (simp_all only:)
  then show ?thesis using tree_up_loop_eq [OF assms(3), of "rounds n" 0] tree_down_loop_eq [OF assms(3), of 0 "rounds n"]
    by (simp add: ompi_coll_tuned_barrier_intra_tree_def nat_power_eq drop_bit_eq_div ups_def downs_def)
qed

text \<open>Both passes of a round, with the times of the way down.\<close>

definition down_time :: "nat \<Rightarrow> nat \<Rightarrow> nat" where "down_time K j = 3 * (K + (K - 1 - j))"

lemma tree_mem: "x \<in> set (tree_timed K n r) \<longleftrightarrow> (\<exists>j < K. x \<in> set (up_at n r j) \<or> x \<in> set (down_at n r (down_time K j) j))"
proof -
  have "(\<exists>i < K. x \<in> set (down_at n r (3 * (K + i)) (K - 1 - i))) \<longleftrightarrow> (\<exists>j < K. x \<in> set (down_at n r (down_time K j) j))"
  proof safe
    fix i assume "i < K" "x \<in> set (down_at n r (3 * (K + i)) (K - 1 - i))"
    then show "\<exists>j < K. x \<in> set (down_at n r (down_time K j) j)" by (intro exI [of _ "K - 1 - i"]) (simp add: down_time_def)
  next
    fix j assume "j < K" "x \<in> set (down_at n r (down_time K j) j)"
    then show "\<exists>i < K. x \<in> set (down_at n r (3 * (K + i)) (K - 1 - i))" by (intro exI [of _ "K - 1 - j"]) (simp add: down_time_def)
  qed
  then show ?thesis by (auto simp: tree_timed_def ups_mem downs_mem)
qed

lemma tree_posts:
  assumes "j < K"
  shows "with_child n r j \<Longrightarrow> set (recv_at (r + 2 ^ j) (3 * j)) \<union> set (send_at (r + 2 ^ j) (down_time K j)) \<subseteq> set (tree_timed K n r)"
    "with_parent r j \<Longrightarrow> set (send_at (r - 2 ^ j) (3 * j)) \<union> set (recv_at (r - 2 ^ j) (down_time K j)) \<subseteq> set (tree_timed K n r)"
  using assms not_both by (fastforce simp: tree_mem up_at_def down_at_def)+

lemma at_sorted: "sorted (map snd (up_at n r j))" "sorted (map snd (down_at n r t j))"
  and at_times: "x \<in> set (up_at n r j) \<Longrightarrow> 3 * j \<le> snd x \<and> snd x < 3 * Suc j" "x \<in> set (down_at n r t j) \<Longrightarrow> t \<le> snd x \<and> snd x < t + 3"
  by (auto simp: up_at_def down_at_def recv_at_def send_at_def split: if_splits)

lemma sorted_blocks:
  assumes "\<And>i. sorted (map snd (f i))" "\<And>i x. x \<in> set (f i) \<Longrightarrow> a + 3 * i \<le> snd x \<and> snd x < a + 3 * Suc i"
  shows "sorted (map snd (concat (map f [0..<m]))) \<and> (\<forall>x \<in> set (concat (map f [0..<m])). a \<le> snd x \<and> snd x < a + 3 * m)"
proof (induction m)
  case (Suc m)
  have "\<forall>x \<in> set (concat (map f [0..<m])). \<forall>y \<in> set (f m). snd x \<le> snd y" using Suc assms(2) [of _ m] by (meson le_trans less_imp_le)
  moreover have "\<forall>x \<in> set (f m). a \<le> snd x \<and> snd x < a + 3 * Suc m" using assms(2) [of _ m] by (meson le_add1 le_trans)
  moreover have "\<forall>x \<in> set (concat (map f [0..<m])). a \<le> snd x \<and> snd x < a + 3 * Suc m" using Suc by fastforce
  moreover have "concat (map f [0..<Suc m]) = concat (map f [0..<m]) @ f m" by simp
  ultimately show ?case using Suc assms(1) [of m] by (simp only: map_append sorted_append set_append set_map) blast
qed simp

lemma tree_sorted: "sorted (map snd (tree_timed K n r))"
proof -
  have "sorted (map snd (ups n r K))" "\<forall>x \<in> set (ups n r K). snd x < 3 * K"
    using sorted_blocks [of "up_at n r" 0 K] at_sorted at_times(1) by (simp_all add: ups_def)
  moreover have "sorted (map snd (downs n r K K))" "\<forall>x \<in> set (downs n r K K). 3 * K \<le> snd x"
    using sorted_blocks [of "\<lambda>i. down_at n r (3 * (K + i)) (K - 1 - i)" "3 * K" K] at_sorted at_times(2) by (fastforce simp: downs_def)+
  ultimately show ?thesis by (fastforce simp: tree_timed_def sorted_append)
qed

lemma tree_waits:
  assumes "(Wait_all rs, tw) \<in> set (tree_timed K n r)"
  obtains (up) j where "j < K" "with_child n r j" "rs = [Recv_Req (r + 2 ^ j) 0]" "tw = 3 * j + 1"
    | (up_sent) j where "j < K" "with_parent r j" "rs = [Send_Req (r - 2 ^ j) 0]" "tw = 3 * j + 1"
    | (down) j where "j < K" "with_parent r j" "rs = [Recv_Req (r - 2 ^ j) 0]" "tw = down_time K j + 1"
    | (down_sent) j where "j < K" "with_child n r j" "rs = [Send_Req (r + 2 ^ j) 0]" "tw = down_time K j + 1"
  using assms by (auto simp: tree_mem up_at_def down_at_def recv_at_def send_at_def split: if_splits)

lemma tree_timed_ok: "timed_ok n (tree_timed K n)"
  unfolding timed_ok_def
proof (intro conjI allI impI ballI)
  fix r rs tw q
  assume r: "r < n" and w: "(Wait_all rs, tw) \<in> set (tree_timed K n r)" and q: "q \<in> set rs"
  note posts = tree_posts [unfolded recv_at_def send_at_def, simplified]
  show "timed_match n (tree_timed K n) r tw q" using w
  proof (cases rule: tree_waits)
    case (up j)
    have "r + 2 ^ j < n" using up(2) by (simp add: with_child_def)
    then show ?thesis using timed_recv [of "r + 2 ^ j" "3 * j" "tree_timed K n" r Standard "3 * j" n tw]
        posts(1) [OF up(1,2)] posts(2) [OF up(1) with_parent_child(2) [OF up(2)], of n] q up(3,4) by simp
  next
    case (up_sent j)
    note c = with_parent_child(1) [OF up_sent(2) r]
    then show ?thesis using timed_send [of Standard "r - 2 ^ j" "3 * j" "tree_timed K n" r "3 * j" n tw]
        posts(2) [OF up_sent(1,2), of n] posts(1) [OF up_sent(1), of n "r - 2 ^ j"] q up_sent(3,4) r by simp
  next
    case (down j)
    note c = with_parent_child(1) [OF down(2) r]
    then show ?thesis using timed_recv [of "r - 2 ^ j" "down_time K j" "tree_timed K n" r Standard "down_time K j" n tw]
        posts(2) [OF down(1,2), of n] posts(1) [OF down(1), of n "r - 2 ^ j"] q down(3,4) r by simp
  next
    case (down_sent j)
    have "r + 2 ^ j < n" using down_sent(2) by (simp add: with_child_def)
    then show ?thesis using timed_send [of Standard "r + 2 ^ j" "down_time K j" "tree_timed K n" r "down_time K j" n tw]
        posts(1) [OF down_sent(1,2)] posts(2) [OF down_sent(1) with_parent_child(2) [OF down_sent(2)], of n] q down_sent(3,4) by simp
  qed
qed (rule tree_sorted)

section \<open>Who has heard of whom\<close>

text \<open>The sends between a process and its child, in both directions.\<close>

lemma send_to_parent:
  assumes "(Isend md r off cnt, t) \<in> set (tree_timed K n (r + 2 ^ j))" "r + 2 ^ j < n"
  shows "t = 3 * j"
proof -
  consider i where "with_parent (r + 2 ^ j) i" "r = r + 2 ^ j - 2 ^ i" "t = 3 * i" | i where "r = r + 2 ^ j + 2 ^ i"
    using assms(1) by (auto simp: tree_mem at_mem)
  then show ?thesis
  proof cases
    case (1 i)
    then have "2 ^ i \<le> r + 2 ^ j" using with_parent_child(1) assms(2) by blast
    then have "(2 :: nat) ^ i = 2 ^ j" using 1(2) by linarith
    then show ?thesis using 1(3) by simp
  qed simp
qed

lemma send_to_child:
  assumes "(Isend md (r + 2 ^ j) off cnt, t) \<in> set (tree_timed K n r)"
  shows "t = down_time K j"
proof -
  consider i where "r + 2 ^ j = r - 2 ^ i" | i where "r + 2 ^ j = r + 2 ^ i" "t = down_time K i"
    using assms by (auto simp: tree_mem at_mem)
  then show ?thesis
  proof cases
    case (1 i)
    have "r - 2 ^ i < r + 2 ^ j" by (rule le_less_trans [of _ r]) simp_all
    then show ?thesis using 1 by simp
  qed simp
qed

text \<open>On the way up: before round \<open>j\<close> a multiple of \<open>2 ^ j\<close> has heard of the numbers up to the next one.\<close>

lemma tree_heard_up:
  assumes inv: "net_inv (\<lambda>r. map fst (tree_timed K n r)) s"
  shows "j \<le> K \<Longrightarrow> 2 ^ j dvd r \<Longrightarrow> reached (tree_timed K n) s r (3 * j) \<Longrightarrow> r < q \<Longrightarrow> q < r + 2 ^ j \<Longrightarrow> q < n \<Longrightarrow> 0 < pcs s q"
proof (induction j arbitrary: r)
  case (Suc j)
  have j: "j < K" "2 ^ j dvd r" using Suc.prems(1,2) by (auto intro: dvd_trans [of _ "2 ^ Suc j"])
  show ?case
  proof (cases "q < r + 2 ^ j")
    case True
    then show ?thesis using Suc.IH [of r] j Suc.prems reached_mono [OF Suc.prems(3), of "3 * j"] by simp
  next
    case False
    let ?p = "r + 2 ^ j"
    have p: "?p < n" "with_child n r j" using False Suc.prems(2,6) by (auto simp: with_child_def)
    have wait: "(Wait_all [Recv_Req ?p 0], 3 * j + 1) \<in> set (tree_timed K n r)" using tree_posts(1) [OF j(1) p(2)] by (simp add: recv_at_def)
    have "reached (tree_timed K n) s ?p (3 * j)"
      by (rule reached_heard [OF inv tree_sorted Suc.prems(3) wait]) (auto dest: send_to_parent [OF _ p(1)])
    moreover have "0 < pcs s ?p" by (rule reached_heard_pos [OF inv Suc.prems(3) wait]) simp_all
    moreover have "2 ^ j dvd ?p" using j(2) by simp
    ultimately show ?thesis using Suc.IH [of ?p] j(1) False Suc.prems(5,6) by (cases "q = ?p") auto
  qed
qed simp

text \<open>On the way down: a process that has received from its parent knows that the root has finished the way up.\<close>

lemma tree_heard_down:
  assumes inv: "net_inv (\<lambda>r. map fst (tree_timed K n r)) s" and n: "n \<le> 2 ^ K"
  shows "0 < r \<Longrightarrow> r < n \<Longrightarrow> reached (tree_timed K n) s r \<tau> \<Longrightarrow> down_time K (low r) + 1 < \<tau> \<Longrightarrow> reached (tree_timed K n) s 0 (3 * K)"
proof (induction r arbitrary: \<tau> rule: less_induct)
  case (less r)
  let ?j = "low r"
  have low: "low x < K" if "0 < x" "x < n" for x
  proof -
    have "(2 :: nat) ^ low x < 2 ^ K" using low_less [OF that(1)] that(2) n by linarith
    then show ?thesis by simp
  qed
  obtain m where m: "r = 2 ^ ?j * (2 * m + 1)" using low_ex [OF less.prems(1)] by blast
  then have "r div 2 ^ ?j = 2 * m + 1" by (metis nonzero_mult_div_cancel_left power_not_zero zero_neq_numeral)
  moreover have "2 ^ ?j dvd r" using m by (metis dvd_triv_left)
  ultimately have par: "with_parent r ?j" by (simp add: with_parent_def)
  define p where "p = r - 2 ^ ?j"
  have p: "r = p + 2 ^ ?j" "with_child n p ?j" "p < r" using with_parent_child(1) [OF par less.prems(2)] less.prems(1) by (simp_all add: p_def)
  have "(Wait_all [Recv_Req p 0], down_time K ?j + 1) \<in> set (tree_timed K n r)"
    using tree_posts(2) [OF low [OF less.prems(1,2)] par, of n] by (simp add: recv_at_def p_def)
  moreover have "t = down_time K ?j" if "(Isend md r off cnt, t) \<in> set (tree_timed K n p)" for md off cnt t
    using send_to_child [of md p ?j off cnt t K n] that unfolding p(1) [symmetric] .
  ultimately have "reached (tree_timed K n) s p (down_time K ?j)"
    by (intro reached_heard [OF inv tree_sorted less.prems(3) _ less.prems(4)]) auto
  moreover have "3 * K \<le> down_time K ?j" by (simp add: down_time_def)
  moreover have "down_time K (low p) + 1 < down_time K ?j" if pos: "0 < p"
  proof -
    obtain q where q: "p = 2 ^ low p * (2 * q + 1)" using low_ex [OF pos] by blast
    have "?j < low p"
    proof (rule ccontr)
      assume "\<not> ?j < low p"
      then have "2 ^ Suc (low p) dvd (2 :: nat) ^ Suc ?j" by (intro le_imp_power_dvd) simp
      then have "2 ^ low p * 2 dvd p" using p(2) by (metis dvd_trans power_Suc2 with_child_def)
      then show False using q by (metis dvd_times_left_cancel_iff even_plus_one_iff dvd_triv_left power_not_zero zero_neq_numeral)
    qed
    then show ?thesis using low [OF pos] p(3) less.prems(2) by (simp add: down_time_def)
  qed
  ultimately show ?case using less.IH [of p] p(3) less.prems(2) reached_mono by (cases "p = 0") auto
qed

interpretation tree: timed_barrier "\<lambda>n. 1 < n \<and> n \<le> 2 ^ 30" ompi_coll_tuned_barrier_intra_tree "\<lambda>n. tree_timed (rounds n) n"
proof
  fix n r :: nat assume "1 < n \<and> n \<le> 2 ^ 30" "r < n"
  then show "ompi_coll_tuned_barrier_intra_tree n r = Some (map fst (tree_timed (rounds n) n r))" by (intro tree_eq) simp_all
next
  fix n r q :: nat and s :: "'a net"
  let ?K = "rounds n"
  assume n: "1 < n \<and> n \<le> 2 ^ 30" and inv: "net_inv (\<lambda>r. map fst (tree_timed ?K n r)) s" and r: "r < n" "q < n"
    and "pcs s r = length (tree_timed ?K n r)"
  then have done_r: "reached (tree_timed ?K n) s r \<tau>" for \<tau> by (intro reached_returned) simp
  have k: "0 < ?K" "n \<le> 2 ^ ?K" using round_less [of n 0] round_less [of n ?K] n by auto
  have root: "reached (tree_timed ?K n) s 0 (3 * ?K)"
    using tree_heard_down [OF inv k(2) _ r(1) done_r lessI] done_r by (cases "r = 0") auto
  have "with_child n 0 0" using n by (simp add: with_child_def)
  then have "(Irecv 1 0 0, 0) \<in> set (tree_timed ?K n 0)" using tree_posts(1) [OF k(1)] by (simp add: recv_at_def)
  then have "0 < pcs s 0" using reached_pos [OF root] k(1) by simp
  then show "0 < pcs s q" using tree_heard_up [OF inv order_refl _ root, of q] k(2) r(2) by (cases "q = 0") auto
qed (auto simp: tree_timed_ok tree_mem up_at_def down_at_def recv_at_def send_at_def split: if_splits)

text \<open>C40: the tree barrier: every run ends with all processes returned, and no process returns before every other one has entered.\<close>

theorem barrier_tree_synchronises:
  assumes "1 < n" "n \<le> 2 ^ 30"
  shows "\<exists>p. (\<forall>r < n. ompi_coll_tuned_barrier_intra_tree n r = Some (p r)) \<and> barrier_ok n p bs"
  using tree.barrier [of n bs] assms by blast

theorem barrier_tree_synchronises_witness:
  "\<exists>p. (\<forall>r < 6. ompi_coll_tuned_barrier_intra_tree 6 r = Some (p r)) \<and> barrier_ok 6 p (\<lambda>r. [] :: nat list)"
  using barrier_tree_synchronises [of 6 "\<lambda>r. [] :: nat list"] by simp

end
