(* ===== verification/Pml_Ob1.thy ===== *)
theory Pml_Ob1
  imports OMPI_Prelude "HOL-Library.Word"
begin

text \<open>
  Message matching of the point-to-point layer (\<^verbatim>\<open>ompi/mca/pml/ob1\<close>): the queues of a communicator
  (\<^verbatim>\<open>pml_ob1_comm.c\<close>), the arrival of the first fragment of a message (\<^verbatim>\<open>pml_ob1_recvfrag.c\<close>), the
  start of a receive and its cancellation (\<^verbatim>\<open>pml_ob1_recvreq.c\<close>), messages for a communicator that
  does not exist yet (\<^verbatim>\<open>pml_ob1.c\<close>) and the numbering of messages by the sender
  (\<^verbatim>\<open>pml_ob1_sendreq.h\<close>).

  A fragment carries its matching header; \<open>frag_data\<close> stands for everything else it brings. What
  happens to a matched pair afterwards, the transfer of the data, is not modelled: the operations
  return the list of pairs, with the kind of match. Each operation runs under the lock of the
  communicator. Arrays are indexed with \<^const>\<open>aget\<close>, so a rank outside the communicator is
  \<^const>\<open>None\<close>.
\<close>

section \<open>Data\<close>

definition OMPI_ANY_SOURCE :: int where "OMPI_ANY_SOURCE = - 1"
definition OMPI_ANY_TAG :: int where "OMPI_ANY_TAG = - 1"
definition OMPI_ERR_OUT_OF_RESOURCE :: int where "OMPI_ERR_OUT_OF_RESOURCE = - 2"

datatype mca_pml_base_request_type_t = MCA_PML_REQUEST_NULL | MCA_PML_REQUEST_SEND | MCA_PML_REQUEST_RECV
  | MCA_PML_REQUEST_IPROBE | MCA_PML_REQUEST_PROBE | MCA_PML_REQUEST_IMPROBE | MCA_PML_REQUEST_MPROBE

text \<open>\<open>req_id\<close> is the identity of the request, its address.\<close>

record mca_pml_base_request_t =
  req_id :: nat
  req_type :: mca_pml_base_request_type_t
  req_peer :: int
  req_tag :: int
  req_sequence :: "64 word"

record 'a mca_pml_ob1_recv_frag_t =
  hdr_ctx :: "16 word"
  hdr_src :: int
  hdr_tag :: int
  hdr_seq :: "16 word"
  frag_data :: 'a

record 'a mca_pml_ob1_comm_proc_t =
  expected_sequence :: "16 word"
  send_sequence :: "32 word"
  frags_cant_match :: "'a mca_pml_ob1_recv_frag_t list"
  specific_receives :: "mca_pml_base_request_t list"
  unexpected_frags :: "'a mca_pml_ob1_recv_frag_t list"

text \<open>\<^verbatim>\<open>num_procs\<close> is the length of \<^verbatim>\<open>procs\<close>.\<close>

record 'a mca_pml_ob1_comm_t =
  recv_sequence :: "32 word"
  wild_receives :: "mca_pml_base_request_t list"
  procs :: "'a mca_pml_ob1_comm_proc_t list"
  last_probed :: nat

type_synonym 'a frag = "'a mca_pml_ob1_recv_frag_t"
type_synonym 'a comm = "'a mca_pml_ob1_comm_t"

text \<open>
  The kinds of match: a receive gets the message; a probe is completed and the message stays or goes
  on to the next request; a matched probe takes the message along.
\<close>

datatype 'a outcome = Received mca_pml_base_request_t "'a frag" | Probed mca_pml_base_request_t "'a frag" | Grabbed mca_pml_base_request_t "'a frag"

definition mca_pml_ob1_comm_proc_construct :: "'a mca_pml_ob1_comm_proc_t" where
  "mca_pml_ob1_comm_proc_construct =
     \<lparr>expected_sequence = 1, send_sequence = 0, frags_cant_match = [], specific_receives = [], unexpected_frags = []\<rparr>"

definition mca_pml_ob1_comm_construct :: "'a comm" where
  "mca_pml_ob1_comm_construct = \<lparr>recv_sequence = 0, wild_receives = [], procs = [], last_probed = 0\<rparr>"

text \<open>\<open>mem\<close> tells whether the allocation succeeds.\<close>

definition mca_pml_ob1_comm_init_size :: "bool \<Rightarrow> 'a comm \<Rightarrow> nat \<Rightarrow> int \<times> 'a comm" where
  "mca_pml_ob1_comm_init_size mem comm sz =
     (if \<not> mem then (OMPI_ERR_OUT_OF_RESOURCE, comm\<lparr>procs := []\<rparr>)
      else (OPAL_SUCCESS, comm\<lparr>procs := replicate sz mca_pml_ob1_comm_proc_construct\<rparr>))"

definition set_proc :: "'a comm \<Rightarrow> int \<Rightarrow> 'a mca_pml_ob1_comm_proc_t \<Rightarrow> 'a comm" where
  "set_proc comm i proc = comm\<lparr>procs := (procs comm)[nat i := proc]\<rparr>"

section \<open>The sender\<close>

text \<open>The number of a message: the counter is incremented atomically and cut to 16 bits.\<close>

definition send_seqn :: "'a comm \<Rightarrow> int \<Rightarrow> (16 word \<times> 'a comm) option" where
  "send_seqn comm dst = do {
     proc \<leftarrow> aget (procs comm) dst;
     let seqn = send_sequence proc + 1;
     Some (ucast seqn, set_proc comm dst (proc\<lparr>send_sequence := seqn\<rparr>))
   }"

section \<open>Arrival of a message\<close>

definition PML_MAX_SEQ :: "64 word" where "PML_MAX_SEQ = NOT 0"

fun posted_seq :: "mca_pml_base_request_t list \<Rightarrow> 64 word" where
  "posted_seq [] = PML_MAX_SEQ"
| "posted_seq (r # rs) = req_sequence r"

definition tag_fits :: "mca_pml_base_request_t \<Rightarrow> int \<Rightarrow> bool" where
  "tag_fits r tag \<longleftrightarrow> req_tag r = tag \<or> (req_tag r = OMPI_ANY_TAG \<and> tag \<ge> 0)"

text \<open>
  The loop of \<^verbatim>\<open>match_incomming\<close> on the rests of the two queues; \<open>Inl\<close> is a request of the wild
  queue. The sequence number of a request at the end of a queue is \<^verbatim>\<open>PML_MAX_SEQ\<close>.
\<close>

function match_loop :: "int \<Rightarrow> mca_pml_base_request_t list \<Rightarrow> mca_pml_base_request_t list \<Rightarrow> (mca_pml_base_request_t + mca_pml_base_request_t) option option" where
  "match_loop tag wild specific =
     (if posted_seq wild \<noteq> posted_seq specific then
        if posted_seq wild < posted_seq specific then
          case wild of [] \<Rightarrow> None
          | w # ws \<Rightarrow> if tag_fits w tag then Some (Some (Inl w)) else match_loop tag ws specific
        else
          case specific of [] \<Rightarrow> None
          | s # ss \<Rightarrow> if tag_fits s tag then Some (Some (Inr s)) else match_loop tag wild ss
      else Some None)"
  by pat_completeness auto
termination
  by (relation "measure (\<lambda>(tag, ws, ss). length ws + length ss)") auto

declare match_loop.simps [simp del]

definition match_incomming :: "'a frag \<Rightarrow> 'a comm \<Rightarrow> (mca_pml_base_request_t option \<times> 'a comm) option" where
  "match_incomming f comm = do {
     proc \<leftarrow> aget (procs comm) (hdr_src f);
     r \<leftarrow> match_loop (hdr_tag f) (wild_receives comm) (specific_receives proc);
     Some (case r of
             None \<Rightarrow> (None, comm)
           | Some (Inl w) \<Rightarrow> (Some w, comm\<lparr>wild_receives := remove1 w (wild_receives comm)\<rparr>)
           | Some (Inr s) \<Rightarrow> (Some s, set_proc comm (hdr_src f) (proc\<lparr>specific_receives := remove1 s (specific_receives proc)\<rparr>)))
   }"

lemma match_loop_mem: "match_loop tag ws ss = Some (Some r) \<Longrightarrow> (case r of Inl w \<Rightarrow> w \<in> set ws | Inr s \<Rightarrow> s \<in> set ss)"
proof (induction tag ws ss rule: match_loop.induct)
  case (1 tag ws ss)
  show ?case using "1.prems" "1.IH" unfolding match_loop.simps [of tag ws ss]
    by (cases ws; cases ss; fastforce split: if_splits sum.splits)
qed

definition posted_count :: "'a comm \<Rightarrow> nat" where
  "posted_count comm = length (wild_receives comm) + (\<Sum>p \<leftarrow> procs comm. length (specific_receives p))"

lemma sum_list_update_less:
  fixes g :: "'b \<Rightarrow> nat"
  shows "i < length xs \<Longrightarrow> g y < g (xs ! i) \<Longrightarrow> (\<Sum>x \<leftarrow> xs[i := y]. g x) < (\<Sum>x \<leftarrow> xs. g x)"
proof (induction xs arbitrary: i)
  case (Cons x xs)
  then show ?case by (cases i) auto
qed simp

lemma match_incomming_less: "match_incomming f comm = Some (Some m, comm') \<Longrightarrow> posted_count comm' < posted_count comm"
proof -
  assume "match_incomming f comm = Some (Some m, comm')"
  then obtain proc r where p: "aget (procs comm) (hdr_src f) = Some proc"
    and r: "match_loop (hdr_tag f) (wild_receives comm) (specific_receives proc) = Some (Some r)"
    and c: "comm' = (case r of Inl w \<Rightarrow> comm\<lparr>wild_receives := remove1 w (wild_receives comm)\<rparr>
      | Inr s \<Rightarrow> set_proc comm (hdr_src f) (proc\<lparr>specific_receives := remove1 s (specific_receives proc)\<rparr>))"
    by (auto simp: match_incomming_def split: option.splits sum.splits bind_splits)
  note m = match_loop_mem [OF r] and p = aget_SomeD [OF p]
  show ?thesis
  proof (cases r)
    case (Inl w)
    then have "0 < length (wild_receives comm)" using m by (auto simp: length_pos_if_in_set)
    then show ?thesis using m c Inl by (simp add: posted_count_def length_remove1)
  next
    case (Inr s)
    then have "length (remove1 s (specific_receives proc)) < length (specific_receives (procs comm ! nat (hdr_src f)))"
      using m p Inr length_pos_if_in_set [of s "specific_receives proc"] by (simp add: length_remove1)
    moreover have "nat (hdr_src f) < length (procs comm)" using p by linarith
    ultimately show ?thesis using p c Inr
      sum_list_update_less [of "nat (hdr_src f)" "procs comm" "\<lambda>p. length (specific_receives p)" "proc\<lparr>specific_receives := remove1 s (specific_receives proc)\<rparr>"]
      by (simp add: posted_count_def set_proc_def)
  qed
qed

text \<open>A probe is completed and the search goes on with the next request.\<close>

function match_one :: "'a frag \<Rightarrow> 'a comm \<Rightarrow> (mca_pml_base_request_t option \<times> 'a outcome list \<times> 'a comm) option" where
  "match_one f comm =
     (case match_incomming f comm of
        None \<Rightarrow> None
      | Some (None, comm') \<Rightarrow> (case aget (procs comm') (hdr_src f) of
            None \<Rightarrow> None
          | Some proc \<Rightarrow> Some (None, [], set_proc comm' (hdr_src f) (proc\<lparr>unexpected_frags := unexpected_frags proc @ [f]\<rparr>)))
      | Some (Some m, comm') \<Rightarrow>
          if req_type m = MCA_PML_REQUEST_PROBE then
            (case match_one f comm' of None \<Rightarrow> None | Some (r, os, comm'') \<Rightarrow> Some (r, Probed m f # os, comm''))
          else if req_type m = MCA_PML_REQUEST_MPROBE then Some (None, [Grabbed m f], comm')
          else Some (Some m, [], comm'))"
  by pat_completeness auto
termination
  by (relation "measure (\<lambda>(f, comm). posted_count comm)") (auto simp: match_incomming_less)

declare match_one.simps [simp del]

definition check_cantmatch_for_match :: "'a mca_pml_ob1_comm_proc_t \<Rightarrow> ('a frag \<times> 'a mca_pml_ob1_comm_proc_t) option" where
  "check_cantmatch_for_match proc =
     map_option (\<lambda>f. (f, proc\<lparr>frags_cant_match := remove1 f (frags_cant_match proc)\<rparr>))
       (find (\<lambda>f. hdr_seq f = expected_sequence proc) (frags_cant_match proc))"

text \<open>What is not matched keeps the lists of fragments that came too early, so the loop over them ends.\<close>

definition early :: "'a comm \<Rightarrow> 'a frag list list" where
  "early comm = map frags_cant_match (procs comm)"

lemma set_proc_early: "aget (procs comm) i = Some proc \<Longrightarrow> frags_cant_match p = frags_cant_match proc \<Longrightarrow> early (set_proc comm i p) = early comm"
  by (auto simp: early_def set_proc_def aget_def map_update intro!: list_update_same_conv [THEN iffD2] split: if_splits)

lemma match_incomming_early: "match_incomming f comm = Some (r, comm') \<Longrightarrow> early comm' = early comm"
  by (auto simp: match_incomming_def set_proc_early split: option.splits sum.splits bind_splits) (simp_all add: early_def)

lemma match_one_early: "match_one f comm = Some (r, os, comm') \<Longrightarrow> early comm' = early comm"
proof (induction f comm arbitrary: r os comm' rule: match_one.induct)
  case (1 f comm)
  show ?case using "1.prems" "1.IH" unfolding match_one.simps [of f comm]
    by (auto simp: set_proc_early match_incomming_early split: option.splits if_splits)
qed

text \<open>
  The loop at \<^verbatim>\<open>out_of_order_match\<close>: the fragment has the expected number; after it those that were
  early may fit.
\<close>

definition early_count :: "'a comm \<Rightarrow> nat" where
  "early_count comm = (\<Sum>fs \<leftarrow> early comm. length fs)"

lemma early_count_less:
  assumes "aget (procs comm) i = Some proc" "check_cantmatch_for_match proc = Some (f, proc')"
  shows "early_count (set_proc comm i proc') < early_count comm"
proof -
  have i: "nat i < length (procs comm)" "proc = procs comm ! nat i" using aget_SomeD [OF assms(1)] by linarith+
  have f: "find (\<lambda>f. hdr_seq f = expected_sequence proc) (frags_cant_match proc) = Some f" "proc' = proc\<lparr>frags_cant_match := remove1 f (frags_cant_match proc)\<rparr>"
    using assms(2) by (auto simp: check_cantmatch_for_match_def)
  have "f \<in> set (frags_cant_match proc)" using f(1) by (auto simp: find_Some_iff)
  then have "length (frags_cant_match proc') < length (frags_cant_match proc)" using f(2) length_pos_if_in_set [of f "frags_cant_match proc"] by (simp add: length_remove1)
  then show ?thesis using i sum_list_update_less [of "nat i" "early comm" length "frags_cant_match proc'"]
    by (simp add: early_count_def early_def set_proc_def map_update)
qed

function out_of_order_match :: "'a frag \<Rightarrow> 'a comm \<Rightarrow> ('a outcome list \<times> 'a comm) option" where
  "out_of_order_match f comm =
     (case aget (procs comm) (hdr_src f) of
        None \<Rightarrow> None
      | Some proc \<Rightarrow>
          (case match_one f (set_proc comm (hdr_src f) (proc\<lparr>expected_sequence := expected_sequence proc + 1\<rparr>)) of
             None \<Rightarrow> None
           | Some (m, os, comm1) \<Rightarrow>
               let os = os @ (case m of None \<Rightarrow> [] | Some r \<Rightarrow> [Received r f]) in
               (case aget (procs comm1) (hdr_src f) of
                  None \<Rightarrow> None
                | Some proc1 \<Rightarrow>
                    (case check_cantmatch_for_match proc1 of
                       None \<Rightarrow> Some (os, comm1)
                     | Some (g, proc2) \<Rightarrow>
                         map_option (\<lambda>(os', comm2). (os @ os', comm2)) (out_of_order_match g (set_proc comm1 (hdr_src f) proc2))))))"
  by pat_completeness auto
termination
proof (relation "measure (\<lambda>(f, comm). early_count comm)", goal_cases)
  case (2 f comm proc x m y os comm1 os' proc1 z g proc2)
  have "early comm1 = early (set_proc comm (hdr_src f) (proc\<lparr>expected_sequence := expected_sequence proc + 1\<rparr>))"
    using 2 by (auto dest: match_one_early)
  also have "\<dots> = early comm" using 2 by (auto simp: set_proc_early)
  finally have "early_count comm1 = early_count comm" by (simp add: early_count_def)
  then show ?case using 2 early_count_less [of comm1 "hdr_src f" proc1 g proc2] by auto
qed simp

declare out_of_order_match.simps [simp del]

text \<open>
  \<^verbatim>\<open>mca_pml_ob1_recv_frag_match\<close> from its lock on: a fragment with the expected number is matched, any
  other is kept until its turn.
\<close>

definition append_frag_to_list :: "'a frag list \<Rightarrow> 'a frag \<Rightarrow> 'a frag list" where
  "append_frag_to_list queue f = queue @ [f]"

definition mca_pml_ob1_recv_frag_match :: "'a frag \<Rightarrow> 'a comm \<Rightarrow> ('a outcome list \<times> 'a comm) option" where
  "mca_pml_ob1_recv_frag_match f comm = do {
     proc \<leftarrow> aget (procs comm) (hdr_src f);
     if hdr_seq f \<noteq> expected_sequence proc
     then Some ([], set_proc comm (hdr_src f) (proc\<lparr>frags_cant_match := append_frag_to_list (frags_cant_match proc) f\<rparr>))
     else out_of_order_match f comm
   }"

text \<open>
  The state of the layer: the communicators by context id (\<^verbatim>\<open>ompi_comm_lookup\<close>) and the messages for
  communicators that do not exist yet.
\<close>

record 'a mca_pml_ob1_t =
  comm_lookup :: "16 word \<Rightarrow> 'a comm option"
  non_existing_communicator_pending :: "'a frag list"

definition with_comm :: "'a frag \<Rightarrow> ('a comm \<Rightarrow> ('a outcome list \<times> 'a comm) option) \<Rightarrow> 'a mca_pml_ob1_t \<Rightarrow> ('a outcome list \<times> 'a mca_pml_ob1_t) option" where
  "with_comm f body pml =
     (case comm_lookup pml (hdr_ctx f) of
        None \<Rightarrow> Some ([], pml\<lparr>non_existing_communicator_pending := append_frag_to_list (non_existing_communicator_pending pml) f\<rparr>)
      | Some comm \<Rightarrow> map_option (\<lambda>(os, comm'). (os, pml\<lparr>comm_lookup := (comm_lookup pml)(hdr_ctx f \<mapsto> comm')\<rparr>)) (body comm))"

text \<open>
  The callback for a message that fits into one fragment. It matches the message itself when the
  message has the expected number and none is kept; otherwise it takes the slow path.
\<close>

definition callback_match_fast :: "'a frag \<Rightarrow> 'a comm \<Rightarrow> ('a outcome list \<times> 'a comm) option" where
  "callback_match_fast f comm = do {
     proc \<leftarrow> aget (procs comm) (hdr_src f);
     if hdr_seq f \<noteq> expected_sequence proc \<or> length (frags_cant_match proc) > 0
     then mca_pml_ob1_recv_frag_match f comm
     else do {
       (m, os, comm1) \<leftarrow> match_one f (set_proc comm (hdr_src f) (proc\<lparr>expected_sequence := expected_sequence proc + 1\<rparr>));
       Some (os @ (case m of None \<Rightarrow> [] | Some r \<Rightarrow> [Received r f]), comm1)
     }
   }"

definition mca_pml_ob1_recv_frag_callback_match :: "'a frag \<Rightarrow> 'a mca_pml_ob1_t \<Rightarrow> ('a outcome list \<times> 'a mca_pml_ob1_t) option" where
  "mca_pml_ob1_recv_frag_callback_match f = with_comm f (callback_match_fast f)"

section \<open>A new communicator\<close>

text \<open>
  The label \<^verbatim>\<open>add_fragment_to_unexpected\<close>: nothing can be posted yet, so a message whose turn it is
  becomes unexpected, and after it those that were early.
\<close>

function add_fragment_to_unexpected :: "'a frag \<Rightarrow> 'a comm \<Rightarrow> 'a comm option" where
  "add_fragment_to_unexpected f comm =
     (case aget (procs comm) (hdr_src f) of
        None \<Rightarrow> None
      | Some proc \<Rightarrow>
          if hdr_seq f = expected_sequence proc then
            let proc' = proc\<lparr>expected_sequence := expected_sequence proc + 1, unexpected_frags := unexpected_frags proc @ [f]\<rparr> in
            (case find (\<lambda>g. hdr_seq g = expected_sequence proc') (frags_cant_match proc') of
               None \<Rightarrow> Some (set_proc comm (hdr_src f) proc')
             | Some g \<Rightarrow> add_fragment_to_unexpected g (set_proc comm (hdr_src f) (proc'\<lparr>frags_cant_match := remove1 g (frags_cant_match proc')\<rparr>)))
          else Some (set_proc comm (hdr_src f) (proc\<lparr>frags_cant_match := frags_cant_match proc @ [f]\<rparr>)))"
  by pat_completeness auto
termination
proof (relation "measure (\<lambda>(f, comm). early_count comm)", goal_cases)
  case (2 f comm proc proc' g)
  have "check_cantmatch_for_match proc' = Some (g, proc'\<lparr>frags_cant_match := remove1 g (frags_cant_match proc')\<rparr>)"
    using 2 by (simp add: check_cantmatch_for_match_def)
  moreover have "early (set_proc comm (hdr_src f) proc') = early comm" using 2 by (auto simp: set_proc_early)
  moreover have "aget (procs (set_proc comm (hdr_src f) proc')) (hdr_src f) = Some proc'"
    using aget_SomeD [OF 2(1)] by (simp add: set_proc_def aget_def nat_less_iff)
  ultimately show ?case using early_count_less [of "set_proc comm (hdr_src f) proc'" "hdr_src f" proc' g]
    by (simp add: early_count_def set_proc_def)
qed simp

declare add_fragment_to_unexpected.simps [simp del]

definition pml_max_contextid :: "32 word" where "pml_max_contextid = 65535"

text \<open>
  \<open>mem\<close> and \<open>mem'\<close> tell whether the allocations of the queues and of the array of processes succeed;
  the code does not look at the result of the second. The loop takes the fragments for this
  communicator out of the pending list, in their order.
\<close>

definition mca_pml_ob1_add_comm :: "bool \<Rightarrow> bool \<Rightarrow> 32 word \<Rightarrow> nat \<Rightarrow> 'a mca_pml_ob1_t \<Rightarrow> (int \<times> 'a mca_pml_ob1_t) option" where
  "mca_pml_ob1_add_comm mem mem' contextid grp_proc_count pml =
     (if \<not> mem then Some (OMPI_ERR_OUT_OF_RESOURCE, pml)
      else if contextid > pml_max_contextid then Some (OMPI_ERR_OUT_OF_RESOURCE, pml)
      else do {
        let (rc, comm) = mca_pml_ob1_comm_init_size mem' mca_pml_ob1_comm_construct grp_proc_count;
        _ \<leftarrow> ofold (\<lambda>i _. map_option (\<lambda>_. ()) (aget (procs comm) (int i))) [0..<grp_proc_count] ();
        comm' \<leftarrow> ofold add_fragment_to_unexpected
                   (filter (\<lambda>f. ucast (hdr_ctx f) = contextid) (non_existing_communicator_pending pml)) comm;
        Some (OPAL_SUCCESS,
              \<lparr>comm_lookup = (comm_lookup pml)(ucast contextid \<mapsto> comm'),
               non_existing_communicator_pending = filter (\<lambda>f. ucast (hdr_ctx f) \<noteq> contextid) (non_existing_communicator_pending pml)\<rparr>)
      })"

section \<open>The receiver\<close>

definition recv_req_match_specific_proc :: "mca_pml_base_request_t \<Rightarrow> 'a mca_pml_ob1_comm_proc_t \<Rightarrow> 'a frag option" where
  "recv_req_match_specific_proc req proc =
     (if req_tag req = OMPI_ANY_TAG then find (\<lambda>f. hdr_tag f \<ge> 0) (unexpected_frags proc)
      else find (\<lambda>f. hdr_tag f = req_tag req) (unexpected_frags proc))"

fun wild_loop :: "mca_pml_base_request_t \<Rightarrow> 'a comm \<Rightarrow> nat list \<Rightarrow> (nat \<times> 'a frag) option option" where
  "wild_loop req comm [] = Some None"
| "wild_loop req comm (i # is) =
     (case aget (procs comm) (int i) of
        None \<Rightarrow> None
      | Some proc \<Rightarrow>
          (case recv_req_match_specific_proc req proc of
             None \<Rightarrow> wild_loop req comm is
           | Some f \<Rightarrow> Some (Some (i, f))))"

definition recv_req_match_wild :: "mca_pml_base_request_t \<Rightarrow> 'a comm \<Rightarrow> ((nat \<times> 'a frag) option \<times> 'a comm) option" where
  "recv_req_match_wild req comm = do {
     r \<leftarrow> wild_loop req comm [last_probed comm + 1..<length (procs comm)];
     case r of
       Some (i, f) \<Rightarrow> Some (r, comm\<lparr>last_probed := i\<rparr>)
     | None \<Rightarrow> do {
         r \<leftarrow> wild_loop req comm [0..<Suc (last_probed comm)];
         case r of
           Some (i, f) \<Rightarrow> Some (r, comm\<lparr>last_probed := i\<rparr>)
         | None \<Rightarrow> Some (None, comm)
       }
   }"

definition append_recv_req_to_queue :: "mca_pml_base_request_t list \<Rightarrow> mca_pml_base_request_t \<Rightarrow> mca_pml_base_request_t list" where
  "append_recv_req_to_queue queue req =
     (if req_type req = MCA_PML_REQUEST_IPROBE \<or> req_type req = MCA_PML_REQUEST_IMPROBE then queue else queue @ [req])"

definition IS_PROB_REQ :: "mca_pml_base_request_t \<Rightarrow> bool" where
  "IS_PROB_REQ r \<longleftrightarrow> req_type r \<in> {MCA_PML_REQUEST_IPROBE, MCA_PML_REQUEST_PROBE, MCA_PML_REQUEST_IMPROBE, MCA_PML_REQUEST_MPROBE}"

definition IS_MPROB_REQ :: "mca_pml_base_request_t \<Rightarrow> bool" where
  "IS_MPROB_REQ r \<longleftrightarrow> req_type r \<in> {MCA_PML_REQUEST_IMPROBE, MCA_PML_REQUEST_MPROBE}"

text \<open>The number of the request is that of the counter of 32 bits, which wraps around.\<close>

definition mca_pml_ob1_recv_req_start :: "mca_pml_base_request_t \<Rightarrow> 'a comm \<Rightarrow> ('a outcome list \<times> 'a comm) option" where
  "mca_pml_ob1_recv_req_start req0 comm0 = do {
     let req = req0\<lparr>req_sequence := ucast (recv_sequence comm0)\<rparr>;
     let comm = comm0\<lparr>recv_sequence := recv_sequence comm0 + 1\<rparr>;
     (frag, comm) \<leftarrow>
       (if req_peer req = OMPI_ANY_SOURCE then recv_req_match_wild req comm
        else do {
          proc \<leftarrow> aget (procs comm) (req_peer req);
          Some (map_option (\<lambda>f. (nat (req_peer req), f)) (recv_req_match_specific_proc req proc), comm)
        });
     case frag of
       None \<Rightarrow>
         if req_peer req = OMPI_ANY_SOURCE
         then Some ([], comm\<lparr>wild_receives := append_recv_req_to_queue (wild_receives comm) req\<rparr>)
         else do {
           proc \<leftarrow> aget (procs comm) (req_peer req);
           Some ([], set_proc comm (req_peer req) (proc\<lparr>specific_receives := append_recv_req_to_queue (specific_receives proc) req\<rparr>))
         }
     | Some (i, f) \<Rightarrow> do {
         proc \<leftarrow> aget (procs comm) (int i);
         let taken = set_proc comm (int i) (proc\<lparr>unexpected_frags := remove1 f (unexpected_frags proc)\<rparr>);
         Some (if \<not> IS_PROB_REQ req then ([Received req f], taken)
               else if IS_MPROB_REQ req then ([Grabbed req f], taken)
               else ([Probed req f], comm))
       }
   }"

text \<open>
  Cancelling a receive: \<open>req_match_received\<close> is the flag of the request. A request that is in no queue
  cannot be removed from it.
\<close>

definition mca_pml_ob1_recv_request_cancel :: "bool \<Rightarrow> mca_pml_base_request_t \<Rightarrow> 'a comm \<Rightarrow> 'a comm option" where
  "mca_pml_ob1_recv_request_cancel req_match_received req comm =
     (if req_match_received then Some comm
      else if req_peer req = OMPI_ANY_SOURCE then
        (if req \<in> set (wild_receives comm) then Some (comm\<lparr>wild_receives := remove1 req (wild_receives comm)\<rparr>) else None)
      else do {
        proc \<leftarrow> aget (procs comm) (req_peer req);
        if req \<in> set (specific_receives proc)
        then Some (set_proc comm (req_peer req) (proc\<lparr>specific_receives := remove1 req (specific_receives proc)\<rparr>))
        else None
      })"

end
