(* ===== verification/Pml_Matching.thy ===== *)
theory Pml_Matching
  imports Pml_Ob1
begin

text \<open>
  What MPI promises of message matching, as a machine with one queue of posted receives, in posting
  order, and one queue of messages per source, and the proof that the queues of \<^verbatim>\<open>pml/ob1\<close> implement it:
  the merge of the queue of wild receives with that of a source, the buffer for messages that come
  too early, the round-robin search of a wild receive, and the replay of messages that came before
  their communicator.
\<close>

section \<open>The machine of MPI\<close>

record 'a mpi =
  posted :: "mca_pml_base_request_t list"
  waiting :: "'a frag list list"

definition from_source :: "mca_pml_base_request_t \<Rightarrow> int \<Rightarrow> bool" where
  "from_source r i \<longleftrightarrow> req_peer r = OMPI_ANY_SOURCE \<or> req_peer r = i"

definition fits :: "mca_pml_base_request_t \<Rightarrow> int \<Rightarrow> 'a frag \<Rightarrow> bool" where
  "fits r i f \<longleftrightarrow> from_source r i \<and> tag_fits r (hdr_tag f)"

text \<open>
  A message visits the posted receives in their order. The flag tells that nobody took it.
\<close>

fun deliver :: "int \<Rightarrow> 'a frag \<Rightarrow> mca_pml_base_request_t list \<Rightarrow> 'a outcome list \<times> mca_pml_base_request_t list \<times> bool" where
  "deliver i f [] = ([], [], True)"
| "deliver i f (r # rs) =
     (if fits r i f then
        (if req_type r = MCA_PML_REQUEST_PROBE then let (os, rs', w) = deliver i f rs in (Probed r f # os, rs', w)
         else if req_type r = MCA_PML_REQUEST_MPROBE then ([Grabbed r f], rs, False)
         else ([Received r f], rs, False))
      else let (os, rs', w) = deliver i f rs in (os, r # rs', w))"

definition mpi_deliver :: "nat \<Rightarrow> 'a frag \<Rightarrow> 'a mpi \<Rightarrow> 'a outcome list \<times> 'a mpi" where
  "mpi_deliver i f a =
     (case deliver (int i) f (posted a) of (os, rs, w) \<Rightarrow>
        (os, \<lparr>posted = rs, waiting = (if w then (waiting a)[i := waiting a ! i @ [f]] else waiting a)\<rparr>))"

definition take_outcome :: "mca_pml_base_request_t \<Rightarrow> 'a frag \<Rightarrow> 'a outcome" where
  "take_outcome r f = (if \<not> IS_PROB_REQ r then Received r f else if IS_MPROB_REQ r then Grabbed r f else Probed r f)"

definition take_message :: "mca_pml_base_request_t \<Rightarrow> nat \<Rightarrow> 'a frag \<Rightarrow> 'a mpi \<Rightarrow> 'a mpi" where
  "take_message r i f a = (if IS_PROB_REQ r \<and> \<not> IS_MPROB_REQ r then a else a\<lparr>waiting := (waiting a)[i := remove1 f (waiting a ! i)]\<rparr>)"

text \<open>
  A receive takes the first message that fits of a source it names; which source a wild receive looks
  at is open.
\<close>

inductive mpi_post :: "mca_pml_base_request_t \<Rightarrow> 'a mpi \<Rightarrow> 'a outcome list \<Rightarrow> 'a mpi \<Rightarrow> bool" where
  hit: "i < length (waiting a) \<Longrightarrow> find (fits r (int i)) (waiting a ! i) = Some f \<Longrightarrow>
     mpi_post r a [take_outcome r f] (take_message r i f a)"
| miss: "\<forall>i < length (waiting a). find (fits r (int i)) (waiting a ! i) = None \<Longrightarrow>
     mpi_post r a [] (a\<lparr>posted := append_recv_req_to_queue (posted a) r\<rparr>)"

section \<open>The queues implement it\<close>

definition order :: "'a comm \<Rightarrow> (16 word \<times> 'a frag list) list" where
  "order comm = map (\<lambda>p. (expected_sequence p, frags_cant_match p)) (procs comm)"

definition implements :: "'a comm \<Rightarrow> 'a mpi \<Rightarrow> bool" where
  "implements comm a \<longleftrightarrow>
     wild_receives comm = filter (\<lambda>r. req_peer r = OMPI_ANY_SOURCE) (posted a) \<and>
     (\<forall>i < length (procs comm). specific_receives (procs comm ! i) = filter (\<lambda>r. req_peer r = int i) (posted a)) \<and>
     waiting a = map unexpected_frags (procs comm) \<and>
     last_probed comm < length (procs comm) \<and>
     sorted_wrt (<) (map req_sequence (posted a)) \<and>
     (\<forall>r \<in> set (posted a). unat (req_sequence r) < unat (recv_sequence comm)) \<and>
     (\<forall>fs \<in> set (waiting a). \<forall>f \<in> set fs. hdr_tag f \<noteq> OMPI_ANY_TAG)"

lemma from_source_int: "from_source r (int i) \<longleftrightarrow> req_peer r = OMPI_ANY_SOURCE \<or> req_peer r = int i"
  by (simp add: from_source_def)

lemma posted_seq_filter:
  assumes "sorted_wrt (<) (map req_sequence (r # rs))" "\<forall>r \<in> set (r # rs). req_sequence r < PML_MAX_SEQ"
  shows "req_sequence r < posted_seq (filter P rs)"
proof (cases "filter P rs")
  case (Cons x xs)
  then have "x \<in> set (filter P rs)" by simp
  then have "x \<in> set rs" by simp
  then show ?thesis using assms Cons by simp
qed (use assms in auto)

text \<open>The merge of the two queues finds the first receive in posting order that fits.\<close>

lemma match_loop_find:
  assumes "sorted_wrt (<) (map req_sequence rs)" "\<forall>r \<in> set rs. req_sequence r < PML_MAX_SEQ" "0 \<le> i"
  shows "match_loop tag (filter (\<lambda>r. req_peer r = OMPI_ANY_SOURCE) rs) (filter (\<lambda>r. req_peer r = i) rs) =
    Some (map_option (\<lambda>r. if req_peer r = OMPI_ANY_SOURCE then Inl r else Inr r) (find (\<lambda>r. from_source r i \<and> tag_fits r tag) rs))"
  using assms
proof (induction rs)
  case Nil
  then show ?case by (simp add: match_loop.simps)
next
  case (Cons r rs)
  have less: "req_sequence r < posted_seq (filter P rs)" for P using posted_seq_filter Cons.prems(1,2) by blast
  have IH: "match_loop tag (filter (\<lambda>r. req_peer r = OMPI_ANY_SOURCE) rs) (filter (\<lambda>r. req_peer r = i) rs) =
    Some (map_option (\<lambda>r. if req_peer r = OMPI_ANY_SOURCE then Inl r else Inr r) (find (\<lambda>r. from_source r i \<and> tag_fits r tag) rs))"
    using Cons by simp
  have i: "i \<noteq> OMPI_ANY_SOURCE" using \<open>0 \<le> i\<close> by (simp add: OMPI_ANY_SOURCE_def)
  consider "req_peer r = OMPI_ANY_SOURCE" | "req_peer r = i" "req_peer r \<noteq> OMPI_ANY_SOURCE" | "\<not> from_source r i" by (auto simp: from_source_def)
  then show ?case
  proof cases
    case 1
    then show ?thesis using less [of "\<lambda>r. req_peer r = i"] less [of "\<lambda>r. req_peer r = i", THEN less_imp_neq] i IH
      by (subst match_loop.simps) (simp add: from_source_def)
  next
    case 2
    then show ?thesis using less [of "\<lambda>r. req_peer r = OMPI_ANY_SOURCE"] less [of "\<lambda>r. req_peer r = OMPI_ANY_SOURCE", THEN less_imp_neq]
      less [of "\<lambda>r. req_peer r = OMPI_ANY_SOURCE", THEN less_not_sym] i IH
      by (subst match_loop.simps) (simp add: from_source_def order.asym)
  next
    case 3
    then show ?thesis using IH by (simp add: from_source_def)
  qed
qed


lemma deliver_None: "find (\<lambda>r. fits r i f) rs = None \<Longrightarrow> deliver i f rs = ([], rs, True)"
  by (induction rs) (auto split: if_splits)

lemma deliver_Some:
  "find (\<lambda>r. fits r i f) rs = Some r \<Longrightarrow> deliver i f rs =
     (if req_type r = MCA_PML_REQUEST_PROBE then let (os, rs', w) = deliver i f (remove1 r rs) in (Probed r f # os, rs', w)
      else if req_type r = MCA_PML_REQUEST_MPROBE then ([Grabbed r f], remove1 r rs, False)
      else ([Received r f], remove1 r rs, False))"
proof (induction rs)
  case (Cons x rs)
  show ?case
  proof (cases "fits x i f")
    case True
    then show ?thesis using Cons.prems by simp
  next
    case False
    then have "find (\<lambda>r. fits r i f) rs = Some r" using Cons.prems by simp
    moreover from this have "x \<noteq> r" using False by (auto simp: find_Some_iff)
    ultimately show ?thesis using Cons.IH False by (simp split: prod.splits)
  qed
qed simp

lemma sorted_wrt_remove1: "sorted_wrt R xs \<Longrightarrow> sorted_wrt R (remove1 x xs)"
proof (induction xs)
  case (Cons y ys)
  then show ?case using set_remove1_subset [of x ys] by auto
qed simp

text \<open>The posted receives lose one request: so does the queue that holds it.\<close>

definition remove_posted :: "mca_pml_base_request_t \<Rightarrow> 'a comm \<Rightarrow> 'a comm" where
  "remove_posted r comm = (if req_peer r = OMPI_ANY_SOURCE then comm\<lparr>wild_receives := remove1 r (wild_receives comm)\<rparr>
     else set_proc comm (req_peer r) ((procs comm ! nat (req_peer r))
            \<lparr>specific_receives := remove1 r (specific_receives (procs comm ! nat (req_peer r)))\<rparr>))"

lemma order_set_proc:
  "i < length (procs comm) \<Longrightarrow> expected_sequence p = expected_sequence (procs comm ! i) \<Longrightarrow>
     frags_cant_match p = frags_cant_match (procs comm ! i) \<Longrightarrow> order (set_proc comm (int i) p) = order comm"
  by (auto simp: order_def set_proc_def intro!: nth_equalityI simp: nth_list_update)

lemma set_proc_simps [simp]:
  "recv_sequence (set_proc comm i p) = recv_sequence comm" "wild_receives (set_proc comm i p) = wild_receives comm"
  "last_probed (set_proc comm i p) = last_probed comm" "procs (set_proc comm i p) = (procs comm)[nat i := p]"
  by (simp_all add: set_proc_def)

lemma remove_posted_implements:
  assumes imp: "implements comm a" and r: "req_peer r = OMPI_ANY_SOURCE \<or> (0 \<le> req_peer r \<and> req_peer r < int (length (procs comm)))"
  shows "implements (remove_posted r comm) (a\<lparr>posted := remove1 r (posted a)\<rparr>)"
    "order (remove_posted r comm) = order comm" "recv_sequence (remove_posted r comm) = recv_sequence comm"
    "last_probed (remove_posted r comm) = last_probed comm" "length (procs (remove_posted r comm)) = length (procs comm)"
proof -
  have s: "sorted_wrt (<) (map req_sequence (remove1 r (posted a)))" using imp sorted_wrt_remove1
    by (auto simp: implements_def sorted_wrt_map)
  have sub: "\<forall>q \<in> set (remove1 r (posted a)). unat (req_sequence q) < unat (recv_sequence comm)"
    using imp set_remove1_subset [of r "posted a"] unfolding implements_def by blast
  show "implements (remove_posted r comm) (a\<lparr>posted := remove1 r (posted a)\<rparr>)"
  proof (cases "req_peer r = OMPI_ANY_SOURCE")
    case True
    have "OMPI_ANY_SOURCE \<noteq> int i" for i by (simp add: OMPI_ANY_SOURCE_def)
    then show ?thesis using imp True s sub by (auto simp: implements_def remove_posted_def filter_remove1)
  next
    case False
    then obtain k where k: "req_peer r = int k" "k < length (procs comm)" using r by (metis nonneg_int_cases of_nat_less_iff)
    have "map unexpected_frags (procs (remove_posted r comm)) = map unexpected_frags (procs comm)"
      using False k by (auto simp: remove_posted_def intro!: nth_equalityI simp: nth_list_update)
    moreover have "specific_receives (procs (remove_posted r comm) ! i) = filter (\<lambda>q. req_peer q = int i) (remove1 r (posted a))"
      if "i < length (procs comm)" for i
      using imp False k that by (auto simp: implements_def remove_posted_def nth_list_update filter_remove1)
    ultimately show ?thesis using imp False k s sub by (auto simp: implements_def remove_posted_def filter_remove1)
  qed
  show "order (remove_posted r comm) = order comm"
    using r order_set_proc [of "nat (req_peer r)" comm]
    by (cases "req_peer r = OMPI_ANY_SOURCE") (simp add: remove_posted_def order_def, simp add: remove_posted_def nat_less_iff)
qed (simp_all add: remove_posted_def)

lemma implements_bound: "implements comm a \<Longrightarrow> r \<in> set (posted a) \<Longrightarrow> req_sequence r < PML_MAX_SEQ"
proof -
  assume "implements comm a" "r \<in> set (posted a)"
  moreover have "unat (recv_sequence comm) < 2 ^ 32" by (rule order_less_le_trans [OF unsigned_less]) simp
  ultimately have "unat (req_sequence r) < 2 ^ 32" by (meson implements_def order_less_trans)
  moreover have "unat PML_MAX_SEQ = 2 ^ 64 - 1" by (simp add: PML_MAX_SEQ_def unsigned_minus_1_eq_mask mask_eq_exp_minus_1)
  ultimately show ?thesis by (simp add: word_less_nat_alt)
qed

lemma match_incomming_implements:
  assumes imp: "implements comm a" and i: "i < length (procs comm)" "hdr_src f = int i"
  shows "match_incomming f comm = Some (case find (\<lambda>r. fits r (int i) f) (posted a) of None \<Rightarrow> (None, comm) | Some r \<Rightarrow> (Some r, remove_posted r comm))"
proof -
  have "match_loop (hdr_tag f) (wild_receives comm) (specific_receives (procs comm ! i)) =
      Some (map_option (\<lambda>r. if req_peer r = OMPI_ANY_SOURCE then Inl r else Inr r) (find (\<lambda>r. fits r (int i) f) (posted a)))"
    using match_loop_find [of "posted a" "int i" "hdr_tag f"] imp i implements_bound [OF imp]
    by (simp add: implements_def fits_def)
  moreover have "req_peer r \<noteq> OMPI_ANY_SOURCE \<longrightarrow> req_peer r = int i" if "find (\<lambda>r. fits r (int i) f) (posted a) = Some r" for r
    using that by (auto simp: fits_def from_source_def find_Some_iff)
  ultimately show ?thesis using i
    by (cases "find (\<lambda>r. fits r (int i) f) (posted a)") (auto simp: match_incomming_def remove_posted_def)
qed

text \<open>Matching one message is one step of the machine.\<close>

definition all_outcomes :: "mca_pml_base_request_t option \<Rightarrow> 'a frag \<Rightarrow> 'a outcome list \<Rightarrow> 'a outcome list" where
  "all_outcomes m f os = os @ (case m of None \<Rightarrow> [] | Some r \<Rightarrow> [Received r f])"

lemma match_one_implements:
  assumes "implements comm a" "i < length (procs comm)" "hdr_src f = int i" "hdr_tag f \<noteq> OMPI_ANY_TAG"
  shows "\<exists>m os comm'. match_one f comm = Some (m, os, comm') \<and> mpi_deliver i f a = (all_outcomes m f os, snd (mpi_deliver i f a)) \<and>
    implements comm' (snd (mpi_deliver i f a)) \<and> order comm' = order comm \<and>
    recv_sequence comm' = recv_sequence comm \<and> length (procs comm') = length (procs comm)"
  using assms
proof (induction f comm arbitrary: a rule: match_one.induct)
  case (1 f comm)
  note m = match_incomming_implements [OF "1.prems"(1-3)] and one = match_one.simps [of f comm]
  show ?case
  proof (cases "find (\<lambda>r. fits r (int i) f) (posted a)")
    case None
    let ?comm' = "set_proc comm (int i) ((procs comm ! i)\<lparr>unexpected_frags := unexpected_frags (procs comm ! i) @ [f]\<rparr>)"
    have tags: "\<forall>g \<in> set (unexpected_frags (procs comm ! i)). hdr_tag g \<noteq> OMPI_ANY_TAG"
      using "1.prems"(1) nth_mem [OF "1.prems"(2)] by (auto simp: implements_def simp del: nth_mem)
    have "mpi_deliver i f a = ([], a\<lparr>waiting := (waiting a)[i := waiting a ! i @ [f]]\<rparr>)"
      using deliver_None [OF None] by (simp add: mpi_deliver_def)
    moreover have "implements ?comm' (a\<lparr>waiting := (waiting a)[i := waiting a ! i @ [f]]\<rparr>)"
      using "1.prems" tags by (auto simp: implements_def map_update nth_list_update dest!: set_update_subset_insert [THEN subsetD])
    moreover have "order ?comm' = order comm" using "1.prems" by (intro order_set_proc) simp_all
    ultimately show ?thesis using m None "1.prems"(2,3) one by (simp add: all_outcomes_def)
  next
    case (Some r)
    have r: "fits r (int i) f" "r \<in> set (posted a)" using Some by (auto simp: find_Some_iff)
    then have "req_peer r = OMPI_ANY_SOURCE \<or> (0 \<le> req_peer r \<and> req_peer r < int (length (procs comm)))"
      using "1.prems"(2) by (auto simp: fits_def from_source_def)
    note r' = remove_posted_implements [OF "1.prems"(1) this]
    have inc: "match_incomming f comm = Some (Some r, remove_posted r comm)" using m Some by simp
    show ?thesis
    proof (cases "req_type r = MCA_PML_REQUEST_PROBE")
      case True
      let ?a = "a\<lparr>posted := remove1 r (posted a)\<rparr>"
      obtain m' os comm' where "match_one f (remove_posted r comm) = Some (m', os, comm')"
        "mpi_deliver i f ?a = (all_outcomes m' f os, snd (mpi_deliver i f ?a))" "implements comm' (snd (mpi_deliver i f ?a))"
        "order comm' = order comm" "recv_sequence comm' = recv_sequence comm" "length (procs comm') = length (procs comm)"
        using "1.IH" [OF inc refl refl True r'(1)] "1.prems" r' by auto
      moreover have "mpi_deliver i f a = (Probed r f # fst (mpi_deliver i f ?a), snd (mpi_deliver i f ?a))"
        using deliver_Some [OF Some] True by (simp add: mpi_deliver_def split: prod.splits)
      ultimately show ?thesis using inc True one by (simp add: all_outcomes_def) (metis fst_conv)
    next
      case False
      then have "mpi_deliver i f a = ([if req_type r = MCA_PML_REQUEST_MPROBE then Grabbed r f else Received r f], a\<lparr>posted := remove1 r (posted a)\<rparr>)"
        using deliver_Some [OF Some] by (simp add: mpi_deliver_def)
      then show ?thesis using inc False one r' by (simp add: all_outcomes_def)
    qed
  qed
qed


text \<open>Posting a receive.\<close>

lemma match_specific_find:
  assumes "\<forall>f \<in> set (unexpected_frags p). hdr_tag f \<noteq> OMPI_ANY_TAG" "from_source r (int i)"
  shows "recv_req_match_specific_proc r p = find (fits r (int i)) (unexpected_frags p)"
  using assms by (auto simp: recv_req_match_specific_proc_def fits_def tag_fits_def intro!: find_cong)

lemma wild_loop_Some:
  "\<forall>i \<in> set is. i < length (procs comm) \<Longrightarrow> \<exists>x. wild_loop r comm is = Some x \<and>
     (case x of None \<Rightarrow> \<forall>i \<in> set is. recv_req_match_specific_proc r (procs comm ! i) = None
      | Some (i, f) \<Rightarrow> i \<in> set is \<and> recv_req_match_specific_proc r (procs comm ! i) = Some f)"
proof (induction "is")
  case (Cons i "is")
  then show ?case by (cases "recv_req_match_specific_proc r (procs comm ! i)") (auto split: option.splits)
qed simp

text \<open>The round-robin search visits every source.\<close>

lemma match_wild:
  assumes "last_probed comm < length (procs comm)"
  shows "\<exists>x k. recv_req_match_wild r comm = Some (x, comm\<lparr>last_probed := k\<rparr>) \<and> k < length (procs comm) \<and>
     (case x of None \<Rightarrow> \<forall>i < length (procs comm). recv_req_match_specific_proc r (procs comm ! i) = None
      | Some (i, f) \<Rightarrow> i < length (procs comm) \<and> recv_req_match_specific_proc r (procs comm ! i) = Some f)"
proof -
  let ?hi = "[last_probed comm + 1..<length (procs comm)]" and ?lo = "[0..<Suc (last_probed comm)]"
  obtain x where x: "wild_loop r comm ?hi = Some x"
    "case x of None \<Rightarrow> \<forall>i \<in> set ?hi. recv_req_match_specific_proc r (procs comm ! i) = None
      | Some (i, f) \<Rightarrow> i \<in> set ?hi \<and> recv_req_match_specific_proc r (procs comm ! i) = Some f"
    using wild_loop_Some [of ?hi comm r] by auto
  obtain y where y: "wild_loop r comm ?lo = Some y"
    "case y of None \<Rightarrow> \<forall>i \<in> set ?lo. recv_req_match_specific_proc r (procs comm ! i) = None
      | Some (i, f) \<Rightarrow> i \<in> set ?lo \<and> recv_req_match_specific_proc r (procs comm ! i) = Some f"
    using wild_loop_Some [of ?lo comm r] assms by auto
  have comm: "comm = comm\<lparr>last_probed := last_probed comm\<rparr>" by simp
  show ?thesis
  proof (cases x)
    case (Some p)
    then show ?thesis using x by (cases p) (auto simp: recv_req_match_wild_def)
  next
    case None
    show ?thesis
    proof (cases y)
      case (Some p)
      then show ?thesis using x y None assms by (cases p) (auto simp: recv_req_match_wild_def simp del: upt_Suc)
    next
      case y0: None
      have hi: "\<forall>i \<in> set ?hi. recv_req_match_specific_proc r (procs comm ! i) = None"
        and lo: "\<forall>i \<in> set ?lo. recv_req_match_specific_proc r (procs comm ! i) = None"
        using x(2) y(2) unfolding None y0 option.case by this
      have "recv_req_match_specific_proc r (procs comm ! i) = None" if "i < length (procs comm)" for i
        using that hi [THEN bspec, of i] lo [THEN bspec, of i] by (cases "i \<le> last_probed comm") (simp_all only: set_upt atLeastLessThan_iff, simp_all)
      then have "\<forall>i < length (procs comm). recv_req_match_specific_proc r (procs comm ! i) = None" by simp
      moreover have "recv_req_match_wild r comm = Some (None, comm\<lparr>last_probed := last_probed comm\<rparr>)"
        using x y None y0 by (simp add: recv_req_match_wild_def del: upt_Suc)
      ultimately show ?thesis using assms by (intro exI [of _ None] exI [of _ "last_probed comm"]) simp
    qed
  qed
qed


lemma implements_tags: "implements comm a \<Longrightarrow> i < length (procs comm) \<Longrightarrow> \<forall>f \<in> set (unexpected_frags (procs comm ! i)). hdr_tag f \<noteq> OMPI_ANY_TAG"
  by (auto simp: implements_def)

lemma take_implements:
  assumes "implements comm a" "i < length (procs comm)"
  shows "implements (set_proc comm (int i) ((procs comm ! i)\<lparr>unexpected_frags := remove1 f (unexpected_frags (procs comm ! i))\<rparr>))
    (a\<lparr>waiting := (waiting a)[i := remove1 f (waiting a ! i)]\<rparr>)"
proof -
  have "\<forall>g \<in> set (remove1 f (unexpected_frags (procs comm ! i))). hdr_tag g \<noteq> OMPI_ANY_TAG"
    using implements_tags [OF assms] set_remove1_subset [of f "unexpected_frags (procs comm ! i)"] by blast
  then show ?thesis using assms
    by (auto simp: implements_def map_update nth_list_update dest!: set_update_subset_insert [THEN subsetD])
qed

lemma sorted_wrt_snoc: "sorted_wrt R (xs @ [x]) \<longleftrightarrow> sorted_wrt R xs \<and> (\<forall>y \<in> set xs. R y x)"
  by (auto simp: sorted_wrt_append)

lemma append_wild_implements:
  assumes "implements comm a" "req_peer r = OMPI_ANY_SOURCE" "\<forall>q \<in> set (posted a). req_sequence q < req_sequence r"
    "unat (req_sequence r) < unat (recv_sequence comm)"
  shows "implements (comm\<lparr>wild_receives := append_recv_req_to_queue (wild_receives comm) r\<rparr>)
    (a\<lparr>posted := append_recv_req_to_queue (posted a) r\<rparr>)"
proof -
  have "OMPI_ANY_SOURCE \<noteq> int i" for i by (simp add: OMPI_ANY_SOURCE_def)
  then show ?thesis using assms by (auto simp: implements_def append_recv_req_to_queue_def sorted_wrt_snoc)
qed

lemma append_specific_implements:
  assumes "implements comm a" "req_peer r = int k" "k < length (procs comm)" "\<forall>q \<in> set (posted a). req_sequence q < req_sequence r"
    "unat (req_sequence r) < unat (recv_sequence comm)"
  shows "implements (set_proc comm (int k) ((procs comm ! k)\<lparr>specific_receives := append_recv_req_to_queue (specific_receives (procs comm ! k)) r\<rparr>))
    (a\<lparr>posted := append_recv_req_to_queue (posted a) r\<rparr>)" (is "implements ?comm' _")
proof -
  have any: "int i \<noteq> OMPI_ANY_SOURCE" for i by (simp add: OMPI_ANY_SOURCE_def)
  have "map unexpected_frags (procs ?comm') = map unexpected_frags (procs comm)"
    using assms(3) by (auto intro!: nth_equalityI simp: nth_list_update)
  moreover have "specific_receives (procs ?comm' ! i) = filter (\<lambda>q. req_peer q = int i) (append_recv_req_to_queue (posted a) r)"
    if "i < length (procs comm)" for i
    using assms that by (auto simp: implements_def append_recv_req_to_queue_def nth_list_update)
  moreover have "sorted_wrt (<) (map req_sequence (append_recv_req_to_queue (posted a) r))"
    using assms by (auto simp: implements_def append_recv_req_to_queue_def sorted_wrt_snoc)
  ultimately show ?thesis using assms any by (auto simp: implements_def append_recv_req_to_queue_def)
qed

text \<open>The request with its number.\<close>

definition numbered_request :: "nat \<Rightarrow> mca_pml_base_request_t \<Rightarrow> mca_pml_base_request_t" where
  "numbered_request c r = r\<lparr>req_sequence := word_of_nat c\<rparr>"

lemma numbered_request_simps [simp]:
  "req_peer (numbered_request c r) = req_peer r" "req_tag (numbered_request c r) = req_tag r"
  "req_type (numbered_request c r) = req_type r" "req_sequence (numbered_request c r) = word_of_nat c"
  "IS_PROB_REQ (numbered_request c r) = IS_PROB_REQ r" "IS_MPROB_REQ (numbered_request c r) = IS_MPROB_REQ r"
  by (simp_all add: numbered_request_def IS_PROB_REQ_def IS_MPROB_REQ_def)

definition valid_peer :: "mca_pml_base_request_t \<Rightarrow> nat \<Rightarrow> bool" where
  "valid_peer r n \<longleftrightarrow> req_peer r = OMPI_ANY_SOURCE \<or> (0 \<le> req_peer r \<and> req_peer r < int n)"


lemma order_wild [simp]: "order (comm\<lparr>wild_receives := w\<rparr>) = order comm" "order (comm\<lparr>recv_sequence := c\<rparr>) = order comm"
  "order (comm\<lparr>last_probed := k\<rparr>) = order comm"
  by (simp_all add: order_def)

text \<open>What the search among the unexpected messages gives, for both kinds of receive.\<close>

lemma search_unexpected:
  assumes imp: "implements comm a" and peer: "valid_peer r (length (procs comm))"
  shows "\<exists>x k.
     (if req_peer r = OMPI_ANY_SOURCE then recv_req_match_wild r comm
      else do { proc \<leftarrow> aget (procs comm) (req_peer r);
                Some (map_option (\<lambda>f. (nat (req_peer r), f)) (recv_req_match_specific_proc r proc), comm) })
       = Some (x, comm\<lparr>last_probed := k\<rparr>) \<and> k < length (procs comm) \<and>
     (case x of None \<Rightarrow> \<forall>i < length (waiting a). find (fits r (int i)) (waiting a ! i) = None
      | Some (i, f) \<Rightarrow> i < length (waiting a) \<and> find (fits r (int i)) (waiting a ! i) = Some f)"
proof (cases "req_peer r = OMPI_ANY_SOURCE")
  case True
  have last: "last_probed comm < length (procs comm)" using imp by (simp add: implements_def)
  have "recv_req_match_specific_proc r (procs comm ! i) = find (fits r (int i)) (waiting a ! i)" if "i < length (procs comm)" for i
    using match_specific_find [OF implements_tags [OF imp that], of r i] that imp True by (simp add: implements_def from_source_def)
  moreover have "length (waiting a) = length (procs comm)" using imp by (simp add: implements_def)
  moreover obtain x k where "recv_req_match_wild r comm = Some (x, comm\<lparr>last_probed := k\<rparr>)" "k < length (procs comm)"
     "case x of None \<Rightarrow> \<forall>i < length (procs comm). recv_req_match_specific_proc r (procs comm ! i) = None
      | Some (i, f) \<Rightarrow> i < length (procs comm) \<and> recv_req_match_specific_proc r (procs comm ! i) = Some f"
    using match_wild [OF last, of r] by blast
  ultimately show ?thesis using True by (intro exI [of _ x] exI [of _ k]) (auto split: option.splits)
next
  case False
  then obtain k where k: "req_peer r = int k" "k < length (procs comm)" using peer by (metis nonneg_int_cases of_nat_less_iff valid_peer_def)
  have same: "recv_req_match_specific_proc r (procs comm ! k) = find (fits r (int k)) (waiting a ! k)"
    using match_specific_find [OF implements_tags [OF imp k(2)], of r k] k imp by (simp add: implements_def from_source_def)
  have other: "find (fits r (int i)) (waiting a ! i) = None" if "i \<noteq> k" for i
    using False k that by (auto simp: find_None_iff fits_def from_source_def)
  have comm: "comm\<lparr>last_probed := last_probed comm\<rparr> = comm" and "last_probed comm < length (procs comm)" using imp by (simp_all add: implements_def)
  have len: "length (waiting a) = length (procs comm)" using imp by (simp add: implements_def)
  show ?thesis
  proof (cases "find (fits r (int k)) (waiting a ! k)")
    case None
    then have "\<forall>i < length (waiting a). find (fits r (int i)) (waiting a ! i) = None" using other by metis
    then show ?thesis using False k same None comm \<open>last_probed comm < length (procs comm)\<close>
      by (intro exI [of _ None] exI [of _ "last_probed comm"]) simp
  next
    case (Some f)
    then show ?thesis using False k same comm len \<open>last_probed comm < length (procs comm)\<close>
      by (intro exI [of _ "Some (k, f)"] exI [of _ "last_probed comm"]) simp
  qed
qed

lemma recv_req_start_implements:
  assumes imp: "implements comm a" and c: "recv_sequence comm = word_of_nat c" "Suc c < 2 ^ 32" and peer: "valid_peer r (length (procs comm))"
  shows "\<exists>os comm' a'. mca_pml_ob1_recv_req_start r comm = Some (os, comm') \<and> mpi_post (numbered_request c r) a os a' \<and>
    implements comm' a' \<and> order comm' = order comm \<and> recv_sequence comm' = word_of_nat (Suc c) \<and> length (procs comm') = length (procs comm)"
proof -
  define q where "q = numbered_request c r"
  define comm1 where "comm1 = comm\<lparr>recv_sequence := recv_sequence comm + 1\<rparr>"
  have unat: "unat (word_of_nat c :: 32 word) = c" "unat (word_of_nat c + 1 :: 32 word) = Suc c"
    "unat (word_of_nat c :: 64 word) = c"
    using c(2) by (simp_all add: unat_of_nat unat_word_ariths take_bit_nat_eq_self)
  have uc: "ucast (word_of_nat c :: 32 word) = (word_of_nat c :: 64 word)"
    using unat c(2) by (simp add: unsigned_ucast_eq word_eq_iff_unsigned [where 'a = nat] take_bit_nat_eq_self)
  have q: "r\<lparr>req_sequence := ucast (recv_sequence comm)\<rparr> = q" using c uc by (simp add: q_def numbered_request_def)
  have imp1: "implements comm1 a" using imp unat c(1) unfolding implements_def comm1_def by (auto simp: less_Suc_eq)
  have new: "\<forall>p \<in> set (posted a). req_sequence p < req_sequence q" "unat (req_sequence q) < unat (recv_sequence comm1)"
    using imp unat c(1) by (auto simp: implements_def q_def comm1_def word_less_nat_alt)
  have "valid_peer q (length (procs comm1))" using peer by (simp add: q_def comm1_def valid_peer_def)
  from search_unexpected [OF imp1 this] obtain x k where search:
     "(if req_peer q = OMPI_ANY_SOURCE then recv_req_match_wild q comm1
      else do { proc \<leftarrow> aget (procs comm1) (req_peer q);
                Some (map_option (\<lambda>f. (nat (req_peer q), f)) (recv_req_match_specific_proc q proc), comm1) })
       = Some (x, comm1\<lparr>last_probed := k\<rparr>)"
    and k: "k < length (procs comm1)" and
    x: "case x of None \<Rightarrow> \<forall>i < length (waiting a). find (fits q (int i)) (waiting a ! i) = None
      | Some (i, f) \<Rightarrow> i < length (waiting a) \<and> find (fits q (int i)) (waiting a ! i) = Some f"
    by blast
  define comm2 where "comm2 = comm1\<lparr>last_probed := k\<rparr>"
  have imp2: "implements comm2 a" using imp1 k by (simp add: implements_def comm2_def)
  have comm2: "order comm2 = order comm" "recv_sequence comm2 = word_of_nat (Suc c)" "procs comm2 = procs comm"
    using c(1) by (simp_all add: comm2_def comm1_def order_def add.commute)
  note start = mca_pml_ob1_recv_req_start_def [of r comm, unfolded Let_def, unfolded q, folded comm1_def, unfolded search, folded comm2_def]
  show ?thesis
  proof (cases x)
    case None
    then have post: "mpi_post q a [] (a\<lparr>posted := append_recv_req_to_queue (posted a) q\<rparr>)" using x by (auto intro: mpi_post.miss)
    show ?thesis
    proof (cases "req_peer q = OMPI_ANY_SOURCE")
      case True
      have rec: "recv_sequence comm2 = recv_sequence comm1" by (simp add: comm2_def)
      note imp3 = append_wild_implements [OF imp2 True new(1), unfolded rec, OF new(2)]
      have "mca_pml_ob1_recv_req_start r comm = Some ([], comm2\<lparr>wild_receives := append_recv_req_to_queue (wild_receives comm2) q\<rparr>)"
        using start None True by simp
      then show ?thesis unfolding q_def [symmetric] using post imp3 comm2 by fastforce
    next
      case False
      then obtain j where j: "req_peer q = int j" "j < length (procs comm2)"
        using peer comm2 by (metis nonneg_int_cases of_nat_less_iff valid_peer_def q_def numbered_request_simps(1))
      have rec: "recv_sequence comm2 = recv_sequence comm1" by (simp add: comm2_def)
      let ?comm3 = "set_proc comm2 (int j) ((procs comm2 ! j)\<lparr>specific_receives := append_recv_req_to_queue (specific_receives (procs comm2 ! j)) q\<rparr>)"
      note imp3 = append_specific_implements [OF imp2 j new(1), unfolded rec, OF new(2)]
      have "mca_pml_ob1_recv_req_start r comm = Some ([], ?comm3)" using start None False j by simp
      moreover have "order ?comm3 = order comm" using order_set_proc [OF j(2)] comm2 by simp
      ultimately show ?thesis unfolding q_def [symmetric] using post imp3 comm2 by fastforce
    qed
  next
    case (Some p)
    obtain i f where p: "p = (i, f)" by (cases p)
    have f: "i < length (waiting a)" "find (fits q (int i)) (waiting a ! i) = Some f" using x Some p by simp_all
    then have i: "i < length (procs comm2)" using imp2 by (simp add: implements_def)
    note post = mpi_post.hit [OF f]
    let ?comm3 = "set_proc comm2 (int i) ((procs comm2 ! i)\<lparr>unexpected_frags := remove1 f (unexpected_frags (procs comm2 ! i))\<rparr>)"
    define comm3 where "comm3 = (if IS_PROB_REQ q \<and> \<not> IS_MPROB_REQ q then comm2 else ?comm3)"
    have "implements comm3 (take_message q i f a)"
      using take_implements [OF imp2 i, of f] imp2 by (simp add: comm3_def take_message_def)
    moreover have "mca_pml_ob1_recv_req_start r comm = Some ([take_outcome q f], comm3)"
      using start Some p i by (simp add: comm3_def take_outcome_def)
    moreover have "order comm3 = order comm" "recv_sequence comm3 = word_of_nat (Suc c)" "length (procs comm3) = length (procs comm)"
      using order_set_proc [OF i] comm2 by (simp_all add: comm3_def)
    ultimately show ?thesis unfolding q_def [symmetric] using post by fastforce
  qed
qed

end
