(* ===== verification/Pml_Order.thy ===== *)
theory Pml_Order
  imports Pml_Matching
begin

text \<open>
  The order of the messages of a source: they are numbered modulo \<open>2^16\<close>, may arrive in any order within
  a window of that length, and are matched in the order in which they were sent. With it whole runs of
  \<^verbatim>\<open>pml/ob1\<close> are runs of the machine of MPI.
\<close>

section \<open>Numbers\<close>

text \<open>What a rank sends: the messages of every source, with the numbers its counter gives them.\<close>

definition numbered_list :: "int \<Rightarrow> 'a frag list \<Rightarrow> bool" where
  "numbered_list i fs \<longleftrightarrow> (\<forall>k < length fs. hdr_src (fs ! k) = i \<and> hdr_seq (fs ! k) = word_of_nat (Suc k) \<and> hdr_tag (fs ! k) \<noteq> OMPI_ANY_TAG)"

lemma word16_window:
  assumes "n \<le> k" "k < n + 2 ^ 16"
  shows "(word_of_nat k :: 16 word) = word_of_nat n \<longleftrightarrow> k = n"
proof
  assume "(word_of_nat k :: 16 word) = word_of_nat n"
  then have "k mod 2 ^ 16 = n mod 2 ^ 16" by (simp add: word_of_nat_eq_iff take_bit_eq_mod)
  then have "(k - n) mod 2 ^ 16 = 0" using assms(1) by (metis mod_eq_dvd_iff_nat dvd_imp_mod_0)
  moreover have "k - n < 2 ^ 16" using assms by linarith
  ultimately show "k = n" using assms(1) by simp
qed simp

text \<open>The state of the buffer of source \<^verbatim>\<open>i\<close>: message \<open>n\<close> is next, the messages \<open>ks\<close> came too early.\<close>

definition buffered :: "'a comm \<Rightarrow> nat \<Rightarrow> 'a frag list \<Rightarrow> nat \<Rightarrow> nat list \<Rightarrow> bool" where
  "buffered comm i fs n ks \<longleftrightarrow> order comm ! i = (word_of_nat (Suc n), map ((!) fs) ks) \<and> distinct ks \<and> n \<le> length fs \<and>
     (\<forall>k \<in> set ks. n < k \<and> k < n + 2 ^ 16 \<and> k < length fs)"

lemma buffered_proc:
  "i < length (procs comm) \<Longrightarrow> buffered comm i fs n ks \<Longrightarrow>
     expected_sequence (procs comm ! i) = word_of_nat (Suc n) \<and> frags_cant_match (procs comm ! i) = map ((!) fs) ks"
  by (auto simp: buffered_def order_def)

fun deliver_all :: "nat \<Rightarrow> 'a frag list \<Rightarrow> 'a mpi \<Rightarrow> 'a outcome list \<times> 'a mpi" where
  "deliver_all i [] a = ([], a)"
| "deliver_all i (f # fs) a = (let (os, a1) = mpi_deliver i f a; (os', a2) = deliver_all i fs a1 in (os @ os', a2))"

lemma find_map: "find P (map g xs) = map_option g (find (\<lambda>x. P (g x)) xs)"
  by (induction xs) auto

lemma remove1_map_inj: "inj_on g (insert x (set xs)) \<Longrightarrow> remove1 (g x) (map g xs) = map g (remove1 x xs)"
  by (induction xs) (auto simp: inj_on_def)

lemma find_eq: "find (\<lambda>k. k = m) ks = (if m \<in> set ks then Some m else None)"
  by (induction ks) auto

text \<open>The search among the early messages finds the next one.\<close>

lemma check_cantmatch:
  assumes fs: "numbered_list (int i) fs" and ks: "distinct ks" "\<forall>k \<in> set ks. n \<le> k \<and> k < n + 2 ^ 16 \<and> k < length fs"
    and proc: "expected_sequence proc = word_of_nat (Suc n)" "frags_cant_match proc = map ((!) fs) ks"
  shows "check_cantmatch_for_match proc =
    (if n \<in> set ks then Some (fs ! n, proc\<lparr>frags_cant_match := map ((!) fs) (remove1 n ks)\<rparr>) else None)"
proof -
  have seq: "hdr_seq (fs ! k) = expected_sequence proc \<longleftrightarrow> k = n" if "k \<in> set ks" for k
    using that fs ks proc word16_window [of "Suc n" "Suc k"] by (auto simp: numbered_list_def)
  have "find (\<lambda>f. hdr_seq f = expected_sequence proc) (frags_cant_match proc) = map_option ((!) fs) (find (\<lambda>k. k = n) ks)"
    using seq by (simp add: proc(2) find_map cong: find_cong)
  moreover have "inj_on ((!) fs) (set ks)"
  proof (rule inj_onI)
    fix x y assume xy: "x \<in> set ks" "y \<in> set ks" "fs ! x = fs ! y"
    then have eq: "(word_of_nat (Suc x) :: 16 word) = word_of_nat (Suc y)" using fs ks(2) unfolding numbered_list_def by metis
    have b: "n \<le> x" "x < n + 2 ^ 16" "n \<le> y" "y < n + 2 ^ 16" using xy ks(2) by auto
    show "x = y"
    proof (cases "x \<le> y")
      case True
      then show ?thesis using word16_window [of "Suc x" "Suc y"] eq b by simp
    next
      case False
      then show ?thesis using word16_window [of "Suc y" "Suc x"] eq b by simp
    qed
  qed
  ultimately show ?thesis
    by (simp add: check_cantmatch_for_match_def find_eq proc(2) remove1_map_inj insert_absorb)
qed


lemma mpi_deliver_eta: "mpi_deliver i f a = (fst (mpi_deliver i f a), snd (mpi_deliver i f a))" by simp

lemma order_nth: "i < length (procs comm) \<Longrightarrow> order comm ! i = (expected_sequence (procs comm ! i), frags_cant_match (procs comm ! i))"
  by (simp add: order_def)

lemma length_order [simp]: "length (order comm) = length (procs comm)" by (simp add: order_def)

lemma order_set_proc_update:
  "order (set_proc comm (int i) p) = (order comm)[i := (expected_sequence p, frags_cant_match p)]"
  by (simp add: order_def map_update)

lemma implements_set_order:
  assumes "implements comm a" "i < length (procs comm)" "specific_receives p = specific_receives (procs comm ! i)"
    "unexpected_frags p = unexpected_frags (procs comm ! i)"
  shows "implements (set_proc comm (int i) p) a"
proof -
  have "map unexpected_frags (procs (set_proc comm (int i) p)) = map unexpected_frags (procs comm)"
    using assms by (auto intro!: nth_equalityI simp: nth_list_update)
  then show ?thesis using assms by (auto simp: implements_def nth_list_update)
qed

text \<open>The message that was missing and the early ones behind it are matched in order.\<close>

lemma out_of_order_match_implements:
  assumes "implements comm a" "i < length (procs comm)" "numbered_list (int i) fs" "buffered comm i fs n ks" "n < length fs"
  shows "\<exists>n' os comm' ks'. n < n' \<and> out_of_order_match (fs ! n) comm = Some (os, comm') \<and>
    deliver_all i (map ((!) fs) [n..<n']) a = (os, snd (deliver_all i (map ((!) fs) [n..<n']) a)) \<and>
    implements comm' (snd (deliver_all i (map ((!) fs) [n..<n']) a)) \<and> buffered comm' i fs n' ks' \<and>
    set ks \<subseteq> {..<n'} \<union> set ks' \<and> set ks' \<subseteq> set ks \<and> {n<..<n'} \<subseteq> set ks \<and> n' \<notin> set ks' \<and>
    (\<forall>j. j \<noteq> i \<longrightarrow> j < length (procs comm) \<longrightarrow> order comm' ! j = order comm ! j) \<and>
    recv_sequence comm' = recv_sequence comm \<and> length (procs comm') = length (procs comm)"
  using assms
proof (induction "length ks" arbitrary: comm a n ks rule: less_induct)
  case less
  note imp = less.prems(1) and i = less.prems(2) and num = less.prems(3) and buf = less.prems(4) and n = less.prems(5)
  let ?f = "fs ! n" and ?proc = "procs comm ! i"
  have f: "hdr_src ?f = int i" "hdr_tag ?f \<noteq> OMPI_ANY_TAG" using num n by (auto simp: numbered_list_def)
  have proc: "expected_sequence ?proc = word_of_nat (Suc n)" "frags_cant_match ?proc = map ((!) fs) ks" using buffered_proc [OF i buf] by simp_all
  let ?comm0 = "set_proc comm (int i) (?proc\<lparr>expected_sequence := expected_sequence ?proc + 1\<rparr>)"
  have imp0: "implements ?comm0 a" using implements_set_order [OF imp i] by simp
  have order0: "order ?comm0 = (order comm)[i := (word_of_nat (Suc (Suc n)), map ((!) fs) ks)]"
    using proc by (simp add: order_set_proc_update add.commute)
  have i0: "i < length (procs ?comm0)" using i by simp
  obtain m os comm1 where one: "match_one ?f ?comm0 = Some (m, os, comm1)"
    and del: "mpi_deliver i ?f a = (all_outcomes m ?f os, snd (mpi_deliver i ?f a))"
    and imp1: "implements comm1 (snd (mpi_deliver i ?f a))" and order1: "order comm1 = order ?comm0"
    and rec1: "recv_sequence comm1 = recv_sequence comm" and len1: "length (procs comm1) = length (procs comm)"
    using match_one_implements [OF imp0 i0 f] by auto
  have i1: "i < length (procs comm1)" using i len1 by simp
  have proc1: "expected_sequence (procs comm1 ! i) = word_of_nat (Suc (Suc n))" "frags_cant_match (procs comm1 ! i) = map ((!) fs) ks"
    using order_nth [OF i1] order1 order0 i by auto
  have ks: "distinct ks" "\<forall>k \<in> set ks. Suc n \<le> k \<and> k < Suc n + 2 ^ 16 \<and> k < length fs" using buf by (auto simp: buffered_def)
  note check = check_cantmatch [OF num ks proc1]
  have step: "out_of_order_match ?f comm = (case check_cantmatch_for_match (procs comm1 ! i) of
      None \<Rightarrow> Some (all_outcomes m ?f os, comm1)
    | Some (g, proc2) \<Rightarrow> map_option (\<lambda>(os', comm2). (all_outcomes m ?f os @ os', comm2)) (out_of_order_match g (set_proc comm1 (int i) proc2)))"
    using f(1) i i1 one by (simp add: out_of_order_match.simps [of ?f comm] all_outcomes_def Let_def split: option.split)
  show ?case
  proof (cases "Suc n \<in> set ks")
    case False
    have "buffered comm1 i fs (Suc n) ks"
      using buf order1 order0 i n False by (auto simp: buffered_def) (metis Suc_lessI)
    moreover have "set ks \<subseteq> {..<Suc n} \<union> set ks" by blast
    moreover have "deliver_all i (map ((!) fs) [n..<Suc n]) a = (all_outcomes m ?f os, snd (mpi_deliver i ?f a))"
      using del by (simp add: upt_rec split: prod.splits)
    moreover have "out_of_order_match ?f comm = Some (all_outcomes m ?f os, comm1)" using step check False by simp
    ultimately show ?thesis using imp1 rec1 len1 order1 order0 False
      by (intro exI [of _ "Suc n"] exI [of _ "all_outcomes m ?f os"] exI [of _ comm1] exI [of _ ks]) auto
  next
    case True
    let ?ks = "remove1 (Suc n) ks"
    let ?proc2 = "(procs comm1 ! i)\<lparr>frags_cant_match := map ((!) fs) ?ks\<rparr>"
    let ?comm2 = "set_proc comm1 (int i) ?proc2"
    have set: "set ?ks = set ks - {Suc n}" using ks(1) by simp
    have len: "length ?ks < length ks" using True length_pos_if_in_set [OF True] by (simp add: length_remove1)
    have imp2: "implements ?comm2 (snd (mpi_deliver i ?f a))" using implements_set_order [OF imp1 i1] by simp
    have order2: "order ?comm2 = (order comm)[i := (word_of_nat (Suc (Suc n)), map ((!) fs) ?ks)]"
      using order1 order0 proc1 by (simp add: order_set_proc_update)
    have n1: "Suc n < length fs" using ks(2) True by blast
    have "buffered ?comm2 i fs (Suc n) ?ks"
      unfolding buffered_def using order2 i n1 ks set by (auto simp: le_less)
    from less.hyps [OF len imp2 _ num this n1] i1 obtain n' os' comm' ks' where IH:
      "Suc n < n'" "out_of_order_match (fs ! Suc n) ?comm2 = Some (os', comm')"
      "deliver_all i (map ((!) fs) [Suc n..<n']) (snd (mpi_deliver i ?f a)) = (os', snd (deliver_all i (map ((!) fs) [Suc n..<n']) (snd (mpi_deliver i ?f a))))"
      "implements comm' (snd (deliver_all i (map ((!) fs) [Suc n..<n']) (snd (mpi_deliver i ?f a))))" "buffered comm' i fs n' ks'"
      "set ?ks \<subseteq> {..<n'} \<union> set ks'" "set ks' \<subseteq> set ?ks" "{Suc n<..<n'} \<subseteq> set ?ks" "n' \<notin> set ks'"
      "\<forall>j. j \<noteq> i \<longrightarrow> j < length (procs ?comm2) \<longrightarrow> order comm' ! j = order ?comm2 ! j"
      "recv_sequence comm' = recv_sequence ?comm2" "length (procs comm') = length (procs ?comm2)"
      by auto
    have fst_del: "fst (mpi_deliver i ?f a) = all_outcomes m ?f os" using arg_cong [OF del, of fst] by simp
    have upt: "[n..<n'] = n # [Suc n..<n']" using IH(1) by (simp add: upt_rec)
    have all: "deliver_all i (map ((!) fs) [n..<n']) a =
        (all_outcomes m ?f os @ os', snd (deliver_all i (map ((!) fs) [Suc n..<n']) (snd (mpi_deliver i ?f a))))"
      using fst_del arg_cong [OF IH(3), of fst] unfolding upt by (simp add: case_prod_beta Let_def)
    have "out_of_order_match ?f comm = Some (all_outcomes m ?f os @ os', comm')" using step check True IH(2) by simp
    moreover have "set ks \<subseteq> {..<n'} \<union> set ks'" using IH(1,6) set by auto
    moreover have "{n<..<n'} \<subseteq> set ks"
    proof
      fix k assume "k \<in> {n<..<n'}"
      then have "k = Suc n \<or> k \<in> {Suc n<..<n'}" by auto
      then show "k \<in> set ks" using True IH(8) set by auto
    qed
    ultimately show ?thesis using IH set all rec1 len1 order2
      by (intro exI [of _ n'] exI [of _ "all_outcomes m ?f os @ os'"] exI [of _ comm'] exI [of _ ks']) auto
  qed
qed


section \<open>Runs\<close>

text \<open>The first message of a source that has not arrived.\<close>

definition first_missing :: "nat list \<Rightarrow> nat" where
  "first_missing xs = length (takeWhile (\<lambda>n. n \<in> set xs) [0..<length xs])"

lemma takeWhile_upt: "m \<le> n \<Longrightarrow> length (takeWhile P [m..<n]) = n - m \<and> (\<forall>k \<in> {m..<n}. P k) \<or>
    (let l = length (takeWhile P [m..<n]) in m + l < n \<and> \<not> P (m + l) \<and> (\<forall>k \<in> {m..<m + l}. P k))"
proof (induction "n - m" arbitrary: m)
  case (Suc d)
  then have mn: "[m..<n] = m # [Suc m..<n]" and le: "Suc m \<le> n" by (simp_all add: upt_rec)
  have IH: "length (takeWhile P [Suc m..<n]) = n - Suc m \<and> (\<forall>k \<in> {Suc m..<n}. P k) \<or>
    (let l = length (takeWhile P [Suc m..<n]) in Suc m + l < n \<and> \<not> P (Suc m + l) \<and> (\<forall>k \<in> {Suc m..<Suc m + l}. P k))"
    using Suc.hyps(1) [of "Suc m"] Suc.hyps(2) le by simp
  have range: "{m..<j} = insert m {Suc m..<j}" if "m < j" for j using that by auto
  show ?case
  proof (cases "P m")
    case True
    then show ?thesis using IH le unfolding mn by (auto simp: Let_def range)
  qed (use le in \<open>simp add: mn Let_def\<close>)
qed simp

lemma first_missing: "first_missing xs \<notin> set xs" "k < first_missing xs \<Longrightarrow> k \<in> set xs"
proof -
  let ?n = "first_missing xs"
  have "?n = length xs \<and> (\<forall>k \<in> {0..<length xs}. k \<in> set xs) \<or> ?n \<notin> set xs \<and> (\<forall>k \<in> {0..<?n}. k \<in> set xs)"
    using takeWhile_upt [of 0 "length xs" "\<lambda>n. n \<in> set xs"] by (auto simp: first_missing_def Let_def)
  moreover have "length xs \<notin> set xs" if all: "\<forall>k \<in> {0..<length xs}. k \<in> set xs"
  proof
    assume "length xs \<in> set xs"
    then have "{0..<Suc (length xs)} \<subseteq> set xs" using all by (auto simp: less_Suc_eq)
    then have "card {0..<Suc (length xs)} \<le> card (set xs)" by (rule card_mono [OF finite_set])
    then show False using card_length [of xs] by simp
  qed
  ultimately have "?n \<notin> set xs \<and> (\<forall>k \<in> {0..<?n}. k \<in> set xs)" by metis
  then show "first_missing xs \<notin> set xs" "k < first_missing xs \<Longrightarrow> k \<in> set xs" by auto
qed

lemma first_missing_unique: "n \<notin> set xs \<Longrightarrow> {..<n} \<subseteq> set xs \<Longrightarrow> first_missing xs = n"
  using first_missing(1) [of xs] first_missing(2) [of n xs] by (metis lessThan_iff linorder_neqE_nat subsetD)

datatype event = Arrive nat nat | Post mca_pml_base_request_t | Cancel mca_pml_base_request_t

definition received :: "mca_pml_base_request_t \<Rightarrow> 'a outcome list \<Rightarrow> bool" where
  "received r log = list_ex (\<lambda>out. case out of Received r' f \<Rightarrow> r' = r | Probed r' f \<Rightarrow> False | Grabbed r' f \<Rightarrow> False) log"

text \<open>
  A run of \<^verbatim>\<open>pml/ob1\<close> on one communicator: \<open>Arrive i k\<close> is the arrival of the message with index \<open>k\<close> of
  source \<open>i\<close>. The flag \<^verbatim>\<open>req_match_received\<close> is set when the request gets a message.
\<close>

fun ob1_step :: "'a frag list list \<Rightarrow> event \<Rightarrow> 'a comm \<times> 'a outcome list \<Rightarrow> ('a comm \<times> 'a outcome list) option" where
  "ob1_step M (Arrive i k) (comm, log) = map_option (\<lambda>(os, comm'). (comm', log @ os)) (mca_pml_ob1_recv_frag_match (M ! i ! k) comm)"
| "ob1_step M (Post r) (comm, log) = map_option (\<lambda>(os, comm'). (comm', log @ os)) (mca_pml_ob1_recv_req_start r comm)"
| "ob1_step M (Cancel r) (comm, log) =
     map_option (\<lambda>comm'. (comm', log)) (mca_pml_ob1_recv_request_cancel (received r log) r comm)"

definition ob1_run :: "'a frag list list \<Rightarrow> event list \<Rightarrow> 'a comm \<times> 'a outcome list \<Rightarrow> ('a comm \<times> 'a outcome list) option" where
  "ob1_run M = ofold (ob1_step M)"

datatype mpi_event = Deliver nat nat | Posted mca_pml_base_request_t | Cancelled mca_pml_base_request_t

inductive mpi_step :: "'a frag list list \<Rightarrow> mpi_event \<Rightarrow> 'a mpi \<times> 'a outcome list \<Rightarrow> 'a mpi \<times> 'a outcome list \<Rightarrow> bool" for M where
  step_deliver: "mpi_deliver i (M ! i ! k) a = (os, a') \<Longrightarrow> mpi_step M (Deliver i k) (a, log) (a', log @ os)"
| step_post: "mpi_post r a os a' \<Longrightarrow> mpi_step M (Posted r) (a, log) (a', log @ os)"
| step_cancel: "\<not> received r log \<Longrightarrow> r \<in> set (posted a) \<Longrightarrow>
    mpi_step M (Cancelled r) (a, log) (a\<lparr>posted := remove1 r (posted a)\<rparr>, log)"
| step_late: "received r log \<Longrightarrow> mpi_step M (Cancelled r) (a, log) (a, log)"

inductive mpi_run :: "'a frag list list \<Rightarrow> mpi_event list \<Rightarrow> 'a mpi \<times> 'a outcome list \<Rightarrow> 'a mpi \<times> 'a outcome list \<Rightarrow> bool" for M where
  run_Nil: "mpi_run M [] s s"
| run_Cons: "mpi_step M e s t \<Longrightarrow> mpi_run M es t u \<Longrightarrow> mpi_run M (e # es) s u"

lemma mpi_run_append: "mpi_run M es s t \<Longrightarrow> mpi_run M es' t u \<Longrightarrow> mpi_run M (es @ es') s u"
  by (induction rule: mpi_run.induct) (auto intro: run_Cons)

text \<open>
  The events as the machine of MPI sees them: an arrival lets all messages up to the next missing one
  through; a receive has the number of its posting.
\<close>

fun in_order :: "(nat \<Rightarrow> nat list) \<Rightarrow> nat \<Rightarrow> event list \<Rightarrow> mpi_event list" where
  "in_order A c [] = []"
| "in_order A c (Arrive i k # es) =
     map (Deliver i) [first_missing (A i)..<first_missing (k # A i)] @ in_order (A(i := k # A i)) c es"
| "in_order A c (Post r # es) = Posted (numbered_request c r) # in_order A (Suc c) es"
| "in_order A c (Cancel r # es) = Cancelled r # in_order A c es"

text \<open>
  What a run may contain: no message arrives twice, none arrives \<open>2^16\<close> or more messages before the first
  missing one, ranks are those of the communicator, and there are less than \<open>2^32\<close> receives.
\<close>

fun events_ok :: "'a frag list list \<Rightarrow> (nat \<Rightarrow> nat list) \<Rightarrow> nat \<Rightarrow> event list \<Rightarrow> bool" where
  "events_ok M A c [] = True"
| "events_ok M A c (Arrive i k # es) \<longleftrightarrow> i < length M \<and> k < length (M ! i) \<and> k \<notin> set (A i) \<and> k < first_missing (A i) + 2 ^ 16 \<and>
     events_ok M (A(i := k # A i)) c es"
| "events_ok M A c (Post r # es) \<longleftrightarrow> valid_peer r (length M) \<and> Suc c < 2 ^ 32 \<and> events_ok M A (Suc c) es"
| "events_ok M A c (Cancel r # es) \<longleftrightarrow> events_ok M A c es"


section \<open>Runs of the code are runs of the machine\<close>

definition numbered :: "'a frag list list \<Rightarrow> bool" where
  "numbered M \<longleftrightarrow> (\<forall>i < length M. numbered_list (int i) (M ! i))"

definition sim :: "'a frag list list \<Rightarrow> (nat \<Rightarrow> nat list) \<Rightarrow> nat \<Rightarrow> 'a comm \<Rightarrow> 'a mpi \<Rightarrow> bool" where
  "sim M A c comm a \<longleftrightarrow> implements comm a \<and> length (procs comm) = length M \<and> recv_sequence comm = word_of_nat c \<and>
     (\<forall>i < length M. \<exists>ks. buffered comm i (M ! i) (first_missing (A i)) ks \<and> set (A i) = {..<first_missing (A i)} \<union> set ks)"

lemma deliver_all_run: "deliver_all i (map ((!) (M ! i)) ks) a = (os, a') \<Longrightarrow> mpi_run M (map (Deliver i) ks) (a, log) (a', log @ os)"
proof (induction ks arbitrary: a os log a')
  case (Cons k ks)
  obtain os1 a1 where one: "mpi_deliver i (M ! i ! k) a = (os1, a1)" by (cases "mpi_deliver i (M ! i ! k) a")
  obtain os2 a2 where rest: "deliver_all i (map ((!) (M ! i)) ks) a1 = (os2, a2)" by (cases "deliver_all i (map ((!) (M ! i)) ks) a1")
  show ?case using Cons.prems Cons.IH [OF rest, of "log @ os1"] one rest by (auto intro: run_Cons step_deliver)
qed (auto intro: run_Nil)

lemma buffered_order: "order comm' ! i = order comm ! i \<Longrightarrow> buffered comm i fs n ks \<Longrightarrow> buffered comm' i fs n ks"
  by (simp add: buffered_def)

lemma arrive_sim:
  assumes M: "numbered M" and sim: "sim M A c comm a" and i: "i < length M" and k: "k < length (M ! i)" "k \<notin> set (A i)"
    "k < first_missing (A i) + 2 ^ 16"
  shows "\<exists>os comm' a'. mca_pml_ob1_recv_frag_match (M ! i ! k) comm = Some (os, comm') \<and>
     deliver_all i (map ((!) (M ! i)) [first_missing (A i)..<first_missing (k # A i)]) a = (os, a') \<and> sim M (A(i := k # A i)) c comm' a'"
proof -
  let ?n = "first_missing (A i)" and ?fs = "M ! i" and ?f = "M ! i ! k"
  have num: "numbered_list (int i) ?fs" using M i by (simp add: numbered_def)
  then have f: "hdr_src ?f = int i" "hdr_seq ?f = word_of_nat (Suc k)" using k(1) by (auto simp: numbered_list_def)
  have imp: "implements comm a" and len: "length (procs comm) = length M" and rec: "recv_sequence comm = word_of_nat c" using sim by (auto simp: sim_def)
  have ip: "i < length (procs comm)" using i len by simp
  obtain ks where buf: "buffered comm i ?fs ?n ks" and A: "set (A i) = {..<?n} \<union> set ks" using sim i by (auto simp: sim_def)
  have nk: "?n \<le> k" using k(2) first_missing(2) [of k "A i"] by (meson not_le)
  have seq: "hdr_seq ?f = expected_sequence (procs comm ! i) \<longleftrightarrow> k = ?n"
    using word16_window [of "Suc ?n" "Suc k"] nk k(3) buffered_proc [OF ip buf] f by auto
  have others: "\<exists>ks. buffered comm' j (M ! j) (first_missing ((A(i := k # A i)) j)) ks \<and>
      set ((A(i := k # A i)) j) = {..<first_missing ((A(i := k # A i)) j)} \<union> set ks"
    if oth: "j < length M" "j \<noteq> i" "order comm' ! j = order comm ! j" for j comm'
  proof -
    obtain ks where "buffered comm j (M ! j) (first_missing (A j)) ks" "set (A j) = {..<first_missing (A j)} \<union> set ks"
      using sim oth(1) by (auto simp: sim_def)
    then show ?thesis using buffered_order [OF oth(3)] oth(2) by (intro exI [of _ ks]) auto
  qed
  show ?thesis
  proof (cases "k = ?n")
    case True
    from out_of_order_match_implements [OF imp ip num buf] k(1) True obtain n' os comm' ks' where o:
      "?n < n'" "out_of_order_match (?fs ! ?n) comm = Some (os, comm')"
      "deliver_all i (map ((!) ?fs) [?n..<n']) a = (os, snd (deliver_all i (map ((!) ?fs) [?n..<n']) a))"
      "implements comm' (snd (deliver_all i (map ((!) ?fs) [?n..<n']) a))" "buffered comm' i ?fs n' ks'"
      "set ks \<subseteq> {..<n'} \<union> set ks'" "set ks' \<subseteq> set ks" "{?n<..<n'} \<subseteq> set ks" "n' \<notin> set ks'"
      "\<forall>j. j \<noteq> i \<longrightarrow> j < length (procs comm) \<longrightarrow> order comm' ! j = order comm ! j"
      "recv_sequence comm' = recv_sequence comm" "length (procs comm') = length (procs comm)"
      by auto
    have set: "set (k # A i) = {..<n'} \<union> set ks'"
    proof (rule set_eqI)
      fix x show "x \<in> set (k # A i) \<longleftrightarrow> x \<in> {..<n'} \<union> set ks'"
        using A True o(1,6,7,8) by (cases x ?n rule: linorder_cases) auto
    qed
    have fm: "first_missing (k # A i) = n'" by (rule first_missing_unique) (use set o(9) in auto)
    have "sim M (A(i := k # A i)) c comm' (snd (deliver_all i (map ((!) ?fs) [?n..<n']) a))"
      unfolding sim_def
    proof (intro conjI allI impI)
      fix j assume j: "j < length M"
      show "\<exists>ks. buffered comm' j (M ! j) (first_missing ((A(i := k # A i)) j)) ks \<and>
        set ((A(i := k # A i)) j) = {..<first_missing ((A(i := k # A i)) j)} \<union> set ks"
      proof (cases "j = i")
        case True
        then show ?thesis using o(5) set fm by auto
      next
        case False
        then show ?thesis using others [OF j False] o(10) j len by metis
      qed
    qed (use o len rec in auto)
    moreover have "mca_pml_ob1_recv_frag_match ?f comm = Some (os, comm')"
      using o(2) True f(1) ip seq by (simp add: mca_pml_ob1_recv_frag_match_def)
    ultimately show ?thesis using o(3) fm by auto
  next
    case False
    let ?comm' = "set_proc comm (int i) ((procs comm ! i)\<lparr>frags_cant_match := frags_cant_match (procs comm ! i) @ [?f]\<rparr>)"
    have fm: "first_missing (k # A i) = ?n"
      by (rule first_missing_unique) (use False first_missing(1) [of "A i"] in \<open>auto simp: first_missing(2)\<close>)
    have order: "order ?comm' = (order comm)[i := (word_of_nat (Suc ?n), map ((!) ?fs) (ks @ [k]))]"
      using buffered_proc [OF ip buf] by (simp add: order_set_proc_update)
    have "buffered ?comm' i ?fs ?n (ks @ [k])"
      using buf order ip A nk k False by (auto simp: buffered_def)
    moreover have "set (k # A i) = {..<?n} \<union> set (ks @ [k])" using A by auto
    moreover have "order ?comm' ! j = order comm ! j" if "j \<noteq> i" for j using order that by simp
    moreover have "implements ?comm' a" using implements_set_order [OF imp ip] by simp
    ultimately have "sim M (A(i := k # A i)) c ?comm' a"
      unfolding sim_def using len rec others fm by auto
    moreover have "mca_pml_ob1_recv_frag_match ?f comm = Some ([], ?comm')"
      using f(1) ip seq False by (simp add: mca_pml_ob1_recv_frag_match_def append_frag_to_list_def)
    ultimately show ?thesis using fm by auto
  qed
qed


lemma sim_order: "sim M A c comm a \<Longrightarrow> implements comm' a' \<Longrightarrow> order comm' = order comm \<Longrightarrow> length (procs comm') = length (procs comm) \<Longrightarrow>
    recv_sequence comm' = word_of_nat c' \<Longrightarrow> sim M A c' comm' a'"
  by (simp add: sim_def buffered_def)

lemma post_sim:
  assumes "sim M A c comm a" "valid_peer r (length M)" "Suc c < 2 ^ 32"
  shows "\<exists>os comm' a'. mca_pml_ob1_recv_req_start r comm = Some (os, comm') \<and> mpi_post (numbered_request c r) a os a' \<and> sim M A (Suc c) comm' a'"
proof -
  have "implements comm a" "recv_sequence comm = word_of_nat c" "valid_peer r (length (procs comm))" using assms by (auto simp: sim_def)
  from recv_req_start_implements [OF this(1,2) assms(3) this(3)] sim_order [OF assms(1)] show ?thesis by blast
qed

text \<open>Cancelling a receive takes it from the posted ones, at whatever place it is.\<close>

lemma cancel_implements:
  assumes imp: "implements comm a" and some: "mca_pml_ob1_recv_request_cancel False r comm = Some comm'"
  shows "r \<in> set (posted a)" "implements comm' (a\<lparr>posted := remove1 r (posted a)\<rparr>)" "order comm' = order comm"
    "recv_sequence comm' = recv_sequence comm" "length (procs comm') = length (procs comm)"
proof -
  have "r \<in> set (posted a) \<and> comm' = remove_posted r comm \<and> valid_peer r (length (procs comm))"
  proof (cases "req_peer r = OMPI_ANY_SOURCE")
    case True
    then show ?thesis using imp some
      by (auto simp: mca_pml_ob1_recv_request_cancel_def implements_def remove_posted_def valid_peer_def split: if_splits)
  next
    case False
    then obtain proc where p: "aget (procs comm) (req_peer r) = Some proc" "r \<in> set (specific_receives proc)"
      "comm' = set_proc comm (req_peer r) (proc\<lparr>specific_receives := remove1 r (specific_receives proc)\<rparr>)"
      using some by (auto simp: mca_pml_ob1_recv_request_cancel_def split: if_splits bind_splits)
    note q = aget_SomeD [OF p(1)]
    then have "nat (req_peer r) < length (procs comm)" by linarith
    then have "r \<in> set (posted a)" using imp p(2) q by (auto simp: implements_def)
    then show ?thesis using False p q by (simp add: remove_posted_def valid_peer_def)
  qed
  moreover from this have "req_peer r = OMPI_ANY_SOURCE \<or> (0 \<le> req_peer r \<and> req_peer r < int (length (procs comm)))"
    by (simp add: valid_peer_def)
  ultimately show "r \<in> set (posted a)" "implements comm' (a\<lparr>posted := remove1 r (posted a)\<rparr>)" "order comm' = order comm"
    "recv_sequence comm' = recv_sequence comm" "length (procs comm') = length (procs comm)"
    using remove_posted_implements [OF imp] by simp_all
qed

lemma cancel_sim:
  assumes "sim M A c comm a" "ob1_step M (Cancel r) (comm, log) = Some (comm', log')"
  shows "\<exists>a'. mpi_step M (Cancelled r) (a, log) (a', log') \<and> sim M A c comm' a'"
proof (cases "received r log")
  case True
  then show ?thesis using assms by (auto simp: mca_pml_ob1_recv_request_cancel_def intro: step_late)
next
  case False
  then have c: "mca_pml_ob1_recv_request_cancel False r comm = Some comm'" "log' = log" using assms(2) by auto
  have "implements comm a" "recv_sequence comm = word_of_nat c" using assms(1) by (auto simp: sim_def)
  note x = cancel_implements [OF this(1) c(1)]
  show ?thesis using sim_order [OF assms(1) x(2,3,5)] x(1,4) False c(2) \<open>recv_sequence comm = _\<close> by (auto intro: step_cancel)
qed

lemma ob1_run_simulated:
  "numbered M \<Longrightarrow> sim M A c comm a \<Longrightarrow> events_ok M A c es \<Longrightarrow> ob1_run M es (comm, log) = Some (comm', log') \<Longrightarrow>
     \<exists>a'. mpi_run M (in_order A c es) (a, log) (a', log') \<and> implements comm' a'"
proof (induction es arbitrary: A c comm a log)
  case Nil
  then show ?case by (auto simp: ob1_run_def sim_def intro: run_Nil)
next
  case (Cons e es)
  show ?case
  proof (cases e)
    case (Arrive i k)
    from Cons.prems Arrive have ok: "i < length M" "k < length (M ! i)" "k \<notin> set (A i)" "k < first_missing (A i) + 2 ^ 16"
      "events_ok M (A(i := k # A i)) c es" by auto
    from arrive_sim [OF Cons.prems(1,2) ok(1-4)] obtain os comm1 a1 where x:
      "mca_pml_ob1_recv_frag_match (M ! i ! k) comm = Some (os, comm1)"
      "deliver_all i (map ((!) (M ! i)) [first_missing (A i)..<first_missing (k # A i)]) a = (os, a1)" "sim M (A(i := k # A i)) c comm1 a1"
      by blast
    have "ob1_run M es (comm1, log @ os) = Some (comm', log')" using Cons.prems(4) x(1) Arrive by (simp add: ob1_run_def)
    from Cons.IH [OF Cons.prems(1) x(3) ok(5) this] obtain a'
      where "mpi_run M (in_order (A(i := k # A i)) c es) (a1, log @ os) (a', log')" "implements comm' a'" by blast
    then show ?thesis using mpi_run_append [OF deliver_all_run [OF x(2)]] unfolding Arrive in_order.simps by blast
  next
    case (Post r)
    from Cons.prems Post have ok: "valid_peer r (length M)" "Suc c < 2 ^ 32" "events_ok M A (Suc c) es" by auto
    from post_sim [OF Cons.prems(2) ok(1,2)] obtain os comm1 a1 where x:
      "mca_pml_ob1_recv_req_start r comm = Some (os, comm1)" "mpi_post (numbered_request c r) a os a1" "sim M A (Suc c) comm1 a1" by blast
    have "ob1_run M es (comm1, log @ os) = Some (comm', log')" using Cons.prems(4) x(1) Post by (simp add: ob1_run_def)
    from Cons.IH [OF Cons.prems(1) x(3) ok(3) this] show ?thesis
      using step_post [OF x(2)] Post by (auto intro: run_Cons)
  next
    case (Cancel r)
    obtain comm1 log1 where x: "ob1_step M (Cancel r) (comm, log) = Some (comm1, log1)" "ob1_run M es (comm1, log1) = Some (comm', log')"
      using Cons.prems(4) Cancel by (auto simp: ob1_run_def split: option.splits)
    from cancel_sim [OF Cons.prems(2) x(1)] obtain a1 where y: "mpi_step M (Cancelled r) (a, log) (a1, log1)" "sim M A c comm1 a1" by blast
    have "events_ok M A c es" using Cons.prems(3) Cancel by simp
    from Cons.IH [OF Cons.prems(1) y(2) this x(2)] show ?thesis
      unfolding Cancel in_order.simps using y(1) by (blast intro: run_Cons)
  qed
qed

text \<open>Without cancellation nothing can go wrong.\<close>

definition cancels :: "event list \<Rightarrow> bool" where
  "cancels es = list_ex (\<lambda>e. case e of Cancel r \<Rightarrow> True | _ \<Rightarrow> False) es"

lemma ob1_run_total:
  "numbered M \<Longrightarrow> sim M A c comm a \<Longrightarrow> events_ok M A c es \<Longrightarrow> \<not> cancels es \<Longrightarrow> ob1_run M es (comm, log) \<noteq> None"
proof (induction es arbitrary: A c comm a log)
  case (Cons e es)
  show ?case
  proof (cases e)
    case (Arrive i k)
    then show ?thesis using arrive_sim [OF Cons.prems(1,2), of i k] Cons.IH [OF Cons.prems(1)] Cons.prems(3,4)
      by (fastforce simp: ob1_run_def cancels_def)
  next
    case (Post r)
    then show ?thesis using post_sim [OF Cons.prems(2), of r] Cons.IH [OF Cons.prems(1)] Cons.prems(3,4)
      by (fastforce simp: ob1_run_def cancels_def)
  qed (use Cons.prems in \<open>simp add: cancels_def\<close>)
qed (simp add: ob1_run_def)

end
