(* ===== verification/Pml_Channel.thy ===== *)
theory Pml_Channel
  imports Pml_Order
begin

text \<open>
  What follows for a run of \<^verbatim>\<open>pml/ob1\<close> on one communicator: it is a run of the machine of MPI, it never
  leaves a receive and a message that fit side by side, and a channel, the messages of one source with
  one tag, is first in, first out. This is what the collective operations rely on (\<open>Coll_Net\<close>).
\<close>

section \<open>The start\<close>

definition fresh_comm :: "nat \<Rightarrow> 'a comm" where
  "fresh_comm n = snd (mca_pml_ob1_comm_init_size True mca_pml_ob1_comm_construct n)"

definition mpi_start :: "nat \<Rightarrow> 'a mpi" where
  "mpi_start n = \<lparr>posted = [], waiting = replicate n []\<rparr>"

lemma fresh_sim:
  assumes "M \<noteq> []"
  shows "sim M (\<lambda>_. []) 0 (fresh_comm (length M)) (mpi_start (length M))"
proof -
  have fm: "first_missing [] = 0" by (rule first_missing_unique) simp_all
  have "buffered (fresh_comm (length M)) i (M ! i) 0 []" if "i < length M" for i
    using that by (simp add: buffered_def fresh_comm_def mca_pml_ob1_comm_init_size_def mca_pml_ob1_comm_construct_def order_def mca_pml_ob1_comm_proc_construct_def)
  moreover have "implements (fresh_comm (length M)) (mpi_start (length M))" using assms
    by (simp add: implements_def fresh_comm_def mpi_start_def mca_pml_ob1_comm_init_size_def mca_pml_ob1_comm_construct_def mca_pml_ob1_comm_proc_construct_def)
  ultimately show ?thesis using fm
    by (auto simp: sim_def fresh_comm_def mca_pml_ob1_comm_init_size_def mca_pml_ob1_comm_construct_def intro!: exI [of _ "[]"])
qed

section \<open>The machine of MPI\<close>

text \<open>No message waits that a posted receive would take.\<close>

definition no_fit :: "'a mpi \<Rightarrow> bool" where
  "no_fit a \<longleftrightarrow> (\<forall>r \<in> set (posted a). \<forall>i < length (waiting a). \<forall>f \<in> set (waiting a ! i). \<not> fits r (int i) f)"

lemma deliver_subset: "deliver i f rs = (os, rs', w) \<Longrightarrow> set rs' \<subseteq> set rs \<and> (w \<longrightarrow> (\<forall>r \<in> set rs'. \<not> fits r i f))"
  by (induction rs arbitrary: os rs' w) (auto split: if_splits prod.splits)

lemma mpi_deliver_no_fit: "no_fit a \<Longrightarrow> mpi_deliver i f a = (os, a') \<Longrightarrow> no_fit a'"
proof -
  assume a: "no_fit a" and d: "mpi_deliver i f a = (os, a')"
  obtain rs w where x: "deliver (int i) f (posted a) = (os, rs, w)" "a' = \<lparr>posted = rs, waiting = (if w then (waiting a)[i := waiting a ! i @ [f]] else waiting a)\<rparr>"
    using d by (auto simp: mpi_deliver_def split: prod.splits)
  note sub = deliver_subset [OF x(1)]
  show "no_fit a'"
    unfolding no_fit_def
  proof (intro ballI allI impI)
    fix r j g assume r: "r \<in> set (posted a')" and j: "j < length (waiting a')" and g: "g \<in> set (waiting a' ! j)"
    have "r \<in> set (posted a)" "w \<Longrightarrow> \<not> fits r (int i) f" "j < length (waiting a)" using r j x(2) sub by (auto split: if_splits)
    moreover have "g \<in> set (waiting a ! j) \<or> (w \<and> j = i \<and> g = f)" using g j x(2) by (cases "j = i") (auto split: if_splits)
    ultimately show "\<not> fits r (int j) g" using a unfolding no_fit_def by blast
  qed
qed

lemma mpi_post_no_fit: "mpi_post r a os a' \<Longrightarrow> no_fit a \<Longrightarrow> no_fit a'"
proof (induction rule: mpi_post.induct)
  case (hit i a r f)
  have "set (remove1 f (waiting a ! i)) \<subseteq> set (waiting a ! i)" by (rule set_remove1_subset)
  then show ?case using hit by (auto simp: no_fit_def take_message_def nth_list_update)
next
  case (miss a r)
  then show ?case by (auto simp: no_fit_def append_recv_req_to_queue_def find_None_iff)
qed

lemma mpi_run_no_fit: "mpi_run M es s t \<Longrightarrow> no_fit (fst s) \<Longrightarrow> no_fit (fst t)"
proof (induction rule: mpi_run.induct)
  case (run_Cons e s t es u)
  have "no_fit (fst t)" using run_Cons(1,4)
  proof (cases rule: mpi_step.cases)
    case (step_cancel r log a)
    then show ?thesis using run_Cons(4) set_remove1_subset [of r "posted a"] by (auto simp: no_fit_def)
  qed (auto dest: mpi_deliver_no_fit mpi_post_no_fit)
  then show ?case by (rule run_Cons.IH)
qed

section \<open>Channels\<close>

definition delivered :: "'a frag list list \<Rightarrow> nat \<Rightarrow> int \<Rightarrow> mpi_event list \<Rightarrow> 'a frag list" where
  "delivered M i t es = filter (\<lambda>f. hdr_tag f = t)
     (concat (map (\<lambda>e. case e of Deliver j k \<Rightarrow> if j = i then [M ! i ! k] else [] | _ \<Rightarrow> []) es))"

definition for_channel :: "nat \<Rightarrow> int \<Rightarrow> mca_pml_base_request_t \<Rightarrow> bool" where
  "for_channel i t r \<longleftrightarrow> req_peer r = int i \<and> req_tag r = t"

definition posted_for :: "nat \<Rightarrow> int \<Rightarrow> mpi_event list \<Rightarrow> mca_pml_base_request_t list" where
  "posted_for i t es = filter (for_channel i t) (concat (map (\<lambda>e. case e of Posted r \<Rightarrow> [r] | _ \<Rightarrow> []) es))"

lemma delivered_simps [simp]:
  "delivered M i t [] = []" "delivered M i t (es @ es') = delivered M i t es @ delivered M i t es'"
  "delivered M i t [Deliver j k] = (if j = i \<and> hdr_tag (M ! i ! k) = t then [M ! i ! k] else [])"
  "delivered M i t [Posted r] = []" "delivered M i t [Cancelled r] = []"
  by (simp_all add: delivered_def)

lemma posted_for_simps [simp]:
  "posted_for i t [] = []" "posted_for i t (es @ es') = posted_for i t es @ posted_for i t es'"
  "posted_for i t [Deliver j k] = []" "posted_for i t [Posted r] = (if for_channel i t r then [r] else [])"
  "posted_for i t [Cancelled r] = []"
  by (simp_all add: posted_for_def)

text \<open>The matches of a channel, and the pairs they should be.\<close>

definition on_channel :: "nat \<Rightarrow> int \<Rightarrow> 'a outcome list \<Rightarrow> 'a outcome list" where
  "on_channel i t = filter (\<lambda>out. case out of Received r f \<Rightarrow> for_channel i t r | Probed r f \<Rightarrow> for_channel i t r | Grabbed r f \<Rightarrow> for_channel i t r)"

definition matched :: "mca_pml_base_request_t list \<Rightarrow> 'a frag list \<Rightarrow> 'a outcome list" where
  "matched rs fs = map (\<lambda>(r, f). Received r f) (zip rs fs)"

text \<open>A plain receive names its source and its tag.\<close>

definition plain :: "mca_pml_base_request_t \<Rightarrow> bool" where
  "plain r \<longleftrightarrow> req_type r = MCA_PML_REQUEST_RECV \<and> req_peer r \<noteq> OMPI_ANY_SOURCE \<and> req_tag r \<noteq> OMPI_ANY_TAG"

definition channels_ok :: "'a frag list list \<Rightarrow> mpi_event list \<Rightarrow> 'a mpi \<Rightarrow> 'a outcome list \<Rightarrow> bool" where
  "channels_ok M es a log \<longleftrightarrow> length (waiting a) = length M \<and> (\<forall>r \<in> set (posted a). plain r) \<and>
     (\<forall>i < length M. \<forall>t. on_channel i t log = matched (posted_for i t es) (delivered M i t es) \<and>
        filter (for_channel i t) (posted a) = drop (length (delivered M i t es)) (posted_for i t es) \<and>
        filter (\<lambda>f. hdr_tag f = t) (waiting a ! i) = drop (length (posted_for i t es)) (delivered M i t es))"

lemma zip_snoc1: "drop (length xs) ys = z # zs \<Longrightarrow> zip (xs @ [x]) ys = zip xs ys @ [(x, z)]"
  by (induction xs arbitrary: ys) (auto simp: zip_Cons1 split: list.splits)

lemma zip_snoc1_short: "drop (length xs) ys = [] \<Longrightarrow> zip (xs @ [x]) ys = zip xs ys"
  by (simp add: zip_append1)

lemma zip_snoc2: "drop (length ys) xs = z # zs \<Longrightarrow> zip xs (ys @ [y]) = zip xs ys @ [(z, y)]"
  by (induction ys arbitrary: xs) (auto simp: zip_Cons split: list.splits)

lemma zip_snoc2_short: "drop (length ys) xs = [] \<Longrightarrow> zip xs (ys @ [y]) = zip xs ys"
  by (simp add: zip_append2)

lemma drop_Cons_lengths: "drop (length xs) ys = z # zs \<Longrightarrow> length xs < length ys \<and> drop (Suc (length xs)) ys = zs"
  by (metis drop_Suc length_drop list.sel(3) list.size(3) nat_neq_iff drop_all list.distinct(1) linorder_not_less tl_drop)

lemma find_filter: "find P xs = (case filter P xs of [] \<Rightarrow> None | x # _ \<Rightarrow> Some x)"
  by (induction xs) auto

lemma plain_fits: "plain r \<Longrightarrow> fits r (int i) f \<longleftrightarrow> for_channel i (hdr_tag f) r"
  by (auto simp: plain_def fits_def from_source_def tag_fits_def for_channel_def)

lemma deliver_plain:
  "\<forall>r \<in> set rs. plain r \<Longrightarrow> deliver (int i) f rs =
     (case filter (for_channel i (hdr_tag f)) rs of [] \<Rightarrow> ([], rs, True) | r # _ \<Rightarrow> ([Received r f], remove1 r rs, False))"
proof (induction rs)
  case (Cons r rs)
  show ?case
  proof (cases "for_channel i (hdr_tag f) r")
    case True
    then show ?thesis using Cons.prems by (auto simp: plain_fits plain_def)
  next
    case False
    moreover have "x \<noteq> r" if "filter (for_channel i (hdr_tag f)) rs = x # xs" for x xs using that False by (metis filter_eq_ConsD)
    ultimately show ?thesis using Cons by (auto simp: plain_fits split: list.splits)
  qed
qed simp


lemma matched_snoc:
  "drop (length rs) fs = f # gs \<Longrightarrow> matched (rs @ [r]) fs = matched rs fs @ [Received r f]"
  "drop (length rs) fs = [] \<Longrightarrow> matched (rs @ [r]) fs = matched rs fs"
  "drop (length fs) rs = r # qs \<Longrightarrow> matched rs (fs @ [f]) = matched rs fs @ [Received r f]"
  "drop (length fs) rs = [] \<Longrightarrow> matched rs (fs @ [f]) = matched rs fs"
  by (simp_all add: matched_def zip_snoc1 zip_snoc1_short zip_snoc2 zip_snoc2_short del: drop_eq_Nil)

lemma on_channel_simps [simp]:
  "on_channel i t [] = []" "on_channel i t (xs @ ys) = on_channel i t xs @ on_channel i t ys"
  "on_channel i t [Received r f] = (if for_channel i t r then [Received r f] else [])"
  by (simp_all add: on_channel_def)

lemma for_channel_unique: "for_channel i t r \<Longrightarrow> for_channel i' t' r \<longleftrightarrow> i' = i \<and> t' = t"
  by (auto simp: for_channel_def)

lemma remove1_filter_other: "\<not> P x \<Longrightarrow> filter P (remove1 x xs) = filter P xs"
  by (simp add: filter_remove1)

lemma channels_okD:
  assumes "channels_ok M es a log" "i < length M"
  shows "on_channel i t log = matched (posted_for i t es) (delivered M i t es)"
    "filter (for_channel i t) (posted a) = drop (length (delivered M i t es)) (posted_for i t es)"
    "filter (\<lambda>f. hdr_tag f = t) (waiting a ! i) = drop (length (posted_for i t es)) (delivered M i t es)"
  using assms by (auto simp: channels_ok_def)

lemma deliver_channels:
  assumes ok: "channels_ok M es a log" and i: "i < length M" and d: "mpi_deliver i (M ! i ! k) a = (os, a')"
  shows "channels_ok M (es @ [Deliver i k]) a' (log @ os)"
proof -
  let ?f = "M ! i ! k" let ?t = "hdr_tag ?f"
  have plain: "\<forall>r \<in> set (posted a). plain r" and len: "length (waiting a) = length M" using ok by (auto simp: channels_ok_def)
  let ?D = "delivered M i ?t es" and ?R = "posted_for i ?t es"
  note ch = channels_okD [OF ok i, of ?t]
  show ?thesis
  proof (cases "filter (for_channel i ?t) (posted a)")
    case Nil
    then have x: "os = []" "a' = a\<lparr>waiting := (waiting a)[i := waiting a ! i @ [?f]]\<rparr>"
      using d deliver_plain [OF plain, of i ?f] by (auto simp: mpi_deliver_def)
    have R: "drop (length ?D) ?R = []" using ch(2) Nil by metis
    show ?thesis
      unfolding channels_ok_def
    proof (intro conjI allI impI)
      fix j t assume j: "j < length M"
      note ch' = channels_okD [OF ok j, of t]
      have m: "matched ?R (?D @ [?f]) = matched ?R ?D" using R by (rule matched_snoc(4))
      show "on_channel j t (log @ os) = matched (posted_for j t (es @ [Deliver i k])) (delivered M j t (es @ [Deliver i k]))"
        using ch' x m by auto
      show "filter (for_channel j t) (posted a') = drop (length (delivered M j t (es @ [Deliver i k]))) (posted_for j t (es @ [Deliver i k]))"
        using ch' x R Nil by auto
      show "filter (\<lambda>f. hdr_tag f = t) (waiting a' ! j) = drop (length (posted_for j t (es @ [Deliver i k]))) (delivered M j t (es @ [Deliver i k]))"
        using ch' x R len j by (cases "j = i") auto
    qed (use plain len x in auto)
  next
    case (Cons r rs)
    then have x: "os = [Received r ?f]" "a' = a\<lparr>posted := remove1 r (posted a)\<rparr>"
      using d deliver_plain [OF plain, of i ?f] by (auto simp: mpi_deliver_def)
    have "r \<in> set (filter (for_channel i ?t) (posted a))" using Cons by simp
    then have r: "for_channel i ?t r" "r \<in> set (posted a)" by simp_all
    have R: "drop (length ?D) ?R = r # rs" using ch(2) Cons by metis
    note l = drop_Cons_lengths [OF R]
    show ?thesis
      unfolding channels_ok_def
    proof (intro conjI allI impI)
      fix j t assume j: "j < length M"
      note ch' = channels_okD [OF ok j, of t]
      have other: "\<not> for_channel j t r" if "\<not> (j = i \<and> t = ?t)" using for_channel_unique [OF r(1)] that by simp
      have m: "matched ?R (?D @ [?f]) = matched ?R ?D @ [Received r ?f]" using R by (rule matched_snoc(3))
      show "on_channel j t (log @ os) = matched (posted_for j t (es @ [Deliver i k])) (delivered M j t (es @ [Deliver i k]))"
        using ch'(1) x m r other by (cases "j = i \<and> t = ?t") auto
      show "filter (for_channel j t) (posted a') = drop (length (delivered M j t (es @ [Deliver i k]))) (posted_for j t (es @ [Deliver i k]))"
      proof (cases "j = i \<and> t = ?t")
        case True
        have "filter (for_channel i ?t) (remove1 r (posted a)) = rs" using Cons by (simp add: filter_remove1)
        then show ?thesis using True x l by simp
      next
        case False
        then show ?thesis using ch'(2) x(2) remove1_filter_other [of "for_channel j t" r "posted a", OF other [OF False]] by auto
      qed
      show "filter (\<lambda>f. hdr_tag f = t) (waiting a' ! j) = drop (length (posted_for j t (es @ [Deliver i k]))) (delivered M j t (es @ [Deliver i k]))"
        using ch'(3) x l by auto
    qed (use plain len x set_remove1_subset [of r "posted a"] in auto)
  qed
qed

lemma post_channels:
  assumes ok: "channels_ok M es a log" and r: "plain r" and post: "mpi_post r a os a'" and valid: "valid_peer r (length M)"
  shows "channels_ok M (es @ [Posted r]) a' (log @ os)"
proof -
  have plain: "\<forall>r \<in> set (posted a). plain r" and len: "length (waiting a) = length M" using ok by (auto simp: channels_ok_def)
  obtain i where i: "req_peer r = int i" "i < length M" using r valid unfolding plain_def valid_peer_def
    by (metis nonneg_int_cases of_nat_less_iff)
  let ?t = "req_tag r"
  have chan: "for_channel j t r \<longleftrightarrow> j = i \<and> t = ?t" for j t using i by (auto simp: for_channel_def)
  have fits: "fits r (int j) f \<longleftrightarrow> j = i \<and> hdr_tag f = ?t" for j f using plain_fits [OF r] chan by metis
  let ?D = "delivered M i ?t es" and ?R = "posted_for i ?t es"
  note ch = channels_okD [OF ok i(2), of ?t]
  from post show ?thesis
  proof cases
    case (hit j f)
    then have j: "j = i" using fits by (auto simp: find_Some_iff)
    have "find (fits r (int i)) (waiting a ! i) = find (\<lambda>f. hdr_tag f = ?t) (waiting a ! i)"
      by (rule find_cong) (simp_all add: fits)
    then have "find (\<lambda>f. hdr_tag f = ?t) (waiting a ! i) = Some f" using hit(4) unfolding j by simp
    then obtain gs where gs: "filter (\<lambda>f. hdr_tag f = ?t) (waiting a ! i) = f # gs"
      by (cases "filter (\<lambda>f. hdr_tag f = ?t) (waiting a ! i)") (simp_all add: find_filter)
    then have "f \<in> set (filter (\<lambda>f. hdr_tag f = ?t) (waiting a ! i))" by simp
    then have f: "hdr_tag f = ?t" by simp
    have x: "os = [Received r f]" "a' = a\<lparr>waiting := (waiting a)[i := remove1 f (waiting a ! i)]\<rparr>"
      using hit r j by (auto simp: take_outcome_def take_message_def plain_def IS_PROB_REQ_def)
    have D: "drop (length ?R) ?D = f # gs" using ch(3) gs by metis
    note l = drop_Cons_lengths [OF D]
    show ?thesis
      unfolding channels_ok_def
    proof (intro conjI allI impI)
      fix j t assume j: "j < length M"
      note ch' = channels_okD [OF ok j, of t]
      have m: "matched (?R @ [r]) ?D = matched ?R ?D @ [Received r f]" using D by (rule matched_snoc(1))
      show "on_channel j t (log @ os) = matched (posted_for j t (es @ [Posted r])) (delivered M j t (es @ [Posted r]))"
      proof (cases "j = i \<and> t = ?t")
        case True
        then show ?thesis using ch'(1) x(1) m chan by simp
      next
        case False
        then have "\<not> for_channel j t r" using chan by blast
        then show ?thesis using ch'(1) x(1) by simp
      qed
      show "filter (for_channel j t) (posted a') = drop (length (delivered M j t (es @ [Posted r]))) (posted_for j t (es @ [Posted r]))"
        using ch'(2) x chan l by auto
      show "filter (\<lambda>f. hdr_tag f = t) (waiting a' ! j) = drop (length (posted_for j t (es @ [Posted r]))) (delivered M j t (es @ [Posted r]))"
      proof (cases "j = i")
        case True
        have "filter (\<lambda>f. hdr_tag f = ?t) (remove1 f (waiting a ! i)) = gs" using gs by (simp add: filter_remove1)
        moreover have "filter (\<lambda>f. hdr_tag f = t) (remove1 f (waiting a ! i)) = filter (\<lambda>f. hdr_tag f = t) (waiting a ! i)" if "t \<noteq> ?t"
          using that f by (intro remove1_filter_other) simp
        ultimately show ?thesis using True ch'(3) x(2) chan l len j by (cases "t = ?t") auto
      qed (use ch'(3) x(2) chan in auto)
    qed (use plain len x in auto)
  next
    case miss
    have x: "os = []" "a' = a\<lparr>posted := posted a @ [r]\<rparr>"
      using miss r by (auto simp: append_recv_req_to_queue_def plain_def)
    have "find (fits r (int i)) (waiting a ! i) = None" using miss i len by simp
    then have "filter (\<lambda>f. hdr_tag f = ?t) (waiting a ! i) = []" by (simp add: find_None_iff fits)
    then have D: "drop (length ?R) ?D = []" using ch(3) by metis
    show ?thesis
      unfolding channels_ok_def
    proof (intro conjI allI impI)
      fix j t assume j: "j < length M"
      note ch' = channels_okD [OF ok j, of t]
      have m: "matched (?R @ [r]) ?D = matched ?R ?D" using D by (rule matched_snoc(2))
      show "on_channel j t (log @ os) = matched (posted_for j t (es @ [Posted r])) (delivered M j t (es @ [Posted r]))"
      proof (cases "j = i \<and> t = ?t")
        case True
        then show ?thesis using ch'(1) x(1) m chan by simp
      next
        case False
        then have "\<not> for_channel j t r" using chan by blast
        then show ?thesis using ch'(1) x(1) by simp
      qed
      show "filter (for_channel j t) (posted a') = drop (length (delivered M j t (es @ [Posted r]))) (posted_for j t (es @ [Posted r]))"
        using ch'(2) x chan D by (cases "j = i \<and> t = ?t") auto
      show "filter (\<lambda>f. hdr_tag f = t) (waiting a' ! j) = drop (length (posted_for j t (es @ [Posted r]))) (delivered M j t (es @ [Posted r]))"
        using ch'(3) x chan D by (cases "j = i \<and> t = ?t") auto
    qed (use plain len x r in auto)
  qed
qed


text \<open>What the events of a run are about.\<close>

definition event_ok :: "nat \<Rightarrow> mpi_event \<Rightarrow> bool" where
  "event_ok n e = (case e of Deliver i k \<Rightarrow> i < n | Posted r \<Rightarrow> plain r \<and> valid_peer r n | Cancelled r \<Rightarrow> False)"

lemma mpi_run_channels:
  "mpi_run M es s t \<Longrightarrow> \<forall>e \<in> set es. event_ok (length M) e \<Longrightarrow> channels_ok M es0 (fst s) (snd s) \<Longrightarrow> channels_ok M (es0 @ es) (fst t) (snd t)"
proof (induction arbitrary: es0 rule: mpi_run.induct)
  case (run_Cons e s t es u)
  have e: "event_ok (length M) e" and es: "\<forall>e \<in> set es. event_ok (length M) e" using run_Cons.prems(1) by auto
  from run_Cons.hyps(1) have "channels_ok M (es0 @ [e]) (fst t) (snd t)"
  proof cases
    case (step_deliver i k a os a' log)
    then show ?thesis using deliver_channels run_Cons.prems(2) e by (simp add: event_ok_def)
  next
    case (step_post r a os a' log)
    then show ?thesis using post_channels [of M es0 a log r os a'] run_Cons.prems(2) e by (simp add: event_ok_def)
  qed (use e in \<open>simp_all add: event_ok_def\<close>)
  from run_Cons.IH [OF es this] show ?case by simp
qed simp

text \<open>The same, read off the events of \<^verbatim>\<open>pml/ob1\<close>.\<close>

fun receives_on :: "nat \<Rightarrow> int \<Rightarrow> nat \<Rightarrow> event list \<Rightarrow> mca_pml_base_request_t list" where
  "receives_on i t c [] = []"
| "receives_on i t c (Arrive j k # es) = receives_on i t c es"
| "receives_on i t c (Post r # es) = (if for_channel i t r then [numbered_request c r] else []) @ receives_on i t (Suc c) es"
| "receives_on i t c (Cancel r # es) = receives_on i t c es"

fun arrived :: "nat \<Rightarrow> event list \<Rightarrow> nat list" where
  "arrived i [] = []"
| "arrived i (Arrive j k # es) = (if j = i then [k] else []) @ arrived i es"
| "arrived i (Post r # es) = arrived i es"
| "arrived i (Cancel r # es) = arrived i es"

lemma first_missing_cong: "set xs = set ys \<Longrightarrow> first_missing xs = first_missing ys"
  by (rule first_missing_unique) (use first_missing(1) [of ys] first_missing(2) [of _ ys] in auto)

lemma first_missing_mono: "set xs \<subseteq> set ys \<Longrightarrow> first_missing xs \<le> first_missing ys"
  using first_missing(1) [of ys] first_missing(2) [of "first_missing ys" xs] by (meson not_le subsetD)

lemma posted_for_in_order: "posted_for i t (in_order A c es) = receives_on i t c es"
proof (induction A c es rule: in_order.induct)
  case (2 A c j k es)
  have "posted_for i t (map (Deliver j) ks) = []" for ks by (induction ks) (simp_all add: posted_for_def)
  then show ?case using 2 by (simp add: fun_upd_def)
next
  case (3 A c r es)
  have "posted_for i t (Posted (numbered_request c r) # in_order A (Suc c) es) =
      posted_for i t [Posted (numbered_request c r)] @ posted_for i t (in_order A (Suc c) es)"
    by (simp only: posted_for_simps(2) [symmetric]) simp
  then show ?case using 3 by (simp add: for_channel_def)
next
  case (4 A c r es)
  then show ?case by (simp add: posted_for_def)
qed simp

lemma delivered_in_order:
  "delivered M i t (in_order A c es) =
     filter (\<lambda>f. hdr_tag f = t) (map ((!) (M ! i)) [first_missing (A i)..<first_missing (arrived i es @ A i)])"
proof (induction A c es rule: in_order.induct)
  case (2 A c j k es)
  have map: "delivered M i t (map (Deliver j) ks) = (if j = i then filter (\<lambda>f. hdr_tag f = t) (map ((!) (M ! i)) ks) else [])" for ks
    by (induction ks) (simp_all add: delivered_def)
  show ?case
  proof (cases "j = i")
    case True
    have "first_missing (A i) \<le> first_missing (k # A i)" "first_missing (k # A i) \<le> first_missing (arrived i es @ k # A i)"
      by (rule first_missing_mono; auto)+
    then have "[first_missing (A i)..<first_missing (arrived i es @ k # A i)] =
        [first_missing (A i)..<first_missing (k # A i)] @ [first_missing (k # A i)..<first_missing (arrived i es @ k # A i)]"
      by (metis le_Suc_ex upt_add_eq_append)
    moreover have "first_missing (k # arrived i es @ A i) = first_missing (arrived i es @ k # A i)" by (rule first_missing_cong) auto
    ultimately show ?thesis using 2 True map by (simp add: fun_upd_def)
  qed (use 2 map in \<open>simp add: fun_upd_def\<close>)
next
  case (3 A c r es)
  then show ?case by (simp add: delivered_def)
next
  case (4 A c r es)
  then show ?case by (simp add: delivered_def)
qed simp

lemma in_order_events_ok:
  "events_ok M A c es \<Longrightarrow> \<not> cancels es \<Longrightarrow> \<forall>r. Post r \<in> set es \<longrightarrow> plain r \<Longrightarrow> \<forall>e \<in> set (in_order A c es). event_ok (length M) e"
proof (induction es arbitrary: A c)
  case (Cons e es)
  show ?case
  proof (cases e)
    case (Arrive i k)
    then have "\<forall>e \<in> set (in_order (A(i := k # A i)) c es). event_ok (length M) e" "i < length M"
      using Cons.prems by (auto simp: cancels_def intro!: Cons.IH [THEN bspec])
    then show ?thesis unfolding Arrive by (auto simp: event_ok_def simp del: fun_upd_apply)
  next
    case (Post r)
    then have "\<forall>e \<in> set (in_order A (Suc c) es). event_ok (length M) e" "plain r" "valid_peer r (length M)"
      using Cons.prems by (auto simp: cancels_def intro!: Cons.IH [THEN bspec])
    then show ?thesis unfolding Post by (simp add: event_ok_def plain_def valid_peer_def)
  qed (use Cons.prems in \<open>simp add: cancels_def\<close>)
qed simp


section \<open>The properties\<close>

text \<open>C1: On a fresh communicator, with messages that arrive in any order within a window of \<open>2^16\<close> and less
  than \<open>2^32\<close> receives and probes, what \<^verbatim>\<open>pml/ob1\<close> does is what the machine of MPI does when it gets the
  messages of every source in the order in which they were sent and the receives in the order in which
  they were posted: the same requests get the same messages, in the same order. If nothing is cancelled
  the code faults nowhere; a cancelled receive that is still posted leaves the queue it is in.
\<close>

theorem ob1_matching_refines_mpi:
  assumes "M \<noteq> []" "numbered M" "events_ok M (\<lambda>_. []) 0 es"
  shows "(\<not> cancels es \<longrightarrow> (\<exists>s. ob1_run M es (fresh_comm (length M), []) = Some s)) \<and>
    (\<forall>comm log. ob1_run M es (fresh_comm (length M), []) = Some (comm, log) \<longrightarrow>
       (\<exists>a. mpi_run M (in_order (\<lambda>_. []) 0 es) (mpi_start (length M), []) (a, log) \<and> implements comm a))"
  using ob1_run_total [OF assms(2) fresh_sim [OF assms(1)] assms(3)] ob1_run_simulated [OF assms(2) fresh_sim [OF assms(1)] assms(3)]
  by blast

text \<open>C3: A channel is first in, first out. When every receive names a source and a tag, the receives for
  source \<open>i\<close> and tag \<open>t\<close> get, in the order of posting, the messages with that tag that \<open>i\<close> sent, in the
  order of sending, up to the first message of \<open>i\<close> that has not arrived.
\<close>

theorem ob1_channel_fifo:
  assumes "M \<noteq> []" "numbered M" "events_ok M (\<lambda>_. []) 0 es" "\<not> cancels es" "\<forall>r. Post r \<in> set es \<longrightarrow> plain r"
    and "i < length M" "ob1_run M es (fresh_comm (length M), []) = Some (comm, log)"
  shows "on_channel i t log =
    matched (receives_on i t 0 es) (filter (\<lambda>f. hdr_tag f = t) (map ((!) (M ! i)) [0..<first_missing (arrived i es)]))"
proof -
  obtain a where run: "mpi_run M (in_order (\<lambda>_. []) 0 es) (mpi_start (length M), []) (a, log)"
    using ob1_run_simulated [OF assms(2) fresh_sim [OF assms(1)] assms(3,7)] by blast
  have "channels_ok M [] (mpi_start (length M)) []"
    by (simp add: channels_ok_def mpi_start_def matched_def)
  from mpi_run_channels [OF run in_order_events_ok [OF assms(3-5)], of "[]"] this
  have "channels_ok M (in_order (\<lambda>_. []) 0 es) a log" by simp
  moreover have "first_missing [] = 0" by (rule first_missing_unique) simp_all
  ultimately show ?thesis using channels_okD(1) [OF _ assms(6)] by (simp add: posted_for_in_order delivered_in_order)
qed

text \<open>C24: No message and no request miss each other. At every moment no unexpected message fits a receive
  or a probe that is posted, for any source or for the source of the message.
\<close>

theorem ob1_no_missed_match:
  assumes "M \<noteq> []" "numbered M" "events_ok M (\<lambda>_. []) 0 es"
    and "ob1_run M es (fresh_comm (length M), []) = Some (comm, log)"
    and "i < length (procs comm)" "f \<in> set (unexpected_frags (procs comm ! i))"
    and "r \<in> set (wild_receives comm) \<union> set (specific_receives (procs comm ! i))"
  shows "\<not> tag_fits r (hdr_tag f)"
proof -
  obtain a where run: "mpi_run M (in_order (\<lambda>_. []) 0 es) (mpi_start (length M), []) (a, log)" and imp: "implements comm a"
    using ob1_run_simulated [OF assms(2) fresh_sim [OF assms(1)] assms(3,4)] by blast
  have "no_fit a" using mpi_run_no_fit [OF run] by (simp add: no_fit_def mpi_start_def)
  moreover have "r \<in> set (posted a)" "from_source r (int i)" using imp assms(5,7) by (auto simp: implements_def from_source_def)
  moreover have "i < length (waiting a)" "f \<in> set (waiting a ! i)" using imp assms(5,6) by (auto simp: implements_def)
  ultimately show ?thesis by (auto simp: no_fit_def fits_def)
qed

section \<open>Examples\<close>

definition ex_frag :: "int \<Rightarrow> int \<Rightarrow> 16 word \<Rightarrow> nat frag" where
  "ex_frag src tag seq = \<lparr>hdr_ctx = 0, hdr_src = src, hdr_tag = tag, hdr_seq = seq, frag_data = 0\<rparr>"

definition ex_request :: "nat \<Rightarrow> int \<Rightarrow> int \<Rightarrow> mca_pml_base_request_t" where
  "ex_request n peer tag = \<lparr>req_id = n, req_type = MCA_PML_REQUEST_RECV, req_peer = peer, req_tag = tag, req_sequence = 0\<rparr>"

definition ex_sent :: "nat frag list list" where
  "ex_sent = [[ex_frag 0 7 1, ex_frag 0 7 2]]"

definition ex_plain :: "event list" where
  "ex_plain = [Post (ex_request 0 0 7), Arrive 0 1, Arrive 0 0, Post (ex_request 1 0 7)]"

definition ex_wild :: "event list" where
  "ex_wild = [Post (ex_request 0 (- 1) 8), Arrive 0 0]"

lemma ex_numbered: "numbered ex_sent"
  by (simp add: numbered_def numbered_list_def ex_sent_def ex_frag_def OMPI_ANY_TAG_def less_Suc_eq nth_Cons')

lemma ex_plain_ok: "events_ok ex_sent (\<lambda>_. []) 0 ex_plain" "\<not> cancels ex_plain" "\<forall>r. Post r \<in> set ex_plain \<longrightarrow> plain r"
  by (simp_all add: ex_plain_def ex_sent_def ex_request_def valid_peer_def first_missing_def cancels_def plain_def OMPI_ANY_SOURCE_def OMPI_ANY_TAG_def)

lemma ex_wild_ok: "events_ok ex_sent (\<lambda>_. []) 0 ex_wild"
  by (simp add: ex_wild_def ex_sent_def ex_request_def valid_peer_def first_missing_def OMPI_ANY_SOURCE_def)

lemma ex_sent_ne: "ex_sent \<noteq> []" "length ex_sent = 1"
  by (simp_all add: ex_sent_def)

theorem ob1_matching_refines_mpi_witness:
  "\<exists>comm log a. ob1_run ex_sent ex_plain (fresh_comm 1, []) = Some (comm, log) \<and>
     mpi_run ex_sent (in_order (\<lambda>_. []) 0 ex_plain) (mpi_start 1, []) (a, log) \<and> implements comm a"
  using ob1_matching_refines_mpi [OF ex_sent_ne(1) ex_numbered ex_plain_ok(1)] ex_plain_ok(2) unfolding ex_sent_ne(2) by force

theorem ob1_channel_fifo_witness:
  "\<exists>comm log. ob1_run ex_sent ex_plain (fresh_comm 1, []) = Some (comm, log) \<and>
     on_channel 0 7 log = [Received (numbered_request 0 (ex_request 0 0 7)) (ex_frag 0 7 1), Received (numbered_request 1 (ex_request 1 0 7)) (ex_frag 0 7 2)]"
proof -
  obtain comm log where run: "ob1_run ex_sent ex_plain (fresh_comm (length ex_sent), []) = Some (comm, log)"
    using ob1_run_total [OF ex_numbered fresh_sim [OF ex_sent_ne(1)] ex_plain_ok(1,2)] by fastforce
  have fifo: "on_channel 0 7 log = matched (receives_on 0 7 0 ex_plain)
      (filter (\<lambda>f. hdr_tag f = 7) (map ((!) (ex_sent ! 0)) [0..<first_missing (arrived 0 ex_plain)]))"
    by (rule ob1_channel_fifo [OF ex_sent_ne(1) ex_numbered ex_plain_ok _ run]) (simp add: ex_sent_def)
  have "first_missing (arrived 0 ex_plain) = 2" by (rule first_missing_unique) (auto simp: ex_plain_def)
  then show ?thesis using run fifo
    by (auto simp: ex_sent_ne(2) ex_plain_def ex_request_def matched_def for_channel_def ex_sent_def ex_frag_def upt_rec)
qed

lemma zero_less_PML_MAX_SEQ: "(0 :: 64 word) < - 1"
  by (simp add: word_less_nat_alt unsigned_minus_1_eq_mask mask_eq_exp_minus_1)

lemma ex_wild_run: "\<exists>comm log. ob1_run ex_sent ex_wild (fresh_comm 1, []) = Some (comm, log) \<and>
    procs comm = [\<lparr>expected_sequence = 2, send_sequence = 0, frags_cant_match = [], specific_receives = [], unexpected_frags = [ex_frag 0 7 1]\<rparr>] \<and>
    wild_receives comm = [ex_request 0 (- 1) 8]"
  by (simp add: ob1_run_def ex_wild_def ex_sent_def ex_request_def ex_frag_def fresh_comm_def mca_pml_ob1_comm_init_size_def mca_pml_ob1_comm_construct_def
    mca_pml_ob1_comm_proc_construct_def mca_pml_ob1_recv_req_start_def recv_req_match_wild_def recv_req_match_specific_proc_def
    append_recv_req_to_queue_def mca_pml_ob1_recv_frag_match_def out_of_order_match.simps match_one.simps match_incomming_def match_loop.simps
    aget_def set_proc_def tag_fits_def check_cantmatch_for_match_def OMPI_ANY_SOURCE_def OMPI_ANY_TAG_def PML_MAX_SEQ_def zero_less_PML_MAX_SEQ)

theorem ob1_no_missed_match_witness:
  "\<exists>comm log. ob1_run ex_sent ex_wild (fresh_comm 1, []) = Some (comm, log) \<and> ex_frag 0 7 1 \<in> set (unexpected_frags (procs comm ! 0)) \<and>
     ex_request 0 (- 1) 8 \<in> set (wild_receives comm) \<and> \<not> tag_fits (ex_request 0 (- 1) 8) (hdr_tag (ex_frag 0 7 1))"
proof -
  obtain comm log where run: "ob1_run ex_sent ex_wild (fresh_comm 1, []) = Some (comm, log)" and c:
    "procs comm = [\<lparr>expected_sequence = 2, send_sequence = 0, frags_cant_match = [], specific_receives = [], unexpected_frags = [ex_frag 0 7 1]\<rparr>]"
    "wild_receives comm = [ex_request 0 (- 1) 8]" using ex_wild_run by blast
  have "\<not> tag_fits (ex_request 0 (- 1) 8) (hdr_tag (ex_frag 0 7 1))"
    by (rule ob1_no_missed_match [OF ex_sent_ne(1) ex_numbered ex_wild_ok, unfolded ex_sent_ne(2), OF run, of 0]) (simp_all add: c)
  then show ?thesis using run c by auto
qed

end
