(* ===== verification/Pml_Comm.thy ===== *)
theory Pml_Comm
  imports Pml_Matching
begin

text \<open>
  More on \<^verbatim>\<open>pml/ob1\<close>: the fast path of the callback agrees with the slow one, messages that came before
  their communicator are treated as if they came after it, the numbers of the sender are those the
  receiver expects, and what happens when the counter of receives wraps around or the array of
  processes cannot be allocated.
\<close>

section \<open>The fast path\<close>

lemma early_proc: "early comm' = early comm \<Longrightarrow> aget (procs comm) i = Some p \<Longrightarrow> \<exists>p'. aget (procs comm') i = Some p' \<and> frags_cant_match p' = frags_cant_match p"
  by (auto simp: early_def aget_def list_eq_iff_nth_eq split: if_splits)

lemma ob1_fast_path_lemma:
  "callback_match_fast f comm = mca_pml_ob1_recv_frag_match f comm"
proof (cases "aget (procs comm) (hdr_src f)")
  case (Some proc)
  let ?comm0 = "set_proc comm (hdr_src f) (proc\<lparr>expected_sequence := expected_sequence proc + 1\<rparr>)"
  show ?thesis
  proof (cases "hdr_seq f \<noteq> expected_sequence proc \<or> length (frags_cant_match proc) > 0")
    case False
    have early0: "early ?comm0 = early comm" using Some by (simp add: set_proc_early)
    show ?thesis
    proof (cases "match_one f ?comm0")
      case None
      then show ?thesis using Some False
        by (simp add: callback_match_fast_def mca_pml_ob1_recv_frag_match_def out_of_order_match.simps [of f comm])
    next
      case one: (Some x)
      obtain m os comm1 where x: "x = (m, os, comm1)" by (cases x) auto
      have "early comm1 = early comm" using match_one_early one x early0 by metis
      then obtain p where "aget (procs comm1) (hdr_src f) = Some p" "frags_cant_match p = []"
        using early_proc [OF _ Some, of comm1] False by auto
      then show ?thesis using Some False one x
        by (simp add: callback_match_fast_def mca_pml_ob1_recv_frag_match_def out_of_order_match.simps [of f comm] check_cantmatch_for_match_def)
    qed
  qed (simp add: callback_match_fast_def Some)
qed (simp add: callback_match_fast_def mca_pml_ob1_recv_frag_match_def)

text \<open>C30: The fast path of the callback for short messages changes nothing: it matches the message exactly
  as the general routine for messages of any protocol does, in every state.
\<close>

theorem ob1_fast_path_agrees:
  "callback_match_fast f comm = mca_pml_ob1_recv_frag_match f comm"
  by (rule ob1_fast_path_lemma)

section \<open>Messages before their communicator\<close>

text \<open>Nothing is posted, and the early messages of a process come from it.\<close>

definition quiet :: "'a comm \<Rightarrow> bool" where
  "quiet comm \<longleftrightarrow> wild_receives comm = [] \<and> (\<forall>i < length (procs comm). specific_receives (procs comm ! i) = [] \<and>
     (\<forall>g \<in> set (frags_cant_match (procs comm ! i)). hdr_src g = int i))"

lemma quiet_set_proc:
  assumes "quiet comm" "aget (procs comm) i = Some q" "specific_receives p = []" "\<forall>g \<in> set (frags_cant_match p). hdr_src g = i"
  shows "quiet (set_proc comm i p)"
proof -
  obtain k where "i = int k" using aget_SomeD [OF assms(2)] nonneg_int_cases by metis
  then have "specific_receives ((procs comm)[nat i := p] ! j) = [] \<and> (\<forall>g \<in> set (frags_cant_match ((procs comm)[nat i := p] ! j)). hdr_src g = int j)"
    if "j < length (procs comm)" for j using assms that by (cases "j = k") (auto simp: quiet_def)
  then show ?thesis using assms(1) by (simp add: quiet_def)
qed

lemma quiet_proc:
  assumes "quiet comm" "aget (procs comm) i = Some p"
  shows "specific_receives p = [] \<and> (\<forall>g \<in> set (frags_cant_match p). hdr_src g = i)"
proof -
  obtain k where "i = int k" using aget_SomeD [OF assms(2)] nonneg_int_cases by metis
  then show ?thesis using assms by (auto simp: quiet_def aget_def split: if_splits)
qed

lemma match_one_quiet:
  assumes "quiet comm" "aget (procs comm) (hdr_src f) = Some p"
  shows "match_one f comm = Some (None, [], set_proc comm (hdr_src f) (p\<lparr>unexpected_frags := unexpected_frags p @ [f]\<rparr>))"
  using assms quiet_proc [OF assms]
  by (simp add: match_one.simps [of f comm] match_incomming_def match_loop.simps quiet_def)

lemma aget_set_proc: "aget (procs comm) i = Some p \<Longrightarrow> aget (procs (set_proc comm i q)) i = Some q"
  by (auto simp: aget_def split: if_splits)

lemma set_proc_set_proc: "set_proc (set_proc comm i p) i q = set_proc comm i q"
  by (simp add: set_proc_def)

lemma replay_is_arrival:
  "quiet comm \<Longrightarrow> (case add_fragment_to_unexpected f comm of None \<Rightarrow> mca_pml_ob1_recv_frag_match f comm = None
     | Some comm' \<Rightarrow> mca_pml_ob1_recv_frag_match f comm = Some ([], comm') \<and> quiet comm')"
proof (induction f comm rule: add_fragment_to_unexpected.induct)
  case (1 f comm)
  note simps = add_fragment_to_unexpected.simps [of f comm] mca_pml_ob1_recv_frag_match_def
  show ?case
  proof (cases "aget (procs comm) (hdr_src f)")
    case None
    then show ?thesis by (simp add: simps)
  next
    case (Some proc)
    note spec = quiet_proc [OF "1.prems" Some] and qset = quiet_set_proc [OF "1.prems" Some]
    show ?thesis
    proof (cases "hdr_seq f = expected_sequence proc")
      case False
      then show ?thesis using Some spec qset by (simp add: simps append_frag_to_list_def)
    next
      case True
      let ?proc0 = "proc\<lparr>expected_sequence := expected_sequence proc + 1\<rparr>"
      let ?proc1 = "proc\<lparr>expected_sequence := expected_sequence proc + 1, unexpected_frags := unexpected_frags proc @ [f]\<rparr>"
      have "quiet (set_proc comm (hdr_src f) ?proc0)" using qset spec by simp
      from match_one_quiet [OF this aget_set_proc [OF Some]]
      have one: "match_one f (set_proc comm (hdr_src f) ?proc0) = Some (None, [], set_proc comm (hdr_src f) ?proc1)"
        by (simp add: set_proc_set_proc)
      have ooo: "out_of_order_match f comm = (case check_cantmatch_for_match ?proc1 of None \<Rightarrow> Some ([], set_proc comm (hdr_src f) ?proc1)
          | Some (g, proc2) \<Rightarrow> out_of_order_match g (set_proc comm (hdr_src f) proc2))"
        using Some one aget_set_proc [OF Some, of ?proc1]
        by (simp add: out_of_order_match.simps [of f comm] set_proc_set_proc option.map_id case_prod_eta split: option.split)
      have q1: "quiet (set_proc comm (hdr_src f) ?proc1)" using qset spec by simp
      show ?thesis
      proof (cases "find (\<lambda>g. hdr_seq g = expected_sequence ?proc1) (frags_cant_match ?proc1)")
        case None
        then show ?thesis using Some True ooo q1 by (simp add: simps check_cantmatch_for_match_def)
      next
        case found: (Some g)
        let ?proc2 = "?proc1\<lparr>frags_cant_match := remove1 g (frags_cant_match ?proc1)\<rparr>"
        let ?comm2 = "set_proc comm (hdr_src f) ?proc2"
        have g: "hdr_seq g = expected_sequence proc + 1" "hdr_src g = hdr_src f"
          using found spec by (auto simp: find_Some_iff)
        have q2: "quiet ?comm2" 
          by (rule qset) (use spec set_remove1_subset [of g "frags_cant_match proc"] in auto)
        have step: "add_fragment_to_unexpected f comm = add_fragment_to_unexpected g ?comm2" using Some True found by (simp add: simps)
        have "mca_pml_ob1_recv_frag_match f comm = out_of_order_match g ?comm2"
          using Some True ooo found by (simp add: simps check_cantmatch_for_match_def)
        moreover have "case add_fragment_to_unexpected g ?comm2 of None \<Rightarrow> mca_pml_ob1_recv_frag_match g ?comm2 = None
            | Some comm' \<Rightarrow> mca_pml_ob1_recv_frag_match g ?comm2 = Some ([], comm') \<and> quiet comm'"
          using "1.IH" [OF Some True refl found] q2 by simp
        moreover have "mca_pml_ob1_recv_frag_match g ?comm2 = out_of_order_match g ?comm2"
          using g aget_set_proc [OF Some, of ?proc2] by (simp add: mca_pml_ob1_recv_frag_match_def)
        ultimately show ?thesis using step by (simp split: option.splits)
      qed
    qed
  qed
qed


definition arrives_unmatched :: "'a frag \<Rightarrow> 'a mca_pml_ob1_t \<Rightarrow> 'a mca_pml_ob1_t option" where
  "arrives_unmatched f pml = (case mca_pml_ob1_recv_frag_callback_match f pml of Some ([], pml') \<Rightarrow> Some pml' | _ \<Rightarrow> None)"

lemma replays_are_arrivals:
  "comm_lookup pml ctx = Some comm \<Longrightarrow> quiet comm \<Longrightarrow> \<forall>f \<in> set fs. hdr_ctx f = ctx \<Longrightarrow>
     ofold arrives_unmatched fs pml = map_option (\<lambda>c. pml\<lparr>comm_lookup := (comm_lookup pml)(ctx \<mapsto> c)\<rparr>) (ofold add_fragment_to_unexpected fs comm)"
proof (induction fs arbitrary: pml comm)
  case (Cons f fs)
  have ctx: "hdr_ctx f = ctx" using Cons.prems by simp
  show ?case
  proof (cases "add_fragment_to_unexpected f comm")
    case None
    then have "callback_match_fast f comm = None" using replay_is_arrival [OF Cons.prems(2), of f] ob1_fast_path_lemma [of f comm] by simp
    then show ?thesis using None Cons.prems(1) ctx by (simp add: arrives_unmatched_def mca_pml_ob1_recv_frag_callback_match_def with_comm_def)
  next
    case (Some comm')
    then have c: "callback_match_fast f comm = Some ([], comm')" "quiet comm'"
      using replay_is_arrival [OF Cons.prems(2), of f] ob1_fast_path_lemma [of f comm] by simp_all
    let ?pml = "pml\<lparr>comm_lookup := (comm_lookup pml)(ctx \<mapsto> comm')\<rparr>"
    have "arrives_unmatched f pml = Some ?pml" using c Cons.prems(1) ctx
      by (simp add: arrives_unmatched_def mca_pml_ob1_recv_frag_callback_match_def with_comm_def)
    moreover have "ofold arrives_unmatched fs ?pml = map_option (\<lambda>c. ?pml\<lparr>comm_lookup := (comm_lookup ?pml)(ctx \<mapsto> c)\<rparr>) (ofold add_fragment_to_unexpected fs comm')"
      by (rule Cons.IH) (use c Cons.prems(3) in auto)
    ultimately show ?thesis using Some by (simp del: fun_upd_apply)
  qed
qed (simp add: fun_upd_idem)

lemma ucast_16_32_16: "(ucast (ucast (x :: 16 word) :: 32 word) :: 16 word) = x"
  by (rule bit_word_eqI) (simp add: bit_simps)

text \<open>C29: A message that arrives before its communicator is created is not lost and not reordered: creating
  the communicator gives the same state as creating it with nothing pending and letting the pending
  messages arrive then, in the order in which they came; none of these arrivals makes a match.
\<close>

theorem ob1_add_comm_replays:
  fixes pml :: "'a mca_pml_ob1_t"
  assumes "contextid \<le> pml_max_contextid"
  shows "mca_pml_ob1_add_comm True True contextid n pml =
    (case mca_pml_ob1_add_comm True True contextid n
        (pml\<lparr>non_existing_communicator_pending := filter (\<lambda>f. ucast (hdr_ctx f) \<noteq> contextid) (non_existing_communicator_pending pml)\<rparr>) of
       None \<Rightarrow> None
     | Some (rc, pml') \<Rightarrow> map_option (Pair rc)
         (ofold arrives_unmatched (filter (\<lambda>f. ucast (hdr_ctx f) = contextid) (non_existing_communicator_pending pml)) pml'))"
proof -
  let ?fs = "filter (\<lambda>f. ucast (hdr_ctx f) = contextid) (non_existing_communicator_pending pml)"
  let ?rest = "filter (\<lambda>f. ucast (hdr_ctx f) \<noteq> contextid) (non_existing_communicator_pending pml)"
  let ?comm = "mca_pml_ob1_comm_construct\<lparr>procs := replicate n mca_pml_ob1_comm_proc_construct\<rparr>"
  let ?pml = "\<lparr>comm_lookup = (comm_lookup pml)(ucast contextid \<mapsto> ?comm), non_existing_communicator_pending = ?rest\<rparr>"
  have loop: "ofold (\<lambda>i _. map_option (\<lambda>_. ()) (aget (replicate n (mca_pml_ob1_comm_proc_construct :: 'a mca_pml_ob1_comm_proc_t)) (int i))) is () = Some ()"
    if "\<forall>i \<in> set is. i < n" for "is" using that by (induction "is") auto
  have q: "quiet ?comm" by (simp add: quiet_def mca_pml_ob1_comm_construct_def mca_pml_ob1_comm_proc_construct_def)
  have ctx: "\<forall>f \<in> set ?fs. hdr_ctx f = ucast contextid" using ucast_16_32_16 by auto
  have "ofold arrives_unmatched ?fs ?pml = map_option (\<lambda>c. ?pml\<lparr>comm_lookup := (comm_lookup ?pml)(ucast contextid \<mapsto> c)\<rparr>) (ofold add_fragment_to_unexpected ?fs ?comm)"
    by (rule replays_are_arrivals [OF _ q ctx]) simp
  moreover have "\<not> pml_max_contextid < contextid" using assms by simp
  moreover have "ofold (\<lambda>i _. map_option (\<lambda>_. ()) (aget (replicate n (mca_pml_ob1_comm_proc_construct :: 'a mca_pml_ob1_comm_proc_t)) (int i))) [0..<n] () = Some ()"
    by (rule loop) simp
  ultimately show ?thesis
    by (cases "ofold add_fragment_to_unexpected ?fs ?comm") (simp_all add: mca_pml_ob1_add_comm_def mca_pml_ob1_comm_init_size_def del: fun_upd_apply)
qed


definition pending_example :: "nat mca_pml_ob1_t" where
  "pending_example = \<lparr>comm_lookup = (\<lambda>_. None), non_existing_communicator_pending =
     [\<lparr>hdr_ctx = 3, hdr_src = 0, hdr_tag = 7, hdr_seq = 2, frag_data = 20\<rparr>, \<lparr>hdr_ctx = 4, hdr_src = 0, hdr_tag = 7, hdr_seq = 1, frag_data = 30\<rparr>,
      \<lparr>hdr_ctx = 3, hdr_src = 0, hdr_tag = 7, hdr_seq = 1, frag_data = 10\<rparr>]\<rparr>"

lemma pending_example_filter:
  "filter (\<lambda>f. ucast (hdr_ctx f) = (3 :: 32 word)) (non_existing_communicator_pending pending_example) =
     [\<lparr>hdr_ctx = 3, hdr_src = 0, hdr_tag = 7, hdr_seq = 2, frag_data = 20\<rparr>, \<lparr>hdr_ctx = 3, hdr_src = 0, hdr_tag = 7, hdr_seq = 1, frag_data = 10\<rparr>]"
  by (simp add: pending_example_def)

theorem ob1_add_comm_replays_witness:
  "mca_pml_ob1_add_comm True True 3 1 pending_example =
    (case mca_pml_ob1_add_comm True True 3 1
        (pending_example\<lparr>non_existing_communicator_pending := filter (\<lambda>f. ucast (hdr_ctx f) \<noteq> (3 :: 32 word)) (non_existing_communicator_pending pending_example)\<rparr>) of
       None \<Rightarrow> None
     | Some (rc, pml') \<Rightarrow> map_option (Pair rc)
         (ofold arrives_unmatched [\<lparr>hdr_ctx = 3, hdr_src = 0, hdr_tag = 7, hdr_seq = 2, frag_data = 20\<rparr>,
            \<lparr>hdr_ctx = 3, hdr_src = 0, hdr_tag = 7, hdr_seq = 1, frag_data = 10\<rparr>] pml'))"
  using ob1_add_comm_replays [of 3 1 pending_example] unfolding pending_example_filter by (simp add: pml_max_contextid_def)

text \<open>The result of \<^verbatim>\<open>mca_pml_ob1_comm_init_size\<close> is not looked at: without memory the processes are a null pointer.\<close>

lemma add_comm_without_memory: "contextid \<le> pml_max_contextid \<Longrightarrow> mca_pml_ob1_add_comm True False contextid (Suc n) pml = None"
  by (simp add: mca_pml_ob1_add_comm_def mca_pml_ob1_comm_init_size_def aget_def upt_rec del: upt_Suc)

section \<open>The numbers of the sender\<close>

fun send_all :: "nat list \<Rightarrow> 'a comm \<Rightarrow> ((nat \<times> 16 word) list \<times> 'a comm) option" where
  "send_all [] comm = Some ([], comm)"
| "send_all (d # ds) comm =
     (case send_seqn comm (int d) of
        None \<Rightarrow> None
      | Some (n, comm') \<Rightarrow> map_option (\<lambda>(ns, comm''). ((d, n) # ns, comm'')) (send_all ds comm'))"

lemma ucast_32_16: "(ucast (word_of_nat n :: 32 word) :: 16 word) = word_of_nat n"
  by (rule bit_word_eqI) (simp add: bit_simps)

lemma send_all_numbers:
  "\<forall>d \<in> set ds. d < length (procs comm) \<Longrightarrow> \<forall>d < length (procs comm). send_sequence (procs comm ! d) = word_of_nat (c d) \<Longrightarrow>
   \<exists>ns comm'. send_all ds comm = Some (ns, comm') \<and>
     (\<forall>d. map snd (filter (\<lambda>p. fst p = d) ns) = map (\<lambda>k. word_of_nat (Suc k)) [c d..<c d + count_list ds d])"
proof (induction ds arbitrary: comm c)
  case (Cons x ds)
  let ?comm = "set_proc comm (int x) ((procs comm ! x)\<lparr>send_sequence := word_of_nat (Suc (c x))\<rparr>)"
  have x: "x < length (procs comm)" "send_sequence (procs comm ! x) = word_of_nat (c x)" using Cons.prems by auto
  then have start: "send_seqn comm (int x) = Some (word_of_nat (Suc (c x)), ?comm)"
    using ucast_32_16 [of "Suc (c x)"] by (simp add: send_seqn_def add.commute Let_def)
  have "\<exists>ns comm'. send_all ds ?comm = Some (ns, comm') \<and>
     (\<forall>d. map snd (filter (\<lambda>p. fst p = d) ns) = map (\<lambda>k. word_of_nat (Suc k)) [(c(x := Suc (c x))) d..<(c(x := Suc (c x))) d + count_list ds d])"
    by (rule Cons.IH) (use Cons.prems x in \<open>auto simp: nth_list_update\<close>)
  then obtain ns comm' where rest: "send_all ds ?comm = Some (ns, comm')"
    "\<And>d. map snd (filter (\<lambda>p. fst p = d) ns) = map (\<lambda>k. word_of_nat (Suc k)) [(c(x := Suc (c x))) d..<(c(x := Suc (c x))) d + count_list ds d]"
    by blast
  have "map snd (filter (\<lambda>p. fst p = d) ((x, word_of_nat (Suc (c x))) # ns)) = map (\<lambda>k. word_of_nat (Suc k)) [c d..<c d + count_list (x # ds) d]" for d
    using rest(2) [of d] upt_conv_Cons [of "c x" "c x + Suc (count_list ds x)"] by (cases "d = x") simp_all
  then show ?case using start rest(1) by simp
qed simp

text \<open>
  The messages a process sends to rank \<open>d\<close> of a communicator, whatever it sends to other ranks in
  between, are numbered 1, 2, 3 and so on modulo \<open>2^16\<close>, even after the 32-bit counter they come from has
  wrapped around. These are the numbers the receiver expects.
\<close>

lemma ob1_send_numbers:
  assumes "\<forall>d \<in> set ds. d < n"
  shows "\<exists>ns comm. send_all ds (snd (mca_pml_ob1_comm_init_size True mca_pml_ob1_comm_construct n)) = Some (ns, comm) \<and>
    (\<forall>d. map snd (filter (\<lambda>p. fst p = d) ns) = map (\<lambda>k. word_of_nat (Suc k)) [0..<count_list ds d])"
  using send_all_numbers [of ds "snd (mca_pml_ob1_comm_init_size True mca_pml_ob1_comm_construct n)" "\<lambda>_. 0"] assms
  by (simp add: mca_pml_ob1_comm_init_size_def mca_pml_ob1_comm_proc_construct_def)

section \<open>The counter of receives wraps around\<close>

lemma minus_one_less: "(0 :: 64 word) < ucast (- 1 :: 32 word)" "ucast (- 1 :: 32 word) < (- 1 :: 64 word)"
  by (simp_all add: word_less_nat_alt unsigned_ucast_eq unsigned_minus_1_eq_mask mask_eq_exp_minus_1 take_bit_nat_eq_self)

text \<open>After \<open>2^32 - 1\<close> receives the numbers start again at 0, and the order of posting is lost: a receive
  for any source, posted first, and one for source 0 with the same tag, posted second, compete for a
  message of source 0, and the second one gets it.
\<close>

lemma ob1_recv_sequence_wraps:
  assumes "recv_sequence comm = - 1" "wild_receives comm = []" "procs comm = [p]" "specific_receives p = []" "unexpected_frags p = []"
    "frags_cant_match p = []" "last_probed comm = 0"
    and "req_type r1 = MCA_PML_REQUEST_RECV" "req_peer r1 = OMPI_ANY_SOURCE" "req_tag r1 = t"
    and "req_type r2 = MCA_PML_REQUEST_RECV" "req_peer r2 = 0" "req_tag r2 = t"
    and "hdr_src f = 0" "hdr_tag f = t" "hdr_seq f = expected_sequence p"
  shows "\<exists>comm1 comm2 comm3. mca_pml_ob1_recv_req_start r1 comm = Some ([], comm1) \<and> mca_pml_ob1_recv_req_start r2 comm1 = Some ([], comm2) \<and>
    mca_pml_ob1_recv_frag_match f comm2 = Some ([Received (r2\<lparr>req_sequence := 0\<rparr>) f], comm3)"
proof -
  let ?r1 = "r1\<lparr>req_sequence := ucast (- 1 :: 32 word)\<rparr>" and ?r2 = "r2\<lparr>req_sequence := 0\<rparr>"
  define comm1 where "comm1 = comm\<lparr>recv_sequence := 0, wild_receives := [?r1]\<rparr>"
  define comm2 where "comm2 = comm1\<lparr>recv_sequence := 1, procs := [p\<lparr>specific_receives := [?r2]\<rparr>]\<rparr>"
  have start1: "mca_pml_ob1_recv_req_start r1 comm = Some ([], comm1)"
    using assms by (simp add: mca_pml_ob1_recv_req_start_def recv_req_match_wild_def recv_req_match_specific_proc_def append_recv_req_to_queue_def comm1_def aget_def Let_def)
  have any: "OMPI_ANY_SOURCE \<noteq> 0" by (simp add: OMPI_ANY_SOURCE_def)
  have start2: "mca_pml_ob1_recv_req_start r2 comm1 = Some ([], comm2)"
    using assms any by (simp add: mca_pml_ob1_recv_req_start_def recv_req_match_specific_proc_def append_recv_req_to_queue_def comm1_def comm2_def aget_def set_proc_def Let_def)
  define comm3 where "comm3 = comm2\<lparr>procs := [p\<lparr>specific_receives := [?r2], expected_sequence := expected_sequence p + 1\<rparr>]\<rparr>"
  define comm4 where "comm4 = comm2\<lparr>procs := [p\<lparr>specific_receives := [], expected_sequence := expected_sequence p + 1\<rparr>]\<rparr>"
  have "match_loop t [?r1] [?r2] = Some (Some (Inr ?r2))"
    using assms minus_one_less by (subst match_loop.simps) (simp add: tag_fits_def order.asym)
  then have inc: "match_incomming f comm3 = Some (Some ?r2, comm4)"
    using assms by (simp add: match_incomming_def comm4_def comm3_def comm2_def comm1_def aget_def set_proc_def)
  have one: "match_one f comm3 = Some (Some ?r2, [], comm4)"
    using assms by (simp add: match_one.simps [of f comm3] inc)
  have "procs comm2 = [p\<lparr>specific_receives := [?r2]\<rparr>]" "procs comm4 = [p\<lparr>specific_receives := [], expected_sequence := expected_sequence p + 1\<rparr>]"
    "set_proc comm2 0 (p\<lparr>specific_receives := [?r2], expected_sequence := expected_sequence p + 1\<rparr>) = comm3"
    by (simp_all add: comm2_def comm3_def comm4_def set_proc_def)
  then have "mca_pml_ob1_recv_frag_match f comm2 = Some ([Received ?r2 f], comm4)"
    using assms one by (simp add: mca_pml_ob1_recv_frag_match_def out_of_order_match.simps [of f comm2] aget_def check_cantmatch_for_match_def)
  then show ?thesis using start1 start2 by blast
qed

definition wrap_comm :: "nat comm" where
  "wrap_comm = \<lparr>recv_sequence = - 1, wild_receives = [], procs = [mca_pml_ob1_comm_proc_construct], last_probed = 0\<rparr>"

definition wrap_request :: "nat \<Rightarrow> int \<Rightarrow> mca_pml_base_request_t" where
  "wrap_request n peer = \<lparr>req_id = n, req_type = MCA_PML_REQUEST_RECV, req_peer = peer, req_tag = 7, req_sequence = 0\<rparr>"

definition wrap_frag :: "nat frag" where
  "wrap_frag = \<lparr>hdr_ctx = 0, hdr_src = 0, hdr_tag = 7, hdr_seq = 1, frag_data = 5\<rparr>"

end
