(* ===== verification/Comm_Cid.thy ===== *)
theory Comm_Cid
  imports Opal_Pointer_Array
begin

text \<open>
  Agreement on the context id of a new communicator (\<^verbatim>\<open>ompi/communicator/comm_cid.c\<close>). Every process has a
  table of its communicators (\<open>Opal_Pointer_Array\<close>), indexed by context id. All processes of the parent
  communicator have to find the same id, free in the table of each of them: they propose, take the
  maximum of the proposals, and try that one everywhere, until all can use it.

  A collective call is modelled for all its processes at once: between two calls of the reduction
  function each process runs its part on its own table; a reduction gives every process the maximum or
  the minimum of what all put in, as MPI defines it, and returns only when all processes take part: when some have
  left with an error, the others stay in it. A communicator is a value of type \<^typ>\<open>'c\<close>, its address.
\<close>

section \<open>Operations in progress\<close>

text \<open>
  The parent communicators on which an operation of this process is in progress, by increasing id
  (without \<^verbatim>\<open>OMPI_ENABLE_THREAD_MULTIPLE\<close>).
\<close>

definition ompi_comm_register_cid :: "nat \<Rightarrow> nat list \<Rightarrow> nat list" where
  "ompi_comm_register_cid cid regs = takeWhile (\<lambda>c. \<not> c > cid) regs @ cid # dropWhile (\<lambda>c. \<not> c > cid) regs"

definition ompi_comm_unregister_cid :: "nat \<Rightarrow> nat list \<Rightarrow> nat list" where
  "ompi_comm_unregister_cid cid regs = remove1 cid regs"

definition ompi_comm_lowest_cid :: "nat list \<Rightarrow> nat option" where
  "ompi_comm_lowest_cid regs = (case regs of [] \<Rightarrow> None | c # _ \<Rightarrow> Some c)"

section \<open>The part of one process\<close>

record 'c cid_proc =
  ompi_mpi_communicators :: "'c opal_pointer_array_t"
  ompi_registered_comms :: "nat list"
  cid_start :: nat

text \<open>The loop that looks for a free id from \<^verbatim>\<open>start\<close> on: the flag, the proposal and the table.\<close>

fun cid_scan :: "'c option option \<Rightarrow> 'c \<Rightarrow> nat \<Rightarrow> nat list \<Rightarrow> 'c opal_pointer_array_t \<Rightarrow> (bool \<times> nat \<times> 'c opal_pointer_array_t) option" where
  "cid_scan mem comm maxcid [] t = Some (False, maxcid, t)"
| "cid_scan mem comm maxcid (i # is) t =
     (case opal_pointer_array_test_and_set_item mem t (int i) (Some comm) of
        None \<Rightarrow> None
      | Some (flag, t') \<Rightarrow> if flag then Some (True, i, t') else cid_scan mem comm maxcid is t')"

text \<open>
  Up to the first reduction. A process whose communicator is not the lowest in progress waits for
  another of its threads.
\<close>

definition cid_propose :: "'c option option \<Rightarrow> 'c \<Rightarrow> nat \<Rightarrow> nat \<Rightarrow> 'c cid_proc \<Rightarrow> (bool \<times> nat \<times> 'c cid_proc) option" where
  "cid_propose mem comm cid maxcid p =
     (if ompi_comm_lowest_cid (ompi_registered_comms p) \<noteq> Some cid then None
      else map_option (\<lambda>(flag, n, t). (flag, n, p\<lparr>ompi_mpi_communicators := t\<rparr>))
             (cid_scan mem comm maxcid [cid_start p..<maxcid] (ompi_mpi_communicators p)))"

definition set_comm :: "'c option option \<Rightarrow> nat \<Rightarrow> 'c option \<Rightarrow> 'c cid_proc \<Rightarrow> 'c cid_proc option" where
  "set_comm mem i v p = map_option (\<lambda>(rc, t). p\<lparr>ompi_mpi_communicators := t\<rparr>) (opal_pointer_array_set_item mem (ompi_mpi_communicators p) (int i) v)"

text \<open>Between the reductions: \<^const>\<open>None\<close> inside is the return with \<^verbatim>\<open>OMPI_ERR_OUT_OF_RESOURCE\<close>.\<close>

definition cid_check :: "'c option option \<Rightarrow> 'c \<Rightarrow> nat \<Rightarrow> nat \<Rightarrow> bool \<times> nat \<times> 'c cid_proc \<Rightarrow> (bool option \<times> 'c cid_proc) option" where
  "cid_check mem comm maxcid nextcid prop =
     (case prop of (flag, nextlocal_cid, p) \<Rightarrow>
        if maxcid = nextcid \<and> flag then map_option (Pair None) (set_comm mem nextlocal_cid None p)
        else if nextcid = nextlocal_cid then Some (Some True, p)
        else do {
          p \<leftarrow> set_comm mem nextlocal_cid None p;
          (flag, t) \<leftarrow> opal_pointer_array_test_and_set_item mem (ompi_mpi_communicators p) (int nextcid) (Some comm);
          Some (Some flag, p\<lparr>ompi_mpi_communicators := t\<rparr>)
        })"

text \<open>After the second reduction, when not all agree.\<close>

definition cid_again :: "'c option option \<Rightarrow> nat \<Rightarrow> bool option \<times> 'c cid_proc \<Rightarrow> 'c cid_proc option" where
  "cid_again mem nextcid resp =
     (case resp of (response, p) \<Rightarrow> do {
        p \<leftarrow> (if response = Some True then set_comm mem nextcid None p else Some p);
        Some (p\<lparr>cid_start := nextcid + 1\<rparr>)
      })"

definition cid_done :: "'c option option \<Rightarrow> 'c \<Rightarrow> nat \<Rightarrow> nat \<Rightarrow> 'c cid_proc \<Rightarrow> 'c cid_proc option" where
  "cid_done mem newcomm cid nextcid p = map_option (\<lambda>p. p\<lparr>ompi_registered_comms := ompi_comm_unregister_cid cid (ompi_registered_comms p)\<rparr>) (set_comm mem nextcid (Some newcomm) p)"

definition cid_failed :: "nat \<Rightarrow> 'c cid_proc \<Rightarrow> 'c cid_proc" where
  "cid_failed cid p = p\<lparr>ompi_registered_comms := ompi_comm_unregister_cid cid (ompi_registered_comms p)\<rparr>"

section \<open>All processes\<close>

text \<open>
  A process at the end of the call: it has returned the error, or it is in the second reduction, with the flag
  it put in, and the reduction does not complete because others do not take part. \<^const>\<open>None\<close> in place of
  an answer is the early return.
\<close>

datatype 'c cid_end = Returned_error "'c cid_proc" | Waits_in_reduction bool "'c cid_proc"

fun cid_end_of :: "nat \<Rightarrow> bool option \<times> 'c cid_proc \<Rightarrow> 'c cid_end" where
  "cid_end_of cid (None, p) = Returned_error (cid_failed cid p)"
| "cid_end_of cid (Some flag, p) = Waits_in_reduction flag p"

text \<open>
  The loop: \<^const>\<open>Inr\<close> the id with which all processes return, \<^const>\<open>Inl\<close> how the call ends in each process when
  some of them, or all, return the error after the first reduction.
\<close>

partial_function (option) cid_rounds ::
  "'c option option \<Rightarrow> 'c \<Rightarrow> 'c \<Rightarrow> nat \<Rightarrow> nat \<Rightarrow> 'c cid_proc list \<Rightarrow> ('c cid_end list + nat \<times> 'c cid_proc list) option" where
  "cid_rounds mem comm newcomm cid maxcid ps =
     Option.bind (those (map (cid_propose mem comm cid maxcid) ps)) (\<lambda>props.
       let nextcid = foldr max (map (\<lambda>(flag, n, p). n) props) 0 in
       Option.bind (those (map (cid_check mem comm maxcid nextcid) props)) (\<lambda>resps.
         if list_ex (\<lambda>(r, p). r = None) resps then Some (Inl (map (cid_end_of cid) resps))
         else if list_all (\<lambda>(r, p). r = Some True) resps then
           map_option (\<lambda>ps. Inr (nextcid, ps)) (those (map (\<lambda>(r, p). cid_done mem newcomm cid nextcid p) resps))
         else Option.bind (those (map (cid_again mem nextcid) resps)) (\<lambda>ps. cid_rounds mem comm newcomm cid maxcid ps)))"

definition cid_enter :: "nat \<Rightarrow> 'c cid_proc \<Rightarrow> 'c cid_proc" where
  "cid_enter cid p = p\<lparr>ompi_registered_comms := ompi_comm_register_cid cid (ompi_registered_comms p),
     cid_start := nat (pa_lowest_free (ompi_mpi_communicators p))\<rparr>"

definition ompi_comm_nextcid ::
  "'c option option \<Rightarrow> 'c \<Rightarrow> 'c \<Rightarrow> nat \<Rightarrow> nat \<Rightarrow> 'c cid_proc list \<Rightarrow> ('c cid_end list + nat \<times> 'c cid_proc list) option" where
  "ompi_comm_nextcid mem comm newcomm cid maxcid ps = cid_rounds mem comm newcomm cid maxcid (map (cid_enter cid) ps)"


section \<open>Tables and their contents\<close>

text \<open>The table of a process holds \<open>m\<close> and can grow to any context id; no other operation is in progress.\<close>

definition holds :: "nat \<Rightarrow> (nat \<Rightarrow> 'c option) \<Rightarrow> 'c cid_proc \<Rightarrow> bool" where
  "holds cid m p \<longleftrightarrow> pa_wf (ompi_mpi_communicators p) \<and> pa_map (ompi_mpi_communicators p) = m \<and>
     pa_max_size (ompi_mpi_communicators p) = INT_MAX \<and> ompi_registered_comms p = [cid]"

definition maxcid_ok :: "nat \<Rightarrow> bool" where
  "maxcid_ok maxcid \<longleftrightarrow> int maxcid + 2 < INT_MAX"

lemma holds_room: "holds cid m p \<Longrightarrow> maxcid_ok maxcid \<Longrightarrow> i \<le> maxcid \<Longrightarrow> pa_room (ompi_mpi_communicators p) i"
  unfolding holds_def maxcid_ok_def pa_room_def half_double by auto

lemma set_comm_holds:
  assumes "holds cid m p" "maxcid_ok maxcid" "i \<le> maxcid"
  shows "\<exists>p'. set_comm (Some junk) i v p = Some p' \<and> holds cid (m(i := v)) p' \<and> cid_start p' = cid_start p"
proof -
  obtain t where "opal_pointer_array_set_item (Some junk) (ompi_mpi_communicators p) (int i) v = Some (OPAL_SUCCESS, t)"
    "pa_wf t" "pa_map t = m(i := v)" "pa_max_size t = INT_MAX"
    using set_item_correct [OF _ holds_room [OF assms], of junk v] assms(1) unfolding holds_def by auto
  then show ?thesis using assms(1) by (simp add: set_comm_def holds_def)
qed

lemma test_and_set_holds:
  assumes "holds cid m p" "maxcid_ok maxcid" "i \<le> maxcid"
  shows "\<exists>t. opal_pointer_array_test_and_set_item (Some junk) (ompi_mpi_communicators p) (int i) (Some c) = Some (m i = None, t) \<and>
    holds cid (if m i = None then m(i \<mapsto> c) else m) (p\<lparr>ompi_mpi_communicators := t\<rparr>)"
proof (cases "m i = None")
  case True
  then show ?thesis
    using test_and_set_correct [OF _ holds_room [OF assms], of junk c] assms(1) unfolding holds_def by auto
next
  case False
  then show ?thesis using test_and_set_in_use [of "ompi_mpi_communicators p" i "Some junk" "Some c"] assms(1) by (auto simp: holds_def)
qed

text \<open>The proposal is the first free id from the start on.\<close>

definition proposal :: "(nat \<Rightarrow> 'c option) \<Rightarrow> nat \<Rightarrow> nat \<Rightarrow> nat" where
  "proposal m start maxcid = start + length (takeWhile (\<lambda>i. m i \<noteq> None) [start..<maxcid])"

lemma proposal_step: "start < maxcid \<Longrightarrow> proposal m start maxcid = (if m start = None then start else proposal m (Suc start) maxcid)"
  by (simp add: proposal_def upt_conv_Cons)

lemma proposal_bounds:
  assumes "start \<le> maxcid"
  shows "start \<le> proposal m start maxcid" "proposal m start maxcid \<le> maxcid"
    "start \<le> i \<Longrightarrow> i < proposal m start maxcid \<Longrightarrow> m i \<noteq> None" "proposal m start maxcid < maxcid \<Longrightarrow> m (proposal m start maxcid) = None"
proof -
  have "start \<le> proposal m start maxcid \<and> proposal m start maxcid \<le> maxcid \<and> (\<forall>i. start \<le> i \<and> i < proposal m start maxcid \<longrightarrow> m i \<noteq> None) \<and>
    (proposal m start maxcid < maxcid \<longrightarrow> m (proposal m start maxcid) = None)"
    using assms
  proof (induction "maxcid - start" arbitrary: start)
    case (Suc d)
    then have less: "start < maxcid" and d: "d = maxcid - Suc start" by simp_all
    note IH = Suc.hyps(1) [OF d]
    show ?case
    proof (cases "m start = None")
      case False
      have "m i \<noteq> None" if "start \<le> i" "i < proposal m (Suc start) maxcid" for i
        using IH less that False by (cases "i = start") auto
      moreover have "proposal m start maxcid = proposal m (Suc start) maxcid" using proposal_step [OF less, of m] False by simp
      moreover have "start \<le> proposal m (Suc start) maxcid" using IH less by simp
      ultimately show ?thesis using IH less by simp
    qed (use less in \<open>auto simp: proposal_step\<close>)
  qed (auto simp: proposal_def)
  then show "start \<le> proposal m start maxcid" "proposal m start maxcid \<le> maxcid"
    "start \<le> i \<Longrightarrow> i < proposal m start maxcid \<Longrightarrow> m i \<noteq> None" "proposal m start maxcid < maxcid \<Longrightarrow> m (proposal m start maxcid) = None"
    by blast+
qed

lemma cid_scan_correct:
  assumes "holds cid m p" "maxcid_ok maxcid" "start \<le> maxcid"
  shows "\<exists>t. cid_scan (Some junk) c maxcid [start..<maxcid] (ompi_mpi_communicators p) = Some (proposal m start maxcid < maxcid, proposal m start maxcid, t) \<and>
    holds cid (if proposal m start maxcid < maxcid then m(proposal m start maxcid \<mapsto> c) else m) (p\<lparr>ompi_mpi_communicators := t\<rparr>)"
  using assms
proof (induction "maxcid - start" arbitrary: start p)
  case 0
  then have "start = maxcid" by simp
  then show ?case using 0 by (simp add: proposal_def holds_def)
next
  case (Suc d)
  then have less: "start < maxcid" by simp
  note step = proposal_step [OF less, of m]
  obtain t where t: "opal_pointer_array_test_and_set_item (Some junk) (ompi_mpi_communicators p) (int start) (Some c) = Some (m start = None, t)"
    "holds cid (if m start = None then m(start \<mapsto> c) else m) (p\<lparr>ompi_mpi_communicators := t\<rparr>)"
    using test_and_set_holds [OF Suc.prems(1,2), of start] less by auto
  show ?case
  proof (cases "m start = None")
    case True
    then show ?thesis using t step less by (simp add: upt_conv_Cons)
  next
    case False
    then obtain y where y: "m start = Some y" by auto
    then have "holds cid m (p\<lparr>ompi_mpi_communicators := t\<rparr>)" using t(2) by simp
    moreover have "d = maxcid - Suc start" using Suc.hyps(2) less by simp
    ultimately have "\<exists>t'. cid_scan (Some junk) c maxcid [Suc start..<maxcid] t = Some (proposal m (Suc start) maxcid < maxcid, proposal m (Suc start) maxcid, t') \<and>
      holds cid (if proposal m (Suc start) maxcid < maxcid then m(proposal m (Suc start) maxcid \<mapsto> c) else m) (p\<lparr>ompi_mpi_communicators := t'\<rparr>)"
      using Suc.hyps(1) [of "Suc start" "p\<lparr>ompi_mpi_communicators := t\<rparr>"] Suc.prems(2) less by simp
    then show ?thesis
      using y t(1) step less by (auto simp: upt_conv_Cons)
  qed
qed

lemma cid_propose_holds:
  assumes "holds cid m p" "maxcid_ok maxcid" "cid_start p \<le> maxcid"
  shows "\<exists>p'. cid_propose (Some junk) c cid maxcid p = Some (proposal m (cid_start p) maxcid < maxcid, proposal m (cid_start p) maxcid, p') \<and>
    holds cid (if proposal m (cid_start p) maxcid < maxcid then m(proposal m (cid_start p) maxcid \<mapsto> c) else m) p' \<and> cid_start p' = cid_start p"
  using cid_scan_correct [OF assms, of junk c] assms(1) by (auto simp: cid_propose_def holds_def ompi_comm_lowest_cid_def)


section \<open>One round\<close>

lemma those_map_ex:
  "list_all2 R ms xs \<Longrightarrow> (\<And>m x. R m x \<Longrightarrow> \<exists>y. f x = Some y \<and> Q m y) \<Longrightarrow> \<exists>ys. those (map f xs) = Some ys \<and> list_all2 Q ms ys"
proof (induction rule: list_all2_induct)
  case (Cons m ms x xs)
  from Cons.IH [OF Cons.prems] obtain ys where "those (map f xs) = Some ys" "list_all2 Q ms ys" by blast
  moreover from Cons.prems [OF Cons.hyps(1)] obtain y where "f x = Some y" "Q m y" by blast
  ultimately show ?case by (intro exI [of _ "y # ys"]) simp
qed simp

definition ready :: "nat \<Rightarrow> nat \<Rightarrow> (nat \<Rightarrow> 'c option) \<Rightarrow> 'c cid_proc \<Rightarrow> bool" where
  "ready cid c m p \<longleftrightarrow> holds cid m p \<and> cid_start p \<le> c"

definition proposed :: "'c \<Rightarrow> nat \<Rightarrow> nat \<Rightarrow> (nat \<Rightarrow> 'c option) \<Rightarrow> bool \<times> nat \<times> 'c cid_proc \<Rightarrow> bool" where
  "proposed comm cid c m prop \<longleftrightarrow> (case prop of (flag, n, p) \<Rightarrow> flag \<and> n \<le> c \<and> cid_start p \<le> n \<and> m n = None \<and> holds cid (m(n \<mapsto> comm)) p)"

definition answered :: "'c \<Rightarrow> nat \<Rightarrow> nat \<Rightarrow> (nat \<Rightarrow> 'c option) \<Rightarrow> bool option \<times> 'c cid_proc \<Rightarrow> bool" where
  "answered comm cid N m resp \<longleftrightarrow> (case resp of (r, p) \<Rightarrow> r = Some (m N = None) \<and> cid_start p \<le> N \<and>
     holds cid (if m N = None then m(N \<mapsto> comm) else m) p)"

lemma propose_ready:
  assumes "ready cid c m p" "maxcid_ok maxcid" "c < maxcid" "m c = None"
  shows "\<exists>y. cid_propose (Some junk) comm cid maxcid p = Some y \<and> proposed comm cid c m y \<and> cid_start (snd (snd y)) = cid_start p"
proof -
  let ?n = "proposal m (cid_start p) maxcid"
  have start: "cid_start p \<le> maxcid" and h: "holds cid m p" using assms by (auto simp: ready_def)
  note b = proposal_bounds(1,4) [OF start, where m = m]
  have "?n \<le> c" using proposal_bounds(3) [OF start, where m = m and i = c] assms by (auto simp: ready_def not_le [symmetric])
  then have "?n < maxcid" using assms(3) by simp
  then show ?thesis using cid_propose_holds [OF h assms(2) start, of junk comm] b \<open>?n \<le> c\<close> by (auto simp: proposed_def)
qed

lemma check_proposed:
  assumes "proposed comm cid c m y" "maxcid_ok maxcid" "c < maxcid" "fst (snd y) \<le> N" "N \<le> c"
  shows "\<exists>r. cid_check (Some junk) comm maxcid N y = Some r \<and> answered comm cid N m r"
proof -
  obtain n p where y: "y = (True, n, p)" and n: "n \<le> c" "cid_start p \<le> n" "m n = None" and h: "holds cid (m(n \<mapsto> comm)) p"
    using assms(1) by (cases y) (auto simp: proposed_def)
  show ?thesis
  proof (cases "N = n")
    case True
    then show ?thesis using y n h assms by (auto simp: cid_check_def answered_def)
  next
    case False
    have "n \<le> maxcid" "N \<le> maxcid" using n assms by simp_all
    obtain p' where p': "set_comm (Some junk) n None p = Some p'" "holds cid m p'" "cid_start p' = cid_start p"
      using set_comm_holds [OF h assms(2) \<open>n \<le> maxcid\<close>, of junk None] n(3) by (auto simp: fun_upd_idem)
    obtain t where t: "opal_pointer_array_test_and_set_item (Some junk) (ompi_mpi_communicators p') (int N) (Some comm) = Some (m N = None, t)"
      "holds cid (if m N = None then m(N \<mapsto> comm) else m) (p'\<lparr>ompi_mpi_communicators := t\<rparr>)"
      using test_and_set_holds [OF p'(2) assms(2) \<open>N \<le> maxcid\<close>, of junk comm] by blast
    have "cid_start p' \<le> N" using p'(3) n(2) assms(4) y by simp
    then show ?thesis using y False p'(1) t assms(3,5) by (simp add: cid_check_def answered_def)
  qed
qed

lemma again_answered:
  assumes "answered comm cid N m r" "maxcid_ok maxcid" "N < maxcid"
  shows "\<exists>p. cid_again (Some junk) N r = Some p \<and> holds cid m p \<and> cid_start p = Suc N"
proof -
  obtain p where r: "r = (Some (m N = None), p)" and h: "holds cid (if m N = None then m(N \<mapsto> comm) else m) p"
    using assms(1) by (cases r) (auto simp: answered_def)
  show ?thesis
  proof (cases "m N = None")
    case True
    then obtain p' where "set_comm (Some junk) N None p = Some p'" "holds cid m p'"
      using set_comm_holds [OF h assms(2), of N junk None] assms(3) by (auto simp: fun_upd_idem)
    then show ?thesis using r True by (simp add: cid_again_def holds_def)
  next
    case False
    then show ?thesis using r h by (auto simp: cid_again_def holds_def)
  qed
qed

text \<open>The final state of a process: the new communicator is in the table and nothing else has changed.\<close>

definition settled :: "'c \<Rightarrow> nat \<Rightarrow> (nat \<Rightarrow> 'c option) \<Rightarrow> 'c cid_proc \<Rightarrow> bool" where
  "settled newcomm c m p \<longleftrightarrow> pa_wf (ompi_mpi_communicators p) \<and> pa_map (ompi_mpi_communicators p) = m(c \<mapsto> newcomm) \<and> ompi_registered_comms p = []"

lemma done_answered:
  assumes "answered comm cid N m r" "maxcid_ok maxcid" "N \<le> maxcid"
  shows "\<exists>p. (case r of (r, p) \<Rightarrow> cid_done (Some junk) newcomm cid N p) = Some p \<and> settled newcomm N m p"
proof -
  obtain p where r: "r = (Some (m N = None), p)" and h: "holds cid (if m N = None then m(N \<mapsto> comm) else m) p"
    using assms(1) by (cases r) (auto simp: answered_def)
  obtain p' where "set_comm (Some junk) N (Some newcomm) p = Some p'" "holds cid (m(N \<mapsto> newcomm)) p'"
    using set_comm_holds [OF h assms(2,3), of junk "Some newcomm"] by (auto split: if_splits)
  then show ?thesis using r by (simp add: cid_done_def settled_def holds_def ompi_comm_unregister_cid_def)
qed

lemma foldr_max_le: "foldr max xs (0 :: nat) \<le> c \<longleftrightarrow> (\<forall>x \<in> set xs. x \<le> c)"
  by (induction xs) auto

lemma foldr_max_in: "xs \<noteq> [] \<Longrightarrow> foldr max xs (0 :: nat) \<in> set xs"
proof (induction xs)
  case (Cons x xs)
  then show ?case by (cases xs) (auto simp: max_def)
qed simp

text \<open>
  The loop ends, with the least id that is free everywhere. In every round the maximum of the proposals
  does not pass that id, and it grows.
\<close>

lemma cid_rounds_agree:
  assumes max: "maxcid_ok maxcid" "c < maxcid" and c: "\<forall>m \<in> set ms. m c = None" "\<And>i. i < c \<Longrightarrow> \<exists>m \<in> set ms. m i \<noteq> None" and ne: "ms \<noteq> []"
  shows "list_all2 (ready cid c) ms ps \<Longrightarrow> \<forall>p \<in> set ps. c < cid_start p + d \<Longrightarrow>
    \<exists>qs. cid_rounds (Some junk) comm newcomm cid maxcid ps = Some (Inr (c, qs)) \<and> list_all2 (settled newcomm c) ms qs"
proof (induction d arbitrary: ps)
  case 0
  obtain p where "p \<in> set ps" using ne list_all2_lengthD [OF 0(1)] by (cases ps) auto
  moreover have "cid_start p \<le> c" if "p \<in> set ps" for p using 0(1) that by (auto simp: list_all2_conv_all_nth in_set_conv_nth ready_def)
  ultimately show ?case using 0(2) by fastforce
next
  case (Suc d)
  have ready: "list_all2 (\<lambda>m p. m c = None \<and> ready cid c m p \<and> c < cid_start p + Suc d) ms ps"
    using Suc.prems c(1) by (auto simp: list_all2_conv_all_nth)
  have "\<exists>props. those (map (cid_propose (Some junk) comm cid maxcid) ps) = Some props \<and>
      list_all2 (\<lambda>m y. proposed comm cid c m y \<and> c < cid_start (snd (snd y)) + Suc d) ms props"
    by (rule those_map_ex [OF ready]) (use propose_ready [OF _ max] in fastforce)
  then obtain props where props: "those (map (cid_propose (Some junk) comm cid maxcid) ps) = Some props"
    "list_all2 (\<lambda>m y. proposed comm cid c m y \<and> c < cid_start (snd (snd y)) + Suc d) ms props" by blast
  define N where "N = foldr max (map (\<lambda>(flag, n, p). n) props) 0"
  have le: "fst (snd y) \<le> N" if "y \<in> set props" for y
    using that foldr_max_le [of "map (\<lambda>(flag, n, p). n) props" N] by (auto simp: N_def [symmetric] case_prod_beta)
  have pc: "fst (snd y) \<le> c" if y: "y \<in> set props" for y
  proof -
    obtain i where i: "i < length props" "props ! i = y" using y by (auto simp: in_set_conv_nth)
    from list_all2_nthD2 [OF props(2) i(1)] i(2) show ?thesis by (auto simp: proposed_def split: prod.splits)
  qed
  then have Nc: "N \<le> c" unfolding N_def foldr_max_le by (auto simp: case_prod_beta)
  have cN: "c < Suc N + d"
  proof -
    obtain y ys where y: "props = y # ys" using ne list_all2_lengthD [OF props(2)] by (cases props) auto
    then have "proposed comm cid c (hd ms) y" "c < cid_start (snd (snd y)) + Suc d" using props(2) ne by (cases ms; simp)+
    moreover have "fst (snd y) \<le> N" using le y by simp
    ultimately show ?thesis by (auto simp: proposed_def split: prod.splits)
  qed
  have proposed: "list_all2 (\<lambda>m y. proposed comm cid c m y \<and> fst (snd y) \<le> N) ms props"
    using props(2) le by (auto simp: list_all2_conv_all_nth)
  have "\<exists>resps. those (map (cid_check (Some junk) comm maxcid N) props) = Some resps \<and> list_all2 (answered comm cid N) ms resps"
    by (rule those_map_ex [OF proposed]) (erule conjE, rule check_proposed [OF _ max _ Nc], assumption+)
  then obtain resps where resps: "those (map (cid_check (Some junk) comm maxcid N) props) = Some resps" "list_all2 (answered comm cid N) ms resps" by blast
  have len: "length resps = length ms" using list_all2_lengthD [OF resps(2)] by simp
  have resp: "fst (resps ! i) = Some ((ms ! i) N = None)" if "i < length ms" for i
    using list_all2_nthD [OF resps(2) that] by (auto simp: answered_def split: prod.splits)
  have no_err: "\<not> list_ex (\<lambda>(r, p). r = None) resps" using resp len by (simp add: list_ex_length case_prod_beta)
  have "list_all (\<lambda>(r, p). r = Some True) resps \<longleftrightarrow> (\<forall>i < length ms. (ms ! i) N = None)"
    using resp len by (simp add: list_all_length case_prod_beta)
  then have all_iff: "list_all (\<lambda>(r, p). r = Some True) resps \<longleftrightarrow> (\<forall>m \<in> set ms. m N = None)" by (simp add: all_set_conv_all_nth)
  note rounds = cid_rounds.simps [of "Some junk" comm newcomm cid maxcid ps, unfolded props(1) Option.bind.bind_lunit Let_def N_def [symmetric] resps(1)]
  show ?case
  proof (cases "N = c")
    case True
    have "\<exists>qs. those (map (\<lambda>(r, p). cid_done (Some junk) newcomm cid N p) resps) = Some qs \<and> list_all2 (settled newcomm N) ms qs"
      by (rule those_map_ex [OF resps(2)]) (use done_answered [OF _ max(1), where newcomm = newcomm] True max(2) in auto)
    then show ?thesis using rounds no_err all_iff c(1) True by auto
  next
    case False
    then have less: "N < c" and Nmax: "N < maxcid" using Nc max(2) by simp_all
    have "\<exists>qs. those (map (cid_again (Some junk) N) resps) = Some qs \<and> list_all2 (\<lambda>m p. holds cid m p \<and> cid_start p = Suc N) ms qs"
      by (rule those_map_ex [OF resps(2)]) (rule again_answered [OF _ max(1) Nmax], assumption)
    then obtain qs where qs: "those (map (cid_again (Some junk) N) resps) = Some qs" "list_all2 (\<lambda>m p. holds cid m p \<and> cid_start p = Suc N) ms qs" by blast
    have "list_all2 (ready cid c) ms qs" "\<forall>p \<in> set qs. c < cid_start p + d"
      using qs(2) less cN by (auto simp: list_all2_conv_all_nth in_set_conv_nth ready_def)
    from Suc.IH [OF this] show ?thesis using rounds no_err all_iff c(2) [OF less] qs(1) by auto
  qed
qed


section \<open>Properties\<close>

text \<open>The state in which a process enters: its table is well-formed and can grow; nothing is in progress.\<close>

definition idle :: "'c cid_proc \<Rightarrow> bool" where
  "idle p \<longleftrightarrow> pa_wf (ompi_mpi_communicators p) \<and> pa_max_size (ompi_mpi_communicators p) = INT_MAX \<and> ompi_registered_comms p = []"

abbreviation comm_table :: "'c cid_proc \<Rightarrow> nat \<Rightarrow> 'c option" where
  "comm_table p \<equiv> pa_map (ompi_mpi_communicators p)"

lemma cid_enter_ready:
  assumes "idle p" "comm_table p c = None"
  shows "ready cid c (comm_table p) (cid_enter cid p)"
proof -
  have "first_free (pa_cells (ompi_mpi_communicators p)) \<le> c"
    unfolding first_free_Least using assms(2) by (intro Least_le) (simp add: pa_map_def)
  then show ?thesis using assms(1) by (simp add: ready_def holds_def cid_enter_def idle_def ompi_comm_register_cid_def pa_wf_def)
qed

text \<open>C6: all processes that create a communicator together get the same context id, the smallest one
  that is free in all of them. When there is such an id below the limit the call returns in every
  process, whatever the tables hold, and afterwards the new communicator is in the table of each
  process at that id and nothing else has changed.\<close>

theorem context_id_agreement:
  assumes "maxcid_ok maxcid" "c < maxcid" "ps \<noteq> []" "\<forall>p \<in> set ps. idle p"
    and "\<forall>p \<in> set ps. comm_table p c = None" "\<And>i. i < c \<Longrightarrow> \<exists>p \<in> set ps. comm_table p i \<noteq> None"
  shows "\<exists>qs. ompi_comm_nextcid (Some junk) comm newcomm cid maxcid ps = Some (Inr (c, qs)) \<and> length qs = length ps \<and>
    (\<forall>k < length ps. pa_wf (ompi_mpi_communicators (qs ! k)) \<and> comm_table (qs ! k) = (comm_table (ps ! k))(c \<mapsto> newcomm) \<and> ompi_registered_comms (qs ! k) = [])"
proof -
  let ?ms = "map comm_table ps" and ?ps = "map (cid_enter cid) ps"
  have "ready cid c (comm_table (ps ! i)) (cid_enter cid (ps ! i))" if "i < length ps" for i
    using cid_enter_ready [of "ps ! i" c cid] assms(4,5) nth_mem [OF that] by simp
  then have "list_all2 (ready cid c) ?ms ?ps" by (simp add: list_all2_conv_all_nth)
  moreover have "\<forall>p \<in> set ?ps. c < cid_start p + Suc c" by simp
  ultimately have "\<exists>qs. cid_rounds (Some junk) comm newcomm cid maxcid ?ps = Some (Inr (c, qs)) \<and> list_all2 (settled newcomm c) ?ms qs"
    using cid_rounds_agree [OF assms(1,2), where ms = ?ms and ps = ?ps and cid = cid and d = "Suc c" and junk = junk and comm = comm and newcomm = newcomm] assms(3,5,6) by fastforce
  then show ?thesis by (fastforce simp: ompi_comm_nextcid_def list_all2_conv_all_nth settled_def)
qed

lemma free_below:
  assumes "idle p"
  shows "(\<exists>i < maxcid. comm_table p i = None) \<longleftrightarrow> cid_start (cid_enter cid p) < maxcid" "comm_table p (cid_start (cid_enter cid p)) = None"
proof -
  let ?s = "cid_start (cid_enter cid p)"
  have s: "?s = (LEAST i. comm_table p i = None)"
    using assms by (simp add: cid_enter_def idle_def pa_wf_def first_free_Least pa_map_def)
  have ex: "comm_table p (length (pa_cells (ompi_mpi_communicators p))) = None" by (simp add: pa_map_def)
  show free: "comm_table p ?s = None" unfolding s by (rule LeastI, rule ex)
  have "?s \<le> i" if "comm_table p i = None" for i unfolding s using that by (rule Least_le)
  then show "(\<exists>i < maxcid. comm_table p i = None) \<longleftrightarrow> ?s < maxcid" using free by (meson order_le_less_trans)
qed

definition first_proposal :: "nat \<Rightarrow> nat \<Rightarrow> 'c cid_proc \<Rightarrow> bool \<times> nat \<times> 'c cid_proc \<Rightarrow> bool" where
  "first_proposal cid maxcid p y \<longleftrightarrow> fst y = (\<exists>i < maxcid. comm_table p i = None) \<and> fst (snd y) \<le> maxcid \<and>
     (\<not> fst y \<longrightarrow> fst (snd y) = maxcid) \<and> (\<exists>m. holds cid m (snd (snd y)))"

lemma propose_first:
  assumes "idle p" "maxcid_ok maxcid"
  shows "\<exists>y. cid_propose (Some junk) comm cid maxcid (cid_enter cid p) = Some y \<and> first_proposal cid maxcid p y"
proof -
  let ?p = "cid_enter cid p" let ?s = "cid_start ?p"
  have h: "holds cid (comm_table p) ?p"
    using assms(1) by (simp add: holds_def cid_enter_def idle_def ompi_comm_register_cid_def)
  note free = free_below [OF assms(1), where cid = cid]
  show ?thesis
  proof (cases "?s < maxcid")
    case True
    then have "proposal (comm_table p) ?s maxcid = ?s" using proposal_step [OF True, of "comm_table p"] free(2) by simp
    then show ?thesis using cid_propose_holds [OF h assms(2), of junk comm] True free(1) [of maxcid] by (fastforce simp: first_proposal_def)
  next
    case False
    then have none: "[?s..<maxcid] = []" by simp
    moreover have "ompi_comm_lowest_cid (ompi_registered_comms ?p) = Some cid" using h by (simp add: holds_def ompi_comm_lowest_cid_def)
    ultimately have "cid_propose (Some junk) comm cid maxcid ?p = Some (False, maxcid, ?p)" unfolding cid_propose_def none by simp
    then show ?thesis using False free(1) [of maxcid] h by (auto simp: first_proposal_def)
  qed
qed

lemma check_first:
  assumes "first_proposal cid maxcid p y" "maxcid_ok maxcid"
  shows "\<exists>r. cid_check (Some junk) comm maxcid maxcid y = Some r \<and>
    fst r = (if \<exists>i < maxcid. comm_table p i = None then None else Some True) \<and> (\<exists>m. holds cid m (snd r))"
proof -
  obtain flag n q m where y: "y = (flag, n, q)" "holds cid m q" using assms(1) by (cases y) (auto simp: first_proposal_def)
  obtain q' where "set_comm (Some junk) n None q = Some q'" "holds cid (m(n := None)) q'" if flag
    using set_comm_holds [OF y(2) assms(2), of n junk None] assms(1) y(1) by (auto simp: first_proposal_def)
  then show ?thesis using assms(1) y by (cases flag) (auto simp: cid_check_def first_proposal_def)
qed

text \<open>Process 0 has communicator 0 only, process 1 communicators 0 and 1: they agree on 2.\<close>

definition cid_table :: "nat option list \<Rightarrow> nat opal_pointer_array_t" where
  "cid_table cells = \<lparr>pa_lowest_free = int (first_free cells), pa_number_free = int (length (filter (\<lambda>c. c = None) cells)),
     pa_size = int (length cells), pa_max_size = INT_MAX, pa_block_size = 64, pa_addr = Some cells\<rparr>"

definition cid_process :: "nat option list \<Rightarrow> nat cid_proc" where
  "cid_process cells = \<lparr>ompi_mpi_communicators = cid_table cells, ompi_registered_comms = [], cid_start = 0\<rparr>"

lemma cid_process_idle: "cells \<noteq> [] \<Longrightarrow> idle (cid_process cells)"
  by (simp add: idle_def cid_process_def cid_table_def pa_wf_def pa_cells_def)

lemma cid_process_table: "comm_table (cid_process cells) i = (if i < length cells then cells ! i else None)"
  by (simp add: cid_process_def cid_table_def pa_map_def pa_cells_def)

theorem context_id_agreement_witness:
  "\<exists>qs. ompi_comm_nextcid (Some None) 10 12 0 65535 [cid_process [Some 10, None], cid_process [Some 10, Some 11]] = Some (Inr (2, qs)) \<and>
    comm_table (qs ! 1) 2 = Some 12 \<and> comm_table (qs ! 0) 1 = None"
proof -
  let ?ps = "[cid_process [Some 10, None], cid_process [Some 10, Some 11]]"
  have "\<exists>qs. ompi_comm_nextcid (Some None) 10 12 0 65535 ?ps = Some (Inr (2, qs)) \<and> length qs = length ?ps \<and>
    (\<forall>k < length ?ps. pa_wf (ompi_mpi_communicators (qs ! k)) \<and> comm_table (qs ! k) = (comm_table (?ps ! k))(2 \<mapsto> 12) \<and> ompi_registered_comms (qs ! k) = [])"
  proof (rule context_id_agreement)
    fix i :: nat assume "i < 2"
    then show "\<exists>p \<in> set ?ps. comm_table p i \<noteq> None" by (auto simp: cid_process_table less_Suc_eq numeral_2_eq_2)
  qed (simp_all add: maxcid_ok_def INT_MAX_def cid_process_idle cid_process_table)
  then obtain qs where "ompi_comm_nextcid (Some None) 10 12 0 65535 ?ps = Some (Inr (2, qs))"
    "comm_table (qs ! 0) = (comm_table (?ps ! 0))(2 \<mapsto> 12)" "comm_table (qs ! 1) = (comm_table (?ps ! 1))(2 \<mapsto> 12)"
    by (auto simp: less_Suc_eq)
  then show ?thesis by (simp add: cid_process_table)
qed

text \<open>The first round when one process has no id left.\<close>

lemma exhausted_round:
  assumes max: "maxcid_ok maxcid" and idle: "\<forall>p \<in> set ps. idle p" and p: "p \<in> set ps" "\<forall>i < maxcid. comm_table p i \<noteq> None"
  shows "\<exists>props resps. those (map (cid_propose (Some junk) comm cid maxcid) (map (cid_enter cid) ps)) = Some props \<and>
    foldr max (map (\<lambda>(flag, n, p). n) props) 0 = maxcid \<and>
    those (map (cid_check (Some junk) comm maxcid maxcid) props) = Some resps \<and>
    list_all2 (\<lambda>p r. fst r = (if \<exists>i < maxcid. comm_table p i = None then None else Some True) \<and> (\<exists>m. holds cid m (snd r))) ps resps"
proof -
  have "list_all2 (\<lambda>p x. x = cid_enter cid p \<and> idle p) ps (map (cid_enter cid) ps)" using idle by (simp add: list_all2_conv_all_nth)
  then have "\<exists>props. those (map (cid_propose (Some junk) comm cid maxcid) (map (cid_enter cid) ps)) = Some props \<and> list_all2 (first_proposal cid maxcid) ps props"
    by (rule those_map_ex) (erule conjE, erule ssubst, rule propose_first [OF _ max], assumption)
  then obtain props where props: "those (map (cid_propose (Some junk) comm cid maxcid) (map (cid_enter cid) ps)) = Some props"
    "list_all2 (first_proposal cid maxcid) ps props" by blast
  obtain k where k: "k < length ps" "ps ! k = p" using p(1) by (auto simp: in_set_conv_nth)
  have "fst (snd (props ! k)) = maxcid" using list_all2_nthD [OF props(2) k(1)] k(2) p(2) by (auto simp: first_proposal_def)
  moreover have "props ! k \<in> set props" using k list_all2_lengthD [OF props(2)] by simp
  ultimately have in_props: "maxcid \<in> set (map (\<lambda>(flag, n, p). n) props)" by (force simp: case_prod_beta image_iff)
  have "fst (snd y) \<le> maxcid" if y: "y \<in> set props" for y
  proof -
    obtain i where i: "i < length props" "props ! i = y" using y by (auto simp: in_set_conv_nth)
    from list_all2_nthD2 [OF props(2) i(1)] i(2) show ?thesis by (simp add: first_proposal_def)
  qed
  then have "foldr max (map (\<lambda>(flag, n, p). n) props) 0 \<le> maxcid" unfolding foldr_max_le by (auto simp: case_prod_beta)
  moreover have "maxcid \<le> foldr max (map (\<lambda>(flag, n, p). n) props) 0" using in_props foldr_max_le by blast
  moreover have "\<exists>resps. those (map (cid_check (Some junk) comm maxcid maxcid) props) = Some resps \<and>
    list_all2 (\<lambda>p r. fst r = (if \<exists>i < maxcid. comm_table p i = None then None else Some True) \<and> (\<exists>m. holds cid m (snd r))) ps resps"
    by (rule those_map_ex [OF props(2)], rule check_first [OF _ max])
  ultimately show ?thesis using props(1) by (intro exI [of _ props]) (auto intro: antisym)
qed

text \<open>C35: when the ids run out the processes disagree. One process has no id left below the limit, whatever
  the tables of the others hold. Every process that has one left returns an error after the first reduction. The
  others go on to the second reduction, in agreement with the limit itself as the id; if there is a process that has
  returned the error, they wait in it for ever. If no process has an id left, none reports the error: all return
  success, with the limit as the id.\<close>

theorem context_id_exhaustion:
  assumes "maxcid_ok maxcid" "\<forall>p \<in> set ps. idle p" "p \<in> set ps" "\<forall>i < maxcid. comm_table p i \<noteq> None"
  shows "if \<exists>q \<in> set ps. \<exists>i < maxcid. comm_table q i = None
    then \<exists>ends. ompi_comm_nextcid (Some junk) comm newcomm cid maxcid ps = Some (Inl ends) \<and> length ends = length ps \<and>
      (\<forall>k < length ps. if \<exists>i < maxcid. comm_table (ps ! k) i = None then \<exists>q. ends ! k = Returned_error q \<and> ompi_registered_comms q = []
        else \<exists>q. ends ! k = Waits_in_reduction True q \<and> ompi_registered_comms q = [cid])
    else \<exists>qs. ompi_comm_nextcid (Some junk) comm newcomm cid maxcid ps = Some (Inr (maxcid, qs)) \<and> length qs = length ps"
proof -
  obtain props resps where r: "those (map (cid_propose (Some junk) comm cid maxcid) (map (cid_enter cid) ps)) = Some props"
    "foldr max (map (\<lambda>(flag, n, p). n) props) 0 = maxcid" "those (map (cid_check (Some junk) comm maxcid maxcid) props) = Some resps"
    "list_all2 (\<lambda>p r. fst r = (if \<exists>i < maxcid. comm_table p i = None then None else Some True) \<and> (\<exists>m. holds cid m (snd r))) ps resps"
    using exhausted_round [OF assms, where junk = junk and comm = comm and cid = cid] by (elim exE conjE) (rule that)
  have len: "length resps = length ps" using list_all2_lengthD [OF r(4)] by simp
  have resp: "fst (resps ! i) = (if \<exists>j < maxcid. comm_table (ps ! i) j = None then None else Some True)"
    "ompi_registered_comms (snd (resps ! i)) = [cid]" if "i < length ps" for i
    using list_all2_nthD [OF r(4) that] by (auto simp: holds_def)
  have ex: "list_ex (\<lambda>(r, p). r = None) resps \<longleftrightarrow> (\<exists>q \<in> set ps. \<exists>i < maxcid. comm_table q i = None)"
  proof -
    have "list_ex (\<lambda>(r, p). r = None) resps \<longleftrightarrow> (\<exists>k < length ps. fst (resps ! k) = None)" using len by (simp add: list_ex_length case_prod_beta)
    also have "\<dots> \<longleftrightarrow> (\<exists>k < length ps. \<exists>i < maxcid. comm_table (ps ! k) i = None)" using resp(1) by (metis option.distinct(1))
    also have "\<dots> \<longleftrightarrow> (\<exists>q \<in> set ps. \<exists>i < maxcid. comm_table q i = None)" by (metis in_set_conv_nth)
    finally show ?thesis .
  qed
  note rounds = cid_rounds.simps [of "Some junk" comm newcomm cid maxcid "map (cid_enter cid) ps", unfolded r(1) Option.bind.bind_lunit Let_def r(2) r(3)]
  show ?thesis
  proof (cases "\<exists>q \<in> set ps. \<exists>i < maxcid. comm_table q i = None")
    case True
    have "ompi_comm_nextcid (Some junk) comm newcomm cid maxcid ps = Some (Inl (map (cid_end_of cid) resps))"
      using rounds True ex by (simp add: ompi_comm_nextcid_def)
    moreover have "if \<exists>i < maxcid. comm_table (ps ! k) i = None then \<exists>q. map (cid_end_of cid) resps ! k = Returned_error q \<and> ompi_registered_comms q = []
        else \<exists>q. map (cid_end_of cid) resps ! k = Waits_in_reduction True q \<and> ompi_registered_comms q = [cid]" if k: "k < length ps" for k
      using resp [OF k] k len
      by (cases "resps ! k"; cases "\<exists>i < maxcid. comm_table (ps ! k) i = None") (simp_all add: cid_failed_def ompi_comm_unregister_cid_def)
    ultimately show ?thesis unfolding if_P [OF True] using len by (intro exI [of _ "map (cid_end_of cid) resps"] conjI allI impI) (simp only: length_map)+
  next
    case False
    then have "\<not> (\<exists>j < maxcid. comm_table (ps ! k) j = None)" if "k < length ps" for k using nth_mem [OF that] by blast
    then have "fst (resps ! k) = Some True" if "k < length ps" for k using resp(1) [OF that] that by (simp only: if_False)
    then have all: "list_all (\<lambda>(r, p). r = Some True) resps" using len by (simp add: list_all_length case_prod_beta)
    have "\<exists>qs. those (map (\<lambda>(r, p). cid_done (Some junk) newcomm cid maxcid p) resps) = Some qs \<and> list_all2 (\<lambda>_ _. True) ps qs"
      by (rule those_map_ex [OF r(4)]) (use set_comm_holds [OF _ assms(1) order_refl, where v = "Some newcomm" and junk = junk] in \<open>fastforce simp: cid_done_def\<close>)
    then obtain qs where qs: "those (map (\<lambda>(r, p). cid_done (Some junk) newcomm cid maxcid p) resps) = Some qs" "length qs = length ps"
      by (auto dest: list_all2_lengthD)
    moreover have "\<not> list_ex (\<lambda>(r, p). r = None) resps" using ex False by blast
    ultimately have "ompi_comm_nextcid (Some junk) comm newcomm cid maxcid ps = Some (Inr (maxcid, qs))"
      using rounds all by (simp add: ompi_comm_nextcid_def)
    then show ?thesis unfolding if_not_P [OF False] using qs(2) by blast
  qed
qed


theorem context_id_exhaustion_witness:
  "(\<exists>p q. ompi_comm_nextcid (Some None) 10 12 0 2 [cid_process [Some 10, None], cid_process [Some 10, Some 11]] =
      Some (Inl [Returned_error p, Waits_in_reduction True q])) \<and>
   (\<exists>qs. ompi_comm_nextcid (Some None) 10 12 0 2 [cid_process [Some 10, Some 11]] = Some (Inr (2, qs)))"
proof
  have full: "\<forall>i < 2. comm_table (cid_process [Some 10, Some 11]) i \<noteq> None" by (auto simp: cid_process_table less_Suc_eq numeral_2_eq_2)
  have max: "maxcid_ok 2" by (simp add: maxcid_ok_def INT_MAX_def)
  have one: "comm_table (cid_process [Some 10, None]) 1 = None" by (simp add: cid_process_table)
  let ?ps = "[cid_process [Some 10, None], cid_process [Some 10, Some 11]]"
  have free: "\<exists>q \<in> set ?ps. \<exists>i < 2. comm_table q i = None" using one by (auto intro!: exI [of _ 1])
  obtain ends where ends: "ompi_comm_nextcid (Some None) 10 12 0 2 ?ps = Some (Inl ends)" "length ends = 2"
    "\<forall>k < 2. if \<exists>i < 2. comm_table (?ps ! k) i = None then \<exists>q. ends ! k = Returned_error q \<and> ompi_registered_comms q = []
        else \<exists>q. ends ! k = Waits_in_reduction True q \<and> ompi_registered_comms q = [0]"
    using context_id_exhaustion [OF max, of ?ps "cid_process [Some 10, Some 11]" None 10 12 0]
      full free unfolding if_P [OF free] by (auto simp: cid_process_idle numeral_2_eq_2)
  have "\<exists>i < 2. comm_table (?ps ! 0) i = None" using one by (intro exI [of _ 1]) simp
  then have "\<exists>q. ends ! 0 = Returned_error q" using ends(3) [rule_format, of 0] by auto
  moreover have "\<exists>q. ends ! 1 = Waits_in_reduction True q" using ends(3) [rule_format, of 1] full by (auto split: if_splits)
  moreover have "ends = [ends ! 0, ends ! 1]" using ends(2) by (intro nth_equalityI) (auto simp: less_Suc_eq numeral_2_eq_2)
  ultimately show "\<exists>p q. ompi_comm_nextcid (Some None) 10 12 0 2 ?ps = Some (Inl [Returned_error p, Waits_in_reduction True q])"
    using ends(1) by metis
  show "\<exists>qs. ompi_comm_nextcid (Some None) 10 12 0 2 [cid_process [Some 10, Some 11]] = Some (Inr (2, qs))"
    using context_id_exhaustion [OF max, of "[cid_process [Some 10, Some 11]]" "cid_process [Some 10, Some 11]" None 10 12 0]
      full by (fastforce simp: cid_process_idle split: if_splits)
qed

end
