(* ===== verification/Memheap_Bits.thy ===== *)
theory Memheap_Bits
  imports Opal_Hash_Table
begin

text \<open>
  The bit operations of the buddy allocator of OpenSHMEM (\<^verbatim>\<open>oshmem/mca/memheap/buddy/memheap_buddy.c\<close>):
  single bits of a bitmap, the search for the next bit that is set, and the logarithms that turn a
  size into an order (\<^verbatim>\<open>memheap_buddy_find_order\<close>, and \<^verbatim>\<open>memheap_log2\<close> of \<^verbatim>\<open>memheap/base/base.h\<close>).

  A bitmap is an array of 64-bit words. Single bits are set, cleared and tested through a pointer to
  32-bit integers; on a little-endian machine bit \<open>nr\<close> of that view is bit \<open>nr mod 64\<close> of word
  \<open>nr div 64\<close>, and that is how they are modelled. Numbers of bits are \<^typ>\<open>nat\<close>: they stay far below
  \<open>2 ^ 64\<close>, and no subtraction goes below zero.
\<close>

section \<open>Single bits\<close>

definition clear_bit_c :: "nat \<Rightarrow> 64 word list \<Rightarrow> 64 word list option" where
  "clear_bit_c nr addr = do {
     m \<leftarrow> aget addr (int (nr div 64));
     aset addr (int (nr div 64)) (m AND NOT (push_bit (nr mod 64) 1))
   }"

definition set_bit_c :: "nat \<Rightarrow> 64 word list \<Rightarrow> 64 word list option" where
  "set_bit_c nr addr = do {
     m \<leftarrow> aget addr (int (nr div 64));
     aset addr (int (nr div 64)) (m OR push_bit (nr mod 64) 1)
   }"

definition test_bit_c :: "int \<Rightarrow> 64 word list \<Rightarrow> bool option" where
  "test_bit_c nr addr = do {
     m \<leftarrow> aget addr (nr div 64);
     Some (1 AND drop_bit (nat (nr mod 64)) m \<noteq> 0)
   }"

section \<open>The first bit of a word\<close>

definition ffs_step :: "nat \<Rightarrow> nat \<times> 64 word \<Rightarrow> nat \<times> 64 word" where
  "ffs_step k = (\<lambda>(num, word). if word AND mask k = 0 then (num + k, drop_bit k word) else (num, word))"

definition ffs_c :: "64 word \<Rightarrow> nat" where
  "ffs_c word = (case ffs_step 2 (ffs_step 4 (ffs_step 8 (ffs_step 16 (ffs_step 32 (0, word))))) of
     (num, word) \<Rightarrow> if word AND 1 = 0 then num + 1 else num)"

section \<open>The next bit of a bitmap\<close>

text \<open>The end of the search, in the last word of the bitmap; \<^verbatim>\<open>size\<close> is between 1 and 63.\<close>

definition found_first :: "64 word \<Rightarrow> nat \<Rightarrow> nat \<Rightarrow> nat" where
  "found_first tmp result sz =
     (let tmp = tmp AND drop_bit (64 - sz) (- 1) in if tmp = 0 then result + sz else result + ffs_c tmp)"

text \<open>From the word \<open>p\<close> on.\<close>

function whole_words :: "64 word list \<Rightarrow> nat \<Rightarrow> nat \<Rightarrow> nat \<Rightarrow> nat option" where
  "whole_words addr p result sz =
     (if sz \<ge> 64 then
        (case aget addr (int p) of None \<Rightarrow> None
         | Some tmp \<Rightarrow> if tmp \<noteq> 0 then Some (result + ffs_c tmp) else whole_words addr (p + 1) (result + 64) (sz - 64))
      else if sz = 0 then Some result
      else map_option (\<lambda>tmp. found_first tmp result sz) (aget addr (int p)))"
  by pat_completeness auto
termination by (relation "measure (\<lambda>(_, _, _, sz). sz)") auto

definition find_next_bit :: "64 word list \<Rightarrow> nat \<Rightarrow> nat \<Rightarrow> nat option" where
  "find_next_bit addr sz offset =
     (if offset \<ge> sz then Some sz
      else let p = offset div 64; result = offset - offset mod 64; sz = sz - result; offset = offset mod 64 in
        if offset \<noteq> 0 then do {
          tmp \<leftarrow> aget addr (int p);
          let tmp = tmp AND push_bit offset (- 1);
          if sz < 64 then Some (found_first tmp result sz)
          else if tmp \<noteq> 0 then Some (result + ffs_c tmp)
          else whole_words addr (p + 1) (result + 64) (sz - 64)
        } else whole_words addr p result sz)"

section \<open>Logarithms\<close>

text \<open>\<^verbatim>\<open>while (size >>= 1) order++\<close>, and the loop of \<^verbatim>\<open>memheap_log2\<close>, which counts until the value is 0.\<close>

lemma unat_half: "unat (drop_bit 1 w) = unat w div 2" for w :: "'a::len word"
  by (subst unat_drop_bit_eq) (simp add: drop_bit_eq_div)

function order_loop :: "64 word \<Rightarrow> nat \<Rightarrow> nat" where
  "order_loop sz order = (let sz = drop_bit 1 sz in if sz = 0 then order else order_loop sz (order + 1))"
  by pat_completeness auto
termination
proof (relation "measure (\<lambda>(sz, _). unat sz)")
  fix sz x :: "64 word" and order :: nat
  assume x: "x = drop_bit 1 sz" "x \<noteq> 0"
  have "unat x = unat sz div 2" unfolding x(1) by (rule unat_half)
  moreover have "unat x \<noteq> 0" using x(2) unsigned_eq_0_iff by blast
  ultimately show "((x, order + 1), (sz, order)) \<in> measure (\<lambda>(sz, _). unat sz)" by simp
qed simp

definition memheap_buddy_find_order :: "64 word \<Rightarrow> nat" where
  "memheap_buddy_find_order sz = order_loop sz (if sz AND (sz - 1) \<noteq> 0 then 1 else 0)"

function log2_loop :: "64 word \<Rightarrow> nat \<Rightarrow> nat" where
  "log2_loop val count = (if val > 0 then log2_loop (drop_bit 1 val) (count + 1) else count)"
  by pat_completeness auto
termination
proof (relation "measure (\<lambda>(val, _). unat val)")
  fix val :: "64 word" and count :: nat
  assume "0 < val"
  then have "0 < unat val" by (simp add: word_less_nat_alt)
  then have "unat (drop_bit 1 val) < unat val" unfolding unat_half by simp
  then show "((drop_bit 1 val, count + 1), (val, count)) \<in> measure (\<lambda>(val, _). unat val)" by simp
qed simp

definition memheap_log2 :: "64 word \<Rightarrow> nat" where
  "memheap_log2 val =
     (let count = log2_loop val (if val AND (val - 1) \<noteq> 0 then 1 else 0) in if count > 0 then count - 1 else 0)"

declare whole_words.simps [simp del] order_loop.simps [simp del] log2_loop.simps [simp del]

section \<open>What they compute\<close>

lemma drop_bit_as_div: "drop_bit k (w :: 64 word) = w div 2 ^ k"
  by (simp add: drop_bit_eq_div)

text \<open>The first bit of \<open>w\<close> is among the lowest \<open>k\<close> of what is left.\<close>

definition ffs_inv :: "64 word \<Rightarrow> nat \<Rightarrow> nat \<times> 64 word \<Rightarrow> bool" where
  "ffs_inv w k = (\<lambda>(num, word). word = drop_bit num w \<and> (\<forall>i < num. \<not> bit w i) \<and> (\<exists>i < k. bit word i))"

lemma ffs_step_inv:
  assumes "ffs_inv w (2 * k) s"
  shows "ffs_inv w k (ffs_step k s)"
proof -
  obtain num word num' word' where st: "s = (num, word)" "ffs_step k (num, word) = (num', word')" by (metis surj_pair)
  have 1: "word = drop_bit num w" "\<forall>i < num. \<not> bit w i" "\<exists>i < 2 * k. bit word i" using assms unfolding ffs_inv_def st(1) by auto
  note assms = 1 st(2)
  have "word' = drop_bit num' w \<and> (\<forall>i < num'. \<not> bit w i) \<and> (\<exists>i < k. bit word' i)"
  proof (cases "word AND mask k = 0")
    case True
    have low: "\<not> bit word i" if "i < k" for i
    proof
      assume "bit word i"
      moreover have "\<not> bit (word AND mask k) i" unfolding True by simp
      ultimately show False using that by (auto simp: bit_simps dest: bit_imp_le_length)
    qed
    have new: "num' = num + k" "word' = drop_bit k word" using assms(4) True by (simp_all add: ffs_step_def)
    have "\<not> bit w i" if "i < num + k" for i
    proof (cases "i < num")
      case False
      then have "\<not> bit word (i - num)" using low [of "i - num"] that by simp
      then show ?thesis using False assms(1) by (simp only: bit_drop_bit_eq comp_def) simp
    qed (use assms(2) in simp)
    moreover obtain i where "i < 2 * k" "bit word i" using assms(3) by blast
    then have "bit word' (i - k)" "i - k < k" using low [of i] new(2) by (force simp: bit_drop_bit_eq)+
    moreover have "word' = drop_bit num' w" unfolding new assms(1) by (simp only: drop_bit_drop_bit add.commute)
    ultimately show ?thesis using new(1) by blast
  next
    case False
    then have new: "num' = num" "word' = word" using assms(4) by (simp_all add: ffs_step_def)
    obtain i where "bit (word AND mask k) i" using False bit_eqI [of "word AND mask k" 0] by auto
    then have "i < k" "bit word i" by (auto simp: bit_simps)
    then show ?thesis using new assms(1,2) by blast
  qed
  then show ?thesis unfolding st ffs_inv_def prod.case .
qed

lemma ffs_correct:
  assumes "bit w n" "\<And>i. i < n \<Longrightarrow> \<not> bit w i"
  shows "ffs_c w = n"
proof -
  obtain n5 w5 where s5: "ffs_step 2 (ffs_step 4 (ffs_step 8 (ffs_step 16 (ffs_step 32 (0, w))))) = (n5, w5)" by fastforce
  have "ffs_inv w (2 * 32) (0, w)" using assms(1) bit_imp_le_length [OF assms(1)] by (auto simp: ffs_inv_def)
  from ffs_step_inv [OF this] have "ffs_inv w (2 * 16) (ffs_step 32 (0, w))" by simp
  from ffs_step_inv [OF this] have "ffs_inv w (2 * 8) (ffs_step 16 (ffs_step 32 (0, w)))" by simp
  from ffs_step_inv [OF this] have "ffs_inv w (2 * 4) (ffs_step 8 (ffs_step 16 (ffs_step 32 (0, w))))" by simp
  from ffs_step_inv [OF this] have "ffs_inv w (2 * 2) (ffs_step 4 (ffs_step 8 (ffs_step 16 (ffs_step 32 (0, w)))))" by simp
  from ffs_step_inv [OF this] have i5: "w5 = drop_bit n5 w" "\<forall>i < n5. \<not> bit w i" "\<exists>i < 2. bit w5 i"
    unfolding s5 ffs_inv_def by auto
  have b0: "bit w5 0 \<longleftrightarrow> bit w n5" "bit w5 1 \<longleftrightarrow> bit w (n5 + 1)" unfolding i5(1) by (simp_all add: bit_drop_bit_eq)
  have last: "w5 AND 1 = 0 \<longleftrightarrow> \<not> bit w5 0" using and_2_power_eq_0 [of w5 0] by simp
  have result: "ffs_c w = (if w5 AND 1 = 0 then n5 + 1 else n5)" by (simp add: ffs_c_def s5)
  have low: "n5 \<le> n" using i5(2) assms(1) by (meson not_le)
  show ?thesis
  proof (cases "bit w5 0")
    case True
    then show ?thesis using result last b0 low assms(2) [of n5] by (metis le_neq_implies_less)
  next
    case False
    then have "bit w5 1" using i5(3) by (metis One_nat_def less_2_cases)
    then have "bit w (n5 + 1)" "\<not> bit w n5" using b0 False by simp_all
    then have "n = n5 + 1" using low assms by (metis add.commute le_neq_implies_less less_SucE not_less_eq plus_1_eq_Suc)
    then show ?thesis using result last False by simp
  qed
qed

text \<open>A bitmap as a set of numbers.\<close>

definition abit :: "64 word list \<Rightarrow> nat \<Rightarrow> bool" where
  "abit a i \<longleftrightarrow> i div 64 < length a \<and> bit (a ! (i div 64)) (i mod 64)"

lemma div_mod_64_eq: "i div 64 = j div 64 \<Longrightarrow> i mod 64 = j mod 64 \<Longrightarrow> i = j" for i j :: nat
  by (metis div_mult_mod_eq)

lemma word_set_bit_correct:
  assumes "i div 64 < length a"
  shows "\<exists>a'. set_bit_c i a = Some a' \<and> length a' = length a \<and> (\<forall>j. abit a' j \<longleftrightarrow> abit a j \<or> j = i)"
proof -
  let ?a = "a[i div 64 := a ! (i div 64) OR push_bit (i mod 64) 1]"
  have "abit ?a j \<longleftrightarrow> abit a j \<or> j = i" for j
  proof (cases "j div 64 = i div 64")
    case True
    then have "abit ?a j \<longleftrightarrow> bit (a ! (i div 64)) (j mod 64) \<or> j mod 64 = i mod 64"
      using assms bit_set_bit_or [of "i mod 64" "a ! (i div 64)" "j mod 64"] by (simp add: abit_def)
    then show ?thesis using True assms div_mod_64_eq [OF True] by (auto simp: abit_def)
  qed (auto simp: abit_def)
  moreover have "set_bit_c i a = Some ?a" using assms by (simp add: set_bit_c_def)
  ultimately show ?thesis by (intro exI [of _ ?a]) simp
qed

lemma word_clear_bit_correct:
  assumes "i div 64 < length a"
  shows "\<exists>a'. clear_bit_c i a = Some a' \<and> length a' = length a \<and> (\<forall>j. abit a' j \<longleftrightarrow> abit a j \<and> j \<noteq> i)"
proof -
  let ?a = "a[i div 64 := a ! (i div 64) AND NOT (push_bit (i mod 64) 1)]"
  have "abit ?a j \<longleftrightarrow> abit a j \<and> j \<noteq> i" for j
  proof (cases "j div 64 = i div 64")
    case True
    then have "abit ?a j \<longleftrightarrow> bit (a ! (i div 64)) (j mod 64) \<and> j mod 64 \<noteq> i mod 64"
      using assms bit_clear_bit_and [of "a ! (i div 64)" "i mod 64" "j mod 64"] by (simp add: abit_def)
    then show ?thesis using True assms div_mod_64_eq [OF True] by (auto simp: abit_def)
  qed (auto simp: abit_def)
  moreover have "clear_bit_c i a = Some ?a" using assms by (simp add: clear_bit_c_def)
  ultimately show ?thesis by (intro exI [of _ ?a]) simp
qed

lemma word_test_bit_correct: "i div 64 < length a \<Longrightarrow> test_bit_c (int i) a = Some (abit a i)"
proof -
  assume i: "i div 64 < length a"
  have "1 AND drop_bit k w \<noteq> 0 \<longleftrightarrow> bit w k" for k and w :: "64 word"
    using and_2_power_eq_0 [of "drop_bit k w" 0] by (simp add: bit_drop_bit_eq and.commute)
  moreover have "int i div 64 = int (i div 64)" "nat (int i mod 64) = i mod 64" by (simp_all add: zdiv_int nat_mod_distrib)
  ultimately show ?thesis using i by (simp add: test_bit_c_def abit_def)
qed

text \<open>The first bit from \<open>lo\<close> on, or \<open>n\<close>.\<close>

definition first_bit :: "(nat \<Rightarrow> bool) \<Rightarrow> nat \<Rightarrow> nat \<Rightarrow> nat \<Rightarrow> bool" where
  "first_bit B lo n r \<longleftrightarrow> r \<le> n \<and> (\<forall>i. lo \<le> i \<and> i < r \<longrightarrow> \<not> B i) \<and> (r < n \<longrightarrow> lo \<le> r \<and> B r)"

lemma word_first_bit:
  assumes "tmp \<noteq> 0"
  shows "bit tmp (ffs_c tmp)" "i < ffs_c tmp \<Longrightarrow> \<not> bit tmp i"
proof -
  obtain k where k: "bit tmp k" using assms bit_eqI [of tmp 0] by auto
  define n where "n = (LEAST i. bit tmp i)"
  have "bit tmp n" "\<And>i. i < n \<Longrightarrow> \<not> bit tmp i" unfolding n_def by (rule LeastI [where P = "bit tmp", OF k]) (rule not_less_Least)
  moreover from ffs_correct [OF this] have "ffs_c tmp = n" .
  ultimately show "bit tmp (ffs_c tmp)" "i < ffs_c tmp \<Longrightarrow> \<not> bit tmp i" by simp_all
qed

lemma first_bit_word:
  assumes "tmp \<noteq> 0" "n = result + m" "\<And>i. i < 64 \<Longrightarrow> bit tmp i \<longleftrightarrow> B (result + i) \<and> i < m"
  shows "first_bit B result n (result + ffs_c tmp)"
proof -
  note f = word_first_bit [OF assms(1)]
  have lt: "ffs_c tmp < 64" using bit_imp_le_length [OF f(1)] by simp
  then have "B (result + ffs_c tmp) \<and> ffs_c tmp < m" using f(1) assms(3) by blast
  moreover have "\<not> B i" if "result \<le> i" "i < result + ffs_c tmp" for i
    using that f(2) [of "i - result"] assms(3) [of "i - result"] lt calculation by auto
  ultimately show ?thesis using assms(2) by (auto simp: first_bit_def)
qed

lemma found_first_correct:
  assumes "0 < sz" "sz < 64" "\<And>i. i < sz \<Longrightarrow> bit tmp i \<longleftrightarrow> B (result + i)"
  shows "first_bit B result (result + sz) (found_first tmp result sz)"
proof -
  let ?t = "tmp AND drop_bit (64 - sz) (- 1)"
  have t: "bit ?t i \<longleftrightarrow> B (result + i) \<and> i < sz" if "i < 64" for i
    using assms that by (auto simp: bit_simps)
  show ?thesis
  proof (cases "?t = 0")
    case True
    have "\<not> B i" if "result \<le> i" "i < result + sz" for i
    proof -
      have "i - result < sz" using that by linarith
      then show ?thesis using t [of "i - result"] that assms(2) unfolding True by auto
    qed
    then show ?thesis using True by (simp add: found_first_def first_bit_def)
  next
    case False
    then have "found_first tmp result sz = result + ffs_c ?t" by (simp add: found_first_def)
    then show ?thesis using first_bit_word [OF False refl, where B = B and result = result and m = sz] t by simp
  qed
qed

lemma abit_word: "i < 64 \<Longrightarrow> p < length addr \<Longrightarrow> bit (addr ! p) i \<longleftrightarrow> abit addr (64 * p + i)"
  by (simp add: abit_def)

lemma whole_words_correct:
  assumes "result = 64 * p" "result + sz \<le> 64 * length addr"
  shows "\<exists>r. whole_words addr p result sz = Some r \<and> first_bit (abit addr) result (result + sz) r"
  using assms
proof (induction sz arbitrary: p result rule: less_induct)
  case (less sz)
  note word = abit_word [of _ p addr]
  consider "sz \<ge> 64" | "0 < sz" "sz < 64" | "sz = 0" by linarith
  then show ?case
  proof cases
    case 1
    then have p: "p < length addr" using less.prems by simp
    show ?thesis
    proof (cases "addr ! p = 0")
      case True
      have "\<exists>r. whole_words addr (p + 1) (result + 64) (sz - 64) = Some r \<and> first_bit (abit addr) (result + 64) (result + 64 + (sz - 64)) r"
        using 1 less.prems by (intro less.IH) simp_all
      moreover have "\<not> abit addr i" if "result \<le> i" "i < result + 64" for i
        using word [of "i - result"] True that less.prems(1) p by simp
      ultimately show ?thesis using True 1 p
        by (subst whole_words.simps) (fastforce simp: first_bit_def not_less)
    next
      case False
      have "first_bit (abit addr) result (result + sz) (result + ffs_c (addr ! p))"
        using 1 word p less.prems(1) by (intro first_bit_word [OF False refl]) auto
      then show ?thesis using False 1 p by (subst whole_words.simps) simp
    qed
  next
    case 2
    then have p: "p < length addr" using less.prems by simp
    have "first_bit (abit addr) result (result + sz) (found_first (addr ! p) result sz)"
      using 2 word p less.prems(1) by (intro found_first_correct) auto
    then show ?thesis using 2 p by (subst whole_words.simps) simp
  next
    case 3
    then show ?thesis by (subst whole_words.simps) (auto simp: first_bit_def)
  qed
qed

lemma find_next_bit_correct:
  assumes "n \<le> 64 * length addr" "offset \<le> n"
  shows "\<exists>r. find_next_bit addr n offset = Some r \<and> first_bit (abit addr) offset n r"
proof -
  define p result off sz where d: "p = offset div 64" "result = offset - offset mod 64" "off = offset mod 64" "sz = n - result"
  have res: "result = 64 * p" "offset = result + off" "off < 64" using d by (simp_all add: minus_mod_eq_mult_div)
  have n: "n = result + sz" using d(4) assms(2) res(2) by simp
  consider "n = offset" | "offset < n" "off = 0" | "offset < n" "off \<noteq> 0" using assms(2) by linarith
  then show ?thesis
  proof cases
    case 1
    then show ?thesis by (auto simp: find_next_bit_def first_bit_def)
  next
    case 2
    then have "find_next_bit addr n offset = whole_words addr p result sz" using d by (simp add: find_next_bit_def)
    then show ?thesis using whole_words_correct [OF res(1), of sz addr] assms(1) n res(2) 2 by simp
  next
    case 3
    then have p: "p < length addr" using res assms(1) n by simp
    let ?tmp = "addr ! p AND push_bit off (- 1)" and ?B = "\<lambda>i. abit addr i \<and> offset \<le> i"
    have bits: "bit ?tmp i \<longleftrightarrow> ?B (result + i)" if "i < 64" for i
      using abit_word [OF that p] that res by (auto simp: bit_simps)
    have find: "find_next_bit addr n offset =
      (if sz < 64 then Some (found_first ?tmp result sz) else if ?tmp \<noteq> 0 then Some (result + ffs_c ?tmp) else whole_words addr (p + 1) (result + 64) (sz - 64))"
      using 3 p d by (simp add: find_next_bit_def Let_def)
    have up: "first_bit (abit addr) offset n r" if "first_bit ?B result n r" for r
    proof -
      have "result \<le> i" if "offset \<le> i" for i using res(2) that by linarith
      then show ?thesis using that by (auto simp: first_bit_def)
    qed
    show ?thesis
    proof (cases "sz < 64")
      case True
      then have "first_bit ?B result (result + sz) (found_first ?tmp result sz)"
        using bits n 3 res(2) by (intro found_first_correct) auto
      then show ?thesis using True find up n by simp
    next
      case False
      show ?thesis
      proof (cases "?tmp = 0")
        case True
        have "\<exists>r. whole_words addr (p + 1) (result + 64) (sz - 64) = Some r \<and> first_bit (abit addr) (result + 64) (result + 64 + (sz - 64)) r"
          using False res(1) assms(1) n by (intro whole_words_correct) simp_all
        moreover have "\<not> abit addr i" if "offset \<le> i" "i < result + 64" for i
          using bits [of "i - result"] that res(2) unfolding True by auto
        ultimately show ?thesis using True False find n res by (fastforce simp: first_bit_def not_less)
      next
        case tmp: False
        have "first_bit ?B result n (result + ffs_c ?tmp)"
          using bits False by (intro first_bit_word [OF tmp n]) auto
        then show ?thesis using False tmp find up by simp
      qed
    qed
  qed
qed

subsection \<open>Logarithms\<close>

lemma bit_top:
  assumes "2 ^ L \<le> unat w" "unat w < 2 ^ Suc L"
  shows "bit (w :: 64 word) L"
proof -
  have "unat w div 2 ^ L = 1" using assms by (intro div_nat_eqI) simp_all
  then have "bit (unat w) L" by (simp add: bit_iff_odd)
  then show ?thesis by (simp add: bit_unsigned_iff)
qed

lemma and_pred_eq_0:
  fixes w :: "64 word"
  assumes "2 ^ L \<le> unat w" "unat w < 2 ^ Suc L"
  shows "w AND (w - 1) = 0 \<longleftrightarrow> unat w = 2 ^ L"
proof
  have L: "L < 64" using bit_imp_le_length [OF bit_top [OF assms]] by simp
  assume "w AND (w - 1) = 0"
  then have "\<not> bit (w - 1) L" using bit_top [OF assms] bit_and_iff [of w "w - 1" L] by auto
  moreover have "w \<noteq> 0" using assms(1) by (auto simp: unat_eq_0)
  then have pred: "unat (w - 1) = unat w - 1" using unat_minus_one by blast
  ultimately have "unat w - 1 < 2 ^ L" using bit_top [of L "w - 1"] assms by (metis less_imp_diff_less not_less)
  then show "unat w = 2 ^ L" using assms(1) by linarith
next
  have L: "L < 64" using bit_imp_le_length [OF bit_top [OF assms]] by simp
  assume "unat w = 2 ^ L"
  moreover have "w = word_of_nat (unat w)" by simp
  ultimately have w: "w = 2 ^ L" by simp
  show "w AND (w - 1) = 0" unfolding w mask_eq_exp_minus_1 [symmetric] by (intro bit_eqI) (auto simp: bit_simps)
qed

lemma log_exists: "0 < n \<Longrightarrow> \<exists>L. 2 ^ L \<le> n \<and> n < 2 ^ Suc L" for n :: nat
  using ex_power_ivl1 [of 2 n] by auto

lemma log_half:
  fixes n :: nat
  assumes "2 ^ Suc L \<le> n" "n < 2 ^ Suc (Suc L)"
  shows "2 ^ L \<le> n div 2 \<and> n div 2 < 2 ^ Suc L"
  using assms by auto

lemma order_loop_correct:
  assumes "2 ^ L \<le> unat w" "unat w < 2 ^ Suc L"
  shows "order_loop w k = k + L"
  using assms
proof (induction L arbitrary: w k)
  case 0
  then have "unat (drop_bit 1 w) = 0" unfolding unat_half by simp
  then have "drop_bit 1 w = 0" by (simp only: unat_eq_0)
  then show ?case by (subst order_loop.simps) (simp only: Let_def simp_thms if_True add_0_right)
next
  case (Suc L)
  then have half: "2 ^ L \<le> unat (drop_bit 1 w)" "unat (drop_bit 1 w) < 2 ^ Suc L"
    unfolding unat_half using log_half [of L "unat w"] by simp_all
  then have "drop_bit 1 w \<noteq> 0" by (metis not_less unat_0 zero_less_numeral zero_less_power)
  then have "order_loop w k = order_loop (drop_bit 1 w) (k + 1)" by (subst order_loop.simps) (simp only: Let_def if_False)
  then show ?case using Suc.IH [OF half, of "k + 1"] by simp
qed

text \<open>The least order whose blocks have room for the size.\<close>

lemma find_order_0: "memheap_buddy_find_order 0 = 0"
  by (simp add: memheap_buddy_find_order_def order_loop.simps)

lemma find_order_fits: "memheap_buddy_find_order w \<le> k \<longleftrightarrow> unat w \<le> 2 ^ k"
proof (cases "w = 0")
  case True
  then show ?thesis by (simp add: find_order_0)
next
  case False
  then obtain L where L: "2 ^ L \<le> unat w" "unat w < 2 ^ Suc L" using log_exists [of "unat w"] by (auto simp: unat_gt_0)
  have order: "memheap_buddy_find_order w = (if unat w = 2 ^ L then L else Suc L)"
    using order_loop_correct [OF L] and_pred_eq_0 [OF L] by (simp add: memheap_buddy_find_order_def)
  have "unat w \<le> 2 ^ k \<longleftrightarrow> (if unat w = 2 ^ L then L \<le> k else Suc L \<le> k)"
  proof (cases "Suc L \<le> k")
    case True
    then have "(2 :: nat) ^ Suc L \<le> 2 ^ k" by (rule power_increasing) simp
    then show ?thesis using L True by auto
  next
    case gt: False
    show ?thesis
    proof (cases "k = L")
      case False
      then have "k < L" using gt by simp
      then have "(2 :: nat) ^ k < 2 ^ L" by (rule power_strict_increasing) simp
      then show ?thesis using L(1) \<open>k < L\<close> by (auto dest: order_trans)
    qed (use L gt in auto)
  qed
  then show ?thesis unfolding order by auto
qed

lemma log2_loop_correct:
  assumes "2 ^ L \<le> unat w" "unat w < 2 ^ Suc L"
  shows "log2_loop w k = k + Suc L"
  using assms
proof (induction L arbitrary: w k)
  case 0
  then have "unat (drop_bit 1 w) = 0" unfolding unat_half by simp
  then have "drop_bit 1 w = 0" by (simp only: unat_eq_0)
  moreover have "w > 0" using 0 by (auto simp: word_less_nat_alt)
  ultimately show ?case by (subst log2_loop.simps, simp only: if_True, subst log2_loop.simps) simp
next
  case (Suc L)
  then have half: "2 ^ L \<le> unat (drop_bit 1 w)" "unat (drop_bit 1 w) < 2 ^ Suc L"
    unfolding unat_half using log_half [of L "unat w"] by simp_all
  have "0 < unat w" using Suc.prems(1) by (meson less_le_trans zero_less_numeral zero_less_power)
  then have "w > 0" by (simp add: word_less_nat_alt)
  then have "log2_loop w k = log2_loop (drop_bit 1 w) (k + 1)" by (subst log2_loop.simps) (simp only: if_True)
  then show ?case using Suc.IH [OF half, of "k + 1"] by simp
qed

text \<open>The logarithm is rounded up.\<close>

lemma log2_eq_find_order: "memheap_log2 w = memheap_buddy_find_order w"
proof (cases "w = 0")
  case True
  then show ?thesis by (simp add: memheap_log2_def find_order_0 log2_loop.simps)
next
  case False
  then obtain L where L: "2 ^ L \<le> unat w" "unat w < 2 ^ Suc L" using log_exists [of "unat w"] by (auto simp: unat_gt_0)
  show ?thesis
    by (simp add: memheap_log2_def memheap_buddy_find_order_def log2_loop_correct [OF L] order_loop_correct [OF L])
qed

lemma log2_fits: "memheap_log2 w \<le> k \<longleftrightarrow> unat w \<le> 2 ^ k"
  unfolding log2_eq_find_order by (rule find_order_fits)

end
