(* ===== verification/Buddy_Tiling.thy ===== *)
theory Buddy_Tiling
  imports OMPI_Prelude
begin

text \<open>
  What a buddy allocator keeps: the heap of \<open>2 ^ hi\<close> bytes is tiled by blocks, each free or allocated.
  A block is its order and its index; the block \<open>(k, i)\<close> holds the addresses from \<open>i * 2 ^ k\<close> on, and
  its buddy is \<open>(k, i XOR 1)\<close>. No two buddies are free, so the free blocks are determined by the
  allocated ones, and every free aligned region lies within one free block.
\<close>

type_synonym block = "nat \<times> nat"

definition in_block :: "block \<Rightarrow> nat \<Rightarrow> bool" where
  "in_block b x \<longleftrightarrow> x div 2 ^ fst b = snd b"

definition meets :: "block \<Rightarrow> block \<Rightarrow> bool" where
  "meets b c \<longleftrightarrow> (\<exists>x. in_block b x \<and> in_block c x)"

definition valid_block :: "nat \<Rightarrow> nat \<Rightarrow> block \<Rightarrow> bool" where
  "valid_block lo hi b \<longleftrightarrow> lo \<le> fst b \<and> fst b \<le> hi \<and> snd b < 2 ^ (hi - fst b)"

definition tiling :: "nat \<Rightarrow> nat \<Rightarrow> block set \<Rightarrow> bool" where
  "tiling lo hi B \<longleftrightarrow> (\<forall>b \<in> B. valid_block lo hi b) \<and> (\<forall>x < 2 ^ hi. \<exists>!b. b \<in> B \<and> in_block b x)"

definition buddy :: "nat \<Rightarrow> nat" where
  "buddy i = (if even i then Suc i else i - 1)"

definition coalesced :: "nat \<Rightarrow> block set \<Rightarrow> bool" where
  "coalesced hi F \<longleftrightarrow> (\<forall>k i. k < hi \<and> (k, i) \<in> F \<longrightarrow> (k, buddy i) \<notin> F)"

text \<open>Free blocks, allocated blocks; and with one block that is neither.\<close>

definition buddies :: "nat \<Rightarrow> nat \<Rightarrow> block set \<Rightarrow> block set \<Rightarrow> bool" where
  "buddies lo hi F A \<longleftrightarrow> tiling lo hi (F \<union> A) \<and> F \<inter> A = {} \<and> coalesced hi F"

definition buddies_but :: "nat \<Rightarrow> nat \<Rightarrow> block set \<Rightarrow> block set \<Rightarrow> block \<Rightarrow> bool" where
  "buddies_but lo hi F A c \<longleftrightarrow> tiling lo hi (insert c (F \<union> A)) \<and> c \<notin> F \<and> c \<notin> A \<and> F \<inter> A = {} \<and> coalesced hi F"

section \<open>Blocks\<close>

lemma xor_1_nat: "i XOR 1 = buddy i"
  by (simp add: xor_Suc_0_eq buddy_def)

lemma buddy_simps [simp]:
  "buddy (2 * i) = Suc (2 * i)" "buddy (Suc (2 * i)) = 2 * i" "buddy (buddy i) = i" "buddy i \<noteq> i" "i \<noteq> buddy i" "buddy i div 2 = i div 2"
  by (auto simp: buddy_def elim!: oddE)

lemma buddy_eq_iff: "buddy i = j \<longleftrightarrow> i = buddy j"
  by (metis buddy_simps(3))

lemma buddy_bound: "buddy i < 2 ^ Suc n \<longleftrightarrow> i < 2 ^ Suc n"
proof -
  have "j < 2 ^ Suc n \<longleftrightarrow> j div 2 < 2 ^ n" for j :: nat by auto
  then show ?thesis by (simp only: buddy_simps)
qed

lemma in_block_start [simp]: "in_block (k, i) (i * 2 ^ k)"
  by (simp add: in_block_def)

lemma in_block_halves: "in_block (Suc k, i) x \<longleftrightarrow> in_block (k, 2 * i) x \<or> in_block (k, Suc (2 * i)) x"
proof -
  have "x div 2 ^ Suc k = x div 2 ^ k div 2" by (simp add: mult.commute flip: div_mult2_eq)
  then show ?thesis by (auto simp: in_block_def)
qed

lemma in_block_one_half: "in_block (k, 2 * i) x \<Longrightarrow> \<not> in_block (k, Suc (2 * i)) x"
  by (simp add: in_block_def)

lemma in_block_range:
  assumes "valid_block lo hi b" "in_block b x"
  shows "x < 2 ^ hi"
proof -
  have "x < Suc (snd b) * 2 ^ fst b" using assms(2) dividend_less_div_times [of "2 ^ fst b" x] by (simp add: in_block_def)
  also have "Suc (snd b) * 2 ^ fst b \<le> 2 ^ (hi - fst b) * 2 ^ fst b"
    using assms(1) by (intro mult_right_mono) (simp_all add: valid_block_def Suc_le_eq)
  also have "\<dots> = 2 ^ hi" using assms(1) by (simp add: valid_block_def flip: power_add)
  finally show ?thesis .
qed

lemma block_nested:
  assumes "k \<le> p" "in_block (p, j) x" "in_block (k, i) x" "in_block (k, i) y"
  shows "in_block (p, j) y"
proof -
  have "z div 2 ^ p = z div 2 ^ k div 2 ^ (p - k)" for z :: nat
    using assms(1) by (simp flip: div_mult2_eq power_add)
  then show ?thesis using assms(2-4) by (simp add: in_block_def)
qed

lemma tiling_unique:
  assumes "tiling lo hi B" "b \<in> B" "c \<in> B" "in_block b x" "in_block c x"
  shows "b = c"
proof -
  have "valid_block lo hi b" using assms(1,2) by (simp add: tiling_def)
  then have "x < 2 ^ hi" using in_block_range assms(4) by blast
  then have "\<exists>!b. b \<in> B \<and> in_block b x" using assms(1) by (simp add: tiling_def)
  then show ?thesis using assms(2-5) by blast
qed

lemma tiling_cover:
  assumes "tiling lo hi B" "x < 2 ^ hi"
  obtains b where "b \<in> B" "in_block b x"
  using assms unfolding tiling_def by blast

lemma tilingI:
  assumes "\<And>b. b \<in> B \<Longrightarrow> valid_block lo hi b" "\<And>x. x < 2 ^ hi \<Longrightarrow> \<exists>b \<in> B. in_block b x"
    "\<And>b c x. b \<in> B \<Longrightarrow> c \<in> B \<Longrightarrow> in_block b x \<Longrightarrow> in_block c x \<Longrightarrow> b = c"
  shows "tiling lo hi B"
  unfolding tiling_def using assms by (metis (no_types, lifting))

lemma valid_blocks_finite: "finite {b. valid_block lo hi b}"
proof (rule finite_subset)
  show "{b. valid_block lo hi b} \<subseteq> {..hi} \<times> {..<2 ^ hi}"
  proof (clarsimp simp: valid_block_def)
    fix k i :: nat
    assume "i < 2 ^ (hi - k)"
    also have "(2 :: nat) ^ (hi - k) \<le> 2 ^ hi" by (rule power_increasing) simp_all
    finally show "i < 2 ^ hi" .
  qed
qed simp

lemma tiling_finite: "tiling lo hi B \<Longrightarrow> finite B"
  by (rule finite_subset [OF _ valid_blocks_finite [of lo hi]]) (auto simp: tiling_def)

section \<open>Splitting and merging\<close>

lemma tiling_split:
  assumes "tiling lo hi (insert (Suc k, i) B)" "(Suc k, i) \<notin> B" "lo \<le> k"
  shows "tiling lo hi (insert (k, 2 * i) (insert (k, Suc (2 * i)) B))"
proof (rule tilingI)
  note valid = assms(1) [unfolded tiling_def, THEN conjunct1]
  have c: "valid_block lo hi (Suc k, i)" using valid by blast
  have "hi - k = Suc (hi - Suc k)" using c unfolding valid_block_def by simp linarith
  then have halves: "valid_block lo hi (k, 2 * i)" "valid_block lo hi (k, Suc (2 * i))"
    using c assms(3) by (simp_all add: valid_block_def)
  fix b assume "b \<in> insert (k, 2 * i) (insert (k, Suc (2 * i)) B)"
  then show "valid_block lo hi b" using valid halves by blast
next
  fix x :: nat assume "x < 2 ^ hi"
  with assms(1) obtain b where "b \<in> insert (Suc k, i) B" "in_block b x" by (rule tiling_cover)
  then show "\<exists>b \<in> insert (k, 2 * i) (insert (k, Suc (2 * i)) B). in_block b x"
    using in_block_halves by blast
next
  have half: "b \<notin> B" if "in_block (Suc k, i) x" "in_block b x" for b x
    using tiling_unique [OF assms(1) _ _ that] assms(2) by blast
  fix b c x
  assume "b \<in> insert (k, 2 * i) (insert (k, Suc (2 * i)) B)" "c \<in> insert (k, 2 * i) (insert (k, Suc (2 * i)) B)"
    "in_block b x" "in_block c x"
  moreover have "b = c" if "b \<in> B" "c \<in> B" using tiling_unique [OF assms(1)] that calculation(3,4) by blast
  ultimately show "b = c" using half [of x b] half [of x c] in_block_halves [of k i x] in_block_one_half [of k i x] by blast
qed

lemma tiling_merge:
  assumes "tiling lo hi (insert (k, 2 * i) (insert (k, Suc (2 * i)) B))" "(k, 2 * i) \<notin> B" "(k, Suc (2 * i)) \<notin> B" "k < hi"
  shows "tiling lo hi (insert (Suc k, i) B)"
proof (rule tilingI)
  note valid = assms(1) [unfolded tiling_def, THEN conjunct1]
  have "valid_block lo hi (k, 2 * i)" using valid by blast
  moreover have "hi - k = Suc (hi - Suc k)" using assms(4) by simp
  ultimately have c: "valid_block lo hi (Suc k, i)" using assms(4) by (simp add: valid_block_def)
  fix b assume "b \<in> insert (Suc k, i) B"
  then show "valid_block lo hi b" using valid c by blast
next
  fix x :: nat assume "x < 2 ^ hi"
  with assms(1) obtain b where "b \<in> insert (k, 2 * i) (insert (k, Suc (2 * i)) B)" "in_block b x" by (rule tiling_cover)
  then show "\<exists>b \<in> insert (Suc k, i) B. in_block b x" using in_block_halves by blast
next
  have whole: "b \<notin> B" if "in_block (Suc k, i) x" "in_block b x" for b x
  proof
    assume "b \<in> B"
    moreover from that(1) obtain h where "h = (k, 2 * i) \<or> h = (k, Suc (2 * i))" "in_block h x" unfolding in_block_halves by blast
    ultimately show False using tiling_unique [OF assms(1), of h b x] that(2) assms(2,3) by blast
  qed
  fix b c x
  assume "b \<in> insert (Suc k, i) B" "c \<in> insert (Suc k, i) B" "in_block b x" "in_block c x"
  moreover have "b = c" if "b \<in> B" "c \<in> B" using tiling_unique [OF assms(1)] that calculation(3,4) by blast
  ultimately show "b = c" using whole [of x] by blast
qed

lemma coalesced_mono: "coalesced hi F \<Longrightarrow> G \<subseteq> F \<Longrightarrow> coalesced hi G"
  unfolding coalesced_def by blast

lemma buddies_take: "buddies lo hi F A \<Longrightarrow> c \<in> F \<Longrightarrow> buddies_but lo hi (F - {c}) A c"
  unfolding buddies_def buddies_but_def
  by (auto intro: coalesced_mono simp: insert_absorb simp flip: Un_insert_left)

lemma buddies_give: "buddies_but lo hi F A c \<Longrightarrow> buddies lo hi F (insert c A)"
  unfolding buddies_def buddies_but_def by auto

lemma buddies_release: "buddies lo hi F A \<Longrightarrow> c \<in> A \<Longrightarrow> buddies_but lo hi F (A - {c}) c"
  unfolding buddies_def buddies_but_def by (auto simp: insert_absorb simp flip: Un_insert_right)

lemma buddies_split:
  assumes "buddies_but lo hi F A (Suc k, i)" "lo \<le> k"
  shows "buddies_but lo hi (insert (k, Suc (2 * i)) F) A (k, 2 * i)"
proof -
  have t: "tiling lo hi (insert (Suc k, i) (F \<union> A))" "(Suc k, i) \<notin> F \<union> A" "F \<inter> A = {}" "coalesced hi F"
    using assms(1) by (auto simp: buddies_but_def)
  have new: "(k, j) \<notin> F \<union> A" if "j = 2 * i \<or> j = Suc (2 * i)" for j
  proof
    assume "(k, j) \<in> F \<union> A"
    moreover have "in_block (Suc k, i) (j * 2 ^ k)" unfolding in_block_halves using that in_block_start by blast
    ultimately show False using tiling_unique [OF t(1), of "(k, j)" "(Suc k, i)" "j * 2 ^ k"] by simp
  qed
  have "coalesced hi (insert (k, Suc (2 * i)) F)"
    using t(4) new [of "2 * i"] by (auto simp: coalesced_def buddy_eq_iff)
  moreover have "tiling lo hi (insert (k, 2 * i) (insert (k, Suc (2 * i)) F \<union> A))"
    using tiling_split [OF t(1,2) assms(2)] by simp
  moreover have "(k, 2 * i) \<noteq> (k, Suc (2 * i))" by simp
  ultimately show ?thesis using new t(3) by (auto simp: buddies_but_def)
qed

lemma buddies_merge:
  assumes "buddies_but lo hi F A (k, i)" "(k, buddy i) \<in> F" "k < hi"
  shows "buddies_but lo hi (F - {(k, buddy i)}) A (Suc k, i div 2)"
proof -
  let ?G = "F - {(k, buddy i)}" and ?j = "i div 2"
  have t: "tiling lo hi (insert (k, i) (F \<union> A))" "(k, i) \<notin> F \<union> A" "F \<inter> A = {}" "coalesced hi F"
    using assms(1) by (auto simp: buddies_but_def)
  have pair: "{(k, i), (k, buddy i)} = {(k, 2 * ?j), (k, Suc (2 * ?j))}"
    by (cases "even i") (auto elim!: evenE oddE)
  have "insert (k, i) (F \<union> A) = {(k, i), (k, buddy i)} \<union> (?G \<union> A)" using assms(2) by blast
  then have tl: "tiling lo hi (insert (k, 2 * ?j) (insert (k, Suc (2 * ?j)) (?G \<union> A)))" using t(1) unfolding pair by simp
  have "\<forall>c \<in> {(k, i), (k, buddy i)}. c \<notin> ?G \<union> A" using assms(2) t(2,3) by blast
  then have out: "(k, 2 * ?j) \<notin> ?G \<union> A" "(k, Suc (2 * ?j)) \<notin> ?G \<union> A" unfolding pair by blast+
  have "(Suc k, ?j) \<notin> ?G \<union> A"
  proof
    assume "(Suc k, ?j) \<in> ?G \<union> A"
    then show False
      using tiling_unique [OF tl, of "(Suc k, ?j)" "(k, 2 * ?j)" "2 * ?j * 2 ^ k"] in_block_halves [of k ?j "2 * ?j * 2 ^ k"] in_block_start [of k "2 * ?j"] by simp
  qed
  then show ?thesis using tiling_merge [OF tl out assms(3)] t(3,4) by (auto simp: buddies_but_def intro: coalesced_mono)
qed

lemma buddies_put:
  assumes "buddies_but lo hi F A (k, i)" "k < hi \<Longrightarrow> (k, buddy i) \<notin> F"
  shows "buddies lo hi (insert (k, i) F) A"
proof -
  have "coalesced hi (insert (k, i) F)"
    using assms by (auto simp: buddies_but_def coalesced_def buddy_eq_iff)
  then show ?thesis using assms(1) by (auto simp: buddies_def buddies_but_def)
qed

section \<open>What the allocated blocks determine\<close>

lemma buddies_start: "lo \<le> hi \<Longrightarrow> buddies lo hi {(hi, 0)} {}"
  by (auto simp: buddies_def tiling_def valid_block_def in_block_def coalesced_def)

text \<open>A region without allocated bytes lies within one free block.\<close>

lemma free_cover:
  assumes "buddies lo hi F A"
  shows "valid_block lo hi (k, i) \<Longrightarrow> \<forall>a \<in> A. \<not> meets a (k, i) \<Longrightarrow> \<exists>(p, j) \<in> F. k \<le> p \<and> (\<forall>x. in_block (k, i) x \<longrightarrow> in_block (p, j) x)"
proof (induction "k - lo" arbitrary: k i)
  case 0
  note t = assms [unfolded buddies_def, THEN conjunct1]
  let ?x = "i * 2 ^ k"
  have k: "k = lo" using 0 by (simp add: valid_block_def)
  have "?x < 2 ^ hi" using in_block_range [OF 0(2) in_block_start] .
  from t this obtain b where b: "b \<in> F \<union> A" "in_block b ?x" by (rule tiling_cover)
  have "b \<notin> A" using 0(3) b(2) in_block_start meets_def by blast
  moreover have "k \<le> fst b" using t b(1) k by (auto simp: tiling_def valid_block_def)
  ultimately show ?case using b block_nested [of k "fst b" "snd b" ?x i] by (intro bexI [of _ b]) auto
next
  case (Suc d)
  obtain q where q: "k = Suc q" "d = q - lo" "lo \<le> q" using Suc.hyps(2) by (cases k) auto
  note halves = in_block_halves [of q i, folded q(1)]
  have "hi - q = Suc (hi - k)" using Suc.prems(1) q(1) unfolding valid_block_def by simp linarith
  then have "valid_block lo hi (q, h)" if "h = 2 * i \<or> h = Suc (2 * i)" for h
    using Suc.prems(1) that q(1,3) by (auto simp: valid_block_def)
  moreover have "\<not> meets a (q, h)" if "a \<in> A" "h = 2 * i \<or> h = Suc (2 * i)" for a h
    using Suc.prems(2) that halves unfolding meets_def by blast
  ultimately have "\<exists>(p, j) \<in> F. q \<le> p \<and> (\<forall>x. in_block (q, h) x \<longrightarrow> in_block (p, j) x)" if "h = 2 * i \<or> h = Suc (2 * i)" for h
    using Suc.hyps(1) [OF q(2), of h] that by blast
  then have cover: "\<exists>p j. (p, j) \<in> F \<and> q \<le> p \<and> (\<forall>x. in_block (q, h) x \<longrightarrow> in_block (p, j) x)" if "h = 2 * i \<or> h = Suc (2 * i)" for h
    using that by blast
  obtain p j where l: "(p, j) \<in> F" "q \<le> p" "\<And>x. in_block (q, 2 * i) x \<Longrightarrow> in_block (p, j) x" using cover [of "2 * i"] by blast
  obtain p' j' where r: "(p', j') \<in> F" "q \<le> p'" "\<And>x. in_block (q, Suc (2 * i)) x \<Longrightarrow> in_block (p', j') x" using cover [of "Suc (2 * i)"] by blast
  have whole: "\<forall>y. in_block (k, i) y \<longrightarrow> in_block (p, j) y" if "k \<le> p" "in_block (k, i) x" "in_block (p, j) x" for p j x
    using block_nested [OF that(1,3,2)] by blast
  show ?case
  proof (cases "k \<le> p \<or> k \<le> p'")
    case True
    then show ?thesis
    proof
      assume "k \<le> p"
      moreover have "in_block (k, i) (2 * i * 2 ^ q)" "in_block (p, j) (2 * i * 2 ^ q)" using halves l(3) in_block_start by blast+
      ultimately show ?thesis using whole l(1) by blast
    next
      assume "k \<le> p'"
      moreover have "in_block (k, i) (Suc (2 * i) * 2 ^ q)" "in_block (p', j') (Suc (2 * i) * 2 ^ q)" using halves r(3) in_block_start by blast+
      ultimately show ?thesis using whole r(1) by blast
    qed
  next
    case False
    then have p: "p = q" "p' = q" using l(2) r(2) q(1) by simp_all
    then have "j = 2 * i" "j' = Suc (2 * i)" using l(3) [OF in_block_start] r(3) [OF in_block_start] by (simp_all add: in_block_def)
    then have "(q, 2 * i) \<in> F" "(q, buddy (2 * i)) \<in> F" using l(1) r(1) p by simp_all
    moreover have "q < hi" using Suc.prems(1) q(1) by (simp add: valid_block_def)
    ultimately show ?thesis using assms unfolding buddies_def coalesced_def by blast
  qed
qed

lemma free_blocks_le:
  assumes "buddies lo hi F A" "buddies lo hi G A"
  shows "F \<subseteq> G"
proof
  fix b assume b: "b \<in> F"
  obtain k i where ki: "b = (k, i)" by (cases b)
  have valid: "valid_block lo hi c" if "c \<in> F \<or> c \<in> G" for c using assms that by (auto simp: buddies_def tiling_def)
  have apart: "\<forall>a \<in> A. \<not> meets a c" if "c \<in> H" "buddies lo hi H A" for c H
    using tiling_unique [of lo hi "H \<union> A"] that unfolding buddies_def meets_def by blast
  obtain p j where pj: "(p, j) \<in> G" "k \<le> p" "in_block (p, j) (i * 2 ^ k)"
    using free_cover [OF assms(2), of k i] valid [of b] apart [OF b assms(1)] b in_block_start unfolding ki by blast
  obtain q m where qm: "(q, m) \<in> F" "p \<le> q" "in_block (q, m) (i * 2 ^ k)"
    using free_cover [OF assms(1), of p j] valid [of "(p, j)"] apart [OF pj(1) assms(2)] pj(1,3) by blast
  have "(q, m) = (k, i)"
    using tiling_unique [of lo hi "F \<union> A" "(q, m)" "(k, i)" "i * 2 ^ k"] assms(1) qm(1,3) b ki by (simp add: buddies_def)
  then have "p = k" using pj(2) qm(2) by simp
  then have "(p, j) = b" using pj(3) ki by (simp add: in_block_def)
  then show "b \<in> G" using pj(1) by simp
qed

lemma free_blocks_unique: "buddies lo hi F A \<Longrightarrow> buddies lo hi G A \<Longrightarrow> F = G"
  using free_blocks_le by blast

end
