(* ===== verification/Memheap_Buddy.thy ===== *)
theory Memheap_Buddy
  imports Memheap_Bits Buddy_Tiling
begin

text \<open>
  The symmetric heap of OpenSHMEM as a buddy allocator (\<^verbatim>\<open>oshmem/mca/memheap/buddy/memheap_buddy.c\<close>). A
  heap of \<open>2 ^ max_order\<close> bytes has, for each order, a bitmap of its free blocks and their number; the
  orders of the blocks that are allocated are in a hash table (\<open>Opal_Hash_Table\<close>) under their address.
  There are two heaps, for the user and for the library, one behind the other.

  \<open>heap_ok\<close> connects a heap with the free and the allocated blocks of \<open>Buddy_Tiling\<close>. Locks are left out:
  an operation is one atomic step. \<open>mem\<close> says whether the hash table can allocate a node.
\<close>

definition OSHMEM_SUCCESS :: int where [rc_defs]: "OSHMEM_SUCCESS = 0"
definition OSHMEM_ERROR :: int where [rc_defs]: "OSHMEM_ERROR = - 1"
definition OSHMEM_ERR_OUT_OF_RESOURCE :: int where [rc_defs]: "OSHMEM_ERR_OUT_OF_RESOURCE = - 2"
definition OSHMEM_ERR_BAD_PARAM :: int where [rc_defs]: "OSHMEM_ERR_BAD_PARAM = - 5"

definition MEMHEAP_BASE_MIN_ORDER :: nat where "MEMHEAP_BASE_MIN_ORDER = 3"
definition DEFAULT_HASHTABLE_SIZE :: nat where "DEFAULT_HASHTABLE_SIZE = 100"

text \<open>The bitmaps of the orders below the smallest one are not allocated: they are empty here.\<close>

record buddy_heap =
  bh_bits :: "64 word list list"
  bh_num_free :: "32 word list"
  bh_max_order :: nat
  bh_min_order :: nat
  symmetric_heap :: "64 word"
  symmetric_heap_hashtable :: "(64 word, nat) opal_hash_table_t"

record memheap_buddy_module =
  mb_heap :: buddy_heap
  mb_private_heap :: buddy_heap
  mb_memheap_size :: "64 word"

section \<open>Blocks\<close>

definition heap_set_bit :: "nat \<Rightarrow> nat \<Rightarrow> buddy_heap \<Rightarrow> buddy_heap option" where
  "heap_set_bit k i heap = do {
     b \<leftarrow> aget (bh_bits heap) (int k);
     b \<leftarrow> set_bit_c i b;
     bits \<leftarrow> aset (bh_bits heap) (int k) b;
     n \<leftarrow> aget (bh_num_free heap) (int k);
     num_free \<leftarrow> aset (bh_num_free heap) (int k) (n + 1);
     Some (heap\<lparr>bh_bits := bits, bh_num_free := num_free\<rparr>)
   }"

definition heap_clear_bit :: "nat \<Rightarrow> nat \<Rightarrow> buddy_heap \<Rightarrow> buddy_heap option" where
  "heap_clear_bit k i heap = do {
     b \<leftarrow> aget (bh_bits heap) (int k);
     b \<leftarrow> clear_bit_c i b;
     bits \<leftarrow> aset (bh_bits heap) (int k) b;
     n \<leftarrow> aget (bh_num_free heap) (int k);
     num_free \<leftarrow> aset (bh_num_free heap) (int k) (n - 1);
     Some (heap\<lparr>bh_bits := bits, bh_num_free := num_free\<rparr>)
   }"

text \<open>The first order with a free block, and the block. \<^verbatim>\<open>1 << n\<close> is an \<^verbatim>\<open>int\<close>.\<close>

fun buddy_search :: "buddy_heap \<Rightarrow> nat list \<Rightarrow> (nat \<times> 32 word) option option" where
  "buddy_search heap [] = Some None"
| "buddy_search heap (k # ks) = do {
     n \<leftarrow> aget (bh_num_free heap) (int k);
     if n \<noteq> 0 then
       if bh_max_order heap - k \<ge> 31 then None
       else do {
         b \<leftarrow> aget (bh_bits heap) (int k);
         let m = 2 ^ (bh_max_order heap - k);
         seg \<leftarrow> find_next_bit b m 0;
         if seg < m then Some (Some (k, of_nat seg)) else buddy_search heap ks
       }
     else buddy_search heap ks
   }"

text \<open>One step down: the upper half becomes free.\<close>

definition buddy_split :: "nat \<Rightarrow> 32 word \<times> buddy_heap \<Rightarrow> (32 word \<times> buddy_heap) option" where
  "buddy_split k = (\<lambda>(seg, heap).
     let seg = push_bit 1 seg in map_option (Pair seg) (heap_set_bit k (unat (seg XOR 1)) heap))"

text \<open>\<^verbatim>\<open>_buddy_alloc\<close>: \<^const>\<open>None\<close> is \<^verbatim>\<open>OSHMEM_ERROR\<close>. A shift by 32 or more is undefined.\<close>

definition buddy_alloc_seg :: "nat \<Rightarrow> buddy_heap \<Rightarrow> (32 word option \<times> buddy_heap) option" where
  "buddy_alloc_seg order heap = do {
     r \<leftarrow> buddy_search heap [order..<Suc (bh_max_order heap)];
     case r of None \<Rightarrow> Some (None, heap)
     | Some (k, seg) \<Rightarrow> do {
         heap \<leftarrow> heap_clear_bit k (unat seg) heap;
         (seg, heap) \<leftarrow> ofold buddy_split (rev [order..<k]) (seg, heap);
         if order \<ge> 32 then None else Some (Some (push_bit order seg), heap)
       }
   }"

text \<open>The loop of \<^verbatim>\<open>_buddy_free\<close> over the orders; beyond the last one it reads outside the table.\<close>

fun buddy_merge :: "nat list \<Rightarrow> 32 word \<Rightarrow> buddy_heap \<Rightarrow> buddy_heap option" where
  "buddy_merge [] seg heap = None"
| "buddy_merge (k # ks) seg heap = do {
     b \<leftarrow> aget (bh_bits heap) (int k);
     t \<leftarrow> test_bit_c (sint (seg XOR 1)) b;
     if t then do {
       heap \<leftarrow> heap_clear_bit k (unat (seg XOR 1)) heap;
       buddy_merge ks (drop_bit 1 seg) heap
     } else heap_set_bit k (unat seg) heap
   }"

definition buddy_free_seg :: "32 word \<Rightarrow> nat \<Rightarrow> buddy_heap \<Rightarrow> buddy_heap option" where
  "buddy_free_seg seg order heap =
     (if order \<ge> 32 then None else buddy_merge [order..<Suc (bh_max_order heap)] (drop_bit order seg) heap)"

section \<open>One heap\<close>

text \<open>\<^verbatim>\<open>_do_alloc\<close>: the result code, \<^verbatim>\<open>*p_buff\<close> and the heap.\<close>

definition do_alloc :: "bool \<Rightarrow> nat \<Rightarrow> buddy_heap \<Rightarrow> (int \<times> 64 word \<times> buddy_heap) option" where
  "do_alloc mem order heap =
     (let order = max order (bh_min_order heap) in
      if order > bh_max_order heap then Some (OSHMEM_ERROR, 0, heap)
      else do {
        (seg, heap) \<leftarrow> buddy_alloc_seg order heap;
        case seg of None \<Rightarrow> Some (OSHMEM_ERROR, 0, heap)
        | Some offset \<Rightarrow> do {
            let addr = symmetric_heap heap + ucast offset;
            (rc, ht) \<leftarrow> opal_hash_table_set_value_uint64 mem (symmetric_heap_hashtable heap) addr order;
            let heap = heap\<lparr>symmetric_heap_hashtable := ht\<rparr>;
            if rc \<noteq> OPAL_SUCCESS then do {
              heap \<leftarrow> buddy_free_seg offset order heap;
              Some (OSHMEM_ERROR, 0, heap)
            } else Some (OSHMEM_SUCCESS, addr, heap)
          }
      })"

definition do_free :: "64 word \<Rightarrow> buddy_heap \<Rightarrow> (int \<times> buddy_heap) option" where
  "do_free addr heap = do {
     let offset = ucast (addr - symmetric_heap heap);
     (rc, order) \<leftarrow> opal_hash_table_get_value_uint64 (symmetric_heap_hashtable heap) addr;
     case order of None \<Rightarrow> Some (OSHMEM_ERROR, heap)
     | Some order \<Rightarrow> do {
         heap \<leftarrow> buddy_free_seg offset order heap;
         (_, ht) \<leftarrow> opal_hash_table_remove_value_uint64 (symmetric_heap_hashtable heap) addr;
         Some (OSHMEM_SUCCESS, heap\<lparr>symmetric_heap_hashtable := ht\<rparr>)
       }
   }"

section \<open>The functions of the module\<close>

definition mca_memheap_buddy_alloc :: "bool \<Rightarrow> 64 word \<Rightarrow> memheap_buddy_module \<Rightarrow> (int \<times> 64 word \<times> memheap_buddy_module) option" where
  "mca_memheap_buddy_alloc mem sz mb =
     map_option (\<lambda>(rc, p, h). (rc, p, mb\<lparr>mb_heap := h\<rparr>)) (do_alloc mem (memheap_buddy_find_order sz) (mb_heap mb))"

definition mca_memheap_buddy_private_alloc :: "bool \<Rightarrow> 64 word \<Rightarrow> memheap_buddy_module \<Rightarrow> (int \<times> 64 word \<times> memheap_buddy_module) option" where
  "mca_memheap_buddy_private_alloc mem sz mb =
     map_option (\<lambda>(rc, p, h). (rc, p, mb\<lparr>mb_private_heap := h\<rparr>)) (do_alloc mem (memheap_buddy_find_order sz) (mb_private_heap mb))"

definition mca_memheap_buddy_free :: "64 word \<Rightarrow> memheap_buddy_module \<Rightarrow> (int \<times> memheap_buddy_module) option" where
  "mca_memheap_buddy_free ptr mb = map_option (\<lambda>(rc, h). (rc, mb\<lparr>mb_heap := h\<rparr>)) (do_free ptr (mb_heap mb))"

definition mca_memheap_buddy_private_free :: "64 word \<Rightarrow> memheap_buddy_module \<Rightarrow> (int \<times> memheap_buddy_module) option" where
  "mca_memheap_buddy_private_free ptr mb =
     (if ptr = 0 then Some (OSHMEM_SUCCESS, mb)
      else map_option (\<lambda>(rc, h). (rc, mb\<lparr>mb_private_heap := h\<rparr>)) (do_free ptr (mb_private_heap mb)))"

definition mca_memheap_buddy_align ::
  "bool \<Rightarrow> 64 word \<Rightarrow> 64 word \<Rightarrow> memheap_buddy_module \<Rightarrow> (int \<times> 64 word \<times> memheap_buddy_module) option" where
  "mca_memheap_buddy_align mem align sz mb =
     (if align = 0 \<or> align AND (align - 1) \<noteq> 0 then Some (OSHMEM_ERROR, 0, mb)
      else let order = memheap_buddy_find_order sz in
        if order \<ge> 64 then None
        else let order = (if align > push_bit order 1 then memheap_buddy_find_order align else order) in
          map_option (\<lambda>(rc, p, h). (rc, p, mb\<lparr>mb_heap := h\<rparr>)) (do_alloc mem order (mb_heap mb)))"

text \<open>Memory is a function of the address. \<open>src\<close> is what the source holds.\<close>

definition memcpy_to :: "64 word \<Rightarrow> (64 word \<Rightarrow> 8 word) \<Rightarrow> 64 word \<Rightarrow> (64 word \<Rightarrow> 8 word) \<Rightarrow> 64 word \<Rightarrow> 8 word" where
  "memcpy_to dst src n memory = (\<lambda>a. if a - dst < n then src (a - dst) else memory a)"

text \<open>\<open>tmp\<close> says whether the temporary buffer can be allocated. The result code, \<^verbatim>\<open>*p_new_buff\<close> (left
  alone in one branch: \<^const>\<open>None\<close>), the memory and the module. Copying between overlapping blocks is
  undefined.\<close>

definition mca_memheap_buddy_realloc ::
  "bool \<Rightarrow> bool \<Rightarrow> 64 word \<Rightarrow> 64 word \<Rightarrow> (64 word \<Rightarrow> 8 word) \<Rightarrow> memheap_buddy_module
     \<Rightarrow> (int \<times> 64 word option \<times> (64 word \<Rightarrow> 8 word) \<times> memheap_buddy_module) option" where
  "mca_memheap_buddy_realloc mem tmp new_size p_buff memory mb =
     (if p_buff = 0 then map_option (\<lambda>(rc, p, mb). (rc, Some p, memory, mb)) (mca_memheap_buddy_alloc mem new_size mb)
      else do {
        (rc, order) \<leftarrow> opal_hash_table_get_value_uint64 (symmetric_heap_hashtable (mb_heap mb)) p_buff;
        case order of None \<Rightarrow> Some (OSHMEM_ERROR, Some 0, memory, mb)
        | Some order \<Rightarrow>
            if new_size = 0 then map_option (\<lambda>(rc, mb). (rc, Some 0, memory, mb)) (mca_memheap_buddy_free p_buff mb)
            else if order \<ge> 64 \<or> bh_max_order (mb_heap mb) \<ge> 64 then None
            else let old_size = push_bit order 1; heap_size = push_bit (bh_max_order (mb_heap mb)) 1 in
              if new_size \<le> old_size then Some (OSHMEM_SUCCESS, Some p_buff, memory, mb)
              else if new_size > heap_size then Some (OSHMEM_ERR_OUT_OF_RESOURCE, Some 0, memory, mb)
              else if old_size + new_size \<ge> heap_size then
                if \<not> tmp then Some (OSHMEM_ERR_OUT_OF_RESOURCE, None, memory, mb)
                else do {
                  let tmp_buf = (\<lambda>i. memory (p_buff + i));
                  (_, mb) \<leftarrow> mca_memheap_buddy_free p_buff mb;
                  (rc, p, mb) \<leftarrow> mca_memheap_buddy_alloc mem new_size mb;
                  if rc \<noteq> OSHMEM_SUCCESS then Some (rc, Some 0, memory, mb)
                  else Some (OSHMEM_SUCCESS, Some p, memcpy_to p tmp_buf old_size memory, mb)
                }
              else do {
                (rc, p, mb) \<leftarrow> mca_memheap_buddy_alloc mem new_size mb;
                if rc \<noteq> OSHMEM_SUCCESS then Some (rc, Some 0, memory, mb)
                else if p - p_buff < old_size \<or> p_buff - p < old_size then None
                else do {
                  let memory = memcpy_to p (\<lambda>i. memory (p_buff + i)) old_size memory;
                  (_, mb) \<leftarrow> mca_memheap_buddy_free p_buff mb;
                  Some (OSHMEM_SUCCESS, Some p, memory, mb)
                }
              }
      })"

section \<open>Initialisation\<close>

text \<open>
  The bitmaps of one heap, with its only block free. \<open>junk\<close> is what \<^const>\<open>opal_hash_table_init\<close> gets from
  \<^verbatim>\<open>malloc\<close>; its result is not looked at.
\<close>

definition heap_init :: "(64 word, nat) hash_node_t list option \<Rightarrow> nat \<Rightarrow> 64 word \<Rightarrow> buddy_heap option" where
  "heap_init junk max_order base = do {
     (_, ht) \<leftarrow> opal_hash_table_init junk opal_hash_table_construct DEFAULT_HASHTABLE_SIZE;
     bits \<leftarrow> ofold (\<lambda>i bits. aset bits (int i) (replicate ((2 ^ (max_order - i) + 63) div 64) 0))
       [MEMHEAP_BASE_MIN_ORDER..<Suc max_order] (replicate (Suc max_order) []);
     b \<leftarrow> aget bits (int max_order);
     b \<leftarrow> set_bit_c 0 b;
     bits \<leftarrow> aset bits (int max_order) b;
     num_free \<leftarrow> aset (replicate (Suc max_order) 0) (int max_order) 1;
     Some \<lparr>bh_bits = bits, bh_num_free = num_free, bh_max_order = max_order, bh_min_order = MEMHEAP_BASE_MIN_ORDER,
       symmetric_heap = base, symmetric_heap_hashtable = ht\<rparr>
   }"

text \<open>\<open>ok\<close>: all allocations of \<^verbatim>\<open>buddy_init\<close> succeed. The code asserts that the private size is a power of two.\<close>

record memheap_context_t =
  mc_user_base_addr :: "64 word"
  mc_private_base_addr :: "64 word"
  mc_user_size :: "64 word"
  mc_private_size :: "64 word"

definition mca_memheap_buddy_module_init ::
  "bool \<Rightarrow> (64 word, nat) hash_node_t list option \<Rightarrow> memheap_context_t option \<Rightarrow> (int \<times> memheap_buddy_module option) option" where
  "mca_memheap_buddy_module_init ok junk context =
     (case context of None \<Rightarrow> Some (OSHMEM_ERR_BAD_PARAM, None)
      | Some c \<Rightarrow>
          if mc_user_size c = 0 \<or> mc_private_size c = 0 then Some (OSHMEM_ERR_BAD_PARAM, None)
          else let max_order = memheap_log2 (mc_user_size c); private_order = memheap_log2 (mc_private_size c) in
            if max_order \<ge> 64 \<or> private_order \<ge> 64 \<or> mc_private_size c \<noteq> push_bit private_order 1 then None
            else if \<not> ok then Some (OSHMEM_ERROR, None)
            else do {
              heap \<leftarrow> heap_init junk max_order (mc_user_base_addr c);
              private_heap \<leftarrow> heap_init junk private_order (mc_private_base_addr c);
              Some (OSHMEM_SUCCESS, Some \<lparr>mb_heap = heap, mb_private_heap = private_heap, mb_memheap_size = push_bit max_order 1\<rparr>)
            })"

end
