(* ===== verification/Memheap_Heap.thy ===== *)
theory Memheap_Heap
  imports Memheap_Buddy
begin

text \<open>
  The bitmaps and counters of a heap represent a set of free blocks, and \<^const>\<open>buddy_alloc_seg\<close> and
  \<^const>\<open>buddy_free_seg\<close> are the splitting and merging of \<open>Buddy_Tiling\<close>.
\<close>

section \<open>Bitmaps as sets of blocks\<close>

definition represents :: "buddy_heap \<Rightarrow> block set \<Rightarrow> bool" where
  "represents h F \<longleftrightarrow>
     length (bh_bits h) = Suc (bh_max_order h) \<and> length (bh_num_free h) = Suc (bh_max_order h) \<and>
     bh_min_order h \<le> bh_max_order h \<and> bh_max_order h - bh_min_order h \<le> 30 \<and>
     (\<forall>k \<le> bh_max_order h. length (bh_bits h ! k) = (if k < bh_min_order h then 0 else (2 ^ (bh_max_order h - k) + 63) div 64)) \<and>
     (\<forall>k \<le> bh_max_order h. \<forall>i. abit (bh_bits h ! k) i \<longleftrightarrow> (k, i) \<in> F) \<and>
     (\<forall>k \<le> bh_max_order h. unat (bh_num_free h ! k) = card {i. (k, i) \<in> F}) \<and>
     (\<forall>b \<in> F. valid_block (bh_min_order h) (bh_max_order h) b)"

definition same_frame :: "buddy_heap \<Rightarrow> buddy_heap \<Rightarrow> bool" where
  "same_frame h h' \<longleftrightarrow> bh_max_order h' = bh_max_order h \<and> bh_min_order h' = bh_min_order h \<and>
     symmetric_heap h' = symmetric_heap h \<and> symmetric_heap_hashtable h' = symmetric_heap_hashtable h"

lemma same_frame_trans: "same_frame h h' \<Longrightarrow> same_frame h' h'' \<Longrightarrow> same_frame h h''"
  by (simp add: same_frame_def)

lemma same_frame_refl [simp]: "same_frame h h"
  by (simp add: same_frame_def)

lemma representsD:
  assumes "represents h F"
  shows "length (bh_bits h) = Suc (bh_max_order h)" "length (bh_num_free h) = Suc (bh_max_order h)"
    "bh_min_order h \<le> bh_max_order h" "bh_max_order h - bh_min_order h \<le> 30"
    "\<And>k. bh_min_order h \<le> k \<Longrightarrow> k \<le> bh_max_order h \<Longrightarrow> length (bh_bits h ! k) = (2 ^ (bh_max_order h - k) + 63) div 64"
    "\<And>k i. k \<le> bh_max_order h \<Longrightarrow> abit (bh_bits h ! k) i \<longleftrightarrow> (k, i) \<in> F"
    "\<And>k. k \<le> bh_max_order h \<Longrightarrow> unat (bh_num_free h ! k) = card {i. (k, i) \<in> F}"
    "\<And>b. b \<in> F \<Longrightarrow> valid_block (bh_min_order h) (bh_max_order h) b"
  using assms unfolding represents_def by auto

lemma valid_index: "valid_block lo hi (k, i) \<Longrightarrow> lo \<le> k \<and> k \<le> hi \<and> i < 2 ^ (hi - k)"
  by (simp add: valid_block_def)

lemma represents_row:
  assumes "represents h F"
  shows "{i. (k, i) \<in> F} \<subseteq> {..<2 ^ (bh_max_order h - k)}" "finite {i. (k, i) \<in> F}"
proof -
  show "{i. (k, i) \<in> F} \<subseteq> {..<2 ^ (bh_max_order h - k)}" using representsD(8) [OF assms] by (auto simp: valid_block_def)
  then show "finite {i. (k, i) \<in> F}" by (rule finite_subset) simp
qed

lemma pow_30:
  assumes "represents h F" "bh_min_order h \<le> k"
  shows "(2 :: nat) ^ (bh_max_order h - k) \<le> 2 ^ 30"
  using representsD(4) [OF assms(1)] assms(2) by (intro power_increasing) simp_all

lemma bitmap_room:
  assumes "represents h F" "valid_block (bh_min_order h) (bh_max_order h) (k, i)"
  shows "i div 64 < length (bh_bits h ! k)"
proof -
  note v = valid_index [OF assms(2)]
  have "i div 64 \<le> (2 ^ (bh_max_order h - k) - 1) div 64" using v by (intro div_le_mono) linarith
  also have "\<dots> < (2 ^ (bh_max_order h - k) + 63) div 64"
    using zero_less_power [of "2 :: nat" "bh_max_order h - k"] by linarith
  finally show ?thesis using representsD(5) [OF assms(1), of k] v by simp
qed

lemma represents_update:
  assumes "represents h F" "k \<le> bh_max_order h" "length b = length (bh_bits h ! k)" "\<And>i. abit b i \<longleftrightarrow> (k, i) \<in> G"
    "unat n = card {i. (k, i) \<in> G}" "\<And>j i. j \<noteq> k \<Longrightarrow> (j, i) \<in> G \<longleftrightarrow> (j, i) \<in> F" "\<And>b. b \<in> G \<Longrightarrow> valid_block (bh_min_order h) (bh_max_order h) b"
  shows "represents (h\<lparr>bh_bits := (bh_bits h)[k := b], bh_num_free := (bh_num_free h)[k := n]\<rparr>) G"
proof -
  let ?bits = "(bh_bits h)[k := b]" and ?num = "(bh_num_free h)[k := n]"
  have len: "k < length (bh_bits h)" "k < length (bh_num_free h)" using assms(1,2) by (simp_all add: represents_def)
  have "length (?bits ! j) = length (bh_bits h ! j)" for j using assms(3) len by (cases "j = k") simp_all
  moreover have "abit (?bits ! j) i \<longleftrightarrow> (j, i) \<in> G" if "j \<le> bh_max_order h" for j i
    using assms(4,6) len representsD(6) [OF assms(1) that] by (cases "j = k") simp_all
  moreover have "unat (?num ! j) = card {i. (j, i) \<in> G}" if "j \<le> bh_max_order h" for j
    using assms(5,6) len representsD(7) [OF assms(1) that] by (cases "j = k") simp_all
  ultimately show ?thesis using assms(1,7) by (simp add: represents_def)
qed

lemma heap_set_bit_correct:
  assumes "represents h F" "valid_block (bh_min_order h) (bh_max_order h) (k, i)" "(k, i) \<notin> F"
  shows "\<exists>h'. heap_set_bit k i h = Some h' \<and> same_frame h h' \<and> represents h' (insert (k, i) F)"
proof -
  note v = valid_index [OF assms(2)] and r = representsD [OF assms(1)] and row = represents_row [OF assms(1), of k]
  obtain b where b: "set_bit_c i (bh_bits h ! k) = Some b" "length b = length (bh_bits h ! k)" "\<And>j. abit b j \<longleftrightarrow> abit (bh_bits h ! k) j \<or> j = i"
    using word_set_bit_correct [OF bitmap_room [OF assms(1,2)]] by blast
  let ?n = "bh_num_free h ! k"
  have row': "{j. (k, j) \<in> insert (k, i) F} = insert i {j. (k, j) \<in> F}" by auto
  have "card {j. (k, j) \<in> F} \<le> card {..<(2 :: nat) ^ (bh_max_order h - k)}" by (rule card_mono [OF _ row(1)]) simp
  also have "\<dots> \<le> 2 ^ 30" using pow_30 [OF assms(1), of k] v by simp
  finally have "Suc (unat ?n) < 2 ^ 32" using r(7) [of k] v by simp
  then have "unat (?n + 1) = Suc (unat ?n)" by (simp add: unat_word_ariths)
  also have "\<dots> = card {j. (k, j) \<in> insert (k, i) F}" unfolding row' using r(7) [of k] v row(2) assms(3) by simp
  finally have n: "unat (?n + 1) = card {j. (k, j) \<in> insert (k, i) F}" .
  have "represents (h\<lparr>bh_bits := (bh_bits h)[k := b], bh_num_free := (bh_num_free h)[k := ?n + 1]\<rparr>) (insert (k, i) F)"
    using v b r(6,8) assms(2) by (intro represents_update [OF assms(1) _ _ _ n]) auto
  moreover have "heap_set_bit k i h = Some (h\<lparr>bh_bits := (bh_bits h)[k := b], bh_num_free := (bh_num_free h)[k := ?n + 1]\<rparr>)"
    using v r(1,2) b(1) by (simp add: heap_set_bit_def)
  ultimately show ?thesis by (simp add: same_frame_def)
qed

lemma heap_clear_bit_correct:
  assumes "represents h F" "(k, i) \<in> F"
  shows "\<exists>h'. heap_clear_bit k i h = Some h' \<and> same_frame h h' \<and> represents h' (F - {(k, i)})"
proof -
  note r = representsD [OF assms(1)] and row = represents_row [OF assms(1), of k]
  note valid = r(8) [OF assms(2)]
  note v = valid_index [OF valid]
  obtain b where b: "clear_bit_c i (bh_bits h ! k) = Some b" "length b = length (bh_bits h ! k)" "\<And>j. abit b j \<longleftrightarrow> abit (bh_bits h ! k) j \<and> j \<noteq> i"
    using word_clear_bit_correct [OF bitmap_room [OF assms(1) valid]] by blast
  let ?n = "bh_num_free h ! k"
  have row': "{j. (k, j) \<in> F - {(k, i)}} = {j. (k, j) \<in> F} - {i}" by auto
  have card: "card {j. (k, j) \<in> F - {(k, i)}} = unat ?n - 1"
    unfolding row' using r(7) [of k] v row(2) assms(2) by (subst card_Diff_singleton) auto
  have "0 < unat ?n" using r(7) [of k] v row(2) assms(2) by (auto simp: card_gt_0_iff)
  then have "?n \<noteq> 0" by auto
  then have n: "unat (?n - 1) = card {j. (k, j) \<in> F - {(k, i)}}" unfolding card by (rule unat_minus_one)
  have "represents (h\<lparr>bh_bits := (bh_bits h)[k := b], bh_num_free := (bh_num_free h)[k := ?n - 1]\<rparr>) (F - {(k, i)})"
    using v b r(6,8) by (intro represents_update [OF assms(1) _ _ _ n]) auto
  moreover have "heap_clear_bit k i h = Some (h\<lparr>bh_bits := (bh_bits h)[k := b], bh_num_free := (bh_num_free h)[k := ?n - 1]\<rparr>)"
    using v r(1,2) b(1) by (simp add: heap_clear_bit_def)
  ultimately show ?thesis by (simp add: same_frame_def)
qed

text \<open>A heap is determined by its free blocks.\<close>

lemma represents_unique:
  assumes "represents h F" "represents h' F" "same_frame h h'"
  shows "h' = h"
proof -
  note r = representsD [OF assms(1)] and r' = representsD [OF assms(2)]
  have frame: "bh_max_order h' = bh_max_order h" "bh_min_order h' = bh_min_order h" "symmetric_heap h' = symmetric_heap h"
    "symmetric_heap_hashtable h' = symmetric_heap_hashtable h" using assms(3) by (simp_all add: same_frame_def)
  have "bh_num_free h' = bh_num_free h"
  proof (rule nth_equalityI)
    fix k assume "k < length (bh_num_free h')"
    then show "bh_num_free h' ! k = bh_num_free h ! k" using r(7) [of k] r'(7) [of k] r'(2) frame by (simp add: word_unat_eq_iff)
  qed (use r(2) r'(2) frame in simp)
  moreover have "bh_bits h' = bh_bits h"
  proof (rule nth_equalityI)
    fix k assume "k < length (bh_bits h')"
    then have k: "k \<le> bh_max_order h" using r'(1) frame by simp
    have len: "length (bh_bits h' ! k) = length (bh_bits h ! k)" using assms(1,2) k frame by (simp add: represents_def)
    show "bh_bits h' ! k = bh_bits h ! k"
    proof (rule nth_equalityI [OF len])
      fix p assume p: "p < length (bh_bits h' ! k)"
      show "bh_bits h' ! k ! p = bh_bits h ! k ! p"
      proof (rule bit_word_eqI)
        fix n assume "n < LENGTH(64)"
        then show "bit (bh_bits h' ! k ! p) n = bit (bh_bits h ! k ! p) n"
          using abit_word [of n p] p len r(6) [OF k] r'(6) [of k] k frame by simp
      qed
    qed
  qed (use r(1) r'(1) frame in simp)
  ultimately show ?thesis using frame by simp
qed

section \<open>Searching, splitting, merging\<close>

lemma index_word:
  assumes "represents h F" "valid_block (bh_min_order h) (bh_max_order h) (k, i)"
  shows "i < 2 ^ 30" "unat (of_nat i :: 32 word) = i" "unat (of_nat i XOR 1 :: 32 word) = buddy i" "sint (of_nat i XOR 1 :: 32 word) = int (buddy i)"
proof -
  note v = valid_index [OF assms(2)]
  show i: "i < 2 ^ 30" using pow_30 [OF assms(1), of k] v by simp
  then show u: "unat (of_nat i :: 32 word) = i" by (simp add: unat_of_nat)
  then show b: "unat (of_nat i XOR 1 :: 32 word) = buddy i" using xor_1_nat [of i] by (simp add: unsigned_xor_eq)
  have "buddy i < 2 ^ 31" using i by (simp add: buddy_def less_imp_diff_less)
  then have lt: "uint (of_nat i XOR 1 :: 32 word) < 2 ^ 31" using b by (simp add: uint_nat)
  have "sint (of_nat i XOR 1 :: 32 word) = signed_take_bit 31 (uint (of_nat i XOR 1 :: 32 word))" by (simp add: sint_uint)
  also have "\<dots> = uint (of_nat i XOR 1 :: 32 word)" using lt by (intro signed_take_bit_int_eq_self) (auto intro: order_trans [OF _ uint_ge_0])
  also have "\<dots> = int (buddy i)" using b by (simp add: uint_nat)
  finally show "sint (of_nat i XOR 1 :: 32 word) = int (buddy i)" .
qed

lemma row_search:
  assumes "represents h F" "bh_min_order h \<le> k" "k \<le> bh_max_order h"
  shows "\<exists>seg. find_next_bit (bh_bits h ! k) (2 ^ (bh_max_order h - k)) 0 = Some seg \<and>
    (if seg < 2 ^ (bh_max_order h - k) then (k, seg) \<in> F else \<forall>i. (k, i) \<notin> F)"
proof -
  note r = representsD [OF assms(1)]
  let ?m = "2 ^ (bh_max_order h - k) :: nat"
  have "?m \<le> 64 * length (bh_bits h ! k)" using r(5) [OF assms(2,3)] by simp
  then obtain seg where seg: "find_next_bit (bh_bits h ! k) ?m 0 = Some seg" "first_bit (abit (bh_bits h ! k)) 0 ?m seg"
    using find_next_bit_correct [of ?m "bh_bits h ! k" 0] by auto
  have "(k, i) \<notin> F" if "\<not> seg < ?m" for i
    using seg(2) that r(6) [OF assms(3), of i] represents_row(1) [OF assms(1), of k] by (fastforce simp: first_bit_def)
  then show ?thesis using seg r(6) [OF assms(3), of seg] by (auto simp: first_bit_def)
qed

lemma buddy_search_correct:
  assumes "represents h F" "\<And>k. k \<in> set ks \<Longrightarrow> bh_min_order h \<le> k \<and> k \<le> bh_max_order h"
  shows "(buddy_search h ks = Some None \<and> (\<forall>k \<in> set ks. \<forall>i. (k, i) \<notin> F)) \<or>
    (\<exists>k i. buddy_search h ks = Some (Some (k, of_nat i)) \<and> k \<in> set ks \<and> (k, i) \<in> F)"
  using assms(2)
proof (induction ks)
  case (Cons k ks)
  note r = representsD [OF assms(1)]
  have k: "bh_min_order h \<le> k" "k \<le> bh_max_order h" using Cons.prems [of k] by simp_all
  have rest: "\<not> bh_max_order h - k \<ge> 31" using r(4) k by simp
  obtain seg where seg: "find_next_bit (bh_bits h ! k) (2 ^ (bh_max_order h - k)) 0 = Some seg"
    "if seg < 2 ^ (bh_max_order h - k) then (k, seg) \<in> F else \<forall>i. (k, i) \<notin> F"
    using row_search [OF assms(1) k] by blast
  have num: "aget (bh_num_free h) (int k) = Some (bh_num_free h ! k)" "aget (bh_bits h) (int k) = Some (bh_bits h ! k)" using r(1,2) k by simp_all
  have zero: "(k, i) \<notin> F" if "bh_num_free h ! k = 0" for i
  proof -
    have "card {i. (k, i) \<in> F} = 0" using r(7) [OF k(2)] that by simp
    then show ?thesis using represents_row(2) [OF assms(1), of k] by auto
  qed
  have "(buddy_search h ks = Some None \<and> (\<forall>k \<in> set ks. \<forall>i. (k, i) \<notin> F)) \<or>
    (\<exists>k i. buddy_search h ks = Some (Some (k, of_nat i)) \<and> k \<in> set ks \<and> (k, i) \<in> F)" using Cons by simp
  moreover have "buddy_search h (k # ks) = (if bh_num_free h ! k \<noteq> 0 \<and> seg < 2 ^ (bh_max_order h - k) then Some (Some (k, of_nat seg)) else buddy_search h ks)"
    using rest num seg(1) by (simp add: Let_def)
  ultimately show ?case using zero seg(2) by (cases "bh_num_free h ! k \<noteq> 0 \<and> seg < 2 ^ (bh_max_order h - k)") (auto split: if_splits)
qed simp

lemma buddy_split_correct:
  assumes "represents h F" "buddies_but (bh_min_order h) (bh_max_order h) F A (Suc k, i)" "bh_min_order h \<le> k"
  shows "\<exists>h' F'. buddy_split k (of_nat i, h) = Some (of_nat (2 * i), h') \<and> same_frame h h' \<and> represents h' F' \<and>
    buddies_but (bh_min_order h) (bh_max_order h) F' A (k, 2 * i)"
proof -
  note next_hole = buddies_split [OF assms(2,3)]
  have valid: "valid_block (bh_min_order h) (bh_max_order h) (k, 2 * i)" "valid_block (bh_min_order h) (bh_max_order h) (k, Suc (2 * i))"
    using next_hole by (auto simp: buddies_but_def tiling_def)
  have fresh: "(k, Suc (2 * i)) \<notin> F"
  proof
    assume "(k, Suc (2 * i)) \<in> F"
    moreover have "in_block (Suc k, i) (Suc (2 * i) * 2 ^ k)" unfolding in_block_halves by (intro disjI2 in_block_start)
    ultimately show False
      using tiling_unique [of _ _ "insert (Suc k, i) (F \<union> A)" "(k, Suc (2 * i))" "(Suc k, i)"] assms(2) in_block_start
      unfolding buddies_but_def by (metis Pair_inject insertI1 insertI2 Un_iff n_not_Suc_n)
  qed
  note w = index_word [OF assms(1) valid(1)]
  have seg: "push_bit 1 (of_nat i :: 32 word) = of_nat (2 * i)" by (simp add: push_bit_eq_mult)
  have "buddy_split k (of_nat i, h) = map_option (Pair (of_nat (2 * i))) (heap_set_bit k (Suc (2 * i)) h)"
    using w(3) unfolding buddy_split_def prod.case Let_def seg by simp
  then show ?thesis using heap_set_bit_correct [OF assms(1) valid(2) fresh] next_hole by auto
qed

lemma buddy_splits_correct:
  assumes "represents h F" "buddies_but (bh_min_order h) (bh_max_order h) F A (k, i)" "order \<le> k" "bh_min_order h \<le> order"
  shows "\<exists>h' F' j. ofold buddy_split (rev [order..<k]) (of_nat i, h) = Some (of_nat j, h') \<and> same_frame h h' \<and> represents h' F' \<and>
    buddies_but (bh_min_order h) (bh_max_order h) F' A (order, j)"
  using assms
proof (induction k arbitrary: h F i)
  case (Suc k)
  show ?case
  proof (cases "order = Suc k")
    case False
    then have le: "order \<le> k" using Suc.prems(3) by simp
    obtain h' F' where h': "buddy_split k (of_nat i, h) = Some (of_nat (2 * i), h')" "same_frame h h'" "represents h' F'"
      "buddies_but (bh_min_order h) (bh_max_order h) F' A (k, 2 * i)"
      using buddy_split_correct [OF Suc.prems(1,2)] le Suc.prems(4) by auto
    have frame: "bh_min_order h' = bh_min_order h" "bh_max_order h' = bh_max_order h" using h'(2) by (simp_all add: same_frame_def)
    obtain h'' F'' j where "ofold buddy_split (rev [order..<k]) (of_nat (2 * i), h') = Some (of_nat j, h'')" "same_frame h' h''" "represents h'' F''"
      "buddies_but (bh_min_order h) (bh_max_order h) F'' A (order, j)"
      using Suc.IH [OF h'(3), of "2 * i"] h'(4) le Suc.prems(4) unfolding frame by blast
    then show ?thesis using h'(1,2) le same_frame_trans [OF h'(2)] by auto
  qed (use Suc.prems in auto)
qed auto

lemma buddy_alloc_seg_correct:
  assumes "represents h F" "buddies (bh_min_order h) (bh_max_order h) F A" "bh_min_order h \<le> order" "order \<le> bh_max_order h" "order < 32"
  shows "(buddy_alloc_seg order h = Some (None, h) \<and> (\<forall>k i. order \<le> k \<longrightarrow> (k, i) \<notin> F)) \<or>
    (\<exists>i h' F'. buddy_alloc_seg order h = Some (Some (push_bit order (of_nat i)), h') \<and> same_frame h h' \<and> represents h' F' \<and>
       buddies_but (bh_min_order h) (bh_max_order h) F' A (order, i) \<and> (\<exists>(k, j) \<in> F. order \<le> k))"
proof -
  let ?ks = "[order..<Suc (bh_max_order h)]"
  have "(buddy_search h ?ks = Some None \<and> (\<forall>k \<in> set ?ks. \<forall>i. (k, i) \<notin> F)) \<or>
    (\<exists>k i. buddy_search h ?ks = Some (Some (k, of_nat i)) \<and> k \<in> set ?ks \<and> (k, i) \<in> F)"
    using assms(3) by (intro buddy_search_correct [OF assms(1)]) auto
  then show ?thesis
  proof
    assume none: "buddy_search h ?ks = Some None \<and> (\<forall>k \<in> set ?ks. \<forall>i. (k, i) \<notin> F)"
    then have "(k, i) \<notin> F" if "order \<le> k" for k i
      using that representsD(8) [OF assms(1), of "(k, i)"] by (auto simp: valid_block_def)
    then show ?thesis using none by (simp add: buddy_alloc_seg_def del: upt_Suc)
  next
    assume "\<exists>k i. buddy_search h ?ks = Some (Some (k, of_nat i)) \<and> k \<in> set ?ks \<and> (k, i) \<in> F"
    then obtain k i where k: "buddy_search h ?ks = Some (Some (k, of_nat i))" "order \<le> k" "(k, i) \<in> F" by auto
    have i: "unat (of_nat i :: 32 word) = i" using index_word(2) [OF assms(1)] representsD(8) [OF assms(1) k(3)] by blast
    obtain h1 where h1: "heap_clear_bit k i h = Some h1" "same_frame h h1" "represents h1 (F - {(k, i)})"
      using heap_clear_bit_correct [OF assms(1) k(3)] by blast
    have frame: "bh_min_order h1 = bh_min_order h" "bh_max_order h1 = bh_max_order h" using h1(2) by (simp_all add: same_frame_def)
    obtain h2 F2 j where h2: "ofold buddy_split (rev [order..<k]) (of_nat i, h1) = Some (of_nat j, h2)" "same_frame h1 h2" "represents h2 F2"
      "buddies_but (bh_min_order h) (bh_max_order h) F2 A (order, j)"
      using buddy_splits_correct [OF h1(3), where k = k and i = i and A = A and order = order] buddies_take [OF assms(2) k(3)] k(2) assms(3) unfolding frame by blast
    have "buddy_alloc_seg order h = Some (Some (push_bit order (of_nat j)), h2)"
      unfolding buddy_alloc_seg_def k(1) using h1(1) h2(1) i assms(5) by simp
    then show ?thesis using h2 same_frame_trans [OF h1(2) h2(2)] k(2,3) by blast
  qed
qed

lemma buddy_merge_correct:
  assumes "represents h F" "buddies_but (bh_min_order h) (bh_max_order h) F A (k, i)"
  shows "\<exists>h' F'. buddy_merge [k..<Suc (bh_max_order h)] (of_nat i) h = Some h' \<and> same_frame h h' \<and> represents h' F' \<and>
    buddies (bh_min_order h) (bh_max_order h) F' A"
  using assms
proof (induction "bh_max_order h - k" arbitrary: h F k i)
  case hyps: (0 h k F i)
  have valid: "valid_block (bh_min_order h) (bh_max_order h) (k, i)" using hyps(3) by (auto simp: buddies_but_def tiling_def)
  then have k: "k = bh_max_order h" "i = 0" using hyps(1) by (simp_all add: valid_block_def)
  note r = representsD [OF hyps(2)] and w = index_word [OF hyps(2) valid]
  have bud: "buddy i = 1" by (simp add: k(2) buddy_def)
  have out: "(k, 1) \<notin> F" using r(8) [of "(k, 1)"] by (auto simp: k(1) valid_block_def)
  have "length (bh_bits h ! k) = 1" using r(5) [of k] r(3) k(1) by simp
  then have test: "test_bit_c (sint (of_nat i XOR 1 :: 32 word)) (bh_bits h ! k) = Some False"
    unfolding w(4) using word_test_bit_correct [of "buddy i" "bh_bits h ! k"] bud r(6) [of k 1] k(1) out by simp
  have "(k, i) \<notin> F" using hyps(3) by (simp add: buddies_but_def)
  with heap_set_bit_correct [OF hyps(2) valid] obtain h' where h': "heap_set_bit k i h = Some h'" "same_frame h h'" "represents h' (insert (k, i) F)" by blast
  have "buddies (bh_min_order h) (bh_max_order h) (insert (k, i) F) A" using hyps(3) k(1) by (intro buddies_put) simp_all
  moreover have "buddy_merge [k..<Suc (bh_max_order h)] (of_nat i) h = Some h'"
    using test w(2) h'(1) r(1) k(1) by (simp add: aget_def)
  ultimately show ?case using h' by blast
next
  case hyps: (Suc d h k F i)
  have valid: "valid_block (bh_min_order h) (bh_max_order h) (k, i)" using hyps(4) by (auto simp: buddies_but_def tiling_def)
  have k: "k < bh_max_order h" using hyps(2) by simp
  note r = representsD [OF hyps(3)] and w = index_word [OF hyps(3) valid]
  have "buddy i < 2 ^ Suc (bh_max_order h - Suc k)" unfolding buddy_bound using valid k by (simp add: valid_block_def Suc_diff_Suc)
  then have bvalid: "valid_block (bh_min_order h) (bh_max_order h) (k, buddy i)" using valid k by (simp add: valid_block_def Suc_diff_Suc)
  have test: "test_bit_c (sint (of_nat i XOR 1 :: 32 word)) (bh_bits h ! k) = Some ((k, buddy i) \<in> F)"
    unfolding w(4) using word_test_bit_correct [OF bitmap_room [OF hyps(3) bvalid]] r(6) [of k] k by simp
  have upt: "[k..<Suc (bh_max_order h)] = k # [Suc k..<Suc (bh_max_order h)]" using k by (simp add: upt_conv_Cons)
  have row: "aget (bh_bits h) (int k) = Some (bh_bits h ! k)" using r(1) k by simp
  show ?case
  proof (cases "(k, buddy i) \<in> F")
    case True
    obtain h1 where h1: "heap_clear_bit k (buddy i) h = Some h1" "same_frame h h1" "represents h1 (F - {(k, buddy i)})"
      using heap_clear_bit_correct [OF hyps(3) True] by blast
    have frame: "bh_min_order h1 = bh_min_order h" "bh_max_order h1 = bh_max_order h" using h1(2) by (simp_all add: same_frame_def)
    have merged: "buddies_but (bh_min_order h1) (bh_max_order h1) (F - {(k, buddy i)}) A (Suc k, i div 2)"
      unfolding frame by (rule buddies_merge [OF hyps(4) True k])
    have "d = bh_max_order h1 - Suc k" using hyps(2) unfolding frame by simp
    from hyps(1) [OF this h1(3)] merged obtain h2 F2 where h2: "buddy_merge [Suc k..<Suc (bh_max_order h)] (of_nat (i div 2)) h1 = Some h2"
      "same_frame h1 h2" "represents h2 F2" "buddies (bh_min_order h) (bh_max_order h) F2 A"
      unfolding frame by blast
    have "drop_bit 1 (of_nat i :: 32 word) = of_nat (i div 2)"
      using w(1,2) by (intro word_unat_eq_iff [THEN iffD2]) (simp only: unat_half unat_of_nat, simp)
    then have "buddy_merge [k..<Suc (bh_max_order h)] (of_nat i) h = Some h2"
      unfolding upt using row test True w(3) h1(1) h2(1) by simp
    then show ?thesis using h2 same_frame_trans [OF h1(2) h2(2)] by blast
  next
    case False
    have "(k, i) \<notin> F" using hyps(4) by (simp add: buddies_but_def)
    with heap_set_bit_correct [OF hyps(3) valid] obtain h' where h': "heap_set_bit k i h = Some h'" "same_frame h h'" "represents h' (insert (k, i) F)" by blast
    have "buddies (bh_min_order h) (bh_max_order h) (insert (k, i) F) A" using hyps(4) False by (intro buddies_put) simp_all
    moreover have "buddy_merge [k..<Suc (bh_max_order h)] (of_nat i) h = Some h'"
      unfolding upt using row test False w(2) h'(1) by simp
    ultimately show ?thesis using h' by blast
  qed
qed

end
