(* ===== verification/Memheap_Alloc.thy ===== *)
theory Memheap_Alloc
  imports Memheap_Heap
begin

text \<open>
  Allocation and release on one heap of at most \<open>2 ^ 31\<close> bytes: the live blocks, recorded in the hash
  table, do not overlap; allocation succeeds exactly when a free aligned region exists and the hash
  table can grow; when it fails the heap is as it was before.
\<close>

section \<open>Live blocks\<close>

definition live :: "buddy_heap \<Rightarrow> 64 word \<Rightarrow> nat option" where
  "live h = ht_map hash_uint64 (symmetric_heap_hashtable h)"

definition block_addr :: "buddy_heap \<Rightarrow> block \<Rightarrow> 64 word" where
  "block_addr h b = symmetric_heap h + of_nat (snd b * 2 ^ fst b)"

definition heap_ok :: "buddy_heap \<Rightarrow> block set \<Rightarrow> block set \<Rightarrow> bool" where
  "heap_ok h F A \<longleftrightarrow> represents h F \<and> buddies (bh_min_order h) (bh_max_order h) F A \<and> bh_max_order h \<le> 31 \<and>
     unat (symmetric_heap h) + 2 ^ bh_max_order h \<le> 2 ^ 64 \<and> ht_wf hash_uint64 (symmetric_heap_hashtable h) \<and>
     (\<forall>p k. live h p = Some k \<longleftrightarrow> (\<exists>i. (k, i) \<in> A \<and> p = block_addr h (k, i)))"

definition heap_inv :: "buddy_heap \<Rightarrow> bool" where
  "heap_inv h \<longleftrightarrow> (\<exists>F A. heap_ok h F A)"

text \<open>The bytes of a block of order \<open>k\<close> at the address \<open>p\<close>.\<close>

definition bytes_at :: "nat \<Rightarrow> nat \<Rightarrow> nat set" where
  "bytes_at p k = {p ..< p + 2 ^ k}"

text \<open>An aligned region of order \<open>k\<close> that none of the blocks, or none of the live blocks, touches.\<close>

definition room_beside :: "buddy_heap \<Rightarrow> (64 word \<Rightarrow> nat option) \<Rightarrow> nat \<Rightarrow> bool" where
  "room_beside h blocks k \<longleftrightarrow> (\<exists>i < 2 ^ (bh_max_order h - k). \<forall>p l. blocks p = Some l \<longrightarrow>
     bytes_at (unat (symmetric_heap h) + i * 2 ^ k) k \<inter> bytes_at (unat p) l = {})"

definition has_room :: "buddy_heap \<Rightarrow> nat \<Rightarrow> bool" where
  "has_room h k \<longleftrightarrow> (\<exists>i < 2 ^ (bh_max_order h - k). \<forall>p l. live h p = Some l \<longrightarrow>
     bytes_at (unat (symmetric_heap h) + i * 2 ^ k) k \<inter> bytes_at (unat p) l = {})"

lemma has_room_beside: "has_room h k \<longleftrightarrow> room_beside h (live h) k"
  by (simp add: has_room_def room_beside_def)

definition can_insert :: "bool \<Rightarrow> buddy_heap \<Rightarrow> bool" where
  "can_insert mem h \<longleftrightarrow> mem \<or> ht_nodes (symmetric_heap_hashtable h) \<noteq> []"

lemma in_block_iff: "in_block (k, i) x \<longleftrightarrow> i * 2 ^ k \<le> x \<and> x < i * 2 ^ k + 2 ^ k"
proof
  assume "in_block (k, i) x"
  then have i: "i = x div 2 ^ k" by (simp add: in_block_def)
  show "i * 2 ^ k \<le> x \<and> x < i * 2 ^ k + 2 ^ k"
    unfolding i using div_times_less_eq_dividend [of x "2 ^ k"] dividend_less_div_times [of "2 ^ k" x] by simp
next
  assume "i * 2 ^ k \<le> x \<and> x < i * 2 ^ k + 2 ^ k"
  then have "x div 2 ^ k = i" by (intro div_nat_eqI) (simp_all add: mult.commute)
  then show "in_block (k, i) x" by (simp add: in_block_def)
qed

lemma block_in_heap:
  assumes "valid_block lo hi (k, i)"
  shows "i * 2 ^ k + 2 ^ k \<le> 2 ^ hi"
proof -
  have pos: "0 < (2 :: nat) ^ k" by simp
  then have "in_block (k, i) (i * 2 ^ k + (2 ^ k - 1))" unfolding in_block_iff by linarith
  from in_block_range [OF assms this] show ?thesis using pos by linarith
qed

lemma block_addr_unat:
  assumes "heap_ok h F A" "valid_block (bh_min_order h) (bh_max_order h) (k, i)"
  shows "unat (block_addr h (k, i)) = unat (symmetric_heap h) + i * 2 ^ k"
proof -
  have lt: "unat (symmetric_heap h) + i * 2 ^ k < 2 ^ 64"
  proof -
    have "0 < (2 :: nat) ^ k" by simp
    moreover have "unat (symmetric_heap h) + 2 ^ bh_max_order h \<le> 2 ^ 64" using assms(1) by (simp add: heap_ok_def)
    ultimately show ?thesis using block_in_heap [OF assms(2)] by linarith
  qed
  then have "unat (of_nat (i * 2 ^ k) :: 64 word) = i * 2 ^ k" by (simp add: unat_of_nat del: of_nat_mult)
  then show ?thesis using lt by (simp add: block_addr_def unat_word_ariths del: of_nat_mult)
qed

lemma allocated_valid: "heap_ok h F A \<Longrightarrow> b \<in> F \<union> A \<Longrightarrow> valid_block (bh_min_order h) (bh_max_order h) b"
  by (auto simp: heap_ok_def buddies_def tiling_def)

lemma block_addr_inj:
  assumes "heap_ok h F A" "(k, i) \<in> A" "(l, j) \<in> A" "block_addr h (k, i) = block_addr h (l, j)"
  shows "(k, i) = (l, j)"
proof -
  have "i * 2 ^ k = j * 2 ^ l"
    using block_addr_unat [OF assms(1)] allocated_valid [OF assms(1)] assms(2-4) by (metis Un_iff add_left_cancel)
  then have "in_block (l, j) (i * 2 ^ k)" by simp
  then show ?thesis
    using tiling_unique [of "bh_min_order h" "bh_max_order h" "F \<union> A" "(k, i)" "(l, j)" "i * 2 ^ k"] assms(1-3)
    unfolding heap_ok_def buddies_def by (simp only: Un_iff in_block_start simp_thms)
qed

lemma meets_bytes:
  "meets (l, j) (k, i) \<longleftrightarrow> bytes_at (b + i * 2 ^ k) k \<inter> bytes_at (b + j * 2 ^ l) l \<noteq> {}"
proof
  assume "meets (l, j) (k, i)"
  then obtain x where "in_block (l, j) x" "in_block (k, i) x" by (auto simp: meets_def)
  then have "b + x \<in> bytes_at (b + i * 2 ^ k) k \<inter> bytes_at (b + j * 2 ^ l) l" by (auto simp: in_block_iff bytes_at_def)
  then show "bytes_at (b + i * 2 ^ k) k \<inter> bytes_at (b + j * 2 ^ l) l \<noteq> {}" by blast
next
  assume "bytes_at (b + i * 2 ^ k) k \<inter> bytes_at (b + j * 2 ^ l) l \<noteq> {}"
  then obtain y where "y \<in> bytes_at (b + i * 2 ^ k) k" "y \<in> bytes_at (b + j * 2 ^ l) l" by blast
  then have "in_block (l, j) (y - b) \<and> in_block (k, i) (y - b)" by (auto simp: in_block_iff bytes_at_def)
  then show "meets (l, j) (k, i)" by (auto simp: meets_def)
qed

lemma has_room_iff:
  assumes "heap_ok h F A" "bh_min_order h \<le> k" "k \<le> bh_max_order h"
  shows "has_room h k \<longleftrightarrow> (\<exists>i. valid_block (bh_min_order h) (bh_max_order h) (k, i) \<and> (\<forall>a \<in> A. \<not> meets a (k, i)))"
proof -
  let ?b = "unat (symmetric_heap h)"
  have "(\<forall>p l. live h p = Some l \<longrightarrow> bytes_at (?b + i * 2 ^ k) k \<inter> bytes_at (unat p) l = {}) \<longleftrightarrow> (\<forall>a \<in> A. \<not> meets a (k, i))" (is "?L \<longleftrightarrow> ?R") for i
  proof
    assume L: ?L
    show ?R
    proof
      fix a assume a: "a \<in> A"
      obtain l j where lj: "a = (l, j)" by (cases a)
      have "live h (block_addr h (l, j)) = Some l" using assms(1) a lj by (auto simp: heap_ok_def)
      with L have "bytes_at (?b + i * 2 ^ k) k \<inter> bytes_at (unat (block_addr h (l, j))) l = {}" by blast
      moreover have "unat (block_addr h (l, j)) = ?b + j * 2 ^ l" using block_addr_unat [OF assms(1)] allocated_valid [OF assms(1), of a] a lj by simp
      ultimately show "\<not> meets a (k, i)" using meets_bytes lj by metis
    qed
  next
    assume R: ?R
    show ?L
    proof (intro allI impI)
      fix p l assume "live h p = Some l"
      then obtain j where j: "(l, j) \<in> A" "p = block_addr h (l, j)" using assms(1) by (auto simp: heap_ok_def)
      then have "unat p = ?b + j * 2 ^ l" using block_addr_unat [OF assms(1)] allocated_valid [OF assms(1), of "(l, j)"] by simp
      then show "bytes_at (?b + i * 2 ^ k) k \<inter> bytes_at (unat p) l = {}" using R j(1) meets_bytes by metis
    qed
  qed
  then show ?thesis using assms(2,3) by (auto simp: has_room_def valid_block_def)
qed

lemma room_iff_free:
  assumes "heap_ok h F A" "bh_min_order h \<le> k" "k \<le> bh_max_order h"
  shows "has_room h k \<longleftrightarrow> (\<exists>(q, j) \<in> F. k \<le> q)"
proof
  assume "has_room h k"
  then obtain i where "valid_block (bh_min_order h) (bh_max_order h) (k, i)" "\<forall>a \<in> A. \<not> meets a (k, i)" unfolding has_room_iff [OF assms] by blast
  then show "\<exists>(q, j) \<in> F. k \<le> q" using free_cover [of _ _ F A k i] assms(1) by (fastforce simp: heap_ok_def)
next
  assume "\<exists>(q, j) \<in> F. k \<le> q"
  then obtain q j where q: "(q, j) \<in> F" "k \<le> q" by blast
  have t: "tiling (bh_min_order h) (bh_max_order h) (F \<union> A)" "F \<inter> A = {}" using assms(1) by (simp_all add: heap_ok_def buddies_def)
  have v: "q \<le> bh_max_order h" "j < 2 ^ (bh_max_order h - q)" using allocated_valid [OF assms(1), of "(q, j)"] q(1) by (simp_all add: valid_block_def)
  let ?i = "j * 2 ^ (q - k)"
  have start: "?i * 2 ^ k = j * 2 ^ q" using q(2) by (simp flip: power_add)
  have "?i < 2 ^ (bh_max_order h - q) * 2 ^ (q - k)" using v(2) by simp
  also have "\<dots> = 2 ^ (bh_max_order h - k)" using v(1) q(2) by (simp flip: power_add)
  finally have "valid_block (bh_min_order h) (bh_max_order h) (k, ?i)" using assms(2,3) by (simp add: valid_block_def)
  moreover have "\<not> meets a (k, ?i)" if a: "a \<in> A" for a
  proof
    assume "meets a (k, ?i)"
    then obtain x where x: "in_block a x" "in_block (k, ?i) x" by (auto simp: meets_def)
    have "in_block (q, j) (?i * 2 ^ k)" unfolding start by simp
    from block_nested [OF q(2) this in_block_start x(2)] have "a = (q, j)" using tiling_unique [OF t(1) _ _ x(1)] a q(1) by blast
    then show False using t(2) a q(1) by blast
  qed
  ultimately show "has_room h k" unfolding has_room_iff [OF assms] by blast
qed

section \<open>Allocation\<close>

lemma represents_ht [simp]: "represents (h\<lparr>symmetric_heap_hashtable := ht\<rparr>) F \<longleftrightarrow> represents h F"
  by (simp add: represents_def)

lemma offset_words:
  assumes "valid_block lo hi (k, i)" "hi \<le> 31"
  shows "push_bit k (of_nat i :: 32 word) = of_nat (i * 2 ^ k)" "ucast (of_nat (i * 2 ^ k) :: 32 word) = (of_nat (i * 2 ^ k) :: 64 word)"
    "ucast (of_nat (i * 2 ^ k) :: 64 word) = (of_nat (i * 2 ^ k) :: 32 word)" "drop_bit k (of_nat (i * 2 ^ k) :: 32 word) = of_nat i"
proof -
  show 1: "push_bit k (of_nat i :: 32 word) = of_nat (i * 2 ^ k)" by (simp add: push_bit_eq_mult)
  have "i * 2 ^ k < 2 ^ hi" using block_in_heap [OF assms(1)] zero_less_power [of "2 :: nat" k] by linarith
  also have "(2 :: nat) ^ hi \<le> 2 ^ 31" using assms(2) by (intro power_increasing) simp_all
  finally have lt: "i * 2 ^ k < 2 ^ 31" .
  then have u: "unat (of_nat (i * 2 ^ k) :: 32 word) = i * 2 ^ k" by (simp add: unat_of_nat del: of_nat_mult)
  have u': "unat (of_nat (i * 2 ^ k) :: 64 word) = i * 2 ^ k" using lt by (simp add: unat_of_nat del: of_nat_mult)
  show "ucast (of_nat (i * 2 ^ k) :: 32 word) = (of_nat (i * 2 ^ k) :: 64 word)"
    using u u' lt by (intro word_unat_eq_iff [THEN iffD2]) (simp add: unsigned_ucast_eq take_bit_nat_eq_self del: of_nat_mult)
  show "ucast (of_nat (i * 2 ^ k) :: 64 word) = (of_nat (i * 2 ^ k) :: 32 word)"
    using u u' lt by (intro word_unat_eq_iff [THEN iffD2]) (simp add: unsigned_ucast_eq take_bit_nat_eq_self del: of_nat_mult)
  have "i \<le> i * 2 ^ k" by simp
  then have "i < 2 ^ 31" using lt by (rule le_less_trans)
  then have "unat (of_nat i :: 32 word) = i" by (simp add: unat_of_nat)
  moreover have "unat (drop_bit k (of_nat (i * 2 ^ k) :: 32 word)) = i * 2 ^ k div 2 ^ k"
    by (subst unat_drop_bit_eq) (simp only: u drop_bit_eq_div)
  ultimately show "drop_bit k (of_nat (i * 2 ^ k) :: 32 word) = of_nat i" by (intro word_unat_eq_iff [THEN iffD2]) simp
qed

text \<open>The bookkeeping around one block: with the block allocated, and with it free again.\<close>

lemma heap_ok_insert:
  assumes "heap_ok h F A" "represents h' G" "same_frame h h'" "buddies_but (bh_min_order h) (bh_max_order h) G A (k, i)"
    "ht_wf hash_uint64 ht" "ht_map hash_uint64 ht = (live h)(block_addr h (k, i) \<mapsto> k)"
  shows "heap_ok (h'\<lparr>symmetric_heap_hashtable := ht\<rparr>) G (insert (k, i) A)" "live h (block_addr h (k, i)) = None" "(k, i) \<notin> A"
proof -
  have frame: "bh_max_order h' = bh_max_order h" "bh_min_order h' = bh_min_order h" "symmetric_heap h' = symmetric_heap h"
    using assms(3) by (simp_all add: same_frame_def)
  have t: "tiling (bh_min_order h) (bh_max_order h) (insert (k, i) (G \<union> A))" "(k, i) \<notin> A" using assms(4) by (simp_all add: buddies_but_def)
  have valid: "valid_block (bh_min_order h) (bh_max_order h) b" if "b \<in> insert (k, i) A" for b using t(1) that by (auto simp: tiling_def)
  have live: "live h p = Some l \<longleftrightarrow> (\<exists>j. (l, j) \<in> A \<and> p = block_addr h (l, j))" for p l using assms(1) by (simp add: heap_ok_def)
  have other: "block_addr h (l, j) \<noteq> block_addr h (k, i)" if lj: "(l, j) \<in> A" for l j
  proof
    assume "block_addr h (l, j) = block_addr h (k, i)"
    then have "j * 2 ^ l = i * 2 ^ k" using block_addr_unat [OF assms(1)] valid lj by (metis add_left_cancel insertI1 insertI2)
    then have "in_block (k, i) (j * 2 ^ l)" by simp
    then have "(l, j) = (k, i)" using tiling_unique [OF t(1), of "(l, j)" "(k, i)"] lj in_block_start by blast
    then show False using lj t(2) by blast
  qed
  show none: "live h (block_addr h (k, i)) = None"
  proof (cases "live h (block_addr h (k, i))")
    case (Some l)
    then show ?thesis using live other by metis
  qed
  show "(k, i) \<notin> A" by (rule t(2))
  have "((live h)(block_addr h (k, i) \<mapsto> k)) p = Some l \<longleftrightarrow> (\<exists>j. (l, j) \<in> insert (k, i) A \<and> p = block_addr h (l, j))" for p l
  proof (cases "p = block_addr h (k, i)")
    case True
    then show ?thesis using other by (metis Pair_inject fun_upd_same insert_iff option.inject)
  qed (use live in auto)
  moreover have "buddies (bh_min_order h) (bh_max_order h) G (insert (k, i) A)" by (rule buddies_give [OF assms(4)])
  ultimately show "heap_ok (h'\<lparr>symmetric_heap_hashtable := ht\<rparr>) G (insert (k, i) A)"
    using assms(1,2,5,6) frame by (simp add: heap_ok_def live_def block_addr_def)
qed

lemma do_alloc_correct:
  assumes ok: "heap_ok h F A" and k: "k = max order (bh_min_order h)"
  shows "if k \<le> bh_max_order h \<and> has_room h k \<and> can_insert mem h
    then \<exists>i h' F'. do_alloc mem order h = Some (OSHMEM_SUCCESS, block_addr h (k, i), h') \<and> heap_ok h' F' (insert (k, i) A) \<and> (k, i) \<notin> A \<and>
      live h (block_addr h (k, i)) = None \<and> live h' = (live h)(block_addr h (k, i) \<mapsto> k) \<and>
      symmetric_heap h' = symmetric_heap h \<and> bh_max_order h' = bh_max_order h \<and> bh_min_order h' = bh_min_order h
    else do_alloc mem order h = Some (OSHMEM_ERROR, 0, h)"
proof (cases "k \<le> bh_max_order h")
  case False
  then have "do_alloc mem order h = Some (OSHMEM_ERROR, 0, h)" unfolding do_alloc_def Let_def k [symmetric] by simp
  then show ?thesis using False by simp
next
  case True
  note parts = ok [unfolded heap_ok_def]
  have r: "represents h F" and b: "buddies (bh_min_order h) (bh_max_order h) F A" and m: "bh_max_order h \<le> 31"
    and ht: "ht_wf hash_uint64 (symmetric_heap_hashtable h)" using parts by simp_all
  have lo: "bh_min_order h \<le> k" using k by simp
  have start: "do_alloc mem order h = do {
        (seg, heap) \<leftarrow> buddy_alloc_seg k h;
        case seg of None \<Rightarrow> Some (OSHMEM_ERROR, 0, heap)
        | Some offset \<Rightarrow> do {
            let addr = symmetric_heap heap + ucast offset;
            (rc, ht) \<leftarrow> set_value hash_uint64 mem (symmetric_heap_hashtable heap) addr k;
            let heap = heap\<lparr>symmetric_heap_hashtable := ht\<rparr>;
            if rc \<noteq> OPAL_SUCCESS then do {
              heap \<leftarrow> buddy_free_seg offset k heap;
              Some (OSHMEM_ERROR, 0, heap)
            } else Some (OSHMEM_SUCCESS, addr, heap)
          }
      }"
    using True unfolding do_alloc_def opal_hash_table_set_value_uint64_def Let_def k [symmetric] by simp
  have "k < 32" using m True by simp
  from buddy_alloc_seg_correct [OF r b lo True this]
  consider "buddy_alloc_seg k h = Some (None, h)" "\<forall>q i. k \<le> q \<longrightarrow> (q, i) \<notin> F"
    | i h1 G where "buddy_alloc_seg k h = Some (Some (push_bit k (of_nat i)), h1)" "same_frame h h1" "represents h1 G"
      "buddies_but (bh_min_order h) (bh_max_order h) G A (k, i)" "\<exists>(q, j) \<in> F. k \<le> q" by blast
  then show ?thesis
  proof cases
    case 1
    then have "\<not> has_room h k" unfolding room_iff_free [OF ok lo True] by auto
    moreover have "do_alloc mem order h = Some (OSHMEM_ERROR, 0, h)" unfolding start 1(1) by simp
    ultimately show ?thesis by simp
  next
    case (2 i h1 G)
    have room: "has_room h k" unfolding room_iff_free [OF ok lo True] by (rule 2(5))
    have valid: "valid_block (bh_min_order h) (bh_max_order h) (k, i)" using 2(4) by (auto simp: buddies_but_def tiling_def)
    note w = offset_words [OF valid m]
    have frame: "bh_max_order h1 = bh_max_order h" "bh_min_order h1 = bh_min_order h" "symmetric_heap h1 = symmetric_heap h"
      "symmetric_heap_hashtable h1 = symmetric_heap_hashtable h" using 2(2) by (simp_all add: same_frame_def)
    let ?p = "block_addr h (k, i)"
    have addr: "symmetric_heap h1 + ucast (of_nat (i * 2 ^ k) :: 32 word) = ?p" unfolding w(2) frame by (simp add: block_addr_def)
    show ?thesis
    proof (cases "can_insert mem h")
      case ins: True
      then obtain ht' where ht': "set_value hash_uint64 mem (symmetric_heap_hashtable h1) ?p k = Some (OPAL_SUCCESS, ht')" "ht_wf hash_uint64 ht'"
        "ht_map hash_uint64 ht' = (live h)(?p \<mapsto> k)"
        using u64.set_value_correct [OF ht, of mem ?p k] unfolding can_insert_def live_def frame by blast
      note new = heap_ok_insert [OF ok 2(3,2,4) ht'(2,3)]
      have "do_alloc mem order h = Some (OSHMEM_SUCCESS, ?p, h1\<lparr>symmetric_heap_hashtable := ht'\<rparr>)"
        unfolding start 2(1) w(1) using addr ht'(1) by (simp add: Let_def)
      then show ?thesis using new True room ins ht'(3) frame by (auto simp: live_def)
    next
      case no: False
      have "ht_map hash_uint64 (symmetric_heap_hashtable h) ?p = None"
      proof -
        obtain ht' where "ht_wf hash_uint64 ht'" "ht_map hash_uint64 ht' = (live h)(?p \<mapsto> k)"
          using u64.set_value_correct [OF ht, of True ?p k] unfolding live_def by blast
        from heap_ok_insert(2) [OF ok 2(3,2,4) this] show ?thesis by (simp add: live_def)
      qed
      with no have set: "set_value hash_uint64 mem (symmetric_heap_hashtable h1) ?p k = Some (OPAL_ERR_OUT_OF_RESOURCE, symmetric_heap_hashtable h)"
        using u64.set_value_no_memory [OF ht] frame by (simp add: can_insert_def)
      obtain h2 F2 where h2: "buddy_merge [k..<Suc (bh_max_order h1)] (of_nat i) h1 = Some h2" "same_frame h1 h2" "represents h2 F2"
        "buddies (bh_min_order h) (bh_max_order h) F2 A"
        using buddy_merge_correct [OF 2(3), of A k i] 2(4) unfolding frame by blast
      have "F2 = F" by (rule free_blocks_unique [OF h2(4) b])
      then have "h2 = h" using represents_unique [OF r] h2(3) same_frame_trans [OF 2(2) h2(2)] by blast
      moreover have "buddy_free_seg (of_nat (i * 2 ^ k)) k h1 = Some h2" using h2(1) w(4) m True by (simp add: buddy_free_seg_def del: of_nat_mult)
      moreover have "h1\<lparr>symmetric_heap_hashtable := symmetric_heap_hashtable h\<rparr> = h1" using frame(4) by simp
      ultimately have "do_alloc mem order h = Some (OSHMEM_ERROR, 0, h)"
        unfolding start 2(1) w(1) using addr set by (simp add: Let_def OPAL_ERR_OUT_OF_RESOURCE_def OPAL_SUCCESS_def del: of_nat_mult)
      then show ?thesis using no by simp
    qed
  qed
qed

section \<open>Release\<close>

lemma do_free_correct:
  assumes ok: "heap_ok h F A"
  shows "case live h p of None \<Rightarrow> do_free p h = Some (OSHMEM_ERROR, h)
    | Some k \<Rightarrow> \<exists>i h' F'. (k, i) \<in> A \<and> p = block_addr h (k, i) \<and> do_free p h = Some (OSHMEM_SUCCESS, h') \<and> heap_ok h' F' (A - {(k, i)}) \<and>
        live h' = (live h)(p := None) \<and> symmetric_heap h' = symmetric_heap h \<and> bh_max_order h' = bh_max_order h \<and> bh_min_order h' = bh_min_order h \<and>
        ht_nodes (symmetric_heap_hashtable h') \<noteq> []"
proof -
  have r: "represents h F" and b: "buddies (bh_min_order h) (bh_max_order h) F A" and m: "bh_max_order h \<le> 31"
    and ht: "ht_wf hash_uint64 (symmetric_heap_hashtable h)" using ok by (simp_all add: heap_ok_def)
  note get = u64.get_value_correct [OF ht, of p, folded opal_hash_table_get_value_uint64_def, folded live_def]
  show ?thesis
  proof (cases "live h p")
    case None
    then show ?thesis using get by (simp add: do_free_def live_def)
  next
    case (Some k)
    then obtain i where i: "(k, i) \<in> A" "p = block_addr h (k, i)" using ok by (auto simp: heap_ok_def)
    have valid: "valid_block (bh_min_order h) (bh_max_order h) (k, i)" using allocated_valid [OF ok] i(1) by blast
    note w = offset_words [OF valid m]
    have off: "ucast (p - symmetric_heap h) = (of_nat (i * 2 ^ k) :: 32 word)" using w(3) by (simp add: i(2) block_addr_def)
    obtain h1 F1 where h1: "buddy_merge [k..<Suc (bh_max_order h)] (of_nat i) h = Some h1" "same_frame h h1" "represents h1 F1"
      "buddies (bh_min_order h) (bh_max_order h) F1 (A - {(k, i)})"
      using buddy_merge_correct [OF r buddies_release [OF b i(1)]] by blast
    have frame: "bh_max_order h1 = bh_max_order h" "bh_min_order h1 = bh_min_order h" "symmetric_heap h1 = symmetric_heap h"
      "symmetric_heap_hashtable h1 = symmetric_heap_hashtable h" using h1(2) by (simp_all add: same_frame_def)
    have free: "buddy_free_seg (of_nat (i * 2 ^ k)) k h = Some h1"
      using h1(1) w(4) m valid by (simp add: buddy_free_seg_def valid_block_def del: of_nat_mult)
    obtain rc ht' where ht': "opal_hash_table_remove_value_uint64 (symmetric_heap_hashtable h1) p = Some (rc, ht')" "ht_wf hash_uint64 ht'"
      "ht_map hash_uint64 ht' = (live h)(p := None)" "ht_nodes ht' \<noteq> []"
      using u64.remove_value_correct [OF ht, of p] Some unfolding opal_hash_table_remove_value_uint64_def live_def frame by auto
    let ?h = "h1\<lparr>symmetric_heap_hashtable := ht'\<rparr>"
    have "((live h)(p := None)) q = Some l \<longleftrightarrow> (\<exists>j. (l, j) \<in> A - {(k, i)} \<and> q = block_addr h (l, j))" for q l
    proof (cases "q = p")
      case True
      then show ?thesis using block_addr_inj [OF ok _ i(1)] i(2) by auto
    next
      case False
      then show ?thesis using ok i(2) by (auto simp: heap_ok_def)
    qed
    then have "heap_ok ?h F1 (A - {(k, i)})" using ok h1(3,4) ht'(2,3) frame by (simp add: heap_ok_def live_def block_addr_def)
    moreover have "do_free p h = Some (OSHMEM_SUCCESS, ?h)"
      using get Some off free ht'(1) by (simp add: do_free_def live_def Let_def)
    ultimately show ?thesis using Some i ht'(3,4) frame by (auto simp: live_def)
  qed
qed

end
