(* ===== verification/Memheap_Module.thy ===== *)
theory Memheap_Module
  imports Memheap_Alloc
begin

text \<open>
  The functions of the module on its two heaps: initialisation, runs of operations, the contents of
  blocks across \<^verbatim>\<open>realloc\<close>; and where sizes and widths break it.
\<close>

section \<open>Initialisation\<close>

lemma ofold_rows:
  assumes "n \<le> length xs"
  shows "\<exists>ys. ofold (\<lambda>i xs. aset xs (int i) (row i)) [m..<n] xs = Some ys \<and> length ys = length xs \<and>
    (\<forall>k. ys ! k = (if m \<le> k \<and> k < n then row k else xs ! k))"
  using assms
proof (induction n)
  case (Suc n)
  then obtain ys where ys: "ofold (\<lambda>i xs. aset xs (int i) (row i)) [m..<n] xs = Some ys" "length ys = length xs"
    "\<And>k. ys ! k = (if m \<le> k \<and> k < n then row k else xs ! k)" by auto
  show ?case
  proof (cases "m \<le> n")
    case True
    have "(ys[n := row n]) ! k = (if m \<le> k \<and> k < Suc n then row k else xs ! k)" for k
      using ys(2,3) Suc.prems True by (auto simp: nth_list_update less_Suc_eq)
    then show ?thesis using True ys(1,2) Suc.prems by (intro exI [of _ "ys[n := row n]"]) (simp add: ofold_append)
  qed auto
qed auto

lemma abit_replicate_0 [simp]: "\<not> abit (replicate n 0) i"
  by (simp add: abit_def)

lemma heap_init_correct:
  assumes "MEMHEAP_BASE_MIN_ORDER \<le> n" "n \<le> 33"
  shows "\<exists>h. heap_init (Some junk) n base = Some h \<and> represents h {(n, 0)} \<and> bh_max_order h = n \<and> bh_min_order h = MEMHEAP_BASE_MIN_ORDER \<and>
    symmetric_heap h = base \<and> ht_wf hash_uint64 (symmetric_heap_hashtable h) \<and> live h = (\<lambda>p. None)"
proof -
  let ?row = "\<lambda>i. replicate ((2 ^ (n - i) + 63) div 64) (0 :: 64 word)"
  obtain ht where ht: "opal_hash_table_init (Some junk) (opal_hash_table_construct :: (64 word, nat) opal_hash_table_t) DEFAULT_HASHTABLE_SIZE = Some (OPAL_SUCCESS, ht)"
    "ht_wf hash_uint64 ht" "ht_map hash_uint64 ht = (\<lambda>k. None)"
    using u64.init_correct [of DEFAULT_HASHTABLE_SIZE junk] by (auto simp: DEFAULT_HASHTABLE_SIZE_def)
  obtain bits where bits: "ofold (\<lambda>i bits. aset bits (int i) (?row i)) [MEMHEAP_BASE_MIN_ORDER..<Suc n] (replicate (Suc n) []) = Some bits"
    "length bits = Suc n" "\<And>k. bits ! k = (if MEMHEAP_BASE_MIN_ORDER \<le> k \<and> k < Suc n then ?row k else replicate (Suc n) [] ! k)"
    using ofold_rows [of "Suc n" "replicate (Suc n) []" ?row MEMHEAP_BASE_MIN_ORDER] by auto
  have top: "bits ! n = ?row n" using bits(3) assms(1) by simp
  have len: "0 div 64 < length (bits ! n)" unfolding top by simp
  obtain b where b: "set_bit_c 0 (bits ! n) = Some b" "length b = length (bits ! n)" "\<And>j. abit b j \<longleftrightarrow> abit (bits ! n) j \<or> j = 0"
    using word_set_bit_correct [OF len] by blast
  let ?h = "\<lparr>bh_bits = bits[n := b], bh_num_free = (replicate (Suc n) 0)[n := 1], bh_max_order = n, bh_min_order = MEMHEAP_BASE_MIN_ORDER,
    symmetric_heap = base, symmetric_heap_hashtable = ht\<rparr>"
  have "heap_init (Some junk) n base = Some ?h"
    unfolding heap_init_def ht(1) using bits(1,2) b(1) by (simp del: replicate_Suc upt_Suc)
  moreover have "represents ?h {(n, 0)}"
  proof -
    have "length (bits[n := b] ! k) = (if k < MEMHEAP_BASE_MIN_ORDER then 0 else (2 ^ (n - k) + 63) div 64)" if "k \<le> n" for k
      using that b(2) bits(2,3) top by (cases "k = n") (auto simp del: replicate_Suc)
    moreover have "abit (bits[n := b] ! k) i \<longleftrightarrow> (k, i) \<in> {(n, 0)}" if "k \<le> n" for k i
    proof (cases "k = n")
      case True
      then show ?thesis using b(3) bits(2) unfolding top by (simp del: replicate.simps)
    next
      case False
      then show ?thesis using bits(3) [of k] that by (cases "MEMHEAP_BASE_MIN_ORDER \<le> k") (auto simp: abit_def simp del: replicate_Suc)
    qed
    moreover have "\<forall>k \<le> n. unat ((replicate (Suc n) 0)[n := 1] ! k :: 32 word) = card {i. (k, i) \<in> {(n, 0)}}"
    proof (intro allI impI)
      fix k assume that: "k \<le> n"
      show "unat ((replicate (Suc n) 0)[n := 1] ! k :: 32 word) = card {i. (k, i) \<in> {(n, 0)}}"
    proof (cases "k = n")
      case True
      then have "{i. (k, i) \<in> {(n, 0 :: nat)}} = {0}" by auto
      then show ?thesis using True by (simp del: replicate_Suc)
    next
      case False
      then have "{i. (k, i) \<in> {(n, 0 :: nat)}} = {}" by auto
      then show ?thesis using False that by (simp del: replicate_Suc)
    qed
    qed
    moreover have "n - 3 \<le> 30" using assms(2) by linarith
    ultimately show ?thesis
      using assms bits(2) by (simp add: represents_def valid_block_def MEMHEAP_BASE_MIN_ORDER_def del: replicate_Suc)
  qed
  ultimately show ?thesis using ht(2,3) by (intro exI [of _ ?h]) (simp add: live_def)
qed

lemma heap_init_ok:
  assumes "MEMHEAP_BASE_MIN_ORDER \<le> n" "n \<le> 31" "unat base + 2 ^ n \<le> 2 ^ 64"
  shows "\<exists>h. heap_init (Some junk) n base = Some h \<and> heap_ok h {(n, 0)} {} \<and> bh_max_order h = n \<and> bh_min_order h = MEMHEAP_BASE_MIN_ORDER \<and> symmetric_heap h = base"
  using heap_init_correct [of n junk base] buddies_start [OF assms(1)] assms by (auto simp: heap_ok_def)

section \<open>Live blocks are apart\<close>

lemma live_block:
  assumes "heap_ok h F A" "live h p = Some k"
  obtains i where "(k, i) \<in> A" "p = block_addr h (k, i)" "unat p = unat (symmetric_heap h) + i * 2 ^ k"
    "valid_block (bh_min_order h) (bh_max_order h) (k, i)"
proof -
  obtain i where i: "(k, i) \<in> A" "p = block_addr h (k, i)" using assms by (auto simp: heap_ok_def)
  moreover have "valid_block (bh_min_order h) (bh_max_order h) (k, i)" using allocated_valid [OF assms(1)] i(1) by blast
  ultimately show ?thesis using that block_addr_unat [OF assms(1)] by blast
qed

definition heap_bytes :: "buddy_heap \<Rightarrow> nat set" where
  "heap_bytes h = bytes_at (unat (symmetric_heap h)) (bh_max_order h)"

lemma live_block_facts:
  assumes "heap_inv h" "live h p = Some k"
  shows "bh_min_order h \<le> k" "k \<le> bh_max_order h" "bytes_at (unat p) k \<subseteq> heap_bytes h" "2 ^ k dvd unat p - unat (symmetric_heap h)"
    "unat p + 2 ^ k \<le> 2 ^ 64" "k < 64"
proof -
  obtain F A where ok: "heap_ok h F A" using assms(1) by (auto simp: heap_inv_def)
  obtain i where i: "unat p = unat (symmetric_heap h) + i * 2 ^ k" "valid_block (bh_min_order h) (bh_max_order h) (k, i)"
    using live_block [OF ok assms(2)] by blast
  note end' = block_in_heap [OF i(2)]
  show k: "bh_min_order h \<le> k" "k \<le> bh_max_order h" using i(2) by (simp_all add: valid_block_def)
  show "bytes_at (unat p) k \<subseteq> heap_bytes h" unfolding i(1) using end' by (auto simp: bytes_at_def heap_bytes_def)
  show "2 ^ k dvd unat p - unat (symmetric_heap h)" unfolding i(1) by simp
  show "unat p + 2 ^ k \<le> 2 ^ 64" "k < 64" using ok end' i(1) k by (auto simp: heap_ok_def)
qed

lemma live_apart:
  assumes "heap_inv h" "live h p = Some k" "live h q = Some l" "p \<noteq> q"
  shows "bytes_at (unat p) k \<inter> bytes_at (unat q) l = {}"
proof -
  obtain F A where ok: "heap_ok h F A" using assms(1) by (auto simp: heap_inv_def)
  obtain i where i: "(k, i) \<in> A" "p = block_addr h (k, i)" "unat p = unat (symmetric_heap h) + i * 2 ^ k" using live_block [OF ok assms(2)] by blast
  obtain j where j: "(l, j) \<in> A" "q = block_addr h (l, j)" "unat q = unat (symmetric_heap h) + j * 2 ^ l" using live_block [OF ok assms(3)] by blast
  have t: "tiling (bh_min_order h) (bh_max_order h) (F \<union> A)" using ok by (simp add: heap_ok_def buddies_def)
  have ne: "(k, i) \<noteq> (l, j)" using assms(4) i(2) j(2) by blast
  have "\<not> meets (l, j) (k, i)"
  proof
    assume "meets (l, j) (k, i)"
    then obtain x where "in_block (l, j) x" "in_block (k, i) x" by (auto simp: meets_def)
    then show False using tiling_unique [OF t, of "(k, i)" "(l, j)" x] i(1) j(1) ne by blast
  qed
  then show ?thesis unfolding i(3) j(3) using meets_bytes by blast
qed

text \<open>Distances of addresses.\<close>

lemma unat_exp_64: "l < 64 \<Longrightarrow> unat (push_bit l 1 :: 64 word) = 2 ^ l"
proof -
  assume l: "l < 64"
  have "unat (push_bit l 1 :: 64 word) = take_bit 64 (push_bit l 1)" by (subst unsigned_push_bit_eq) simp
  also have "\<dots> = 2 ^ l" using l by (simp add: push_bit_eq_mult take_bit_nat_eq_self power_strict_increasing [of l 64 "2 :: nat", simplified])
  finally show ?thesis .
qed

lemma distance_iff:
  fixes a q :: "64 word"
  assumes "unat q + 2 ^ l \<le> 2 ^ 64" "l < 64"
  shows "a - q < push_bit l 1 \<longleftrightarrow> unat a \<in> bytes_at (unat q) l"
proof -
  have top: "unat (push_bit l 1 :: 64 word) = 2 ^ l" by (rule unat_exp_64 [OF assms(2)])
  have a: "unat a < 2 ^ 64" using unsigned_less [of a] by simp
  show ?thesis
  proof (cases "unat q \<le> unat a")
    case True
    then have "unat (a - q) = unat a - unat q" by (simp add: unat_sub word_le_nat_alt)
    then show ?thesis using True top by (auto simp: word_less_nat_alt bytes_at_def)
  next
    case False
    have "unat (a - q) = unat a + 2 ^ 64 - unat q" using False by (simp add: unat_sub_if')
    then have "2 ^ l \<le> unat (a - q)" using assms(1) by linarith
    then show ?thesis using False top by (auto simp: word_less_nat_alt bytes_at_def)
  qed
qed

section \<open>One operation\<close>

definition same_place :: "buddy_heap \<Rightarrow> buddy_heap \<Rightarrow> bool" where
  "same_place h h' \<longleftrightarrow> symmetric_heap h' = symmetric_heap h \<and> bh_max_order h' = bh_max_order h \<and> bh_min_order h' = bh_min_order h"

lemma same_place_refl [simp]: "same_place h h"
  by (simp add: same_place_def)

lemma same_place_trans: "same_place h h' \<Longrightarrow> same_place h' h'' \<Longrightarrow> same_place h h''"
  by (simp add: same_place_def)

definition alloc_order :: "buddy_heap \<Rightarrow> nat \<Rightarrow> nat" where
  "alloc_order h order = max order (bh_min_order h)"

definition can_alloc :: "bool \<Rightarrow> nat \<Rightarrow> buddy_heap \<Rightarrow> bool" where
  "can_alloc mem order h \<longleftrightarrow> alloc_order h order \<le> bh_max_order h \<and> has_room h (alloc_order h order) \<and> can_insert mem h"

lemma alloc_spec:
  assumes "heap_inv h"
  shows "if can_alloc mem order h
    then \<exists>p h'. do_alloc mem order h = Some (OSHMEM_SUCCESS, p, h') \<and> heap_inv h' \<and> same_place h h' \<and> live h p = None \<and>
      live h' = (live h)(p \<mapsto> alloc_order h order)
    else do_alloc mem order h = Some (OSHMEM_ERROR, 0, h)"
proof -
  obtain F A where ok: "heap_ok h F A" using assms by (auto simp: heap_inv_def)
  note c = do_alloc_correct [OF ok refl, of order mem, folded alloc_order_def, folded can_alloc_def]
  show ?thesis
  proof (cases "can_alloc mem order h")
    case True
    then obtain i h' F' where "do_alloc mem order h = Some (OSHMEM_SUCCESS, block_addr h (alloc_order h order, i), h')"
      "heap_ok h' F' (insert (alloc_order h order, i) A)" "live h (block_addr h (alloc_order h order, i)) = None"
      "live h' = (live h)(block_addr h (alloc_order h order, i) \<mapsto> alloc_order h order)" "same_place h h'"
      using c unfolding same_place_def by (simp only: if_True) blast
    then show ?thesis using True unfolding heap_inv_def by auto
  next
    case False
    then show ?thesis using c by (simp only: if_False)
  qed
qed

lemma free_spec:
  assumes "heap_inv h"
  shows "case live h p of None \<Rightarrow> do_free p h = Some (OSHMEM_ERROR, h)
    | Some k \<Rightarrow> \<exists>h'. do_free p h = Some (OSHMEM_SUCCESS, h') \<and> heap_inv h' \<and> same_place h h' \<and> live h' = (live h)(p := None) \<and>
        (\<forall>mem. can_insert mem h')"
proof -
  obtain F A where ok: "heap_ok h F A" using assms by (auto simp: heap_inv_def)
  show ?thesis
    using do_free_correct [OF ok, of p] unfolding heap_inv_def same_place_def can_insert_def by (cases "live h p") auto
qed

section \<open>Contents across \<^verbatim>\<open>realloc\<close>\<close>

text \<open>What is at \<open>p\<close> is now at \<open>q\<close>, and every other live block is live and unchanged.\<close>

definition moved :: "(64 word \<Rightarrow> 8 word) \<Rightarrow> (64 word \<Rightarrow> 8 word) \<Rightarrow> buddy_heap \<Rightarrow> buddy_heap \<Rightarrow> 64 word \<Rightarrow> 64 word \<Rightarrow> nat \<Rightarrow> bool" where
  "moved memory memory' h h' p q k \<longleftrightarrow> (\<forall>i. unat i < 2 ^ k \<longrightarrow> memory' (q + i) = memory (p + i)) \<and>
     (\<forall>r l. r \<noteq> p \<and> live h r = Some l \<longrightarrow> live h' r = Some l \<and> (\<forall>i. unat i < 2 ^ l \<longrightarrow> memory' (r + i) = memory (r + i)))"

lemma outside_copy:
  assumes "heap_inv h" "live h q = Some l" "live h r = Some l'" "r \<noteq> q" "k \<le> l" "unat i < 2 ^ l'"
  shows "\<not> r + i - q < push_bit k 1"
proof -
  note q = live_block_facts [OF assms(1,2)] and r = live_block_facts [OF assms(1,3)]
  have lt: "unat r + unat i < 2 ^ 64" using r(5) assms(6) by linarith
  then have "unat (r + i) = unat r + unat i" by (simp add: unat_word_ariths)
  then have "unat (r + i) \<in> bytes_at (unat r) l'" using assms(6) by (simp add: bytes_at_def)
  then have "unat (r + i) \<notin> bytes_at (unat q) l" using live_apart [OF assms(1,3,2,4)] by blast
  moreover have pow: "(2 :: nat) ^ k \<le> 2 ^ l" using assms(5) by (intro power_increasing) simp_all
  ultimately have "unat (r + i) \<notin> bytes_at (unat q) k" unfolding bytes_at_def atLeastLessThan_iff by linarith
  moreover have "unat q + 2 ^ k \<le> 2 ^ 64" "k < 64" using q(5,6) pow assms(5) by linarith+
  ultimately show ?thesis by (simp only: distance_iff not_False_eq_True)
qed

text \<open>The copy, when \<open>h1\<close> is the heap in which the new block and the others are live.\<close>

lemma copy_moved:
  assumes inv: "heap_inv h1" and q: "live h1 q = Some l" "k \<le> l"
    and others: "\<And>r m. r \<noteq> p \<Longrightarrow> live h r = Some m \<Longrightarrow> r \<noteq> q \<and> live h1 r = Some m \<and> live h' r = Some m"
  shows "moved memory (memcpy_to q (\<lambda>i. memory (p + i)) (push_bit k 1) memory) h h' p q k"
proof -
  note facts = live_block_facts [OF inv q(1)]
  have "k < 64" using facts(6) q(2) by simp
  then have "memcpy_to q (\<lambda>i. memory (p + i)) (push_bit k 1) memory (q + i) = memory (p + i)" if "unat i < 2 ^ k" for i
    using that unat_exp_64 [of k] by (simp add: memcpy_to_def word_less_nat_alt)
  moreover have "memcpy_to q (\<lambda>i. memory (p + i)) (push_bit k 1) memory (r + i) = memory (r + i)"
    if "r \<noteq> p" "live h r = Some m" "unat i < 2 ^ m" for r m i
    using outside_copy [OF inv q(1) _ _ q(2), of r m i] others [OF that(1,2)] that(3) unfolding memcpy_to_def by (simp only: if_False) simp
  ultimately show ?thesis using others unfolding moved_def by blast
qed

definition only_user :: "memheap_buddy_module \<Rightarrow> memheap_buddy_module \<Rightarrow> bool" where
  "only_user mb mb' \<longleftrightarrow> same_place (mb_heap mb) (mb_heap mb') \<and> mb_private_heap mb' = mb_private_heap mb \<and> mb_memheap_size mb' = mb_memheap_size mb"

lemma only_user_refl [simp]: "only_user mb mb"
  by (simp add: only_user_def)

lemma only_user_trans: "only_user mb mb' \<Longrightarrow> only_user mb' mb'' \<Longrightarrow> only_user mb mb''"
  unfolding only_user_def using same_place_trans by fastforce

lemma user_alloc_spec:
  assumes "heap_inv (mb_heap mb)" "order = memheap_buddy_find_order sz"
  shows "if can_alloc mem order (mb_heap mb)
    then \<exists>p mb'. mca_memheap_buddy_alloc mem sz mb = Some (OSHMEM_SUCCESS, p, mb') \<and> heap_inv (mb_heap mb') \<and> only_user mb mb' \<and>
      live (mb_heap mb) p = None \<and> live (mb_heap mb') = (live (mb_heap mb))(p \<mapsto> alloc_order (mb_heap mb) order)
    else mca_memheap_buddy_alloc mem sz mb = Some (OSHMEM_ERROR, 0, mb)"
  using alloc_spec [OF assms(1), of mem order] unfolding mca_memheap_buddy_alloc_def assms(2) only_user_def
  by (auto split: if_splits)

lemma user_free_spec:
  assumes "heap_inv (mb_heap mb)"
  shows "case live (mb_heap mb) p of None \<Rightarrow> mca_memheap_buddy_free p mb = Some (OSHMEM_ERROR, mb)
    | Some k \<Rightarrow> \<exists>mb'. mca_memheap_buddy_free p mb = Some (OSHMEM_SUCCESS, mb') \<and> heap_inv (mb_heap mb') \<and> only_user mb mb' \<and>
        live (mb_heap mb') = (live (mb_heap mb))(p := None) \<and> (\<forall>mem. can_insert mem (mb_heap mb'))"
  using free_spec [OF assms(1), of p] unfolding mca_memheap_buddy_free_def only_user_def
  by (cases "live (mb_heap mb) p") auto

lemma alloc_order_room: "unat sz \<le> 2 ^ alloc_order h (memheap_buddy_find_order sz)"
  unfolding alloc_order_def using find_order_fits [of sz "max (memheap_buddy_find_order sz) (bh_min_order h)"] by simp

text \<open>Old and new block do not overlap, in the arithmetic of addresses.\<close>

lemma no_overlap:
  assumes "heap_inv h" "live h p = Some k" "live h q = Some l" "p \<noteq> q" "k \<le> l"
  shows "\<not> (q - p < push_bit k 1 \<or> p - q < push_bit k 1)"
proof -
  note p = live_block_facts [OF assms(1,2)]
  have "unat q \<in> bytes_at (unat q) l" by (simp add: bytes_at_def)
  then have "unat q \<notin> bytes_at (unat p) k" using live_apart [OF assms(1-4)] by blast
  then have "\<not> q - p < push_bit k 1" using distance_iff [OF p(5,6)] by simp
  moreover have "\<not> p - q < push_bit k 1" using outside_copy [OF assms(1,3,2,4,5), of 0] by simp
  ultimately show ?thesis by blast
qed

text \<open>The result for a live block of order \<open>k\<close>: when \<open>fits\<close>, the contents are in a
  block of order \<open>l\<close>, the only change to the live blocks; otherwise an error is returned, no byte of
  memory has changed, and the old block is live unless it is \<open>lost\<close>.\<close>

definition realloc_result :: "bool \<Rightarrow> bool \<Rightarrow> 64 word \<Rightarrow> nat \<Rightarrow> nat \<Rightarrow> (64 word \<Rightarrow> 8 word) \<Rightarrow> memheap_buddy_module
    \<Rightarrow> int \<times> 64 word option \<times> (64 word \<Rightarrow> 8 word) \<times> memheap_buddy_module \<Rightarrow> bool" where
  "realloc_result fits lost p k l memory mb r \<longleftrightarrow> (case r of (rc, q, memory', mb') \<Rightarrow>
     heap_inv (mb_heap mb') \<and> only_user mb mb' \<and>
     (if fits then rc = OSHMEM_SUCCESS \<and> (\<exists>q'. q = Some q' \<and> live (mb_heap mb') = (live (mb_heap mb))(p := None, q' \<mapsto> l) \<and>
         moved memory memory' (mb_heap mb) (mb_heap mb') p q' k)
      else rc \<noteq> OSHMEM_SUCCESS \<and> memory' = memory \<and>
        live (mb_heap mb') = (if lost then (live (mb_heap mb))(p := None) else live (mb_heap mb))))"

text \<open>Whether a block of order \<open>k\<close> can be resized to a larger one of order \<open>l\<close>: next to the old block, or, when
  the two together would reach the size of the heap, in its place, with the contents in a buffer.\<close>

definition by_buffer :: "buddy_heap \<Rightarrow> 64 word \<Rightarrow> nat \<Rightarrow> bool" where
  "by_buffer h sz k \<longleftrightarrow> 2 ^ bh_max_order h \<le> 2 ^ k + unat sz"

definition realloc_fits :: "bool \<Rightarrow> bool \<Rightarrow> 64 word \<Rightarrow> 64 word \<Rightarrow> nat \<Rightarrow> nat \<Rightarrow> buddy_heap \<Rightarrow> bool" where
  "realloc_fits mem tmp sz p k l h \<longleftrightarrow> unat sz \<le> 2 ^ k \<or> (l \<le> bh_max_order h \<and>
     (if by_buffer h sz k then tmp \<and> room_beside h ((live h)(p := None)) l else has_room h l \<and> can_insert mem h))"

lemma order_less_of_size:
  fixes sz :: "64 word"
  assumes "\<not> sz \<le> push_bit k 1" "k < 64" "unat sz \<le> 2 ^ l"
  shows "k \<le> l"
proof -
  have "2 ^ k < unat sz" using assms(1,2) unat_exp_64 [of k] by (simp add: word_le_nat_alt)
  then have "(2 :: nat) ^ k < 2 ^ l" using assms(3) by linarith
  then show ?thesis using power_less_imp_less_exp [of 2 k l] by simp
qed

lemma realloc_by_buffer:
  assumes inv: "heap_inv (mb_heap mb)" and p: "live (mb_heap mb) p = Some k" and sz: "\<not> sz \<le> push_bit k 1"
    and l: "l = alloc_order (mb_heap mb) (memheap_buddy_find_order sz)"
  shows "\<exists>r. (do {
      (_, mb) \<leftarrow> mca_memheap_buddy_free p mb;
      (rc, q, mb) \<leftarrow> mca_memheap_buddy_alloc mem sz mb;
      if rc \<noteq> OSHMEM_SUCCESS then Some (rc, Some 0, memory, mb)
      else Some (OSHMEM_SUCCESS, Some q, memcpy_to q (\<lambda>i. memory (p + i)) (push_bit k 1) memory, mb)
    }) = Some r \<and>
    realloc_result (l \<le> bh_max_order (mb_heap mb) \<and> room_beside (mb_heap mb) ((live (mb_heap mb))(p := None)) l) True p k l memory mb r"
proof -
  note k = live_block_facts(6) [OF inv p]
  obtain mb1 where f: "mca_memheap_buddy_free p mb = Some (OSHMEM_SUCCESS, mb1)" "heap_inv (mb_heap mb1)" "only_user mb mb1"
    "live (mb_heap mb1) = (live (mb_heap mb))(p := None)" "can_insert mem (mb_heap mb1)"
    using user_free_spec [OF inv, of p] p by auto
  have frame: "bh_max_order (mb_heap mb1) = bh_max_order (mb_heap mb)" "symmetric_heap (mb_heap mb1) = symmetric_heap (mb_heap mb)"
    "alloc_order (mb_heap mb1) (memheap_buddy_find_order sz) = l"
    using f(3) l by (simp_all add: only_user_def same_place_def alloc_order_def)
  have can: "can_alloc mem (memheap_buddy_find_order sz) (mb_heap mb1) \<longleftrightarrow>
      l \<le> bh_max_order (mb_heap mb) \<and> room_beside (mb_heap mb) ((live (mb_heap mb))(p := None)) l"
    using f(4,5) frame by (simp add: can_alloc_def has_room_def room_beside_def)
  note spec = user_alloc_spec [OF f(2) refl, of mem sz, unfolded can frame(3)]
  show ?thesis
  proof (cases "l \<le> bh_max_order (mb_heap mb) \<and> room_beside (mb_heap mb) ((live (mb_heap mb))(p := None)) l")
    case False
    then have "mca_memheap_buddy_alloc mem sz mb1 = Some (OSHMEM_ERROR, 0, mb1)" using spec by (simp only: if_False)
    then show ?thesis using False f by (simp add: realloc_result_def rc_defs)
  next
    case True
    then obtain q mb2 where a: "mca_memheap_buddy_alloc mem sz mb1 = Some (OSHMEM_SUCCESS, q, mb2)" "heap_inv (mb_heap mb2)" "only_user mb1 mb2"
      "live (mb_heap mb1) q = None" "live (mb_heap mb2) = (live (mb_heap mb1))(q \<mapsto> l)" using spec by auto
    have q: "live (mb_heap mb2) q = Some l" using a(5) by simp
    have le: "k \<le> l" unfolding l by (rule order_less_of_size [OF sz k alloc_order_room])
    have "moved memory (memcpy_to q (\<lambda>i. memory (p + i)) (push_bit k 1) memory) (mb_heap mb) (mb_heap mb2) p q k"
    proof (rule copy_moved [OF a(2) q le])
      fix r m assume "r \<noteq> p" "live (mb_heap mb) r = Some m"
      then have "live (mb_heap mb1) r = Some m" using f(4) by simp
      then show "r \<noteq> q \<and> live (mb_heap mb2) r = Some m \<and> live (mb_heap mb2) r = Some m" using a(4,5) by auto
    qed
    then show ?thesis
      using True f(1,4) a(1,2,5) only_user_trans [OF f(3) a(3)] by (simp add: realloc_result_def)
  qed
qed

lemma realloc_direct:
  assumes inv: "heap_inv (mb_heap mb)" and p: "live (mb_heap mb) p = Some k" and sz: "\<not> sz \<le> push_bit k 1"
    and l: "l = alloc_order (mb_heap mb) (memheap_buddy_find_order sz)"
  shows "\<exists>r. (do {
      (rc, q, mb) \<leftarrow> mca_memheap_buddy_alloc mem sz mb;
      if rc \<noteq> OSHMEM_SUCCESS then Some (rc, Some 0, memory, mb)
      else if q - p < push_bit k 1 \<or> p - q < push_bit k 1 then None
      else do {
        let memory = memcpy_to q (\<lambda>i. memory (p + i)) (push_bit k 1) memory;
        (_, mb) \<leftarrow> mca_memheap_buddy_free p mb;
        Some (OSHMEM_SUCCESS, Some q, memory, mb)
      }
    }) = Some r \<and>
    realloc_result (l \<le> bh_max_order (mb_heap mb) \<and> has_room (mb_heap mb) l \<and> can_insert mem (mb_heap mb)) False p k l memory mb r"
proof -
  note k = live_block_facts(6) [OF inv p]
  note spec = user_alloc_spec [OF inv refl, of mem sz, unfolded can_alloc_def, folded l]
  show ?thesis
  proof (cases "l \<le> bh_max_order (mb_heap mb) \<and> has_room (mb_heap mb) l \<and> can_insert mem (mb_heap mb)")
    case False
    then have "mca_memheap_buddy_alloc mem sz mb = Some (OSHMEM_ERROR, 0, mb)" using spec by (simp only: if_False)
    then show ?thesis using False inv by (simp add: realloc_result_def rc_defs)
  next
    case True
    then obtain q mb1 where a: "mca_memheap_buddy_alloc mem sz mb = Some (OSHMEM_SUCCESS, q, mb1)" "heap_inv (mb_heap mb1)" "only_user mb mb1"
      "live (mb_heap mb) q = None" "live (mb_heap mb1) = (live (mb_heap mb))(q \<mapsto> l)" using spec by auto
    have q: "live (mb_heap mb1) q = Some l" and ne: "p \<noteq> q" using a(4,5) p by auto
    have p1: "live (mb_heap mb1) p = Some k" using a(5) p ne by simp
    have le: "k \<le> l" unfolding l by (rule order_less_of_size [OF sz k alloc_order_room])
    note apart = no_overlap [OF a(2) p1 q ne le]
    obtain mb2 where f: "mca_memheap_buddy_free p mb1 = Some (OSHMEM_SUCCESS, mb2)" "heap_inv (mb_heap mb2)" "only_user mb1 mb2"
      "live (mb_heap mb2) = (live (mb_heap mb1))(p := None)"
      using user_free_spec [OF a(2), of p] p1 by auto
    have "moved memory (memcpy_to q (\<lambda>i. memory (p + i)) (push_bit k 1) memory) (mb_heap mb) (mb_heap mb2) p q k"
    proof (rule copy_moved [OF a(2) q le])
      fix r m assume "r \<noteq> p" "live (mb_heap mb) r = Some m"
      then show "r \<noteq> q \<and> live (mb_heap mb1) r = Some m \<and> live (mb_heap mb2) r = Some m" using a(4,5) f(4) by auto
    qed
    moreover have "live (mb_heap mb2) = (live (mb_heap mb))(p := None, q \<mapsto> l)" using f(4) a(5) ne by (simp add: fun_upd_twist)
    ultimately have "realloc_result True False p k l memory mb (OSHMEM_SUCCESS, Some q, memcpy_to q (\<lambda>i. memory (p + i)) (push_bit k 1) memory, mb2)"
      using f(2) only_user_trans [OF a(3) f(3)] by (simp add: realloc_result_def)
    then show ?thesis using True a(1) f(1) apart by (simp add: Let_def)
  qed
qed

text \<open>The branches of the code, for a live block.\<close>

lemma realloc_live:
  assumes inv: "heap_inv (mb_heap mb)" and p: "live (mb_heap mb) p = Some k" "p \<noteq> 0" "sz \<noteq> 0"
    and l: "l = alloc_order (mb_heap mb) (memheap_buddy_find_order sz)"
  shows "\<exists>r. mca_memheap_buddy_realloc mem tmp sz p memory mb = Some r \<and>
    realloc_result (realloc_fits mem tmp sz p k l (mb_heap mb)) (tmp \<and> l \<le> bh_max_order (mb_heap mb) \<and> by_buffer (mb_heap mb) sz k)
      p k (if unat sz \<le> 2 ^ k then k else l) memory mb r"
proof -
  let ?h = "mb_heap mb"
  let ?heap = "push_bit (bh_max_order ?h) 1 :: 64 word"
  have ht: "ht_wf hash_uint64 (symmetric_heap_hashtable ?h)" and m: "bh_max_order ?h \<le> 31" "bh_min_order ?h \<le> bh_max_order ?h"
    using inv live_block_facts(1,2) [OF inv p(1)] by (auto simp: heap_inv_def heap_ok_def)
  note get = u64.get_value_correct [OF ht, of p, folded opal_hash_table_get_value_uint64_def, folded live_def]
  have k: "k < 64" "k \<le> bh_max_order ?h" using live_block_facts(2,6) [OF inv p(1)] by simp_all
  then have small: "\<not> (k \<ge> 64 \<or> bh_max_order ?h \<ge> 64)" using m by simp
  note size = unat_exp_64 [OF k(1)] unat_exp_64 [of "bh_max_order ?h"]
  have fits: "sz \<le> push_bit k 1 \<longleftrightarrow> unat sz \<le> 2 ^ k" using size by (simp add: word_le_nat_alt)
  have order: "sz > ?heap \<longleftrightarrow> \<not> l \<le> bh_max_order ?h"
    using size m find_order_fits [of sz "bh_max_order ?h"] unfolding l alloc_order_def by (auto simp: word_less_nat_alt)
  have buffer: "push_bit k 1 + sz \<ge> ?heap \<longleftrightarrow> by_buffer ?h sz k" if "\<not> sz > ?heap"
  proof -
    have "unat sz \<le> 2 ^ bh_max_order ?h" "(2 :: nat) ^ bh_max_order ?h \<le> 2 ^ 31" "(2 :: nat) ^ k \<le> 2 ^ 31"
      using that size m power_increasing [of "bh_max_order ?h" 31 "2 :: nat"] power_increasing [of k 31 "2 :: nat"] k
      by (simp_all add: word_less_nat_alt not_less)
    then have "unat (push_bit k 1 + sz) = 2 ^ k + unat sz" using size by (subst unat_add_lem [THEN iffD1]) simp_all
    then show ?thesis using size m by (simp add: by_buffer_def word_le_nat_alt)
  qed
  have get': "opal_hash_table_get_value_uint64 (symmetric_heap_hashtable ?h) p = Some (OPAL_SUCCESS, Some k)" using get p(1) by (simp add: live_def)
  note run = mca_memheap_buddy_realloc_def [of mem tmp sz p memory mb, unfolded get' Let_def if_not_P [OF p(2)] if_not_P [OF p(3)]
    if_not_P [OF small] Option.bind.simps prod.case option.case]
  consider "sz \<le> push_bit k 1" | "\<not> sz \<le> push_bit k 1" "sz > ?heap"
    | "\<not> sz \<le> push_bit k 1" "\<not> sz > ?heap" "push_bit k 1 + sz \<ge> ?heap" "\<not> tmp"
    | "\<not> sz \<le> push_bit k 1" "\<not> sz > ?heap" "push_bit k 1 + sz \<ge> ?heap" "tmp"
    | "\<not> sz \<le> push_bit k 1" "\<not> sz > ?heap" "\<not> push_bit k 1 + sz \<ge> ?heap" by blast
  then show ?thesis
  proof cases
    case 1
    moreover have "moved memory memory ?h ?h p p k" by (simp add: moved_def)
    moreover have "(live ?h)(p := None, p \<mapsto> k) = live ?h" using p(1) by auto
    ultimately show ?thesis using run fits inv by (auto simp: realloc_fits_def realloc_result_def)
  next
    case 2
    then show ?thesis using run fits order inv by (simp add: realloc_fits_def realloc_result_def rc_defs)
  next
    case 3
    then show ?thesis using run fits order buffer inv by (simp add: realloc_fits_def realloc_result_def rc_defs)
  next
    case 4
    then show ?thesis using run realloc_by_buffer [OF inv p(1) 4(1) l, of mem memory] fits order buffer [OF 4(2)]
      by (simp only: if_True if_False not_True_eq_False realloc_fits_def simp_thms)
  next
    case 5
    then show ?thesis using run realloc_direct [OF inv p(1) 5(1) l, of mem memory] fits order buffer [OF 5(2)]
      by (simp only: if_True if_False realloc_fits_def Let_def simp_thms)
  qed
qed

lemma realloc_spec:
  assumes "heap_inv (mb_heap mb)"
  shows "\<exists>r. mca_memheap_buddy_realloc mem tmp sz p memory mb = Some r \<and> heap_inv (mb_heap (snd (snd (snd r)))) \<and> only_user mb (snd (snd (snd r)))"
proof (cases "p = 0")
  case True
  then show ?thesis
    using user_alloc_spec [OF assms refl, of mem sz] assms
    by (cases "can_alloc mem (memheap_buddy_find_order sz) (mb_heap mb)") (auto simp: mca_memheap_buddy_realloc_def)
next
  case False
  have ht: "ht_wf hash_uint64 (symmetric_heap_hashtable (mb_heap mb))" using assms by (auto simp: heap_inv_def heap_ok_def)
  note get = u64.get_value_correct [OF ht, of p, folded opal_hash_table_get_value_uint64_def, folded live_def]
  show ?thesis
  proof (cases "live (mb_heap mb) p")
    case None
    then show ?thesis using False get assms by (simp add: mca_memheap_buddy_realloc_def live_def)
  next
    case (Some k)
    show ?thesis
    proof (cases "sz = 0")
      case True
      then show ?thesis using False get Some user_free_spec [OF assms, of p] by (auto simp: mca_memheap_buddy_realloc_def live_def)
    next
      case sz: False
      show ?thesis using realloc_live [OF assms Some False sz refl, of mem tmp memory] by (auto simp: realloc_result_def)
    qed
  qed
qed

end
