(* ===== verification/Memheap_Runs.thy ===== *)
theory Memheap_Runs
  imports Memheap_Module
begin

text \<open>
  What the symmetric heap of OpenSHMEM promises, for any sequence of operations after initialisation,
  and three ways in which the code breaks the promise.
\<close>

section \<open>Runs\<close>

text \<open>The flags say whether the hash table and the temporary buffer can be allocated.\<close>

datatype shmem_op =
    Shmalloc bool "64 word"
  | Shmemalign bool "64 word" "64 word"
  | Shfree "64 word"
  | Shrealloc bool bool "64 word" "64 word" "64 word \<Rightarrow> 8 word"
  | Private_alloc bool "64 word"
  | Private_free "64 word"

fun shmem_step :: "shmem_op \<Rightarrow> memheap_buddy_module \<Rightarrow> memheap_buddy_module option" where
  "shmem_step (Shmalloc mem sz) mb = map_option (\<lambda>(_, _, mb). mb) (mca_memheap_buddy_alloc mem sz mb)"
| "shmem_step (Shmemalign mem al sz) mb = map_option (\<lambda>(_, _, mb). mb) (mca_memheap_buddy_align mem al sz mb)"
| "shmem_step (Shfree p) mb = map_option snd (mca_memheap_buddy_free p mb)"
| "shmem_step (Shrealloc mem tmp sz p memory) mb = map_option (\<lambda>(_, _, _, mb). mb) (mca_memheap_buddy_realloc mem tmp sz p memory mb)"
| "shmem_step (Private_alloc mem sz) mb = map_option (\<lambda>(_, _, mb). mb) (mca_memheap_buddy_private_alloc mem sz mb)"
| "shmem_step (Private_free p) mb = map_option snd (mca_memheap_buddy_private_free p mb)"

text \<open>\<^verbatim>\<open>1UL << order\<close> is undefined for sizes above \<open>2 ^ 63\<close>.\<close>

fun op_ok :: "shmem_op \<Rightarrow> bool" where
  "op_ok (Shmemalign mem al sz) \<longleftrightarrow> sz \<le> push_bit 63 1"
| "op_ok _ \<longleftrightarrow> True"

definition shmem_run :: "shmem_op list \<Rightarrow> memheap_buddy_module \<Rightarrow> memheap_buddy_module option" where
  "shmem_run = ofold shmem_step"

text \<open>Sizes that are powers of two, the private heap behind the user's.\<close>

definition setup_pow2 :: "memheap_context_t \<Rightarrow> nat \<Rightarrow> nat \<Rightarrow> bool" where
  "setup_pow2 c n m \<longleftrightarrow> 3 \<le> n \<and> n \<le> 31 \<and> 3 \<le> m \<and> m \<le> 31 \<and> mc_user_size c = push_bit n 1 \<and> mc_private_size c = push_bit m 1 \<and>
     mc_private_base_addr c = mc_user_base_addr c + push_bit n 1 \<and> unat (mc_user_base_addr c) + 2 ^ n + 2 ^ m \<le> 2 ^ 64"

definition started :: "memheap_context_t \<Rightarrow> memheap_buddy_module \<Rightarrow> bool" where
  "started c mb \<longleftrightarrow> (\<exists>junk. mca_memheap_buddy_module_init True (Some junk) (Some c) = Some (OSHMEM_SUCCESS, Some mb))"

definition module_inv :: "memheap_buddy_module \<Rightarrow> bool" where
  "module_inv mb \<longleftrightarrow> heap_inv (mb_heap mb) \<and> heap_inv (mb_private_heap mb)"

definition same_places :: "memheap_buddy_module \<Rightarrow> memheap_buddy_module \<Rightarrow> bool" where
  "same_places mb mb' \<longleftrightarrow> same_place (mb_heap mb) (mb_heap mb') \<and> same_place (mb_private_heap mb) (mb_private_heap mb')"

lemma same_places_trans: "same_places mb mb' \<Longrightarrow> same_places mb' mb'' \<Longrightarrow> same_places mb mb''"
  unfolding same_places_def using same_place_trans by blast

lemma only_user_places: "only_user mb mb' \<Longrightarrow> same_places mb mb'"
  by (simp add: only_user_def same_places_def)

lemma log2_pow2: "n < 64 \<Longrightarrow> memheap_log2 (push_bit n 1) = n"
proof -
  assume n: "n < 64"
  have "memheap_log2 (push_bit n 1) \<le> k \<longleftrightarrow> n \<le> k" for k
    unfolding log2_fits unat_exp_64 [OF n] by simp
  then show ?thesis by (metis order_antisym order_refl)
qed

lemma pow2_nonzero: "n < 64 \<Longrightarrow> push_bit n 1 \<noteq> (0 :: 64 word)"
  using unat_exp_64 [of n] by (metis unat_0 zero_neq_numeral power_eq_0_iff)

lemma heap_bytes_place: "same_place h h' \<Longrightarrow> heap_bytes h' = heap_bytes h"
  by (simp add: same_place_def heap_bytes_def)

lemma live_empty_map: "heap_ok h F {} \<Longrightarrow> live h = (\<lambda>p. None)"
proof
  fix p assume "heap_ok h F {}"
  then show "live h p = None" by (cases "live h p") (auto simp: heap_ok_def)
qed

lemma init_heaps:
  assumes "memheap_log2 (mc_user_size c) = n" "memheap_log2 (mc_private_size c) = m" "3 \<le> n" "n \<le> 31" "3 \<le> m" "m \<le> 31"
    "mc_user_size c \<noteq> 0" "mc_private_size c = push_bit m 1"
    "unat (mc_user_base_addr c) + 2 ^ n \<le> 2 ^ 64" "unat (mc_private_base_addr c) + 2 ^ m \<le> 2 ^ 64"
  shows "\<exists>mb. mca_memheap_buddy_module_init True (Some junk) (Some c) = Some (OSHMEM_SUCCESS, Some mb) \<and>
    heap_ok (mb_heap mb) {(n, 0)} {} \<and> heap_ok (mb_private_heap mb) {(m, 0)} {} \<and>
    bh_max_order (mb_heap mb) = n \<and> bh_min_order (mb_heap mb) = 3 \<and> symmetric_heap (mb_heap mb) = mc_user_base_addr c \<and>
    bh_max_order (mb_private_heap mb) = m \<and> bh_min_order (mb_private_heap mb) = 3 \<and> symmetric_heap (mb_private_heap mb) = mc_private_base_addr c"
proof -
  have lo: "MEMHEAP_BASE_MIN_ORDER \<le> n" "MEMHEAP_BASE_MIN_ORDER \<le> m" using assms(3,5) by (simp_all add: MEMHEAP_BASE_MIN_ORDER_def)
  obtain h where h: "heap_init (Some junk) n (mc_user_base_addr c) = Some h" "heap_ok h {(n, 0)} {}" "bh_max_order h = n" "bh_min_order h = 3"
    "symmetric_heap h = mc_user_base_addr c"
    using heap_init_ok [OF lo(1) assms(4,9), of junk] by (auto simp: MEMHEAP_BASE_MIN_ORDER_def)
  obtain h' where h': "heap_init (Some junk) m (mc_private_base_addr c) = Some h'" "heap_ok h' {(m, 0)} {}" "bh_max_order h' = m" "bh_min_order h' = 3"
    "symmetric_heap h' = mc_private_base_addr c"
    using heap_init_ok [OF lo(2) assms(6,10), of junk] by (auto simp: MEMHEAP_BASE_MIN_ORDER_def)
  have "push_bit m 1 \<noteq> (0 :: 64 word)" by (rule pow2_nonzero) (use assms(6) in simp)
  then have "mca_memheap_buddy_module_init True (Some junk) (Some c) = Some (OSHMEM_SUCCESS, Some \<lparr>mb_heap = h, mb_private_heap = h', mb_memheap_size = push_bit n 1\<rparr>)"
    using assms(1-8) h(1) h'(1) by (simp add: mca_memheap_buddy_module_init_def Let_def)
  then show ?thesis using h h' by simp
qed

lemma init_pow2:
  assumes "setup_pow2 c n m"
  shows "\<exists>mb. mca_memheap_buddy_module_init True (Some junk) (Some c) = Some (OSHMEM_SUCCESS, Some mb) \<and>
    heap_ok (mb_heap mb) {(n, 0)} {} \<and> heap_ok (mb_private_heap mb) {(m, 0)} {} \<and> heap_bytes (mb_heap mb) \<inter> heap_bytes (mb_private_heap mb) = {} \<and>
    bh_max_order (mb_heap mb) = n \<and> bh_min_order (mb_heap mb) = 3 \<and> symmetric_heap (mb_heap mb) = mc_user_base_addr c"
proof -
  note s = assms [unfolded setup_pow2_def]
  have n: "n < 64" and m: "m < 64" using s by simp_all
  have pos: "0 < (2 :: nat) ^ m" by simp
  have "unat (mc_user_base_addr c) + 2 ^ n < 2 ^ 64" using s pos by linarith
  then have base: "unat (mc_private_base_addr c) = unat (mc_user_base_addr c) + 2 ^ n"
    using s unat_exp_64 [OF n] by (simp add: unat_word_ariths)
  have fits: "unat (mc_user_base_addr c) + 2 ^ n \<le> 2 ^ 64" "unat (mc_private_base_addr c) + 2 ^ m \<le> 2 ^ 64" using s base pos by linarith+
  have "heap_bytes h \<inter> heap_bytes h' = {}" if "bh_max_order h = n" "symmetric_heap h = mc_user_base_addr c" "symmetric_heap h' = mc_private_base_addr c" for h h'
    unfolding heap_bytes_def bytes_at_def that base by auto
  then show ?thesis
    using init_heaps [of c n m junk] s fits log2_pow2 [OF n] log2_pow2 [OF m] pow2_nonzero [OF n] by auto
qed

definition only_private :: "memheap_buddy_module \<Rightarrow> memheap_buddy_module \<Rightarrow> bool" where
  "only_private mb mb' \<longleftrightarrow> same_place (mb_private_heap mb) (mb_private_heap mb') \<and> mb_heap mb' = mb_heap mb"

lemma private_alloc_keeps:
  assumes "heap_inv (mb_private_heap mb)"
  shows "\<exists>rc p mb'. mca_memheap_buddy_private_alloc mem sz mb = Some (rc, p, mb') \<and> heap_inv (mb_private_heap mb') \<and> only_private mb mb'"
  using alloc_spec [OF assms, of mem "memheap_buddy_find_order sz"] assms
  by (cases "can_alloc mem (memheap_buddy_find_order sz) (mb_private_heap mb)") (auto simp: mca_memheap_buddy_private_alloc_def only_private_def)

lemma private_free_keeps:
  assumes "heap_inv (mb_private_heap mb)"
  shows "\<exists>rc mb'. mca_memheap_buddy_private_free p mb = Some (rc, mb') \<and> heap_inv (mb_private_heap mb') \<and> only_private mb mb'"
  using free_spec [OF assms, of p] assms
  by (cases "p = 0"; cases "live (mb_private_heap mb) p") (auto simp: mca_memheap_buddy_private_free_def only_private_def)

lemma align_keeps:
  assumes "heap_inv (mb_heap mb)" "sz \<le> push_bit 63 1"
  shows "\<exists>rc p mb'. mca_memheap_buddy_align mem al sz mb = Some (rc, p, mb') \<and> heap_inv (mb_heap mb') \<and> only_user mb mb'"
proof -
  have "unat sz \<le> 2 ^ 63" using assms(2) unat_exp_64 [of 63] by (simp add: word_le_nat_alt)
  then have small: "\<not> memheap_buddy_find_order sz \<ge> 64" using find_order_fits [of sz 63] by simp
  have "\<exists>rc p h'. do_alloc mem order (mb_heap mb) = Some (rc, p, h') \<and> heap_inv h' \<and> same_place (mb_heap mb) h'" for order
    using alloc_spec [OF assms(1), of mem order] assms(1) by (cases "can_alloc mem order (mb_heap mb)") auto
  from this [of "if al > push_bit (memheap_buddy_find_order sz) 1 then memheap_buddy_find_order al else memheap_buddy_find_order sz"]
  show ?thesis using small assms(1) by (auto simp: mca_memheap_buddy_align_def only_user_def Let_def)
qed

lemma step_keeps:
  assumes "module_inv mb" "op_ok op"
  shows "\<exists>mb'. shmem_step op mb = Some mb' \<and> module_inv mb' \<and> same_places mb mb'"
proof -
  have inv: "heap_inv (mb_heap mb)" "heap_inv (mb_private_heap mb)" using assms(1) by (simp_all add: module_inv_def)
  have user: "module_inv mb' \<and> same_places mb mb'" if "heap_inv (mb_heap mb')" "only_user mb mb'" for mb'
    using that inv(2) only_user_places [OF that(2)] by (simp add: module_inv_def only_user_def)
  have other: "module_inv mb' \<and> same_places mb mb'" if "heap_inv (mb_private_heap mb')" "only_private mb mb'" for mb'
    using that inv(1) by (simp add: module_inv_def same_places_def only_private_def)
  show ?thesis
  proof (cases op)
    case (Shmalloc mem sz)
    then show ?thesis using user_alloc_spec [OF inv(1) refl, of mem sz] user [of mb] user inv(1)
      by (cases "can_alloc mem (memheap_buddy_find_order sz) (mb_heap mb)") auto
  next
    case (Shmemalign mem al sz)
    then show ?thesis using align_keeps [OF inv(1), of sz mem al] assms(2) user by auto
  next
    case (Shfree p)
    then show ?thesis using user_free_spec [OF inv(1), of p] user [of mb] user inv(1) by (cases "live (mb_heap mb) p") auto
  next
    case (Shrealloc mem tmp sz p memory)
    obtain rc q m' mb' where "mca_memheap_buddy_realloc mem tmp sz p memory mb = Some (rc, q, m', mb')" "heap_inv (mb_heap mb')" "only_user mb mb'"
      using realloc_spec [OF inv(1), of mem tmp sz p memory] by auto
    then show ?thesis using Shrealloc user by auto
  next
    case (Private_alloc mem sz)
    then show ?thesis using private_alloc_keeps [OF inv(2), of mem sz] other by auto
  next
    case (Private_free p)
    then show ?thesis using private_free_keeps [OF inv(2), of p] other by auto
  qed
qed

lemma run_keeps:
  assumes "module_inv mb" "\<forall>op \<in> set ops. op_ok op"
  shows "\<exists>mb'. shmem_run ops mb = Some mb' \<and> module_inv mb' \<and> same_places mb mb'"
  using assms
proof (induction ops arbitrary: mb)
  case Nil
  then show ?case by (simp add: shmem_run_def same_places_def)
next
  case (Cons op ops)
  obtain mb1 where 1: "shmem_step op mb = Some mb1" "module_inv mb1" "same_places mb mb1"
    using step_keeps [OF Cons.prems(1), of op] Cons.prems(2) by auto
  obtain mb2 where "shmem_run ops mb1 = Some mb2" "module_inv mb2" "same_places mb1 mb2"
    using Cons.IH [OF 1(2)] Cons.prems(2) by auto
  then show ?case using 1 same_places_trans by (auto simp: shmem_run_def)
qed

lemma started_inv:
  assumes "setup_pow2 c n m" "started c mb"
  shows "module_inv mb" "heap_ok (mb_heap mb) {(n, 0)} {}" "heap_ok (mb_private_heap mb) {(m, 0)} {}"
    "heap_bytes (mb_heap mb) \<inter> heap_bytes (mb_private_heap mb) = {}"
    "bh_max_order (mb_heap mb) = n" "bh_min_order (mb_heap mb) = 3" "symmetric_heap (mb_heap mb) = mc_user_base_addr c"
proof -
  obtain junk where "mca_memheap_buddy_module_init True (Some junk) (Some c) = Some (OSHMEM_SUCCESS, Some mb)" using assms(2) by (auto simp: started_def)
  then show "heap_ok (mb_heap mb) {(n, 0)} {}" "heap_ok (mb_private_heap mb) {(m, 0)} {}" "heap_bytes (mb_heap mb) \<inter> heap_bytes (mb_private_heap mb) = {}"
    "bh_max_order (mb_heap mb) = n" "bh_min_order (mb_heap mb) = 3" "symmetric_heap (mb_heap mb) = mc_user_base_addr c"
    using init_pow2 [OF assms(1), of junk] by auto
  then show "module_inv mb" unfolding module_inv_def heap_inv_def by blast
qed

section \<open>What holds after any run\<close>

lemma live_iff: "heap_ok h F A \<Longrightarrow> live h p = Some k \<longleftrightarrow> (\<exists>i. (k, i) \<in> A \<and> p = block_addr h (k, i))"
  by (simp add: heap_ok_def)

lemma live_subset:
  assumes "heap_ok h F A" "heap_ok h' G B" "live h = live h'" "block_addr h' = block_addr h" "bh_max_order h' = bh_max_order h"
    "bh_min_order h' = bh_min_order h"
  shows "A \<subseteq> B"
proof
  fix b assume b: "b \<in> A"
  obtain k i where ki: "b = (k, i)" by (cases b)
  have "live h (block_addr h (k, i)) = Some k" unfolding live_iff [OF assms(1)] using b ki by blast
  then obtain j where j: "(k, j) \<in> B" "block_addr h (k, i) = block_addr h' (k, j)" unfolding assms(3) live_iff [OF assms(2)] by blast
  have "unat (block_addr h (k, i)) = unat (symmetric_heap h) + i * 2 ^ k" "unat (block_addr h (k, j)) = unat (symmetric_heap h) + j * 2 ^ k"
    using block_addr_unat [OF assms(1)] allocated_valid [OF assms(1), of b] allocated_valid [OF assms(2), of "(k, j)"] b ki j(1) assms(5,6) by auto
  moreover have "block_addr h (k, i) = block_addr h (k, j)" using j(2) unfolding assms(4) .
  ultimately have "i * 2 ^ k = j * 2 ^ k" by (metis add_left_cancel)
  then have "i = j" by simp
  then show "b \<in> B" using j(1) ki by simp
qed

lemma live_determines:
  assumes "heap_inv h" "heap_inv h'" "same_place h h'" "live h = live h'"
  shows "bh_bits h' = bh_bits h \<and> bh_num_free h' = bh_num_free h"
proof -
  obtain F A G B where ok: "heap_ok h F A" "heap_ok h' G B" using assms(1,2) by (auto simp: heap_inv_def)
  have place: "bh_max_order h' = bh_max_order h" "bh_min_order h' = bh_min_order h" "symmetric_heap h' = symmetric_heap h"
    using assms(3) by (simp_all add: same_place_def)
  have addr: "block_addr h' = block_addr h" by (simp add: block_addr_def place fun_eq_iff)
  from live_subset [OF ok assms(4) addr place(1,2)] live_subset [OF ok(2,1) assms(4) [symmetric] addr [symmetric] place(1,2) [symmetric]]
  have AB: "A = B" by blast
  have "F = G" using free_blocks_unique [of _ _ F A G] ok place AB unfolding heap_ok_def by metis
  let ?g = "h'\<lparr>symmetric_heap_hashtable := symmetric_heap_hashtable h\<rparr>"
  have "represents h F" using ok(1) by (simp add: heap_ok_def)
  moreover have "represents ?g F" using ok(2) \<open>F = G\<close> by (simp add: heap_ok_def)
  moreover have "same_frame h ?g" using place by (simp add: same_frame_def)
  ultimately have "?g = h" by (rule represents_unique)
  then have "bh_bits ?g = bh_bits h" "bh_num_free ?g = bh_num_free h" by simp_all
  then show ?thesis by simp
qed

definition heap_disjoint :: "buddy_heap \<Rightarrow> bool" where
  "heap_disjoint h \<longleftrightarrow> (\<forall>p k. live h p = Some k \<longrightarrow>
     bytes_at (unat p) k \<subseteq> heap_bytes h \<and> 2 ^ k dvd unat p - unat (symmetric_heap h) \<and>
     (\<forall>q l. live h q = Some l \<and> q \<noteq> p \<longrightarrow> bytes_at (unat p) k \<inter> bytes_at (unat q) l = {}))"

lemma inv_disjoint: "heap_inv h \<Longrightarrow> heap_disjoint h"
  unfolding heap_disjoint_def using live_block_facts live_apart by (metis (no_types, lifting))

lemma fresh_can_alloc:
  assumes "heap_ok h F {}" "alloc_order h order \<le> bh_max_order h"
  shows "can_alloc True order h"
proof -
  have "has_room h (alloc_order h order)" unfolding has_room_def live_empty_map [OF assms(1)] by (intro exI [of _ 0]) simp
  then show ?thesis using assms(2) by (simp add: can_alloc_def can_insert_def)
qed

lemma find_order_eqI:
  assumes "unat sz \<le> 2 ^ Suc k" "2 ^ k < unat sz"
  shows "memheap_buddy_find_order sz = Suc k"
proof -
  have "memheap_buddy_find_order sz \<le> Suc k" "\<not> memheap_buddy_find_order sz \<le> k" using assms find_order_fits by auto
  then show ?thesis by simp
qed

text \<open>An example: 1 MB for the user and 2 MB for the library, at address \<open>2 ^ 32\<close>.\<close>

definition example_context :: memheap_context_t where
  "example_context = \<lparr>mc_user_base_addr = push_bit 32 1, mc_private_base_addr = push_bit 32 1 + push_bit 20 1,
     mc_user_size = push_bit 20 1, mc_private_size = push_bit 21 1\<rparr>"

lemma example_setup: "setup_pow2 example_context 20 21"
proof -
  have "unat (push_bit 32 1 :: 64 word) = 2 ^ 32" by (rule unat_exp_64) simp
  then show ?thesis by (simp add: setup_pow2_def example_context_def)
qed

lemma example_started: "\<exists>mb. started example_context mb"
  using init_pow2 [OF example_setup, of "[]"] by (auto simp: started_def)

lemma example_alloc:
  "\<exists>mb0 p mb. started example_context mb0 \<and> p \<noteq> 0 \<and> mca_memheap_buddy_alloc True 100 mb0 = Some (OSHMEM_SUCCESS, p, mb) \<and> heap_inv (mb_heap mb) \<and>
     live (mb_heap mb0) p = None \<and> live (mb_heap mb) = (live (mb_heap mb0))(p \<mapsto> 7) \<and> can_alloc True 7 (mb_heap mb) \<and> bh_min_order (mb_heap mb) = 3 \<and> only_user mb0 mb"
proof -
  obtain mb0 where mb0: "started example_context mb0" using example_started by blast
  note st = started_inv [OF example_setup mb0]
  have inv: "heap_inv (mb_heap mb0)" using st(1) by (simp add: module_inv_def)
  have order: "alloc_order (mb_heap mb0) (memheap_buddy_find_order 100) = 7" using find_order_eqI [of 100 6] by (simp add: alloc_order_def st(6))
  have "can_alloc True (memheap_buddy_find_order 100) (mb_heap mb0)" by (rule fresh_can_alloc [OF st(2)]) (simp add: order st(5))
  then obtain p mb where a: "mca_memheap_buddy_alloc True 100 mb0 = Some (OSHMEM_SUCCESS, p, mb)" "heap_inv (mb_heap mb)" "live (mb_heap mb0) p = None"
    "live (mb_heap mb) = (live (mb_heap mb0))(p \<mapsto> 7)" "only_user mb0 mb"
    using user_alloc_spec [OF inv refl, of True 100] unfolding order by auto
  have "unat p \<in> bytes_at (unat p) 7" by (simp add: bytes_at_def)
  moreover have "bytes_at (unat p) 7 \<subseteq> heap_bytes (mb_heap mb)" using live_block_facts(3) [OF a(2), of p 7] a(4) by simp
  ultimately have "unat p \<in> heap_bytes (mb_heap mb0)" using a(5) heap_bytes_place unfolding only_user_def by blast
  then have "p \<noteq> 0" using st(7) unat_exp_64 [of 32] by (auto simp: heap_bytes_def bytes_at_def example_context_def)
  moreover have "can_alloc True 7 (mb_heap mb)"
  proof -
    have place: "symmetric_heap (mb_heap mb) = push_bit 32 1" "bh_max_order (mb_heap mb) = 20" "bh_min_order (mb_heap mb) = 3"
      using a(5) st(5-7) by (simp_all add: only_user_def same_place_def example_context_def)
    let ?b = "unat (push_bit 32 1 :: 64 word)"
    have at: "2 ^ 7 dvd unat p - ?b" "?b \<le> unat p"
      using live_block_facts(3,4) [OF a(2), of p 7] a(4) place by (auto simp: heap_bytes_def bytes_at_def)
    have "\<exists>i < 2 ^ (20 - 7). bytes_at (?b + i * 2 ^ 7) 7 \<inter> bytes_at (unat p) 7 = {}"
    proof (cases "unat p = ?b")
      case True
      then show ?thesis by (intro exI [of _ 1]) (simp add: bytes_at_def)
    next
      case False
      then have "?b + 2 ^ 7 \<le> unat p" using at by (auto dest!: dvd_imp_le)
      then show ?thesis by (intro exI [of _ 0]) (simp add: bytes_at_def)
    qed
    then have "has_room (mb_heap mb) 7" unfolding has_room_def place a(4) live_empty_map [OF st(2)] by auto
    then show ?thesis using place by (simp add: can_alloc_def can_insert_def alloc_order_def)
  qed
  moreover have "bh_min_order (mb_heap mb) = 3" using a(5) st(6) by (simp add: only_user_def same_place_def)
  ultimately show ?thesis using mb0 a by blast
qed

text \<open>C11: whatever operations follow the initialisation, with whatever arguments, none of them faults, and
  the blocks that are live in a heap are aligned to their size, lie within the heap and do not overlap;
  the heap of the user and that of the library do not overlap either. (The sizes are powers of two and
  the heaps adjacent.)\<close>

theorem shmem_blocks_disjoint:
  assumes "setup_pow2 c n m" "started c mb0" "\<forall>op \<in> set ops. op_ok op"
  shows "\<exists>mb. shmem_run ops mb0 = Some mb \<and> heap_disjoint (mb_heap mb) \<and> heap_disjoint (mb_private_heap mb) \<and>
    heap_bytes (mb_heap mb) \<inter> heap_bytes (mb_private_heap mb) = {}"
proof -
  note st = started_inv [OF assms(1,2)]
  obtain mb where mb: "shmem_run ops mb0 = Some mb" "module_inv mb" "same_places mb0 mb" using run_keeps [OF st(1) assms(3)] by blast
  have "heap_bytes (mb_heap mb) \<inter> heap_bytes (mb_private_heap mb) = {}"
    using st(4) mb(3) heap_bytes_place unfolding same_places_def by metis
  then show ?thesis using mb(1,2) inv_disjoint unfolding module_inv_def by blast
qed

theorem shmem_blocks_disjoint_witness:
  "\<exists>mb0 mb. started example_context mb0 \<and> shmem_run [Shmalloc True 100, Shmalloc True 5000, Private_alloc True 8, Shfree 0] mb0 = Some mb \<and>
    heap_disjoint (mb_heap mb)"
proof -
  obtain mb0 where "started example_context mb0" using example_started by blast
  with shmem_blocks_disjoint [OF example_setup this, of "[Shmalloc True 100, Shmalloc True 5000, Private_alloc True 8, Shfree 0]"]
  show ?thesis by auto
qed

text \<open>C25: after any run, an allocation succeeds exactly when the block it needs exists: the smallest power
  of two that is at least 8 and has room for the size, aligned and clear of all live blocks (and the
  hash table can grow). The new block is then live next to the others; otherwise an error is returned
  and nothing has changed.\<close>

theorem shmalloc_exact:
  assumes "setup_pow2 c n m" "started c mb0" "\<forall>op \<in> set ops. op_ok op" "shmem_run ops mb0 = Some mb"
    and "\<And>j. j \<ge> 3 \<and> unat sz \<le> 2 ^ j \<longleftrightarrow> k \<le> j"
  shows "if k \<le> n \<and> has_room (mb_heap mb) k \<and> can_insert mem (mb_heap mb)
    then \<exists>p mb'. mca_memheap_buddy_alloc mem sz mb = Some (OSHMEM_SUCCESS, p, mb') \<and> live (mb_heap mb) p = None \<and>
      live (mb_heap mb') = (live (mb_heap mb))(p \<mapsto> k) \<and> heap_disjoint (mb_heap mb') \<and> mb_private_heap mb' = mb_private_heap mb
    else mca_memheap_buddy_alloc mem sz mb = Some (OSHMEM_ERROR, 0, mb)"
proof -
  note st = started_inv [OF assms(1,2)]
  have mb: "module_inv mb" "same_places mb0 mb" using run_keeps [OF st(1) assms(3)] assms(4) by auto
  then have inv: "heap_inv (mb_heap mb)" and bounds: "bh_max_order (mb_heap mb) = n" "bh_min_order (mb_heap mb) = 3"
    using st(5,6) by (simp_all add: module_inv_def same_places_def same_place_def)
  have "alloc_order (mb_heap mb) (memheap_buddy_find_order sz) \<le> j \<longleftrightarrow> k \<le> j" for j
    using assms(5) [of j] find_order_fits [of sz j] by (auto simp: alloc_order_def bounds)
  then have k: "alloc_order (mb_heap mb) (memheap_buddy_find_order sz) = k" by (metis order_antisym order_refl)
  show ?thesis
    using user_alloc_spec [OF inv refl, of mem sz] inv_disjoint unfolding can_alloc_def k bounds only_user_def by (auto split: if_splits)
qed

theorem shmalloc_exact_witness:
  "\<exists>mb0 p mb'. started example_context mb0 \<and> mca_memheap_buddy_alloc True 100 mb0 = Some (OSHMEM_SUCCESS, p, mb') \<and> live (mb_heap mb') p = Some 7"
proof -
  obtain mb0 where mb0: "started example_context mb0" using example_started by blast
  note st = started_inv [OF example_setup mb0]
  have "memheap_buddy_find_order 100 = 7" using find_order_eqI [of 100 6] by simp
  then have least: "j \<ge> 3 \<and> unat (100 :: 64 word) \<le> 2 ^ j \<longleftrightarrow> 7 \<le> j" for j
    using find_order_fits [of 100 j] by auto
  have "live (mb_heap mb0) = (\<lambda>p. None)" by (rule live_empty_map [OF st(2)])
  then have "has_room (mb_heap mb0) 7" unfolding has_room_def by (intro exI [of _ 0]) simp
  then have "\<exists>p mb'. mca_memheap_buddy_alloc True 100 mb0 = Some (OSHMEM_SUCCESS, p, mb') \<and> live (mb_heap mb') = (live (mb_heap mb0))(p \<mapsto> 7)"
    using shmalloc_exact [OF example_setup mb0 _ _ least, of "[]" mb0 True] by (auto simp: shmem_run_def can_insert_def)
  then show ?thesis using mb0 by auto
qed

text \<open>C26: the bitmaps and counters depend only on which blocks are live, not on how they came about: two
  runs that end with the same live blocks end with the same bitmaps. So releasing a block undoes its
  allocation, and when all blocks are released the heap is one free block again.\<close>

theorem shfree_restores_heap:
  assumes "setup_pow2 c n m" "started c mb0" "\<forall>op \<in> set ops. op_ok op" "\<forall>op \<in> set ops'. op_ok op"
    and "shmem_run ops mb0 = Some mb" "shmem_run ops' mb0 = Some mb'" "live (mb_heap mb) = live (mb_heap mb')"
  shows "bh_bits (mb_heap mb') = bh_bits (mb_heap mb) \<and> bh_num_free (mb_heap mb') = bh_num_free (mb_heap mb)"
proof -
  note st = started_inv [OF assms(1,2)]
  have "module_inv mb \<and> same_places mb0 mb" "module_inv mb' \<and> same_places mb0 mb'"
    using run_keeps [OF st(1) assms(3)] run_keeps [OF st(1) assms(4)] assms(5,6) by auto
  then have "heap_inv (mb_heap mb)" "heap_inv (mb_heap mb')" "same_place (mb_heap mb) (mb_heap mb')"
    by (simp_all add: module_inv_def same_places_def same_place_def)
  then show ?thesis using assms(7) live_determines by blast
qed

theorem shfree_restores_heap_witness:
  "\<exists>mb0 p mb. started example_context mb0 \<and> shmem_run [Shmalloc True 100, Shfree p] mb0 = Some mb \<and> p \<noteq> 0 \<and>
     bh_bits (mb_heap mb) = bh_bits (mb_heap mb0)"
proof -
  obtain mb0 p mb1 where a: "started example_context mb0" "p \<noteq> 0" "mca_memheap_buddy_alloc True 100 mb0 = Some (OSHMEM_SUCCESS, p, mb1)"
    "heap_inv (mb_heap mb1)" "live (mb_heap mb0) p = None" "live (mb_heap mb1) = (live (mb_heap mb0))(p \<mapsto> 7)" using example_alloc by blast
  obtain mb2 where f: "mca_memheap_buddy_free p mb1 = Some (OSHMEM_SUCCESS, mb2)" "live (mb_heap mb2) = (live (mb_heap mb1))(p := None)"
    using user_free_spec [OF a(4), of p] a(6) by auto
  have run: "shmem_run [Shmalloc True 100, Shfree p] mb0 = Some mb2" using a(3) f(1) by (simp add: shmem_run_def)
  have "live (mb_heap mb0) = live (mb_heap mb2)" using a(5,6) f(2) by (auto simp: fun_eq_iff)
  then have "bh_bits (mb_heap mb2) = bh_bits (mb_heap mb0)"
    using shfree_restores_heap [OF example_setup a(1) _ _ _ run, of "[]" mb0] by (simp add: shmem_run_def)
  then show ?thesis using a(1,2) run by blast
qed

text \<open>C27: after any run, \<^verbatim>\<open>realloc\<close> of a live block returns. It succeeds exactly when the block is already large
  enough, or when the smallest block with room for the size can be had: beside the old block (and the hash
  table can grow), or, when the two together would reach the size of the heap, in its place, with the
  contents in a temporary buffer (which must be available). Then the old block gives way to a block with
  room for the size that holds what the old block held, while every other block stays live and keeps its
  contents. Otherwise an error is returned and no byte has changed; the old block stays live, except
  when the contents went through the buffer: then it has been released, and the caller has lost it.\<close>

theorem shrealloc_moves:
  assumes "setup_pow2 c n m" "started c mb0" "\<forall>op \<in> set ops. op_ok op" "shmem_run ops mb0 = Some mb"
    and "\<And>j. j \<ge> 3 \<and> unat sz \<le> 2 ^ j \<longleftrightarrow> l \<le> j"
    and "p \<noteq> 0" "sz \<noteq> 0" "live (mb_heap mb) p = Some k"
  shows "\<exists>rc q memory' mb'. mca_memheap_buddy_realloc mem tmp sz p memory mb = Some (rc, q, memory', mb') \<and> heap_disjoint (mb_heap mb') \<and>
    (if unat sz \<le> 2 ^ k \<or>
        (l \<le> n \<and> (if 2 ^ k + unat sz < 2 ^ n then has_room (mb_heap mb) l \<and> can_insert mem (mb_heap mb)
          else room_beside (mb_heap mb) ((live (mb_heap mb))(p := None)) l \<and> tmp))
     then rc = OSHMEM_SUCCESS \<and> (\<exists>q'. q = Some q' \<and> live (mb_heap mb') = (live (mb_heap mb))(p := None, q' \<mapsto> if unat sz \<le> 2 ^ k then k else l) \<and>
       moved memory memory' (mb_heap mb) (mb_heap mb') p q' k)
     else rc \<noteq> OSHMEM_SUCCESS \<and> memory' = memory \<and>
       live (mb_heap mb') = (if l \<le> n \<and> 2 ^ n \<le> 2 ^ k + unat sz \<and> tmp then (live (mb_heap mb))(p := None) else live (mb_heap mb)))"
proof -
  note st = started_inv [OF assms(1,2)]
  have mb: "module_inv mb" "same_places mb0 mb" using run_keeps [OF st(1) assms(3)] assms(4) by auto
  then have inv: "heap_inv (mb_heap mb)" and bounds: "bh_max_order (mb_heap mb) = n" "bh_min_order (mb_heap mb) = 3"
    using st(5,6) by (simp_all add: module_inv_def same_places_def same_place_def)
  have "alloc_order (mb_heap mb) (memheap_buddy_find_order sz) \<le> j \<longleftrightarrow> l \<le> j" for j
    using assms(5) [of j] find_order_fits [of sz j] by (auto simp: alloc_order_def bounds)
  then have l: "l = alloc_order (mb_heap mb) (memheap_buddy_find_order sz)" by (metis order_antisym order_refl)
  from realloc_live [OF inv assms(8,6,7) l, of mem tmp memory] obtain rc q memory' mb' where
    r: "mca_memheap_buddy_realloc mem tmp sz p memory mb = Some (rc, q, memory', mb')"
    "realloc_result (realloc_fits mem tmp sz p k l (mb_heap mb)) (tmp \<and> l \<le> n \<and> by_buffer (mb_heap mb) sz k)
      p k (if unat sz \<le> 2 ^ k then k else l) memory mb (rc, q, memory', mb')" unfolding bounds by (metis prod_cases4)
  have "heap_disjoint (mb_heap mb')" using r(2) inv_disjoint by (simp add: realloc_result_def)
  then show ?thesis using r
    by (auto simp: realloc_result_def realloc_fits_def by_buffer_def bounds not_less not_le split: if_splits)
qed

theorem shrealloc_moves_witness:
  "\<exists>mb p q memory' mb'. live (mb_heap mb) p = Some 7 \<and> live (mb_heap mb') q = Some 13 \<and>
     mca_memheap_buddy_realloc True False 5000 p (\<lambda>a. ucast a) mb = Some (OSHMEM_SUCCESS, Some q, memory', mb') \<and> memory' (q + 3) = ucast (p + 3)"
proof -
  obtain mb0 p mb where a: "started example_context mb0" "p \<noteq> 0" "mca_memheap_buddy_alloc True 100 mb0 = Some (OSHMEM_SUCCESS, p, mb)"
    "heap_inv (mb_heap mb)" "only_user mb0 mb" "live (mb_heap mb) = (live (mb_heap mb0))(p \<mapsto> 7)" using example_alloc by blast
  note st = started_inv [OF example_setup a(1)]
  have run: "shmem_run [Shmalloc True 100] mb0 = Some mb" using a(3) by (simp add: shmem_run_def)
  have live: "live (mb_heap mb) = [p \<mapsto> 7]" using a(6) live_empty_map [OF st(2)] by simp
  have place: "symmetric_heap (mb_heap mb) = push_bit 32 1" "bh_max_order (mb_heap mb) = 20"
    using a(5) st(5-7) by (simp_all add: only_user_def same_place_def example_context_def)
  let ?b = "unat (push_bit 32 1 :: 64 word)"
  have at: "2 ^ 7 dvd unat p - ?b" "?b \<le> unat p"
    using live_block_facts(3,4) [OF a(4), of p 7] live place by (auto simp: heap_bytes_def bytes_at_def)
  obtain d where "unat p - ?b = 2 ^ 7 * d" using at(1) by (rule dvdE)
  then have d: "unat p = ?b + 128 * d" using at(2) by simp
  have room: "has_room (mb_heap mb) 13" unfolding has_room_def place live
    by (rule exI [of _ "if d < 64 then 1 else 0"]) (auto simp: d bytes_at_def)
  have "memheap_buddy_find_order 5000 = 13" using find_order_eqI [of 5000 12] by simp
  then have least: "j \<ge> 3 \<and> unat (5000 :: 64 word) \<le> 2 ^ j \<longleftrightarrow> 13 \<le> j" for j
    using find_order_fits [of 5000 j] by auto
  from shrealloc_moves [OF example_setup a(1) _ run least a(2), of 7 True False "\<lambda>a. ucast a"] live room obtain rc q memory' mb' where
    r: "mca_memheap_buddy_realloc True False 5000 p (\<lambda>a. ucast a) mb = Some (rc, q, memory', mb')" "rc = OSHMEM_SUCCESS"
    "\<exists>q'. q = Some q' \<and> live (mb_heap mb') q' = Some 13 \<and> moved (\<lambda>a. ucast a) memory' (mb_heap mb) (mb_heap mb') p q' 7"
    by (auto simp: can_insert_def)
  from r(3) obtain q' where q': "q = Some q'" "live (mb_heap mb') q' = Some 13" "\<forall>i. unat i < 2 ^ 7 \<longrightarrow> memory' (q' + i) = ucast (p + i)"
    by (auto simp: moved_def)
  have "memory' (q' + 3) = ucast (p + 3)" using q'(3) by simp
  then show ?thesis using r(1,2) q'(1,2) live
    by (intro exI [of _ mb] exI [of _ p] exI [of _ q'] exI [of _ memory'] exI [of _ mb']) simp
qed

end
