(* ===== verification/Memheap_Limits.thy ===== *)
theory Memheap_Limits
  imports Memheap_Runs
begin

text \<open>Three ways in which the symmetric heap of OpenSHMEM breaks its promise.\<close>

section \<open>Sizes that are not a power of two\<close>

text \<open>
  \<^verbatim>\<open>memheap_base_select.c\<close> places the heap of the library right behind the size the user asked for, a
  multiple of 2 MB; the allocator rounds that size up to a power of two.
\<close>

definition setup_adjacent :: "memheap_context_t \<Rightarrow> nat \<Rightarrow> nat \<Rightarrow> bool" where
  "setup_adjacent c n m \<longleftrightarrow> 3 \<le> n \<and> n \<le> 31 \<and> 3 \<le> m \<and> m \<le> 31 \<and> 2 ^ (n - 1) < unat (mc_user_size c) \<and> unat (mc_user_size c) < 2 ^ n \<and>
     mc_private_size c = push_bit m 1 \<and> mc_private_base_addr c = mc_user_base_addr c + mc_user_size c \<and>
     unat (mc_user_base_addr c) + 2 ^ n + 2 ^ m \<le> 2 ^ 64"

lemma log2_between:
  assumes "2 ^ k < unat w" "unat w < 2 ^ Suc k"
  shows "memheap_log2 w = Suc k"
  unfolding log2_eq_find_order using assms by (intro find_order_eqI) simp_all

lemma alloc_whole:
  assumes "heap_ok h F {}" "order = bh_max_order h"
  shows "\<exists>h'. do_alloc True order h = Some (OSHMEM_SUCCESS, symmetric_heap h, h') \<and> live h' (symmetric_heap h) = Some (bh_max_order h)"
proof -
  have inv: "heap_inv h" using assms(1) by (auto simp: heap_inv_def)
  have "bh_min_order h \<le> bh_max_order h" using assms(1) by (simp add: heap_ok_def represents_def)
  then have order: "alloc_order h order = bh_max_order h" by (simp add: alloc_order_def assms(2))
  have can: "can_alloc True order h" by (rule fresh_can_alloc [OF assms(1)]) (simp add: order)
  obtain p h' where p: "do_alloc True order h = Some (OSHMEM_SUCCESS, p, h')" "heap_inv h'" "same_place h h'" "live h' p = Some (bh_max_order h)"
    using alloc_spec [OF inv, of True order] can order by auto
  have "bytes_at (unat p) (bh_max_order h) \<subseteq> bytes_at (unat (symmetric_heap h)) (bh_max_order h)"
    using live_block_facts(3) [OF p(2,4)] p(3) by (simp add: heap_bytes_def same_place_def)
  then have "unat p = unat (symmetric_heap h)" unfolding bytes_at_def by (simp add: ivl_subset)
  then have "p = symmetric_heap h" by (simp add: word_unat_eq_iff)
  then show ?thesis using p(1,4) by blast
qed

text \<open>C36: with a size that is not a power of two the allocator takes the heap of the user to be larger than
  it is: the allocation of that larger size succeeds, and the block contains the beginning of the heap of
  the library, whose whole memory can be allocated as well. Both blocks are live at the same time.\<close>

theorem shmem_heaps_overlap:
  assumes "setup_adjacent c n m" "started c mb"
  shows "\<exists>mb1 mb2. mca_memheap_buddy_alloc True (push_bit n 1) mb = Some (OSHMEM_SUCCESS, mc_user_base_addr c, mb1) \<and>
    mca_memheap_buddy_private_alloc True (push_bit m 1) mb1 = Some (OSHMEM_SUCCESS, mc_private_base_addr c, mb2) \<and>
    live (mb_heap mb2) (mc_user_base_addr c) = Some n \<and> live (mb_private_heap mb2) (mc_private_base_addr c) = Some m \<and>
    unat (mc_private_base_addr c) \<in> bytes_at (unat (mc_user_base_addr c)) n"
proof -
  note s = assms(1) [unfolded setup_adjacent_def]
  have n: "n < 64" and m: "m < 64" using s by simp_all
  obtain k where k: "n = Suc k" using s by (cases n) auto
  have log: "memheap_log2 (mc_user_size c) = n" using s log2_between [of k "mc_user_size c"] k by simp
  have log': "memheap_log2 (mc_private_size c) = m" using s log2_pow2 [OF m] by simp
  have base: "unat (mc_private_base_addr c) = unat (mc_user_base_addr c) + unat (mc_user_size c)" using s by (simp add: unat_word_ariths)
  have "unat (mc_private_base_addr c) + 2 ^ m \<le> 2 ^ 64" "unat (mc_user_base_addr c) + 2 ^ n \<le> 2 ^ 64" using s base by linarith+
  moreover have "mc_user_size c \<noteq> 0" using s by auto
  moreover obtain junk where "mca_memheap_buddy_module_init True (Some junk) (Some c) = Some (OSHMEM_SUCCESS, Some mb)" using assms(2) by (auto simp: started_def)
  ultimately have st: "heap_ok (mb_heap mb) {(n, 0)} {}" "heap_ok (mb_private_heap mb) {(m, 0)} {}" "bh_max_order (mb_heap mb) = n"
    "symmetric_heap (mb_heap mb) = mc_user_base_addr c" "bh_max_order (mb_private_heap mb) = m" "symmetric_heap (mb_private_heap mb) = mc_private_base_addr c"
    using init_heaps [OF log log', of junk] s by auto
  have order: "memheap_buddy_find_order (push_bit n 1) = n" "memheap_buddy_find_order (push_bit m 1) = m"
    using log2_pow2 [OF n] log2_pow2 [OF m] by (simp_all only: log2_eq_find_order)
  obtain h where h: "do_alloc True n (mb_heap mb) = Some (OSHMEM_SUCCESS, mc_user_base_addr c, h)" "live h (mc_user_base_addr c) = Some n"
    using alloc_whole [OF st(1), of n] unfolding st by auto
  obtain h' where h': "do_alloc True m (mb_private_heap mb) = Some (OSHMEM_SUCCESS, mc_private_base_addr c, h')" "live h' (mc_private_base_addr c) = Some m"
    using alloc_whole [OF st(2), of m] unfolding st by auto
  have "unat (mc_private_base_addr c) \<in> bytes_at (unat (mc_user_base_addr c)) n" unfolding base bytes_at_def using s by simp
  moreover have "mca_memheap_buddy_alloc True (push_bit n 1) mb = Some (OSHMEM_SUCCESS, mc_user_base_addr c, mb\<lparr>mb_heap := h\<rparr>)"
    unfolding mca_memheap_buddy_alloc_def order using h(1) by simp
  moreover have "mca_memheap_buddy_private_alloc True (push_bit m 1) (mb\<lparr>mb_heap := h\<rparr>) =
    Some (OSHMEM_SUCCESS, mc_private_base_addr c, mb\<lparr>mb_heap := h, mb_private_heap := h'\<rparr>)"
    unfolding mca_memheap_buddy_private_alloc_def order using h'(1) by simp
  ultimately show ?thesis using h(2) h'(2) by simp
qed

text \<open>6 MB for the user.\<close>

definition six_megabytes :: memheap_context_t where
  "six_megabytes = \<lparr>mc_user_base_addr = push_bit 32 1, mc_private_base_addr = push_bit 32 1 + 6291456, mc_user_size = 6291456,
     mc_private_size = push_bit 21 1\<rparr>"

theorem shmem_heaps_overlap_witness:
  "\<exists>mb mb1 mb2. started six_megabytes mb \<and> mca_memheap_buddy_alloc True (push_bit 23 1) mb = Some (OSHMEM_SUCCESS, push_bit 32 1, mb1) \<and>
    mca_memheap_buddy_private_alloc True (push_bit 21 1) mb1 = Some (OSHMEM_SUCCESS, push_bit 32 1 + 6291456, mb2)"
proof -
  have u: "unat (push_bit 32 1 :: 64 word) = 2 ^ 32" by (rule unat_exp_64) simp
  then have adjacent: "setup_adjacent six_megabytes 23 21" by (simp add: setup_adjacent_def six_megabytes_def)
  have p: "unat (mc_private_base_addr six_megabytes) = 2 ^ 32 + 6291456" using u by (simp add: six_megabytes_def unat_word_ariths)
  have "memheap_log2 (mc_user_size six_megabytes) = 23" using log2_between [of 22 6291456] by (simp add: six_megabytes_def)
  moreover have "memheap_log2 (mc_private_size six_megabytes) = 21" using log2_pow2 [of 21] by (simp add: six_megabytes_def)
  ultimately obtain mb where mb: "mca_memheap_buddy_module_init True (Some []) (Some six_megabytes) = Some (OSHMEM_SUCCESS, Some mb)"
    using init_heaps [of six_megabytes 23 21 "[]"] p u by (auto simp: six_megabytes_def)
  then have "started six_megabytes mb" by (auto simp: started_def)
  from shmem_heaps_overlap [OF adjacent this] this show ?thesis by (auto simp: six_megabytes_def)
qed

section \<open>Resizing that fails\<close>

text \<open>When \<^verbatim>\<open>realloc\<close> asks for more than half of the heap and another block is in the way, it returns an
  error, but the old block has been released before that (the contents were to go through the temporary
  buffer), so the caller loses it.\<close>

lemma shrealloc_failure_loses_block:
  assumes "setup_pow2 c n m" "started c mb0" "\<forall>op \<in> set ops. op_ok op" "shmem_run ops mb0 = Some mb"
    and "p \<noteq> 0" "live (mb_heap mb) p = Some k" "live (mb_heap mb) q = Some l" "q \<noteq> p"
    and "push_bit (n - 1) 1 < sz" "sz \<le> push_bit n 1" "push_bit n 1 \<le> push_bit k 1 + sz"
  shows "\<exists>mb'. mca_memheap_buddy_realloc mem True sz p memory mb = Some (OSHMEM_ERROR, Some 0, memory, mb') \<and>
    live (mb_heap mb') = (live (mb_heap mb))(p := None)"
proof -
  note st = started_inv [OF assms(1,2)]
  have n: "3 \<le> n" "n < 64" using assms(1) by (simp_all add: setup_pow2_def)
  have mb: "module_inv mb" "same_places mb0 mb" using run_keeps [OF st(1) assms(3)] assms(4) by auto
  have inv: "heap_inv (mb_heap mb)" and bounds: "bh_max_order (mb_heap mb) = n" "bh_min_order (mb_heap mb) = 3"
    using mb st(5,6) by (simp_all add: module_inv_def same_places_def same_place_def)
  note p = live_block_facts [OF inv assms(6)] and q = live_block_facts [OF inv assms(7)]
  have "unat q \<in> bytes_at (unat q) l" by (simp add: bytes_at_def)
  then have in_heap: "unat q \<in> heap_bytes (mb_heap mb)" "unat q \<notin> bytes_at (unat p) k"
    using q(3) live_apart [OF inv assms(6,7)] assms(8) by blast+
  have "k < n"
  proof (rule ccontr)
    assume "\<not> k < n"
    then have "k = n" using p(2) bounds by simp
    then have "bytes_at (unat p) k = heap_bytes (mb_heap mb)"
      using p(3) unfolding heap_bytes_def bytes_at_def bounds ivl_subset by auto
    then show False using in_heap by simp
  qed
  then have kn: "k \<le> n - 1" by simp
  have "unat (push_bit k 1 :: 64 word) \<le> unat (push_bit (n - 1) 1 :: 64 word)"
    using kn n unat_exp_64 [of k] unat_exp_64 [of "n - 1"] by (simp add: power_increasing)
  then have "push_bit k 1 \<le> (push_bit (n - 1) 1 :: 64 word)" by (simp only: word_le_nat_alt)
  then have large: "\<not> sz \<le> push_bit k 1" using assms(9) leD order_trans by blast
  have sz: "2 ^ (n - 1) < unat sz" "unat sz \<le> 2 ^ n"
    using assms(9,10) n unat_exp_64 [of "n - 1"] unat_exp_64 [of n] by (simp_all add: word_less_nat_alt word_le_nat_alt)
  have "memheap_buddy_find_order sz = Suc (n - 1)" using sz n by (intro find_order_eqI) simp_all
  then have order: "memheap_buddy_find_order sz = n" using n by simp
  obtain mb1 where f: "mca_memheap_buddy_free p mb = Some (OSHMEM_SUCCESS, mb1)" "heap_inv (mb_heap mb1)" "only_user mb mb1"
    "live (mb_heap mb1) = (live (mb_heap mb))(p := None)"
    using user_free_spec [OF inv, of p] assms(6) by auto
  have bounds1: "bh_max_order (mb_heap mb1) = n" "bh_min_order (mb_heap mb1) = 3" "symmetric_heap (mb_heap mb1) = symmetric_heap (mb_heap mb)"
    using f(3) bounds by (simp_all add: only_user_def same_place_def)
  have "\<not> has_room (mb_heap mb1) n"
  proof
    assume "has_room (mb_heap mb1) n"
    then have "\<And>r l. live (mb_heap mb1) r = Some l \<Longrightarrow> bytes_at (unat (symmetric_heap (mb_heap mb))) n \<inter> bytes_at (unat r) l = {}"
      unfolding has_room_def bounds1 by auto
    from this [of q l] have "heap_bytes (mb_heap mb) \<inter> bytes_at (unat q) l = {}"
      using f(4) assms(7,8) unfolding heap_bytes_def bounds by simp
    then show False using in_heap(1) by (auto simp: bytes_at_def)
  qed
  then have "\<not> can_alloc mem (memheap_buddy_find_order sz) (mb_heap mb1)" using n by (simp add: can_alloc_def alloc_order_def order bounds1)
  then have a: "mca_memheap_buddy_alloc mem sz mb1 = Some (OSHMEM_ERROR, 0, mb1)" using user_alloc_spec [OF f(2) refl, of mem sz] by simp
  have ht: "ht_wf hash_uint64 (symmetric_heap_hashtable (mb_heap mb))" using inv by (auto simp: heap_inv_def heap_ok_def)
  have get: "opal_hash_table_get_value_uint64 (symmetric_heap_hashtable (mb_heap mb)) p = Some (OPAL_SUCCESS, Some k)"
    using u64.get_value_correct [OF ht, of p] assms(6) by (simp add: opal_hash_table_get_value_uint64_def live_def)
  have small: "\<not> (k \<ge> 64 \<or> n \<ge> 64)" using p(6) n by simp
  have nz: "sz \<noteq> 0" "\<not> sz > push_bit n 1" using sz(1) assms(10) by auto
  have "mca_memheap_buddy_realloc mem True sz p memory mb = Some (OSHMEM_ERROR, Some 0, memory, mb1)"
    unfolding mca_memheap_buddy_realloc_def get Let_def if_not_P [OF assms(5)] Option.bind.simps prod.case option.case
      if_not_P [OF nz(1)] if_not_P [OF small] if_not_P [OF large] bounds if_not_P [OF nz(2)] if_P [OF assms(11)] f(1) a
    by (simp add: rc_defs)
  then show ?thesis using f(4) by blast
qed

section \<open>Heaps of more than 4 GB\<close>

text \<open>One allocation of 2 GB from a heap of 8 GB, before addresses are looked at.\<close>

lemma alloc_2GB:
  assumes "represents h F" "buddies 3 33 F A" "bh_max_order h = 33" "bh_min_order h = 3" "ht_wf hash_uint64 (symmetric_heap_hashtable h)"
    and "A \<subseteq> Pair 31 ` J" "finite J" "card J < 4"
  shows "\<exists>i h' F'. do_alloc True 31 h = Some (OSHMEM_SUCCESS, symmetric_heap h + of_nat (i mod 2 * 2 ^ 31), h') \<and> i \<notin> snd ` A \<and> i < 4 \<and>
    represents h' F' \<and> buddies 3 33 F' (insert (31, i) A) \<and> bh_max_order h' = 33 \<and> bh_min_order h' = 3 \<and>
    symmetric_heap h' = symmetric_heap h \<and> ht_wf hash_uint64 (symmetric_heap_hashtable h')"
proof -
  have "\<not> {..<4} \<subseteq> J" using card_mono [OF assms(7), of "{..<4}"] assms(8) by auto
  then obtain j where j: "j < 4" "j \<notin> J" by blast
  have "\<not> meets a (31, j)" if a: "a \<in> A" for a
  proof -
    obtain i where "a = (31, i)" "i \<in> J" using assms(6) a by blast
    then show ?thesis using j(2) by (auto simp: meets_def in_block_def)
  qed
  moreover have "valid_block 3 33 (31, j)" using j(1) by (simp add: valid_block_def)
  ultimately obtain q m where q: "(q, m) \<in> F" "31 \<le> q" using free_cover [OF assms(2), of 31 j] by blast
  obtain i h1 F1 where a: "buddy_alloc_seg 31 h = Some (Some (push_bit 31 (of_nat i)), h1)" "same_frame h h1" "represents h1 F1"
    "buddies_but 3 33 F1 A (31, i)"
    using buddy_alloc_seg_correct [OF assms(1), of A 31] assms(2-4) q by auto
  have frame: "bh_max_order h1 = 33" "bh_min_order h1 = 3" "symmetric_heap h1 = symmetric_heap h" "symmetric_heap_hashtable h1 = symmetric_heap_hashtable h"
    using a(2) assms(3,4) by (simp_all add: same_frame_def)
  have i: "i < 4" "(31, i) \<notin> A" using a(4) by (auto simp: buddies_but_def tiling_def valid_block_def)
  have "i \<notin> snd ` A" using i(2) assms(6) by force
  moreover have wrap: "ucast (push_bit 31 (of_nat i) :: 32 word) = (of_nat (i mod 2 * 2 ^ 31) :: 64 word)"
  proof -
    have "i = 0 \<or> i = 1 \<or> i = 2 \<or> i = 3" using i(1) by linarith
    then show ?thesis by (elim disjE) simp_all
  qed
  let ?p = "symmetric_heap h + of_nat (i mod 2 * 2 ^ 31)"
  obtain ht where ht: "set_value hash_uint64 True (symmetric_heap_hashtable h) ?p 31 = Some (OPAL_SUCCESS, ht)" "ht_wf hash_uint64 ht"
    using u64.set_value_correct [OF assms(5), of True ?p 31] by blast
  have "do_alloc True 31 h = Some (OSHMEM_SUCCESS, ?p, h1\<lparr>symmetric_heap_hashtable := ht\<rparr>)"
    using a(1) ht(1) frame assms(3,4) unfolding do_alloc_def opal_hash_table_set_value_uint64_def
    by (simp add: Let_def wrap del: of_nat_mult)
  ultimately show ?thesis
    using i(1) a(3) buddies_give [OF a(4)] frame ht(2)
    by (intro exI [of _ i] exI [of _ "h1\<lparr>symmetric_heap_hashtable := ht\<rparr>"] exI [of _ F1]) simp
qed

text \<open>C38: the place of a block is computed in 32 bits. In a heap of 8 GB three allocations of 2 GB in a row
  succeed, and two of them return the same address.\<close>

theorem shmem_8GB_hands_out_twice:
  "\<exists>h0 p1 h1 p2 h2 p3 h3. heap_init (Some junk) 33 base = Some h0 \<and> do_alloc True 31 h0 = Some (OSHMEM_SUCCESS, p1, h1) \<and>
    do_alloc True 31 h1 = Some (OSHMEM_SUCCESS, p2, h2) \<and> do_alloc True 31 h2 = Some (OSHMEM_SUCCESS, p3, h3) \<and> (p1 = p2 \<or> p1 = p3 \<or> p2 = p3)"
proof -
  obtain h0 where h0: "heap_init (Some junk) 33 base = Some h0" "represents h0 {(33, 0)}" "bh_max_order h0 = 33" "bh_min_order h0 = 3"
    "ht_wf hash_uint64 (symmetric_heap_hashtable h0)" "symmetric_heap h0 = base"
    using heap_init_correct [of 33 junk base] by (auto simp: MEMHEAP_BASE_MIN_ORDER_def)
  have b0: "buddies 3 33 {(33, 0)} {}" by (rule buddies_start) simp
  obtain i1 h1 F1 where 1: "do_alloc True 31 h0 = Some (OSHMEM_SUCCESS, base + of_nat (i1 mod 2 * 2 ^ 31), h1)" "represents h1 F1"
    "buddies 3 33 F1 {(31, i1)}" "bh_max_order h1 = 33" "bh_min_order h1 = 3" "ht_wf hash_uint64 (symmetric_heap_hashtable h1)" "symmetric_heap h1 = base"
    using alloc_2GB [OF h0(2) b0 h0(3,4,5), of "{}"] h0(6) by auto
  obtain i2 h2 F2 where 2: "do_alloc True 31 h1 = Some (OSHMEM_SUCCESS, base + of_nat (i2 mod 2 * 2 ^ 31), h2)" "represents h2 F2"
    "buddies 3 33 F2 {(31, i2), (31, i1)}" "bh_max_order h2 = 33" "bh_min_order h2 = 3" "ht_wf hash_uint64 (symmetric_heap_hashtable h2)" "symmetric_heap h2 = base"
    using alloc_2GB [OF 1(2,3,4,5,6), of "{i1}"] 1(7) by auto
  have "card {i1, i2} < 4" using card_insert_le_m1 [of 2 "{i2}" i1] by simp
  then obtain i3 h3 where 3: "do_alloc True 31 h2 = Some (OSHMEM_SUCCESS, base + of_nat (i3 mod 2 * 2 ^ 31), h3)"
    using alloc_2GB [OF 2(2,3,4,5,6), of "{i1, i2}"] 2(7) by auto
  have "i1 mod 2 = i2 mod 2 \<or> i1 mod 2 = i3 mod 2 \<or> i2 mod 2 = i3 mod 2" by presburger
  then show ?thesis using h0(1) 1(1) 2(1) 3 by metis
qed

end
