(* ===== verification/Memory_Allocator.thy ===== *)
theory Memory_Allocator
  imports OMPI_Prelude
begin

text \<open>
  What a memory allocator promises its clients, for the allocators of the program: \<open>Allocator_Basic\<close> and
  the symmetric heap (\<open>Memheap_Objects\<close>). A state has a flat memory of bytes and live blocks, an address
  and a number of bytes each. The client allocates, releases, and writes into its live blocks. What it
  sees is a store of separate objects: \<open>objects\<close> maps the address of each live block to its bytes, and
  every operation changes one object only.
\<close>

datatype 'e client_op =
    Allocate 'e nat
  | Release 'e nat
  | Write nat nat "8 word"

text \<open>The abstract store, for which the allocator chooses the address, the size beyond what was asked for
  and the initial bytes.\<close>

inductive object_step :: "'e client_op \<Rightarrow> (nat \<Rightarrow> 8 word list option) \<Rightarrow> (nat \<Rightarrow> 8 word list option) \<Rightarrow> bool" where
  allocated: "s p = None \<Longrightarrow> n \<le> length xs \<Longrightarrow> object_step (Allocate e n) s (s(p \<mapsto> xs))"
| exhausted: "object_step (Allocate e n) s s"
| released: "s p = Some xs \<Longrightarrow> object_step (Release e p) s (s(p := None))"
| written: "s p = Some xs \<Longrightarrow> i < length xs \<Longrightarrow> object_step (Write p i v) s (s(p \<mapsto> xs[i := v]))"

fun object_run :: "'e client_op list \<Rightarrow> (nat \<Rightarrow> 8 word list option) \<Rightarrow> (nat \<Rightarrow> 8 word list option) \<Rightarrow> bool" where
  "object_run [] s s' \<longleftrightarrow> s' = s"
| "object_run (c # cs) s s' \<longleftrightarrow> (\<exists>t. object_step c s t \<and> object_run cs t s')"

definition objects_of :: "(nat \<Rightarrow> nat option) \<Rightarrow> (nat \<Rightarrow> 8 word) \<Rightarrow> nat \<Rightarrow> 8 word list option" where
  "objects_of lv mem p = map_option (\<lambda>n. map (\<lambda>i. mem (p + i)) [0..<n]) (lv p)"

locale memory_allocator =
  fixes inv :: "'s \<Rightarrow> bool"
    and live :: "'s \<Rightarrow> nat \<Rightarrow> nat option"
    and mem :: "'s \<Rightarrow> nat \<Rightarrow> 8 word"
    and env_ok :: "'e \<Rightarrow> nat \<Rightarrow> 's \<Rightarrow> bool"
    and malloc :: "'e \<Rightarrow> nat \<Rightarrow> 's \<Rightarrow> (nat option \<times> 's) option"
    and free :: "'e \<Rightarrow> nat \<Rightarrow> 's \<Rightarrow> 's option"
    and store :: "nat \<Rightarrow> 8 word \<Rightarrow> 's \<Rightarrow> 's"
  assumes malloc_law: "inv s \<Longrightarrow> env_ok e n s \<Longrightarrow> \<exists>r s'. malloc e n s = Some (r, s') \<and> inv s' \<and>
      (case r of None \<Rightarrow> live s' = live s | Some p \<Rightarrow> live s p = None \<and> (\<exists>m. n \<le> m \<and> live s' = (live s)(p \<mapsto> m))) \<and>
      (\<forall>q m i. live s q = Some m \<and> i < m \<longrightarrow> mem s' (q + i) = mem s (q + i))"
    and free_law: "inv s \<Longrightarrow> live s p \<noteq> None \<Longrightarrow> \<exists>s'. free e p s = Some s' \<and> inv s' \<and> live s' = (live s)(p := None) \<and>
      (\<forall>q m i. q \<noteq> p \<and> live s q = Some m \<and> i < m \<longrightarrow> mem s' (q + i) = mem s (q + i))"
    and store_law: "inv s \<Longrightarrow> live s p = Some m \<Longrightarrow> i < m \<Longrightarrow>
      inv (store (p + i) v s) \<and> live (store (p + i) v s) = live s \<and> mem (store (p + i) v s) = (mem s)(p + i := v)"
    and apart_law: "inv s \<Longrightarrow> live s p = Some m \<Longrightarrow> live s q = Some k \<Longrightarrow> p \<noteq> q \<Longrightarrow> {p..<p + m} \<inter> {q..<q + k} = {}"
begin

definition objects :: "'s \<Rightarrow> nat \<Rightarrow> 8 word list option" where
  "objects s = objects_of (live s) (mem s)"

text \<open>An operation the client may call: it releases and writes live blocks only, inside their bounds.\<close>

fun op_allowed :: "'e client_op \<Rightarrow> 's \<Rightarrow> bool" where
  "op_allowed (Allocate e n) s \<longleftrightarrow> env_ok e n s"
| "op_allowed (Release e p) s \<longleftrightarrow> live s p \<noteq> None"
| "op_allowed (Write p i v) s \<longleftrightarrow> (\<exists>m. live s p = Some m \<and> i < m)"

fun op_step :: "'e client_op \<Rightarrow> 's \<Rightarrow> 's option" where
  "op_step (Allocate e n) s = map_option snd (malloc e n s)"
| "op_step (Release e p) s = free e p s"
| "op_step (Write p i v) s = Some (store (p + i) v s)"

fun allowed :: "'e client_op list \<Rightarrow> 's \<Rightarrow> bool" where
  "allowed [] s \<longleftrightarrow> True"
| "allowed (c # cs) s \<longleftrightarrow> op_allowed c s \<and> (case op_step c s of None \<Rightarrow> False | Some s' \<Rightarrow> allowed cs s')"

lemma objects_eqI:
  assumes "\<And>q. q \<noteq> p \<Longrightarrow> live s' q = live s q" "\<And>q m i. q \<noteq> p \<Longrightarrow> live s q = Some m \<Longrightarrow> i < m \<Longrightarrow> mem s' (q + i) = mem s (q + i)"
  shows "objects s' = (objects s)(p := objects s' p)"
proof
  fix q
  show "objects s' q = ((objects s)(p := objects s' p)) q"
  proof (cases "q = p \<or> live s q = None")
    case False
    then obtain m where "q \<noteq> p" "live s q = Some m" by auto
    then show ?thesis using assms by (simp add: objects_def objects_of_def)
  qed (use assms(1) in \<open>auto simp: objects_def objects_of_def\<close>)
qed

lemma step_refines:
  assumes "inv s" "op_allowed c s"
  shows "\<exists>s'. op_step c s = Some s' \<and> inv s' \<and> object_step c (objects s) (objects s')"
proof (cases c)
  case (Allocate e n)
  then have "env_ok e n s" using assms(2) by simp
  from malloc_law [OF assms(1) this] obtain r s' where m: "malloc e n s = Some (r, s')" "inv s'"
    "case r of None \<Rightarrow> live s' = live s | Some p \<Rightarrow> live s p = None \<and> (\<exists>m. n \<le> m \<and> live s' = (live s)(p \<mapsto> m))"
    "\<And>q m i. live s q = Some m \<Longrightarrow> i < m \<Longrightarrow> mem s' (q + i) = mem s (q + i)" by blast
  have "object_step c (objects s) (objects s')"
  proof (cases r)
    case None
    then have lv: "live s' = live s" using m(3) by simp
    have "objects s' q = objects s q" for q
      using m(4) [of q] lv by (cases "live s q") (simp_all add: objects_def objects_of_def)
    then have "objects s' = objects s" by (rule ext)
    then show ?thesis using Allocate by (simp add: exhausted)
  next
    case (Some p)
    then obtain k where k: "live s p = None" "n \<le> k" "live s' = (live s)(p \<mapsto> k)" using m(3) by auto
    have upd: "objects s' = (objects s)(p := objects s' p)" using m(4) k by (intro objects_eqI) auto
    have new: "objects s' p = Some (map (\<lambda>i. mem s' (p + i)) [0..<k])" using k(3) by (simp add: objects_def objects_of_def)
    have "objects s' = (objects s)(p \<mapsto> map (\<lambda>i. mem s' (p + i)) [0..<k])" using upd unfolding new .
    moreover have "objects s p = None" using k(1) by (simp add: objects_def objects_of_def)
    ultimately show ?thesis unfolding Allocate using k(2) by (simp add: object_step.allocated)
  qed
  then show ?thesis using Allocate m by simp
next
  case (Release e p)
  then have lv: "live s p \<noteq> None" using assms(2) by simp
  from free_law [OF assms(1) lv] obtain s' where f: "free e p s = Some s'" "inv s'" "live s' = (live s)(p := None)"
    "\<And>q m i. q \<noteq> p \<Longrightarrow> live s q = Some m \<Longrightarrow> i < m \<Longrightarrow> mem s' (q + i) = mem s (q + i)" by blast
  have upd: "objects s' = (objects s)(p := objects s' p)" using f(3,4) by (intro objects_eqI) auto
  have gone: "objects s' p = None" using f(3) by (simp add: objects_def objects_of_def)
  have "objects s' = (objects s)(p := None)" using upd unfolding gone .
  moreover obtain xs where "objects s p = Some xs" using lv by (auto simp: objects_def objects_of_def)
  ultimately have "object_step c (objects s) (objects s')" unfolding Release by (simp add: object_step.released)
  then show ?thesis using Release f(1,2) by simp
next
  case (Write p i v)
  then obtain m where m: "live s p = Some m" "i < m" using assms(2) by auto
  let ?s = "store (p + i) v s"
  note st = store_law [OF assms(1) m, of v]
  have "mem ?s (q + j) = mem s (q + j)" if "q \<noteq> p" "live s q = Some k" "j < k" for q k j
  proof -
    have "q + j \<noteq> p + i" using apart_law [OF assms(1) m(1) that(2)] that m(2) by (metis IntI atLeastLessThan_iff empty_iff le_add1 nat_add_left_cancel_less)
    then show ?thesis using st by simp
  qed
  then have upd: "objects ?s = (objects s)(p := objects ?s p)" using st by (intro objects_eqI) simp_all
  have "map (\<lambda>j. mem ?s (p + j)) [0..<m] = (map (\<lambda>i. mem s (p + i)) [0..<m])[i := v]"
    using st by (intro nth_equalityI) (auto simp: nth_list_update)
  then have new: "objects ?s p = Some ((map (\<lambda>i. mem s (p + i)) [0..<m])[i := v])"
    using st m(1) by (simp add: objects_def objects_of_def)
  have "objects ?s = (objects s)(p \<mapsto> (map (\<lambda>i. mem s (p + i)) [0..<m])[i := v])" using upd unfolding new .
  moreover have "objects s p = Some (map (\<lambda>i. mem s (p + i)) [0..<m])" using m(1) by (simp add: objects_def objects_of_def)
  ultimately have "object_step c (objects s) (objects ?s)" unfolding Write using m(2) by (simp add: object_step.written)
  then show ?thesis using Write st by simp
qed

lemma run_refines:
  assumes "inv s" "allowed cs s"
  shows "\<exists>s'. ofold op_step cs s = Some s' \<and> inv s' \<and> object_run cs (objects s) (objects s')"
  using assms
proof (induction cs arbitrary: s)
  case (Cons c cs)
  obtain s1 where s1: "op_step c s = Some s1" "inv s1" "object_step c (objects s) (objects s1)"
    using step_refines [OF Cons.prems(1), of c] Cons.prems(2) by auto
  then obtain s2 where "ofold op_step cs s1 = Some s2" "inv s2" "object_run cs (objects s1) (objects s2)"
    using Cons.IH [OF s1(2)] Cons.prems(2) by auto
  then show ?case using s1 by auto
qed simp

end

end
