(* ===== verification/Memheap_Objects.thy ===== *)
theory Memheap_Objects
  imports Memheap_Runs Memory_Allocator
begin

text \<open>
  The symmetric heap of OpenSHMEM as a provider of the contract \<open>memory_allocator\<close>: the module together
  with the memory of its processing element.
\<close>

type_synonym shmem_state = "memheap_buddy_module \<times> (nat \<Rightarrow> 8 word)"

definition shmem_inv :: "shmem_state \<Rightarrow> bool" where
  "shmem_inv s \<longleftrightarrow> heap_inv (mb_heap (fst s))"

definition shmem_blocks :: "shmem_state \<Rightarrow> nat \<Rightarrow> nat option" where
  "shmem_blocks s p = (if p < 2 ^ 64 then map_option (\<lambda>k. 2 ^ k) (live (mb_heap (fst s)) (of_nat p)) else None)"

definition shmem_malloc :: "bool \<Rightarrow> nat \<Rightarrow> shmem_state \<Rightarrow> (nat option \<times> shmem_state) option" where
  "shmem_malloc mem n s = map_option (\<lambda>(rc, p, mb). (if rc = OSHMEM_SUCCESS then Some (unat p) else None, mb, snd s))
     (mca_memheap_buddy_alloc mem (of_nat n) (fst s))"

definition shmem_free :: "bool \<Rightarrow> nat \<Rightarrow> shmem_state \<Rightarrow> shmem_state option" where
  "shmem_free mem p s = map_option (\<lambda>(rc, mb). (mb, snd s)) (mca_memheap_buddy_free (of_nat p) (fst s))"

text \<open>\<^verbatim>\<open>size_t\<close> has 64 bits.\<close>

definition shmem_env_ok :: "bool \<Rightarrow> nat \<Rightarrow> shmem_state \<Rightarrow> bool" where
  "shmem_env_ok mem n s \<longleftrightarrow> n < 2 ^ 64"

definition shmem_store :: "nat \<Rightarrow> 8 word \<Rightarrow> shmem_state \<Rightarrow> shmem_state" where
  "shmem_store a v s = (fst s, (snd s)(a := v))"

lemma unat_of_nat_64: "p < 2 ^ 64 \<Longrightarrow> unat (of_nat p :: 64 word) = p"
  by (simp add: unat_of_nat)

lemma blocks_iff: "shmem_blocks s p = Some m \<longleftrightarrow> (\<exists>w k. p = unat w \<and> live (mb_heap (fst s)) w = Some k \<and> m = 2 ^ k)"
proof
  assume "shmem_blocks s p = Some m"
  then obtain k where "p < 2 ^ 64" "live (mb_heap (fst s)) (of_nat p) = Some k" "m = 2 ^ k"
    by (auto simp: shmem_blocks_def split: if_splits)
  then show "\<exists>w k. p = unat w \<and> live (mb_heap (fst s)) w = Some k \<and> m = 2 ^ k" using unat_of_nat_64 by metis
next
  assume "\<exists>w k. p = unat w \<and> live (mb_heap (fst s)) w = Some k \<and> m = 2 ^ k"
  then show "shmem_blocks s p = Some m" using unsigned_less [where 'b = 64 and 'a = nat] by (auto simp: shmem_blocks_def)
qed

lemma shmem_malloc_law:
  assumes inv: "heap_inv (mb_heap mb)" and n: "n < 2 ^ 64"
  shows "\<exists>r mb'. shmem_malloc mem n (mb, M) = Some (r, mb', M) \<and> heap_inv (mb_heap mb') \<and>
    (case r of None \<Rightarrow> mb' = mb | Some p \<Rightarrow> shmem_blocks (mb, M) p = None \<and>
       (\<exists>m. n \<le> m \<and> shmem_blocks (mb', M) = (shmem_blocks (mb, M))(p \<mapsto> m)))"
proof -
  let ?k = "alloc_order (mb_heap mb) (memheap_buddy_find_order (of_nat n))"
  note spec = user_alloc_spec [OF inv refl, of mem "of_nat n"]
  show ?thesis
  proof (cases "can_alloc mem (memheap_buddy_find_order (of_nat n)) (mb_heap mb)")
    case True
    then obtain p mb' where a: "mca_memheap_buddy_alloc mem (of_nat n) mb = Some (OSHMEM_SUCCESS, p, mb')" "heap_inv (mb_heap mb')"
      "live (mb_heap mb) p = None" "live (mb_heap mb') = (live (mb_heap mb))(p \<mapsto> ?k)" using spec by auto
    have "n \<le> 2 ^ ?k" using alloc_order_room [of "of_nat n" "mb_heap mb"] unat_of_nat_64 [OF n] by simp
    moreover have "shmem_blocks (mb', M) q = ((shmem_blocks (mb, M))(unat p \<mapsto> 2 ^ ?k)) q" for q
      using a(4) unsigned_less [of p, where 'a = nat] unat_of_nat_64 [of q] by (auto simp: shmem_blocks_def)
    then have "shmem_blocks (mb', M) = (shmem_blocks (mb, M))(unat p \<mapsto> 2 ^ ?k)" by (rule ext)
    moreover have "shmem_blocks (mb, M) (unat p) = None" using a(3) by (simp add: shmem_blocks_def)
    ultimately show ?thesis using a(1,2) by (intro exI [of _ "Some (unat p)"] exI [of _ mb']) (auto simp: shmem_malloc_def)
  next
    case False
    then show ?thesis using spec inv by (simp add: shmem_malloc_def OSHMEM_ERROR_def OSHMEM_SUCCESS_def)
  qed
qed

lemma shmem_free_law:
  assumes inv: "heap_inv (mb_heap mb)" and p: "shmem_blocks (mb, M) p \<noteq> None"
  shows "\<exists>mb'. shmem_free e p (mb, M) = Some (mb', M) \<and> heap_inv (mb_heap mb') \<and> shmem_blocks (mb', M) = (shmem_blocks (mb, M))(p := None)"
proof -
  obtain m where "shmem_blocks (mb, M) p = Some m" using p by blast
  then obtain w k where w: "p = unat w" "live (mb_heap mb) w = Some k" unfolding blocks_iff by auto
  then obtain mb' where f: "mca_memheap_buddy_free w mb = Some (OSHMEM_SUCCESS, mb')" "heap_inv (mb_heap mb')"
    "live (mb_heap mb') = (live (mb_heap mb))(w := None)" using user_free_spec [OF inv, of w] by auto
  have "shmem_blocks (mb', M) q = ((shmem_blocks (mb, M))(p := None)) q" for q
    using f(3) w(1) unat_of_nat_64 [of q] by (auto simp: shmem_blocks_def)
  then have "shmem_blocks (mb', M) = (shmem_blocks (mb, M))(p := None)" by (rule ext)
  then show ?thesis using f(1,2) w(1) by (auto simp: shmem_free_def)
qed

interpretation shmem: memory_allocator shmem_inv shmem_blocks snd shmem_env_ok shmem_malloc shmem_free shmem_store
proof (unfold_locales, goal_cases)
  case (1 s e n)
  obtain mb M where s: "s = (mb, M)" by (cases s)
  have "heap_inv (mb_heap mb)" using 1(1) s by (simp add: shmem_inv_def)
  moreover have "n < 2 ^ 64" using 1(2) by (simp add: shmem_env_ok_def)
  ultimately have "\<exists>r mb'. shmem_malloc e n (mb, M) = Some (r, mb', M) \<and> heap_inv (mb_heap mb') \<and>
    (case r of None \<Rightarrow> mb' = mb | Some p \<Rightarrow> shmem_blocks (mb, M) p = None \<and>
       (\<exists>m. n \<le> m \<and> shmem_blocks (mb', M) = (shmem_blocks (mb, M))(p \<mapsto> m)))" by (rule shmem_malloc_law)
  then obtain r mb' where "shmem_malloc e n (mb, M) = Some (r, mb', M)" "heap_inv (mb_heap mb')"
    "case r of None \<Rightarrow> mb' = mb | Some p \<Rightarrow> shmem_blocks (mb, M) p = None \<and> (\<exists>m. n \<le> m \<and> shmem_blocks (mb', M) = (shmem_blocks (mb, M))(p \<mapsto> m))" by blast
  then show ?case unfolding s by (intro exI [of _ r] exI [of _ "(mb', M)"]) (cases r; simp add: shmem_inv_def)
next
  case (2 s p e)
  obtain mb M where s: "s = (mb, M)" by (cases s)
  show ?case using shmem_free_law [of mb M p e] 2 unfolding s by (auto simp: shmem_inv_def)
next
  case (3 s p m i v)
  then show ?case by (simp add: shmem_store_def shmem_inv_def shmem_blocks_def fun_eq_iff)
next
  case (4 s p m q k)
  then obtain v w a b where "p = unat v" "live (mb_heap (fst s)) v = Some a" "m = 2 ^ a" "q = unat w" "live (mb_heap (fst s)) w = Some b" "k = 2 ^ b"
    unfolding blocks_iff by blast
  then show ?case using live_apart [of "mb_heap (fst s)" v a w b] 4(1,4) by (auto simp: shmem_inv_def bytes_at_def)
qed

text \<open>C13: Seen through shmalloc and shfree, the symmetric heap is a store of separate objects: after the initialisation (sizes that are powers of two), whatever sequence of allocations, releases and writes a client performs, as long as it releases and writes only blocks it holds, inside their bounds, every call returns and the contents of its blocks evolve as in the abstract store, where an allocation adds a new object of at least the size asked for or changes nothing, a release removes one object and a write changes one byte of one object.\<close>

theorem shmem_heap_objects:
  assumes "setup_pow2 c n m" "started c mb" "shmem.allowed cs (mb, memory)"
  shows "\<exists>s. ofold shmem.op_step cs (mb, memory) = Some s \<and> object_run cs Map.empty (shmem.objects s)"
proof -
  note st = started_inv [OF assms(1,2)]
  have "shmem_inv (mb, memory)" using st(1) by (simp add: shmem_inv_def module_inv_def)
  moreover have "shmem.objects (mb, memory) = Map.empty"
    by (simp add: shmem.objects_def objects_of_def shmem_blocks_def live_empty_map [OF st(2)] fun_eq_iff)
  ultimately show ?thesis using shmem.run_refines [of "(mb, memory)" cs] assms(3) by auto
qed

theorem shmem_heap_objects_witness:
  "\<exists>mb s. started example_context mb \<and> ofold shmem.op_step [Allocate True 100, Allocate True 5000] (mb, \<lambda>a. 0) = Some s \<and>
     object_run [Allocate True 100, Allocate True 5000] Map.empty (shmem.objects s)"
proof -
  obtain mb where mb: "started example_context mb" using example_started by blast
  have inv: "shmem_inv (mb, \<lambda>a. 0)" using started_inv(1) [OF example_setup mb] by (simp add: shmem_inv_def module_inv_def)
  obtain s1 where "shmem.op_step (Allocate True 100) (mb, \<lambda>a. 0) = Some s1" "shmem_inv s1"
    using shmem.step_refines [OF inv, of "Allocate True 100"] by (auto simp: shmem_env_ok_def)
  moreover from this(2) obtain s2 where "shmem.op_step (Allocate True 5000) s1 = Some s2"
    using shmem.step_refines [of s1 "Allocate True 5000"] by (auto simp: shmem_env_ok_def)
  ultimately have "shmem.allowed [Allocate True 100, Allocate True 5000] (mb, \<lambda>a. 0)" by (simp add: shmem_env_ok_def del: shmem.op_step.simps)
  then show ?thesis using shmem_heap_objects [OF example_setup mb] mb by blast
qed

end
