(* ===== verification/Allocator_Basic.thy ===== *)
theory Allocator_Basic
  imports Memory_Allocator
begin

text \<open>
  The basic allocator of Open MPI's memory pools (\<^verbatim>\<open>ompi/mca/allocator/basic/allocator_basic.c\<close>): a list
  of free segments, searched from its start; before each block the allocator keeps the size of the block
  and this header, in the same memory the client uses.

  Addresses are numbers of bytes, sizes are computed modulo \<open>2 ^ 64\<close>. The memory is kept beside the
  list of the module. Memory that the pool provides
  (\<^verbatim>\<open>seg_alloc\<close>) is an argument: the address and the size it reports, or nothing. \<open>desc\<close> says whether a
  descriptor of a segment can be taken from the free list of descriptors. Registrations are passed on.
\<close>

record basic_segment =
  seg_addr :: nat
  seg_size :: nat

record basic_module =
  seg_list :: "basic_segment list"
  memory :: "nat \<Rightarrow> 8 word"

section \<open>The header\<close>

text \<open>A \<^verbatim>\<open>size_t\<close> in memory, eight bytes, the lowest first.\<close>

definition put_size :: "nat \<Rightarrow> nat \<Rightarrow> (nat \<Rightarrow> 8 word) \<Rightarrow> nat \<Rightarrow> 8 word" where
  "put_size addr n mem = (\<lambda>a. if addr \<le> a \<and> a < addr + 8 then of_nat (n div 256 ^ (a - addr)) else mem a)"

definition get_size :: "nat \<Rightarrow> (nat \<Rightarrow> 8 word) \<Rightarrow> nat" where
  "get_size addr mem = foldr (\<lambda>i n. unat (mem (addr + i)) + 256 * n) [0..<8] 0"

section \<open>Operations\<close>

definition mca_allocator_basic_component_init :: "(nat \<Rightarrow> 8 word) \<Rightarrow> basic_module" where
  "mca_allocator_basic_component_init mem = \<lparr>seg_list = [], memory = mem\<rparr>"

definition block_size :: "nat \<Rightarrow> nat" where
  "block_size n = (let n = (n + 8) mod 2 ^ 64 in (n + (8 - n mod 8)) mod 2 ^ 64)"

text \<open>The first segment that is large enough: its address, and the list without the block.\<close>

fun take_segment :: "nat \<Rightarrow> basic_segment list \<Rightarrow> (nat \<times> basic_segment list) option" where
  "take_segment n [] = None"
| "take_segment n (seg # segs) =
     (if seg_size seg > n then Some (seg_addr seg, seg\<lparr>seg_addr := seg_addr seg + n, seg_size := seg_size seg - n\<rparr> # segs)
      else if seg_size seg = n then Some (seg_addr seg, segs)
      else map_option (\<lambda>(addr, segs). (addr, seg # segs)) (take_segment n segs))"

definition mca_allocator_basic_alloc :: "bool \<Rightarrow> (nat \<times> nat) option \<Rightarrow> nat \<Rightarrow> basic_module \<Rightarrow> nat option \<times> basic_module" where
  "mca_allocator_basic_alloc desc pool n m =
     (let n = block_size n in
      case take_segment n (seg_list m) of
        Some (addr, segs) \<Rightarrow> (Some (addr + 8), m\<lparr>seg_list := segs, memory := put_size addr n (memory m)\<rparr>)
      | None \<Rightarrow>
          (case pool of None \<Rightarrow> (None, m)
           | Some (addr, allocated_size) \<Rightarrow>
               if allocated_size > n \<and> \<not> desc then (None, m)
               else (Some (addr + 8),
                 m\<lparr>seg_list := (if allocated_size > n then seg_list m @ [\<lparr>seg_addr = addr + n, seg_size = allocated_size - n\<rparr>] else seg_list m),
                   memory := put_size addr n (memory m)\<rparr>)))"

fun combine_next :: "basic_segment \<Rightarrow> basic_segment list \<Rightarrow> basic_segment list" where
  "combine_next seg [] = [seg]"
| "combine_next seg (next # segs) =
     (if seg_addr seg + seg_size seg = seg_addr next
      then next\<lparr>seg_addr := seg_addr seg, seg_size := seg_size next + seg_size seg\<rparr> # segs
      else seg # next # segs)"

text \<open>\<open>before\<close> are the segments in front of \<open>seg\<close>.\<close>

definition combine_prev :: "basic_segment list \<Rightarrow> basic_segment \<Rightarrow> basic_segment list" where
  "combine_prev before seg =
     (if before \<noteq> [] \<and> seg_addr (last before) + seg_size (last before) = seg_addr seg
      then butlast before @ [(last before)\<lparr>seg_size := seg_size (last before) + seg_size seg\<rparr>]
      else before @ [seg])"

fun put_segment :: "bool \<Rightarrow> nat \<Rightarrow> nat \<Rightarrow> basic_segment list \<Rightarrow> basic_segment list \<Rightarrow> basic_segment list" where
  "put_segment desc addr n before [] = before @ (if desc then [\<lparr>seg_addr = addr, seg_size = n\<rparr>] else [])"
| "put_segment desc addr n before (seg # segs) =
     (if seg_addr seg < addr then
        if seg_addr seg + seg_size seg = addr then before @ combine_next (seg\<lparr>seg_size := seg_size seg + n\<rparr>) segs
        else put_segment desc addr n (before @ [seg]) segs
      else if addr + n = seg_addr seg then combine_prev before (seg\<lparr>seg_addr := addr, seg_size := seg_size seg + n\<rparr>) @ segs
      else before @ (if desc then [\<lparr>seg_addr = addr, seg_size = n\<rparr>] else []) @ seg # segs)"

definition mca_allocator_basic_free :: "bool \<Rightarrow> nat \<Rightarrow> basic_module \<Rightarrow> basic_module" where
  "mca_allocator_basic_free desc ptr m =
     (let addr = ptr - 8; n = get_size addr (memory m) in m\<lparr>seg_list := put_segment desc addr n [] (seg_list m)\<rparr>)"

definition copy_bytes :: "nat \<Rightarrow> nat \<Rightarrow> nat \<Rightarrow> (nat \<Rightarrow> 8 word) \<Rightarrow> nat \<Rightarrow> 8 word" where
  "copy_bytes dst src n mem = (\<lambda>a. if dst \<le> a \<and> a < dst + n then mem (src + (a - dst)) else mem a)"

definition mca_allocator_basic_realloc :: "bool \<Rightarrow> (nat \<times> nat) option \<Rightarrow> bool \<Rightarrow> nat \<Rightarrow> nat \<Rightarrow> basic_module \<Rightarrow> nat option \<times> basic_module" where
  "mca_allocator_basic_realloc desc pool desc' ptr n m =
     (let alloc_size = get_size (ptr - 8) (memory m) in
      if n \<le> alloc_size then (Some ptr, m)
      else case mca_allocator_basic_alloc desc pool n m of
        (None, m) \<Rightarrow> (None, m)
      | (Some addr, m) \<Rightarrow> (Some addr, mca_allocator_basic_free desc' ptr (m\<lparr>memory := copy_bytes addr ptr alloc_size (memory m)\<rparr>)))"

definition mca_allocator_basic_compact :: "basic_module \<Rightarrow> int" where
  "mca_allocator_basic_compact m = 0"

section \<open>Headers in memory\<close>

lemma foldr_digits: "foldr (\<lambda>i r. v div 256 ^ i mod 256 + 256 * r) [j..<j + k] 0 = v div 256 ^ j mod 256 ^ k" for v :: nat
proof (induction k arbitrary: j)
  case (Suc k)
  have "[j..<j + Suc k] = j # [Suc j..<Suc j + k]" by (simp add: upt_conv_Cons)
  moreover have "v div 256 ^ Suc j = v div 256 ^ j div 256" by (simp only: power_Suc2 div_mult2_eq)
  then have "v div 256 ^ j mod 256 + 256 * (v div 256 ^ Suc j mod 256 ^ k) = v div 256 ^ j mod 256 ^ Suc k"
    by (simp only: power_Suc mod_mult2_eq add.commute)
  ultimately show ?case using Suc.IH [of "Suc j"] by simp
qed simp

lemma get_put_size:
  assumes "n < 2 ^ 64"
  shows "get_size addr (put_size addr n mem) = n"
proof -
  have "get_size addr (put_size addr n mem) = foldr (\<lambda>i r. n div 256 ^ i mod 256 + 256 * r) [0..<0 + 8] 0"
    unfolding get_size_def by (intro foldr_cong) (auto simp: put_size_def unat_of_nat)
  also have "\<dots> = n" unfolding foldr_digits using assms by simp
  finally show ?thesis .
qed

lemma get_size_cong:
  assumes "\<And>i. i < 8 \<Longrightarrow> mem' (addr + i) = mem (addr + i)"
  shows "get_size addr mem' = get_size addr mem"
  unfolding get_size_def using assms by (intro foldr_cong) auto

lemma put_size_outside: "a < addr \<or> addr + 8 \<le> a \<Longrightarrow> put_size addr n mem a = mem a"
  by (auto simp: put_size_def)

lemma block_size_bounds:
  assumes "n + 16 < 2 ^ 64"
  shows "n + 8 < block_size n" "block_size n \<le> n + 16" "block_size n mod 8 = 0"
proof -
  have "block_size n = n + 8 + (8 - (n + 8) mod 8)" using assms by (simp add: block_size_def)
  then show "n + 8 < block_size n" "block_size n \<le> n + 16" "block_size n mod 8 = 0" by simp_all presburger+
qed

section \<open>The free segments\<close>

definition bytes_of :: "basic_segment \<Rightarrow> nat set" where
  "bytes_of s = {seg_addr s..<seg_addr s + seg_size s}"

definition free_bytes :: "basic_segment list \<Rightarrow> nat set" where
  "free_bytes segs = (\<Union>s \<in> set segs. bytes_of s)"

definition segs_apart :: "basic_segment list \<Rightarrow> bool" where
  "segs_apart segs \<longleftrightarrow> sorted_wrt (\<lambda>s t. bytes_of s \<inter> bytes_of t = {}) segs \<and> (\<forall>s \<in> set segs. 0 < seg_size s)"

text \<open>Increasing addresses, with used bytes between any two segments.\<close>

definition segs_gaps :: "basic_segment list \<Rightarrow> bool" where
  "segs_gaps segs \<longleftrightarrow> sorted_wrt (\<lambda>s t. seg_addr s + seg_size s < seg_addr t) segs \<and> (\<forall>s \<in> set segs. 0 < seg_size s)"

lemma free_bytes_simps [simp]:
  "free_bytes [] = {}" "free_bytes (s # segs) = bytes_of s \<union> free_bytes segs" "free_bytes (segs @ segs') = free_bytes segs \<union> free_bytes segs'"
  by (auto simp: free_bytes_def)

lemma segs_apart_Cons [simp]: "segs_apart (s # segs) \<longleftrightarrow> bytes_of s \<inter> free_bytes segs = {} \<and> 0 < seg_size s \<and> segs_apart segs"
  by (auto simp: segs_apart_def free_bytes_def)

lemma segs_apart_Nil [simp]: "segs_apart []"
  by (simp add: segs_apart_def)

lemma segs_apart_append [simp]: "segs_apart (xs @ ys) \<longleftrightarrow> segs_apart xs \<and> segs_apart ys \<and> free_bytes xs \<inter> free_bytes ys = {}"
  by (induction xs) auto

lemma bytes_of_grow:
  "bytes_of (s\<lparr>seg_size := seg_size s + n\<rparr>) = bytes_of s \<union> {seg_addr s + seg_size s..<seg_addr s + seg_size s + n}"
  "bytes_of \<lparr>seg_addr = a, seg_size = n\<rparr> = {a..<a + n}"
  by (auto simp: bytes_of_def)

lemma take_segment_correct:
  assumes "take_segment n segs = Some (addr, segs')" "segs_apart segs" "0 < n"
  shows "segs_apart segs' \<and> free_bytes segs = {addr..<addr + n} \<union> free_bytes segs' \<and> {addr..<addr + n} \<inter> free_bytes segs' = {}"
  using assms
proof (induction segs arbitrary: segs')
  case (Cons s segs)
  consider "seg_size s > n" | "seg_size s = n" | "seg_size s < n" by linarith
  then show ?case
  proof cases
    case 1
    let ?s = "s\<lparr>seg_addr := seg_addr s + n, seg_size := seg_size s - n\<rparr>"
    have "bytes_of s = {seg_addr s..<seg_addr s + n} \<union> bytes_of ?s" "{seg_addr s..<seg_addr s + n} \<inter> bytes_of ?s = {}"
      using 1 by (auto simp: bytes_of_def)
    moreover have "addr = seg_addr s" "segs' = ?s # segs" using Cons.prems(1) 1 by auto
    ultimately show ?thesis using Cons.prems(2) 1 by auto
  next
    case 2
    then have "addr = seg_addr s" "segs' = segs" "bytes_of s = {addr..<addr + n}" using Cons.prems(1) by (auto simp: bytes_of_def)
    then show ?thesis using Cons.prems(2) by auto
  next
    case 3
    then obtain ss where ss: "take_segment n segs = Some (addr, ss)" "segs' = s # ss" using Cons.prems(1) by (auto split: prod.splits)
    have "segs_apart ss \<and> free_bytes segs = {addr..<addr + n} \<union> free_bytes ss \<and> {addr..<addr + n} \<inter> free_bytes ss = {}"
      using Cons.IH [OF ss(1)] Cons.prems(2,3) by simp
    then show ?thesis using Cons.prems(2) ss(2) by auto
  qed
qed simp

text \<open>Taking a segment in, wherever it fits. Without a descriptor it may be lost.\<close>

lemma combine_next_bytes:
  assumes "segs_apart (seg # segs)"
  shows "segs_apart (combine_next seg segs) \<and> free_bytes (combine_next seg segs) = bytes_of seg \<union> free_bytes segs"
proof (cases segs)
  case (Cons t ts)
  show ?thesis
  proof (cases "seg_addr seg + seg_size seg = seg_addr t")
    case True
    then have "bytes_of (t\<lparr>seg_addr := seg_addr seg, seg_size := seg_size t + seg_size seg\<rparr>) = bytes_of seg \<union> bytes_of t" by (auto simp: bytes_of_def)
    then show ?thesis using True Cons assms by auto
  qed (use Cons assms in simp)
qed (use assms in simp)

lemma combine_prev_bytes:
  assumes "segs_apart (before @ [seg])"
  shows "segs_apart (combine_prev before seg) \<and> free_bytes (combine_prev before seg) = free_bytes before \<union> bytes_of seg"
proof (cases "before \<noteq> [] \<and> seg_addr (last before) + seg_size (last before) = seg_addr seg")
  case True
  then obtain ss t where t: "before = ss @ [t]" by (metis append_butlast_last_id)
  have "bytes_of (t\<lparr>seg_size := seg_size t + seg_size seg\<rparr>) = bytes_of t \<union> bytes_of seg" using True t by (auto simp: bytes_of_def)
  then show ?thesis using True t assms by (auto simp: combine_prev_def)
next
  case False
  then have "combine_prev before seg = before @ [seg]" unfolding combine_prev_def by (simp only: if_False)
  then show ?thesis using assms by simp
qed

lemma put_segment_correct:
  assumes "segs_apart (before @ segs)" "{addr..<addr + n} \<inter> free_bytes (before @ segs) = {}" "0 < n"
  shows "segs_apart (put_segment desc addr n before segs) \<and>
    free_bytes (put_segment desc addr n before segs) \<subseteq> free_bytes (before @ segs) \<union> {addr..<addr + n} \<and>
    (desc \<longrightarrow> free_bytes (put_segment desc addr n before segs) = free_bytes (before @ segs) \<union> {addr..<addr + n})"
  using assms
proof (induction segs arbitrary: before)
  case Nil
  then show ?case by (auto simp: bytes_of_grow)
next
  case (Cons s segs)
  consider "seg_addr s < addr" "seg_addr s + seg_size s = addr" | "seg_addr s < addr" "seg_addr s + seg_size s \<noteq> addr"
    | "\<not> seg_addr s < addr" "addr + n = seg_addr s" | "\<not> seg_addr s < addr" "addr + n \<noteq> seg_addr s" by blast
  then show ?case
  proof cases
    case 1
    let ?s = "s\<lparr>seg_size := seg_size s + n\<rparr>"
    have grown: "bytes_of ?s = bytes_of s \<union> {addr..<addr + n}" using 1(2) by (simp add: bytes_of_grow)
    then have "segs_apart (?s # segs)" using Cons.prems by auto
    then show ?thesis using combine_next_bytes [of ?s segs] grown 1 Cons.prems by auto
  next
    case 2
    then show ?thesis using Cons.IH [of "before @ [s]"] Cons.prems by simp
  next
    case 3
    let ?s = "s\<lparr>seg_addr := addr, seg_size := seg_size s + n\<rparr>"
    have grown: "bytes_of ?s = bytes_of s \<union> {addr..<addr + n}" using 3(2) by (auto simp: bytes_of_def)
    then have "segs_apart (before @ [?s])" using Cons.prems by auto
    then show ?thesis using combine_prev_bytes [of before ?s] grown 3 Cons.prems by auto
  next
    case 4
    then show ?thesis using Cons.prems by (auto simp: bytes_of_grow)
  qed
qed

section \<open>The contract\<close>

text \<open>
  Which blocks are live is not recorded by the allocator; it is kept beside it. A block of \<open>n\<close> bytes at
  \<open>p\<close> occupies the eight bytes before \<open>p\<close> as well.
\<close>

definition block_bytes :: "nat \<Rightarrow> nat \<Rightarrow> nat set" where
  "block_bytes p n = {p - 8..<p + n}"

type_synonym basic_state = "basic_module \<times> (nat \<Rightarrow> nat option)"

definition basic_inv :: "basic_state \<Rightarrow> bool" where
  "basic_inv = (\<lambda>(m, L). segs_apart (seg_list m) \<and>
     (\<forall>p n. L p = Some n \<longrightarrow> 8 \<le> p \<and> n + 8 < 2 ^ 64 \<and> get_size (p - 8) (memory m) = n + 8 \<and> block_bytes p n \<inter> free_bytes (seg_list m) = {}) \<and>
     (\<forall>p q n k. L p = Some n \<and> L q = Some k \<and> p \<noteq> q \<longrightarrow> block_bytes p n \<inter> block_bytes q k = {}))"

text \<open>What the pool provides is memory the allocator does not own yet, as much as was asked for.\<close>

definition basic_env_ok :: "bool \<times> (nat \<times> nat) option \<Rightarrow> nat \<Rightarrow> basic_state \<Rightarrow> bool" where
  "basic_env_ok e n s \<longleftrightarrow> n + 16 < 2 ^ 64 \<and> (case snd e of None \<Rightarrow> True
     | Some (a, sz) \<Rightarrow> block_size n \<le> sz \<and> {a..<a + sz} \<inter> free_bytes (seg_list (fst s)) = {} \<and>
         (\<forall>p k. snd s p = Some k \<longrightarrow> {a..<a + sz} \<inter> block_bytes p k = {}))"

definition basic_malloc :: "bool \<times> (nat \<times> nat) option \<Rightarrow> nat \<Rightarrow> basic_state \<Rightarrow> (nat option \<times> basic_state) option" where
  "basic_malloc e n s = (case mca_allocator_basic_alloc (fst e) (snd e) n (fst s) of
     (r, m) \<Rightarrow> Some (r, m, case r of None \<Rightarrow> snd s | Some p \<Rightarrow> (snd s)(p \<mapsto> block_size n - 8)))"

definition basic_release :: "bool \<times> (nat \<times> nat) option \<Rightarrow> nat \<Rightarrow> basic_state \<Rightarrow> basic_state option" where
  "basic_release e p s = Some (mca_allocator_basic_free (fst e) p (fst s), (snd s)(p := None))"

definition basic_store :: "nat \<Rightarrow> 8 word \<Rightarrow> basic_state \<Rightarrow> basic_state" where
  "basic_store a v s = ((fst s)\<lparr>memory := (memory (fst s))(a := v)\<rparr>, snd s)"

lemma basic_invD:
  assumes "basic_inv (m, L)"
  shows "segs_apart (seg_list m)" "\<And>p n. L p = Some n \<Longrightarrow> 8 \<le> p" "\<And>p n. L p = Some n \<Longrightarrow> n + 8 < 2 ^ 64"
    "\<And>p n. L p = Some n \<Longrightarrow> get_size (p - 8) (memory m) = n + 8" "\<And>p n. L p = Some n \<Longrightarrow> block_bytes p n \<inter> free_bytes (seg_list m) = {}"
    "\<And>p q n k. L p = Some n \<Longrightarrow> L q = Some k \<Longrightarrow> p \<noteq> q \<Longrightarrow> block_bytes p n \<inter> block_bytes q k = {}"
  using assms unfolding basic_inv_def prod.case by blast+

text \<open>A new block, wherever it comes from.\<close>

lemma new_block:
  assumes inv: "basic_inv (m, L)" and n: "8 \<le> n" "n < 2 ^ 64" and segs: "segs_apart segs" "{a..<a + n} \<inter> free_bytes segs = {}"
    and old: "\<And>p k. L p = Some k \<Longrightarrow> block_bytes p k \<inter> ({a..<a + n} \<union> free_bytes segs) = {}"
  shows "basic_inv (m\<lparr>seg_list := segs, memory := put_size a n (memory m)\<rparr>, L(a + 8 \<mapsto> n - 8))" "L (a + 8) = None"
    "L q = Some k \<Longrightarrow> i < k \<Longrightarrow> put_size a n (memory m) (q + i) = memory m (q + i)"
proof -
  note D = basic_invD [OF inv]
  have block: "block_bytes (a + 8) (n - 8) = {a..<a + n}" using n by (simp add: block_bytes_def)
  have header: "{a..<a + 8} \<subseteq> {a..<a + n}" using n by simp
  have outside: "put_size a n (memory m) x = memory m x" if "L p = Some k" "x \<in> block_bytes p k" for p k x
  proof -
    have "x \<notin> {a..<a + n}" using old [OF that(1)] that(2) by blast
    then have "x < a \<or> a + 8 \<le> x" using n by auto
    then show ?thesis by (rule put_size_outside)
  qed
  show fresh: "L (a + 8) = None"
  proof (cases "L (a + 8)")
    case (Some k)
    have "a \<in> block_bytes (a + 8) k" "a \<in> {a..<a + n}" using n by (simp_all add: block_bytes_def)
    then show ?thesis using old [OF Some] by blast
  qed
  show "put_size a n (memory m) (q + i) = memory m (q + i)" if "L q = Some k" "i < k" for q k i
    by (rule outside [OF that(1)]) (use that(2) in \<open>simp add: block_bytes_def\<close>)
  have size: "get_size (p - 8) (put_size a n (memory m)) = k + 8" if "L p = Some k" for p k
  proof -
    have "put_size a n (memory m) (p - 8 + i) = memory m (p - 8 + i)" if "i < 8" for i
    proof (rule outside [OF \<open>L p = Some k\<close>])
      show "p - 8 + i \<in> block_bytes p k" unfolding block_bytes_def atLeastLessThan_iff using D(2) [OF \<open>L p = Some k\<close>] that by linarith
    qed
    then have "get_size (p - 8) (put_size a n (memory m)) = get_size (p - 8) (memory m)" by (rule get_size_cong)
    then show ?thesis using D(4) [OF that] by simp
  qed
  have facts: "8 \<le> p \<and> k + 8 < 2 ^ 64 \<and> get_size (p - 8) (put_size a n (memory m)) = k + 8 \<and> block_bytes p k \<inter> free_bytes segs = {}"
    if "(L(a + 8 \<mapsto> n - 8)) p = Some k" for p k
  proof (cases "p = a + 8")
    case True
    then have k: "k = n - 8" using that by simp
    have "k + 8 = n" "8 \<le> p" using n True k by simp_all
    moreover have "get_size (p - 8) (put_size a n (memory m)) = n" using True get_put_size [OF n(2)] by simp
    moreover have "block_bytes p k = {a..<a + n}" using block True k by simp
    ultimately show ?thesis using n(2) segs(2) by simp
  next
    case False
    then have p: "L p = Some k" using that by simp
    then show ?thesis using D(2,3) [OF p] size [OF p] old [OF p] by blast
  qed
  have apart: "block_bytes p k \<inter> block_bytes q l = {}" if pq: "(L(a + 8 \<mapsto> n - 8)) p = Some k" "(L(a + 8 \<mapsto> n - 8)) q = Some l" "p \<noteq> q" for p q k l
  proof -
    consider "p = a + 8" "q \<noteq> a + 8" | "p \<noteq> a + 8" "q = a + 8" | "p \<noteq> a + 8" "q \<noteq> a + 8" using pq(3) by blast
    then show ?thesis
    proof cases
      case 1
      then have "L q = Some l" "block_bytes p k = {a..<a + n}" using pq block by auto
      then show ?thesis using old by blast
    next
      case 2
      then have "L p = Some k" "block_bytes q l = {a..<a + n}" using pq block by auto
      then show ?thesis using old by blast
    next
      case 3
      then show ?thesis using pq D(6) by simp
    qed
  qed
  show "basic_inv (m\<lparr>seg_list := segs, memory := put_size a n (memory m)\<rparr>, L(a + 8 \<mapsto> n - 8))"
    unfolding basic_inv_def prod.case using segs(1) facts apart by (simp del: fun_upd_apply)
qed

lemma basic_malloc_law:
  assumes inv: "basic_inv (m, L)" and env: "basic_env_ok e n (m, L)"
  shows "\<exists>r m' L'. basic_malloc e n (m, L) = Some (r, m', L') \<and> basic_inv (m', L') \<and>
      (case r of None \<Rightarrow> L' = L | Some p \<Rightarrow> L p = None \<and> (\<exists>k. n \<le> k \<and> L' = L(p \<mapsto> k))) \<and>
      (\<forall>q k i. L q = Some k \<and> i < k \<longrightarrow> memory m' (q + i) = memory m (q + i))"
proof -
  note D = basic_invD [OF inv]
  let ?n = "block_size n"
  have n: "n + 8 < ?n" "?n < 2 ^ 64" using env block_size_bounds [of n] by (auto simp: basic_env_ok_def)
  show ?thesis
  proof (cases "take_segment ?n (seg_list m)")
    case (Some r)
    then obtain a segs where t: "take_segment ?n (seg_list m) = Some (a, segs)" by (cases r) auto
    have s: "segs_apart segs" "free_bytes (seg_list m) = {a..<a + ?n} \<union> free_bytes segs" "{a..<a + ?n} \<inter> free_bytes segs = {}"
      using take_segment_correct [OF t D(1)] n(1) by auto
    have "8 \<le> ?n" using n(1) by simp
    note new = new_block [OF inv this n(2) s(1,3) D(5) [unfolded s(2)]]
    have "basic_malloc e n (m, L) = Some (Some (a + 8), m\<lparr>seg_list := segs, memory := put_size a ?n (memory m)\<rparr>, L(a + 8 \<mapsto> ?n - 8))"
      using t by (simp add: basic_malloc_def mca_allocator_basic_alloc_def Let_def)
    moreover have "n \<le> ?n - 8" using n(1) by simp
    ultimately show ?thesis using new by fastforce
  next
    case none: None
    show ?thesis
    proof (cases "snd e")
      case None
      then have "basic_malloc e n (m, L) = Some (None, m, L)" using none by (simp add: basic_malloc_def mca_allocator_basic_alloc_def Let_def)
      then show ?thesis using inv by auto
    next
      case (Some pool)
      then obtain a sz where pool: "snd e = Some (a, sz)" by (cases pool) auto
      have ok: "?n \<le> sz" "{a..<a + sz} \<inter> free_bytes (seg_list m) = {}" "\<And>p k. L p = Some k \<Longrightarrow> {a..<a + sz} \<inter> block_bytes p k = {}"
        using env pool by (auto simp: basic_env_ok_def)
      show ?thesis
      proof (cases "sz > ?n \<and> \<not> fst e")
        case True
        then have "basic_malloc e n (m, L) = Some (None, m, L)" using none pool by (simp add: basic_malloc_def mca_allocator_basic_alloc_def Let_def)
        then show ?thesis using inv by auto
      next
        case False
        let ?segs = "if sz > ?n then seg_list m @ [\<lparr>seg_addr = a + ?n, seg_size = sz - ?n\<rparr>] else seg_list m"
        have free: "free_bytes ?segs = free_bytes (seg_list m) \<union> {a + ?n..<a + sz}" using ok(1) by (auto simp: bytes_of_grow)
        have rest: "{a + ?n..<a + sz} \<subseteq> {a..<a + sz}" by auto
        have "segs_apart ?segs"
        proof (cases "sz > ?n")
          case True
          have "free_bytes (seg_list m) \<inter> {a + ?n..<a + sz} = {}" using ok(2) rest by blast
          moreover have "bytes_of \<lparr>seg_addr = a + ?n, seg_size = sz - ?n\<rparr> = {a + ?n..<a + sz}" using True by (simp add: bytes_of_def)
          ultimately show ?thesis using True D(1) by simp
        qed (simp add: D(1))
        moreover have "{a..<a + ?n} \<inter> free_bytes ?segs = {}" 
        proof -
          have "{a..<a + ?n} \<subseteq> {a..<a + sz}" using ok(1) by auto
          then have "{a..<a + ?n} \<inter> free_bytes (seg_list m) = {}" using ok(2) by blast
          moreover have "{a..<a + ?n} \<inter> {a + ?n..<a + sz} = {}" by auto
          ultimately show ?thesis unfolding free by blast
        qed
        moreover have "block_bytes p k \<inter> ({a..<a + ?n} \<union> free_bytes ?segs) = {}" if "L p = Some k" for p k
        proof -
          have "{a..<a + ?n} \<union> {a + ?n..<a + sz} = {a..<a + sz}" using ok(1) by auto
          then show ?thesis unfolding free using ok(3) [OF that] D(5) [OF that] by blast
        qed
        moreover have "8 \<le> ?n" using n(1) by simp
        ultimately have new: "basic_inv (m\<lparr>seg_list := ?segs, memory := put_size a ?n (memory m)\<rparr>, L(a + 8 \<mapsto> ?n - 8))" "L (a + 8) = None"
          "\<And>q k i. L q = Some k \<Longrightarrow> i < k \<Longrightarrow> put_size a ?n (memory m) (q + i) = memory m (q + i)"
          using new_block [OF inv _ n(2), of ?segs a] by blast+
        have "basic_malloc e n (m, L) = Some (Some (a + 8), m\<lparr>seg_list := ?segs, memory := put_size a ?n (memory m)\<rparr>, L(a + 8 \<mapsto> ?n - 8))"
          using none pool False by (auto simp: basic_malloc_def mca_allocator_basic_alloc_def Let_def)
        moreover have "n \<le> ?n - 8" using n(1) by simp
        ultimately show ?thesis using new by fastforce
      qed
    qed
  qed
qed

lemma basic_free_law:
  assumes inv: "basic_inv (m, L)" and p: "L p = Some n"
  shows "basic_inv (mca_allocator_basic_free desc p m, L(p := None))" "memory (mca_allocator_basic_free desc p m) = memory m"
proof -
  note D = basic_invD [OF inv]
  have size: "get_size (p - 8) (memory m) = n + 8" by (rule D(4) [OF p])
  let ?segs = "put_segment desc (p - 8) (n + 8) [] (seg_list m)"
  have free: "mca_allocator_basic_free desc p m = m\<lparr>seg_list := ?segs\<rparr>" by (simp add: mca_allocator_basic_free_def Let_def size)
  then show "memory (mca_allocator_basic_free desc p m) = memory m" by simp
  have block: "{p - 8..<p - 8 + (n + 8)} = block_bytes p n" using D(2) [OF p] by (auto simp: block_bytes_def)
  have put: "segs_apart ?segs" "free_bytes ?segs \<subseteq> free_bytes (seg_list m) \<union> block_bytes p n"
    using put_segment_correct [of "[]" "seg_list m" "p - 8" "n + 8" desc] D(1) D(5) [OF p] unfolding block by simp_all
  have "block_bytes q k \<inter> free_bytes ?segs = {}" if "L q = Some k" "q \<noteq> p" for q k
    using put(2) D(5) [OF that(1)] D(6) [OF that(1) p that(2)] by blast
  then have "\<forall>q k. (L(p := None)) q = Some k \<longrightarrow> 8 \<le> q \<and> k + 8 < 2 ^ 64 \<and> get_size (q - 8) (memory m) = k + 8 \<and> block_bytes q k \<inter> free_bytes ?segs = {}"
    using D(2,3,4) by simp
  moreover have "\<forall>q r k l. (L(p := None)) q = Some k \<and> (L(p := None)) r = Some l \<and> q \<noteq> r \<longrightarrow> block_bytes q k \<inter> block_bytes r l = {}" using D(6) by auto
  ultimately show "basic_inv (mca_allocator_basic_free desc p m, L(p := None))"
    unfolding free basic_inv_def prod.case using put(1) by (simp del: fun_upd_apply)
qed

text \<open>The client writes in its block.\<close>

lemma basic_inv_memory:
  assumes inv: "basic_inv (m, L)" and p: "L p = Some n" and mem: "\<And>a. a \<notin> {p..<p + n} \<Longrightarrow> mem a = memory m a"
  shows "basic_inv (m\<lparr>memory := mem\<rparr>, L)"
proof -
  note D = basic_invD [OF inv]
  have "get_size (q - 8) mem = k + 8" if q: "L q = Some k" for q k
  proof -
    have "q - 8 + j \<notin> {p..<p + n}" if j: "j < 8" for j
    proof (cases "q = p")
      case True
      then show ?thesis using j D(2) [OF q] by auto
    next
      case False
      have "q - 8 + j \<in> block_bytes q k" unfolding block_bytes_def atLeastLessThan_iff using j D(2) [OF q] by linarith
      moreover have "{p..<p + n} \<subseteq> block_bytes p n" by (auto simp: block_bytes_def)
      ultimately show ?thesis using D(6) [OF q p False] by blast
    qed
    then have "get_size (q - 8) mem = get_size (q - 8) (memory m)" by (intro get_size_cong mem)
    then show ?thesis using D(4) [OF q] by simp
  qed
  then show ?thesis using inv unfolding basic_inv_def prod.case by simp
qed

interpretation basic: memory_allocator basic_inv snd "\<lambda>s. memory (fst s)" basic_env_ok basic_malloc basic_release basic_store
proof (unfold_locales, goal_cases)
  case (1 s e n)
  obtain m L where s: "s = (m, L)" by (cases s)
  have inv: "basic_inv (m, L)" "basic_env_ok e n (m, L)" using 1 unfolding s by this+
  from basic_malloc_law [OF this] obtain r m' L' where "basic_malloc e n (m, L) = Some (r, m', L')" "basic_inv (m', L')"
    "case r of None \<Rightarrow> L' = L | Some p \<Rightarrow> L p = None \<and> (\<exists>k. n \<le> k \<and> L' = L(p \<mapsto> k))"
    "\<forall>q k i. L q = Some k \<and> i < k \<longrightarrow> memory m' (q + i) = memory m (q + i)" by blast
  then show ?case unfolding s by (intro exI [of _ r] exI [of _ "(m', L')"]) (simp only: fst_conv snd_conv simp_thms)
next
  case (2 s p e)
  obtain m L where s: "s = (m, L)" by (cases s)
  obtain n where "L p = Some n" using 2(2) s by auto
  then show ?case using basic_free_law [of m L p n "fst e"] 2(1) unfolding s by (simp add: basic_release_def)
next
  case (3 s p m i v)
  have "basic_inv ((fst s)\<lparr>memory := (memory (fst s))(p + i := v)\<rparr>, snd s)" by (rule basic_inv_memory [of _ _ p m]) (use 3 in auto)
  then show ?case by (simp add: basic_store_def)
next
  case (4 s p m q k)
  then have "block_bytes p m \<inter> block_bytes q k = {}" using basic_invD(6) [of "fst s" "snd s" p m q k] by simp
  moreover have "{p..<p + m} \<subseteq> block_bytes p m" "{q..<q + k} \<subseteq> block_bytes q k" by (auto simp: block_bytes_def)
  ultimately show ?case by blast
qed

end
