(* ===== verification/Allocator_Runs.thy ===== *)
theory Allocator_Runs
  imports Allocator_Basic
begin

text \<open>
  The free list of the basic allocator over whole runs: it stays sorted and without adjacent segments, so
  the live blocks determine it; what a client sees of any run; and where \<^verbatim>\<open>realloc\<close> leaves the contract.
\<close>

section \<open>A sorted list of maximal segments\<close>

lemma segs_gaps_simps [simp]:
  "segs_gaps []"
  "segs_gaps (s # segs) \<longleftrightarrow> 0 < seg_size s \<and> (\<forall>t \<in> set segs. seg_addr s + seg_size s < seg_addr t) \<and> segs_gaps segs"
  "segs_gaps (xs @ ys) \<longleftrightarrow> segs_gaps xs \<and> segs_gaps ys \<and> (\<forall>s \<in> set xs. \<forall>t \<in> set ys. seg_addr s + seg_size s < seg_addr t)"
  by (auto simp: segs_gaps_def sorted_wrt_append)

lemma free_bytes_iff: "b \<in> free_bytes segs \<longleftrightarrow> (\<exists>s \<in> set segs. seg_addr s \<le> b \<and> b < seg_addr s + seg_size s)"
  by (auto simp: free_bytes_def bytes_of_def)

text \<open>The bytes determine such a list.\<close>

lemma first_segment:
  assumes "segs_gaps (s # segs)" "F = free_bytes (s # segs)"
  shows "seg_addr s \<in> F" "\<And>b. b \<in> F \<Longrightarrow> seg_addr s \<le> b" "seg_addr s + seg_size s \<notin> F"
    "\<And>b. seg_addr s \<le> b \<Longrightarrow> b < seg_addr s + seg_size s \<Longrightarrow> b \<in> F" "free_bytes segs = F - bytes_of s"
proof -
  have later: "seg_addr s + seg_size s < b" if "b \<in> free_bytes segs" for b
  proof -
    obtain t where "t \<in> set segs" "seg_addr t \<le> b" using \<open>b \<in> free_bytes segs\<close> by (auto simp: free_bytes_iff)
    then show ?thesis using assms(1) by fastforce
  qed
  show "seg_addr s \<in> F" "\<And>b. seg_addr s \<le> b \<Longrightarrow> b < seg_addr s + seg_size s \<Longrightarrow> b \<in> F" using assms by (auto simp: bytes_of_def)
  show "seg_addr s \<le> b" if "b \<in> F" for b using that later [of b] assms(2) by (auto simp: bytes_of_def)
  show "seg_addr s + seg_size s \<notin> F" using later assms(2) by (auto simp: bytes_of_def)
  have "bytes_of s \<inter> free_bytes segs = {}" using later by (force simp: bytes_of_def)
  then show "free_bytes segs = F - bytes_of s" using assms(2) by auto
qed

lemma segs_gaps_unique:
  assumes "segs_gaps xs" "segs_gaps ys" "free_bytes xs = free_bytes ys"
  shows "xs = ys"
  using assms
proof (induction xs arbitrary: ys)
  case Nil
  then show ?case using first_segment(1) [OF _ refl] by (cases ys) auto
next
  case (Cons x xs)
  obtain y zs where ys: "ys = y # zs" using Cons.prems first_segment(1) [OF Cons.prems(1) refl] by (cases ys) auto
  note X = first_segment [OF Cons.prems(1) refl, unfolded Cons.prems(3)]
  note Y = first_segment [OF Cons.prems(2) [unfolded ys] refl, folded ys]
  have addr: "seg_addr x = seg_addr y" using X(1,2) Y(1,2) by (simp add: antisym)
  have "\<not> seg_size x < seg_size y" using Y(4) [of "seg_addr x + seg_size x"] X(3) addr by auto
  moreover have "\<not> seg_size y < seg_size x" using X(4) [of "seg_addr y + seg_size y"] Y(3) addr by auto
  ultimately have "seg_size x = seg_size y" by simp
  then have "x = y" using addr by simp
  moreover have "free_bytes xs = free_bytes zs" by (simp only: X(5) Y(5) \<open>x = y\<close>)
  then have "xs = zs" using Cons.IH [of zs] Cons.prems(1,2) unfolding ys by simp
  ultimately show ?case using ys by simp
qed

lemma take_segment_gaps:
  assumes "take_segment n segs = Some (addr, segs')" "segs_gaps segs" "0 < n"
  shows "segs_gaps segs' \<and> (\<forall>t \<in> set segs'. \<exists>s \<in> set segs. seg_addr s \<le> seg_addr t)"
  using assms
proof (induction segs arbitrary: segs')
  case (Cons s segs)
  consider "seg_size s > n" | "seg_size s = n" | "seg_size s < n" by linarith
  then show ?case
  proof cases
    case 3
    then obtain ss where ss: "take_segment n segs = Some (addr, ss)" "segs' = s # ss" using Cons.prems(1) by (auto split: prod.splits)
    have ih: "segs_gaps ss" "\<forall>t \<in> set ss. \<exists>s \<in> set segs. seg_addr s \<le> seg_addr t" using Cons.IH [OF ss(1)] Cons.prems by simp_all
    have "seg_addr s + seg_size s < seg_addr t" if "t \<in> set ss" for t using ih(2) Cons.prems(2) that by fastforce
    then show ?thesis using ih Cons.prems(2) ss(2) by auto
  qed (use Cons.prems in auto)
qed simp

lemma combine_next_gaps:
  assumes "segs_gaps segs" "0 < seg_size seg" "\<And>t. t \<in> set segs \<Longrightarrow> seg_addr seg + seg_size seg \<le> seg_addr t"
  shows "segs_gaps (combine_next seg segs) \<and> (\<forall>t \<in> set (combine_next seg segs). seg_addr seg \<le> seg_addr t)"
proof (cases segs)
  case (Cons t ts)
  have "seg_addr seg + seg_size seg \<le> seg_addr t" using assms(3) [of t] Cons by simp
  moreover have "\<forall>u \<in> set ts. seg_addr t + seg_size t < seg_addr u" "segs_gaps ts" "0 < seg_size t" using assms(1) Cons by simp_all
  moreover have "\<forall>u \<in> set ts. seg_addr seg + seg_size seg < seg_addr u \<and> seg_addr seg \<le> seg_addr u" using calculation by fastforce
  ultimately show ?thesis unfolding Cons using assms(2) by (cases "seg_addr seg + seg_size seg = seg_addr t") (auto simp flip: add.assoc)
qed (use assms in simp)

lemma put_segment_gaps:
  assumes "segs_gaps (before @ segs)" "{addr..<addr + n} \<inter> free_bytes (before @ segs) = {}" "0 < n"
    "\<forall>t \<in> set before. seg_addr t + seg_size t < addr"
  shows "segs_gaps (put_segment desc addr n before segs)"
  using assms
proof (induction segs arbitrary: before)
  case (Cons s segs)
  have beyond: "addr + n \<le> seg_addr t" if "t \<in> set (s # segs)" "addr \<le> seg_addr t" for t
  proof (rule ccontr)
    assume "\<not> addr + n \<le> seg_addr t"
    then have "seg_addr t \<in> {addr..<addr + n}" using that(2) by simp
    moreover have "0 < seg_size t" using Cons.prems(1) that(1) by (auto simp: segs_gaps_def)
    then have "seg_addr t \<in> free_bytes (before @ s # segs)" unfolding free_bytes_iff using that(1) by (intro bexI [of _ t]) auto
    ultimately show False using Cons.prems(2) by blast
  qed
  have up_to: "seg_addr s + seg_size s \<le> addr" if "seg_addr s < addr"
  proof (rule ccontr)
    assume "\<not> seg_addr s + seg_size s \<le> addr"
    then have "addr \<in> free_bytes (before @ s # segs)" using that by (auto simp: bytes_of_def)
    moreover have "addr \<in> {addr..<addr + n}" using Cons.prems(3) by simp
    ultimately show False using Cons.prems(2) by blast
  qed
  have rest: "seg_addr s + seg_size s < seg_addr t" if "t \<in> set segs" for t using Cons.prems(1) that by simp
  consider "seg_addr s < addr" "seg_addr s + seg_size s = addr" | "seg_addr s < addr" "seg_addr s + seg_size s \<noteq> addr"
    | "\<not> seg_addr s < addr" by blast
  then show ?case
  proof cases
    case 1
    have ge: "addr + n \<le> seg_addr t" if "t \<in> set segs" for t using beyond [of t] rest [OF that] that 1 by simp
    let ?s = "s\<lparr>seg_size := seg_size s + n\<rparr>"
    have "segs_gaps (combine_next ?s segs) \<and> (\<forall>t \<in> set (combine_next ?s segs). seg_addr s \<le> seg_addr t)"
      using Cons.prems(1) 1 combine_next_gaps [of segs ?s] ge by (force simp flip: add.assoc)
    then have "segs_gaps (before @ combine_next ?s segs)" using Cons.prems(1) by fastforce
    then show ?thesis using 1 by simp
  next
    case 2
    then have "seg_addr s + seg_size s < addr" using up_to by simp
    then show ?thesis using 2 Cons.IH [of "before @ [s]"] Cons.prems by auto
  next
    case 3
    have "combine_prev before seg = before @ [seg]" if "seg_addr seg = addr" for seg
      proof -
      have "seg_addr (last before) + seg_size (last before) < addr" if "before \<noteq> []" using Cons.prems(4) that by simp
      then show ?thesis using that by (auto simp: combine_prev_def)
    qed
    then show ?thesis using 3 beyond [of s] Cons.prems by (auto simp: add_ac)
  qed
qed auto

section \<open>The free list and the live blocks\<close>

definition used_bytes :: "(nat \<Rightarrow> nat option) \<Rightarrow> nat set" where
  "used_bytes L = {b. \<exists>p n. L p = Some n \<and> b \<in> block_bytes p n}"

lemma used_bytes_insert: "L p = None \<Longrightarrow> used_bytes (L(p \<mapsto> n)) = block_bytes p n \<union> used_bytes L"
  unfolding used_bytes_def by (auto split: if_splits) (metis option.distinct(1))

lemma used_bytes_remove: "L p = Some n \<Longrightarrow> used_bytes L = block_bytes p n \<union> used_bytes (L(p := None))"
  using used_bytes_insert [of "L(p := None)" p n] by (simp add: map_upd_triv)

definition owned :: "basic_state \<Rightarrow> nat set" where
  "owned = (\<lambda>(m, L). free_bytes (seg_list m) \<union> used_bytes L)"

text \<open>A state reached without a failure to get a descriptor, while the pool provides nothing.\<close>

definition tidy :: "nat set \<Rightarrow> basic_state \<Rightarrow> bool" where
  "tidy S s \<longleftrightarrow> basic_inv s \<and> segs_gaps (seg_list (fst s)) \<and> owned s = S"

lemma tidy_free_bytes:
  assumes "tidy S (m, L)"
  shows "free_bytes (seg_list m) = S - used_bytes L"
proof -
  have "basic_inv (m, L)" using assms by (simp add: tidy_def)
  then have "used_bytes L \<inter> free_bytes (seg_list m) = {}" unfolding used_bytes_def using basic_invD(5) by blast
  then show ?thesis using assms by (auto simp: tidy_def owned_def)
qed

lemma tidy_unique:
  assumes "tidy S s" "tidy S t" "snd s = snd t"
  shows "seg_list (fst s) = seg_list (fst t)"
proof -
  obtain m L m' where s: "s = (m, L)" "t = (m', L)" using assms(3) by (cases s, cases t) simp
  have "free_bytes (seg_list m) = free_bytes (seg_list m')" using tidy_free_bytes assms(1,2) unfolding s by metis
  then show ?thesis using assms(1,2) s by (intro segs_gaps_unique) (simp_all add: tidy_def)
qed

lemma tidy_malloc:
  assumes t: "tidy S s" and ok: "basic_env_ok (True, None) n s" and m: "basic_malloc (True, None) n s = Some (r, s')"
  shows "tidy S s'"
proof -
  obtain M L where s: "s = (M, L)" by (cases s)
  have inv: "basic_inv (M, L)" using t s by (simp add: tidy_def)
  have inv': "basic_inv s'" using basic.malloc_law [OF _ ok] m t by (auto simp: tidy_def)
  have n: "n + 8 < block_size n" using ok block_size_bounds [of n] by (simp add: basic_env_ok_def)
  show ?thesis
  proof (cases "take_segment (block_size n) (seg_list M)")
    case None
    then show ?thesis using m t s by (simp add: basic_malloc_def mca_allocator_basic_alloc_def Let_def)
  next
    case (Some x)
    then obtain a segs where x: "take_segment (block_size n) (seg_list M) = Some (a, segs)" by (cases x) auto
    have s': "s' = (M\<lparr>seg_list := segs, memory := put_size a (block_size n) (memory M)\<rparr>, L(a + 8 \<mapsto> block_size n - 8))"
      using m x s by (simp add: basic_malloc_def mca_allocator_basic_alloc_def Let_def)
    have free: "free_bytes (seg_list M) = {a..<a + block_size n} \<union> free_bytes segs"
      using take_segment_correct [OF x basic_invD(1) [OF inv]] n by simp
    have gaps: "segs_gaps segs" using take_segment_gaps [OF x] t s n by (simp add: tidy_def)
    have fresh: "L (a + 8) = None" using basic.malloc_law [OF _ ok] m t s s'
      by (auto simp: tidy_def basic_malloc_def mca_allocator_basic_alloc_def Let_def x)
    have "block_bytes (a + 8) (block_size n - 8) = {a..<a + block_size n}" using n by (simp add: block_bytes_def)
    then have "owned s' = owned s" using used_bytes_insert [of L "a + 8" "block_size n - 8"] fresh free unfolding owned_def s s' by auto
    then show ?thesis using t inv' gaps s' by (simp add: tidy_def)
  qed
qed

lemma tidy_release:
  assumes t: "tidy S s" and p: "snd s p \<noteq> None" and f: "basic_release (True, pool) p s = Some s'"
  shows "tidy S s'"
proof -
  obtain M L where s: "s = (M, L)" by (cases s)
  obtain n where n: "L p = Some n" using p s by auto
  have inv: "basic_inv (M, L)" using t s by (simp add: tidy_def)
  note D = basic_invD [OF inv]
  let ?segs = "put_segment True (p - 8) (n + 8) [] (seg_list M)"
  have s': "s' = (M\<lparr>seg_list := ?segs\<rparr>, L(p := None))"
    using f D(4) [OF n] by (simp add: s basic_release_def mca_allocator_basic_free_def Let_def)
  have inv': "basic_inv s'" using basic.free_law [of s p "(True, pool)"] f t p by (auto simp: tidy_def)
  have block: "{p - 8..<p - 8 + (n + 8)} = block_bytes p n" using D(2) [OF n] by (auto simp: block_bytes_def)
  have apart: "block_bytes p n \<inter> free_bytes ([] @ seg_list M) = {}" using D(5) [OF n] by simp
  have free: "free_bytes ?segs = free_bytes (seg_list M) \<union> block_bytes p n"
    using put_segment_correct [of "[]" "seg_list M" "p - 8" "n + 8" True] D(1) apart unfolding block by simp
  have gaps: "segs_gaps ?segs" using put_segment_gaps [of "[]" "seg_list M" "p - 8" "n + 8"] t s apart unfolding block by (simp add: tidy_def)
  have "owned s = owned s'" using used_bytes_remove [of L p n] n free unfolding owned_def s s' by auto
  then show ?thesis using t inv' gaps s' by (simp add: tidy_def)
qed

lemma tidy_store:
  assumes t: "tidy S s" and p: "snd s p = Some n" "i < n"
  shows "tidy S (basic_store (p + i) v s)"
  using t basic.store_law [of s p n i v] p by (simp add: tidy_def basic_store_def owned_def split: prod.splits)

text \<open>The operations of a client when descriptors can always be taken and the pool provides nothing.\<close>

fun pool_empty :: "(bool \<times> (nat \<times> nat) option) client_op \<Rightarrow> bool" where
  "pool_empty (Allocate e n) \<longleftrightarrow> e = (True, None)"
| "pool_empty (Release e p) \<longleftrightarrow> fst e"
| "pool_empty (Write p i v) \<longleftrightarrow> True"

lemma tidy_run:
  assumes "tidy S s" "basic.allowed cs s" "list_all pool_empty cs" "ofold basic.op_step cs s = Some s'"
  shows "tidy S s'"
  using assms
proof (induction cs arbitrary: s)
  case (Cons c cs)
  obtain s1 where s1: "basic.op_step c s = Some s1" using Cons.prems(4) by (auto split: option.splits)
  have "tidy S s1"
  proof (cases c)
    case (Allocate e n)
    then show ?thesis using s1 Cons.prems tidy_malloc [of S s n] by auto
  next
    case (Release e p)
    then show ?thesis using s1 Cons.prems tidy_release [of S s p "snd e" s1] by (cases e) auto
  next
    case (Write p i v)
    then show ?thesis using s1 Cons.prems tidy_store [of S s p] by auto
  qed
  then show ?case using Cons.IH Cons.prems s1 by (auto split: option.splits)
qed simp

section \<open>Moving a block\<close>

text \<open>Where realloc of the basic allocator has to move a block, it keeps its promise. Asked for more than the size in the header, it either fails and changes nothing, or it returns a new block that is disjoint from all others and at least as large as asked for, the bytes of the old block are now in the new one, the old block is released, and the contents of all other blocks are unchanged.\<close>

lemma basic_realloc_moves:
  assumes "basic_inv (m, L)" "L p = Some n" "n + 8 < k" "basic_env_ok (desc, pool) k (m, L)"
    "mca_allocator_basic_realloc desc pool desc' p k m = (r, m')"
  shows "case r of None \<Rightarrow> m' = m | Some q \<Rightarrow> L q = None \<and> (\<exists>l \<ge> k. basic_inv (m', L(q \<mapsto> l, p := None))) \<and>
    (\<forall>i < n. memory m' (q + i) = memory m (p + i)) \<and> (\<forall>x l i. x \<noteq> p \<and> L x = Some l \<and> i < l \<longrightarrow> memory m' (x + i) = memory m (x + i))"
proof -
  note D = basic_invD [OF assms(1)]
  obtain r1 m1 L1 where a: "basic_malloc (desc, pool) k (m, L) = Some (r1, m1, L1)" "basic_inv (m1, L1)"
    "case r1 of None \<Rightarrow> L1 = L | Some q \<Rightarrow> L q = None \<and> (\<exists>l. k \<le> l \<and> L1 = L(q \<mapsto> l))"
    "\<And>x l i. L x = Some l \<Longrightarrow> i < l \<Longrightarrow> memory m1 (x + i) = memory m (x + i)"
    using basic_malloc_law [OF assms(1,4)] by blast
  have alloc: "mca_allocator_basic_alloc desc pool k m = (r1, m1)" using a(1) by (auto simp: basic_malloc_def split: prod.splits)
  have size: "get_size (p - 8) (memory m) = n + 8" by (rule D(4) [OF assms(2)])
  show ?thesis
  proof (cases r1)
    case None
    then have "m1 = m" using alloc by (auto simp: mca_allocator_basic_alloc_def Let_def split: option.splits prod.splits if_splits)
    then show ?thesis using None assms(3,5) size alloc by (simp add: mca_allocator_basic_realloc_def)
  next
    case (Some q)
    then obtain l where l: "L q = None" "k \<le> l" "L1 = L(q \<mapsto> l)" using a(3) by auto
    let ?mem = "copy_bytes q p (n + 8) (memory m1)"
    let ?m = "m1\<lparr>memory := ?mem\<rparr>"
    have m': "r = Some q" "m' = mca_allocator_basic_free desc' p ?m"
      using Some assms(3,5) size alloc by (auto simp: mca_allocator_basic_realloc_def)
    have pq: "p \<noteq> q" "L1 p = Some n" "L1 q = Some l" using l assms(2) by auto
    have inv: "basic_inv (?m, L1)" using assms(3) l(2) by (intro basic_inv_memory [OF a(2) pq(3)]) (auto simp: copy_bytes_def)
    note free = basic_free_law [OF inv pq(2), of desc', folded m'(2)]
    have "memory m' (q + i) = memory m (p + i)" if "i < n" for i
      using a(4) [OF assms(2) that] that unfolding free(2) by (simp add: copy_bytes_def)
    moreover have "memory m' (x + i) = memory m (x + i)" if "x \<noteq> p" "L x = Some j" "i < j" for x j i
    proof -
      have "x \<noteq> q" using that(2) l(1) by auto
      then have "{x..<x + j} \<inter> {q..<q + l} = {}" using that(2) l(3) by (intro basic.apart_law [OF a(2)]) simp_all
      moreover have "x + i \<in> {x..<x + j}" using that(3) by simp
      ultimately have "x + i \<notin> {q..<q + l}" by blast
      then have "\<not> (q \<le> x + i \<and> x + i < q + (n + 8))" using l(2) assms(3) by auto
      then have "?mem (x + i) = memory m1 (x + i)" unfolding copy_bytes_def by (rule if_not_P)
      then show ?thesis using a(4) [OF that(2,3)] unfolding free(2) by simp
    qed
    moreover have "\<exists>l \<ge> k. basic_inv (m', L(q \<mapsto> l, p := None))" using free(1) l(2) unfolding l(3) by blast
    ultimately show ?thesis using l(1) m'(1) by simp
  qed
qed

section \<open>What clients can rely on\<close>

lemmas basic_evals = mca_allocator_basic_component_init_def mca_allocator_basic_alloc_def mca_allocator_basic_free_def
  block_size_def get_size_def put_size_def upt_conv_Cons Let_def

text \<open>C12: Seen through the basic allocator, the flat memory of the pool is a store of separate objects. Whatever sequence of allocations, releases and writes a client performs, from the empty allocator on, with any memory the pool provides and any failures of the pool and of the descriptor list, as long as it releases and writes only blocks it holds, inside their bounds: every operation returns, and the contents of its blocks evolve as in the abstract store. An allocation yields a new object of at least the size asked for or changes nothing, a release removes one object, a write changes one byte of one object; no header and no neighbour is ever damaged.\<close>

theorem basic_allocator_objects:
  assumes "basic.allowed cs (mca_allocator_basic_component_init mem, Map.empty)"
  shows "\<exists>s. ofold basic.op_step cs (mca_allocator_basic_component_init mem, Map.empty) = Some s \<and> object_run cs Map.empty (basic.objects s)"
proof -
  let ?s = "(mca_allocator_basic_component_init mem, Map.empty) :: basic_state"
  have "basic_inv ?s" by (simp add: basic_inv_def mca_allocator_basic_component_init_def)
  moreover have "basic.objects ?s = Map.empty" by (simp add: basic.objects_def objects_of_def fun_eq_iff)
  ultimately show ?thesis using basic.run_refines [of ?s cs] assms by auto
qed

theorem basic_allocator_objects_witness:
  "\<exists>s. ofold basic.op_step [Allocate (True, Some (4096, 4096)) 8, Allocate (True, None) 8, Write 4104 0 7, Release (True, None) 4128]
       (mca_allocator_basic_component_init (\<lambda>a. 0), Map.empty) = Some s \<and>
     object_run [Allocate (True, Some (4096 :: nat, 4096 :: nat)) 8, Allocate (True, None) 8, Write 4104 0 7, Release (True, None) 4128] Map.empty (basic.objects s)"
  by (rule basic_allocator_objects)
    (simp add: basic_evals basic_env_ok_def basic_malloc_def basic_release_def basic_store_def)

text \<open>C28: The free list of the basic allocator is coalesced: it is determined by the blocks in use. From any state whose list is sorted with used bytes between its segments, after any run of allocations, writes and releases in any order that leaves the client with the same blocks (the same addresses and sizes) and gets nothing more from the pool, the free list is the same list again, segment by segment, however blocks were split and merged on the way.\<close>

theorem basic_free_list_restored:
  assumes "basic_inv s" "segs_gaps (seg_list (fst s))" "basic.allowed cs s" "list_all pool_empty cs"
    "ofold basic.op_step cs s = Some s'" "snd s' = snd s"
  shows "seg_list (fst s') = seg_list (fst s)"
proof -
  have s: "tidy (owned s) s" using assms(1,2) by (simp add: tidy_def)
  show ?thesis by (rule tidy_unique [OF tidy_run [OF s assms(3-5)] s assms(6)])
qed

theorem basic_free_list_restored_witness:
  "\<exists>s'. ofold basic.op_step [Allocate (True, None) 8, Allocate (True, None) 20, Release (True, None) 4104, Release (True, None) 4128]
       (\<lparr>seg_list = [\<lparr>seg_addr = 4096, seg_size = 4096\<rparr>], memory = (\<lambda>a. 0)\<rparr>, Map.empty) = Some s' \<and>
     seg_list (fst s') = [\<lparr>seg_addr = 4096, seg_size = 4096\<rparr>]"
proof -
  let ?cs = "[Allocate (True, None) 8, Allocate (True, None) 20, Release (True, None) 4104, Release (True, None) 4128]"
  let ?s = "(\<lparr>seg_list = [\<lparr>seg_addr = 4096, seg_size = 4096\<rparr>], memory = (\<lambda>a. 0)\<rparr>, Map.empty) :: basic_state"
  have inv: "basic_inv ?s" by (simp add: basic_inv_def)
  have ok: "basic.allowed ?cs ?s" "list_all pool_empty ?cs"
    by (simp_all add: basic_evals basic_env_ok_def basic_malloc_def basic_release_def)
  obtain s' where s': "ofold basic.op_step ?cs ?s = Some s'" using basic.run_refines [OF inv ok(1)] by auto
  then have "snd s' = snd ?s" by (auto simp: basic_evals basic_malloc_def basic_release_def)
  then show ?thesis using basic_free_list_restored [OF inv _ ok s'] s' by simp
qed

text \<open>What follows in one case. A client asks for 24 bytes for a block of 16, is given the same address and writes
  the first byte beyond the block, which is in the header of its next block. When it releases that block, 255 bytes
  are added to the free list instead of 24, and two later allocations of 200 bytes overlap: the first gets 4128, the
  second 4152.\<close>

lemma basic_realloc_example:
  "let m0 = mca_allocator_basic_component_init (\<lambda>a. 0);
       (p, m1) = mca_allocator_basic_alloc True (Some (4096, 4096)) 8 m0;
       (q, m2) = mca_allocator_basic_alloc True None 8 m1;
       (p', m3) = mca_allocator_basic_realloc True None True 4104 24 m2;
       m4 = m3\<lparr>memory := (memory m3)(4104 + 16 := 255)\<rparr>;
       m5 = mca_allocator_basic_free True 4128 m4;
       (r, m6) = mca_allocator_basic_alloc True None 200 m5;
       (t, m7) = mca_allocator_basic_alloc True None 200 m6
     in p = Some 4104 \<and> q = Some 4128 \<and> p' = Some 4104 \<and> get_size (4128 - 8) (memory m3) = 24 \<and>
       get_size (4128 - 8) (memory m4) = 255 \<and> r = Some 4128 \<and> t = Some 4152"
  by (simp add: basic_evals mca_allocator_basic_realloc_def)

text \<open>The bytes of a header are determined by its value.\<close>

lemma foldr_digits_inj:
  fixes f g :: "nat \<Rightarrow> nat"
  assumes "foldr (\<lambda>i r. f i + 256 * r) xs 0 = foldr (\<lambda>i r. g i + 256 * r) xs 0" "\<And>i. f i < 256" "\<And>i. g i < 256" "i \<in> set xs"
  shows "f i = g i"
  using assms(1,4)
proof (induction xs)
  case (Cons x xs)
  let ?F = "foldr (\<lambda>i r. f i + 256 * r) xs 0" and ?G = "foldr (\<lambda>i r. g i + 256 * r) xs 0"
  have eq: "f x + 256 * ?F = g x + 256 * ?G" using Cons.prems(1) by simp
  have "f x = (f x + 256 * ?F) mod 256" "g x = (g x + 256 * ?G) mod 256" using assms(2,3) [of x] by simp_all
  then have fg: "f x = g x" using eq by metis
  then have "?F = ?G" using eq by simp
  then show ?case using Cons.IH Cons.prems(2) fg by auto
qed simp

lemma get_size_byte:
  assumes "get_size addr mem = get_size addr mem'" "addr \<le> a" "a < addr + 8"
  shows "mem a = mem' a"
proof -
  have lt: "unat (w :: 8 word) < 256" for w using unsigned_less [of w, where 'a = nat] by simp
  have "unat (mem (addr + (a - addr))) = unat (mem' (addr + (a - addr)))"
    using assms unfolding get_size_def by (intro foldr_digits_inj [where f = "\<lambda>i. unat (mem (addr + i))" and xs = "[0..<8]"]) (auto intro: lt)
  then have "unat (mem a) = unat (mem' a)" using assms(2) by simp
  then show ?thesis by (rule unsigned_word_eqI)
qed

text \<open>C37: realloc breaks the contract of the basic allocator. It compares the size asked for with the size in the
  header, which counts the header's eight bytes. So whenever a client asks for up to eight bytes more than its block
  has, realloc returns the block itself, which is too small, and changes nothing. If another block of the client
  follows directly, whatever the client then writes beyond its own block, inside what it was granted, changes the
  size in the header of that block (unless it writes what is there); the allocator is no longer in a valid state, and
  releasing that block adds a wrong number of bytes to the free list.\<close>

theorem basic_realloc_breaks_contract:
  assumes "basic_inv (m, L)" "L p = Some n" "n < k" "k \<le> n + 8"
  shows "mca_allocator_basic_realloc desc pool desc' p k m = (Some p, m) \<and>
    (\<forall>j i v. L (p + n + 8) = Some j \<and> n \<le> i \<and> i < k \<and> v \<noteq> memory m (p + i) \<longrightarrow>
      (let m' = m\<lparr>memory := (memory m)(p + i := v)\<rparr>; s = get_size (p + n) (memory m') in
        s \<noteq> j + 8 \<and> \<not> basic_inv (m', L) \<and>
        mca_allocator_basic_free desc'' (p + n + 8) m' = m'\<lparr>seg_list := put_segment desc'' (p + n) s [] (seg_list m)\<rparr>))"
proof -
  note D = basic_invD [OF assms(1)]
  have "get_size (p - 8) (memory m) = n + 8" by (rule D(4) [OF assms(2)])
  then have "mca_allocator_basic_realloc desc pool desc' p k m = (Some p, m)"
    using assms(4) by (simp add: mca_allocator_basic_realloc_def)
  moreover have "let m' = m\<lparr>memory := (memory m)(p + i := v)\<rparr>; s = get_size (p + n) (memory m') in
        s \<noteq> j + 8 \<and> \<not> basic_inv (m', L) \<and>
        mca_allocator_basic_free desc'' (p + n + 8) m' = m'\<lparr>seg_list := put_segment desc'' (p + n) s [] (seg_list m)\<rparr>"
    if w: "L (p + n + 8) = Some j" "n \<le> i" "i < k" "v \<noteq> memory m (p + i)" for j i v
  proof -
    let ?m = "m\<lparr>memory := (memory m)(p + i := v)\<rparr>"
    have old: "get_size (p + n) (memory m) = j + 8" using D(4) [OF w(1)] by simp
    have new: "get_size (p + n) (memory ?m) \<noteq> j + 8"
    proof
      assume "get_size (p + n) (memory ?m) = j + 8"
      then have "get_size (p + n) (memory ?m) = get_size (p + n) (memory m)" using old by simp
      then have "memory ?m (p + i) = memory m (p + i)" by (rule get_size_byte) (use w(2,3) assms(4) in simp_all)
      then show False using w(4) by simp
    qed
    then have "\<not> basic_inv (?m, L)" using basic_invD(4) [of ?m L "p + n + 8" j] w(1) by auto
    then show ?thesis using new by (simp add: Let_def mca_allocator_basic_free_def)
  qed
  ultimately show ?thesis by blast
qed

text \<open>The state of the example above after its two allocations.\<close>

theorem basic_realloc_breaks_contract_witness:
  "let m = \<lparr>seg_list = [\<lparr>seg_addr = 4144, seg_size = 4048\<rparr>], memory = put_size 4120 24 (put_size 4096 24 (\<lambda>a. 0))\<rparr>
   in mca_allocator_basic_realloc True None True 4104 24 m = (Some 4104, m) \<and> get_size 4120 (memory m) = 24 \<and>
      get_size 4120 ((memory m)(4120 := 255)) \<noteq> 24"
proof -
  let ?m = "\<lparr>seg_list = [\<lparr>seg_addr = 4144, seg_size = 4048\<rparr>], memory = put_size 4120 24 (put_size 4096 24 (\<lambda>a. 0))\<rparr>"
  let ?L = "Map.empty(4104 \<mapsto> 16, 4128 \<mapsto> 16) :: nat \<Rightarrow> nat option"
  have "get_size 4096 (memory ?m) = get_size 4096 (put_size 4096 24 (\<lambda>a. 0))"
    by (rule get_size_cong) (simp add: put_size_outside)
  then have sizes: "get_size 4096 (memory ?m) = 24" "get_size 4120 (memory ?m) = 24" by (simp_all add: get_put_size)
  then have "basic_inv (?m, ?L)" by (auto simp: basic_inv_def block_bytes_def bytes_of_def split: if_splits)
  moreover have "memory ?m 4120 = 24" by (simp add: put_size_def)
  ultimately have "mca_allocator_basic_realloc True None True 4104 24 ?m = (Some 4104, ?m)"
    "get_size (4104 + 16) ((memory ?m)(4104 + 16 := 255)) \<noteq> 16 + 8"
    using basic_realloc_breaks_contract [of ?m ?L 4104 16 24 True None True True, THEN conjunct1]
      basic_realloc_breaks_contract [of ?m ?L 4104 16 24 True None True True, THEN conjunct2, rule_format, of 16 16 255]
    by (simp_all add: Let_def)
  then show ?thesis using sizes(2) by simp
qed

end
