(* ===== verification/Group_Formats.thy ===== *)
theory Group_Formats
  imports OMPI_Prelude
begin

text \<open>
  The sparse storage formats of process groups, \<^verbatim>\<open>ompi/group/group_sporadic.c\<close>, \<^verbatim>\<open>group_strided.c\<close> and
  \<^verbatim>\<open>group_bitmap.c\<close>. Each stores, instead of the members of a group, which ranks of a parent group it was
  made from: as runs of consecutive ranks, as an offset with a stride, or as a bitmap. The two translations between the
  ranks of parent and child are all the rest of the group code uses. They are the operations of the locale
  \<open>sparse_format\<close>, which the three formats interpret.

  A translation writes cells of the caller's array; a cell it does not write is \<^const>\<open>None\<close> in the result.
\<close>

record ompi_group_sporadic_list_t =
  rank_first :: int
  run_length :: int

record ompi_group_strided_data_t =
  grp_strided_offset :: int
  grp_strided_stride :: int
  grp_strided_last_element :: int

section \<open>Operations\<close>

subsection \<open>Runs of consecutive ranks\<close>

text \<open>The number of runs. At the first rank the loop reads the cell before the array; \<open>before\<close> is what it finds there.\<close>

definition count_run :: "int \<Rightarrow> int list \<Rightarrow> nat \<Rightarrow> nat \<Rightarrow> nat" where
  "count_run before ranks i l =
     (if ranks ! i = (if i = 0 then before else ranks ! (i - 1)) + 1 then (if l = 0 then l + 1 else l) else l + 1)"

definition count_runs :: "int \<Rightarrow> int list \<Rightarrow> nat" where
  "count_runs before ranks = fold (count_run before ranks) [0..<length ranks] 0"

text \<open>An entry of the list has 8 bytes.\<close>

definition ompi_group_calc_sporadic :: "int \<Rightarrow> int list \<Rightarrow> int" where
  "ompi_group_calc_sporadic before ranks = 8 * int (count_runs before ranks)"

fun sporadic_to_child :: "ompi_group_sporadic_list_t list \<Rightarrow> int \<Rightarrow> int \<Rightarrow> int" where
  "sporadic_to_child [] count r = MPI_UNDEFINED"
| "sporadic_to_child (x # xs) count r =
     (if rank_first x \<le> r \<and> r \<le> rank_first x + run_length x - 1 then r - rank_first x + count
      else sporadic_to_child xs (count + run_length x) r)"

definition ompi_group_translate_ranks_sporadic :: "ompi_group_sporadic_list_t list \<Rightarrow> int list \<Rightarrow> int option list option" where
  "ompi_group_translate_ranks_sporadic runs ranks1 =
     Some (map (\<lambda>r. Some (if r = MPI_PROC_NULL then MPI_PROC_NULL else sporadic_to_child runs 0 r)) ranks1)"

fun sporadic_to_parent :: "ompi_group_sporadic_list_t list \<Rightarrow> int \<Rightarrow> int \<Rightarrow> int option" where
  "sporadic_to_parent [] count r = None"
| "sporadic_to_parent (x # xs) count r =
     (if r > count + run_length x - 1 then sporadic_to_parent xs (count + run_length x) r
      else Some (rank_first x + (r - count)))"

definition ompi_group_translate_ranks_sporadic_reverse ::
  "ompi_group_sporadic_list_t list \<Rightarrow> int list \<Rightarrow> int option list option" where
  "ompi_group_translate_ranks_sporadic_reverse runs ranks1 =
     Some (map (\<lambda>r. if r = MPI_PROC_NULL then Some MPI_PROC_NULL else sporadic_to_parent runs 0 r) ranks1)"

text \<open>The list as \<^verbatim>\<open>ompi_group_incl_spor\<close> fills it, in an allocation of \<open>l\<close> entries.\<close>

definition add_run ::
  "nat \<Rightarrow> int list \<Rightarrow> nat \<Rightarrow> ompi_group_sporadic_list_t list \<Rightarrow> ompi_group_sporadic_list_t list option" where
  "add_run l ranks i runs =
     (if ranks ! i = ranks ! (i - 1) + 1
      then Some (butlast runs @ [(last runs)\<lparr>run_length := run_length (last runs) + 1\<rparr>])
      else if length runs < l then Some (runs @ [\<lparr>rank_first = ranks ! i, run_length = 1\<rparr>])
      else None)"

definition make_runs :: "int \<Rightarrow> int list \<Rightarrow> ompi_group_sporadic_list_t list option" where
  "make_runs before ranks =
     (let l = count_runs before ranks
      in if l = 0 then None
         else ofold (add_run l ranks) [1..<length ranks] [\<lparr>rank_first = ranks ! 0, run_length = 1\<rparr>])"

subsection \<open>Offset and stride\<close>

definition check_stride :: "int list \<Rightarrow> int" where
  "check_stride incl =
     (let s = (if length incl > 1 then incl ! 1 - incl ! 0 else 1)
      in if s < 0 then - 1
         else if \<forall>i \<in> set [0..<length incl - 1]. incl ! (i + 1) - incl ! i = s then s
         else - 1)"

definition ompi_group_calc_strided :: "int list \<Rightarrow> int" where
  "ompi_group_calc_strided ranks = (if check_stride ranks = - 1 then - 1 else 12)"

definition strided_to_child :: "ompi_group_strided_data_t \<Rightarrow> int \<Rightarrow> int option" where
  "strided_to_child d r =
     (let s = grp_strided_stride d; o' = grp_strided_offset d; l = grp_strided_last_element d
      in if r - o' \<ge> 0 then
           if s = 0 then None
           else Some (if (r - o') smod s = 0 \<and> r \<le> l then (r - o') sdiv s else MPI_UNDEFINED)
         else Some MPI_UNDEFINED)"

fun omap :: "('a \<Rightarrow> 'b option) \<Rightarrow> 'a list \<Rightarrow> 'b list option" where
  "omap f [] = Some []"
| "omap f (x # xs) = do { y \<leftarrow> f x; ys \<leftarrow> omap f xs; Some (y # ys) }"

definition ompi_group_translate_ranks_strided :: "ompi_group_strided_data_t \<Rightarrow> int list \<Rightarrow> int option list option" where
  "ompi_group_translate_ranks_strided d =
     omap (\<lambda>r. if r = MPI_PROC_NULL then Some (Some MPI_PROC_NULL) else map_option Some (strided_to_child d r))"

definition strided_to_parent :: "ompi_group_strided_data_t \<Rightarrow> int \<Rightarrow> int" where
  "strided_to_parent d r = grp_strided_stride d * r + grp_strided_offset d"

definition ompi_group_translate_ranks_strided_reverse ::
  "ompi_group_strided_data_t \<Rightarrow> int list \<Rightarrow> int option list option" where
  "ompi_group_translate_ranks_strided_reverse d ranks1 =
     Some (map (\<lambda>r. Some (if r = MPI_PROC_NULL then MPI_PROC_NULL else strided_to_parent d r)) ranks1)"

subsection \<open>Bitmap\<close>

definition ompi_group_div_ceil :: "int \<Rightarrow> int \<Rightarrow> int" where
  "ompi_group_div_ceil num den = (if num smod den = 0 then num sdiv den else num sdiv den + 1)"

definition check_ranks :: "int list \<Rightarrow> bool" where
  "check_ranks ranks \<longleftrightarrow> (\<forall>i \<in> set [1..<length ranks]. \<not> ranks ! (i - 1) > ranks ! i)"

definition ompi_group_calc_bmap :: "int \<Rightarrow> int list \<Rightarrow> int" where
  "ompi_group_calc_bmap orig_size ranks = (if check_ranks ranks then ompi_group_div_ceil orig_size 8 else - 1)"

text \<open>The test \<^verbatim>\<open>tmp == (array[i] & (1 << k))\<close> for the bit at position \<open>p\<close> of the whole array.\<close>

definition bmap_test :: "8 word list \<Rightarrow> nat \<Rightarrow> bool" where
  "bmap_test arr p \<longleftrightarrow> push_bit (p mod 8) 1 = (arr ! (p div 8) AND push_bit (p mod 8) 1)"

text \<open>The two nested loops over bytes and bits, from the first bit on; they end when they meet position \<open>m\<close>.\<close>

fun bmap_count :: "8 word list \<Rightarrow> nat \<Rightarrow> nat list \<Rightarrow> int \<Rightarrow> int option" where
  "bmap_count arr m [] count = None"
| "bmap_count arr m (p # ps) count =
     (let count = (if bmap_test arr p then count + 1 else count)
      in if p = m then Some (count - 1) else bmap_count arr m ps count)"

text \<open>A negative rank shifts by a negative amount, a rank beyond the array reads outside it.\<close>

definition bmap_to_child :: "8 word list \<Rightarrow> int \<Rightarrow> int option" where
  "bmap_to_child arr m =
     (if m < 0 \<or> m sdiv 8 \<ge> int (length arr) then None
      else if bmap_test arr (nat m) then
        Some (case bmap_count arr (nat m) [0..<8 * (nat m div 8 + 1)] 0 of None \<Rightarrow> MPI_UNDEFINED | Some c \<Rightarrow> c)
      else Some MPI_UNDEFINED)"

definition ompi_group_translate_ranks_bmap :: "8 word list \<Rightarrow> int list \<Rightarrow> int option list option" where
  "ompi_group_translate_ranks_bmap arr =
     omap (\<lambda>r. if r = MPI_PROC_NULL then Some (Some MPI_PROC_NULL) else map_option Some (bmap_to_child arr r))"

fun bmap_find :: "8 word list \<Rightarrow> int \<Rightarrow> nat list \<Rightarrow> int \<Rightarrow> int option" where
  "bmap_find arr m [] count = None"
| "bmap_find arr m (p # ps) count =
     (let count = (if bmap_test arr p then count + 1 else count)
      in if m = count - 1 then Some (int p) else bmap_find arr m ps count)"

definition bmap_to_parent :: "8 word list \<Rightarrow> int \<Rightarrow> int option" where
  "bmap_to_parent arr m = bmap_find arr m [0..<8 * length arr] 0"

definition ompi_group_translate_ranks_bmap_reverse :: "8 word list \<Rightarrow> int list \<Rightarrow> int option list option" where
  "ompi_group_translate_ranks_bmap_reverse arr ranks1 =
     Some (map (\<lambda>r. if r = MPI_PROC_NULL then Some MPI_PROC_NULL else bmap_to_parent arr r) ranks1)"

text \<open>The array as \<^verbatim>\<open>ompi_group_incl_bmap\<close> fills it.\<close>

definition bmap_set :: "int \<Rightarrow> 8 word list \<Rightarrow> 8 word list option" where
  "bmap_set r arr =
     (if r < 0 then None
      else do {
        b \<leftarrow> aget arr (r sdiv 8);
        aset arr (r sdiv 8) (b OR push_bit (nat (r smod 8)) 1)
      })"

definition make_bmap :: "int \<Rightarrow> int list \<Rightarrow> 8 word list option" where
  "make_bmap orig_size ranks = ofold bmap_set ranks (replicate (nat (ompi_group_div_ceil orig_size 8)) 0)"

section \<open>What a format promises\<close>

text \<open>The position of a value in a list, or \<^verbatim>\<open>MPI_UNDEFINED\<close>.\<close>

definition rank_in :: "'a list \<Rightarrow> 'a \<Rightarrow> int" where
  "rank_in xs x = (case find (\<lambda>i. xs ! i = x) [0..<length xs] of None \<Rightarrow> MPI_UNDEFINED | Some i \<Rightarrow> int i)"

lemma rank_in_nth [simp]: "distinct xs \<Longrightarrow> i < length xs \<Longrightarrow> rank_in xs (xs ! i) = int i"
proof -
  assume "distinct xs" "i < length xs"
  then have "find (\<lambda>j. xs ! j = xs ! i) [0..<length xs] = Some i"
    unfolding find_upt_Some by (auto simp: nth_eq_iff_index_eq)
  then show ?thesis by (simp add: rank_in_def)
qed

lemma rank_in_undefined: "x \<notin> set xs \<Longrightarrow> rank_in xs x = MPI_UNDEFINED"
proof -
  assume "x \<notin> set xs"
  then have "find (\<lambda>j. xs ! j = x) [0..<length xs] = None" unfolding find_upt_None by (auto simp: in_set_conv_nth)
  then show ?thesis by (simp add: rank_in_def)
qed

lemma rank_in_map: "inj_on f (insert x (set xs)) \<Longrightarrow> rank_in (map f xs) (f x) = rank_in xs x"
proof -
  assume "inj_on f (insert x (set xs))"
  then have "f (xs ! i) = f x \<longleftrightarrow> xs ! i = x" if "i < length xs" for i using that inj_on_eq_iff [of f "insert x (set xs)" "xs ! i" x] by simp
  then have "find (\<lambda>i. map f xs ! i = f x) [0..<length xs] = find (\<lambda>i. xs ! i = x) [0..<length xs]"
    by (intro find_cong) auto
  then show ?thesis by (simp add: rank_in_def)
qed

text \<open>\<open>encodes n d ranks\<close>: the data \<open>d\<close> stands for the ranks \<open>ranks\<close> of a parent group of \<open>n\<close> processes.\<close>

locale sparse_format =
  fixes encodes :: "nat \<Rightarrow> 'd \<Rightarrow> int list \<Rightarrow> bool"
    and to_child :: "'d \<Rightarrow> int \<Rightarrow> int option"
    and to_parent :: "'d \<Rightarrow> int \<Rightarrow> int option"
  assumes encodes_ranks: "encodes n d ranks \<Longrightarrow> distinct ranks \<and> (\<forall>r \<in> set ranks. 0 \<le> r \<and> r < int n)"
    and to_parent_nth: "encodes n d ranks \<Longrightarrow> i < length ranks \<Longrightarrow> to_parent d (int i) = Some (ranks ! i)"
    and to_child_eq: "encodes n d ranks \<Longrightarrow> 0 \<le> r \<Longrightarrow> r < int n \<Longrightarrow> to_child d r = Some (rank_in ranks r)"
begin

text \<open>Going to the parent and back changes nothing.\<close>

lemma child_parent_child:
  "encodes n d ranks \<Longrightarrow> i < length ranks \<Longrightarrow> Option.bind (to_parent d (int i)) (to_child d) = Some (int i)"
  using encodes_ranks [of n d ranks] to_parent_nth [of n d ranks i] to_child_eq [of n d ranks "ranks ! i"] by auto

text \<open>The data determine the ranks.\<close>

lemma encodes_unique: "encodes n d ranks \<Longrightarrow> encodes n d ranks' \<Longrightarrow> length ranks = length ranks' \<Longrightarrow> ranks = ranks'"
  using to_parent_nth by (intro nth_equalityI) (auto, metis option.inject)

text \<open>Members of the parent translate to members of the child exactly when the format includes them.\<close>

lemma to_child_undefined:
  "encodes n d ranks \<Longrightarrow> 0 \<le> r \<Longrightarrow> r < int n \<Longrightarrow> to_child d r = Some MPI_UNDEFINED \<longleftrightarrow> r \<notin> set ranks"
  using encodes_ranks [of n d ranks] to_child_eq [of n d ranks r]
  by (auto simp: in_set_conv_nth rank_in_undefined MPI_UNDEFINED_def)

end

section \<open>The formats keep the promise\<close>

definition ranks_ok :: "nat \<Rightarrow> int list \<Rightarrow> bool" where
  "ranks_ok n ranks \<longleftrightarrow> distinct ranks \<and> (\<forall>r \<in> set ranks. 0 \<le> r \<and> r < int n)"

lemma rank_in_Cons: "rank_in (x # xs) y = (if x = y then 0 else if y \<in> set xs then rank_in xs y + 1 else MPI_UNDEFINED)"
proof -
  have "find (\<lambda>i. (x # xs) ! i = y) [0..<length (x # xs)]
      = (if x = y then Some 0 else map_option Suc (find (\<lambda>i. xs ! i = y) [0..<length xs]))"
  proof (cases "x = y")
    case True
    then have "find (\<lambda>i. (x # xs) ! i = y) [0..<length (x # xs)] = Some 0" unfolding find_upt_Some by simp
    with True show ?thesis by simp
  next
    case False
    show ?thesis
    proof (cases "find (\<lambda>i. xs ! i = y) [0..<length xs]")
      case None
      then have "\<forall>i < length xs. xs ! i \<noteq> y" unfolding find_upt_None by simp
      with False have "find (\<lambda>i. (x # xs) ! i = y) [0..<length (x # xs)] = None"
        unfolding find_upt_None by (auto simp: nth_Cons split: nat.splits)
      with None False show ?thesis by simp
    next
      case (Some k)
      then have k: "k < length xs" "xs ! k = y" "\<forall>i < k. xs ! i \<noteq> y" unfolding find_upt_Some by auto
      have "find (\<lambda>i. (x # xs) ! i = y) [0..<length (x # xs)] = Some (Suc k)"
        unfolding find_upt_Some using k False by (auto simp: nth_Cons split: nat.splits)
      with False Some show ?thesis by simp
    qed
  qed
  moreover have "y \<in> set xs \<longleftrightarrow> find (\<lambda>i. xs ! i = y) [0..<length xs] \<noteq> None"
    unfolding find_upt_None by (auto simp: in_set_conv_nth)
  ultimately show ?thesis by (auto simp: rank_in_def split: option.splits)
qed

lemma rank_in_append:
  "rank_in (xs @ ys) y = (if y \<in> set xs then rank_in xs y else if y \<in> set ys then int (length xs) + rank_in ys y else MPI_UNDEFINED)"
  by (induction xs) (auto simp: rank_in_Cons rank_in_undefined)

subsection \<open>Runs\<close>

definition run :: "ompi_group_sporadic_list_t \<Rightarrow> int list" where
  "run x = map (\<lambda>k. rank_first x + int k) [0..<nat (run_length x)]"

definition sporadic_encodes :: "nat \<Rightarrow> ompi_group_sporadic_list_t list \<Rightarrow> int list \<Rightarrow> bool" where
  "sporadic_encodes n runs ranks \<longleftrightarrow> ranks_ok n ranks \<and> (\<forall>x \<in> set runs. 0 < run_length x) \<and> concat (map run runs) = ranks"

lemma set_run: "0 < run_length x \<Longrightarrow> r \<in> set (run x) \<longleftrightarrow> rank_first x \<le> r \<and> r \<le> rank_first x + run_length x - 1"
proof
  assume "0 < run_length x" "rank_first x \<le> r \<and> r \<le> rank_first x + run_length x - 1"
  then have "r = rank_first x + int (nat (r - rank_first x))" "nat (r - rank_first x) < nat (run_length x)" by auto
  then show "r \<in> set (run x)" unfolding run_def set_map by (intro image_eqI [of _ _ "nat (r - rank_first x)"]) simp_all
qed (auto simp: run_def)

lemma run_nth [simp]: "i < nat (run_length x) \<Longrightarrow> run x ! i = rank_first x + int i"
  by (simp add: run_def)

lemma length_run [simp]: "length (run x) = nat (run_length x)"
  by (simp add: run_def)

lemma rank_in_run:
  assumes "0 < run_length x" "r \<in> set (run x)"
  shows "rank_in (run x) r = r - rank_first x"
proof -
  obtain i where i: "i < length (run x)" "run x ! i = r" using assms(2) by (auto simp: in_set_conv_nth)
  have "distinct (run x)" by (auto simp: run_def distinct_map inj_on_def)
  from rank_in_nth [OF this i(1)] i show ?thesis by auto
qed

lemma sporadic_to_parent_eq:
  "\<forall>x \<in> set runs. 0 < run_length x \<Longrightarrow> i < length (concat (map run runs)) \<Longrightarrow>
     sporadic_to_parent runs count (count + int i) = Some (concat (map run runs) ! i)"
proof (induction runs arbitrary: count i)
  case (Cons x xs)
  show ?case
  proof (cases "i < nat (run_length x)")
    case True
    then show ?thesis by (auto simp: nth_append)
  next
    case False
    then have "count + int i = (count + run_length x) + int (i - nat (run_length x))" using Cons.prems(1) by auto
    moreover have "i - nat (run_length x) < length (concat (map run xs))" using Cons.prems(2) False by simp
    moreover have "run_length x - 1 < int i" using False by linarith
    ultimately show ?thesis using Cons.IH [of "i - nat (run_length x)" "count + run_length x"] Cons.prems(1) False
      by (simp add: nth_append)
  qed
qed simp

lemma sporadic_to_child_eq:
  "\<forall>x \<in> set runs. 0 < run_length x \<Longrightarrow>
     sporadic_to_child runs count r = (if r \<in> set (concat (map run runs)) then count + rank_in (concat (map run runs)) r else MPI_UNDEFINED)"
proof (induction runs arbitrary: count)
  case (Cons x xs)
  then have "0 < run_length x" by simp
  with Cons set_run [OF this, of r] rank_in_run [OF this, of r] show ?case by (auto simp: rank_in_append)
qed simp

interpretation spor: sparse_format sporadic_encodes "\<lambda>d r. Some (sporadic_to_child d 0 r)" "\<lambda>d r. sporadic_to_parent d 0 r"
proof unfold_locales
  fix n d ranks
  assume "sporadic_encodes n d ranks"
  then show "distinct ranks \<and> (\<forall>r \<in> set ranks. 0 \<le> r \<and> r < int n)" by (simp add: sporadic_encodes_def ranks_ok_def)
next
  fix n d i and ranks :: "int list"
  assume "sporadic_encodes n d ranks" "i < length ranks"
  then show "sporadic_to_parent d 0 (int i) = Some (ranks ! i)"
    using sporadic_to_parent_eq [of d i 0] by (auto simp: sporadic_encodes_def)
next
  fix n d ranks r
  assume "sporadic_encodes n d ranks"
  then show "Some (sporadic_to_child d 0 r) = Some (rank_in ranks r)"
    using sporadic_to_child_eq [of d 0 r] rank_in_undefined [of r ranks] by (auto simp: sporadic_encodes_def)
qed

text \<open>The number of runs does not depend on the cell before the array, and the list fits its allocation.\<close>

definition n_breaks :: "int list \<Rightarrow> nat \<Rightarrow> nat" where
  "n_breaks ranks i = length (filter (\<lambda>i. ranks ! i \<noteq> ranks ! (i - 1) + 1) [1..<i])"

lemma count_runs_eq: "ranks \<noteq> [] \<Longrightarrow> count_runs before ranks = Suc (n_breaks ranks (length ranks))"
proof -
  have "0 < m \<Longrightarrow> fold (count_run before ranks) [0..<m] 0 = Suc (n_breaks ranks m)" for m
  proof (induction m)
    case (Suc m)
    then show ?case by (cases "m = 0") (auto simp: count_run_def n_breaks_def)
  qed simp
  then show "ranks \<noteq> [] \<Longrightarrow> ?thesis" by (simp add: count_runs_def)
qed

lemma run_extend: "0 < run_length x \<Longrightarrow> run (x\<lparr>run_length := run_length x + 1\<rparr>) = run x @ [rank_first x + run_length x]"
  by (simp add: run_def nat_add_distrib)

lemma last_run: "0 < run_length x \<Longrightarrow> run x \<noteq> [] \<and> last (run x) = rank_first x + run_length x - 1"
proof -
  assume pos: "0 < run_length x"
  then have "length (run x) \<noteq> 0" by simp
  then have "run x \<noteq> []" by (metis list.size(3))
  moreover from this have "last (run x) = rank_first x + run_length x - 1" using pos by (simp add: last_conv_nth nat_diff_distrib)
  ultimately show ?thesis by simp
qed

lemma make_runs_correct:
  assumes "ranks_ok n ranks" "ranks \<noteq> []"
  shows "\<exists>runs. make_runs before ranks = Some runs \<and> sporadic_encodes n runs ranks"
proof -
  let ?l = "count_runs before ranks"
  let ?P = "\<lambda>m runs. runs \<noteq> [] \<and> (\<forall>x \<in> set runs. 0 < run_length x) \<and> concat (map run runs) = take (Suc m) ranks
    \<and> length runs = Suc (n_breaks ranks (Suc m))"
  have "\<exists>runs. ofold (\<lambda>m. add_run ?l ranks (Suc m)) [0..<length ranks - 1] [\<lparr>rank_first = ranks ! 0, run_length = 1\<rparr>] = Some runs
      \<and> ?P (length ranks - 1) runs"
  proof (rule ofold_upt_inv [where P = ?P])
    show "?P 0 [\<lparr>rank_first = ranks ! 0, run_length = 1\<rparr>]" using assms(2) by (cases ranks) (auto simp: run_def n_breaks_def)
  next
    fix m runs
    assume m: "m < length ranks - 1" and P: "?P m runs"
    have br: "n_breaks ranks (Suc (Suc m)) = n_breaks ranks (Suc m) + (if ranks ! Suc m = ranks ! m + 1 then 0 else 1)"
      by (simp add: n_breaks_def)
    have nxt: "take (Suc (Suc m)) ranks = take (Suc m) ranks @ [ranks ! Suc m]" using m by (simp add: take_Suc_conv_app_nth)
    obtain ys y where runs: "runs = ys @ [y]" using P by (cases runs rule: rev_cases) auto
    show "\<exists>runs'. add_run ?l ranks (Suc m) runs = Some runs' \<and> ?P (Suc m) runs'"
    proof (cases "ranks ! Suc m = ranks ! m + 1")
      case True
      have "last (concat (map run runs)) = rank_first y + run_length y - 1"
        using runs P last_run [of y] last_appendR [of "run y" "concat (map run ys)"] by (simp del: last_appendR)
      moreover have "last (take (Suc m) ranks) = ranks ! m" using m by (simp add: take_Suc_conv_app_nth)
      ultimately have "rank_first y + run_length y = ranks ! Suc m" using P True by simp
      then show ?thesis using True P runs run_extend [of y] nxt br by (simp add: add_run_def)
    next
      case False
      have "n_breaks ranks (Suc (Suc m)) \<le> n_breaks ranks (length ranks)"
      proof -
        have "[1..<length ranks] = [1..<Suc (Suc m)] @ [Suc (Suc m)..<length ranks]" using m
          by (metis Suc_leI One_nat_def Suc_le_mono le_add_diff_inverse less_diff_conv upt_add_eq_append zero_le add.commute plus_1_eq_Suc)
        then show ?thesis by (simp add: n_breaks_def del: upt_Suc)
      qed
      then have "length runs < ?l" using count_runs_eq [OF assms(2), of before] P br False by simp
      then show ?thesis using False P runs nxt br by (simp add: add_run_def run_def [of "\<lparr>rank_first = _, run_length = _\<rparr>"])
    qed
  qed
  moreover have "ofold (\<lambda>m. add_run ?l ranks (Suc m)) [0..<length ranks - 1] s = ofold (add_run ?l ranks) [1..<length ranks] s" for s
    using ofold_map [of "add_run ?l ranks" Suc "[0..<length ranks - 1]" s] assms(2) by (simp add: map_Suc_upt)
  ultimately show ?thesis using assms count_runs_eq [OF assms(2), of before]
    by (auto simp: make_runs_def Let_def sporadic_encodes_def)
qed

subsection \<open>Strides\<close>

definition strided_encodes :: "nat \<Rightarrow> ompi_group_strided_data_t \<Rightarrow> int list \<Rightarrow> bool" where
  "strided_encodes n d ranks \<longleftrightarrow> ranks_ok n ranks \<and> ranks \<noteq> [] \<and> 0 < grp_strided_stride d
     \<and> ranks = map (\<lambda>i. grp_strided_stride d * int i + grp_strided_offset d) [0..<length ranks]
     \<and> grp_strided_last_element d = last ranks"

lemma strided_to_child_eq:
  assumes "strided_encodes n d ranks"
  shows "strided_to_child d r = Some (rank_in ranks r)"
proof -
  let ?s = "grp_strided_stride d" and ?o = "grp_strided_offset d"
  have s: "0 < ?s" and ne: "ranks \<noteq> []" and dist: "distinct ranks" using assms by (auto simp: strided_encodes_def ranks_ok_def)
  have nth: "ranks ! i = ?s * int i + ?o" if "i < length ranks" for i
  proof -
    have "ranks ! i = map (\<lambda>i. ?s * int i + ?o) [0..<length ranks] ! i" using assms unfolding strided_encodes_def by metis
    with that show ?thesis by simp
  qed
  have last: "grp_strided_last_element d = ?s * int (length ranks - 1) + ?o"
    using assms ne nth [of "length ranks - 1"] by (simp add: strided_encodes_def last_conv_nth)
  show ?thesis
  proof (cases "r \<in> set ranks")
    case True
    then obtain i where i: "i < length ranks" "r = ?s * int i + ?o" using nth by (auto simp: in_set_conv_nth)
    then have "?s * int i \<le> ?s * int (length ranks - 1)" using s by (intro mult_left_mono) auto
    moreover have "rank_in ranks r = int i" using rank_in_nth [OF dist i(1)] nth [OF i(1)] i(2) by simp
    ultimately show ?thesis using i s last
      by (simp add: strided_to_child_def Let_def smod_nonneg sdiv_nonneg)
  next
    case False
    have "\<not> (0 \<le> r - ?o \<and> (r - ?o) smod ?s = 0 \<and> r \<le> grp_strided_last_element d)"
    proof
      assume *: "0 \<le> r - ?o \<and> (r - ?o) smod ?s = 0 \<and> r \<le> grp_strided_last_element d"
      define q where "q = (r - ?o) div ?s"
      have q: "r = ?s * q + ?o" "0 \<le> q" using * s by (auto simp: q_def smod_nonneg pos_imp_zdiv_nonneg_iff)
      have "?s * q \<le> ?s * int (length ranks - 1)" using * q(1) last by simp
      then have "q \<le> int (length ranks - 1)" using s by simp
      then have "nat q < length ranks" "r = ranks ! nat q" using q ne nth [of "nat q"] by (auto simp: nat_less_iff of_nat_diff Suc_leI)
      with False show False by simp
    qed
    then show ?thesis using False s rank_in_undefined [OF False] by (auto simp: strided_to_child_def Let_def)
  qed
qed

interpretation stri: sparse_format strided_encodes strided_to_child "\<lambda>d r. Some (strided_to_parent d r)"
proof unfold_locales
  fix n d ranks
  assume "strided_encodes n d ranks"
  then show "distinct ranks \<and> (\<forall>r \<in> set ranks. 0 \<le> r \<and> r < int n)" by (simp add: strided_encodes_def ranks_ok_def)
next
  fix n d i and ranks :: "int list"
  assume "strided_encodes n d ranks" and i: "i < length ranks"
  then have "ranks ! i = map (\<lambda>i. grp_strided_stride d * int i + grp_strided_offset d) [0..<length ranks] ! i"
    unfolding strided_encodes_def by metis
  with i show "Some (strided_to_parent d (int i)) = Some (ranks ! i)" by (simp add: strided_to_parent_def)
next
  fix n d ranks r
  assume "strided_encodes n d ranks"
  then show "strided_to_child d r = Some (rank_in ranks r)" by (rule strided_to_child_eq)
qed

lemma check_stride_correct:
  assumes "ranks_ok n ranks" "ranks \<noteq> []" "check_stride ranks \<noteq> - 1"
  shows "strided_encodes n \<lparr>grp_strided_offset = ranks ! 0, grp_strided_stride = check_stride ranks,
    grp_strided_last_element = ranks ! (length ranks - 1)\<rparr> ranks"
proof -
  define s where "s = check_stride ranks"
  define t where "t = (if length ranks > 1 then ranks ! 1 - ranks ! 0 else 1)"
  let ?A = "\<forall>i \<in> set [0..<length ranks - 1]. ranks ! (i + 1) - ranks ! i = t"
  have "s = (if t < 0 then - 1 else if ?A then t else - 1)" unfolding s_def t_def check_stride_def Let_def ..
  then have t: "s = t" "0 \<le> t" ?A using assms(3) unfolding s_def [symmetric] by presburger+
  have s: "0 \<le> s" "length ranks > 1 \<Longrightarrow> s = ranks ! 1 - ranks ! 0" "length ranks \<le> 1 \<Longrightarrow> s = 1"
    using t(2) unfolding t(1) by (simp_all add: t_def)
  have diff: "ranks ! (i + 1) - ranks ! i = s" if "i < length ranks - 1" for i
    using t(3) that unfolding t(1) Ball_def set_upt atLeastLessThan_iff by blast
  have "s \<noteq> 0"
  proof
    assume "s = 0"
    then have "length ranks > 1" "ranks ! 1 = ranks ! 0" using s by (auto simp: not_le [symmetric])
    then show False using assms(1,2) nth_eq_iff_index_eq [of ranks 1 0] by (auto simp: ranks_ok_def)
  qed
  have "i < length ranks \<Longrightarrow> ranks ! i = s * int i + ranks ! 0" for i
  proof (induction i)
    case (Suc i)
    then have "ranks ! (i + 1) - ranks ! i = s" using diff [of i] by simp
    with Suc show ?case by (simp add: algebra_simps)
  qed simp
  then have "ranks = map (\<lambda>i. s * int i + ranks ! 0) [0..<length ranks]" by (intro nth_equalityI) simp_all
  moreover have "0 < s" using s(1) \<open>s \<noteq> 0\<close> by simp
  ultimately show ?thesis using assms(1,2) by (simp add: strided_encodes_def s_def [symmetric] last_conv_nth)
qed

subsection \<open>Bitmaps\<close>

lemma bmap_test_bit: "bmap_test arr p \<longleftrightarrow> bit (arr ! (p div 8)) (p mod 8)"
proof -
  have "(arr ! (p div 8)) AND 2 ^ (p mod 8) = 2 ^ (p mod 8) \<longleftrightarrow> bit (arr ! (p div 8)) (p mod 8)"
  proof
    assume "(arr ! (p div 8)) AND 2 ^ (p mod 8) = 2 ^ (p mod 8)"
    moreover have "bit ((2::8 word) ^ (p mod 8)) (p mod 8)" by (simp add: bit_simps)
    ultimately have "bit ((arr ! (p div 8)) AND 2 ^ (p mod 8)) (p mod 8)" by simp
    then show "bit (arr ! (p div 8)) (p mod 8)" by (simp add: bit_and_iff)
  next
    assume "bit (arr ! (p div 8)) (p mod 8)"
    then show "(arr ! (p div 8)) AND 2 ^ (p mod 8) = 2 ^ (p mod 8)" by (intro bit_word_eqI) (auto simp: bit_simps)
  qed
  then show ?thesis by (auto simp: bmap_test_def)
qed

text \<open>The positions of the set bits.\<close>

definition bmap_positions :: "8 word list \<Rightarrow> int list" where
  "bmap_positions arr = map int (filter (bmap_test arr) [0..<8 * length arr])"

definition bmap_encodes :: "nat \<Rightarrow> 8 word list \<Rightarrow> int list \<Rightarrow> bool" where
  "bmap_encodes n arr ranks \<longleftrightarrow> ranks_ok n ranks \<and> n \<le> 8 * length arr \<and> bmap_positions arr = ranks"

lemma bmap_find_eq:
  "0 \<le> count \<Longrightarrow> i < length (filter (bmap_test arr) ps) \<Longrightarrow>
     bmap_find arr (count + int i) ps count = Some (int (filter (bmap_test arr) ps ! i))"
proof (induction ps arbitrary: count i)
  case (Cons p ps)
  show ?case
  proof (cases "bmap_test arr p")
    case True
    then show ?thesis using Cons.IH [of "count + 1" "i - 1"] Cons.prems by (cases i) (auto simp: Let_def algebra_simps)
  next
    case False
    then show ?thesis using Cons by (simp add: Let_def)
  qed
qed simp

lemma bmap_count_eq:
  "distinct ps \<Longrightarrow> m \<in> set ps \<Longrightarrow> bmap_test arr m \<Longrightarrow>
     bmap_count arr m ps count = Some (count + rank_in (filter (bmap_test arr) ps) m)"
  by (induction ps arbitrary: count) (auto simp: Let_def rank_in_Cons)

lemma bmap_to_child_eq:
  assumes "bmap_encodes n arr ranks" "0 \<le> r" "r < int n"
  shows "bmap_to_child arr r = Some (rank_in ranks r)"
proof -
  obtain m where m: "r = int m" using assms(2) by (metis zero_le_imp_eq_int)
  have len: "m < 8 * length arr" "m div 8 < length arr" using assms m by (auto simp: bmap_encodes_def)
  have sd: "int m sdiv 8 = int (m div 8)" using int_sdiv_int [of m 8] by simp
  let ?all = "filter (bmap_test arr) [0..<8 * length arr]"
  have ranks: "rank_in ranks r = rank_in ?all m"
    using rank_in_map [of int m ?all] assms(1) m unfolding bmap_encodes_def bmap_positions_def by (metis inj_on_of_nat)
  show ?thesis
  proof (cases "bmap_test arr m")
    case True
    have "[0..<8 * length arr] = [0..<8 * (m div 8 + 1)] @ [8 * (m div 8 + 1)..<8 * length arr]"
      using len(2) upt_add_eq_append [of 0 "8 * (m div 8 + 1)" "8 * length arr - 8 * (m div 8 + 1)"] by simp
    then have "?all = filter (bmap_test arr) [0..<8 * (m div 8 + 1)] @ filter (bmap_test arr) [8 * (m div 8 + 1)..<8 * length arr]"
      by (metis filter_append)
    moreover have mem: "m \<in> set [0..<8 * (m div 8 + 1)]" by auto
    ultimately have "rank_in ?all m = rank_in (filter (bmap_test arr) [0..<8 * (m div 8 + 1)]) m"
      using True by (simp add: rank_in_append del: mult_Suc_right)
    then show ?thesis using True bmap_count_eq [OF _ mem True, of 0] ranks len m sd
      by (simp add: bmap_to_child_def del: mult_Suc_right)
  next
    case False
    then have "rank_in ?all m = MPI_UNDEFINED" by (intro rank_in_undefined) simp
    with False ranks len m sd show ?thesis by (simp add: bmap_to_child_def)
  qed
qed

interpretation bmap: sparse_format bmap_encodes bmap_to_child bmap_to_parent
proof unfold_locales
  fix n d ranks
  assume "bmap_encodes n d ranks"
  then show "distinct ranks \<and> (\<forall>r \<in> set ranks. 0 \<le> r \<and> r < int n)" by (simp add: bmap_encodes_def ranks_ok_def)
next
  fix n d i and ranks :: "int list"
  assume "bmap_encodes n d ranks" "i < length ranks"
  then have "i < length (filter (bmap_test d) [0..<8 * length d])" "ranks ! i = int (filter (bmap_test d) [0..<8 * length d] ! i)"
    by (auto simp: bmap_encodes_def bmap_positions_def)
  then show "bmap_to_parent d (int i) = Some (ranks ! i)"
    using bmap_find_eq [of 0 i d "[0..<8 * length d]"] by (simp add: bmap_to_parent_def)
next
  fix n d ranks r
  assume "bmap_encodes n d ranks" "0 \<le> r" "r < int n"
  then show "bmap_to_child d r = Some (rank_in ranks r)" by (rule bmap_to_child_eq)
qed

lemma div_ceil_bounds: "0 \<le> n \<Longrightarrow> n \<le> 8 * ompi_group_div_ceil n 8 \<and> 0 \<le> ompi_group_div_ceil n 8"
  by (auto simp: ompi_group_div_ceil_def sdiv_nonneg smod_nonneg)

lemma bmap_set_correct:
  assumes "0 \<le> r" "r < 8 * int (length arr)"
  shows "\<exists>arr'. bmap_set r arr = Some arr' \<and> length arr' = length arr
    \<and> (\<forall>p < 8 * length arr. bmap_test arr' p \<longleftrightarrow> bmap_test arr p \<or> int p = r)"
proof -
  obtain m where m: "r = int m" using assms(1) by (metis zero_le_imp_eq_int)
  then have d: "r sdiv 8 = int (m div 8)" "r smod 8 = int (m mod 8)" using int_sdiv_int [of m 8] int_smod_int [of m 8] by simp_all
  have i: "m div 8 < length arr" using assms(2) m by auto
  define arr' where "arr' = arr[m div 8 := arr ! (m div 8) OR push_bit (m mod 8) 1]"
  have "bmap_set r arr = Some arr'" using d i assms(1) by (simp add: bmap_set_def arr'_def)
  moreover have "bmap_test arr' p \<longleftrightarrow> bmap_test arr p \<or> int p = r" if "p < 8 * length arr" for p
  proof -
    have "p = m \<longleftrightarrow> p div 8 = m div 8 \<and> p mod 8 = m mod 8" by (metis div_mult_mod_eq)
    then show ?thesis using i m by (auto simp: arr'_def bmap_test_bit nth_list_update bit_set_bit_or)
  qed
  ultimately show ?thesis by (auto simp: arr'_def)
qed

lemma make_bmap_correct:
  assumes "ranks_ok n ranks" "check_ranks ranks"
  shows "\<exists>arr. make_bmap (int n) ranks = Some arr \<and> bmap_encodes n arr ranks"
proof -
  let ?l = "nat (ompi_group_div_ceil (int n) 8)"
  have n: "int n \<le> 8 * int ?l" using div_ceil_bounds [of "int n"] by simp
  have step: "\<forall>r \<in> set rs. 0 \<le> r \<and> r < 8 * int (length arr) \<Longrightarrow>
      \<exists>arr'. ofold bmap_set rs arr = Some arr' \<and> length arr' = length arr
        \<and> (\<forall>p < 8 * length arr. bmap_test arr' p \<longleftrightarrow> bmap_test arr p \<or> int p \<in> set rs)" for rs arr
  proof (induction rs arbitrary: arr)
    case (Cons r rs)
    then obtain arr1 where arr1: "bmap_set r arr = Some arr1" "length arr1 = length arr"
        "\<forall>p < 8 * length arr. bmap_test arr1 p \<longleftrightarrow> bmap_test arr p \<or> int p = r"
      using bmap_set_correct [of r arr] by auto
    from Cons.IH [of arr1] Cons.prems arr1 show ?case by auto
  qed simp
  have "\<forall>r \<in> set ranks. 0 \<le> r \<and> r < 8 * int (length (replicate ?l (0 :: 8 word)))" using assms(1) n by (auto simp: ranks_ok_def)
  from step [OF this] obtain arr where arr: "make_bmap (int n) ranks = Some arr" "length arr = ?l"
      "\<forall>p < 8 * ?l. bmap_test arr p \<longleftrightarrow> bmap_test (replicate ?l 0) p \<or> int p \<in> set ranks"
    by (auto simp: make_bmap_def)
  then have test: "bmap_test arr p \<longleftrightarrow> int p \<in> set ranks" if "p < 8 * ?l" for p
  proof -
    have "p div 8 < ?l" using that by auto
    with arr(3) that show ?thesis by (simp add: bmap_test_bit)
  qed
  have "\<forall>i. Suc i < length ranks \<longrightarrow> ranks ! i \<le> ranks ! Suc i" using assms(2) by (force simp: check_ranks_def not_less)
  then have "sorted ranks" by (simp add: sorted_iff_nth_Suc)
  moreover have "distinct ranks" using assms(1) by (simp add: ranks_ok_def)
  moreover have "set (bmap_positions arr) = set ranks"
  proof
    show "set (bmap_positions arr) \<subseteq> set ranks" using test arr(2) by (auto simp: bmap_positions_def)
    show "set ranks \<subseteq> set (bmap_positions arr)"
    proof
      fix r
      assume r: "r \<in> set ranks"
      then have "0 \<le> r" "r < int n" using assms(1) by (auto simp: ranks_ok_def)
      then have "nat r < 8 * ?l" "r = int (nat r)" using n by linarith+
      then have "nat r \<in> set (filter (bmap_test arr) [0..<8 * length arr])" using test [of "nat r"] r arr(2) by simp
      then show "r \<in> set (bmap_positions arr)" unfolding bmap_positions_def set_map using \<open>r = int (nat r)\<close> by blast
    qed
  qed
  moreover have "sorted (bmap_positions arr)" "distinct (bmap_positions arr)"
    by (auto simp: bmap_positions_def sorted_map distinct_map inj_on_def intro!: sorted_wrt_filter)
  ultimately have "bmap_positions arr = ranks" by (metis sorted_distinct_set_unique)
  moreover have "n \<le> 8 * ?l" using n by linarith
  ultimately show ?thesis using arr(1,2) assms(1) by (simp add: bmap_encodes_def)
qed

end
