(* ===== verification/Ompi_Group.thy ===== *)
theory Ompi_Group
  imports Group_Formats
begin

text \<open>
  Process groups, \<^verbatim>\<open>ompi/group/group.c\<close>, \<^verbatim>\<open>group_plist.c\<close>, \<^verbatim>\<open>group_set_rank.c\<close> and the constructors of the three sparse
  formats. A group is an ordered set of processes, stored as an array of process pointers or as a sparse reference to a
  parent group. The refinement relation \<open>repr g ps\<close> says that \<open>g\<close> stands for the list of processes \<open>ps\<close>, whatever its
  storage; the operations are shown to compute the corresponding operations on lists.

  Groups are never changed after their creation, so a group is a value with its address \<open>grp_id\<close>; the code's
  comparisons of group pointers compare addresses. The address \<open>0\<close> is \<^verbatim>\<open>MPI_GROUP_EMPTY\<close>. The allocator's answer is an
  argument: the address of the new group, or \<^const>\<open>None\<close> when there is no memory. Reference counts are not modelled.

  The sparse formats are chosen only in a build with \<^verbatim>\<open>OMPI_GROUP_SPARSE\<close> in which the user has switched them on; \<open>sparse\<close> is that choice.
\<close>

datatype 'p ompi_group_t = Group (grp_id: nat) (grp_proc_count: int) (grp_my_rank: int) (grp_data: "'p group_data")
  and 'p group_data =
      Plist "'p list"
    | Sporadic "ompi_group_sporadic_list_t list" "'p ompi_group_t"
    | Strided ompi_group_strided_data_t "'p ompi_group_t"
    | Bitmap "8 word list" "'p ompi_group_t"

definition MPI_GROUP_EMPTY :: "'p ompi_group_t" where
  "MPI_GROUP_EMPTY = Group 0 0 MPI_UNDEFINED (Plist [])"

abbreviation is_empty_group :: "'p ompi_group_t \<Rightarrow> bool" where
  "is_empty_group g \<equiv> grp_id g = 0"

definition grp_parent_group_ptr :: "'p ompi_group_t \<Rightarrow> 'p ompi_group_t option" where
  "grp_parent_group_ptr g = (case grp_data g of Plist _ \<Rightarrow> None | Sporadic _ p \<Rightarrow> Some p | Strided _ p \<Rightarrow> Some p | Bitmap _ p \<Rightarrow> Some p)"

definition MPI_IDENT :: int where [rc_defs]: "MPI_IDENT = 0"
definition MPI_SIMILAR :: int where [rc_defs]: "MPI_SIMILAR = 2"
definition MPI_UNEQUAL :: int where [rc_defs]: "MPI_UNEQUAL = 3"

section \<open>Operations\<close>

text \<open>The branches of \<^verbatim>\<open>ompi_group_translate_ranks\<close> from a child to its parent and back, by storage format.\<close>

definition translate_to_parent :: "'p ompi_group_t \<Rightarrow> int list \<Rightarrow> int option list option" where
  "translate_to_parent g ranks1 =
     (case grp_data g of
        Plist _ \<Rightarrow> Some (map (\<lambda>_. None) ranks1)
      | Sporadic d _ \<Rightarrow> ompi_group_translate_ranks_sporadic_reverse d ranks1
      | Strided d _ \<Rightarrow> ompi_group_translate_ranks_strided_reverse d ranks1
      | Bitmap d _ \<Rightarrow> ompi_group_translate_ranks_bmap_reverse d ranks1)"

definition translate_to_child :: "'p ompi_group_t \<Rightarrow> int list \<Rightarrow> int option list option" where
  "translate_to_child g ranks1 =
     (case grp_data g of
        Plist _ \<Rightarrow> Some (map (\<lambda>_. None) ranks1)
      | Sporadic d _ \<Rightarrow> ompi_group_translate_ranks_sporadic d ranks1
      | Strided d _ \<Rightarrow> ompi_group_translate_ranks_strided d ranks1
      | Bitmap d _ \<Rightarrow> ompi_group_translate_ranks_bmap d ranks1)"

text \<open>The loop of \<^verbatim>\<open>ompi_group_get_proc_ptr\<close> up to a dense group; a rank that the translation leaves unset is used
  uninitialised.\<close>

definition parent_rank :: "'p ompi_group_t \<Rightarrow> 'p ompi_group_t \<Rightarrow> int \<Rightarrow> int option" where
  "parent_rank g parent rank =
     (if is_empty_group g \<or> is_empty_group parent then Some MPI_UNDEFINED
      else case translate_to_parent g [rank] of Some [Some r] \<Rightarrow> Some r | _ \<Rightarrow> None)"

primrec ompi_group_get_proc_ptr :: "'p ompi_group_t \<Rightarrow> int \<Rightarrow> 'p option"
  and data_proc_ptr :: "'p group_data \<Rightarrow> nat \<Rightarrow> int \<Rightarrow> int \<Rightarrow> int \<Rightarrow> 'p option" where
  "ompi_group_get_proc_ptr (Group i n me d) rank = data_proc_ptr d i n me rank"
| "data_proc_ptr (Plist ps) i n me rank = aget ps rank"
| "data_proc_ptr (Sporadic d p) i n me rank =
     Option.bind (parent_rank (Group i n me (Sporadic d p)) p rank) (ompi_group_get_proc_ptr p)"
| "data_proc_ptr (Strided s p) i n me rank =
     Option.bind (parent_rank (Group i n me (Strided s p)) p rank) (ompi_group_get_proc_ptr p)"
| "data_proc_ptr (Bitmap b p) i n me rank =
     Option.bind (parent_rank (Group i n me (Bitmap b p)) p rank) (ompi_group_get_proc_ptr p)"

definition ompi_group_peer_lookup :: "'p ompi_group_t \<Rightarrow> int \<Rightarrow> 'p option" where
  "ompi_group_peer_lookup grp peer_id = ompi_group_get_proc_ptr grp peer_id"

text \<open>The loop that looks for a process in a group and stops at the first match.\<close>

definition find_proc :: "'p ompi_group_t \<Rightarrow> 'p \<Rightarrow> nat option option" where
  "find_proc g p =
     ofind (\<lambda>i. map_option (\<lambda>q. p = q) (ompi_group_peer_lookup g (int i))) [0..<nat (grp_proc_count g)]"

definition ompi_group_translate_ranks ::
  "'p ompi_group_t \<Rightarrow> int list \<Rightarrow> 'p ompi_group_t \<Rightarrow> int option list option" where
  "ompi_group_translate_ranks group1 ranks1 group2 =
     (if is_empty_group group1 \<or> is_empty_group group2 then Some (map (\<lambda>_. Some MPI_UNDEFINED) ranks1)
      else if map_option grp_id (grp_parent_group_ptr group1) = Some (grp_id group2) then translate_to_parent group1 ranks1
      else if map_option grp_id (grp_parent_group_ptr group2) = Some (grp_id group1) then translate_to_child group2 ranks1
      else
        omap (\<lambda>rank.
          if rank = MPI_PROC_NULL then Some (Some MPI_PROC_NULL)
          else do {
            proc1 \<leftarrow> ompi_group_peer_lookup group1 rank;
            found \<leftarrow> find_proc group2 proc1;
            Some (Some (case found of None \<Rightarrow> MPI_UNDEFINED | Some proc2 \<Rightarrow> int proc2))
          }) ranks1)"

text \<open>The loop has no early exit: the last match wins.\<close>

definition ompi_set_group_rank :: "'p ompi_group_t \<Rightarrow> 'p option \<Rightarrow> int option" where
  "ompi_set_group_rank g proc_pointer =
     (case proc_pointer of
        None \<Rightarrow> Some MPI_UNDEFINED
      | Some p \<Rightarrow>
          ofold (\<lambda>i r. do {
            q \<leftarrow> ompi_group_peer_lookup g (int i);
            Some (if q = p then int i else r)
          }) [0..<nat (grp_proc_count g)] MPI_UNDEFINED)"

text \<open>A dense group with the given members, and with the rank of the process \<open>me\<close>.\<close>

definition dense_group :: "nat \<Rightarrow> 'p list \<Rightarrow> 'p option \<Rightarrow> 'p ompi_group_t option" where
  "dense_group a procs me = do {
     r \<leftarrow> ompi_set_group_rank (Group a (int (length procs)) MPI_UNDEFINED (Plist procs)) me;
     Some (Group a (int (length procs)) r (Plist procs))
   }"

definition my_proc :: "'p ompi_group_t \<Rightarrow> 'p option option" where
  "my_proc g =
     (if grp_my_rank g \<noteq> MPI_UNDEFINED then map_option Some (ompi_group_peer_lookup g (grp_my_rank g)) else Some None)"

definition ompi_group_incl_plist ::
  "nat option \<Rightarrow> 'p ompi_group_t \<Rightarrow> int list \<Rightarrow> (int + 'p ompi_group_t) option" where
  "ompi_group_incl_plist new grp ranks =
     (if ranks = [] then Some (Inr MPI_GROUP_EMPTY)
      else case new of
        None \<Rightarrow> Some (Inl MPI_ERR_GROUP)
      | Some a \<Rightarrow> do {
          procs \<leftarrow> omap (ompi_group_peer_lookup grp) ranks;
          me \<leftarrow> my_proc grp;
          g \<leftarrow> dense_group a procs me;
          Some (Inr g)
        })"

text \<open>The common end of the sparse constructors: the caller's rank is translated into the new group.\<close>

definition sparse_group ::
  "nat \<Rightarrow> int \<Rightarrow> 'p group_data \<Rightarrow> 'p ompi_group_t \<Rightarrow> (int + 'p ompi_group_t) option" where
  "sparse_group a n d grp =
     (case ompi_group_translate_ranks grp [grp_my_rank grp] (Group a n MPI_UNDEFINED d) of
        Some [Some r] \<Rightarrow> Some (Inr (Group a n r d))
      | Some [None] \<Rightarrow> Some (Inr (Group a n MPI_UNDEFINED d))
      | _ \<Rightarrow> None)"

definition ompi_group_incl_spor ::
  "int \<Rightarrow> nat option \<Rightarrow> 'p ompi_group_t \<Rightarrow> int list \<Rightarrow> (int + 'p ompi_group_t) option" where
  "ompi_group_incl_spor before new grp ranks =
     (if ranks = [] then Some (Inr MPI_GROUP_EMPTY)
      else case new of
        None \<Rightarrow> Some (Inl MPI_ERR_GROUP)
      | Some a \<Rightarrow> do {
          runs \<leftarrow> make_runs before ranks;
          sparse_group a (sum_list (map run_length runs)) (Sporadic runs grp) grp
        })"

definition ompi_group_incl_strided ::
  "nat option \<Rightarrow> 'p ompi_group_t \<Rightarrow> int list \<Rightarrow> (int + 'p ompi_group_t) option" where
  "ompi_group_incl_strided new grp ranks =
     (if ranks = [] then Some (Inr MPI_GROUP_EMPTY)
      else case new of
        None \<Rightarrow> Some (Inl MPI_ERR_GROUP)
      | Some a \<Rightarrow>
          sparse_group a (int (length ranks))
            (Strided \<lparr>grp_strided_offset = ranks ! 0, grp_strided_stride = check_stride ranks,
                      grp_strided_last_element = ranks ! (length ranks - 1)\<rparr> grp) grp)"

definition ompi_group_incl_bmap ::
  "nat option \<Rightarrow> 'p ompi_group_t \<Rightarrow> int list \<Rightarrow> (int + 'p ompi_group_t) option" where
  "ompi_group_incl_bmap new grp ranks =
     (if ranks = [] then Some (Inr MPI_GROUP_EMPTY)
      else case new of
        None \<Rightarrow> Some (Inl MPI_ERR_GROUP)
      | Some a \<Rightarrow> do {
          arr \<leftarrow> make_bmap (grp_proc_count grp) ranks;
          sparse_group a (int (length ranks)) (Bitmap arr grp) grp
        })"

definition ompi_group_calc_plist :: "int list \<Rightarrow> int" where
  "ompi_group_calc_plist ranks = 8 * int (length ranks)"

definition ompi_group_minloc :: "int list \<Rightarrow> nat" where
  "ompi_group_minloc list =
     snd (fold (\<lambda>i (min, index). if min > list ! i \<and> list ! i \<noteq> - 1 then (list ! i, i) else (min, index))
       [0..<length list] (list ! 0, 0))"

definition ompi_group_incl ::
  "bool \<Rightarrow> int \<Rightarrow> nat option \<Rightarrow> 'p ompi_group_t \<Rightarrow> int list \<Rightarrow> (int + 'p ompi_group_t) option" where
  "ompi_group_incl sparse before new grp ranks =
     (let method =
        (if sparse then ompi_group_minloc
           [ompi_group_calc_plist ranks, ompi_group_calc_strided ranks, ompi_group_calc_sporadic before ranks,
            ompi_group_calc_bmap (grp_proc_count grp) ranks]
         else 0)
      in if method = 0 then ompi_group_incl_plist new grp ranks
         else if method = 1 then ompi_group_incl_strided new grp ranks
         else if method = 2 then ompi_group_incl_spor before new grp ranks
         else ompi_group_incl_bmap new grp ranks)"

text \<open>The ranks of a group that are not listed, written into an array of \<open>cells\<close> cells.\<close>

definition ranks_not_in :: "int \<Rightarrow> int \<Rightarrow> int list \<Rightarrow> int list option" where
  "ranks_not_in cells count ranks =
     ofold (\<lambda>i included.
       if int i \<in> set ranks then Some included
       else if int (length included) < cells then Some (included @ [int i])
       else None) [0..<nat count] []"

definition ompi_group_excl ::
  "bool \<Rightarrow> int \<Rightarrow> nat option \<Rightarrow> 'p ompi_group_t \<Rightarrow> int list \<Rightarrow> (int + 'p ompi_group_t) option" where
  "ompi_group_excl sparse before new grp ranks = do {
     included \<leftarrow> (if 0 < grp_proc_count grp - int (length ranks)
                  then ranks_not_in (grp_proc_count grp - int (length ranks)) (grp_proc_count grp) ranks
                  else Some []);
     ompi_group_incl sparse before new grp included
   }"

text \<open>The two \<^verbatim>\<open>while\<close> loops over one range. With a stride of the wrong sign, or zero, the loop does not end before the
  index overflows.\<close>

function range_up :: "int \<Rightarrow> int \<Rightarrow> int \<Rightarrow> int list option" where
  "range_up index last_rank stride =
     (if index \<le> last_rank then
        if stride \<le> 0 \<or> index + stride > INT_MAX then None
        else map_option ((#) index) (range_up (index + stride) last_rank stride)
      else Some [])"
  by pat_completeness auto
termination by (relation "measure (\<lambda>(i, l, s). nat (l - i + 1))") auto

function range_down :: "int \<Rightarrow> int \<Rightarrow> int \<Rightarrow> int list option" where
  "range_down index last_rank stride =
     (if index \<ge> last_rank then
        if stride \<ge> 0 \<or> index + stride < - INT_MAX - 1 then None
        else map_option ((#) index) (range_down (index + stride) last_rank stride)
      else Some [])"
  by pat_completeness auto
termination by (relation "measure (\<lambda>(i, l, s). nat (i - l + 1))") auto

declare range_up.simps [simp del] range_down.simps [simp del]

definition one_range :: "int \<times> int \<times> int \<Rightarrow> int list option" where
  "one_range = (\<lambda>(first_rank, last_rank, stride).
     if first_rank < last_rank then range_up first_rank last_rank stride
     else if first_rank > last_rank then range_down first_rank last_rank stride
     else Some [first_rank])"

text \<open>The ranks of all triplets. The code runs the loops twice: first to count, then to fill an array of that size.\<close>

definition range_ranks :: "(int \<times> int \<times> int) list \<Rightarrow> int list option" where
  "range_ranks ranges = map_option concat (omap one_range ranges)"

definition ompi_group_range_incl ::
  "bool \<Rightarrow> int \<Rightarrow> nat option \<Rightarrow> 'p ompi_group_t \<Rightarrow> (int \<times> int \<times> int) list \<Rightarrow> (int + 'p ompi_group_t) option" where
  "ompi_group_range_incl sparse before new grp ranges = do {
     included \<leftarrow> range_ranks ranges;
     ompi_group_incl sparse before new grp included
   }"

definition ompi_group_range_excl ::
  "bool \<Rightarrow> int \<Rightarrow> nat option \<Rightarrow> 'p ompi_group_t \<Rightarrow> (int \<times> int \<times> int) list \<Rightarrow> (int + 'p ompi_group_t) option" where
  "ompi_group_range_excl sparse before new grp ranges = do {
     excluded \<leftarrow> range_ranks ranges;
     included \<leftarrow> ranks_not_in (grp_proc_count grp - int (length excluded)) (grp_proc_count grp) excluded;
     ompi_group_incl sparse before new grp included
   }"

text \<open>The processes of one group that are, or are not, in another, with their ranks.\<close>

definition select_procs ::
  "bool \<Rightarrow> 'p ompi_group_t \<Rightarrow> 'p ompi_group_t \<Rightarrow> (nat \<times> 'p) list option" where
  "select_procs inside g other =
     ofold (\<lambda>i sel. do {
       p \<leftarrow> ompi_group_peer_lookup g (int i);
       found \<leftarrow> find_proc other p;
       Some (if (found \<noteq> None) = inside then sel @ [(i, p)] else sel)
     }) [0..<nat (grp_proc_count g)] []"

definition ompi_group_intersection ::
  "bool \<Rightarrow> int \<Rightarrow> nat option \<Rightarrow> 'p ompi_group_t \<Rightarrow> 'p ompi_group_t \<Rightarrow> (int + 'p ompi_group_t) option" where
  "ompi_group_intersection sparse before new group1 group2 = do {
     sel \<leftarrow> select_procs True group1 group2;
     ompi_group_incl sparse before new group1 (map (\<lambda>(i, _). int i) sel)
   }"

definition ompi_group_union ::
  "nat option \<Rightarrow> 'p ompi_group_t \<Rightarrow> 'p ompi_group_t \<Rightarrow> (int + 'p ompi_group_t) option" where
  "ompi_group_union new group1 group2 = do {
     sel \<leftarrow> select_procs False group2 group1;
     if grp_proc_count group1 + int (length sel) = 0 then Some (Inr MPI_GROUP_EMPTY)
     else case new of
       None \<Rightarrow> Some (Inl MPI_ERR_GROUP)
     | Some a \<Rightarrow> do {
         procs1 \<leftarrow> omap (\<lambda>i. ompi_group_peer_lookup group1 (int i)) [0..<nat (grp_proc_count group1)];
         me \<leftarrow> (if grp_my_rank group1 = MPI_UNDEFINED then my_proc group2 else my_proc group1);
         g \<leftarrow> dense_group a (procs1 @ map snd sel) me;
         Some (Inr g)
       }
   }"

definition ompi_group_difference ::
  "nat option \<Rightarrow> 'p ompi_group_t \<Rightarrow> 'p ompi_group_t \<Rightarrow> (int + 'p ompi_group_t) option" where
  "ompi_group_difference new group1 group2 = do {
     sel \<leftarrow> select_procs False group1 group2;
     if sel = [] then Some (Inr MPI_GROUP_EMPTY)
     else case new of
       None \<Rightarrow> Some (Inl MPI_ERR_GROUP)
     | Some a \<Rightarrow> do {
         me \<leftarrow> (if grp_my_rank group1 \<noteq> MPI_UNDEFINED then my_proc group1 else my_proc group2);
         g \<leftarrow> dense_group a (map snd sel) me;
         Some (Inr g)
       }
   }"

text \<open>The loop of \<^verbatim>\<open>ompi_group_compare\<close> over the first group: it stops at a process that is not in the second.\<close>

fun compare_loop :: "'p ompi_group_t \<Rightarrow> 'p ompi_group_t \<Rightarrow> nat list \<Rightarrow> bool \<Rightarrow> (bool \<times> bool) option" where
  "compare_loop g1 g2 [] identical = Some (True, identical)"
| "compare_loop g1 g2 (i # is) identical = do {
     p \<leftarrow> ompi_group_peer_lookup g1 (int i);
     found \<leftarrow> find_proc g2 p;
     case found of
       None \<Rightarrow> Some (False, False)
     | Some j \<Rightarrow> compare_loop g1 g2 is (identical \<and> i = j)
   }"

definition ompi_group_compare :: "'p ompi_group_t \<Rightarrow> 'p ompi_group_t \<Rightarrow> int option" where
  "ompi_group_compare group1 group2 =
     (if grp_id group1 = grp_id group2 then Some MPI_IDENT
      else if is_empty_group group1 \<or> is_empty_group group2 then Some MPI_UNEQUAL
      else if grp_proc_count group1 \<noteq> grp_proc_count group2 then Some MPI_UNEQUAL
      else do {
        (similar, identical) \<leftarrow> compare_loop group1 group2 [0..<nat (grp_proc_count group1)] True;
        Some (if identical then MPI_IDENT else if similar then MPI_SIMILAR else MPI_UNEQUAL)
      })"

section \<open>What a group stands for\<close>

text \<open>\<open>d\<close> is sparse data over the parent \<open>g\<close> of \<open>n\<close> processes, for the given ranks.\<close>

definition sparse_data :: "'p group_data \<Rightarrow> 'p ompi_group_t \<Rightarrow> nat \<Rightarrow> int list \<Rightarrow> bool" where
  "sparse_data d g n ranks =
     (case d of
        Plist _ \<Rightarrow> False
      | Sporadic x p \<Rightarrow> p = g \<and> sporadic_encodes n x ranks
      | Strided x p \<Rightarrow> p = g \<and> strided_encodes n x ranks
      | Bitmap x p \<Rightarrow> p = g \<and> bmap_encodes n x ranks)"

inductive repr :: "'p ompi_group_t \<Rightarrow> 'p list \<Rightarrow> bool" where
  repr_plist: "distinct ps \<Longrightarrow> a = 0 \<longleftrightarrow> ps = [] \<Longrightarrow> repr (Group a (int (length ps)) me (Plist ps)) ps"
| repr_sparse: "repr g qs \<Longrightarrow> sparse_data d g (length qs) ranks \<Longrightarrow> ranks \<noteq> [] \<Longrightarrow> a \<noteq> 0 \<Longrightarrow>
    repr (Group a (int (length ranks)) me d) (map (\<lambda>r. qs ! nat r) ranks)"

inductive_cases repr_GroupE: "repr g ps"

lemma repr_empty: "repr MPI_GROUP_EMPTY []"
  using repr_plist [of "[]" 0 MPI_UNDEFINED] by (simp add: MPI_GROUP_EMPTY_def)

text \<open>The rank of the calling process \<open>self\<close> is recorded.\<close>

definition knows_self :: "'p ompi_group_t \<Rightarrow> 'p list \<Rightarrow> 'p \<Rightarrow> bool" where
  "knows_self g ps self \<longleftrightarrow> grp_my_rank g = rank_in ps self"

lemma sparse_data_ranks:
  "sparse_data d g n ranks \<Longrightarrow> ranks_ok n ranks"
  by (auto simp: sparse_data_def sporadic_encodes_def strided_encodes_def bmap_encodes_def split: group_data.splits)

definition rank_or_null :: "nat \<Rightarrow> int \<Rightarrow> bool" where
  "rank_or_null n r \<longleftrightarrow> r = MPI_PROC_NULL \<or> 0 \<le> r \<and> r < int n"

lemma omap_Some: "(\<And>x. x \<in> set xs \<Longrightarrow> f x = Some (h x)) \<Longrightarrow> omap f xs = Some (map h xs)"
  by (induction xs) auto

lemma sparse_data_to_parent:
  assumes "sparse_data d g n ranks" "\<forall>r \<in> set rs. rank_or_null (length ranks) r"
  shows "translate_to_parent (Group a c me d) rs
    = Some (map (\<lambda>r. Some (if r = MPI_PROC_NULL then MPI_PROC_NULL else ranks ! nat r)) rs)"
proof -
  have ok: "r \<noteq> MPI_PROC_NULL \<Longrightarrow> nat r < length ranks \<and> 0 \<le> r" if "r \<in> set rs" for r
    using assms(2) that by (auto simp: rank_or_null_def)
  show ?thesis
  proof (cases d)
    case (Sporadic x p)
    then have "sporadic_encodes n x ranks" using assms(1) by (simp add: sparse_data_def)
    then have "sporadic_to_parent x 0 r = Some (ranks ! nat r)" if "r \<in> set rs" "r \<noteq> MPI_PROC_NULL" for r
      using spor.to_parent_nth [of n x ranks "nat r"] ok [OF that] by simp
    then show ?thesis using Sporadic by (simp add: translate_to_parent_def ompi_group_translate_ranks_sporadic_reverse_def)
  next
    case (Strided x p)
    then have "strided_encodes n x ranks" using assms(1) by (simp add: sparse_data_def)
    then have "Some (strided_to_parent x r) = Some (ranks ! nat r)" if "r \<in> set rs" "r \<noteq> MPI_PROC_NULL" for r
      using stri.to_parent_nth [of n x ranks "nat r"] ok [OF that] by simp
    then show ?thesis using Strided by (simp add: translate_to_parent_def ompi_group_translate_ranks_strided_reverse_def)
  next
    case (Bitmap x p)
    then have "bmap_encodes n x ranks" using assms(1) by (simp add: sparse_data_def)
    then have "bmap_to_parent x r = Some (ranks ! nat r)" if "r \<in> set rs" "r \<noteq> MPI_PROC_NULL" for r
      using bmap.to_parent_nth [of n x ranks "nat r"] ok [OF that] by simp
    then show ?thesis using Bitmap by (simp add: translate_to_parent_def ompi_group_translate_ranks_bmap_reverse_def)
  qed (use assms(1) in \<open>simp add: sparse_data_def\<close>)
qed

lemma sparse_data_to_child:
  assumes "sparse_data d g n ranks" "\<forall>r \<in> set rs. rank_or_null n r"
  shows "translate_to_child (Group a c me d) rs
    = Some (map (\<lambda>r. Some (if r = MPI_PROC_NULL then MPI_PROC_NULL else rank_in ranks r)) rs)"
proof -
  have ok: "r \<noteq> MPI_PROC_NULL \<Longrightarrow> 0 \<le> r \<and> r < int n" if "r \<in> set rs" for r
    using assms(2) that by (auto simp: rank_or_null_def)
  show ?thesis
  proof (cases d)
    case (Sporadic x p)
    then have "sporadic_encodes n x ranks" using assms(1) by (simp add: sparse_data_def)
    from spor.to_child_eq [OF this] ok show ?thesis
      using Sporadic by (simp add: translate_to_child_def ompi_group_translate_ranks_sporadic_def)
  next
    case (Strided x p)
    then have "strided_encodes n x ranks" using assms(1) by (simp add: sparse_data_def)
    from stri.to_child_eq [OF this] ok show ?thesis
      using Strided by (simp add: translate_to_child_def ompi_group_translate_ranks_strided_def) (intro omap_Some, auto)
  next
    case (Bitmap x p)
    then have "bmap_encodes n x ranks" using assms(1) by (simp add: sparse_data_def)
    from bmap.to_child_eq [OF this] ok show ?thesis
      using Bitmap by (simp add: translate_to_child_def ompi_group_translate_ranks_bmap_def) (intro omap_Some, auto)
  qed (use assms(1) in \<open>simp add: sparse_data_def\<close>)
qed

lemma sparse_data_parent: "sparse_data d g n ranks \<Longrightarrow> grp_parent_group_ptr (Group a c me d) = Some g"
  by (auto simp: sparse_data_def grp_parent_group_ptr_def split: group_data.splits)

lemma ranks_nth_inj: "distinct qs \<Longrightarrow> (\<forall>r \<in> A. 0 \<le> r \<and> r < int (length qs)) \<Longrightarrow> inj_on (\<lambda>r. qs ! nat r) A"
  by (rule inj_onI) (metis nat_less_iff nth_eq_iff_index_eq eq_nat_nat_iff)

text \<open>The members are distinct, their number is the recorded one, and only \<^verbatim>\<open>MPI_GROUP_EMPTY\<close> is empty.\<close>

lemma repr_facts: "repr g ps \<Longrightarrow> distinct ps \<and> grp_proc_count g = int (length ps) \<and> (grp_id g = 0 \<longleftrightarrow> ps = [])"
proof (induction rule: repr.induct)
  case (repr_sparse g qs d ranks a me)
  have "distinct ranks" "\<forall>r \<in> set ranks. 0 \<le> r \<and> r < int (length qs)"
    using sparse_data_ranks [OF repr_sparse.hyps(2)] by (auto simp: ranks_ok_def)
  with repr_sparse ranks_nth_inj [of qs "set ranks"] show ?case by (simp add: distinct_map)
qed auto

lemma data_proc_ptr_sparse:
  "sparse_data d g n ranks \<Longrightarrow> data_proc_ptr d a c me rank = Option.bind (parent_rank (Group a c me d) g rank) (ompi_group_get_proc_ptr g)"
  by (auto simp: sparse_data_def split: group_data.splits)

lemma repr_lookup: "repr g ps \<Longrightarrow> 0 \<le> r \<Longrightarrow> r < int (length ps) \<Longrightarrow> ompi_group_peer_lookup g r = Some (ps ! nat r)"
  unfolding ompi_group_peer_lookup_def
proof (induction arbitrary: r rule: repr.induct)
  case (repr_plist ps a me)
  then show ?case by (simp add: aget_Some)
next
  case (repr_sparse g qs d ranks a me)
  have ok: "\<forall>r \<in> set ranks. 0 \<le> r \<and> r < int (length qs)"
    using sparse_data_ranks [OF repr_sparse.hyps(2)] by (auto simp: ranks_ok_def)
  have r: "nat r < length ranks" using repr_sparse.prems by auto
  then have q: "0 \<le> ranks ! nat r" "ranks ! nat r < int (length qs)" using ok nth_mem by blast+
  then have "qs \<noteq> []" by auto
  then have "grp_id g \<noteq> 0" using repr_facts [OF repr_sparse.hyps(1)] by simp
  moreover have "r \<noteq> MPI_PROC_NULL" "rank_or_null (length ranks) r"
    using repr_sparse.prems by (auto simp: MPI_PROC_NULL_def rank_or_null_def)
  ultimately have "parent_rank (Group a (int (length ranks)) me d) g r = Some (ranks ! nat r)"
    using sparse_data_to_parent [OF repr_sparse.hyps(2), of "[r]"] repr_sparse.hyps(4) by (simp add: parent_rank_def)
  then show ?case using repr_sparse.IH [OF q] data_proc_ptr_sparse [OF repr_sparse.hyps(2)] r by simp
qed

lemma repr_unique: "repr g ps \<Longrightarrow> repr g qs \<Longrightarrow> ps = qs"
proof (rule nth_equalityI)
  assume g: "repr g ps" "repr g qs"
  show len: "length ps = length qs" using repr_facts [OF g(1)] repr_facts [OF g(2)] by simp
  fix i
  assume "i < length ps"
  then show "ps ! i = qs ! i" using repr_lookup [OF g(1), of "int i"] repr_lookup [OF g(2), of "int i"] len by simp
qed

definition first_index :: "'a list \<Rightarrow> 'a \<Rightarrow> nat option" where
  "first_index xs x = find (\<lambda>i. xs ! i = x) [0..<length xs]"

lemma rank_in_first_index: "rank_in xs x = (case first_index xs x of None \<Rightarrow> MPI_UNDEFINED | Some i \<Rightarrow> int i)"
  by (simp add: rank_in_def first_index_def)

lemma first_index_None: "first_index xs x = None \<longleftrightarrow> x \<notin> set xs"
  unfolding first_index_def find_upt_None by (auto simp: in_set_conv_nth)

lemma first_index_Some: "distinct xs \<Longrightarrow> first_index xs x = Some i \<longleftrightarrow> i < length xs \<and> xs ! i = x"
  unfolding first_index_def find_upt_Some by (auto simp: nth_eq_iff_index_eq)

lemma repr_find_proc: "repr g ps \<Longrightarrow> find_proc g p = Some (first_index ps p)"
proof -
  assume g: "repr g ps"
  have "find_proc g p = Some (find (\<lambda>i. p = ps ! i) [0..<length ps])"
    using repr_facts [OF g] repr_lookup [OF g] by (simp add: find_proc_def) (intro ofind_total, simp)
  moreover have "(\<lambda>i. p = ps ! i) = (\<lambda>i. ps ! i = p)" by auto
  ultimately show ?thesis by (simp add: first_index_def)
qed

lemma repr_set_rank: "repr g ps \<Longrightarrow> ompi_set_group_rank g (Some p) = Some (rank_in ps p)"
proof -
  assume g: "repr g ps"
  have "\<exists>r. ofold (\<lambda>i r. do { q \<leftarrow> ompi_group_peer_lookup g (int i); Some (if q = p then int i else r) }) [0..<length ps] MPI_UNDEFINED = Some r
      \<and> r = rank_in (take (length ps) ps) p"
  proof (rule ofold_upt_inv [where P = "\<lambda>k r. r = rank_in (take k ps) p"])
    fix i r
    assume i: "i < length ps" and r: "r = rank_in (take i ps) p"
    have "ps ! i \<notin> set (take i ps)"
      using i repr_facts [OF g] by (metis distinct_take id_take_nth_drop not_distinct_conv_prefix)
    then have "(if ps ! i = p then int i else r) = rank_in (take (Suc i) ps) p"
      using i r by (auto simp: take_Suc_conv_app_nth rank_in_append rank_in_Cons rank_in_undefined)
    then show "\<exists>s'. Option.bind (ompi_group_peer_lookup g (int i)) (\<lambda>q. Some (if q = p then int i else r)) = Some s' \<and> s' = rank_in (take (Suc i) ps) p"
      using repr_lookup [OF g, of "int i"] i by simp
  qed (simp add: rank_in_def)
  then show ?thesis using repr_facts [OF g] by (simp add: ompi_set_group_rank_def)
qed

lemma knows_self_my_proc: "repr g ps \<Longrightarrow> knows_self g ps self \<Longrightarrow> my_proc g = Some (if self \<in> set ps then Some self else None)"
proof (cases "self \<in> set ps")
  case True
  assume g: "repr g ps" "knows_self g ps self"
  from True obtain i where i: "i < length ps" "ps ! i = self" by (auto simp: in_set_conv_nth)
  then have "grp_my_rank g = int i" using g repr_facts [OF g(1)] rank_in_nth [of ps i] by (simp add: knows_self_def)
  then show ?thesis using repr_lookup [OF g(1), of "int i"] i True by (simp add: my_proc_def MPI_UNDEFINED_def)
next
  case False
  assume "repr g ps" "knows_self g ps self"
  with False show ?thesis by (simp add: my_proc_def knows_self_def rank_in_undefined)
qed

lemma knows_self_undefined: "repr g ps \<Longrightarrow> knows_self g ps self \<Longrightarrow> grp_my_rank g = MPI_UNDEFINED \<longleftrightarrow> self \<notin> set ps"
  using repr_facts [of g ps] by (auto simp: knows_self_def rank_in_undefined in_set_conv_nth MPI_UNDEFINED_def)

lemma dense_group_correct:
  assumes "distinct procs" "procs \<noteq> []" "a \<noteq> 0" "self \<in> set procs \<Longrightarrow> me = Some self" "me = None \<or> me = Some self"
  shows "\<exists>g. dense_group a procs me = Some g \<and> repr g procs \<and> knows_self g procs self"
proof -
  have g: "repr (Group a (int (length procs)) r (Plist procs)) procs" for r using assms(1-3) by (intro repr_plist) auto
  have "\<exists>r. ompi_set_group_rank (Group a (int (length procs)) MPI_UNDEFINED (Plist procs)) me = Some r \<and> r = rank_in procs self"
  proof (cases me)
    case None
    with assms(4) have "self \<notin> set procs" by auto
    with None show ?thesis by (simp add: ompi_set_group_rank_def rank_in_undefined)
  next
    case (Some q)
    with assms(5) have "me = Some self" by simp
    then show ?thesis using repr_set_rank [OF g, of MPI_UNDEFINED self] by simp
  qed
  then show ?thesis using g by (auto simp: dense_group_def knows_self_def)
qed

section \<open>Inclusion\<close>

text \<open>The addresses of a group and of the groups it refers to.\<close>

primrec group_ids :: "'p ompi_group_t \<Rightarrow> nat set" and data_ids :: "'p group_data \<Rightarrow> nat set" where
  "group_ids (Group i n me d) = insert i (data_ids d)"
| "data_ids (Plist ps) = {}"
| "data_ids (Sporadic d p) = group_ids p"
| "data_ids (Strided s p) = group_ids p"
| "data_ids (Bitmap b p) = group_ids p"

lemma group_ids_self: "grp_id g \<in> group_ids g"
  by (cases g) simp

lemma group_ids_parent: "grp_parent_group_ptr g = Some p \<Longrightarrow> grp_id p \<in> group_ids g"
  by (cases g) (auto simp: grp_parent_group_ptr_def group_ids_self split: group_data.splits)

lemma sparse_group_correct:
  assumes g: "repr g ps" "knows_self g ps self" "self \<in> set ps" and d: "sparse_data d g (length ps) ranks" "ranks \<noteq> []"
    and a: "a \<noteq> 0" "a \<notin> group_ids g"
  shows "\<exists>g'. sparse_group a (int (length ranks)) d g = Some (Inr g') \<and> repr g' (map (\<lambda>r. ps ! nat r) ranks)
    \<and> knows_self g' (map (\<lambda>r. ps ! nat r) ranks) self"
proof -
  obtain k where k: "k < length ps" "ps ! k = self" using g(3) by (auto simp: in_set_conv_nth)
  have dist: "distinct ps" and id: "grp_id g \<noteq> 0" using repr_facts [OF g(1)] g(3) by auto
  then have my: "grp_my_rank g = int k" using g(2) k rank_in_nth [of ps k] by (simp add: knows_self_def)
  have ok: "ranks_ok (length ps) ranks" using sparse_data_ranks [OF d(1)] .
  have "rank_in (map (\<lambda>r. ps ! nat r) ranks) (ps ! nat (int k)) = rank_in ranks (int k)"
    using ok k(1) dist by (intro rank_in_map ranks_nth_inj) (auto simp: ranks_ok_def)
  then have rank: "rank_in ranks (int k) = rank_in (map (\<lambda>r. ps ! nat r) ranks) self" using k(2) by simp
  have "map_option grp_id (grp_parent_group_ptr g) \<noteq> Some a" using a(2) group_ids_parent [of g] by (cases "grp_parent_group_ptr g") auto
  moreover have "int k \<noteq> MPI_PROC_NULL" "rank_or_null (length ps) (int k)" using k(1) by (auto simp: MPI_PROC_NULL_def rank_or_null_def)
  ultimately have "ompi_group_translate_ranks g [grp_my_rank g] (Group a (int (length ranks)) MPI_UNDEFINED d)
      = Some [Some (rank_in ranks (int k))]"
    using my a(1) id sparse_data_parent [OF d(1)] sparse_data_to_child [OF d(1), of "[int k]"]
    by (simp add: ompi_group_translate_ranks_def del: map_option_eq_Some)
  then have "sparse_group a (int (length ranks)) d g = Some (Inr (Group a (int (length ranks)) (rank_in ranks (int k)) d))"
    by (simp add: sparse_group_def)
  moreover have "repr (Group a (int (length ranks)) (rank_in ranks (int k)) d) (map (\<lambda>r. ps ! nat r) ranks)"
    using repr_sparse [OF g(1) d a(1)] .
  ultimately show ?thesis using rank by (auto simp: knows_self_def)
qed

lemma sum_run_length: "\<forall>x \<in> set runs. 0 < run_length x \<Longrightarrow> sum_list (map run_length runs) = int (length (concat (map run runs)))"
  by (induction runs) auto

lemma minloc4:
  "ompi_group_minloc [w, x, y, z] = 1 \<Longrightarrow> x \<noteq> - 1" "ompi_group_minloc [w, x, y, z] = 3 \<Longrightarrow> z \<noteq> - 1"
  "ompi_group_minloc [w, x, y, z] < 4"
  by (auto simp: ompi_group_minloc_def upt_rec numeral_2_eq_2 numeral_3_eq_3 split: if_splits)

lemma incl_plist_correct:
  assumes g: "repr g ps" "knows_self g ps self" and ranks: "ranks_ok (length ps) ranks" and a: "a \<noteq> 0"
  shows "\<exists>g'. ompi_group_incl_plist (Some a) g ranks = Some (Inr g') \<and> repr g' (map (\<lambda>r. ps ! nat r) ranks)
    \<and> knows_self g' (map (\<lambda>r. ps ! nat r) ranks) self"
proof (cases "ranks = []")
  case True
  then show ?thesis using repr_empty by (simp add: ompi_group_incl_plist_def MPI_GROUP_EMPTY_def knows_self_def rank_in_def)
next
  case False
  let ?qs = "map (\<lambda>r. ps ! nat r) ranks"
  have "omap (ompi_group_peer_lookup g) ranks = Some ?qs"
    using repr_lookup [OF g(1)] ranks by (intro omap_Some) (auto simp: ranks_ok_def)
  moreover have "my_proc g = Some (if self \<in> set ps then Some self else None)" using knows_self_my_proc [OF g] .
  moreover have dist: "distinct ?qs" using ranks repr_facts [OF g(1)] ranks_nth_inj [of ps "set ranks"] by (auto simp: distinct_map ranks_ok_def)
  moreover have "\<exists>g'. dense_group a ?qs (if self \<in> set ps then Some self else None) = Some g' \<and> repr g' ?qs \<and> knows_self g' ?qs self"
  proof (rule dense_group_correct)
    have "set ?qs \<subseteq> set ps" using ranks by (auto simp: ranks_ok_def nat_less_iff)
    then show "self \<in> set ?qs \<Longrightarrow> (if self \<in> set ps then Some self else None) = Some self" by auto
  qed (use a False dist in auto)
  ultimately show ?thesis using False by (auto simp: ompi_group_incl_plist_def)
qed

lemma group_incl_correct:
  assumes g: "repr g ps" "knows_self g ps self" and ranks: "ranks_ok (length ps) ranks"
    and a: "a \<noteq> 0" "a \<notin> group_ids g" and sparse: "sparse \<Longrightarrow> self \<in> set ps"
  shows "\<exists>g'. ompi_group_incl sparse before (Some a) g ranks = Some (Inr g') \<and> repr g' (map (\<lambda>r. ps ! nat r) ranks)
    \<and> knows_self g' (map (\<lambda>r. ps ! nat r) ranks) self"
proof -
  let ?lens = "[ompi_group_calc_plist ranks, ompi_group_calc_strided ranks, ompi_group_calc_sporadic before ranks,
      ompi_group_calc_bmap (grp_proc_count g) ranks]"
  note plist = incl_plist_correct [OF g ranks a(1)]
  have count: "grp_proc_count g = int (length ps)" using repr_facts [OF g(1)] by simp
  show ?thesis
  proof (cases "\<not> sparse \<or> ompi_group_minloc ?lens = 0 \<or> ranks = []")
    case True
    then show ?thesis using plist
      by (auto simp: ompi_group_incl_def Let_def ompi_group_incl_plist_def ompi_group_incl_strided_def ompi_group_incl_spor_def ompi_group_incl_bmap_def)
  next
    case False
    then have self: "self \<in> set ps" and ne: "ranks \<noteq> []" using sparse by auto
    note sg = sparse_group_correct [OF g self _ ne a]
    from False minloc4(3) [of "ompi_group_calc_plist ranks" "ompi_group_calc_strided ranks" "ompi_group_calc_sporadic before ranks" "ompi_group_calc_bmap (grp_proc_count g) ranks"]
    consider "ompi_group_minloc ?lens = 1" | "ompi_group_minloc ?lens = 2" | "ompi_group_minloc ?lens = 3" by linarith
    then show ?thesis
    proof cases
      case 1
      then have "check_stride ranks \<noteq> - 1" using minloc4(1) by (metis ompi_group_calc_strided_def)
      from sg [of "Strided _ g"] check_stride_correct [OF ranks ne this] 1 False ne show ?thesis
        by (simp add: ompi_group_incl_def ompi_group_incl_strided_def sparse_data_def)
    next
      case 2
      obtain runs where runs: "make_runs before ranks = Some runs" "sporadic_encodes (length ps) runs ranks"
        using make_runs_correct [OF ranks ne] by blast
      then have "sum_list (map run_length runs) = int (length ranks)" using sum_run_length by (auto simp: sporadic_encodes_def)
      with runs sg [of "Sporadic runs g"] 2 False ne show ?thesis
        by (simp add: ompi_group_incl_def ompi_group_incl_spor_def sparse_data_def)
    next
      case 3
      then have "check_ranks ranks" using minloc4(2) by (metis ompi_group_calc_bmap_def)
      then obtain arr where "make_bmap (grp_proc_count g) ranks = Some arr" "bmap_encodes (length ps) arr ranks"
        using make_bmap_correct [OF ranks] count by auto
      with sg [of "Bitmap arr g"] 3 False ne show ?thesis
        by (simp add: ompi_group_incl_def ompi_group_incl_bmap_def sparse_data_def)
    qed
  qed
qed

section \<open>Translation, comparison and set operations on lists\<close>

text \<open>Within one program, groups with the same address are the same.\<close>

definition same_if_same_id :: "'p ompi_group_t \<Rightarrow> 'p ompi_group_t \<Rightarrow> bool" where
  "same_if_same_id g1 g2 \<longleftrightarrow> (grp_id g1 = grp_id g2 \<longrightarrow> g1 = g2)
     \<and> (\<forall>p. grp_parent_group_ptr g1 = Some p \<and> grp_id p = grp_id g2 \<longrightarrow> p = g2)
     \<and> (\<forall>p. grp_parent_group_ptr g2 = Some p \<and> grp_id p = grp_id g1 \<longrightarrow> p = g1)"

lemma repr_child:
  assumes "repr c ps" "grp_parent_group_ptr c = Some g" "repr g qs"
  obtains d ranks a me where "c = Group a (int (length ranks)) me d" "sparse_data d g (length qs) ranks"
    "ps = map (\<lambda>r. qs ! nat r) ranks"
  using assms(1)
proof (cases rule: repr.cases)
  case (repr_plist a me)
  with assms(2) show ?thesis by (simp add: grp_parent_group_ptr_def)
next
  case (repr_sparse g' qs' d ranks a me)
  then have "g' = g" using assms(2) sparse_data_parent by fastforce
  with repr_sparse assms(3) have "qs' = qs" by (auto intro: repr_unique)
  with repr_sparse \<open>g' = g\<close> that show ?thesis by blast
qed

lemma rank_in_child:
  assumes "distinct qs" "ranks_ok (length qs) ranks" "0 \<le> r" "r < int (length qs)"
  shows "rank_in (map (\<lambda>r. qs ! nat r) ranks) (qs ! nat r) = rank_in ranks r"
  using assms by (intro rank_in_map ranks_nth_inj) (auto simp: ranks_ok_def)

lemma translate_ranks_correct:
  assumes g: "repr g1 ps1" "repr g2 ps2" "ps1 \<noteq> []" "ps2 \<noteq> []" "same_if_same_id g1 g2"
    and ranks: "\<forall>r \<in> set rs. rank_or_null (length ps1) r"
  shows "ompi_group_translate_ranks g1 rs g2
    = Some (map (\<lambda>r. Some (if r = MPI_PROC_NULL then MPI_PROC_NULL else rank_in ps2 (ps1 ! nat r))) rs)"
proof -
  have ids: "grp_id g1 \<noteq> 0" "grp_id g2 \<noteq> 0" using repr_facts [OF g(1)] repr_facts [OF g(2)] g(3,4) by auto
  have dist: "distinct ps1" "distinct ps2" using repr_facts [OF g(1)] repr_facts [OF g(2)] by auto
  have ok: "r = MPI_PROC_NULL \<or> 0 \<le> r \<and> r < int (length ps1)" if "r \<in> set rs" for r using ranks that by (auto simp: rank_or_null_def)
  show ?thesis
  proof (cases "map_option grp_id (grp_parent_group_ptr g1) = Some (grp_id g2)")
    case True
    then have "grp_parent_group_ptr g1 = Some g2" using g(5) by (auto simp: same_if_same_id_def)
    from repr_child [OF g(1) this g(2)] obtain d rk a me where
      c: "g1 = Group a (int (length rk)) me d" "sparse_data d g2 (length ps2) rk" "ps1 = map (\<lambda>r. ps2 ! nat r) rk" .
    have rk: "ranks_ok (length ps2) rk" using sparse_data_ranks [OF c(2)] .
    have "rank_in ps2 (ps1 ! nat r) = rk ! nat r" if "0 \<le> r" "r < int (length ps1)" for r
    proof -
      have i: "nat r < length rk" using that c(3) by simp
      then have "rk ! nat r \<in> set rk" by simp
      then have "0 \<le> rk ! nat r" "nat (rk ! nat r) < length ps2" using rk by (auto simp: ranks_ok_def nat_less_iff)
      then show ?thesis using rank_in_nth [OF dist(2)] i c(3) by simp
    qed
    then have "map (\<lambda>r. Some (if r = MPI_PROC_NULL then MPI_PROC_NULL else rk ! nat r)) rs
        = map (\<lambda>r. Some (if r = MPI_PROC_NULL then MPI_PROC_NULL else rank_in ps2 (ps1 ! nat r))) rs"
      using ok by (intro map_cong refl) metis
    then show ?thesis using True ids sparse_data_to_parent [OF c(2), of rs a "int (length rk)" me] ranks c(1,3)
      by (simp add: ompi_group_translate_ranks_def del: map_option_eq_Some)
  next
    case False
    note no_parent = False
    show ?thesis
    proof (cases "map_option grp_id (grp_parent_group_ptr g2) = Some (grp_id g1)")
      case True
      then have "grp_parent_group_ptr g2 = Some g1" using g(5) by (auto simp: same_if_same_id_def)
      from repr_child [OF g(2) this g(1)] obtain d rk a me where
        c: "g2 = Group a (int (length rk)) me d" "sparse_data d g1 (length ps1) rk" "ps2 = map (\<lambda>r. ps1 ! nat r) rk" .
      have "rank_in rk r = rank_in ps2 (ps1 ! nat r)" if "r \<in> set rs" "r \<noteq> MPI_PROC_NULL" for r
        using ok [OF that(1)] that(2) rank_in_child [OF dist(1) sparse_data_ranks [OF c(2)], of r] c(3) by simp
      then have "map (\<lambda>r. Some (if r = MPI_PROC_NULL then MPI_PROC_NULL else rank_in rk r)) rs
          = map (\<lambda>r. Some (if r = MPI_PROC_NULL then MPI_PROC_NULL else rank_in ps2 (ps1 ! nat r))) rs"
        by simp
      then show ?thesis using True no_parent ids sparse_data_to_child [OF c(2) ranks, of a "int (length rk)" me] c(1)
        by (simp add: ompi_group_translate_ranks_def del: map_option_eq_Some)
    next
      case False
      have "omap (\<lambda>rank. if rank = MPI_PROC_NULL then Some (Some MPI_PROC_NULL)
          else do { proc1 \<leftarrow> ompi_group_peer_lookup g1 rank; found \<leftarrow> find_proc g2 proc1;
                    Some (Some (case found of None \<Rightarrow> MPI_UNDEFINED | Some proc2 \<Rightarrow> int proc2)) }) rs
        = Some (map (\<lambda>r. Some (if r = MPI_PROC_NULL then MPI_PROC_NULL else rank_in ps2 (ps1 ! nat r))) rs)"
      proof (rule omap_Some)
        fix r
        assume "r \<in> set rs"
        from ok [OF this] show "(if r = MPI_PROC_NULL then Some (Some MPI_PROC_NULL)
            else do { proc1 \<leftarrow> ompi_group_peer_lookup g1 r; found \<leftarrow> find_proc g2 proc1;
                      Some (Some (case found of None \<Rightarrow> MPI_UNDEFINED | Some proc2 \<Rightarrow> int proc2)) })
          = Some (Some (if r = MPI_PROC_NULL then MPI_PROC_NULL else rank_in ps2 (ps1 ! nat r)))"
          using repr_lookup [OF g(1), of r] repr_find_proc [OF g(2)] by (auto simp: rank_in_first_index)
      qed
      then show ?thesis using False no_parent ids by (simp add: ompi_group_translate_ranks_def del: map_option_eq_Some)
    qed
  qed
qed

lemma select_procs_correct:
  assumes "repr g ps" "repr h qs"
  shows "select_procs inside g h = Some (filter (\<lambda>(i, p). (p \<in> set qs) = inside) (enumerate 0 ps))"
proof -
  let ?sel = "\<lambda>k. filter (\<lambda>(i, p). (p \<in> set qs) = inside) (enumerate 0 (take k ps))"
  have "\<exists>s. ofold (\<lambda>i sel. do { p \<leftarrow> ompi_group_peer_lookup g (int i); found \<leftarrow> find_proc h p;
       Some (if (found \<noteq> None) = inside then sel @ [(i, p)] else sel) }) [0..<length ps] [] = Some s \<and> s = ?sel (length ps)"
  proof (rule ofold_upt_inv [where P = "\<lambda>k s. s = ?sel k"])
    fix i s
    assume i: "i < length ps" and s: "s = ?sel i"
    have "enumerate 0 (take (Suc i) ps) = enumerate 0 (take i ps) @ [(i, ps ! i)]"
      using i by (simp add: take_Suc_conv_app_nth enumerate_append_eq)
    moreover have "first_index qs (ps ! i) \<noteq> None \<longleftrightarrow> ps ! i \<in> set qs" using first_index_None [of qs "ps ! i"] by argo
    ultimately show "\<exists>s'. Option.bind (ompi_group_peer_lookup g (int i)) (\<lambda>p. Option.bind (find_proc h p)
          (\<lambda>found. Some (if (found \<noteq> None) = inside then s @ [(i, p)] else s))) = Some s' \<and> s' = ?sel (Suc i)"
      using i s repr_lookup [OF assms(1), of "int i"] repr_find_proc [OF assms(2), of "ps ! i"] by simp
  qed simp
  then show ?thesis using repr_facts [OF assms(1)] by (simp add: select_procs_def)
qed

lemma map_snd_filter_enumerate: "map snd (filter (\<lambda>(i, p). P p) (enumerate n ps)) = filter P ps"
  by (induction ps arbitrary: n) auto

lemma filter_enumerate_ranks:
  fixes ps :: "'p list" and P :: "'p \<Rightarrow> bool"
  defines "rk \<equiv> map (\<lambda>(i, _). int i) (filter (\<lambda>(i, p). P p) (enumerate 0 ps))"
  shows "ranks_ok (length ps) rk" "map (\<lambda>r. ps ! nat r) rk = filter P ps"
proof -
  have en: "enumerate 0 ps = map (\<lambda>i. (i, ps ! i)) [0..<length ps]" by (rule nth_equalityI) (simp_all add: enumerate_eq_zip)
  then have rk: "rk = map int (filter (\<lambda>i. P (ps ! i)) [0..<length ps])" by (simp add: rk_def filter_map comp_def)
  then show "ranks_ok (length ps) rk" by (auto simp: ranks_ok_def distinct_map inj_on_def)
  have "map (\<lambda>r. ps ! nat r) rk = map snd (filter (\<lambda>(i, p). P p) (enumerate 0 ps))"
    using rk en by (simp add: filter_map comp_def)
  then show "map (\<lambda>r. ps ! nat r) rk = filter P ps" by (simp add: map_snd_filter_enumerate)
qed

lemma compare_loop_correct:
  assumes "repr g1 ps1" "repr g2 ps2"
  shows "set is \<subseteq> {..<length ps1} \<Longrightarrow> compare_loop g1 g2 is identical
    = Some (if \<forall>i \<in> set is. ps1 ! i \<in> set ps2
            then (True, identical \<and> (\<forall>i \<in> set is. i < length ps2 \<and> ps2 ! i = ps1 ! i)) else (False, False))"
proof (induction "is" arbitrary: identical)
  case (Cons i "is")
  have look: "ompi_group_peer_lookup g1 (int i) = Some (ps1 ! i)" "find_proc g2 (ps1 ! i) = Some (first_index ps2 (ps1 ! i))"
    using Cons.prems repr_lookup [OF assms(1), of "int i"] repr_find_proc [OF assms(2)] by auto
  have dist: "distinct ps2" using repr_facts [OF assms(2)] by simp
  show ?case
  proof (cases "first_index ps2 (ps1 ! i)")
    case None
    with look show ?thesis by (simp add: first_index_None)
  next
    case (Some j)
    then have j: "j < length ps2" "ps2 ! j = ps1 ! i" using first_index_Some [OF dist] by auto
    then have "ps1 ! i \<in> set ps2" "i = j \<longleftrightarrow> i < length ps2 \<and> ps2 ! i = ps1 ! i"
      using nth_mem [of j ps2] nth_eq_iff_index_eq [OF dist, of i j] by auto
    with Some look Cons.IH [of "identical \<and> i = j"] Cons.prems show ?thesis by auto
  qed
qed simp

lemma ranks_not_in_eq:
  assumes "0 \<le> cells"
  shows "ranks_not_in cells (int n) ranks
    = (let rest = filter (\<lambda>i. int i \<notin> set ranks) [0..<n] in if int (length rest) \<le> cells then Some (map int rest) else None)"
proof (induction n)
  case 0
  then show ?case using assms by (simp add: ranks_not_in_def)
next
  case (Suc n)
  have "ranks_not_in cells (int (Suc n)) ranks = (case ranks_not_in cells (int n) ranks of None \<Rightarrow> None | Some included \<Rightarrow>
      if int n \<in> set ranks then Some included else if int (length included) < cells then Some (included @ [int n]) else None)"
    unfolding ranks_not_in_def nat_int by (simp add: ofold_append split: option.splits)
  with Suc show ?case by (auto simp: Let_def)
qed

lemma rest_length:
  assumes "\<forall>r \<in> set ranks. 0 \<le> r \<and> r < int n"
  shows "int (length (filter (\<lambda>i. int i \<notin> set ranks) [0..<n])) = int n - int (card (set ranks))"
proof -
  have "set (filter (\<lambda>i. int i \<notin> set ranks) [0..<n]) = {..<n} - nat ` set ranks"
    using assms by (auto simp: image_iff) (metis nat_int)+
  then have "length (filter (\<lambda>i. int i \<notin> set ranks) [0..<n]) = card ({..<n} - nat ` set ranks)"
    by (metis distinct_card distinct_filter distinct_upt)
  moreover have "nat ` set ranks \<subseteq> {..<n}" using assms by auto
  moreover have "card (nat ` set ranks) = card (set ranks)" using assms by (intro card_image inj_onI) (auto simp: eq_nat_nat_iff)
  moreover have "card (set ranks) \<le> n" using calculation(2,3) by (metis card_lessThan card_mono finite_lessThan)
  ultimately show ?thesis by (simp add: card_Diff_subset of_nat_diff)
qed

text \<open>The ranks that are not listed.\<close>

definition other_ranks :: "nat \<Rightarrow> int list \<Rightarrow> int list" where
  "other_ranks n ranks = map int (filter (\<lambda>i. int i \<notin> set ranks) [0..<n])"

lemma other_ranks_ok: "ranks_ok n (other_ranks n ranks)"
  by (auto simp: other_ranks_def ranks_ok_def distinct_map inj_on_def)

lemma ranks_not_in_distinct:
  assumes "ranks_ok n ranks"
  shows "ranks_not_in (int n - int (length ranks)) (int n) ranks = Some (other_ranks n ranks)"
proof -
  have d: "card (set ranks) = length ranks" "\<forall>r \<in> set ranks. 0 \<le> r \<and> r < int n" using assms by (auto simp: ranks_ok_def distinct_card)
  have "0 \<le> int n - int (length ranks)" using rest_length [OF d(2)] d(1) by (metis of_nat_0_le_iff)
  then show ?thesis using ranks_not_in_eq [of "int n - int (length ranks)" n ranks] rest_length [OF d(2)] d(1)
    by (simp add: Let_def other_ranks_def)
qed

text \<open>The ranks a triplet stands for, and the triplets MPI allows.\<close>

definition triplet :: "int \<times> int \<times> int \<Rightarrow> int list" where
  "triplet = (\<lambda>(f, l, s). if f = l then [f] else map (\<lambda>k. f + s * int k) [0..<nat ((l - f) div s) + 1])"

definition triplet_ok :: "int \<times> int \<times> int \<Rightarrow> bool" where
  "triplet_ok = (\<lambda>(f, l, s). f < l \<and> 0 < s \<and> l + s \<le> INT_MAX \<or> f > l \<and> s < 0 \<and> l + s \<ge> - INT_MAX - 1 \<or> f = l)"

lemma upt_shift: "map (\<lambda>k. f + s * int k) [0..<Suc n] = f # map (\<lambda>k. (f + s) + s * int k) [0..<n]"
  by (simp add: upt_rec [of 0] map_Suc_upt [symmetric] comp_def algebra_simps del: upt_Suc)

lemma range_up_eq:
  "0 < s \<Longrightarrow> l + s \<le> INT_MAX \<Longrightarrow> i \<le> l \<Longrightarrow> range_up i l s = Some (map (\<lambda>k. i + s * int k) [0..<nat ((l - i) div s) + 1])"
proof (induction i l s rule: range_up.induct)
  case (1 i l s)
  show ?case
  proof (cases "i + s \<le> l")
    case True
    then have "(l - i) div s = (l - (i + s)) div s + 1"
      using 1(2) div_add_self2 [of s "l - (i + s)"] by (simp add: algebra_simps)
    moreover have "0 \<le> (l - (i + s)) div s" using True 1(2) by (simp add: pos_imp_zdiv_nonneg_iff)
    ultimately have n: "nat ((l - i) div s) + 1 = Suc (nat ((l - (i + s)) div s) + 1)" by simp
    have "range_up (i + s) l s = Some (map (\<lambda>k. (i + s) + s * int k) [0..<nat ((l - (i + s)) div s) + 1])"
      using 1 True by (intro 1(1)) auto
    then show ?thesis unfolding n upt_shift using 1(2-4) True by (subst range_up.simps) simp
  next
    case False
    then have "(l - i) div s = 0" using 1(2,4) by simp
    moreover have "range_up (i + s) l s = Some []" using False by (subst range_up.simps) simp
    ultimately show ?thesis using 1(2-4) by (subst range_up.simps) simp
  qed
qed

lemma range_down_eq:
  "s < 0 \<Longrightarrow> l + s \<ge> - INT_MAX - 1 \<Longrightarrow> i \<ge> l \<Longrightarrow> range_down i l s = Some (map (\<lambda>k. i + s * int k) [0..<nat ((l - i) div s) + 1])"
proof (induction i l s rule: range_down.induct)
  case (1 i l s)
  have neg: "(l - i) div s = (i - l) div (- s)" by (metis div_minus_minus minus_diff_eq)
  have neg': "(l - (i + s)) div s = (i + s - l) div (- s)" by (metis div_minus_minus minus_diff_eq)
  show ?case
  proof (cases "i + s \<ge> l")
    case True
    have "(i - l) div (- s) = (i + s - l) div (- s) + 1"
      using 1(2) div_add_self2 [of "- s" "i + s - l"] by (simp add: algebra_simps)
    moreover have "0 \<le> (i + s - l) div (- s)" using True 1(2) by (simp add: pos_imp_zdiv_nonneg_iff)
    ultimately have n: "nat ((l - i) div s) + 1 = Suc (nat ((l - (i + s)) div s) + 1)" unfolding neg neg' by simp
    have "range_down (i + s) l s = Some (map (\<lambda>k. (i + s) + s * int k) [0..<nat ((l - (i + s)) div s) + 1])"
      using 1 True by (intro 1(1)) auto
    then show ?thesis unfolding n upt_shift using 1(2-4) True by (subst range_down.simps) simp
  next
    case False
    then have "(l - i) div s = 0" unfolding neg using 1(2,4) by simp
    moreover have "range_down (i + s) l s = Some []" using False by (subst range_down.simps) simp
    ultimately show ?thesis using 1(2-4) by (subst range_down.simps) simp
  qed
qed

lemma range_ranks_eq: "\<forall>t \<in> set ranges. triplet_ok t \<Longrightarrow> range_ranks ranges = Some (concat (map triplet ranges))"
proof -
  assume "\<forall>t \<in> set ranges. triplet_ok t"
  then have "omap one_range ranges = Some (map triplet ranges)"
    using range_up_eq range_down_eq
    by (intro omap_Some) (fastforce simp: one_range_def triplet_def triplet_ok_def)
  then show ?thesis by (simp add: range_ranks_def)
qed

section \<open>Properties\<close>

text \<open>C14: whatever storage format \<^verbatim>\<open>ompi_group_incl\<close> chooses for the new group - an array, a stride, runs or a bitmap - and
  whatever chain of sparse groups it is made from, the new group has the listed members of the old one in the listed order, and
  it knows the rank of the calling process in it. The cell the code reads before the array of ranks does not matter. A sparse
  format needs the caller to be a member of the old group.\<close>

theorem group_incl_any_format:
  assumes "repr g ps" "knows_self g ps self" "ranks_ok (length ps) ranks" "a \<noteq> 0" "a \<notin> group_ids g" "sparse \<longrightarrow> self \<in> set ps"
  shows "\<exists>g'. ompi_group_incl sparse before (Some a) g ranks = Some (Inr g') \<and> repr g' (map (\<lambda>r. ps ! nat r) ranks)
    \<and> knows_self g' (map (\<lambda>r. ps ! nat r) ranks) self
    \<and> (\<forall>i < length ranks. ompi_group_peer_lookup g' (int i) = Some (ps ! nat (ranks ! i)))"
proof -
  obtain g' where g': "ompi_group_incl sparse before (Some a) g ranks = Some (Inr g')" "repr g' (map (\<lambda>r. ps ! nat r) ranks)"
      "knows_self g' (map (\<lambda>r. ps ! nat r) ranks) self"
    using group_incl_correct [OF assms(1-5)] assms(6) by blast
  then have "ompi_group_peer_lookup g' (int i) = Some (ps ! nat (ranks ! i))" if "i < length ranks" for i
    using repr_lookup [OF g'(2), of "int i"] that by simp
  with g' show ?thesis by blast
qed

text \<open>A group of six processes, stored as an array; the caller is the process \<open>c\<close>.\<close>

definition six :: "char ompi_group_t" where
  "six = Group 1 6 2 (Plist ''abcdef'')"

lemma six_facts: "repr six ''abcdef''" "knows_self six ''abcdef'' CHR ''c''" "group_ids six = {1}"
  using repr_plist [of "''abcdef''" 1 2] by (simp_all add: six_def knows_self_def rank_in_def)

theorem group_incl_any_format_witness:
  "\<exists>g'. ompi_group_incl True 7 (Some 2) six [1, 2, 3, 5] = Some (Inr g') \<and> repr g' ''bcdf'' \<and> grp_my_rank g' = 1
    \<and> ompi_group_peer_lookup g' 3 = Some CHR ''f''"
proof -
  have "ranks_ok (length ''abcdef'') [1, 2, 3, 5]" by (simp add: ranks_ok_def)
  then obtain g' where g': "ompi_group_incl True 7 (Some 2) six [1, 2, 3, 5] = Some (Inr g')"
      "repr g' (map (\<lambda>r. ''abcdef'' ! nat r) [1, 2, 3, 5])" "knows_self g' (map (\<lambda>r. ''abcdef'' ! nat r) [1, 2, 3, 5]) CHR ''c''"
      "\<forall>i < length [1, 2, 3, 5 :: int]. ompi_group_peer_lookup g' (int i) = Some (''abcdef'' ! nat ([1, 2, 3, 5] ! i))"
    using group_incl_any_format [OF six_facts(1,2), of "[1, 2, 3, 5]" 2 True 7] six_facts(3) by auto
  moreover have "ompi_group_peer_lookup g' 3 = Some CHR ''f''" using g'(4) [rule_format, of 3] by simp
  ultimately show ?thesis by (auto simp: knows_self_def rank_in_def)
qed

text \<open>C39: \<^verbatim>\<open>ompi_group_translate_ranks\<close> gives for each rank of one group the rank of the same process in the other, or \<^verbatim>\<open>MPI_UNDEFINED\<close>,
  and keeps \<^verbatim>\<open>MPI_PROC_NULL\<close>; the short cuts between a sparse group and its parent agree with the search.\<close>

theorem group_translate_ranks_exact:
  assumes "repr g1 ps1" "repr g2 ps2" "ps1 \<noteq> []" "ps2 \<noteq> []" "same_if_same_id g1 g2" "\<forall>r \<in> set rs. rank_or_null (length ps1) r"
  shows "ompi_group_translate_ranks g1 rs g2
    = Some (map (\<lambda>r. Some (if r = MPI_PROC_NULL then MPI_PROC_NULL else rank_in ps2 (ps1 ! nat r))) rs)"
  using translate_ranks_correct [OF assms] .

definition odds :: "char ompi_group_t" where
  "odds = Group 2 3 MPI_UNDEFINED (Strided \<lparr>grp_strided_offset = 1, grp_strided_stride = 2, grp_strided_last_element = 5\<rparr> six)"

lemma odds_facts: "repr odds ''bdf''" "same_if_same_id six odds"
proof -
  have "strided_encodes (length ''abcdef'') \<lparr>grp_strided_offset = 1, grp_strided_stride = 2, grp_strided_last_element = 5\<rparr> [1, 3, 5]"
    by (simp add: strided_encodes_def ranks_ok_def upt_rec)
  then show "repr odds ''bdf''"
    using repr_sparse [OF six_facts(1), of "Strided \<lparr>grp_strided_offset = 1, grp_strided_stride = 2, grp_strided_last_element = 5\<rparr> six" "[1, 3, 5]" 2 MPI_UNDEFINED]
    unfolding odds_def by (simp add: sparse_data_def)
  show "same_if_same_id six odds" by (simp add: same_if_same_id_def odds_def six_def grp_parent_group_ptr_def)
qed

theorem group_translate_ranks_exact_witness:
  "ompi_group_translate_ranks six [0, 1, MPI_PROC_NULL, 5] odds
    = Some [Some MPI_UNDEFINED, Some 0, Some MPI_PROC_NULL, Some 2]"
proof -
  have "\<forall>r \<in> set [0, 1, MPI_PROC_NULL, 5]. rank_or_null (length ''abcdef'') r" by (auto simp: rank_or_null_def)
  from group_translate_ranks_exact [OF six_facts(1) odds_facts(1) _ _ odds_facts(2) this] show ?thesis
    by (simp add: rank_in_def MPI_PROC_NULL_def)
qed

lemma knows_self_empty: "knows_self MPI_GROUP_EMPTY [] self"
  by (simp add: knows_self_def MPI_GROUP_EMPTY_def rank_in_def)

lemma union_correct:
  assumes g: "repr g1 ps1" "repr g2 ps2" "knows_self g1 ps1 self" "knows_self g2 ps2 self" "a \<noteq> 0"
  defines "u \<equiv> ps1 @ filter (\<lambda>p. p \<notin> set ps1) ps2"
  shows "\<exists>g. ompi_group_union (Some a) g1 g2 = Some (Inr g) \<and> repr g u \<and> knows_self g u self"
proof -
  define s where "s = filter (\<lambda>(i, p). p \<notin> set ps1) (enumerate 0 ps2)"
  have sel: "select_procs False g2 g1 = Some s" using select_procs_correct [OF g(2,1), of False] by (simp add: s_def)
  have d: "distinct ps1" "distinct ps2" "grp_proc_count g1 = int (length ps1)" using repr_facts [OF g(1)] repr_facts [OF g(2)] by auto
  have u: "u = ps1 @ map snd s" by (simp add: u_def s_def map_snd_filter_enumerate)
  then have len: "grp_proc_count g1 + int (length s) = int (length u)" using d(3) by simp
  show ?thesis
  proof (cases "u = []")
    case True
    then show ?thesis using sel len by (simp add: ompi_group_union_def repr_empty knows_self_empty)
  next
    case False
    define me where "me = (if self \<in> set u then Some self else None)"
    have "distinct u" using d(1,2) by (auto simp: u_def)
    moreover have "self \<in> set u \<Longrightarrow> me = Some self" "me = None \<or> me = Some self" by (simp_all add: me_def)
    ultimately obtain g where dg: "dense_group a u me = Some g" "repr g u" "knows_self g u self"
      using dense_group_correct [of u a self me] False g(5) by blast
    have "(if grp_my_rank g1 = MPI_UNDEFINED then my_proc g2 else my_proc g1) = Some me"
      using knows_self_my_proc [OF g(1,3)] knows_self_my_proc [OF g(2,4)] knows_self_undefined [OF g(1,3)] by (simp add: u_def me_def)
    moreover have "omap (\<lambda>i. ompi_group_peer_lookup g1 (int i)) [0..<length ps1] = Some ps1"
      using omap_Some [of "[0..<length ps1]" "\<lambda>i. ompi_group_peer_lookup g1 (int i)" "\<lambda>i. ps1 ! i"] repr_lookup [OF g(1)]
      by (simp add: map_nth)
    moreover have "grp_proc_count g1 + int (length s) \<noteq> 0" using len False by simp
    ultimately have "ompi_group_union (Some a) g1 g2 = Some (Inr g)"
      using sel d(3) dg(1) unfolding u by (simp add: ompi_group_union_def)
    with dg show ?thesis by blast
  qed
qed

lemma difference_correct:
  assumes g: "repr g1 ps1" "repr g2 ps2" "knows_self g1 ps1 self" "knows_self g2 ps2 self" "a \<noteq> 0"
  defines "f \<equiv> filter (\<lambda>p. p \<notin> set ps2) ps1"
  shows "\<exists>g. ompi_group_difference (Some a) g1 g2 = Some (Inr g) \<and> repr g f \<and> knows_self g f self"
proof -
  define s where "s = filter (\<lambda>(i, p). p \<notin> set ps2) (enumerate 0 ps1)"
  have sel: "select_procs False g1 g2 = Some s" using select_procs_correct [OF g(1,2), of False] by (simp add: s_def)
  have f: "f = map snd s" by (simp add: f_def s_def map_snd_filter_enumerate)
  show ?thesis
  proof (cases "s = []")
    case True
    then show ?thesis using sel f by (simp add: ompi_group_difference_def repr_empty knows_self_empty)
  next
    case False
    define me where "me = (if self \<in> set ps1 \<or> self \<in> set ps2 then Some self else None)"
    have "distinct f" using repr_facts [OF g(1)] by (simp add: f_def)
    moreover have "f \<noteq> []" using False f by simp
    moreover have "self \<in> set f \<Longrightarrow> me = Some self" "me = None \<or> me = Some self" by (auto simp: me_def f_def)
    ultimately obtain g where dg: "dense_group a f me = Some g" "repr g f" "knows_self g f self"
      using dense_group_correct [of f a self me] g(5) by blast
    have "(if grp_my_rank g1 \<noteq> MPI_UNDEFINED then my_proc g1 else my_proc g2) = Some me"
      using knows_self_my_proc [OF g(1,3)] knows_self_my_proc [OF g(2,4)] knows_self_undefined [OF g(1,3)] by (simp add: me_def)
    then have "ompi_group_difference (Some a) g1 g2 = Some (Inr g)"
      using sel False dg(1) unfolding f by (simp add: ompi_group_difference_def)
    with dg show ?thesis by blast
  qed
qed

lemma intersection_correct:
  assumes g: "repr g1 ps1" "repr g2 ps2" "knows_self g1 ps1 self" "a \<noteq> 0" "a \<notin> group_ids g1" and sparse: "sparse \<Longrightarrow> self \<in> set ps1"
  defines "f \<equiv> filter (\<lambda>p. p \<in> set ps2) ps1"
  shows "\<exists>g. ompi_group_intersection sparse before (Some a) g1 g2 = Some (Inr g) \<and> repr g f \<and> knows_self g f self"
proof -
  let ?s = "filter (\<lambda>(i, p). p \<in> set ps2) (enumerate 0 ps1)"
  have "select_procs True g1 g2 = Some ?s" using select_procs_correct [OF g(1,2), of True] by simp
  moreover have "map (\<lambda>r. ps1 ! nat r) (map (\<lambda>(i, _). int i) ?s) = f" unfolding f_def by (rule filter_enumerate_ranks(2))
  moreover have "ranks_ok (length ps1) (map (\<lambda>(i, _). int i) ?s)" by (rule filter_enumerate_ranks(1))
  note group_incl_correct [OF g(1,3) this g(4,5) sparse, of sparse before]
  ultimately show ?thesis by (simp add: ompi_group_intersection_def)
qed

text \<open>\<^verbatim>\<open>ompi_group_union\<close>, \<^verbatim>\<open>ompi_group_intersection\<close> and \<^verbatim>\<open>ompi_group_difference\<close> compute the ordered union, intersection and
  difference that MPI prescribes: the order of the first group, then for the union the new members in the order of the second; the
  new group knows the rank of the caller.\<close>

lemma group_set_operations:
  assumes g: "repr g1 ps1" "repr g2 ps2" "knows_self g1 ps1 self" "knows_self g2 ps2 self" "a \<noteq> 0" "a \<notin> group_ids g1" "sparse \<longrightarrow> self \<in> set ps1"
  shows "(\<exists>g. ompi_group_union (Some a) g1 g2 = Some (Inr g) \<and> repr g (ps1 @ filter (\<lambda>p. p \<notin> set ps1) ps2)
        \<and> knows_self g (ps1 @ filter (\<lambda>p. p \<notin> set ps1) ps2) self)
    \<and> (\<exists>g. ompi_group_intersection sparse before (Some a) g1 g2 = Some (Inr g) \<and> repr g (filter (\<lambda>p. p \<in> set ps2) ps1)
        \<and> knows_self g (filter (\<lambda>p. p \<in> set ps2) ps1) self)
    \<and> (\<exists>g. ompi_group_difference (Some a) g1 g2 = Some (Inr g) \<and> repr g (filter (\<lambda>p. p \<notin> set ps2) ps1)
        \<and> knows_self g (filter (\<lambda>p. p \<notin> set ps2) ps1) self)"
  using union_correct [OF g(1-5)] difference_correct [OF g(1-5)] intersection_correct [OF g(1-3,5,6)] g(7) by blast

text \<open>\<^verbatim>\<open>ompi_group_compare\<close> answers \<^verbatim>\<open>MPI_IDENT\<close> exactly for the same members in the same order, \<^verbatim>\<open>MPI_SIMILAR\<close> for the same members
  in another order, and \<^verbatim>\<open>MPI_UNEQUAL\<close> otherwise.\<close>

lemma group_compare_exact:
  assumes "repr g1 ps1" "repr g2 ps2" "same_if_same_id g1 g2"
  shows "ompi_group_compare g1 g2
    = Some (if ps1 = ps2 then MPI_IDENT else if set ps1 = set ps2 then MPI_SIMILAR else MPI_UNEQUAL)"
proof (cases "grp_id g1 = grp_id g2")
  case True
  then have "g1 = g2" using assms(3) by (simp add: same_if_same_id_def)
  then have "ps1 = ps2" using repr_unique [OF assms(1)] assms(2) by simp
  with True show ?thesis by (simp add: ompi_group_compare_def)
next
  case False
  have f: "distinct ps1" "distinct ps2" "grp_proc_count g1 = int (length ps1)" "grp_proc_count g2 = int (length ps2)"
    "grp_id g1 = 0 \<longleftrightarrow> ps1 = []" "grp_id g2 = 0 \<longleftrightarrow> ps2 = []"
    using repr_facts [OF assms(1)] repr_facts [OF assms(2)] by auto
  show ?thesis
  proof (cases "length ps1 = length ps2 \<and> ps1 \<noteq> [] \<and> ps2 \<noteq> []")
    case True
    have loop: "compare_loop g1 g2 [0..<length ps1] True = Some (if \<forall>i < length ps1. ps1 ! i \<in> set ps2
        then (True, \<forall>i < length ps1. ps2 ! i = ps1 ! i) else (False, False))"
      using compare_loop_correct [OF assms(1,2), of "[0..<length ps1]" True] True by (auto simp: subset_eq)
    have "(\<forall>i < length ps1. ps1 ! i \<in> set ps2) \<longleftrightarrow> set ps1 \<subseteq> set ps2" by (metis in_set_conv_nth subset_code(1))
    also have "\<dots> \<longleftrightarrow> set ps1 = set ps2"
      using True f(1,2) by (metis List.finite_set card_subset_eq distinct_card order_refl)
    finally have sets: "(\<forall>i < length ps1. ps1 ! i \<in> set ps2) \<longleftrightarrow> set ps1 = set ps2" .
    have "(\<forall>i < length ps1. ps2 ! i = ps1 ! i) \<longleftrightarrow> ps1 = ps2" using True by (auto intro: nth_equalityI)
    with sets loop False True f show ?thesis by (auto simp: ompi_group_compare_def)
  next
    case no: False
    have "set ps1 = set ps2 \<Longrightarrow> length ps1 = length ps2" using f(1,2) by (metis distinct_card)
    then have "set ps1 \<noteq> set ps2" using no False f(5,6) by auto
    then have "ps1 \<noteq> ps2" by auto
    with no False f \<open>set ps1 \<noteq> set ps2\<close> show ?thesis by (auto simp: ompi_group_compare_def)
  qed
qed

text \<open>For ranges with strides of the right sign, \<^verbatim>\<open>ompi_group_range_incl\<close> makes the group of the processes in the ranges, in their order,
  and \<^verbatim>\<open>ompi_group_range_excl\<close> the group of all other processes, in the order of the old group; nothing is written beyond the
  allocated arrays.\<close>

lemma group_ranges:
  assumes "repr g ps" "knows_self g ps self" "\<forall>t \<in> set ranges. triplet_ok t" "ranks_ok (length ps) (concat (map triplet ranges))"
    "a \<noteq> 0" "a \<notin> group_ids g" "sparse \<longrightarrow> self \<in> set ps"
  shows "(\<exists>g'. ompi_group_range_incl sparse before (Some a) g ranges = Some (Inr g')
        \<and> repr g' (map (\<lambda>r. ps ! nat r) (concat (map triplet ranges))))
    \<and> (\<exists>g'. ompi_group_range_excl sparse before (Some a) g ranges = Some (Inr g')
        \<and> repr g' (map (\<lambda>r. ps ! nat r) (other_ranks (length ps) (concat (map triplet ranges)))))"
proof -
  have "sparse \<Longrightarrow> self \<in> set ps" using assms(7) by simp
  note incl = group_incl_correct [OF assms(1,2) _ assms(5,6) this, where before = before]
  have "grp_proc_count g = int (length ps)" using repr_facts [OF assms(1)] by simp
  then show ?thesis
    using incl [OF assms(4)] incl [OF other_ranks_ok [of "length ps" "concat (map triplet ranges)"]] range_ranks_eq [OF assms(3)] ranks_not_in_distinct [OF assms(4)]
    by (auto simp: ompi_group_range_incl_def ompi_group_range_excl_def)
qed

text \<open>\<^verbatim>\<open>ompi_group_excl\<close> makes the group of the processes that are not listed when the listed ranks are distinct; when a rank is
  listed twice it writes past the end of the array it has allocated for the others. \<^verbatim>\<open>MPI_Group_excl\<close> checks the ranks one by one and
  lets such a list through.\<close>

lemma group_excl_needs_distinct_ranks:
  assumes "repr g ps" "knows_self g ps self" "\<forall>r \<in> set ranks. 0 \<le> r \<and> r < int (length ps)" "length ranks < length ps"
    "a \<noteq> 0" "a \<notin> group_ids g" "sparse \<longrightarrow> self \<in> set ps"
  shows "if distinct ranks
    then \<exists>g'. ompi_group_excl sparse before (Some a) g ranks = Some (Inr g') \<and> repr g' (map (\<lambda>r. ps ! nat r) (other_ranks (length ps) ranks))
    else ompi_group_excl sparse before (Some a) g ranks = None"
proof -
  have count: "grp_proc_count g = int (length ps)" using repr_facts [OF assms(1)] by simp
  show ?thesis
  proof (cases "distinct ranks")
    case True
    then have "ranks_ok (length ps) ranks" using assms(3) by (simp add: ranks_ok_def)
    with group_incl_correct [OF assms(1,2) other_ranks_ok assms(5,6), of sparse before ranks] ranks_not_in_distinct [of "length ps" ranks] True assms(4,7) count
    show ?thesis by (auto simp: ompi_group_excl_def)
  next
    case False
    then have "card (set ranks) < length ranks" by (metis card_distinct card_length le_neq_implies_less)
    then have "ranks_not_in (int (length ps) - int (length ranks)) (int (length ps)) ranks = None"
      using ranks_not_in_eq [of "int (length ps) - int (length ranks)" "length ps" ranks] rest_length [OF assms(3)] assms(4) by (simp add: Let_def)
    with False assms(4) count show ?thesis by (simp add: ompi_group_excl_def)
  qed
qed

text \<open>In a build with sparse groups, a process that is not in a group cannot make a bitmap group from it: the undefined rank is
  used as a bit number.\<close>

lemma bmap_incl_non_member:
  assumes "grp_id g \<noteq> 0" "grp_my_rank g = MPI_UNDEFINED" "make_bmap (grp_proc_count g) ranks = Some arr" "ranks \<noteq> []" "a \<noteq> 0" "a \<notin> group_ids g"
  shows "ompi_group_incl_bmap (Some a) g ranks = None"
proof -
  have "map_option grp_id (grp_parent_group_ptr g) \<noteq> Some a" using assms(6) group_ids_parent [of g] by (cases "grp_parent_group_ptr g") auto
  then show ?thesis using assms
    by (simp add: ompi_group_incl_bmap_def sparse_group_def ompi_group_translate_ranks_def grp_parent_group_ptr_def translate_to_child_def
          ompi_group_translate_ranks_bmap_def bmap_to_child_def MPI_UNDEFINED_def MPI_PROC_NULL_def del: map_option_eq_Some)
qed

end
