(* ===== verification/XCL_Task_Map.thy ===== *)
theory XCL_Task_Map
  imports OMPI_Prelude
begin

text \<open>
  The global task list of the XCLFrame extension
  (\<^verbatim>\<open>ompi/mpiext/XCLFrame/c/mpiext_XCLFrame_late.c\<close>, \<^verbatim>\<open>c/taskMap.h\<close>).

  Every process of a communicator runs some number of OpenCL tasks of its own.
  \<^verbatim>\<open>OMPI_collectDevicesInfo\<close> gathers these numbers and numbers all tasks of the
  communicator; the other entry points take such a global number, and the process that owns
  the task acts on its local index while the others return at once.

  A function that may call \<^verbatim>\<open>exit\<close> returns a sum: \<^const>\<open>Inl\<close> is the exit status of the
  process, \<^const>\<open>Inr\<close> the value returned to the caller.
\<close>

record taskInfo =
  ti_g_taskIdx :: int
  ti_l_taskIdx :: int
  ti_r_rank :: int

text \<open>Signed addition; an overflow is undefined.\<close>

definition int_add :: "int \<Rightarrow> int \<Rightarrow> int option" where
  "int_add a b = (if - INT_MAX - 1 \<le> a + b \<and> a + b \<le> INT_MAX then Some (a + b) else None)"

definition sum_tasks :: "int list \<Rightarrow> int option" where
  "sum_tasks rks = ofold (\<lambda>i g_numTasks. do {r \<leftarrow> aget rks (int i); int_add g_numTasks r}) [0..<length rks] 0"

definition number_tasks :: "int \<Rightarrow> taskInfo list \<Rightarrow> taskInfo list option" where
  "number_tasks n l =
     ofold (\<lambda>i l. do {t \<leftarrow> aget l (int i); aset l (int i) (t\<lparr>ti_g_taskIdx := int i\<rparr>)}) [0..<nat n] l"

definition assign_rank :: "int list \<Rightarrow> nat \<Rightarrow> int \<times> taskInfo list \<Rightarrow> (int \<times> taskInfo list) option" where
  "assign_rank rks i s = do {
     m \<leftarrow> aget rks (int i);
     ofold (\<lambda>j (k, l). do {
       t \<leftarrow> aget l k;
       l \<leftarrow> aset l k (t\<lparr>ti_r_rank := int i, ti_l_taskIdx := int j\<rparr>);
       Some (k + 1, l)
     }) [0..<nat m] s
   }"

text \<open>
  \<^verbatim>\<open>rks\<close> is what \<^verbatim>\<open>MPI_Allgather\<close> delivers: the value of \<^verbatim>\<open>l_numTasks\<close> at every process
  after its \<^verbatim>\<open>createTaskList\<close>. \<^verbatim>\<open>mem\<close> is the content of the cells \<^verbatim>\<open>malloc\<close> returns, or
  \<^const>\<open>None\<close> when it fails, which the code does not test.
\<close>

definition OMPI_collectDevicesInfo :: "taskInfo option \<Rightarrow> int list \<Rightarrow> (int \<times> taskInfo list) option" where
  "OMPI_collectDevicesInfo mem rks = do {
     g_numTasks \<leftarrow> sum_tasks rks;
     let g_taskList = (case mem of None \<Rightarrow> [] | Some junk \<Rightarrow> replicate (nat g_numTasks) junk);
     g_taskList \<leftarrow> number_tasks g_numTasks g_taskList;
     (k, g_taskList) \<leftarrow> ofold (assign_rank rks) [0..<length rks] (0, g_taskList);
     Some (g_numTasks, g_taskList)
   }"

text \<open>
  The test every entry point starts with: the local index of a task when this process owns it,
  \<^const>\<open>None\<close> inside when another process does.
\<close>

definition own_task :: "taskInfo list \<Rightarrow> int \<Rightarrow> int \<Rightarrow> int option option" where
  "own_task g_taskList myRank g = do {
     t \<leftarrow> aget g_taskList g;
     Some (if myRank = ti_r_rank t then Some (ti_l_taskIdx t) else None)
   }"

section \<open>Waiting for tasks\<close>

text \<open>
  A kernel is launched by a thread of its own (\<^verbatim>\<open>taskProcedures.c\<close>), one cell of \<^verbatim>\<open>thds\<close> per
  local task. \<open>No_Thread\<close> is a cell as \<^verbatim>\<open>malloc\<close> returned it. Joining anything but a thread
  that has not been joined yet is undefined.
\<close>

datatype thread = No_Thread | Running | Joined

definition pthread_join :: "int \<Rightarrow> thread list option \<Rightarrow> thread list option option" where
  "pthread_join j thds = do {
     l \<leftarrow> thds;
     t \<leftarrow> aget l j;
     l \<leftarrow> (if t = Running then aset l j Joined else None);
     Some (Some l)
   }"

text \<open>The two functions of \<^verbatim>\<open>taskProcedures.c\<close>; both end in \<^verbatim>\<open>MPI_Barrier\<close>.\<close>

definition XclWaitAllTasks :: "int \<Rightarrow> thread list option \<Rightarrow> thread list option option" where
  "XclWaitAllTasks numTasks thds = ofold (\<lambda>i. pthread_join (int i)) [0..<nat numTasks] thds"

definition XclWaitFor_dev :: "int list \<Rightarrow> thread list option \<Rightarrow> thread list option option" where
  "XclWaitFor_dev l_taskIds thds = ofold pthread_join l_taskIds thds"

text \<open>
  The loop of \<^verbatim>\<open>tskExec.c\<close> from global to local numbers; \<open>mem n\<close> tells whether \<^verbatim>\<open>realloc\<close>
  finds room for \<open>n\<close> cells, and without it the process exits with status 1.
\<close>

definition local_tasks :: "(nat \<Rightarrow> bool) \<Rightarrow> taskInfo list \<Rightarrow> int \<Rightarrow> int list \<Rightarrow> (int + int list) option" where
  "local_tasks mem g_taskList myRank taskIds =
     efold (\<lambda>j l_tasks. do {
       t \<leftarrow> aget g_taskList j;
       Some (if myRank = ti_r_rank t
             then if mem (length l_tasks + 1) then Inr (l_tasks @ [ti_l_taskIdx t]) else Inl 1
             else Inr l_tasks)
     }) taskIds []"

text \<open>The second component of the result: the process has reached \<^verbatim>\<open>MPI_Barrier\<close>.\<close>

definition XclWaitFor ::
  "(nat \<Rightarrow> bool) \<Rightarrow> taskInfo list \<Rightarrow> int \<Rightarrow> int list \<Rightarrow> thread list option
     \<Rightarrow> (int + thread list option \<times> bool) option" where
  "XclWaitFor mem g_taskList myRank taskIds thds =
     ebind (local_tasks mem g_taskList myRank taskIds) (\<lambda>l_tasks.
       if 0 < length l_tasks
       then do {thds \<leftarrow> XclWaitFor_dev l_tasks thds; Some (Inr (thds, True))}
       else Some (Inr (thds, False)))"

text \<open>
  \<^verbatim>\<open>MPI_Barrier\<close> lets the processes that have reached it go on when all processes of the
  communicator have. From which processes reach it follows which return.
\<close>

definition barrier_returns :: "bool list \<Rightarrow> bool list" where
  "barrier_returns entered = map (\<lambda>e. \<not> e \<or> list_all (\<lambda>b. b) entered) entered"

section \<open>The list is the ordered list of all tasks\<close>

text \<open>All pairs of a rank and a local index, rank by rank.\<close>

definition task_pairs :: "int list \<Rightarrow> (nat \<times> nat) list" where
  "task_pairs rks = concat (map (\<lambda>i. map (Pair i) [0..<nat (rks ! i)]) [0..<length rks])"

definition info_of :: "nat \<Rightarrow> nat \<times> nat \<Rightarrow> taskInfo" where
  "info_of k p = \<lparr>ti_g_taskIdx = int k, ti_l_taskIdx = int (snd p), ti_r_rank = int (fst p)\<rparr>"

lemma sum_tasks_eq:
  assumes "\<forall>r\<in>set rks. 0 \<le> r" "sum_list rks \<le> INT_MAX"
  shows "sum_tasks rks = Some (sum_list rks)"
proof -
  have le: "sum_list (take m rks) \<le> sum_list rks" for m
    using assms(1) by (metis append_take_drop_id le_add_same_cancel1 sum_list_append sum_list_nonneg in_set_dropD)
  have ge: "0 \<le> sum_list (take m rks)" for m
    using assms(1) by (intro sum_list_nonneg) (auto dest: in_set_takeD)
  have "\<exists>s. ofold (\<lambda>i g. do {r \<leftarrow> aget rks (int i); int_add g r}) [0..<length rks] 0 = Some s
      \<and> s = sum_list (take (length rks) rks)"
  proof (rule ofold_upt_inv [where P = "\<lambda>m s. s = sum_list (take m rks)"], goal_cases)
    case (2 i s)
    with le [of "Suc i"] ge [of "Suc i"] assms(2) show ?case
      by (simp add: take_Suc_conv_app_nth int_add_def)
  qed simp
  then show ?thesis by (simp add: sum_tasks_def)
qed

lemma number_tasks_eq:
  "length l = nat n \<Longrightarrow>
     number_tasks n l = Some (map (\<lambda>i. (l ! i)\<lparr>ti_g_taskIdx := int i\<rparr>) [0..<length l])"
proof -
  assume n: "length l = nat n"
  let ?l = "\<lambda>m. map (\<lambda>i. if i < m then (l ! i)\<lparr>ti_g_taskIdx := int i\<rparr> else l ! i) [0..<length l]"
  have "\<exists>s. ofold (\<lambda>i l. do {t \<leftarrow> aget l (int i); aset l (int i) (t\<lparr>ti_g_taskIdx := int i\<rparr>)}) [0..<nat n] l = Some s
      \<and> s = ?l (nat n)"
  proof (rule ofold_upt_inv [where P = "\<lambda>m s. s = ?l m"], goal_cases)
    case 1 then show ?case by (simp add: map_nth)
  next
    case (2 i s)
    with n show ?case by (auto intro!: nth_equalityI simp: nth_list_update less_Suc_eq)
  qed
  then show ?thesis using n by (auto simp: number_tasks_def intro!: nth_equalityI)
qed

text \<open>A loop that fills the list from position \<open>length ps\<close> on.\<close>

definition filled :: "taskInfo list \<Rightarrow> (nat \<times> nat) list \<Rightarrow> taskInfo list" where
  "filled l ps = map (\<lambda>k. if k < length ps
     then (l ! k)\<lparr>ti_r_rank := int (fst (ps ! k)), ti_l_taskIdx := int (snd (ps ! k))\<rparr> else l ! k) [0..<length l]"

lemma filled_step:
  "length ps < length l \<Longrightarrow>
     (filled l ps)[length ps := (filled l ps ! length ps)\<lparr>ti_r_rank := int i, ti_l_taskIdx := int j\<rparr>]
       = filled l (ps @ [(i, j)])"
  by (rule nth_equalityI) (auto simp: filled_def nth_list_update nth_append less_Suc_eq)

lemma assign_rank_eq:
  assumes "i < length rks" "length ps + nat (rks ! i) \<le> length l"
  shows "assign_rank rks i (int (length ps), filled l ps)
    = Some (int (length ps + nat (rks ! i)), filled l (ps @ map (Pair i) [0..<nat (rks ! i)]))"
proof -
  let ?P = "\<lambda>m s. s = (int (length ps + m), filled l (ps @ map (Pair i) [0..<m]))"
  have "\<exists>s. ofold (\<lambda>j (k, l). do {
       t \<leftarrow> aget l k;
       l \<leftarrow> aset l k (t\<lparr>ti_r_rank := int i, ti_l_taskIdx := int j\<rparr>);
       Some (k + 1, l)
     }) [0..<nat (rks ! i)] (int (length ps), filled l ps) = Some s \<and> ?P (nat (rks ! i)) s"
  proof (rule ofold_upt_inv [where P = ?P], goal_cases)
    case (2 m s)
    let ?ps = "ps @ map (Pair i) [0..<m]"
    from 2 assms(2) have lt: "length ?ps < length l" by simp
    have len: "length (filled l ?ps) = length l" by (simp add: filled_def)
    from lt len have "aget (filled l ?ps) (int (length ?ps)) = Some (filled l ?ps ! length ?ps)"
      by (intro aget_int) simp
    moreover from lt len have "aset (filled l ?ps) (int (length ?ps)) v = Some ((filled l ?ps)[length ?ps := v])" for v
      by (intro aset_int) simp
    ultimately show ?case using 2 filled_step [OF lt, where i = i and j = m] by (simp add: add_ac)
  qed simp
  with assms(1) show ?thesis by (simp add: assign_rank_def)
qed

lemma length_task_pairs: "\<forall>r\<in>set rks. 0 \<le> r \<Longrightarrow> int (length (task_pairs rks)) = sum_list rks"
proof -
  assume nn: "\<forall>r\<in>set rks. 0 \<le> r"
  have "length (task_pairs rks) = sum_list (map (\<lambda>i. nat (rks ! i)) [0..<length rks])"
    by (simp add: task_pairs_def length_concat comp_def)
  also have "\<dots> = sum_list (map nat rks)"
    by (rule arg_cong [where f = sum_list]) (auto intro: nth_equalityI)
  also from nn have "int \<dots> = sum_list rks" by (induction rks) auto
  finally show ?thesis by simp
qed

lemma collect_eq:
  assumes nn: "\<forall>r\<in>set rks. 0 \<le> r" and mx: "sum_list rks \<le> INT_MAX"
  shows "OMPI_collectDevicesInfo (Some junk) rks
    = Some (sum_list rks, map (\<lambda>k. info_of k (task_pairs rks ! k)) [0..<length (task_pairs rks)])"
proof -
  let ?n = "nat (sum_list rks)"
  define l where "l = map (\<lambda>i. junk\<lparr>ti_g_taskIdx := int i\<rparr>) [0..<?n]"
  have num: "number_tasks (sum_list rks) (replicate ?n junk) = Some l"
    by (simp add: number_tasks_eq l_def)
  have len: "length (task_pairs rks) = ?n" using length_task_pairs [OF nn] by linarith
  let ?ps = "\<lambda>m. concat (map (\<lambda>i. map (Pair i) [0..<nat (rks ! i)]) [0..<m])"
  have le: "length (?ps m) \<le> ?n" if "m \<le> length rks" for m
  proof -
    have "[0..<length rks] = [0..<m] @ [m..<length rks]" using that upt_add_eq_append [of 0 m "length rks - m"] by simp
    then have "length (?ps m) \<le> length (task_pairs rks)" by (simp add: task_pairs_def)
    then show ?thesis using len by simp
  qed
  have "\<exists>s. ofold (assign_rank rks) [0..<length rks] (0, l) = Some s
      \<and> s = (int (length (?ps (length rks))), filled l (?ps (length rks)))"
  proof (rule ofold_upt_inv [where P = "\<lambda>m s. s = (int (length (?ps m)), filled l (?ps m))"], goal_cases)
    case 1 show ?case by (simp add: filled_def map_nth)
  next
    case (2 i s)
    with le [of "Suc i"] assign_rank_eq [of i rks "?ps i" l] show ?case by (simp add: l_def)
  qed
  then have loop: "ofold (assign_rank rks) [0..<length rks] (0, l)
      = Some (int ?n, filled l (task_pairs rks))"
    using len by (simp add: task_pairs_def [symmetric])
  have "filled l (task_pairs rks) = map (\<lambda>k. info_of k (task_pairs rks ! k)) [0..<?n]"
    using len by (intro nth_equalityI) (simp_all add: filled_def l_def info_of_def)
  with loop num len show ?thesis by (simp add: OMPI_collectDevicesInfo_def sum_tasks_eq nn mx)
qed

lemma task_pairs_set: "set (task_pairs rks) = {(i, j). i < length rks \<and> j < nat (rks ! i)}"
  by (auto simp: task_pairs_def)

lemma distinct_task_pairs: "distinct (task_pairs rks)"
proof -
  have "distinct (concat (map (\<lambda>i. map (Pair i) [0..<f i]) is))" if "distinct is"
    for f :: "nat \<Rightarrow> nat" and "is" :: "nat list"
    using that by (induction "is") (auto simp: distinct_map inj_on_def)
  then show ?thesis by (simp add: task_pairs_def)
qed

text \<open>C17: For non-negative numbers of tasks whose sum is an \<^verbatim>\<open>int\<close>, all processes of the communicator,
  which get the same numbers from the \<^verbatim>\<open>MPI_Allgather\<close>, build the same list, whatever \<^verbatim>\<open>malloc\<close> returns in
  each of them: \<^verbatim>\<open>OMPI_collectDevicesInfo\<close> returns the total and fills the list without leaving its
  allocation; position \<open>k\<close> holds the number \<open>k\<close>, and the pairs of rank and local index
  stored there are exactly the tasks of all processes, each once. So for every number in range exactly one process,
  the one with the rank in the list, takes the task for its own.\<close>

theorem collect_devices_bijection:
  assumes "\<forall>r\<in>set rks. 0 \<le> r" "sum_list rks \<le> INT_MAX"
  shows "\<exists>g. (\<forall>junk. OMPI_collectDevicesInfo (Some junk) rks = Some (sum_list rks, g))
    \<and> length g = nat (sum_list rks)
    \<and> (\<forall>k < length g. ti_g_taskIdx (g ! k) = int k)
    \<and> bij_betw (\<lambda>k. (ti_r_rank (g ! k), ti_l_taskIdx (g ! k))) {..<length g}
        {(r, j). 0 \<le> r \<and> r < int (length rks) \<and> 0 \<le> j \<and> j < rks ! nat r}
    \<and> (\<forall>k < length g. \<exists>!r. r < length rks \<and> (\<exists>j. own_task g (int r) (int k) = Some (Some j)))"
proof -
  let ?ps = "task_pairs rks"
  let ?g = "map (\<lambda>k. info_of k (?ps ! k)) [0..<length ?ps]"
  let ?h = "\<lambda>p. (int (fst p), int (snd p))" and ?A = "{(i, j). i < length rks \<and> j < nat (rks ! i)}"
  have "bij_betw (\<lambda>k. ?ps ! k) {..<length ?ps} ?A"
    using distinct_task_pairs task_pairs_set by (intro bij_betw_nth) simp_all
  moreover have "bij_betw ?h ?A {(r, j). 0 \<le> r \<and> r < int (length rks) \<and> 0 \<le> j \<and> j < rks ! nat r}"
    by (rule bij_betw_byWitness [where f' = "\<lambda>p. (nat (fst p), nat (snd p))"]) (auto simp: nat_less_iff)
  ultimately have "bij_betw (?h \<circ> (\<lambda>k. ?ps ! k)) {..<length ?ps}
      {(r, j). 0 \<le> r \<and> r < int (length rks) \<and> 0 \<le> j \<and> j < rks ! nat r}"
    by (rule bij_betw_trans)
  then have "bij_betw (\<lambda>k. (ti_r_rank (?g ! k), ti_l_taskIdx (?g ! k))) {..<length ?g}
      {(r, j). 0 \<le> r \<and> r < int (length rks) \<and> 0 \<le> j \<and> j < rks ! nat r}"
    by (subst bij_betw_cong [where g = "?h \<circ> (\<lambda>k. ?ps ! k)"]) (simp_all add: info_of_def)
  moreover have "\<forall>k < length ?g. ti_g_taskIdx (?g ! k) = int k" by (simp add: info_of_def)
  moreover have "length ?g = nat (sum_list rks)" using length_task_pairs [OF assms(1)] by simp
  moreover have "\<exists>!r. r < length rks \<and> (\<exists>j. own_task ?g (int r) (int k) = Some (Some j))" if "k < length ?g" for k
  proof -
    have "?ps ! k \<in> set ?ps" using that by simp
    then have "fst (?ps ! k) < length rks" using task_pairs_set [of rks] by (auto simp: case_prod_beta)
    moreover have "own_task ?g (int r) (int k) = Some (if r = fst (?ps ! k) then Some (int (snd (?ps ! k))) else None)" for r
      using that by (simp add: own_task_def aget_Some info_of_def)
    ultimately show ?thesis by (intro ex1I [of _ "fst (?ps ! k)"]) (auto split: if_splits)
  qed
  ultimately show ?thesis using collect_eq [OF assms] by blast
qed

theorem collect_devices_bijection_witness:
  "\<exists>g. OMPI_collectDevicesInfo (Some \<lparr>ti_g_taskIdx = 9, ti_l_taskIdx = 9, ti_r_rank = 9\<rparr>) [2, 0, 1] = Some (3, g)
    \<and> OMPI_collectDevicesInfo (Some \<lparr>ti_g_taskIdx = 5, ti_l_taskIdx = 7, ti_r_rank = 0\<rparr>) [2, 0, 1] = Some (3, g)
    \<and> length g = 3 \<and> ti_g_taskIdx (g ! 2) = 2"
proof -
  obtain g where "\<forall>junk. OMPI_collectDevicesInfo (Some junk) [2, 0, 1] = Some (3, g)" "length g = 3" "\<forall>k < length g. ti_g_taskIdx (g ! k) = int k"
    using collect_devices_bijection [of "[2, 0, 1]"] by (auto simp: INT_MAX_def)
  then show ?thesis by (intro exI [of _ g]) simp
qed

section \<open>Which processes come back from a wait\<close>

lemma local_tasks_eq:
  assumes "\<forall>j\<in>set ids. 0 \<le> j \<and> j < int (length g)"
  shows "local_tasks (\<lambda>_. True) g r ids
    = Some (Inr (map (\<lambda>j. ti_l_taskIdx (g ! nat j)) (filter (\<lambda>j. ti_r_rank (g ! nat j) = r) ids)))"
proof -
  have "efold (\<lambda>j l_tasks. do {
       t \<leftarrow> aget g j;
       Some (if r = ti_r_rank t then if True then Inr (l_tasks @ [ti_l_taskIdx t]) else Inl (1 :: int) else Inr l_tasks)
     }) ids acc
     = Some (Inr (acc @ map (\<lambda>j. ti_l_taskIdx (g ! nat j)) (filter (\<lambda>j. ti_r_rank (g ! nat j) = r) ids)))" for acc
    using assms by (induction ids arbitrary: acc) (auto simp: aget_Some)
  then show ?thesis by (simp add: local_tasks_def)
qed

lemma pthread_join_all:
  assumes "distinct js" "\<forall>j\<in>set js. 0 \<le> j \<and> j < int (length l) \<and> l ! nat j = Running"
  shows "ofold pthread_join js (Some l)
    = Some (Some (map (\<lambda>i. if int i \<in> set js then Joined else l ! i) [0..<length l]))"
  using assms
proof (induction js arbitrary: l)
  case Nil
  then show ?case by (simp add: map_nth)
next
  case (Cons j js)
  from Cons.prems have j: "0 \<le> j" "j < int (length l)" "l ! nat j = Running" by auto
  then have "pthread_join j (Some l) = Some (Some (l[nat j := Joined]))"
    by (simp add: pthread_join_def array_simps)
  moreover from Cons.prems have "\<forall>i\<in>set js. 0 \<le> i \<and> i < int (length (l[nat j := Joined]))
      \<and> l[nat j := Joined] ! nat i = Running"
    by (auto simp: nth_list_update nat_eq_iff2 dest: bspec)
  ultimately have "ofold pthread_join (j # js) (Some l)
      = Some (Some (map (\<lambda>i. if int i \<in> set js then Joined else l[nat j := Joined] ! i) [0..<length l]))"
    using Cons.IH [of "l[nat j := Joined]"] Cons.prems(1) by simp
  also have "map (\<lambda>i. if int i \<in> set js then Joined else l[nat j := Joined] ! i) [0..<length l]
      = map (\<lambda>i. if int i \<in> set (j # js) then Joined else l ! i) [0..<length l]"
    using j by (auto simp: nth_list_update)
  finally show ?case .
qed

lemma barrier_returns_all:
  "list_all (\<lambda>b. b) (barrier_returns entered) \<longleftrightarrow> (\<forall>e\<in>set entered. \<not> e) \<or> (\<forall>e\<in>set entered. e)"
  by (auto simp: barrier_returns_def list_all_iff)

lemma XclWaitFor_eq:
  assumes ids: "\<forall>j\<in>set ids. 0 \<le> j \<and> j < int (length g)"
    and mine: "distinct (map (\<lambda>j. ti_l_taskIdx (g ! nat j)) (filter (\<lambda>j. ti_r_rank (g ! nat j) = r) ids))"
    and run: "\<forall>j\<in>set ids. ti_r_rank (g ! nat j) = r \<longrightarrow>
        0 \<le> ti_l_taskIdx (g ! nat j) \<and> ti_l_taskIdx (g ! nat j) < int (length l)
        \<and> l ! nat (ti_l_taskIdx (g ! nat j)) = Running"
  shows "XclWaitFor (\<lambda>_. True) g r ids (Some l) = Some (Inr
    (Some (map (\<lambda>i. if \<exists>j\<in>set ids. ti_r_rank (g ! nat j) = r \<and> ti_l_taskIdx (g ! nat j) = int i
                    then Joined else l ! i) [0..<length l]),
     \<exists>j\<in>set ids. ti_r_rank (g ! nat j) = r))"
proof -
  let ?js = "map (\<lambda>j. ti_l_taskIdx (g ! nat j)) (filter (\<lambda>j. ti_r_rank (g ! nat j) = r) ids)"
  have mem: "int i \<in> set ?js \<longleftrightarrow> (\<exists>j\<in>set ids. ti_r_rank (g ! nat j) = r \<and> ti_l_taskIdx (g ! nat j) = int i)" for i
    by (auto simp: image_iff intro: bexI [rotated])
  have ne: "?js = [] \<longleftrightarrow> \<not> (\<exists>j\<in>set ids. ti_r_rank (g ! nat j) = r)"
    by (auto simp: filter_empty_conv)
  have "ofold pthread_join ?js (Some l)
      = Some (Some (map (\<lambda>i. if int i \<in> set ?js then Joined else l ! i) [0..<length l]))"
    using mine run by (intro pthread_join_all) auto
  moreover have "map (\<lambda>i. if int i \<in> set ?js then Joined else l ! i) [0..<length l] = l" if "?js = []"
    using that by (simp add: map_nth)
  ultimately show ?thesis
    unfolding XclWaitFor_def local_tasks_eq [OF ids] XclWaitFor_dev_def mem [symmetric]
    using ne by (cases "?js = []") simp_all
qed

text \<open>C34: \<^verbatim>\<open>OMPI_XclWaitFor\<close> called by every process of the communicator with the same tasks, all
  of them launched and not yet waited for. Every process joins the threads of exactly its own
  tasks of the list. All processes return if and only if the list is empty or every process
  owns a task of it: a process without one skips the barrier in which the others then stay.\<close>

theorem wait_for_returns_iff:
  assumes rks: "\<forall>r\<in>set rks. 0 \<le> r" "sum_list rks \<le> INT_MAX"
    and g: "OMPI_collectDevicesInfo (Some junk) rks = Some (n, g)"
    and ids: "distinct ids" "\<forall>j\<in>set ids. 0 \<le> j \<and> j < n"
    and len: "length thds = length rks" "\<forall>r < length rks. length (thds ! r) = nat (rks ! r)"
    and run: "\<forall>j\<in>set ids. thds ! nat (ti_r_rank (g ! nat j)) ! nat (ti_l_taskIdx (g ! nat j)) = Running"
  shows "(\<forall>r < length rks. XclWaitFor (\<lambda>_. True) g (int r) ids (Some (thds ! r)) = Some (Inr
       (Some (map (\<lambda>i. if \<exists>j\<in>set ids. ti_r_rank (g ! nat j) = int r \<and> ti_l_taskIdx (g ! nat j) = int i
                        then Joined else thds ! r ! i) [0..<nat (rks ! r)]),
        \<exists>j\<in>set ids. ti_r_rank (g ! nat j) = int r)))
    \<and> (list_all (\<lambda>b. b) (barrier_returns
          (map (\<lambda>r. \<exists>j\<in>set ids. ti_r_rank (g ! nat j) = int r) [0..<length rks]))
       \<longleftrightarrow> ids = [] \<or> (\<forall>r < length rks. \<exists>j\<in>set ids. ti_r_rank (g ! nat j) = int r))"
    (is "?joins \<and> ?returns")
proof
  let ?ps = "task_pairs rks"
  have eq: "n = sum_list rks" "g = map (\<lambda>k. info_of k (?ps ! k)) [0..<length ?ps]"
    using g collect_eq [OF rks, of junk] by simp_all
  have lg: "int (length g) = n" using length_task_pairs [OF rks(1)] eq by simp
  have at: "ti_r_rank (g ! nat j) = int (fst (?ps ! nat j)) \<and> ti_l_taskIdx (g ! nat j) = int (snd (?ps ! nat j))
      \<and> nat j < length ?ps \<and> ?ps ! nat j \<in> set ?ps" if "j \<in> set ids" for j
  proof -
    have "nat j < length ?ps" using ids(2) that lg eq(2) by auto
    then show ?thesis by (simp add: eq(2) info_of_def)
  qed
  have own: "fst (?ps ! nat j) < length rks \<and> snd (?ps ! nat j) < nat (rks ! fst (?ps ! nat j))"
    if "j \<in> set ids" for j
    using at [OF that] task_pairs_set [of rks] by (auto simp: case_prod_beta)
  have inj: "j = k" if "j \<in> set ids" "k \<in> set ids" "?ps ! nat j = ?ps ! nat k" for j k
    using that at ids(2) distinct_task_pairs [of rks] by (metis nth_eq_iff_index_eq nat_0_le)
  show ?joins
  proof (intro allI impI)
    fix r assume r: "r < length rks"
    have "inj_on (\<lambda>j. ti_l_taskIdx (g ! nat j)) (set ids \<inter> {j. ti_r_rank (g ! nat j) = int r})"
      by (rule inj_onI) (auto simp: at intro!: inj prod_eqI)
    then have "distinct (map (\<lambda>j. ti_l_taskIdx (g ! nat j)) (filter (\<lambda>j. ti_r_rank (g ! nat j) = int r) ids))"
      using ids(1) by (simp add: distinct_map Int_def)
    moreover have "\<forall>j\<in>set ids. ti_r_rank (g ! nat j) = int r \<longrightarrow>
        0 \<le> ti_l_taskIdx (g ! nat j) \<and> ti_l_taskIdx (g ! nat j) < int (length (thds ! r))
        \<and> thds ! r ! nat (ti_l_taskIdx (g ! nat j)) = Running"
      using run own len(2) r by (fastforce simp: at)
    ultimately show "XclWaitFor (\<lambda>_. True) g (int r) ids (Some (thds ! r)) = Some (Inr
       (Some (map (\<lambda>i. if \<exists>j\<in>set ids. ti_r_rank (g ! nat j) = int r \<and> ti_l_taskIdx (g ! nat j) = int i
                        then Joined else thds ! r ! i) [0..<nat (rks ! r)]),
        \<exists>j\<in>set ids. ti_r_rank (g ! nat j) = int r))"
      using XclWaitFor_eq [of ids g "int r" "thds ! r"] ids(2) lg len(2) r by simp
  qed
  have "\<exists>r < length rks. \<exists>j\<in>set ids. ti_r_rank (g ! nat j) = int r" if "ids \<noteq> []"
    using that own at by (metis list.set_sel(1))
  then show ?returns unfolding barrier_returns_all by auto
qed

theorem wait_for_returns_iff_witness:
  "list_all (\<lambda>b. b) (barrier_returns
      (map (\<lambda>r. \<exists>j\<in>set [0, 2]. ti_r_rank ([info_of 0 (0, 0), info_of 1 (0, 1), info_of 2 (1, 0)] ! nat j) = int r) [0..<2]))"
proof -
  have g: "OMPI_collectDevicesInfo (Some \<lparr>ti_g_taskIdx = 9, ti_l_taskIdx = 9, ti_r_rank = 9\<rparr>) [2, 1]
      = Some (3, [info_of 0 (0, 0), info_of 1 (0, 1), info_of 2 (1, 0)])"
    by code_simp
  show ?thesis
    using wait_for_returns_iff [OF _ _ g, of "[0, 2]" "[[Running, Running], [Running]]"]
    by (simp add: INT_MAX_def info_of_def less_Suc_eq numeral_2_eq_2)
qed

end
