(* ===== verification/XCL_Task_Sched.thy ===== *)
theory XCL_Task_Sched
  imports XCL_Task_Map
begin

text \<open>
  Matching tasks with devices (\<^verbatim>\<open>ompi/mpiext/XCLFrame/c/binding/tskMgmt\<close>): the schedule file
  \<^verbatim>\<open>taskSched.cfg\<close> is read line by line (\<^verbatim>\<open>taskScheduling.c\<close>), and every task gets a device
  and a rack of memory objects on it (\<^verbatim>\<open>tskMgmt.c\<close>).

  The functions of the C library the parser uses are written out: \<^verbatim>\<open>fgets\<close>, \<^verbatim>\<open>strtok\<close> with the
  separators of the source, \<^verbatim>\<open>atoi\<close>. A \<^verbatim>\<open>Device*\<close> is an index into the list of all devices, so
  that two tasks on the same device share its counters.
\<close>

section \<open>The C library\<close>

definition newline :: char where "newline = CHR 0x0A"

text \<open>\<^verbatim>\<open>fgets (line, n + 1, fp)\<close>: at most \<open>n\<close> characters, the newline included; and the rest.\<close>

fun fgets :: "nat \<Rightarrow> string \<Rightarrow> string \<times> string" where
  "fgets 0 s = ([], s)"
| "fgets (Suc n) [] = ([], [])"
| "fgets (Suc n) (c # s) = (if c = newline then ([c], s) else (case fgets n s of (l, r) \<Rightarrow> (c # l, r)))"

lemma fgets_length: "fgets n s = (l, r) \<Longrightarrow> length l + length r = length s"
  by (induction n s arbitrary: l r rule: fgets.induct) (auto split: if_splits prod.splits)

lemma fgets_progress: "fgets (Suc n) (c # s) = (l, r) \<Longrightarrow> length r \<le> length s"
  by (auto split: if_splits prod.splits dest: fgets_length)

function file_lines :: "string \<Rightarrow> string list" where
  "file_lines [] = []"
| "file_lines (c # s) = (case fgets 255 (c # s) of (l, r) \<Rightarrow> l # file_lines r)"
  by pat_completeness auto
termination
  by (relation "measure length") (auto simp: numeral_eq_Suc less_Suc_eq_le split: if_splits prod.splits dest!: fgets_length)

definition is_delim :: "char \<Rightarrow> bool" where
  "is_delim c \<longleftrightarrow> c \<in> {CHR 0x09, CHR '' '', CHR ''='', newline, CHR 0x0D}"

text \<open>One call of \<^verbatim>\<open>strtok\<close>: the token and the rest of the line, \<^const>\<open>None\<close> for \<^verbatim>\<open>NULL\<close>.\<close>

definition strtok :: "string \<Rightarrow> (string \<times> string) option" where
  "strtok s = (let s = dropWhile is_delim s in
     if s = [] then None else Some (takeWhile (\<lambda>c. \<not> is_delim c) s, dropWhile (\<lambda>c. \<not> is_delim c) s))"

definition is_space :: "char \<Rightarrow> bool" where
  "is_space c \<longleftrightarrow> c \<in> {CHR '' '', CHR 0x09, CHR 0x0A, CHR 0x0B, CHR 0x0C, CHR 0x0D}"

definition is_digit :: "char \<Rightarrow> bool" where
  "is_digit c \<longleftrightarrow> 48 \<le> (of_char c :: nat) \<and> (of_char c :: nat) \<le> 57"

fun digits_value :: "int \<Rightarrow> string \<Rightarrow> int" where
  "digits_value acc [] = acc"
| "digits_value acc (c # s) = (if is_digit c then digits_value (acc * 10 + (int (of_char c) - 48)) s else acc)"

text \<open>\<^verbatim>\<open>atoi\<close> is undefined for a number that is not an \<^verbatim>\<open>int\<close>.\<close>

definition atoi :: "string \<Rightarrow> int option" where
  "atoi s =
     (let s = dropWhile is_space s;
          v = (case s of
                 [] \<Rightarrow> 0
               | c # s' \<Rightarrow> if c = CHR ''-'' then - digits_value 0 s'
                          else if c = CHR ''+'' then digits_value 0 s' else digits_value 0 s)
      in if - INT_MAX - 1 \<le> v \<and> v \<le> INT_MAX then Some v else None)"

section \<open>Reading the schedule\<close>

text \<open>A \<^verbatim>\<open>Device*\<close> is an index; an uninitialised one is \<^const>\<open>None\<close>.\<close>

record device_Task_Info =
  dt_mappedDevice :: "nat option"
  dt_min_tskIdx :: int
  dt_max_tskIdx :: int

text \<open>The three arrays of \<^verbatim>\<open>localDevices.h\<close>.\<close>

record local_devices =
  ld_cpu :: "nat list"
  ld_gpu :: "nat list"
  ld_accel :: "nat list"

datatype devDesc = CPU | GPU | ACCEL

text \<open>\<open>rd_devType\<close> is uninitialised before the first device name.\<close>

record read_state =
  rd_slot :: int
  rd_currentMin :: int
  rd_devType :: "devDesc option"
  rd_l_numTasks :: int
  rd_taskDevMap :: "device_Task_Info list"

fun device_array :: "local_devices \<Rightarrow> devDesc \<Rightarrow> nat list" where
  "device_array ld CPU = ld_cpu ld"
| "device_array ld GPU = ld_gpu ld"
| "device_array ld ACCEL = ld_accel ld"

text \<open>One branch of the \<^verbatim>\<open>switch\<close>: the rest of the line holds a device id and a number of tasks.\<close>

definition bind_device :: "nat list \<Rightarrow> string \<Rightarrow> read_state \<Rightarrow> read_state option" where
  "bind_device devs line s = do {
     (token, line) \<leftarrow> strtok line;
     i \<leftarrow> atoi token;
     d \<leftarrow> aget devs i;
     e \<leftarrow> aget (rd_taskDevMap s) (rd_slot s);
     (token, line) \<leftarrow> strtok line;
     n \<leftarrow> atoi token;
     next \<leftarrow> int_add (rd_currentMin s) n;
     last \<leftarrow> int_add next (- 1);
     m \<leftarrow> aset (rd_taskDevMap s) (rd_slot s)
            (e\<lparr>dt_mappedDevice := Some d, dt_min_tskIdx := rd_currentMin s, dt_max_tskIdx := last\<rparr>);
     Some (s\<lparr>rd_taskDevMap := m, rd_currentMin := next, rd_slot := rd_slot s + 1\<rparr>)
   }"

definition read_line :: "local_devices \<Rightarrow> string \<Rightarrow> read_state \<Rightarrow> read_state option" where
  "read_line ld line s =
     (case strtok (takeWhile (\<lambda>c. c \<noteq> CHR 0x00) line) of
        None \<Rightarrow> Some s
      | Some (token, line) \<Rightarrow>
          if hd token = CHR ''#'' then Some s
          else if token = ''l_numTasks'' then do {
            (token, line) \<leftarrow> strtok line;
            n \<leftarrow> atoi token;
            Some (s\<lparr>rd_l_numTasks := n\<rparr>)
          }
          else do {
            let s = (if token = ''CPU'' then s\<lparr>rd_devType := Some CPU\<rparr> else s);
            let s = (if token = ''GPU'' then s\<lparr>rd_devType := Some GPU\<rparr> else s);
            let s = (if token = ''ACCEL'' then s\<lparr>rd_devType := Some ACCEL\<rparr> else s);
            k \<leftarrow> rd_devType s;
            bind_device (device_array ld k) line s
          })"

text \<open>
  \<^verbatim>\<open>file\<close> is the content of \<^verbatim>\<open>taskSched.cfg\<close>, \<^const>\<open>None\<close> when it cannot be opened. That the
  numbers of tasks do not add up to \<^verbatim>\<open>l_numTasks\<close> only gives a warning.
\<close>

definition readTaskBinding ::
  "string option \<Rightarrow> local_devices \<Rightarrow> int \<Rightarrow> device_Task_Info list \<Rightarrow> (int + int \<times> device_Task_Info list) option" where
  "readTaskBinding file ld l_numTasks taskDevMap =
     (case file of
        None \<Rightarrow> Some (Inl (- 1))
      | Some text \<Rightarrow> do {
          s \<leftarrow> ofold (read_line ld) (file_lines text)
                 \<lparr>rd_slot = 0, rd_currentMin = 0, rd_devType = None, rd_l_numTasks = l_numTasks,
                  rd_taskDevMap = taskDevMap\<rparr>;
          Some (Inr (rd_l_numTasks s, rd_taskDevMap s))
        })"

section \<open>Devices, racks and tasks\<close>

text \<open>
  A rack is an array of memory objects; a rack pointer that \<^verbatim>\<open>malloc\<close> left uninitialised is
  \<^const>\<open>None\<close>, as is an uninitialised memory object in a rack.
\<close>

type_synonym cl_mem = nat
type_synonym rack = "cl_mem option list option"

record Device =
  dv_deviceId :: int
  dv_context :: int
  dv_queue :: int
  dv_numRacks :: int
  dv_memHandler :: "rack list option"

text \<open>
  \<open>tk_device = None\<close>: the task still points to the uninitialised device allocated for it.
  \<open>tk_trayInfo\<close> is the size stored in the \<^verbatim>\<open>XCLTrayInfo\<close> of the task, \<^const>\<open>None\<close> while the pointer
  to it is uninitialised. The program and kernel of a task are in \<open>XCL_Exec\<close>.
\<close>

record XCLtask =
  tk_device :: "nat option"
  tk_numTrays :: int
  tk_trayInfo :: "int option"
  tk_Rack :: int

text \<open>
  The body of the matching loops: task \<open>j\<close> gets device \<open>d\<close> and the next rack there. \<open>mem j\<close> tells
  whether the allocation succeeds; only the reallocation tests it.
\<close>

definition match_task :: "(int \<Rightarrow> bool) \<Rightarrow> nat \<Rightarrow> int \<Rightarrow> XCLtask list \<times> Device list \<Rightarrow> (XCLtask list \<times> Device list) option" where
  "match_task mem d j = (\<lambda>(taskList, devs). do {
     t \<leftarrow> aget taskList j;
     dev \<leftarrow> aget devs (int d);
     let t = t\<lparr>tk_device := Some d, tk_numTrays := 0\<rparr>;
     let rackIdx = dv_numRacks dev;
     let (t, dev) =
       (if rackIdx = 0 then
          (t\<lparr>tk_Rack := rackIdx\<rparr>,
           dev\<lparr>dv_memHandler := (if mem j then Some [None] else None), dv_numRacks := dv_numRacks dev + 1\<rparr>)
        else if mem j then
          (t\<lparr>tk_Rack := rackIdx\<rparr>,
           dev\<lparr>dv_memHandler := Some (arealloc None (case dv_memHandler dev of None \<Rightarrow> [] | Some r \<Rightarrow> r) (rackIdx + 1)),
               dv_numRacks := dv_numRacks dev + 1\<rparr>)
        else (t, dev));
     taskList \<leftarrow> aset taskList j t;
     devs \<leftarrow> aset devs (int d) dev;
     Some (taskList, devs)
   })"

definition ALL_DEVICES :: int where "ALL_DEVICES = 0"
definition CPU_DEVICES :: int where "CPU_DEVICES = 2"
definition GPU_DEVICES :: int where "GPU_DEVICES = 1"
definition ACC_DEVICES :: int where "ACC_DEVICES = 3"

definition match_interval ::
  "(int \<Rightarrow> bool) \<Rightarrow> device_Task_Info \<Rightarrow> XCLtask list \<times> Device list \<Rightarrow> (XCLtask list \<times> Device list) option" where
  "match_interval mem e s =
     (if dt_min_tskIdx e = - 1 then Some s
      else if dt_max_tskIdx e < dt_min_tskIdx e then Some s
      else do {
        d \<leftarrow> dt_mappedDevice e;
        ofold (match_task mem d) [dt_min_tskIdx e..dt_max_tskIdx e] s
      })"

text \<open>
  \<open>junkD\<close> and \<open>junkT\<close> are the uninitialised contents of the two arrays, whose allocation is taken to
  succeed. The process state is the number of tasks, the task list and the devices.
\<close>

definition createTaskList ::
  "(int \<Rightarrow> bool) \<Rightarrow> device_Task_Info \<Rightarrow> XCLtask \<Rightarrow> string option \<Rightarrow> local_devices \<Rightarrow> int \<Rightarrow> int \<Rightarrow> int
     \<Rightarrow> XCLtask list \<Rightarrow> Device list \<Rightarrow> (int + int \<times> XCLtask list \<times> Device list) option" where
  "createTaskList mem junkD junkT file ld numDevices devSelection l_numTasks taskList devs =
     ebind (readTaskBinding file ld l_numTasks (replicate (nat numDevices) (junkD\<lparr>dt_min_tskIdx := - 1\<rparr>)))
       (\<lambda>(l_numTasks, taskDevMap).
         let fresh = replicate (nat l_numTasks) (junkT\<lparr>tk_device := None, tk_trayInfo := None\<rparr>) in do {
           (taskList, devs) \<leftarrow>
             (if devSelection = ALL_DEVICES then
                ofold (match_interval mem) taskDevMap (fresh, devs)
              else if devSelection = CPU_DEVICES then
                ofold (\<lambda>i s. do {d \<leftarrow> aget (ld_cpu ld) 0; match_task mem d (int i) s}) [0..<nat l_numTasks] (fresh, devs)
              else if devSelection = GPU_DEVICES then
                ofold (\<lambda>i s. do {d \<leftarrow> aget (ld_gpu ld) 0; match_task mem d (int i) s}) [0..<nat l_numTasks] (fresh, devs)
              else if devSelection = ACC_DEVICES then
                ofold (\<lambda>i s. do {d \<leftarrow> aget (ld_accel ld) (int i); match_task mem d (int i) s}) [0..<nat l_numTasks] (fresh, devs)
              else Some (taskList, devs));
           Some (Inr (l_numTasks, taskList, devs))
         })"

text \<open>A process with one CPU and one GPU.\<close>

definition sample_devices :: "Device list" where
  "sample_devices = map (\<lambda>i. \<lparr>dv_deviceId = i, dv_context = i, dv_queue = i, dv_numRacks = 0, dv_memHandler = None\<rparr>) [0, 1]"

definition sample_local :: local_devices where
  "sample_local = \<lparr>ld_cpu = [0], ld_gpu = [1], ld_accel = []\<rparr>"

section \<open>No two tasks share a rack\<close>

definition racks_ok :: "XCLtask list \<Rightarrow> Device list \<Rightarrow> bool" where
  "racks_ok ts devs \<longleftrightarrow>
     (\<forall>d < length devs. 0 \<le> dv_numRacks (devs ! d) \<and>
        (0 < dv_numRacks (devs ! d) \<longrightarrow>
          (\<exists>rs. dv_memHandler (devs ! d) = Some rs \<and> int (length rs) = dv_numRacks (devs ! d))))
   \<and> (\<forall>j < length ts. \<forall>d. tk_device (ts ! j) = Some d \<longrightarrow>
        d < length devs \<and> 0 \<le> tk_Rack (ts ! j) \<and> tk_Rack (ts ! j) < dv_numRacks (devs ! d))
   \<and> (\<forall>j < length ts. \<forall>k < length ts. j \<noteq> k \<and> tk_device (ts ! j) \<noteq> None \<and> tk_device (ts ! j) = tk_device (ts ! k)
        \<longrightarrow> tk_Rack (ts ! j) \<noteq> tk_Rack (ts ! k))"

lemma racks_okD:
  assumes "racks_ok ts devs"
  shows "d < length devs \<Longrightarrow> 0 \<le> dv_numRacks (devs ! d)"
    and "d < length devs \<Longrightarrow> 0 < dv_numRacks (devs ! d) \<Longrightarrow>
      \<exists>rs. dv_memHandler (devs ! d) = Some rs \<and> int (length rs) = dv_numRacks (devs ! d)"
    and "j < length ts \<Longrightarrow> tk_device (ts ! j) = Some d \<Longrightarrow>
      d < length devs \<and> 0 \<le> tk_Rack (ts ! j) \<and> tk_Rack (ts ! j) < dv_numRacks (devs ! d)"
    and "j < length ts \<Longrightarrow> k < length ts \<Longrightarrow> j \<noteq> k \<Longrightarrow> tk_device (ts ! j) = Some d \<Longrightarrow> tk_device (ts ! k) = Some d
      \<Longrightarrow> tk_Rack (ts ! j) \<noteq> tk_Rack (ts ! k)"
  using assms by (auto simp: racks_ok_def)

text \<open>What a match does, with every allocation succeeding.\<close>

definition next_rack :: "Device \<Rightarrow> rack list" where
  "next_rack dev = (if dv_numRacks dev = 0 then [None]
     else arealloc None (case dv_memHandler dev of None \<Rightarrow> [] | Some r \<Rightarrow> r) (dv_numRacks dev + 1))"

lemma match_task_eq:
  "match_task (\<lambda>_. True) d j (ts, devs) =
     (if 0 \<le> j \<and> j < int (length ts) \<and> d < length devs then
        Some (ts[nat j := (ts ! nat j)\<lparr>tk_device := Some d, tk_numTrays := 0, tk_Rack := dv_numRacks (devs ! d)\<rparr>],
          devs[d := (devs ! d)\<lparr>dv_memHandler := Some (next_rack (devs ! d)), dv_numRacks := dv_numRacks (devs ! d) + 1\<rparr>])
      else None)"
  by (simp add: match_task_def next_rack_def aget_def aset_def Let_def)

lemma match_task_racks:
  assumes "match_task (\<lambda>_. True) d j s = Some s'" "racks_ok (fst s) (snd s)"
  shows "racks_ok (fst s') (snd s')"
proof -
  obtain ts devs where s: "s = (ts, devs)" by fastforce
  note ok = assms(2) [unfolded s fst_conv snd_conv]
  let ?n = "dv_numRacks (devs ! d)"
  from assms(1) have j: "0 \<le> j" "nat j < length ts" "d < length devs"
    and s': "s' = (ts[nat j := (ts ! nat j)\<lparr>tk_device := Some d, tk_numTrays := 0, tk_Rack := ?n\<rparr>],
      devs[d := (devs ! d)\<lparr>dv_memHandler := Some (next_rack (devs ! d)), dv_numRacks := ?n + 1\<rparr>])"
    by (simp_all add: s match_task_eq split: if_splits)
  have n: "0 \<le> ?n" using racks_okD(1) [OF ok j(3)] .
  then have len: "int (length (next_rack (devs ! d))) = ?n + 1" by (simp add: next_rack_def)
  have below: "tk_Rack (ts ! k) < ?n" if "k < length ts" "tk_device (ts ! k) = Some d" for k
    using racks_okD(3) [OF ok that] by simp
  show ?thesis unfolding s' racks_ok_def fst_conv snd_conv length_list_update
  proof (intro conjI allI impI, goal_cases)
    case (1 e) then show ?case using n j(3) racks_okD(1) [OF ok, of e] by (simp add: nth_list_update)
  next
    case (2 e) then show ?case using len j(3) racks_okD(2) [OF ok, of e] by (auto simp: nth_list_update split: if_splits)
  next
    case (3 k e) then show ?case using j racks_okD(3) [OF ok, of k e] by (auto simp: nth_list_update split: if_splits)
  next
    case (4 k e) then show ?case using n j racks_okD(3) [OF ok, of k e] by (auto simp: nth_list_update split: if_splits)
  next
    case (5 k e) then show ?case using j racks_okD(3) [OF ok, of k e] by (auto simp: nth_list_update split: if_splits)
  next
    case (6 k l) then show ?case
      using j below [of k] below [of l] racks_okD(4) [OF ok, of k l]
      by (cases "tk_device (ts ! l)") (auto simp: nth_list_update split: if_splits)
  qed
qed

lemma match_interval_racks:
  "match_interval (\<lambda>_. True) e s = Some s' \<Longrightarrow> racks_ok (fst s) (snd s) \<Longrightarrow> racks_ok (fst s') (snd s')"
  by (auto simp: match_interval_def bind_eq_Some_conv split: if_splits
      elim!: ofold_keeps [where P = "\<lambda>s. racks_ok (fst s) (snd s)"] dest: match_task_racks)

text \<open>C18: Whatever schedule file and whichever of the four selections, if
  \<^verbatim>\<open>createTaskList\<close> returns then the rack of every task that got a device is inside the
  rack array allocated on that device, and two tasks on the same device have different racks.\<close>

theorem create_task_list_racks:
  assumes "createTaskList (\<lambda>_. True) junkD junkT file ld numDevices devSelection l0 ts0 devs = Some (Inr (n, ts, devs'))"
    and "devSelection \<in> {ALL_DEVICES, CPU_DEVICES, GPU_DEVICES, ACC_DEVICES}"
    and "\<forall>dev\<in>set devs. dv_numRacks dev = 0"
  shows "(\<forall>j < length ts. \<forall>d. tk_device (ts ! j) = Some d \<longrightarrow> d < length devs' \<and>
       (\<exists>rs. dv_memHandler (devs' ! d) = Some rs \<and> 0 \<le> tk_Rack (ts ! j) \<and> tk_Rack (ts ! j) < int (length rs)))
    \<and> (\<forall>j < length ts. \<forall>k < length ts. j \<noteq> k \<and> tk_device (ts ! j) \<noteq> None \<and> tk_device (ts ! j) = tk_device (ts ! k)
       \<longrightarrow> tk_Rack (ts ! j) \<noteq> tk_Rack (ts ! k))"
proof -
  obtain m where ld: "readTaskBinding file ld l0 (replicate (nat numDevices) (junkD\<lparr>dt_min_tskIdx := - 1\<rparr>)) = Some (Inr (n, m))"
    using assms(1) unfolding createTaskList_def
    by (cases "readTaskBinding file ld l0 (replicate (nat numDevices) (junkD\<lparr>dt_min_tskIdx := - 1\<rparr>))"
        rule: ebind.cases [where x = "(r, f)" for r f, simplified])
      (auto simp: Let_def bind_eq_Some_conv split: option.splits sum.splits if_splits)
  let ?fresh = "replicate (nat n) (junkT\<lparr>tk_device := None, tk_trayInfo := None\<rparr>)"
  let ?P = "\<lambda>s. racks_ok (fst s) (snd s)"
  have start: "?P (?fresh, devs)" using assms(3) by (auto simp: racks_ok_def)
  from assms(1,2) ld consider
      (all) "ofold (match_interval (\<lambda>_. True)) m (?fresh, devs) = Some (ts, devs')"
    | (one) f where "ofold (\<lambda>i s. do {d \<leftarrow> f i; match_task (\<lambda>_. True) d (int i) s}) [0..<nat n] (?fresh, devs) = Some (ts, devs')"
    unfolding createTaskList_def by (auto simp: Let_def bind_eq_Some_conv split: if_splits)
  then have "?P (ts, devs')"
  proof cases
    case all
    then show ?thesis by (rule ofold_keeps [where P = ?P]) (use start in \<open>auto intro: match_interval_racks\<close>)
  next
    case one
    then show ?thesis by (rule ofold_keeps [where P = ?P]) (use start in \<open>auto simp: bind_eq_Some_conv intro: match_task_racks\<close>)
  qed
  then have ok: "racks_ok ts devs'" by simp
  show ?thesis
  proof (intro conjI allI impI)
    fix j d assume j: "j < length ts" "tk_device (ts ! j) = Some d"
    from racks_okD(3) [OF ok this] racks_okD(2) [OF ok, of d]
    show "d < length devs'" and "\<exists>rs. dv_memHandler (devs' ! d) = Some rs \<and> 0 \<le> tk_Rack (ts ! j) \<and> tk_Rack (ts ! j) < int (length rs)"
      by auto
  qed (use racks_okD(4) [OF ok] in force)
qed

theorem create_task_list_racks_witness:
  "\<exists>n ts devs'. createTaskList (\<lambda>_. True) \<lparr>dt_mappedDevice = None, dt_min_tskIdx = 0, dt_max_tskIdx = 0\<rparr>
      \<lparr>tk_device = None, tk_numTrays = 7, tk_trayInfo = None, tk_Rack = 7\<rparr> (Some (''l_numTasks = 2'' @ newline # ''CPU 0 2''))
      sample_local 2 ALL_DEVICES 0 [] sample_devices = Some (Inr (n, ts, devs'))
    \<and> tk_device (ts ! 0) = tk_device (ts ! 1) \<and> tk_Rack (ts ! 0) \<noteq> tk_Rack (ts ! 1)"
proof -
  let ?run = "createTaskList (\<lambda>_. True) \<lparr>dt_mappedDevice = None, dt_min_tskIdx = 0, dt_max_tskIdx = 0\<rparr>
      \<lparr>tk_device = None, tk_numTrays = 7, tk_trayInfo = None, tk_Rack = 7\<rparr> (Some (''l_numTasks = 2'' @ newline # ''CPU 0 2''))
      sample_local 2 ALL_DEVICES 0 [] sample_devices"
  let ?ts = "[\<lparr>tk_device = Some 0, tk_numTrays = 0, tk_trayInfo = None, tk_Rack = 0\<rparr>, \<lparr>tk_device = Some 0, tk_numTrays = 0, tk_trayInfo = None, tk_Rack = 1\<rparr>]"
  have "(case ?run of Some (Inr (n, ts, devs)) \<Rightarrow> ts = ?ts | _ \<Rightarrow> False)" by code_simp
  then obtain n devs' where run: "?run = Some (Inr (n, ?ts, devs'))" by (auto split: option.splits sum.splits)
  have "\<forall>dev\<in>set sample_devices. dv_numRacks dev = 0" by (simp add: sample_devices_def)
  with create_task_list_racks [OF run] have "tk_Rack (?ts ! 0) \<noteq> tk_Rack (?ts ! 1)" by simp
  moreover have "tk_device (?ts ! 0) = tk_device (?ts ! 1)" by simp
  ultimately show ?thesis using run by blast
qed

section \<open>Printing a schedule and reading it back\<close>

function dec :: "nat \<Rightarrow> string" where
  "dec n = (if n < 10 then [char_of (48 + n)] else dec (n div 10) @ [char_of (48 + n mod 10)])"
  by pat_completeness auto
termination
  by (relation "measure id") auto

declare dec.simps [simp del]

fun kind_name :: "devDesc \<Rightarrow> string" where
  "kind_name CPU = ''CPU''"
| "kind_name GPU = ''GPU''"
| "kind_name ACCEL = ''ACCEL''"

type_synonym binding = "devDesc \<times> nat \<times> nat"

fun cfg_line :: "binding \<Rightarrow> string" where
  "cfg_line (k, i, c) = kind_name k @ CHR '' '' # dec i @ CHR '' '' # dec c @ [newline]"

definition cfg_text :: "nat \<Rightarrow> binding list \<Rightarrow> string" where
  "cfg_text n es = ''l_numTasks = '' @ dec n @ newline # concat (map cfg_line es)"

lemma is_digit_char_of: "d < 10 \<Longrightarrow> is_digit (char_of (48 + d :: nat))"
  by (simp add: is_digit_def)

lemma digits_value_append:
  "\<forall>c\<in>set s. is_digit c \<Longrightarrow> digits_value acc (s @ t) = digits_value (digits_value acc s) t"
  by (induction s arbitrary: acc) auto

lemma dec_digits: "\<forall>c\<in>set (dec n). is_digit c"
  by (induction n rule: dec.induct) (subst dec.simps, auto simp: is_digit_char_of)

lemma dec_value: "digits_value 0 (dec n) = int n"
proof (induction n rule: dec.induct)
  case (1 n)
  show ?case
  proof (cases "n < 10")
    case True
    then show ?thesis by (subst dec.simps) (simp add: is_digit_char_of)
  next
    case False
    then have "digits_value 0 (dec n) = digits_value (int (n div 10)) [char_of (48 + n mod 10)]"
      using 1 dec_digits [of "n div 10"] by (subst dec.simps) (simp add: digits_value_append)
    also have "\<dots> = int (n div 10) * 10 + int (n mod 10)"
      by (simp add: is_digit_char_of)
    also have "\<dots> = int n" by (simp add: zdiv_int zmod_int)
    finally show ?thesis .
  qed
qed

lemma dec_nonempty [simp]: "dec n \<noteq> []"
  by (subst dec.simps) simp

lemma dec_length: "n < 10 ^ Suc m \<Longrightarrow> length (dec n) \<le> Suc m"
proof (induction m arbitrary: n)
  case 0
  then show ?case by (subst dec.simps) simp
next
  case (Suc m)
  then have "n div 10 < 10 ^ Suc m" by (simp add: less_mult_imp_div_less)
  with Suc.IH [of "n div 10"] show ?case by (subst dec.simps) simp
qed

lemma is_digitD: "is_digit c \<Longrightarrow> \<not> is_delim c \<and> \<not> is_space c \<and> c \<noteq> CHR ''-'' \<and> c \<noteq> CHR ''+'' \<and> c \<noteq> newline \<and> c \<noteq> CHR 0x00"
  by (auto simp: is_digit_def is_delim_def is_space_def newline_def)

lemma atoi_dec: "int n \<le> INT_MAX \<Longrightarrow> atoi (dec n) = Some (int n)"
proof -
  assume n: "int n \<le> INT_MAX"
  obtain c s where cs: "dec n = c # s" by (cases "dec n") simp_all
  then have "is_digit c" using dec_digits [of n] by simp
  then show ?thesis using is_digitD [of c] dec_value [of n] n by (simp add: atoi_def cs INT_MAX_def)
qed

lemma strtok_token:
  assumes "\<forall>c\<in>set ds. is_delim c" "tok \<noteq> []" "\<forall>c\<in>set tok. \<not> is_delim c" "is_delim e"
  shows "strtok (ds @ tok @ e # r) = Some (tok, e # r)"
proof -
  have "dropWhile is_delim (ds @ tok @ e # r) = tok @ e # r"
    using assms by (subst dropWhile_append2) (auto simp: dropWhile_eq_self_iff hd_append)
  moreover have "takeWhile (\<lambda>c. \<not> is_delim c) (tok @ e # r) = tok" "dropWhile (\<lambda>c. \<not> is_delim c) (tok @ e # r) = e # r"
    using assms by (subst takeWhile_append2 dropWhile_append2; simp)+
  ultimately show ?thesis using assms(2) by (simp add: strtok_def Let_def)
qed

lemma fgets_line: "newline \<notin> set l \<Longrightarrow> length l < n \<Longrightarrow> fgets n (l @ newline # r) = (l @ [newline], r)"
proof (induction l arbitrary: n)
  case Nil then show ?case by (cases n) simp_all
next
  case (Cons c l) then show ?case by (cases n) auto
qed

lemma file_lines_line:
  assumes "newline \<notin> set l" "length l < 255"
  shows "file_lines (l @ newline # r) = (l @ [newline]) # file_lines r"
proof -
  obtain c t where "l @ newline # r = c # t" by (cases "l @ newline # r") simp_all
  then show ?thesis using fgets_line [OF assms, of r] by simp
qed

fun bindings :: "local_devices \<Rightarrow> nat \<Rightarrow> binding list \<Rightarrow> device_Task_Info list" where
  "bindings ld m [] = []"
| "bindings ld m ((k, i, c) # es) =
     \<lparr>dt_mappedDevice = Some (device_array ld k ! i), dt_min_tskIdx = int m, dt_max_tskIdx = int (m + c) - 1\<rparr>
       # bindings ld (m + c) es"

definition total_tasks :: "binding list \<Rightarrow> nat" where
  "total_tasks es = sum_list (map (\<lambda>(k, i, c). c) es)"

lemma length_bindings [simp]: "length (bindings ld m es) = length es"
  by (induction ld m es rule: bindings.induct) simp_all

lemma kind_name_char: "c \<in> set (kind_name k) \<Longrightarrow> \<not> is_delim c \<and> c \<noteq> newline \<and> c \<noteq> CHR 0x00"
  by (cases k) (auto simp: is_delim_def newline_def)

lemma no_newline: "newline \<notin> set (dec n)" "newline \<notin> set (kind_name k)" "newline \<noteq> CHR '' ''"
  using dec_digits [of n] kind_name_char [of newline k] is_digitD [of newline] by (auto simp: newline_def)

lemma kind_name_simps: "kind_name k \<noteq> []" "hd (kind_name k) \<noteq> CHR ''#''" "kind_name k \<noteq> ''l_numTasks''"
  by (cases k; simp)+

lemma is_delim_blank [simp]: "is_delim (CHR '' '')" "is_delim newline" "is_delim (CHR ''='')"
  by (simp_all add: is_delim_def)

lemma strtok_dec: "is_delim e \<Longrightarrow> \<forall>c\<in>set ds. is_delim c \<Longrightarrow> strtok (ds @ dec n @ e # r) = Some (dec n, e # r)"
  using dec_digits [of n] by (intro strtok_token) (auto dest: is_digitD)

text \<open>The two numbers of a line.\<close>

lemma bind_device_line:
  assumes "i < length devs" "int i \<le> INT_MAX" "rd_slot s = int p" "p < length (rd_taskDevMap s)"
    and "rd_currentMin s = int m" "int (m + c) \<le> INT_MAX"
  shows "bind_device devs (CHR '' '' # dec i @ CHR '' '' # dec c @ [newline]) s
    = Some (s\<lparr>rd_taskDevMap := (rd_taskDevMap s)[p := \<lparr>dt_mappedDevice = Some (devs ! i), dt_min_tskIdx = int m,
                dt_max_tskIdx = int (m + c) - 1\<rparr>],
              rd_currentMin := int (m + c), rd_slot := int (Suc p)\<rparr>)"
proof -
  have "strtok (CHR '' '' # dec i @ CHR '' '' # dec c @ [newline]) = Some (dec i, CHR '' '' # dec c @ [newline])"
    using strtok_dec [of "CHR '' ''" "[CHR '' '']" i "dec c @ [newline]"] by simp
  moreover have "strtok (CHR '' '' # dec c @ [newline]) = Some (dec c, [newline])"
    using strtok_dec [of newline "[CHR '' '']" c "[]"] by simp
  moreover have "int c \<le> INT_MAX" using assms(6) by simp
  ultimately show ?thesis
    using assms by (cases "rd_taskDevMap s ! p") (simp add: bind_device_def atoi_dec int_add_def add_ac)
qed

lemma read_cfg_line:
  assumes "i < length (device_array ld k)" "int i \<le> INT_MAX" "rd_slot s = int p" "p < length (rd_taskDevMap s)"
    and "rd_currentMin s = int m" "int (m + c) \<le> INT_MAX"
  shows "read_line ld (cfg_line (k, i, c)) s
    = Some (s\<lparr>rd_devType := Some k, rd_taskDevMap := (rd_taskDevMap s)[p := \<lparr>dt_mappedDevice = Some (device_array ld k ! i),
                dt_min_tskIdx = int m, dt_max_tskIdx = int (m + c) - 1\<rparr>],
              rd_currentMin := int (m + c), rd_slot := int (Suc p)\<rparr>)"
proof -
  have "\<forall>x\<in>set (cfg_line (k, i, c)). x \<noteq> CHR 0x00"
    using dec_digits [of i] dec_digits [of c] by (auto simp: newline_def dest: is_digitD kind_name_char)
  then have "takeWhile (\<lambda>x. x \<noteq> CHR 0x00) (cfg_line (k, i, c)) = cfg_line (k, i, c)" by (simp add: takeWhile_eq_all_conv)
  moreover have "strtok (cfg_line (k, i, c)) = Some (kind_name k, CHR '' '' # dec i @ CHR '' '' # dec c @ [newline])"
    using strtok_token [of "[]" "kind_name k" "CHR '' ''" "dec i @ CHR '' '' # dec c @ [newline]"] kind_name_char kind_name_simps(1)
    by auto
  moreover have "bind_device (device_array ld k) (CHR '' '' # dec i @ CHR '' '' # dec c @ [newline]) (s\<lparr>rd_devType := Some k\<rparr>)
    = Some (s\<lparr>rd_devType := Some k, rd_taskDevMap := (rd_taskDevMap s)[p := \<lparr>dt_mappedDevice = Some (device_array ld k ! i),
                dt_min_tskIdx = int m, dt_max_tskIdx = int (m + c) - 1\<rparr>],
              rd_currentMin := int (m + c), rd_slot := int (Suc p)\<rparr>)"
    using assms by (subst bind_device_line) simp_all
  ultimately show ?thesis using kind_name_simps [of k] by (cases k) (simp_all add: read_line_def)
qed

declare file_lines.simps(2) [simp del]

definition valid_binding :: "local_devices \<Rightarrow> nat \<Rightarrow> binding \<Rightarrow> bool" where
  "valid_binding ld n = (\<lambda>(k, i, c). i < length (device_array ld k) \<and> int i \<le> INT_MAX \<and> device_array ld k ! i < n)"

lemma total_tasks_simps [simp]: "total_tasks [] = 0" "total_tasks ((k, i, c) # es) = c + total_tasks es"
  by (simp_all add: total_tasks_def)

lemma read_cfg_lines:
  assumes "\<forall>e\<in>set es. valid_binding ld n e" "rd_slot s = int p" "p + length es \<le> length (rd_taskDevMap s)"
    and "rd_currentMin s = int m" "int (m + total_tasks es) \<le> INT_MAX"
  shows "\<exists>k. ofold (read_line ld) (map cfg_line es) s
    = Some (s\<lparr>rd_devType := k, rd_taskDevMap := take p (rd_taskDevMap s) @ bindings ld m es @ drop (p + length es) (rd_taskDevMap s),
              rd_currentMin := int (m + total_tasks es), rd_slot := int (p + length es)\<rparr>)"
  using assms
proof (induction es arbitrary: s p m)
  case Nil
  then have "s = s\<lparr>rd_devType := rd_devType s, rd_taskDevMap := rd_taskDevMap s, rd_currentMin := int m, rd_slot := int p\<rparr>"
    by (cases s) simp
  then show ?case by (intro exI [of _ "rd_devType s"]) simp
next
  case (Cons e es)
  obtain k i c where e: "e = (k, i, c)" by (cases e)
  let ?s = "s\<lparr>rd_devType := Some k, rd_taskDevMap := (rd_taskDevMap s)[p := \<lparr>dt_mappedDevice = Some (device_array ld k ! i),
                dt_min_tskIdx = int m, dt_max_tskIdx = int (m + c) - 1\<rparr>],
              rd_currentMin := int (m + c), rd_slot := int (Suc p)\<rparr>"
  have "read_line ld (cfg_line e) s = Some ?s"
    unfolding e using Cons.prems by (intro read_cfg_line) (auto simp: e valid_binding_def)
  moreover have p: "p < length (rd_taskDevMap s)" using Cons.prems(3) by simp
  have "take (Suc p) (rd_taskDevMap ?s) = take p (rd_taskDevMap s) @ [hd (bindings ld m (e # es))]"
    using p by (simp add: e take_Suc_conv_app_nth)
  moreover obtain k' where "ofold (read_line ld) (map cfg_line es) ?s
    = Some (?s\<lparr>rd_devType := k', rd_taskDevMap := take (Suc p) (rd_taskDevMap ?s) @ bindings ld (m + c) es @ drop (Suc p + length es) (rd_taskDevMap ?s),
              rd_currentMin := int (m + c + total_tasks es), rd_slot := int (Suc p + length es)\<rparr>)"
    using Cons.IH [of ?s "Suc p" "m + c"] Cons.prems by (auto simp: e add_ac)
  ultimately show ?case by (intro exI [of _ k']) (simp add: e add_ac)
qed

lemma file_lines_cfg:
  assumes "int n \<le> INT_MAX" "\<forall>e\<in>set es. valid_binding ld d e" "int (total_tasks es) \<le> INT_MAX"
  shows "file_lines (cfg_text n es) = (''l_numTasks = '' @ dec n @ [newline]) # map cfg_line es"
proof -
  have len: "length (dec x) \<le> 10" if "int x \<le> INT_MAX" for x
    using dec_length [of x 9] that by (simp add: INT_MAX_def)
  have lines: "file_lines (concat (map cfg_line es)) = map cfg_line es"
    using assms(2,3)
  proof (induction es)
    case (Cons e es)
    obtain k i c where e: "e = (k, i, c)" by (cases e)
    let ?l = "kind_name k @ CHR '' '' # dec i @ CHR '' '' # dec c"
    have "newline \<notin> set ?l" by (simp add: no_newline)
    moreover have "length ?l < 255"
      using len [of i] len [of c] Cons.prems by (cases k) (auto simp: e valid_binding_def)
    ultimately show ?case
      using file_lines_line [of ?l "concat (map cfg_line es)"] Cons by (simp add: e)
  qed simp
  have "newline \<notin> set (''l_numTasks = '' @ dec n)"
    using no_newline(1) [of n] by (simp add: newline_def)
  moreover have "length (''l_numTasks = '' @ dec n) < 255" using len [OF assms(1)] by simp
  ultimately show ?thesis
    using file_lines_line [of "''l_numTasks = '' @ dec n" "concat (map cfg_line es)"] lines
    by (simp add: cfg_text_def)
qed

lemma read_first_line:
  assumes "int n \<le> INT_MAX"
  shows "read_line ld (''l_numTasks = '' @ dec n @ [newline]) s = Some (s\<lparr>rd_l_numTasks := int n\<rparr>)"
proof -
  have "takeWhile (\<lambda>c. c \<noteq> CHR 0x00) (''l_numTasks = '' @ dec n @ [newline]) = ''l_numTasks = '' @ dec n @ [newline]"
    using dec_digits [of n] by (subst takeWhile_eq_all_conv) (auto simp: newline_def dest: is_digitD)
  moreover have "strtok (''l_numTasks = '' @ dec n @ [newline]) = Some (''l_numTasks'', '' = '' @ dec n @ [newline])"
    using strtok_token [of "[]" "''l_numTasks''" "CHR '' ''" "''= '' @ dec n @ [newline]"] by (simp add: is_delim_def newline_def)
  moreover have "strtok ('' = '' @ dec n @ [newline]) = Some (dec n, [newline])"
    by (rule strtok_dec) simp_all
  ultimately show ?thesis using assms by (simp add: read_line_def atoi_dec)
qed

lemma read_cfg_text:
  assumes "int n \<le> INT_MAX" "\<forall>e\<in>set es. valid_binding ld d e" "int (total_tasks es) \<le> INT_MAX" "length es \<le> N"
  shows "readTaskBinding (Some (cfg_text n es)) ld l0 (replicate N junk)
    = Some (Inr (int n, bindings ld 0 es @ replicate (N - length es) junk))"
  using read_cfg_lines [of es ld d "\<lparr>rd_slot = 0, rd_currentMin = 0, rd_devType = None, rd_l_numTasks = int n, rd_taskDevMap = replicate N junk\<rparr>" 0 0] assms
  by (auto simp: readTaskBinding_def file_lines_cfg [OF assms(1-3)] read_first_line [OF assms(1), simplified])

section \<open>The tasks a schedule creates\<close>

text \<open>The device of every task, in the order of the tasks.\<close>

definition task_devices :: "local_devices \<Rightarrow> binding list \<Rightarrow> nat list" where
  "task_devices ld es = concat (map (\<lambda>(k, i, c). replicate c (device_array ld k ! i)) es)"

lemma length_task_devices: "length (task_devices ld es) = total_tasks es"
  by (induction es) (auto simp: task_devices_def total_tasks_def)

lemma upto_int: "[int m..int (m + c) - 1] = map int [m..<m + c]"
  by (rule nth_equalityI) (auto simp: nth_upto)

lemma enumerate_replicate: "enumerate m (replicate c d) = map (\<lambda>j. (j, d)) [m..<m + c]"
  by (rule nth_equalityI) (auto simp: nth_enumerate_eq)

lemma match_bindings:
  "ofold (match_interval mem) (bindings ld m es) s
     = ofold (\<lambda>(j, d). match_task mem d (int j)) (enumerate m (task_devices ld es)) s"
proof (induction es arbitrary: m s)
  case (Cons e es)
  obtain k i c where e: "e = (k, i, c)" by (cases e)
  let ?d = "device_array ld k ! i"
  let ?f = "\<lambda>(j, d). match_task mem d (int j)"
  have dev: "task_devices ld (e # es) = replicate c ?d @ task_devices ld es"
    by (simp add: task_devices_def e)
  have "match_interval mem (hd (bindings ld m (e # es))) s = ofold ?f (enumerate m (replicate c ?d)) s"
  proof (cases "c = 0")
    case False
    then have "match_interval mem (hd (bindings ld m (e # es))) s = ofold (match_task mem ?d) (map int [m..<m + c]) s"
      by (simp add: match_interval_def e upto_int [symmetric])
    then show ?thesis by (simp only: enumerate_replicate ofold_map split_conv)
  qed (simp add: match_interval_def e)
  then show ?case
    using Cons.IH by (simp add: e dev [unfolded e] enumerate_append_eq ofold_append split: option.splits)
qed (simp add: task_devices_def)

lemma match_unused:
  "ofold (match_interval mem) (replicate n (junk\<lparr>dt_min_tskIdx := - 1\<rparr>)) s = Some s"
  by (induction n) (simp_all add: match_interval_def)

lemma count_take_Suc: "j < length xs \<Longrightarrow> count_list (take (Suc j) xs) d = count_list (take j xs) d + (if xs ! j = d then 1 else 0)"
  by (simp add: take_Suc_conv_app_nth)

definition racked_task :: "XCLtask \<Rightarrow> nat list \<Rightarrow> nat \<Rightarrow> XCLtask" where
  "racked_task t tds j = t\<lparr>tk_device := Some (tds ! j), tk_numTrays := 0, tk_Rack := int (count_list (take j tds) (tds ! j))\<rparr>"

definition racked_device :: "Device \<Rightarrow> nat \<Rightarrow> Device" where
  "racked_device dev c = (if c = 0 then dev else dev\<lparr>dv_memHandler := Some (replicate c None), dv_numRacks := int c\<rparr>)"

lemma racked_device_step:
  "dv_numRacks dev = 0 \<Longrightarrow> (racked_device dev c)\<lparr>dv_memHandler := Some (next_rack (racked_device dev c)),
      dv_numRacks := dv_numRacks (racked_device dev c) + 1\<rparr> = racked_device dev (Suc c)"
  by (cases dev) (auto simp: racked_device_def next_rack_def arealloc_def nat_add_distrib replicate_append_same)

lemma match_all:
  assumes "\<forall>d\<in>set tds. d < length devs" "\<forall>dev\<in>set devs. dv_numRacks dev = 0"
  shows "ofold (\<lambda>(j, d). match_task (\<lambda>_. True) d (int j)) (enumerate 0 tds) (replicate (length tds) t, devs)
    = Some (map (racked_task t tds) [0..<length tds],
            map (\<lambda>d. racked_device (devs ! d) (count_list tds d)) [0..<length devs])"
proof -
  let ?ts = "\<lambda>m. map (\<lambda>j. if j < m then racked_task t tds j else t) [0..<length tds]"
  let ?ds = "\<lambda>m. map (\<lambda>d. racked_device (devs ! d) (count_list (take m tds) d)) [0..<length devs]"
  have "\<exists>s. ofold (\<lambda>j. match_task (\<lambda>_. True) (tds ! j) (int j)) [0..<length tds] (replicate (length tds) t, devs) = Some s
      \<and> s = (?ts (length tds), ?ds (length tds))"
  proof (rule ofold_upt_inv [where P = "\<lambda>m s. s = (?ts m, ?ds m)"], goal_cases)
    case 1 show ?case by (auto simp: racked_device_def intro: nth_equalityI)
  next
    case (2 j s)
    let ?d = "tds ! j"
    from 2 assms have d: "?d < length devs" "dv_numRacks (devs ! ?d) = 0" by simp_all
    have "dv_numRacks (racked_device (devs ! ?d) c) = int c" for c
      using d(2) by (simp add: racked_device_def)
    then have "(?ts j)[j := (?ts j ! j)\<lparr>tk_device := Some ?d, tk_numTrays := 0, tk_Rack := dv_numRacks (?ds j ! ?d)\<rparr>] = ?ts (Suc j)"
      using 2(1) d(1) by (intro nth_equalityI) (auto simp: nth_list_update racked_task_def less_Suc_eq)
    moreover have "(?ds j)[?d := (?ds j ! ?d)\<lparr>dv_memHandler := Some (next_rack (?ds j ! ?d)), dv_numRacks := dv_numRacks (?ds j ! ?d) + 1\<rparr>]
        = ?ds (Suc j)"
      using 2(1) d racked_device_step [OF d(2)]
      by (intro nth_equalityI) (auto simp: nth_list_update count_take_Suc)
    ultimately show ?case using 2 d(1) by (simp add: match_task_eq)
  qed
  moreover have "enumerate 0 tds = map (\<lambda>j. (j, tds ! j)) [0..<length tds]"
    by (rule nth_equalityI) (auto simp: nth_enumerate_eq)
  moreover have "?ts (length tds) = map (racked_task t tds) [0..<length tds]" by simp
  ultimately show ?thesis by (simp add: ofold_map)
qed

lemma create_tasks_eq:
  assumes "\<forall>e\<in>set es. valid_binding ld (length devs) e" "int (total_tasks es) \<le> INT_MAX" "length es \<le> nat numDevices"
    and "\<forall>dev\<in>set devs. dv_numRacks dev = 0"
  shows "createTaskList (\<lambda>_. True) junkD junkT (Some (cfg_text (total_tasks es) es)) ld numDevices ALL_DEVICES l0 ts0 devs
    = Some (Inr (int (total_tasks es), map (racked_task (junkT\<lparr>tk_device := None, tk_trayInfo := None\<rparr>) (task_devices ld es)) [0..<total_tasks es],
        map (\<lambda>d. racked_device (devs ! d) (count_list (task_devices ld es) d)) [0..<length devs]))"
proof -
  let ?tds = "task_devices ld es" and ?t = "junkT\<lparr>tk_device := None, tk_trayInfo := None\<rparr>"
  have "\<forall>d\<in>set ?tds. d < length devs"
    using assms(1) by (auto simp: task_devices_def valid_binding_def)
  note all = match_all [OF this assms(4), of ?t]
  have "readTaskBinding (Some (cfg_text (total_tasks es) es)) ld l0 (replicate (nat numDevices) (junkD\<lparr>dt_min_tskIdx := - 1\<rparr>))
      = Some (Inr (int (total_tasks es), bindings ld 0 es @ replicate (nat numDevices - length es) (junkD\<lparr>dt_min_tskIdx := - 1\<rparr>)))"
    using read_cfg_text assms by blast
  then show ?thesis
    using all by (simp add: createTaskList_def ofold_append match_bindings match_unused length_task_devices)
qed

text \<open>C32: A schedule file in the format the parser expects, with one line per device
  entry, device ids inside the arrays and numbers of tasks that add up to \<^verbatim>\<open>l_numTasks\<close>, is read
  back: \<^verbatim>\<open>createTaskList\<close> with \<^verbatim>\<open>ALL_DEVICES\<close> creates \<^verbatim>\<open>l_numTasks\<close> tasks without
  leaving an array, each on the device its line names, with the number of earlier tasks on that
  device as its rack; every device has as many racks as tasks.\<close>

theorem schedule_file_roundtrip:
  assumes "\<forall>e\<in>set es. valid_binding ld (length devs) e" "int (total_tasks es) \<le> INT_MAX" "length es \<le> nat numDevices"
    and "\<forall>dev\<in>set devs. dv_numRacks dev = 0"
  shows "\<exists>ts devs'. createTaskList (\<lambda>_. True) junkD junkT (Some (cfg_text (total_tasks es) es)) ld numDevices ALL_DEVICES l0 ts0 devs
      = Some (Inr (int (total_tasks es), ts, devs'))
    \<and> map tk_device ts = map Some (task_devices ld es)
    \<and> (\<forall>j < length ts. tk_numTrays (ts ! j) = 0
         \<and> tk_Rack (ts ! j) = int (count_list (take j (task_devices ld es)) (task_devices ld es ! j)))
    \<and> map dv_numRacks devs' = map (\<lambda>d. int (count_list (task_devices ld es) d)) [0..<length devs]"
proof -
  let ?tds = "task_devices ld es" and ?t = "junkT\<lparr>tk_device := None, tk_trayInfo := None\<rparr>"
  have "map tk_device (map (racked_task ?t ?tds) [0..<total_tasks es]) = map Some ?tds"
    by (rule nth_equalityI) (auto simp: racked_task_def length_task_devices)
  moreover have "map dv_numRacks (map (\<lambda>d. racked_device (devs ! d) (count_list ?tds d)) [0..<length devs])
      = map (\<lambda>d. int (count_list ?tds d)) [0..<length devs]"
    using assms(4) by (auto simp: racked_device_def)
  ultimately show ?thesis using create_tasks_eq [OF assms] by (auto simp: racked_task_def)
qed

theorem schedule_file_roundtrip_witness:
  "\<exists>ts devs'. createTaskList (\<lambda>_. True) \<lparr>dt_mappedDevice = None, dt_min_tskIdx = 0, dt_max_tskIdx = 0\<rparr>
      \<lparr>tk_device = None, tk_numTrays = 7, tk_trayInfo = None, tk_Rack = 7\<rparr> (Some (cfg_text 4 [(CPU, 0, 2), (GPU, 0, 1), (CPU, 0, 1)]))
      sample_local 3 ALL_DEVICES 0 [] sample_devices = Some (Inr (4, ts, devs'))
    \<and> map tk_device ts = [Some 0, Some 0, Some 1, Some 0]"
proof -
  let ?es = "[(CPU, 0, 2), (GPU, 0, 1), (CPU, 0, 1)]"
  have "\<forall>e\<in>set ?es. valid_binding sample_local (length sample_devices) e"
    by (simp add: valid_binding_def sample_local_def sample_devices_def INT_MAX_def)
  moreover have "total_tasks ?es = 4" by simp
  moreover have "\<forall>dev\<in>set sample_devices. dv_numRacks dev = 0" by (simp add: sample_devices_def)
  moreover have "map Some (task_devices sample_local ?es) = [Some 0, Some 0, Some 1, Some 0]" by code_simp
  ultimately show ?thesis
    using schedule_file_roundtrip [of ?es sample_local sample_devices 3
      "\<lparr>dt_mappedDevice = None, dt_min_tskIdx = 0, dt_max_tskIdx = 0\<rparr>" "\<lparr>tk_device = None, tk_numTrays = 7, tk_trayInfo = None, tk_Rack = 7\<rparr>" 0 "[]"]
    by (auto simp: INT_MAX_def)
qed

text \<open>More tasks in the lines than \<^verbatim>\<open>l_numTasks\<close> says: after the warning the loop leaves the task list.\<close>

lemma schedule_overflow:
  "createTaskList (\<lambda>_. True) \<lparr>dt_mappedDevice = None, dt_min_tskIdx = 0, dt_max_tskIdx = 0\<rparr>
      \<lparr>tk_device = None, tk_numTrays = 7, tk_trayInfo = None, tk_Rack = 7\<rparr> (Some (''l_numTasks = 1'' @ newline # ''CPU 0 2''))
      sample_local 2 ALL_DEVICES 0 [] sample_devices = None"
  by code_simp

end
