(* ===== verification/XCL_Buffers.thy ===== *)
theory XCL_Buffers
  imports XCL_Task_Sched
begin

text \<open>
  The memory objects of the tasks
  (\<^verbatim>\<open>ompi/mpiext/XCLFrame/multiDeviceMgmt/deviceMgmt/memMgmt\<close>). A task owns one rack of its
  device; the cells of the rack, the trays, hold OpenCL memory objects. The operations allocate
  a tray, write and read it, copy between two trays of a device, and release it.

  OpenCL is not part of the repository. The five calls the code makes are a record of
  functions on a state \<open>'w\<close> that is passed along; \<open>opencl_spec\<close> states what the OpenCL
  specification says of them. \<^verbatim>\<open>chkerr\<close> ends the process with status 1 when a call fails.
\<close>

type_synonym byte = "8 word"

section \<open>OpenCL\<close>

text \<open>
  Creation takes a context and a size; writing a queue, an offset and the bytes; reading a
  queue, an offset and a size; copying a queue, the two offsets and a size. Every result starts
  with the status, 0 for success.
\<close>

record 'w opencl =
  clCreateBuffer :: "int \<Rightarrow> int \<Rightarrow> 'w \<Rightarrow> int \<times> cl_mem \<times> 'w"
  clEnqueueWriteBuffer :: "int \<Rightarrow> cl_mem \<Rightarrow> int \<Rightarrow> byte list \<Rightarrow> 'w \<Rightarrow> int \<times> 'w"
  clEnqueueReadBuffer :: "int \<Rightarrow> cl_mem \<Rightarrow> int \<Rightarrow> int \<Rightarrow> 'w \<Rightarrow> int \<times> byte list"
  clEnqueueCopyBuffer :: "int \<Rightarrow> cl_mem \<Rightarrow> cl_mem \<Rightarrow> int \<Rightarrow> int \<Rightarrow> int \<Rightarrow> 'w \<Rightarrow> int \<times> 'w"
  clReleaseMemObject :: "cl_mem \<Rightarrow> 'w \<Rightarrow> int \<times> 'w"

text \<open>The conversion of an \<^verbatim>\<open>int\<close> to \<^verbatim>\<open>size_t\<close>.\<close>

definition size_t :: "int \<Rightarrow> int" where
  "size_t n = n mod 2 ^ 64"

section \<open>The state of a process\<close>

text \<open>
  The global variables of the process: the task list, the devices, the sizes of
  \<^verbatim>\<open>bufferInit.c\<close>, the two variables of \<^verbatim>\<open>entityInfo.h\<close>; and the state of OpenCL.
\<close>

record 'w xcl_proc =
  px_taskList :: "XCLtask list"
  px_devices :: "Device list"
  px_tskbufferSize :: "int list"
  px_MPIentityTypeSize :: int
  px_ePerRank :: int
  px_cl :: 'w

definition chkerr :: "int \<Rightarrow> 'a \<Rightarrow> (int + 'a) option" where
  "chkerr status x = Some (if status \<noteq> 0 then Inl 1 else Inr x)"

text \<open>\<^verbatim>\<open>taskList[i].device[0]\<close> with its address, and the rack pointer of the task.\<close>

definition task_device :: "'w xcl_proc \<Rightarrow> int \<Rightarrow> (XCLtask \<times> nat \<times> Device) option" where
  "task_device p i = do {
     t \<leftarrow> aget (px_taskList p) i;
     d \<leftarrow> tk_device t;
     dev \<leftarrow> aget (px_devices p) (int d);
     Some (t, d, dev)
   }"

definition get_rack :: "'w xcl_proc \<Rightarrow> int \<Rightarrow> rack option" where
  "get_rack p i = do {
     (t, d, dev) \<leftarrow> task_device p i;
     racks \<leftarrow> dv_memHandler dev;
     aget racks (tk_Rack t)
   }"

definition set_rack :: "'w xcl_proc \<Rightarrow> int \<Rightarrow> rack \<Rightarrow> 'w xcl_proc option" where
  "set_rack p i r = do {
     (t, d, dev) \<leftarrow> task_device p i;
     racks \<leftarrow> dv_memHandler dev;
     racks \<leftarrow> aset racks (tk_Rack t) r;
     devs \<leftarrow> aset (px_devices p) (int d) (dev\<lparr>dv_memHandler := Some racks\<rparr>);
     Some (p\<lparr>px_devices := devs\<rparr>)
   }"

text \<open>\<^verbatim>\<open>device[0].memHandler[myRack][trayIdx]\<close>, read and written.\<close>

definition get_tray :: "'w xcl_proc \<Rightarrow> int \<Rightarrow> int \<Rightarrow> cl_mem option" where
  "get_tray p i tray = do {
     r \<leftarrow> get_rack p i;
     cells \<leftarrow> r;
     c \<leftarrow> aget cells tray;
     c
   }"

definition set_tray :: "'w xcl_proc \<Rightarrow> int \<Rightarrow> int \<Rightarrow> cl_mem \<Rightarrow> 'w xcl_proc option" where
  "set_tray p i tray m = do {
     r \<leftarrow> get_rack p i;
     cells \<leftarrow> r;
     cells \<leftarrow> aset cells tray (Some m);
     set_rack p i (Some cells)
   }"

definition set_task :: "'w xcl_proc \<Rightarrow> int \<Rightarrow> (XCLtask \<Rightarrow> XCLtask) \<Rightarrow> 'w xcl_proc option" where
  "set_task p i f = do {
     t \<leftarrow> aget (px_taskList p) i;
     ts \<leftarrow> aset (px_taskList p) i (f t);
     Some (p\<lparr>px_taskList := ts\<rparr>)
   }"

section \<open>One task\<close>

text \<open>
  \<^verbatim>\<open>mem[..][tray] = clCreateBuffer (context, .., size, .., &status)\<close>: the status and the new
  state.
\<close>

definition create_tray :: "'w opencl \<Rightarrow> 'w xcl_proc \<Rightarrow> int \<Rightarrow> int \<Rightarrow> int \<Rightarrow> (int \<times> 'w xcl_proc) option" where
  "create_tray cl p i tray sz = do {
     (t, d, dev) \<leftarrow> task_device p i;
     let (status, m, w) = clCreateBuffer cl (dv_context dev) (size_t sz) (px_cl p);
     p \<leftarrow> set_tray p i tray m;
     Some (status, p\<lparr>px_cl := w\<rparr>)
   }"

text \<open>
  The first allocation reserves \<^verbatim>\<open>trayIdx + 1 * sizeof(cl_mem)\<close> bytes, that is \<open>trayIdx + 8\<close>, and
  fills \<open>trayIdx + 1\<close> cells; \<^verbatim>\<open>malloc\<close> is not tested. A later one reserves \<open>trayIdx + 1\<close> cells,
  counts one tray more than before and writes the last two bytes of the new object. \<open>mem\<close> tells
  whether the allocation succeeds. The status returned is that of the last OpenCL call, or
  uninitialised when the tray exists already; no caller looks at it.
\<close>

definition initNewBuffer ::
  "'w opencl \<Rightarrow> bool \<Rightarrow> int \<Rightarrow> int \<Rightarrow> int \<Rightarrow> int \<Rightarrow> 'w xcl_proc \<Rightarrow> (int + 'w xcl_proc) option" where
  "initNewBuffer cl mem junk taskIdx trayIdx bufferSize p = do {
     t \<leftarrow> aget (px_taskList p) taskIdx;
     let memIdx = tk_numTrays t;
     trays \<leftarrow> int_add trayIdx 1;
     if memIdx = 0 then do {
       p \<leftarrow> set_task p taskIdx (\<lambda>t. t\<lparr>tk_trayInfo := (if mem then Some junk else None), tk_numTrays := trays\<rparr>);
       p \<leftarrow> set_rack p taskIdx
              (if mem \<and> 0 \<le> trayIdx + 8 then Some (replicate (nat ((trayIdx + 8) div 8)) None) else None);
       efold (\<lambda>j p. do {
         (status, p) \<leftarrow> create_tray cl p taskIdx (int j) bufferSize;
         chkerr status p
       }) [0..<nat trays] p
     }
     else if trays > memIdx then do {
       r \<leftarrow> get_rack p taskIdx;
       if \<not> mem then Some (Inl 1)
       else do {
         p \<leftarrow> set_rack p taskIdx (Some (arealloc None (case r of None \<Rightarrow> [] | Some cells \<Rightarrow> cells) trays));
         p \<leftarrow> set_task p taskIdx (\<lambda>t. t\<lparr>tk_numTrays := memIdx + 1\<rparr>);
         (status, p) \<leftarrow> create_tray cl p taskIdx trayIdx bufferSize;
         (t, d, dev) \<leftarrow> task_device p taskIdx;
         m \<leftarrow> get_tray p taskIdx trayIdx;
         let (status', w) = clEnqueueWriteBuffer cl (dv_queue dev) m (size_t (bufferSize - 2)) [97, 0] (px_cl p);
         chkerr (if status \<noteq> 0 then status else status') (p\<lparr>px_cl := w\<rparr>)
       }
     }
     else Some (Inr p)
   }"

text \<open>
  A host buffer is the list of its bytes; one that is shorter than the size passed violates the
  contract of the OpenCL call.
\<close>

definition writeBuffer ::
  "'w opencl \<Rightarrow> int \<Rightarrow> int \<Rightarrow> int \<Rightarrow> byte list \<Rightarrow> 'w xcl_proc \<Rightarrow> (int + 'w xcl_proc) option" where
  "writeBuffer cl taskId trayIdx bufferSize hostBuffer p = do {
     (t, d, dev) \<leftarrow> task_device p taskId;
     m \<leftarrow> get_tray p taskId trayIdx;
     if bufferSize < 0 \<or> int (length hostBuffer) < bufferSize then None
     else let (status, w) = clEnqueueWriteBuffer cl (dv_queue dev) m 0 (take (nat bufferSize) hostBuffer) (px_cl p)
          in chkerr status (p\<lparr>px_cl := w\<rparr>)
   }"

text \<open>The new content of the host buffer.\<close>

definition readBuffer ::
  "'w opencl \<Rightarrow> int \<Rightarrow> int \<Rightarrow> int \<Rightarrow> byte list \<Rightarrow> 'w xcl_proc \<Rightarrow> (int + byte list) option" where
  "readBuffer cl taskId trayIdx bufferSize hostBuffer p = do {
     (t, d, dev) \<leftarrow> task_device p taskId;
     m \<leftarrow> get_tray p taskId trayIdx;
     if bufferSize < 0 \<or> int (length hostBuffer) < bufferSize then None
     else let (status, data) = clEnqueueReadBuffer cl (dv_queue dev) m 0 (size_t bufferSize) (px_cl p)
          in chkerr status (take (nat bufferSize) data @ drop (nat bufferSize) hostBuffer)
   }"

definition intracpyBuffer ::
  "'w opencl \<Rightarrow> int \<Rightarrow> int \<Rightarrow> int \<Rightarrow> int \<Rightarrow> int \<Rightarrow> 'w xcl_proc \<Rightarrow> (int + 'w xcl_proc) option" where
  "intracpyBuffer cl src_taskId srcTrayIdx dst_taskId dstTrayIdx bufferSize p = do {
     (t, d, dev) \<leftarrow> task_device p src_taskId;
     src \<leftarrow> get_tray p src_taskId srcTrayIdx;
     dst \<leftarrow> get_tray p dst_taskId dstTrayIdx;
     let (status, w) = clEnqueueCopyBuffer cl (dv_queue dev) src dst 0 0 (size_t bufferSize) (px_cl p);
     chkerr status (p\<lparr>px_cl := w\<rparr>)
   }"

definition XclFreeTaskBuffer :: "'w opencl \<Rightarrow> int \<Rightarrow> int \<Rightarrow> 'w xcl_proc \<Rightarrow> (int + 'w xcl_proc) option" where
  "XclFreeTaskBuffer cl l_taskIdx trayIdx p = do {
     m \<leftarrow> get_tray p l_taskIdx trayIdx;
     let (status, w) = clReleaseMemObject cl m (px_cl p);
     chkerr status (p\<lparr>px_cl := w\<rparr>)
   }"

section \<open>What OpenCL promises\<close>

text \<open>
  \<open>bytes w m\<close> is the content of the memory object \<open>m\<close> in state \<open>w\<close>. A successful creation returns
  a new object of the size asked for; a successful write, read or copy is inside the object and
  moves the bytes; a successful release removes the object (its reference count is one). No
  other object changes.
\<close>

definition put_bytes :: "byte list \<Rightarrow> nat \<Rightarrow> byte list \<Rightarrow> byte list" where
  "put_bytes bs off data = take off bs @ data @ drop (off + length data) bs"

definition opencl_spec :: "'w opencl \<Rightarrow> ('w \<Rightarrow> cl_mem \<Rightarrow> byte list option) \<Rightarrow> bool" where
  "opencl_spec cl bytes \<longleftrightarrow>
     (\<forall>c n w m w'. clCreateBuffer cl c n w = (0, m, w') \<longrightarrow>
        bytes w m = None \<and> (\<exists>bs. int (length bs) = n \<and> bytes w' = (bytes w)(m \<mapsto> bs)))
   \<and> (\<forall>q m off data w w'. clEnqueueWriteBuffer cl q m off data w = (0, w') \<longrightarrow>
        (\<exists>bs. bytes w m = Some bs \<and> 0 \<le> off \<and> nat off + length data \<le> length bs
           \<and> bytes w' = (bytes w)(m \<mapsto> put_bytes bs (nat off) data)))
   \<and> (\<forall>q m off n w data. clEnqueueReadBuffer cl q m off n w = (0, data) \<longrightarrow>
        (\<exists>bs. bytes w m = Some bs \<and> 0 \<le> off \<and> 0 \<le> n \<and> nat off + nat n \<le> length bs
           \<and> data = take (nat n) (drop (nat off) bs)))
   \<and> (\<forall>q src dst so ds n w w'. clEnqueueCopyBuffer cl q src dst so ds n w = (0, w') \<longrightarrow>
        (\<exists>bs bd. bytes w src = Some bs \<and> bytes w dst = Some bd \<and> 0 \<le> so \<and> 0 \<le> ds \<and> 0 \<le> n
           \<and> nat so + nat n \<le> length bs \<and> nat ds + nat n \<le> length bd
           \<and> bytes w' = (bytes w)(dst \<mapsto> put_bytes bd (nat ds) (take (nat n) (drop (nat so) bs)))))
   \<and> (\<forall>m w w'. clReleaseMemObject cl m w = (0, w') \<longrightarrow> bytes w' = (bytes w)(m := None))"

text \<open>
  Calls with valid arguments succeed: the implementation has the resources. Without this
  hypothesis a call may fail and the process then exits.
\<close>

definition opencl_resources :: "'w opencl \<Rightarrow> ('w \<Rightarrow> cl_mem \<Rightarrow> byte list option) \<Rightarrow> bool" where
  "opencl_resources cl bytes \<longleftrightarrow>
     (\<forall>c n w. 0 < n \<longrightarrow> fst (clCreateBuffer cl c n w) = 0)
   \<and> (\<forall>q m off data w bs. bytes w m = Some bs \<longrightarrow> 0 \<le> off \<longrightarrow> data \<noteq> [] \<longrightarrow> nat off + length data \<le> length bs \<longrightarrow>
        fst (clEnqueueWriteBuffer cl q m off data w) = 0)
   \<and> (\<forall>q m off n w bs. bytes w m = Some bs \<longrightarrow> 0 \<le> off \<longrightarrow> 0 < n \<longrightarrow> nat off + nat n \<le> length bs \<longrightarrow>
        fst (clEnqueueReadBuffer cl q m off n w) = 0)
   \<and> (\<forall>q src dst so ds n w bs bd. bytes w src = Some bs \<longrightarrow> bytes w dst = Some bd \<longrightarrow> src \<noteq> dst \<longrightarrow> 0 \<le> so \<longrightarrow> 0 \<le> ds \<longrightarrow> 0 < n
        \<longrightarrow> nat so + nat n \<le> length bs \<longrightarrow> nat ds + nat n \<le> length bd
        \<longrightarrow> fst (clEnqueueCopyBuffer cl q src dst so ds n w) = 0)"

text \<open>An implementation: a handle is a position in the list of all objects ever created.\<close>

type_synonym cl_heap = "byte list option list"

definition heap_bytes :: "cl_heap \<Rightarrow> cl_mem \<Rightarrow> byte list option" where
  "heap_bytes h m = (if m < length h then h ! m else None)"

definition heap_range :: "cl_heap \<Rightarrow> cl_mem \<Rightarrow> int \<Rightarrow> int \<Rightarrow> bool" where
  "heap_range h m off n \<longleftrightarrow>
     (case heap_bytes h m of None \<Rightarrow> False | Some bs \<Rightarrow> 0 \<le> off \<and> 0 < n \<and> off + n \<le> int (length bs))"

definition heap_opencl :: "cl_heap opencl" where
  "heap_opencl = \<lparr>
     clCreateBuffer = (\<lambda>c n h. if 0 < n then (0, length h, h @ [Some (replicate (nat n) 0)]) else (- 61, 0, h)),
     clEnqueueWriteBuffer = (\<lambda>q m off data h. if heap_range h m off (int (length data))
        then (0, h[m := Some (put_bytes (the (h ! m)) (nat off) data)]) else (- 30, h)),
     clEnqueueReadBuffer = (\<lambda>q m off n h. if heap_range h m off n
        then (0, take (nat n) (drop (nat off) (the (h ! m)))) else (- 30, [])),
     clEnqueueCopyBuffer = (\<lambda>q src dst so ds n h. if src \<noteq> dst \<and> heap_range h src so n \<and> heap_range h dst ds n
        then (0, h[dst := Some (put_bytes (the (h ! dst)) (nat ds) (take (nat n) (drop (nat so) (the (h ! src)))))]) else (- 30, h)),
     clReleaseMemObject = (\<lambda>m h. if heap_bytes h m = None then (- 38, h) else (0, h[m := None]))\<rparr>"

lemma heap_bytes_update: "m < length h \<Longrightarrow> heap_bytes (h[m := x]) = (heap_bytes h)(m := x)"
  by (auto simp: heap_bytes_def fun_eq_iff nth_list_update)

lemma heap_bytes_append: "heap_bytes (h @ [x]) = (heap_bytes h)(length h := x)"
  by (auto simp: heap_bytes_def fun_eq_iff nth_append)

lemma heap_rangeD:
  "heap_range h m off n \<Longrightarrow> m < length h \<and> heap_bytes h m = Some (the (h ! m)) \<and> 0 \<le> off \<and> 0 < n
     \<and> nat off + nat n \<le> length (the (h ! m))"
  by (auto simp: heap_range_def heap_bytes_def split: option.splits if_splits)

lemma heap_opencl_spec: "opencl_spec heap_opencl heap_bytes"
  unfolding opencl_spec_def heap_opencl_def
  by (auto simp: heap_bytes_update heap_bytes_append split: if_splits dest!: heap_rangeD)
    (auto simp: heap_bytes_def heap_bytes_update fun_eq_iff split: if_splits)

lemma heap_opencl_resources: "opencl_resources heap_opencl heap_bytes"
  by (auto simp: opencl_resources_def heap_opencl_def heap_range_def split: if_splits option.splits)

text \<open>The clauses one by one.\<close>

lemma opencl_specD:
  assumes "opencl_spec cl bytes"
  shows "clCreateBuffer cl c n w = (0, m, w') \<Longrightarrow> bytes w m = None"
    and "clCreateBuffer cl c n w = (0, m, w') \<Longrightarrow> \<exists>bs. int (length bs) = n \<and> bytes w' = (bytes w)(m \<mapsto> bs)"
    and "clEnqueueWriteBuffer cl q m off data w = (0, w') \<Longrightarrow>
      \<exists>bs. bytes w m = Some bs \<and> 0 \<le> off \<and> nat off + length data \<le> length bs \<and> bytes w' = (bytes w)(m \<mapsto> put_bytes bs (nat off) data)"
    and "clEnqueueReadBuffer cl q m off k w = (0, data) \<Longrightarrow>
      \<exists>bs. bytes w m = Some bs \<and> 0 \<le> off \<and> 0 \<le> k \<and> nat off + nat k \<le> length bs \<and> data = take (nat k) (drop (nat off) bs)"
    and "clEnqueueCopyBuffer cl q src dst so ds k w = (0, w') \<Longrightarrow>
      \<exists>bs bd. bytes w src = Some bs \<and> bytes w dst = Some bd \<and> 0 \<le> so \<and> 0 \<le> ds \<and> 0 \<le> k
           \<and> nat so + nat k \<le> length bs \<and> nat ds + nat k \<le> length bd
           \<and> bytes w' = (bytes w)(dst \<mapsto> put_bytes bd (nat ds) (take (nat k) (drop (nat so) bs)))"
proof -
  note a = assms [unfolded opencl_spec_def]
  note a2 = a [THEN conjunct2] note a3 = a2 [THEN conjunct2] note a4 = a3 [THEN conjunct2]
  show "clCreateBuffer cl c n w = (0, m, w') \<Longrightarrow> bytes w m = None"
    "clCreateBuffer cl c n w = (0, m, w') \<Longrightarrow> \<exists>bs. int (length bs) = n \<and> bytes w' = (bytes w)(m \<mapsto> bs)"
    using a [THEN conjunct1] by blast+
  show "clEnqueueWriteBuffer cl q m off data w = (0, w') \<Longrightarrow>
      \<exists>bs. bytes w m = Some bs \<and> 0 \<le> off \<and> nat off + length data \<le> length bs \<and> bytes w' = (bytes w)(m \<mapsto> put_bytes bs (nat off) data)"
    using a2 [THEN conjunct1] by simp
  show "clEnqueueReadBuffer cl q m off k w = (0, data) \<Longrightarrow>
      \<exists>bs. bytes w m = Some bs \<and> 0 \<le> off \<and> 0 \<le> k \<and> nat off + nat k \<le> length bs \<and> data = take (nat k) (drop (nat off) bs)"
    using a3 [THEN conjunct1] by simp
  show "clEnqueueCopyBuffer cl q src dst so ds k w = (0, w') \<Longrightarrow>
      \<exists>bs bd. bytes w src = Some bs \<and> bytes w dst = Some bd \<and> 0 \<le> so \<and> 0 \<le> ds \<and> 0 \<le> k
           \<and> nat so + nat k \<le> length bs \<and> nat ds + nat k \<le> length bd
           \<and> bytes w' = (bytes w)(dst \<mapsto> put_bytes bd (nat ds) (take (nat k) (drop (nat so) bs)))"
    using a4 [THEN conjunct1] by simp
qed

lemma opencl_resourcesD:
  assumes "opencl_resources cl bytes"
  shows "clCreateBuffer cl c n w = (s, m, w') \<Longrightarrow> 0 < n \<Longrightarrow> s = 0"
    and "clEnqueueWriteBuffer cl q m off data w = (s, w') \<Longrightarrow> bytes w m = Some bs \<Longrightarrow> 0 \<le> off \<Longrightarrow> data \<noteq> [] \<Longrightarrow>
      nat off + length data \<le> length bs \<Longrightarrow> s = 0"
    and "clEnqueueReadBuffer cl q m off k w = (s, data) \<Longrightarrow> bytes w m = Some bs \<Longrightarrow> 0 \<le> off \<Longrightarrow> 0 < k \<Longrightarrow>
      nat off + nat k \<le> length bs \<Longrightarrow> s = 0"
    and "clEnqueueCopyBuffer cl q src dst so ds k w = (s, w') \<Longrightarrow> bytes w src = Some bs \<Longrightarrow> bytes w dst = Some bd \<Longrightarrow> src \<noteq> dst
      \<Longrightarrow> 0 \<le> so \<Longrightarrow> 0 \<le> ds \<Longrightarrow> 0 < k \<Longrightarrow> nat so + nat k \<le> length bs \<Longrightarrow> nat ds + nat k \<le> length bd \<Longrightarrow> s = 0"
  using assms unfolding opencl_resources_def by (metis fst_conv)+

section \<open>Racks of the tasks\<close>

text \<open>Every task has a rack on its device, and no two tasks have the same one (\<open>create_task_list_racks\<close>).\<close>

definition rack_place :: "'w xcl_proc \<Rightarrow> nat \<Rightarrow> nat option \<times> int" where
  "rack_place p i = (tk_device (px_taskList p ! i), tk_Rack (px_taskList p ! i))"

definition locs_ok :: "'w xcl_proc \<Rightarrow> bool" where
  "locs_ok p \<longleftrightarrow>
     (\<forall>i < length (px_taskList p). \<exists>d racks. tk_device (px_taskList p ! i) = Some d \<and> d < length (px_devices p)
        \<and> dv_memHandler (px_devices p ! d) = Some racks
        \<and> 0 \<le> tk_Rack (px_taskList p ! i) \<and> tk_Rack (px_taskList p ! i) < int (length racks))
   \<and> inj_on (rack_place p) {..<length (px_taskList p)}"

lemma locs_okE:
  assumes "locs_ok p" "i < length (px_taskList p)"
  obtains d racks where "tk_device (px_taskList p ! i) = Some d" "d < length (px_devices p)"
    "dv_memHandler (px_devices p ! d) = Some racks"
    "0 \<le> tk_Rack (px_taskList p ! i)" "tk_Rack (px_taskList p ! i) < int (length racks)"
    "task_device p (int i) = Some (px_taskList p ! i, d, px_devices p ! d)"
    "get_rack p (int i) = Some (racks ! nat (tk_Rack (px_taskList p ! i)))"
proof -
  from assms obtain d racks where d: "tk_device (px_taskList p ! i) = Some d" "d < length (px_devices p)"
    "dv_memHandler (px_devices p ! d) = Some racks"
    "0 \<le> tk_Rack (px_taskList p ! i)" "tk_Rack (px_taskList p ! i) < int (length racks)"
    unfolding locs_ok_def by blast
  have td: "task_device p (int i) = Some (px_taskList p ! i, d, px_devices p ! d)"
    using d assms(2) by (simp add: task_device_def)
  have "get_rack p (int i) = Some (racks ! nat (tk_Rack (px_taskList p ! i)))"
    using d by (simp add: get_rack_def td aget_Some)
  with d td show ?thesis by (rule that)
qed

lemma set_rack_eq:
  assumes "locs_ok p" "i < length (px_taskList p)"
  obtains p' where "set_rack p (int i) r = Some p'" "locs_ok p'" "px_taskList p' = px_taskList p"
    "px_cl p' = px_cl p" "px_tskbufferSize p' = px_tskbufferSize p" "get_rack p' (int i) = Some r"
    "\<And>j. j < length (px_taskList p) \<Longrightarrow> j \<noteq> i \<Longrightarrow> get_rack p' (int j) = get_rack p (int j)"
proof -
  let ?t = "px_taskList p ! i"
  obtain d racks where i: "tk_device ?t = Some d" "d < length (px_devices p)"
    "dv_memHandler (px_devices p ! d) = Some racks" "0 \<le> tk_Rack ?t" "tk_Rack ?t < int (length racks)"
    "task_device p (int i) = Some (?t, d, px_devices p ! d)"
    using locs_okE [OF assms] by blast
  define p' where "p' = p\<lparr>px_devices := (px_devices p)[d := (px_devices p ! d)\<lparr>dv_memHandler := Some (racks[nat (tk_Rack ?t) := r])\<rparr>]\<rparr>"
  have set: "set_rack p (int i) r = Some p'"
    using i by (simp add: set_rack_def aset_def p'_def)
  have "rack_place p' = rack_place p" by (simp add: rack_place_def p'_def fun_eq_iff)
  moreover have "\<exists>e rs. tk_device (px_taskList p' ! j) = Some e \<and> e < length (px_devices p')
        \<and> dv_memHandler (px_devices p' ! e) = Some rs
        \<and> 0 \<le> tk_Rack (px_taskList p' ! j) \<and> tk_Rack (px_taskList p' ! j) < int (length rs)"
    if j: "j < length (px_taskList p)" for j
  proof -
    obtain e rs where "tk_device (px_taskList p ! j) = Some e" "e < length (px_devices p)"
      "dv_memHandler (px_devices p ! e) = Some rs" "0 \<le> tk_Rack (px_taskList p ! j)" "tk_Rack (px_taskList p ! j) < int (length rs)"
      using locs_okE [OF assms(1) j] by blast
    then show ?thesis
      using i(2,3) by (intro exI [of _ e] exI [of _ "if e = d then racks[nat (tk_Rack ?t) := r] else rs"]) (auto simp: p'_def)
  qed
  ultimately have ok: "locs_ok p'" using assms(1) by (auto simp: locs_ok_def p'_def)
  have own: "get_rack p' (int i) = Some r"
    using i assms(2) by (simp add: get_rack_def task_device_def p'_def aget_def)
  have others: "get_rack p' (int j) = get_rack p (int j)" if j: "j < length (px_taskList p)" "j \<noteq> i" for j
  proof -
    obtain e rs where e: "tk_device (px_taskList p ! j) = Some e" "e < length (px_devices p)"
      "dv_memHandler (px_devices p ! e) = Some rs" "0 \<le> tk_Rack (px_taskList p ! j)" "tk_Rack (px_taskList p ! j) < int (length rs)"
      "get_rack p (int j) = Some (rs ! nat (tk_Rack (px_taskList p ! j)))"
      using locs_okE [OF assms(1) j(1)] by blast
    have "rack_place p j \<noteq> rack_place p i"
      using assms j by (auto simp: locs_ok_def inj_on_def)
    then have "e = d \<Longrightarrow> nat (tk_Rack (px_taskList p ! j)) \<noteq> nat (tk_Rack ?t)"
      using e(1,4) i(1,4) by (auto simp: rack_place_def)
    then show ?thesis
      using e i(2,3) j by (auto simp: get_rack_def task_device_def p'_def aget_def nth_list_update)
  qed
  show ?thesis by (rule that [OF set ok _ _ _ own others]) (simp_all add: p'_def)
qed

lemma set_task_eq:
  assumes "i < length (px_taskList p)"
    and "tk_device (f (px_taskList p ! i)) = tk_device (px_taskList p ! i)" "tk_Rack (f (px_taskList p ! i)) = tk_Rack (px_taskList p ! i)"
  shows "set_task p (int i) f = Some (p\<lparr>px_taskList := (px_taskList p)[i := f (px_taskList p ! i)]\<rparr>)"
    and "locs_ok p \<Longrightarrow> locs_ok (p\<lparr>px_taskList := (px_taskList p)[i := f (px_taskList p ! i)]\<rparr>)"
    and "j < length (px_taskList p) \<Longrightarrow>
      get_rack (p\<lparr>px_taskList := (px_taskList p)[i := f (px_taskList p ! i)]\<rparr>) (int j) = get_rack p (int j)"
proof -
  let ?p = "p\<lparr>px_taskList := (px_taskList p)[i := f (px_taskList p ! i)]\<rparr>"
  show "set_task p (int i) f = Some ?p" using assms(1) by (simp add: set_task_def)
  have same: "tk_device (px_taskList ?p ! j) = tk_device (px_taskList p ! j)" "tk_Rack (px_taskList ?p ! j) = tk_Rack (px_taskList p ! j)" for j
    using assms by (auto simp: nth_list_update)
  then have "rack_place ?p = rack_place p" by (simp add: rack_place_def fun_eq_iff)
  then show "locs_ok p \<Longrightarrow> locs_ok ?p" using same by (simp add: locs_ok_def)
  show "j < length (px_taskList p) \<Longrightarrow> get_rack ?p (int j) = get_rack p (int j)"
    using same [of j] by (simp add: get_rack_def task_device_def)
qed

lemma px_cl_simps [simp]:
  "locs_ok (p\<lparr>px_cl := w\<rparr>) = locs_ok p" "get_rack (p\<lparr>px_cl := w\<rparr>) i = get_rack p i"
  "get_tray (p\<lparr>px_cl := w\<rparr>) i t = get_tray p i t" "task_device (p\<lparr>px_cl := w\<rparr>) i = task_device p i"
proof -
  show td: "task_device (p\<lparr>px_cl := w\<rparr>) i = task_device p i" for i by (simp add: task_device_def)
  show gr: "get_rack (p\<lparr>px_cl := w\<rparr>) i = get_rack p i" for i by (simp add: get_rack_def td)
  show "get_tray (p\<lparr>px_cl := w\<rparr>) i t = get_tray p i t" by (simp add: get_tray_def gr)
  have "rack_place (p\<lparr>px_cl := w\<rparr>) = rack_place p" by (simp add: rack_place_def fun_eq_iff)
  then show "locs_ok (p\<lparr>px_cl := w\<rparr>) = locs_ok p" by (simp add: locs_ok_def)
qed

section \<open>The trays of the tasks\<close>

text \<open>
  \<open>trays_rel bytes p T\<close>: task \<open>i\<close> of the process \<open>p\<close> has the trays \<open>T i\<close>, a list of memory
  objects that exist in OpenCL, and all these objects are different.
\<close>

definition trays_rel :: "('w \<Rightarrow> cl_mem \<Rightarrow> byte list option) \<Rightarrow> 'w xcl_proc \<Rightarrow> (nat \<Rightarrow> cl_mem list) \<Rightarrow> bool" where
  "trays_rel bytes p T \<longleftrightarrow> locs_ok p
   \<and> (\<forall>i < length (px_taskList p). tk_numTrays (px_taskList p ! i) = int (length (T i))
        \<and> (T i \<noteq> [] \<longrightarrow> get_rack p (int i) = Some (Some (map Some (T i))))
        \<and> distinct (T i) \<and> (\<forall>m\<in>set (T i). bytes (px_cl p) m \<noteq> None)
        \<and> (\<forall>j < length (px_taskList p). i \<noteq> j \<longrightarrow> set (T i) \<inter> set (T j) = {}))"

lemma trays_relD:
  assumes "trays_rel bytes p T" "i < length (px_taskList p)"
  shows "locs_ok p" "tk_numTrays (px_taskList p ! i) = int (length (T i))"
    "T i \<noteq> [] \<Longrightarrow> get_rack p (int i) = Some (Some (map Some (T i)))"
    "distinct (T i)" "m \<in> set (T i) \<Longrightarrow> \<exists>bs. bytes (px_cl p) m = Some bs"
    "j < length (px_taskList p) \<Longrightarrow> i \<noteq> j \<Longrightarrow> set (T i) \<inter> set (T j) = {}"
  using assms by (auto simp: trays_rel_def)

lemma get_tray_rel:
  assumes "trays_rel bytes p T" "i < length (px_taskList p)" "t < length (T i)"
  shows "get_tray p (int i) (int t) = Some (T i ! t)"
  using trays_relD(3) [OF assms(1,2)] assms(3) by (cases "T i = []") (simp_all add: get_tray_def)

lemma trays_distinct:
  assumes rel: "trays_rel bytes p T" "i < length (px_taskList p)" "j < length (px_taskList p)"
    and "t < length (T i)" "u < length (T j)" "(j, u) \<noteq> (i, t)"
  shows "T j ! u \<noteq> T i ! t"
proof (cases "j = i")
  case True
  then show ?thesis using trays_relD(4) [OF rel(1,2)] assms(4-) by (auto simp: nth_eq_iff_index_eq)
next
  case False
  then have "set (T i) \<inter> set (T j) = {}" using trays_relD(6) [OF rel] by auto
  then show ?thesis using nth_mem [OF assms(4)] nth_mem [OF assms(5)] by auto
qed

text \<open>Changing the content of an existing object keeps the relation.\<close>

lemma trays_rel_cl:
  assumes "trays_rel bytes p T" "bytes w = (bytes (px_cl p))(m \<mapsto> bs)"
  shows "trays_rel bytes (p\<lparr>px_cl := w\<rparr>) T"
  using assms by (auto simp: trays_rel_def)

lemma task_device_rel:
  assumes "trays_rel bytes p T" "i < length (px_taskList p)"
  obtains d dev where "task_device p (int i) = Some (px_taskList p ! i, d, dev)"
  using locs_okE [OF trays_relD(1) [OF assms] assms(2)] by blast

lemma create_tray_eq:
  assumes "locs_ok p" "i < length (px_taskList p)" "get_rack p (int i) = Some (Some cells)" "t < length cells"
  shows "\<exists>c s m w p'. clCreateBuffer cl c (size_t sz) (px_cl p) = (s, m, w)
    \<and> create_tray cl p (int i) (int t) sz = Some (s, p'\<lparr>px_cl := w\<rparr>)
    \<and> locs_ok p' \<and> px_taskList p' = px_taskList p \<and> px_tskbufferSize p' = px_tskbufferSize p
    \<and> get_rack p' (int i) = Some (Some (cells[t := Some m]))
    \<and> (\<forall>j < length (px_taskList p). j \<noteq> i \<longrightarrow> get_rack p' (int j) = get_rack p (int j))"
proof -
  obtain d dev where td: "task_device p (int i) = Some (px_taskList p ! i, d, dev)"
    using locs_okE [OF assms(1,2)] by blast
  obtain s m w where c: "clCreateBuffer cl (dv_context dev) (size_t sz) (px_cl p) = (s, m, w)"
    by (cases "clCreateBuffer cl (dv_context dev) (size_t sz) (px_cl p)")
  obtain p' where p': "set_rack p (int i) (Some (cells[t := Some m])) = Some p'" "locs_ok p'" "px_taskList p' = px_taskList p"
    "px_tskbufferSize p' = px_tskbufferSize p" "get_rack p' (int i) = Some (Some (cells[t := Some m]))"
    "\<And>j. j < length (px_taskList p) \<Longrightarrow> j \<noteq> i \<Longrightarrow> get_rack p' (int j) = get_rack p (int j)"
    using set_rack_eq [OF assms(1,2)] by metis
  have "create_tray cl p (int i) (int t) sz = Some (s, p'\<lparr>px_cl := w\<rparr>)"
    using assms(3,4) p'(1) by (simp add: create_tray_def td c set_tray_def)
  with c p'(2-) show ?thesis by blast
qed

lemma trays_rel_grow:
  assumes rel: "trays_rel bytes p T" "i < length (px_taskList p)"
    and p': "locs_ok p'" "px_taskList p' = (px_taskList p)[i := t']" "tk_numTrays t' = int (length (T i)) + 1"
    and rack: "get_rack p' (int i) = Some (Some (map Some (T i @ [m])))"
      "\<And>j. j < length (px_taskList p) \<Longrightarrow> j \<noteq> i \<Longrightarrow> get_rack p' (int j) = get_rack p (int j)"
    and m: "bytes (px_cl p) m = None" "bytes (px_cl p') = (bytes (px_cl p))(m \<mapsto> bs)"
  shows "trays_rel bytes p' (T(i := T i @ [m]))"
proof -
  have fresh: "m \<notin> set (T j)" if "j < length (px_taskList p)" for j
    using trays_relD(5) [OF rel(1) that, of m] m(1) by auto
  show ?thesis
    unfolding trays_rel_def p'(2) length_list_update
  proof (intro conjI allI impI ballI, goal_cases)
    case 1 show ?case by (rule p'(1))
  next
    case (2 k) then show ?case using rel p'(3) by (auto simp: nth_list_update dest: trays_relD(2))
  next
    case (3 k) then show ?case using rack trays_relD(3) [OF rel(1), of k] by (cases "k = i") auto
  next
    case (4 k) then show ?case using fresh trays_relD(4) [OF rel(1), of k] by auto
  next
    case (5 k a) then show ?case using m(2) trays_relD(5) [OF rel(1), of k a] by (auto split: if_splits)
  next
    case (6 k j) then show ?case
      using fresh [of k] fresh [of j] trays_relD(6) [OF rel(1), of k j] by (auto split: if_splits)
  qed
qed

lemma size_t_id: "0 \<le> n \<Longrightarrow> n \<le> INT_MAX \<Longrightarrow> size_t n = n"
  by (simp add: size_t_def INT_MAX_def)

text \<open>A tray that exists is left alone; the next tray in order is allocated and appended.\<close>

lemma initNewBuffer_old:
  assumes "trays_rel bytes p T" "i < length (px_taskList p)" "t < length (T i)" "int (length (T i)) \<le> INT_MAX"
  shows "initNewBuffer cl mem junk (int i) (int t) sz p = Some (Inr p)"
  using trays_relD(2) [OF assms(1,2)] assms(2-) by (auto simp: initNewBuffer_def Let_def int_add_def)

lemma initNewBuffer_first:
  assumes spec: "opencl_spec cl bytes" and rel: "trays_rel bytes p T" "i < length (px_taskList p)" and e: "T i = []"
    and sz: "0 \<le> sz" "sz \<le> INT_MAX"
  shows "(initNewBuffer cl True junk (int i) 0 sz p = Some (Inl 1) \<and> \<not> (opencl_resources cl bytes \<and> 0 < sz))
    \<or> (\<exists>p' m bs. initNewBuffer cl True junk (int i) 0 sz p = Some (Inr p') \<and> trays_rel bytes p' (T(i := [m]))
        \<and> length (px_taskList p') = length (px_taskList p)
        \<and> bytes (px_cl p) m = None \<and> bytes (px_cl p') = (bytes (px_cl p))(m \<mapsto> bs) \<and> int (length bs) = sz)"
proof -
  let ?t = "\<lambda>t. t\<lparr>tk_trayInfo := Some junk, tk_numTrays := 1\<rparr>"
  define p1 where "p1 = p\<lparr>px_taskList := (px_taskList p)[i := ?t (px_taskList p ! i)]\<rparr>"
  have p1: "set_task p (int i) ?t = Some p1" "locs_ok p1" "j < length (px_taskList p) \<Longrightarrow> get_rack p1 (int j) = get_rack p (int j)" for j
    unfolding p1_def using set_task_eq [of i p ?t] trays_relD(1) [OF rel] rel(2) by simp_all
  have l1: "i < length (px_taskList p1)" using rel(2) by (simp add: p1_def)
  obtain p2 where p2: "set_rack p1 (int i) (Some [None]) = Some p2" "locs_ok p2" "px_taskList p2 = px_taskList p1" "px_cl p2 = px_cl p1"
    "get_rack p2 (int i) = Some (Some [None])"
    "\<And>j. j < length (px_taskList p1) \<Longrightarrow> j \<noteq> i \<Longrightarrow> get_rack p2 (int j) = get_rack p1 (int j)"
    using set_rack_eq [OF p1(2) l1, of "Some [None]"] by metis
  have l2: "i < length (px_taskList p2)" using l1 p2(3) by simp
  obtain c s m w p3 where c: "clCreateBuffer cl c (size_t sz) (px_cl p2) = (s, m, w)"
    and cr: "create_tray cl p2 (int i) 0 sz = Some (s, p3\<lparr>px_cl := w\<rparr>)"
    and p3: "locs_ok p3" "px_taskList p3 = px_taskList p2" "get_rack p3 (int i) = Some (Some [Some m])"
      "\<forall>j < length (px_taskList p2). j \<noteq> i \<longrightarrow> get_rack p3 (int j) = get_rack p2 (int j)"
    using create_tray_eq [OF p2(2) l2 p2(5), of 0 cl sz] by auto
  have run: "initNewBuffer cl True junk (int i) 0 sz p = chkerr s (p3\<lparr>px_cl := w\<rparr>)"
    using trays_relD(2) [OF rel] rel(2) e p1(1) p2(1) cr
    by (simp add: initNewBuffer_def Let_def int_add_def INT_MAX_def chkerr_def)
  have cl: "px_cl p2 = px_cl p" using p2(4) by (simp add: p1_def)
  show ?thesis
  proof (cases "s = 0")
    case True
    then obtain bs where m: "bytes (px_cl p) m = None" "int (length bs) = sz" "bytes w = (bytes (px_cl p))(m \<mapsto> bs)"
      using opencl_specD(1,2) [OF spec c [unfolded True]] sz unfolding cl by (auto simp: size_t_id)
    have "trays_rel bytes (p3\<lparr>px_cl := w\<rparr>) (T(i := T i @ [m]))"
      by (rule trays_rel_grow [OF rel, where t' = "?t (px_taskList p ! i)" and bs = bs])
        (use e p1(3) p2(3,6) p3 m in \<open>auto simp: p1_def\<close>)
    with True run m e show ?thesis using p3(2) p2(3) by (auto simp: chkerr_def p1_def)
  next
    case False
    then have "\<not> (opencl_resources cl bytes \<and> 0 < sz)"
      using opencl_resourcesD(1) [OF _ c, of bytes] sz by (cases "0 < sz") (auto simp: size_t_id)
    with False run show ?thesis by (simp add: chkerr_def)
  qed
qed

lemma initNewBuffer_next:
  assumes spec: "opencl_spec cl bytes" and rel: "trays_rel bytes p T" "i < length (px_taskList p)" and ne: "T i \<noteq> []"
    and sz: "2 \<le> sz" "sz \<le> INT_MAX" "int (length (T i)) < INT_MAX"
  shows "(initNewBuffer cl True junk (int i) (int (length (T i))) sz p = Some (Inl 1) \<and> \<not> opencl_resources cl bytes)
    \<or> (\<exists>p' m bs. initNewBuffer cl True junk (int i) (int (length (T i))) sz p = Some (Inr p')
        \<and> trays_rel bytes p' (T(i := T i @ [m])) \<and> length (px_taskList p') = length (px_taskList p)
        \<and> bytes (px_cl p) m = None \<and> bytes (px_cl p') = (bytes (px_cl p))(m \<mapsto> bs) \<and> int (length bs) = sz)"
proof -
  let ?n = "length (T i)" and ?t = "\<lambda>t. t\<lparr>tk_numTrays := int (length (T i)) + 1\<rparr>"
  have ok: "locs_ok p" and num: "tk_numTrays (px_taskList p ! i) = int ?n"
    and rack: "get_rack p (int i) = Some (Some (map Some (T i)))"
    using trays_relD [OF rel] ne by simp_all
  let ?cells = "arealloc None (map Some (T i)) (int ?n + 1)"
  have cells: "?cells[?n := Some m] = map Some (T i @ [m])" for m
    by (simp add: arealloc_def nat_add_distrib list_update_append)
  obtain p1 where p1: "set_rack p (int i) (Some ?cells) = Some p1" "locs_ok p1" "px_taskList p1 = px_taskList p" "px_cl p1 = px_cl p"
    "get_rack p1 (int i) = Some (Some ?cells)"
    "\<And>j. j < length (px_taskList p) \<Longrightarrow> j \<noteq> i \<Longrightarrow> get_rack p1 (int j) = get_rack p (int j)"
    using set_rack_eq [OF ok rel(2), of "Some ?cells"] by metis
  define p2 where "p2 = p1\<lparr>px_taskList := (px_taskList p1)[i := ?t (px_taskList p1 ! i)]\<rparr>"
  have p2: "set_task p1 (int i) ?t = Some p2" "locs_ok p2" "j < length (px_taskList p1) \<Longrightarrow> get_rack p2 (int j) = get_rack p1 (int j)" for j
    unfolding p2_def using set_task_eq [of i p1 ?t] p1(2,3) rel(2) by simp_all
  have l2: "i < length (px_taskList p2)" "get_rack p2 (int i) = Some (Some ?cells)"
    using rel(2) p1(3,5) p2(3) [of i] by (simp_all add: p2_def)
  obtain c s m w p3 where c: "clCreateBuffer cl c (size_t sz) (px_cl p2) = (s, m, w)"
    and cr: "create_tray cl p2 (int i) (int ?n) sz = Some (s, p3\<lparr>px_cl := w\<rparr>)"
    and p3: "locs_ok p3" "px_taskList p3 = px_taskList p2" "get_rack p3 (int i) = Some (Some (map Some (T i @ [m])))"
      "\<forall>j < length (px_taskList p2). j \<noteq> i \<longrightarrow> get_rack p3 (int j) = get_rack p2 (int j)"
    using create_tray_eq [OF p2(2) l2, of ?n cl sz] unfolding cells by (auto simp: nat_add_distrib)
  obtain d dev where td: "task_device p3 (int i) = Some (px_taskList p3 ! i, d, dev)"
    using locs_okE [OF p3(1)] l2(1) p3(2) by metis
  have gt: "get_tray p3 (int i) (int ?n) = Some m"
    using p3(3) by (simp add: get_tray_def aget_def nth_append)
  obtain s' w' where wr: "clEnqueueWriteBuffer cl (dv_queue dev) m (size_t (sz - 2)) [97, 0] w = (s', w')"
    by (cases "clEnqueueWriteBuffer cl (dv_queue dev) m (size_t (sz - 2)) [97, 0] w")
  have run: "initNewBuffer cl True junk (int i) (int ?n) sz p = chkerr (if s \<noteq> 0 then s else s') (p3\<lparr>px_cl := w'\<rparr>)"
    using num rel(2) rack ne sz(3) p1(1) p2(1) cr td gt wr
    by (simp add: initNewBuffer_def Let_def int_add_def add.commute)
  have cl: "px_cl p2 = px_cl p" using p1(4) by (simp add: p2_def)
  show ?thesis
  proof (cases "s = 0 \<and> s' = 0")
    case True
    then obtain bs where m: "bytes (px_cl p) m = None" "int (length bs) = sz" "bytes w = (bytes (px_cl p))(m \<mapsto> bs)"
      using opencl_specD(1,2) [OF spec, of c "size_t sz" "px_cl p2" m w] c sz unfolding cl by (auto simp: size_t_id)
    with True obtain bs' where bs': "bytes w' = (bytes w)(m \<mapsto> bs')" "length bs' = length bs"
      using opencl_specD(3) [OF spec, of "dv_queue dev" m "size_t (sz - 2)" "[97, 0]" w w'] wr by (auto simp: put_bytes_def)
    have "trays_rel bytes (p3\<lparr>px_cl := w'\<rparr>) (T(i := T i @ [m]))"
      by (rule trays_rel_grow [OF rel, where t' = "?t (px_taskList p ! i)" and bs = bs'])
        (use p1(3,6) p2(3) p3 m bs' in \<open>auto simp: p2_def\<close>)
    with True run m bs' show ?thesis
      using p3(2) p1(3) by (intro disjI2 exI [of _ "p3\<lparr>px_cl := w'\<rparr>"] exI [of _ m] exI [of _ bs']) (auto simp: chkerr_def p2_def)
  next
    case False
    have "\<not> opencl_resources cl bytes"
    proof
      assume res: "opencl_resources cl bytes"
      have s: "s = 0" using opencl_resourcesD(1) [OF res c] sz by (simp add: size_t_id)
      then obtain bs where "int (length bs) = sz" "bytes w m = Some bs"
        using opencl_specD(2) [OF spec] c sz by (fastforce simp: size_t_id)
      then have "s' = 0" using opencl_resourcesD(2) [OF res wr] sz by (auto simp: size_t_id)
      with s False show False by simp
    qed
    with False run show ?thesis by (auto simp: chkerr_def)
  qed
qed

text \<open>Both cases of an allocation in order.\<close>

lemma initNewBuffer_new:
  assumes "opencl_spec cl bytes" "trays_rel bytes p T" "i < length (px_taskList p)"
    and "2 \<le> sz" "sz \<le> INT_MAX" "int (length (T i)) < INT_MAX"
  shows "(initNewBuffer cl True junk (int i) (int (length (T i))) sz p = Some (Inl 1) \<and> \<not> opencl_resources cl bytes)
    \<or> (\<exists>p' m bs. initNewBuffer cl True junk (int i) (int (length (T i))) sz p = Some (Inr p')
        \<and> trays_rel bytes p' (T(i := T i @ [m])) \<and> length (px_taskList p') = length (px_taskList p)
        \<and> bytes (px_cl p) m = None \<and> bytes (px_cl p') = (bytes (px_cl p))(m \<mapsto> bs) \<and> int (length bs) = sz)"
proof (cases "T i = []")
  case True
  then show ?thesis using initNewBuffer_first [OF assms(1-3) True, of sz junk] assms(4,5) by auto
next
  case False
  then show ?thesis using initNewBuffer_next [OF assms(1-3) False, of sz junk] assms(4-6) by blast
qed

lemma writeBuffer_rel:
  assumes "opencl_spec cl bytes" "trays_rel bytes p T" "i < length (px_taskList p)" "t < length (T i)"
    and "0 \<le> sz" "sz \<le> int (length host)" "bytes (px_cl p) (T i ! t) = Some bs"
  shows "(writeBuffer cl (int i) (int t) sz host p = Some (Inl 1) \<and> \<not> (opencl_resources cl bytes \<and> 0 < sz \<and> sz \<le> int (length bs)))
    \<or> (\<exists>w. writeBuffer cl (int i) (int t) sz host p = Some (Inr (p\<lparr>px_cl := w\<rparr>)) \<and> trays_rel bytes (p\<lparr>px_cl := w\<rparr>) T
        \<and> nat sz \<le> length bs \<and> bytes w = (bytes (px_cl p))(T i ! t \<mapsto> take (nat sz) host @ drop (nat sz) bs))"
proof -
  let ?m = "T i ! t" and ?data = "take (nat sz) host"
  obtain d dev where td: "task_device p (int i) = Some (px_taskList p ! i, d, dev)"
    using task_device_rel [OF assms(2,3)] .
  have data: "length ?data = nat sz" using assms(6) by simp
  obtain s w where wr: "clEnqueueWriteBuffer cl (dv_queue dev) ?m 0 ?data (px_cl p) = (s, w)"
    by (cases "clEnqueueWriteBuffer cl (dv_queue dev) ?m 0 ?data (px_cl p)")
  have run: "writeBuffer cl (int i) (int t) sz host p = chkerr s (p\<lparr>px_cl := w\<rparr>)"
    using td wr get_tray_rel [OF assms(2-4)] assms(5,6) by (simp add: writeBuffer_def)
  show ?thesis
  proof (cases "s = 0")
    case True
    with opencl_specD(3) [OF assms(1)] wr assms(7) data
    have "nat sz \<le> length bs" "bytes w = (bytes (px_cl p))(?m \<mapsto> take (nat sz) host @ drop (nat sz) bs)"
      by (fastforce simp: put_bytes_def)+
    moreover from this(2) have "trays_rel bytes (p\<lparr>px_cl := w\<rparr>) T" by (rule trays_rel_cl [OF assms(2)])
    ultimately show ?thesis using True run by (auto simp: chkerr_def)
  next
    case False
    then have "\<not> (opencl_resources cl bytes \<and> 0 < sz \<and> sz \<le> int (length bs))"
      using opencl_resourcesD(2) [where bytes = bytes, OF _ wr assms(7)] data by fastforce
    with False run show ?thesis by (simp add: chkerr_def)
  qed
qed

lemma readBuffer_rel:
  assumes "opencl_spec cl bytes" "trays_rel bytes p T" "i < length (px_taskList p)" "t < length (T i)"
    and "0 \<le> sz" "sz \<le> int (length host)" "sz \<le> INT_MAX" "bytes (px_cl p) (T i ! t) = Some bs"
  shows "(readBuffer cl (int i) (int t) sz host p = Some (Inl 1) \<and> \<not> (opencl_resources cl bytes \<and> 0 < sz \<and> sz \<le> int (length bs)))
    \<or> (nat sz \<le> length bs \<and> readBuffer cl (int i) (int t) sz host p = Some (Inr (take (nat sz) bs @ drop (nat sz) host)))"
proof -
  let ?m = "T i ! t"
  obtain d dev where td: "task_device p (int i) = Some (px_taskList p ! i, d, dev)"
    using task_device_rel [OF assms(2,3)] .
  obtain s data where rd: "clEnqueueReadBuffer cl (dv_queue dev) ?m 0 (size_t sz) (px_cl p) = (s, data)"
    by (cases "clEnqueueReadBuffer cl (dv_queue dev) ?m 0 (size_t sz) (px_cl p)")
  have run: "readBuffer cl (int i) (int t) sz host p = chkerr s (take (nat sz) data @ drop (nat sz) host)"
    using td rd get_tray_rel [OF assms(2-4)] assms(5,6) by (simp add: readBuffer_def)
  have st: "size_t sz = sz" using assms(5,7) by (rule size_t_id)
  show ?thesis
  proof (cases "s = 0")
    case True
    with opencl_specD(4) [OF assms(1)] rd assms(8) st
    have "nat sz \<le> length bs" "data = take (nat sz) bs" by fastforce+
    with True run show ?thesis by (simp add: chkerr_def)
  next
    case False
    then have "\<not> (opencl_resources cl bytes \<and> 0 < sz \<and> sz \<le> int (length bs))"
      using opencl_resourcesD(3) [where bytes = bytes, OF _ rd assms(8)] st by (auto simp: nat_le_iff)
    with False run show ?thesis by (simp add: chkerr_def)
  qed
qed

lemma intracpyBuffer_rel:
  assumes "opencl_spec cl bytes" "opencl_resources cl bytes" "trays_rel bytes p T"
    and i: "i < length (px_taskList p)" "t < length (T i)" "bytes (px_cl p) (T i ! t) = Some bs" "sz \<le> int (length bs)"
    and j: "j < length (px_taskList p)" "u < length (T j)" "bytes (px_cl p) (T j ! u) = Some bd" "sz \<le> int (length bd)"
    and ne: "(i, t) \<noteq> (j, u)" and sz: "0 < sz" "sz \<le> INT_MAX"
  shows "\<exists>w. intracpyBuffer cl (int i) (int t) (int j) (int u) sz p = Some (Inr (p\<lparr>px_cl := w\<rparr>)) \<and> trays_rel bytes (p\<lparr>px_cl := w\<rparr>) T
    \<and> bytes w = (bytes (px_cl p))(T j ! u \<mapsto> take (nat sz) bs @ drop (nat sz) bd)"
proof -
  let ?src = "T i ! t" and ?dst = "T j ! u"
  obtain d dev where td: "task_device p (int i) = Some (px_taskList p ! i, d, dev)"
    using task_device_rel [OF assms(3) i(1)] .
  have st: "size_t sz = sz" using sz by (simp add: size_t_id)
  obtain s w where cp: "clEnqueueCopyBuffer cl (dv_queue dev) ?src ?dst 0 0 sz (px_cl p) = (s, w)"
    by (cases "clEnqueueCopyBuffer cl (dv_queue dev) ?src ?dst 0 0 sz (px_cl p)")
  have ne': "?src \<noteq> ?dst" using trays_distinct [OF assms(3) j(1) i(1) j(2) i(2)] ne by auto
  have s: "s = 0"
    using opencl_resourcesD(4) [where bytes = bytes, OF assms(2) cp i(3) j(3) ne'] sz i(4) j(4) by (simp add: nat_le_iff)
  have "length (take (nat sz) bs) = nat sz" using i(4) by simp
  with opencl_specD(5) [OF assms(1) cp [unfolded s]] i(3) j(3)
  have w: "bytes w = (bytes (px_cl p))(?dst \<mapsto> take (nat sz) bs @ drop (nat sz) bd)"
    by (auto simp: put_bytes_def)
  have "intracpyBuffer cl (int i) (int t) (int j) (int u) sz p = Some (Inr (p\<lparr>px_cl := w\<rparr>))"
    using td cp s get_tray_rel [OF assms(3) i(1,2)] get_tray_rel [OF assms(3) j(1,2)]
    by (simp add: intracpyBuffer_def chkerr_def st)
  with w trays_rel_cl [OF assms(3) w] show ?thesis by blast
qed

text \<open>The variables of \<^verbatim>\<open>entityInfo.h\<close> and the sizes do not matter for the trays.\<close>

lemma trays_rel_cong:
  assumes "px_taskList p' = px_taskList p" "px_devices p' = px_devices p" "px_cl p' = px_cl p"
  shows "task_device p' i = task_device p i" "trays_rel bytes p' T = trays_rel bytes p T"
proof -
  show td: "task_device p' i = task_device p i" for i using assms by (simp add: task_device_def)
  have "rack_place p' = rack_place p" using assms by (simp add: rack_place_def fun_eq_iff)
  then have "locs_ok p' = locs_ok p" using assms by (simp add: locs_ok_def)
  moreover have "get_rack p' i = get_rack p i" for i by (simp add: get_rack_def td)
  ultimately show "trays_rel bytes p' T = trays_rel bytes p T" using assms by (simp add: trays_rel_def)
qed

lemma entity_simps [simp]:
  "task_device (p\<lparr>px_MPIentityTypeSize := n\<rparr>) i = task_device p i"
  "trays_rel bytes (p\<lparr>px_MPIentityTypeSize := n\<rparr>) T = trays_rel bytes p T"
  by (rule trays_rel_cong; simp)+

end
