(* ===== verification/XCL_Devices.thy ===== *)
theory XCL_Devices
  imports XCL_Buffers
begin

text \<open>
  Finding the OpenCL devices of a node and setting them up
  (\<^verbatim>\<open>ompi/mpiext/XCLFrame/multiDeviceMgmt/deviceMgmt\<close>, called from \<^verbatim>\<open>XCLFrame_init\<close>): the
  exploration counts the devices by type, the initialisation allocates the three arrays of
  \<^verbatim>\<open>localDevices.h\<close> with these counts and fills them in the same order.

  The answers of the OpenCL queries are a record of functions. A \<^verbatim>\<open>clGetDeviceIDs\<close> that finds no
  device reports an error and stores nothing, so that \<^verbatim>\<open>deviceCount\<close> keeps its value.
\<close>

section \<open>OpenCL\<close>

record cl_queries =
  clGetPlatformIDs :: "int list"
  clGetDeviceIDs :: "int \<Rightarrow> int list option"
  clGetDeviceType :: "int \<Rightarrow> int"

text \<open>Creation of a context for a platform and a device, and of a queue in a context.\<close>

record 'w cl_setup =
  clCreateContext :: "int \<Rightarrow> int \<Rightarrow> 'w \<Rightarrow> int \<times> int \<times> 'w"
  clCreateCommandQueue :: "int \<Rightarrow> int \<Rightarrow> 'w \<Rightarrow> int \<times> int \<times> 'w"

definition CL_DEVICE_TYPE_CPU :: int where "CL_DEVICE_TYPE_CPU = 2"
definition CL_DEVICE_TYPE_GPU :: int where "CL_DEVICE_TYPE_GPU = 4"
definition CL_DEVICE_TYPE_ACCELERATOR :: int where "CL_DEVICE_TYPE_ACCELERATOR = 8"

lemmas device_types = CL_DEVICE_TYPE_CPU_def CL_DEVICE_TYPE_GPU_def CL_DEVICE_TYPE_ACCELERATOR_def

section \<open>Exploration\<close>

text \<open>A device id that was never stored is \<^const>\<open>None\<close>.\<close>

record CLxplorInfo =
  cx_numDevices :: int
  cx_numCPUS :: int
  cx_numGPUS :: int
  cx_numACCEL :: int
  cx_platforms :: "int list"
  cx_platformCount :: int
  cx_devices :: "int option list list"

definition count_device :: "cl_queries \<Rightarrow> int option \<Rightarrow> int \<times> int \<times> int \<Rightarrow> (int \<times> int \<times> int) option" where
  "count_device q d = (\<lambda>(numCPUS, numGPUS, numACCEL). do {
     dev \<leftarrow> d;
     let devType = clGetDeviceType q dev;
     Some (if CL_DEVICE_TYPE_CPU = devType then numCPUS + 1 else numCPUS,
           if CL_DEVICE_TYPE_GPU = devType then numGPUS + 1 else numGPUS,
           if CL_DEVICE_TYPE_ACCELERATOR = devType then numACCEL + 1 else numACCEL)
   })"

text \<open>
  The devices of one platform: their number, \<^const>\<open>None\<close> while \<^verbatim>\<open>deviceCount\<close> is uninitialised, is
  asked for first and the ids are stored next.
\<close>

definition explore_platform ::
  "cl_queries \<Rightarrow> int \<Rightarrow> nat option \<times> (int \<times> int \<times> int) \<times> int option list list
     \<Rightarrow> (nat option \<times> (int \<times> int \<times> int) \<times> int option list list) option" where
  "explore_platform q platform = (\<lambda>(deviceCount, counts, devices). do {
     let deviceCount = (case clGetDeviceIDs q platform of None \<Rightarrow> deviceCount | Some ds \<Rightarrow> Some (length ds));
     n \<leftarrow> deviceCount;
     let ids = (case clGetDeviceIDs q platform of
                  None \<Rightarrow> replicate n None
                | Some ds \<Rightarrow> map Some (take n ds) @ replicate (n - length ds) None);
     counts \<leftarrow> ofold (count_device q) ids counts;
     Some (deviceCount, counts, devices @ [ids])
   })"

definition deviceExploration :: "cl_queries \<Rightarrow> CLxplorInfo option" where
  "deviceExploration q = do {
     let platforms = clGetPlatformIDs q;
     (_, (numCPUS, numGPUS, numACCEL), devices) \<leftarrow> ofold (explore_platform q) platforms (None, (0, 0, 0), []);
     Some \<lparr>cx_numDevices = numCPUS + numGPUS + numACCEL, cx_numCPUS = numCPUS, cx_numGPUS = numGPUS,
       cx_numACCEL = numACCEL, cx_platforms = platforms, cx_platformCount = int (length platforms),
       cx_devices = devices\<rparr>
   }"

section \<open>Initialisation\<close>

text \<open>
  A new device with its context and queue. Of an array of device pointers only the part that has
  been filled is in the list; \<^verbatim>\<open>malloc\<close> is taken to succeed. The fields nothing reads
  (the platform, the memory sizes, \<^verbatim>\<open>cprops\<close>) are left out.
\<close>

definition createContext :: "'w cl_setup \<Rightarrow> int \<Rightarrow> Device \<times> 'w \<Rightarrow> (int + Device \<times> 'w) option" where
  "createContext cs platform = (\<lambda>(device, w).
     let (status, c, w) = clCreateContext cs platform (dv_deviceId device) w
     in chkerr status (device\<lparr>dv_context := c\<rparr>, w))"

definition createQueue :: "'w cl_setup \<Rightarrow> Device \<times> 'w \<Rightarrow> (int + Device \<times> 'w) option" where
  "createQueue cs = (\<lambda>(device, w).
     let (status, k, w) = clCreateCommandQueue cs (dv_context device) (dv_deviceId device) w
     in chkerr status (device\<lparr>dv_queue := k\<rparr>, w))"

definition new_device ::
  "'w cl_setup \<Rightarrow> Device \<Rightarrow> int \<Rightarrow> int \<Rightarrow> int \<Rightarrow> nat list \<times> Device list \<times> 'w
     \<Rightarrow> (int + nat list \<times> Device list \<times> 'w) option" where
  "new_device cs junk platform dev num = (\<lambda>(arr, devs, w).
     if num \<le> int (length arr) then None
     else ebind (createContext cs platform (junk\<lparr>dv_deviceId := dev, dv_numRacks := 0\<rparr>, w)) (\<lambda>s.
          ebind (createQueue cs s) (\<lambda>(device, w).
            Some (Inr (arr @ [length devs], devs @ [device], w)))))"

definition init_device ::
  "cl_queries \<Rightarrow> 'w cl_setup \<Rightarrow> Device \<Rightarrow> CLxplorInfo \<Rightarrow> int \<Rightarrow> int option \<Rightarrow> local_devices \<times> Device list \<times> 'w
     \<Rightarrow> (int + local_devices \<times> Device list \<times> 'w) option" where
  "init_device q cs junk xp platform d = (\<lambda>(ld, devs, w). do {
     dev \<leftarrow> d;
     let devType = clGetDeviceType q dev;
     ebind (if CL_DEVICE_TYPE_CPU = devType then
              ebind (new_device cs junk platform dev (cx_numCPUS xp) (ld_cpu ld, devs, w)) (\<lambda>(a, devs, w).
                Some (Inr (ld\<lparr>ld_cpu := a\<rparr>, devs, w)))
            else Some (Inr (ld, devs, w))) (\<lambda>(ld, devs, w).
     ebind (if CL_DEVICE_TYPE_GPU = devType then
              ebind (new_device cs junk platform dev (cx_numGPUS xp) (ld_gpu ld, devs, w)) (\<lambda>(a, devs, w).
                Some (Inr (ld\<lparr>ld_gpu := a\<rparr>, devs, w)))
            else Some (Inr (ld, devs, w))) (\<lambda>(ld, devs, w).
     if CL_DEVICE_TYPE_ACCELERATOR = devType then
       ebind (new_device cs junk platform dev (cx_numACCEL xp) (ld_accel ld, devs, w)) (\<lambda>(a, devs, w).
         Some (Inr (ld\<lparr>ld_accel := a\<rparr>, devs, w)))
     else Some (Inr (ld, devs, w))))
   })"

text \<open>
  The number of devices of a platform is asked for again. \<open>None\<close>: the variable \<^verbatim>\<open>deviceCount\<close> of
  this function is uninitialised.
\<close>

definition init_platform ::
  "cl_queries \<Rightarrow> 'w cl_setup \<Rightarrow> Device \<Rightarrow> CLxplorInfo \<Rightarrow> nat \<Rightarrow> nat option \<times> local_devices \<times> Device list \<times> 'w
     \<Rightarrow> (int + nat option \<times> local_devices \<times> Device list \<times> 'w) option" where
  "init_platform q cs junk xp i = (\<lambda>(deviceCount, s). do {
     platform \<leftarrow> aget (cx_platforms xp) (int i);
     let deviceCount = (case clGetDeviceIDs q platform of None \<Rightarrow> deviceCount | Some ds \<Rightarrow> Some (length ds));
     n \<leftarrow> deviceCount;
     row \<leftarrow> aget (cx_devices xp) (int i);
     ebind (efold (\<lambda>j s. do {d \<leftarrow> aget row (int j); init_device q cs junk xp platform d s}) [0..<n] s)
       (\<lambda>s. Some (Inr (deviceCount, s)))
   })"

definition devicesInitialization ::
  "cl_queries \<Rightarrow> 'w cl_setup \<Rightarrow> Device \<Rightarrow> CLxplorInfo \<Rightarrow> 'w \<Rightarrow> (int + local_devices \<times> Device list \<times> 'w) option" where
  "devicesInitialization q cs junk xp w =
     ebind (efold (init_platform q cs junk xp) [0..<nat (cx_platformCount xp)]
              (None, \<lparr>ld_cpu = [], ld_gpu = [], ld_accel = []\<rparr>, [], w))
       (\<lambda>(deviceCount, s). Some (Inr s))"

definition XCLFrame_init ::
  "cl_queries \<Rightarrow> 'w cl_setup \<Rightarrow> Device \<Rightarrow> 'w \<Rightarrow> (int + CLxplorInfo \<times> local_devices \<times> Device list \<times> 'w) option" where
  "XCLFrame_init q cs junk w = do {
     clXplr \<leftarrow> deviceExploration q;
     ebind (devicesInitialization q cs junk clXplr w) (\<lambda>(ld, devs, w). Some (Inr (clXplr, ld, devs, w)))
   }"

section \<open>What is found is what is set up\<close>

text \<open>The ids of all devices in the order of the platforms, and those of one type.\<close>

definition platform_devices :: "cl_queries \<Rightarrow> int list list" where
  "platform_devices q = map (\<lambda>p. the (clGetDeviceIDs q p)) (clGetPlatformIDs q)"

definition of_type :: "cl_queries \<Rightarrow> int \<Rightarrow> int list \<Rightarrow> int list" where
  "of_type q t ds = filter (\<lambda>d. clGetDeviceType q d = t) ds"

definition type_counts :: "cl_queries \<Rightarrow> int list \<Rightarrow> int \<times> int \<times> int" where
  "type_counts q ds = (int (length (of_type q CL_DEVICE_TYPE_CPU ds)), int (length (of_type q CL_DEVICE_TYPE_GPU ds)),
     int (length (of_type q CL_DEVICE_TYPE_ACCELERATOR ds)))"

lemma count_devices: "ofold (count_device q) (map Some ds) (type_counts q es) = Some (type_counts q (es @ ds))"
proof (induction ds arbitrary: es)
  case (Cons d ds)
  have "count_device q (Some d) (type_counts q es) = Some (type_counts q (es @ [d]))"
    by (simp add: count_device_def type_counts_def of_type_def)
  then show ?case using Cons.IH [of "es @ [d]"] by simp
qed simp

lemma explore_platforms:
  assumes "\<forall>p\<in>set ps. clGetDeviceIDs q p \<noteq> None"
  shows "\<exists>n'. ofold (explore_platform q) ps (n, type_counts q es, rows)
    = Some (n', type_counts q (es @ concat (map (\<lambda>p. the (clGetDeviceIDs q p)) ps)), rows @ map (\<lambda>p. map Some (the (clGetDeviceIDs q p))) ps)"
  using assms
proof (induction ps arbitrary: n es rows)
  case (Cons p ps)
  then obtain ds where "clGetDeviceIDs q p = Some ds" by auto
  then have "explore_platform q p (n, type_counts q es, rows) = Some (Some (length ds), type_counts q (es @ ds), rows @ [map Some ds])"
    by (simp add: explore_platform_def count_devices)
  then show ?case
    using Cons.IH [of "Some (length ds)" "es @ ds" "rows @ [map Some ds]"] Cons.prems \<open>clGetDeviceIDs q p = Some ds\<close> by simp
qed simp

lemma exploration_eq:
  assumes "\<forall>p\<in>set (clGetPlatformIDs q). clGetDeviceIDs q p \<noteq> None"
  shows "deviceExploration q = (case type_counts q (concat (platform_devices q)) of (c, g, a) \<Rightarrow>
    Some \<lparr>cx_numDevices = c + g + a, cx_numCPUS = c, cx_numGPUS = g, cx_numACCEL = a, cx_platforms = clGetPlatformIDs q,
      cx_platformCount = int (length (clGetPlatformIDs q)), cx_devices = map (map Some) (platform_devices q)\<rparr>)"
proof -
  have "(0, 0, 0) = type_counts q []" by (simp add: type_counts_def of_type_def)
  with explore_platforms [OF assms, of None "[]" "[]"] show ?thesis
    by (auto simp: deviceExploration_def platform_devices_def comp_def Let_def split: prod.split)
qed

text \<open>Contexts and queues can be created.\<close>

definition setup_ok :: "'w cl_setup \<Rightarrow> bool" where
  "setup_ok cs \<longleftrightarrow> (\<forall>p d w. fst (clCreateContext cs p d w) = 0) \<and> (\<forall>c d w. fst (clCreateCommandQueue cs c d w) = 0)"

lemma new_device_eq:
  assumes "int (length arr) < num"
  shows "new_device cs junk platform dev num (arr, devs, w) = Some (Inl 1) \<and> \<not> setup_ok cs
    \<or> (\<exists>device w'. new_device cs junk platform dev num (arr, devs, w) = Some (Inr (arr @ [length devs], devs @ [device], w'))
         \<and> dv_deviceId device = dev \<and> dv_numRacks device = 0)"
proof -
  obtain s c w1 where c: "clCreateContext cs platform dev w = (s, c, w1)" by (cases "clCreateContext cs platform dev w") auto
  obtain s' k w2 where k: "clCreateCommandQueue cs c dev w1 = (s', k, w2)" by (cases "clCreateCommandQueue cs c dev w1") auto
  have "setup_ok cs \<Longrightarrow> s = 0 \<and> s' = 0" unfolding setup_ok_def using c k by (metis fst_conv)
  with c k assms show ?thesis
    by (auto simp: new_device_def createContext_def createQueue_def chkerr_def)
qed

text \<open>The state after the devices \<open>ds\<close> have been set up.\<close>

definition devices_ok :: "cl_queries \<Rightarrow> int list \<Rightarrow> local_devices \<Rightarrow> Device list \<Rightarrow> bool" where
  "devices_ok q ds ld devs \<longleftrightarrow>
     map (\<lambda>i. dv_deviceId (devs ! i)) (ld_cpu ld) = of_type q CL_DEVICE_TYPE_CPU ds
   \<and> map (\<lambda>i. dv_deviceId (devs ! i)) (ld_gpu ld) = of_type q CL_DEVICE_TYPE_GPU ds
   \<and> map (\<lambda>i. dv_deviceId (devs ! i)) (ld_accel ld) = of_type q CL_DEVICE_TYPE_ACCELERATOR ds
   \<and> distinct (ld_cpu ld @ ld_gpu ld @ ld_accel ld) \<and> set (ld_cpu ld @ ld_gpu ld @ ld_accel ld) = {..<length devs}
   \<and> (\<forall>dev\<in>set devs. dv_numRacks dev = 0)"

lemma map_old_devices:
  "set is \<subseteq> {..<length devs} \<Longrightarrow> map (\<lambda>i. f ((devs @ [dev]) ! i)) is = map (\<lambda>i. f (devs ! i)) is"
  by (auto simp: nth_append)

lemma init_device_ok:
  assumes inv: "devices_ok q ds ld devs"
    and xp: "type_counts q (ds @ d # rest) = (cx_numCPUS xp, cx_numGPUS xp, cx_numACCEL xp)"
  shows "init_device q cs junk xp platform (Some d) (ld, devs, w) = Some (Inl 1) \<and> \<not> setup_ok cs
    \<or> (\<exists>ld' devs' w'. init_device q cs junk xp platform (Some d) (ld, devs, w) = Some (Inr (ld', devs', w')) \<and> devices_ok q (ds @ [d]) ld' devs')"
proof -
  let ?t = "clGetDeviceType q d" and ?new = "\<lambda>num arr. new_device cs junk platform d num (arr, devs, w)"
  have len: "length (ld_cpu ld) = length (of_type q CL_DEVICE_TYPE_CPU ds)" "length (ld_gpu ld) = length (of_type q CL_DEVICE_TYPE_GPU ds)"
    "length (ld_accel ld) = length (of_type q CL_DEVICE_TYPE_ACCELERATOR ds)"
    using inv unfolding devices_ok_def by (metis length_map)+
  have sub: "set (ld_cpu ld) \<subseteq> {..<length devs}" "set (ld_gpu ld) \<subseteq> {..<length devs}" "set (ld_accel ld) \<subseteq> {..<length devs}"
    using inv by (auto simp: devices_ok_def)
  note old = map_old_devices [OF sub(1)] map_old_devices [OF sub(2)] map_old_devices [OF sub(3)]
  have fresh: "length devs \<notin> set (ld_cpu ld)" "length devs \<notin> set (ld_gpu ld)" "length devs \<notin> set (ld_accel ld)" using sub by auto
  have ids: "set (ld_cpu ld) \<union> set (ld_gpu ld) \<union> set (ld_accel ld) = {..<length devs}" using inv by (auto simp: devices_ok_def)
  have grow: "devices_ok q (ds @ [d]) (if ?t = CL_DEVICE_TYPE_CPU then ld\<lparr>ld_cpu := ld_cpu ld @ [length devs]\<rparr>
      else if ?t = CL_DEVICE_TYPE_GPU then ld\<lparr>ld_gpu := ld_gpu ld @ [length devs]\<rparr> else ld\<lparr>ld_accel := ld_accel ld @ [length devs]\<rparr>) (devs @ [dev])"
    if "dv_deviceId dev = d" "dv_numRacks dev = 0" "?t = CL_DEVICE_TYPE_CPU \<or> ?t = CL_DEVICE_TYPE_GPU \<or> ?t = CL_DEVICE_TYPE_ACCELERATOR" for dev
    using inv that fresh ids unfolding devices_ok_def lessThan_Suc by (elim disjE; simp add: old of_type_def device_types lessThan_Suc; blast)
  consider "?t = CL_DEVICE_TYPE_CPU" | "?t = CL_DEVICE_TYPE_GPU" | "?t = CL_DEVICE_TYPE_ACCELERATOR"
    | "?t \<notin> {CL_DEVICE_TYPE_CPU, CL_DEVICE_TYPE_GPU, CL_DEVICE_TYPE_ACCELERATOR}" by blast
  then show ?thesis
  proof cases
    case 1
    then have "int (length (ld_cpu ld)) < cx_numCPUS xp" using xp len by (auto simp: type_counts_def of_type_def)
    from new_device_eq [OF this, of cs junk platform d devs w] grow 1 show ?thesis
      by (fastforce simp: init_device_def device_types)
  next
    case 2
    then have "int (length (ld_gpu ld)) < cx_numGPUS xp" using xp len by (auto simp: type_counts_def of_type_def)
    from new_device_eq [OF this, of cs junk platform d devs w] grow 2 show ?thesis
      by (fastforce simp: init_device_def device_types)
  next
    case 3
    then have "int (length (ld_accel ld)) < cx_numACCEL xp" using xp len by (auto simp: type_counts_def of_type_def)
    from new_device_eq [OF this, of cs junk platform d devs w] grow 3 show ?thesis
      by (fastforce simp: init_device_def device_types)
  next
    case 4
    then have "devices_ok q (ds @ [d]) ld devs" using inv by (auto simp: devices_ok_def of_type_def)
    with 4 show ?thesis by (auto simp: init_device_def)
  qed
qed

lemma concat_take_nth: "i < length rows \<Longrightarrow> j < length (rows ! i) \<Longrightarrow>
  \<exists>rest. concat rows = (concat (take i rows) @ take j (rows ! i)) @ rows ! i ! j # rest"
proof -
  assume i: "i < length rows" and j: "j < length (rows ! i)"
  have "concat rows = concat (take i rows) @ rows ! i @ concat (drop (Suc i) rows)"
    by (metis id_take_nth_drop [OF i] concat.simps(2) concat_append)
  moreover have "rows ! i = take j (rows ! i) @ rows ! i ! j # drop (Suc j) (rows ! i)" by (rule id_take_nth_drop [OF j])
  ultimately show ?thesis by (metis append.assoc append_Cons)
qed

lemma initialisation_ok:
  assumes q: "\<forall>p\<in>set (clGetPlatformIDs q). clGetDeviceIDs q p \<noteq> None" and xp: "deviceExploration q = Some xp"
  shows "devicesInitialization q cs junk xp w = Some (Inl 1) \<and> \<not> setup_ok cs
    \<or> (\<exists>ld devs w'. devicesInitialization q cs junk xp w = Some (Inr (ld, devs, w')) \<and> devices_ok q (concat (platform_devices q)) ld devs)"
proof -
  let ?rows = "platform_devices q" and ?n = "length (clGetPlatformIDs q)"
  let ?P = "\<lambda>i (dc :: nat option, ld, devs, w). devices_ok q (concat (take i ?rows)) ld devs"
  have x: "cx_platforms xp = clGetPlatformIDs q" "cx_platformCount xp = int ?n" "cx_devices xp = map (map Some) ?rows"
    "type_counts q (concat ?rows) = (cx_numCPUS xp, cx_numGPUS xp, cx_numACCEL xp)"
    using xp unfolding exploration_eq [OF q] by (auto split: prod.splits)
  have "efold (init_platform q cs junk xp) [0..<?n] (None, \<lparr>ld_cpu = [], ld_gpu = [], ld_accel = []\<rparr>, [], w) = Some (Inl 1) \<and> \<not> setup_ok cs
    \<or> (\<exists>s. efold (init_platform q cs junk xp) [0..<?n] (None, \<lparr>ld_cpu = [], ld_gpu = [], ld_accel = []\<rparr>, [], w) = Some (Inr s) \<and> ?P ?n s)"
  proof (rule efold_upt_inv_exit [where P = ?P], goal_cases)
    case 1 show ?case by (simp add: devices_ok_def of_type_def)
  next
    case (2 i s)
    obtain dc ld devs w where s: "s = (dc, ld, devs, w)" by (cases s)
    let ?p = "clGetPlatformIDs q ! i" and ?row = "?rows ! i"
    let ?f = "\<lambda>j s. do {d \<leftarrow> aget (map Some ?row) (int j); init_device q cs junk xp ?p d s}"
    let ?Q = "\<lambda>j (ld, devs, w). devices_ok q (concat (take i ?rows) @ take j ?row) ld devs"
    have ids: "clGetDeviceIDs q ?p = Some ?row" using q 2(1) by (auto simp: platform_devices_def)
    have l: "i < length ?rows" using 2(1) by (simp add: platform_devices_def)
    have "efold ?f [0..<length ?row] (ld, devs, w) = Some (Inl 1) \<and> \<not> setup_ok cs
      \<or> (\<exists>s. efold ?f [0..<length ?row] (ld, devs, w) = Some (Inr s) \<and> ?Q (length ?row) s)"
    proof (rule efold_upt_inv_exit [where P = ?Q], goal_cases)
      case 1 show ?case using 2(2) s by simp
    next
      case (2 j t)
      obtain ld devs w where t: "t = (ld, devs, w)" by (cases t)
      obtain rest where "concat ?rows = (concat (take i ?rows) @ take j ?row) @ ?row ! j # rest"
        using concat_take_nth [OF l 2(1)] by blast
      with x(4) have "type_counts q ((concat (take i ?rows) @ take j ?row) @ ?row ! j # rest) = (cx_numCPUS xp, cx_numGPUS xp, cx_numACCEL xp)" by simp
      from init_device_ok [OF _ this, of ld devs cs junk ?p w] 2 t show ?case
        by (auto simp: take_Suc_conv_app_nth)
    qed
    moreover have "concat (take (Suc i) ?rows) = concat (take i ?rows) @ ?row" using l by (simp add: take_Suc_conv_app_nth)
    ultimately show ?case using 2(1) l ids unfolding s by (auto simp: init_platform_def x(1,3))
  qed
  then show ?thesis by (auto simp: devicesInitialization_def x(2) platform_devices_def)
qed

definition num_devices :: "cl_queries \<Rightarrow> int list \<Rightarrow> nat" where
  "num_devices q ds = length (of_type q CL_DEVICE_TYPE_CPU ds) + length (of_type q CL_DEVICE_TYPE_GPU ds)
     + length (of_type q CL_DEVICE_TYPE_ACCELERATOR ds)"

lemma devices_ok_length:
  assumes "devices_ok q ds ld devs"
  shows "length devs = num_devices q ds"
proof -
  let ?ids = "ld_cpu ld @ ld_gpu ld @ ld_accel ld"
  have "distinct ?ids" "set ?ids = {..<length devs}" using assms by (simp_all add: devices_ok_def)
  then have "length ?ids = length devs" by (metis distinct_card card_lessThan)
  moreover have "length (ld_cpu ld) = length (of_type q CL_DEVICE_TYPE_CPU ds)" "length (ld_gpu ld) = length (of_type q CL_DEVICE_TYPE_GPU ds)"
    "length (ld_accel ld) = length (of_type q CL_DEVICE_TYPE_ACCELERATOR ds)"
    using assms unfolding devices_ok_def by (metis length_map)+
  ultimately show ?thesis by (simp add: num_devices_def)
qed

text \<open>When every platform answers the query for its devices, \<^verbatim>\<open>XCLFrame_init\<close> either ends the
  process with status 1, which happens only if a context or a queue cannot be created, or fills the
  three arrays without leaving their allocation: each holds the devices of its type in the order
  of the platforms, no two entries are the same device structure, every structure is in one of
  the arrays, and no rack is in use yet.\<close>

lemma init_devices_ok:
  assumes "\<forall>p\<in>set (clGetPlatformIDs q). clGetDeviceIDs q p \<noteq> None"
  shows "XCLFrame_init q cs junk w = Some (Inl 1) \<and> \<not> setup_ok cs
    \<or> (\<exists>xp ld devs w'. XCLFrame_init q cs junk w = Some (Inr (xp, ld, devs, w'))
         \<and> devices_ok q (concat (platform_devices q)) ld devs \<and> cx_numDevices xp = int (length devs))"
proof -
  let ?ds = "concat (platform_devices q)"
  obtain xp where xp: "deviceExploration q = Some xp"
    using exploration_eq [OF assms] by (cases "type_counts q ?ds") auto
  then have n: "cx_numDevices xp = int (length (of_type q CL_DEVICE_TYPE_CPU ?ds) + length (of_type q CL_DEVICE_TYPE_GPU ?ds)
      + length (of_type q CL_DEVICE_TYPE_ACCELERATOR ?ds))"
    unfolding exploration_eq [OF assms] by (auto simp: type_counts_def)
  have "cx_numDevices xp = int (length devs)" if "devices_ok q ?ds ld devs" for ld devs
    using devices_ok_length [OF that] n by (simp add: num_devices_def)
  with initialisation_ok [OF assms xp, of cs junk w] xp show ?thesis by (auto simp: XCLFrame_init_def)
qed

text \<open>A node with two platforms: a CPU and an accelerator on the first, a GPU on the second.\<close>

definition sample_queries :: cl_queries where
  "sample_queries = \<lparr>clGetPlatformIDs = [10, 20], clGetDeviceIDs = (\<lambda>p. Some (if p = 10 then [1, 2] else [3])),
     clGetDeviceType = (\<lambda>d. if d = 1 then 2 else if d = 2 then 8 else 4)\<rparr>"

definition sample_setup :: "nat cl_setup" where
  "sample_setup = \<lparr>clCreateContext = (\<lambda>p d n. (0, int n, n + 1)), clCreateCommandQueue = (\<lambda>c d n. (0, int n, n + 1))\<rparr>"

end
