(* ===== verification/XCL_Comms.thy ===== *)
theory XCL_Comms
  imports XCL_Buffers
begin

text \<open>
  The entry points that work on the tray of a task given by its global number
  (\<^verbatim>\<open>ompi/mpiext/XCLFrame/c/singleSidedComms/singleSidedComms.c\<close>), and the transfer of a tray
  from one task to another, inside a device or by a message between processes.

  Every process calls these functions; one that does not own the task returns at once. The
  functions are the part of one process, with its rank as an argument. A message is a record;
  \<open>OMPI_XclSend\<close> yields the message it starts and \<open>OMPI_XclRecv\<close> takes its message from those
  under way. \<^verbatim>\<open>MPI_Isend\<close> does not block; \<^verbatim>\<open>MPI_Wait\<close> on a receive that has no message never
  returns. \<open>tysz\<close> is what \<^verbatim>\<open>MPI_Type_size\<close> answers; the allocation of the temporary buffers is
  taken to succeed.
\<close>

section \<open>Buffers by global number\<close>

definition OMPI_XclReadTaskBuffer ::
  "'w opencl \<Rightarrow> taskInfo list \<Rightarrow> int \<Rightarrow> int \<Rightarrow> int \<Rightarrow> int \<Rightarrow> byte list \<Rightarrow> 'w xcl_proc \<Rightarrow> (int + byte list) option" where
  "OMPI_XclReadTaskBuffer cl g_taskList myRank g_taskIdx trayIdx bufferSize hostBuffer p = do {
     own \<leftarrow> own_task g_taskList myRank g_taskIdx;
     case own of None \<Rightarrow> Some (Inr hostBuffer)
     | Some l_taskIdx \<Rightarrow> readBuffer cl l_taskIdx trayIdx bufferSize hostBuffer p
   }"

definition OMPI_XclWriteTaskBuffer ::
  "'w opencl \<Rightarrow> bool \<Rightarrow> int \<Rightarrow> taskInfo list \<Rightarrow> int \<Rightarrow> int \<Rightarrow> int \<Rightarrow> int \<Rightarrow> byte list \<Rightarrow> 'w xcl_proc
     \<Rightarrow> (int + 'w xcl_proc) option" where
  "OMPI_XclWriteTaskBuffer cl mem junk g_taskList myRank g_taskIdx trayIdx bufferSize hostBuffer p = do {
     own \<leftarrow> own_task g_taskList myRank g_taskIdx;
     case own of None \<Rightarrow> Some (Inr p)
     | Some l_taskIdx \<Rightarrow>
         ebind (initNewBuffer cl mem junk l_taskIdx trayIdx bufferSize p)
           (writeBuffer cl l_taskIdx trayIdx bufferSize hostBuffer)
   }"

definition OMPI_XclMallocTaskBuffer ::
  "'w opencl \<Rightarrow> bool \<Rightarrow> int \<Rightarrow> taskInfo list \<Rightarrow> int \<Rightarrow> int \<Rightarrow> int \<Rightarrow> int \<Rightarrow> 'w xcl_proc \<Rightarrow> (int + 'w xcl_proc) option" where
  "OMPI_XclMallocTaskBuffer cl mem junk g_taskList myRank g_taskIdx trayIdx bufferSize p = do {
     own \<leftarrow> own_task g_taskList myRank g_taskIdx;
     case own of None \<Rightarrow> Some (Inr p)
     | Some l_taskIdx \<Rightarrow> initNewBuffer cl mem junk l_taskIdx trayIdx bufferSize p
   }"

definition OMPI_XclFreeTaskBuffer ::
  "'w opencl \<Rightarrow> taskInfo list \<Rightarrow> int \<Rightarrow> int \<Rightarrow> int \<Rightarrow> 'w xcl_proc \<Rightarrow> (int + 'w xcl_proc) option" where
  "OMPI_XclFreeTaskBuffer cl g_taskList myRank g_taskIdx trayIdx p = do {
     own \<leftarrow> own_task g_taskList myRank g_taskIdx;
     case own of None \<Rightarrow> Some (Inr p)
     | Some l_taskIdx \<Rightarrow> XclFreeTaskBuffer cl l_taskIdx trayIdx p
   }"

section \<open>Messages between tasks\<close>

record message =
  msg_src :: int
  msg_dest :: int
  msg_tag :: int
  msg_data :: "byte list"

definition OMPI_XclSend ::
  "'w opencl \<Rightarrow> taskInfo list \<Rightarrow> int \<Rightarrow> int \<Rightarrow> int \<Rightarrow> int \<Rightarrow> int \<Rightarrow> int \<Rightarrow> int \<Rightarrow> 'w xcl_proc
     \<Rightarrow> (int + message list \<times> 'w xcl_proc) option" where
  "OMPI_XclSend cl g_taskList myRank trayIdx count tysz g_src_task g_dest_task TAG p = do {
     own \<leftarrow> own_task g_taskList myRank g_src_task;
     case own of None \<Rightarrow> Some (Inr ([], p))
     | Some l_src_task \<Rightarrow> do {
         let p = p\<lparr>px_MPIentityTypeSize := tysz\<rparr>;
         let tmpBuffSz = count * tysz;
         t \<leftarrow> aget g_taskList g_dest_task;
         ebind (readBuffer cl l_src_task trayIdx tmpBuffSz (replicate (nat tmpBuffSz) 0) p) (\<lambda>data.
           Some (Inr ([\<lparr>msg_src = myRank, msg_dest = ti_r_rank t, msg_tag = TAG, msg_data = data\<rparr>], p)))
       }
   }"

definition OMPI_XclRecv ::
  "'w opencl \<Rightarrow> bool \<Rightarrow> int \<Rightarrow> taskInfo list \<Rightarrow> int \<Rightarrow> int \<Rightarrow> int \<Rightarrow> int \<Rightarrow> int \<Rightarrow> int \<Rightarrow> int \<Rightarrow> message list \<Rightarrow> 'w xcl_proc
     \<Rightarrow> (int + 'w xcl_proc) option" where
  "OMPI_XclRecv cl mem junk g_taskList myRank trayIdx count tysz g_src_task g_recv_task TAG msgs p = do {
     own \<leftarrow> own_task g_taskList myRank g_recv_task;
     case own of None \<Rightarrow> Some (Inr p)
     | Some l_recv_task \<Rightarrow> do {
         let p = p\<lparr>px_MPIentityTypeSize := tysz\<rparr>;
         let tmpBuffSz = count * tysz;
         t \<leftarrow> aget g_taskList g_src_task;
         msg \<leftarrow> find (\<lambda>m. msg_src m = ti_r_rank t \<and> msg_dest m = myRank \<and> msg_tag m = TAG) msgs;
         if int (length (msg_data msg)) > tmpBuffSz then None
         else let tmpBuffData = msg_data msg @ replicate (nat tmpBuffSz - length (msg_data msg)) 0 in
           ebind (initNewBuffer cl mem junk l_recv_task trayIdx tmpBuffSz p)
             (writeBuffer cl l_recv_task trayIdx tmpBuffSz tmpBuffData)
       }
   }"

text \<open>
  The test that chooses the copy inside a device, and the part of a process before and after the
  messages of the others have arrived. The code evaluates the test once; no device id changes in
  between.
\<close>

definition same_device :: "taskInfo list \<Rightarrow> int \<Rightarrow> int \<Rightarrow> int \<Rightarrow> 'w xcl_proc \<Rightarrow> bool option" where
  "same_device g_taskList myRank src_task dest_task p = do {
     s \<leftarrow> aget g_taskList src_task;
     d \<leftarrow> aget g_taskList dest_task;
     if myRank = ti_r_rank s \<and> myRank = ti_r_rank d then do {
       (ts, a, sdev) \<leftarrow> task_device p (ti_l_taskIdx s);
       (td, b, ddev) \<leftarrow> task_device p (ti_l_taskIdx d);
       Some (dv_deviceId sdev = dv_deviceId ddev)
     }
     else Some False
   }"

definition sendrecv_start ::
  "'w opencl \<Rightarrow> taskInfo list \<Rightarrow> int \<Rightarrow> int \<Rightarrow> int \<Rightarrow> int \<Rightarrow> int \<Rightarrow> int \<Rightarrow> int \<Rightarrow> 'w xcl_proc
     \<Rightarrow> (int + message list \<times> 'w xcl_proc) option" where
  "sendrecv_start cl g_taskList myRank src_task src_trayIdx dest_task dest_trayIdx count tysz p = do {
     intra \<leftarrow> same_device g_taskList myRank src_task dest_task p;
     if intra then do {
       s \<leftarrow> aget g_taskList src_task;
       d \<leftarrow> aget g_taskList dest_task;
       ebind (intracpyBuffer cl (ti_l_taskIdx s) src_trayIdx (ti_l_taskIdx d) dest_trayIdx (count * tysz) p)
         (\<lambda>p. Some (Inr ([], p)))
     }
     else OMPI_XclSend cl g_taskList myRank src_trayIdx count tysz src_task dest_task 0 p
   }"

definition sendrecv_finish ::
  "'w opencl \<Rightarrow> bool \<Rightarrow> int \<Rightarrow> taskInfo list \<Rightarrow> int \<Rightarrow> int \<Rightarrow> int \<Rightarrow> int \<Rightarrow> int \<Rightarrow> int \<Rightarrow> message list \<Rightarrow> 'w xcl_proc
     \<Rightarrow> (int + 'w xcl_proc) option" where
  "sendrecv_finish cl mem junk g_taskList myRank src_task dest_task dest_trayIdx count tysz msgs p = do {
     intra \<leftarrow> same_device g_taskList myRank src_task dest_task p;
     if intra then Some (Inr p)
     else OMPI_XclRecv cl mem junk g_taskList myRank dest_trayIdx count tysz src_task dest_task 0 msgs p
   }"

text \<open>
  All processes of the communicator: every one starts, then every one finishes with the messages
  that are under way.
\<close>

definition OMPI_XclSendRecv ::
  "'w opencl \<Rightarrow> bool \<Rightarrow> int \<Rightarrow> taskInfo list \<Rightarrow> int \<Rightarrow> int \<Rightarrow> int \<Rightarrow> int \<Rightarrow> int \<Rightarrow> int \<Rightarrow> 'w xcl_proc list
     \<Rightarrow> (int + 'w xcl_proc list) option" where
  "OMPI_XclSendRecv cl mem junk g_taskList src_task src_trayIdx dest_task dest_trayIdx count tysz procs =
     ebind (efold (\<lambda>r (msgs, procs).
         ebind (sendrecv_start cl g_taskList (int r) src_task src_trayIdx dest_task dest_trayIdx count tysz (procs ! r))
           (\<lambda>(new, p). Some (Inr (msgs @ new, procs[r := p])))) [0..<length procs] ([], procs)) (\<lambda>(msgs, procs).
       efold (\<lambda>r procs.
         ebind (sendrecv_finish cl mem junk g_taskList (int r) src_task dest_task dest_trayIdx count tysz msgs (procs ! r))
           (\<lambda>p. Some (Inr (procs[r := p])))) [0..<length procs] procs)"

section \<open>A tray keeps what was written to it\<close>

text \<open>Allocation of a tray in order followed by a write of the same size.\<close>

lemma init_then_write:
  assumes spec: "opencl_spec cl bytes" and rel: "trays_rel bytes p T" "i < length (px_taskList p)"
    and t: "t \<le> length (T i)" "int (length (T i)) < INT_MAX"
    and sz: "2 \<le> sz" "sz \<le> INT_MAX" "sz \<le> int (length host)"
    and res_def: "res = ebind (initNewBuffer cl True junk (int i) (int t) sz p) (writeBuffer cl (int i) (int t) sz host)"
  shows "(res = Some (Inl 1) \<and> \<not> (opencl_resources cl bytes \<and>
          (\<forall>bs. t < length (T i) \<and> bytes (px_cl p) (T i ! t) = Some bs \<longrightarrow> sz \<le> int (length bs))))
    \<or> (\<exists>p' T' bs. res = Some (Inr p') \<and> trays_rel bytes p' T' \<and> length (px_taskList p') = length (px_taskList p)
        \<and> t < length (T' i) \<and> bytes (px_cl p') (T' i ! t) = Some bs \<and> take (nat sz) bs = take (nat sz) host \<and> nat sz \<le> length bs
        \<and> (\<forall>j < length (px_taskList p). take (length (T j)) (T' j) = T j
             \<and> (\<forall>u < length (T j). (j, u) \<noteq> (i, t) \<longrightarrow> bytes (px_cl p') (T j ! u) = bytes (px_cl p) (T j ! u))))"
proof (cases "t < length (T i)")
  case True
  let ?m = "T i ! t"
  obtain bs where bs: "bytes (px_cl p) ?m = Some bs" using trays_relD(5) [OF rel] True by (meson nth_mem)
  have res: "res = writeBuffer cl (int i) (int t) sz host p"
    using initNewBuffer_old [OF rel True] t(2) by (simp add: res_def)
  have other: "T j ! u \<noteq> ?m" if "j < length (px_taskList p)" "u < length (T j)" "(j, u) \<noteq> (i, t)" for j u
    using trays_distinct [OF rel that(1) True that(2,3)] .
  from writeBuffer_rel [OF spec rel True _ sz(3) bs] sz(1)
  consider "res = Some (Inl 1)" "\<not> (opencl_resources cl bytes \<and> sz \<le> int (length bs))"
    | w where "res = Some (Inr (p\<lparr>px_cl := w\<rparr>))" "trays_rel bytes (p\<lparr>px_cl := w\<rparr>) T" "nat sz \<le> length bs"
        "bytes w = (bytes (px_cl p))(?m \<mapsto> take (nat sz) host @ drop (nat sz) bs)"
    using res by fastforce
  then show ?thesis
  proof cases
    case 1
    then show ?thesis using bs True by auto
  next
    case 2
    then show ?thesis using True other sz
      by (intro disjI2 exI [of _ "p\<lparr>px_cl := w\<rparr>"] exI [of _ T] exI [of _ "take (nat sz) host @ drop (nat sz) bs"]) auto
  qed
next
  case False
  then have teq: "t = length (T i)" using t by simp
  let ?ini = "initNewBuffer cl True junk (int i) (int t) sz p"
  from initNewBuffer_new [OF spec rel, of sz junk] sz t
  consider "?ini = Some (Inl 1)" "\<not> opencl_resources cl bytes"
    | p1 m bs where "?ini = Some (Inr p1)" "trays_rel bytes p1 (T(i := T i @ [m]))" "length (px_taskList p1) = length (px_taskList p)"
        "bytes (px_cl p) m = None" "bytes (px_cl p1) = (bytes (px_cl p))(m \<mapsto> bs)" "int (length bs) = sz"
    unfolding teq by blast
  then show ?thesis
  proof cases
    case 1
    then show ?thesis by (simp add: res_def)
  next
    case (2 p1 m bs)
    let ?T = "T(i := T i @ [m])"
    have l1: "i < length (px_taskList p1)" and len: "t < length (?T i)" and mt: "?T i ! t = m"
      using 2(3) rel(2) teq by simp_all
    have b1: "bytes (px_cl p1) (?T i ! t) = Some bs" using 2(5) mt by simp
    have res: "res = writeBuffer cl (int i) (int t) sz host p1" using 2(1) by (simp add: res_def)
    have other: "T j ! u \<noteq> m" if "j < length (px_taskList p)" "u < length (T j)" for j u
      using trays_relD(5) [OF rel(1) that(1), of "T j ! u"] that(2) 2(4) by auto
    from writeBuffer_rel [OF spec 2(2) l1 len _ sz(3) b1] sz(1)
    consider "res = Some (Inl 1)" "\<not> opencl_resources cl bytes"
      | w where "res = Some (Inr (p1\<lparr>px_cl := w\<rparr>))" "trays_rel bytes (p1\<lparr>px_cl := w\<rparr>) ?T"
          "bytes w = (bytes (px_cl p1))(m \<mapsto> take (nat sz) host @ drop (nat sz) bs)"
      using res 2(6) mt by fastforce
    then show ?thesis
    proof cases
      case 1
      then show ?thesis by simp
    next
      case w: 2
      then show ?thesis using 2(3,5,6) len mt other sz
        by (intro disjI2 exI [of _ "p1\<lparr>px_cl := w\<rparr>"] exI [of _ ?T] exI [of _ "take (nat sz) host @ drop (nat sz) bs"]) auto
    qed
  qed
qed

text \<open>A process writes \<open>sz\<close> bytes to tray \<open>t\<close> of a task it owns, the tray being an existing one
  or the next one of that task. Either an OpenCL call fails and the process exits, which does not
  happen when OpenCL has the resources and an existing tray is large enough, or the tray exists
  afterwards, a read returns the bytes written, and every other tray of every task of the process
  has the content it had before.\<close>

lemma task_buffer_write_then_read:
  assumes spec: "opencl_spec cl bytes" and rel: "trays_rel bytes p T" "i < length (px_taskList p)"
    and own: "own_task g_taskList r g = Some (Some (int i))"
    and t: "t \<le> length (T i)" "int (length (T i)) < INT_MAX"
    and sz: "2 \<le> sz" "sz \<le> INT_MAX" "sz \<le> int (length host)" "sz \<le> int (length host')"
  shows "(OMPI_XclWriteTaskBuffer cl True junk g_taskList r g (int t) sz host p = Some (Inl 1)
          \<and> \<not> (opencl_resources cl bytes \<and> (\<forall>bs. t < length (T i) \<and> bytes (px_cl p) (T i ! t) = Some bs \<longrightarrow> sz \<le> int (length bs))))
    \<or> (\<exists>p' T'. OMPI_XclWriteTaskBuffer cl True junk g_taskList r g (int t) sz host p = Some (Inr p')
        \<and> trays_rel bytes p' T' \<and> t < length (T' i)
        \<and> (OMPI_XclReadTaskBuffer cl g_taskList r g (int t) sz host' p' = Some (Inr (take (nat sz) host @ drop (nat sz) host'))
           \<or> OMPI_XclReadTaskBuffer cl g_taskList r g (int t) sz host' p' = Some (Inl 1) \<and> \<not> opencl_resources cl bytes)
        \<and> (\<forall>j < length (px_taskList p). \<forall>u < length (T j). T' j ! u = T j ! u
             \<and> ((j, u) \<noteq> (i, t) \<longrightarrow> bytes (px_cl p') (T j ! u) = bytes (px_cl p) (T j ! u))))"
proof -
  have wr: "OMPI_XclWriteTaskBuffer cl True junk g_taskList r g (int t) sz host p
      = ebind (initNewBuffer cl True junk (int i) (int t) sz p) (writeBuffer cl (int i) (int t) sz host)"
    using own by (simp add: OMPI_XclWriteTaskBuffer_def)
  consider (exit) "OMPI_XclWriteTaskBuffer cl True junk g_taskList r g (int t) sz host p = Some (Inl 1)"
      "\<not> (opencl_resources cl bytes \<and> (\<forall>bs. t < length (T i) \<and> bytes (px_cl p) (T i ! t) = Some bs \<longrightarrow> sz \<le> int (length bs)))"
    | (ok) p' T' bs where "OMPI_XclWriteTaskBuffer cl True junk g_taskList r g (int t) sz host p = Some (Inr p')"
        "trays_rel bytes p' T'" "length (px_taskList p') = length (px_taskList p)"
        "t < length (T' i)" "bytes (px_cl p') (T' i ! t) = Some bs" "take (nat sz) bs = take (nat sz) host" "nat sz \<le> length bs"
        "\<forall>j < length (px_taskList p). take (length (T j)) (T' j) = T j
             \<and> (\<forall>u < length (T j). (j, u) \<noteq> (i, t) \<longrightarrow> bytes (px_cl p') (T j ! u) = bytes (px_cl p) (T j ! u))"
    using init_then_write [OF spec rel t sz(1-3) wr] by blast
  then show ?thesis
  proof cases
    case exit
    then show ?thesis by blast
  next
    case ok
    have "i < length (px_taskList p')" using ok(3) rel(2) by simp
    from readBuffer_rel [OF spec ok(2) this ok(4) _ sz(4) sz(2) ok(5)] sz(1) ok(6,7)
    have "OMPI_XclReadTaskBuffer cl g_taskList r g (int t) sz host' p' = Some (Inr (take (nat sz) host @ drop (nat sz) host'))
       \<or> OMPI_XclReadTaskBuffer cl g_taskList r g (int t) sz host' p' = Some (Inl 1) \<and> \<not> opencl_resources cl bytes"
      using own by (auto simp: OMPI_XclReadTaskBuffer_def)
    moreover have "T' j ! u = T j ! u" if "j < length (px_taskList p)" "u < length (T j)" for j u
      using ok(8) that nth_take [of u "length (T j)" "T' j"] by auto
    ultimately show ?thesis using ok(1,2,4,8) by blast
  qed
qed

text \<open>A process with two tasks on one device that have no trays yet.\<close>

definition sample_proc :: "cl_heap xcl_proc" where
  "sample_proc = \<lparr>px_taskList = map (\<lambda>r. \<lparr>tk_device = Some 0, tk_numTrays = 0, tk_trayInfo = None, tk_Rack = r\<rparr>) [0, 1],
     px_devices = [\<lparr>dv_deviceId = 0, dv_context = 0, dv_queue = 0, dv_numRacks = 2, dv_memHandler = Some [None, None]\<rparr>],
     px_tskbufferSize = [], px_MPIentityTypeSize = 0, px_ePerRank = 0, px_cl = []\<rparr>"

lemma sample_proc_rel: "trays_rel heap_bytes sample_proc (\<lambda>_. [])"
  by (auto simp: trays_rel_def locs_ok_def sample_proc_def rack_place_def inj_on_def less_Suc_eq numeral_2_eq_2)

section \<open>A transfer between two tasks\<close>

text \<open>One loop over the processes in which only one of them does something.\<close>

lemma efold_one_rank:
  assumes "a < n" "f a s = Some (Inr s')" "\<And>r. r < n \<Longrightarrow> r \<noteq> a \<Longrightarrow> f r s = Some (Inr s) \<and> f r s' = Some (Inr s')"
  shows "efold f [0..<n] s = Some (Inr s')"
proof -
  have "\<exists>t. efold f [0..<n] s = Some (Inr t) \<and> t = (if a < n then s' else s)"
  proof (rule efold_upt_inv [where P = "\<lambda>m t. t = (if a < m then s' else s)"], goal_cases)
    case (2 r t)
    then show ?case using assms(2,3) by (cases "r = a") auto
  qed simp
  then show ?thesis using assms(1) by simp
qed

lemma efold_no_rank:
  "(\<And>r. r < n \<Longrightarrow> f r s = Some (Inr s)) \<Longrightarrow> efold f [0..<n] s = Some (Inr s)"
  using efold_upt_inv [where P = "\<lambda>m t. t = s" and f = f and n = n and s = s] by auto

lemma list_update_other [simp]: "r \<noteq> a \<Longrightarrow> xs[a := x, r := xs ! r] = xs[a := x]"
  by (metis list_update_id nth_list_update_neq)

text \<open>The source and the destination of a transfer, and the sizes for which it is legal.\<close>

definition transfer_ok ::
  "('w \<Rightarrow> cl_mem \<Rightarrow> byte list option) \<Rightarrow> (nat \<Rightarrow> nat \<Rightarrow> cl_mem list) \<Rightarrow> 'w xcl_proc list \<Rightarrow> int
     \<Rightarrow> nat \<times> nat \<times> nat \<Rightarrow> nat \<times> nat \<times> nat \<Rightarrow> bool" where
  "transfer_ok bytes T procs sz = (\<lambda>(a, i, t) (b, j, u).
     a < length procs \<and> i < length (px_taskList (procs ! a)) \<and> t < length (T a i)
   \<and> b < length procs \<and> j < length (px_taskList (procs ! b)) \<and> u \<le> length (T b j) \<and> int (length (T b j)) < INT_MAX
   \<and> 2 \<le> sz \<and> sz \<le> INT_MAX \<and> (a, i, t) \<noteq> (b, j, u)
   \<and> (\<forall>bs. bytes (px_cl (procs ! a)) (T a i ! t) = Some bs \<longrightarrow> sz \<le> int (length bs))
   \<and> (u < length (T b j) \<longrightarrow> (\<forall>bs. bytes (px_cl (procs ! b)) (T b j ! u) = Some bs \<longrightarrow> sz \<le> int (length bs))))"

text \<open>
  The outcome of a transfer: the trays are those of before and possibly a new one, the
  destination starts with the bytes of the source, and no other tray of any process has changed.
\<close>

definition transferred ::
  "('w \<Rightarrow> cl_mem \<Rightarrow> byte list option) \<Rightarrow> (nat \<Rightarrow> nat \<Rightarrow> cl_mem list) \<Rightarrow> 'w xcl_proc list \<Rightarrow> int
     \<Rightarrow> nat \<times> nat \<times> nat \<Rightarrow> nat \<times> nat \<times> nat \<Rightarrow> 'w xcl_proc list \<Rightarrow> bool" where
  "transferred bytes T procs sz = (\<lambda>(a, i, t) (b, j, u) procs'. length procs' = length procs \<and>
     (\<exists>T' bs bd. (\<forall>q < length procs. trays_rel bytes (procs' ! q) (T' q) \<and> length (px_taskList (procs' ! q)) = length (px_taskList (procs ! q)))
       \<and> u < length (T' b j) \<and> bytes (px_cl (procs ! a)) (T a i ! t) = Some bs \<and> bytes (px_cl (procs' ! b)) (T' b j ! u) = Some bd
       \<and> take (nat sz) bd = take (nat sz) bs
       \<and> (\<forall>q < length procs. \<forall>k < length (px_taskList (procs ! q)). take (length (T q k)) (T' q k) = T q k
           \<and> (\<forall>v < length (T q k). (q, k, v) \<noteq> (b, j, u) \<longrightarrow>
                bytes (px_cl (procs' ! q)) (T q k ! v) = bytes (px_cl (procs ! q)) (T q k ! v)))))"

lemma transferredI:
  assumes rel: "\<forall>q < length procs. trays_rel bytes (procs ! q) (T q)"
    and b: "b < length procs" "trays_rel bytes p' T'" "length (px_taskList p') = length (px_taskList (procs ! b))"
    and u: "u < length (T' j)" "bytes (px_cl (procs ! a)) (T a i ! t) = Some bs" "bytes (px_cl p') (T' j ! u) = Some bd"
      "take (nat sz) bd = take (nat sz) bs"
    and others: "\<forall>k < length (px_taskList (procs ! b)). take (length (T b k)) (T' k) = T b k
       \<and> (\<forall>v < length (T b k). (k, v) \<noteq> (j, u) \<longrightarrow> bytes (px_cl p') (T b k ! v) = bytes (px_cl (procs ! b)) (T b k ! v))"
    and e: "\<And>q. q < length procs \<Longrightarrow> q \<noteq> b \<Longrightarrow> \<exists>n. procs' ! q = procs ! q \<or> procs' ! q = (procs ! q)\<lparr>px_MPIentityTypeSize := n\<rparr>"
      "procs' ! b = p'" "length procs' = length procs"
  shows "transferred bytes T procs sz (a, i, t) (b, j, u) procs'"
  unfolding transferred_def split_conv
proof (rule conjI [OF e(3)], rule exI [of _ "T(b := T')"], rule exI [of _ bs], rule exI [of _ bd],
    intro conjI allI impI, goal_cases)
  case (1 q) then show ?case using rel b e by (cases "q = b") fastforce+
next
  case (2 q) then show ?case using b e by (cases "q = b") fastforce+
next
  case (7 q k) then show ?case using others by (cases "q = b") auto
next
  case (8 q k v) then show ?case using others e by (cases "q = b") fastforce+
qed (use u e b in simp_all)

lemma own_task_simps:
  "k < length g \<Longrightarrow> own_task g r (int k) = Some (if r = ti_r_rank (g ! k) then Some (ti_l_taskIdx (g ! k)) else None)"
  by (simp add: own_task_def)

lemma same_device_other:
  "s < length g \<Longrightarrow> d < length g \<Longrightarrow> \<not> (r = ti_r_rank (g ! s) \<and> r = ti_r_rank (g ! d)) \<Longrightarrow>
     same_device g r (int s) (int d) p = Some False"
  by (auto simp: same_device_def)

lemma same_device_cl: "same_device g r s d (p\<lparr>px_cl := w\<rparr>) = same_device g r s d p"
  "same_device g r s d (p\<lparr>px_MPIentityTypeSize := n\<rparr>) = same_device g r s d p"
  by (simp_all add: same_device_def cong: if_cong)

text \<open>The copy inside one device.\<close>

lemma sendrecv_intra:
  fixes procs :: "'w xcl_proc list"
  assumes spec: "opencl_spec cl bytes" "opencl_resources cl bytes" and rel: "\<forall>q < length procs. trays_rel bytes (procs ! q) (T q)"
    and ok: "transfer_ok bytes T procs (count * tysz) (a, i, t) (a, j, u)"
    and src: "s < length g" "ti_r_rank (g ! s) = int a" "ti_l_taskIdx (g ! s) = int i"
    and dst: "d < length g" "ti_r_rank (g ! d) = int a" "ti_l_taskIdx (g ! d) = int j"
    and intra: "same_device g (int a) (int s) (int d) (procs ! a) = Some True" and u: "u < length (T a j)"
  shows "\<exists>procs'. OMPI_XclSendRecv cl True junk g (int s) (int t) (int d) (int u) count tysz procs = Some (Inr procs')
    \<and> transferred bytes T procs (count * tysz) (a, i, t) (a, j, u) procs'"
proof -
  let ?p = "procs ! a" and ?sz = "count * tysz"
  from ok have a: "a < length procs" "i < length (px_taskList ?p)" "t < length (T a i)" "j < length (px_taskList ?p)"
    and sz: "2 \<le> ?sz" "?sz \<le> INT_MAX" and ne: "(i, t) \<noteq> (j, u)" by (auto simp: transfer_ok_def)
  have rp: "trays_rel bytes ?p (T a)" using rel a(1) by simp
  obtain bs bd where b: "bytes (px_cl ?p) (T a i ! t) = Some bs" "bytes (px_cl ?p) (T a j ! u) = Some bd"
    using trays_relD(5) [OF rp] a u by (metis nth_mem)
  have len: "?sz \<le> int (length bs)" "?sz \<le> int (length bd)" using ok b u by (auto simp: transfer_ok_def)
  obtain w where cp: "intracpyBuffer cl (int i) (int t) (int j) (int u) ?sz ?p = Some (Inr (?p\<lparr>px_cl := w\<rparr>))"
    and rel': "trays_rel bytes (?p\<lparr>px_cl := w\<rparr>) (T a)"
    and w: "bytes w = (bytes (px_cl ?p))(T a j ! u \<mapsto> take (nat ?sz) bs @ drop (nat ?sz) bd)"
    using intracpyBuffer_rel [OF spec rp a(2,3) b(1) len(1) a(4) u b(2) len(2) ne] sz by auto
  let ?procs = "procs[a := ?p\<lparr>px_cl := w\<rparr>]"
  have other: "same_device g (int r) (int s) (int d) q = Some False" "own_task g (int r) (int s) = Some None"
    "own_task g (int r) (int d) = Some None" if "r \<noteq> a" for r and q :: "'w xcl_proc"
    using that src dst by (auto simp: same_device_other own_task_simps)
  have start: "efold (\<lambda>r (msgs, procs).
         ebind (sendrecv_start cl g (int r) (int s) (int t) (int d) (int u) count tysz (procs ! r))
           (\<lambda>(new, p). Some (Inr (msgs @ new, procs[r := p])))) [0..<length procs] ([], procs) = Some (Inr ([], ?procs))"
    using a(1) intra cp src dst other
    by (intro efold_one_rank [OF a(1)]) (simp_all add: sendrecv_start_def OMPI_XclSend_def)
  have finish: "efold (\<lambda>r procs.
         ebind (sendrecv_finish cl True junk g (int r) (int s) (int d) (int u) count tysz [] (procs ! r))
           (\<lambda>p. Some (Inr (procs[r := p])))) [0..<length procs] ?procs = Some (Inr ?procs)"
  proof (rule efold_no_rank)
    fix r assume "r < length procs"
    then show "ebind (sendrecv_finish cl True junk g (int r) (int s) (int d) (int u) count tysz [] (?procs ! r))
           (\<lambda>p. Some (Inr (?procs[r := p]))) = Some (Inr ?procs)"
      using intra other by (cases "r = a") (simp_all add: sendrecv_finish_def OMPI_XclRecv_def same_device_cl)
  qed
  have "OMPI_XclSendRecv cl True junk g (int s) (int t) (int d) (int u) count tysz procs = Some (Inr ?procs)"
    unfolding OMPI_XclSendRecv_def start using finish by simp
  moreover have "T a k ! v \<noteq> T a j ! u" if "k < length (px_taskList ?p)" "v < length (T a k)" "(k, v) \<noteq> (j, u)" for k v
    using trays_distinct [OF rp a(4) that(1) u that(2,3)] .
  then have "transferred bytes T procs ?sz (a, i, t) (a, j, u) ?procs"
    using a(1) rel rel' b(1) w u len
    by (intro transferredI [where T' = "T a" and bs = bs and bd = "take (nat ?sz) bs @ drop (nat ?sz) bd"
          and p' = "?p\<lparr>px_cl := w\<rparr>"]) auto
  ultimately show ?thesis by blast
qed

text \<open>The transfer by a message.\<close>

lemma sendrecv_message:
  fixes procs :: "'w xcl_proc list"
  assumes spec: "opencl_spec cl bytes" "opencl_resources cl bytes" and rel: "\<forall>q < length procs. trays_rel bytes (procs ! q) (T q)"
    and ok: "transfer_ok bytes T procs (count * tysz) (a, i, t) (b, j, u)"
    and src: "s < length g" "ti_r_rank (g ! s) = int a" "ti_l_taskIdx (g ! s) = int i"
    and dst: "d < length g" "ti_r_rank (g ! d) = int b" "ti_l_taskIdx (g ! d) = int j"
    and intra: "same_device g (int a) (int s) (int d) (procs ! a) = Some False"
  shows "\<exists>procs'. OMPI_XclSendRecv cl True junk g (int s) (int t) (int d) (int u) count tysz procs = Some (Inr procs')
    \<and> transferred bytes T procs (count * tysz) (a, i, t) (b, j, u) procs'"
proof -
  let ?sz = "count * tysz"
  from ok have a: "a < length procs" "i < length (px_taskList (procs ! a))" "t < length (T a i)"
    and b: "b < length procs" "j < length (px_taskList (procs ! b))" "u \<le> length (T b j)" "int (length (T b j)) < INT_MAX"
    and sz: "2 \<le> ?sz" "?sz \<le> INT_MAX" by (auto simp: transfer_ok_def)
  define pa where "pa = (procs ! a)\<lparr>px_MPIentityTypeSize := tysz\<rparr>"
  have ra: "trays_rel bytes pa (T a)" "i < length (px_taskList pa)" using rel a by (simp_all add: pa_def)
  obtain bs where bs: "bytes (px_cl pa) (T a i ! t) = Some bs"
    using trays_relD(5) [OF ra] a(3) by (metis nth_mem)
  have len: "?sz \<le> int (length bs)" using ok bs by (auto simp: transfer_ok_def pa_def)
  have rd: "readBuffer cl (int i) (int t) ?sz (replicate (nat ?sz) 0) pa = Some (Inr (take (nat ?sz) bs))"
    using readBuffer_rel [OF spec(1) ra a(3) _ _ sz(2) bs, of "replicate (nat ?sz) 0"] spec(2) sz(1) len by auto
  let ?msg = "\<lparr>msg_src = int a, msg_dest = int b, msg_tag = 0, msg_data = take (nat ?sz) bs\<rparr>"
  let ?procs = "procs[a := pa]"
  have sd: "same_device g (int r) (int s) (int d) (?procs ! r) = Some False"
    "same_device g (int r) (int s) (int d) (procs ! r) = Some False" if "r < length procs" for r
    using intra that src dst a(1) by (cases "r = a"; simp add: pa_def same_device_cl same_device_other)+
  have start: "efold (\<lambda>r (msgs, procs).
         ebind (sendrecv_start cl g (int r) (int s) (int t) (int d) (int u) count tysz (procs ! r))
           (\<lambda>(new, p). Some (Inr (msgs @ new, procs[r := p])))) [0..<length procs] ([], procs) = Some (Inr ([?msg], ?procs))"
    using a(1) rd src dst sd
    by (intro efold_one_rank [OF a(1)]) (simp_all add: sendrecv_start_def OMPI_XclSend_def own_task_simps pa_def Let_def)
  define pb where "pb = (?procs ! b)\<lparr>px_MPIentityTypeSize := tysz\<rparr>"
  have rb: "trays_rel bytes pb (T b)" "j < length (px_taskList pb)" and clb: "px_cl pb = px_cl (procs ! b)" and lb: "px_taskList pb = px_taskList (procs ! b)"
    using rel a b by (cases "a = b"; simp add: pb_def pa_def)+
  have host: "?sz \<le> int (length (take (nat ?sz) bs))" "length (take (nat ?sz) bs) = nat ?sz" using len by simp_all
  have sizes: "\<forall>bs. u < length (T b j) \<and> bytes (px_cl pb) (T b j ! u) = Some bs \<longrightarrow> ?sz \<le> int (length bs)"
    using ok clb by (auto simp: transfer_ok_def)
  obtain p' T' bd where recv: "ebind (initNewBuffer cl True junk (int j) (int u) ?sz pb) (writeBuffer cl (int j) (int u) ?sz (take (nat ?sz) bs)) = Some (Inr p')"
    and new: "trays_rel bytes p' T'" "length (px_taskList p') = length (px_taskList pb)" "u < length (T' j)"
      "bytes (px_cl p') (T' j ! u) = Some bd" "take (nat ?sz) bd = take (nat ?sz) (take (nat ?sz) bs)"
      "\<forall>k < length (px_taskList pb). take (length (T b k)) (T' k) = T b k
         \<and> (\<forall>v < length (T b k). (k, v) \<noteq> (j, u) \<longrightarrow> bytes (px_cl p') (T b k ! v) = bytes (px_cl pb) (T b k ! v))"
    using init_then_write [OF spec(1) rb b(3,4) sz host(1) refl, of junk] spec(2) sizes by blast
  have finish: "efold (\<lambda>r procs.
         ebind (sendrecv_finish cl True junk g (int r) (int s) (int d) (int u) count tysz [?msg] (procs ! r))
           (\<lambda>p. Some (Inr (procs[r := p])))) [0..<length procs] ?procs = Some (Inr (?procs[b := p']))"
    using b(1) recv src dst sd host(2) sz(1)
    by (intro efold_one_rank [OF b(1)]) (simp_all add: sendrecv_finish_def OMPI_XclRecv_def own_task_simps pb_def Let_def)
  have "OMPI_XclSendRecv cl True junk g (int s) (int t) (int d) (int u) count tysz procs = Some (Inr (?procs[b := p']))"
    unfolding OMPI_XclSendRecv_def start using finish by simp
  moreover have "transferred bytes T procs ?sz (a, i, t) (b, j, u) (?procs[b := p'])"
  proof (rule transferredI [OF rel b(1) new(1) _ new(3) _ new(4)])
    show "bytes (px_cl (procs ! a)) (T a i ! t) = Some bs" using bs by (simp add: pa_def)
    show "\<exists>n. ?procs[b := p'] ! q = procs ! q \<or> ?procs[b := p'] ! q = (procs ! q)\<lparr>px_MPIentityTypeSize := n\<rparr>"
      if "q < length procs" "q \<noteq> b" for q
      using that by (cases "q = a") (auto simp: pa_def)
  qed (use new lb clb b in \<open>simp_all\<close>)
  ultimately show ?thesis by blast
qed

text \<open>C7: All processes of a communicator call \<^verbatim>\<open>OMPI_XclSendRecv\<close> to move \<open>count * tysz\<close> bytes from
  a tray of one task to a tray of another; the source tray has that many bytes, and the
  destination is an existing tray of sufficient size or the next tray of its task, the latter
  only when the two tasks are not on the same device. With the resources at hand every process
  returns, the destination starts with the bytes of the source, and no other tray of any process
  changes, whether the copy is made inside a device or by a message.\<close>

theorem sendrecv_delivers:
  fixes procs :: "'w xcl_proc list"
  assumes "opencl_spec cl bytes" "opencl_resources cl bytes" "\<forall>q < length procs. trays_rel bytes (procs ! q) (T q)"
    and "transfer_ok bytes T procs (count * tysz) (a, i, t) (b, j, u)"
    and "s < length g" "ti_r_rank (g ! s) = int a" "ti_l_taskIdx (g ! s) = int i"
    and "d < length g" "ti_r_rank (g ! d) = int b" "ti_l_taskIdx (g ! d) = int j"
    and "same_device g (int a) (int s) (int d) (procs ! a) = Some intra" "intra \<longrightarrow> u < length (T b j)"
  shows "\<exists>procs'. OMPI_XclSendRecv cl True junk g (int s) (int t) (int d) (int u) count tysz procs = Some (Inr procs')
    \<and> transferred bytes T procs (count * tysz) (a, i, t) (b, j, u) procs'"
proof (cases intra)
  case True
  then have "same_device g (int a) (int s) (int d) (procs ! a) = Some True" using assms(11) by simp
  moreover from this have "b = a" using assms(5-10) by (auto simp: same_device_def split: if_splits)
  ultimately show ?thesis using sendrecv_intra [of cl bytes procs T count tysz a i t j u s g d junk] assms True by simp
next
  case False
  then show ?thesis using sendrecv_message [of cl bytes procs T count tysz a i t b j u s g d junk] assms by simp
qed

definition sample_sender :: "cl_heap xcl_proc" where
  "sample_sender = \<lparr>px_taskList = [\<lparr>tk_device = Some 0, tk_numTrays = 1, tk_trayInfo = Some 0, tk_Rack = 0\<rparr>],
     px_devices = [\<lparr>dv_deviceId = 0, dv_context = 0, dv_queue = 0, dv_numRacks = 1, dv_memHandler = Some [Some [Some 0]]\<rparr>],
     px_tskbufferSize = [], px_MPIentityTypeSize = 0, px_ePerRank = 0, px_cl = [Some [1, 2, 3]]\<rparr>"

lemma sample_sender_rel: "trays_rel heap_bytes sample_sender (\<lambda>_. [0])"
  by (simp add: trays_rel_def locs_ok_def sample_sender_def rack_place_def inj_on_def
      get_rack_def task_device_def aget_def heap_bytes_def)

theorem sendrecv_delivers_witness:
  "\<exists>procs'. OMPI_XclSendRecv heap_opencl True 0 [info_of 0 (0, 0), info_of 1 (1, 0)] 0 0 1 0 3 1 [sample_sender, sample_proc] = Some (Inr procs')
    \<and> transferred heap_bytes (\<lambda>q _. if q = 0 then [0] else []) [sample_sender, sample_proc] 3 (0, 0, 0) (1, 0, 0) procs'"
proof -
  let ?T = "\<lambda>q (k :: nat). if q = 0 then [0] else []" and ?g = "[info_of 0 (0, 0), info_of 1 (1, 0)]"
  have "\<forall>q < length [sample_sender, sample_proc]. trays_rel heap_bytes ([sample_sender, sample_proc] ! q) (?T q)"
    using sample_sender_rel sample_proc_rel by (auto simp: less_Suc_eq)
  moreover have "transfer_ok heap_bytes ?T [sample_sender, sample_proc] (3 * 1) (0, 0, 0) (1, 0, 0)"
    by (simp add: transfer_ok_def sample_sender_def sample_proc_def INT_MAX_def heap_bytes_def)
  moreover have "same_device ?g (int 0) (int 0) (int 1) ([sample_sender, sample_proc] ! 0) = Some False"
    by (simp add: same_device_def info_of_def aget_def)
  ultimately show ?thesis
    using sendrecv_delivers [OF heap_opencl_spec heap_opencl_resources, of "[sample_sender, sample_proc]" ?T 3 1 0 0 0 1 0 0 0 ?g 1 False 0]
    by (simp add: info_of_def)
qed

section \<open>Allocating another tray than the first one first\<close>

lemma create_tray_outside:
  assumes "get_rack p i = Some (Some cells)" "int (length cells) \<le> t"
  shows "create_tray cl p i t sz = None"
  using assms by (auto simp: create_tray_def set_tray_def aset_def bind_eq_None_conv Let_def split: prod.splits)

text \<open>The first allocation of a task, made for a tray other than tray 0: the rack gets
  \<open>trayIdx + 8\<close> bytes (\<^verbatim>\<open>trayIdx+1 * sizeof(cl_mem)\<close>), which is too little for the
  \<open>trayIdx + 1\<close> memory objects stored into it, and the code writes past its end.\<close>

lemma first_tray_out_of_order:
  assumes spec: "opencl_resources cl bytes" and rel: "trays_rel bytes p T" "i < length (px_taskList p)" "T i = []"
    and own: "own_task g_taskList r g = Some (Some (int i))"
    and t: "1 \<le> t" "int t < INT_MAX" and sz: "0 < sz" "sz \<le> INT_MAX"
  shows "OMPI_XclMallocTaskBuffer cl True junk g_taskList r g (int t) sz p = None"
proof -
  let ?t = "\<lambda>k. k\<lparr>tk_trayInfo := Some junk, tk_numTrays := int t + 1\<rparr>" and ?c = "(t + 8) div 8"
  let ?body = "\<lambda>j p. do {(status, p) \<leftarrow> create_tray cl p (int i) (int j) sz; chkerr status p}"
  define p1 where "p1 = p\<lparr>px_taskList := (px_taskList p)[i := ?t (px_taskList p ! i)]\<rparr>"
  have p1: "set_task p (int i) ?t = Some p1" "locs_ok p1"
    unfolding p1_def using set_task_eq [of i p ?t] trays_relD(1) [OF rel(1,2)] rel(2) by simp_all
  have l1: "i < length (px_taskList p1)" using rel(2) by (simp add: p1_def)
  obtain p2 where p2: "set_rack p1 (int i) (Some (replicate ?c None)) = Some p2" "locs_ok p2" "px_taskList p2 = px_taskList p1"
    "get_rack p2 (int i) = Some (Some (replicate ?c None))"
    using set_rack_eq [OF p1(2) l1, of "Some (replicate ?c None)"] by metis
  let ?P = "\<lambda>m p. locs_ok p \<and> i < length (px_taskList p) \<and> (\<exists>cells. get_rack p (int i) = Some (Some cells) \<and> length cells = ?c)"
  have "\<exists>p. efold ?body [0..<?c] p2 = Some (Inr p) \<and> ?P ?c p"
  proof (rule efold_upt_inv [where P = ?P], goal_cases)
    case 1 then show ?case using p2 l1 by simp
  next
    case (2 j q)
    then obtain cells where q: "locs_ok q" "i < length (px_taskList q)" "get_rack q (int i) = Some (Some cells)" "length cells = ?c" by blast
    obtain c s m w q' where c: "clCreateBuffer cl c (size_t sz) (px_cl q) = (s, m, w)"
      and cr: "create_tray cl q (int i) (int j) sz = Some (s, q'\<lparr>px_cl := w\<rparr>)"
      and q': "locs_ok q'" "px_taskList q' = px_taskList q" "get_rack q' (int i) = Some (Some (cells[j := Some m]))"
      using create_tray_eq [OF q(1-3), of j cl sz] 2(1) q(4) by auto
    have "s = 0" using opencl_resourcesD(1) [OF spec c] sz by (simp add: size_t_id)
    then show ?case using cr q' q by (simp add: chkerr_def)
  qed
  then obtain q cells where q: "efold ?body [0..<?c] p2 = Some (Inr q)" "get_rack q (int i) = Some (Some cells)" "length cells = ?c" by auto
  have "?c \<le> t" using t(1) by linarith
  then have "[0..<Suc t] = [0..<?c] @ ?c # [Suc ?c..<Suc t]"
    using upt_add_eq_append [of 0 ?c "Suc t - ?c"] upt_conv_Cons [of ?c "Suc t"] by simp
  moreover have "?body ?c q = None" using create_tray_outside [OF q(2)] q(3) by simp
  ultimately have "efold ?body [0..<Suc t] p2 = None" using q(1) by (simp add: efold_append)
  moreover have "nat (int t + 1) = Suc t" "nat ((int t + 8) div 8) = ?c" by (simp_all add: nat_div_distrib nat_add_distrib)
  ultimately have "initNewBuffer cl True junk (int i) (int t) sz p = None"
    using trays_relD(2) [OF rel(1,2)] rel(2,3) p1(1) p2(1) t(2)
    by (simp add: initNewBuffer_def Let_def int_add_def)
  then show ?thesis using own by (simp add: OMPI_XclMallocTaskBuffer_def)
qed

end
