(* ===== verification/XCL_Float.thy ===== *)
theory XCL_Float
  imports Complex_Main OMPI_Prelude
begin

text \<open>
  Single precision arithmetic as \<^verbatim>\<open>ALL_TASKS_initBuffer\<close> uses it: the conversion of an \<^verbatim>\<open>int\<close> to
  \<^verbatim>\<open>float\<close>, the division of two floats, \<^verbatim>\<open>floorf\<close> and \<^verbatim>\<open>ceilf\<close>. A float is a mantissa and an
  exponent, \<open>(m, e)\<close> for \<open>m * 2 ^ e\<close>; a result is rounded to 24 bits, to nearest and on a tie to
  the even mantissa. The values here neither overflow nor underflow the exponent range.
\<close>

type_synonym f32 = "int \<times> int"

text \<open>Scaling a positive fraction until its value is at least \<open>2 ^ 23\<close> and below \<open>2 ^ 24\<close>.\<close>

function norm_up :: "nat \<Rightarrow> nat \<Rightarrow> int \<Rightarrow> nat \<times> nat \<times> int" where
  "norm_up n d e = (if n = 0 \<or> 8388608 * d \<le> n then (n, d, e) else norm_up (2 * n) d (e - 1))"
  by pat_completeness auto
termination
  by (relation "measure (\<lambda>(n, d, e). 8388608 * d - n)") auto

function norm_down :: "nat \<Rightarrow> nat \<Rightarrow> int \<Rightarrow> nat \<times> nat \<times> int" where
  "norm_down n d e = (if d = 0 \<or> n < 16777216 * d then (n, d, e) else norm_down n (2 * d) (e + 1))"
  by pat_completeness auto
termination
  by (relation "measure (\<lambda>(n, d, e). n - d)") auto

declare norm_up.simps [simp del] norm_down.simps [simp del]

definition round_even :: "nat \<Rightarrow> nat \<Rightarrow> nat" where
  "round_even n d = (let q = n div d; r = n mod d in
     if 2 * r < d then q else if d < 2 * r then q + 1 else if even q then q else q + 1)"

text \<open>The float nearest to \<open>n / d * 2 ^ e\<close>.\<close>

definition f32_round :: "nat \<Rightarrow> nat \<Rightarrow> int \<Rightarrow> f32" where
  "f32_round n d e =
     (if n = 0 then (0, 0)
      else case norm_up n d e of (n, d, e) \<Rightarrow> case norm_down n d e of (n, d, e) \<Rightarrow> (int (round_even n d), e))"

definition f32_neg :: "f32 \<Rightarrow> f32" where
  "f32_neg x = (- fst x, snd x)"

definition f32_of_int :: "int \<Rightarrow> f32" where
  "f32_of_int i = (if i < 0 then f32_neg (f32_round (nat (- i)) 1 0) else f32_round (nat i) 1 0)"

text \<open>Division by a positive float.\<close>

definition f32_div :: "f32 \<Rightarrow> f32 \<Rightarrow> f32" where
  "f32_div x y =
     (if fst x < 0 then f32_neg (f32_round (nat (- fst x)) (nat (fst y)) (snd x - snd y))
      else f32_round (nat (fst x)) (nat (fst y)) (snd x - snd y))"

definition floorf :: "f32 \<Rightarrow> int" where
  "floorf x = (if 0 \<le> snd x then fst x * 2 ^ nat (snd x) else fst x div 2 ^ nat (- snd x))"

definition ceilf :: "f32 \<Rightarrow> int" where
  "ceilf x = - floorf (f32_neg x)"

section \<open>The value of a float\<close>

definition f32_val :: "f32 \<Rightarrow> real" where
  "f32_val x = real_of_int (fst x) * 2 powi snd x"

lemma f32_val_neg [simp]: "f32_val (f32_neg x) = - f32_val x"
  by (simp add: f32_val_def f32_neg_def)

lemma floorf_val: "floorf x = \<lfloor>f32_val x\<rfloor>"
proof (cases "0 \<le> snd x")
  case True
  then have "f32_val x = real_of_int (fst x * 2 ^ nat (snd x))"
    by (simp add: f32_val_def power_int_def)
  then show ?thesis using True by (simp only: floorf_def floor_of_int if_True)
next
  case False
  then have "f32_val x = real_of_int (fst x) / real_of_int (2 ^ nat (- snd x))"
    by (simp add: f32_val_def power_int_def field_simps)
  then show ?thesis using False by (simp only: floorf_def floor_divide_of_int_eq if_False)
qed

lemma ceilf_val: "ceilf x = \<lceil>f32_val x\<rceil>"
  by (simp add: ceilf_def floorf_val ceiling_def)

section \<open>The rounding error\<close>

lemma norm_up_val:
  assumes "norm_up n d e = (n', d', e')" "0 < n" "0 < d"
  shows "0 < n' \<and> d' = d \<and> 8388608 * d' \<le> n' \<and> real n' / real d' * 2 powi e' = real n / real d * 2 powi e"
  using assms
proof (induction n d e rule: norm_up.induct)
  case (1 n d e)
  show ?case
  proof (cases "8388608 * d \<le> n")
    case True
    then show ?thesis using 1 by (simp add: norm_up.simps)
  next
    case False
    then have "norm_up (2 * n) d (e - 1) = (n', d', e')" using 1 by (simp add: norm_up.simps)
    then have "0 < n' \<and> d' = d \<and> 8388608 * d' \<le> n' \<and> real n' / real d' * 2 powi e' = real (2 * n) / real d * 2 powi (e - 1)"
      by (rule "1.IH" [rotated]) (use False "1.prems" in auto)
    moreover have "real (2 * n) / real d * 2 powi (e - 1) = real n / real d * 2 powi e" by (simp add: power_int_diff)
    ultimately show ?thesis by metis
  qed
qed

lemma norm_down_val:
  assumes "norm_down n d e = (n', d', e')" "8388608 * d \<le> n" "0 < d"
  shows "0 < d' \<and> 8388608 * d' \<le> n' \<and> real n' / real d' * 2 powi e' = real n / real d * 2 powi e"
  using assms
proof (induction n d e rule: norm_down.induct)
  case (1 n d e)
  show ?case
  proof (cases "n < 16777216 * d")
    case True
    then show ?thesis using 1 by (simp add: norm_down.simps)
  next
    case False
    then have "norm_down n (2 * d) (e + 1) = (n', d', e')" using 1 by (simp add: norm_down.simps)
    then have "0 < d' \<and> 8388608 * d' \<le> n' \<and> real n' / real d' * 2 powi e' = real n / real (2 * d) * 2 powi (e + 1)"
      by (rule "1.IH" [rotated]) (use False "1.prems" in auto)
    then show ?thesis by (simp add: power_int_add)
  qed
qed

lemma round_even_error: "0 < d \<Longrightarrow> \<bar>real (round_even n d) - real n / real d\<bar> \<le> 1 / 2"
proof -
  assume d: "0 < d"
  have "real n = real (n div d) * real d + real (n mod d)"
    by (metis div_mult_mod_eq of_nat_add of_nat_mult)
  then have n: "real n / real d = real (n div d) + real (n mod d) / real d" using d by (simp add: field_simps)
  have "real (n mod d) / real d < 1" using d by simp
  moreover have "2 * (n mod d) < d \<Longrightarrow> real (n mod d) / real d < 1 / 2" using d by (simp add: field_simps)
  moreover have "d \<le> 2 * (n mod d) \<Longrightarrow> 1 / 2 \<le> real (n mod d) / real d" using d by (simp add: field_simps)
  moreover have "2 * (n mod d) \<le> d \<Longrightarrow> real (n mod d) / real d \<le> 1 / 2" using d by (simp add: field_simps)
  moreover have "0 \<le> real (n mod d) / real d" by simp
  ultimately show ?thesis unfolding n by (auto simp: round_even_def Let_def)
qed

lemma round_even_exact: "0 < d \<Longrightarrow> round_even (q * d) d = q"
  by (simp add: round_even_def)

lemma f32_round_form:
  assumes "0 < n" "0 < d"
  obtains n' d' e' where "f32_round n d e = (int (round_even n' d'), e')" "0 < d'" "8388608 * d' \<le> n'"
    "real n' / real d' * 2 powi e' = real n / real d * 2 powi e"
proof -
  obtain n1 d1 e1 where 1: "norm_up n d e = (n1, d1, e1)" by (cases "norm_up n d e")
  obtain n2 d2 e2 where 2: "norm_down n1 d1 e1 = (n2, d2, e2)" by (cases "norm_down n1 d1 e1")
  note a = norm_up_val [OF 1 assms]
  then have b: "0 < d2 \<and> 8388608 * d2 \<le> n2 \<and> real n2 / real d2 * 2 powi e2 = real n1 / real d1 * 2 powi e1"
    using norm_down_val [OF 2] assms by simp
  have "f32_round n d e = (int (round_even n2 d2), e2)" using 1 2 assms by (simp add: f32_round_def)
  with a b show ?thesis using that by metis
qed

lemma f32_round_error:
  assumes "0 < n" "0 < d"
  shows "\<bar>f32_val (f32_round n d e) - real n / real d * 2 powi e\<bar> \<le> real n / real d * 2 powi e / 16777216"
proof -
  obtain n' d' e' where f: "f32_round n d e = (int (round_even n' d'), e')" "0 < d'" "8388608 * d' \<le> n'"
    "real n' / real d' * 2 powi e' = real n / real d * 2 powi e"
    using f32_round_form [OF assms] by metis
  let ?u = "2 powi e' :: real"
  have u: "0 < ?u" by simp
  have "8388608 \<le> real n' / real d'" using f(2,3) by (simp add: pos_le_divide_eq flip: of_nat_mult)
  then have "1 / 2 \<le> real n' / real d' / 16777216" by simp
  with round_even_error [OF f(2), of n'] have "\<bar>real (round_even n' d') - real n' / real d'\<bar> \<le> real n' / real d' / 16777216" by linarith
  then have "\<bar>real (round_even n' d') - real n' / real d'\<bar> * ?u \<le> real n' / real d' / 16777216 * ?u"
    using u by (intro mult_right_mono) simp_all
  moreover have "\<bar>real (round_even n' d') - real n' / real d'\<bar> * ?u = \<bar>real (round_even n' d') * ?u - real n' / real d' * ?u\<bar>"
    by (metis abs_mult abs_of_pos left_diff_distrib u)
  ultimately show ?thesis unfolding f(4) [symmetric] f(1) by (simp add: f32_val_def)
qed

text \<open>A whole number up to \<open>2 ^ 24\<close> is represented exactly.\<close>

lemma f32_round_exact:
  assumes "0 < n" "0 < d" "real n / real d * 2 powi e = real x" "x \<le> 16777216"
  shows "f32_val (f32_round n d e) = real x"
proof -
  obtain n' d' e' where f: "f32_round n d e = (int (round_even n' d'), e')" "0 < d'" "8388608 * d' \<le> n'"
    "real n' / real d' * 2 powi e' = real x"
    using f32_round_form [OF assms(1,2)] assms(3) by metis
  have ge: "8388608 \<le> real n' / real d'" using f(2,3) by (simp add: pos_le_divide_eq flip: of_nat_mult)
  obtain q where q: "n' = q * d'"
  proof (cases "e' \<le> 0")
    case True
    then have "(2 :: real) powi e' = 1 / 2 ^ nat (- e')" by (cases "e' = 0") (simp_all add: power_int_def field_simps)
    with f(2,4) have "real n' = real (x * 2 ^ nat (- e') * d')" by (simp add: field_simps)
    then have "n' = x * 2 ^ nat (- e') * d'" by (simp only: of_nat_eq_iff)
    then show ?thesis by (rule that)
  next
    case False
    then have two: "(2 :: real) \<le> 2 powi e'" using power_int_increasing [of 1 e' "2 :: real"] by simp
    have "8388608 * 2 powi e' \<le> real n' / real d' * 2 powi e'" using ge by (intro mult_right_mono) simp_all
    with f(4) assms(4) have "8388608 * 2 powi e' \<le> (16777216 :: real)" by linarith
    with two have eq: "(2 :: real) powi e' = 2" by linarith
    define z where "z = real n' / real d'"
    have "z * 2 \<le> 16777216" using f(4) [unfolded eq] assms(4) unfolding z_def by linarith
    with ge have "real n' / real d' = 8388608" unfolding z_def [symmetric] by linarith
    then have "real n' = real (8388608 * d')" using f(2) by (simp add: field_simps)
    then have "n' = 8388608 * d'" by (simp only: of_nat_eq_iff)
    then show ?thesis by (rule that)
  qed
  then have "real (round_even n' d') = real n' / real d'" using f(2) by (simp add: round_even_exact)
  then show ?thesis using f(4) by (simp add: f(1) f32_val_def)
qed

lemma f32_of_int_val: "0 \<le> i \<Longrightarrow> i \<le> 16777216 \<Longrightarrow> f32_val (f32_of_int i) = real_of_int i"
proof (cases "i = 0")
  case False
  assume i: "0 \<le> i" "i \<le> 16777216"
  then show ?thesis using f32_round_exact [of "nat i" 1 0 "nat i"] False by (simp add: f32_of_int_def)
qed (simp add: f32_of_int_def f32_round_def f32_val_def)

lemma div_shift: "0 < k \<Longrightarrow> 0 \<le> a \<Longrightarrow> a \<le> k - 1 \<Longrightarrow> (a + q * k) div k = q" for k a q :: int
  by (simp add: div_pos_pos_trivial)

lemma ceil_div:
  fixes n k :: int
  assumes "0 < k"
  shows "(n + k - 1) div k = (if n mod k = 0 then n div k else n div k + 1)"
proof -
  define q r where "q = n div k" and "r = n mod k"
  have n: "n = q * k + r" and r: "0 \<le> r" "r < k" using assms by (simp_all add: q_def r_def)
  have "n + k - 1 = (if r = 0 then k - 1 else r - 1) + (if r = 0 then q else q + 1) * k"
    using n by (auto simp: distrib_right)
  then have "(n + k - 1) div k = (if r = 0 then q else q + 1)"
    using div_shift [of k "if r = 0 then k - 1 else r - 1" "if r = 0 then q else q + 1"] r assms by (simp only: split: if_splits) auto
  then show ?thesis by (simp only: q_def r_def)
qed

text \<open>
  The quotient of two whole numbers below \<open>2 ^ 24\<close>: rounded to single precision it still has the
  right floor and ceiling.
\<close>

lemma f32_div_floor_ceil:
  assumes n: "0 \<le> n" "n < 16777216" and k: "0 < k" "k \<le> 16777216"
  shows "floorf (f32_div (f32_of_int n) (f32_of_int k)) = n div k"
    and "ceilf (f32_div (f32_of_int n) (f32_of_int k)) = (n + k - 1) div k"
proof -
  let ?x = "f32_of_int n" and ?y = "f32_of_int k" and ?v = "real_of_int n / real_of_int k"
  have vx: "f32_val ?x = real_of_int n" and vy: "f32_val ?y = real_of_int k"
    using f32_of_int_val n k by simp_all
  have pos: "\<not> (2 :: real) powi m < 0" "(2 :: real) powi m \<noteq> 0" for m by (simp_all add: not_less)
  have "0 < real_of_int (fst ?y) * 2 powi snd ?y" using vy k by (simp add: f32_val_def)
  then have y: "0 < fst ?y"
    by (auto simp: zero_less_mult_iff pos)
  have "0 \<le> real_of_int (fst ?x) * 2 powi snd ?x" using vx n by (simp add: f32_val_def)
  then have x: "0 \<le> fst ?x"
    using zero_less_power_int [of "2 :: real" "snd ?x"] by (metis mult_neg_pos not_less of_int_0_le_iff zero_less_numeral)
  have div: "f32_div ?x ?y = f32_round (nat (fst ?x)) (nat (fst ?y)) (snd ?x - snd ?y)" using x by (simp add: f32_div_def)
  have ratio: "real (nat (fst ?x)) / real (nat (fst ?y)) * 2 powi (snd ?x - snd ?y) = ?v"
    using vx [symmetric] vy [symmetric] x y by (simp add: f32_val_def power_int_diff)
  define q where "q = n div k"
  let ?f = "f32_val (f32_div ?x ?y)"
  define r where "r = n mod k"
  have nq: "n = q * k + r" by (simp add: q_def r_def)
  have q0: "0 \<le> q" using assms by (simp add: q_def pos_imp_zdiv_nonneg_iff)
  show "floorf (f32_div ?x ?y) = n div k" "ceilf (f32_div ?x ?y) = (n + k - 1) div k"
    unfolding floorf_val ceilf_val
  proof -
    have "\<lfloor>?f\<rfloor> = q \<and> \<lceil>?f\<rceil> = (n + k - 1) div k"
    proof (cases "r = 0")
      case True
      then have n: "n = q * k" using nq by simp
      have "?f = real_of_int q"
      proof (cases "n = 0")
        case True
        then have "fst ?x = 0" by (simp add: f32_of_int_def f32_round_def)
        then show ?thesis using True by (simp add: f32_div_def f32_round_def f32_val_def q_def)
      next
        case False
        have "?v = real_of_int q" using n k(1) by (metis nonzero_mult_div_cancel_right of_int_eq_0_iff of_int_mult less_irrefl)
        then have "?v = real (nat q)" using q0 by simp
        moreover have "0 < fst ?x" using False vx x by (cases "fst ?x = 0") (simp_all add: f32_val_def)
        moreover have "q \<le> n" unfolding q_def using zdiv_mono2 [of n 1 k] assms(1) k(1) by simp
        then have "nat q \<le> 16777216" using assms(2) by simp
        ultimately show ?thesis
          using f32_round_exact [of "nat (fst ?x)" "nat (fst ?y)" "snd ?x - snd ?y" "nat q"] y ratio q0
          by (simp add: div)
      qed
      moreover have "(n + k - 1) div k = q" using ceil_div [OF k(1), of n] True by (simp add: q_def r_def)
      ultimately show ?thesis by simp
    next
      case False
      then have rr: "1 \<le> r" "r \<le> k - 1" using k(1) pos_mod_bound [of k n] pos_mod_sign [of k n] unfolding r_def by linarith+
      have n0: "0 < n" using False n(1) by (cases "n = 0") (auto simp: r_def)
      have v: "?v = real_of_int q + real_of_int r / real_of_int k"
        unfolding nq using k(1) by (simp add: add_divide_distrib)
      have "0 < fst ?x" using n0 vx x by (cases "fst ?x = 0") (simp_all add: f32_val_def)
      then have "\<bar>?f - ?v\<bar> \<le> ?v / 16777216"
        using f32_round_error [of "nat (fst ?x)" "nat (fst ?y)" "snd ?x - snd ?y"] y unfolding div ratio by simp
      also have "\<dots> < 1 / real_of_int k" using n k by (simp add: field_simps)
      finally have err: "\<bar>?f - ?v\<bar> < 1 / real_of_int k" .
      have "1 / real_of_int k \<le> real_of_int r / real_of_int k" using rr k by (simp add: divide_right_mono)
      moreover have "real_of_int r / real_of_int k \<le> real_of_int (k - 1) / real_of_int k"
        using rr k by (intro divide_right_mono) simp_all
      then have "real_of_int r / real_of_int k \<le> 1 - 1 / real_of_int k" using k by (simp add: diff_divide_distrib)
      ultimately have "real_of_int q < ?f" "?f < real_of_int q + 1" using err v by linarith+
      then have "\<lfloor>?f\<rfloor> = q" "\<lceil>?f\<rceil> = q + 1" by linarith+
      moreover have "(n + k - 1) div k = q + 1" using ceil_div [OF k(1), of n] False by (simp add: q_def r_def)
      ultimately show ?thesis by simp
    qed
    then show "\<lfloor>?f\<rfloor> = n div k" "\<lceil>?f\<rceil> = (n + k - 1) div k" by (simp_all add: q_def)
  qed
qed

end
