(* ===== verification/XCL_Exec.thy ===== *)
theory XCL_Exec
  imports XCL_Buffers XCL_Float "HOL-Library.Log_Nat"
begin

text \<open>
  Programs, kernels and their launch (\<^verbatim>\<open>ompi/mpiext/XCLFrame/multiDeviceMgmt/taskMgmt\<close> and
  \<^verbatim>\<open>c/binding/tskMgmt/tskExec.c\<close>). Every task compiles the same source and creates the same kernel.
  A launch takes a format string: each conversion sets the next kernel argument from the next
  variable argument; then a thread is started that runs the kernel on the queue of the device.
\<close>

section \<open>OpenCL\<close>

text \<open>The value of a kernel argument: the bytes \<^verbatim>\<open>arg_value\<close> points to, by their C type.\<close>

datatype karg = KInt int | KFloat f32 | KBytes "byte list" | KMem cl_mem

record 'w cl_kernels =
  clCreateProgramWithSource :: "int \<Rightarrow> string \<Rightarrow> 'w \<Rightarrow> int \<times> nat \<times> 'w"
  clBuildProgram :: "nat \<Rightarrow> int \<Rightarrow> 'w \<Rightarrow> int \<times> 'w"
  clCreateKernel :: "nat \<Rightarrow> string \<Rightarrow> 'w \<Rightarrow> int \<times> nat \<times> 'w"
  clGetKernelNumArgs :: "nat \<Rightarrow> 'w \<Rightarrow> int \<times> int"
  clSetKernelArg :: "nat \<Rightarrow> nat \<Rightarrow> karg \<Rightarrow> 'w \<Rightarrow> int \<times> 'w"
  clEnqueueNDRangeKernel :: "int \<Rightarrow> nat \<Rightarrow> int \<Rightarrow> int list \<Rightarrow> int list \<Rightarrow> 'w \<Rightarrow> int \<times> 'w"

section \<open>State\<close>

text \<open>
  The pointers of a task to its program and kernel, \<^const>\<open>None\<close> while they are uninitialised.
  What a launch hands to its thread; \<^verbatim>\<open>globalThreads\<close> and \<^verbatim>\<open>localThreads\<close> are an address and the
  array there.
\<close>

record task_code =
  tc_CLprogram :: "nat option"
  tc_kernel :: "nat option"
  tc_numArgs :: "int option"

type_synonym size_ptr = "int \<times> int list"

record enqueueArgs_t =
  ea_globalThreads :: size_ptr
  ea_localThreads :: size_ptr
  ea_queue :: int
  ea_kernel :: nat
  ea_workDim :: int

record 'w xcl_exec =
  xe_proc :: "'w xcl_proc"
  xe_code :: "task_code list"
  xe_thds :: "thread list option"
  xe_th_Args :: "enqueueArgs_t option list option"

definition set_cl :: "'w xcl_exec \<Rightarrow> 'w \<Rightarrow> 'w xcl_exec" where
  "set_cl s w = s\<lparr>xe_proc := (xe_proc s)\<lparr>px_cl := w\<rparr>\<rparr>"

definition set_code :: "'w xcl_exec \<Rightarrow> nat \<Rightarrow> (task_code \<Rightarrow> task_code) \<Rightarrow> 'w xcl_exec option" where
  "set_code s i f = do {
     c \<leftarrow> aget (xe_code s) (int i);
     l \<leftarrow> aset (xe_code s) (int i) (f c);
     Some (s\<lparr>xe_code := l\<rparr>)
   }"

section \<open>Programs and kernels\<close>

text \<open>\<^verbatim>\<open>source\<close> is the content of the file, \<^const>\<open>None\<close> when it cannot be opened.\<close>

definition create_program :: "'w cl_kernels \<Rightarrow> string option \<Rightarrow> nat \<Rightarrow> 'w xcl_exec \<Rightarrow> (int + 'w xcl_exec) option" where
  "create_program ck source i s =
     (case source of
        None \<Rightarrow> Some (Inl 1)
      | Some text \<Rightarrow> do {
          (t, d, dev) \<leftarrow> task_device (xe_proc s) (int i);
          let (status, p, w) = clCreateProgramWithSource ck (dv_context dev) text (px_cl (xe_proc s));
          s \<leftarrow> set_code (set_cl s w) i (\<lambda>c. c\<lparr>tc_CLprogram := Some p\<rparr>);
          chkerr status s
        })"

definition createProgram :: "'w cl_kernels \<Rightarrow> string option \<Rightarrow> int \<Rightarrow> 'w xcl_exec \<Rightarrow> (int + 'w xcl_exec) option" where
  "createProgram ck source numTasks = efold (create_program ck source) [0..<nat numTasks]"

definition CL_BUILD_PROGRAM_FAILURE :: int where "CL_BUILD_PROGRAM_FAILURE = - 11"

text \<open>After a failed build the terminator of the log is stored one byte past its allocation.\<close>

definition build_program :: "'w cl_kernels \<Rightarrow> nat \<Rightarrow> 'w xcl_exec \<Rightarrow> (int + 'w xcl_exec) option" where
  "build_program ck i s = do {
     (t, d, dev) \<leftarrow> task_device (xe_proc s) (int i);
     c \<leftarrow> aget (xe_code s) (int i);
     p \<leftarrow> tc_CLprogram c;
     let (status, w) = clBuildProgram ck p (dv_deviceId dev) (px_cl (xe_proc s));
     if status = CL_BUILD_PROGRAM_FAILURE then None else chkerr status (set_cl s w)
   }"

definition buildProgram :: "'w cl_kernels \<Rightarrow> int \<Rightarrow> 'w xcl_exec \<Rightarrow> (int + 'w xcl_exec) option" where
  "buildProgram ck numTasks = efold (build_program ck) [0..<nat numTasks]"

definition create_kernel :: "'w cl_kernels \<Rightarrow> string \<Rightarrow> nat \<Rightarrow> 'w xcl_exec \<Rightarrow> (int + 'w xcl_exec) option" where
  "create_kernel ck kernelName i s = do {
     c \<leftarrow> aget (xe_code s) (int i);
     p \<leftarrow> tc_CLprogram c;
     let (status, k, w) = clCreateKernel ck p kernelName (px_cl (xe_proc s));
     s \<leftarrow> set_code (set_cl s w) i (\<lambda>c. c\<lparr>tc_kernel := Some k\<rparr>);
     chkerr status s
   }"

definition createKernel :: "'w cl_kernels \<Rightarrow> string \<Rightarrow> int \<Rightarrow> 'w xcl_exec \<Rightarrow> (int + 'w xcl_exec) option" where
  "createKernel ck kernelName numTasks = efold (create_kernel ck kernelName) [0..<nat numTasks]"

definition kernel_xplor :: "'w cl_kernels \<Rightarrow> nat \<Rightarrow> 'w xcl_exec \<Rightarrow> (int + 'w xcl_exec) option" where
  "kernel_xplor ck i s = do {
     c \<leftarrow> aget (xe_code s) (int i);
     k \<leftarrow> tc_kernel c;
     let (status, numArgs) = clGetKernelNumArgs ck k (px_cl (xe_proc s));
     if status \<noteq> 0 then Some (Inl 1)
     else do {s \<leftarrow> set_code s i (\<lambda>c. c\<lparr>tc_numArgs := Some numArgs\<rparr>); Some (Inr s)}
   }"

definition kernelXplor :: "'w cl_kernels \<Rightarrow> int \<Rightarrow> 'w xcl_exec \<Rightarrow> (int + 'w xcl_exec) option" where
  "kernelXplor ck numTasks = efold (kernel_xplor ck) [0..<nat numTasks]"

definition XclCreateKernel ::
  "'w cl_kernels \<Rightarrow> string option \<Rightarrow> string \<Rightarrow> int \<Rightarrow> 'w xcl_exec \<Rightarrow> (int + 'w xcl_exec) option" where
  "XclCreateKernel ck source kernelName numTasks s =
     ebind (createProgram ck source numTasks s) (\<lambda>s.
     ebind (buildProgram ck numTasks s) (\<lambda>s.
     ebind (createKernel ck kernelName numTasks s) (kernelXplor ck numTasks)))"

section \<open>Arguments\<close>

definition task_kernel :: "'w xcl_exec \<Rightarrow> int \<Rightarrow> nat option" where
  "task_kernel s i = do {c \<leftarrow> aget (xe_code s) i; tc_kernel c}"

definition setKernelmemObj :: "'w cl_kernels \<Rightarrow> int \<Rightarrow> nat \<Rightarrow> int \<Rightarrow> 'w xcl_exec \<Rightarrow> (int + 'w xcl_exec) option" where
  "setKernelmemObj ck seltask numparameter trayIdx s = do {
     k \<leftarrow> task_kernel s seltask;
     m \<leftarrow> get_tray (xe_proc s) seltask trayIdx;
     let (status, w) = clSetKernelArg ck k numparameter (KMem m) (px_cl (xe_proc s));
     chkerr status (set_cl s w)
   }"

definition setKernelArgs :: "'w cl_kernels \<Rightarrow> int \<Rightarrow> nat \<Rightarrow> karg \<Rightarrow> 'w xcl_exec \<Rightarrow> (int + 'w xcl_exec) option" where
  "setKernelArgs ck seltask numparameter paramValue s = do {
     k \<leftarrow> task_kernel s seltask;
     let (status, w) = clSetKernelArg ck k numparameter paramValue (px_cl (xe_proc s));
     chkerr status (set_cl s w)
   }"

text \<open>
  The variable arguments. A finite \<^verbatim>\<open>double\<close> is a mantissa and an exponent. Its conversion to
  \<^verbatim>\<open>float\<close> keeps 24 bits, fewer below \<open>2 ^ -126\<close>, and is undefined outside the range of \<^verbatim>\<open>float\<close>.
\<close>

datatype va = VInt int | VDouble "int \<times> int" | VString "byte list"

definition f32_of_double :: "int \<times> int \<Rightarrow> f32 option" where
  "f32_of_double = (\<lambda>(m, e).
     let u = max (bitlen \<bar>m\<bar> + e - 24) (- 149);
         r = (if u \<le> e then (m * 2 ^ nat (e - u), u)
              else (sgn m * int (round_even (nat \<bar>m\<bar>) (2 ^ nat (u - e))), u))
     in if m = 0 then Some (0, 0)
        else if 0 \<le> snd r \<and> 2 ^ 128 \<le> \<bar>fst r\<bar> * 2 ^ nat (snd r) then None else Some r)"

text \<open>
  The loop over the format. A \<^verbatim>\<open>%\<close> at the very end makes the loop step past the terminator. An
  argument that is missing or of another type is undefined. A string passes its first 8 bytes.
\<close>

function exec_args :: "'w cl_kernels \<Rightarrow> int \<Rightarrow> string \<Rightarrow> va list \<Rightarrow> nat \<Rightarrow> 'w xcl_exec \<Rightarrow> (int + 'w xcl_exec) option" where
  "exec_args ck sel [] args n s = Some (Inr s)"
| "exec_args ck sel (c # p) args n s =
     (if c \<noteq> CHR ''%'' then exec_args ck sel p args n s
      else case p of
        [] \<Rightarrow> None
      | d # p' \<Rightarrow>
          if d = CHR ''c'' \<or> d = CHR ''d'' then
            (case args of VInt i # args' \<Rightarrow> ebind (setKernelArgs ck sel n (KInt i) s) (exec_args ck sel p' args' (n + 1))
             | _ \<Rightarrow> None)
          else if d = CHR ''f'' then
            (case args of VDouble x # args' \<Rightarrow> do {
                 f \<leftarrow> f32_of_double x;
                 ebind (setKernelArgs ck sel n (KFloat f) s) (exec_args ck sel p' args' (n + 1))
               }
             | _ \<Rightarrow> None)
          else if d = CHR ''s'' then
            (case args of VString bs # args' \<Rightarrow>
                 if length bs < 8 then None
                 else ebind (setKernelArgs ck sel n (KBytes (take 8 bs)) s) (exec_args ck sel p' args' (n + 1))
             | _ \<Rightarrow> None)
          else if d = CHR ''T'' then
            (case args of VInt tray # args' \<Rightarrow> ebind (setKernelmemObj ck sel n tray s) (exec_args ck sel p' args' (n + 1))
             | _ \<Rightarrow> None)
          else exec_args ck sel p' args n s)"
  by pat_completeness auto
termination
  by (relation "measure (\<lambda>(ck, sel, p, args, n, s). length p)") auto

declare exec_args.simps(2) [simp del]

section \<open>Launch\<close>

text \<open>The body of the thread; its status is not looked at.\<close>

definition enqueTaskReq :: "'w cl_kernels \<Rightarrow> enqueueArgs_t \<Rightarrow> 'w \<Rightarrow> 'w" where
  "enqueTaskReq ck a w = snd (clEnqueueNDRangeKernel ck (ea_queue a) (ea_kernel a) (ea_workDim a)
     (snd (ea_globalThreads a)) (snd (ea_localThreads a)) w)"

text \<open>
  Task \<open>-1\<close> stands for all tasks: their kernels are enqueued at once, with the addresses of the two
  arrays in the place of their contents. Otherwise a thread is started; \<open>mem\<close> tells whether the two
  tables can be allocated.
\<close>

definition enqueueKernel ::
  "'w cl_kernels \<Rightarrow> bool \<Rightarrow> int \<Rightarrow> int \<Rightarrow> int \<Rightarrow> size_ptr \<Rightarrow> size_ptr \<Rightarrow> 'w xcl_exec \<Rightarrow> (int + 'w xcl_exec) option" where
  "enqueueKernel ck mem numTasks selTask workDim globalThreads localThreads s =
     (if selTask = - 1 then
        efold (\<lambda>i s. do {
          (t, d, dev) \<leftarrow> task_device (xe_proc s) (int i);
          k \<leftarrow> task_kernel s (int i);
          let (status, w) = clEnqueueNDRangeKernel ck (dv_queue dev) k 1 [fst globalThreads] [fst localThreads] (px_cl (xe_proc s));
          chkerr status (set_cl s w)
        }) [0..<nat numTasks] s
      else do {
        thds \<leftarrow> (case xe_thds s of None \<Rightarrow> if mem then Some (replicate (nat numTasks) No_Thread) else None | Some l \<Rightarrow> Some l);
        th_Args \<leftarrow> (case xe_th_Args s of None \<Rightarrow> if mem then Some (replicate (nat numTasks) None) else None | Some l \<Rightarrow> Some l);
        (t, d, dev) \<leftarrow> task_device (xe_proc s) selTask;
        k \<leftarrow> task_kernel s selTask;
        th_Args \<leftarrow> aset th_Args selTask (Some \<lparr>ea_globalThreads = globalThreads, ea_localThreads = localThreads,
                                            ea_queue = dv_queue dev, ea_kernel = k, ea_workDim = workDim\<rparr>);
        thds \<leftarrow> aset thds selTask Running;
        Some (Inr (s\<lparr>xe_thds := Some thds, xe_th_Args := Some th_Args\<rparr>))
      })"

definition XclExecKernel ::
  "'w cl_kernels \<Rightarrow> bool \<Rightarrow> int \<Rightarrow> int \<Rightarrow> int \<Rightarrow> size_ptr \<Rightarrow> size_ptr \<Rightarrow> string \<Rightarrow> va list \<Rightarrow> 'w xcl_exec
     \<Rightarrow> (int + 'w xcl_exec) option" where
  "XclExecKernel ck mem l_numTasks selTask workDim globalThreads localThreads fmt args s =
     ebind (exec_args ck selTask fmt args 0 s) (enqueueKernel ck mem l_numTasks selTask workDim globalThreads localThreads)"

definition OMPI_XclExecKernel ::
  "'w cl_kernels \<Rightarrow> bool \<Rightarrow> taskInfo list \<Rightarrow> int \<Rightarrow> int \<Rightarrow> int \<Rightarrow> int \<Rightarrow> size_ptr \<Rightarrow> size_ptr \<Rightarrow> string \<Rightarrow> va list \<Rightarrow> 'w xcl_exec
     \<Rightarrow> (int + 'w xcl_exec) option" where
  "OMPI_XclExecKernel ck mem g_taskList myRank l_numTasks g_selTask workDim globalThreads localThreads fmt args s = do {
     own \<leftarrow> own_task g_taskList myRank g_selTask;
     case own of
       None \<Rightarrow> Some (Inr s)
     | Some l_selTask \<Rightarrow> XclExecKernel ck mem l_numTasks l_selTask workDim globalThreads localThreads fmt args s
   }"

section \<open>Every task has a kernel\<close>

lemma ebind_eq_Inr: "ebind x f = Some (Inr y) \<longleftrightarrow> (\<exists>a. x = Some (Inr a) \<and> f a = Some (Inr y))"
  by (cases "(x, f)" rule: ebind.cases) auto

lemma chkerr_eq_Inr [simp]: "chkerr status x = Some (Inr y) \<longleftrightarrow> status = 0 \<and> y = x"
  by (auto simp: chkerr_def)

definition same_tasks :: "'w xcl_exec \<Rightarrow> 'w xcl_exec \<Rightarrow> bool" where
  "same_tasks s s' \<longleftrightarrow> px_taskList (xe_proc s') = px_taskList (xe_proc s) \<and> px_devices (xe_proc s') = px_devices (xe_proc s)
     \<and> length (xe_code s') = length (xe_code s)
     \<and> xe_thds s' = xe_thds s \<and> xe_th_Args s' = xe_th_Args s"

lemma set_code_eq: "set_code s i f = Some s' \<longleftrightarrow> i < length (xe_code s) \<and> s' = s\<lparr>xe_code := (xe_code s)[i := f (xe_code s ! i)]\<rparr>"
  by (auto simp: set_code_def aget_def aset_def)

lemma create_program_ok:
  "create_program ck source i s = Some (Inr s') \<Longrightarrow> same_tasks s s'"
  by (auto simp: create_program_def same_tasks_def set_cl_def set_code_eq bind_eq_Some_conv case_prod_beta Let_def split: option.splits)

lemma build_program_ok: "build_program ck i s = Some (Inr s') \<Longrightarrow> same_tasks s s' \<and> xe_code s' = xe_code s"
  by (auto simp: build_program_def same_tasks_def set_cl_def bind_eq_Some_conv case_prod_beta Let_def split: if_splits)

lemma create_kernel_ok:
  "create_kernel ck name i s = Some (Inr s') \<Longrightarrow> same_tasks s s' \<and> i < length (xe_code s)
     \<and> (\<exists>k. xe_code s' = (xe_code s)[i := (xe_code s ! i)\<lparr>tc_kernel := Some k\<rparr>])"
  by (auto simp: create_kernel_def same_tasks_def set_cl_def set_code_eq bind_eq_Some_conv case_prod_beta Let_def)

lemma kernel_xplor_ok:
  "kernel_xplor ck i s = Some (Inr s') \<Longrightarrow> same_tasks s s' \<and> i < length (xe_code s)
     \<and> (\<exists>n. xe_code s' = (xe_code s)[i := (xe_code s ! i)\<lparr>tc_numArgs := Some n\<rparr>])"
  by (auto simp: kernel_xplor_def same_tasks_def set_code_eq bind_eq_Some_conv case_prod_beta Let_def split: if_splits)

lemma same_tasks_trans:
  assumes "same_tasks s s'" "same_tasks s' s''"
  shows "same_tasks s s''"
  using assms by (simp add: same_tasks_def)

lemma same_tasks_refl: "same_tasks s s"
  by (simp add: same_tasks_def)

text \<open>When \<^verbatim>\<open>XclCreateKernel\<close> returns, every task has a kernel and the racks of the tasks are unchanged.\<close>

lemma create_kernels_ok:
  assumes "XclCreateKernel ck source name (int n) s = Some (Inr s')"
  shows "same_tasks s s'" "i < n \<Longrightarrow> task_kernel s' (int i) \<noteq> None"
proof -
  obtain s1 s2 s3 where e: "createProgram ck source (int n) s = Some (Inr s1)" "buildProgram ck (int n) s1 = Some (Inr s2)"
    "createKernel ck name (int n) s2 = Some (Inr s3)" "kernelXplor ck (int n) s3 = Some (Inr s')"
    using assms by (auto simp: XclCreateKernel_def ebind_eq_Inr)
  have 1: "same_tasks s s1"
    using e(1) unfolding createProgram_def nat_int
    by (rule efold_upt_keeps) (auto intro: same_tasks_refl dest: create_program_ok same_tasks_trans)
  have 2: "same_tasks s1 s2"
    using e(2) unfolding buildProgram_def nat_int
    by (rule efold_upt_keeps) (auto intro: same_tasks_refl dest: build_program_ok same_tasks_trans)
  have 3: "same_tasks s2 s3 \<and> n \<le> length (xe_code s3) \<and> (\<forall>j < n. tc_kernel (xe_code s3 ! j) \<noteq> None)"
    using e(3) unfolding createKernel_def nat_int
  proof (rule efold_upt_keeps [where P = "\<lambda>i t. same_tasks s2 t \<and> i \<le> length (xe_code t) \<and> (\<forall>j < i. tc_kernel (xe_code t ! j) \<noteq> None)"])
    fix i t t'
    assume inv: "same_tasks s2 t \<and> i \<le> length (xe_code t) \<and> (\<forall>j < i. tc_kernel (xe_code t ! j) \<noteq> None)"
      and step: "create_kernel ck name i t = Some (Inr t')"
    obtain k where k: "same_tasks t t'" "i < length (xe_code t)" "xe_code t' = (xe_code t)[i := (xe_code t ! i)\<lparr>tc_kernel := Some k\<rparr>]"
      using create_kernel_ok [OF step] by blast
    then have "tc_kernel (xe_code t' ! j) \<noteq> None" if "j < Suc i" for j
      using inv that by (cases "j = i") simp_all
    then show "same_tasks s2 t' \<and> Suc i \<le> length (xe_code t') \<and> (\<forall>j < Suc i. tc_kernel (xe_code t' ! j) \<noteq> None)"
      using same_tasks_trans [OF _ k(1)] inv k(2,3) by simp
  qed (simp add: same_tasks_refl)
  have 4: "same_tasks s3 s' \<and> (\<forall>j < n. tc_kernel (xe_code s' ! j) = tc_kernel (xe_code s3 ! j))"
    using e(4) unfolding kernelXplor_def nat_int
  proof (rule efold_upt_keeps [where P = "\<lambda>i t. same_tasks s3 t \<and> (\<forall>j < n. tc_kernel (xe_code t ! j) = tc_kernel (xe_code s3 ! j))"])
    fix i t t'
    assume inv: "same_tasks s3 t \<and> (\<forall>j < n. tc_kernel (xe_code t ! j) = tc_kernel (xe_code s3 ! j))"
      and step: "kernel_xplor ck i t = Some (Inr t')"
    obtain m where m: "same_tasks t t'" "i < length (xe_code t)" "xe_code t' = (xe_code t)[i := (xe_code t ! i)\<lparr>tc_numArgs := Some m\<rparr>]"
      using kernel_xplor_ok [OF step] by blast
    then have "tc_kernel (xe_code t' ! j) = tc_kernel (xe_code t ! j)" for j by (cases "j = i") simp_all
    then show "same_tasks s3 t' \<and> (\<forall>j < n. tc_kernel (xe_code t' ! j) = tc_kernel (xe_code s3 ! j))"
      using same_tasks_trans [OF _ m(1)] inv by simp
  qed (simp add: same_tasks_refl)
  show "same_tasks s s'" using same_tasks_trans [OF same_tasks_trans [OF 1 2] same_tasks_trans [OF conjunct1 [OF 3] conjunct1 [OF 4]]] .
  have "length (xe_code s') = length (xe_code s3)" using 4 by (simp add: same_tasks_def)
  then show "i < n \<Longrightarrow> task_kernel s' (int i) \<noteq> None" using 3 4 by (simp add: task_kernel_def)
qed

section \<open>What a launch does\<close>

text \<open>
  A format as a sequence of items: a character other than \<^verbatim>\<open>%\<close>, the pair \<^verbatim>\<open>%%\<close>, or a conversion with
  the argument it consumes and the kernel argument it sets.
\<close>

datatype fmt_item = Text char | Percent | Conv char va

fun item_text :: "fmt_item \<Rightarrow> string" where
  "item_text (Text c) = [c]"
| "item_text Percent = ''%%''"
| "item_text (Conv d v) = [CHR ''%'', d]"

fun item_vals :: "fmt_item \<Rightarrow> va list" where
  "item_vals (Conv d v) = [v]"
| "item_vals _ = []"

fun conv_arg :: "'w xcl_proc \<Rightarrow> int \<Rightarrow> char \<Rightarrow> va \<Rightarrow> karg option" where
  "conv_arg p sel d (VInt i) =
     (if d = CHR ''c'' \<or> d = CHR ''d'' then Some (KInt i)
      else if d = CHR ''T'' then map_option KMem (get_tray p sel i) else None)"
| "conv_arg p sel d (VDouble x) = (if d = CHR ''f'' then map_option KFloat (f32_of_double x) else None)"
| "conv_arg p sel d (VString bs) = (if d = CHR ''s'' \<and> 8 \<le> length bs then Some (KBytes (take 8 bs)) else None)"

fun item_ok :: "'w xcl_proc \<Rightarrow> int \<Rightarrow> fmt_item \<Rightarrow> bool" where
  "item_ok p sel (Text c) \<longleftrightarrow> c \<noteq> CHR ''%''"
| "item_ok p sel Percent \<longleftrightarrow> True"
| "item_ok p sel (Conv d v) \<longleftrightarrow> conv_arg p sel d v \<noteq> None"

fun item_args :: "'w xcl_proc \<Rightarrow> int \<Rightarrow> fmt_item \<Rightarrow> karg list" where
  "item_args p sel (Conv d v) = [the (conv_arg p sel d v)]"
| "item_args p sel _ = []"

definition fmt_args :: "'w xcl_proc \<Rightarrow> int \<Rightarrow> fmt_item list \<Rightarrow> karg list" where
  "fmt_args p sel items = concat (map (item_args p sel) items)"

text \<open>
  \<open>kargs w k\<close> are the arguments set on kernel \<open>k\<close>. A successful \<^verbatim>\<open>clSetKernelArg\<close> sets one of them. A
  kernel accepts its first \<open>N\<close> arguments when setting any of them succeeds.
\<close>

definition kernel_spec :: "'w cl_kernels \<Rightarrow> ('w \<Rightarrow> nat \<Rightarrow> nat \<Rightarrow> karg option) \<Rightarrow> bool" where
  "kernel_spec ck kargs \<longleftrightarrow> (\<forall>k n v w w'. clSetKernelArg ck k n v w = (0, w') \<longrightarrow>
     kargs w' = (kargs w)(k := (kargs w k)(n \<mapsto> v)))"

definition accepts :: "'w cl_kernels \<Rightarrow> nat \<Rightarrow> nat \<Rightarrow> bool" where
  "accepts ck k N \<longleftrightarrow> (\<forall>n < N. \<forall>v w. fst (clSetKernelArg ck k n v w) = 0)"

lemma set_cl_simps [simp]:
  "set_cl s (px_cl (xe_proc s)) = s" "set_cl (set_cl s w) w' = set_cl s w'" "px_cl (xe_proc (set_cl s w)) = w"
  "task_kernel (set_cl s w) i = task_kernel s i" "get_tray (xe_proc (set_cl s w)) i t = get_tray (xe_proc s) i t"
  "task_device (xe_proc (set_cl s w)) i = task_device (xe_proc s) i"
  "xe_thds (set_cl s w) = xe_thds s" "xe_th_Args (set_cl s w) = xe_th_Args s" "xe_code (set_cl s w) = xe_code s"
  by (simp_all add: set_cl_def task_kernel_def get_tray_def get_rack_def task_device_def)

lemma conv_arg_set_cl [simp]: "conv_arg (xe_proc (set_cl s w)) sel d v = conv_arg (xe_proc s) sel d v"
  by (cases v) auto

lemma item_set_cl [simp]:
  "item_ok (xe_proc (set_cl s w)) sel it = item_ok (xe_proc s) sel it"
  "fmt_args (xe_proc (set_cl s w)) sel items = fmt_args (xe_proc s) sel items"
proof -
  show "item_ok (xe_proc (set_cl s w)) sel it = item_ok (xe_proc s) sel it" by (cases it) auto
  have "item_args (xe_proc (set_cl s w)) sel it = item_args (xe_proc s) sel it" for it by (cases it) auto
  then show "fmt_args (xe_proc (set_cl s w)) sel items = fmt_args (xe_proc s) sel items" by (simp add: fmt_args_def cong: map_cong)
qed

text \<open>One conversion.\<close>

lemma exec_conv:
  assumes "conv_arg (xe_proc s) sel d v = Some a" "task_kernel s sel = Some k"
  shows "exec_args ck sel (CHR ''%'' # d # p) (v # args) n s = (case clSetKernelArg ck k n a (px_cl (xe_proc s)) of
    (status, w) \<Rightarrow> if status \<noteq> 0 then Some (Inl 1) else exec_args ck sel p args (n + 1) (set_cl s w))"
proof (cases v)
  case (VInt i)
  with assms show ?thesis
    by (auto simp: exec_args.simps(2) setKernelArgs_def setKernelmemObj_def chkerr_def split: if_splits prod.splits)
next
  case (VDouble x)
  with assms show ?thesis
    by (auto simp: exec_args.simps(2) setKernelArgs_def chkerr_def split: if_splits prod.splits)
next
  case (VString bs)
  with assms show ?thesis
    by (auto simp: exec_args.simps(2) setKernelArgs_def chkerr_def split: if_splits prod.splits)
qed

lemma exec_args_items:
  assumes "kernel_spec ck kargs" "\<forall>it\<in>set items. item_ok (xe_proc s) sel it" "task_kernel s sel = Some k"
  shows "exec_args ck sel (concat (map item_text items)) (concat (map item_vals items) @ rest) n s = Some (Inl 1)
      \<and> \<not> accepts ck k (n + length (fmt_args (xe_proc s) sel items))
    \<or> (\<exists>w. exec_args ck sel (concat (map item_text items)) (concat (map item_vals items) @ rest) n s = Some (Inr (set_cl s w))
        \<and> kargs w = (kargs (px_cl (xe_proc s)))(k := kargs (px_cl (xe_proc s)) k ++ map_of (enumerate n (fmt_args (xe_proc s) sel items))))"
  using assms
proof (induction items arbitrary: n s)
  case Nil
  then show ?case by (intro disjI2 exI [of _ "px_cl (xe_proc s)"]) (simp add: fmt_args_def)
next
  case (Cons it items)
  show ?case
  proof (cases it)
    case (Text c)
    with Cons show ?thesis by (auto simp: exec_args.simps(2) fmt_args_def)
  next
    case Percent
    with Cons show ?thesis by (auto simp: exec_args.simps(2) fmt_args_def)
  next
    case (Conv d v)
    with Cons.prems(2) obtain a where a: "conv_arg (xe_proc s) sel d v = Some a" by auto
    have args: "fmt_args (xe_proc s) sel (it # items) = a # fmt_args (xe_proc s) sel items" using a Conv by (simp add: fmt_args_def)
    obtain st w where st: "clSetKernelArg ck k n a (px_cl (xe_proc s)) = (st, w)" by (cases "clSetKernelArg ck k n a (px_cl (xe_proc s))")
    show ?thesis
    proof (cases "st = 0")
      case False
      then have "\<not> accepts ck k (n + length (fmt_args (xe_proc s) sel (it # items)))"
        using st unfolding accepts_def args by (intro notI) (metis fst_conv less_add_same_cancel1 length_greater_0_conv list.distinct(1))
      with False st show ?thesis using exec_conv [OF a Cons.prems(3), of ck] Conv by simp
    next
      case True
      then have w: "kargs w = (kargs (px_cl (xe_proc s)))(k := (kargs (px_cl (xe_proc s)) k)(n \<mapsto> a))"
        using Cons.prems(1) st by (auto simp: kernel_spec_def)
      have "n \<notin> dom (map_of (enumerate (n + 1) (fmt_args (xe_proc s) sel items)))"
        by (auto simp: dom_map_of_conv_image_fst simp flip: set_map)
      then have upd: "(f(n \<mapsto> a)) ++ map_of (enumerate (n + 1) (fmt_args (xe_proc s) sel items))
          = f ++ map_of (enumerate n (fmt_args (xe_proc s) sel (it # items)))" for f
        unfolding args by (simp add: map_add_upd_left)
      have fin: "(kargs w)(k := kargs w k ++ map_of (enumerate (n + 1) (fmt_args (xe_proc s) sel items)))
          = (kargs (px_cl (xe_proc s)))(k := kargs (px_cl (xe_proc s)) k ++ map_of (enumerate n (fmt_args (xe_proc s) sel (it # items))))"
        unfolding w by (simp only: fun_upd_same fun_upd_upd upd)
      have run: "exec_args ck sel (concat (map item_text (it # items))) (concat (map item_vals (it # items)) @ rest) n s
          = exec_args ck sel (concat (map item_text items)) (concat (map item_vals items) @ rest) (n + 1) (set_cl s w)"
        using exec_conv [OF a Cons.prems(3), of ck] Conv st True by simp
      have "n + length (fmt_args (xe_proc s) sel (it # items)) = n + 1 + length (fmt_args (xe_proc s) sel items)" using args by simp
      with Cons.IH [of "set_cl s w" "n + 1"] Cons.prems show ?thesis unfolding run by (simp add: fin [unfolded Suc_eq_plus1 [symmetric]] del: fun_upd_apply)
    qed
  qed
qed

definition table :: "'a \<Rightarrow> nat \<Rightarrow> 'a list option \<Rightarrow> 'a list" where
  "table x n t = (case t of None \<Rightarrow> replicate n x | Some l \<Rightarrow> l)"

text \<open>C33: \<^verbatim>\<open>OMPI_XclExecKernel\<close> on the process that owns the task, with a format whose conversions fit
  the arguments. Either \<^verbatim>\<open>clSetKernelArg\<close> fails and the process exits, or the conversions have set
  the arguments \<open>0, 1, \<dots>\<close> of the kernel of the task in their order and of no other kernel, the
  thread of the task runs with the queue of its device and its kernel, and the threads of the
  other tasks are as they were. On every other process nothing happens.\<close>

theorem exec_kernel_launch:
  assumes "kernel_spec ck kargs" "g < length g_taskList"
    and "\<forall>it\<in>set items. item_ok (xe_proc s) (ti_l_taskIdx (g_taskList ! g)) it"
    and "ti_l_taskIdx (g_taskList ! g) = int i" "task_kernel s (int i) = Some k" "task_device (xe_proc s) (int i) = Some (t, d, dev)"
    and "length (table No_Thread n (xe_thds s)) = n" "length (table None n (xe_th_Args s)) = n" "i < n"
    and r: "r = OMPI_XclExecKernel ck True g_taskList myRank (int n) (int g) workDim gt lt
      (concat (map item_text items)) (concat (map item_vals items)) s"
  shows "(myRank \<noteq> ti_r_rank (g_taskList ! g) \<longrightarrow> r = Some (Inr s))
    \<and> (myRank = ti_r_rank (g_taskList ! g) \<longrightarrow>
        r = Some (Inl 1) \<and> \<not> accepts ck k (length (fmt_args (xe_proc s) (int i) items))
      \<or> (\<exists>w. r = Some (Inr ((set_cl s w)\<lparr>xe_thds := Some ((table No_Thread n (xe_thds s))[i := Running]),
              xe_th_Args := Some ((table None n (xe_th_Args s))[i := Some \<lparr>ea_globalThreads = gt, ea_localThreads = lt,
                ea_queue = dv_queue dev, ea_kernel = k, ea_workDim = workDim\<rparr>])\<rparr>))
          \<and> kargs w = (kargs (px_cl (xe_proc s)))(k := kargs (px_cl (xe_proc s)) k
              ++ map_of (enumerate 0 (fmt_args (xe_proc s) (int i) items)))))"
proof -
  let ?x = "exec_args ck (int i) (concat (map item_text items)) (concat (map item_vals items) @ []) 0 s"
  let ?a = "\<lparr>ea_globalThreads = gt, ea_localThreads = lt, ea_queue = dv_queue dev, ea_kernel = k, ea_workDim = workDim\<rparr>"
  have r': "r = (if myRank = ti_r_rank (g_taskList ! g) then ebind ?x (enqueueKernel ck True (int n) (int i) workDim gt lt) else Some (Inr s))"
    using assms(2,4) by (simp add: r OMPI_XclExecKernel_def own_task_def XclExecKernel_def)
  have start: "enqueueKernel ck True (int n) (int i) workDim gt lt (set_cl s w)
      = Some (Inr ((set_cl s w)\<lparr>xe_thds := Some ((table No_Thread n (xe_thds s))[i := Running]), xe_th_Args := Some ((table None n (xe_th_Args s))[i := Some ?a])\<rparr>))" for w
    using assms(5-9) by (cases "xe_thds s"; cases "xe_th_Args s") (simp_all add: enqueueKernel_def table_def)
  have "\<forall>it\<in>set items. item_ok (xe_proc s) (int i) it" using assms(3,4) by simp
  from exec_args_items [OF assms(1) this assms(5), of "[]" 0] show ?thesis
    unfolding r' by (elim disjE exE conjE) (simp_all add: start del: fun_upd_apply, blast)
qed

text \<open>Kernels whose arguments are the state, and a process of two tasks with such kernels.\<close>

definition table_kernels :: "(nat \<Rightarrow> nat \<Rightarrow> karg option) cl_kernels" where
  "table_kernels = \<lparr>clCreateProgramWithSource = (\<lambda>c text w. (0, 0, w)), clBuildProgram = (\<lambda>p d w. (0, w)),
     clCreateKernel = (\<lambda>p name w. (0, 0, w)), clGetKernelNumArgs = (\<lambda>k w. (0, 4)),
     clSetKernelArg = (\<lambda>k n v w. (0, w(k := (w k)(n \<mapsto> v)))),
     clEnqueueNDRangeKernel = (\<lambda>q k dim g l w. (0, w))\<rparr>"

definition sample_exec :: "(nat \<Rightarrow> nat \<Rightarrow> karg option) xcl_exec" where
  "sample_exec = \<lparr>xe_proc = \<lparr>px_taskList = map (\<lambda>r. \<lparr>tk_device = Some 0, tk_numTrays = 1, tk_trayInfo = None, tk_Rack = r\<rparr>) [0, 1],
       px_devices = [\<lparr>dv_deviceId = 0, dv_context = 0, dv_queue = 9, dv_numRacks = 2, dv_memHandler = Some [Some [Some 5], Some [Some 6]]\<rparr>],
       px_tskbufferSize = [], px_MPIentityTypeSize = 0, px_ePerRank = 0, px_cl = (\<lambda>k n. None)\<rparr>,
     xe_code = [\<lparr>tc_CLprogram = Some 0, tc_kernel = Some 0, tc_numArgs = Some 3\<rparr>, \<lparr>tc_CLprogram = Some 1, tc_kernel = Some 1, tc_numArgs = Some 3\<rparr>],
     xe_thds = None, xe_th_Args = None\<rparr>"

theorem exec_kernel_launch_witness:
  "\<exists>w. OMPI_XclExecKernel table_kernels True [info_of 0 (0, 0), info_of 1 (0, 1)] 0 2 1 1 (0, [64]) (0, [8]) ''%T,%d %f''
      [VInt 0, VInt 7, VDouble (3, - 1)] sample_exec
    = Some (Inr ((set_cl sample_exec w)\<lparr>xe_thds := Some [No_Thread, Running], xe_th_Args := Some [None, Some
        \<lparr>ea_globalThreads = (0, [64]), ea_localThreads = (0, [8]), ea_queue = 9, ea_kernel = 1, ea_workDim = 1\<rparr>]\<rparr>))
    \<and> w 1 = [0 \<mapsto> KMem 6, 1 \<mapsto> KInt 7, 2 \<mapsto> KFloat (12582912, - 23)]"
proof -
  let ?items = "[Conv CHR ''T'' (VInt 0), Text CHR '','', Conv CHR ''d'' (VInt 7), Text CHR '' '', Conv CHR ''f'' (VDouble (3, - 1))]"
  let ?g = "[info_of 0 (0, 0), info_of 1 (0, 1)]"
  have spec: "kernel_spec table_kernels (\<lambda>w. w)" "accepts table_kernels k N" for k N
    by (simp_all add: kernel_spec_def accepts_def table_kernels_def)
  have args: "fmt_args (xe_proc sample_exec) (int 1) ?items = [KMem 6, KInt 7, KFloat (12582912, - 23)]" by code_simp
  have ok: "\<forall>it\<in>set ?items. item_ok (xe_proc sample_exec) (ti_l_taskIdx (?g ! 1)) it" by code_simp
  have g: "ti_l_taskIdx (?g ! 1) = int 1" "ti_r_rank (?g ! 1) = 0" by (simp_all add: info_of_def)
  have dev: "task_kernel sample_exec (int 1) = Some 1"
    "task_device (xe_proc sample_exec) (int 1) = Some (px_taskList (xe_proc sample_exec) ! 1, 0, px_devices (xe_proc sample_exec) ! 0)"
    by (simp_all add: task_kernel_def task_device_def sample_exec_def aget_def)
  have tab: "table No_Thread 2 (xe_thds sample_exec) = [No_Thread, No_Thread]" "table None 2 (xe_th_Args sample_exec) = [None, None]"
    "dv_queue (px_devices (xe_proc sample_exec) ! 0) = 9" "px_cl (xe_proc sample_exec) = (\<lambda>k n. None)"
    by (simp_all add: table_def sample_exec_def numeral_2_eq_2)
  obtain w where "OMPI_XclExecKernel table_kernels True ?g 0 (int 2) (int 1) 1 (0, [64]) (0, [8])
      (concat (map item_text ?items)) (concat (map item_vals ?items)) sample_exec
    = Some (Inr ((set_cl sample_exec w)\<lparr>xe_thds := Some ((table No_Thread 2 (xe_thds sample_exec))[1 := Running]),
        xe_th_Args := Some ((table None 2 (xe_th_Args sample_exec))[1 := Some \<lparr>ea_globalThreads = (0, [64]), ea_localThreads = (0, [8]),
          ea_queue = dv_queue (px_devices (xe_proc sample_exec) ! 0), ea_kernel = 1, ea_workDim = 1\<rparr>])\<rparr>))"
    "w = (px_cl (xe_proc sample_exec))(1 := px_cl (xe_proc sample_exec) 1 ++ map_of (enumerate 0 (fmt_args (xe_proc sample_exec) (int 1) ?items)))"
    using exec_kernel_launch [OF spec(1) _ ok g(1) dev _ _ _ refl, of 2 0 1 "(0, [64])" "(0, [8])"] spec(2) g(2) tab(1,2) by auto
  then show ?thesis unfolding tab args by (intro exI [of _ w]) (simp, simp add: fun_eq_iff numeral_2_eq_2)
qed

end
