(* ===== verification/XCL_Scatter.thy ===== *)
theory XCL_Scatter
  imports XCL_Comms XCL_Float
begin

text \<open>
  Distributing a file over the devices and collecting it again
  (\<^verbatim>\<open>ompi/mpiext/XCLFrame/c/singleSidedComms/XclScatter.c\<close> and the functions for all tasks in
  \<^verbatim>\<open>multiDeviceMgmt/deviceMgmt/memMgmt\<close>). Every process reads its part of the file and splits it
  over its tasks: every task but the last gets the quotient of entities by tasks rounded up, the
  last one the quotient rounded down, both computed in single precision.

  The file is the list of its bytes, an argument; that it opens and that the entity type has no
  gaps is taken for granted. \<open>tysz\<close> is what \<^verbatim>\<open>MPI_Type_size\<close> answers. The view of the file is set with
  \<^verbatim>\<open>MPI_FLOAT\<close> as the elementary type, whatever the entity type is.
\<close>

definition int_mul :: "int \<Rightarrow> int \<Rightarrow> int option" where
  "int_mul a b = (if - INT_MAX - 1 \<le> a * b \<and> a * b \<le> INT_MAX then Some (a * b) else None)"

section \<open>All tasks of a process\<close>

definition task_size :: "int \<Rightarrow> int \<Rightarrow> int \<Rightarrow> nat \<Rightarrow> int option" where
  "task_size numEntities numTasks tysz j =
     (let entitiesPerTask = f32_div (f32_of_int numEntities) (f32_of_int numTasks)
      in int_mul (if int j = numTasks - 1 then floorf entitiesPerTask else ceilf entitiesPerTask) tysz)"

definition task_sizes :: "int \<Rightarrow> int \<Rightarrow> int \<Rightarrow> int list option" where
  "task_sizes numEntities numTasks tysz =
     ofold (\<lambda>j l. do {s \<leftarrow> task_size numEntities numTasks tysz j; Some (l @ [s])}) [0..<nat numTasks] []"

text \<open>
  The body of the loop of \<^verbatim>\<open>ALL_TASKS_initBuffer\<close>: the rack is enlarged when the task has fewer
  trays than the index asked for, allocated when this is the first tray of all, and used as it is
  otherwise.
\<close>

definition init_task_tray ::
  "'w opencl \<Rightarrow> bool \<Rightarrow> int \<Rightarrow> int \<Rightarrow> nat \<Rightarrow> 'w xcl_proc \<Rightarrow> (int + 'w xcl_proc) option" where
  "init_task_tray cl mem junk trayIdx i p = do {
     t \<leftarrow> aget (px_taskList p) (int i);
     let memIdx = tk_numTrays t;
     r \<leftarrow> get_rack p (int i);
     ebind (if memIdx < trayIdx then
              if \<not> mem then Some (Inl 1)
              else do {
                p \<leftarrow> set_rack p (int i) (Some (arealloc None (case r of None \<Rightarrow> [] | Some cells \<Rightarrow> cells) (trayIdx + 1)));
                p \<leftarrow> set_task p (int i) (\<lambda>t. t\<lparr>tk_numTrays := trayIdx + 1\<rparr>);
                Some (Inr p)
              }
            else Some (Inr p)) (\<lambda>p. do {
       p \<leftarrow> (if trayIdx = 0 \<and> memIdx = 0 then do {
                p \<leftarrow> set_task p (int i) (\<lambda>t. t\<lparr>tk_trayInfo := (if mem then Some junk else None), tk_numTrays := 1\<rparr>);
                set_rack p (int i) (if mem then Some [None] else None)
              }
              else Some p);
       t \<leftarrow> aget (px_taskList p) (int i);
       info \<leftarrow> tk_trayInfo t;
       s \<leftarrow> aget (px_tskbufferSize p) (int i);
       p \<leftarrow> set_task p (int i) (\<lambda>t. t\<lparr>tk_trayInfo := Some s\<rparr>);
       (status, p) \<leftarrow> create_tray cl p (int i) trayIdx s;
       chkerr status p
     })
   }"

definition ALL_TASKS_initBuffer ::
  "'w opencl \<Rightarrow> bool \<Rightarrow> int \<Rightarrow> int \<Rightarrow> int \<Rightarrow> int \<Rightarrow> int \<Rightarrow> 'w xcl_proc \<Rightarrow> (int + 'w xcl_proc) option" where
  "ALL_TASKS_initBuffer cl mem junk numTasks trayIdx HbufferSize tysz p =
     (if tysz = 0 then None
      else do {
        sizes \<leftarrow> task_sizes (HbufferSize sdiv tysz) numTasks tysz;
        efold (init_task_tray cl mem junk trayIdx) [0..<nat numTasks] (p\<lparr>px_tskbufferSize := sizes\<rparr>)
      })"

text \<open>
  The part of the host buffer of task \<open>i\<close> starts at \<open>i\<close> times the size of the first part. A part
  that is not inside the host buffer is undefined.
\<close>

definition write_task_part ::
  "'w opencl \<Rightarrow> int \<Rightarrow> byte list \<Rightarrow> nat \<Rightarrow> int \<times> 'w xcl_proc \<Rightarrow> (int + int \<times> 'w xcl_proc) option" where
  "write_task_part cl trayIdx hostBuffer i = (\<lambda>(off, p). do {
     (t, d, dev) \<leftarrow> task_device p (int i);
     m \<leftarrow> get_tray p (int i) trayIdx;
     s \<leftarrow> aget (px_tskbufferSize p) (int i);
     s0 \<leftarrow> aget (px_tskbufferSize p) 0;
     data \<leftarrow> (if s < 0 then None else asub hostBuffer off s);
     let (status, w) = clEnqueueWriteBuffer cl (dv_queue dev) m 0 data (px_cl p);
     chkerr status (off + s0, p\<lparr>px_cl := w\<rparr>)
   })"

definition ALL_TASKS_writeBuffer ::
  "'w opencl \<Rightarrow> int \<Rightarrow> int \<Rightarrow> byte list \<Rightarrow> 'w xcl_proc \<Rightarrow> (int + 'w xcl_proc) option" where
  "ALL_TASKS_writeBuffer cl numTasks trayIdx hostBuffer p =
     ebind (efold (write_task_part cl trayIdx hostBuffer) [0..<nat numTasks] (0, p)) (\<lambda>(off, p). Some (Inr p))"

definition read_task_part ::
  "'w opencl \<Rightarrow> int \<Rightarrow> 'w xcl_proc \<Rightarrow> nat \<Rightarrow> int \<times> byte list \<Rightarrow> (int + int \<times> byte list) option" where
  "read_task_part cl trayIdx p i = (\<lambda>(off, hostBuffer). do {
     (t, d, dev) \<leftarrow> task_device p (int i);
     m \<leftarrow> get_tray p (int i) trayIdx;
     s \<leftarrow> aget (px_tskbufferSize p) (int i);
     s0 \<leftarrow> aget (px_tskbufferSize p) 0;
     if s < 0 \<or> off < 0 \<or> int (length hostBuffer) < off + s then None
     else let (status, data) = clEnqueueReadBuffer cl (dv_queue dev) m 0 (size_t s) (px_cl p)
          in chkerr status (off + s0, put_bytes hostBuffer (nat off) (take (nat s) data))
   })"

definition ALL_TASKS_readBuffer ::
  "'w opencl \<Rightarrow> int \<Rightarrow> int \<Rightarrow> byte list \<Rightarrow> 'w xcl_proc \<Rightarrow> (int + byte list) option" where
  "ALL_TASKS_readBuffer cl numTasks trayIdx hostBuffer p =
     ebind (efold (read_task_part cl trayIdx p) [0..<nat numTasks] (0, hostBuffer)) (\<lambda>(off, hostBuffer). Some (Inr hostBuffer))"

section \<open>Scatter and gather\<close>

text \<open>The conversion of the size of the file, an \<^verbatim>\<open>MPI_Offset\<close>, to \<^verbatim>\<open>int\<close>.\<close>

definition to_int32 :: "int \<Rightarrow> int" where
  "to_int32 n = (n + 2147483648) mod 4294967296 - 2147483648"

text \<open>
  \<^verbatim>\<open>MPI_File_set_view\<close> (\<^verbatim>\<open>romio/mpi-io/set_view.c\<close>) refuses a negative displacement and an entity type whose
  size is not a multiple of that of the elementary type, the four bytes of a \<^verbatim>\<open>MPI_FLOAT\<close>. Files return errors,
  the result is not looked at, and the view remains that of the whole file: where the process reads and writes.
\<close>

definition view_offset :: "int \<Rightarrow> int \<Rightarrow> int" where
  "view_offset tysz disp = (if disp < 0 \<or> tysz mod 4 \<noteq> 0 then 0 else disp)"

text \<open>
  Without a host buffer only the number of entities per process is computed, the first component
  of the result. A read past the end of the file delivers what is there.
\<close>

definition OMPI_XclScatter ::
  "'w opencl \<Rightarrow> bool \<Rightarrow> int \<Rightarrow> byte list \<Rightarrow> int \<Rightarrow> int \<Rightarrow> int \<Rightarrow> int \<Rightarrow> byte list option \<Rightarrow> int \<Rightarrow> 'w xcl_proc
     \<Rightarrow> (int + int option \<times> byte list option \<times> 'w xcl_proc) option" where
  "OMPI_XclScatter cl mem junk file tysz commsize myRank l_numTasks hostbuffer trayIdx p =
     (if tysz = 0 then None
      else let ePerRank = (to_int32 (int (length file)) sdiv tysz) sdiv commsize;
               p = p\<lparr>px_MPIentityTypeSize := tysz, px_ePerRank := ePerRank\<rparr>
           in case hostbuffer of
                None \<Rightarrow> Some (Inr (Some ePerRank, None, p))
              | Some host \<Rightarrow> do {
                  let HBufferSize = ePerRank * tysz;
                  let data = take (nat HBufferSize) (drop (nat (view_offset tysz (myRank * ePerRank * tysz))) file);
                  if length host < length data then None
                  else let host = data @ drop (length data) host in
                    ebind (ALL_TASKS_initBuffer cl mem junk l_numTasks trayIdx HBufferSize tysz p) (\<lambda>p.
                    ebind (ALL_TASKS_writeBuffer cl l_numTasks trayIdx host p) (\<lambda>p.
                      Some (Inr (None, Some host, p))))
                })"

text \<open>
  The file and the temporary buffer, which the caller may keep. Writing past the end of the file
  extends it with zeros.
\<close>

definition file_write :: "byte list \<Rightarrow> nat \<Rightarrow> byte list \<Rightarrow> byte list" where
  "file_write file off data = put_bytes (file @ replicate (off - length file) 0) off data"

definition OMPI_XclGather ::
  "'w opencl \<Rightarrow> byte list \<Rightarrow> int \<Rightarrow> int \<Rightarrow> int \<Rightarrow> int \<Rightarrow> 'w xcl_proc \<Rightarrow> (int + byte list \<times> byte list) option" where
  "OMPI_XclGather cl file myRank l_numTasks trayIdx count p =
     (let tysz = px_MPIentityTypeSize p; ePerRank = px_ePerRank p in do {
        a \<leftarrow> int_mul count tysz;
        space \<leftarrow> int_mul a l_numTasks;
        ebind (ALL_TASKS_readBuffer cl l_numTasks trayIdx (replicate (nat space) 0) p) (\<lambda>tmphostbuffer. do {
          b \<leftarrow> int_mul myRank ePerRank;
          disp \<leftarrow> int_mul b tysz;
          if ePerRank < 0 \<or> int (length tmphostbuffer) < ePerRank * tysz then None
          else Some (Inr (file_write file (nat (view_offset tysz disp)) (take (nat (ePerRank * tysz)) tmphostbuffer), tmphostbuffer))
        })
      })"

section \<open>The split\<close>

lemma task_sizes_eq:
  assumes n: "0 \<le> n" "n < 16777216" and k: "0 < k" "k \<le> 16777216" and sz: "0 < tysz" "(n + k - 1) div k * tysz \<le> INT_MAX"
  shows "task_sizes n k tysz = Some (replicate (nat k - 1) ((n + k - 1) div k * tysz) @ [n div k * tysz])"
proof -
  let ?c = "(n + k - 1) div k" and ?f = "n div k"
  have f: "0 \<le> ?f" "?f \<le> ?c" using n k by (simp_all add: pos_imp_zdiv_nonneg_iff zdiv_mono1)
  then have "0 \<le> ?f * tysz" "?f * tysz \<le> ?c * tysz" using sz(1) by (simp_all add: mult_right_mono)
  then have size: "task_size n k tysz j = Some ((if int j = k - 1 then ?f else ?c) * tysz)" for j
    using sz(2) by (auto simp: task_size_def f32_div_floor_ceil [OF n k] int_mul_def Let_def INT_MAX_def)
  have "ofold (\<lambda>j l. do {s \<leftarrow> task_size n k tysz j; Some (l @ [s])}) [0..<m] []
      = Some (map (\<lambda>j. (if int j = k - 1 then ?f else ?c) * tysz) [0..<m])" for m
    by (induction m) (simp_all add: ofold_append size)
  then have "task_sizes n k tysz = Some (map (\<lambda>j. (if int j = k - 1 then ?f else ?c) * tysz) [0..<nat k])"
    by (simp add: task_sizes_def)
  also have "[0..<nat k] = [0..<nat k - 1] @ [nat k - 1]" using k(1) upt_Suc_append [of 0 "nat k - 1"] by simp
  also have "map (\<lambda>j. (if int j = k - 1 then ?f else ?c) * tysz) \<dots> = replicate (nat k - 1) (?c * tysz) @ [?f * tysz]"
    using k(1) by (auto simp: map_replicate_const intro!: nth_equalityI)
  finally show ?thesis .
qed

lemma split_total:
  fixes n k :: int
  assumes "0 < k"
  shows "(k - 1) * ((n + k - 1) div k) + n div k = n + (if n mod k = 0 then 0 else k - 1 - n mod k)"
  unfolding ceil_div [OF assms] left_diff_distrib by (auto simp: distrib_left minus_mod_eq_mult_div)

text \<open>For fewer than \<open>2 ^ 24\<close> entities and at most \<open>2 ^ 24\<close> tasks the sizes computed in single
  precision are exact: every task but the last gets the quotient rounded up, the last one the
  quotient rounded down. The parts cover all entities; they are no more than the host buffer
  holds exactly when the remainder of the division is 0 or one less than the number of tasks,
  and for every other remainder the last part ends past the end of the host buffer.\<close>

lemma scatter_split_bounds:
  assumes "0 \<le> n" "n < 16777216" "0 < k" "k \<le> 16777216" "0 < tysz" "(n + k - 1) div k * tysz \<le> INT_MAX"
  shows "\<exists>sizes. task_sizes n k tysz = Some sizes \<and> int (length sizes) = k
    \<and> (\<forall>j < length sizes. sizes ! j = (if int j = k - 1 then n div k else (n + k - 1) div k) * tysz)
    \<and> n * tysz \<le> sum_list sizes
    \<and> (sum_list sizes \<le> n * tysz \<longleftrightarrow> n mod k = 0 \<or> n mod k = k - 1)"
proof -
  let ?c = "(n + k - 1) div k" and ?f = "n div k" and ?r = "n mod k"
  let ?sizes = "replicate (nat k - 1) (?c * tysz) @ [?f * tysz]"
  have nth: "?sizes ! j = (if int j = k - 1 then ?f else ?c) * tysz" if "j < length ?sizes" for j
    using that assms(3) by (auto simp: nth_append)
  have r: "0 \<le> ?r" "?r < k" using assms(3) by simp_all
  have "int (nat k - 1) = k - 1" using assms(3) by simp
  then have sum: "sum_list ?sizes = ((k - 1) * ?c + ?f) * tysz"
    by (simp add: sum_list_replicate algebra_simps)
  have "(k - 1) * ?c + ?f = n + (if ?r = 0 then 0 else k - 1 - ?r)" using split_total [OF assms(3)] .
  then have "n \<le> (k - 1) * ?c + ?f" "(k - 1) * ?c + ?f \<le> n \<longleftrightarrow> ?r = 0 \<or> ?r = k - 1" using r by auto
  then have "n * tysz \<le> sum_list ?sizes" "sum_list ?sizes \<le> n * tysz \<longleftrightarrow> ?r = 0 \<or> ?r = k - 1"
    unfolding sum using assms(5) by (simp_all add: mult_le_cancel_right)
  with nth show ?thesis using task_sizes_eq [OF assms] assms(3) by (intro exI [of _ ?sizes]) auto
qed

section \<open>What the loops leave unchanged\<close>

definition same_entities :: "'w xcl_proc \<Rightarrow> 'w xcl_proc \<Rightarrow> bool" where
  "same_entities p p' \<longleftrightarrow> px_tskbufferSize p' = px_tskbufferSize p \<and> px_MPIentityTypeSize p' = px_MPIentityTypeSize p
     \<and> px_ePerRank p' = px_ePerRank p \<and> length (px_taskList p') = length (px_taskList p)"

lemma set_rack_entities: "set_rack p i r = Some p' \<Longrightarrow> same_entities p p'"
  by (auto simp: set_rack_def same_entities_def bind_eq_Some_conv)

lemma set_task_entities: "set_task p i f = Some p' \<Longrightarrow> same_entities p p'"
  by (auto simp: set_task_def same_entities_def bind_eq_Some_conv dest: aset_length)

lemma create_tray_entities: "create_tray cl p i t sz = Some (s, p') \<Longrightarrow> same_entities p p'"
proof -
  assume "create_tray cl p i t sz = Some (s, p')"
  then obtain m w p1 where "set_tray p i t m = Some p1" "p' = p1\<lparr>px_cl := w\<rparr>"
    by (auto simp: create_tray_def bind_eq_Some_conv Let_def case_prod_beta)
  then show ?thesis by (auto simp: set_tray_def bind_eq_Some_conv same_entities_def dest!: set_rack_entities)
qed

text \<open>The first tray of a task.\<close>

lemma init_task_tray_first:
  assumes spec: "opencl_spec cl bytes" "opencl_resources cl bytes" and rel: "trays_rel bytes p T" "i < length (px_taskList p)" and e: "T i = []"
    and sz: "aget (px_tskbufferSize p) (int i) = Some sz" "0 < sz" "sz \<le> INT_MAX"
  shows "\<exists>p' m bs. init_task_tray cl True junk 0 i p = Some (Inr p') \<and> trays_rel bytes p' (T(i := [m])) \<and> same_entities p p'
    \<and> bytes (px_cl p) m = None \<and> bytes (px_cl p') = (bytes (px_cl p))(m \<mapsto> bs) \<and> int (length bs) = sz"
proof -
  let ?t = "\<lambda>t. t\<lparr>tk_trayInfo := Some junk, tk_numTrays := 1\<rparr>" and ?u = "\<lambda>t. t\<lparr>tk_trayInfo := Some sz\<rparr>"
  obtain r where r: "get_rack p (int i) = Some r" using locs_okE [OF trays_relD(1) [OF rel] rel(2)] by metis
  define p1 where "p1 = p\<lparr>px_taskList := (px_taskList p)[i := ?t (px_taskList p ! i)]\<rparr>"
  have p1: "set_task p (int i) ?t = Some p1" "locs_ok p1" "j < length (px_taskList p) \<Longrightarrow> get_rack p1 (int j) = get_rack p (int j)" for j
    unfolding p1_def using set_task_eq [of i p ?t] trays_relD(1) [OF rel] rel(2) by simp_all
  have l1: "i < length (px_taskList p1)" using rel(2) by (simp add: p1_def)
  obtain p2 where p2: "set_rack p1 (int i) (Some [None]) = Some p2" "locs_ok p2" "px_taskList p2 = px_taskList p1" "px_cl p2 = px_cl p1"
    "get_rack p2 (int i) = Some (Some [None])"
    "\<And>j. j < length (px_taskList p1) \<Longrightarrow> j \<noteq> i \<Longrightarrow> get_rack p2 (int j) = get_rack p1 (int j)"
    using set_rack_eq [OF p1(2) l1, of "Some [None]"] by metis
  have l2: "i < length (px_taskList p2)" using l1 p2(3) by simp
  define p3 where "p3 = p2\<lparr>px_taskList := (px_taskList p2)[i := ?u (px_taskList p2 ! i)]\<rparr>"
  have p3: "set_task p2 (int i) ?u = Some p3" "locs_ok p3" "j < length (px_taskList p2) \<Longrightarrow> get_rack p3 (int j) = get_rack p2 (int j)" for j
    unfolding p3_def using set_task_eq [of i p2 ?u] p2(2) l2 by simp_all
  have l3: "i < length (px_taskList p3)" "get_rack p3 (int i) = Some (Some [None])" using l2 p3(3) [of i] p2(5) by (simp_all add: p3_def)
  obtain c s m w p4 where c: "clCreateBuffer cl c (size_t sz) (px_cl p3) = (s, m, w)"
    and cr: "create_tray cl p3 (int i) 0 sz = Some (s, p4\<lparr>px_cl := w\<rparr>)"
    and p4: "locs_ok p4" "px_taskList p4 = px_taskList p3" "get_rack p4 (int i) = Some (Some [Some m])"
      "\<forall>j < length (px_taskList p3). j \<noteq> i \<longrightarrow> get_rack p4 (int j) = get_rack p3 (int j)"
    using create_tray_eq [OF p3(2) l3, of 0 cl sz] by auto
  have frame: "same_entities p (p4\<lparr>px_cl := w\<rparr>)"
    using set_task_entities [OF p1(1)] set_rack_entities [OF p2(1)] set_task_entities [OF p3(1)] create_tray_entities [OF cr]
    by (simp add: same_entities_def)
  have size2: "aget (px_tskbufferSize p2) (int i) = Some sz"
    using set_task_entities [OF p1(1)] set_rack_entities [OF p2(1)] sz(1) by (simp add: same_entities_def)
  have t2: "aget (px_taskList p2) (int i) = Some (?t (px_taskList p ! i))"
    using l2 p2(3) rel(2) by (simp add: p1_def)
  have s: "s = 0" using opencl_resourcesD(1) [OF spec(2) c] sz by (simp add: size_t_id)
  have run: "init_task_tray cl True junk 0 i p = Some (Inr (p4\<lparr>px_cl := w\<rparr>))"
    using trays_relD(2) [OF rel] rel(2) e r p1(1) p2(1) t2 size2 p3(1) cr s
    by (simp add: init_task_tray_def Let_def chkerr_def)
  have cl: "px_cl p3 = px_cl p" using p2(4) by (simp add: p1_def p3_def)
  obtain bs where m: "bytes (px_cl p) m = None" "int (length bs) = sz" "bytes w = (bytes (px_cl p))(m \<mapsto> bs)"
    using opencl_specD(1,2) [OF spec(1) c [unfolded s]] sz unfolding cl by (auto simp: size_t_id)
  have "trays_rel bytes (p4\<lparr>px_cl := w\<rparr>) (T(i := T i @ [m]))"
    by (rule trays_rel_grow [OF rel, where t' = "?u (?t (px_taskList p ! i))" and bs = bs])
      (use rel(2) e p1(3) p2(3,6) p3(3) p4 m in \<open>auto simp: p1_def p3_def\<close>)
  with run frame m e show ?thesis by auto
qed

text \<open>A first tray for every task.\<close>

lemma init_all_trays:
  assumes spec: "opencl_spec cl bytes" "opencl_resources cl bytes" and rel: "trays_rel bytes p T"
    and e: "\<forall>i < length (px_taskList p). T i = []"
    and sz: "length (px_tskbufferSize p) = length (px_taskList p)" "\<forall>s\<in>set (px_tskbufferSize p). 0 < s \<and> s \<le> INT_MAX"
  shows "\<exists>p' T'. efold (init_task_tray cl True junk 0) [0..<length (px_taskList p)] p = Some (Inr p') \<and> trays_rel bytes p' T' \<and> same_entities p p'
    \<and> (\<forall>i < length (px_taskList p). \<exists>m bs. T' i = [m] \<and> bytes (px_cl p') m = Some bs \<and> int (length bs) = px_tskbufferSize p ! i)"
proof -
  let ?n = "length (px_taskList p)"
  let ?P = "\<lambda>k q. \<exists>T'. trays_rel bytes q T' \<and> same_entities p q \<and> (\<forall>i < ?n. k \<le> i \<longrightarrow> T' i = [])
    \<and> (\<forall>i < k. \<exists>m bs. T' i = [m] \<and> bytes (px_cl q) m = Some bs \<and> int (length bs) = px_tskbufferSize p ! i)"
  have "\<exists>q. efold (init_task_tray cl True junk 0) [0..<?n] p = Some (Inr q) \<and> ?P ?n q"
  proof (rule efold_upt_inv [where P = ?P], goal_cases)
    case 1 show ?case using rel e by (auto simp: same_entities_def)
  next
    case (2 k q)
    then obtain T' where q: "trays_rel bytes q T'" "same_entities p q" "\<forall>i < ?n. k \<le> i \<longrightarrow> T' i = []"
      "\<forall>i < k. \<exists>m bs. T' i = [m] \<and> bytes (px_cl q) m = Some bs \<and> int (length bs) = px_tskbufferSize p ! i" by blast
    let ?s = "px_tskbufferSize p ! k"
    have l: "k < length (px_taskList q)" using 2(1) q(2) by (simp add: same_entities_def)
    have a: "aget (px_tskbufferSize q) (int k) = Some ?s" using 2(1) q(2) sz(1) by (simp add: same_entities_def)
    have s: "0 < ?s" "?s \<le> INT_MAX" using sz 2(1) by simp_all
    obtain q' m bs where q': "init_task_tray cl True junk 0 k q = Some (Inr q')" "trays_rel bytes q' (T'(k := [m]))" "same_entities q q'"
      "bytes (px_cl q) m = None" "bytes (px_cl q') = (bytes (px_cl q))(m \<mapsto> bs)" "int (length bs) = ?s"
      using init_task_tray_first [OF spec q(1) l _ a s, of junk] q(3) 2(1) by auto
    have "\<exists>m' bs. (T'(k := [m])) i = [m'] \<and> bytes (px_cl q') m' = Some bs \<and> int (length bs) = px_tskbufferSize p ! i" if "i < Suc k" for i
    proof (cases "i = k")
      case True
      then show ?thesis using q'(5,6) by simp
    next
      case False
      then obtain m' bs' where "T' i = [m']" "bytes (px_cl q) m' = Some bs'" "int (length bs') = px_tskbufferSize p ! i"
        using q(4) \<open>i < Suc k\<close> by (metis less_SucE)
      moreover from this have "m' \<noteq> m" using q'(4) by auto
      ultimately show ?thesis using False q'(5) by simp
    qed
    moreover have "same_entities p q'" using q(2) q'(3) by (simp add: same_entities_def)
    ultimately show ?case using q' q(3) by (intro exI [of _ q'] conjI exI [of _ "T'(k := [m])"]) auto
  qed
  then show ?thesis by blast
qed

text \<open>One part of the host buffer is written to its task.\<close>

lemma write_task_part_rel:
  assumes spec: "opencl_spec cl bytes" "opencl_resources cl bytes" and rel: "trays_rel bytes p T" "i < length (px_taskList p)"
    and m: "T i = [m]" "bytes (px_cl p) m = Some bs" "length bs = l" "0 < l"
    and sz: "aget (px_tskbufferSize p) (int i) = Some (int l)" "aget (px_tskbufferSize p) 0 = Some s0" "off + l \<le> length host"
  shows "\<exists>w. write_task_part cl 0 host i (int off, p) = Some (Inr (int off + s0, p\<lparr>px_cl := w\<rparr>))
    \<and> bytes w = (bytes (px_cl p))(m \<mapsto> take l (drop off host)) \<and> trays_rel bytes (p\<lparr>px_cl := w\<rparr>) T"
proof -
  let ?d = "take l (drop off host)"
  obtain d dev where td: "task_device p (int i) = Some (px_taskList p ! i, d, dev)" using task_device_rel [OF rel] .
  obtain s w where wr: "clEnqueueWriteBuffer cl (dv_queue dev) m 0 ?d (px_cl p) = (s, w)"
    by (cases "clEnqueueWriteBuffer cl (dv_queue dev) m 0 ?d (px_cl p)")
  have len: "length ?d = l" using sz(3) by simp
  have s: "s = 0" using opencl_resourcesD(2) [where bytes = bytes, OF spec(2) wr m(2)] len m(3,4) by auto
  have w: "bytes w = (bytes (px_cl p))(m \<mapsto> ?d)"
    using opencl_specD(3) [OF spec(1) wr [unfolded s]] m(2,3) len by (auto simp: put_bytes_def)
  have "asub host (int off) (int l) = Some ?d" using sz(3) m(4) by (simp add: asub_def)
  moreover have "get_tray p (int i) 0 = Some m" using get_tray_rel [OF rel, of 0] m(1) by simp
  ultimately have "write_task_part cl 0 host i (int off, p) = Some (Inr (int off + s0, p\<lparr>px_cl := w\<rparr>))"
    using td sz wr s by (simp add: write_task_part_def chkerr_def)
  with w trays_rel_cl [OF rel(1) w] show ?thesis by blast
qed

lemma read_task_part_rel:
  assumes spec: "opencl_spec cl bytes" "opencl_resources cl bytes" and rel: "trays_rel bytes p T" "i < length (px_taskList p)"
    and m: "T i = [m]" "bytes (px_cl p) m = Some bs" "length bs = l" "0 < l" "int l \<le> INT_MAX"
    and sz: "aget (px_tskbufferSize p) (int i) = Some (int l)" "aget (px_tskbufferSize p) 0 = Some s0" "off + l \<le> length host"
  shows "read_task_part cl 0 p i (int off, host) = Some (Inr (int off + s0, put_bytes host off bs))"
proof -
  obtain d dev where td: "task_device p (int i) = Some (px_taskList p ! i, d, dev)" using task_device_rel [OF rel] .
  obtain s data where rd: "clEnqueueReadBuffer cl (dv_queue dev) m 0 (int l) (px_cl p) = (s, data)"
    by (cases "clEnqueueReadBuffer cl (dv_queue dev) m 0 (int l) (px_cl p)")
  have s: "s = 0" using opencl_resourcesD(3) [where bytes = bytes, OF spec(2) rd m(2)] m(3,4) by auto
  have data: "data = bs" using opencl_specD(4) [OF spec(1) rd [unfolded s]] m(2,3) by auto
  have "get_tray p (int i) 0 = Some m" using get_tray_rel [OF rel, of 0] m(1) by simp
  then show ?thesis
    using td sz rd s data m(3,5) by (simp add: read_task_part_def chkerr_def size_t_id)
qed

section \<open>Scattering and gathering\<close>

text \<open>The parts: \<open>k - 1\<close> of \<open>a\<close> bytes and one of \<open>b\<close> bytes.\<close>

definition part_len :: "nat \<Rightarrow> nat \<Rightarrow> nat \<Rightarrow> nat \<Rightarrow> nat" where
  "part_len k a b i = (if i = k - 1 then b else a)"

definition parts :: "nat \<Rightarrow> nat \<Rightarrow> nat \<Rightarrow> int list" where
  "parts k a b = replicate (k - 1) (int a) @ [int b]"

lemma parts_get:
  assumes "0 < k"
  shows "i < k \<Longrightarrow> aget (parts k a b) (int i) = Some (int (part_len k a b i))" and "(k = 1 \<longrightarrow> a = b) \<Longrightarrow> aget (parts k a b) 0 = Some (int a)"
    and "length (parts k a b) = k"
  using assms by (auto simp: parts_def part_len_def aget_def nth_append)

lemma part_end:
  assumes "i < k"
  shows "i * a + part_len k a b i = (if Suc i < k then Suc i * a else (k - 1) * a + b)" "i * a + part_len k a b i \<le> (k - 1) * a + b"
proof -
  show eq: "i * a + part_len k a b i = (if Suc i < k then Suc i * a else (k - 1) * a + b)"
    using assms by (auto simp: part_len_def)
  have "Suc i * a \<le> (k - 1) * a" if "Suc i < k" using that by (intro mult_right_mono) simp_all
  then show "i * a + part_len k a b i \<le> (k - 1) * a + b" unfolding eq by auto
qed

lemma write_all_parts:
  assumes spec: "opencl_spec cl bytes" "opencl_resources cl bytes" and rel: "trays_rel bytes p T"
    and k: "k = length (px_taskList p)" "0 < k" "px_tskbufferSize p = parts k a b" "0 < a" "0 < b" "k = 1 \<longrightarrow> a = b"
    and T: "\<forall>i < k. \<exists>m bs. T i = [m] \<and> bytes (px_cl p) m = Some bs \<and> length bs = part_len k a b i"
    and host: "(k - 1) * a + b \<le> length host"
  shows "\<exists>p'. ALL_TASKS_writeBuffer cl (int k) 0 host p = Some (Inr p') \<and> trays_rel bytes p' T \<and> same_entities p p'
    \<and> (\<forall>i < k. \<exists>m. T i = [m] \<and> bytes (px_cl p') m = Some (take (part_len k a b i) (drop (i * a) host)))"
proof -
  let ?l = "part_len k a b"
  let ?P = "\<lambda>j (off, q). off = int (j * a) \<and> trays_rel bytes q T \<and> same_entities p q
    \<and> (\<forall>i < k. \<exists>m bs. T i = [m] \<and> bytes (px_cl q) m = Some bs \<and> length bs = ?l i \<and> (i < j \<longrightarrow> bs = take (?l i) (drop (i * a) host)))"
  have "\<exists>s. efold (write_task_part cl 0 host) [0..<k] (0, p) = Some (Inr s) \<and> ?P k s"
  proof (rule efold_upt_inv [where P = ?P], goal_cases)
    case 1 show ?case using rel T by (auto simp: same_entities_def)
  next
    case (2 j s)
    obtain off q where s: "s = (off, q)" by (cases s)
    with 2(2) have off: "off = int (j * a)" and q: "trays_rel bytes q T" "same_entities p q"
      and inv: "\<forall>i < k. \<exists>m bs. T i = [m] \<and> bytes (px_cl q) m = Some bs \<and> length bs = ?l i \<and> (i < j \<longrightarrow> bs = take (?l i) (drop (i * a) host))"
      by auto
    obtain m bs where m: "T j = [m]" "bytes (px_cl q) m = Some bs" "length bs = ?l j" using inv 2(1) by blast
    have l: "j < length (px_taskList q)" "px_tskbufferSize q = parts k a b" using 2(1) k q(2) by (simp_all add: same_entities_def)
    have pl: "0 < ?l j" "j * a + ?l j \<le> length host"
      using k(4,5) part_end(2) [OF 2(1), of a b] host by (auto simp: part_len_def)
    obtain w where w: "write_task_part cl 0 host j (off, q) = Some (Inr (off + int a, q\<lparr>px_cl := w\<rparr>))"
      "bytes w = (bytes (px_cl q))(m \<mapsto> take (?l j) (drop (j * a) host))" "trays_rel bytes (q\<lparr>px_cl := w\<rparr>) T"
      using write_task_part_rel [OF spec q(1) l(1) m pl(1), of "int a" "j * a" host] parts_get [OF k(2)] 2(1) k(6) l(2) pl(2) unfolding off by auto
    have "\<exists>m bs. T i = [m] \<and> bytes w m = Some bs \<and> length bs = ?l i \<and> (i < Suc j \<longrightarrow> bs = take (?l i) (drop (i * a) host))" if i: "i < k" for i
    proof (cases "i = j")
      case True
      then show ?thesis using m(1) w(2) pl(2) by simp
    next
      case False
      obtain m' bs' where m': "T i = [m']" "bytes (px_cl q) m' = Some bs'" "length bs' = ?l i" "i < j \<longrightarrow> bs' = take (?l i) (drop (i * a) host)"
        using inv i by blast
      have "m' \<noteq> m"
        using trays_distinct [OF q(1) l(1), of i 0 0] m(1) m'(1) False i k(1) q(2) by (simp add: same_entities_def)
      then show ?thesis using m' w(2) False by auto
    qed
    then show ?case using w(1,3) q(2) unfolding s off by (auto simp: same_entities_def algebra_simps)
  qed
  then obtain off q where q: "efold (write_task_part cl 0 host) [0..<k] (0, p) = Some (Inr (off, q))" "?P k (off, q)" by auto
  then show ?thesis by (auto simp: ALL_TASKS_writeBuffer_def)
qed

lemma put_bytes_next:
  "off + l \<le> length data \<Longrightarrow> off + l \<le> length tmp \<Longrightarrow>
     put_bytes (take off data @ drop off tmp) off (take l (drop off data)) = take (off + l) data @ drop (off + l) tmp"
  by (simp add: put_bytes_def take_add) (simp add: add.commute)

lemma read_all_parts:
  assumes spec: "opencl_spec cl bytes" "opencl_resources cl bytes" and rel: "trays_rel bytes p T"
    and k: "k = length (px_taskList p)" "0 < k" "px_tskbufferSize p = parts k a b" "0 < a" "0 < b" "k = 1 \<longrightarrow> a = b"
    and T: "\<forall>i < k. \<exists>m. T i = [m] \<and> bytes (px_cl p) m = Some (take (part_len k a b i) (drop (i * a) data))"
    and len: "(k - 1) * a + b \<le> length data" "(k - 1) * a + b \<le> length tmp" "int ((k - 1) * a + b) \<le> INT_MAX"
  shows "ALL_TASKS_readBuffer cl (int k) 0 tmp p = Some (Inr (take ((k - 1) * a + b) data @ drop ((k - 1) * a + b) tmp))"
proof -
  let ?l = "part_len k a b" and ?pos = "\<lambda>j. if j < k then j * a else (k - 1) * a + b"
  let ?P = "\<lambda>j s. s = (int (j * a), take (?pos j) data @ drop (?pos j) tmp)"
  have "\<exists>s. efold (read_task_part cl 0 p) [0..<k] (0, tmp) = Some (Inr s) \<and> ?P k s"
  proof (rule efold_upt_inv [where P = ?P], goal_cases)
    case 1 show ?case using k(2) by simp
  next
    case (2 j s)
    let ?h = "take (j * a) data @ drop (j * a) tmp"
    have s: "s = (int (j * a), ?h)" using 2 by simp
    obtain m where m: "T j = [m]" "bytes (px_cl p) m = Some (take (?l j) (drop (j * a) data))" using T 2(1) by blast
    have l: "j < length (px_taskList p)" using 2(1) k(1) by simp
    have e: "j * a + ?l j = ?pos (Suc j)" "j * a + ?l j \<le> (k - 1) * a + b" using part_end [OF 2(1)] by simp_all
    have "int (?l j) \<le> int ((k - 1) * a + b)" using e(2) by linarith
    then have lens: "length (take (?l j) (drop (j * a) data)) = ?l j" "0 < ?l j" "int (?l j) \<le> INT_MAX" "j * a + ?l j \<le> length ?h"
      using e(2) len k(4,5) by (auto simp: part_len_def)
    have "read_task_part cl 0 p j s = Some (Inr (int (j * a) + int a, put_bytes ?h (j * a) (take (?l j) (drop (j * a) data))))"
      unfolding s using read_task_part_rel [OF spec rel l m lens(1-3), of "int a" "j * a" ?h] lens(4) parts_get [OF k(2)] 2(1) k(3,6) by simp
    also have "put_bytes ?h (j * a) (take (?l j) (drop (j * a) data)) = take (?pos (Suc j)) data @ drop (?pos (Suc j)) tmp"
      using put_bytes_next [of "j * a" "?l j" data tmp] e len(1,2) by simp
    finally show ?case by (simp add: algebra_simps)
  qed
  then show ?thesis by (auto simp: ALL_TASKS_readBuffer_def)
qed

lemma to_int32_id: "0 \<le> n \<Longrightarrow> n \<le> INT_MAX \<Longrightarrow> to_int32 n = n"
  by (simp add: to_int32_def INT_MAX_def)

text \<open>The sizes of the parts of \<open>e\<close> entities of \<open>z\<close> bytes, when they add up.\<close>

lemma parts_bound:
  assumes "0 < k" "0 < a" "0 < b" "s \<in> set (parts k a b)"
  shows "0 < s" "s \<le> int ((k - 1) * a + b)"
proof -
  obtain i where i: "i < k" "s = parts k a b ! i" using assms(4) parts_get(3) [OF assms(1), of a b] by (metis in_set_conv_nth)
  then have s: "s = int (part_len k a b i)" using parts_get(1,3) [OF assms(1)] by (simp add: aget_def)
  show "0 < s" unfolding s using assms(2,3) by (simp add: part_len_def)
  show "s \<le> int ((k - 1) * a + b)" unfolding s using part_end(2) [OF i(1), of a b] by linarith
qed

lemma entity_parts:
  assumes "0 < k" "k \<le> e" "e < 16777216" "0 < z" "int (e * z) \<le> INT_MAX" "e mod k = 0 \<or> e mod k = k - 1"
  obtains a b where "task_sizes (int e) (int k) (int z) = Some (parts k a b)" "0 < a" "0 < b" "k = 1 \<longrightarrow> a = b"
    "(k - 1) * a + b = e * z"
proof -
  let ?c = "(e + k - 1) div k" and ?f = "e div k"
  have ic: "(int e + int k - 1) div int k = int ?c"
    using assms(1) by (simp add: zdiv_int of_nat_diff)
  have "e * 1 \<le> e * k" using assms(1) by (intro mult_le_mono2) simp
  moreover have "(e + 1) * k = e * k + k" by simp
  ultimately have "e + k - 1 < (e + 1) * k" using assms(1) by linarith
  then have "?c < e + 1" by (rule less_mult_imp_div_less)
  then have "?c \<le> e" by simp
  then have "int (?c * z) \<le> int (e * z)" by (simp only: of_nat_le_iff mult_le_mono1)
  then have "int ?c * int z \<le> INT_MAX" using assms(5) by simp
  moreover have "int e div int k = int ?f" by (simp add: zdiv_int)
  ultimately have sizes: "task_sizes (int e) (int k) (int z) = Some (parts k (?c * z) (?f * z))"
    using task_sizes_eq [of "int e" "int k" "int z"] assms(1-4) by (simp only: ic) (simp add: parts_def)
  have f: "0 < ?f" using assms(1,2) by (simp add: div_greater_zero_iff)
  moreover have "?f \<le> ?c" using assms(1) by (intro div_le_mono) simp
  ultimately have pos: "0 < ?c * z" "0 < ?f * z" using assms(4) by simp_all
  have "int (e mod k) = int e mod int k" by (simp add: zmod_int)
  then have "int e mod int k = 0 \<or> int e mod int k = int k - 1" using assms(1,6) by (auto simp: of_nat_diff)
  then have "(int k - 1) * int ?c + int ?f = int e"
    using split_total [of "int k" "int e"] assms(1) unfolding ic by (auto simp: zdiv_int)
  then have "int ((k - 1) * ?c + ?f) = int e" using assms(1) by (simp add: of_nat_diff)
  then have "(k - 1) * ?c + ?f = e" by (simp only: of_nat_eq_iff)
  then have "(k - 1) * (?c * z) + ?f * z = e * z" by (metis add_mult_distrib mult.assoc)
  moreover have "k = 1 \<longrightarrow> ?c * z = ?f * z" by simp
  ultimately show ?thesis using that [OF sizes pos] by simp
qed

text \<open>The bodies of the two functions around the loops over the tasks.\<close>

lemma scatter_fit:
  assumes "e = l div z div c" "0 < c" "r < c"
  shows "r * e * z + e * z \<le> (l :: nat)"
proof -
  have "e * c \<le> l div z" unfolding assms(1) by simp
  then have "e * c * z \<le> l div z * z" by (rule mult_le_mono1)
  also have "\<dots> \<le> l" by simp
  finally have "e * c * z \<le> l" .
  moreover have "(r + 1) * (e * z) \<le> c * (e * z)" using assms(3) by (intro mult_le_mono1) simp
  ultimately show ?thesis by (simp add: algebra_simps)
qed

text \<open>The place of the process in the file, as far as the view is accepted.\<close>

definition place :: "nat \<Rightarrow> nat \<Rightarrow> nat \<Rightarrow> nat" where
  "place z e r = (if 4 dvd z then r * e * z else 0)"

lemma view_offset_place: "nat (view_offset (int z) (int r * int e * int z)) = place z e r"
proof -
  have "int z mod 4 = 0 \<longleftrightarrow> 4 dvd z" by presburger
  moreover have "int r * int e * int z = int (r * e * z)" by simp
  ultimately show ?thesis unfolding view_offset_def place_def by (simp del: of_nat_mult)
qed

lemma place_fit:
  assumes "e = l div z div c" "0 < c" "r < c"
  shows "place z e r + e * z \<le> (l :: nat)"
  using scatter_fit [OF assms] by (simp add: place_def)

lemma scatter_runs:
  assumes "e = length file div z div c" "0 < z" "0 < c" "r < c" "int (length file) \<le> INT_MAX" and "e * z \<le> length host"
    and "ALL_TASKS_initBuffer cl mem junk k t (int e * int z) (int z) (p\<lparr>px_MPIentityTypeSize := int z, px_ePerRank := int e\<rparr>) = Some (Inr p2)"
    and "ALL_TASKS_writeBuffer cl k t (take (e * z) (drop (place z e r) file) @ drop (e * z) host) p2 = Some (Inr p3)"
  shows "OMPI_XclScatter cl mem junk file (int z) (int c) (int r) k (Some host) t p
    = Some (Inr (None, Some (take (e * z) (drop (place z e r) file) @ drop (e * z) host), p3))"
proof -
  have n: "nat (int e * int z) = e * z" by (simp only: of_nat_mult [symmetric] nat_int)
  have "to_int32 (int (length file)) sdiv int z sdiv int c = int e"
    using to_int32_id [of "int (length file)"] assms(1,5) by simp
  moreover have "length (take (e * z) (drop (place z e r) file)) = e * z"
    using place_fit [OF assms(1,3,4)] by simp
  ultimately show ?thesis using assms(2,6-8) n view_offset_place by (simp add: OMPI_XclScatter_def Let_def)
qed

lemma gather_runs:
  assumes "px_MPIentityTypeSize p = int z" "px_ePerRank p = int e"
    and "ALL_TASKS_readBuffer cl (int k) t (replicate (n * z * k) 0) p = Some (Inr tmp)"
    and "0 < k" "int (n * z * k) \<le> INT_MAX" "0 < z" "int (r * e * z) \<le> INT_MAX" "e * z \<le> length tmp"
  shows "OMPI_XclGather cl out (int r) (int k) t (int n) p = Some (Inr (file_write out (place z e r) (take (e * z) tmp), tmp))"
proof -
  have mul: "int_mul (int x) (int y) = Some (int (x * y))" if "int (x * y) \<le> INT_MAX" for x y
  proof -
    have "- INT_MAX - 1 \<le> 0" "0 \<le> int (x * y)" by (simp add: INT_MAX_def, rule of_nat_0_le_iff)
    then have "- INT_MAX - 1 \<le> int (x * y)" by (rule order_trans)
    then show ?thesis using that by (simp add: int_mul_def)
  qed
  have "n * z * 1 \<le> n * z * k" "r * e * 1 \<le> r * e * z" using assms(4,6) by (intro mult_le_mono2; simp)+
  then have "int (n * z) \<le> INT_MAX" "int (r * e) \<le> INT_MAX" using assms(5,7) by linarith+
  then have m: "int_mul (int n) (int z) = Some (int (n * z))" "int_mul (int (n * z)) (int k) = Some (int (n * z * k))"
    "int_mul (int r) (int e) = Some (int (r * e))" "int_mul (int (r * e)) (int z) = Some (int (r * e * z))"
    using mul assms(5,7) by blast+
  have n: "nat (int e * int z) = e * z" by (simp only: of_nat_mult [symmetric] nat_int)
  have v: "nat (view_offset (int z) (int (r * e * z))) = place z e r" using view_offset_place [of z r e] by (simp add: mult.assoc)
  have "int (length tmp) < int e * int z \<longleftrightarrow> False" using assms(8) by (simp only: of_nat_mult [symmetric] of_nat_less_iff) simp
  then show ?thesis
    using assms(1-3) n by (simp add: OMPI_XclGather_def m v del: of_nat_mult)
qed

text \<open>After the scatter every task holds its part of the host buffer in its first tray.\<close>

lemma scatter_delivers:
  assumes spec: "opencl_spec cl bytes" "opencl_resources cl bytes"
    and rel: "trays_rel bytes p T" "\<forall>i < length (px_taskList p). T i = []"
    and k: "k = length (px_taskList p)" "0 < k" "k \<le> e" "e < 16777216" "e mod k = 0 \<or> e mod k = k - 1"
    and e: "e = length file div z div c" "0 < z" "0 < c" "r < c" "int (length file) \<le> INT_MAX"
    and host: "e * z \<le> length host" "hb = take (e * z) (drop (place z e r) file) @ drop (e * z) host"
  obtains p3 T3 a b where "OMPI_XclScatter cl True junk file (int z) (int c) (int r) (int k) (Some host) 0 p = Some (Inr (None, Some hb, p3))"
    "0 < a" "0 < b" "k = 1 \<longrightarrow> a = b" "(k - 1) * a + b = e * z" "e * z \<le> length hb" "int (e * z) \<le> INT_MAX" "take (e * z) hb = take (e * z) (drop (place z e r) file)"
    "trays_rel bytes p3 T3" "\<forall>i < k. \<exists>m. T3 i = [m] \<and> bytes (px_cl p3) m = Some (take (part_len k a b i) (drop (i * a) hb))"
    "k = length (px_taskList p3)" "px_tskbufferSize p3 = parts k a b" "px_MPIentityTypeSize p3 = int z" "px_ePerRank p3 = int e"
proof -
  let ?region = "take (e * z) (drop (place z e r) file)"
  let ?p = "p\<lparr>px_MPIentityTypeSize := int z, px_ePerRank := int e\<rparr>"
  have fit: "place z e r + e * z \<le> length file" using place_fit [OF e(1,3,4)] .
  then have region: "length ?region = e * z" and ez: "int (e * z) \<le> INT_MAX" using e(5) by (simp, linarith)
  obtain a b where sizes: "task_sizes (int e) (int k) (int z) = Some (parts k a b)" "0 < a" "0 < b" "k = 1 \<longrightarrow> a = b"
    and total: "(k - 1) * a + b = e * z"
    using entity_parts [OF k(2-4) e(2) ez k(5)] .
  define p1 where "p1 = ?p\<lparr>px_tskbufferSize := parts k a b\<rparr>"
  have simps: "px_taskList p1 = px_taskList p" "px_tskbufferSize p1 = parts k a b" "px_MPIentityTypeSize p1 = int z" "px_ePerRank p1 = int e"
    by (simp_all add: p1_def)
  have rel1: "trays_rel bytes p1 T" using rel(1) trays_rel_cong(2) [of p1 p] by (simp add: p1_def)
  have "0 < s \<and> s \<le> INT_MAX" if "s \<in> set (parts k a b)" for s
    using parts_bound [OF k(2) sizes(2,3) that] ez unfolding total by linarith
  then have sz: "length (px_tskbufferSize p1) = length (px_taskList p1)" "\<forall>s\<in>set (px_tskbufferSize p1). 0 < s \<and> s \<le> INT_MAX"
    using parts_get(3) [OF k(2)] k(1) simps by auto
  obtain p2 T2 where p2: "efold (init_task_tray cl True junk 0) [0..<k] p1 = Some (Inr p2)" "trays_rel bytes p2 T2" "same_entities p1 p2"
    "\<forall>i < k. \<exists>m bs. T2 i = [m] \<and> bytes (px_cl p2) m = Some bs \<and> int (length bs) = px_tskbufferSize p1 ! i"
    using init_all_trays [OF spec rel1 _ sz, of junk] rel(2) k(1) simps(1) by auto
  have k2: "k = length (px_taskList p2)" "px_tskbufferSize p2 = parts k a b" "px_MPIentityTypeSize p2 = int z" "px_ePerRank p2 = int e"
    using p2(3) k(1) simps by (simp_all add: same_entities_def)
  have "px_tskbufferSize p1 ! i = int (part_len k a b i)" if "i < k" for i
    using parts_get(1) [OF k(2) that, of a b] that parts_get(3) [OF k(2), of a b] simps(2) by (simp add: aget_def)
  then have T2: "\<forall>i < k. \<exists>m bs. T2 i = [m] \<and> bytes (px_cl p2) m = Some bs \<and> length bs = part_len k a b i"
    using p2(4) by (metis of_nat_eq_iff)
  have "(int e * int z) sdiv int z = int e" using int_sdiv_int [of "e * z" z] e(2) by simp
  then have init: "ALL_TASKS_initBuffer cl True junk (int k) 0 (int e * int z) (int z) ?p = Some (Inr p2)"
    using sizes(1) p2(1) e(2) by (simp add: ALL_TASKS_initBuffer_def p1_def)
  have hl: "(k - 1) * a + b \<le> length hb" using region total host by simp
  obtain p3 where p3: "ALL_TASKS_writeBuffer cl (int k) 0 hb p2 = Some (Inr p3)" "trays_rel bytes p3 T2" "same_entities p2 p3"
    "\<forall>i < k. \<exists>m. T2 i = [m] \<and> bytes (px_cl p3) m = Some (take (part_len k a b i) (drop (i * a) hb))"
    using write_all_parts [OF spec p2(2) k2(1) k(2) k2(2) sizes(2,3,4) T2 hl] by blast
  have scatter: "OMPI_XclScatter cl True junk file (int z) (int c) (int r) (int k) (Some host) 0 p = Some (Inr (None, Some hb, p3))"
    using scatter_runs [OF e host(1) init p3(1) [unfolded host(2)]] host(2) by simp
  have k3: "k = length (px_taskList p3)" "px_tskbufferSize p3 = parts k a b" "px_MPIentityTypeSize p3 = int z" "px_ePerRank p3 = int e"
    using p3(3) k2 by (simp_all add: same_entities_def)
  show ?thesis
    by (rule that [OF scatter sizes(2-4) total hl [unfolded total] ez _ p3(2,4) k3]) (use fit in \<open>simp add: host(2)\<close>)
qed

text \<open>The round trip, wherever the view of the process begins.\<close>

lemma scatter_gather_view:
  assumes spec: "opencl_spec cl bytes" "opencl_resources cl bytes"
    and rel: "trays_rel bytes p T" "\<forall>i < length (px_taskList p). T i = []"
    and k: "k = length (px_taskList p)" "0 < k" "k \<le> e" "e < 16777216" "e mod k = 0 \<or> e mod k = k - 1"
    and e: "e = length file div z div c" "0 < z" "0 < c" "r < c" "int (length file) \<le> INT_MAX"
    and host: "e * z \<le> length host" "e \<le> n * k" "int (n * z * k) \<le> INT_MAX"
  shows "\<exists>p' tmp. OMPI_XclScatter cl True junk file (int z) (int c) (int r) (int k) (Some host) 0 p
        = Some (Inr (None, Some (take (e * z) (drop (place z e r) file) @ drop (e * z) host), p'))
    \<and> OMPI_XclGather cl out (int r) (int k) 0 (int n) p'
        = Some (Inr (file_write out (place z e r) (take (e * z) (drop (place z e r) file)), tmp))
    \<and> take (e * z) tmp = take (e * z) (drop (place z e r) file)"
proof -
  let ?region = "take (e * z) (drop (place z e r) file)"
  let ?host = "?region @ drop (e * z) host" and ?zeros = "replicate (n * z * k) (0 :: byte)"
  obtain p3 T3 a b where scatter: "OMPI_XclScatter cl True junk file (int z) (int c) (int r) (int k) (Some host) 0 p = Some (Inr (None, Some ?host, p3))"
    and ab: "0 < a" "0 < b" "k = 1 \<longrightarrow> a = b" and total: "(k - 1) * a + b = e * z" "e * z \<le> length ?host" "int (e * z) \<le> INT_MAX" "take (e * z) ?host = ?region"
    and p3: "trays_rel bytes p3 T3" "\<forall>i < k. \<exists>m. T3 i = [m] \<and> bytes (px_cl p3) m = Some (take (part_len k a b i) (drop (i * a) ?host))"
    and k3: "k = length (px_taskList p3)" "px_tskbufferSize p3 = parts k a b" "px_MPIentityTypeSize p3 = int z" "px_ePerRank p3 = int e"
    using scatter_delivers [OF spec rel k e host(1) refl, of junk] .
  have "e * z \<le> n * k * z" using host(2) by (rule mult_le_mono1)
  then have tl: "e * z \<le> length ?zeros" by (simp add: ac_simps)
  let ?tmp = "take (e * z) ?host @ drop (e * z) ?zeros"
  have read: "ALL_TASKS_readBuffer cl (int k) 0 ?zeros p3 = Some (Inr ?tmp)"
    using read_all_parts [OF spec p3(1) k3(1) k(2) k3(2) ab p3(2), of ?zeros] tl total(2,3) unfolding total(1) by blast
  have tmp: "take (e * z) ?tmp = ?region" "e * z \<le> length ?tmp" using total(2,4) by simp_all
  have "int (r * e * z) \<le> INT_MAX" using scatter_fit [OF e(1,3,4)] e(5) by linarith
  then have "OMPI_XclGather cl out (int r) (int k) 0 (int n) p3 = Some (Inr (file_write out (place z e r) ?region, ?tmp))"
    using gather_runs [OF k3(3,4) read k(2) host(3) e(2) _ tmp(2), of r out] unfolding tmp(1) by blast
  with scatter tmp(1) show ?thesis by blast
qed

text \<open>An entity type whose size is not a multiple of four bytes: every process reads, and writes, the beginning
  of the file instead of its own part.\<close>

lemma scatter_small_entities:
  assumes spec: "opencl_spec cl bytes" "opencl_resources cl bytes"
    and rel: "trays_rel bytes p T" "\<forall>i < length (px_taskList p). T i = []"
    and k: "k = length (px_taskList p)" "0 < k" "k \<le> e" "e < 16777216" "e mod k = 0 \<or> e mod k = k - 1"
    and e: "e = length file div z div c" "0 < z" "0 < c" "r < c" "int (length file) \<le> INT_MAX"
    and host: "e * z \<le> length host" "e \<le> n * k" "int (n * z * k) \<le> INT_MAX" and four: "\<not> 4 dvd z"
  shows "\<exists>p' tmp. OMPI_XclScatter cl True junk file (int z) (int c) (int r) (int k) (Some host) 0 p
        = Some (Inr (None, Some (take (e * z) file @ drop (e * z) host), p'))
    \<and> OMPI_XclGather cl out (int r) (int k) 0 (int n) p' = Some (Inr (file_write out 0 (take (e * z) file), tmp))"
proof -
  have "place z e r = 0" using four by (simp add: place_def)
  then show ?thesis using scatter_gather_view [OF spec rel k e host, of junk out] by auto
qed

text \<open>C16: One process of a communicator of \<open>c\<close> scatters a file and gathers it again, into the same
  or another file. For an entity type whose size is a multiple of the four bytes of a \<^verbatim>\<open>MPI_FLOAT\<close>, which the
  code passes as the elementary type of the view, a file of at most \<^verbatim>\<open>INT_MAX\<close> bytes, fewer than \<open>2 ^ 24\<close> entities per
  process and tasks without trays, at least one entity per task, a remainder of the division of
  entities by tasks that is 0 or one less than the number of tasks, and a \<^verbatim>\<open>count\<close> with room for
  all entities in less than \<^verbatim>\<open>INT_MAX\<close> bytes: the host buffer receives the part of the file of this process, and the gather
  writes exactly these bytes to the place of the process in the file. (For other sizes the view is refused,
  see \<open>scatter_small_entities\<close>.)\<close>

theorem scatter_gather_roundtrip:
  assumes spec: "opencl_spec cl bytes" "opencl_resources cl bytes"
    and rel: "trays_rel bytes p T" "\<forall>i < length (px_taskList p). T i = []"
    and k: "k = length (px_taskList p)" "0 < k" "k \<le> e" "e < 16777216" "e mod k = 0 \<or> e mod k = k - 1"
    and e: "e = length file div z div c" "0 < z" "0 < c" "r < c" "int (length file) \<le> INT_MAX"
    and host: "e * z \<le> length host" "e \<le> n * k" "int (n * z * k) \<le> INT_MAX" and four: "4 dvd z"
  shows "\<exists>p' tmp. OMPI_XclScatter cl True junk file (int z) (int c) (int r) (int k) (Some host) 0 p
        = Some (Inr (None, Some (take (e * z) (drop (r * e * z) file) @ drop (e * z) host), p'))
    \<and> OMPI_XclGather cl out (int r) (int k) 0 (int n) p'
        = Some (Inr (file_write out (r * e * z) (take (e * z) (drop (r * e * z) file)), tmp))
    \<and> take (e * z) tmp = take (e * z) (drop (r * e * z) file)"
proof -
  have "place z e r = r * e * z" using four by (simp add: place_def)
  then show ?thesis using scatter_gather_view [OF spec rel k e host, of junk out] by simp
qed

text \<open>Two processes and two tasks; four entities of four bytes.\<close>

theorem scatter_gather_roundtrip_witness:
  "\<exists>p' tmp. OMPI_XclScatter heap_opencl True 0 [1, 2, 3, 4, 5, 6, 7, 8, 9, 10, 11, 12, 13, 14, 15, 16] 4 2 1 2 (Some (replicate 8 0)) 0 sample_proc
      = Some (Inr (None, Some [9, 10, 11, 12, 13, 14, 15, 16], p'))
    \<and> OMPI_XclGather heap_opencl [9] 1 2 0 2 p' = Some (Inr ([9, 0, 0, 0, 0, 0, 0, 0, 9, 10, 11, 12, 13, 14, 15, 16], tmp))"
proof -
  let ?f = "[1, 2, 3, 4, 5, 6, 7, 8, 9, 10, 11, 12, 13, 14, 15, 16] :: byte list"
  let ?part = "[9, 10, 11, 12, 13, 14, 15, 16] :: byte list"
  have f: "take 8 (drop 8 ?f) = ?part" by simp
  have w: "file_write [9] 8 ?part = [9, 0, 0, 0, 0, 0, 0, 0, 9, 10, 11, 12, 13, 14, 15, 16]"
    by (simp add: file_write_def put_bytes_def eval_nat_numeral)
  have l: "2 = length (px_taskList sample_proc)" "\<forall>i < length (px_taskList sample_proc). [] = []" by (simp_all add: sample_proc_def)
  have "\<exists>p' tmp. OMPI_XclScatter heap_opencl True 0 ?f (int 4) (int 2) (int 1) (int 2) (Some (replicate 8 0)) 0 sample_proc
        = Some (Inr (None, Some (take (2 * 4) (drop (1 * 2 * 4) ?f) @ drop (2 * 4) (replicate 8 0)), p'))
    \<and> OMPI_XclGather heap_opencl [9] (int 1) (int 2) 0 (int 2) p' = Some (Inr (file_write [9] (1 * 2 * 4) (take (2 * 4) (drop (1 * 2 * 4) ?f)), tmp))
    \<and> take (2 * 4) tmp = take (2 * 4) (drop (1 * 2 * 4) ?f)"
    by (rule scatter_gather_roundtrip [OF heap_opencl_spec heap_opencl_resources sample_proc_rel l(2,1)]) (simp_all add: INT_MAX_def)
  then show ?thesis using f w by auto
qed

end
