(* ===== verification/Spec2Isabelle.thy ===== *)
theory Spec2Isabelle
  imports
    Opal_Bitmap
    Opal_Pointer_Array
    Opal_Ring_Buffer
    Opal_Hotel
    Ompi_Seq_Tracker
    Opal_Hash_Table
    Topo_Cart
    Topo_Graph
    Topo_Dist_Graph
    Dims_Create
    Coll_Tuned
    Coll_Barrier_Tree
    Pml_Channel
    Pml_Comm
    Comm_Cid
    Memheap_Runs
    Memheap_Limits
    Memheap_Objects
    Allocator_Runs
    Ompi_Group
    XCL_Task_Map
    XCL_Task_Sched
    XCL_Devices
    XCL_Comms
    XCL_Exec
    XCL_Scatter
begin

text \<open>
  \<^bold>\<open>A verification library for XCLMPI\<close>, a fork of Open MPI with an extension, XCLFrame, that runs
  OpenCL kernels as tasks of MPI processes. The paths below are relative to \<^verbatim>\<open>src/\<close>.

  \<^bold>\<open>The program and its parts.\<close> Open MPI is layered: \<^verbatim>\<open>opal\<close> holds containers and utilities, \<^verbatim>\<open>orte\<close>
  starts processes, \<^verbatim>\<open>ompi\<close> implements MPI on top of replaceable components (\<^verbatim>\<open>ompi/mca\<close>). The
  development follows the layers from the containers upwards.

  \<^item> Containers of \<^verbatim>\<open>opal/class\<close> and \<^verbatim>\<open>ompi/class\<close>. \<open>Opal_Bitmap\<close> (\<^verbatim>\<open>opal_bitmap.c\<close>),
    \<open>Opal_Pointer_Array\<close> (\<^verbatim>\<open>opal_pointer_array.c\<close>) and \<open>Opal_Hotel\<close> (\<^verbatim>\<open>opal_hotel.c\<close>) hand out small
    numbers; what they promise is the locale \<open>id_allocator\<close> of \<open>Id_Allocator\<close> and its extensions,
    which each of them interprets. \<open>Opal_Ring_Buffer\<close> (\<^verbatim>\<open>opal_ring_buffer.c\<close>) refines a queue that
    forgets its oldest entries (locale \<open>lossy_queue\<close>). \<open>Opal_Hash_Table\<close> (\<^verbatim>\<open>opal_hash_table.c\<close>) is
    verified once for every hash function (locale \<open>hash_function\<close>) and interpreted for 32-bit,
    64-bit and byte-string keys. \<open>Ompi_Seq_Tracker\<close> (\<^verbatim>\<open>ompi_seq_tracker.c\<close>) equals a plain sorted
    insertion of ranges.
  \<^item> Process groups, \<^verbatim>\<open>ompi/group\<close>. \<open>Group_Formats\<close> models the three sparse storage formats, each an
    interpretation of \<open>sparse_format\<close>; \<open>Ompi_Group\<close> the groups themselves, with translation of
    ranks, inclusion, exclusion, ranges, set operations and comparison.
  \<^item> Topologies, \<^verbatim>\<open>ompi/mca/topo/base\<close>. \<open>Topo_Cart\<close>, \<open>Topo_Graph\<close> and \<open>Topo_Dist_Graph\<close> model
    Cartesian, graph and distributed-graph communicators; \<open>Dims_Create\<close> the factorisation of
    \<^verbatim>\<open>MPI_Dims_create\<close>. The distributed graph is built by all processes with messages, in any order.
  \<^item> Collective operations, \<^verbatim>\<open>ompi/mca/coll/tuned\<close>. \<open>Coll_Topo\<close> holds the builders of the trees of
    \<^verbatim>\<open>coll_tuned_topo.c\<close>, each process computing its own node; \<open>Coll_Topo\<close>, \<open>Coll_Kary\<close> and \<open>Coll_Bintree\<close>
    interpret the locale \<open>tree_builder\<close> with them: the nodes of all processes fit together.
    \<open>Coll_Net\<close> is the contract of the point-to-point layer as a step relation: a collective call
    is the sequence of sends, receives and waits its process makes, messages between two processes
    match in the order of posting, a standard send may be buffered at any time or never, a
    synchronous send completes with its match, and messages move at any time and in any
    interleaving. \<open>Coll_Bcast\<close> and \<open>Coll_Tuned\<close> model the segmented broadcast and its callers with
    the trees cached in the communicator (\<^verbatim>\<open>coll_tuned_bcast.c\<close>, \<^verbatim>\<open>coll_tuned.h\<close>); \<open>Coll_Barrier\<close> and
    \<open>Coll_Barrier_Tree\<close> the barriers (\<^verbatim>\<open>coll_tuned_barrier.c\<close>, and the default choice of
    \<^verbatim>\<open>coll_tuned_decision_fixed.c\<close>), over the locale \<open>timed_barrier\<close>. Every run ends, none ends in a
    deadlock, a broadcast leaves the data of the root in every buffer, and nobody leaves a barrier
    before all have entered. \<open>Opal_Bit_Ops\<close> has the bit operations of \<^verbatim>\<open>opal/util/bit_ops.h\<close>.
  \<^item> Point-to-point messages, \<^verbatim>\<open>ompi/mca/pml/ob1\<close>. \<open>Pml_Ob1\<close> models the matching engine: the queues of
    posted receives and unexpected messages of a communicator, the numbering and reordering of
    messages, and messages that come before their communicator exists. \<open>Pml_Matching\<close> states what MPI
    promises as a machine with one queue of receives and one queue of messages per source, and shows
    that each operation of the engine is a step of it; \<open>Pml_Order\<close> that messages which arrive out of
    order are matched in order, for whole runs; \<open>Pml_Channel\<close> that the messages of one source with one
    tag are first in, first out, which \<open>Coll_Net\<close> assumes; \<open>Pml_Comm\<close> that the fast path and the replay of
    early messages agree with the general routine, and what the wrap-around of a counter breaks.
  \<^item> Communicators, \<^verbatim>\<open>ompi/communicator/comm_cid.c\<close>. \<open>Comm_Cid\<close> models how the processes of a
    communicator agree on the context id of a new one, each with a table of its own
    (\<open>Opal_Pointer_Array\<close>), and what happens when the ids run out.
  \<^item> The symmetric heap of OpenSHMEM, \<^verbatim>\<open>oshmem/mca/memheap/buddy\<close>. \<open>Memheap_Bits\<close> has the bit operations of
    \<^verbatim>\<open>memheap_buddy.c\<close>, \<open>Memheap_Buddy\<close> the buddy allocator over them and over \<open>Opal_Hash_Table\<close>.
    \<open>Buddy_Tiling\<close> is the abstract allocator, a tiling of the heap by free and allocated blocks without
    two free buddies; \<open>Memheap_Heap\<close> and \<open>Memheap_Alloc\<close> show that the code refines it. \<open>Memheap_Module\<close>
    and \<open>Memheap_Runs\<close> treat the functions of the module and runs of them, \<open>Memheap_Limits\<close> the sizes
    for which they fail.
  \<^item> The basic allocator of memory pools, \<^verbatim>\<open>ompi/mca/allocator/basic/allocator_basic.c\<close>. \<open>Allocator_Basic\<close> models
    its list of free segments and the header it keeps before each block, in the memory of the client;
    \<open>Allocator_Runs\<close> shows that the list stays sorted and coalesced, what resizing does where it moves a
    block, and where it breaks the contract. That contract is the locale \<open>memory_allocator\<close> of
    \<open>Memory_Allocator\<close>, which the symmetric heap satisfies too (\<open>Memheap_Objects\<close>): a client sees a store of
    separate objects.
  \<^item> The extension, \<^verbatim>\<open>ompi/mpiext/XCLFrame\<close>. At start-up every process explores its OpenCL devices
    (\<open>XCL_Devices\<close>), reads the schedule file and matches tasks with devices (\<open>XCL_Task_Sched\<close>), and
    numbers the tasks of all processes (\<open>XCL_Task_Map\<close>). A task has a rack of memory objects on its
    device (\<open>XCL_Buffers\<close>), which the single-sided operations allocate, write, read and move between
    tasks and processes (\<open>XCL_Comms\<close>), and which a scatter fills from a file and a gather writes back
    (\<open>XCL_Scatter\<close>, with the single precision arithmetic of \<open>XCL_Float\<close>). Kernels are compiled,
    given arguments by a format string and launched as threads (\<open>XCL_Exec\<close>); waiting for them is in
    \<open>XCL_Task_Map\<close>. The property at the end of this theory connects the start-up with the initial
    state the operations on trays require.

  \<^bold>\<open>How the code is modelled\<close> (\<open>OMPI_Prelude\<close>). A C function is a HOL function with the same name
  into an option type: \<^const>\<open>None\<close> is undefined behaviour (an index outside its array, a null
  pointer, a division by zero, signed overflow where it is tracked) or a loop that does not end;
  every value the function returns, error codes included, is a \<^const>\<open>Some\<close>. Code that may call
  \<^verbatim>\<open>exit\<close> returns a sum whose \<^const>\<open>Inl\<close> is the exit status. So the theorem that a result is a
  \<^const>\<open>Some\<close> says that the code is memory safe and terminates. A struct is a record with the
  source's field names behind a short prefix; an array is a list whose length is its allocation;
  a pointer into a table is an index. Unsigned integers whose wrap-around matters are words, other
  integers are \<^typ>\<open>int\<close> with \<^verbatim>\<open>INT_MAX\<close> written out where the code can exceed it. What an allocation
  answers and what uninitialised memory holds are arguments (\<open>mem\<close>, \<open>junk\<close>).

  \<^bold>\<open>Parameters.\<close> OpenCL, MPI transport and the event library are not part of the repository or not
  modelled. OpenCL is a record of functions on a state of its own; \<open>opencl_spec\<close>,
  \<open>opencl_resources\<close>, \<open>setup_ok\<close> and \<open>kernel_spec\<close> state what its specification documents, and the
  witnesses use a concrete implementation (\<open>heap_opencl\<close>, \<open>table_kernels\<close>). Messages are values that
  are delivered in any order the MPI standard allows.

  \<^bold>\<open>What the lemmas show.\<close> For each container: a well-formedness invariant, that every operation
  keeps it, and the behaviour of each operation on every branch in terms of an abstract set, map
  or queue; the errors the code makes are theorems too (a limit counted in bytes, an array one
  cell too short, a wrap-around). For groups and topologies: exact characterisations of results,
  also on the short cuts, and that what one process computes fits what the others compute. For
  the extension: what is written is read back, transfers reach their destination and disturb
  nothing else, racks are never shared, and exactly when waiting returns.

  \<^bold>\<open>Bounds and fuel.\<close> Recursions without a structural argument are proved to terminate (by a measure
  on the remaining range, the remaining list or the remaining value); no definition takes fuel.
  The trees are built for at most \<open>2 ^ 25\<close> processes, the barriers for fewer than \<open>2 ^ 30\<close>, which keeps
  every intermediate value within \<^verbatim>\<open>int\<close>; a broadcast has between 1 and \<open>2 ^ 31 - 1\<close> elements.
  A run of the matching engine has less than \<open>2 ^ 32\<close> receives, and no message arrives \<open>2 ^ 16\<close> or more
  messages before one of the same source that is missing: these are the widths of the counters.
  The symmetric heap has at most \<open>2 ^ 31\<close> bytes, and its sizes are powers of two.
  \<open>XCL_Scatter\<close> is exact for fewer than \<open>2 ^ 24\<close> entities per process, beyond which single precision
  is not, and for entities of a multiple of four bytes, the size of the elementary type its views are made with;
  views of other entities are refused. The products and sums of edge counts in \<open>Topo_Dist_Graph\<close> are not
  bounded: a process with \<open>2 ^ 29\<close> edges or more is outside what that theory says of the code.

  \<^bold>\<open>Not modelled.\<close> Transport (the protocols of \<^verbatim>\<open>ompi/mca/pml\<close> once a message is matched, \<^verbatim>\<open>btl\<close>, \<^verbatim>\<open>mtl\<close>), one-sided windows and checkpointing are
  drivers over sockets, shared memory and adapters; of the collectives, the split binary broadcast,
  the barriers that receive from any source, reductions and exchanges of data are left, and the
  point-to-point layer is taken to report no errors to the broadcasts and barriers; \<^verbatim>\<open>orte\<close> and the tools are process control and
  I/O; the datatype engine is a pointer machine over raw memory; the Fortran, Java and C++ bindings
  convert arguments; VampirTrace, libevent, hwloc, ptmalloc and ROMIO are third-party code. Locks
  are left out: each operation of a container is one atomic step. Loading of the shared libraries
  of XCLFrame with \<^verbatim>\<open>dlopen\<close> is left out: a failure there ends the process. The interleaving of a
  launched kernel with its host process is not modelled.
\<close>

section \<open>Start-up of the extension\<close>

text \<open>
  The device type a line of the schedule names, and the ids of the devices of all tasks, in terms
  of what OpenCL reports.
\<close>

fun cl_type :: "devDesc \<Rightarrow> int" where
  "cl_type CPU = CL_DEVICE_TYPE_CPU"
| "cl_type GPU = CL_DEVICE_TYPE_GPU"
| "cl_type ACCEL = CL_DEVICE_TYPE_ACCELERATOR"

definition scheduled_ids :: "cl_queries \<Rightarrow> binding list \<Rightarrow> int list" where
  "scheduled_ids q es =
     concat (map (\<lambda>(k, i, c). replicate c (of_type q (cl_type k) (concat (platform_devices q)) ! i)) es)"

definition start_process :: "XCLtask list \<Rightarrow> Device list \<Rightarrow> 'w \<Rightarrow> 'w xcl_proc" where
  "start_process ts devs w = \<lparr>px_taskList = ts, px_devices = devs, px_tskbufferSize = [], px_MPIentityTypeSize = 0, px_ePerRank = 0, px_cl = w\<rparr>"

lemma count_take_mono:
  assumes "i < j" "j < length xs"
  shows "count_list (take i xs) (xs ! i) < count_list (take j xs) (xs ! i)"
proof -
  have "take j xs = take i xs @ xs ! i # take (j - Suc i) (drop (Suc i) xs)"
    using assms by (metis Cons_nth_drop_Suc Suc_diff_Suc le_add_diff_inverse less_imp_le less_trans take_Suc_Cons take_add)
  then show ?thesis by simp
qed

lemma racked_trays:
  assumes "\<forall>d\<in>set tds. d < length devs"
  shows "trays_rel bytes (start_process (map (racked_task t tds) [0..<length tds])
    (map (\<lambda>d. racked_device (devs ! d) (count_list tds d)) [0..<length devs]) w) (\<lambda>_. [])"
    (is "trays_rel bytes ?p _")
proof -
  have rack: "count_list (take i tds) (tds ! i) < count_list tds (tds ! i)" if "i < length tds" for i
    using count_take_mono [of i "length tds" "tds @ [0]"] that by (simp add: nth_append)
  have "rack_place ?p i \<noteq> rack_place ?p j" if "i < j" "j < length tds" for i j
    using count_take_mono [OF that] that by (auto simp: rack_place_def start_process_def racked_task_def)
  then have "inj_on (rack_place ?p) {..<length tds}"
    by (intro linorder_inj_onI') auto
  moreover have "racked_device (devs ! (tds ! i)) (count_list tds (tds ! i)) =
      (devs ! (tds ! i))\<lparr>dv_memHandler := Some (replicate (count_list tds (tds ! i)) None), dv_numRacks := int (count_list tds (tds ! i))\<rparr>"
    if "i < length tds" for i using rack [OF that] by (simp add: racked_device_def)
  ultimately have "locs_ok ?p"
    using assms rack by (simp add: locs_ok_def start_process_def racked_task_def)
  then show ?thesis by (simp add: trays_rel_def start_process_def racked_task_def)
qed

lemma device_array_ids:
  assumes "devices_ok q ds ld devs"
  shows "map (\<lambda>i. dv_deviceId (devs ! i)) (device_array ld k) = of_type q (cl_type k) ds" "\<forall>d\<in>set (device_array ld k). d < length devs"
  using assms by (cases k; auto simp: devices_ok_def)+

text \<open>C10: The start-up of a process, from the exploration of the devices to the task list. When every
  platform answers, contexts and queues can be created, and the schedule file has at most as many
  lines as there are devices, each with an existing device of its type: every task gets the
  device its line names, identified by its OpenCL id, and the process is in the initial state the
  operations on task buffers require, in which each task has a rack of its own without trays.\<close>

theorem startup_establishes_trays:
  assumes q: "\<forall>p\<in>set (clGetPlatformIDs q). clGetDeviceIDs q p \<noteq> None" and cs: "setup_ok cs"
    and es: "\<forall>(k, i, c)\<in>set es. i < length (of_type q (cl_type k) (concat (platform_devices q))) \<and> int i \<le> INT_MAX"
    and n: "int (total_tasks es) \<le> INT_MAX" "length es \<le> num_devices q (concat (platform_devices q))"
  shows "\<exists>xp ld devs w' ts devs'. XCLFrame_init q cs junk w = Some (Inr (xp, ld, devs, w'))
    \<and> createTaskList (\<lambda>_. True) junkD junkT (Some (cfg_text (total_tasks es) es)) ld (cx_numDevices xp) ALL_DEVICES l0 ts0 devs
        = Some (Inr (int (total_tasks es), ts, devs'))
    \<and> map (\<lambda>t. dv_deviceId (devs' ! the (tk_device t))) ts = scheduled_ids q es
    \<and> trays_rel bytes (start_process ts devs' w') (\<lambda>_. [])"
proof -
  obtain xp ld devs w' where init: "XCLFrame_init q cs junk w = Some (Inr (xp, ld, devs, w'))"
    and ok: "devices_ok q (concat (platform_devices q)) ld devs" and len: "cx_numDevices xp = int (length devs)"
    using init_devices_ok [OF q, of cs junk w] cs by auto
  let ?tds = "task_devices ld es" and ?t = "junkT\<lparr>tk_device := None, tk_trayInfo := None\<rparr>"
  let ?ts = "map (racked_task ?t ?tds) [0..<total_tasks es]"
    and ?devs = "map (\<lambda>d. racked_device (devs ! d) (count_list ?tds d)) [0..<length devs]"
  note ids = device_array_ids [OF ok]
  have valid: "valid_binding ld (length devs) e" if "e \<in> set es" for e
  proof -
    obtain k i c where e: "e = (k, i, c)" by (cases e)
    have "length (device_array ld k) = length (of_type q (cl_type k) (concat (platform_devices q)))" using ids(1) [of k] by (metis length_map)
    then show ?thesis using es that e ids(2) [of k] by (fastforce simp: valid_binding_def)
  qed
  then have tds: "\<forall>d\<in>set ?tds. d < length devs" by (fastforce simp: task_devices_def valid_binding_def)
  have "map (\<lambda>d. dv_deviceId (devs ! d)) ?tds = scheduled_ids q es"
    using valid by (auto simp: task_devices_def scheduled_ids_def map_concat valid_binding_def ids(1) [symmetric] intro!: arg_cong [of _ _ concat])
  moreover have "map (\<lambda>t. dv_deviceId (?devs ! the (tk_device t))) ?ts = map (\<lambda>d. dv_deviceId (devs ! d)) ?tds"
    using tds by (intro nth_equalityI) (auto simp: racked_task_def racked_device_def length_task_devices)
  moreover have "trays_rel bytes (start_process ?ts ?devs w') (\<lambda>_. [])"
    using racked_trays [OF tds, of bytes ?t w'] by (simp add: length_task_devices)
  moreover have "\<forall>dev\<in>set devs. dv_numRacks dev = 0" using ok by (simp add: devices_ok_def)
  moreover have "length es \<le> nat (cx_numDevices xp)" using n(2) len devices_ok_length [OF ok] by simp
  ultimately show ?thesis
    using init create_tasks_eq [of es ld devs "cx_numDevices xp" junkD junkT l0 ts0] valid n(1) by auto
qed

theorem startup_establishes_trays_witness:
  "\<exists>xp ld devs w' ts devs'. XCLFrame_init sample_queries sample_setup (hd sample_devices) 0 = Some (Inr (xp, ld, devs, w'))
    \<and> createTaskList (\<lambda>_. True) \<lparr>dt_mappedDevice = None, dt_min_tskIdx = 0, dt_max_tskIdx = 0\<rparr>
        \<lparr>tk_device = None, tk_numTrays = 7, tk_trayInfo = None, tk_Rack = 7\<rparr> (Some (cfg_text 3 [(CPU, 0, 2), (GPU, 0, 1)]))
        ld (cx_numDevices xp) ALL_DEVICES 0 [] devs = Some (Inr (3, ts, devs'))
    \<and> map (\<lambda>t. dv_deviceId (devs' ! the (tk_device t))) ts = [1, 1, 3]
    \<and> trays_rel (\<lambda>w m. None) (start_process ts devs' w') (\<lambda>_. [])"
proof -
  let ?es = "[(CPU, 0, 2), (GPU, 0, 1)]"
  have "setup_ok sample_setup" by (simp add: setup_ok_def sample_setup_def)
  moreover have "\<forall>p\<in>set (clGetPlatformIDs sample_queries). clGetDeviceIDs sample_queries p \<noteq> None" by (simp add: sample_queries_def)
  moreover have "\<forall>(k, i, c)\<in>set ?es. i < length (of_type sample_queries (cl_type k) (concat (platform_devices sample_queries))) \<and> int i \<le> INT_MAX"
    "length ?es \<le> num_devices sample_queries (concat (platform_devices sample_queries))" "int (total_tasks ?es) \<le> INT_MAX"
    by code_simp+
  moreover have "scheduled_ids sample_queries ?es = [1, 1, 3]" "total_tasks ?es = 3" by code_simp+
  ultimately show ?thesis
    using startup_establishes_trays [of sample_queries sample_setup ?es "hd sample_devices" 0 "\<lparr>dt_mappedDevice = None, dt_min_tskIdx = 0, dt_max_tskIdx = 0\<rparr>"
        "\<lparr>tk_device = None, tk_numTrays = 7, tk_trayInfo = None, tk_Rack = 7\<rparr>" 0 "[]" "\<lambda>w m. None"]
    by simp
qed

end
